(* ===== verification/Goblin_Prelude.thy ===== *)
theory Goblin_Prelude
  imports Complex_Main "HOL-Library.Multiset"
begin

text \<open>
  Shared vocabulary of the development: the base types and limits of
  \<^verbatim>\<open>include/globals.h\<close> and \<^verbatim>\<open>lib_src/globals.cpp\<close>, the exceptions as values of an
  error type, the linked lists that the container classes keep in index arrays, and the
  list lemmas the components share.

  Index types (\<open>TItem\<close>, \<open>TNode\<close>, \<open>TArc\<close>, \<open>TIndex\<close>, all unsigned long in the
  shipped configuration) are natural numbers: every index the containers handle is below
  \<open>NoNode\<close> or \<open>NoArc\<close>, far from the width of the type, and the two places where the
  code relies on the width (\<open>UITEM_MAX\<close> and \<open>HashVal\<close>) write the modulus out.
  \<open>TFloat\<close> keys are only compared and copied by the containers; they are reals, without the
  rounding and the NaN of the C++ type.
\<close>

section \<open>Base types, limits and exceptions\<close>

type_synonym TFloat = real
type_synonym THandle = nat

definition NoNode :: nat where "NoNode = 200000"
definition NoArc :: nat where "NoArc = 2000000000"
definition NoHandle :: nat where "NoHandle = 2000000000"
definition NoIndex :: nat where "NoIndex = 2000000000"
definition InfFloat :: TFloat where "InfFloat = 10 ^ 50"
definition InfCap :: real where "InfCap = 1000000000"

text \<open>
  The exception classes of \<^verbatim>\<open>globals.h\<close>. \<open>OutOfBounds\<close> is not one of them: it is the
  value of the model where the C++ code reads or writes outside an array.
\<close>

datatype goblin_error = ERRange | ERRejected | ERCheck | ERFile | ERParse | ERInternal
  | OutOfBounds

type_synonym 'a result = "goblin_error + 'a"

definition rbind :: "'a result \<Rightarrow> ('a \<Rightarrow> 'b result) \<Rightarrow> 'b result" where
  "rbind r f = (case r of Inl e \<Rightarrow> Inl e | Inr x \<Rightarrow> f x)"

lemma rbind_simps [simp]: "rbind (Inl e) f = Inl e" "rbind (Inr x) f = f x"
  by (simp_all add: rbind_def)

lemma rbind_Inr_iff: "rbind r f = Inr y \<longleftrightarrow> (\<exists>x. r = Inr x \<and> f x = Inr y)"
  by (cases r) auto

text \<open>Steps that may not return: \<open>None\<close>.\<close>

definition obind :: "'a result option \<Rightarrow> ('a \<Rightarrow> 'b result option) \<Rightarrow> 'b result option" where
  "obind r f = Option.bind r (\<lambda>x. case x of Inl e \<Rightarrow> Some (Inl e) | Inr y \<Rightarrow> f y)"

lemma obind_simps [simp]: "obind None f = None" "obind (Some (Inl e)) f = Some (Inl e)" "obind (Some (Inr y)) f = f y"
  by (simp_all add: obind_def)

lemma obind_mono [partial_function_mono]:
  assumes "mono_option A" "\<And>y. mono_option (\<lambda>f. B y f)"
  shows "mono_option (\<lambda>f. obind (A f) (\<lambda>y. B y f))"
  unfolding obind_def
proof (rule bind_mono [OF assms(1)])
  fix x show "mono_option (\<lambda>f. case x of Inl e \<Rightarrow> Some (Inl e) | Inr y \<Rightarrow> B y f)"
    by (cases x) (simp_all add: assms(2) option.const_mono)
qed

fun ofold :: "('a \<Rightarrow> 's \<Rightarrow> 's result option) \<Rightarrow> 'a list \<Rightarrow> 's \<Rightarrow> 's result option" where
  "ofold f [] st = Some (Inr st)"
| "ofold f (a # as) st = obind (f a st) (ofold f as)"

section \<open>Message classes and \<open>goblinController::Error\<close>\<close>

datatype msgType = ERR_CHECK | ERR_PARSE | ERR_FILE | ERR_RANGE | ERR_REJECTED | ERR_INTERNAL
  | MSG_APPEND | MSG_WARN | MSG_TRACE | MSG_TRACE2 | MSG_TIMES | MSG_ECHO | LOG_IO | LOG_MAN
  | LOG_MEM | LOG_MEM2 | LOG_RES | LOG_RES2 | LOG_METH | LOG_METH2 | LOG_FORMULA | LOG_TITLE
  | LOG_SHELL | LOG_TIMERS | LOG_GAPS | MSG_END | NO_MSG | MSG_COMPOUND

text \<open>
  \<open>goblinController::Error\<close> either throws or, for a warning, returns. The logging it does
  before is not part of the model; its early exits have the same outcome as the final switch.
\<close>

definition ctrl_Error :: "bool \<Rightarrow> msgType \<Rightarrow> unit result" where
  "ctrl_Error logWarn msg =
     (if \<not> logWarn \<and> msg = MSG_WARN then Inr ()
      else if \<not> logWarn \<and> msg = ERR_CHECK then Inl ERCheck
      else case msg of
          MSG_WARN \<Rightarrow> Inr ()
        | ERR_RANGE \<Rightarrow> Inl ERRange
        | ERR_REJECTED \<Rightarrow> Inl ERRejected
        | ERR_CHECK \<Rightarrow> Inl ERCheck
        | ERR_FILE \<Rightarrow> Inl ERFile
        | ERR_PARSE \<Rightarrow> Inl ERParse
        | _ \<Rightarrow> Inl ERInternal)"

lemma ctrl_Error_throws: "ctrl_Error w msg = Inr () \<longleftrightarrow> msg = MSG_WARN"
  by (cases msg) (auto simp: ctrl_Error_def)

section \<open>Linked lists in index arrays\<close>

text \<open>
  The static containers, the hash tables and the set families keep linked lists in arrays:
  the successor of index \<open>i\<close> is \<open>f i\<close>. \<open>chain f x as y\<close> says that following \<open>f\<close> from
  \<open>x\<close> visits exactly \<open>as\<close> and stops at \<open>y\<close>.
\<close>

fun chain :: "(nat \<Rightarrow> nat) \<Rightarrow> nat \<Rightarrow> nat list \<Rightarrow> nat \<Rightarrow> bool" where
  "chain f x [] y \<longleftrightarrow> x = y"
| "chain f x (a # as) y \<longleftrightarrow> x = a \<and> chain f (f a) as y"

named_theorems chain_simps

lemma chain_append [chain_simps]:
  "chain f x (as @ bs) y \<longleftrightarrow> (\<exists>z. chain f x as z \<and> chain f z bs y)"
  by (induction as arbitrary: x) auto

lemma chain_cong:
  "(\<And>a. a \<in> set as \<Longrightarrow> f a = g a) \<Longrightarrow> chain f x as y = chain g x as y"
  by (induction as arbitrary: x) auto

lemma chain_upd_notin [chain_simps]:
  "a \<notin> set as \<Longrightarrow> chain (f(a := b)) x as y = chain f x as y"
  by (rule chain_cong) auto

lemma chain_list_update_notin [chain_simps]:
  "a \<notin> set as \<Longrightarrow> chain (\<lambda>i. xs[a := b] ! i) x as y = chain (\<lambda>i. xs ! i) x as y"
  by (rule chain_cong) (metis nth_list_update_neq)

lemma chain_ConsE:
  assumes "chain f x as y" and "x \<noteq> y"
  obtains bs where "as = x # bs" and "chain f (f x) bs y"
  using assms by (cases as) auto

lemma chain_unique:
  "chain f x as y \<Longrightarrow> chain f x bs y \<Longrightarrow> y \<notin> set as \<Longrightarrow> y \<notin> set bs \<Longrightarrow> as = bs"
proof (induction as arbitrary: x bs)
  case Nil
  then show ?case by (cases bs) auto
next
  case (Cons a as)
  then show ?case by (cases bs) auto
qed

text \<open>The first \<open>k\<close> indices met when following \<open>f\<close> from \<open>x\<close>.\<close>

fun walk :: "(nat \<Rightarrow> nat) \<Rightarrow> nat \<Rightarrow> nat \<Rightarrow> nat list" where
  "walk f x 0 = []"
| "walk f x (Suc k) = x # walk f (f x) k"

lemma length_walk [simp]: "length (walk f x k) = k"
  by (induction k arbitrary: x) auto

lemma chain_walk: "chain f x as y \<Longrightarrow> walk f x (length as) = as"
  by (induction as arbitrary: x) auto

lemma walk_eqI: "chain f x as y \<Longrightarrow> k = length as \<Longrightarrow> walk f x k = as"
  by (simp add: chain_walk)

section \<open>Lists\<close>

lemma nth_list_upd: "i < length xs \<Longrightarrow> (!) (xs[i := a]) = ((!) xs)(i := a)"
  by (auto simp: fun_eq_iff nth_list_update)

lemma nth_upd_notin [simp]: "w \<notin> set xs \<Longrightarrow> x \<in> set xs \<Longrightarrow> ys[w := v] ! x = ys ! x"
  by (metis nth_list_update_neq)

lemma filter_split:
  assumes "j \<le> length ys" "\<And>i. i < j \<Longrightarrow> P (ys ! i)"
    "\<And>i. j \<le> i \<Longrightarrow> i < length ys \<Longrightarrow> \<not> P (ys ! i)"
  shows "filter P ys = take j ys" and "filter (\<lambda>y. \<not> P y) ys = drop j ys"
proof -
  have t: "\<forall>y \<in> set (take j ys). P y"
    using assms(1,2) by (auto simp: in_set_conv_nth)
  have d: "\<forall>y \<in> set (drop j ys). \<not> P y"
    using assms(1,3) by (auto simp: in_set_conv_nth)
  have "filter P (take j ys @ drop j ys) = take j ys"
    using t d by (simp add: filter_empty_conv del: append_take_drop_id)
  then show "filter P ys = take j ys" by simp
  have "filter (\<lambda>y. \<not> P y) (take j ys @ drop j ys) = drop j ys"
    using t d by (simp add: filter_empty_conv del: append_take_drop_id)
  then show "filter (\<lambda>y. \<not> P y) ys = drop j ys" by simp
qed

lemma hd_conv_take: "xs \<noteq> [] \<Longrightarrow> xs = hd xs # tl xs"
  by simp

lemma last_take_nth: "0 < k \<Longrightarrow> k \<le> length xs \<Longrightarrow> last (take k xs) = xs ! (k - 1)"
  by (metis Suc_diff_1 Suc_le_lessD last_snoc take_Suc_conv_app_nth)

end
