(* ===== verification/Index_Set.thy ===== *)
theory Index_Set
  imports Goblin_Prelude
begin

text \<open>
  Index sets (\<^verbatim>\<open>include/indexSet.h\<close>): the abstract class \<open>indexSet\<close> with its default
  enumeration, and the concrete classes for singletons, full and void ranges and the Boolean
  combinations. The solvers iterate over an index set with
  \<open>for (s=S.First(); s<n; s=S.Successor(s))\<close>; the theory proves that this loop visits
  exactly the members, once each, in increasing order.
\<close>

section \<open>The class hierarchy\<close>

datatype indexSet =
    singletonIndex nat nat \<comment> \<open>contained index, range\<close>
  | fullIndex nat
  | voidIndex nat
  | indexSetUnion indexSet indexSet
  | indexSetCut indexSet indexSet
  | indexSetMinus indexSet indexSet
  | indexSetDifference indexSet indexSet
  | indexSetComplement indexSet

fun maxIndex :: "indexSet \<Rightarrow> nat" where
  "maxIndex (singletonIndex i nn) = nn"
| "maxIndex (fullIndex nn) = nn"
| "maxIndex (voidIndex nn) = nn"
| "maxIndex (indexSetUnion A B) = (if maxIndex A > maxIndex B then maxIndex A else maxIndex B)"
| "maxIndex (indexSetCut A B) = (if maxIndex A > maxIndex B then maxIndex A else maxIndex B)"
| "maxIndex (indexSetMinus A B) = (if maxIndex A > maxIndex B then maxIndex A else maxIndex B)"
| "maxIndex (indexSetDifference A B) =
     (if maxIndex A > maxIndex B then maxIndex A else maxIndex B)"
| "maxIndex (indexSetComplement A) = maxIndex A"

fun IsMember :: "indexSet \<Rightarrow> nat \<Rightarrow> bool" where
  "IsMember (singletonIndex i nn) j \<longleftrightarrow> j = i"
| "IsMember (fullIndex nn) j \<longleftrightarrow> True"
| "IsMember (voidIndex nn) j \<longleftrightarrow> False"
| "IsMember (indexSetUnion A B) j \<longleftrightarrow> IsMember A j \<or> IsMember B j"
| "IsMember (indexSetCut A B) j \<longleftrightarrow> IsMember A j \<and> IsMember B j"
| "IsMember (indexSetMinus A B) j \<longleftrightarrow> IsMember A j \<and> \<not> IsMember B j"
| "IsMember (indexSetDifference A B) j \<longleftrightarrow> IsMember A j \<noteq> IsMember B j"
| "IsMember (indexSetComplement A) j \<longleftrightarrow> \<not> IsMember A j"

text \<open>The base-class loops: the first member at or after \<open>i\<close>, or \<open>maxIndex\<close>.\<close>

function scan_members :: "(nat \<Rightarrow> bool) \<Rightarrow> nat \<Rightarrow> nat \<Rightarrow> nat" where
  "scan_members mem i nn = (if i < nn then (if mem i then i else scan_members mem (Suc i) nn) else nn)"
  by pat_completeness auto
termination
  by (relation "measure (\<lambda>(mem, i, nn). nn - i)") auto

declare scan_members.simps [simp del]

definition base_First :: "indexSet \<Rightarrow> nat" where
  "base_First S = scan_members (IsMember S) 0 (maxIndex S)"

definition base_Successor :: "indexSet \<Rightarrow> nat \<Rightarrow> nat" where
  "base_Successor S i = scan_members (IsMember S) (Suc i) (maxIndex S)"

fun First :: "indexSet \<Rightarrow> nat" where
  "First (singletonIndex i nn) = i"
| "First (fullIndex nn) = 0"
| "First (voidIndex nn) = nn"
| "First S = base_First S"

fun Successor :: "indexSet \<Rightarrow> nat \<Rightarrow> nat" where
  "Successor (singletonIndex i nn) j = nn"
| "Successor (fullIndex nn) j = Suc j"
| "Successor (voidIndex nn) j = nn"
| "Successor S j = base_Successor S j"

text \<open>The client loop, as the list of indices for which its body runs.\<close>

partial_function (option) index_loop :: "(nat \<Rightarrow> nat) \<Rightarrow> nat \<Rightarrow> nat \<Rightarrow> nat list option" where
  "index_loop succ nn s =
     (if s < nn then Option.bind (index_loop succ nn (succ s)) (\<lambda>xs. Some (s # xs)) else Some [])"

declare index_loop.simps [code]

definition indexSet_loop :: "indexSet \<Rightarrow> nat list option" where
  "indexSet_loop S = index_loop (Successor S) (maxIndex S) (First S)"

section \<open>Enumeration\<close>

text \<open>
  What the loop needs of a class: from any position below the range, \<open>Successor\<close> goes to
  the next member, or past the range.
\<close>

locale enumerable =
  fixes mem :: "nat \<Rightarrow> bool" and succ :: "nat \<Rightarrow> nat" and nn :: nat
  assumes succ_gt: "s < nn \<Longrightarrow> s < succ s"
    and succ_skips: "s < nn \<Longrightarrow> s < j \<Longrightarrow> j < succ s \<Longrightarrow> j < nn \<Longrightarrow> mem s \<Longrightarrow> \<not> mem j"
    and succ_mem: "s < nn \<Longrightarrow> succ s < nn \<Longrightarrow> mem s \<Longrightarrow> mem (succ s)"
begin

lemma loop_from_member:
  "mem s \<or> nn \<le> s \<Longrightarrow> index_loop succ nn s = Some (filter mem [s..<nn])"
proof (induction "nn - s" arbitrary: s rule: less_induct)
  case less
  show ?case
  proof (cases "s < nn")
    case True
    with less.prems have m: "mem s" by simp
    have "mem (succ s) \<or> nn \<le> succ s"
      using succ_mem [OF True _ m] by (meson not_le)
    moreover have "nn - succ s < nn - s"
      using succ_gt [OF True] True by simp
    ultimately have IH: "index_loop succ nn (succ s) = Some (filter mem [succ s..<nn])"
      using less.hyps by blast
    define e where "e = min (succ s) nn"
    have e: "Suc s \<le> e" "e \<le> nn"
      using succ_gt [OF True] True by (auto simp: e_def)
    have "filter mem [Suc s..<e] = []"
      using succ_skips [OF True] m e by (auto simp: filter_empty_conv e_def)
    moreover have "[Suc s..<nn] = [Suc s..<e] @ [e..<nn]"
      using e by (metis le_Suc_ex upt_add_eq_append)
    moreover have "[e..<nn] = [succ s..<nn]"
      by (cases "succ s \<le> nn") (auto simp: e_def)
    ultimately have "filter mem [Suc s..<nn] = filter mem [succ s..<nn]"
      by simp
    with True m IH show ?thesis
      by (subst index_loop.simps) (simp add: upt_conv_Cons)
  next
    case False
    then show ?thesis by (subst index_loop.simps) simp
  qed
qed

end

lemma scan_members_range:
  "i \<le> nn \<Longrightarrow> i \<le> scan_members mem i nn \<and> scan_members mem i nn \<le> nn"
proof (induction mem i nn rule: scan_members.induct)
  case (1 mem i nn)
  then show ?case by (subst (1 2) scan_members.simps) (fastforce intro: Suc_leD)
qed

lemma scan_members_mem:
  "scan_members mem i nn < nn \<Longrightarrow> mem (scan_members mem i nn)"
proof (induction mem i nn rule: scan_members.induct)
  case (1 mem i nn)
  then show ?case
    by (subst scan_members.simps, subst (asm) (2) scan_members.simps) (auto split: if_splits)
qed

lemma scan_members_skips:
  "i \<le> j \<Longrightarrow> j < scan_members mem i nn \<Longrightarrow> j < nn \<Longrightarrow> \<not> mem j"
proof (induction mem i nn rule: scan_members.induct)
  case (1 mem i nn)
  then show ?case
    by (subst (asm) (2) scan_members.simps)
      (auto split: if_splits, metis Suc_leI le_neq_implies_less)
qed

lemma base_enumerable: "enumerable (IsMember S) (base_Successor S) (maxIndex S)"
proof
  fix s assume s: "s < maxIndex S"
  then show "s < base_Successor S s"
    using scan_members_range [of "Suc s" "maxIndex S" "IsMember S"] by (simp add: base_Successor_def)
  show "IsMember S (base_Successor S s)" if "base_Successor S s < maxIndex S"
    using scan_members_mem that by (simp add: base_Successor_def)
  show "\<not> IsMember S j" if "s < j" "j < base_Successor S s" "j < maxIndex S" for j
    using that scan_members_skips by (metis Suc_leI base_Successor_def)
qed

interpretation single: enumerable "\<lambda>j. j = i" "\<lambda>j. nn" nn for i nn :: nat
  by unfold_locales auto

interpretation full: enumerable "\<lambda>j. True" Suc nn for nn :: nat
  by unfold_locales auto

interpretation base: enumerable "IsMember S" "base_Successor S" "maxIndex S" for S
  by (rule base_enumerable)

lemma base_loop:
  "index_loop (base_Successor S) (maxIndex S) (base_First S)
   = Some (filter (IsMember S) [0..<maxIndex S])"
proof -
  let ?f = "base_First S" and ?n = "maxIndex S"
  have range: "?f \<le> ?n" by (simp add: base_First_def scan_members_range)
  then have "IsMember S ?f \<or> ?n \<le> ?f"
    using scan_members_mem by (metis base_First_def le_less_linear)
  then have "index_loop (base_Successor S) ?n ?f = Some (filter (IsMember S) [?f..<?n])"
    by (rule base.loop_from_member)
  moreover have "filter (IsMember S) [0..<?f] = []"
    using scan_members_skips [of 0] range by (fastforce simp: base_First_def filter_empty_conv)
  moreover have "[0..<?n] = [0..<?f] @ [?f..<?n]"
    using range by (metis le_add_diff_inverse le0 upt_add_eq_append)
  ultimately show ?thesis by simp
qed

lemma composite:
  "First (indexSetUnion A B) = base_First (indexSetUnion A B)"
  "Successor (indexSetUnion A B) = base_Successor (indexSetUnion A B)"
  "First (indexSetCut A B) = base_First (indexSetCut A B)"
  "Successor (indexSetCut A B) = base_Successor (indexSetCut A B)"
  "First (indexSetMinus A B) = base_First (indexSetMinus A B)"
  "Successor (indexSetMinus A B) = base_Successor (indexSetMinus A B)"
  "First (indexSetDifference A B) = base_First (indexSetDifference A B)"
  "Successor (indexSetDifference A B) = base_Successor (indexSetDifference A B)"
  "First (indexSetComplement A) = base_First (indexSetComplement A)"
  "Successor (indexSetComplement A) = base_Successor (indexSetComplement A)"
  by auto

text \<open>
  Every index set enumerates its members below its range, in increasing order and each once;
  the loop always ends.
\<close>

lemma indexSet_loop_members:
  "indexSet_loop S = Some (filter (IsMember S) [0..<maxIndex S])"
proof (cases S)
  case (singletonIndex i nn)
  have "filter (\<lambda>j. j = i) [0..<nn] = filter (\<lambda>j. j = i) [i..<nn]" if "i < nn"
  proof -
    have "[0..<nn] = [0..<i] @ [i..<nn]"
      using that by (metis le_add_diff_inverse le0 less_imp_le upt_add_eq_append)
    moreover have "filter (\<lambda>j. j = i) [0..<i] = []" by (simp add: filter_empty_conv)
    ultimately show ?thesis by simp
  qed
  moreover have "filter (\<lambda>j. j = i) [0..<nn] = []" if "\<not> i < nn"
    using that by (simp add: filter_empty_conv)
  moreover have "Successor S = (\<lambda>j. nn)" "IsMember S = (\<lambda>j. j = i)"
    using singletonIndex by auto
  ultimately show ?thesis
    using single.loop_from_member [of i i nn] singletonIndex
    by (cases "i < nn") (simp_all add: indexSet_loop_def)
next
  case (fullIndex nn)
  then have "Successor S = Suc" "IsMember S = (\<lambda>j. True)" by auto
  then show ?thesis
    using full.loop_from_member [of nn 0] fullIndex by (simp add: indexSet_loop_def)
next
  case (voidIndex nn)
  then show ?thesis by (simp add: indexSet_loop_def index_loop.simps)
qed (metis base_loop composite indexSet_loop_def)+

end
