(* ===== verification/Goblin_Queue.thy ===== *)
theory Goblin_Queue
  imports Goblin_Prelude
begin

text \<open>
  The interface class \<open>goblinQueue\<close> (\<^verbatim>\<open>include/goblinQueue.h\<close>): the insertion modes, the
  base-class methods \<open>Init\<close> and \<open>Empty\<close> that are written once for every container,
  and the contract the implementations promise, as locales. Clients of the interface are
  proved inside the locales; the container theories interpret them.
\<close>

section \<open>Base class\<close>

datatype TOptInsert = INSERT_NO_THROW | INSERT_TWICE_THROW

text \<open>
  \<open>goblinQueue::Init\<close> is \<open>while (!Empty()) Delete();\<close>. Not returning is \<open>None\<close>.
\<close>

partial_function (option) goblinQueue_Init ::
  "('q \<Rightarrow> bool) \<Rightarrow> ('q \<Rightarrow> (nat \<times> 'q) result) \<Rightarrow> 'q \<Rightarrow> 'q result option" where
  "goblinQueue_Init isEmpty del q =
     (if isEmpty q then Some (Inr q)
      else case del q of
          Inl e \<Rightarrow> Some (Inl e)
        | Inr r \<Rightarrow> goblinQueue_Init isEmpty del (snd r))"

declare goblinQueue_Init.simps [code]

definition goblinQueue_Empty :: "('q \<Rightarrow> nat) \<Rightarrow> 'q \<Rightarrow> bool" where
  "goblinQueue_Empty crd q \<longleftrightarrow> crd q = 0"

section \<open>The contract of every container\<close>

locale goblin_container =
  fixes inv :: "'q \<Rightarrow> bool"
    and elems :: "'q \<Rightarrow> nat multiset"
    and isEmpty :: "'q \<Rightarrow> bool"
    and crd :: "'q \<Rightarrow> nat"
    and del :: "'q \<Rightarrow> (nat \<times> 'q) result"
    and peek :: "'q \<Rightarrow> nat result"
  assumes empty_elems: "inv q \<Longrightarrow> isEmpty q \<longleftrightarrow> elems q = {#}"
    and card_elems: "inv q \<Longrightarrow> crd q = size (elems q)"
    and del_empty: "inv q \<Longrightarrow> isEmpty q \<Longrightarrow> del q = Inl ERRejected"
    and peek_empty: "inv q \<Longrightarrow> isEmpty q \<Longrightarrow> peek q = Inl ERRejected"
    and del_elems: "inv q \<Longrightarrow> \<not> isEmpty q \<Longrightarrow>
      \<exists>x q'. del q = Inr (x, q') \<and> peek q = Inr x \<and> x \<in># elems q
        \<and> elems q' = elems q - {#x#} \<and> inv q'"
begin

lemma Empty_default: "inv q \<Longrightarrow> goblinQueue_Empty crd q = isEmpty q"
  by (simp add: goblinQueue_Empty_def card_elems empty_elems)

lemma Init_returns:
  "inv q \<Longrightarrow> \<exists>q'. goblinQueue_Init isEmpty del q = Some (Inr q') \<and> inv q' \<and> isEmpty q'"
proof (induction "size (elems q)" arbitrary: q rule: less_induct)
  case less
  show ?case
  proof (cases "isEmpty q")
    case True
    with less.prems show ?thesis by (subst goblinQueue_Init.simps) simp
  next
    case False
    with less.prems obtain x q' where d: "del q = Inr (x, q')" "x \<in># elems q"
      "elems q' = elems q - {#x#}" "inv q'"
      using del_elems by blast
    then have "size (elems q') < size (elems q)"
      by (simp add: size_Diff1_less)
    with less.hyps d(4) obtain q'' where
      "goblinQueue_Init isEmpty del q' = Some (Inr q'')" "inv q''" "isEmpty q''"
      by blast
    with False d(1) show ?thesis by (subst goblinQueue_Init.simps) simp
  qed
qed

end

section \<open>Sequences: stacks and queues\<close>

text \<open>
  Runs of operations and what they return. An operation that throws leaves the container as it
  was. The abstract container is a list in deletion order: \<open>place\<close> says where \<open>Insert\<close>
  puts a new index (in front for a stack, at the end for a queue), \<open>nn\<close> bounds the indices
  and \<open>uniq\<close> says whether an index may be on the container only once.
\<close>

datatype queue_op = OpInsert nat | OpDelete | OpPeek | OpCardinality

datatype queue_out = OutUnit | OutItem nat | OutError goblin_error

fun queue_step :: "('q \<Rightarrow> nat \<Rightarrow> 'q result) \<Rightarrow> ('q \<Rightarrow> (nat \<times> 'q) result) \<Rightarrow> ('q \<Rightarrow> nat result)
    \<Rightarrow> ('q \<Rightarrow> nat) \<Rightarrow> 'q \<Rightarrow> queue_op \<Rightarrow> 'q \<times> queue_out" where
  "queue_step ins del peek crd q (OpInsert x) =
     (case ins q x of Inl e \<Rightarrow> (q, OutError e) | Inr q' \<Rightarrow> (q', OutUnit))"
| "queue_step ins del peek crd q OpDelete =
     (case del q of Inl e \<Rightarrow> (q, OutError e) | Inr (x, q') \<Rightarrow> (q', OutItem x))"
| "queue_step ins del peek crd q OpPeek =
     (case peek q of Inl e \<Rightarrow> (q, OutError e) | Inr x \<Rightarrow> (q, OutItem x))"
| "queue_step ins del peek crd q OpCardinality = (q, OutItem (crd q))"

fun queue_run :: "('q \<Rightarrow> queue_op \<Rightarrow> 'q \<times> queue_out) \<Rightarrow> 'q \<Rightarrow> queue_op list \<Rightarrow> queue_out list" where
  "queue_run step q [] = []"
| "queue_run step q (x # xs) = (case step q x of (q', r) \<Rightarrow> r # queue_run step q' xs)"

fun spec_step :: "(nat \<Rightarrow> nat list \<Rightarrow> nat list) \<Rightarrow> bool \<Rightarrow> nat \<Rightarrow> nat list \<Rightarrow> queue_op
    \<Rightarrow> nat list \<times> queue_out" where
  "spec_step place uniq nn xs (OpInsert x) =
     (if x \<ge> nn then (xs, OutError ERRange)
      else if uniq \<and> x \<in> set xs then (xs, OutError ERCheck)
      else (place x xs, OutUnit))"
| "spec_step place uniq nn xs OpDelete =
     (case xs of [] \<Rightarrow> (xs, OutError ERRejected) | y # ys \<Rightarrow> (ys, OutItem y))"
| "spec_step place uniq nn xs OpPeek =
     (case xs of [] \<Rightarrow> (xs, OutError ERRejected) | y # ys \<Rightarrow> (xs, OutItem y))"
| "spec_step place uniq nn xs OpCardinality = (xs, OutItem (length xs))"

definition enqueue_place :: "nat \<Rightarrow> nat list \<Rightarrow> nat list" where
  "enqueue_place x xs = xs @ [x]"

locale seq_container =
  fixes inv :: "'q \<Rightarrow> bool"
    and items :: "'q \<Rightarrow> nat list"
    and isEmpty :: "'q \<Rightarrow> bool"
    and crd :: "'q \<Rightarrow> nat"
    and del :: "'q \<Rightarrow> (nat \<times> 'q) result"
    and peek :: "'q \<Rightarrow> nat result"
    and ins :: "'q \<Rightarrow> nat \<Rightarrow> 'q result"
    and rng :: "'q \<Rightarrow> nat"
    and uniq :: bool
    and place :: "nat \<Rightarrow> nat list \<Rightarrow> nat list"
  assumes seq_empty: "inv q \<Longrightarrow> isEmpty q \<longleftrightarrow> items q = []"
    and seq_card: "inv q \<Longrightarrow> crd q = length (items q)"
    and seq_del_Nil: "inv q \<Longrightarrow> items q = [] \<Longrightarrow> del q = Inl ERRejected"
    and seq_peek_Nil: "inv q \<Longrightarrow> items q = [] \<Longrightarrow> peek q = Inl ERRejected"
    and seq_del_Cons: "inv q \<Longrightarrow> items q = x # xs \<Longrightarrow>
      \<exists>q'. del q = Inr (x, q') \<and> items q' = xs \<and> rng q' = rng q \<and> inv q'"
    and seq_peek_Cons: "inv q \<Longrightarrow> items q = x # xs \<Longrightarrow> peek q = Inr x"
    and seq_ins: "inv q \<Longrightarrow> x < rng q \<Longrightarrow> \<not> (uniq \<and> x \<in> set (items q)) \<Longrightarrow>
      \<exists>q'. ins q x = Inr q' \<and> items q' = place x (items q) \<and> rng q' = rng q \<and> inv q'"
    and seq_ins_range: "inv q \<Longrightarrow> rng q \<le> x \<Longrightarrow> ins q x = Inl ERRange"
    and seq_ins_twice: "inv q \<Longrightarrow> x < rng q \<Longrightarrow> uniq \<Longrightarrow> x \<in> set (items q) \<Longrightarrow> ins q x = Inl ERCheck"
begin

sublocale base: goblin_container inv "\<lambda>q. mset (items q)" isEmpty crd del peek
proof unfold_locales
  fix q
  assume inv: "inv q" and ne: "\<not> isEmpty q"
  then obtain x xs where "items q = x # xs"
    by (cases "items q") (auto simp: seq_empty)
  with inv seq_del_Cons seq_peek_Cons
  show "\<exists>x q'. del q = Inr (x, q') \<and> peek q = Inr x \<and> x \<in># mset (items q)
      \<and> mset (items q') = mset (items q) - {#x#} \<and> inv q'"
    by fastforce
qed (simp_all add: seq_empty seq_card seq_del_Nil seq_peek_Nil)

lemma Init_items:
  assumes "inv q"
  obtains q' where "goblinQueue_Init isEmpty del q = Some (Inr q')" "inv q'" "items q' = []"
  using base.Init_returns [OF assms] by (auto simp: seq_empty)

text \<open>One step of the container is one step of the abstract list.\<close>

lemma step_refines:
  assumes "inv q"
  shows "case queue_step ins del peek crd q op of (q', out) \<Rightarrow>
    spec_step place uniq (rng q) (items q) op = (items q', out) \<and> inv q' \<and> rng q' = rng q"
proof (cases op)
  case (OpInsert x)
  then consider "rng q \<le> x" | "x < rng q" "uniq \<and> x \<in> set (items q)"
    | "x < rng q" "\<not> (uniq \<and> x \<in> set (items q))" by force
  then show ?thesis
  proof cases
    case 1
    with assms OpInsert show ?thesis by (simp add: seq_ins_range)
  next
    case 2
    with assms OpInsert show ?thesis by (simp add: seq_ins_twice)
  next
    case 3
    with assms obtain q' where "ins q x = Inr q'" "items q' = place x (items q)"
      "rng q' = rng q" "inv q'"
      using seq_ins by blast
    with 3 OpInsert show ?thesis by simp
  qed
next
  case OpDelete
  show ?thesis
  proof (cases "items q")
    case Nil
    with OpDelete assms show ?thesis by (simp add: seq_del_Nil)
  next
    case (Cons y ys)
    with assms obtain q' where "del q = Inr (y, q')" "items q' = ys" "rng q' = rng q" "inv q'"
      using seq_del_Cons by blast
    with Cons OpDelete show ?thesis by simp
  qed
next
  case OpPeek
  with assms show ?thesis by (cases "items q") (simp_all add: seq_peek_Nil seq_peek_Cons)
next
  case OpCardinality
  with assms show ?thesis by (simp add: seq_card)
qed

lemma run_refines:
  "inv q \<Longrightarrow> queue_run (queue_step ins del peek crd) q xs
    = queue_run (spec_step place uniq (rng q)) (items q) xs"
proof (induction xs arbitrary: q)
  case Nil
  then show ?case by simp
next
  case (Cons x xs)
  obtain q' out where step: "queue_step ins del peek crd q x = (q', out)"
    by (cases "queue_step ins del peek crd q x")
  with step_refines [OF Cons.prems, of x]
  have "spec_step place uniq (rng q) (items q) x = (items q', out)" "inv q'" "rng q' = rng q"
    by simp_all
  with step Cons.IH [of q'] show ?case by simp
qed

end

section \<open>Draining\<close>

text \<open>The sequence of indices that \<open>k\<close> successive \<open>Delete\<close> calls return.\<close>

fun deletions :: "('q \<Rightarrow> (nat \<times> 'q) result) \<Rightarrow> nat \<Rightarrow> 'q \<Rightarrow> nat list result" where
  "deletions del 0 q = Inr []"
| "deletions del (Suc k) q =
     (case del q of Inl e \<Rightarrow> Inl e
      | Inr r \<Rightarrow> rbind (deletions del k (snd r)) (\<lambda>xs. Inr (fst r # xs)))"

section \<open>Priority queues\<close>

text \<open>
  Runs of priority queue operations and what they may return. The abstract queue is a finite map
  from indices to keys; ties are broken by the implementation, so the specification is a relation.
  An insertion of a present index, an index that is not present in \<open>ChangeKey\<close> and a key that the
  class cannot store are misuse: nothing is promised from there on.
\<close>

datatype prio_op = PInsert nat TFloat | PChangeKey nat TFloat | PDelete | PPeek

fun prio_step :: "('q \<Rightarrow> nat \<Rightarrow> TFloat \<Rightarrow> 'q result) \<Rightarrow> ('q \<Rightarrow> nat \<Rightarrow> TFloat \<Rightarrow> 'q result)
    \<Rightarrow> ('q \<Rightarrow> (nat \<times> 'q) result) \<Rightarrow> ('q \<Rightarrow> nat result) \<Rightarrow> 'q \<Rightarrow> prio_op \<Rightarrow> 'q \<times> queue_out" where
  "prio_step ins chg del peek q (PInsert x a) =
     (case ins q x a of Inl e \<Rightarrow> (q, OutError e) | Inr q' \<Rightarrow> (q', OutUnit))"
| "prio_step ins chg del peek q (PChangeKey x a) =
     (case chg q x a of Inl e \<Rightarrow> (q, OutError e) | Inr q' \<Rightarrow> (q', OutUnit))"
| "prio_step ins chg del peek q PDelete =
     (case del q of Inl e \<Rightarrow> (q, OutError e) | Inr (x, q') \<Rightarrow> (q', OutItem x))"
| "prio_step ins chg del peek q PPeek =
     (case peek q of Inl e \<Rightarrow> (q, OutError e) | Inr x \<Rightarrow> (q, OutItem x))"

fun prio_run :: "('q \<Rightarrow> prio_op \<Rightarrow> 'q \<times> queue_out) \<Rightarrow> 'q \<Rightarrow> prio_op list \<Rightarrow> queue_out list" where
  "prio_run step q [] = []"
| "prio_run step q (x # xs) = (case step q x of (q', r) \<Rightarrow> r # prio_run step q' xs)"

definition least_key :: "(nat \<rightharpoonup> TFloat) \<Rightarrow> nat \<Rightarrow> bool" where
  "least_key M x \<longleftrightarrow> (\<exists>a. M x = Some a \<and> (\<forall>y b. M y = Some b \<longrightarrow> a \<le> b))"

inductive prio_spec :: "nat \<Rightarrow> (TFloat \<Rightarrow> bool) \<Rightarrow> (nat \<rightharpoonup> TFloat) \<Rightarrow> prio_op list \<Rightarrow> queue_out list \<Rightarrow> bool"
  for nn okkey where
  spec_Nil: "prio_spec nn okkey M [] []"
| spec_Insert: "x < nn \<Longrightarrow> M x = None \<Longrightarrow> okkey a \<Longrightarrow> prio_spec nn okkey (M(x \<mapsto> a)) xs outs
    \<Longrightarrow> prio_spec nn okkey M (PInsert x a # xs) (OutUnit # outs)"
| spec_Range: "nn \<le> x \<Longrightarrow> prio_spec nn okkey M xs outs
    \<Longrightarrow> prio_spec nn okkey M (PInsert x a # xs) (OutError ERRange # outs)"
| spec_Change: "x \<in> dom M \<Longrightarrow> okkey a \<Longrightarrow> prio_spec nn okkey (M(x \<mapsto> a)) xs outs
    \<Longrightarrow> prio_spec nn okkey M (PChangeKey x a # xs) (OutUnit # outs)"
| spec_Delete: "least_key M x \<Longrightarrow> prio_spec nn okkey (M(x := None)) xs outs
    \<Longrightarrow> prio_spec nn okkey M (PDelete # xs) (OutItem x # outs)"
| spec_Peek: "least_key M x \<Longrightarrow> prio_spec nn okkey M xs outs
    \<Longrightarrow> prio_spec nn okkey M (PPeek # xs) (OutItem x # outs)"
| spec_Empty: "M = Map.empty \<Longrightarrow> op = PDelete \<or> op = PPeek \<Longrightarrow> prio_spec nn okkey M xs outs
    \<Longrightarrow> prio_spec nn okkey M (op # xs) (OutError ERRejected # outs)"
| spec_Misuse: "op = PInsert x a \<and> x \<in> dom M \<or> op = PChangeKey x a \<and> x \<notin> dom M
      \<or> (op = PInsert x a \<or> op = PChangeKey x a) \<and> \<not> okkey a
    \<Longrightarrow> prio_spec nn okkey M (op # xs) outs"

text \<open>
  The contract of the priority queues: a finite set of members with a key each. \<open>Delete\<close>
  returns a member of least key. \<open>okkey\<close> are the keys a class can store.
\<close>

locale prio_queue =
  fixes inv :: "'q \<Rightarrow> bool"
    and mem :: "'q \<Rightarrow> nat set"
    and key :: "'q \<Rightarrow> nat \<Rightarrow> TFloat"
    and rng :: "'q \<Rightarrow> nat"
    and okkey :: "TFloat \<Rightarrow> bool"
    and isEmpty :: "'q \<Rightarrow> bool"
    and crd :: "'q \<Rightarrow> nat"
    and del :: "'q \<Rightarrow> (nat \<times> 'q) result"
    and peek :: "'q \<Rightarrow> nat result"
    and ins :: "'q \<Rightarrow> nat \<Rightarrow> TFloat \<Rightarrow> 'q result"
  assumes prio_mem: "inv q \<Longrightarrow> finite (mem q) \<and> (\<forall>x \<in> mem q. x < rng q)"
    and prio_empty: "inv q \<Longrightarrow> isEmpty q \<longleftrightarrow> mem q = {}"
    and prio_card: "inv q \<Longrightarrow> crd q = card (mem q)"
    and prio_del_empty: "inv q \<Longrightarrow> mem q = {} \<Longrightarrow> del q = Inl ERRejected"
    and prio_peek_empty: "inv q \<Longrightarrow> mem q = {} \<Longrightarrow> peek q = Inl ERRejected"
    and prio_del: "inv q \<Longrightarrow> mem q \<noteq> {} \<Longrightarrow> \<exists>x q'. del q = Inr (x, q') \<and> peek q = Inr x
      \<and> x \<in> mem q \<and> (\<forall>y \<in> mem q. key q x \<le> key q y) \<and> mem q' = mem q - {x}
      \<and> (\<forall>y \<in> mem q'. key q' y = key q y) \<and> rng q' = rng q \<and> inv q'"
    and prio_ins: "inv q \<Longrightarrow> x < rng q \<Longrightarrow> x \<notin> mem q \<Longrightarrow> okkey a \<Longrightarrow> \<exists>q'. ins q x a = Inr q'
      \<and> mem q' = insert x (mem q) \<and> (\<forall>y \<in> mem q'. key q' y = ((key q)(x := a)) y)
      \<and> rng q' = rng q \<and> inv q'"
    and prio_ins_range: "inv q \<Longrightarrow> rng q \<le> x \<Longrightarrow> ins q x a = Inl ERRange"
begin

sublocale prio: goblin_container inv "\<lambda>q. mset_set (mem q)" isEmpty crd del peek
proof unfold_locales
  fix q
  assume inv: "inv q" and ne: "\<not> isEmpty q"
  then have "mem q \<noteq> {}" by (simp add: prio_empty)
  with inv obtain x q' where "del q = Inr (x, q')" "peek q = Inr x" "x \<in> mem q"
    "mem q' = mem q - {x}" "inv q'"
    using prio_del by metis
  with inv prio_mem [OF inv]
  show "\<exists>x q'. del q = Inr (x, q') \<and> peek q = Inr x \<and> x \<in># mset_set (mem q)
      \<and> mset_set (mem q') = mset_set (mem q) - {#x#} \<and> inv q'"
    by (auto simp: mset_set_Diff)
qed (auto simp: prio_empty prio_card prio_del_empty prio_peek_empty mset_set_empty_iff dest: prio_mem)

text \<open>Draining a priority queue is sorting: the members come out once each, by key.\<close>

lemma deletions_sorted:
  assumes "inv q"
  shows "\<exists>xs. deletions del (crd q) q = Inr xs \<and> set xs = mem q \<and> distinct xs
    \<and> sorted (map (key q) xs)"
  using assms
proof (induction "card (mem q)" arbitrary: q)
  case 0
  then have "mem q = {}" "crd q = 0" using prio_mem prio_card by auto
  then show ?case by simp
next
  case (Suc k)
  then have "mem q \<noteq> {}" by auto
  with Suc.prems obtain x q' where d: "del q = Inr (x, q')" "x \<in> mem q"
    "\<forall>y \<in> mem q. key q x \<le> key q y" "mem q' = mem q - {x}"
    "\<forall>y \<in> mem q'. key q' y = key q y" "inv q'"
    using prio_del by metis
  moreover have fin: "finite (mem q)" using Suc.prems prio_mem by blast
  ultimately have k: "k = card (mem q')" using Suc.hyps(2) by simp
  from Suc.hyps(1) [OF k d(6)] obtain xs where xs: "deletions del (crd q') q' = Inr xs"
    "set xs = mem q'" "distinct xs" "sorted (map (key q') xs)" by blast
  have "map (key q) xs = map (key q') xs" using xs(2) d(5) by (intro map_cong) auto
  then have "sorted (map (key q) xs)" using xs(4) by metis
  then have "sorted (map (key q) (x # xs))" using xs(2) d(3,4) by auto
  moreover have "crd q = Suc (crd q')"
    using Suc.hyps(2) k prio_card Suc.prems d(6) by simp
  then have "deletions del (crd q) q = Inr (x # xs)"
    using xs(1) d(1) by simp
  moreover have "set (x # xs) = mem q" "distinct (x # xs)"
    using xs d by auto
  ultimately show ?case by blast
qed

text \<open>Every run of the container is a run of the abstract priority queue.\<close>

definition contents :: "'q \<Rightarrow> nat \<rightharpoonup> TFloat" where
  "contents q x = (if x \<in> mem q then Some (key q x) else None)"

lemma dom_contents: "dom (contents q) = mem q"
  by (auto simp: contents_def dom_def split: if_splits)

lemma contents_eqI:
  "mem q' = A \<Longrightarrow> (\<And>y. y \<in> A \<Longrightarrow> M y = Some (key q' y)) \<Longrightarrow> (\<And>y. y \<notin> A \<Longrightarrow> M y = None)
   \<Longrightarrow> contents q' = M"
  by (auto simp: contents_def fun_eq_iff)

text \<open>The law of \<open>ChangeKey\<close>, for the runs that use it.\<close>

definition chg_law :: "('q \<Rightarrow> nat \<Rightarrow> TFloat \<Rightarrow> 'q result) \<Rightarrow> bool" where
  "chg_law chg \<longleftrightarrow> (\<forall>q x a. inv q \<and> x \<in> mem q \<and> okkey a \<longrightarrow> (\<exists>q'. chg q x a = Inr q'
      \<and> mem q' = mem q \<and> (\<forall>y \<in> mem q'. key q' y = ((key q)(x := a)) y)
      \<and> rng q' = rng q \<and> inv q'))"

lemma queue_run_refines:
  "inv q \<Longrightarrow> (\<And>x a. PChangeKey x a \<in> set xs \<Longrightarrow> chg_law chg) \<Longrightarrow>
   prio_spec (rng q) okkey (contents q) xs (prio_run (prio_step ins chg del peek) q xs)"
proof (induction xs arbitrary: q)
  case Nil
  show ?case by (simp add: spec_Nil)
next
  case (Cons op xs)
  note inv = Cons.prems(1)
  let ?run = "prio_run (prio_step ins chg del peek)"
  have IH: "inv q' \<Longrightarrow> prio_spec (rng q') okkey (contents q') xs (?run q' xs)" for q'
    using Cons.IH [of q'] Cons.prems(2) by auto
  have min: "\<exists>x q'. del q = Inr (x, q') \<and> peek q = Inr x \<and> least_key (contents q) x
      \<and> contents q' = (contents q)(x := None) \<and> rng q' = rng q \<and> inv q'" if ne: "mem q \<noteq> {}"
  proof -
    obtain x q' where d: "del q = Inr (x, q')" "peek q = Inr x" "x \<in> mem q"
      "\<forall>y \<in> mem q. key q x \<le> key q y" "mem q' = mem q - {x}"
      "\<forall>y \<in> mem q'. key q' y = key q y" "rng q' = rng q" "inv q'"
      using prio_del [OF inv ne] by blast
    have "least_key (contents q) x" using d(3,4) by (auto simp: least_key_def contents_def)
    moreover have "contents q' = (contents q)(x := None)"
      by (rule contents_eqI) (use d in \<open>auto simp: contents_def\<close>)
    ultimately show ?thesis using d by blast
  qed
  have upd: "contents q' = (contents q)(x \<mapsto> a)"
    if "mem q' = insert x (mem q)" "\<forall>y \<in> mem q'. key q' y = ((key q)(x := a)) y" for q' x a
    by (rule contents_eqI) (use that in \<open>auto simp: contents_def\<close>)
  have none: "contents q = Map.empty" if "mem q = {}" using that by (simp add: contents_def fun_eq_iff)
  show ?case
  proof (cases op)
    case (PInsert x a)
    show ?thesis
    proof (cases "x \<in> mem q \<or> \<not> okkey a")
      case True
      then show ?thesis using PInsert by (intro spec_Misuse) (auto simp: dom_contents)
    next
      case ok: False
      show ?thesis
      proof (cases "x < rng q")
        case True
        with ok inv obtain q' where q': "ins q x a = Inr q'" "mem q' = insert x (mem q)"
          "\<forall>y \<in> mem q'. key q' y = ((key q)(x := a)) y" "rng q' = rng q" "inv q'"
          using prio_ins by blast
        moreover have "contents q x = None" using ok by (simp add: contents_def)
        moreover have "prio_spec (rng q) okkey ((contents q)(x \<mapsto> a)) xs (?run q' xs)"
          using IH [OF q'(5)] unfolding upd [OF q'(2,3)] q'(4) .
        ultimately show ?thesis
          using True ok PInsert by (simp add: spec_Insert)
      next
        case False
        with PInsert IH [OF inv] prio_ins_range [OF inv] show ?thesis
          by (auto intro: spec_Range)
      qed
    qed
  next
    case (PChangeKey x a)
    show ?thesis
    proof (cases "x \<in> mem q \<and> okkey a")
      case False
      then show ?thesis using PChangeKey by (intro spec_Misuse) (auto simp: dom_contents)
    next
      case True
      with inv obtain q' where q': "chg q x a = Inr q'" "mem q' = mem q"
        "\<forall>y \<in> mem q'. key q' y = ((key q)(x := a)) y" "rng q' = rng q" "inv q'"
        using Cons.prems(2) [of x a] PChangeKey unfolding chg_law_def by (metis list.set_intros(1))
      then have "mem q' = insert x (mem q)" using True by auto
      have "prio_spec (rng q) okkey ((contents q)(x \<mapsto> a)) xs (?run q' xs)"
        using IH [OF q'(5)] unfolding upd [OF \<open>mem q' = insert x (mem q)\<close> q'(3)] q'(4) .
      then show ?thesis using q'(1) True PChangeKey by (simp add: spec_Change dom_contents)
    qed
  next
    case PDelete
    show ?thesis
    proof (cases "mem q = {}")
      case True
      with PDelete IH [OF inv] inv none show ?thesis
        by (auto simp: prio_del_empty intro: spec_Empty)
    next
      case False
      from min [OF this] obtain x q' where q': "del q = Inr (x, q')" "least_key (contents q) x"
        "contents q' = (contents q)(x := None)" "rng q' = rng q" "inv q'" by blast
      have "prio_spec (rng q) okkey ((contents q)(x := None)) xs (?run q' xs)"
        using IH [OF q'(5)] unfolding q'(3,4) .
      then show ?thesis using q'(1,2) PDelete by (simp add: spec_Delete)
    qed
  next
    case PPeek
    show ?thesis
    proof (cases "mem q = {}")
      case True
      with PPeek IH [OF inv] inv none show ?thesis
        by (auto simp: prio_peek_empty intro: spec_Empty)
    next
      case False
      with min obtain x where "peek q = Inr x" "least_key (contents q) x" by blast
      with PPeek IH [OF inv] show ?thesis by (auto intro: spec_Peek)
    qed
  qed
qed

end

text \<open>Priority queues that can also change the key of a member.\<close>

locale prio_container = prio_queue inv mem key rng okkey isEmpty crd del peek ins
  for inv :: "'q \<Rightarrow> bool" and mem :: "'q \<Rightarrow> nat set" and key :: "'q \<Rightarrow> nat \<Rightarrow> TFloat" and rng :: "'q \<Rightarrow> nat"
    and okkey :: "TFloat \<Rightarrow> bool" and isEmpty :: "'q \<Rightarrow> bool" and crd :: "'q \<Rightarrow> nat" and del :: "'q \<Rightarrow> (nat \<times> 'q) result"
    and peek :: "'q \<Rightarrow> nat result" and ins :: "'q \<Rightarrow> nat \<Rightarrow> TFloat \<Rightarrow> 'q result" +
  fixes chg :: "'q \<Rightarrow> nat \<Rightarrow> TFloat \<Rightarrow> 'q result"
  assumes prio_chg: "inv q \<Longrightarrow> x \<in> mem q \<Longrightarrow> okkey a \<Longrightarrow> \<exists>q'. chg q x a = Inr q'
      \<and> mem q' = mem q \<and> (\<forall>y \<in> mem q'. key q' y = ((key q)(x := a)) y)
      \<and> rng q' = rng q \<and> inv q'"
begin

lemma prio_run_refines:
  "inv q \<Longrightarrow> prio_spec (rng q) okkey (contents q) xs (prio_run (prio_step ins chg del peek) q xs)"
  using prio_chg by (intro queue_run_refines) (auto simp only: chg_law_def)

end

end
