(* ===== verification/Static_Stack.thy ===== *)
theory Static_Stack
  imports Goblin_Queue Index_Set
begin

text \<open>
  The contiguous-memory stack (\<^verbatim>\<open>include/staticStack.h\<close>, \<^verbatim>\<open>lib_src/staticStack.cpp\<close>).
  The stack is threaded through the array \<open>prev\<close>: the entry of an index is the index
  below it, the value \<open>n\<close> stands for "none". A copy-constructed stack shares \<open>prev\<close>
  and \<open>set\<close> with its master; \<open>set\<close> then records which stack an index is on.
\<close>

section \<open>The class\<close>

record static_stack =
  ss_prev :: "nat list"
  ss_set :: "THandle list option"
  ss_top :: nat
  ss_bottom :: nat
  ss_n :: nat
  ss_depth :: nat
  ss_master :: bool
  ss_OH :: THandle

definition staticStack :: "nat \<Rightarrow> THandle \<Rightarrow> static_stack" where
  "staticStack nn h =
     \<lparr>ss_prev = replicate nn nn, ss_set = None, ss_top = nn, ss_bottom = nn, ss_n = nn,
      ss_depth = 0, ss_master = True, ss_OH = h\<rparr>"

text \<open>
  The copy constructor changes its argument too (it allocates \<open>set\<close> on the first copy) and
  gives the new stack the handle \<open>NoHandle\<close>: the result is the pair of both objects.
\<close>

definition staticStack_copy :: "static_stack \<Rightarrow> static_stack \<times> static_stack" where
  "staticStack_copy S =
     (let S' = (case ss_set S of
           Some s \<Rightarrow> S
         | None \<Rightarrow> S\<lparr>ss_set := Some (map (\<lambda>i.
             if ss_prev S ! i < ss_n S \<or> i = ss_bottom S then ss_OH S else NoHandle)
             [0..<ss_n S])\<rparr>)
      in (S', \<lparr>ss_prev = ss_prev S', ss_set = ss_set S', ss_top = ss_n S, ss_bottom = ss_n S,
               ss_n = ss_n S, ss_depth = 0, ss_master = False, ss_OH = NoHandle\<rparr>))"

text \<open>What another stack on the same arrays sees after \<open>S\<close> has changed them.\<close>

definition ss_share :: "static_stack \<Rightarrow> static_stack \<Rightarrow> static_stack" where
  "ss_share S T = T\<lparr>ss_prev := ss_prev S, ss_set := ss_set S\<rparr>"

definition staticStack_Empty :: "static_stack \<Rightarrow> bool" where
  "staticStack_Empty S \<longleftrightarrow> ss_top S = ss_n S"

definition staticStack_Cardinality :: "static_stack \<Rightarrow> nat" where
  "staticStack_Cardinality S = ss_depth S"

definition staticStack_Insert :: "static_stack \<Rightarrow> nat \<Rightarrow> TOptInsert \<Rightarrow> static_stack result" where
  "staticStack_Insert S w mode =
     (if w \<ge> ss_n S then Inl ERRange
      else if ss_prev S ! w \<noteq> ss_n S \<or> w = ss_bottom S then
        (if mode = INSERT_NO_THROW then Inr S else Inl ERCheck)
      else Inr (S\<lparr>ss_prev := (ss_prev S)[w := ss_top S], ss_top := w,
                  ss_depth := ss_depth S + 1,
                  ss_bottom := (if ss_depth S + 1 = 1 then w else ss_bottom S),
                  ss_set := map_option (\<lambda>s. s[w := ss_OH S]) (ss_set S)\<rparr>))"

text \<open>The overload without a mode complains about repeated insertions.\<close>

definition staticStack_Insert1 :: "static_stack \<Rightarrow> nat \<Rightarrow> static_stack result" where
  "staticStack_Insert1 S w = staticStack_Insert S w INSERT_TWICE_THROW"

definition staticStack_Delete :: "static_stack \<Rightarrow> (nat \<times> static_stack) result" where
  "staticStack_Delete S =
     (if staticStack_Empty S then Inl ERRejected
      else let temp = ss_top S in
        Inr (temp, S\<lparr>ss_top := ss_prev S ! ss_top S, ss_prev := (ss_prev S)[temp := ss_n S],
                     ss_depth := ss_depth S - 1,
                     ss_bottom := (if ss_depth S - 1 = 0 then ss_n S else ss_bottom S)\<rparr>))"

definition staticStack_Peek :: "static_stack \<Rightarrow> nat result" where
  "staticStack_Peek S = (if staticStack_Empty S then Inl ERRejected else Inr (ss_top S))"

definition staticStack_IsMember :: "static_stack \<Rightarrow> nat \<Rightarrow> bool result" where
  "staticStack_IsMember S i =
     (if i \<ge> ss_n S then Inl ERRange
      else if i = ss_bottom S then Inr True
      else case ss_set S of
          Some s \<Rightarrow> if ss_prev S ! i \<noteq> ss_n S then Inr (s ! i = ss_OH S)
                    else Inr (ss_prev S ! i \<noteq> ss_n S)
        | None \<Rightarrow> Inr (ss_prev S ! i \<noteq> ss_n S))"

definition staticStack_First :: "static_stack \<Rightarrow> nat" where
  "staticStack_First S = (if staticStack_Empty S then ss_n S else ss_top S)"

definition staticStack_Successor :: "static_stack \<Rightarrow> nat \<Rightarrow> nat result" where
  "staticStack_Successor S i =
     (if i \<ge> ss_n S then Inl ERRange
      else if i = ss_bottom S then Inr (ss_n S) else Inr (ss_prev S ! i))"

text \<open>
  The destructor: a master releases the arrays (nothing is left of them), a copy empties
  itself first, so that the shared arrays hold only what the others have on them.
\<close>

definition staticStack_destroy :: "static_stack \<Rightarrow> static_stack result option" where
  "staticStack_destroy S =
     (if ss_master S then Some (Inr S)
      else goblinQueue_Init staticStack_Empty staticStack_Delete S)"

section \<open>Abstraction and invariant\<close>

definition ss_items :: "static_stack \<Rightarrow> nat list" where
  "ss_items S = walk (\<lambda>i. ss_prev S ! i) (ss_top S) (ss_depth S)"

text \<open>
  \<open>ss_rep S xs\<close>: the stack holds \<open>xs\<close>, top first. \<open>ss_inv\<close> adds that no other stack uses
  the arrays: every index not on the stack is free.
\<close>

definition ss_rep :: "static_stack \<Rightarrow> nat list \<Rightarrow> bool" where
  "ss_rep S xs \<longleftrightarrow>
     length (ss_prev S) = ss_n S \<and> chain (\<lambda>i. ss_prev S ! i) (ss_top S) xs (ss_n S)
     \<and> distinct xs \<and> (\<forall>x \<in> set xs. x < ss_n S) \<and> ss_depth S = length xs
     \<and> ss_bottom S = (if xs = [] then ss_n S else last xs)
     \<and> (case ss_set S of None \<Rightarrow> True
        | Some s \<Rightarrow> length s = ss_n S \<and> (\<forall>x \<in> set xs. s ! x = ss_OH S))"

definition ss_inv :: "static_stack \<Rightarrow> bool" where
  "ss_inv S \<longleftrightarrow> ss_rep S (ss_items S)
     \<and> (\<forall>i < ss_n S. i \<notin> set (ss_items S) \<longrightarrow> ss_prev S ! i = ss_n S)"

lemma ss_rep_items: "ss_rep S xs \<Longrightarrow> ss_items S = xs"
  by (auto simp: ss_rep_def ss_items_def intro: walk_eqI)

lemma ss_invI:
  "ss_rep S xs \<Longrightarrow> (\<And>i. i < ss_n S \<Longrightarrow> i \<notin> set xs \<Longrightarrow> ss_prev S ! i = ss_n S) \<Longrightarrow> ss_inv S"
  by (simp add: ss_inv_def ss_rep_items)

lemma ss_invE:
  assumes "ss_inv S"
  obtains "ss_rep S (ss_items S)"
    and "\<And>i. i < ss_n S \<Longrightarrow> i \<notin> set (ss_items S) \<Longrightarrow> ss_prev S ! i = ss_n S"
  using assms by (auto simp: ss_inv_def)

lemma ss_rep_occupied:
  assumes "ss_rep S xs" "w \<in> set xs"
  shows "ss_prev S ! w \<noteq> ss_n S \<or> w = ss_bottom S"
proof -
  from \<open>w \<in> set xs\<close> obtain as bs where xs: "xs = as @ w # bs" by (auto dest: split_list)
  with assms show ?thesis by (cases bs) (auto simp: ss_rep_def chain_simps)
qed

lemma ss_rep_bottom:
  "ss_rep S xs \<Longrightarrow> w < ss_n S \<Longrightarrow> w = ss_bottom S \<longleftrightarrow> xs \<noteq> [] \<and> w = last xs"
  by (auto simp: ss_rep_def)

lemma ss_rep_top:
  "ss_rep S xs \<Longrightarrow> staticStack_Empty S \<longleftrightarrow> xs = []"
  by (cases xs) (auto simp: ss_rep_def staticStack_Empty_def)

lemma ss_inv_occupied_iff:
  assumes "ss_inv S" "w < ss_n S"
  shows "(ss_prev S ! w \<noteq> ss_n S \<or> w = ss_bottom S) \<longleftrightarrow> w \<in> set (ss_items S)"
proof -
  from assms have rep: "ss_rep S (ss_items S)"
    and free: "w \<notin> set (ss_items S) \<Longrightarrow> ss_prev S ! w = ss_n S"
    by (auto elim: ss_invE)
  have "w = ss_bottom S \<Longrightarrow> w \<in> set (ss_items S)"
    using ss_rep_bottom [OF rep assms(2)] by (metis last_in_set)
  with rep free show ?thesis by (auto dest: ss_rep_occupied)
qed

lemma ss_inv_empty: "ss_inv S \<Longrightarrow> staticStack_Empty S \<longleftrightarrow> ss_items S = []"
  by (auto elim: ss_invE simp: ss_rep_top)

section \<open>Operations on the abstraction\<close>

lemma staticStack_new_inv: "ss_inv (staticStack nn h)" "ss_items (staticStack nn h) = []"
  by (auto intro!: ss_invI [where xs = "[]"] simp: ss_rep_def staticStack_def ss_items_def)

lemma staticStack_Insert_rep:
  assumes rep: "ss_rep S xs" and w: "w < ss_n S" "w \<notin> set xs"
    and free: "ss_prev S ! w = ss_n S"
  shows "\<exists>S'. staticStack_Insert S w mode = Inr S' \<and> ss_rep S' (w # xs)
    \<and> ss_n S' = ss_n S \<and> ss_prev S' = (ss_prev S)[w := ss_top S]"
proof -
  let ?S = "S\<lparr>ss_prev := (ss_prev S)[w := ss_top S], ss_top := w, ss_depth := ss_depth S + 1,
      ss_bottom := (if ss_depth S + 1 = 1 then w else ss_bottom S),
      ss_set := map_option (\<lambda>s. s[w := ss_OH S]) (ss_set S)\<rparr>"
  have "w \<noteq> ss_bottom S" using rep w by (auto simp: ss_rep_bottom)
  then have "staticStack_Insert S w mode = Inr ?S"
    using w free by (simp add: staticStack_Insert_def)
  moreover have "ss_rep ?S (w # xs)"
    using rep w
    by (auto simp: ss_rep_def chain_simps split: option.splits)
  ultimately show ?thesis by auto
qed

lemma staticStack_Delete_rep:
  assumes rep: "ss_rep S (x # xs)"
  shows "\<exists>S'. staticStack_Delete S = Inr (x, S') \<and> ss_rep S' xs
    \<and> ss_n S' = ss_n S \<and> ss_prev S' = (ss_prev S)[x := ss_n S]"
proof -
  have "\<not> staticStack_Empty S" using rep by (simp add: ss_rep_top)
  moreover have "ss_top S = x" using rep by (simp add: ss_rep_def)
  ultimately show ?thesis using rep
    by (auto simp: ss_rep_def chain_simps staticStack_Delete_def Let_def split: option.splits)
qed

lemma staticStack_Insert_inv:
  assumes "ss_inv S" "w < ss_n S" "w \<notin> set (ss_items S)"
  shows "\<exists>S'. staticStack_Insert S w mode = Inr S' \<and> ss_items S' = w # ss_items S
    \<and> ss_n S' = ss_n S \<and> ss_inv S'"
proof -
  obtain S' where S': "staticStack_Insert S w mode = Inr S'" "ss_rep S' (w # ss_items S)"
    "ss_n S' = ss_n S" "ss_prev S' = (ss_prev S)[w := ss_top S]"
    using assms staticStack_Insert_rep by (blast elim: ss_invE)
  moreover from this assms have "ss_inv S'"
    by (auto intro!: ss_invI elim!: ss_invE)
  ultimately show ?thesis by (auto dest: ss_rep_items)
qed

lemma staticStack_Delete_inv:
  assumes "ss_inv S" "ss_items S = x # xs"
  shows "\<exists>S'. staticStack_Delete S = Inr (x, S') \<and> ss_items S' = xs
    \<and> ss_n S' = ss_n S \<and> ss_inv S'"
proof -
  from assms have rep: "ss_rep S (x # xs)"
    and free: "\<And>i. i < ss_n S \<Longrightarrow> i \<notin> set (x # xs) \<Longrightarrow> ss_prev S ! i = ss_n S"
    by (auto elim!: ss_invE)
  from rep have "length (ss_prev S) = ss_n S" by (simp add: ss_rep_def)
  then obtain S' where S': "staticStack_Delete S = Inr (x, S')" "ss_rep S' xs"
    "ss_n S' = ss_n S" "ss_prev S' = (ss_prev S)[x := ss_n S]"
    using rep staticStack_Delete_rep by blast
  moreover have "ss_inv S'"
  proof (rule ss_invI)
    show "ss_rep S' xs" by fact
    show "ss_prev S' ! i = ss_n S'" if "i < ss_n S'" "i \<notin> set xs" for i
      using that S' free \<open>length _ = _\<close> by (cases "i = x") auto
  qed
  ultimately show ?thesis by (auto dest: ss_rep_items)
qed

lemma staticStack_Insert_range: "ss_n S \<le> w \<Longrightarrow> staticStack_Insert S w mode = Inl ERRange"
  by (simp add: staticStack_Insert_def)

lemma staticStack_Insert_twice:
  assumes "ss_inv S" "w < ss_n S" "w \<in> set (ss_items S)"
  shows "staticStack_Insert S w INSERT_TWICE_THROW = Inl ERCheck"
    and "staticStack_Insert S w INSERT_NO_THROW = Inr S"
  using assms ss_inv_occupied_iff by (auto simp: staticStack_Insert_def)

interpretation sstack: seq_container ss_inv ss_items staticStack_Empty staticStack_Cardinality
  staticStack_Delete staticStack_Peek staticStack_Insert1 ss_n True Cons
proof unfold_locales
  fix S x xs
  assume inv: "ss_inv S" and items: "ss_items S = x # xs"
  then show "\<exists>q'. staticStack_Delete S = Inr (x, q') \<and> ss_items q' = xs
      \<and> ss_n q' = ss_n S \<and> ss_inv q'"
    using staticStack_Delete_inv by blast
  from inv items have "ss_rep S (x # xs)" by (metis ss_invE)
  then show "staticStack_Peek S = Inr x"
    by (auto simp: staticStack_Peek_def ss_rep_top) (simp add: ss_rep_def)
next
  fix S w
  assume "ss_inv S" "w < ss_n S" "\<not> (True \<and> w \<in> set (ss_items S))"
  then show "\<exists>q'. staticStack_Insert1 S w = Inr q' \<and> ss_items q' = w # ss_items S
      \<and> ss_n q' = ss_n S \<and> ss_inv q'"
    unfolding staticStack_Insert1_def using staticStack_Insert_inv by blast
qed (auto simp: ss_inv_empty staticStack_Cardinality_def ss_items_def staticStack_Insert1_def
    staticStack_Delete_def staticStack_Peek_def staticStack_Insert_twice staticStack_Insert_range)

lemma staticStack_loop_items:
  assumes "ss_rep S xs" "xs = as @ bs" "bs \<noteq> [] \<longrightarrow> s = hd bs" "bs = [] \<longrightarrow> s = ss_n S"
    and succ: "\<And>i. i < ss_n S \<Longrightarrow> staticStack_Successor S i = Inr (succ i)"
  shows "index_loop succ (ss_n S) s = Some bs"
  using assms(2,3,4)
proof (induction bs arbitrary: as s)
  case Nil
  then show ?case by (simp add: index_loop.simps)
next
  case (Cons b bs)
  then have s: "s = b" and b: "b < ss_n S" using assms(1) by (auto simp: ss_rep_def)
  have "succ b = (if bs = [] then ss_n S else hd bs)"
  proof (cases bs)
    case Nil
    then have "b = ss_bottom S" using Cons.prems assms(1) by (simp add: ss_rep_def)
    with Nil succ [OF b] b show ?thesis by (simp add: staticStack_Successor_def)
  next
    case (Cons c cs)
    then have "b \<noteq> ss_bottom S" "ss_prev S ! b = c"
      using Cons.prems assms(1) by (auto simp: ss_rep_def chain_simps)
    with Cons succ [OF b] b show ?thesis by (simp add: staticStack_Successor_def)
  qed
  then have "index_loop succ (ss_n S) (succ b) = Some bs"
    using Cons.prems(1) by (intro Cons.IH [of "as @ [b]"]) auto
  with s b show ?case by (subst index_loop.simps) simp
qed

section \<open>Properties\<close>

text \<open>
  C22: Any run of \<open>Insert\<close>, \<open>Delete\<close>, \<open>Peek\<close> and \<open>Cardinality\<close> calls on a fresh static stack
  returns exactly what an abstract last-in-first-out list returns, errors included: range
  violations, repeated insertions and reads of an empty stack.
\<close>

theorem staticStack_refines_LIFO:
  "queue_run (queue_step staticStack_Insert1 staticStack_Delete staticStack_Peek
       staticStack_Cardinality) (staticStack nn h) xs
   = queue_run (spec_step Cons True nn) [] xs"
  using sstack.run_refines [OF staticStack_new_inv(1)] staticStack_new_inv(2)
  by (simp add: staticStack_def)

text \<open>
  As an index set, a static stack that does not share its arrays reports as members
  exactly the indices on it, and the loop over \<open>First\<close> and \<open>Successor\<close> visits them from
  the top to the bottom.
\<close>

theorem staticStack_index_set:
  assumes "ss_inv S"
  shows "(\<forall>i < ss_n S. staticStack_IsMember S i = Inr (i \<in> set (ss_items S)))
    \<and> index_loop (\<lambda>i. case staticStack_Successor S i of Inl e \<Rightarrow> 0 | Inr j \<Rightarrow> j) (ss_n S)
        (staticStack_First S) = Some (ss_items S)"
proof
  from assms have rep: "ss_rep S (ss_items S)" by (rule ss_invE)
  show "\<forall>i < ss_n S. staticStack_IsMember S i = Inr (i \<in> set (ss_items S))"
    using ss_inv_occupied_iff [OF assms] rep
    by (fastforce simp: staticStack_IsMember_def ss_rep_def split: option.splits)
  have "ss_items S \<noteq> [] \<Longrightarrow> ss_top S = hd (ss_items S)"
    using rep by (cases "ss_items S") (auto simp: ss_rep_def)
  then show "index_loop (\<lambda>i. case staticStack_Successor S i of Inl e \<Rightarrow> 0 | Inr j \<Rightarrow> j) (ss_n S)
      (staticStack_First S) = Some (ss_items S)"
    using assms rep
    by (intro staticStack_loop_items [where as = "[]"])
      (auto simp: staticStack_First_def ss_inv_empty staticStack_Successor_def)
qed

theorem staticStack_index_set_witness:
  "let S = \<lparr>ss_prev = [2, 3, 3], ss_set = None, ss_top = 0, ss_bottom = 2, ss_n = 3,
            ss_depth = 2, ss_master = True, ss_OH = 1\<rparr>
   in ss_items S = [0, 2] \<and> staticStack_IsMember S 1 = Inr False"
proof -
  define S where "S = \<lparr>ss_prev = [2, 3, 3], ss_set = None, ss_top = 0, ss_bottom = 2, ss_n = 3,
      ss_depth = 2, ss_master = True, ss_OH = 1\<rparr>"
  have items: "ss_items S = [0, 2]" by (simp add: S_def ss_items_def numeral_2_eq_2)
  moreover have "ss_inv S"
    by (rule ss_invI [of _ "[0, 2]"])
      (auto simp: S_def ss_rep_def numeral_3_eq_3 less_Suc_eq)
  ultimately have "staticStack_IsMember S 1 = Inr False"
    using staticStack_index_set [of S] by (auto simp: S_def)
  with items show ?thesis by (simp add: S_def)
qed

text \<open>
  The check for repeated insertions looks at \<open>prev[w]\<close> and at the stack's own \<open>bottom\<close>
  only. The bottom of another stack on the same arrays has \<open>prev[w] = n\<close> too, so the copy
  accepts an index that its master holds.
\<close>

lemma staticStack_copy_accepts_held_index:
  "\<exists>S1 S2. staticStack_Insert1 (staticStack 2 7) 0 = Inr S1
     \<and> staticStack_IsMember (fst (staticStack_copy S1)) 0 = Inr True
     \<and> staticStack_Insert1 (snd (staticStack_copy S1)) 0 = Inr S2"
  by (simp add: staticStack_Insert1_def staticStack_Insert_def staticStack_def
      staticStack_copy_def staticStack_IsMember_def)

end
