(* ===== verification/Static_Queue.thy ===== *)
theory Static_Queue
  imports Goblin_Queue Index_Set
begin

text \<open>
  The contiguous-memory FIFO queue (\<^verbatim>\<open>include/staticQueue.h\<close>,
  \<^verbatim>\<open>lib_src/staticQueue.cpp\<close>). The queue is threaded through the array \<open>next\<close>; its last
  index points to itself, a free index has the value \<open>n\<close>. The constructor does not
  initialise \<open>last\<close>; its first value is an argument of the model.
\<close>

section \<open>The class\<close>

record static_queue =
  sq_next :: "nat list"
  sq_set :: "THandle list option"
  sq_first :: nat
  sq_last :: nat
  sq_n :: nat
  sq_length :: nat
  sq_master :: bool
  sq_OH :: THandle

definition staticQueue :: "nat \<Rightarrow> THandle \<Rightarrow> nat \<Rightarrow> static_queue" where
  "staticQueue nn h junk =
     \<lparr>sq_next = replicate nn nn, sq_set = None, sq_first = nn, sq_last = junk, sq_n = nn,
      sq_length = 0, sq_master = True, sq_OH = h\<rparr>"

definition staticQueue_copy :: "static_queue \<Rightarrow> nat \<Rightarrow> static_queue \<times> static_queue" where
  "staticQueue_copy Q junk =
     (let Q' = (case sq_set Q of
           Some s \<Rightarrow> Q
         | None \<Rightarrow> Q\<lparr>sq_set := Some (map (\<lambda>i.
             if sq_next Q ! i < sq_n Q then sq_OH Q else NoHandle) [0..<sq_n Q])\<rparr>)
      in (Q', \<lparr>sq_next = sq_next Q', sq_set = sq_set Q', sq_first = sq_n Q, sq_last = junk,
               sq_n = sq_n Q, sq_length = 0, sq_master = False, sq_OH = NoHandle\<rparr>))"

definition staticQueue_Empty :: "static_queue \<Rightarrow> bool" where
  "staticQueue_Empty Q \<longleftrightarrow> sq_first Q = sq_n Q"

definition staticQueue_Cardinality :: "static_queue \<Rightarrow> nat" where
  "staticQueue_Cardinality Q = sq_length Q"

definition staticQueue_Insert :: "static_queue \<Rightarrow> nat \<Rightarrow> TOptInsert \<Rightarrow> static_queue result" where
  "staticQueue_Insert Q w mode =
     (if w \<ge> sq_n Q then Inl ERRange
      else if sq_next Q ! w \<noteq> sq_n Q then
        (if mode = INSERT_NO_THROW then Inr Q else Inl ERCheck)
      else
        let Q1 = (if staticQueue_Empty Q then Q\<lparr>sq_first := w, sq_last := w\<rparr>
                  else Q\<lparr>sq_next := (sq_next Q)[sq_last Q := w], sq_last := w\<rparr>)
        in Inr (Q1\<lparr>sq_next := (sq_next Q1)[sq_last Q1 := sq_last Q1],
                   sq_length := sq_length Q1 + 1,
                   sq_set := map_option (\<lambda>s. s[w := sq_OH Q]) (sq_set Q)\<rparr>))"

definition staticQueue_Insert1 :: "static_queue \<Rightarrow> nat \<Rightarrow> static_queue result" where
  "staticQueue_Insert1 Q w = staticQueue_Insert Q w INSERT_TWICE_THROW"

definition staticQueue_Delete :: "static_queue \<Rightarrow> (nat \<times> static_queue) result" where
  "staticQueue_Delete Q =
     (if staticQueue_Empty Q then Inl ERRejected
      else let temp = sq_first Q;
               first1 = sq_next Q ! sq_first Q;
               first2 = (if temp = first1 then sq_n Q else first1)
        in Inr (temp, Q\<lparr>sq_first := first2, sq_next := (sq_next Q)[temp := sq_n Q],
                        sq_length := sq_length Q - 1\<rparr>))"

definition staticQueue_Peek :: "static_queue \<Rightarrow> nat result" where
  "staticQueue_Peek Q = (if staticQueue_Empty Q then Inl ERRejected else Inr (sq_first Q))"

definition staticQueue_IsMember :: "static_queue \<Rightarrow> nat \<Rightarrow> bool result" where
  "staticQueue_IsMember Q i =
     (if i \<ge> sq_n Q then Inl ERRange
      else case sq_set Q of
          Some s \<Rightarrow> if sq_next Q ! i \<noteq> sq_n Q then Inr (s ! i = sq_OH Q)
                    else Inr (sq_next Q ! i \<noteq> sq_n Q)
        | None \<Rightarrow> Inr (sq_next Q ! i \<noteq> sq_n Q))"

definition staticQueue_First :: "static_queue \<Rightarrow> nat" where
  "staticQueue_First Q = (if staticQueue_Empty Q then sq_n Q else sq_first Q)"

definition staticQueue_Successor :: "static_queue \<Rightarrow> nat \<Rightarrow> nat result" where
  "staticQueue_Successor Q i =
     (if i \<ge> sq_n Q then Inl ERRange
      else if i = sq_last Q then Inr (sq_n Q) else Inr (sq_next Q ! i))"

definition staticQueue_destroy :: "static_queue \<Rightarrow> static_queue result option" where
  "staticQueue_destroy Q =
     (if sq_master Q then Some (Inr Q)
      else goblinQueue_Init staticQueue_Empty staticQueue_Delete Q)"

section \<open>Abstraction and invariant\<close>

definition sq_items :: "static_queue \<Rightarrow> nat list" where
  "sq_items Q = walk (\<lambda>i. sq_next Q ! i) (sq_first Q) (sq_length Q)"

definition sq_rep :: "static_queue \<Rightarrow> nat list \<Rightarrow> bool" where
  "sq_rep Q xs \<longleftrightarrow>
     length (sq_next Q) = sq_n Q \<and> distinct xs \<and> (\<forall>x \<in> set xs. x < sq_n Q)
     \<and> sq_length Q = length xs
     \<and> (if xs = [] then sq_first Q = sq_n Q
        else chain (\<lambda>i. sq_next Q ! i) (sq_first Q) xs (last xs) \<and> sq_last Q = last xs)
     \<and> (case sq_set Q of None \<Rightarrow> True
        | Some s \<Rightarrow> length s = sq_n Q \<and> (\<forall>x \<in> set xs. s ! x = sq_OH Q))"

definition sq_inv :: "static_queue \<Rightarrow> bool" where
  "sq_inv Q \<longleftrightarrow> sq_rep Q (sq_items Q)
     \<and> (\<forall>i < sq_n Q. i \<notin> set (sq_items Q) \<longrightarrow> sq_next Q ! i = sq_n Q)"

lemma sq_rep_items: "sq_rep Q xs \<Longrightarrow> sq_items Q = xs"
  by (cases "xs = []") (auto simp: sq_rep_def sq_items_def intro: walk_eqI)

lemma sq_invI:
  "sq_rep Q xs \<Longrightarrow> (\<And>i. i < sq_n Q \<Longrightarrow> i \<notin> set xs \<Longrightarrow> sq_next Q ! i = sq_n Q) \<Longrightarrow> sq_inv Q"
  by (simp add: sq_inv_def sq_rep_items)

lemma sq_invE:
  assumes "sq_inv Q"
  obtains "sq_rep Q (sq_items Q)"
    and "\<And>i. i < sq_n Q \<Longrightarrow> i \<notin> set (sq_items Q) \<Longrightarrow> sq_next Q ! i = sq_n Q"
  using assms by (auto simp: sq_inv_def)

lemma sq_rep_first: "sq_rep Q (x # xs) \<Longrightarrow> sq_first Q = x"
  by (cases xs) (auto simp: sq_rep_def split: if_splits)

lemma sq_rep_empty: "sq_rep Q xs \<Longrightarrow> staticQueue_Empty Q \<longleftrightarrow> xs = []"
  by (cases xs) (auto simp: sq_rep_def staticQueue_Empty_def split: if_splits dest: sq_rep_first)

lemma sq_rep_next:
  "sq_rep Q (as @ b # bs) \<Longrightarrow> sq_next Q ! b = (if bs = [] then b else hd bs)"
  by (cases bs) (auto simp: chain_simps sq_rep_def)

lemma sq_inv_empty: "sq_inv Q \<Longrightarrow> staticQueue_Empty Q \<longleftrightarrow> sq_items Q = []"
  by (auto elim: sq_invE simp: sq_rep_empty)

lemma sq_inv_occupied_iff:
  assumes "sq_inv Q" "w < sq_n Q"
  shows "sq_next Q ! w \<noteq> sq_n Q \<longleftrightarrow> w \<in> set (sq_items Q)"
proof
  assume "w \<in> set (sq_items Q)"
  then obtain as bs where xs: "sq_items Q = as @ w # bs" by (auto dest: split_list)
  from assms(1) have rep: "sq_rep Q (as @ w # bs)" unfolding xs [symmetric] by (rule sq_invE)
  then have "\<forall>x \<in> set (w # bs). x < sq_n Q" by (simp add: sq_rep_def)
  then show "sq_next Q ! w \<noteq> sq_n Q"
    using sq_rep_next [OF rep] by (cases bs) auto
qed (use assms in \<open>auto elim: sq_invE\<close>)

section \<open>Operations on the abstraction\<close>

lemma staticQueue_new_inv:
  "sq_inv (staticQueue nn h junk)" "sq_items (staticQueue nn h junk) = []"
  by (auto intro!: sq_invI [where xs = "[]"] simp: sq_rep_def staticQueue_def sq_items_def)

lemma staticQueue_Insert_rep:
  assumes rep: "sq_rep Q xs" and w: "w < sq_n Q" "w \<notin> set xs" and free: "sq_next Q ! w = sq_n Q"
  shows "\<exists>Q'. staticQueue_Insert Q w mode = Inr Q' \<and> sq_rep Q' (xs @ [w]) \<and> sq_n Q' = sq_n Q
    \<and> sq_next Q' = (if xs = [] then sq_next Q else (sq_next Q)[last xs := w])[w := w]"
proof (cases xs rule: rev_cases)
  case Nil
  then show ?thesis using assms
    by (auto simp: staticQueue_Insert_def staticQueue_Empty_def sq_rep_def Let_def
        split: option.splits)
next
  case (snoc ys l)
  then have "\<not> staticQueue_Empty Q" using rep by (simp add: sq_rep_empty)
  with snoc assms show ?thesis
    by (auto simp: staticQueue_Insert_def sq_rep_def chain_simps Let_def split: option.splits)
qed

lemma staticQueue_Delete_rep:
  assumes rep: "sq_rep Q (x # xs)"
  shows "\<exists>Q'. staticQueue_Delete Q = Inr (x, Q') \<and> sq_rep Q' xs \<and> sq_n Q' = sq_n Q
    \<and> sq_next Q' = (sq_next Q)[x := sq_n Q]"
proof -
  have "\<not> staticQueue_Empty Q" "sq_first Q = x"
    using rep by (simp_all add: sq_rep_empty sq_rep_first)
  moreover have "sq_next Q ! x = (if xs = [] then x else hd xs)"
    using sq_rep_next [of Q "[]"] rep by simp
  ultimately show ?thesis using rep
    by (cases xs) (auto simp: sq_rep_def chain_simps staticQueue_Delete_def Let_def
        split: option.splits)
qed

lemma staticQueue_Insert_inv:
  assumes inv: "sq_inv Q" and w: "w < sq_n Q" "w \<notin> set (sq_items Q)"
  shows "\<exists>Q'. staticQueue_Insert Q w mode = Inr Q' \<and> sq_items Q' = enqueue_place w (sq_items Q)
    \<and> sq_n Q' = sq_n Q \<and> sq_inv Q'"
proof -
  let ?xs = "sq_items Q"
  from inv have rep: "sq_rep Q ?xs"
    and free: "\<And>i. i < sq_n Q \<Longrightarrow> i \<notin> set ?xs \<Longrightarrow> sq_next Q ! i = sq_n Q"
    by (auto elim: sq_invE)
  then obtain Q' where Q': "staticQueue_Insert Q w mode = Inr Q'" "sq_rep Q' (?xs @ [w])"
    "sq_n Q' = sq_n Q" "sq_next Q' = (if ?xs = [] then sq_next Q else (sq_next Q)[last ?xs := w])[w := w]"
    using staticQueue_Insert_rep [OF rep w] w by blast
  have "sq_inv Q'"
  proof (rule sq_invI [OF Q'(2)])
    fix i assume i: "i < sq_n Q'" "i \<notin> set (?xs @ [w])"
    then have "?xs \<noteq> [] \<Longrightarrow> i \<noteq> last ?xs" by auto
    with i Q'(3,4) free show "sq_next Q' ! i = sq_n Q'" by auto
  qed
  with Q' show ?thesis by (auto simp: enqueue_place_def dest: sq_rep_items)
qed

lemma staticQueue_Delete_inv:
  assumes inv: "sq_inv Q" and items: "sq_items Q = x # xs"
  shows "\<exists>Q'. staticQueue_Delete Q = Inr (x, Q') \<and> sq_items Q' = xs
    \<and> sq_n Q' = sq_n Q \<and> sq_inv Q'"
proof -
  from inv items have rep: "sq_rep Q (x # xs)"
    and free: "\<And>i. i < sq_n Q \<Longrightarrow> i \<notin> set (x # xs) \<Longrightarrow> sq_next Q ! i = sq_n Q"
    by (auto elim!: sq_invE)
  from rep have len: "length (sq_next Q) = sq_n Q" by (simp add: sq_rep_def)
  obtain Q' where Q': "staticQueue_Delete Q = Inr (x, Q')" "sq_rep Q' xs"
    "sq_n Q' = sq_n Q" "sq_next Q' = (sq_next Q)[x := sq_n Q]"
    using staticQueue_Delete_rep [OF rep] by blast
  have "sq_inv Q'"
  proof (rule sq_invI [OF Q'(2)])
    show "sq_next Q' ! i = sq_n Q'" if "i < sq_n Q'" "i \<notin> set xs" for i
      using that Q' free len by (cases "i = x") auto
  qed
  with Q' show ?thesis by (auto dest: sq_rep_items)
qed

lemma staticQueue_Insert_range: "sq_n Q \<le> w \<Longrightarrow> staticQueue_Insert Q w mode = Inl ERRange"
  by (simp add: staticQueue_Insert_def)

lemma staticQueue_Insert_twice:
  assumes "sq_inv Q" "w < sq_n Q" "w \<in> set (sq_items Q)"
  shows "staticQueue_Insert Q w INSERT_TWICE_THROW = Inl ERCheck"
    and "staticQueue_Insert Q w INSERT_NO_THROW = Inr Q"
  using assms sq_inv_occupied_iff by (auto simp: staticQueue_Insert_def)

lemma staticQueue_Peek_inv:
  assumes "sq_inv Q" "sq_items Q = x # xs"
  shows "staticQueue_Peek Q = Inr x"
proof -
  from assms have "sq_rep Q (x # xs)" by (metis sq_invE)
  then show ?thesis by (simp add: staticQueue_Peek_def sq_rep_empty sq_rep_first)
qed

interpretation squeue: seq_container sq_inv sq_items staticQueue_Empty staticQueue_Cardinality
  staticQueue_Delete staticQueue_Peek staticQueue_Insert1 sq_n True enqueue_place
proof unfold_locales
  fix Q x xs
  assume inv: "sq_inv Q" and items: "sq_items Q = x # xs"
  then show "\<exists>q'. staticQueue_Delete Q = Inr (x, q') \<and> sq_items q' = xs
      \<and> sq_n q' = sq_n Q \<and> sq_inv q'"
    by (rule staticQueue_Delete_inv)
  show "staticQueue_Peek Q = Inr x" using inv items by (rule staticQueue_Peek_inv)
next
  fix Q w
  assume "sq_inv Q" "w < sq_n Q" "\<not> (True \<and> w \<in> set (sq_items Q))"
  then show "\<exists>q'. staticQueue_Insert1 Q w = Inr q' \<and> sq_items q' = enqueue_place w (sq_items Q)
      \<and> sq_n q' = sq_n Q \<and> sq_inv q'"
    unfolding staticQueue_Insert1_def using staticQueue_Insert_inv by blast
qed (auto simp: sq_inv_empty staticQueue_Cardinality_def sq_items_def staticQueue_Insert1_def
    staticQueue_Delete_def staticQueue_Peek_def staticQueue_Insert_twice
    staticQueue_Insert_range)

lemma staticQueue_loop_items:
  assumes "sq_rep Q xs" "xs = as @ bs" "bs \<noteq> [] \<longrightarrow> s = hd bs" "bs = [] \<longrightarrow> s = sq_n Q"
    and succ: "\<And>i. i < sq_n Q \<Longrightarrow> staticQueue_Successor Q i = Inr (succ i)"
  shows "index_loop succ (sq_n Q) s = Some bs"
  using assms(2,3,4)
proof (induction bs arbitrary: as s)
  case Nil
  then show ?case by (simp add: index_loop.simps)
next
  case (Cons b bs)
  then have s: "s = b" and b: "b < sq_n Q" using assms(1) by (auto simp: sq_rep_def)
  have "sq_next Q ! b = (if bs = [] then b else hd bs)"
    using assms(1) Cons.prems(1) by (blast intro: sq_rep_next)
  moreover have "b = sq_last Q \<longleftrightarrow> bs = []"
    using assms(1) Cons.prems(1) by (cases bs rule: rev_cases) (auto simp: sq_rep_def)
  ultimately have "succ b = (if bs = [] then sq_n Q else hd bs)"
    using succ [OF b] b by (auto simp: staticQueue_Successor_def split: if_splits)
  then have "index_loop succ (sq_n Q) (succ b) = Some bs"
    using Cons.prems(1) by (intro Cons.IH [of "as @ [b]"]) auto
  with s b show ?case by (subst index_loop.simps) simp
qed

section \<open>Properties\<close>

text \<open>
  C23: Any run of \<open>Insert\<close>, \<open>Delete\<close>, \<open>Peek\<close> and \<open>Cardinality\<close> calls on a fresh static queue
  returns exactly what an abstract first-in-first-out list returns, errors included.
\<close>

theorem staticQueue_refines_FIFO:
  "queue_run (queue_step staticQueue_Insert1 staticQueue_Delete staticQueue_Peek
       staticQueue_Cardinality) (staticQueue nn h junk) xs
   = queue_run (spec_step enqueue_place True nn) [] xs"
  using squeue.run_refines [OF staticQueue_new_inv(1)] staticQueue_new_inv(2)
  by (simp add: staticQueue_def)

text \<open>
  As an index set, a static queue that does not share its arrays reports as members
  exactly the indices on it, and the loop over \<open>First\<close> and \<open>Successor\<close> visits them in the
  order of insertion.
\<close>

theorem staticQueue_index_set:
  assumes "sq_inv Q"
  shows "(\<forall>i < sq_n Q. staticQueue_IsMember Q i = Inr (i \<in> set (sq_items Q)))
    \<and> index_loop (\<lambda>i. case staticQueue_Successor Q i of Inl e \<Rightarrow> 0 | Inr j \<Rightarrow> j) (sq_n Q)
        (staticQueue_First Q) = Some (sq_items Q)"
proof
  from assms have rep: "sq_rep Q (sq_items Q)" by (rule sq_invE)
  show "\<forall>i < sq_n Q. staticQueue_IsMember Q i = Inr (i \<in> set (sq_items Q))"
    using sq_inv_occupied_iff [OF assms] rep
    by (fastforce simp: staticQueue_IsMember_def sq_rep_def split: option.splits)
  have "sq_items Q \<noteq> [] \<Longrightarrow> sq_first Q = hd (sq_items Q)"
    using rep by (cases "sq_items Q") (auto dest: sq_rep_first)
  then show "index_loop (\<lambda>i. case staticQueue_Successor Q i of Inl e \<Rightarrow> 0 | Inr j \<Rightarrow> j) (sq_n Q)
      (staticQueue_First Q) = Some (sq_items Q)"
    using assms rep
    by (intro staticQueue_loop_items [where as = "[]"])
      (auto simp: staticQueue_First_def sq_inv_empty staticQueue_Successor_def)
qed

theorem staticQueue_index_set_witness:
  "let Q = \<lparr>sq_next = [2, 3, 2], sq_set = None, sq_first = 0, sq_last = 2, sq_n = 3,
            sq_length = 2, sq_master = True, sq_OH = 1\<rparr>
   in sq_items Q = [0, 2] \<and> staticQueue_IsMember Q 1 = Inr False"
proof -
  define Q where "Q = \<lparr>sq_next = [2, 3, 2], sq_set = None, sq_first = 0, sq_last = 2, sq_n = 3,
      sq_length = 2, sq_master = True, sq_OH = 1\<rparr>"
  have items: "sq_items Q = [0, 2]" by (simp add: Q_def sq_items_def numeral_2_eq_2)
  moreover have "sq_inv Q"
    by (rule sq_invI [of _ "[0, 2]"])
      (auto simp: Q_def sq_rep_def numeral_3_eq_3 less_Suc_eq)
  ultimately have "staticQueue_IsMember Q 1 = Inr False"
    using staticQueue_index_set [of Q] by (auto simp: Q_def)
  with items show ?thesis by (simp add: Q_def)
qed

end
