(* ===== verification/Dynamic_Containers.thy ===== *)
theory Dynamic_Containers
  imports Goblin_Queue
begin

text \<open>
  The node-based stack and queue (\<^verbatim>\<open>include/dynamicStack.h\<close>, \<^verbatim>\<open>lib_src/dynamicStack.cpp\<close>,
  \<^verbatim>\<open>include/dynamicQueue.h\<close>, \<^verbatim>\<open>lib_src/dynamicQueue.cpp\<close>). Their list nodes live on the
  heap: the model keeps a store from addresses to nodes, \<open>new\<close> takes the next address that
  was never used and \<open>delete\<close> removes the node. Following a pointer to a node that is not
  there is the error \<open>OutOfBounds\<close>.
\<close>

section \<open>Nodes on the heap\<close>

text \<open>\<open>dynamicStack::stackMember\<close> links to the node below, \<open>dynamicQueue::queueMember\<close> to the next one.\<close>

record stackMember =
  sm_index :: nat
  sm_prev :: "nat option"

record queueMember =
  qm_index :: nat
  qm_next :: "nat option"

record dynamic_stack =
  ds_heap :: "nat \<rightharpoonup> stackMember"
  ds_brk :: nat
  ds_top :: "nat option"
  ds_n :: nat
  ds_depth :: nat

record dynamic_queue =
  dq_heap :: "nat \<rightharpoonup> queueMember"
  dq_brk :: nat
  dq_first :: "nat option"
  dq_last :: nat
  dq_n :: nat
  dq_length :: nat

section \<open>The stack\<close>

definition dynamicStack :: "nat \<Rightarrow> dynamic_stack" where
  "dynamicStack nn =
     \<lparr>ds_heap = Map.empty, ds_brk = 0, ds_top = None, ds_n = nn, ds_depth = 0\<rparr>"

definition dynamicStack_Empty :: "dynamic_stack \<Rightarrow> bool" where
  "dynamicStack_Empty D \<longleftrightarrow> ds_top D = None"

definition dynamicStack_Cardinality :: "dynamic_stack \<Rightarrow> nat" where
  "dynamicStack_Cardinality D = ds_depth D"

definition dynamicStack_Insert :: "dynamic_stack \<Rightarrow> nat \<Rightarrow> dynamic_stack result" where
  "dynamicStack_Insert D w =
     (if w \<ge> ds_n D then Inl ERRange
      else let temp = ds_brk D in
        Inr (D\<lparr>ds_brk := ds_brk D + 1,
               ds_heap := (ds_heap D)(temp \<mapsto> \<lparr>sm_index = w, sm_prev = ds_top D\<rparr>),
               ds_top := Some temp, ds_depth := ds_depth D + 1\<rparr>))"

definition dynamicStack_Delete :: "dynamic_stack \<Rightarrow> (nat \<times> dynamic_stack) result" where
  "dynamicStack_Delete D =
     (if dynamicStack_Empty D then Inl ERRejected
      else case ds_top D of None \<Rightarrow> Inl OutOfBounds
      | Some t \<Rightarrow> (case ds_heap D t of None \<Rightarrow> Inl OutOfBounds
        | Some m \<Rightarrow> Inr (sm_index m, D\<lparr>ds_heap := (ds_heap D)(t := None), ds_top := sm_prev m,
                                        ds_depth := ds_depth D - 1\<rparr>)))"

definition dynamicStack_Peek :: "dynamic_stack \<Rightarrow> nat result" where
  "dynamicStack_Peek D =
     (if dynamicStack_Empty D then Inl ERRejected
      else case ds_top D of None \<Rightarrow> Inl OutOfBounds
      | Some t \<Rightarrow> (case ds_heap D t of None \<Rightarrow> Inl OutOfBounds | Some m \<Rightarrow> Inr (sm_index m)))"

definition dynamicStack_destroy :: "dynamic_stack \<Rightarrow> dynamic_stack result option" where
  "dynamicStack_destroy D = goblinQueue_Init dynamicStack_Empty dynamicStack_Delete D"

section \<open>The queue\<close>

definition dynamicQueue :: "nat \<Rightarrow> nat \<Rightarrow> dynamic_queue" where
  "dynamicQueue nn junk =
     \<lparr>dq_heap = Map.empty, dq_brk = 0, dq_first = None, dq_last = junk, dq_n = nn, dq_length = 0\<rparr>"

definition dynamicQueue_Empty :: "dynamic_queue \<Rightarrow> bool" where
  "dynamicQueue_Empty D \<longleftrightarrow> dq_first D = None"

definition dynamicQueue_Cardinality :: "dynamic_queue \<Rightarrow> nat" where
  "dynamicQueue_Cardinality D = dq_length D"

definition dynamicQueue_Insert :: "dynamic_queue \<Rightarrow> nat \<Rightarrow> dynamic_queue result" where
  "dynamicQueue_Insert D w =
     (if w \<ge> dq_n D then Inl ERRange
      else let temp = dq_brk D;
               D1 = D\<lparr>dq_brk := dq_brk D + 1,
                      dq_heap := (dq_heap D)(temp \<mapsto> \<lparr>qm_index = w, qm_next = None\<rparr>)\<rparr>
        in if dq_first D1 = None
           then Inr (D1\<lparr>dq_first := Some temp, dq_last := temp, dq_length := dq_length D1 + 1\<rparr>)
           else case dq_heap D1 (dq_last D1) of None \<Rightarrow> Inl OutOfBounds
             | Some m \<Rightarrow> Inr (D1\<lparr>dq_heap := (dq_heap D1)(dq_last D1 \<mapsto> m\<lparr>qm_next := Some temp\<rparr>),
                                 dq_last := temp, dq_length := dq_length D1 + 1\<rparr>))"

definition dynamicQueue_Delete :: "dynamic_queue \<Rightarrow> (nat \<times> dynamic_queue) result" where
  "dynamicQueue_Delete D =
     (if dynamicQueue_Empty D then Inl ERRejected
      else case dq_first D of None \<Rightarrow> Inl OutOfBounds
      | Some t \<Rightarrow> (case dq_heap D t of None \<Rightarrow> Inl OutOfBounds
        | Some m \<Rightarrow> Inr (qm_index m, D\<lparr>dq_heap := (dq_heap D)(t := None), dq_first := qm_next m,
                                        dq_length := dq_length D - 1\<rparr>)))"

definition dynamicQueue_Peek :: "dynamic_queue \<Rightarrow> nat result" where
  "dynamicQueue_Peek D =
     (if dynamicQueue_Empty D then Inl ERRejected
      else case dq_first D of None \<Rightarrow> Inl OutOfBounds
      | Some t \<Rightarrow> (case dq_heap D t of None \<Rightarrow> Inl OutOfBounds | Some m \<Rightarrow> Inr (qm_index m)))"

definition dynamicQueue_destroy :: "dynamic_queue \<Rightarrow> dynamic_queue result option" where
  "dynamicQueue_destroy D = goblinQueue_Init dynamicQueue_Empty dynamicQueue_Delete D"

section \<open>Linked nodes\<close>

text \<open>
  Both classes keep one list of nodes. \<open>linked lnk h p as q\<close>: starting at pointer \<open>p\<close> and
  following \<open>lnk\<close>, the nodes at the addresses \<open>as\<close> are visited and \<open>q\<close> is reached.
\<close>

fun linked :: "('m \<Rightarrow> nat option) \<Rightarrow> (nat \<rightharpoonup> 'm) \<Rightarrow> nat option \<Rightarrow> nat list \<Rightarrow> nat option \<Rightarrow> bool" where
  "linked lnk h p [] q \<longleftrightarrow> p = q"
| "linked lnk h p (a # as) q \<longleftrightarrow>
     p = Some a \<and> (case h a of None \<Rightarrow> False | Some m \<Rightarrow> linked lnk h (lnk m) as q)"

lemma linked_cong:
  "(\<And>a. a \<in> set as \<Longrightarrow> h a = g a) \<Longrightarrow> linked lnk h p as q = linked lnk g p as q"
  by (induction as arbitrary: p) (auto split: option.splits)

lemma linked_upd [simp]: "a \<notin> set as \<Longrightarrow> linked lnk (h(a := x)) p as q = linked lnk h p as q"
  by (rule linked_cong) auto

lemma linked_append:
  "linked lnk h p (as @ bs) q \<longleftrightarrow> (\<exists>r. linked lnk h p as r \<and> linked lnk h r bs q)"
  by (induction as arbitrary: p) (auto split: option.splits)

lemma linked_unique:
  "linked lnk h p as None \<Longrightarrow> linked lnk h p bs None \<Longrightarrow> as = bs"
proof (induction as arbitrary: p bs)
  case Nil
  then show ?case by (cases bs) auto
next
  case (Cons a as)
  then show ?case by (cases bs) (auto split: option.splits)
qed

text \<open>The items of a node list, read off by following at most \<open>k\<close> links.\<close>

fun hitems :: "('m \<Rightarrow> nat) \<Rightarrow> ('m \<Rightarrow> nat option) \<Rightarrow> (nat \<rightharpoonup> 'm) \<Rightarrow> nat option \<Rightarrow> nat \<Rightarrow> nat list" where
  "hitems idx lnk h p 0 = []"
| "hitems idx lnk h p (Suc k) =
     (case p of None \<Rightarrow> []
      | Some a \<Rightarrow> (case h a of None \<Rightarrow> [] | Some m \<Rightarrow> idx m # hitems idx lnk h (lnk m) k))"

definition node_items :: "('m \<Rightarrow> nat) \<Rightarrow> (nat \<rightharpoonup> 'm) \<Rightarrow> nat list \<Rightarrow> nat list" where
  "node_items idx h as = map (\<lambda>a. idx (the (h a))) as"

lemma hitems_linked:
  "linked lnk h p as None \<Longrightarrow> hitems idx lnk h p (length as) = node_items idx h as"
  by (induction as arbitrary: p) (auto simp: node_items_def split: option.splits)

lemma node_items_upd [simp]:
  "a \<notin> set as \<Longrightarrow> node_items idx (h(a := x)) as = node_items idx h as"
  by (auto simp: node_items_def)

lemma node_items_simps [simp]:
  "node_items idx h [] = []"
  "node_items idx h (a # as) = idx (the (h a)) # node_items idx h as"
  "node_items idx h (as @ bs) = node_items idx h as @ node_items idx h bs"
  by (simp_all add: node_items_def)

lemma node_items_Nil_iff [simp]: "node_items idx h as = [] \<longleftrightarrow> as = []"
  by (simp add: node_items_def)

section \<open>The stack implements its contract\<close>

definition ds_items :: "dynamic_stack \<Rightarrow> nat list" where
  "ds_items D = hitems sm_index sm_prev (ds_heap D) (ds_top D) (ds_depth D)"

text \<open>The heap holds exactly the nodes of the list: nothing is leaked, nothing dangles.\<close>

definition ds_rep :: "dynamic_stack \<Rightarrow> nat list \<Rightarrow> bool" where
  "ds_rep D as \<longleftrightarrow> linked sm_prev (ds_heap D) (ds_top D) as None \<and> distinct as
     \<and> dom (ds_heap D) = set as \<and> (\<forall>a \<in> set as. a < ds_brk D) \<and> ds_depth D = length as"

definition ds_inv :: "dynamic_stack \<Rightarrow> bool" where
  "ds_inv D \<longleftrightarrow> (\<exists>as. ds_rep D as)"

lemma ds_rep_items: "ds_rep D as \<Longrightarrow> ds_items D = node_items sm_index (ds_heap D) as"
  by (simp add: ds_rep_def ds_items_def hitems_linked)

lemma ds_rep_new: "ds_rep (dynamicStack nn) []"
  by (simp add: ds_rep_def dynamicStack_def)

lemma dynamicStack_Insert_rep:
  assumes "ds_rep D as" "w < ds_n D"
  shows "\<exists>D'. dynamicStack_Insert D w = Inr D' \<and> ds_rep D' (ds_brk D # as)
    \<and> ds_items D' = w # ds_items D \<and> ds_n D' = ds_n D"
proof -
  define D' where "D' = D\<lparr>ds_brk := ds_brk D + 1,
    ds_heap := (ds_heap D)(ds_brk D \<mapsto> \<lparr>sm_index = w, sm_prev = ds_top D\<rparr>),
    ds_top := Some (ds_brk D), ds_depth := ds_depth D + 1\<rparr>"
  then have D': "dynamicStack_Insert D w = Inr D'" "ds_n D' = ds_n D"
    "ds_heap D' = (ds_heap D)(ds_brk D \<mapsto> \<lparr>sm_index = w, sm_prev = ds_top D\<rparr>)"
    "ds_top D' = Some (ds_brk D)" "ds_depth D' = Suc (ds_depth D)" "ds_brk D' = Suc (ds_brk D)"
    using assms by (simp_all add: dynamicStack_Insert_def Let_def)
  have fresh: "ds_brk D \<notin> set as" using assms by (auto simp: ds_rep_def)
  have "ds_rep D' (ds_brk D # as)"
    using assms D' fresh by (auto simp: ds_rep_def less_Suc_eq)
  with D' fresh assms show ?thesis by (simp add: ds_rep_items)
qed

lemma dynamicStack_Delete_rep:
  assumes "ds_rep D (a # as)"
  shows "\<exists>D'. dynamicStack_Delete D = Inr (hd (ds_items D), D') \<and> ds_rep D' as
    \<and> ds_items D' = tl (ds_items D) \<and> ds_n D' = ds_n D"
proof -
  from assms obtain m where m: "ds_top D = Some a" "ds_heap D a = Some m"
    "linked sm_prev (ds_heap D) (sm_prev m) as None"
    by (auto simp: ds_rep_def split: option.splits)
  define D' where "D' = D\<lparr>ds_heap := (ds_heap D)(a := None), ds_top := sm_prev m,
    ds_depth := ds_depth D - 1\<rparr>"
  then have D': "dynamicStack_Delete D = Inr (sm_index m, D')" "ds_n D' = ds_n D"
    "ds_heap D' = (ds_heap D)(a := None)" "ds_top D' = sm_prev m"
    "ds_depth D' = ds_depth D - 1" "ds_brk D' = ds_brk D"
    using m by (simp_all add: dynamicStack_Delete_def dynamicStack_Empty_def)
  have rep: "ds_rep D' as" using assms D' m by (auto simp: ds_rep_def)
  have "ds_items D = sm_index m # node_items sm_index (ds_heap D) as"
    using assms m by (simp add: ds_rep_items)
  moreover have "ds_items D' = node_items sm_index (ds_heap D) as"
    using rep D' assms by (simp add: ds_rep_items) (simp add: ds_rep_def)
  ultimately show ?thesis using D' rep by simp
qed

lemma ds_empty_cases:
  assumes "ds_inv D"
  shows "dynamicStack_Empty D \<longleftrightarrow> ds_items D = []" and "ds_depth D = length (ds_items D)"
proof -
  from assms obtain as where rep: "ds_rep D as" by (auto simp: ds_inv_def)
  then have "dynamicStack_Empty D \<longleftrightarrow> as = []"
    by (cases as) (auto simp: ds_rep_def dynamicStack_Empty_def)
  with rep show "dynamicStack_Empty D \<longleftrightarrow> ds_items D = []" by (simp add: ds_rep_items)
  from rep show "ds_depth D = length (ds_items D)"
    by (simp add: ds_rep_items node_items_def) (simp add: ds_rep_def)
qed

lemma ds_Cons:
  assumes "ds_inv D" "ds_items D = x # xs"
  obtains a as where "ds_rep D (a # as)"
  using assms ds_rep_items by (metis ds_inv_def list.exhaust list.distinct(1) node_items_simps(1))

lemma dynamicStack_Delete_inv:
  assumes "ds_inv D" "ds_items D = x # xs"
  shows "\<exists>D'. dynamicStack_Delete D = Inr (x, D') \<and> ds_items D' = xs \<and> ds_n D' = ds_n D \<and> ds_inv D'"
proof -
  obtain a as where "ds_rep D (a # as)" using assms by (rule ds_Cons)
  from dynamicStack_Delete_rep [OF this] assms(2) show ?thesis by (auto simp: ds_inv_def)
qed

lemma dynamicStack_Peek_Delete: "dynamicStack_Delete D = Inr (x, D') \<Longrightarrow> dynamicStack_Peek D = Inr x"
  by (auto simp: dynamicStack_Peek_def dynamicStack_Delete_def split: if_splits option.splits)

interpretation dstack: seq_container ds_inv ds_items dynamicStack_Empty dynamicStack_Cardinality
  dynamicStack_Delete dynamicStack_Peek dynamicStack_Insert ds_n False Cons
proof unfold_locales
  fix D x xs
  assume inv: "ds_inv D" and items: "ds_items D = x # xs"
  then show "\<exists>q'. dynamicStack_Delete D = Inr (x, q') \<and> ds_items q' = xs \<and> ds_n q' = ds_n D \<and> ds_inv q'"
    by (rule dynamicStack_Delete_inv)
  then show "dynamicStack_Peek D = Inr x" by (auto dest: dynamicStack_Peek_Delete)
next
  fix D x
  assume "ds_inv D" "x < ds_n D"
  then show "\<exists>q'. dynamicStack_Insert D x = Inr q' \<and> ds_items q' = x # ds_items D
      \<and> ds_n q' = ds_n D \<and> ds_inv q'"
    unfolding ds_inv_def using dynamicStack_Insert_rep by blast
qed (auto simp: ds_empty_cases dynamicStack_Cardinality_def dynamicStack_Delete_def
    dynamicStack_Peek_def dynamicStack_Insert_def)

section \<open>The queue implements its contract\<close>

definition dq_items :: "dynamic_queue \<Rightarrow> nat list" where
  "dq_items D = hitems qm_index qm_next (dq_heap D) (dq_first D) (dq_length D)"

definition dq_rep :: "dynamic_queue \<Rightarrow> nat list \<Rightarrow> bool" where
  "dq_rep D as \<longleftrightarrow> linked qm_next (dq_heap D) (dq_first D) as None \<and> distinct as
     \<and> dom (dq_heap D) = set as \<and> (\<forall>a \<in> set as. a < dq_brk D) \<and> dq_length D = length as
     \<and> (as \<noteq> [] \<longrightarrow> dq_last D = last as)"

definition dq_inv :: "dynamic_queue \<Rightarrow> bool" where
  "dq_inv D \<longleftrightarrow> (\<exists>as. dq_rep D as)"

lemma dq_rep_items: "dq_rep D as \<Longrightarrow> dq_items D = node_items qm_index (dq_heap D) as"
  by (simp add: dq_rep_def dq_items_def hitems_linked)

lemma dq_rep_new: "dq_rep (dynamicQueue nn junk) []"
  by (simp add: dq_rep_def dynamicQueue_def)

lemma dynamicQueue_Insert_rep:
  assumes "dq_rep D as" "w < dq_n D"
  shows "\<exists>D'. dynamicQueue_Insert D w = Inr D' \<and> dq_rep D' (as @ [dq_brk D])
    \<and> dq_items D' = enqueue_place w (dq_items D) \<and> dq_n D' = dq_n D"
proof (cases as rule: rev_cases)
  case Nil
  with assms have first: "dq_first D = None" by (simp add: dq_rep_def)
  define D' where "D' = D\<lparr>dq_brk := dq_brk D + 1,
    dq_heap := (dq_heap D)(dq_brk D \<mapsto> \<lparr>qm_index = w, qm_next = None\<rparr>),
    dq_first := Some (dq_brk D), dq_last := dq_brk D, dq_length := dq_length D + 1\<rparr>"
  with first have D': "dynamicQueue_Insert D w = Inr D'" "dq_n D' = dq_n D"
    "dq_heap D' = (dq_heap D)(dq_brk D \<mapsto> \<lparr>qm_index = w, qm_next = None\<rparr>)"
    "dq_first D' = Some (dq_brk D)" "dq_last D' = dq_brk D" "dq_length D' = Suc (dq_length D)"
    "dq_brk D' = Suc (dq_brk D)"
    using assms by (simp_all add: dynamicQueue_Insert_def Let_def)
  have "dq_rep D' (as @ [dq_brk D])"
    using assms D' Nil by (auto simp: dq_rep_def)
  with D' assms Nil show ?thesis by (simp add: dq_rep_items enqueue_place_def)
next
  case (snoc bs l)
  with assms have first: "dq_first D \<noteq> None" and last: "dq_last D = l"
    and l: "l \<notin> set bs" "l < dq_brk D"
    by (cases bs; auto simp: dq_rep_def)+
  from assms snoc obtain m where m: "dq_heap D l = Some m"
    by (auto simp: dq_rep_def linked_append split: option.splits)
  have fresh: "dq_brk D \<notin> set bs" "l \<noteq> dq_brk D" using assms snoc by (auto simp: dq_rep_def)
  define D' where "D' = D\<lparr>dq_brk := dq_brk D + 1,
    dq_heap := (dq_heap D)(dq_brk D \<mapsto> \<lparr>qm_index = w, qm_next = None\<rparr>,
      l \<mapsto> m\<lparr>qm_next := Some (dq_brk D)\<rparr>),
    dq_last := dq_brk D, dq_length := dq_length D + 1\<rparr>"
  then have D': "dynamicQueue_Insert D w = Inr D'" "dq_n D' = dq_n D"
    "dq_heap D' = (dq_heap D)(dq_brk D \<mapsto> \<lparr>qm_index = w, qm_next = None\<rparr>,
       l \<mapsto> m\<lparr>qm_next := Some (dq_brk D)\<rparr>)"
    "dq_first D' = dq_first D" "dq_last D' = dq_brk D" "dq_length D' = Suc (dq_length D)"
    "dq_brk D' = Suc (dq_brk D)"
    using assms first last m fresh by (auto simp: dynamicQueue_Insert_def Let_def)
  have "dq_rep D' (as @ [dq_brk D])"
    using assms D' snoc l fresh by (auto simp: dq_rep_def linked_append less_Suc_eq)
  with D' assms snoc l fresh m show ?thesis by (simp add: dq_rep_items enqueue_place_def)
qed

lemma dynamicQueue_Delete_rep:
  assumes "dq_rep D (a # as)"
  shows "\<exists>D'. dynamicQueue_Delete D = Inr (hd (dq_items D), D') \<and> dq_rep D' as
    \<and> dq_items D' = tl (dq_items D) \<and> dq_n D' = dq_n D"
proof -
  from assms obtain m where m: "dq_first D = Some a" "dq_heap D a = Some m"
    "linked qm_next (dq_heap D) (qm_next m) as None"
    by (auto simp: dq_rep_def split: option.splits)
  define D' where "D' = D\<lparr>dq_heap := (dq_heap D)(a := None), dq_first := qm_next m,
    dq_length := dq_length D - 1\<rparr>"
  then have D': "dynamicQueue_Delete D = Inr (qm_index m, D')" "dq_n D' = dq_n D"
    "dq_heap D' = (dq_heap D)(a := None)" "dq_first D' = qm_next m" "dq_last D' = dq_last D"
    "dq_length D' = dq_length D - 1" "dq_brk D' = dq_brk D"
    using m by (simp_all add: dynamicQueue_Delete_def dynamicQueue_Empty_def)
  have rep: "dq_rep D' as" using assms D' m by (auto simp: dq_rep_def)
  have "dq_items D = qm_index m # node_items qm_index (dq_heap D) as"
    using assms m by (simp add: dq_rep_items)
  moreover have "dq_items D' = node_items qm_index (dq_heap D) as"
    using rep D' assms by (simp add: dq_rep_items) (simp add: dq_rep_def)
  ultimately show ?thesis using D' rep by simp
qed

lemma dq_empty_cases:
  assumes "dq_inv D"
  shows "dynamicQueue_Empty D \<longleftrightarrow> dq_items D = []" and "dq_length D = length (dq_items D)"
proof -
  from assms obtain as where rep: "dq_rep D as" by (auto simp: dq_inv_def)
  then have "dynamicQueue_Empty D \<longleftrightarrow> as = []"
    by (cases as) (auto simp: dq_rep_def dynamicQueue_Empty_def)
  with rep show "dynamicQueue_Empty D \<longleftrightarrow> dq_items D = []" by (simp add: dq_rep_items)
  from rep show "dq_length D = length (dq_items D)"
    by (simp add: dq_rep_items node_items_def) (simp add: dq_rep_def)
qed

lemma dq_Cons:
  assumes "dq_inv D" "dq_items D = x # xs"
  obtains a as where "dq_rep D (a # as)"
  using assms dq_rep_items by (metis dq_inv_def list.exhaust list.distinct(1) node_items_simps(1))

lemma dynamicQueue_Delete_inv:
  assumes "dq_inv D" "dq_items D = x # xs"
  shows "\<exists>D'. dynamicQueue_Delete D = Inr (x, D') \<and> dq_items D' = xs \<and> dq_n D' = dq_n D \<and> dq_inv D'"
proof -
  obtain a as where "dq_rep D (a # as)" using assms by (rule dq_Cons)
  from dynamicQueue_Delete_rep [OF this] assms(2) show ?thesis by (auto simp: dq_inv_def)
qed

lemma dynamicQueue_Peek_Delete: "dynamicQueue_Delete D = Inr (x, D') \<Longrightarrow> dynamicQueue_Peek D = Inr x"
  by (auto simp: dynamicQueue_Peek_def dynamicQueue_Delete_def split: if_splits option.splits)

interpretation dqueue: seq_container dq_inv dq_items dynamicQueue_Empty dynamicQueue_Cardinality
  dynamicQueue_Delete dynamicQueue_Peek dynamicQueue_Insert dq_n False enqueue_place
proof unfold_locales
  fix D x xs
  assume inv: "dq_inv D" and items: "dq_items D = x # xs"
  then show "\<exists>q'. dynamicQueue_Delete D = Inr (x, q') \<and> dq_items q' = xs \<and> dq_n q' = dq_n D \<and> dq_inv q'"
    by (rule dynamicQueue_Delete_inv)
  then show "dynamicQueue_Peek D = Inr x" by (auto dest: dynamicQueue_Peek_Delete)
next
  fix D x
  assume "dq_inv D" "x < dq_n D"
  then show "\<exists>q'. dynamicQueue_Insert D x = Inr q' \<and> dq_items q' = enqueue_place x (dq_items D)
      \<and> dq_n q' = dq_n D \<and> dq_inv q'"
    unfolding dq_inv_def using dynamicQueue_Insert_rep by blast
qed (auto simp: dq_empty_cases dynamicQueue_Cardinality_def dynamicQueue_Delete_def
    dynamicQueue_Peek_def dynamicQueue_Insert_def)

section \<open>Properties\<close>

text \<open>
  Any run of operations on a fresh node-based stack returns what an abstract
  last-in-first-out list returns; no run follows a dangling pointer. Unlike the static stack it
  accepts an index more than once.
\<close>

theorem dynamicStack_refines_LIFO:
  "queue_run (queue_step dynamicStack_Insert dynamicStack_Delete dynamicStack_Peek
       dynamicStack_Cardinality) (dynamicStack nn) xs
   = queue_run (spec_step Cons False nn) [] xs"
proof -
  have "ds_inv (dynamicStack nn)" using ds_rep_new by (auto simp: ds_inv_def)
  moreover have "ds_items (dynamicStack nn) = []" "ds_n (dynamicStack nn) = nn"
    by (simp_all add: ds_items_def dynamicStack_def)
  ultimately
  show ?thesis using dstack.run_refines by metis
qed

text \<open>
  C24: Any run of operations on a fresh node-based queue returns what an abstract
  first-in-first-out list returns; no run follows a dangling pointer, although \<open>last\<close> is never
  initialised and dangles once the queue has been emptied.
\<close>

theorem dynamicQueue_refines_FIFO:
  "queue_run (queue_step dynamicQueue_Insert dynamicQueue_Delete dynamicQueue_Peek
       dynamicQueue_Cardinality) (dynamicQueue nn junk) xs
   = queue_run (spec_step enqueue_place False nn) [] xs"
proof -
  have "dq_inv (dynamicQueue nn junk)" using dq_rep_new by (auto simp: dq_inv_def)
  moreover have "dq_items (dynamicQueue nn junk) = []" "dq_n (dynamicQueue nn junk) = nn"
    by (simp_all add: dq_items_def dynamicQueue_def)
  ultimately
  show ?thesis using dqueue.run_refines by metis
qed

text \<open>
  C26: Destroying a node-based stack or queue returns every node to the heap: the destructors
  end, raise no error, and leave no node allocated.
\<close>

theorem dynamic_destroy_frees:
  assumes "ds_inv D" and "dq_inv E"
  shows "\<exists>D' E'. dynamicStack_destroy D = Some (Inr D') \<and> ds_heap D' = Map.empty
    \<and> dynamicQueue_destroy E = Some (Inr E') \<and> dq_heap E' = Map.empty"
proof -
  obtain D' where D': "dynamicStack_destroy D = Some (Inr D')" "ds_inv D'" "ds_items D' = []"
    unfolding dynamicStack_destroy_def using dstack.Init_items [OF assms(1)] by metis
  obtain E' where E': "dynamicQueue_destroy E = Some (Inr E')" "dq_inv E'" "dq_items E' = []"
    unfolding dynamicQueue_destroy_def using dqueue.Init_items [OF assms(2)] by metis
  obtain as where "ds_rep D' as" using D'(2) by (auto simp: ds_inv_def)
  then have "ds_heap D' = Map.empty"
    using D'(3) by (auto simp: ds_rep_items) (auto simp: ds_rep_def)
  moreover obtain bs where "dq_rep E' bs" using E'(2) by (auto simp: dq_inv_def)
  then have "dq_heap E' = Map.empty"
    using E'(3) by (auto simp: dq_rep_items) (auto simp: dq_rep_def)
  ultimately show ?thesis using D'(1) E'(1) by blast
qed

theorem dynamic_destroy_frees_witness:
  "\<exists>D E D' E'. dynamicStack_Insert (dynamicStack 3) 1 = Inr D
    \<and> dynamicQueue_Insert (dynamicQueue 3 9) 2 = Inr E
    \<and> dynamicStack_destroy D = Some (Inr D') \<and> ds_heap D' = Map.empty
    \<and> dynamicQueue_destroy E = Some (Inr E') \<and> dq_heap E' = Map.empty"
proof -
  obtain D where D: "dynamicStack_Insert (dynamicStack 3) 1 = Inr D" "ds_inv D"
    using dynamicStack_Insert_rep [OF ds_rep_new [of 3], of 1]
    by (auto simp: ds_inv_def dynamicStack_def)
  obtain E where E: "dynamicQueue_Insert (dynamicQueue 3 9) 2 = Inr E" "dq_inv E"
    using dynamicQueue_Insert_rep [OF dq_rep_new [of 3 9], of 2]
    by (auto simp: dq_inv_def dynamicQueue_def)
  show ?thesis using D E dynamic_destroy_frees [OF D(2) E(2)] by blast
qed

end
