(* ===== verification/Basic_Heap.thy ===== *)
theory Basic_Heap
  imports Goblin_Queue
begin

text \<open>
  The naive priority queue (\<^verbatim>\<open>include/basicHeap.h\<close>, \<^verbatim>\<open>lib_src/basicHeap.cpp\<close>): the members
  are kept in the array \<open>v\<close> by decreasing key, so that \<open>Delete\<close> takes the last one; the
  position of a key is found by bisection. The constructor allocates \<open>v\<close> and \<open>key\<close> without
  initialising them; their first contents are arguments of the model.
\<close>

section \<open>The class\<close>

record basic_heap =
  bas_v :: "nat list"
  bas_key :: "TFloat list"
  bas_maxIndex :: nat
  bas_n :: nat

definition basicHeap :: "nat \<Rightarrow> nat list \<Rightarrow> TFloat list \<Rightarrow> basic_heap" where
  "basicHeap nn v0 key0 = \<lparr>bas_v = v0, bas_key = key0, bas_maxIndex = 0, bas_n = nn\<rparr>"

definition basicHeap_Init :: "basic_heap \<Rightarrow> basic_heap" where
  "basicHeap_Init H = H\<lparr>bas_maxIndex := 0\<rparr>"

definition basicHeap_Empty :: "basic_heap \<Rightarrow> bool" where
  "basicHeap_Empty H \<longleftrightarrow> bas_maxIndex H = 0"

definition basicHeap_Cardinality :: "basic_heap \<Rightarrow> nat" where
  "basicHeap_Cardinality H = bas_maxIndex H"

text \<open>\<open>memmove\<close> of \<open>cnt\<close> array entries from \<open>src\<close> to \<open>dst\<close>.\<close>

definition memmove :: "'a list \<Rightarrow> nat \<Rightarrow> nat \<Rightarrow> nat \<Rightarrow> 'a list" where
  "memmove xs dst src cnt = take dst xs @ take cnt (drop src xs) @ drop (dst + cnt) xs"

text \<open>The bisection loop shared by \<open>Insert\<close> and \<open>Delete(w)\<close>; \<open>key_at i\<close> is \<open>key[v[i]]\<close>.\<close>

function bas_search :: "(nat \<Rightarrow> TFloat) \<Rightarrow> TFloat \<Rightarrow> nat \<Rightarrow> nat \<Rightarrow> nat \<times> nat" where
  "bas_search key_at alpha step j =
     (if step > 1 then
        let nextStep = step div 2
        in if key_at (j + nextStep) > alpha
           then bas_search key_at alpha (step - nextStep) (j + nextStep)
           else bas_search key_at alpha nextStep j
      else (step, j))"
  by pat_completeness auto
termination
  by (relation "measure (\<lambda>(key_at, alpha, step, j). step)") auto

declare bas_search.simps [simp del]

definition basicHeap_Insert :: "basic_heap \<Rightarrow> nat \<Rightarrow> TFloat \<Rightarrow> basic_heap result" where
  "basicHeap_Insert H w alpha =
     (if w \<ge> bas_n H then Inl ERRange
      else if bas_maxIndex H \<ge> bas_n H then Inl ERRejected
      else
        let key_at = (\<lambda>i. bas_key H ! (bas_v H ! i));
            (step, j0) = bas_search key_at alpha (bas_maxIndex H) 0;
            j = (if step > 0 \<and> key_at j0 > alpha then j0 + 1 else j0);
            v1 = memmove (bas_v H) (j + 1) j (bas_maxIndex H - j)
        in Inr (H\<lparr>bas_v := v1[j := w], bas_key := (bas_key H)[w := alpha],
                  bas_maxIndex := bas_maxIndex H + 1\<rparr>))"

text \<open>\<open>while (v[j]!=w) j++;\<close> with \<open>None\<close> when the loop leaves the array.\<close>

function bas_find :: "nat list \<Rightarrow> nat \<Rightarrow> nat \<Rightarrow> nat option" where
  "bas_find v w j =
     (if j < length v then (if v ! j = w then Some j else bas_find v w (Suc j)) else None)"
  by pat_completeness auto
termination
  by (relation "measure (\<lambda>(v, w, j). length v - j)") auto

declare bas_find.simps [simp del]

text \<open>
  A position at or beyond \<open>maxIndex\<close> makes the unsigned size \<open>maxIndex-j-1\<close> of the
  \<open>memmove\<close> wrap around: another access outside the array.
\<close>

definition basicHeap_DeleteItem :: "basic_heap \<Rightarrow> nat \<Rightarrow> basic_heap result" where
  "basicHeap_DeleteItem H w =
     (if w \<ge> bas_n H then Inl ERRange
      else let alpha = bas_key H ! w in
        if alpha = InfFloat then Inl ERRejected
        else
          let key_at = (\<lambda>i. bas_key H ! (bas_v H ! i));
              (step, j0) = bas_search key_at alpha (bas_maxIndex H) 0
          in case bas_find (bas_v H) w j0 of
              None \<Rightarrow> Inl OutOfBounds
            | Some j \<Rightarrow>
                if j \<ge> bas_maxIndex H then Inl OutOfBounds
                else Inr (H\<lparr>bas_v := memmove (bas_v H) j (j + 1) (bas_maxIndex H - j - 1),
                            bas_key := (bas_key H)[w := InfFloat],
                            bas_maxIndex := bas_maxIndex H - 1\<rparr>))"

definition basicHeap_Key :: "basic_heap \<Rightarrow> nat \<Rightarrow> TFloat result" where
  "basicHeap_Key H w = (if w \<ge> bas_n H then Inl ERRange else Inr (bas_key H ! w))"

definition basicHeap_ChangeKey :: "basic_heap \<Rightarrow> nat \<Rightarrow> TFloat \<Rightarrow> basic_heap result" where
  "basicHeap_ChangeKey H w alpha =
     (if w \<ge> bas_n H then Inl ERRange
      else if bas_key H ! w = InfFloat then Inl ERRejected
      else rbind (basicHeap_DeleteItem H w) (\<lambda>H'. basicHeap_Insert H' w alpha))"

definition basicHeap_Delete :: "basic_heap \<Rightarrow> (nat \<times> basic_heap) result" where
  "basicHeap_Delete H =
     (if basicHeap_Empty H then Inl ERRejected
      else let w = bas_v H ! (bas_maxIndex H - 1) in
        Inr (w, H\<lparr>bas_maxIndex := bas_maxIndex H - 1, bas_key := (bas_key H)[w := InfFloat]\<rparr>))"

definition basicHeap_Peek :: "basic_heap \<Rightarrow> nat result" where
  "basicHeap_Peek H =
     (if basicHeap_Empty H then Inl ERRejected else Inr (bas_v H ! (bas_maxIndex H - 1)))"

section \<open>Invariant\<close>

definition bas_items :: "basic_heap \<Rightarrow> nat list" where
  "bas_items H = take (bas_maxIndex H) (bas_v H)"

abbreviation bas_keyof :: "basic_heap \<Rightarrow> nat \<Rightarrow> TFloat" where
  "bas_keyof H w \<equiv> bas_key H ! w"

definition bas_inv :: "basic_heap \<Rightarrow> bool" where
  "bas_inv H \<longleftrightarrow> length (bas_v H) = bas_n H \<and> length (bas_key H) = bas_n H
     \<and> bas_maxIndex H \<le> bas_n H \<and> distinct (bas_items H)
     \<and> (\<forall>w \<in> set (bas_items H). w < bas_n H \<and> bas_keyof H w \<noteq> InfFloat)
     \<and> sorted_wrt (\<lambda>x y. bas_keyof H x \<ge> bas_keyof H y) (bas_items H)"

lemma bas_items_length: "bas_inv H \<Longrightarrow> length (bas_items H) = bas_maxIndex H"
  by (simp add: bas_inv_def bas_items_def)

lemma bas_items_nth: "i < bas_maxIndex H \<Longrightarrow> bas_items H ! i = bas_v H ! i"
  by (simp add: bas_items_def)

section \<open>The bisection\<close>

text \<open>
  \<open>bracket\<close>: every position before \<open>j\<close> has a key above \<open>alpha\<close>, every position from
  \<open>j + step\<close> on has none. The loop shrinks the bracket to one position.
\<close>

definition bracket :: "(nat \<Rightarrow> TFloat) \<Rightarrow> TFloat \<Rightarrow> nat \<Rightarrow> nat \<Rightarrow> nat \<Rightarrow> bool" where
  "bracket key_at alpha len step j \<longleftrightarrow> j + step \<le> len \<and> (\<forall>i < j. key_at i > alpha)
     \<and> (\<forall>i. j + step \<le> i \<and> i < len \<longrightarrow> key_at i \<le> alpha)"

lemma bas_search_bracket:
  assumes mono: "\<And>i i'. i \<le> i' \<Longrightarrow> i' < len \<Longrightarrow> key_at i' \<le> key_at i"
    and "bracket key_at alpha len step j"
  shows "case bas_search key_at alpha step j of (step', j') \<Rightarrow>
    bracket key_at alpha len step' j' \<and> step' \<le> 1 \<and> (0 < step \<longrightarrow> step' = 1)"
  using assms(2)
proof (induction step arbitrary: j rule: less_induct)
  case (less step)
  show ?case
  proof (cases "step > 1")
    case False
    with less.prems show ?thesis by (subst bas_search.simps) auto
  next
    case True
    let ?ns = "step div 2"
    have ns: "0 < ?ns" "?ns < step" using True by auto
    have split: "bas_search key_at alpha step j = (if key_at (j + ?ns) > alpha
        then bas_search key_at alpha (step - ?ns) (j + ?ns) else bas_search key_at alpha ?ns j)"
      using True by (subst bas_search.simps) (simp add: Let_def)
    show ?thesis
    proof (cases "key_at (j + ?ns) > alpha")
      case above: True
      have "key_at i > alpha" if "i < j + ?ns" for i
      proof -
        have "j + step \<le> len" using less.prems by (simp add: bracket_def)
        with ns(2) have "j + ?ns < len" by linarith
        with mono [of i "j + ?ns"] that above show ?thesis by simp
      qed
      then have "bracket key_at alpha len (step - ?ns) (j + ?ns)"
        using less.prems ns by (simp add: bracket_def)
      from less.IH [OF _ this] ns True above show ?thesis by (simp add: split)
    next
      case below: False
      have "key_at i \<le> alpha" if "j + ?ns \<le> i" "i < len" for i
        using mono [of "j + ?ns" i] that below by simp
      moreover have "j + step \<le> len" using less.prems by (simp add: bracket_def)
      then have "j + ?ns \<le> len" using ns(2) by linarith
      ultimately have "bracket key_at alpha len ?ns j"
        using less.prems by (simp add: bracket_def)
      from less.IH [OF _ this] ns True below show ?thesis by (simp add: split)
    qed
  qed
qed

lemma bas_find_first:
  "j \<le> p \<Longrightarrow> p < length v \<Longrightarrow> v ! p = w \<Longrightarrow> (\<And>i. j \<le> i \<Longrightarrow> i < p \<Longrightarrow> v ! i \<noteq> w)
   \<Longrightarrow> bas_find v w j = Some p"
proof (induction "p - j" arbitrary: j)
  case 0
  then show ?case by (subst bas_find.simps) simp
next
  case (Suc k)
  then have "bas_find v w (Suc j) = Some p" by (intro Suc.hyps(1)) auto
  with Suc.prems Suc.hyps(2) show ?case by (subst bas_find.simps) auto
qed

lemma take_memmove_open:
  assumes "j \<le> k" "k < length v"
  shows "take (Suc k) ((memmove v (j + 1) j (k - j))[j := w]) = take j v @ w # drop j (take k v)"
    and "length (memmove v (j + 1) j (k - j)) = length v"
  using assms
  by (simp_all add: memmove_def list_update_append upd_conv_take_nth_drop take_Cons'
      take_Suc_conv_app_nth drop_take min_def) arith+

lemma memmove_close:
  assumes "j < k" "k \<le> length v"
  shows "take (k - 1) (memmove v j (j + 1) (k - j - 1)) = take j v @ drop (Suc j) (take k v)"
    and "length (memmove v j (j + 1) (k - j - 1)) = length v"
proof -
  obtain c where k: "k = Suc (j + c)" using assms(1) by (auto dest: less_imp_Suc_add)
  with assms(2) show "length (memmove v j (j + 1) (k - j - 1)) = length v"
    by (simp add: memmove_def)
  from k assms(2) show "take (k - 1) (memmove v j (j + 1) (k - j - 1))
      = take j v @ drop (Suc j) (take k v)"
    by (simp add: memmove_def drop_take min_absorb1 min_absorb2)
qed

section \<open>Insert\<close>

lemma bas_inv_mono:
  assumes "bas_inv H" "i \<le> i'" "i' < bas_maxIndex H"
  shows "bas_keyof H (bas_v H ! i') \<le> bas_keyof H (bas_v H ! i)"
proof (cases "i = i'")
  case False
  with assms show ?thesis
    using sorted_wrt_nth_less [of "\<lambda>x y. bas_keyof H x \<ge> bas_keyof H y" "bas_items H" i i']
    by (simp add: bas_inv_def bas_items_nth) (simp add: bas_items_def)
qed simp

lemma bas_search_position:
  assumes "bas_inv H"
    and "bas_search (\<lambda>i. bas_key H ! (bas_v H ! i)) alpha (bas_maxIndex H) 0 = (step, j0)"
  shows "j0 \<le> bas_maxIndex H" and "\<forall>i < j0. alpha < bas_keyof H (bas_v H ! i)"
    and "\<forall>i. Suc j0 \<le> i \<and> i < bas_maxIndex H \<longrightarrow> bas_keyof H (bas_v H ! i) \<le> alpha"
    and "0 < step \<longleftrightarrow> j0 < bas_maxIndex H"
proof -
  have "bracket (\<lambda>i. bas_key H ! (bas_v H ! i)) alpha (bas_maxIndex H) (bas_maxIndex H) 0"
    by (simp add: bracket_def)
  from bas_search_bracket [OF bas_inv_mono [OF assms(1)] this] assms(2)
  have b: "bracket (\<lambda>i. bas_key H ! (bas_v H ! i)) alpha (bas_maxIndex H) step j0"
    "step \<le> 1" "0 < bas_maxIndex H \<longrightarrow> step = 1" by auto
  then show "j0 \<le> bas_maxIndex H" "\<forall>i < j0. alpha < bas_keyof H (bas_v H ! i)"
    "\<forall>i. Suc j0 \<le> i \<and> i < bas_maxIndex H \<longrightarrow> bas_keyof H (bas_v H ! i) \<le> alpha"
    by (auto simp: bracket_def)
  from b show "0 < step \<longleftrightarrow> j0 < bas_maxIndex H" by (auto simp: bracket_def)
qed

lemma basicHeap_Insert_items:
  assumes inv: "bas_inv H" and w: "w < bas_n H" and room: "bas_maxIndex H < bas_n H"
  shows "\<exists>H'. basicHeap_Insert H w alpha = Inr H' \<and> bas_n H' = bas_n H
    \<and> bas_maxIndex H' = Suc (bas_maxIndex H) \<and> length (bas_v H') = bas_n H
    \<and> bas_key H' = (bas_key H)[w := alpha]
    \<and> bas_items H' = filter (\<lambda>y. bas_keyof H y > alpha) (bas_items H) @ w #
        filter (\<lambda>y. \<not> bas_keyof H y > alpha) (bas_items H)"
proof -
  let ?k = "\<lambda>i. bas_key H ! (bas_v H ! i)" and ?m = "bas_maxIndex H"
  obtain step j0 where s: "bas_search ?k alpha ?m 0 = (step, j0)" by fastforce
  note pos = bas_search_position [OF inv s]
  define j where "j = (if step > 0 \<and> ?k j0 > alpha then j0 + 1 else j0)"
  have j: "j \<le> ?m" "\<And>i. i < j \<Longrightarrow> ?k i > alpha" "\<And>i. j \<le> i \<Longrightarrow> i < ?m \<Longrightarrow> ?k i \<le> alpha"
  proof -
    show "j \<le> ?m" using pos(1,4) by (auto simp: j_def)
    show "?k i > alpha" if "i < j" for i
      using that pos(2) by (auto simp: j_def less_Suc_eq split: if_splits)
    show "?k i \<le> alpha" if i: "j \<le> i" "i < ?m" for i
    proof (cases "i = j0")
      case True
      with i pos(4) show ?thesis by (auto simp: j_def split: if_splits)
    next
      case False
      with i have "Suc j0 \<le> i" by (auto simp: j_def split: if_splits)
      with i pos(3) show ?thesis by blast
    qed
  qed
  have len: "length (bas_v H) = bas_n H" using inv by (simp add: bas_inv_def)
  let ?v = "(memmove (bas_v H) (j + 1) j (?m - j))[j := w]"
  have "filter (\<lambda>y. bas_keyof H y > alpha) (bas_items H) = take j (bas_items H)"
    "filter (\<lambda>y. \<not> bas_keyof H y > alpha) (bas_items H) = drop j (bas_items H)"
    using filter_split [of j "bas_items H" "\<lambda>y. bas_keyof H y > alpha"] j inv
    by (simp_all add: bas_items_length bas_items_nth not_less)
  moreover have "take (Suc ?m) ?v = take j (bas_v H) @ w # drop j (take ?m (bas_v H))"
    "length ?v = bas_n H"
    using take_memmove_open [of j ?m "bas_v H"] j(1) room len by simp_all
  moreover have "basicHeap_Insert H w alpha = Inr (H\<lparr>bas_v := ?v,
      bas_key := (bas_key H)[w := alpha], bas_maxIndex := ?m + 1\<rparr>)"
    using w room by (simp add: basicHeap_Insert_def s j_def Let_def)
  ultimately show ?thesis
    using j(1) by (auto simp: bas_items_def min_def)
qed

lemma basicHeap_Insert_inv:
  assumes inv: "bas_inv H" and w: "w < bas_n H" "w \<notin> set (bas_items H)" and a: "alpha \<noteq> InfFloat"
  shows "\<exists>H'. basicHeap_Insert H w alpha = Inr H' \<and> bas_n H' = bas_n H
    \<and> bas_key H' = (bas_key H)[w := alpha] \<and> set (bas_items H') = insert w (set (bas_items H))
    \<and> bas_inv H'"
proof -
  let ?ys = "bas_items H"
  have ys: "distinct ?ys" "\<forall>y \<in> set ?ys. y < bas_n H \<and> bas_keyof H y \<noteq> InfFloat"
    "sorted_wrt (\<lambda>x y. bas_keyof H x \<ge> bas_keyof H y) ?ys" "length (bas_key H) = bas_n H"
    using inv by (simp_all add: bas_inv_def)
  have "set ?ys \<subset> {..<bas_n H}" using ys(2) w by auto
  then have "card (set ?ys) < bas_n H" by (metis card_lessThan finite_lessThan psubset_card_mono)
  then have room: "bas_maxIndex H < bas_n H"
    using ys(1) inv by (simp add: distinct_card bas_items_length)
  from basicHeap_Insert_items [OF inv w(1) room] obtain H' where
    H': "basicHeap_Insert H w alpha = Inr H'" "bas_n H' = bas_n H" "length (bas_v H') = bas_n H"
    "bas_maxIndex H' = Suc (bas_maxIndex H)" "bas_key H' = (bas_key H)[w := alpha]"
    "bas_items H' = filter (\<lambda>y. bas_keyof H y > alpha) ?ys @ w #
        filter (\<lambda>y. \<not> bas_keyof H y > alpha) ?ys" by blast
  have set: "set (bas_items H') = insert w (set ?ys)" using H'(6) by auto
  have keys: "bas_keyof H' y = (if y = w then alpha else bas_keyof H y)" for y
    using H'(5) w ys(4) by simp
  have "sorted_wrt (\<lambda>x y. bas_keyof H' x \<ge> bas_keyof H' y) ?ys"
    by (rule sorted_wrt_mono_rel [OF _ ys(3)]) (use w(2) in \<open>auto simp: keys\<close>)
  then have "sorted_wrt (\<lambda>x y. bas_keyof H' x \<ge> bas_keyof H' y) (bas_items H')"
    using w(2) by (auto simp: H'(6) sorted_wrt_append keys sorted_wrt_filter)
  then have "bas_inv H'"
    using H' room ys w a set keys by (auto simp: bas_inv_def)
  with H' set show ?thesis by blast
qed

section \<open>Delete and ChangeKey\<close>

lemma basicHeap_DeleteItem_inv:
  assumes inv: "bas_inv H" and w: "w \<in> set (bas_items H)"
  shows "\<exists>H'. basicHeap_DeleteItem H w = Inr H' \<and> bas_n H' = bas_n H
    \<and> bas_key H' = (bas_key H)[w := InfFloat] \<and> set (bas_items H') = set (bas_items H) - {w}
    \<and> bas_inv H'"
proof -
  let ?k = "\<lambda>i. bas_key H ! (bas_v H ! i)" and ?m = "bas_maxIndex H" and ?ys = "bas_items H"
  have ys: "distinct ?ys" "\<forall>y \<in> set ?ys. y < bas_n H \<and> bas_keyof H y \<noteq> InfFloat"
    "sorted_wrt (\<lambda>x y. bas_keyof H x \<ge> bas_keyof H y) ?ys"
    and len: "length (bas_key H) = bas_n H" "length (bas_v H) = bas_n H" "?m \<le> bas_n H"
    using inv by (simp_all add: bas_inv_def)
  obtain step j0 where s: "bas_search ?k (bas_keyof H w) ?m 0 = (step, j0)" by fastforce
  note pos = bas_search_position [OF inv s]
  obtain p where p: "p < ?m" "bas_v H ! p = w"
    using w inv by (auto simp: in_set_conv_nth bas_items_length bas_items_nth)
  have "j0 \<le> p" using pos(2) p(2) by (metis less_irrefl not_le)
  moreover have "bas_v H ! i \<noteq> w" if "i < p" for i
    using nth_eq_iff_index_eq [OF ys(1), of i p] p that inv
    by (simp add: bas_items_length bas_items_nth)
  ultimately have find: "bas_find (bas_v H) w j0 = Some p"
    using p len by (intro bas_find_first) auto
  define H' where "H' = H\<lparr>bas_v := memmove (bas_v H) p (p + 1) (?m - p - 1),
      bas_key := (bas_key H)[w := InfFloat], bas_maxIndex := ?m - 1\<rparr>"
  have eq: "basicHeap_DeleteItem H w = Inr H'"
    using ys(2) w p find by (auto simp: basicHeap_DeleteItem_def s H'_def Let_def not_le)
  have H': "bas_items H' = take p ?ys @ drop (Suc p) ?ys" "length (bas_v H') = bas_n H"
    using memmove_close [OF p(1), of "bas_v H"] len p(1)
    by (simp_all add: H'_def bas_items_def min_absorb1)
  have split: "?ys = take p ?ys @ w # drop (Suc p) ?ys"
    using id_take_nth_drop [of p ?ys] p inv by (simp add: bas_items_length bas_items_nth)
  have "distinct (take p ?ys @ w # drop (Suc p) ?ys)"
    "sorted_wrt (\<lambda>x y. bas_keyof H x \<ge> bas_keyof H y) (take p ?ys @ w # drop (Suc p) ?ys)"
    using ys(1,3) split by argo+
  then have dist: "distinct (bas_items H')" "w \<notin> set (bas_items H')"
    and sub: "sorted_wrt (\<lambda>x y. bas_keyof H x \<ge> bas_keyof H y) (bas_items H')"
    by (simp_all add: H'(1) sorted_wrt_append)
  have "set ?ys = insert w (set (bas_items H'))" unfolding H'(1) by (subst split) simp
  then have set: "set (bas_items H') = set ?ys - {w}" using dist(2) by simp
  have keys: "bas_keyof H' y = bas_keyof H y" if "y \<noteq> w" for y
    using that by (simp add: H'_def)
  have "sorted_wrt (\<lambda>x y. bas_keyof H' x \<ge> bas_keyof H' y) (bas_items H')"
    by (rule sorted_wrt_mono_rel [OF _ sub]) (auto simp: set keys)
  then have "bas_inv H'"
    using set dist H'(2) ys(2) len keys by (simp add: bas_inv_def) (simp add: H'_def)
  with eq set show ?thesis by (auto simp: H'_def)
qed

lemma basicHeap_ChangeKey_inv:
  assumes inv: "bas_inv H" and w: "w \<in> set (bas_items H)" and a: "alpha \<noteq> InfFloat"
  shows "\<exists>H'. basicHeap_ChangeKey H w alpha = Inr H' \<and> bas_n H' = bas_n H
    \<and> bas_key H' = (bas_key H)[w := alpha] \<and> set (bas_items H') = set (bas_items H)
    \<and> bas_inv H'"
proof -
  from inv w have wn: "w < bas_n H" "bas_keyof H w \<noteq> InfFloat" by (auto simp: bas_inv_def)
  obtain H1 where H1: "basicHeap_DeleteItem H w = Inr H1" "bas_n H1 = bas_n H"
    "bas_key H1 = (bas_key H)[w := InfFloat]" "set (bas_items H1) = set (bas_items H) - {w}"
    "bas_inv H1"
    using basicHeap_DeleteItem_inv [OF inv w] by blast
  obtain H2 where "basicHeap_Insert H1 w alpha = Inr H2" "bas_n H2 = bas_n H1"
    "bas_key H2 = (bas_key H1)[w := alpha]" "set (bas_items H2) = insert w (set (bas_items H1))"
    "bas_inv H2"
    using basicHeap_Insert_inv [OF H1(5), of w alpha] wn H1 a by auto
  with H1 wn w show ?thesis by (auto simp: basicHeap_ChangeKey_def)
qed

lemma bas_inv_last:
  assumes "bas_inv H" "0 < bas_maxIndex H"
  shows "bas_items H = butlast (bas_items H) @ [bas_v H ! (bas_maxIndex H - 1)]"
  using assms by (metis append_butlast_last_id bas_inv_def bas_items_def bas_items_length
      last_take_nth length_greater_0_conv)

lemma basicHeap_Delete_inv:
  assumes inv: "bas_inv H" and ne: "set (bas_items H) \<noteq> {}"
  shows "\<exists>x H'. basicHeap_Delete H = Inr (x, H') \<and> basicHeap_Peek H = Inr x
    \<and> x \<in> set (bas_items H) \<and> (\<forall>y \<in> set (bas_items H). bas_keyof H x \<le> bas_keyof H y)
    \<and> set (bas_items H') = set (bas_items H) - {x} \<and> bas_key H' = (bas_key H)[x := InfFloat]
    \<and> bas_n H' = bas_n H \<and> bas_inv H'"
proof -
  from inv ne have m: "0 < bas_maxIndex H" by (auto simp: bas_items_def)
  define x where "x = bas_v H ! (bas_maxIndex H - 1)"
  define H' where
    "H' = H\<lparr>bas_maxIndex := bas_maxIndex H - 1, bas_key := (bas_key H)[x := InfFloat]\<rparr>"
  have eq: "basicHeap_Delete H = Inr (x, H')" "basicHeap_Peek H = Inr x"
    using m by (simp_all add: basicHeap_Delete_def basicHeap_Peek_def basicHeap_Empty_def
        x_def H'_def Let_def)
  have last: "bas_items H = butlast (bas_items H) @ [x]"
    using bas_inv_last [OF inv m] by (simp add: x_def)
  have items: "bas_items H' = butlast (bas_items H)"
    using inv by (simp add: H'_def bas_items_def bas_inv_def butlast_take)
  have "distinct (butlast (bas_items H) @ [x])"
    "sorted_wrt (\<lambda>x y. bas_keyof H x \<ge> bas_keyof H y) (butlast (bas_items H) @ [x])"
    using inv last by (simp_all add: bas_inv_def)
  then have d: "distinct (butlast (bas_items H))" "x \<notin> set (butlast (bas_items H))"
    and s: "sorted_wrt (\<lambda>x y. bas_keyof H x \<ge> bas_keyof H y) (butlast (bas_items H))"
      "\<forall>y \<in> set (butlast (bas_items H)). bas_keyof H x \<le> bas_keyof H y"
    by (simp_all add: sorted_wrt_append)
  have "sorted_wrt (\<lambda>x y. bas_keyof H' x \<ge> bas_keyof H' y) (butlast (bas_items H))"
    by (rule sorted_wrt_mono_rel [OF _ s(1)]) (use d(2) in \<open>auto simp: H'_def\<close>)
  then have "bas_inv H'"
    using inv d items by (auto simp: bas_inv_def H'_def dest: in_set_butlastD)
  moreover have "x \<in> set (bas_items H)" by (subst last) simp
  moreover have "\<forall>y \<in> set (bas_items H). bas_keyof H x \<le> bas_keyof H y"
    by (subst last) (use s(2) in auto)
  moreover have "set (bas_items H) = insert x (set (butlast (bas_items H)))"
    by (subst last) simp
  then have "set (bas_items H') = set (bas_items H) - {x}" using items d(2) by simp
  ultimately show ?thesis using eq by (auto simp: H'_def)
qed

lemma bas_inv_range: "bas_inv H \<Longrightarrow> x \<in> set (bas_items H) \<Longrightarrow> x < bas_n H"
  by (simp add: bas_inv_def)

lemma bas_key_upd:
  "bas_inv H \<Longrightarrow> x < bas_n H \<Longrightarrow> (bas_key H)[x := a] ! y = ((bas_keyof H)(x := a)) y"
  by (simp add: bas_inv_def nth_list_update)

interpretation bheap: prio_container bas_inv "\<lambda>H. set (bas_items H)" bas_keyof bas_n
  "\<lambda>a. a \<noteq> InfFloat" basicHeap_Empty basicHeap_Cardinality basicHeap_Delete basicHeap_Peek
  basicHeap_Insert basicHeap_ChangeKey
proof unfold_locales
  fix H
  assume inv: "bas_inv H" and "set (bas_items H) \<noteq> {}"
  then obtain x H' where H': "basicHeap_Delete H = Inr (x, H')" "basicHeap_Peek H = Inr x"
    "x \<in> set (bas_items H)" "\<forall>y \<in> set (bas_items H). bas_keyof H x \<le> bas_keyof H y"
    "set (bas_items H') = set (bas_items H) - {x}" "bas_key H' = (bas_key H)[x := InfFloat]"
    "bas_n H' = bas_n H" "bas_inv H'"
    using basicHeap_Delete_inv by metis
  then show "\<exists>x q'. basicHeap_Delete H = Inr (x, q') \<and> basicHeap_Peek H = Inr x
      \<and> x \<in> set (bas_items H) \<and> (\<forall>y \<in> set (bas_items H). bas_keyof H x \<le> bas_keyof H y)
      \<and> set (bas_items q') = set (bas_items H) - {x}
      \<and> (\<forall>y \<in> set (bas_items q'). bas_keyof q' y = bas_keyof H y)
      \<and> bas_n q' = bas_n H \<and> bas_inv q'"
    by (intro exI [of _ x] exI [of _ H']) auto
next
  fix H x a
  assume "bas_inv H" "x < bas_n H" "x \<notin> set (bas_items H)" "a \<noteq> InfFloat"
  then show "\<exists>q'. basicHeap_Insert H x a = Inr q' \<and> set (bas_items q') = insert x (set (bas_items H))
      \<and> (\<forall>y \<in> set (bas_items q'). bas_keyof q' y = ((bas_keyof H)(x := a)) y)
      \<and> bas_n q' = bas_n H \<and> bas_inv q'"
    using basicHeap_Insert_inv [of H x a] by (auto simp: bas_key_upd)
next
  fix H x a
  assume "bas_inv H" "x \<in> set (bas_items H)" "a \<noteq> InfFloat"
  then show "\<exists>q'. basicHeap_ChangeKey H x a = Inr q' \<and> set (bas_items q') = set (bas_items H)
      \<and> (\<forall>y \<in> set (bas_items q'). bas_keyof q' y = ((bas_keyof H)(x := a)) y)
      \<and> bas_n q' = bas_n H \<and> bas_inv q'"
    using basicHeap_ChangeKey_inv [of H x a] by (auto simp: bas_key_upd bas_inv_range)
qed (auto simp: bas_inv_def basicHeap_Empty_def basicHeap_Cardinality_def basicHeap_Delete_def
    basicHeap_Insert_def basicHeap_Peek_def bas_items_def distinct_card)

section \<open>Properties\<close>

text \<open>
  \<open>Insert\<close> puts the new index, found by bisection, behind all members of larger key and in
  front of all members of equal or smaller key, and keeps the others in their order. Since
  \<open>Delete\<close> takes the last member, members of equal key leave the heap first in, first out.
\<close>

theorem basicHeap_Insert_position:
  assumes "bas_inv H" "w < bas_n H" "w \<notin> set (bas_items H)" "alpha \<noteq> InfFloat"
  shows "\<exists>H'. basicHeap_Insert H w alpha = Inr H' \<and> bas_inv H'
    \<and> bas_items H' = filter (\<lambda>y. bas_keyof H y > alpha) (bas_items H) @ w #
        filter (\<lambda>y. bas_keyof H y \<le> alpha) (bas_items H)"
proof -
  obtain H' where H': "basicHeap_Insert H w alpha = Inr H'" "bas_inv H'"
    using basicHeap_Insert_inv assms by blast
  then have "bas_maxIndex H < bas_n H" using assms by (auto simp: basicHeap_Insert_def split: if_splits)
  with basicHeap_Insert_items [OF assms(1,2)] H' show ?thesis by (fastforce simp: not_less)
qed

theorem basicHeap_Insert_position_witness:
  "let H = \<lparr>bas_v = [2, 0, 0], bas_key = [1, 9, 5], bas_maxIndex = 2, bas_n = 3\<rparr>
   in \<exists>H'. basicHeap_Insert H 1 1 = Inr H' \<and> bas_items H' = [2, 1, 0]"
proof -
  define H where "H = \<lparr>bas_v = [2, 0, 0], bas_key = [1, 9, 5], bas_maxIndex = 2, bas_n = 3\<rparr>"
  have "bas_inv H" by (simp add: H_def bas_inv_def bas_items_def InfFloat_def)
  moreover have "bas_items H = [2, 0]" by (simp add: H_def bas_items_def)
  ultimately have "\<exists>H'. basicHeap_Insert H 1 1 = Inr H' \<and> bas_items H' = [2, 1, 0]"
    using basicHeap_Insert_position [of H 1 1] by (auto simp: H_def InfFloat_def)
  then show ?thesis by (simp add: H_def)
qed



text \<open>
  \<open>Init\<close> empties the heap but leaves the keys in place, and the constructor does not set them.
  Membership is read off \<open>key[w] == InfFloat\<close>, so \<open>Delete(w)\<close> and \<open>ChangeKey\<close> accept an
  index that is not on the heap and search for it beyond the end of the array.
\<close>

lemma basicHeap_Init_keeps_keys:
  "\<exists>H1. basicHeap_Insert (basicHeap 1 [7] [0]) 0 3 = Inr H1
     \<and> basicHeap_Empty (basicHeap_Init H1)
     \<and> basicHeap_ChangeKey (basicHeap_Init H1) 0 2 = Inl OutOfBounds"
  by (simp add: basicHeap_Insert_def basicHeap_def basicHeap_Init_def basicHeap_ChangeKey_def
      basicHeap_DeleteItem_def basicHeap_Empty_def bas_search.simps bas_find.simps memmove_def
      InfFloat_def)

end
