(* ===== verification/Binary_Heap.thy ===== *)
theory Binary_Heap
  imports Goblin_Queue
begin

text \<open>
  The binary heap (\<^verbatim>\<open>include/binaryHeap.h\<close>, \<^verbatim>\<open>lib_src/binaryHeap.cpp\<close>): \<open>v[1..maxIndex]\<close> is
  the tree in level order, \<open>index\<close> its inverse, \<open>UITEM_MAX()\<close> marks an index that is not on
  the heap. The arrays \<open>v\<close> and \<open>key\<close> are not initialised by the constructor; their first
  contents are arguments of the model.
\<close>

section \<open>The class\<close>

record binary_heap =
  bin_v :: "nat list"
  bin_index :: "nat list"
  bin_key :: "TFloat list"
  bin_maxIndex :: nat
  bin_n :: nat

definition UITEM_MAX :: nat where
  "UITEM_MAX = 2 ^ 64 - 1"

definition binaryHeap :: "nat \<Rightarrow> nat list \<Rightarrow> TFloat list \<Rightarrow> binary_heap" where
  "binaryHeap nn v0 key0 =
     \<lparr>bin_v = v0, bin_index = replicate nn UITEM_MAX, bin_key = key0, bin_maxIndex = 0, bin_n = nn\<rparr>"

definition binaryHeap_Empty :: "binary_heap \<Rightarrow> bool" where
  "binaryHeap_Empty H \<longleftrightarrow> bin_maxIndex H = 0"

definition binaryHeap_Cardinality :: "binary_heap \<Rightarrow> nat" where
  "binaryHeap_Cardinality H = bin_maxIndex H"

text \<open>
  \<open>UpHeap\<close> keeps a hole at position \<open>i\<close>: the loop moves parents of larger key down into the
  hole, and the item is written once, at the end.
\<close>

function bin_up_loop :: "TFloat list \<Rightarrow> TFloat \<Rightarrow> nat \<Rightarrow> nat list \<times> nat list
    \<Rightarrow> nat list \<times> nat list \<times> nat" where
  "bin_up_loop key alpha i (v, ix) =
     (if i > 1 \<and> key ! (v ! (i div 2)) > alpha
      then bin_up_loop key alpha (i div 2) (v[i := v ! (i div 2)], ix[v ! (i div 2) := i])
      else (v, ix, i))"
  by pat_completeness auto
termination
  by (relation "measure (\<lambda>(key, alpha, i, vi). i)") auto

declare bin_up_loop.simps [simp del]

definition binaryHeap_UpHeap :: "binary_heap \<Rightarrow> nat \<Rightarrow> binary_heap result" where
  "binaryHeap_UpHeap H i =
     (if i > bin_maxIndex H \<or> i = 0 then Inl ERRange
      else let w = bin_v H ! i;
               alpha = bin_key H ! w;
               (v, ix, j) = bin_up_loop (bin_key H) alpha i (bin_v H, bin_index H)
           in Inr (H\<lparr>bin_v := v[j := w], bin_index := ix[w := j]\<rparr>))"

text \<open>The four assignments that exchange the items at two positions.\<close>

definition bin_swap :: "nat \<Rightarrow> nat \<Rightarrow> nat list \<times> nat list \<Rightarrow> nat list \<times> nat list" where
  "bin_swap i j vi =
     (let (v, ix) = vi; swap = v ! i; v1 = v[i := v ! j]; ix1 = ix[v1 ! i := i];
          v2 = v1[j := swap]; ix2 = ix1[swap := j]
      in (v2, ix2))"

text \<open>
  \<open>DownHeap\<close> on heaps with \<open>m\<close> items. The range check of the recursive calls never fires:
  they are made for \<open>left <= maxIndex\<close> and \<open>right <= maxIndex\<close> only.
\<close>

function bin_down :: "nat \<Rightarrow> TFloat list \<Rightarrow> nat \<Rightarrow> nat list \<times> nat list \<Rightarrow> nat list \<times> nat list" where
  "bin_down m key i vi =
     (let left = 2 * i; right = left + 1;
          vi1 = (if left \<le> m \<and> key ! (fst vi ! left) < key ! (fst vi ! i)
                 then bin_down m key left (bin_swap i left vi) else vi)
      in if right \<le> m \<and> key ! (fst vi1 ! right) < key ! (fst vi1 ! i)
         then bin_down m key right (bin_swap i right vi1) else vi1)"
  by pat_completeness auto
termination
proof (relation "measure (\<lambda>(m, key, i, vi). m + 1 - i)", goal_cases)
  case (2 m key i vi x xa)
  then show ?case by (cases "i = 0") auto
qed auto

declare bin_down.simps [simp del]

definition binaryHeap_DownHeap :: "binary_heap \<Rightarrow> nat \<Rightarrow> binary_heap result" where
  "binaryHeap_DownHeap H i =
     (if i > bin_maxIndex H \<or> i = 0 then Inl ERRange
      else let (v, ix) = bin_down (bin_maxIndex H) (bin_key H) i (bin_v H, bin_index H)
           in Inr (H\<lparr>bin_v := v, bin_index := ix\<rparr>))"

definition binaryHeap_Insert :: "binary_heap \<Rightarrow> nat \<Rightarrow> TFloat \<Rightarrow> binary_heap result" where
  "binaryHeap_Insert H w alpha =
     (if w \<ge> bin_n H then Inl ERRange
      else if bin_maxIndex H \<ge> bin_n H then Inl ERRejected
      else let k = bin_maxIndex H + 1 in
        binaryHeap_UpHeap (H\<lparr>bin_key := (bin_key H)[w := alpha], bin_maxIndex := k,
          bin_index := (bin_index H)[w := k], bin_v := (bin_v H)[k := w]\<rparr>) k)"

definition binaryHeap_DeleteItem :: "binary_heap \<Rightarrow> nat \<Rightarrow> binary_heap result" where
  "binaryHeap_DeleteItem H w =
     (if w \<ge> bin_n H \<or> bin_index H ! w = UITEM_MAX then Inl ERRange
      else let i = bin_index H ! w;
               H1 = H\<lparr>bin_index := (bin_index H)[w := UITEM_MAX],
                      bin_maxIndex := bin_maxIndex H - 1\<rparr>
        in if i \<le> bin_maxIndex H1
           then binaryHeap_DownHeap (H1\<lparr>bin_v := (bin_v H1)[i := bin_v H1 ! (bin_maxIndex H1 + 1)]\<rparr>) i
           else Inr H1)"

definition binaryHeap_Delete :: "binary_heap \<Rightarrow> (nat \<times> binary_heap) result" where
  "binaryHeap_Delete H =
     (if bin_maxIndex H = 0 then Inl ERRejected
      else let w = bin_v H ! 1;
               x = bin_v H ! bin_maxIndex H;
               H1 = H\<lparr>bin_index := (bin_index H)[w := UITEM_MAX],
                      bin_maxIndex := bin_maxIndex H - 1\<rparr>
        in if bin_maxIndex H1 > 0
           then rbind (binaryHeap_DownHeap (H1\<lparr>bin_v := (bin_v H1)[1 := x],
                  bin_index := (bin_index H1)[x := 1]\<rparr>) 1) (\<lambda>H2. Inr (w, H2))
           else Inr (w, H1))"

definition binaryHeap_Init :: "binary_heap \<Rightarrow> binary_heap result option" where
  "binaryHeap_Init H =
     (if bin_maxIndex H * 100 < bin_n H
      then goblinQueue_Init binaryHeap_Empty binaryHeap_Delete H
      else Some (Inr (H\<lparr>bin_index := replicate (bin_n H) UITEM_MAX, bin_maxIndex := 0\<rparr>)))"

definition binaryHeap_Key :: "binary_heap \<Rightarrow> nat \<Rightarrow> TFloat result" where
  "binaryHeap_Key H w =
     (if w \<ge> bin_n H \<or> bin_index H ! w = UITEM_MAX then Inl ERRange else Inr (bin_key H ! w))"

definition binaryHeap_ChangeKey :: "binary_heap \<Rightarrow> nat \<Rightarrow> TFloat \<Rightarrow> binary_heap result" where
  "binaryHeap_ChangeKey H w alpha =
     (if w \<ge> bin_n H \<or> bin_index H ! w = UITEM_MAX then Inl ERRange
      else if alpha > bin_key H ! w
      then binaryHeap_DownHeap (H\<lparr>bin_key := (bin_key H)[w := alpha]\<rparr>) (bin_index H ! w)
      else binaryHeap_UpHeap (H\<lparr>bin_key := (bin_key H)[w := alpha]\<rparr>) (bin_index H ! w))"

definition binaryHeap_Peek :: "binary_heap \<Rightarrow> nat result" where
  "binaryHeap_Peek H = (if bin_maxIndex H = 0 then Inl ERRejected else Inr (bin_v H ! 1))"

section \<open>Positions in the tree\<close>

text \<open>\<open>desc i p\<close>: position \<open>p\<close> is \<open>i\<close> or lies below it.\<close>

function desc :: "nat \<Rightarrow> nat \<Rightarrow> bool" where
  "desc i p \<longleftrightarrow> (if p \<le> i then p = i else desc i (p div 2))"
  by pat_completeness auto
termination
  by (relation "measure snd") auto

declare desc.simps [simp del]

lemma desc_refl [simp]: "desc i i"
  by (subst desc.simps) simp

lemma desc_le: "desc i p \<Longrightarrow> i \<le> p"
  by (subst (asm) desc.simps) (auto split: if_splits)

lemma desc_parent: "desc i p \<Longrightarrow> p \<noteq> i \<Longrightarrow> desc i (p div 2)"
  by (subst (asm) desc.simps) (auto split: if_splits)

lemma desc_up: "desc i (p div 2) \<Longrightarrow> 0 < i \<Longrightarrow> desc i p"
  using desc_le [of i "p div 2"] by (subst desc.simps) auto

lemma desc_child: "0 < i \<Longrightarrow> desc i (2 * i)" "0 < i \<Longrightarrow> desc i (Suc (2 * i))"
  by (auto intro: desc_up)

lemma desc_trans: "desc j p \<Longrightarrow> desc i j \<Longrightarrow> 0 < i \<Longrightarrow> desc i p"
proof (induction j p rule: desc.induct)
  case (1 j p)
  show ?case
  proof (cases "p = j")
    case False
    then have "desc j (p div 2)" "\<not> p \<le> j"
      using "1.prems" desc_parent desc_le by (auto simp: le_antisym)
    with "1.IH" "1.prems" show ?thesis by (auto intro: desc_up)
  qed (use "1.prems" in simp)
qed

lemma desc_cases:
  "desc i p \<Longrightarrow> 0 < i \<Longrightarrow> p = i \<or> desc (2 * i) p \<or> desc (Suc (2 * i)) p"
proof (induction i p rule: desc.induct)
  case (1 i p)
  show ?case
  proof (cases "p = i")
    case False
    with "1.prems" have d: "desc i (p div 2)" and "\<not> p \<le> i"
      using desc_parent desc_le by (auto simp: le_antisym)
    with "1.IH" "1.prems"
    have "p div 2 = i \<or> desc (2 * i) (p div 2) \<or> desc (Suc (2 * i)) (p div 2)" by blast
    moreover have "p = 2 * i \<or> p = Suc (2 * i)" if "p div 2 = i" using that by auto
    ultimately show ?thesis using "1.prems" by (auto intro: desc_up)
  qed simp
qed

lemma desc_disjoint: "desc (2 * i) p \<Longrightarrow> desc (Suc (2 * i)) p \<Longrightarrow> 0 < i \<Longrightarrow> False"
proof (induction p rule: less_induct)
  case (less p)
  then have p: "Suc (2 * i) \<le> p" by (auto dest: desc_le)
  with less.prems(1) have d: "desc (2 * i) (p div 2)" by (intro desc_parent) auto
  then have "2 * i \<le> p div 2" by (rule desc_le)
  with less.prems(3) have "p \<noteq> Suc (2 * i)" by auto
  with less.prems(2) have "desc (Suc (2 * i)) (p div 2)" by (intro desc_parent)
  with d less.IH [of "p div 2"] p less.prems(3) show ?case by simp
qed

lemma desc_not_above: "0 < i \<Longrightarrow> \<not> desc (2 * i) i" "0 < i \<Longrightarrow> \<not> desc (Suc (2 * i)) i"
  by (auto dest: desc_le)


section \<open>Consistency of the two arrays\<close>

text \<open>\<open>index\<close> is the inverse of \<open>v[1..m]\<close> and \<open>UITEM_MAX\<close> everywhere else.\<close>

definition bin_cons :: "nat \<Rightarrow> nat \<Rightarrow> nat list \<times> nat list \<Rightarrow> bool" where
  "bin_cons n m vi \<longleftrightarrow> length (fst vi) = Suc n \<and> length (snd vi) = n \<and> m \<le> n \<and> n < UITEM_MAX
     \<and> (\<forall>p. 0 < p \<and> p \<le> m \<longrightarrow> fst vi ! p < n \<and> snd vi ! (fst vi ! p) = p)
     \<and> (\<forall>w < n. snd vi ! w \<noteq> UITEM_MAX \<longrightarrow>
          0 < snd vi ! w \<and> snd vi ! w \<le> m \<and> fst vi ! (snd vi ! w) = w)"

definition bin_same :: "nat list \<times> nat list \<Rightarrow> nat list \<times> nat list \<Rightarrow> bool" where
  "bin_same vi vi' \<longleftrightarrow> (\<forall>w. snd vi' ! w = UITEM_MAX \<longleftrightarrow> snd vi ! w = UITEM_MAX)"

lemma bin_same_refl [simp]: "bin_same vi vi"
  by (simp add: bin_same_def)

lemma bin_same_trans: "bin_same a b \<Longrightarrow> bin_same b c \<Longrightarrow> bin_same a c"
  by (simp add: bin_same_def)

lemma bin_cons_inj:
  "bin_cons n m vi \<Longrightarrow> 0 < p \<Longrightarrow> p \<le> m \<Longrightarrow> 0 < q \<Longrightarrow> q \<le> m \<Longrightarrow>
   fst vi ! p = fst vi ! q \<longleftrightarrow> p = q"
  by (metis bin_cons_def)

lemma fst_bin_swap: "fst (bin_swap i j vi) = (fst vi)[i := fst vi ! j, j := fst vi ! i]"
  by (simp add: bin_swap_def Let_def split: prod.splits)

lemma snd_bin_swap:
  "i < length (fst vi) \<Longrightarrow> snd (bin_swap i j vi) = (snd vi)[fst vi ! j := i, fst vi ! i := j]"
  by (auto simp: bin_swap_def Let_def split: prod.splits)

lemma bin_swap_nth:
  assumes "i < length (fst vi)" "j < length (fst vi)"
  shows "fst (bin_swap i j vi) ! p =
    (if p = j then fst vi ! i else if p = i then fst vi ! j else fst vi ! p)"
  using assms by (simp add: fst_bin_swap nth_list_update)

lemma bin_swap_cons:
  assumes c: "bin_cons n m vi" and i: "0 < i" "i \<le> m" and j: "0 < j" "j \<le> m"
  shows "bin_cons n m (bin_swap i j vi)" and "bin_same vi (bin_swap i j vi)"
proof -
  let ?v = "fst vi" and ?ix = "snd vi"
  have len: "length ?v = Suc n" "length ?ix = n" "m \<le> n" "n < UITEM_MAX"
    using c by (simp_all add: bin_cons_def)
  have pos: "?v ! p < n" "?ix ! (?v ! p) = p" if "0 < p" "p \<le> m" for p
    using c that by (simp_all add: bin_cons_def)
  have bk: "0 < ?ix ! w" "?ix ! w \<le> m" "?v ! (?ix ! w) = w"
    if "w < n" "?ix ! w \<noteq> UITEM_MAX" for w
    using c that by (simp_all add: bin_cons_def)
  have ix: "snd (bin_swap i j vi) ! w = (if w = ?v ! i then j else if w = ?v ! j then i else ?ix ! w)"
    for w
    using len i j pos [of i] pos [of j] by (simp add: snd_bin_swap nth_list_update)
  have v: "fst (bin_swap i j vi) ! p = (if p = j then ?v ! i else if p = i then ?v ! j else ?v ! p)"
    for p
    using len i j by (intro bin_swap_nth) auto
  have inj: "?v ! p = ?v ! q \<longleftrightarrow> p = q" if "0 < p" "p \<le> m" "0 < q" "q \<le> m" for p q
    using that by (rule bin_cons_inj [OF c])
  show "bin_same vi (bin_swap i j vi)"
    unfolding bin_same_def ix using pos [of i] pos [of j] i j len by auto
  show "bin_cons n m (bin_swap i j vi)"
    unfolding bin_cons_def
  proof (intro conjI allI impI)
    show "length (fst (bin_swap i j vi)) = Suc n" by (simp add: fst_bin_swap len)
    show "length (snd (bin_swap i j vi)) = n" using i len by (simp add: snd_bin_swap)
    show "m \<le> n" "n < UITEM_MAX" by (fact len)+
    fix p
    assume p: "0 < p \<and> p \<le> m"
    show "fst (bin_swap i j vi) ! p < n" using p i j pos by (simp add: v)
    show "snd (bin_swap i j vi) ! (fst (bin_swap i j vi) ! p) = p"
      using p i j pos inj [of j i] inj [of i j] inj [of p i] inj [of p j] by (auto simp: v ix)
  next
    fix w
    assume w: "w < n" "snd (bin_swap i j vi) ! w \<noteq> UITEM_MAX"
    then have *: "?ix ! w \<noteq> UITEM_MAX \<or> w = ?v ! i \<or> w = ?v ! j"
      by (auto simp: ix split: if_splits)
    show "0 < snd (bin_swap i j vi) ! w" using * w i j bk by (auto simp: ix)
    show "snd (bin_swap i j vi) ! w \<le> m" using * w i j bk by (auto simp: ix)
    show "fst (bin_swap i j vi) ! (snd (bin_swap i j vi) ! w) = w"
      using * w i j bk [of w] by (auto simp: ix v)
  qed
qed


section \<open>Heap order\<close>

definition bin_ord :: "(nat \<Rightarrow> TFloat) \<Rightarrow> nat \<Rightarrow> bool" where
  "bin_ord f m \<longleftrightarrow> (\<forall>p. 1 < p \<and> p \<le> m \<longrightarrow> f (p div 2) \<le> f p)"

text \<open>The order on the edges below position \<open>i\<close>.\<close>

definition sub_ord :: "(nat \<Rightarrow> TFloat) \<Rightarrow> nat \<Rightarrow> nat \<Rightarrow> bool" where
  "sub_ord f m i \<longleftrightarrow> (\<forall>p. desc i p \<and> p \<noteq> i \<and> p \<le> m \<longrightarrow> f (p div 2) \<le> f p)"

abbreviation pkey :: "TFloat list \<Rightarrow> nat list \<times> nat list \<Rightarrow> nat \<Rightarrow> TFloat" where
  "pkey key vi p \<equiv> key ! (fst vi ! p)"

lemma sub_ord_min: "sub_ord f m i \<Longrightarrow> desc i p \<Longrightarrow> p \<le> m \<Longrightarrow> f i \<le> f p"
proof (induction p rule: less_induct)
  case (less p)
  show ?case
  proof (cases "p = i")
    case False
    with less.prems have d: "desc i (p div 2)" "f (p div 2) \<le> f p"
      by (auto intro: desc_parent simp: sub_ord_def)
    have "p \<noteq> 0" using desc_le [OF less.prems(2)] False by simp
    with less.IH [of "p div 2"] d less.prems show ?thesis by force
  qed simp
qed

lemma bin_ord_sub: "bin_ord f m \<Longrightarrow> 0 < i \<Longrightarrow> sub_ord f m i"
  by (force simp: bin_ord_def sub_ord_def dest: desc_le)

lemma bin_ord_root: "bin_ord f m \<Longrightarrow> 0 < p \<Longrightarrow> p \<le> m \<Longrightarrow> f 1 \<le> f p"
proof (induction p rule: less_induct)
  case (less p)
  show ?case
  proof (cases "p = 1")
    case False
    with less.prems have "f (p div 2) \<le> f p" "0 < p div 2" "p div 2 < p" "p div 2 \<le> m"
      by (auto simp: bin_ord_def)
    with less.IH [of "p div 2"] less.prems show ?thesis by force
  qed simp
qed

subsection \<open>Moving up\<close>

text \<open>\<open>UpHeap\<close> as a sequence of exchanges with the parent.\<close>

function bin_up_swaps :: "TFloat list \<Rightarrow> nat \<Rightarrow> nat list \<times> nat list \<Rightarrow> nat list \<times> nat list" where
  "bin_up_swaps key i vi =
     (if i > 1 \<and> pkey key vi (i div 2) > pkey key vi i
      then bin_up_swaps key (i div 2) (bin_swap i (i div 2) vi) else vi)"
  by pat_completeness auto
termination
  by (relation "measure (\<lambda>(key, i, vi). i)") auto

declare bin_up_swaps.simps [simp del]

lemma bin_swap_hole:
  assumes "i < length v" "p \<noteq> i"
  shows "bin_swap i p (v[i := w], ix[w := i]) = (v[i := v ! p, p := w], ix[v ! p := i, w := p])"
proof -
  have "ix[w := i, v ! p := i, w := p] = ix[v ! p := i, w := p]"
    by (cases "v ! p = w") (simp_all add: list_update_swap)
  with assms show ?thesis by (simp add: bin_swap_def)
qed

lemma bin_up_loop_swaps:
  "i < length v \<Longrightarrow> bin_up_loop key (key ! w) i (v, ix) = (v', ix', j) \<Longrightarrow>
   (v'[j := w], ix'[w := j]) = bin_up_swaps key i (v[i := w], ix[w := i])"
proof (induction i arbitrary: v ix rule: less_induct)
  case (less i)
  let ?p = "i div 2"
  show ?case
  proof (cases "i > 1 \<and> key ! (v ! ?p) > key ! w")
    case True
    then have p: "?p \<noteq> i" "?p < i" by auto
    have "bin_up_loop key (key ! w) ?p (v[i := v ! ?p], ix[v ! ?p := i]) = (v', ix', j)"
      using less.prems(2) True by (simp add: bin_up_loop.simps)
    from less.IH [OF p(2) _ this] less.prems(1) p
    have "(v'[j := w], ix'[w := j])
      = bin_up_swaps key ?p (v[i := v ! ?p, ?p := w], ix[v ! ?p := i, w := ?p])" by simp
    also have "\<dots> = bin_up_swaps key ?p (bin_swap i ?p (v[i := w], ix[w := i]))"
      using bin_swap_hole [of i v ?p w ix] less.prems(1) p by simp
    also have "\<dots> = bin_up_swaps key i (v[i := w], ix[w := i])"
    proof -
      have "v[i := w] ! ?p = v ! ?p" using p(1) by (metis nth_list_update_neq)
      with True less.prems(1) show ?thesis by (subst (2) bin_up_swaps.simps) simp
    qed
    finally show ?thesis .
  next
    case False
    moreover have "i > 1 \<Longrightarrow> ?p \<noteq> i" by auto
    ultimately show ?thesis
      using less.prems by (subst bin_up_swaps.simps) (auto simp: bin_up_loop.simps)
  qed
qed

lemma bin_up_swaps_ord:
  "bin_cons n m vi \<Longrightarrow> 0 < i \<Longrightarrow> i \<le> m
   \<Longrightarrow> (\<And>p. 1 < p \<Longrightarrow> p \<le> m \<Longrightarrow> p \<noteq> i \<Longrightarrow> pkey key vi (p div 2) \<le> pkey key vi p)
   \<Longrightarrow> (\<And>p. 1 < i \<Longrightarrow> p \<le> m \<Longrightarrow> p div 2 = i \<Longrightarrow> pkey key vi (i div 2) \<le> pkey key vi p)
   \<Longrightarrow> bin_cons n m (bin_up_swaps key i vi) \<and> bin_same vi (bin_up_swaps key i vi)
     \<and> bin_ord (pkey key (bin_up_swaps key i vi)) m"
proof (induction i arbitrary: vi rule: less_induct)
  case (less i)
  let ?j = "i div 2"
  show ?case
  proof (cases "i > 1 \<and> pkey key vi ?j > pkey key vi i")
    case True
    then have j: "0 < ?j" "?j < i" "?j \<noteq> i" by auto
    let ?vi = "bin_swap i ?j vi"
    have swap: "bin_cons n m ?vi" "bin_same vi ?vi"
      using bin_swap_cons [OF less.prems(1-3), of ?j] j less.prems(3) by simp_all
    have nth: "fst ?vi ! p = (if p = ?j then fst vi ! i else if p = i then fst vi ! ?j else fst vi ! p)" for p
      using less.prems(1,3) j by (intro bin_swap_nth) (auto simp: bin_cons_def)
    have "bin_cons n m (bin_up_swaps key ?j ?vi) \<and> bin_same ?vi (bin_up_swaps key ?j ?vi)
      \<and> bin_ord (pkey key (bin_up_swaps key ?j ?vi)) m"
    proof (rule less.IH [OF j(2) swap(1) j(1)])
      show "?j \<le> m" using j less.prems(3) by simp
      show "pkey key ?vi (p div 2) \<le> pkey key ?vi p" if p: "1 < p" "p \<le> m" "p \<noteq> ?j" for p
      proof -
        consider "p = i" | "p div 2 = i" "p \<noteq> i" | "p div 2 = ?j" "p \<noteq> i" | "p div 2 \<noteq> i" "p div 2 \<noteq> ?j" "p \<noteq> i"
          by blast
        then show ?thesis
          using True p j less.prems(4) [of p] less.prems(5) [of p] by cases (auto simp: nth)
      qed
      show "pkey key ?vi (?j div 2) \<le> pkey key ?vi p" if p: "1 < ?j" "p \<le> m" "p div 2 = ?j" for p
      proof -
        have "?j div 2 \<noteq> ?j" "?j div 2 \<noteq> i" "p \<noteq> ?j" "1 < p" using p(1,3) by auto
        with True p j less.prems(3) less.prems(4) [of p] less.prems(4) [of ?j]
        show ?thesis by (auto simp: nth)
      qed
    qed
    with swap True show ?thesis
      by (subst (1 2 3) bin_up_swaps.simps) (auto intro: bin_same_trans)
  next
    case False
    then have "1 < i \<Longrightarrow> pkey key vi ?j \<le> pkey key vi i" by auto
    with False less.prems show ?thesis
      by (subst (1 2 3) bin_up_swaps.simps) (auto simp: bin_ord_def)
  qed
qed


subsection \<open>Moving down\<close>

text \<open>What \<open>DownHeap(i)\<close> does to the subtree at \<open>i\<close>.\<close>

definition down_spec :: "nat \<Rightarrow> nat \<Rightarrow> TFloat list \<Rightarrow> nat \<Rightarrow> nat list \<times> nat list \<Rightarrow> nat list \<times> nat list \<Rightarrow> bool" where
  "down_spec n m key i vi vi' \<longleftrightarrow> bin_cons n m vi' \<and> bin_same vi vi'
     \<and> (\<forall>p. \<not> desc i p \<longrightarrow> fst vi' ! p = fst vi ! p)
     \<and> sub_ord (pkey key vi') m i
     \<and> (\<forall>p \<le> m. desc i p \<longrightarrow> (\<exists>q \<le> m. desc i q \<and> fst vi' ! p = fst vi ! q))"

text \<open>One of the two symmetric halves of the body, for the child \<open>c\<close> of \<open>i\<close>.\<close>

definition down_half :: "nat \<Rightarrow> TFloat list \<Rightarrow> nat \<Rightarrow> nat \<Rightarrow> nat list \<times> nat list \<Rightarrow> nat list \<times> nat list" where
  "down_half m key i c vi =
     (if c \<le> m \<and> pkey key vi c < pkey key vi i then bin_down m key c (bin_swap i c vi) else vi)"

lemma bin_down_leaf: "m < 2 * i \<Longrightarrow> bin_down m key i vi = vi"
  by (subst bin_down.simps) simp

lemma bin_down_halves:
  "bin_down m key i vi = down_half m key i (Suc (2 * i)) (down_half m key i (2 * i) vi)"
  by (subst bin_down.simps) (simp add: down_half_def Let_def)

definition half_spec :: "nat \<Rightarrow> nat \<Rightarrow> TFloat list \<Rightarrow> nat \<Rightarrow> nat \<Rightarrow> nat list \<times> nat list \<Rightarrow> nat list \<times> nat list \<Rightarrow> bool" where
  "half_spec n m key i c vi vi' \<longleftrightarrow> bin_cons n m vi' \<and> bin_same vi vi'
     \<and> (\<forall>p. \<not> desc c p \<and> p \<noteq> i \<longrightarrow> fst vi' ! p = fst vi ! p)
     \<and> sub_ord (pkey key vi') m c
     \<and> pkey key vi' i \<le> pkey key vi i
     \<and> (c \<le> m \<longrightarrow> pkey key vi' i \<le> pkey key vi' c)
     \<and> (\<forall>p \<le> m. desc c p \<or> p = i \<longrightarrow> (\<exists>q \<le> m. (desc c q \<or> q = i) \<and> fst vi' ! p = fst vi ! q))"

lemma sub_ord_cong:
  assumes "sub_ord f m i" "\<And>p. desc i p \<Longrightarrow> p \<le> m \<Longrightarrow> f p = g p" "0 < i"
  shows "sub_ord g m i"
  unfolding sub_ord_def
proof (intro allI impI)
  fix p
  assume p: "desc i p \<and> p \<noteq> i \<and> p \<le> m"
  then have "desc i (p div 2)" "p div 2 \<le> m" by (auto intro: desc_parent)
  moreover have "f (p div 2) \<le> f p" using assms(1) p by (simp add: sub_ord_def)
  ultimately show "g (p div 2) \<le> g p" using assms(2) [of p] assms(2) [of "p div 2"] p by simp
qed

lemma down_half_spec:
  assumes down: "\<And>vi. bin_cons n m vi \<Longrightarrow> c \<le> m \<Longrightarrow>
      (\<And>p. desc c p \<Longrightarrow> p \<noteq> c \<Longrightarrow> p div 2 \<noteq> c \<Longrightarrow> p \<le> m \<Longrightarrow> pkey key vi (p div 2) \<le> pkey key vi p) \<Longrightarrow>
      down_spec n m key c vi (bin_down m key c vi)"
    and cons: "bin_cons n m vi" and i: "0 < i" "i \<le> m" and c: "c div 2 = i"
    and ord: "sub_ord (pkey key vi) m c"
  shows "half_spec n m key i c vi (down_half m key i c vi)"
proof (cases "c \<le> m \<and> pkey key vi c < pkey key vi i")
  case False
  then show ?thesis using cons ord by (auto simp: half_spec_def down_half_def)
next
  case True
  let ?vi = "bin_swap i c vi" and ?r = "bin_down m key c (bin_swap i c vi)"
  have ci: "0 < c" "c \<noteq> i" "i < c" using i c by auto
  have nd: "\<not> desc c i" using ci by (auto dest: desc_le)
  have nth: "fst ?vi ! p = (if p = c then fst vi ! i else if p = i then fst vi ! c else fst vi ! p)" for p
    using cons i True by (intro bin_swap_nth) (auto simp: bin_cons_def)
  have sw: "bin_cons n m ?vi" "bin_same vi ?vi"
    using bin_swap_cons [OF cons i ci(1)] True by simp_all
  have "pkey key ?vi (p div 2) \<le> pkey key ?vi p"
    if p: "desc c p" "p \<noteq> c" "p div 2 \<noteq> c" "p \<le> m" for p
  proof -
    have "desc c (p div 2)" using p by (intro desc_parent)
    with nd have "p \<noteq> i" "p div 2 \<noteq> i" using p by auto
    with p ord show ?thesis by (simp add: nth sub_ord_def)
  qed
  then have d: "down_spec n m key c ?vi ?r" using down sw(1) True by blast
  then have ri: "fst ?r ! i = fst vi ! c" using nd ci by (simp add: down_spec_def nth)
  have vals: "\<exists>q \<le> m. (desc c q \<or> q = i) \<and> fst ?r ! p = fst vi ! q"
    if p: "p \<le> m" "desc c p \<or> p = i" for p
  proof (cases "p = i")
    case False
    then obtain q where q: "q \<le> m" "desc c q" "fst ?r ! p = fst ?vi ! q"
      using p d by (auto simp: down_spec_def)
    show ?thesis
    proof (cases "q = c")
      case True
      with q i show ?thesis by (intro exI [of _ i]) (simp add: nth)
    next
      case False
      then show ?thesis using q nd by (intro exI [of _ q]) (auto simp: nth)
    qed
  qed (use ri True in \<open>auto intro: exI [of _ c]\<close>)
  have "pkey key ?r i \<le> pkey key ?r c"
  proof -
    obtain q where q: "q \<le> m" "desc c q \<or> q = i" "fst ?r ! c = fst vi ! q"
      using vals [of c] True by auto
    with True ri sub_ord_min [OF ord, of q] show ?thesis by auto
  qed
  with d sw ri vals True nd show ?thesis
    by (auto simp: half_spec_def down_half_def down_spec_def nth intro: bin_same_trans)
qed


lemma half_spec_other:
  assumes "half_spec n m key i c vi vi'" "\<And>p. desc d p \<Longrightarrow> \<not> desc c p \<and> p \<noteq> i" "0 < d"
    "sub_ord (pkey key vi) m d"
  shows "sub_ord (pkey key vi') m d"
  using assms(4) by (rule sub_ord_cong) (use assms in \<open>auto simp: half_spec_def\<close>)

text \<open>The two halves together put the subtree at \<open>i\<close> in order.\<close>

lemma halves_spec:
  assumes i: "0 < i" "i \<le> m"
    and l: "half_spec n m key i (2 * i) vi vi1"
    and r: "half_spec n m key i (Suc (2 * i)) vi1 vi2"
  shows "down_spec n m key i vi vi2"
proof -
  have lr: "\<not> desc (2 * i) p" if "desc (Suc (2 * i)) p" for p
    using that desc_disjoint i by blast
  have below: "desc i p" if "desc (2 * i) p \<or> desc (Suc (2 * i)) p" for p
    using that desc_trans desc_child i by blast
  have ni: "\<not> desc (2 * i) i" "\<not> desc (Suc (2 * i)) i" using desc_not_above i by simp_all
  have left: "fst vi2 ! p = fst vi1 ! p" if "desc (2 * i) p" for p
    using r that lr ni by (auto simp: half_spec_def)
  have ol: "sub_ord (pkey key vi2) m (2 * i)"
    using half_spec_other [OF r] l lr ni i by (force simp: half_spec_def)
  have root: "pkey key vi2 i \<le> pkey key vi1 i" using r by (simp add: half_spec_def)
  have "sub_ord (pkey key vi2) m i"
    unfolding sub_ord_def
  proof (intro allI impI)
    fix p
    assume p: "desc i p \<and> p \<noteq> i \<and> p \<le> m"
    then consider "p = 2 * i" | "p = Suc (2 * i)" | "desc (2 * i) p" "p \<noteq> 2 * i"
      | "desc (Suc (2 * i)) p" "p \<noteq> Suc (2 * i)"
      using desc_cases i by blast
    then show "pkey key vi2 (p div 2) \<le> pkey key vi2 p"
    proof cases
      case 1
      with p l have "pkey key vi1 i \<le> pkey key vi1 p" by (simp add: half_spec_def)
      with 1 root left [of p] show ?thesis by simp
    next
      case 2
      with p r show ?thesis by (simp add: half_spec_def)
    next
      case 3
      with p ol show ?thesis by (simp add: sub_ord_def)
    next
      case 4
      with p r show ?thesis by (simp add: half_spec_def sub_ord_def)
    qed
  qed
  moreover have "fst vi2 ! p = fst vi ! p" if "\<not> desc i p" for p
  proof -
    have "p \<noteq> i" using that by auto
    moreover have "\<not> desc (2 * i) p" "\<not> desc (Suc (2 * i)) p" using that below by blast+
    ultimately show ?thesis using l r by (simp add: half_spec_def)
  qed
  moreover have "\<exists>q \<le> m. desc i q \<and> fst vi2 ! p = fst vi ! q" if p: "p \<le> m" "desc i p" for p
  proof -
    have "\<exists>q \<le> m. desc i q \<and> fst vi2 ! p = fst vi1 ! q"
    proof (cases "desc (Suc (2 * i)) p \<or> p = i")
      case True
      then obtain q where "q \<le> m" "desc (Suc (2 * i)) q \<or> q = i" "fst vi2 ! p = fst vi1 ! q"
        using r p by (auto simp: half_spec_def)
      then show ?thesis using below [of q] by (intro exI [of _ q]) auto
    next
      case False
      then show ?thesis using p r by (intro exI [of _ p]) (auto simp: half_spec_def)
    qed
    then obtain q where q: "q \<le> m" "desc i q" "fst vi2 ! p = fst vi1 ! q" by blast
    show ?thesis
    proof (cases "desc (2 * i) q \<or> q = i")
      case True
      then obtain s where "s \<le> m" "desc (2 * i) s \<or> s = i" "fst vi1 ! q = fst vi ! s"
        using l q by (auto simp: half_spec_def)
      then show ?thesis using q(3) below [of s] by (intro exI [of _ s]) auto
    next
      case False
      then show ?thesis using q l by (intro exI [of _ q]) (auto simp: half_spec_def)
    qed
  qed
  ultimately show ?thesis
    using l r by (auto simp: down_spec_def half_spec_def intro: bin_same_trans)
qed

lemma bin_down_spec:
  "bin_cons n m vi \<Longrightarrow> 0 < i \<Longrightarrow> i \<le> m \<Longrightarrow>
   (\<And>p. desc i p \<Longrightarrow> p \<noteq> i \<Longrightarrow> p div 2 \<noteq> i \<Longrightarrow> p \<le> m \<Longrightarrow> pkey key vi (p div 2) \<le> pkey key vi p) \<Longrightarrow>
   down_spec n m key i vi (bin_down m key i vi)"
proof (induction "m - i" arbitrary: i vi rule: less_induct)
  case less
  have sub: "sub_ord (pkey key vi) m c" if c: "c div 2 = i" for c
    unfolding sub_ord_def
  proof (intro allI impI)
    fix p
    assume p: "desc c p \<and> p \<noteq> c \<and> p \<le> m"
    have ci: "i < c" "0 < c" using c less.prems(2) by auto
    from p have d: "desc c (p div 2)" by (simp add: desc_parent)
    then have "p div 2 \<noteq> i" "p \<noteq> i" using ci p by (auto dest: desc_le)
    moreover have "desc i c" using c less.prems(2) desc_up [of i c] by simp
    then have "desc i p" using p desc_trans less.prems(2) by blast
    ultimately show "pkey key vi (p div 2) \<le> pkey key vi p" using less.prems(4) p by simp
  qed
  let ?vi1 = "down_half m key i (2 * i) vi"
  have l: "half_spec n m key i (2 * i) vi ?vi1"
  proof (rule down_half_spec [OF _ less.prems(1-3)])
    show "2 * i div 2 = i" by simp
    then show "sub_ord (pkey key vi) m (2 * i)" by (rule sub)
  qed (rule less.hyps, use less.prems in auto)
  have r: "half_spec n m key i (Suc (2 * i)) ?vi1 (down_half m key i (Suc (2 * i)) ?vi1)"
  proof (rule down_half_spec)
    show "bin_cons n m ?vi1" using l by (simp add: half_spec_def)
    show "Suc (2 * i) div 2 = i" by simp
    then show "sub_ord (pkey key ?vi1) m (Suc (2 * i))"
      using desc_disjoint less.prems(2) desc_not_above
      by (intro half_spec_other [OF l _ _ sub]) auto
  qed (use less.prems in \<open>auto intro: less.hyps\<close>)
  from halves_spec [OF less.prems(2,3) l r] show ?case by (simp add: bin_down_halves)
qed


section \<open>Invariant and operations\<close>

abbreviation bin_arrays :: "binary_heap \<Rightarrow> nat list \<times> nat list" where
  "bin_arrays H \<equiv> (bin_v H, bin_index H)"

definition bin_mem :: "binary_heap \<Rightarrow> nat set" where
  "bin_mem H = {w. w < bin_n H \<and> bin_index H ! w \<noteq> UITEM_MAX}"

abbreviation bin_keyof :: "binary_heap \<Rightarrow> nat \<Rightarrow> TFloat" where
  "bin_keyof H w \<equiv> bin_key H ! w"

definition bin_inv :: "binary_heap \<Rightarrow> bool" where
  "bin_inv H \<longleftrightarrow> bin_cons (bin_n H) (bin_maxIndex H) (bin_arrays H)
     \<and> length (bin_key H) = bin_n H
     \<and> bin_ord (pkey (bin_key H) (bin_arrays H)) (bin_maxIndex H)"

lemma bin_consD:
  assumes "bin_cons n m vi"
  shows "length (fst vi) = Suc n" "length (snd vi) = n" "m \<le> n" "n < UITEM_MAX"
    and "0 < p \<Longrightarrow> p \<le> m \<Longrightarrow> fst vi ! p < n" "0 < p \<Longrightarrow> p \<le> m \<Longrightarrow> snd vi ! (fst vi ! p) = p"
    and "w < n \<Longrightarrow> snd vi ! w \<noteq> UITEM_MAX \<Longrightarrow>
      0 < snd vi ! w \<and> snd vi ! w \<le> m \<and> fst vi ! (snd vi ! w) = w"
  using assms by (auto simp: bin_cons_def)

lemma UpHeap_exchanges:
  assumes "bin_cons (bin_n H) (bin_maxIndex H) (bin_arrays H)" "0 < i" "i \<le> bin_maxIndex H"
  shows "binaryHeap_UpHeap H i =
    (let vi = bin_up_swaps (bin_key H) i (bin_arrays H)
     in Inr (H\<lparr>bin_v := fst vi, bin_index := snd vi\<rparr>))"
proof -
  let ?w = "bin_v H ! i"
  obtain v' ix' j where l: "bin_up_loop (bin_key H) (bin_key H ! ?w) i (bin_arrays H) = (v', ix', j)"
    by (metis prod_cases3)
  have "i < length (bin_v H)" using bin_consD(1,3) [OF assms(1)] assms(3) by simp
  from bin_up_loop_swaps [OF this l] bin_consD(6) [OF assms]
  have "(v'[j := ?w], ix'[?w := j]) = bin_up_swaps (bin_key H) i (bin_arrays H)"
    by (metis fst_conv list_update_id snd_conv)
  then show ?thesis using assms l
    by (simp add: binaryHeap_UpHeap_def Let_def) (metis fst_conv snd_conv)
qed

lemma UpHeap_inv:
  assumes c: "bin_cons (bin_n H) (bin_maxIndex H) (bin_arrays H)" "0 < i" "i \<le> bin_maxIndex H"
    and k: "length (bin_key H) = bin_n H"
    and o1: "\<And>p. 1 < p \<Longrightarrow> p \<le> bin_maxIndex H \<Longrightarrow> p \<noteq> i \<Longrightarrow>
      pkey (bin_key H) (bin_arrays H) (p div 2) \<le> pkey (bin_key H) (bin_arrays H) p"
    and o2: "\<And>p. 1 < i \<Longrightarrow> p \<le> bin_maxIndex H \<Longrightarrow> p div 2 = i \<Longrightarrow>
      pkey (bin_key H) (bin_arrays H) (i div 2) \<le> pkey (bin_key H) (bin_arrays H) p"
  shows "\<exists>H'. binaryHeap_UpHeap H i = Inr H' \<and> bin_inv H' \<and> bin_mem H' = bin_mem H
    \<and> bin_key H' = bin_key H \<and> bin_n H' = bin_n H \<and> bin_maxIndex H' = bin_maxIndex H"
proof -
  define vi where "vi = bin_up_swaps (bin_key H) i (bin_arrays H)"
  have "bin_cons (bin_n H) (bin_maxIndex H) vi \<and> bin_same (bin_arrays H) vi
    \<and> bin_ord (pkey (bin_key H) vi) (bin_maxIndex H)"
    unfolding vi_def by (rule bin_up_swaps_ord [OF c]) (erule (2) o1, erule (2) o2)
  then show ?thesis using UpHeap_exchanges [OF c] k
    by (auto simp: vi_def [symmetric] bin_inv_def bin_mem_def bin_same_def)
qed

lemma DownHeap_inv:
  assumes c: "bin_cons (bin_n H) (bin_maxIndex H) (bin_arrays H)" and i: "0 < i" "i \<le> bin_maxIndex H"
    and k: "length (bin_key H) = bin_n H"
    and o1: "\<And>p. 1 < p \<Longrightarrow> p \<le> bin_maxIndex H \<Longrightarrow> p div 2 \<noteq> i \<Longrightarrow>
      pkey (bin_key H) (bin_arrays H) (p div 2) \<le> pkey (bin_key H) (bin_arrays H) p"
    and o2: "\<And>p. 1 < i \<Longrightarrow> p \<le> bin_maxIndex H \<Longrightarrow> desc i p \<Longrightarrow>
      pkey (bin_key H) (bin_arrays H) (i div 2) \<le> pkey (bin_key H) (bin_arrays H) p"
  shows "\<exists>H'. binaryHeap_DownHeap H i = Inr H' \<and> bin_inv H' \<and> bin_mem H' = bin_mem H
    \<and> bin_key H' = bin_key H \<and> bin_n H' = bin_n H \<and> bin_maxIndex H' = bin_maxIndex H"
proof -
  let ?m = "bin_maxIndex H" and ?k = "bin_key H" and ?vi0 = "bin_arrays H"
  define vi where "vi = bin_down ?m ?k i ?vi0"
  have "down_spec (bin_n H) ?m ?k i ?vi0 vi"
    unfolding vi_def
    by (rule bin_down_spec [OF c i], rule o1) (use i in \<open>auto dest: desc_le\<close>)
  then have vi: "bin_cons (bin_n H) ?m vi" "bin_same ?vi0 vi" "sub_ord (pkey ?k vi) ?m i"
    "\<And>p. \<not> desc i p \<Longrightarrow> fst vi ! p = fst ?vi0 ! p"
    "\<And>p. p \<le> ?m \<Longrightarrow> desc i p \<Longrightarrow> \<exists>q \<le> ?m. desc i q \<and> fst vi ! p = fst ?vi0 ! q"
    by (simp_all add: down_spec_def)
  have "bin_ord (pkey ?k vi) ?m"
    unfolding bin_ord_def
  proof (intro allI impI)
    fix p
    assume p: "1 < p \<and> p \<le> ?m"
    consider "desc i p" "p \<noteq> i" | "p = i" | "\<not> desc i p" by blast
    then show "pkey ?k vi (p div 2) \<le> pkey ?k vi p"
    proof cases
      case 1
      with p vi(3) show ?thesis by (simp add: sub_ord_def)
    next
      case 2
      obtain q where "q \<le> ?m" "desc i q" "fst vi ! i = fst ?vi0 ! q" using vi(5) [of i] i by auto
      moreover have "fst vi ! (i div 2) = fst ?vi0 ! (i div 2)"
        using p 2 by (intro vi(4)) (auto dest: desc_le)
      ultimately show ?thesis using o2 [of q] p 2 by simp
    next
      case 3
      have "\<not> desc i (p div 2)" using 3 desc_up i by blast
      moreover from this have "p div 2 \<noteq> i" by auto
      ultimately show ?thesis using o1 [of p] p 3 vi(4) by simp
    qed
  qed
  with vi i k show ?thesis
    by (auto simp: binaryHeap_DownHeap_def vi_def [symmetric] bin_inv_def bin_mem_def bin_same_def
        split: prod.splits)
qed


lemma bin_mem_image:
  assumes "bin_cons (bin_n H) (bin_maxIndex H) (bin_arrays H)"
  shows "bin_mem H = (\<lambda>p. bin_v H ! p) ` {1..bin_maxIndex H}"
    and "inj_on (\<lambda>p. bin_v H ! p) {1..bin_maxIndex H}"
proof -
  note c = bin_consD [OF assms, simplified]
  show "inj_on (\<lambda>p. bin_v H ! p) {1..bin_maxIndex H}"
    using bin_cons_inj [OF assms] by (auto simp: inj_on_def)
  show "bin_mem H = (\<lambda>p. bin_v H ! p) ` {1..bin_maxIndex H}"
  proof (intro equalityI subsetI)
    fix w
    assume "w \<in> bin_mem H"
    with c(7) [of w] have "0 < bin_index H ! w" "bin_index H ! w \<le> bin_maxIndex H"
      "w = bin_v H ! (bin_index H ! w)" by (simp_all add: bin_mem_def)
    then show "w \<in> (\<lambda>p. bin_v H ! p) ` {1..bin_maxIndex H}"
      by (intro image_eqI [of _ _ "bin_index H ! w"]) simp_all
  next
    fix w
    assume "w \<in> (\<lambda>p. bin_v H ! p) ` {1..bin_maxIndex H}"
    then obtain p where "w = bin_v H ! p" "p \<in> {1..bin_maxIndex H}" by (rule imageE)
    then have p: "0 < p" "p \<le> bin_maxIndex H" "w = bin_v H ! p" by simp_all
    with c(5) [of p] c(6) [of p] c(3,4) show "w \<in> bin_mem H" by (simp add: bin_mem_def)
  qed
qed

lemma bin_mem_card:
  assumes "bin_cons (bin_n H) (bin_maxIndex H) (bin_arrays H)"
  shows "card (bin_mem H) = bin_maxIndex H"
  unfolding bin_mem_image(1) [OF assms] card_image [OF bin_mem_image(2) [OF assms]] by simp

lemma bin_mem_finite: "finite (bin_mem H)"
  by (simp add: bin_mem_def)

lemma binaryHeap_Insert_inv:
  assumes inv: "bin_inv H" and w: "w < bin_n H" "w \<notin> bin_mem H"
  shows "\<exists>H'. binaryHeap_Insert H w alpha = Inr H' \<and> bin_inv H' \<and> bin_mem H' = insert w (bin_mem H)
    \<and> bin_key H' = (bin_key H)[w := alpha] \<and> bin_n H' = bin_n H"
proof -
  let ?m = "bin_maxIndex H" and ?n = "bin_n H"
  have cons: "bin_cons ?n ?m (bin_arrays H)" and len: "length (bin_key H) = ?n"
    and ord: "bin_ord (pkey (bin_key H) (bin_arrays H)) ?m" using inv by (simp_all add: bin_inv_def)
  note c = bin_consD [OF cons, simplified]
  have "bin_mem H \<subset> {..<?n}" using w by (auto simp: bin_mem_def)
  then have room: "?m < ?n" using psubset_card_mono [of "{..<?n}" "bin_mem H"] bin_mem_card [OF cons] by simp
  have free: "bin_index H ! w = UITEM_MAX" using w by (simp add: bin_mem_def)
  have old: "bin_v H ! p \<noteq> w" if "0 < p" "p \<le> ?m" for p
    using c(6) [of p] free that c(3,4) by auto
  define H1 where "H1 = H\<lparr>bin_key := (bin_key H)[w := alpha], bin_maxIndex := Suc ?m,
    bin_index := (bin_index H)[w := Suc ?m], bin_v := (bin_v H)[Suc ?m := w]\<rparr>"
  have nv: "bin_v H1 ! p = (if p = Suc ?m then w else bin_v H ! p)" for p
    using c(1) room by (simp add: H1_def nth_list_update)
  have nix: "bin_index H1 ! x = (if x = w then Suc ?m else bin_index H ! x)" for x
    using c(2) w by (simp add: H1_def nth_list_update)
  have c1: "bin_cons ?n (Suc ?m) (bin_arrays H1)"
    unfolding bin_cons_def
  proof (intro conjI allI impI)
    fix p
    assume p: "0 < p \<and> p \<le> Suc ?m"
    then show "fst (bin_arrays H1) ! p < ?n" using w(1) c(5) [of p] by (auto simp: nv)
    show "snd (bin_arrays H1) ! (fst (bin_arrays H1) ! p) = p"
      using p old [of p] c(6) [of p] by (auto simp: nv nix)
  next
    fix x
    assume "x < ?n" "snd (bin_arrays H1) ! x \<noteq> UITEM_MAX"
    then show "0 < snd (bin_arrays H1) ! x" "snd (bin_arrays H1) ! x \<le> Suc ?m"
      "fst (bin_arrays H1) ! (snd (bin_arrays H1) ! x) = x"
      using c(7) [of x] by (auto simp: nv nix)
  qed (use c room in \<open>auto simp: H1_def\<close>)
  have key: "pkey (bin_key H1) (bin_arrays H1) p = pkey (bin_key H) (bin_arrays H) p"
    if "0 < p" "p \<le> ?m" for p
  proof -
    have "w \<noteq> bin_v H ! p" using old [OF that] by blast
    with that show ?thesis by (simp add: nv) (simp add: H1_def)
  qed
  have "\<exists>H'. binaryHeap_UpHeap H1 (Suc ?m) = Inr H' \<and> bin_inv H' \<and> bin_mem H' = bin_mem H1
    \<and> bin_key H' = bin_key H1 \<and> bin_n H' = bin_n H1 \<and> bin_maxIndex H' = bin_maxIndex H1"
  proof (rule UpHeap_inv)
    show "bin_cons (bin_n H1) (bin_maxIndex H1) (bin_arrays H1)" using c1 by (simp add: H1_def)
    show "Suc ?m \<le> bin_maxIndex H1" "length (bin_key H1) = bin_n H1" using len by (simp_all add: H1_def)
    show "pkey (bin_key H1) (bin_arrays H1) (p div 2) \<le> pkey (bin_key H1) (bin_arrays H1) p"
      if "1 < p" "p \<le> bin_maxIndex H1" "p \<noteq> Suc ?m" for p
    proof -
      have p: "0 < p" "p \<le> ?m" "0 < p div 2" "p div 2 \<le> ?m"
        using that by (auto simp: H1_def)
      have "pkey (bin_key H) (bin_arrays H) (p div 2) \<le> pkey (bin_key H) (bin_arrays H) p"
        using ord p(2) that(1) by (simp add: bin_ord_def)
      then show ?thesis unfolding key [OF p(1,2)] key [OF p(3,4)] .
    qed
  qed (auto simp: H1_def)
  moreover have "binaryHeap_Insert H w alpha = binaryHeap_UpHeap H1 (Suc ?m)"
    using w room by (simp add: binaryHeap_Insert_def H1_def Let_def)
  moreover have "bin_mem H1 = insert w (bin_mem H)"
  proof -
    have "Suc ?m \<noteq> UITEM_MAX" using c(4) room by simp
    moreover have "bin_n H1 = bin_n H" by (simp add: H1_def)
    ultimately show ?thesis using w(1) by (auto simp: bin_mem_def nix)
  qed
  ultimately show ?thesis by (auto simp: H1_def)
qed

lemma binaryHeap_ChangeKey_inv:
  assumes inv: "bin_inv H" and w: "w \<in> bin_mem H"
  shows "\<exists>H'. binaryHeap_ChangeKey H w alpha = Inr H' \<and> bin_inv H' \<and> bin_mem H' = bin_mem H
    \<and> bin_key H' = (bin_key H)[w := alpha] \<and> bin_n H' = bin_n H"
proof -
  let ?m = "bin_maxIndex H" and ?n = "bin_n H" and ?i = "bin_index H ! w"
  have cons: "bin_cons ?n ?m (bin_arrays H)" and len: "length (bin_key H) = ?n"
    and ord: "bin_ord (pkey (bin_key H) (bin_arrays H)) ?m" using inv by (simp_all add: bin_inv_def)
  note c = bin_consD [OF cons, simplified]
  have i: "0 < ?i" "?i \<le> ?m" "bin_v H ! ?i = w" and wn: "w < ?n" "?i \<noteq> UITEM_MAX"
    using w c(7) [of w] by (auto simp: bin_mem_def)
  define H1 where "H1 = H\<lparr>bin_key := (bin_key H)[w := alpha]\<rparr>"
  have H1: "bin_v H1 = bin_v H" "bin_index H1 = bin_index H" "bin_n H1 = ?n" "bin_maxIndex H1 = ?m"
    "bin_key H1 = (bin_key H)[w := alpha]" "bin_mem H1 = bin_mem H"
    by (simp_all add: H1_def bin_mem_def)
  have key: "pkey (bin_key H1) (bin_arrays H1) p =
      (if p = ?i then alpha else pkey (bin_key H) (bin_arrays H) p)" if "0 < p" "p \<le> ?m" for p
    using bin_cons_inj [OF cons that i(1,2)] i(3) wn len by (auto simp: H1 nth_list_update)
  have edge: "pkey (bin_key H) (bin_arrays H) (p div 2) \<le> pkey (bin_key H) (bin_arrays H) p"
    if "1 < p" "p \<le> ?m" for p
    using ord that by (simp add: bin_ord_def)
  have up: "0 < p div 2" "p div 2 \<le> ?m" if "1 < p" "p \<le> ?m" for p
    using that by auto
  have iw: "pkey (bin_key H) (bin_arrays H) ?i = bin_key H ! w" using i(3) by simp
  show ?thesis
  proof (cases "alpha > bin_key H ! w")
    case True
    have "\<exists>H'. binaryHeap_DownHeap H1 ?i = Inr H' \<and> bin_inv H' \<and> bin_mem H' = bin_mem H1
      \<and> bin_key H' = bin_key H1 \<and> bin_n H' = bin_n H1 \<and> bin_maxIndex H' = bin_maxIndex H1"
    proof (rule DownHeap_inv)
      show "pkey (bin_key H1) (bin_arrays H1) (p div 2) \<le> pkey (bin_key H1) (bin_arrays H1) p"
        if p: "1 < p" "p \<le> bin_maxIndex H1" "p div 2 \<noteq> ?i" for p
        using edge [of p] up [of p] p key [of p] key [of "p div 2"] True iw
        by (cases "p = ?i") (auto simp: H1(4))
      show "pkey (bin_key H1) (bin_arrays H1) (?i div 2) \<le> pkey (bin_key H1) (bin_arrays H1) p"
        if p: "1 < ?i" "p \<le> bin_maxIndex H1" "desc ?i p" for p
      proof -
        have "pkey (bin_key H) (bin_arrays H) ?i \<le> pkey (bin_key H) (bin_arrays H) p"
          using sub_ord_min [OF bin_ord_sub [OF ord i(1)] p(3)] p(2) by (simp add: H1)
        moreover have "0 < p" using desc_le [OF p(3)] i by simp
        ultimately show ?thesis
          using edge [of ?i] up [of ?i] p i(2) key [of p] key [of "?i div 2"] True iw by (auto simp: H1(4))
      qed
    qed (use cons i len in \<open>simp_all add: H1\<close>)
    with True wn show ?thesis by (auto simp: binaryHeap_ChangeKey_def H1_def [symmetric] H1)
  next
    case False
    have "\<exists>H'. binaryHeap_UpHeap H1 ?i = Inr H' \<and> bin_inv H' \<and> bin_mem H' = bin_mem H1
      \<and> bin_key H' = bin_key H1 \<and> bin_n H' = bin_n H1 \<and> bin_maxIndex H' = bin_maxIndex H1"
    proof (rule UpHeap_inv)
      show "pkey (bin_key H1) (bin_arrays H1) (p div 2) \<le> pkey (bin_key H1) (bin_arrays H1) p"
        if p: "1 < p" "p \<le> bin_maxIndex H1" "p \<noteq> ?i" for p
        using edge [of p] up [of p] p key [of p] key [of "p div 2"] False iw
        by (cases "p div 2 = ?i") (auto simp: H1(4))
      show "pkey (bin_key H1) (bin_arrays H1) (?i div 2) \<le> pkey (bin_key H1) (bin_arrays H1) p"
        if p: "1 < ?i" "p \<le> bin_maxIndex H1" "p div 2 = ?i" for p
      proof -
        have "1 < p" using p(1,3) by auto
        with edge [of p] edge [of ?i] up [of ?i] p i(2) key [of p] key [of "?i div 2"]
        show ?thesis by (auto simp: H1(4))
      qed
    qed (use cons i len in \<open>simp_all add: H1\<close>)
    with False wn show ?thesis by (auto simp: binaryHeap_ChangeKey_def H1_def [symmetric] H1)
  qed
qed


lemma binaryHeap_Delete_inv:
  assumes inv: "bin_inv H" and ne: "bin_mem H \<noteq> {}"
  shows "\<exists>x H'. binaryHeap_Delete H = Inr (x, H') \<and> binaryHeap_Peek H = Inr x \<and> x \<in> bin_mem H
    \<and> (\<forall>y \<in> bin_mem H. bin_keyof H x \<le> bin_keyof H y) \<and> bin_mem H' = bin_mem H - {x}
    \<and> bin_key H' = bin_key H \<and> bin_n H' = bin_n H \<and> bin_inv H'"
proof -
  let ?m = "bin_maxIndex H" and ?n = "bin_n H" and ?x = "bin_v H ! 1"
  have cons: "bin_cons ?n ?m (bin_arrays H)" and len: "length (bin_key H) = ?n"
    and ord: "bin_ord (pkey (bin_key H) (bin_arrays H)) ?m" using inv by (simp_all add: bin_inv_def)
  note c = bin_consD [OF cons, simplified]
  have m: "0 < ?m" using ne bin_mem_image(1) [OF cons] by auto
  then have x: "?x < ?n" "bin_index H ! ?x = 1" using c(5) [of 1] c(6) [of 1] by simp_all
  then have xm: "?x \<in> bin_mem H" using c(3,4) m by (simp add: bin_mem_def)
  have least: "\<forall>y \<in> bin_mem H. bin_keyof H ?x \<le> bin_keyof H y"
    unfolding bin_mem_image(1) [OF cons] using bin_ord_root [OF ord] by auto
  have peek: "binaryHeap_Peek H = Inr ?x" using m by (simp add: binaryHeap_Peek_def)
  have inj: "bin_v H ! p = bin_v H ! q \<longleftrightarrow> p = q" if "0 < p" "p \<le> ?m" "0 < q" "q \<le> ?m" for p q
    using bin_cons_inj [OF cons that] by simp
  have "\<exists>H'. binaryHeap_Delete H = Inr (?x, H') \<and> bin_mem H' = bin_mem H - {?x}
    \<and> bin_key H' = bin_key H \<and> bin_n H' = bin_n H \<and> bin_inv H'"
  proof (cases "?m = 1")
    case True
    define H1 where "H1 = H\<lparr>bin_index := (bin_index H)[?x := UITEM_MAX], bin_maxIndex := 0\<rparr>"
    have ix: "bin_index H1 ! w = UITEM_MAX" if "w < ?n" for w
    proof (cases "bin_index H ! w = UITEM_MAX \<or> w = ?x")
      case True
      with that c(2) x(1) show ?thesis by (auto simp: H1_def nth_list_update)
    next
      case False
      with c(7) [OF that] \<open>?m = 1\<close> have "bin_index H ! w = 1" by simp
      with False c(7) [OF that] show ?thesis by simp
    qed
    have "binaryHeap_Delete H = Inr (?x, H1)" using True by (simp add: binaryHeap_Delete_def H1_def Let_def)
    moreover have "bin_inv H1" using c len ix by (simp add: bin_inv_def bin_cons_def bin_ord_def) (simp add: H1_def)
    moreover have "bin_mem H1 = {}" using ix by (auto simp: bin_mem_def) (simp add: H1_def)
    moreover have "bin_mem H = {?x}" unfolding bin_mem_image(1) [OF cons] True by simp
    ultimately show ?thesis by (auto simp: H1_def)
  next
    case False
    with m have m2: "1 < ?m" by simp
    let ?y = "bin_v H ! ?m"
    have y: "?y < ?n" "bin_index H ! ?y = ?m" "?y \<noteq> ?x" "?x \<noteq> ?y"
      using c(5) [of ?m] c(6) [of ?m] inj [of ?m 1] inj [of 1 ?m] m2 by auto
    define H1 where "H1 = H\<lparr>bin_maxIndex := ?m - 1, bin_v := (bin_v H)[1 := ?y],
      bin_index := (bin_index H)[?x := UITEM_MAX, ?y := 1]\<rparr>"
    have nv: "bin_v H1 ! p = (if p = 1 then ?y else bin_v H ! p)" for p
      using c(1,3) m2 by (simp add: H1_def nth_list_update)
    have nix: "bin_index H1 ! w = (if w = ?y then 1 else if w = ?x then UITEM_MAX else bin_index H ! w)" for w
      using c(2) x y by (simp add: H1_def nth_list_update)
    have c1: "bin_cons ?n (?m - 1) (bin_arrays H1)"
      unfolding bin_cons_def
    proof (intro conjI allI impI)
      fix p
      assume p: "0 < p \<and> p \<le> ?m - 1"
      then show "fst (bin_arrays H1) ! p < ?n" using y c(5) [of p] by (auto simp: nv)
      have p': "p < ?m" using p m2 by linarith
      with p inj [of p ?m] inj [of p 1] m2 c(6) [of p]
      show "snd (bin_arrays H1) ! (fst (bin_arrays H1) ! p) = p" by (auto simp: nv nix)
    next
      fix w
      assume w: "w < ?n" "snd (bin_arrays H1) ! w \<noteq> UITEM_MAX"
      have "0 < snd (bin_arrays H1) ! w \<and> snd (bin_arrays H1) ! w \<le> ?m - 1
          \<and> fst (bin_arrays H1) ! (snd (bin_arrays H1) ! w) = w"
      proof (cases "w = ?y")
        case True
        with m2 show ?thesis by (simp add: nix nv)
      next
        case False
        with w have "w \<noteq> ?x" "bin_index H ! w \<noteq> UITEM_MAX" by (auto simp: nix split: if_splits)
        with False c(7) [OF w(1)]
        have "bin_index H ! w \<noteq> 1" "bin_index H ! w \<noteq> ?m" by auto
        with False \<open>w \<noteq> ?x\<close> c(7) [OF w(1) \<open>bin_index H ! w \<noteq> UITEM_MAX\<close>] show ?thesis
          by (auto simp: nix nv)
      qed
      then show "0 < snd (bin_arrays H1) ! w" "snd (bin_arrays H1) ! w \<le> ?m - 1"
        "fst (bin_arrays H1) ! (snd (bin_arrays H1) ! w) = w" by simp_all
    qed (use c in \<open>auto simp: H1_def\<close>)
    have "\<exists>H'. binaryHeap_DownHeap H1 1 = Inr H' \<and> bin_inv H' \<and> bin_mem H' = bin_mem H1
      \<and> bin_key H' = bin_key H1 \<and> bin_n H' = bin_n H1 \<and> bin_maxIndex H' = bin_maxIndex H1"
    proof (rule DownHeap_inv)
      show "bin_cons (bin_n H1) (bin_maxIndex H1) (bin_arrays H1)" using c1 by (simp add: H1_def)
      show "pkey (bin_key H1) (bin_arrays H1) (p div 2) \<le> pkey (bin_key H1) (bin_arrays H1) p"
        if p: "1 < p" "p \<le> bin_maxIndex H1" "p div 2 \<noteq> 1" for p
        using ord p by (simp add: nv bin_ord_def) (simp add: H1_def)
    qed (use m2 len in \<open>simp_all add: H1_def\<close>)
    then obtain H' where H': "binaryHeap_DownHeap H1 1 = Inr H'" "bin_inv H'" "bin_mem H' = bin_mem H1"
      "bin_key H' = bin_key H1" "bin_n H' = bin_n H1" by blast
    moreover have "binaryHeap_Delete H = Inr (?x, H')"
    proof -
      have "bin_maxIndex H - 1 > 0" "?m \<noteq> 0" using m2 by auto
      with H'(1) show ?thesis by (simp add: binaryHeap_Delete_def H1_def Let_def)
    qed
    moreover have "bin_mem H1 = bin_mem H - {?x}"
    proof -
      have "bin_n H1 = ?n" by (simp add: H1_def)
      moreover have "(1 :: nat) \<noteq> UITEM_MAX" "?m \<noteq> UITEM_MAX" using c(3,4) m2 by auto
      ultimately show ?thesis using y by (auto simp: bin_mem_def nix)
    qed
    ultimately show ?thesis by (auto simp: H1_def)
  qed
  with xm least peek show ?thesis by blast
qed


lemma bin_key_upd:
  "bin_inv H \<Longrightarrow> x < bin_n H \<Longrightarrow> (bin_key H)[x := a] ! y = ((bin_keyof H)(x := a)) y"
  by (simp add: bin_inv_def nth_list_update)

lemma bin_mem_empty: "bin_inv H \<Longrightarrow> bin_mem H = {} \<longleftrightarrow> bin_maxIndex H = 0"
  using bin_mem_card [of H] bin_mem_finite [of H] by (auto simp: bin_inv_def)

interpretation binheap: prio_container bin_inv bin_mem bin_keyof bin_n "\<lambda>a. True"
  binaryHeap_Empty binaryHeap_Cardinality binaryHeap_Delete binaryHeap_Peek
  binaryHeap_Insert binaryHeap_ChangeKey
proof unfold_locales
  fix H
  assume "bin_inv H" "bin_mem H \<noteq> {}"
  from binaryHeap_Delete_inv [OF this]
  show "\<exists>x q'. binaryHeap_Delete H = Inr (x, q') \<and> binaryHeap_Peek H = Inr x \<and> x \<in> bin_mem H
      \<and> (\<forall>y \<in> bin_mem H. bin_keyof H x \<le> bin_keyof H y) \<and> bin_mem q' = bin_mem H - {x}
      \<and> (\<forall>y \<in> bin_mem q'. bin_keyof q' y = bin_keyof H y) \<and> bin_n q' = bin_n H \<and> bin_inv q'"
    by metis
next
  fix H x a
  assume "bin_inv H" "x < bin_n H" "x \<notin> bin_mem H"
  then show "\<exists>q'. binaryHeap_Insert H x a = Inr q' \<and> bin_mem q' = insert x (bin_mem H)
      \<and> (\<forall>y \<in> bin_mem q'. bin_keyof q' y = ((bin_keyof H)(x := a)) y)
      \<and> bin_n q' = bin_n H \<and> bin_inv q'"
    using binaryHeap_Insert_inv [of H x a] by (auto simp: bin_key_upd)
next
  fix H x a
  assume "bin_inv H" "x \<in> bin_mem H"
  then show "\<exists>q'. binaryHeap_ChangeKey H x a = Inr q' \<and> bin_mem q' = bin_mem H
      \<and> (\<forall>y \<in> bin_mem q'. bin_keyof q' y = ((bin_keyof H)(x := a)) y)
      \<and> bin_n q' = bin_n H \<and> bin_inv q'"
    using binaryHeap_ChangeKey_inv [of H x a] bin_key_upd [of H x a] by (auto simp: bin_mem_def)
qed (auto simp: bin_mem_empty bin_mem_finite binaryHeap_Empty_def binaryHeap_Cardinality_def
    binaryHeap_Delete_def binaryHeap_Peek_def binaryHeap_Insert_def bin_mem_card bin_inv_def,
    simp add: bin_mem_def)


lemma binaryHeap_new_inv:
  assumes "length v0 = Suc nn" "length key0 = nn" "nn < UITEM_MAX"
  shows "bin_inv (binaryHeap nn v0 key0)" "bin_mem (binaryHeap nn v0 key0) = {}"
  using assms by (auto simp: bin_inv_def binaryHeap_def bin_cons_def bin_ord_def bin_mem_def)

lemma binaryHeap_Init_inv:
  assumes "bin_inv H"
  shows "\<exists>H'. binaryHeap_Init H = Some (Inr H') \<and> bin_inv H' \<and> bin_mem H' = {}"
proof (cases "bin_maxIndex H * 100 < bin_n H")
  case True
  from binheap.prio.Init_returns [OF assms] True show ?thesis
    by (auto simp: binaryHeap_Init_def binheap.prio_empty)
next
  case False
  define H' where "H' = H\<lparr>bin_index := replicate (bin_n H) UITEM_MAX, bin_maxIndex := 0\<rparr>"
  have "bin_inv H'" using assms
    by (auto simp: bin_inv_def bin_cons_def bin_ord_def H'_def)
  moreover have "bin_mem H' = {}" by (auto simp: bin_mem_def H'_def)
  ultimately show ?thesis using False by (auto simp: binaryHeap_Init_def H'_def)
qed

section \<open>Properties\<close>



text \<open>
  \<open>UpHeap\<close>, which shifts the larger parents down into a hole and writes the item once, has
  the effect of exchanging the item with its parent as long as the parent is larger, on both
  arrays.
\<close>

theorem binaryHeap_UpHeap_exchanges:
  assumes "bin_inv H" "0 < i" "i \<le> bin_maxIndex H"
  shows "binaryHeap_UpHeap (H\<lparr>bin_key := key\<rparr>) i =
    (let vi = bin_up_swaps key i (bin_arrays H)
     in Inr (H\<lparr>bin_key := key, bin_v := fst vi, bin_index := snd vi\<rparr>))"
  using UpHeap_exchanges [of "H\<lparr>bin_key := key\<rparr>" i] assms by (simp add: bin_inv_def)

theorem binaryHeap_UpHeap_exchanges_witness:
  "\<exists>H. bin_inv H \<and> bin_maxIndex H = 2 \<and> binaryHeap_UpHeap (H\<lparr>bin_key := [5, 3]\<rparr>) 2 =
    (let vi = bin_up_swaps [5, 3] 2 (bin_arrays H)
     in Inr (H\<lparr>bin_key := [5, 3], bin_v := fst vi, bin_index := snd vi\<rparr>))"
proof -
  define H where
    "H = \<lparr>bin_v = [0, 0, 1], bin_index = [1, 2], bin_key = [5, 7], bin_maxIndex = 2, bin_n = 2\<rparr>"
  have "2 < UITEM_MAX" by (simp add: UITEM_MAX_def)
  then have "bin_cons 2 2 (bin_arrays H)"
    by (auto simp: bin_cons_def H_def le_Suc_eq numeral_2_eq_2 less_Suc_eq)
  moreover have "bin_ord (pkey [5, 7] (bin_arrays H)) 2"
    by (auto simp: bin_ord_def H_def le_Suc_eq numeral_2_eq_2)
  ultimately have "bin_inv H" "bin_maxIndex H = 2" by (simp_all add: bin_inv_def H_def)
  with binaryHeap_UpHeap_exchanges [of H 2 "[5, 3]"] show ?thesis by auto
qed

text \<open>
  \<open>Init\<close> returns, whichever of its two branches runs, with an empty heap whose arrays are
  consistent.
\<close>

theorem binaryHeap_Init_empties:
  assumes "bin_inv H"
  shows "\<exists>H'. binaryHeap_Init H = Some (Inr H') \<and> bin_inv H' \<and> binaryHeap_Empty H'"
  using binaryHeap_Init_inv [OF assms] by (auto simp: binheap.prio_empty)

theorem binaryHeap_Init_empties_witness:
  "\<exists>H'. binaryHeap_Init (binaryHeap 2 [0, 0, 0] [0, 0]) = Some (Inr H') \<and> binaryHeap_Empty H'"
  using binaryHeap_Init_empties [OF binaryHeap_new_inv(1) [of "[0, 0, 0]" 2 "[0, 0]"]]
  by (auto simp: UITEM_MAX_def)

text \<open>
  \<open>Delete(w)\<close> moves the last item into the gap without updating its \<open>index\<close> entry, and
  moves it down only. After inserting 0, 1 and 2 with keys 1, 2 and 3 and deleting 1, item 2 is
  at position 2 while \<open>index[2]\<close> is still 3, and decreasing its key fails.
\<close>

lemma binaryHeap_DeleteItem_stale_index:
  "\<exists>H. bin_inv H \<and> bin_mem H = {0, 1, 2} \<and>
     (\<exists>H1. binaryHeap_DeleteItem H 1 = Inr H1 \<and> bin_v H1 ! 2 = 2 \<and> bin_index H1 ! 2 = 3
        \<and> binaryHeap_ChangeKey H1 2 0 = Inl ERRange)"
proof -
  define H where "H = \<lparr>bin_v = [0, 0, 1, 2], bin_index = [1, 2, 3], bin_key = [1, 2, 3],
    bin_maxIndex = 3, bin_n = 3\<rparr>"
  have "3 < UITEM_MAX" by (simp add: UITEM_MAX_def)
  then have "bin_cons 3 3 (bin_arrays H)"
    by (auto simp: bin_cons_def H_def le_Suc_eq numeral_3_eq_3 numeral_2_eq_2 less_Suc_eq)
  moreover have "bin_ord (pkey [1, 2, 3] (bin_arrays H)) 3"
    unfolding bin_ord_def
  proof (intro allI impI)
    fix p :: nat
    assume "1 < p \<and> p \<le> 3"
    then have "p = 2 \<or> p = 3" by auto
    then show "pkey [1, 2, 3] (bin_arrays H) (p div 2) \<le> pkey [1, 2, 3] (bin_arrays H) p"
      by (auto simp: H_def)
  qed
  ultimately have "bin_inv H" by (simp add: bin_inv_def H_def)
  moreover have "bin_mem H = {0, 1, 2}"
    by (auto simp: bin_mem_def H_def UITEM_MAX_def less_Suc_eq numeral_3_eq_3)
  moreover have "\<exists>H1. binaryHeap_DeleteItem H 1 = Inr H1 \<and> bin_v H1 ! 2 = 2 \<and> bin_index H1 ! 2 = 3
      \<and> binaryHeap_ChangeKey H1 2 0 = Inl ERRange"
    by (simp add: binaryHeap_DeleteItem_def binaryHeap_DownHeap_def bin_down_leaf H_def
        UITEM_MAX_def binaryHeap_ChangeKey_def binaryHeap_UpHeap_def)
  ultimately show ?thesis by blast
qed

end
