(* ===== verification/Fibonacci_Heap.thy ===== *)
theory Fibonacci_Heap
  imports Goblin_Queue
begin

text \<open>
  The Fibonacci heap (\<^verbatim>\<open>include/fibonacciHeap.h\<close>, \<^verbatim>\<open>lib_src/fibonacciHeap.cpp\<close>): a forest of the
  members in arrays, the children of an item in a doubly linked list, the roots in a singly linked
  list. The arrays \<open>pred\<close>, \<open>first\<close>, \<open>next\<close>, \<open>previous\<close>, \<open>rank\<close> and \<open>key\<close> are not initialised by the
  constructor; their first contents are arguments of the model. The recursive methods and the loops over
  linked lists are partial functions: \<open>None\<close> is a call that does not return.
\<close>

section \<open>The class\<close>

datatype TStatus = UNMARKED_CHILD | MARKED_CHILD | ROOT_NODE | NOT_QUEUED

record fibonacci_heap =
  fh_pred :: "nat list"
  fh_first :: "nat list"
  fh_next :: "nat list"
  fh_previous :: "nat list"
  fh_rank :: "nat list"
  fh_status :: "TStatus list"
  fh_bucket :: "nat list"
  fh_nextLink :: "nat list"
  fh_key :: "TFloat list"
  fh_card :: nat
  fh_n :: nat
  fh_k :: nat
  fh_minimal :: nat
  fh_firstLink :: nat
  fh_UNDEFINED :: nat

definition fibonacciHeap :: "nat \<Rightarrow> nat list \<Rightarrow> nat list \<Rightarrow> nat list \<Rightarrow> nat list \<Rightarrow> nat list \<Rightarrow> TFloat list \<Rightarrow> fibonacci_heap" where
  "fibonacciHeap nn pred0 first0 next0 previous0 rank0 key0 =
     \<lparr>fh_pred = pred0, fh_first = first0, fh_next = next0, fh_previous = previous0, fh_rank = rank0,
      fh_status = replicate nn NOT_QUEUED, fh_bucket = replicate nn nn, fh_nextLink = replicate nn nn, fh_key = key0,
      fh_card = 0, fh_n = nn, fh_k = nn, fh_minimal = nn, fh_firstLink = nn, fh_UNDEFINED = nn\<rparr>"

definition fibonacciHeap_Empty :: "fibonacci_heap \<Rightarrow> bool" where
  "fibonacciHeap_Empty H \<longleftrightarrow> fh_card H = 0"

definition fibonacciHeap_Cardinality :: "fibonacci_heap \<Rightarrow> nat" where
  "fibonacciHeap_Cardinality H = fh_card H"

definition fibonacciHeap_IsMember :: "fibonacci_heap \<Rightarrow> nat \<Rightarrow> bool result" where
  "fibonacciHeap_IsMember H w = (if w \<ge> fh_n H then Inl ERRange else Inr (fh_status H ! w \<noteq> NOT_QUEUED))"

definition fibonacciHeap_Key :: "fibonacci_heap \<Rightarrow> nat \<Rightarrow> TFloat result" where
  "fibonacciHeap_Key H w = (if w \<ge> fh_n H \<or> fh_status H ! w = NOT_QUEUED then Inl ERRange else Inr (fh_key H ! w))"

definition fibonacciHeap_Peek :: "fibonacci_heap \<Rightarrow> nat result" where
  "fibonacciHeap_Peek H = (if fh_card H = 0 then Inl ERRejected else Inr (fh_minimal H))"

section \<open>The root list\<close>

definition fib_Push :: "fibonacci_heap \<Rightarrow> nat \<Rightarrow> fibonacci_heap result" where
  "fib_Push H w =
     (if w \<ge> fh_n H \<or> fh_status H ! w \<noteq> ROOT_NODE then Inl ERRejected
      else Inr (H\<lparr>fh_nextLink := (fh_nextLink H)[w := fh_firstLink H], fh_firstLink := w\<rparr>))"

definition fib_minimum :: "fibonacci_heap \<Rightarrow> nat \<Rightarrow> fibonacci_heap" where
  "fib_minimum H w =
     (if fh_minimal H = fh_UNDEFINED H \<or> fh_key H ! w < fh_key H ! fh_minimal H then H\<lparr>fh_minimal := w\<rparr> else H)"

definition fibonacciHeap_Insert :: "fibonacci_heap \<Rightarrow> nat \<Rightarrow> TFloat \<Rightarrow> fibonacci_heap result" where
  "fibonacciHeap_Insert H w alpha =
     (if w \<ge> fh_n H then Inl ERRange
      else if fh_status H ! w \<noteq> NOT_QUEUED then Inl ERRejected
      else rbind (fib_Push (H\<lparr>fh_first := (fh_first H)[w := fh_UNDEFINED H], fh_rank := (fh_rank H)[w := 0],
                     fh_status := (fh_status H)[w := ROOT_NODE], fh_key := (fh_key H)[w := alpha],
                     fh_nextLink := (fh_nextLink H)[w := fh_UNDEFINED H], fh_card := fh_card H + 1\<rparr>) w)
             (\<lambda>H. Inr (fib_minimum H w)))"

section \<open>Linking\<close>

text \<open>
  The root with the larger key, or the first one, becomes the first child of the other. The result
  is the remaining root and the state.
\<close>

definition fib_clear :: "fibonacci_heap \<Rightarrow> nat \<Rightarrow> fibonacci_heap" where
  "fib_clear H v = (if v = fh_bucket H ! (fh_rank H ! v) then H\<lparr>fh_bucket := (fh_bucket H)[fh_rank H ! v := fh_UNDEFINED H]\<rparr> else H)"

definition fib_hang :: "fibonacci_heap \<Rightarrow> nat \<Rightarrow> nat \<Rightarrow> fibonacci_heap" where
  "fib_hang H v w =
     (let x = fh_first H ! w; previous = (fh_previous H)[v := fh_UNDEFINED H]
      in H\<lparr>fh_pred := (fh_pred H)[v := w], fh_status := (fh_status H)[v := UNMARKED_CHILD], fh_first := (fh_first H)[w := v],
           fh_previous := (if x \<noteq> fh_UNDEFINED H then previous[x := v] else previous),
           fh_next := (fh_next H)[v := (if x \<noteq> fh_UNDEFINED H then x else fh_UNDEFINED H)],
           fh_rank := (fh_rank H)[w := fh_rank H ! w + 1]\<rparr>)"

definition fib_join :: "fibonacci_heap \<Rightarrow> nat \<Rightarrow> nat \<Rightarrow> nat \<times> fibonacci_heap" where
  "fib_join H v0 w0 =
     (let (v, w) = (if fh_key H ! v0 < fh_key H ! w0 then (w0, v0) else (v0, w0))
      in (w, fib_hang (fib_clear (fib_clear H v) w) v w))"

partial_function (option) fib_Link :: "fibonacci_heap \<Rightarrow> nat \<Rightarrow> nat \<Rightarrow> fibonacci_heap result option" where
  "fib_Link H v w =
     (if v \<ge> fh_n H then Some (Inl ERRange)
      else if fh_status H ! v \<noteq> ROOT_NODE then Some (Inl ERRejected)
      else if w \<ge> fh_n H then Some (Inl ERRange)
      else if fh_status H ! w \<noteq> ROOT_NODE then Some (Inl ERRejected)
      else if fh_rank H ! v \<ge> fh_k H \<or> fh_rank H ! w \<ge> fh_k H then Some (Inl OutOfBounds)
      else
        let p = fib_join H v w; H1 = snd p; r = fst p; i = fh_rank H1 ! r
        in if i \<ge> fh_k H1 then Some (Inl OutOfBounds)
           else if fh_bucket H1 ! i = fh_UNDEFINED H1 then Some (Inr (H1\<lparr>fh_bucket := (fh_bucket H1)[i := r]\<rparr>))
           else fib_Link H1 r (fh_bucket H1 ! i))"

section \<open>Consolidation\<close>

partial_function (option) fib_consolidate :: "fibonacci_heap \<Rightarrow> nat \<Rightarrow> fibonacci_heap result option" where
  "fib_consolidate H x =
     (if x = fh_UNDEFINED H then Some (Inr H)
      else if fh_status H ! x \<noteq> ROOT_NODE then fib_consolidate H (fh_nextLink H ! x)
      else if fh_rank H ! x \<ge> fh_k H then Some (Inl OutOfBounds)
      else if fh_bucket H ! (fh_rank H ! x) = fh_UNDEFINED H
        then fib_consolidate (H\<lparr>fh_bucket := (fh_bucket H)[fh_rank H ! x := x]\<rparr>) (fh_nextLink H ! x)
      else obind (fib_Link H x (fh_bucket H ! (fh_rank H ! x))) (\<lambda>H1. fib_consolidate H1 (fh_nextLink H1 ! x)))"

text \<open>The second loop takes the items that are no roots out of the list and recomputes the minimum.\<close>

definition fib_unlink :: "fibonacci_heap \<Rightarrow> nat \<Rightarrow> nat \<Rightarrow> fibonacci_heap" where
  "fib_unlink H x y =
     (if y = fh_UNDEFINED H then H\<lparr>fh_firstLink := fh_nextLink H ! x\<rparr>
      else H\<lparr>fh_nextLink := (fh_nextLink H)[y := fh_nextLink H ! x]\<rparr>)"

partial_function (option) fib_sweep :: "fibonacci_heap \<Rightarrow> nat \<Rightarrow> nat \<Rightarrow> fibonacci_heap result option" where
  "fib_sweep H x y =
     (if x = fh_UNDEFINED H then Some (Inr H)
      else if fh_status H ! x \<noteq> ROOT_NODE then fib_sweep (fib_unlink H x y) (fh_nextLink (fib_unlink H x y) ! x) y
      else fib_sweep (fib_minimum H x) (fh_nextLink H ! x) x)"

definition fib_Restore :: "fibonacci_heap \<Rightarrow> fibonacci_heap result option" where
  "fib_Restore H =
     obind (fib_consolidate (H\<lparr>fh_bucket := replicate (fh_k H) (fh_UNDEFINED H), fh_minimal := fh_UNDEFINED H\<rparr>) (fh_firstLink H))
       (\<lambda>H. fib_sweep H (fh_firstLink H) (fh_UNDEFINED H))"

section \<open>Cutting\<close>

definition is_child :: "fibonacci_heap \<Rightarrow> nat \<Rightarrow> bool" where
  "is_child H v \<longleftrightarrow> fh_status H ! v = UNMARKED_CHILD \<or> fh_status H ! v = MARKED_CHILD"

definition fib_detach :: "fibonacci_heap \<Rightarrow> nat \<Rightarrow> fibonacci_heap" where
  "fib_detach H v =
     (let x = fh_pred H ! v; u = fh_previous H ! v; w = fh_next H ! v
      in H\<lparr>fh_first := (if u = fh_UNDEFINED H then (fh_first H)[x := w] else fh_first H),
           fh_next := (if u = fh_UNDEFINED H then fh_next H else (fh_next H)[u := w]),
           fh_previous := (if w \<noteq> fh_UNDEFINED H then (fh_previous H)[w := u] else fh_previous H),
           fh_status := (fh_status H)[v := ROOT_NODE]\<rparr>)"

text \<open>\<open>rank[x]--\<close> is executed after the recursive call.\<close>

definition fib_dec :: "nat \<Rightarrow> fibonacci_heap \<Rightarrow> fibonacci_heap" where
  "fib_dec x H = H\<lparr>fh_rank := (fh_rank H)[x := fh_rank H ! x - 1]\<rparr>"

definition fib_top :: "fibonacci_heap \<Rightarrow> nat \<Rightarrow> fibonacci_heap result" where
  "fib_top H v = rbind (fib_Push (fib_detach H v) v) (\<lambda>H. Inr (fib_minimum H v))"

partial_function (option) fib_Cut :: "fibonacci_heap \<Rightarrow> nat \<Rightarrow> fibonacci_heap result option" where
  "fib_Cut H v =
     (if v \<ge> fh_n H then Some (Inl ERRange)
      else if \<not> is_child H v then Some (Inl ERRejected)
      else obind (Some (fib_top H v)) (\<lambda>H1.
        let x = fh_pred H ! v
        in if fh_status H1 ! x = MARKED_CHILD
           then obind (fib_Cut H1 x) (\<lambda>H2. Some (Inr (fib_dec x H2)))
           else Some (Inr (fib_dec x (if fh_status H1 ! x = UNMARKED_CHILD
                  then H1\<lparr>fh_status := (fh_status H1)[x := MARKED_CHILD]\<rparr> else H1)))))"

text \<open>The loop over the children of an item, with the condition of the caller.\<close>

partial_function (option) fib_cut_children :: "(fibonacci_heap \<Rightarrow> nat \<Rightarrow> bool) \<Rightarrow> fibonacci_heap \<Rightarrow> nat \<Rightarrow> fibonacci_heap result option" where
  "fib_cut_children P H x =
     (if x = fh_UNDEFINED H then Some (Inr H)
      else obind (if P H x then fib_Cut H x else Some (Inr H)) (\<lambda>H1. fib_cut_children P H1 (fh_next H ! x)))"

section \<open>Deletion and change of keys\<close>

definition fibonacciHeap_DeleteItem :: "fibonacci_heap \<Rightarrow> nat \<Rightarrow> fibonacci_heap result option" where
  "fibonacciHeap_DeleteItem H w =
     (if w \<ge> fh_n H \<or> fh_status H ! w = NOT_QUEUED then Some (Inl ERRange)
      else
        obind (fib_cut_children (\<lambda>H x. True) H (fh_first H ! w)) (\<lambda>H1.
        obind (if is_child H1 w then fib_Cut H1 w else Some (Inr H1)) (\<lambda>H2.
          fib_Restore (H2\<lparr>fh_status := (fh_status H2)[w := NOT_QUEUED], fh_card := fh_card H2 - 1\<rparr>))))"

definition fibonacciHeap_Delete :: "fibonacci_heap \<Rightarrow> (nat \<times> fibonacci_heap) result option" where
  "fibonacciHeap_Delete H =
     (if fh_card H = 0 then Some (Inl ERRejected)
      else obind (fibonacciHeap_DeleteItem H (fh_minimal H)) (\<lambda>H1. Some (Inr (fh_minimal H, H1))))"

definition fibonacciHeap_ChangeKey :: "fibonacci_heap \<Rightarrow> nat \<Rightarrow> TFloat \<Rightarrow> fibonacci_heap result option" where
  "fibonacciHeap_ChangeKey H w alpha =
     (if w \<ge> fh_n H \<or> fh_status H ! w = NOT_QUEUED then Some (Inl ERRange)
      else
        let H1 = H\<lparr>fh_key := (fh_key H)[w := alpha]\<rparr>
        in if alpha > fh_key H ! w
           then fib_cut_children (\<lambda>H x. fh_key H ! x < fh_key H ! w) H1 (fh_first H1 ! w)
           else if fh_status H1 ! w \<noteq> ROOT_NODE \<and> fh_status H1 ! w \<noteq> NOT_QUEUED
                   \<and> fh_pred H1 ! w \<noteq> fh_UNDEFINED H1 \<and> fh_key H1 ! (fh_pred H1 ! w) > alpha
                then fib_Cut H1 w else Some (Inr H1))"

partial_function (option) fib_delete_all :: "fibonacci_heap \<Rightarrow> fibonacci_heap result option" where
  "fib_delete_all H =
     (if fibonacciHeap_Empty H then Some (Inr H) else obind (fibonacciHeap_Delete H) (\<lambda>p. fib_delete_all (snd p)))"

definition fibonacciHeap_Init :: "fibonacci_heap \<Rightarrow> fibonacci_heap result option" where
  "fibonacciHeap_Init H =
     (if fh_card H * 100 < fh_n H then fib_delete_all H
      else Some (Inr (H\<lparr>fh_status := replicate (fh_n H) NOT_QUEUED, fh_bucket := replicate (fh_k H) (fh_UNDEFINED H),
             fh_nextLink := replicate (fh_n H) (fh_UNDEFINED H), fh_card := 0, fh_minimal := fh_UNDEFINED H,
             fh_firstLink := fh_UNDEFINED H\<rparr>)))"

declare fib_Link.simps [code] fib_consolidate.simps [code] fib_sweep.simps [code] fib_Cut.simps [code]
  fib_cut_children.simps [code] fib_delete_all.simps [code]

section \<open>Doubly linked lists\<close>

text \<open>
  \<open>dls nx pv p a xs q b\<close>: following \<open>nx\<close> from \<open>a\<close> visits \<open>xs\<close> and arrives at \<open>b\<close>; the predecessors start with \<open>p\<close>,
  and \<open>q\<close> is the last item visited, or \<open>p\<close>.
\<close>

fun dls :: "(nat \<Rightarrow> nat) \<Rightarrow> (nat \<Rightarrow> nat) \<Rightarrow> nat \<Rightarrow> nat \<Rightarrow> nat list \<Rightarrow> nat \<Rightarrow> nat \<Rightarrow> bool" where
  "dls nx pv p a [] q b \<longleftrightarrow> q = p \<and> b = a"
| "dls nx pv p a (x # xs) q b \<longleftrightarrow> a = x \<and> pv x = p \<and> dls nx pv x (nx x) xs q b"

lemma dls_append: "dls nx pv p a (xs @ ys) q b \<longleftrightarrow> (\<exists>r c. dls nx pv p a xs r c \<and> dls nx pv r c ys q b)"
  by (induction xs arbitrary: p a) auto

lemma dls_cong: "(\<And>x. x \<in> set xs \<Longrightarrow> nx' x = nx x \<and> pv' x = pv x) \<Longrightarrow> dls nx' pv' p a xs q b = dls nx pv p a xs q b"
  by (induction xs arbitrary: p a) auto

lemma dls_last: "dls nx pv p a xs q b \<Longrightarrow> q = (if xs = [] then p else last xs)"
  by (induction xs arbitrary: p a) auto

lemma dls_set_end: "dls nx pv p a xs u v \<Longrightarrow> xs \<noteq> [] \<Longrightarrow> distinct xs \<Longrightarrow> dls (nx(u := w)) pv p a xs u w"
proof (induction xs arbitrary: p a)
  case (Cons x xs)
  show ?case
  proof (cases "xs = []")
    case False
    then have "u \<in> set xs" using Cons.prems(1) dls_last [of nx pv x "nx x" xs u v] by auto
    then have "u \<noteq> x" using Cons.prems(3) by auto
    then show ?thesis using Cons False by auto
  qed (use Cons.prems in auto)
qed simp

lemma dls_remove:
  assumes l: "dls nx pv U a (xs @ v # ys) q U" and d: "distinct (xs @ v # ys)" "U \<notin> set (xs @ v # ys)"
    and nx': "nx' = (if pv v = U then nx else nx(pv v := nx v))"
    and pv': "pv' = (if nx v = U then pv else pv(nx v := pv v))"
  shows "\<exists>q. dls nx' pv' U (if pv v = U then nx v else a) (xs @ ys) q U"
proof -
  let ?u = "pv v" and ?w = "nx v"
  have x: "dls nx pv U a xs ?u v" and y: "dls nx pv v ?w ys q U" using l by (auto simp: dls_append)
  have u: "?u = (if xs = [] then U else last xs)" by (rule dls_last [OF x])
  have w: "?w = (case ys of [] \<Rightarrow> U | z # zs \<Rightarrow> z)" using y by (cases ys) auto
  have wx: "?w \<notin> set xs" using w d by (cases ys) auto
  have "?u \<noteq> U \<Longrightarrow> ?u \<in> set xs" using u by auto
  then have uy: "?u \<noteq> U \<Longrightarrow> ?u \<notin> set ys" using d by auto
  have "dls nx' pv' U (if ?u = U then ?w else a) xs ?u ?w"
  proof (cases "xs = []")
    case False
    then have uU: "?u \<noteq> U" using u d(2) by auto
    have "dls (nx(?u := ?w)) pv U a xs ?u ?w" by (rule dls_set_end [OF x False]) (use d in simp)
    then have "dls nx' pv' U a xs ?u ?w" unfolding nx' pv' using uU wx by (subst dls_cong [where nx = "nx(?u := ?w)" and pv = pv]) auto
    then show ?thesis using uU by simp
  qed (use u in simp)
  moreover have "\<exists>q. dls nx' pv' ?u ?w ys q U"
  proof (cases ys)
    case (Cons z zs)
    then have z: "?w = z" "dls nx pv z (nx z) zs q U" "z \<noteq> U" using y w d by auto
    have "nx' z = nx z" "pv' z = ?u" using z uy Cons by (auto simp: nx' pv')
    moreover have "dls nx' pv' z (nx z) zs q U"
      using z(2) by (subst dls_cong [where nx = nx and pv = pv]) (use uy d(1) Cons z(1) in \<open>auto simp: nx' pv'\<close>)
    ultimately show ?thesis using Cons z(1) by auto
  qed (use w in simp)
  ultimately show ?thesis unfolding dls_append by blast
qed

section \<open>The forest\<close>

definition mems :: "fibonacci_heap \<Rightarrow> nat set" where
  "mems H = {x. x < fh_n H \<and> fh_status H ! x \<noteq> NOT_QUEUED}"

definition roots :: "fibonacci_heap \<Rightarrow> nat set" where
  "roots H = {x. x < fh_n H \<and> fh_status H ! x = ROOT_NODE}"

definition par :: "(nat \<Rightarrow> nat list) \<Rightarrow> (nat \<times> nat) set" where
  "par ch = {(x, c). c \<in> set (ch x)}"

definition fib_shape :: "fibonacci_heap \<Rightarrow> bool" where
  "fib_shape H \<longleftrightarrow> length (fh_pred H) = fh_n H \<and> length (fh_first H) = fh_n H \<and> length (fh_next H) = fh_n H
     \<and> length (fh_previous H) = fh_n H \<and> length (fh_rank H) = fh_n H \<and> length (fh_status H) = fh_n H
     \<and> length (fh_bucket H) = fh_n H \<and> length (fh_nextLink H) = fh_n H \<and> length (fh_key H) = fh_n H
     \<and> fh_k H = fh_n H \<and> fh_UNDEFINED H = fh_n H"

text \<open>\<open>ch x\<close> are the children of \<open>x\<close> in the order of their list.\<close>

definition forest :: "fibonacci_heap \<Rightarrow> (nat \<Rightarrow> nat list) \<Rightarrow> bool" where
  "forest H ch \<longleftrightarrow> fib_shape H
     \<and> (\<forall>x \<in> mems H. \<exists>q. dls ((!) (fh_next H)) ((!) (fh_previous H)) (fh_n H) (fh_first H ! x) (ch x) q (fh_n H))
     \<and> (\<forall>x. distinct (ch x)) \<and> (\<forall>x c. c \<in> set (ch x) \<longleftrightarrow> c < fh_n H \<and> is_child H c \<and> fh_pred H ! c = x)
     \<and> (\<forall>c < fh_n H. is_child H c \<longrightarrow> fh_pred H ! c \<in> mems H) \<and> acyclic (par ch)"

lemma forestD:
  assumes "forest H ch"
  shows "fib_shape H" "x \<in> mems H \<Longrightarrow> \<exists>q. dls ((!) (fh_next H)) ((!) (fh_previous H)) (fh_n H) (fh_first H ! x) (ch x) q (fh_n H)"
    "distinct (ch x)" "c \<in> set (ch x) \<longleftrightarrow> c < fh_n H \<and> is_child H c \<and> fh_pred H ! c = x"
    "c < fh_n H \<Longrightarrow> is_child H c \<Longrightarrow> fh_pred H ! c \<in> mems H" "acyclic (par ch)"
  using assms unfolding forest_def by blast+

lemma fib_shapeD:
  assumes "fib_shape H"
  shows "length (fh_pred H) = fh_n H" "length (fh_first H) = fh_n H" "length (fh_next H) = fh_n H"
     "length (fh_previous H) = fh_n H" "length (fh_rank H) = fh_n H" "length (fh_status H) = fh_n H"
     "length (fh_bucket H) = fh_n H" "length (fh_nextLink H) = fh_n H" "length (fh_key H) = fh_n H"
     "fh_k H = fh_n H" "fh_UNDEFINED H = fh_n H"
  using assms by (simp_all add: fib_shape_def)

lemma status_cases: "x \<in> mems H \<longleftrightarrow> x < fh_n H \<and> (is_child H x \<or> x \<in> roots H)"
  by (cases "fh_status H ! x") (auto simp: mems_def roots_def is_child_def)

lemma child_not_root: "is_child H x \<Longrightarrow> x \<notin> roots H"
  by (auto simp: is_child_def roots_def)

lemma forest_wf: "forest H ch \<Longrightarrow> wf (par ch)"
proof (rule finite_acyclic_wf)
  assume f: "forest H ch"
  note d = forestD [OF f]
  have "par ch \<subseteq> {..<fh_n H} \<times> {..<fh_n H}" using d(4,5) by (auto simp: par_def mems_def)
  then show "finite (par ch)" by (rule finite_subset) simp
qed (rule forestD(6))

lemma filter_neq [simp]: "v \<notin> set xs \<Longrightarrow> filter (\<lambda>c. c \<noteq> v) xs = xs"
  by (induction xs) auto

lemma par_filter: "par (\<lambda>y. filter P (ch y)) \<subseteq> par ch"
  by (auto simp: par_def)

lemma detach_forest:
  assumes f: "forest H ch" and v: "v < fh_n H" "is_child H v"
  shows "forest (fib_detach H v) (\<lambda>y. filter (\<lambda>c. c \<noteq> v) (ch y))"
proof -
  note d = forestD [OF f] and s = fib_shapeD [OF forestD(1) [OF f]]
  let ?x = "fh_pred H ! v" and ?u = "fh_previous H ! v" and ?w = "fh_next H ! v" and ?n = "fh_n H" and ?D = "fib_detach H v"
  have x: "?x \<in> mems H" "?x < ?n" using d(5) [OF v] by (auto simp: mems_def)
  obtain xs ys where ch: "ch ?x = xs @ v # ys" using split_list [of v "ch ?x"] d(4) [of v ?x] v by auto
  obtain q where l: "dls ((!) (fh_next H)) ((!) (fh_previous H)) ?n (fh_first H ! ?x) (xs @ v # ys) q ?n"
    using d(2) [OF x(1)] ch by auto
  have dis: "distinct (xs @ v # ys)" "?n \<notin> set (xs @ v # ys)" using d(3) [of ?x] d(4) [of ?n ?x] ch by auto
  have lt: "c < ?n" if "c \<in> set (ch y)" for c y using d(4) that by blast
  have parts: "dls ((!) (fh_next H)) ((!) (fh_previous H)) ?n (fh_first H ! ?x) xs ?u v" "dls ((!) (fh_next H)) ((!) (fh_previous H)) v ?w ys q ?n"
    using l by (auto simp: dls_append)
  have u: "?u = ?n \<or> ?u \<in> set (ch ?x)" using dls_last [OF parts(1)] ch by auto
  have w: "?w = ?n \<or> ?w \<in> set (ch ?x)" using parts(2) ch by (cases ys) auto
  have nx: "(!) (fh_next ?D) = (if ?u = ?n then (!) (fh_next H) else ((!) (fh_next H))(?u := ?w))"
    using u lt [of ?u ?x] s by (auto simp: fib_detach_def Let_def nth_list_upd)
  have pv: "(!) (fh_previous ?D) = (if ?w = ?n then (!) (fh_previous H) else ((!) (fh_previous H))(?w := ?u))"
    using w lt [of ?w ?x] s by (auto simp: fib_detach_def Let_def nth_list_upd)
  have fi: "fh_first ?D ! y = (if y = ?x \<and> ?u = ?n then ?w else fh_first H ! y)" for y
    using x(2) s by (simp add: fib_detach_def Let_def nth_list_update)
  have st: "fh_status ?D ! c = (if c = v then ROOT_NODE else fh_status H ! c)" for c
    using v(1) s by (simp add: fib_detach_def Let_def nth_list_update)
  have n: "fh_n ?D = ?n" "fh_pred ?D = fh_pred H" by (simp_all add: fib_detach_def Let_def)
  have mem: "mems ?D = mems H" using v st n by (auto simp: mems_def is_child_def)
  have child: "is_child ?D c \<longleftrightarrow> c \<noteq> v \<and> is_child H c" for c by (simp add: is_child_def st)
  show ?thesis unfolding forest_def n mem
  proof (intro conjI ballI allI impI)
    show "fib_shape ?D" using s by (simp add: fib_shape_def fib_detach_def Let_def)
    fix y assume y: "y \<in> mems H"
    show "\<exists>q. dls ((!) (fh_next ?D)) ((!) (fh_previous ?D)) ?n (fh_first ?D ! y) (filter (\<lambda>c. c \<noteq> v) (ch y)) q ?n"
    proof (cases "y = ?x")
      case True
      have "filter (\<lambda>c. c \<noteq> v) (ch y) = xs @ ys" using dis(1) True ch by simp
      then show ?thesis using dls_remove [OF l dis nx pv] fi [of y] True by (simp split: if_splits)
    next
      case False
      have dj: "c \<notin> set (ch ?x)" if "c \<in> set (ch y)" for c using that d(4) [of c] False by auto
      have "v \<notin> set (ch y)" using d(4) [of v y] False by auto
      then have "filter (\<lambda>c. c \<noteq> v) (ch y) = ch y" by simp
      moreover have "dls ((!) (fh_next ?D)) ((!) (fh_previous ?D)) ?n (fh_first ?D ! y) (ch y) q ?n
        = dls ((!) (fh_next H)) ((!) (fh_previous H)) ?n (fh_first H ! y) (ch y) q ?n" for q
        unfolding nx pv fi using dj u w lt False by (subst dls_cong [where nx = "(!) (fh_next H)" and pv = "(!) (fh_previous H)"]) auto
      ultimately show ?thesis using d(2) [OF y] by simp
    qed
  next
    fix y c
    show "c \<in> set (filter (\<lambda>c. c \<noteq> v) (ch y)) \<longleftrightarrow> c < ?n \<and> is_child ?D c \<and> fh_pred H ! c = y" using d(4) child by auto
    show "distinct (filter (\<lambda>c. c \<noteq> v) (ch y))" using d(3) by simp
    show "fh_pred H ! c \<in> mems H" if "c < ?n" "is_child ?D c" using that d(5) child by blast
    show "acyclic (par (\<lambda>y. filter (\<lambda>c. c \<noteq> v) (ch y)))" using d(6) par_filter acyclic_subset by blast
  qed
qed

lemma forest_same:
  assumes "forest H ch" "fib_shape H'" "fh_next H' = fh_next H" "fh_previous H' = fh_previous H" "fh_first H' = fh_first H"
    "fh_pred H' = fh_pred H" "fh_n H' = fh_n H" "mems H' = mems H" "\<And>c. is_child H' c = is_child H c"
  shows "forest H' ch"
  using assms by (simp add: forest_def)

section \<open>The list of roots\<close>

definition links :: "fibonacci_heap \<Rightarrow> nat list \<Rightarrow> bool" where
  "links H rs \<longleftrightarrow> chain ((!) (fh_nextLink H)) (fh_firstLink H) rs (fh_n H) \<and> distinct rs"

lemma Push_links:
  assumes "fib_shape H" "links H rs" "w < fh_n H" "w \<notin> set rs"
  shows "links (H\<lparr>fh_nextLink := (fh_nextLink H)[w := fh_firstLink H], fh_firstLink := w\<rparr>) (w # rs)"
  using assms fib_shapeD(8) [OF assms(1)] by (simp add: links_def nth_list_upd chain_upd_notin)

lemma minimum_simps [simp]:
  "fh_pred (fib_minimum H w) = fh_pred H" "fh_first (fib_minimum H w) = fh_first H" "fh_next (fib_minimum H w) = fh_next H"
  "fh_previous (fib_minimum H w) = fh_previous H" "fh_rank (fib_minimum H w) = fh_rank H" "fh_status (fib_minimum H w) = fh_status H"
  "fh_bucket (fib_minimum H w) = fh_bucket H" "fh_nextLink (fib_minimum H w) = fh_nextLink H" "fh_key (fib_minimum H w) = fh_key H"
  "fh_card (fib_minimum H w) = fh_card H" "fh_n (fib_minimum H w) = fh_n H" "fh_k (fib_minimum H w) = fh_k H"
  "fh_firstLink (fib_minimum H w) = fh_firstLink H" "fh_UNDEFINED (fib_minimum H w) = fh_UNDEFINED H"
  by (simp_all add: fib_minimum_def)

lemma detach_simps [simp]:
  "fh_pred (fib_detach H v) = fh_pred H" "fh_rank (fib_detach H v) = fh_rank H" "fh_bucket (fib_detach H v) = fh_bucket H"
  "fh_nextLink (fib_detach H v) = fh_nextLink H" "fh_key (fib_detach H v) = fh_key H" "fh_card (fib_detach H v) = fh_card H"
  "fh_n (fib_detach H v) = fh_n H" "fh_k (fib_detach H v) = fh_k H" "fh_firstLink (fib_detach H v) = fh_firstLink H"
  "fh_minimal (fib_detach H v) = fh_minimal H" "fh_UNDEFINED (fib_detach H v) = fh_UNDEFINED H"
  "fh_status (fib_detach H v) = (fh_status H)[v := ROOT_NODE]"
  by (simp_all add: fib_detach_def Let_def)

text \<open>What \<open>Cut\<close> does before the recursive call.\<close>

lemma top_ok:
  assumes f: "forest H ch" and v: "v < fh_n H" "is_child H v" and rs: "links H rs" "set rs = roots H"
  obtains H1 where "fib_top H v = Inr H1" "forest H1 (\<lambda>y. filter (\<lambda>c. c \<noteq> v) (ch y))" "mems H1 = mems H"
    "roots H1 = insert v (roots H)" "links H1 (v # rs)" "fh_key H1 = fh_key H" "fh_n H1 = fh_n H" "fh_card H1 = fh_card H" "fh_rank H1 = fh_rank H"
    "fh_status H1 = (fh_status H)[v := ROOT_NODE]"
    "fh_minimal H \<in> roots H \<Longrightarrow> fh_minimal H1 \<in> {fh_minimal H, v} \<and> fh_key H ! fh_minimal H1 \<le> fh_key H ! fh_minimal H \<and> fh_key H ! fh_minimal H1 \<le> fh_key H ! v"
proof -
  let ?D = "fib_detach H v" and ?ch = "\<lambda>y. filter (\<lambda>c. c \<noteq> v) (ch y)"
  have fD: "forest ?D ?ch" by (rule detach_forest [OF f v])
  note s = fib_shapeD [OF forestD(1) [OF f]]
  have vr: "v \<notin> set rs" using rs(2) child_not_root [OF v(2)] by simp
  have mem: "mems ?D = mems H" using v s(6) by (auto simp: mems_def is_child_def nth_list_update)
  have roots: "roots ?D = insert v (roots H)" using v s(6) by (auto simp: roots_def is_child_def nth_list_update)
  let ?P = "?D\<lparr>fh_nextLink := (fh_nextLink ?D)[v := fh_firstLink ?D], fh_firstLink := v\<rparr>"
  have push: "fib_Push ?D v = Inr ?P" using v s(6) by (simp add: fib_Push_def)
  have lD: "links ?D rs" using rs(1) by (simp add: links_def)
  have lP: "links ?P (v # rs)" by (rule Push_links [OF forestD(1) [OF fD] lD]) (use v vr in simp_all)
  let ?M = "fib_minimum ?P v"
  have fM: "forest ?M ?ch"
    by (rule forest_same [OF fD]) (use forestD(1) [OF fD] in \<open>simp_all add: fib_shape_def mems_def is_child_def\<close>)
  show thesis
  proof (rule that [of ?M])
    show "fib_top H v = Inr ?M" using push by (simp add: fib_top_def)
    show "forest ?M ?ch" by (rule fM)
    show "mems ?M = mems H" using mem by (simp add: mems_def)
    show "roots ?M = insert v (roots H)" using roots by (simp add: roots_def)
    show "links ?M (v # rs)" using lP by (simp add: links_def)
    show "fh_minimal ?M \<in> {fh_minimal H, v} \<and> fh_key H ! fh_minimal ?M \<le> fh_key H ! fh_minimal H \<and> fh_key H ! fh_minimal ?M \<le> fh_key H ! v"
      if "fh_minimal H \<in> roots H"
      using that s(11) by (auto simp: fib_minimum_def roots_def)
  qed simp_all
qed

section \<open>Cuts\<close>

text \<open>The item \<open>v\<close> and some of its ancestors, \<open>C\<close>, become roots.\<close>

definition cut_post :: "fibonacci_heap \<Rightarrow> (nat \<Rightarrow> nat list) \<Rightarrow> nat \<Rightarrow> fibonacci_heap \<Rightarrow> nat set \<Rightarrow> bool" where
  "cut_post H ch v H' C \<longleftrightarrow> forest H' (\<lambda>y. filter (\<lambda>c. c \<notin> C) (ch y)) \<and> v \<in> C \<and> (\<forall>c \<in> C. (c, v) \<in> (par ch)\<^sup>*)
     \<and> mems H' = mems H \<and> roots H' = roots H \<union> C \<and> fh_key H' = fh_key H \<and> fh_n H' = fh_n H \<and> fh_card H' = fh_card H
     \<and> (\<exists>rs. links H' rs \<and> set rs = roots H')
     \<and> (\<forall>y. int (fh_rank H' ! y) - int (length (filter (\<lambda>c. c \<notin> C) (ch y))) = int (fh_rank H ! y) - int (length (ch y)))
     \<and> (fh_minimal H \<in> roots H \<longrightarrow> fh_minimal H' \<in> roots H' \<and> fh_key H ! fh_minimal H' \<le> fh_key H ! fh_minimal H
          \<and> (\<forall>c \<in> C. fh_key H ! fh_minimal H' \<le> fh_key H ! c))"

lemma dec_simps [simp]:
  "fh_pred (fib_dec x H) = fh_pred H" "fh_first (fib_dec x H) = fh_first H" "fh_next (fib_dec x H) = fh_next H"
  "fh_previous (fib_dec x H) = fh_previous H" "fh_status (fib_dec x H) = fh_status H" "fh_bucket (fib_dec x H) = fh_bucket H"
  "fh_nextLink (fib_dec x H) = fh_nextLink H" "fh_key (fib_dec x H) = fh_key H" "fh_card (fib_dec x H) = fh_card H"
  "fh_n (fib_dec x H) = fh_n H" "fh_k (fib_dec x H) = fh_k H" "fh_firstLink (fib_dec x H) = fh_firstLink H"
  "fh_minimal (fib_dec x H) = fh_minimal H" "fh_UNDEFINED (fib_dec x H) = fh_UNDEFINED H"
  "fh_rank (fib_dec x H) = (fh_rank H)[x := fh_rank H ! x - 1]"
  by (simp_all add: fib_dec_def)

lemma dec_same: "mems (fib_dec x H) = mems H" "roots (fib_dec x H) = roots H" "links (fib_dec x H) rs = links H rs" "forest (fib_dec x H) ch = forest H ch"
  by (simp_all add: mems_def roots_def links_def forest_def fib_shape_def is_child_def)

lemma Cut_ok:
  assumes wf: "wf R"
  shows "forest H ch \<Longrightarrow> par ch \<subseteq> R \<Longrightarrow> v < fh_n H \<Longrightarrow> is_child H v \<Longrightarrow> links H rs \<Longrightarrow> set rs = roots H \<Longrightarrow>
    (\<And>y. y \<in> mems H \<Longrightarrow> length (ch y) \<le> fh_rank H ! y) \<Longrightarrow> \<exists>H' C. fib_Cut H v = Some (Inr H') \<and> cut_post H ch v H' C"
proof (induction v arbitrary: H ch rs rule: wf_induct_rule [OF wf])
  case (1 v)
  note f = 1(2) and v = 1(4,5) and rs = 1(6,7)
  note d = forestD [OF f] and s = fib_shapeD [OF forestD(1) [OF f]]
  let ?x = "fh_pred H ! v" and ?ch = "\<lambda>y. filter (\<lambda>c. c \<noteq> v) (ch y)"
  obtain H1 where H1: "fib_top H v = Inr H1" "forest H1 ?ch" "mems H1 = mems H"
    "roots H1 = insert v (roots H)" "links H1 (v # rs)" "fh_key H1 = fh_key H" "fh_n H1 = fh_n H" "fh_card H1 = fh_card H" "fh_rank H1 = fh_rank H"
    "fh_status H1 = (fh_status H)[v := ROOT_NODE]"
    "fh_minimal H \<in> roots H \<Longrightarrow> fh_minimal H1 \<in> {fh_minimal H, v} \<and> fh_key H ! fh_minimal H1 \<le> fh_key H ! fh_minimal H \<and> fh_key H ! fh_minimal H1 \<le> fh_key H ! v"
    using top_ok [OF f v rs] by metis
  have x: "?x \<in> mems H" "?x < fh_n H" "v \<in> set (ch ?x)" using d(5) [OF v] d(4) [of v ?x] v by (auto simp: mems_def)
  then have xv: "(?x, v) \<in> par ch" by (simp add: par_def)
  have "?x \<noteq> v" using xv d(6) by (metis acyclic_def r_into_trancl)
  have len: "Suc (length (?ch ?x)) = length (ch ?x)" "y \<noteq> ?x \<Longrightarrow> ?ch y = ch y" for y
  proof -
    obtain xs ys where "ch ?x = xs @ v # ys" using split_list [OF x(3)] by blast
    then show "Suc (length (?ch ?x)) = length (ch ?x)" using d(3) [of ?x] by simp
    show "?ch y = ch y" if "y \<noteq> ?x" using d(4) [of v y] that by simp
  qed
  have rk: "length (ch ?x) \<le> fh_rank H ! ?x" by (rule 1(8) [OF x(1)])
  show ?case
  proof (cases "fh_status H1 ! ?x = MARKED_CHILD")
    case True
    have pre: "par ?ch \<subseteq> R" "?x < fh_n H1" "is_child H1 ?x" "set (v # rs) = roots H1"
      using par_filter [of "\<lambda>c. c \<noteq> v" ch] 1(3) x(2) H1(4,7) True rs(2) by (auto simp: is_child_def)
    have ge: "length (?ch y) \<le> fh_rank H1 ! y" if "y \<in> mems H1" for y
      using order_trans [OF length_filter_le 1(8)] that H1(3,9) by simp
    obtain H2 C where H2: "fib_Cut H1 ?x = Some (Inr H2)" "cut_post H1 ?ch ?x H2 C"
      using 1(1) [OF subsetD [OF 1(3) xv] H1(2) pre(1-3) H1(5) pre(4) ge] by blast
    note post = H2(2) [unfolded cut_post_def]
    have pm: "fh_minimal H1 \<in> roots H1 \<longrightarrow> fh_minimal H2 \<in> roots H2 \<and> fh_key H1 ! fh_minimal H2 \<le> fh_key H1 ! fh_minimal H1
          \<and> (\<forall>c \<in> C. fh_key H1 ! fh_minimal H2 \<le> fh_key H1 ! c)" using post by blast
    have pr: "\<forall>y. int (fh_rank H2 ! y) - int (length (filter (\<lambda>c. c \<notin> C) (?ch y))) = int (fh_rank H1 ! y) - int (length (?ch y))"
      using post by blast
    have "fib_Cut H v = Some (Inr (fib_dec ?x H2))"
      using v H1(1) True H2(1) by (subst fib_Cut.simps) simp
    moreover have "cut_post H ch v (fib_dec ?x H2) (insert v C)"
      unfolding cut_post_def dec_same
    proof (intro conjI)
      have eq: "filter (\<lambda>c. c \<notin> insert v C) (ch y) = filter (\<lambda>c. c \<notin> C) (?ch y)" for y by (auto intro: filter_cong)
      show "forest H2 (\<lambda>y. filter (\<lambda>c. c \<notin> insert v C) (ch y))" unfolding eq using post by blast
      have "(c, v) \<in> (par ch)\<^sup>*" if "c \<in> C" for c
      proof -
        have "(c, ?x) \<in> (par ?ch)\<^sup>*" using post that by blast
        then have "(c, ?x) \<in> (par ch)\<^sup>*" using rtrancl_mono [OF par_filter] by blast
        then show ?thesis using xv by (rule rtrancl_into_rtrancl)
      qed
      then show "\<forall>c \<in> insert v C. (c, v) \<in> (par ch)\<^sup>*" by simp
      show "mems H2 = mems H" "roots H2 = roots H \<union> insert v C" "\<exists>rs. links H2 rs \<and> set rs = roots H2" using post H1(3,4) by auto
      show "fh_key (fib_dec ?x H2) = fh_key H" "fh_n (fib_dec ?x H2) = fh_n H" "fh_card (fib_dec ?x H2) = fh_card H" using post H1(6-8) by simp_all
      have l2: "length (fh_rank H2) = fh_n H" using post forestD(1) fib_shapeD(5) H1(7) by metis
      have rank: "int (fh_rank H2 ! y) - int (length (filter (\<lambda>c. c \<notin> C) (?ch y))) = int (fh_rank H ! y) - int (length (?ch y))" for y
        using pr H1(9) by simp
      show "\<forall>y. int (fh_rank (fib_dec ?x H2) ! y) - int (length (filter (\<lambda>c. c \<notin> insert v C) (ch y))) = int (fh_rank H ! y) - int (length (ch y))"
      proof
        fix y
        show "int (fh_rank (fib_dec ?x H2) ! y) - int (length (filter (\<lambda>c. c \<notin> insert v C) (ch y))) = int (fh_rank H ! y) - int (length (ch y))"
          unfolding eq using rank [of y] len(1) len(2) [of y] rk l2 x(2) by (cases "y = ?x") (simp_all add: of_nat_diff)
      qed
      show "fh_minimal H \<in> roots H \<longrightarrow> fh_minimal (fib_dec ?x H2) \<in> roots H2 \<and> fh_key H ! fh_minimal (fib_dec ?x H2) \<le> fh_key H ! fh_minimal H
          \<and> (\<forall>c \<in> insert v C. fh_key H ! fh_minimal (fib_dec ?x H2) \<le> fh_key H ! c)"
      proof
        assume "fh_minimal H \<in> roots H"
        note m = H1(11) [OF this]
        then have "fh_minimal H1 \<in> roots H1" unfolding H1(4) using \<open>fh_minimal H \<in> roots H\<close> by (metis insert_iff singletonD)
        then have m2: "fh_minimal H2 \<in> roots H2" "fh_key H ! fh_minimal H2 \<le> fh_key H ! fh_minimal H1" "\<forall>c \<in> C. fh_key H ! fh_minimal H2 \<le> fh_key H ! c"
          using pm H1(6) by simp_all
        have "fh_key H ! fh_minimal H2 \<le> fh_key H ! fh_minimal H" "fh_key H ! fh_minimal H2 \<le> fh_key H ! v" using m m2(2) by linarith+
        then show "fh_minimal (fib_dec ?x H2) \<in> roots H2 \<and> fh_key H ! fh_minimal (fib_dec ?x H2) \<le> fh_key H ! fh_minimal H
          \<and> (\<forall>c \<in> insert v C. fh_key H ! fh_minimal (fib_dec ?x H2) \<le> fh_key H ! c)"
          using m2(1,3) by simp
      qed
    qed simp
    ultimately show ?thesis by blast
  next
    case False
    let ?M = "if fh_status H1 ! ?x = UNMARKED_CHILD then H1\<lparr>fh_status := (fh_status H1)[?x := MARKED_CHILD]\<rparr> else H1"
    have same: "mems ?M = mems H1" "roots ?M = roots H1" "is_child ?M c = is_child H1 c" for c
      using fib_shapeD(6) [OF forestD(1) [OF H1(2)]] x(2) H1(7) by (auto simp: mems_def roots_def is_child_def nth_list_update)
    have "forest ?M ?ch" by (rule forest_same [OF H1(2)]) (use same forestD(1) [OF H1(2)] in \<open>auto simp: fib_shape_def\<close>)
    moreover have "fib_Cut H v = Some (Inr (fib_dec ?x ?M))"
      using v H1(1) False by (subst fib_Cut.simps) (simp add: Let_def)
    moreover have "links ?M (v # rs)" using H1(5) by (simp add: links_def)
    moreover have "\<forall>y. int (fh_rank (fib_dec ?x ?M) ! y) - int (length (?ch y)) = int (fh_rank H ! y) - int (length (ch y))"
    proof
      fix y
      have "length (fh_rank H) = fh_n H" by (rule s(5))
      then show "int (fh_rank (fib_dec ?x ?M) ! y) - int (length (?ch y)) = int (fh_rank H ! y) - int (length (ch y))"
        using len(1) len(2) [of y] rk x(2) H1(9) by (cases "y = ?x") (simp_all add: of_nat_diff)
    qed
    moreover have minM: "fh_minimal ?M = fh_minimal H1" by simp
    moreover have "fh_minimal H \<in> roots H \<Longrightarrow> fh_minimal ?M \<in> roots H1 \<and> fh_key H ! fh_minimal ?M \<le> fh_key H ! fh_minimal H \<and> fh_key H ! fh_minimal ?M \<le> fh_key H ! v"
      using H1(11) unfolding minM H1(4) by (metis insert_iff singletonD)
    ultimately have "cut_post H ch v (fib_dec ?x ?M) {v}"
      using same(1,2) H1(3,4,6-8) rs(2) unfolding cut_post_def dec_same by (auto intro!: exI [of _ "v # rs"])
    then show ?thesis using \<open>fib_Cut H v = Some (Inr (fib_dec ?x ?M))\<close> by blast
  qed
qed

section \<open>Links\<close>

definition ranks :: "fibonacci_heap \<Rightarrow> (nat \<Rightarrow> nat list) \<Rightarrow> bool" where
  "ranks H ch \<longleftrightarrow> (\<forall>x \<in> mems H. fh_rank H ! x = length (ch x))"

definition heap_order :: "fibonacci_heap \<Rightarrow> (nat \<Rightarrow> nat list) \<Rightarrow> bool" where
  "heap_order H ch \<longleftrightarrow> (\<forall>(p, c) \<in> par ch. fh_key H ! p \<le> fh_key H ! c)"

lemma few_children:
  assumes f: "forest H ch" and x: "x \<in> mems H"
  shows "length (ch x) < fh_n H"
proof -
  note d = forestD [OF f]
  have "x \<notin> set (ch x)" using d(6) by (metis CollectI acyclic_def case_prodI par_def r_into_trancl)
  then have "set (ch x) \<subset> {..<fh_n H}" using d(4) x by (auto simp: mems_def)
  then have "card (set (ch x)) < card {..<fh_n H}" by (intro psubset_card_mono) auto
  then show ?thesis using distinct_card [OF d(3) [of x]] by simp
qed

lemma par_cons: "par (ch(w := v # ch w)) = insert (w, v) (par ch)"
  by (auto simp: par_def split: if_splits)

lemma hang_simps [simp]:
  "fh_pred (fib_hang H v w) = (fh_pred H)[v := w]" "fh_first (fib_hang H v w) = (fh_first H)[w := v]"
  "fh_status (fib_hang H v w) = (fh_status H)[v := UNMARKED_CHILD]" "fh_bucket (fib_hang H v w) = fh_bucket H"
  "fh_nextLink (fib_hang H v w) = fh_nextLink H" "fh_key (fib_hang H v w) = fh_key H" "fh_card (fib_hang H v w) = fh_card H"
  "fh_n (fib_hang H v w) = fh_n H" "fh_k (fib_hang H v w) = fh_k H" "fh_firstLink (fib_hang H v w) = fh_firstLink H"
  "fh_minimal (fib_hang H v w) = fh_minimal H" "fh_UNDEFINED (fib_hang H v w) = fh_UNDEFINED H"
  "fh_rank (fib_hang H v w) = (fh_rank H)[w := fh_rank H ! w + 1]"
  "fh_next (fib_hang H v w) = (fh_next H)[v := fh_first H ! w]"
  by (simp_all add: fib_hang_def Let_def)

lemma hang_forest:
  assumes f: "forest H ch" and v: "v \<in> roots H" and w: "w \<in> roots H" and vw: "v \<noteq> w"
  shows "forest (fib_hang H v w) (ch(w := v # ch w))"
proof -
  note d = forestD [OF f] and s = fib_shapeD [OF forestD(1) [OF f]]
  let ?x = "fh_first H ! w" and ?n = "fh_n H" and ?G = "fib_hang H v w"
  let ?nx = "(!) (fh_next H)" and ?pv = "(!) (fh_previous H)"
  have lt: "v < ?n" "w < ?n" "w \<in> mems H" using v w by (auto simp: roots_def mems_def)
  have nc: "\<not> is_child H v" "\<not> is_child H w" using v w child_not_root by blast+
  then have vn: "v \<notin> set (ch y)" for y using d(4) by blast
  obtain q where l: "dls ?nx ?pv ?n ?x (ch w) q ?n" using d(2) [OF lt(3)] by blast
  have x: "?x = ?n \<and> ch w = [] \<or> (\<exists>zs. ch w = ?x # zs)" using l by (cases "ch w") auto
  then have xl: "?x = ?n \<or> ?x < ?n \<and> ?x \<in> set (ch w)" using d(4) [of ?x w] by auto
  then have xv: "?x \<noteq> v" using vn [of w] lt(1) by auto
  have nx: "(!) (fh_next ?G) = ?nx(v := ?x)" using lt(1) s by (simp add: nth_list_upd)
  have pv: "(!) (fh_previous ?G) = (if ?x = ?n then ?pv(v := ?n) else (?pv(v := ?n))(?x := v))"
    using lt(1) xl s by (auto simp: fib_hang_def Let_def nth_list_upd)
  have st: "fh_status ?G ! c = (if c = v then UNMARKED_CHILD else fh_status H ! c)" for c using lt(1) s(6) by (simp add: nth_list_update)
  have pr: "fh_pred ?G ! c = (if c = v then w else fh_pred H ! c)" for c using lt(1) s(1) by (simp add: nth_list_update)
  have fi: "fh_first ?G ! y = (if y = w then v else fh_first H ! y)" for y using lt(2) s(2) by (simp add: nth_list_update)
  have mem: "mems ?G = mems H" using v st by (auto simp: mems_def roots_def)
  have child: "is_child ?G c \<longleftrightarrow> c = v \<or> is_child H c" for c unfolding is_child_def st by simp
  show ?thesis unfolding forest_def mem
  proof (intro conjI ballI allI impI)
    show "fib_shape ?G" using s by (simp add: fib_shape_def fib_hang_def Let_def)
    fix y assume y: "y \<in> mems H"
    show "\<exists>q. dls ((!) (fh_next ?G)) ((!) (fh_previous ?G)) (fh_n ?G) (fh_first ?G ! y) ((ch(w := v # ch w)) y) q (fh_n ?G)"
    proof (cases "y = w")
      case True
      have "\<exists>q. dls ((!) (fh_next ?G)) ((!) (fh_previous ?G)) v ?x (ch w) q ?n"
      proof (cases "ch w")
        case (Cons z zs)
        then have z: "?x = z" "dls ?nx ?pv z (?nx z) zs q ?n" "z \<notin> set zs" "z \<noteq> v" "z \<noteq> ?n" using l d(3) [of w] x xv d(4) [of z w] by auto
        have "dls ((!) (fh_next ?G)) ((!) (fh_previous ?G)) z (?nx z) zs q ?n"
          unfolding nx pv using z vn [of w] Cons by (subst dls_cong [where nx = ?nx and pv = ?pv]) auto
        moreover have "(!) (fh_next ?G) z = ?nx z" "(!) (fh_previous ?G) z = v" unfolding nx pv using z by auto
        ultimately show ?thesis using Cons z(1) by auto
      qed (use x in simp)
      moreover have "(!) (fh_previous ?G) v = ?n" unfolding pv using xv by simp
      ultimately show ?thesis using True fi [of y] lt(1) s(3) by simp
    next
      case False
      have "?x \<notin> set (ch y)" using xl False d(4) [of ?x y] d(4) [of ?x w] by (metis less_irrefl)
      then have "dls ((!) (fh_next ?G)) ((!) (fh_previous ?G)) ?n (fh_first H ! y) (ch y) q ?n = dls ?nx ?pv ?n (fh_first H ! y) (ch y) q ?n" for q
        unfolding nx pv using vn [of y] by (subst dls_cong [where nx = ?nx and pv = ?pv]) auto
      then show ?thesis using d(2) [OF y] False fi [of y] by simp
    qed
  next
    fix y c
    show "distinct ((ch(w := v # ch w)) y)" using d(3) vn by auto
    show "c \<in> set ((ch(w := v # ch w)) y) \<longleftrightarrow> c < fh_n ?G \<and> is_child ?G c \<and> fh_pred ?G ! c = y"
      using d(4) [of c] vn lt nc child [of c] pr [of c] by auto
    show "fh_pred ?G ! c \<in> mems H" if "c < fh_n ?G" "is_child ?G c" using that child [of c] pr [of c] lt d(5) by auto
  next
    have "(v, w) \<notin> (par ch)\<^sup>*"
    proof
      assume "(v, w) \<in> (par ch)\<^sup>*"
      then obtain z where "(z, w) \<in> par ch" using vw by (metis rtranclE)
      then show False using d(4) nc(2) by (auto simp: par_def)
    qed
    then show "acyclic (par (ch(w := v # ch w)))" unfolding par_cons using d(6) by (simp add: acyclic_insert)
  qed
qed

text \<open>The buckets hold roots of their rank, out of a set \<open>X\<close> of items seen.\<close>

definition buckets :: "fibonacci_heap \<Rightarrow> nat set \<Rightarrow> bool" where
  "buckets H X \<longleftrightarrow> (\<forall>i < fh_n H. fh_bucket H ! i = fh_n H
     \<or> fh_bucket H ! i \<in> roots H \<inter> X \<and> fh_rank H ! (fh_bucket H ! i) = i)"

text \<open>The part of the state that consolidation keeps.\<close>

definition frame :: "fibonacci_heap \<Rightarrow> fibonacci_heap \<Rightarrow> bool" where
  "frame H H' \<longleftrightarrow> mems H' = mems H \<and> fh_key H' = fh_key H \<and> fh_n H' = fh_n H \<and> fh_card H' = fh_card H
     \<and> fh_nextLink H' = fh_nextLink H \<and> fh_firstLink H' = fh_firstLink H \<and> fh_minimal H' = fh_minimal H \<and> roots H' \<subseteq> roots H"

lemma frame_refl: "frame H H"
  by (simp add: frame_def)

lemma frame_trans: "frame H H1 \<Longrightarrow> frame H1 H2 \<Longrightarrow> frame H H2"
  unfolding frame_def by auto

definition fib_ok :: "fibonacci_heap \<Rightarrow> (nat \<Rightarrow> nat list) \<Rightarrow> bool" where
  "fib_ok H ch \<longleftrightarrow> forest H ch \<and> ranks H ch \<and> heap_order H ch"

lemma fib_ok_shape: "fib_ok H ch \<Longrightarrow> fib_shape H"
  unfolding fib_ok_def using forestD(1) by blast

lemma clear_simps [simp]:
  "fh_pred (fib_clear H v) = fh_pred H" "fh_first (fib_clear H v) = fh_first H" "fh_next (fib_clear H v) = fh_next H"
  "fh_previous (fib_clear H v) = fh_previous H" "fh_rank (fib_clear H v) = fh_rank H" "fh_status (fib_clear H v) = fh_status H"
  "fh_nextLink (fib_clear H v) = fh_nextLink H" "fh_key (fib_clear H v) = fh_key H" "fh_card (fib_clear H v) = fh_card H"
  "fh_n (fib_clear H v) = fh_n H" "fh_k (fib_clear H v) = fh_k H" "fh_firstLink (fib_clear H v) = fh_firstLink H"
  "fh_minimal (fib_clear H v) = fh_minimal H" "fh_UNDEFINED (fib_clear H v) = fh_UNDEFINED H"
  "length (fh_bucket (fib_clear H v)) = length (fh_bucket H)"
  by (simp_all add: fib_clear_def)

lemma clear_same: "mems (fib_clear H v) = mems H" "roots (fib_clear H v) = roots H" "forest (fib_clear H v) ch = forest H ch"
  by (simp_all add: mems_def roots_def forest_def fib_shape_def is_child_def)

lemma clear_buckets:
  assumes "fib_shape H" "buckets H X"
  shows "buckets (fib_clear H v) (X - {v})"
  unfolding buckets_def clear_simps clear_same
proof (intro allI impI)
  fix i assume i: "i < fh_n H"
  have b: "fh_bucket H ! i = fh_n H \<or> fh_bucket H ! i \<in> roots H \<inter> X \<and> fh_rank H ! (fh_bucket H ! i) = i"
    using assms(2) i by (simp add: buckets_def)
  note s = fib_shapeD [OF assms(1)]
  have n: "fh_n H \<notin> roots H" by (simp add: roots_def)
  show "fh_bucket (fib_clear H v) ! i = fh_n H \<or> fh_bucket (fib_clear H v) ! i \<in> roots H \<inter> (X - {v})
      \<and> fh_rank H ! (fh_bucket (fib_clear H v) ! i) = i"
    using b s(7,11) i n by (cases "fh_rank H ! v = i") (auto simp: fib_clear_def nth_list_update)
qed

lemma join_ok:
  assumes ok: "fib_ok H ch" and v: "v \<in> roots H" and w: "w \<in> roots H" "v \<noteq> w" and rk: "fh_rank H ! v = fh_rank H ! w"
    and b: "buckets H X" "v \<in> X" "w \<in> X"
  obtains r H1 ch1 where "fib_join H v w = (r, H1)" "fib_ok H1 ch1" "frame H H1" "card (roots H1) < card (roots H)"
    "r \<in> roots H1" "r \<in> X" "buckets H1 (X - {r})" "fh_rank H1 ! r < fh_n H"
proof -
  let ?p = "if fh_key H ! v < fh_key H ! w then (w, v) else (v, w)"
  obtain a r where p: "?p = (a, r)" by (cases ?p)
  have ar: "a \<in> roots H" "r \<in> roots H" "a \<noteq> r" "r \<in> X" "fh_key H ! r \<le> fh_key H ! a"
    using p v w b by (auto split: if_splits)
  let ?C = "fib_clear (fib_clear H a) r" and ?ch = "ch(r := a # ch r)"
  let ?G = "fib_hang ?C a r"
  have f: "forest H ch" and rks: "ranks H ch" and ord: "heap_order H ch" using ok by (simp_all add: fib_ok_def)
  note s = fib_shapeD [OF forestD(1) [OF f]]
  have fC: "forest ?C ch" using f by (simp add: clear_same)
  have fG: "forest ?G ?ch" by (rule hang_forest [OF fC]) (use ar in \<open>simp_all add: clear_same\<close>)
  have lt: "a < fh_n H" "r < fh_n H" using ar by (auto simp: roots_def)
  have rank: "fh_rank ?G ! x = (if x = r then fh_rank H ! r + 1 else fh_rank H ! x)" for x using lt s(5) by (simp add: nth_list_update)
  have mem: "mems ?G = mems H" using ar lt s(6) by (auto simp: mems_def roots_def nth_list_update)
  have rt: "roots ?G = roots H - {a}" using lt s(6) by (auto simp: roots_def nth_list_update)
  have bC: "buckets ?C (X - {a} - {r})"
  proof -
    have "fib_shape (fib_clear H a)" using forestD(1) [OF f] by (simp add: fib_shape_def)
    then show ?thesis using clear_buckets [OF _ clear_buckets [OF forestD(1) [OF f] b(1)]] by blast
  qed
  have rG: "ranks ?G ?ch" using rks mem rank by (auto simp: ranks_def)
  show thesis
  proof (rule that [of r ?G ?ch])
    show "fib_join H v w = (r, ?G)" using p by (simp add: fib_join_def)
    have "heap_order ?G ?ch" unfolding heap_order_def par_cons using ord ar(5) by (auto simp: heap_order_def)
    then show "fib_ok ?G ?ch" using fG rG by (simp add: fib_ok_def)
    show "frame H ?G" using mem rt by (auto simp: frame_def)
    have "finite (roots H)" by (simp add: roots_def)
    then show "card (roots ?G) < card (roots H)" unfolding rt using ar(1) by (rule card_Diff1_less)
    show "r \<in> roots ?G" using rt ar by simp
    show "r \<in> X" by (rule ar(4))
    show "buckets ?G (X - {r})"
      unfolding buckets_def
    proof (intro allI impI)
      fix i assume "i < fh_n ?G"
      then have "fh_bucket ?C ! i = fh_n H \<or> fh_bucket ?C ! i \<in> roots H \<inter> (X - {a} - {r}) \<and> fh_rank H ! (fh_bucket ?C ! i) = i"
        using bC by (simp add: buckets_def clear_same)
      then show "fh_bucket ?G ! i = fh_n ?G \<or> fh_bucket ?G ! i \<in> roots ?G \<inter> (X - {r}) \<and> fh_rank ?G ! (fh_bucket ?G ! i) = i"
        unfolding rank rt by auto
    qed
    have "r \<in> mems ?G" using mem ar(2) by (auto simp: mems_def roots_def)
    then have "length (?ch r) < fh_n ?G" "fh_rank ?G ! r = length (?ch r)" using few_children [OF fG] rG unfolding ranks_def by blast+
    then show "fh_rank ?G ! r < fh_n H" by simp
  qed
qed

lemma buckets_mono: "buckets H X \<Longrightarrow> X \<subseteq> Y \<Longrightarrow> buckets H Y"
  unfolding buckets_def by blast

lemma set_bucket_ok:
  assumes ok: "fib_ok H ch" and b: "buckets H X" and x: "x \<in> roots H" "x \<in> X" "fh_rank H ! x < fh_n H"
  shows "fib_ok (H\<lparr>fh_bucket := (fh_bucket H)[fh_rank H ! x := x]\<rparr>) ch" "buckets (H\<lparr>fh_bucket := (fh_bucket H)[fh_rank H ! x := x]\<rparr>) X"
    "frame H (H\<lparr>fh_bucket := (fh_bucket H)[fh_rank H ! x := x]\<rparr>)"
proof -
  let ?B = "H\<lparr>fh_bucket := (fh_bucket H)[fh_rank H ! x := x]\<rparr>"
  have s: "fib_shape H" by (rule fib_ok_shape [OF ok])
  have same: "mems ?B = mems H" "roots ?B = roots H" "is_child ?B c = is_child H c" for c by (simp_all add: mems_def roots_def is_child_def)
  have "forest ?B ch" by (rule forest_same [of H ch]) (use ok s in \<open>simp_all add: fib_ok_def same fib_shape_def\<close>)
  then show "fib_ok ?B ch" using ok same by (simp add: fib_ok_def ranks_def heap_order_def)
  show "frame H ?B" using same by (simp add: frame_def)
  show "buckets ?B X" unfolding buckets_def same(2)
  proof (intro allI impI)
    fix i assume i: "i < fh_n ?B"
    then have "fh_bucket H ! i = fh_n H \<or> fh_bucket H ! i \<in> roots H \<inter> X \<and> fh_rank H ! (fh_bucket H ! i) = i"
      using b by (simp add: buckets_def)
    then show "fh_bucket ?B ! i = fh_n ?B \<or> fh_bucket ?B ! i \<in> roots H \<inter> X \<and> fh_rank ?B ! (fh_bucket ?B ! i) = i"
      using x fib_shapeD(7) [OF s] by (cases "i = fh_rank H ! x") simp_all
  qed
qed

lemma Link_ok:
  "fib_ok H ch \<Longrightarrow> v \<in> roots H \<Longrightarrow> w \<in> roots H \<Longrightarrow> v \<noteq> w \<Longrightarrow> fh_rank H ! v = fh_rank H ! w \<Longrightarrow> fh_rank H ! v < fh_n H \<Longrightarrow>
    buckets H X \<Longrightarrow> v \<in> X \<Longrightarrow> w \<in> X \<Longrightarrow> \<exists>H' ch'. fib_Link H v w = Some (Inr H') \<and> fib_ok H' ch' \<and> frame H H' \<and> buckets H' X"
proof (induction "card (roots H)" arbitrary: H ch v w rule: less_induct)
  case less
  obtain r H1 ch1 where J: "fib_join H v w = (r, H1)" "fib_ok H1 ch1" "frame H H1" "card (roots H1) < card (roots H)"
    "r \<in> roots H1" "r \<in> X" "buckets H1 (X - {r})" "fh_rank H1 ! r < fh_n H"
    using join_ok [OF less.prems(1-5,7-9)] by metis
  have n: "fh_n H1 = fh_n H" using J(3) by (simp add: frame_def)
  have s: "fib_shape H" "fib_shape H1" using fib_ok_shape less.prems(1) J(2) by blast+
  let ?i = "fh_rank H1 ! r"
  have step: "fib_Link H v w = (if fh_bucket H1 ! ?i = fh_n H then Some (Inr (H1\<lparr>fh_bucket := (fh_bucket H1)[?i := r]\<rparr>))
      else fib_Link H1 r (fh_bucket H1 ! ?i))"
    using less.prems(2,3,5,6) J(1,8) n fib_shapeD(10,11) [OF s(1)] fib_shapeD(10,11) [OF s(2)]
    by (subst fib_Link.simps) (simp add: roots_def Let_def)
  have bX: "buckets H1 X" by (rule buckets_mono [OF J(7)]) auto
  show ?case
  proof (cases "fh_bucket H1 ! ?i = fh_n H")
    case True
    have rl: "fh_rank H1 ! r < fh_n H1" using J(8) n by simp
    note B = set_bucket_ok [OF J(2) bX J(5,6) rl]
    show ?thesis unfolding step using True B frame_trans [OF J(3) B(3)] by auto
  next
    case False
    have b: "fh_bucket H1 ! ?i \<in> roots H1 \<inter> (X - {r})" "fh_rank H1 ! (fh_bucket H1 ! ?i) = ?i"
      using J(7,8) n False by (auto simp: buckets_def)
    have "\<exists>H' ch'. fib_Link H1 r (fh_bucket H1 ! ?i) = Some (Inr H') \<and> fib_ok H' ch' \<and> frame H1 H' \<and> buckets H' X"
      by (rule less.hyps [OF J(4,2,5)]) (use b bX J(6,8) n in auto)
    then show ?thesis unfolding step using False frame_trans [OF J(3)] by auto
  qed
qed

section \<open>Restoring\<close>

lemma consolidate_ok:
  "fib_ok H ch \<Longrightarrow> buckets H X \<Longrightarrow> chain ((!) (fh_nextLink H)) x rs (fh_n H) \<Longrightarrow> distinct rs \<Longrightarrow> set rs \<subseteq> {..<fh_n H} \<Longrightarrow> set rs \<inter> X = {} \<Longrightarrow>
    \<exists>H' ch'. fib_consolidate H x = Some (Inr H') \<and> fib_ok H' ch' \<and> frame H H'"
proof (induction rs arbitrary: H ch X x)
  case Nil
  have "fib_consolidate H x = Some (Inr H)" using Nil(3) fib_shapeD(11) [OF fib_ok_shape [OF Nil(1)]] by (subst fib_consolidate.simps) simp
  then show ?case using Nil(1) frame_refl by blast
next
  case (Cons y rs)
  note s = fib_shapeD [OF fib_ok_shape [OF Cons.prems(1)]]
  have x: "x = y" "chain ((!) (fh_nextLink H)) (fh_nextLink H ! x) rs (fh_n H)" "x < fh_n H" "x \<notin> X" "x \<noteq> fh_UNDEFINED H"
    using Cons.prems s(11) by auto
  have rest: "distinct rs" "set rs \<subseteq> {..<fh_n H}" "set rs \<inter> X = {}" "set rs \<inter> insert x X = {}" using Cons.prems x(1) by auto
  show ?case
  proof (cases "x \<in> roots H")
    case False
    then have "fib_consolidate H x = fib_consolidate H (fh_nextLink H ! x)"
      using x by (subst fib_consolidate.simps) (simp add: roots_def)
    then show ?thesis using Cons.IH [OF Cons.prems(1,2) x(2) rest(1-3)] by simp
  next
    case True
    then have st: "fh_status H ! x = ROOT_NODE" "x \<in> mems H" by (auto simp: roots_def mems_def)
    have rk: "fh_rank H ! x < fh_n H"
      using few_children [of H ch x] Cons.prems(1) st(2) by (auto simp: fib_ok_def ranks_def)
    have b: "buckets H (insert x X)" by (rule buckets_mono [OF Cons.prems(2)]) auto
    show ?thesis
    proof (cases "fh_bucket H ! (fh_rank H ! x) = fh_n H")
      case empty: True
      let ?B = "H\<lparr>fh_bucket := (fh_bucket H)[fh_rank H ! x := x]\<rparr>"
      note B = set_bucket_ok [OF Cons.prems(1) b True insertI1 rk]
      have "fib_consolidate H x = fib_consolidate ?B (fh_nextLink H ! x)"
        using x st rk empty s(10,11) by (subst fib_consolidate.simps) simp
      moreover obtain H' ch' where "fib_consolidate ?B (fh_nextLink H ! x) = Some (Inr H')" "fib_ok H' ch'" "frame ?B H'"
        using Cons.IH [OF B(1,2), of "fh_nextLink H ! x"] x(2) rest by auto
      ultimately show ?thesis using frame_trans [OF B(3)] by auto
    next
      case full: False
      let ?b = "fh_bucket H ! (fh_rank H ! x)"
      have bb: "?b \<in> roots H" "?b \<in> X" "fh_rank H ! ?b = fh_rank H ! x" using Cons.prems(2) rk full by (auto simp: buckets_def)
      have ne: "x \<noteq> ?b" using bb(2) x(4) by metis
      obtain H1 ch1 where L: "fib_Link H x ?b = Some (Inr H1)" "fib_ok H1 ch1" "frame H H1" "buckets H1 (insert x X)"
        using Link_ok [OF Cons.prems(1) True bb(1) ne bb(3) [symmetric] rk b] bb(2) by auto
      have eq: "fh_nextLink H1 = fh_nextLink H" "fh_n H1 = fh_n H" using L(3) by (simp_all add: frame_def)
      have "fib_consolidate H x = fib_consolidate H1 (fh_nextLink H ! x)"
        using x st rk full s(10,11) L(1) eq by (subst fib_consolidate.simps) simp
      moreover obtain H' ch' where "fib_consolidate H1 (fh_nextLink H ! x) = Some (Inr H')" "fib_ok H' ch'" "frame H1 H'"
        using Cons.IH [OF L(2,4), of "fh_nextLink H ! x"] x(2) rest eq by auto
      ultimately show ?thesis using frame_trans [OF L(3)] by auto
    qed
  qed
qed

lemma chain_set_end: "chain f x ps y \<Longrightarrow> ps \<noteq> [] \<Longrightarrow> distinct ps \<Longrightarrow> chain (f(last ps := z)) x ps z"
proof (induction ps arbitrary: x)
  case (Cons p ps)
  show ?case
  proof (cases "ps = []")
    case False
    then have "last ps \<noteq> p" using Cons.prems(3) last_in_set [OF False] by auto
    then show ?thesis using Cons False by simp
  qed (use Cons.prems in simp)
qed simp

lemma unlink_links:
  assumes s: "fib_shape H" and l: "links H (ps @ x # zs)" and lt: "set ps \<subseteq> {..<fh_n H}" and y: "y = (if ps = [] then fh_n H else last ps)"
  shows "links (fib_unlink H x y) (ps @ zs)" "fh_nextLink (fib_unlink H x y) ! x = fh_nextLink H ! x"
proof -
  let ?f = "(!) (fh_nextLink H)"
  have c: "chain ?f (fh_firstLink H) ps x" "chain ?f (?f x) zs (fh_n H)" "distinct (ps @ x # zs)" using l by (auto simp: links_def chain_append)
  have "links (fib_unlink H x y) (ps @ zs) \<and> fh_nextLink (fib_unlink H x y) ! x = fh_nextLink H ! x"
  proof (cases "ps = []")
    case True
    then have U: "fib_unlink H x y = H\<lparr>fh_firstLink := ?f x\<rparr>" using y fib_shapeD(11) [OF s] by (simp add: fib_unlink_def)
    show ?thesis unfolding U using c True by (simp add: links_def)
  next
    case False
    then have "y = last ps" "y \<in> set ps" using y last_in_set [OF False] by simp_all
    then have yl: "y \<in> set ps" "y < fh_n H" "y = last ps" using lt by auto
    have U: "fib_unlink H x y = H\<lparr>fh_nextLink := (fh_nextLink H)[y := ?f x]\<rparr>"
      using yl fib_shapeD(11) [OF s] by (simp add: fib_unlink_def)
    have upd: "(!) ((fh_nextLink H)[y := ?f x]) = ?f(y := ?f x)" using yl fib_shapeD(8) [OF s] by (simp add: nth_list_upd)
    have "chain (?f(y := ?f x)) (fh_firstLink H) ps (?f x)" unfolding yl(3) using c(3) by (intro chain_set_end [OF c(1) False]) simp
    moreover have "y \<notin> set zs" "y \<noteq> x" using c(3) yl(1) by auto
    ultimately show ?thesis unfolding U links_def using upd c(2,3) by (auto simp: chain_append chain_upd_notin)
  qed
  then show "links (fib_unlink H x y) (ps @ zs)" "fh_nextLink (fib_unlink H x y) ! x = fh_nextLink H ! x" by simp_all
qed

definition least_in :: "fibonacci_heap \<Rightarrow> nat set \<Rightarrow> bool" where
  "least_in H A \<longleftrightarrow> (if A = {} then fh_minimal H = fh_n H else fh_minimal H \<in> A \<and> (\<forall>r \<in> A. fh_key H ! fh_minimal H \<le> fh_key H ! r))"

lemma minimum_least:
  assumes "fib_shape H" "least_in H A" "A \<subseteq> {..<fh_n H}"
  shows "least_in (fib_minimum H x) (insert x A)"
  using assms fib_shapeD(11) [OF assms(1)] by (auto simp: least_in_def fib_minimum_def split: if_splits)

definition swept :: "fibonacci_heap \<Rightarrow> fibonacci_heap \<Rightarrow> bool" where
  "swept H H' \<longleftrightarrow> H' = H\<lparr>fh_nextLink := fh_nextLink H', fh_firstLink := fh_firstLink H', fh_minimal := fh_minimal H'\<rparr>
     \<and> length (fh_nextLink H') = length (fh_nextLink H)"

lemma swept_simps:
  assumes "swept H H'"
  shows "fib_shape H' = fib_shape H" "forest H' ch = forest H ch" "mems H' = mems H" "roots H' = roots H" "fh_n H' = fh_n H"
    "fh_key H' = fh_key H" "fh_card H' = fh_card H" "fh_rank H' = fh_rank H" "fh_status H' = fh_status H"
proof -
  obtain a b c where H': "H' = H\<lparr>fh_nextLink := a, fh_firstLink := b, fh_minimal := c\<rparr>" "length a = length (fh_nextLink H)"
    using assms unfolding swept_def by metis
  show "fib_shape H' = fib_shape H" "forest H' ch = forest H ch" "mems H' = mems H" "roots H' = roots H" "fh_n H' = fh_n H"
    "fh_key H' = fh_key H" "fh_card H' = fh_card H" "fh_rank H' = fh_rank H" "fh_status H' = fh_status H"
    using H'(2) by (simp_all add: H'(1) fib_shape_def forest_def mems_def roots_def is_child_def)
qed

lemma swept_trans:
  assumes "swept H H1" "swept H1 H2" shows "swept H H2"
proof -
  obtain a b c a' b' c' where "H1 = H\<lparr>fh_nextLink := a, fh_firstLink := b, fh_minimal := c\<rparr>" "length a = length (fh_nextLink H)"
    "H2 = H1\<lparr>fh_nextLink := a', fh_firstLink := b', fh_minimal := c'\<rparr>" "length a' = length (fh_nextLink H1)"
    using assms unfolding swept_def by metis
  then show ?thesis by (simp add: swept_def)
qed

lemma swept_steps: "swept H (fib_unlink H x y)" "swept H (fib_minimum H x)"
  by (simp_all add: swept_def fib_unlink_def fib_minimum_def)

lemma sweep_ok:
  "fib_shape H \<Longrightarrow> links H (ps @ zs) \<Longrightarrow> set (ps @ zs) \<subseteq> {..<fh_n H} \<Longrightarrow> x = (if zs = [] then fh_n H else hd zs) \<Longrightarrow>
    y = (if ps = [] then fh_n H else last ps) \<Longrightarrow> set ps \<subseteq> roots H \<Longrightarrow> least_in H (set ps) \<Longrightarrow>
    \<exists>H' rs. fib_sweep H x y = Some (Inr H') \<and> swept H H' \<and> links H' rs \<and> set rs = (set ps \<union> set zs) \<inter> roots H \<and> least_in H' (set rs)"
proof (induction zs arbitrary: H ps x y)
  case Nil
  have "fib_sweep H x y = Some (Inr H)" using Nil(4) fib_shapeD(11) [OF Nil(1)] by (subst fib_sweep.simps) simp
  moreover have "swept H H" by (simp add: swept_def)
  moreover have "(set ps \<union> set []) \<inter> roots H = set ps" using Nil(6) by auto
  ultimately show ?case using Nil(2,7) by auto
next
  case (Cons z zs)
  note s = fib_shapeD [OF Cons.prems(1)]
  have x: "x = z" "x < fh_n H" "x \<noteq> fh_UNDEFINED H" using Cons.prems(3,4) s(11) by auto
  have nz: "fh_nextLink H ! x = (if zs = [] then fh_n H else hd zs)"
    using Cons.prems(2) x(1) by (cases zs) (auto simp: links_def chain_append)
  show ?case
  proof (cases "x \<in> roots H")
    case False
    let ?U = "fib_unlink H x y"
    have sw: "swept H ?U" by (rule swept_steps(1))
    note e = swept_simps [OF sw]
    have U: "links ?U (ps @ zs)" "fh_nextLink ?U ! x = fh_nextLink H ! x"
      using unlink_links [OF Cons.prems(1), of ps x zs y] Cons.prems(2,3,5) x(1) by auto
    have step: "fib_sweep H x y = fib_sweep ?U (fh_nextLink H ! x) y"
      using x False U(2) by (subst fib_sweep.simps) (simp add: roots_def)
    have lu: "least_in ?U (set ps)" using Cons.prems(7) e(5,6) by (simp add: least_in_def fib_unlink_def)
    have pre: "fib_shape ?U" "set (ps @ zs) \<subseteq> {..<fh_n ?U}" "fh_nextLink H ! x = (if zs = [] then fh_n ?U else hd zs)"
      "y = (if ps = [] then fh_n ?U else last ps)" "set ps \<subseteq> roots ?U"
      unfolding e using Cons.prems(1,3,5,6) nz by simp_all
    obtain H' rs where "fib_sweep ?U (fh_nextLink H ! x) y = Some (Inr H')" "swept ?U H'" "links H' rs"
      "set rs = (set ps \<union> set zs) \<inter> roots H" "least_in H' (set rs)"
      using Cons.IH [OF pre(1) U(1) pre(2-5) lu] unfolding e(4) by blast
    moreover have "(set ps \<union> set (z # zs)) \<inter> roots H = (set ps \<union> set zs) \<inter> roots H" using False x(1) by auto
    ultimately show ?thesis unfolding step using swept_trans [OF sw] by metis
  next
    case True
    let ?M = "fib_minimum H x"
    have sw: "swept H ?M" by (rule swept_steps(2))
    note e = swept_simps [OF sw]
    have step: "fib_sweep H x y = fib_sweep ?M (fh_nextLink H ! x) x"
      using x True by (subst fib_sweep.simps) (simp add: roots_def)
    have lm: "least_in ?M (set (ps @ [x]))"
      using minimum_least [OF Cons.prems(1,7), of x] Cons.prems(3) by simp
    have li: "links ?M ((ps @ [x]) @ zs)" using Cons.prems(2) x(1) by (simp add: links_def)
    have pre: "fib_shape ?M" "set ((ps @ [x]) @ zs) \<subseteq> {..<fh_n ?M}" "fh_nextLink H ! x = (if zs = [] then fh_n ?M else hd zs)"
      "x = (if ps @ [x] = [] then fh_n ?M else last (ps @ [x]))" "set (ps @ [x]) \<subseteq> roots ?M"
      unfolding e using Cons.prems(1,3,6) nz True x(1) by simp_all
    obtain H' rs where "fib_sweep ?M (fh_nextLink H ! x) x = Some (Inr H')" "swept ?M H'" "links H' rs"
      "set rs = (set (ps @ [x]) \<union> set zs) \<inter> roots H" "least_in H' (set rs)"
      using Cons.IH [OF pre(1) li pre(2-5) lm] unfolding e(4) by blast
    then show ?thesis unfolding step using swept_trans [OF sw] x(1) by (intro exI [of _ H'] exI [of _ rs]) auto
  qed
qed

text \<open>The invariant: the forest, the list of the roots, and the minimum.\<close>

definition fib_str :: "fibonacci_heap \<Rightarrow> bool" where
  "fib_str H \<longleftrightarrow> (\<exists>ch rs. fib_ok H ch \<and> links H rs \<and> set rs = roots H) \<and> fh_card H = card (mems H)"

definition fib_inv :: "fibonacci_heap \<Rightarrow> bool" where
  "fib_inv H \<longleftrightarrow> fib_str H \<and> least_in H (roots H)"

lemma roots_sub: "roots H \<subseteq> {..<fh_n H}"
  by (auto simp: roots_def)

lemma Restore_ok:
  assumes ok: "fib_ok H ch" and l: "links H rs" and rs: "roots H \<subseteq> set rs" "set rs \<subseteq> {..<fh_n H}" and c: "fh_card H = card (mems H)"
  obtains H' where "fib_Restore H = Some (Inr H')" "fib_inv H'" "mems H' = mems H" "fh_key H' = fh_key H" "fh_n H' = fh_n H"
proof -
  note s = fib_shapeD [OF fib_ok_shape [OF ok]]
  let ?B = "H\<lparr>fh_bucket := replicate (fh_k H) (fh_UNDEFINED H), fh_minimal := fh_UNDEFINED H\<rparr>"
  have same: "mems ?B = mems H" "roots ?B = roots H" "is_child ?B c = is_child H c" for c by (simp_all add: mems_def roots_def is_child_def)
  have "forest ?B ch" by (rule forest_same [of H ch]) (use ok s in \<open>simp_all add: fib_ok_def mems_def is_child_def fib_shape_def\<close>)
  then have okB: "fib_ok ?B ch" using ok same by (simp add: fib_ok_def ranks_def heap_order_def)
  have bB: "buckets ?B {}" using s by (simp add: buckets_def)
  have lB: "chain ((!) (fh_nextLink ?B)) (fh_firstLink H) rs (fh_n ?B)" "distinct rs" "set rs \<subseteq> {..<fh_n ?B}" "set rs \<inter> {} = {}"
    using l rs by (simp_all add: links_def)
  obtain H1 ch1 where H1: "fib_consolidate ?B (fh_firstLink H) = Some (Inr H1)" "fib_ok H1 ch1" "frame ?B H1"
    using consolidate_ok [OF okB bB lB] by blast
  have e: "mems H1 = mems H" "fh_key H1 = fh_key H" "fh_n H1 = fh_n H" "fh_card H1 = fh_card H" "fh_nextLink H1 = fh_nextLink H"
    "fh_firstLink H1 = fh_firstLink H" "fh_minimal H1 = fh_n H" "roots H1 \<subseteq> roots H"
    using H1(3) s(11) unfolding frame_def same by simp_all
  note s1 = fib_ok_shape [OF H1(2)]
  have l1: "links H1 ([] @ rs)" "fh_firstLink H1 = (if rs = [] then fh_n H1 else hd rs)"
    using l e by (auto simp: links_def) (cases rs; simp)+
  have pre: "set ([] @ rs) \<subseteq> {..<fh_n H1}" "fh_n H1 = (if [] = [] then fh_n H1 else last [])" "set [] \<subseteq> roots H1" "least_in H1 (set [])"
    using rs(2) e(3,7) by (simp_all add: least_in_def)
  obtain H2 rs2 where H2: "fib_sweep H1 (fh_firstLink H1) (fh_n H1) = Some (Inr H2)" "swept H1 H2" "links H2 rs2"
    "set rs2 = (set [] \<union> set rs) \<inter> roots H1" "least_in H2 (set rs2)"
    using sweep_ok [OF s1 l1(1) pre(1) l1(2) pre(2-4)] by blast
  note e2 = swept_simps [OF H2(2)]
  have r2: "set rs2 = roots H2" using H2(4) e(8) rs(1) e2(4) by auto
  have "fib_ok H2 ch1" using H1(2) e2 by (simp add: fib_ok_def ranks_def heap_order_def)
  then have "fib_inv H2" using H2(3,5) r2 e e2 c by (auto simp: fib_inv_def fib_str_def)
  moreover have "fib_Restore H = Some (Inr H2)"
    using H1(1) H2(1) fib_shapeD(11) [OF s1] by (simp add: fib_Restore_def)
  ultimately show thesis using that e e2 by simp
qed

section \<open>Loops over the children\<close>

definition str_frame :: "fibonacci_heap \<Rightarrow> fibonacci_heap \<Rightarrow> bool" where
  "str_frame H H' \<longleftrightarrow> mems H' = mems H \<and> roots H \<subseteq> roots H' \<and> fh_key H' = fh_key H \<and> fh_n H' = fh_n H \<and> fh_card H' = fh_card H
     \<and> (\<exists>rs. links H' rs \<and> set rs = roots H')
     \<and> (fh_minimal H \<in> roots H \<longrightarrow> fh_minimal H' \<in> roots H' \<and> fh_key H ! fh_minimal H' \<le> fh_key H ! fh_minimal H
          \<and> (\<forall>r \<in> roots H' - roots H. fh_key H ! fh_minimal H' \<le> fh_key H ! r))"

lemma str_frame_refl: "links H rs \<Longrightarrow> set rs = roots H \<Longrightarrow> str_frame H H"
  by (auto simp: str_frame_def)

lemma str_frame_trans:
  assumes a: "str_frame H H1" and b: "str_frame H1 H2" shows "str_frame H H2"
proof -
  have m: "fh_minimal H2 \<in> roots H2 \<and> fh_key H ! fh_minimal H2 \<le> fh_key H ! fh_minimal H \<and> (\<forall>r \<in> roots H2 - roots H. fh_key H ! fh_minimal H2 \<le> fh_key H ! r)"
    if m0: "fh_minimal H \<in> roots H"
  proof -
    have k: "fh_key H1 = fh_key H" using a by (simp add: str_frame_def)
    have 1: "fh_minimal H1 \<in> roots H1" "fh_key H ! fh_minimal H1 \<le> fh_key H ! fh_minimal H"
      "\<forall>r \<in> roots H1 - roots H. fh_key H ! fh_minimal H1 \<le> fh_key H ! r"
      using a m0 unfolding str_frame_def by blast+
    have 2: "fh_minimal H2 \<in> roots H2" "fh_key H ! fh_minimal H2 \<le> fh_key H ! fh_minimal H1"
      "\<forall>r \<in> roots H2 - roots H1. fh_key H ! fh_minimal H2 \<le> fh_key H ! r"
      using b 1(1) k unfolding str_frame_def by metis+
    have "fh_key H ! fh_minimal H2 \<le> fh_key H ! r" if "r \<in> roots H2 - roots H" for r
    proof (cases "r \<in> roots H1")
      case True
      then have "fh_key H ! fh_minimal H1 \<le> fh_key H ! r" using 1(3) that by blast
      then show ?thesis using 2(2) by linarith
    qed (use 2(3) that in blast)
    then show ?thesis using 1(2) 2(1,2) order_trans by blast
  qed
  show ?thesis using a b m unfolding str_frame_def by auto
qed

lemma Cut_str:
  assumes f: "forest H ch" "ranks H ch" and v: "v < fh_n H" "is_child H v" and rs: "links H rs" "set rs = roots H"
  obtains H' C where "fib_Cut H v = Some (Inr H')" "forest H' (\<lambda>y. filter (\<lambda>c. c \<notin> C) (ch y))" "ranks H' (\<lambda>y. filter (\<lambda>c. c \<notin> C) (ch y))"
    "str_frame H H'" "v \<in> C" "v \<in> roots H'" "\<And>c. c \<in> set (ch (fh_pred H ! v)) \<Longrightarrow> c \<in> C \<longleftrightarrow> c = v"
proof -
  have ge: "length (ch y) \<le> fh_rank H ! y" if "y \<in> mems H" for y using f(2) that by (simp add: ranks_def)
  obtain H' C where H': "fib_Cut H v = Some (Inr H')" "cut_post H ch v H' C"
    using Cut_ok [OF forest_wf [OF f(1)] f(1) subset_refl v rs ge] by blast
  note p = H'(2) [unfolded cut_post_def]
  have rk: "int (fh_rank H' ! y) - int (length (filter (\<lambda>c. c \<notin> C) (ch y))) = int (fh_rank H ! y) - int (length (ch y))" for y using p by blast
  have mem: "mems H' = mems H" using p by blast
  have "fh_rank H' ! y = length (filter (\<lambda>c. c \<notin> C) (ch y))" if "y \<in> mems H" for y
    using rk [of y] f(2) that by (simp add: ranks_def)
  then have r: "ranks H' (\<lambda>y. filter (\<lambda>c. c \<notin> C) (ch y))" unfolding ranks_def mem by blast
  have roots: "roots H' = roots H \<union> C" using p by blast
  have sf: "str_frame H H'" unfolding str_frame_def using p roots by blast
  have only: "c \<in> C \<longleftrightarrow> c = v" if c: "c \<in> set (ch (fh_pred H ! v))" for c
  proof
    let ?w = "fh_pred H ! v"
    assume "c \<in> C"
    then have "(c, v) \<in> (par ch)\<^sup>*" using p by blast
    then show "c = v"
    proof (cases rule: rtranclE)
      case (step z)
      then have "z = ?w" using forestD(4) [OF f(1), of v z] by (auto simp: par_def)
      then have "(c, ?w) \<in> (par ch)\<^sup>*" "(?w, c) \<in> par ch" using step c by (auto simp: par_def)
      then have "(?w, ?w) \<in> (par ch)\<^sup>+" by (meson rtrancl_into_trancl2)
      then show ?thesis using forestD(6) [OF f(1)] by (auto simp: acyclic_def)
    qed simp
  qed (use p in blast)
  have "forest H' (\<lambda>y. filter (\<lambda>c. c \<notin> C) (ch y))" "v \<in> C" using p by blast+
  then show thesis using that [OF H'(1) _ r sf _ _ only] roots by blast
qed

text \<open>
  The loop cuts the children \<open>c\<close> with \<open>Q c\<close>; \<open>ps\<close> are the children that have been kept.
\<close>

lemma cut_children_ok:
  assumes P: "\<And>H' x. fh_key H' = key \<Longrightarrow> P H' x \<longleftrightarrow> Q x"
  shows "forest H ch \<Longrightarrow> ranks H ch \<Longrightarrow> links H rs \<Longrightarrow> set rs = roots H \<Longrightarrow> fh_key H = key \<Longrightarrow> w \<in> mems H \<Longrightarrow> ch w = ps @ zs \<Longrightarrow>
    x = (if zs = [] then fh_n H else hd zs) \<Longrightarrow> \<forall>c \<in> set ps. \<not> Q c \<Longrightarrow>
    \<exists>H' ch'. fib_cut_children P H x = Some (Inr H') \<and> forest H' ch' \<and> ranks H' ch' \<and> str_frame H H' \<and> par ch' \<subseteq> par ch
      \<and> (\<forall>c \<in> set (ch' w). \<not> Q c)"
proof (induction zs arbitrary: H ch rs ps x)
  case Nil
  have "fib_cut_children P H x = Some (Inr H)"
    using Nil(8) fib_shapeD(11) [OF forestD(1) [OF Nil(1)]] by (subst fib_cut_children.simps) simp
  then show ?case using Nil str_frame_refl [OF Nil(3,4)] by auto
next
  case (Cons z zs)
  note d = forestD [OF Cons.prems(1)]
  have x: "x = z" using Cons.prems(8) by simp
  have z: "z < fh_n H" "is_child H z" "fh_pred H ! z = w" using d(4) [of z w] Cons.prems(7) by auto
  obtain q where "dls ((!) (fh_next H)) ((!) (fh_previous H)) (fh_n H) (fh_first H ! w) (ps @ z # zs) q (fh_n H)"
    using d(2) [OF Cons.prems(6)] Cons.prems(7) by auto
  then have nx: "fh_next H ! z = (if zs = [] then fh_n H else hd zs)" by (cases zs) (auto simp: dls_append)
  have step: "fib_cut_children P H x = obind (if Q z then fib_Cut H z else Some (Inr H)) (\<lambda>H1. fib_cut_children P H1 (fh_next H ! z))"
    using x z(1) P [OF Cons.prems(5)] fib_shapeD(11) [OF d(1)] by (subst fib_cut_children.simps) simp
  show ?case
  proof (cases "Q z")
    case False
    then have keep: "\<forall>c \<in> set (ps @ [z]). \<not> Q c" using Cons.prems(9) by simp
    have "ch w = (ps @ [z]) @ zs" using Cons.prems(7) by simp
    from Cons.IH [OF Cons.prems(1-6) this nx keep] False show ?thesis unfolding step by simp
  next
    case True
    obtain H1 C where H1: "fib_Cut H z = Some (Inr H1)" "forest H1 (\<lambda>y. filter (\<lambda>c. c \<notin> C) (ch y))" "ranks H1 (\<lambda>y. filter (\<lambda>c. c \<notin> C) (ch y))"
      "str_frame H H1" "z \<in> C" "\<And>c. c \<in> set (ch w) \<Longrightarrow> c \<in> C \<longleftrightarrow> c = z"
      using Cut_str [OF Cons.prems(1,2) z(1,2) Cons.prems(3,4)] z(3) by metis
    have "filter (\<lambda>c. c \<notin> C) (ch w) = filter (\<lambda>c. c \<noteq> z) (ch w)" by (rule filter_cong) (use H1(6) in auto)
    also have "\<dots> = ps @ zs" using d(3) [of w] Cons.prems(7) by simp
    finally have chw: "filter (\<lambda>c. c \<notin> C) (ch w) = ps @ zs" .
    obtain rs1 where rs1: "links H1 rs1" "set rs1 = roots H1" using H1(4) by (auto simp: str_frame_def)
    have e: "fh_key H1 = key" "w \<in> mems H1" "fh_next H ! z = (if zs = [] then fh_n H1 else hd zs)"
      using H1(4) Cons.prems(5,6) nx by (simp_all add: str_frame_def)
    obtain H' ch' where "fib_cut_children P H1 (fh_next H ! z) = Some (Inr H')" "forest H' ch'" "ranks H' ch'" "str_frame H1 H'"
      "par ch' \<subseteq> par (\<lambda>y. filter (\<lambda>c. c \<notin> C) (ch y))" "\<forall>c \<in> set (ch' w). \<not> Q c"
      using Cons.IH [OF H1(2,3) rs1 e(1,2) chw e(3) Cons.prems(9)] by blast
    then show ?thesis unfolding step using True H1(1) str_frame_trans [OF H1(4)] par_filter [of "\<lambda>c. c \<notin> C" ch]
      by (intro exI [of _ H'] exI [of _ ch']) auto
  qed
qed

lemma first_child:
  assumes "forest H ch" "x \<in> mems H"
  shows "fh_first H ! x = (if ch x = [] then fh_n H else hd (ch x))"
  using forestD(2) [OF assms] by (cases "ch x") auto

section \<open>Deletion\<close>

lemma order_sub: "heap_order H ch \<Longrightarrow> par ch' \<subseteq> par ch \<Longrightarrow> fh_key H' = fh_key H \<Longrightarrow> heap_order H' ch'"
  unfolding heap_order_def by auto

lemma remove_root:
  assumes ok: "fib_ok H ch" and w: "w \<in> roots H" "ch w = []"
  shows "fib_ok (H\<lparr>fh_status := (fh_status H)[w := NOT_QUEUED], fh_card := c\<rparr>) ch"
    "mems (H\<lparr>fh_status := (fh_status H)[w := NOT_QUEUED], fh_card := c\<rparr>) = mems H - {w}"
    "roots (H\<lparr>fh_status := (fh_status H)[w := NOT_QUEUED], fh_card := c\<rparr>) = roots H - {w}"
proof -
  let ?N = "H\<lparr>fh_status := (fh_status H)[w := NOT_QUEUED], fh_card := c\<rparr>"
  have f: "forest H ch" using ok by (simp add: fib_ok_def)
  note d = forestD [OF f] and s = fib_shapeD [OF forestD(1) [OF f]]
  have lt: "w < fh_n H" using w by (simp add: roots_def)
  have st: "fh_status ?N ! x = (if x = w then NOT_QUEUED else fh_status H ! x)" for x using lt s(6) by (simp add: nth_list_update)
  show mem: "mems ?N = mems H - {w}" and "roots ?N = roots H - {w}" using st by (auto simp: mems_def roots_def)
  have child: "is_child ?N x \<longleftrightarrow> is_child H x" for x using st w by (auto simp: is_child_def roots_def)
  have "fh_pred H ! x \<noteq> w" if "x < fh_n H" "is_child H x" for x using d(4) [of x w] w(2) that by auto
  then have "forest ?N ch" unfolding forest_def mem child using d s by (auto simp: fib_shape_def)
  then show "fib_ok ?N ch" using ok mem by (simp add: fib_ok_def ranks_def heap_order_def)
qed

lemma mems_finite: "finite (mems H)"
  by (simp add: mems_def)

lemma roots_mems: "roots H \<subseteq> mems H"
  by (auto simp: roots_def mems_def)

lemma DeleteItem_ok:
  assumes str: "fib_str H" and w: "w \<in> mems H"
  obtains H' where "fibonacciHeap_DeleteItem H w = Some (Inr H')" "fib_inv H'" "mems H' = mems H - {w}" "fh_key H' = fh_key H" "fh_n H' = fh_n H"
proof -
  obtain ch rs where ok: "fib_ok H ch" and rs: "links H rs" "set rs = roots H" and c: "fh_card H = card (mems H)"
    using str by (auto simp: fib_str_def)
  have f: "forest H ch" "ranks H ch" "heap_order H ch" using ok by (simp_all add: fib_ok_def)
  obtain H1 ch1 where H1: "fib_cut_children (\<lambda>H x. True) H (fh_first H ! w) = Some (Inr H1)" "forest H1 ch1" "ranks H1 ch1" "str_frame H H1"
    "par ch1 \<subseteq> par ch" "\<forall>c \<in> set (ch1 w). \<not> True"
    using cut_children_ok [of "fh_key H" "\<lambda>H x. True" "\<lambda>x. True" H ch rs w "[]" "ch w"] f rs w first_child [OF f(1) w] by auto
  have e1: "mems H1 = mems H" "fh_key H1 = fh_key H" "fh_n H1 = fh_n H" "fh_card H1 = fh_card H" using H1(4) by (simp_all add: str_frame_def)
  obtain rs1 where rs1: "links H1 rs1" "set rs1 = roots H1" using H1(4) by (auto simp: str_frame_def)
  have "\<exists>H2 ch2 rs2. (if is_child H1 w then fib_Cut H1 w else Some (Inr H1)) = Some (Inr H2) \<and> forest H2 ch2 \<and> ranks H2 ch2 \<and> str_frame H1 H2
    \<and> par ch2 \<subseteq> par ch1 \<and> ch2 w = [] \<and> w \<in> roots H2 \<and> links H2 rs2 \<and> set rs2 = roots H2"
  proof (cases "is_child H1 w")
    case True
    have "w < fh_n H1" using w e1 by (simp add: mems_def)
    then obtain H2 C where "fib_Cut H1 w = Some (Inr H2)" "forest H2 (\<lambda>y. filter (\<lambda>c. c \<notin> C) (ch1 y))" "ranks H2 (\<lambda>y. filter (\<lambda>c. c \<notin> C) (ch1 y))"
      "str_frame H1 H2" "w \<in> roots H2"
      using Cut_str [OF H1(2,3) _ True rs1] by metis
    then show ?thesis using True H1(6) par_filter [of "\<lambda>c. c \<notin> C" ch1] by (fastforce simp: str_frame_def)
  next
    case False
    then have "w \<in> roots H1" using w e1(1) status_cases [of w H1] by auto
    then show ?thesis using False H1(2,3,6) rs1 str_frame_refl [OF rs1] by auto
  qed
  then obtain H2 ch2 rs2 where H2: "(if is_child H1 w then fib_Cut H1 w else Some (Inr H1)) = Some (Inr H2)" "forest H2 ch2" "ranks H2 ch2" "str_frame H1 H2"
    "par ch2 \<subseteq> par ch1" "ch2 w = []" "w \<in> roots H2" "links H2 rs2" "set rs2 = roots H2" by blast
  have e2: "mems H2 = mems H" "fh_key H2 = fh_key H" "fh_n H2 = fh_n H" "fh_card H2 = fh_card H" using H2(4) e1 by (simp_all add: str_frame_def)
  have "heap_order H2 ch2" by (rule order_sub [OF f(3)]) (use H1(5) H2(5) e2 in auto)
  then have ok2: "fib_ok H2 ch2" using H2(2,3) by (simp add: fib_ok_def)
  let ?N = "H2\<lparr>fh_status := (fh_status H2)[w := NOT_QUEUED], fh_card := fh_card H2 - 1\<rparr>"
  note N = remove_root [OF ok2 H2(7,6), of "fh_card H2 - 1"]
  have lN: "links ?N rs2" using H2(8) by (simp add: links_def)
  have "roots ?N \<subseteq> set rs2" "set rs2 \<subseteq> {..<fh_n ?N}" using N(3) H2(9) roots_sub [of H2] by auto
  moreover have "fh_card ?N = card (mems ?N)" using N(2) e2 c w mems_finite by simp
  ultimately obtain H' where H': "fib_Restore ?N = Some (Inr H')" "fib_inv H'" "mems H' = mems ?N" "fh_key H' = fh_key ?N" "fh_n H' = fh_n ?N"
    using Restore_ok [OF N(1) lN] by blast
  show thesis
  proof (rule that [of H'])
    show "fibonacciHeap_DeleteItem H w = Some (Inr H')"
      using w H1(1) H2(1) H'(1) unfolding fibonacciHeap_DeleteItem_def by (simp add: mems_def)
  qed (use H'(2-5) N(2) e2 in simp_all)
qed

lemma root_below:
  assumes ok: "fib_ok H ch" and x: "x \<in> mems H"
  shows "\<exists>r \<in> roots H. fh_key H ! r \<le> fh_key H ! x"
proof -
  have f: "forest H ch" and ord: "heap_order H ch" using ok by (simp_all add: fib_ok_def)
  note d = forestD [OF f]
  show ?thesis using x
  proof (induction x rule: wf_induct_rule [OF forest_wf [OF f]])
    case (1 x)
    show ?case
    proof (cases "x \<in> roots H")
      case False
      then have c: "is_child H x" "x < fh_n H" using 1(2) status_cases by blast+
      then have p: "(fh_pred H ! x, x) \<in> par ch" "fh_pred H ! x \<in> mems H" using d(4) [of x] d(5) [of x] by (auto simp: par_def)
      then obtain r where r: "r \<in> roots H" "fh_key H ! r \<le> fh_key H ! (fh_pred H ! x)" using 1(1) by blast
      moreover have "fh_key H ! (fh_pred H ! x) \<le> fh_key H ! x" using ord p(1) by (auto simp: heap_order_def)
      ultimately show ?thesis using order_trans by blast
    qed auto
  qed
qed

lemma inv_least:
  assumes "fib_inv H" "mems H \<noteq> {}"
  shows "fh_minimal H \<in> mems H" "\<forall>y \<in> mems H. fh_key H ! fh_minimal H \<le> fh_key H ! y"
proof -
  obtain ch where ok: "fib_ok H ch" using assms(1) by (auto simp: fib_inv_def fib_str_def)
  obtain x where x: "x \<in> mems H" using assms(2) by blast
  then have "roots H \<noteq> {}" using root_below [OF ok] by blast
  then have m: "fh_minimal H \<in> roots H" "\<forall>r \<in> roots H. fh_key H ! fh_minimal H \<le> fh_key H ! r"
    using assms(1) by (simp_all add: fib_inv_def least_in_def)
  show "fh_minimal H \<in> mems H" using m(1) roots_mems by blast
  show "\<forall>y \<in> mems H. fh_key H ! fh_minimal H \<le> fh_key H ! y" using m(2) root_below [OF ok] order_trans by blast
qed

section \<open>Insertion\<close>

lemma Insert_ok:
  assumes str: "fib_str H" and w: "w < fh_n H" "w \<notin> mems H"
  obtains H' where "fibonacciHeap_Insert H w a = Inr H'" "fib_str H'" "mems H' = insert w (mems H)" "fh_key H' = (fh_key H)[w := a]" "fh_n H' = fh_n H"
    "fib_inv H \<Longrightarrow> fib_inv H'" "roots H' = insert w (roots H)" "fh_minimal H' = w \<or> fh_minimal H' = fh_minimal H \<and> fh_minimal H \<noteq> fh_n H"
proof -
  obtain ch rs where ok: "fib_ok H ch" and rs: "links H rs" "set rs = roots H" and c: "fh_card H = card (mems H)"
    using str by (auto simp: fib_str_def)
  have f: "forest H ch" using ok by (simp add: fib_ok_def)
  note d = forestD [OF f] and s = fib_shapeD [OF forestD(1) [OF f]]
  let ?A = "H\<lparr>fh_first := (fh_first H)[w := fh_UNDEFINED H], fh_rank := (fh_rank H)[w := 0],
     fh_status := (fh_status H)[w := ROOT_NODE], fh_key := (fh_key H)[w := a],
     fh_nextLink := (fh_nextLink H)[w := fh_UNDEFINED H], fh_card := fh_card H + 1\<rparr>"
  have st: "fh_status ?A ! x = (if x = w then ROOT_NODE else fh_status H ! x)" for x using w s(6) by (simp add: nth_list_update)
  have nq: "fh_status H ! w = NOT_QUEUED" using w by (simp add: mems_def)
  have mem: "mems ?A = insert w (mems H)" and rt: "roots ?A = insert w (roots H)" using st w(1) by (auto simp: mems_def roots_def)
  have child: "is_child ?A x \<longleftrightarrow> is_child H x" for x using st [of x] nq by (simp add: is_child_def)
  have chw: "ch w = []"
  proof (rule ccontr)
    assume "ch w \<noteq> []"
    then have "hd (ch w) \<in> set (ch w)" by simp
    then show False using d(4) [of "hd (ch w)" w] d(5) [of "hd (ch w)"] w(2) by auto
  qed
  have fA: "forest ?A ch" unfolding forest_def mem child
  proof (intro conjI ballI allI impI)
    show "fib_shape ?A" using s by (simp add: fib_shape_def)
    fix x assume "x \<in> insert w (mems H)"
    then show "\<exists>q. dls ((!) (fh_next ?A)) ((!) (fh_previous ?A)) (fh_n ?A) (fh_first ?A ! x) (ch x) q (fh_n ?A)"
      using d(2) [of x] chw w s(2,11) by (cases "x = w") auto
  qed (use d in auto)
  have np: "(p, x) \<in> par ch \<Longrightarrow> p \<noteq> w \<and> x \<noteq> w" for p x using d(4) [of x p] chw nq by (auto simp: par_def is_child_def)
  have "heap_order ?A ch" unfolding heap_order_def
  proof clarify
    fix p x assume px: "(p, x) \<in> par ch"
    then have "fh_key H ! p \<le> fh_key H ! x" using ok by (auto simp: fib_ok_def heap_order_def)
    then show "fh_key ?A ! p \<le> fh_key ?A ! x" using np [OF px] by simp
  qed
  moreover have "ranks ?A ch" unfolding ranks_def mem using ok chw w s(5) by (auto simp: fib_ok_def ranks_def nth_list_update)
  ultimately have okA: "fib_ok ?A ch" using fA by (simp add: fib_ok_def)
  have wr: "w \<notin> set rs" using rs(2) w(2) roots_mems by blast
  have lA: "links ?A rs" using rs(1) wr w s(8) by (simp add: links_def nth_list_upd chain_upd_notin)
  let ?P = "?A\<lparr>fh_nextLink := (fh_nextLink ?A)[w := fh_firstLink ?A], fh_firstLink := w\<rparr>"
  have push: "fib_Push ?A w = Inr ?P" using w s(6) by (simp add: fib_Push_def)
  have lP: "links ?P (w # rs)" by (rule Push_links [OF forestD(1) [OF fA] lA]) (use w wr in simp_all)
  let ?M = "fib_minimum ?P w"
  have same: "mems ?M = mems ?A" "roots ?M = roots ?A" "is_child ?M c = is_child ?A c" for c by (simp_all add: mems_def roots_def is_child_def)
  have "forest ?M ch" by (rule forest_same [OF fA]) (use forestD(1) [OF fA] in \<open>simp_all add: mems_def is_child_def fib_shape_def\<close>)
  then have okM: "fib_ok ?M ch" using okA unfolding fib_ok_def ranks_def same heap_order_def by simp
  have lM: "links ?M (w # rs)" using lP by (simp add: links_def)
  have sP: "fib_shape ?P" using forestD(1) [OF fA] by (simp add: fib_shape_def)
  have "w \<notin> roots H" using w(2) roots_mems by blast
  then have kw: "x \<in> roots H \<Longrightarrow> (fh_key H)[w := a] ! x = fh_key H ! x" for x by (metis nth_list_update_neq)
  have least: "least_in ?M (roots ?M)" if "fib_inv H"
  proof -
    have "least_in ?P (roots H)" using that kw by (auto simp: fib_inv_def least_in_def)
    then show ?thesis unfolding same(2) rt by (intro minimum_least [OF sP]) (use roots_sub [of H] in simp_all)
  qed
  have "set (w # rs) = roots ?M" unfolding same(2) rt using rs(2) by simp
  moreover have "fh_card ?M = card (mems ?M)" unfolding same(1) mem using c w(2) mems_finite by simp
  ultimately have str': "fib_str ?M" using okM lM unfolding fib_str_def by blast
  show thesis
  proof (rule that [of ?M])
    show "fibonacciHeap_Insert H w a = Inr ?M" using w nq push by (simp add: fibonacciHeap_Insert_def)
    show "fib_str ?M" by (rule str')
    show "mems ?M = insert w (mems H)" "roots ?M = insert w (roots H)" unfolding same mem rt by (rule refl)+
    show "fib_inv ?M" if "fib_inv H" using least [OF that] str' by (simp add: fib_inv_def)
    show "fh_minimal ?M = w \<or> fh_minimal ?M = fh_minimal H \<and> fh_minimal H \<noteq> fh_n H" using s(11) by (simp add: fib_minimum_def)
  qed simp_all
qed

section \<open>Change of keys\<close>

text \<open>
  \<open>ChangeKey\<close> keeps the forest and the list of the roots. It does not keep the minimum: neither when the
  key of the minimal item grows, nor when the key of another root falls below the minimum.
\<close>

definition chg_ok :: "fibonacci_heap \<Rightarrow> nat \<Rightarrow> TFloat \<Rightarrow> bool" where
  "chg_ok H w a \<longleftrightarrow> (if a > fh_key H ! w then w \<noteq> fh_minimal H else is_child H w \<or> w = fh_minimal H \<or> fh_key H ! fh_minimal H \<le> a)"

lemma str_frame_least:
  assumes "str_frame H H'" "fh_minimal H \<in> roots H" "\<forall>r \<in> roots H. fh_key H ! fh_minimal H \<le> fh_key H ! r"
  shows "least_in H' (roots H')"
proof -
  have k: "fh_key H' = fh_key H" and m: "fh_minimal H' \<in> roots H'" "fh_key H ! fh_minimal H' \<le> fh_key H ! fh_minimal H"
    "\<forall>r \<in> roots H' - roots H. fh_key H ! fh_minimal H' \<le> fh_key H ! r"
    using assms(1,2) unfolding str_frame_def by blast+
  have "fh_key H ! fh_minimal H' \<le> fh_key H ! r" if "r \<in> roots H'" for r
    using that m(2,3) assms(3) order_trans by (cases "r \<in> roots H") blast+
  then show ?thesis using m(1) unfolding least_in_def k by auto
qed

lemma ChangeKey_forest:
  assumes ok: "fib_ok H ch" and rs: "links H rs" "set rs = roots H" and w: "w \<in> mems H"
  shows "\<exists>H' ch'. fibonacciHeap_ChangeKey H w a = Some (Inr H') \<and> fib_ok H' ch' \<and> str_frame (H\<lparr>fh_key := (fh_key H)[w := a]\<rparr>) H'"
proof -
  let ?K = "H\<lparr>fh_key := (fh_key H)[w := a]\<rparr>"
  have f: "forest H ch" "ranks H ch" and ord: "\<And>p x. (p, x) \<in> par ch \<Longrightarrow> fh_key H ! p \<le> fh_key H ! x"
    using ok by (auto simp: fib_ok_def heap_order_def)
  note d = forestD [OF f(1)] and s = fib_shapeD [OF forestD(1) [OF f(1)]]
  have lt: "w < fh_n H" "fh_status H ! w \<noteq> NOT_QUEUED" using w by (simp_all add: mems_def)
  have same: "mems ?K = mems H" "roots ?K = roots H" "is_child ?K c = is_child H c" for c by (simp_all add: mems_def roots_def is_child_def)
  have fK: "forest ?K ch" by (rule forest_same [OF f(1)]) (use d(1) in \<open>simp_all add: mems_def is_child_def fib_shape_def\<close>)
  have rK: "ranks ?K ch" using f(2) unfolding ranks_def same by simp
  have lK: "links ?K rs" "set rs = roots ?K" using rs unfolding same by (simp_all add: links_def)
  have key: "fh_key ?K ! x = (if x = w then a else fh_key H ! x)" for x using lt s(9) by (simp add: nth_list_update)
  have wK: "w \<in> mems ?K" using w unfolding same .
  show ?thesis
  proof (cases "a > fh_key H ! w")
    case True
    let ?Q = "\<lambda>x. fh_key ?K ! x < fh_key ?K ! w"
    have first: "fh_first ?K ! w = (if ch w = [] then fh_n ?K else hd (ch w))" by (rule first_child [OF fK wK])
    obtain H' ch' where H': "fib_cut_children (\<lambda>H x. fh_key H ! x < fh_key H ! w) ?K (fh_first ?K ! w) = Some (Inr H')" "forest H' ch'" "ranks H' ch'"
      "str_frame ?K H'" "par ch' \<subseteq> par ch" "\<forall>c \<in> set (ch' w). \<not> ?Q c"
      using cut_children_ok [of "fh_key ?K" "\<lambda>H x. fh_key H ! x < fh_key H ! w" ?Q, OF _ fK rK lK refl wK _ first, of "[]"] by auto
    have kH': "fh_key H' = fh_key ?K" using H'(4) by (simp add: str_frame_def)
    have "heap_order H' ch'" unfolding heap_order_def kH'
    proof clarify
      fix p x assume px: "(p, x) \<in> par ch'"
      have "fh_key H ! p \<le> fh_key H ! x" using px H'(5) ord by blast
      moreover have "p = w \<Longrightarrow> \<not> ?Q x" using px H'(6) by (auto simp: par_def)
      ultimately show "fh_key ?K ! p \<le> fh_key ?K ! x" using True key [of p] key [of x] key [of w] by (cases "p = w"; cases "x = w") auto
    qed
    then have "fib_ok H' ch'" using H'(2,3) by (simp add: fib_ok_def)
    moreover have "fibonacciHeap_ChangeKey H w a = Some (Inr H')" using lt True H'(1) by (simp add: fibonacciHeap_ChangeKey_def)
    ultimately show ?thesis using H'(4) by blast
  next
    case False
    let ?p = "fh_pred H ! w"
    show ?thesis
    proof (cases "is_child H w \<and> fh_key ?K ! ?p > a")
      case cut: True
      have wc: "w < fh_n ?K" "is_child ?K w" using lt(1) cut same(3) by simp_all
      obtain H' C where H': "fib_Cut ?K w = Some (Inr H')" "forest H' (\<lambda>y. filter (\<lambda>c. c \<notin> C) (ch y))" "ranks H' (\<lambda>y. filter (\<lambda>c. c \<notin> C) (ch y))"
        "str_frame ?K H'" "w \<in> C"
        using Cut_str [OF fK rK wc lK] by metis
      have kH': "fh_key H' = fh_key ?K" using H'(4) by (simp add: str_frame_def)
      have "heap_order H' (\<lambda>y. filter (\<lambda>c. c \<notin> C) (ch y))" unfolding heap_order_def kH'
      proof clarify
        fix p x assume "(p, x) \<in> par (\<lambda>y. filter (\<lambda>c. c \<notin> C) (ch y))"
        then have "(p, x) \<in> par ch" "x \<noteq> w" using H'(5) by (auto simp: par_def)
        then show "fh_key ?K ! p \<le> fh_key ?K ! x" using ord [of p x] False key [of p] key [of x] by auto
      qed
      then have "fib_ok H' (\<lambda>y. filter (\<lambda>c. c \<notin> C) (ch y))" using H'(2,3) by (simp add: fib_ok_def)
      moreover have "?p \<noteq> fh_UNDEFINED H" using d(5) [of w] lt(1) cut s(11) by (auto simp: mems_def)
      then have "fibonacciHeap_ChangeKey H w a = Some (Inr H')"
        using lt False H'(1) cut by (auto simp: fibonacciHeap_ChangeKey_def Let_def is_child_def)
      ultimately show ?thesis using H'(4) by blast
    next
      case keep: False
      have "heap_order ?K ch" unfolding heap_order_def
      proof clarify
        fix p x assume px: "(p, x) \<in> par ch"
        then have c: "is_child H x" "fh_pred H ! x = p" using d(4) [of x p] by (auto simp: par_def)
        show "fh_key ?K ! p \<le> fh_key ?K ! x"
        proof (cases "x = w")
          case True
          then show ?thesis using keep c key [of x] by auto
        next
          case False
          then show ?thesis using ord [OF px] \<open>\<not> fh_key H ! w < a\<close> key [of p] key [of x] by auto
        qed
      qed
      then have "fib_ok ?K ch" using fK rK by (simp add: fib_ok_def)
      moreover have "fibonacciHeap_ChangeKey H w a = Some (Inr ?K)"
        using lt False keep status_cases [of w H] w by (auto simp: fibonacciHeap_ChangeKey_def Let_def is_child_def roots_def)
      ultimately show ?thesis using str_frame_refl [OF lK] by blast
    qed
  qed
qed

lemma ChangeKey_least:
  assumes inv: "fib_inv H" and co: "chg_ok H w a" and w: "w \<in> mems H" and l: "length (fh_key H) = fh_n H" and n: "roots H \<noteq> {}"
  shows "fh_minimal H \<in> roots H" "\<forall>r \<in> roots H. (fh_key H)[w := a] ! fh_minimal H \<le> (fh_key H)[w := a] ! r"
proof -
  show m: "fh_minimal H \<in> roots H" using inv n by (simp add: fib_inv_def least_in_def)
  have key: "(fh_key H)[w := a] ! x = (if x = w then a else fh_key H ! x)" for x using w l by (simp add: mems_def nth_list_update)
  show "\<forall>r \<in> roots H. (fh_key H)[w := a] ! fh_minimal H \<le> (fh_key H)[w := a] ! r"
  proof
    fix r assume r: "r \<in> roots H"
    then have "fh_key H ! fh_minimal H \<le> fh_key H ! r" using inv n by (simp add: fib_inv_def least_in_def)
    moreover have "is_child H w \<Longrightarrow> w \<noteq> r" "is_child H w \<Longrightarrow> w \<noteq> fh_minimal H" using child_not_root r m by blast+
    ultimately show "(fh_key H)[w := a] ! fh_minimal H \<le> (fh_key H)[w := a] ! r"
      using co unfolding key chg_ok_def by (auto split: if_splits)
  qed
qed

lemma fib_ChangeKey_ok:
  assumes str: "fib_str H" and w: "w \<in> mems H"
  obtains H' where "fibonacciHeap_ChangeKey H w a = Some (Inr H')" "fib_str H'" "mems H' = mems H" "fh_key H' = (fh_key H)[w := a]" "fh_n H' = fh_n H"
    "fib_inv H \<Longrightarrow> chg_ok H w a \<Longrightarrow> fib_inv H'"
proof -
  obtain ch rs where ok: "fib_ok H ch" and rs: "links H rs" "set rs = roots H" and c: "fh_card H = card (mems H)"
    using str by (auto simp: fib_str_def)
  let ?K = "H\<lparr>fh_key := (fh_key H)[w := a]\<rparr>"
  obtain H' ch' where H': "fibonacciHeap_ChangeKey H w a = Some (Inr H')" "fib_ok H' ch'" "str_frame ?K H'"
    using ChangeKey_forest [OF ok rs w] by blast
  have same: "mems ?K = mems H" "roots ?K = roots H" by (simp_all add: mems_def roots_def)
  have e: "mems H' = mems H" "fh_key H' = (fh_key H)[w := a]" "fh_n H' = fh_n H" "fh_card H' = fh_card H" "\<exists>rs. links H' rs \<and> set rs = roots H'"
    using H'(3) unfolding str_frame_def same by simp_all
  have str': "fib_str H'" using H'(2) e c by (auto simp: fib_str_def)
  have "fib_inv H'" if "fib_inv H" "chg_ok H w a"
  proof -
    have "roots H \<noteq> {}" using root_below [OF ok w] by blast
    note le = ChangeKey_least [OF that w fib_shapeD(9) [OF fib_ok_shape [OF ok]] this]
    have "least_in H' (roots H')" by (rule str_frame_least [OF H'(3)]) (use le in \<open>simp_all add: same\<close>)
    then show ?thesis using str' by (simp add: fib_inv_def)
  qed
  then show thesis using that [OF H'(1) str' e(1-3)] by blast
qed

section \<open>The contract\<close>

lemma new_heap:
  assumes "length pred0 = nn" "length first0 = nn" "length next0 = nn" "length previous0 = nn" "length rank0 = nn" "length key0 = nn"
  shows "fib_inv (fibonacciHeap nn pred0 first0 next0 previous0 rank0 key0)" "mems (fibonacciHeap nn pred0 first0 next0 previous0 rank0 key0) = {}"
    "fh_n (fibonacciHeap nn pred0 first0 next0 previous0 rank0 key0) = nn"
proof -
  let ?H = "fibonacciHeap nn pred0 first0 next0 previous0 rank0 key0"
  have n: "fh_n ?H = nn" "fh_minimal ?H = nn" "fh_firstLink ?H = nn" "fh_card ?H = 0" by (simp_all add: fibonacciHeap_def)
  have m: "mems ?H = {}" "roots ?H = {}" by (auto simp: mems_def roots_def fibonacciHeap_def)
  have nc: "\<not> is_child ?H c" if "c < nn" for c using that by (simp add: is_child_def fibonacciHeap_def)
  have "fib_shape ?H" using assms by (simp add: fib_shape_def fibonacciHeap_def)
  then have "forest ?H (\<lambda>x. [])" unfolding forest_def using m nc n by (auto simp: par_def acyclic_def)
  then have "fib_ok ?H (\<lambda>x. [])" using m by (simp add: fib_ok_def ranks_def heap_order_def par_def)
  moreover have "links ?H []" using n by (simp add: links_def)
  ultimately show "fib_inv ?H" using m n by (auto simp: fib_inv_def fib_str_def least_in_def)
  show "mems ?H = {}" "fh_n ?H = nn" by (rule m n)+
qed

lemma inv_str: "fib_inv H \<Longrightarrow> fib_str H"
  by (simp add: fib_inv_def)

lemma str_card: "fib_str H \<Longrightarrow> fh_card H = card (mems H)"
  by (simp add: fib_str_def)

lemma str_empty: "fib_str H \<Longrightarrow> fh_card H = 0 \<longleftrightarrow> mems H = {}"
  using str_card [of H] mems_finite [of H] by simp

lemma Delete_ok:
  assumes str: "fib_str H" and m: "fh_minimal H \<in> mems H"
  obtains H' where "fibonacciHeap_Delete H = Some (Inr (fh_minimal H, H'))" "fib_inv H'" "mems H' = mems H - {fh_minimal H}"
    "fh_key H' = fh_key H" "fh_n H' = fh_n H"
proof -
  have "fh_card H \<noteq> 0" using str_empty [OF str] m by auto
  obtain H' where H': "fibonacciHeap_DeleteItem H (fh_minimal H) = Some (Inr H')" "fib_inv H'" "mems H' = mems H - {fh_minimal H}"
    "fh_key H' = fh_key H" "fh_n H' = fh_n H" by (rule DeleteItem_ok [OF str m])
  have "fibonacciHeap_Delete H = Some (Inr (fh_minimal H, H'))"
    using H'(1) \<open>fh_card H \<noteq> 0\<close> by (simp add: fibonacciHeap_Delete_def)
  then show thesis by (rule that [OF _ H'(2-5)])
qed

interpretation fibheap: prio_queue fib_inv mems "\<lambda>H x. fh_key H ! x" fh_n "\<lambda>a. True"
  fibonacciHeap_Empty fibonacciHeap_Cardinality "\<lambda>H. the (fibonacciHeap_Delete H)" fibonacciHeap_Peek fibonacciHeap_Insert
proof unfold_locales
  fix H assume inv: "fib_inv H"
  note str = inv_str [OF inv]
  show "finite (mems H) \<and> (\<forall>x \<in> mems H. x < fh_n H)" by (simp add: mems_def)
  show "fibonacciHeap_Empty H \<longleftrightarrow> mems H = {}" by (simp add: fibonacciHeap_Empty_def str_empty [OF str])
  show "fibonacciHeap_Cardinality H = card (mems H)" by (simp add: fibonacciHeap_Cardinality_def str_card [OF str])
  show "the (fibonacciHeap_Delete H) = Inl ERRejected" "fibonacciHeap_Peek H = Inl ERRejected" if "mems H = {}"
    using that str_empty [OF str] by (simp_all add: fibonacciHeap_Delete_def fibonacciHeap_Peek_def)
  show "\<exists>x q'. the (fibonacciHeap_Delete H) = Inr (x, q') \<and> fibonacciHeap_Peek H = Inr x \<and> x \<in> mems H \<and> (\<forall>y \<in> mems H. fh_key H ! x \<le> fh_key H ! y)
      \<and> mems q' = mems H - {x} \<and> (\<forall>y \<in> mems q'. fh_key q' ! y = fh_key H ! y) \<and> fh_n q' = fh_n H \<and> fib_inv q'" if ne: "mems H \<noteq> {}"
  proof -
    note m = inv_least [OF inv ne]
    obtain H' where "fibonacciHeap_Delete H = Some (Inr (fh_minimal H, H'))" "fib_inv H'" "mems H' = mems H - {fh_minimal H}"
      "fh_key H' = fh_key H" "fh_n H' = fh_n H" by (rule Delete_ok [OF str m(1)])
    moreover have "fibonacciHeap_Peek H = Inr (fh_minimal H)" using ne str_empty [OF str] by (simp add: fibonacciHeap_Peek_def)
    ultimately show ?thesis using m by simp
  qed
next
  fix H x a assume inv: "fib_inv H"
  show "fibonacciHeap_Insert H x a = Inl ERRange" if "fh_n H \<le> x" using that by (simp add: fibonacciHeap_Insert_def)
  show "\<exists>q'. fibonacciHeap_Insert H x a = Inr q' \<and> mems q' = insert x (mems H) \<and> (\<forall>y \<in> mems q'. fh_key q' ! y = (((!) (fh_key H))(x := a)) y)
      \<and> fh_n q' = fh_n H \<and> fib_inv q'" if x: "x < fh_n H" "x \<notin> mems H"
  proof -
    have "length (fh_key H) = fh_n H" using inv fib_ok_shape fib_shapeD(9) by (auto simp: fib_inv_def fib_str_def)
    then have upd: "(!) ((fh_key H)[x := a]) = ((!) (fh_key H))(x := a)" using x(1) by (simp add: nth_list_upd)
    obtain H' where "fibonacciHeap_Insert H x a = Inr H'" "mems H' = insert x (mems H)" "fh_key H' = (fh_key H)[x := a]" "fh_n H' = fh_n H" "fib_inv H'"
      using Insert_ok [OF inv_str [OF inv] x, of a] inv by metis
    then show ?thesis using upd by (auto simp: fun_eq_iff)
  qed
qed

lemma delete_all_ok: "fib_inv H \<Longrightarrow> \<exists>H'. fib_delete_all H = Some (Inr H') \<and> fib_inv H' \<and> mems H' = {}"
proof (induction "card (mems H)" arbitrary: H rule: less_induct)
  case less
  show ?case
  proof (cases "mems H = {}")
    case True
    then have "fib_delete_all H = Some (Inr H)" using fibheap.prio_empty [OF less.prems] by (subst fib_delete_all.simps) simp
    then show ?thesis using less.prems True by blast
  next
    case False
    obtain H' where H': "fibonacciHeap_Delete H = Some (Inr (fh_minimal H, H'))" "fib_inv H'" "mems H' = mems H - {fh_minimal H}"
      by (rule Delete_ok [OF inv_str [OF less.prems] inv_least(1) [OF less.prems False]])
    have "card (mems H') < card (mems H)" unfolding H'(3) by (rule card_Diff1_less [OF mems_finite inv_least(1) [OF less.prems False]])
    moreover have "fib_delete_all H = fib_delete_all H'" using False fibheap.prio_empty [OF less.prems] H'(1) by (subst fib_delete_all.simps) simp
    ultimately show ?thesis using less.hyps H'(2) by metis
  qed
qed

lemma Init_ok:
  assumes "fib_inv H"
  shows "\<exists>H'. fibonacciHeap_Init H = Some (Inr H') \<and> fib_inv H' \<and> mems H' = {}"
proof (cases "fh_card H * 100 < fh_n H")
  case True
  then show ?thesis using delete_all_ok [OF assms] by (simp add: fibonacciHeap_Init_def)
next
  case False
  have s: "fib_shape H" using assms fib_ok_shape by (auto simp: fib_inv_def fib_str_def)
  note d = fib_shapeD [OF s]
  have "fibonacciHeap_Init H = Some (Inr ((fibonacciHeap (fh_n H) (fh_pred H) (fh_first H) (fh_next H) (fh_previous H) (fh_rank H) (fh_key H))))"
    using False d(10,11) by (simp add: fibonacciHeap_Init_def fibonacciHeap_def)
  then show ?thesis using new_heap [OF d(1-5,9)] by blast
qed

section \<open>Histories\<close>

text \<open>What every call keeps, \<open>ChangeKey\<close> included: \<open>minimal\<close> is a root, though perhaps not one of least key.\<close>

definition fib_weak :: "fibonacci_heap \<Rightarrow> bool" where
  "fib_weak H \<longleftrightarrow> fib_str H \<and> (if mems H = {} then fh_minimal H = fh_n H else fh_minimal H \<in> roots H)"

lemma weak_str: "fib_weak H \<Longrightarrow> fib_str H"
  by (simp add: fib_weak_def)

lemma inv_weak: "fib_inv H \<Longrightarrow> fib_weak H"
proof -
  assume inv: "fib_inv H"
  then obtain ch where ok: "fib_ok H ch" by (auto simp: fib_inv_def fib_str_def)
  have "roots H = {} \<longleftrightarrow> mems H = {}" using root_below [OF ok] roots_mems [of H] by blast
  then show ?thesis using inv by (auto simp: fib_inv_def fib_weak_def least_in_def)
qed

lemma Insert_weak:
  assumes weak: "fib_weak H" and r: "fibonacciHeap_Insert H w a = Inr H'"
  shows "fib_weak H' \<and> fh_n H' = fh_n H"
proof -
  have w: "w < fh_n H" "w \<notin> mems H" using r by (auto simp: fibonacciHeap_Insert_def mems_def split: if_splits)
  obtain H2 where H2: "fibonacciHeap_Insert H w a = Inr H2" "fib_str H2" "mems H2 = insert w (mems H)" "fh_n H2 = fh_n H" "roots H2 = insert w (roots H)"
    "fh_minimal H2 = w \<or> fh_minimal H2 = fh_minimal H \<and> fh_minimal H \<noteq> fh_n H"
    using Insert_ok [OF weak_str [OF weak] w, of a] by metis
  have "fh_minimal H \<noteq> fh_n H \<Longrightarrow> fh_minimal H \<in> roots H" using weak by (simp add: fib_weak_def split: if_splits)
  then have "fh_minimal H2 \<in> roots H2" unfolding H2(5) using H2(6) by (metis insert_iff)
  then show ?thesis using H2(1-4) r by (simp add: fib_weak_def)
qed

lemma ChangeKey_weak:
  assumes weak: "fib_weak H" and w: "w \<in> mems H"
  shows "\<exists>H'. fibonacciHeap_ChangeKey H w a = Some (Inr H') \<and> fib_weak H' \<and> mems H' = mems H \<and> fh_key H' = (fh_key H)[w := a] \<and> fh_n H' = fh_n H"
proof -
  obtain ch rs where ok: "fib_ok H ch" and rs: "links H rs" "set rs = roots H" using weak by (auto simp: fib_weak_def fib_str_def)
  obtain H' ch' where H': "fibonacciHeap_ChangeKey H w a = Some (Inr H')" "str_frame (H\<lparr>fh_key := (fh_key H)[w := a]\<rparr>) H'"
    using ChangeKey_forest [OF ok rs w] by blast
  obtain H2 where H2: "fibonacciHeap_ChangeKey H w a = Some (Inr H2)" "fib_str H2" "mems H2 = mems H" "fh_key H2 = (fh_key H)[w := a]" "fh_n H2 = fh_n H"
    by (rule fib_ChangeKey_ok [OF weak_str [OF weak] w])
  have eq: "H2 = H'" using H'(1) H2(1) by simp
  have "fh_minimal H \<in> roots (H\<lparr>fh_key := (fh_key H)[w := a]\<rparr>)" using weak w by (auto simp: fib_weak_def roots_def split: if_splits)
  then have "fh_minimal H' \<in> roots H'" using H'(2) unfolding str_frame_def by simp
  then show ?thesis using H2 w by (auto simp: eq fib_weak_def)
qed

inductive fib_history :: "nat \<Rightarrow> fibonacci_heap \<Rightarrow> bool" for nn where
  fib_new: "length pred0 = nn \<Longrightarrow> length first0 = nn \<Longrightarrow> length next0 = nn \<Longrightarrow> length previous0 = nn \<Longrightarrow> length rank0 = nn \<Longrightarrow> length key0 = nn \<Longrightarrow>
    fib_history nn (fibonacciHeap nn pred0 first0 next0 previous0 rank0 key0)"
| fib_insert: "fib_history nn H \<Longrightarrow> fibonacciHeap_Insert H w a = Inr H' \<Longrightarrow> fib_history nn H'"
| fib_change: "fib_history nn H \<Longrightarrow> fibonacciHeap_ChangeKey H w a = Some (Inr H') \<Longrightarrow> fib_history nn H'"
| fib_delete: "fib_history nn H \<Longrightarrow> fibonacciHeap_Delete H = Some (Inr (x, H')) \<Longrightarrow> fib_history nn H'"
| fib_remove: "fib_history nn H \<Longrightarrow> fibonacciHeap_DeleteItem H w = Some (Inr H') \<Longrightarrow> fib_history nn H'"

lemma fib_history_weak: "fib_history nn H \<Longrightarrow> fib_weak H \<and> fh_n H = nn"
proof (induction rule: fib_history.induct)
  case (fib_new pred0 first0 next0 previous0 rank0 key0)
  note H = new_heap [OF fib_new.hyps]
  show ?case using inv_weak [OF H(1)] H(3) by simp
next
  case (fib_insert H w a H')
  then show ?case using Insert_weak by auto
next
  case (fib_change H w a H')
  have "w \<in> mems H" using fib_change.hyps(2) by (auto simp: fibonacciHeap_ChangeKey_def mems_def split: if_splits)
  then show ?case using ChangeKey_weak [of H w a] fib_change by auto
next
  case (fib_delete H x H')
  have weak: "fib_weak H" "fh_n H = nn" using fib_delete.IH by simp_all
  have "fh_card H \<noteq> 0" using fib_delete.hyps(2) by (auto simp: fibonacciHeap_Delete_def split: if_splits)
  then have "mems H \<noteq> {}" using str_empty [OF weak_str [OF weak(1)]] by simp
  then have "fh_minimal H \<in> mems H" using weak(1) roots_mems [of H] by (auto simp: fib_weak_def)
  then obtain H2 where H2: "fibonacciHeap_Delete H = Some (Inr (fh_minimal H, H2))" "fib_inv H2" "fh_n H2 = fh_n H"
    using Delete_ok [OF weak_str [OF weak(1)]] by metis
  then show ?case using fib_delete.hyps(2) weak(2) inv_weak [OF H2(2)] by simp
next
  case (fib_remove H w H')
  have weak: "fib_weak H" "fh_n H = nn" using fib_remove.IH by simp_all
  have "w \<in> mems H" using fib_remove.hyps(2) by (auto simp: fibonacciHeap_DeleteItem_def mems_def split: if_splits)
  then obtain H2 where H2: "fibonacciHeap_DeleteItem H w = Some (Inr H2)" "fib_inv H2" "fh_n H2 = fh_n H"
    using DeleteItem_ok [OF weak_str [OF weak(1)]] by metis
  then show ?case using fib_remove.hyps(2) weak(2) inv_weak [OF H2(2)] by simp
qed

section \<open>Properties\<close>



text \<open>
  C7: After any history of \<open>Insert\<close>, \<open>ChangeKey\<close>, \<open>Delete\<close> and \<open>Delete(w)\<close> calls, \<open>Delete(w)\<close> on a member returns: it removes \<open>w\<close>,
  keeps the other members with their keys, and restores the minimum, so that \<open>Peek\<close> returns a member of least
  key if one is left. \<open>ChangeKey\<close> on a member returns, changes its key and no other, and keeps the members.
\<close>

theorem fibonacciHeap_history_deletes:
  assumes "fib_history nn H" and "w \<in> mems H"
  shows "(\<exists>H'. fibonacciHeap_DeleteItem H w = Some (Inr H') \<and> mems H' = mems H - {w} \<and> fh_key H' = fh_key H
      \<and> (mems H' \<noteq> {} \<longrightarrow> (\<exists>m \<in> mems H'. fibonacciHeap_Peek H' = Inr m \<and> (\<forall>y \<in> mems H'. fh_key H' ! m \<le> fh_key H' ! y))))
    \<and> (\<exists>H'. fibonacciHeap_ChangeKey H w a = Some (Inr H') \<and> mems H' = mems H \<and> fh_key H' = (fh_key H)[w := a])"
proof -
  have weak: "fib_weak H" using fib_history_weak [OF assms(1)] by blast
  obtain H' where H': "fibonacciHeap_DeleteItem H w = Some (Inr H')" "fib_inv H'" "mems H' = mems H - {w}" "fh_key H' = fh_key H"
    by (rule DeleteItem_ok [OF weak_str [OF weak] assms(2)])
  have "\<exists>m \<in> mems H'. fibonacciHeap_Peek H' = Inr m \<and> (\<forall>y \<in> mems H'. fh_key H' ! m \<le> fh_key H' ! y)" if "mems H' \<noteq> {}"
    using inv_least [OF H'(2) that] str_empty [OF inv_str [OF H'(2)]] that by (auto simp: fibonacciHeap_Peek_def)
  then show ?thesis using H' ChangeKey_weak [OF weak assms(2), of a] by blast
qed

lemma fib_example:
  obtains H where "fib_history 2 H" "mems H = {0, 1}" "fh_key H = [1, 2]"
proof -
  let ?E = "fibonacciHeap 2 [0, 0] [0, 0] [0, 0] [0, 0] [0, 0] [0, 0]"
  have h: "fib_history 2 ?E" by (rule fib_new) simp_all
  have e: "fib_inv ?E" "mems ?E = {}" "fh_n ?E = 2" by (rule new_heap; simp)+
  have p: "0 < fh_n ?E" "0 \<notin> mems ?E" using e(2,3) by simp_all
  obtain H1 where H1: "fibonacciHeap_Insert ?E 0 1 = Inr H1" "fib_str H1" "mems H1 = insert 0 (mems ?E)" "fh_key H1 = (fh_key ?E)[0 := 1]" "fh_n H1 = fh_n ?E"
    using Insert_ok [OF inv_str [OF e(1)] p, of 1] by metis
  have q: "1 < fh_n H1" "1 \<notin> mems H1" using e(2,3) H1(3,5) by simp_all
  obtain H2 where H2: "fibonacciHeap_Insert H1 1 2 = Inr H2" "mems H2 = insert 1 (mems H1)" "fh_key H2 = (fh_key H1)[1 := 2]"
    using Insert_ok [OF H1(2) q, of 2] by metis
  show thesis
    by (rule that [of H2]) (use fib_insert [OF fib_insert [OF h H1(1)] H2(1)] H2(2,3) H1(3,4) e(2) in \<open>auto simp: fibonacciHeap_def\<close>)
qed

theorem fibonacciHeap_history_deletes_witness:
  "\<exists>H H'. fib_history 2 H \<and> fibonacciHeap_DeleteItem H 0 = Some (Inr H') \<and> fibonacciHeap_Peek H' = Inr 1"
proof -
  obtain H where H: "fib_history 2 H" "mems H = {0, 1}" by (rule fib_example)
  have "0 \<in> mems H" using H(2) by simp
  from fibonacciHeap_history_deletes [OF H(1) this, of 0] H(2) show ?thesis using H(1) by fastforce
qed

text \<open>
  \<open>ChangeKey\<close> does not maintain the minimum. With two items of keys 1 and 2, decreasing the key of the second item, a
  root, to 0, or increasing the key of the first one, the minimum, to 5, leaves \<open>minimal\<close> at the first item: \<open>Peek\<close> and
  \<open>Delete\<close> then return an item that does not have the least key.
\<close>

theorem fibonacciHeap_ChangeKey_misses_minimum:
  "\<exists>H H1 H2. rbind (fibonacciHeap_Insert (fibonacciHeap 2 [0, 0] [0, 0] [0, 0] [0, 0] [0, 0] [0, 0]) 0 1) (\<lambda>H. fibonacciHeap_Insert H 1 2) = Inr H
    \<and> fibonacciHeap_ChangeKey H 1 0 = Some (Inr H1) \<and> fibonacciHeap_Peek H1 = Inr 0 \<and> fibonacciHeap_Key H1 0 = Inr 1 \<and> fibonacciHeap_Key H1 1 = Inr 0
    \<and> fibonacciHeap_ChangeKey H 0 5 = Some (Inr H2) \<and> fibonacciHeap_Peek H2 = Inr 0 \<and> fibonacciHeap_Key H2 0 = Inr 5 \<and> fibonacciHeap_Key H2 1 = Inr 2"
proof -
  let ?H = "\<lparr>fh_pred = [0, 0], fh_first = [2, 2], fh_next = [0, 0], fh_previous = [0, 0], fh_rank = [0, 0], fh_status = [ROOT_NODE, ROOT_NODE],
    fh_bucket = [2, 2], fh_nextLink = [2, 0], fh_key = [1, 2], fh_card = 2, fh_n = 2, fh_k = 2, fh_minimal = 0, fh_firstLink = 1, fh_UNDEFINED = 2\<rparr>"
  have ins: "rbind (fibonacciHeap_Insert (fibonacciHeap 2 [0, 0] [0, 0] [0, 0] [0, 0] [0, 0] [0, 0]) 0 1) (\<lambda>H. fibonacciHeap_Insert H 1 2) = Inr ?H"
    by (simp add: fibonacciHeap_def fibonacciHeap_Insert_def fib_Push_def fib_minimum_def numeral_2_eq_2)
  have down: "fibonacciHeap_ChangeKey ?H 1 0 = Some (Inr (?H\<lparr>fh_key := [1, 0]\<rparr>))" by (simp add: fibonacciHeap_ChangeKey_def)
  have up: "fibonacciHeap_ChangeKey ?H 0 5 = Some (Inr (?H\<lparr>fh_key := [5, 2]\<rparr>))"
    by (simp add: fibonacciHeap_ChangeKey_def fib_cut_children.simps)
  show ?thesis
    by (intro exI [of _ ?H] exI [of _ "?H\<lparr>fh_key := [1, 0]\<rparr>"] exI [of _ "?H\<lparr>fh_key := [5, 2]\<rparr>"] conjI ins down up)
       (simp_all add: fibonacciHeap_Peek_def fibonacciHeap_Key_def)
qed

end
