(* ===== verification/Disjoint_Family.thy ===== *)
theory Disjoint_Family
  imports Goblin_Prelude
begin

text \<open>
  The union-find structure (\<^verbatim>\<open>include/disjointFamily.h\<close>, \<^verbatim>\<open>lib_src/disjointFamily.cpp\<close>): \<open>B\<close>
  holds the parent of every element, \<open>B[v] == v\<close> for a canonical element and
  \<open>B[v] == UNDEFINED\<close> for an element of no set. \<open>Find\<close> is recursive and, with
  \<open>methDSU == 1\<close>, compresses paths. The context parameters \<open>logWarn\<close> and \<open>methDSU == 1\<close> are
  the arguments \<open>lw\<close> and \<open>c\<close>.
\<close>

section \<open>The class\<close>

record disjoint_family =
  df_B :: "nat list"
  df_rank :: "nat list"
  df_n :: nat
  df_UNDEFINED :: nat

definition disjointFamily_Init :: "disjoint_family \<Rightarrow> disjoint_family" where
  "disjointFamily_Init D = D\<lparr>df_B := replicate (df_n D) (df_UNDEFINED D)\<rparr>"

text \<open>The first contents of the allocated arrays are arguments.\<close>

definition disjointFamily :: "nat \<Rightarrow> nat list \<Rightarrow> nat list \<Rightarrow> disjoint_family" where
  "disjointFamily nn B0 rank0 =
     disjointFamily_Init \<lparr>df_B = B0, df_rank = rank0, df_n = nn, df_UNDEFINED = nn\<rparr>"

definition disjointFamily_Bud :: "bool \<Rightarrow> disjoint_family \<Rightarrow> nat \<Rightarrow> disjoint_family result" where
  "disjointFamily_Bud lw D v =
     (if lw \<and> v \<ge> df_n D then Inl ERRange
      else if v \<ge> df_n D then Inl OutOfBounds
      else Inr (D\<lparr>df_B := (df_B D)[v := v], df_rank := (df_rank D)[v := 1]\<rparr>))"

definition df_compress :: "bool \<Rightarrow> disjoint_family \<Rightarrow> nat \<Rightarrow> nat \<Rightarrow> disjoint_family" where
  "df_compress c D v w = (if c \<and> df_B D ! v \<noteq> w then D\<lparr>df_B := (df_B D)[v := w]\<rparr> else D)"

partial_function (option) disjointFamily_Find ::
  "bool \<Rightarrow> bool \<Rightarrow> disjoint_family \<Rightarrow> nat \<Rightarrow> (nat \<times> disjoint_family) result option" where
  "disjointFamily_Find lw c D v =
     (if lw \<and> (v \<ge> df_n D \<or> df_B D ! v = df_UNDEFINED D) then Some (Inl ERRange)
      else if v \<ge> df_n D then Some (Inl OutOfBounds)
      else if df_B D ! v \<noteq> v
      then Option.bind (disjointFamily_Find lw c D (df_B D ! v))
             (\<lambda>r. Some (rbind r (\<lambda>(w, D'). Inr (w, df_compress c D' v w))))
      else Some (Inr (v, df_compress c D v v)))"

declare disjointFamily_Find.simps [code]

definition disjointFamily_Merge ::
  "bool \<Rightarrow> bool \<Rightarrow> disjoint_family \<Rightarrow> nat \<Rightarrow> nat \<Rightarrow> disjoint_family result option" where
  "disjointFamily_Merge lw c D u0 v0 =
     (if u0 \<ge> df_n D \<or> df_B D ! u0 = df_UNDEFINED D then Some (Inl ERRange)
      else if v0 \<ge> df_n D \<or> df_B D ! v0 = df_UNDEFINED D then Some (Inl ERRange)
      else Option.bind (disjointFamily_Find lw c D u0) (\<lambda>r1. case r1 of
          Inl e \<Rightarrow> Some (Inl e)
        | Inr (u, D1) \<Rightarrow> Option.bind (disjointFamily_Find lw c D1 v0) (\<lambda>r2. case r2 of
              Inl e \<Rightarrow> Some (Inl e)
            | Inr (v, D2) \<Rightarrow> Some (Inr
                (if df_rank D2 ! u < df_rank D2 ! v then D2\<lparr>df_B := (df_B D2)[u := v]\<rparr>
                 else let D3 = D2\<lparr>df_B := (df_B D2)[v := u]\<rparr>
                      in if df_rank D3 ! v = df_rank D3 ! u \<and> u \<noteq> v
                         then D3\<lparr>df_rank := (df_rank D3)[u := df_rank D3 ! u + 1]\<rparr>
                         else D3)))))"

section \<open>Canonical elements\<close>

text \<open>\<open>canon B v r k\<close>: following \<open>B\<close> from \<open>v\<close> ends at the canonical element \<open>r\<close> after \<open>k\<close> calls of \<open>Find\<close>.\<close>

inductive canon :: "nat list \<Rightarrow> nat \<Rightarrow> nat \<Rightarrow> nat \<Rightarrow> bool" for B where
  canon_root: "v < length B \<Longrightarrow> B ! v = v \<Longrightarrow> canon B v v 1"
| canon_step: "v < length B \<Longrightarrow> B ! v \<noteq> v \<Longrightarrow> canon B (B ! v) r k \<Longrightarrow> canon B v r (Suc k)"

inductive_cases canon_rootE: "canon B v r k"

definition in_set_of :: "nat list \<Rightarrow> nat \<Rightarrow> nat \<Rightarrow> bool" where
  "in_set_of B v r \<longleftrightarrow> (\<exists>k. canon B v r k)"

lemma canon_bound: "canon B v r k \<Longrightarrow> v < length B \<and> r < length B \<and> B ! r = r"
  by (induction rule: canon.induct) auto

lemma canon_unique: "canon B v r k \<Longrightarrow> canon B v r' k' \<Longrightarrow> r = r' \<and> k = k'"
proof (induction arbitrary: r' k' rule: canon.induct)
  case (canon_root v)
  from canon_root(3) show ?case by (rule canon_rootE) (use canon_root(2) in auto)
next
  case (canon_step v r k)
  from canon_step(5) obtain k'' where "canon B (B ! v) r' k''" "k' = Suc k''"
    by (rule canon_rootE) (use canon_step(2) in auto)
  with canon_step.IH show ?case by blast
qed

lemma in_set_of_bound:
  "in_set_of B v r \<Longrightarrow> v < length B" "in_set_of B v r \<Longrightarrow> r < length B" "in_set_of B v r \<Longrightarrow> B ! r = r"
  by (auto simp: in_set_of_def dest: canon_bound)

lemma in_set_of_unique: "in_set_of B v r \<Longrightarrow> in_set_of B v r' \<Longrightarrow> r = r'"
  by (auto simp: in_set_of_def dest: canon_unique)

lemma in_set_of_root: "v < length B \<Longrightarrow> B ! v = v \<Longrightarrow> in_set_of B v r \<longleftrightarrow> r = v"
  by (metis canon_root canon_unique in_set_of_def)

lemma in_set_of_step:
  "v < length B \<Longrightarrow> B ! v \<noteq> v \<Longrightarrow> in_set_of B v r \<longleftrightarrow> in_set_of B (B ! v) r"
  unfolding in_set_of_def by (metis canon.cases canon_step)

lemma in_set_of_induct [consumes 1, case_names root step]:
  assumes "in_set_of B v r"
    and "\<And>v. v < length B \<Longrightarrow> B ! v = v \<Longrightarrow> P v v"
    and "\<And>v r. v < length B \<Longrightarrow> B ! v \<noteq> v \<Longrightarrow> in_set_of B (B ! v) r \<Longrightarrow> P (B ! v) r \<Longrightarrow> P v r"
  shows "P v r"
proof -
  from assms(1) obtain k where "canon B v r k" by (auto simp: in_set_of_def)
  then show ?thesis
  proof (induction rule: canon.induct)
    case (canon_step v r k)
    then have "in_set_of B (B ! v) r" by (auto simp: in_set_of_def)
    with canon_step show ?case by (auto intro: assms(3))
  qed (simp add: assms(2))
qed

text \<open>Path compression changes no set.\<close>

lemma compress_sets:
  assumes "in_set_of B v w"
  shows "in_set_of (B[v := w]) x s \<longleftrightarrow> in_set_of B x s"
proof
  note b = in_set_of_bound [OF assms]
  assume "in_set_of (B[v := w]) x s"
  then show "in_set_of B x s"
  proof (induction rule: in_set_of_induct)
    case (root x)
    then show ?case using assms by (cases "x = v") (auto simp: in_set_of_root)
  next
    case (step x s)
    show ?case
    proof (cases "x = v")
      case True
      with step b have "in_set_of B w s" by simp
      with b have "s = w" by (simp add: in_set_of_root)
      with True assms show ?thesis by simp
    next
      case False
      with step show ?thesis by (simp add: in_set_of_step)
    qed
  qed
next
  note b = in_set_of_bound [OF assms]
  assume "in_set_of B x s"
  then show "in_set_of (B[v := w]) x s"
  proof (induction rule: in_set_of_induct)
    case (root x)
    have "B[v := w] ! x = x"
      using root assms in_set_of_root [of x B w] by (cases "x = v") auto
    with root show ?case by (simp add: in_set_of_root)
  next
    case (step x s)
    show ?case
    proof (cases "x = v")
      case True
      with step assms have "s = w" using in_set_of_step in_set_of_unique by blast
      have "w \<noteq> v" using True step b by auto
      then have "B[v := w] ! w = w" using b by simp
      with True step b \<open>s = w\<close> \<open>w \<noteq> v\<close> show ?thesis
        by (subst in_set_of_step) (auto simp: in_set_of_root)
    next
      case False
      with step show ?thesis by (subst in_set_of_step) auto
    qed
  qed
qed

text \<open>Hanging the canonical element \<open>u\<close> under the canonical element \<open>v\<close> joins the two sets.\<close>

lemma link_sets:
  assumes "u < length B" "B ! u = u" "v < length B" "B ! v = v"
  shows "in_set_of (B[u := v]) x s \<longleftrightarrow> (\<exists>t. in_set_of B x t \<and> s = (if t = u then v else t))"
proof
  assume "in_set_of (B[u := v]) x s"
  then show "\<exists>t. in_set_of B x t \<and> s = (if t = u then v else t)"
  proof (induction rule: in_set_of_induct)
    case (root x)
    then show ?case using assms by (cases "x = u") (auto simp: in_set_of_root)
  next
    case (step x s)
    show ?case
    proof (cases "x = u")
      case True
      with step assms have "s = v" by (auto simp: in_set_of_root split: if_splits)
      with True assms show ?thesis by (auto simp: in_set_of_root)
    next
      case False
      with step show ?thesis by (simp add: in_set_of_step)
    qed
  qed
next
  have v: "in_set_of (B[u := v]) v v"
    using assms by (cases "u = v") (auto simp: in_set_of_root)
  assume "\<exists>t. in_set_of B x t \<and> s = (if t = u then v else t)"
  then obtain t where t: "in_set_of B x t" and s: "s = (if t = u then v else t)" by blast
  from t have "in_set_of (B[u := v]) x (if t = u then v else t)"
  proof (induction rule: in_set_of_induct)
    case (root x)
    then show ?case
    proof (cases "x = u")
      case True
      with v assms show ?thesis
        by (cases "u = v") (auto simp: in_set_of_step)
    next
      case False
      with root show ?thesis by (simp add: in_set_of_root)
    qed
  next
    case (step x t)
    then have "x \<noteq> u" using assms by auto
    with step show ?case by (subst in_set_of_step) auto
  qed
  with s show "in_set_of (B[u := v]) x s" by simp
qed

section \<open>Invariant\<close>

text \<open>
  Ranks grow towards the canonical elements, and a set whose canonical element has rank \<open>k\<close> has
  at least \<open>2 ^ (k - 1)\<close> elements.
\<close>

definition df_inv :: "disjoint_family \<Rightarrow> bool" where
  "df_inv D \<longleftrightarrow> length (df_B D) = df_n D \<and> length (df_rank D) = df_n D \<and> df_UNDEFINED D = df_n D
     \<and> (\<forall>v < df_n D. df_B D ! v \<noteq> df_n D \<longrightarrow> df_B D ! v < df_n D \<and> df_B D ! (df_B D ! v) \<noteq> df_n D
          \<and> 1 \<le> df_rank D ! v \<and> (df_B D ! v \<noteq> v \<longrightarrow> df_rank D ! v < df_rank D ! (df_B D ! v)))
     \<and> (\<forall>r < df_n D. df_B D ! r = r \<longrightarrow> 2 ^ (df_rank D ! r) \<le> 2 * card {x. in_set_of (df_B D) x r})"

abbreviation df_sets :: "disjoint_family \<Rightarrow> nat \<Rightarrow> nat \<Rightarrow> bool" where
  "df_sets D \<equiv> in_set_of (df_B D)"

lemma df_invD:
  assumes "df_inv D"
  shows "length (df_B D) = df_n D" "length (df_rank D) = df_n D" "df_UNDEFINED D = df_n D"
    and "v < df_n D \<Longrightarrow> df_B D ! v \<noteq> df_n D \<Longrightarrow> df_B D ! v < df_n D"
    and "v < df_n D \<Longrightarrow> df_B D ! v \<noteq> df_n D \<Longrightarrow> df_B D ! (df_B D ! v) \<noteq> df_n D"
    and "v < df_n D \<Longrightarrow> df_B D ! v \<noteq> df_n D \<Longrightarrow> 1 \<le> df_rank D ! v"
    and "v < df_n D \<Longrightarrow> df_B D ! v \<noteq> df_n D \<Longrightarrow> df_B D ! v \<noteq> v \<Longrightarrow>
      df_rank D ! v < df_rank D ! (df_B D ! v)"
    and "r < df_n D \<Longrightarrow> df_B D ! r = r \<Longrightarrow> 2 ^ (df_rank D ! r) \<le> 2 * card {x. df_sets D x r}"
  using assms by (auto simp: df_inv_def)

lemma df_sets_defined:
  assumes "df_inv D" "df_sets D v r"
  shows "df_B D ! v \<noteq> df_n D"
proof
  assume u: "df_B D ! v = df_n D"
  note b = in_set_of_bound(1) [OF assms(2)] and l = df_invD(1) [OF assms(1)]
  then have "df_sets D (df_n D) r" using assms(2) u in_set_of_step [of v "df_B D" r] by simp
  from in_set_of_bound(1) [OF this] l show False by simp
qed

lemma df_canon_rank:
  assumes "df_inv D" "canon (df_B D) v r k"
  shows "df_rank D ! v + k \<le> Suc (df_rank D ! r)"
  using assms(2)
proof (induction rule: canon.induct)
  case (canon_step v r k)
  then have "canon (df_B D) v r (Suc k)" by (intro canon.canon_step)
  then have "df_B D ! v \<noteq> df_n D" using df_sets_defined [OF assms(1)] by (auto simp: in_set_of_def)
  with canon_step df_invD(7) [OF assms(1), of v] df_invD(1) [OF assms(1)] show ?case by simp
qed simp

lemma df_sets_rank:
  assumes "df_inv D" "df_sets D v r" "v \<noteq> r"
  shows "df_rank D ! v < df_rank D ! r"
proof -
  from assms(2) obtain k where k: "canon (df_B D) v r k" by (auto simp: in_set_of_def)
  then have "1 < k" by (cases rule: canon.cases) (use assms(3) in \<open>auto elim: canon.cases\<close>)
  with df_canon_rank [OF assms(1) k] show ?thesis by simp
qed

lemma df_compress_inv:
  assumes inv: "df_inv D" and w: "df_sets D v w"
  shows "df_inv (df_compress c D v w)" and "df_sets (df_compress c D v w) = df_sets D"
    and "df_rank (df_compress c D v w) = df_rank D" and "df_n (df_compress c D v w) = df_n D"
proof -
  let ?D = "D\<lparr>df_B := (df_B D)[v := w]\<rparr>" and ?B = "(df_B D)[v := w]"
  note d = df_invD [OF inv]
  have sets: "df_sets ?D = df_sets D" using compress_sets [OF w] by (simp add: fun_eq_iff)
  note b = in_set_of_bound [OF w, unfolded d(1)]
  have nth: "?B ! x = (if x = v then w else df_B D ! x)" for x
    using b(1) d(1) by (simp add: nth_list_update)
  have def: "?B ! x \<noteq> df_n D" if "df_B D ! x \<noteq> df_n D" for x
    using that b by (simp add: nth)
  have "df_inv ?D"
    unfolding df_inv_def
  proof (intro conjI allI impI)
    fix x
    assume x: "x < df_n ?D" "df_B ?D ! x \<noteq> df_n ?D"
    then have x': "x < df_n D" "df_B D ! x \<noteq> df_n D"
      using df_sets_defined [OF inv w] by (auto simp: nth split: if_splits)
    show "df_B ?D ! x < df_n ?D" using b d(4) [OF x'] by (simp add: nth)
    show "df_B ?D ! (df_B ?D ! x) \<noteq> df_n ?D"
      using b d(5) [OF x'] def [of w] def [of "df_B D ! x"] by (auto simp: nth)
    show "1 \<le> df_rank ?D ! x" using d(6) [OF x'] by simp
    show "df_rank ?D ! x < df_rank ?D ! (df_B ?D ! x)" if "df_B ?D ! x \<noteq> x"
      using that d(7) [OF x'] df_sets_rank [OF inv w] by (auto simp: nth split: if_splits)
  next
    fix r
    assume "r < df_n ?D" "df_B ?D ! r = r"
    then have "r < df_n D" "df_B D ! r = r"
      using w b in_set_of_bound(3) [OF w] by (auto simp: nth split: if_splits)
    with d(8) sets show "2 ^ (df_rank ?D ! r) \<le> 2 * card {x. df_sets ?D x r}" by simp
  qed (use d in simp_all)
  with inv sets show "df_inv (df_compress c D v w)" "df_sets (df_compress c D v w) = df_sets D"
    "df_rank (df_compress c D v w) = df_rank D" "df_n (df_compress c D v w) = df_n D"
    by (simp_all add: df_compress_def)
qed

text \<open>\<open>Find\<close> returns the canonical element and leaves the sets as they are.\<close>

lemma Find_canonical:
  assumes inv: "df_inv D"
  shows "v < df_n D \<Longrightarrow> df_B D ! v \<noteq> df_n D \<Longrightarrow>
    \<exists>r D'. disjointFamily_Find lw c D v = Some (Inr (r, D')) \<and> df_sets D v r \<and> df_inv D'
      \<and> df_sets D' = df_sets D \<and> df_rank D' = df_rank D \<and> df_n D' = df_n D"
proof (induction "Max (set (df_rank D)) - df_rank D ! v" arbitrary: v rule: less_induct)
  case less
  note d = df_invD [OF inv]
  have go: "\<not> (lw \<and> (v \<ge> df_n D \<or> df_B D ! v = df_UNDEFINED D))" "\<not> v \<ge> df_n D"
    using less.prems d(3) by simp_all
  show ?case
  proof (cases "df_B D ! v = v")
    case True
    then have "df_sets D v v" using less.prems d(1) by (simp add: in_set_of_root)
    with True go show ?thesis
      using df_compress_inv [OF inv \<open>df_sets D v v\<close>, of c]
      by (subst disjointFamily_Find.simps) simp
  next
    case False
    let ?p = "df_B D ! v"
    have p: "?p < df_n D" "df_B D ! ?p \<noteq> df_n D" using d(4,5) less.prems by simp_all
    have "df_rank D ! v < df_rank D ! ?p" using d(7) less.prems False by simp
    moreover have "df_rank D ! ?p \<le> Max (set (df_rank D))" using p(1) d(2) by simp
    ultimately have "Max (set (df_rank D)) - df_rank D ! ?p < Max (set (df_rank D)) - df_rank D ! v"
      by linarith
    from less.hyps [OF this p] obtain r D' where f: "disjointFamily_Find lw c D ?p = Some (Inr (r, D'))"
      "df_sets D ?p r" "df_inv D'" "df_sets D' = df_sets D" "df_rank D' = df_rank D" "df_n D' = df_n D"
      by blast
    then have r: "df_sets D v r" "df_sets D' v r"
      using False less.prems d(1) by (simp_all add: in_set_of_step)
    from df_compress_inv [OF f(3) r(2), of c] f r go False show ?thesis
      by (subst disjointFamily_Find.simps) simp
  qed
qed

section \<open>Starting and joining sets\<close>

lemma Bud_sets:
  assumes inv: "df_inv D" and v: "v < df_n D" "df_B D ! v = df_n D"
  shows "in_set_of ((df_B D)[v := v]) x s \<longleftrightarrow> df_sets D x s \<or> x = v \<and> s = v"
proof
  note d = df_invD [OF inv]
  assume "in_set_of ((df_B D)[v := v]) x s"
  then show "df_sets D x s \<or> x = v \<and> s = v"
  proof (induction rule: in_set_of_induct)
    case (root x)
    then show ?case by (cases "x = v") (simp_all add: in_set_of_root)
  next
    case (step x s)
    then have x: "x \<noteq> v" "x < df_n D" using v d(1) by auto
    with step have "df_B D ! x \<noteq> df_n D" using in_set_of_bound(1) d(1) by fastforce
    with x d(5) [of x] v have "df_B D ! x \<noteq> v" by auto
    with step x d(1) show ?case by (simp add: in_set_of_step)
  qed
next
  note d = df_invD [OF inv]
  assume "df_sets D x s \<or> x = v \<and> s = v"
  then show "in_set_of ((df_B D)[v := v]) x s"
  proof
    assume "df_sets D x s"
    then show ?thesis
    proof (induction rule: in_set_of_induct)
      case (root x)
      then have "x \<noteq> v" using v by auto
      with root show ?case by (simp add: in_set_of_root)
    next
      case (step x s)
      then have "x \<noteq> v" using v in_set_of_bound(1) [OF step(3)] d(1) by auto
      with step show ?case by (subst in_set_of_step) auto
    qed
  next
    assume "x = v \<and> s = v"
    with v d(1) show ?thesis by (simp add: in_set_of_root)
  qed
qed

lemma Bud_inv:
  assumes inv: "df_inv D" and v: "v < df_n D" "df_B D ! v = df_n D"
  shows "\<exists>D'. disjointFamily_Bud lw D v = Inr D' \<and> df_inv D' \<and> df_n D' = df_n D
    \<and> (\<forall>x s. df_sets D' x s \<longleftrightarrow> df_sets D x s \<or> x = v \<and> s = v)"
proof -
  note d = df_invD [OF inv]
  define D' where "D' = D\<lparr>df_B := (df_B D)[v := v], df_rank := (df_rank D)[v := 1]\<rparr>"
  have sets: "df_sets D' x s \<longleftrightarrow> df_sets D x s \<or> x = v \<and> s = v" for x s
    using Bud_sets [OF assms] by (simp add: D'_def)
  have B: "df_B D' ! x = (if x = v then v else df_B D ! x)"
    and R: "df_rank D' ! x = (if x = v then 1 else df_rank D ! x)" for x
    using v d(1,2) by (simp_all add: D'_def nth_list_update)
  have n: "df_n D' = df_n D" by (simp add: D'_def)
  have new: "\<not> df_sets D x v" for x
    using in_set_of_bound(3) v by fastforce
  have "df_inv D'"
    unfolding df_inv_def n
  proof (intro conjI allI impI)
    fix x
    assume x: "x < df_n D" "df_B D' ! x \<noteq> df_n D"
    show "df_B D' ! x < df_n D" using x v d(4) [of x] by (auto simp: B)
    show "df_B D' ! (df_B D' ! x) \<noteq> df_n D" using x v d(5) [of x] by (auto simp: B)
    show "1 \<le> df_rank D' ! x" using x d(6) [of x] by (auto simp: B R)
    show "df_rank D' ! x < df_rank D' ! (df_B D' ! x)" if "df_B D' ! x \<noteq> x"
      using that x v d(5) [of x] d(7) [of x] by (auto simp: B R split: if_splits)
  next
    fix r
    assume r: "r < df_n D" "df_B D' ! r = r"
    show "2 ^ (df_rank D' ! r) \<le> 2 * card {x. df_sets D' x r}"
    proof (cases "r = v")
      case True
      then have "{x. df_sets D' x r} = {v}" using new by (auto simp: sets)
      with True show ?thesis by (simp add: R)
    next
      case False
      with r d(8) [of r] show ?thesis by (simp add: sets R B)
    qed
  qed (use d in \<open>simp_all add: D'_def\<close>)
  moreover have "disjointFamily_Bud lw D v = Inr D'"
    using v by (simp add: disjointFamily_Bud_def D'_def)
  ultimately show ?thesis using sets n by blast
qed

lemma df_class_finite: "finite {x. df_sets D x r}"
  by (rule finite_subset [of _ "{..<length (df_B D)}"]) (auto dest: in_set_of_bound)

lemma link_inv:
  assumes inv: "df_inv D" and a: "a < df_n D" "df_B D ! a = a" and b: "b < df_n D" "df_B D ! b = b"
    and ab: "a \<noteq> b" "df_rank D ! a \<le> df_rank D ! b"
    and R: "R = (if df_rank D ! a = df_rank D ! b then (df_rank D)[b := df_rank D ! b + 1] else df_rank D)"
    and D': "D' = D\<lparr>df_B := (df_B D)[a := b], df_rank := R\<rparr>"
  shows "df_inv D'" and "df_sets D' x s \<longleftrightarrow> (\<exists>t. df_sets D x t \<and> s = (if t = a then b else t))"
proof -
  note d = df_invD [OF inv]
  have sets: "df_sets D' x s \<longleftrightarrow> (\<exists>t. df_sets D x t \<and> s = (if t = a then b else t))" for x s
    using link_sets [of a "df_B D" b] a b d(1) by (simp add: D')
  then show "df_sets D' x s \<longleftrightarrow> (\<exists>t. df_sets D x t \<and> s = (if t = a then b else t))" .
  have B: "df_B D' ! x = (if x = a then b else df_B D ! x)" for x
    using a d(1) by (simp add: D' nth_list_update)
  have n: "df_n D' = df_n D" and rk: "df_rank D' = R" by (simp_all add: D')
  have Rb: "R ! x = (if x = b \<and> df_rank D ! a = df_rank D ! b then df_rank D ! b + 1 else df_rank D ! x)" for x
    using b d(2) by (simp add: R nth_list_update)
  show "df_inv D'"
    unfolding df_inv_def n rk
  proof (intro conjI allI impI)
    fix x
    assume "x < df_n D" "df_B D' ! x \<noteq> df_n D"
    then have x: "x < df_n D" "df_B D ! x \<noteq> df_n D" using a by (auto simp: B split: if_splits)
    show "df_B D' ! x < df_n D" using d(4) [OF x] b by (simp add: B)
    show "df_B D' ! (df_B D' ! x) \<noteq> df_n D" using d(5) [OF x] b by (auto simp: B)
    show "1 \<le> R ! x" using d(6) [OF x] by (simp add: Rb)
    show "R ! x < R ! (df_B D' ! x)" if "df_B D' ! x \<noteq> x"
      using that d(7) [OF x] ab a b by (auto simp: B Rb split: if_splits)
  next
    fix r
    assume r: "r < df_n D" "df_B D' ! r = r"
    then have ra: "r \<noteq> a" "df_B D ! r = r" using ab by (auto simp: B split: if_splits)
    let ?C = "\<lambda>r. {x. df_sets D x r}"
    show "2 ^ (R ! r) \<le> 2 * card {x. df_sets D' x r}"
    proof (cases "r = b")
      case True
      have "{x. df_sets D' x r} = ?C a \<union> ?C b" using True ra by (auto simp: sets split: if_splits)
      moreover have "?C a \<inter> ?C b = {}" using ab in_set_of_unique by blast
      ultimately have "card {x. df_sets D' x r} = card (?C a) + card (?C b)"
        by (simp add: card_Un_disjoint df_class_finite)
      with d(8) [OF a] d(8) [OF b] True show ?thesis
        by (cases "df_rank D ! a = df_rank D ! b") (simp_all add: Rb)
    next
      case False
      then have "{x. df_sets D' x r} = ?C r" using ra by (auto simp: sets split: if_splits)
      with False ra d(8) [OF r(1)] show ?thesis by (simp add: Rb)
    qed
  qed (use d in \<open>simp_all add: D' R\<close>)
qed

text \<open>\<open>Merge\<close> joins the sets of its arguments under one of the two canonical elements.\<close>

lemma Merge_sets:
  assumes inv: "df_inv D" and u: "u < df_n D" "df_B D ! u \<noteq> df_n D" and v: "v < df_n D" "df_B D ! v \<noteq> df_n D"
  shows "\<exists>D' a b. disjointFamily_Merge lw c D u v = Some (Inr D') \<and> df_inv D' \<and> df_n D' = df_n D
    \<and> (df_sets D u a \<and> df_sets D v b \<or> df_sets D v a \<and> df_sets D u b)
    \<and> (\<forall>x s. df_sets D' x s \<longleftrightarrow> (\<exists>t. df_sets D x t \<and> s = (if t = a then b else t)))"
proof -
  note d = df_invD [OF inv]
  obtain ru D1 where f1: "disjointFamily_Find lw c D u = Some (Inr (ru, D1))" "df_sets D u ru" "df_inv D1"
    "df_sets D1 = df_sets D" "df_rank D1 = df_rank D" "df_n D1 = df_n D"
    using Find_canonical [OF inv u] by blast
  obtain r where "df_sets D v r" using Find_canonical [OF inv v] by blast
  then have "df_B D1 ! v \<noteq> df_n D1" using df_sets_defined [OF f1(3), of v r] f1(4) by simp
  then obtain rv D2 where f2: "disjointFamily_Find lw c D1 v = Some (Inr (rv, D2))" "df_sets D v rv"
    "df_inv D2" "df_sets D2 = df_sets D" "df_rank D2 = df_rank D" "df_n D2 = df_n D"
    using Find_canonical [OF f1(3), of v lw c] v f1 by auto
  have root: "r < df_n D2" "df_B D2 ! r = r" if "df_sets D x r" for x r
    using that f2(4) in_set_of_bound(2,3) [of "df_B D2" x r] df_invD(1) [OF f2(3)] by simp_all
  note ru = root [OF f1(2)] and rv = root [OF f2(2)]
  define D' where "D' = (if df_rank D2 ! ru < df_rank D2 ! rv then D2\<lparr>df_B := (df_B D2)[ru := rv]\<rparr>
    else let D3 = D2\<lparr>df_B := (df_B D2)[rv := ru]\<rparr>
         in if df_rank D3 ! rv = df_rank D3 ! ru \<and> ru \<noteq> rv
            then D3\<lparr>df_rank := (df_rank D3)[ru := df_rank D3 ! ru + 1]\<rparr> else D3)"
  have run: "disjointFamily_Merge lw c D u v = Some (Inr D')"
    using u v d(3) f1(1) f2(1) by (simp add: disjointFamily_Merge_def D'_def)
  consider "ru = rv" | "ru \<noteq> rv" "df_rank D2 ! ru < df_rank D2 ! rv"
    | "ru \<noteq> rv" "df_rank D2 ! rv \<le> df_rank D2 ! ru" by linarith
  then have "\<exists>a b. (df_sets D u a \<and> df_sets D v b \<or> df_sets D v a \<and> df_sets D u b) \<and> df_inv D'
      \<and> df_n D' = df_n D \<and> (\<forall>x s. df_sets D' x s \<longleftrightarrow> (\<exists>t. df_sets D x t \<and> s = (if t = a then b else t)))"
  proof cases
    case 1
    then have "D' = D2" using rv by (simp add: D'_def list_update_same_conv df_invD(1) [OF f2(3)])
    with 1 f1 f2 show ?thesis by (intro exI [of _ ru]) auto
  next
    case 2
    have e: "D' = D2\<lparr>df_B := (df_B D2)[ru := rv], df_rank := if df_rank D2 ! ru = df_rank D2 ! rv
        then (df_rank D2)[rv := df_rank D2 ! rv + 1] else df_rank D2\<rparr>"
      using 2 by (simp add: D'_def)
    note link = link_inv [OF f2(3) ru rv 2(1) less_imp_le [OF 2(2)] refl e]
    from link(1) link(2) [unfolded f2(4)] f1 f2 show ?thesis
      by (intro exI [of _ ru] exI [of _ rv]) (simp add: e)
  next
    case 3
    have e: "D' = D2\<lparr>df_B := (df_B D2)[rv := ru], df_rank := if df_rank D2 ! rv = df_rank D2 ! ru
        then (df_rank D2)[ru := df_rank D2 ! ru + 1] else df_rank D2\<rparr>"
      using 3 by (simp add: D'_def)
    note link = link_inv [OF f2(3) rv ru 3(1) [symmetric] 3(2) refl e]
    from link(1) link(2) [unfolded f2(4)] f1 f2 show ?thesis
      by (intro exI [of _ rv] exI [of _ ru]) (simp add: e)
  qed
  with run show ?thesis by blast
qed

section \<open>Histories\<close>

text \<open>
  The states a family can reach, each with the equivalence relation that its history of
  \<open>Bud\<close> and \<open>Merge\<close> calls describes. \<open>Bud\<close> is called for elements of no set.
\<close>

inductive df_history :: "bool \<Rightarrow> bool \<Rightarrow> nat \<Rightarrow> disjoint_family \<Rightarrow> (nat \<times> nat) set \<Rightarrow> bool" for lw c n where
  hist_new: "length rank0 = n \<Longrightarrow> df_history lw c n (disjointFamily n B0 rank0) {}"
| hist_bud: "df_history lw c n D R \<Longrightarrow> (v, v) \<notin> R \<Longrightarrow> disjointFamily_Bud lw D v = Inr D'
    \<Longrightarrow> df_history lw c n D' (insert (v, v) R)"
| hist_merge: "df_history lw c n D R \<Longrightarrow> disjointFamily_Merge lw c D u v = Some (Inr D')
    \<Longrightarrow> df_history lw c n D' (R \<union> {(x, y). (x, u) \<in> R \<and> (v, y) \<in> R \<or> (x, v) \<in> R \<and> (u, y) \<in> R})"
| hist_find: "df_history lw c n D R \<Longrightarrow> disjointFamily_Find lw c D v = Some (Inr (r, D'))
    \<Longrightarrow> df_history lw c n D' R"

definition same_set :: "disjoint_family \<Rightarrow> nat \<Rightarrow> nat \<Rightarrow> bool" where
  "same_set D x y \<longleftrightarrow> (\<exists>r. df_sets D x r \<and> df_sets D y r)"

lemma df_defined_iff:
  assumes "df_inv D"
  shows "(\<exists>r. df_sets D v r) \<longleftrightarrow> v < df_n D \<and> df_B D ! v \<noteq> df_n D"
  using Find_canonical [OF assms, of v] df_sets_defined [OF assms] in_set_of_bound(1) df_invD(1) [OF assms]
  by metis

lemma same_set_refl_iff: "df_inv D \<Longrightarrow> same_set D v v \<longleftrightarrow> v < df_n D \<and> df_B D ! v \<noteq> df_n D"
  using df_defined_iff by (auto simp: same_set_def)

lemma Find_only_defined:
  assumes inv: "df_inv D" and f: "disjointFamily_Find lw c D v = Some (Inr (r, D'))"
  shows "v < df_n D \<and> df_B D ! v \<noteq> df_n D"
proof (rule ccontr)
  note d = df_invD [OF inv]
  assume "\<not> (v < df_n D \<and> df_B D ! v \<noteq> df_n D)"
  then consider "v \<ge> df_n D" | "v < df_n D" "df_B D ! v = df_n D" by linarith
  then show False
  proof cases
    case 1
    with f show False by (subst (asm) disjointFamily_Find.simps) (auto split: if_splits)
  next
    case 2
    then have "disjointFamily_Find lw c D (df_n D) = Some (Inl ERRange)
      \<or> disjointFamily_Find lw c D (df_n D) = Some (Inl OutOfBounds)"
      by (subst (1 2) disjointFamily_Find.simps) auto
    with 2 f d(3) show False by (subst (asm) disjointFamily_Find.simps) (auto split: if_splits)
  qed
qed

lemma Merge_only_defined:
  assumes inv: "df_inv D" and f: "disjointFamily_Merge lw c D u v = Some (Inr D')"
  shows "u < df_n D" "df_B D ! u \<noteq> df_n D" "v < df_n D" "df_B D ! v \<noteq> df_n D"
  using f df_invD(3) [OF inv] by (auto simp: disjointFamily_Merge_def split: if_splits)

lemma new_inv:
  assumes "length rank0 = n"
  shows "df_inv (disjointFamily n B0 rank0)" "\<not> df_sets (disjointFamily n B0 rank0) x s"
proof -
  show "df_inv (disjointFamily n B0 rank0)"
    using assms by (auto simp: df_inv_def disjointFamily_def disjointFamily_Init_def)
  from df_sets_defined [OF this] in_set_of_bound(1)
  show "\<not> df_sets (disjointFamily n B0 rank0) x s"
    by (fastforce simp: disjointFamily_def disjointFamily_Init_def)
qed

lemma join_classes:
  fixes S :: "nat \<Rightarrow> nat \<Rightarrow> bool"
  shows "(\<exists>s. (\<exists>t. S x t \<and> s = (if t = a then b else t)) \<and> (\<exists>t. S y t \<and> s = (if t = a then b else t)))
    \<longleftrightarrow> (\<exists>r. S x r \<and> S y r) \<or> S x a \<and> S y b \<or> S x b \<and> S y a"
    (is "?L \<longleftrightarrow> ?R")
proof
  assume ?L
  then obtain t t' where "S x t" "S y t'" "(if t = a then b else t) = (if t' = a then b else t')" by auto
  then show ?R by (auto split: if_splits)
next
  assume ?R
  then consider r where "S x r" "S y r" | "S x a" "S y b" | "S x b" "S y a" by blast
  then show ?L
  proof cases
    case 1
    then show ?thesis by blast
  next
    case 2
    then show ?thesis by (intro exI [of _ b]) auto
  next
    case 3
    then show ?thesis by (intro exI [of _ b]) auto
  qed
qed

lemma df_history_inv:
  "df_history lw c n D R \<Longrightarrow> df_inv D \<and> df_n D = n \<and> (\<forall>x y. (x, y) \<in> R \<longleftrightarrow> same_set D x y)"
proof (induction rule: df_history.induct)
  case (hist_new rank0 B0)
  then show ?case using new_inv [of rank0 n B0]
    by (auto simp: same_set_def) (simp add: disjointFamily_def disjointFamily_Init_def)
next
  case (hist_bud D R v D')
  then have inv: "df_inv D" and R: "\<And>x y. (x, y) \<in> R \<longleftrightarrow> same_set D x y" and n: "df_n D = n" by auto
  have "v < df_n D" using hist_bud.hyps(3) by (auto simp: disjointFamily_Bud_def split: if_splits)
  moreover have "df_B D ! v = df_n D"
    using hist_bud.hyps(2) same_set_refl_iff [OF inv, of v] R calculation by auto
  ultimately obtain D'' where D'': "disjointFamily_Bud lw D v = Inr D''" "df_inv D''" "df_n D'' = df_n D"
    "\<forall>x s. df_sets D'' x s \<longleftrightarrow> df_sets D x s \<or> x = v \<and> s = v"
    using Bud_inv [OF inv] by blast
  have no: "\<not> df_sets D v s" "\<not> df_sets D x v" for s x
    using \<open>df_B D ! v = df_n D\<close> df_sets_defined [OF inv] in_set_of_bound(3) \<open>v < df_n D\<close> by (blast, fastforce)
  from D'' hist_bud.hyps(3) n show ?case by (auto simp: R same_set_def no)
next
  case (hist_merge D R u v D')
  then have inv: "df_inv D" and R: "\<And>x y. (x, y) \<in> R \<longleftrightarrow> same_set D x y" and n: "df_n D = n" by auto
  from Merge_sets [OF inv Merge_only_defined [OF inv hist_merge.hyps(2)], of lw c]
  obtain D'' a b where "disjointFamily_Merge lw c D u v = Some (Inr D'')" and D': "df_inv D''" "df_n D'' = df_n D"
    "df_sets D u a \<and> df_sets D v b \<or> df_sets D v a \<and> df_sets D u b"
    "\<forall>x s. df_sets D'' x s \<longleftrightarrow> (\<exists>t. df_sets D x t \<and> s = (if t = a then b else t))"
    by blast
  then have eq: "D'' = D'" using hist_merge.hyps(2) by simp
  have "same_set D' x y \<longleftrightarrow> same_set D x y \<or> df_sets D x a \<and> df_sets D y b \<or> df_sets D x b \<and> df_sets D y a" for x y
    using join_classes [of "df_sets D" x a b y] D'(4) by (simp add: same_set_def eq)
  moreover have "same_set D x w \<longleftrightarrow> df_sets D x r" "same_set D w x \<longleftrightarrow> df_sets D x r" if "df_sets D w r" for x w r
    using that in_set_of_unique by (auto simp: same_set_def)
  ultimately show ?case using D' n eq by (auto simp: R)
next
  case (hist_find D R v r D')
  then have inv: "df_inv D" by blast
  from Find_canonical [OF inv, of v lw c] Find_only_defined [OF inv hist_find.hyps(2)] hist_find
  show ?case by (auto simp: same_set_def)
qed

section \<open>Properties\<close>

text \<open>
  C9: After any history of \<open>Bud\<close>, \<open>Merge\<close> and \<open>Find\<close> calls, with or without path compression,
  \<open>Find\<close> returns for every element that is in a set, and two elements have the same canonical
  element exactly when the history has put them into one set.
\<close>

theorem disjointFamily_Find_same_set:
  assumes h: "df_history lw c n D R" and x: "(x, x) \<in> R" and y: "(y, y) \<in> R"
  shows "\<exists>r D1 s D2. disjointFamily_Find lw c D x = Some (Inr (r, D1))
    \<and> disjointFamily_Find lw c D1 y = Some (Inr (s, D2)) \<and> (r = s \<longleftrightarrow> (x, y) \<in> R)"
proof -
  have inv: "df_inv D" and R: "\<And>x y. (x, y) \<in> R \<longleftrightarrow> same_set D x y"
    using df_history_inv [OF h] by auto
  obtain r D1 where r: "disjointFamily_Find lw c D x = Some (Inr (r, D1))" "df_sets D x r" "df_inv D1"
    "df_sets D1 = df_sets D"
    using Find_canonical [OF inv, of x lw c] same_set_refl_iff [OF inv, of x] x R by auto
  have "same_set D1 y y" using y R r(4) by (simp add: same_set_def)
  then obtain s D2 where s: "disjointFamily_Find lw c D1 y = Some (Inr (s, D2))" "df_sets D1 y s"
    using Find_canonical [OF r(3), of y lw c] same_set_refl_iff [OF r(3), of y] by auto
  then have "r = s \<longleftrightarrow> same_set D x y" using r(2,4) by (metis in_set_of_unique same_set_def)
  with r(1) s(1) R show ?thesis by blast
qed

theorem disjointFamily_Find_same_set_witness:
  "\<exists>D R r D1 s D2. df_history True True 2 D R \<and> (0, 1) \<in> R
    \<and> disjointFamily_Find True True D 0 = Some (Inr (r, D1))
    \<and> disjointFamily_Find True True D1 1 = Some (Inr (s, D2)) \<and> r = s"
proof -
  define D0 where "D0 = disjointFamily 2 [] [0, 0]"
  define D1 where "D1 = \<lparr>df_B = [0, 2], df_rank = [1, 0], df_n = 2, df_UNDEFINED = 2\<rparr>"
  define D2 where "D2 = \<lparr>df_B = [0, 1], df_rank = [1, 1], df_n = 2, df_UNDEFINED = 2\<rparr>"
  define D3 where "D3 = \<lparr>df_B = [0, 0], df_rank = [2, 1], df_n = 2, df_UNDEFINED = 2\<rparr>"
  have h0: "df_history True True 2 D0 {}" unfolding D0_def by (rule hist_new) simp
  have "disjointFamily_Bud True D0 0 = Inr D1" "disjointFamily_Bud True D1 1 = Inr D2"
    by (simp_all add: disjointFamily_Bud_def D0_def D1_def D2_def disjointFamily_def
        disjointFamily_Init_def numeral_2_eq_2)
  with hist_bud [OF h0, of 0 D1] hist_bud [of True True 2 D1 "{(0, 0)}" 1 D2]
  have h2: "df_history True True 2 D2 {(1, 1), (0, 0)}" by simp
  have "disjointFamily_Merge True True D2 0 1 = Some (Inr D3)"
    by (simp add: disjointFamily_Merge_def D2_def D3_def disjointFamily_Find.simps df_compress_def)
  from hist_merge [OF h2 this] obtain R where h3: "df_history True True 2 D3 R"
    and R: "R = {(1, 1), (0, 0)} \<union> {(x, y). (x, 0) \<in> {(1, 1), (0, 0)} \<and> (1, y) \<in> {(1, 1), (0, 0)}
      \<or> (x, 1) \<in> {(1, 1), (0, 0)} \<and> (0, y) \<in> {(1, 1), (0, 0)}}" by blast
  have "(0, 0) \<in> R" "(1, 1) \<in> R" "(0, 1) \<in> R" by (simp_all add: R)
  with disjointFamily_Find_same_set [OF h3, of 0 1] h3 show ?thesis by blast
qed

text \<open>
  C27: Union by rank bounds the recursion depth of \<open>Find\<close>: an element of a family of \<open>n\<close> elements
  reaches its canonical element with at most \<open>1 + log2 n\<close> nested calls.
\<close>

theorem disjointFamily_Find_log_depth:
  assumes h: "df_history lw c n D R" and x: "(x, x) \<in> R"
  shows "\<exists>r D' k. disjointFamily_Find lw c D x = Some (Inr (r, D')) \<and> canon (df_B D) x r k \<and> 2 ^ k \<le> 2 * n"
proof -
  have inv: "df_inv D" and n: "df_n D = n" and R: "\<And>x y. (x, y) \<in> R \<longleftrightarrow> same_set D x y"
    using df_history_inv [OF h] by auto
  note d = df_invD [OF inv]
  have xd: "x < df_n D" "df_B D ! x \<noteq> df_n D" using same_set_refl_iff [OF inv, of x] x R by auto
  then obtain r D' where r: "disjointFamily_Find lw c D x = Some (Inr (r, D'))" "df_sets D x r"
    using Find_canonical [OF inv, of x lw c] by blast
  then obtain k where k: "canon (df_B D) x r k" by (auto simp: in_set_of_def)
  have "k \<le> df_rank D ! r" using df_canon_rank [OF inv k] d(6) [OF xd] by simp
  then have "(2 :: nat) ^ k \<le> 2 ^ (df_rank D ! r)" by simp
  also have "\<dots> \<le> 2 * card {y. df_sets D y r}"
    using d(8) in_set_of_bound(2,3) [OF r(2)] d(1) by simp
  also have "card {y. df_sets D y r} \<le> card {..<n}"
    by (rule card_mono) (use d(1) n in \<open>auto dest: in_set_of_bound\<close>)
  finally show ?thesis using r(1) k by auto
qed

theorem disjointFamily_Find_log_depth_witness:
  "\<exists>D R k. df_history False False 1 D R \<and> canon (df_B D) 0 0 k \<and> 2 ^ k \<le> (2 :: nat) * 1"
proof -
  define D where "D = \<lparr>df_B = [0], df_rank = [1], df_n = 1, df_UNDEFINED = 1\<rparr>"
  have "disjointFamily_Bud False (disjointFamily 1 [] [7]) 0 = Inr D"
    by (simp add: disjointFamily_Bud_def D_def disjointFamily_def disjointFamily_Init_def)
  moreover have "df_history False False 1 (disjointFamily 1 [] [7]) {}" by (rule hist_new) simp
  ultimately have h: "df_history False False 1 D {(0, 0)}" by (metis empty_iff hist_bud)
  from disjointFamily_Find_log_depth [OF h, of 0]
  obtain r k where "canon (df_B D) 0 r k" "2 ^ k \<le> (2 :: nat) * 1" by auto
  moreover have "canon (df_B D) 0 0 1" by (rule canon_root) (simp_all add: D_def)
  ultimately show ?thesis using h canon_unique by metis
qed

text \<open>
  For an element of no set \<open>Find\<close> does not return \<open>UNDEFINED\<close>: it raises \<open>ERRange\<close> when
  warnings are on, and reads beyond the end of \<open>B\<close> otherwise. \<open>Merge\<close> raises \<open>ERRange\<close> in both cases.
\<close>

theorem disjointFamily_undefined_element:
  assumes h: "df_history lw c n D R" and v: "(v, v) \<notin> R"
  shows "disjointFamily_Find lw c D v = Some (Inl (if lw then ERRange else OutOfBounds))
    \<and> disjointFamily_Merge lw c D u v = Some (Inl ERRange)
    \<and> disjointFamily_Merge lw c D v u = Some (Inl ERRange)"
proof -
  have inv: "df_inv D" and R: "\<And>x y. (x, y) \<in> R \<longleftrightarrow> same_set D x y"
    using df_history_inv [OF h] by auto
  note d = df_invD [OF inv]
  have v': "\<not> (v < df_n D \<and> df_B D ! v \<noteq> df_n D)" using same_set_refl_iff [OF inv, of v] v R by simp
  have last: "disjointFamily_Find lw c D w = Some (Inl (if lw then ERRange else OutOfBounds))"
    if "df_n D \<le> w" for w
    using that by (subst disjointFamily_Find.simps) simp
  have "disjointFamily_Find lw c D v = Some (Inl (if lw then ERRange else OutOfBounds))"
  proof (cases "v < df_n D")
    case True
    with v' have "df_B D ! v = df_n D" by simp
    with True d(3) last [of "df_n D"] show ?thesis
      by (cases lw) (subst disjointFamily_Find.simps, simp)+
  qed (simp add: last)
  with v' d(3) show ?thesis by (auto simp: disjointFamily_Merge_def)
qed

theorem disjointFamily_undefined_element_witness:
  "disjointFamily_Find False True (disjointFamily 2 [] [0, 0]) 1 = Some (Inl OutOfBounds)"
proof -
  have "df_history False True 2 (disjointFamily 2 [] [0, 0]) {}" by (rule hist_new) simp
  from disjointFamily_undefined_element [OF this, of 1] show ?thesis by simp
qed

end
