(* ===== verification/Hash_Table.thy ===== *)
theory Hash_Table
  imports Goblin_Prelude
begin

text \<open>
  The hash table for keys of a large index range (\<^verbatim>\<open>include/hashTable.h\<close>,
  \<^verbatim>\<open>lib_src/hashTable.cpp\<close>). Cells \<open>0 .. nMax-1\<close> hold an index and a key each; the cells of a
  bucket and the free cells are linked lists in the array \<open>next\<close>. An index without a cell has
  the default key. \<open>ChangeKey\<close> doubles the table when no cell is free and then calls itself
  for every stored pair.
\<close>

section \<open>The class\<close>

record 'k hash_table =
  ht_first :: "nat list"
  ht_next :: "nat list"
  ht_index :: "nat list"
  ht_key :: "'k list"
  ht_range :: nat
  ht_nHash :: nat
  ht_nMax :: nat
  ht_UNDEFINED :: nat
  ht_defaultKey :: 'k
  ht_free :: nat
  ht_nz :: nat

text \<open>With no cells, \<open>next[nMax-1]\<close> is a write outside the array.\<close>

definition goblinHashTable_Init :: "'k hash_table \<Rightarrow> 'k hash_table result" where
  "goblinHashTable_Init H =
     (if ht_nMax H = 0 then Inl OutOfBounds
      else Inr (H\<lparr>ht_first := replicate (ht_nHash H) (ht_UNDEFINED H),
                  ht_next := (map Suc [0..<ht_nMax H])[ht_nMax H - 1 := ht_UNDEFINED H],
                  ht_free := 0, ht_nz := 0\<rparr>))"

text \<open>The first contents of \<open>index\<close> and \<open>key\<close> are arguments.\<close>

definition goblinHashTable :: "nat \<Rightarrow> nat \<Rightarrow> 'k \<Rightarrow> nat list \<Rightarrow> 'k list \<Rightarrow> 'k hash_table result" where
  "goblinHashTable rr nn alpha index0 key0 =
     goblinHashTable_Init \<lparr>ht_first = [], ht_next = [], ht_index = index0, ht_key = key0,
       ht_range = rr, ht_nHash = 2 * nn, ht_nMax = nn, ht_UNDEFINED = 2 * nn,
       ht_defaultKey = alpha, ht_free = 0, ht_nz = 0\<rparr>"

text \<open>\<open>while (x!=UNDEFINED && index[x]!=w) x = next[x];\<close>, and the loop that also remembers the predecessor.\<close>

partial_function (option) ht_find :: "nat list \<Rightarrow> nat list \<Rightarrow> nat \<Rightarrow> nat \<Rightarrow> nat \<Rightarrow> nat option" where
  "ht_find nx index U w x =
     (if x \<noteq> U \<and> index ! x \<noteq> w then ht_find nx index U w (nx ! x) else Some x)"

partial_function (option) ht_find_pred ::
  "nat list \<Rightarrow> nat list \<Rightarrow> nat \<Rightarrow> nat \<Rightarrow> nat \<Rightarrow> nat \<Rightarrow> (nat \<times> nat) option" where
  "ht_find_pred nx index U w y x =
     (if x \<noteq> U \<and> index ! x \<noteq> w then ht_find_pred nx index U w x (nx ! x) else Some (y, x))"

declare ht_find.simps [code] ht_find_pred.simps [code]

definition goblinHashTable_Key :: "'k hash_table \<Rightarrow> nat \<Rightarrow> 'k result option" where
  "goblinHashTable_Key H w =
     (if w \<ge> ht_range H then Some (Inl ERRange)
      else Option.bind (ht_find (ht_next H) (ht_index H) (ht_UNDEFINED H) w (ht_first H ! (w mod ht_nHash H)))
        (\<lambda>x. Some (Inr (if x = ht_UNDEFINED H then ht_defaultKey H else ht_key H ! x))))"

definition ht_remove :: "'k hash_table \<Rightarrow> nat \<Rightarrow> nat \<Rightarrow> 'k hash_table option" where
  "ht_remove H w w0 =
     Option.bind (ht_find_pred (ht_next H) (ht_index H) (ht_UNDEFINED H) w (ht_UNDEFINED H) (ht_first H ! w0))
       (\<lambda>(y, x).
          let H1 = (if x \<noteq> ht_UNDEFINED H then
                let H2 = (if y = ht_UNDEFINED H then H\<lparr>ht_first := (ht_first H)[w0 := ht_next H ! x]\<rparr>
                          else H\<lparr>ht_next := (ht_next H)[y := ht_next H ! x]\<rparr>)
                in H2\<lparr>ht_next := (ht_next H2)[x := ht_free H2], ht_free := x\<rparr>
              else H)
          in Some (H1\<lparr>ht_nz := ht_nz H1 - 1\<rparr>))"

definition ht_add :: "'k hash_table \<Rightarrow> nat \<Rightarrow> nat \<Rightarrow> 'k \<Rightarrow> 'k hash_table" where
  "ht_add H w w0 alpha =
     (let y = ht_free H; x = ht_first H ! w0
      in H\<lparr>ht_free := ht_next H ! y, ht_index := (ht_index H)[y := w], ht_key := (ht_key H)[y := alpha],
           ht_first := (ht_first H)[w0 := y], ht_next := (ht_next H)[y := x], ht_nz := ht_nz H + 1\<rparr>)"

text \<open>The while loop over one saved bucket, the for loop over all, and the rescaling; \<open>chg\<close> is the recursive call.\<close>

partial_function (option) ht_rehash_bucket ::
  "('k hash_table \<Rightarrow> nat \<Rightarrow> 'k \<Rightarrow> 'k hash_table result option) \<Rightarrow> 'k hash_table \<Rightarrow> nat
    \<Rightarrow> 'k hash_table \<Rightarrow> 'k hash_table result option" where
  "ht_rehash_bucket chg saved y H =
     (if y \<noteq> ht_UNDEFINED saved then
        Option.bind (chg H (ht_index saved ! y) (ht_key saved ! y))
          (\<lambda>r. case r of Inl e \<Rightarrow> Some (Inl e)
             | Inr H' \<Rightarrow> ht_rehash_bucket chg saved (ht_next saved ! y) H')
      else Some (Inr H))"

fun ht_rehash :: "('k hash_table \<Rightarrow> nat \<Rightarrow> 'k \<Rightarrow> 'k hash_table result option) \<Rightarrow> 'k hash_table
    \<Rightarrow> nat list \<Rightarrow> 'k hash_table \<Rightarrow> 'k hash_table result option" where
  "ht_rehash chg saved [] H = Some (Inr H)"
| "ht_rehash chg saved (x # xs) H =
     Option.bind (ht_rehash_bucket chg saved (ht_first saved ! x) H)
       (\<lambda>r. case r of Inl e \<Rightarrow> Some (Inl e) | Inr H' \<Rightarrow> ht_rehash chg saved xs H')"

text \<open>The contents of the new \<open>index\<close> and \<open>key\<close> arrays do not matter; they are the old ones twice.\<close>

definition ht_enlarge :: "'k hash_table \<Rightarrow> 'k hash_table" where
  "ht_enlarge H = H\<lparr>ht_index := ht_index H @ ht_index H, ht_key := ht_key H @ ht_key H,
     ht_nMax := 2 * ht_nMax H, ht_nHash := 2 * ht_nHash H, ht_UNDEFINED := 2 * ht_nHash H\<rparr>"

definition ht_rescale :: "('k hash_table \<Rightarrow> nat \<Rightarrow> 'k \<Rightarrow> 'k hash_table result option) \<Rightarrow> 'k hash_table
    \<Rightarrow> 'k hash_table result option" where
  "ht_rescale chg H =
     (case goblinHashTable_Init (ht_enlarge H) of Inl e \<Rightarrow> Some (Inl e)
      | Inr H1 \<Rightarrow> ht_rehash chg H [0..<ht_nMax H1] H1)"

text \<open>
  \<open>ChangeKey\<close>. The first argument bounds the depth of the recursion; a call that needs more is \<open>None\<close>.
\<close>

fun goblinHashTable_ChangeKey ::
  "nat \<Rightarrow> 'k hash_table \<Rightarrow> nat \<Rightarrow> 'k \<Rightarrow> 'k hash_table result option" where
  "goblinHashTable_ChangeKey 0 H w alpha = None"
| "goblinHashTable_ChangeKey (Suc d) H w alpha =
     (if w \<ge> ht_range H then Some (Inl ERRange)
      else Option.bind (goblinHashTable_Key H w) (\<lambda>r. case r of
          Inl e \<Rightarrow> Some (Inl e)
        | Inr k \<Rightarrow>
          if k = alpha then Some (Inr H)
          else let w0 = w mod ht_nHash H in
            if alpha = ht_defaultKey H
            then Option.bind (ht_remove H w w0) (\<lambda>H'. Some (Inr H'))
            else Option.bind (ht_find (ht_next H) (ht_index H) (ht_UNDEFINED H) w (ht_first H ! w0)) (\<lambda>x.
              if x \<noteq> ht_UNDEFINED H then Some (Inr (H\<lparr>ht_key := (ht_key H)[x := alpha]\<rparr>))
              else if ht_free H = ht_UNDEFINED H
              then Option.bind (ht_rescale (goblinHashTable_ChangeKey d) H)
                (\<lambda>r. Some (rbind r (\<lambda>H'. Inr (ht_add H' w (w mod ht_nHash H') alpha))))
              else Some (Inr (ht_add H w w0 alpha)))))"

section \<open>Searching a bucket\<close>

lemma ht_find_chain:
  "chain (\<lambda>i. nx ! i) x xs U \<Longrightarrow> U \<notin> set xs \<Longrightarrow>
   ht_find nx index U w x = Some (case find (\<lambda>x. index ! x = w) xs of None \<Rightarrow> U | Some x \<Rightarrow> x)"
proof (induction xs arbitrary: x)
  case Nil
  then show ?case by (subst ht_find.simps) simp
next
  case (Cons a xs)
  then show ?case by (subst ht_find.simps) auto
qed

lemma ht_find_pred_chain:
  "chain (\<lambda>i. nx ! i) x (xs @ z # zs) U \<Longrightarrow> U \<notin> set (xs @ z # zs) \<Longrightarrow> index ! z = w
   \<Longrightarrow> \<forall>x \<in> set xs. index ! x \<noteq> w
   \<Longrightarrow> ht_find_pred nx index U w y x = Some (if xs = [] then y else last xs, z)"
proof (induction xs arbitrary: x y)
  case Nil
  then show ?case by (subst ht_find_pred.simps) simp
next
  case (Cons a xs)
  then show ?case by (subst ht_find_pred.simps) auto
qed

section \<open>Invariant\<close>

text \<open>
  \<open>ht_rep H bk fr L\<close>: bucket \<open>b\<close> is the list of cells \<open>bk b\<close>, the free cells are \<open>fr\<close>, and the
  table stores the map \<open>L\<close>.
\<close>

definition ht_shape :: "'k hash_table \<Rightarrow> bool" where
  "ht_shape H \<longleftrightarrow> 0 < ht_nMax H \<and> 0 < ht_nHash H \<and> ht_nMax H \<le> ht_UNDEFINED H
     \<and> length (ht_first H) = ht_nHash H \<and> length (ht_next H) = ht_nMax H
     \<and> length (ht_index H) = ht_nMax H \<and> length (ht_key H) = ht_nMax H"

definition ht_cells :: "'k hash_table \<Rightarrow> (nat \<Rightarrow> nat list) \<Rightarrow> nat list \<Rightarrow> bool" where
  "ht_cells H bk fr \<longleftrightarrow>
     (\<forall>b < ht_nHash H. chain (\<lambda>i. ht_next H ! i) (ht_first H ! b) (bk b) (ht_UNDEFINED H)
        \<and> distinct (bk b) \<and> set (bk b) \<inter> set fr = {}
        \<and> (\<forall>x \<in> set (bk b). x < ht_nMax H \<and> ht_index H ! x mod ht_nHash H = b))
     \<and> chain (\<lambda>i. ht_next H ! i) (ht_free H) fr (ht_UNDEFINED H)
     \<and> distinct fr \<and> (\<forall>x \<in> set fr. x < ht_nMax H)"

definition ht_stores :: "'k hash_table \<Rightarrow> (nat \<Rightarrow> nat list) \<Rightarrow> (nat \<rightharpoonup> 'k) \<Rightarrow> bool" where
  "ht_stores H bk L \<longleftrightarrow>
     (\<forall>b < ht_nHash H. distinct (map (\<lambda>x. ht_index H ! x) (bk b))
        \<and> (\<forall>x \<in> set (bk b). L (ht_index H ! x) = Some (ht_key H ! x)))
     \<and> (\<forall>w \<in> dom L. \<exists>x \<in> set (bk (w mod ht_nHash H)). ht_index H ! x = w)
     \<and> dom L \<subseteq> {..<ht_range H} \<and> ht_defaultKey H \<notin> ran L"

definition ht_rep :: "'k hash_table \<Rightarrow> (nat \<Rightarrow> nat list) \<Rightarrow> nat list \<Rightarrow> (nat \<rightharpoonup> 'k) \<Rightarrow> bool" where
  "ht_rep H bk fr L \<longleftrightarrow> ht_shape H \<and> ht_cells H bk fr \<and> ht_stores H bk L
     \<and> ht_nz H = card (dom L) \<and> length fr + card (dom L) = ht_nMax H"

text \<open>The sizes; the table keeps twice as many buckets as cells, and as many as the end marker says.\<close>

definition ht_dims :: "'k hash_table \<Rightarrow> nat \<times> nat \<times> nat" where
  "ht_dims H = (ht_nMax H, ht_nHash H, ht_UNDEFINED H)"

definition ht_std :: "'k hash_table \<Rightarrow> bool" where
  "ht_std H \<longleftrightarrow> ht_nHash H = 2 * ht_nMax H \<and> ht_UNDEFINED H = ht_nHash H"

definition ht_inv :: "'k hash_table \<Rightarrow> bool" where
  "ht_inv H \<longleftrightarrow> (\<exists>bk fr L. ht_rep H bk fr L) \<and> ht_std H"

lemma ht_dims_eq: "ht_dims H' = ht_dims H \<Longrightarrow>
    ht_nMax H' = ht_nMax H \<and> ht_nHash H' = ht_nHash H \<and> ht_UNDEFINED H' = ht_UNDEFINED H"
  by (simp add: ht_dims_def)

lemma ht_std_dims: "ht_dims H' = ht_dims H \<Longrightarrow> ht_std H' = ht_std H"
  by (simp add: ht_dims_def ht_std_def)

lemma ht_repD:
  assumes "ht_rep H bk fr L"
  shows "ht_shape H" "ht_cells H bk fr" "ht_stores H bk L" "ht_nz H = card (dom L)"
    "length fr + card (dom L) = ht_nMax H"
  using assms by (simp_all add: ht_rep_def)

lemma ht_bucket:
  assumes "ht_cells H bk fr" "b < ht_nHash H"
  shows "chain (\<lambda>i. ht_next H ! i) (ht_first H ! b) (bk b) (ht_UNDEFINED H)" "distinct (bk b)"
    and "set (bk b) \<inter> set fr = {}" "x \<in> set (bk b) \<Longrightarrow> x < ht_nMax H"
    "x \<in> set (bk b) \<Longrightarrow> ht_index H ! x mod ht_nHash H = b"
  using assms by (simp_all add: ht_cells_def)

lemma ht_hash_less: "ht_shape H \<Longrightarrow> w mod ht_nHash H < ht_nHash H"
  by (simp add: ht_shape_def)

lemma ht_bucket_undef:
  assumes "ht_shape H" "ht_cells H bk fr" "b < ht_nHash H"
  shows "ht_UNDEFINED H \<notin> set (bk b)"
  using ht_bucket(4) [OF assms(2,3), of "ht_UNDEFINED H"] assms(1) by (auto simp: ht_shape_def)

text \<open>The cell of \<open>w\<close>, if it has one.\<close>

lemma ht_lookup_cell:
  assumes "ht_rep H bk fr L" and b: "b = w mod ht_nHash H"
  shows "find (\<lambda>x. ht_index H ! x = w) (bk b) = None \<longleftrightarrow> L w = None"
    and "find (\<lambda>x. ht_index H ! x = w) (bk b) = Some x \<Longrightarrow>
      x \<in> set (bk b) \<and> ht_index H ! x = w \<and> L w = Some (ht_key H ! x)"
proof -
  note r = ht_repD [OF assms(1)]
  have "b < ht_nHash H" using b ht_hash_less [OF r(1)] by simp
  then have s: "\<And>x. x \<in> set (bk b) \<Longrightarrow> L (ht_index H ! x) = Some (ht_key H ! x)"
    "w \<in> dom L \<Longrightarrow> \<exists>x \<in> set (bk b). ht_index H ! x = w"
    using r(3) b by (auto simp: ht_stores_def)
  show "find (\<lambda>x. ht_index H ! x = w) (bk b) = None \<longleftrightarrow> L w = None"
    using s by (force simp: find_None_iff)
  show "x \<in> set (bk b) \<and> ht_index H ! x = w \<and> L w = Some (ht_key H ! x)"
    if "find (\<lambda>x. ht_index H ! x = w) (bk b) = Some x"
    using that s(1) by (auto simp: find_Some_iff)
qed

lemma ht_find_rep:
  assumes "ht_rep H bk fr L"
  shows "ht_find (ht_next H) (ht_index H) (ht_UNDEFINED H) w (ht_first H ! (w mod ht_nHash H))
    = Some (case find (\<lambda>x. ht_index H ! x = w) (bk (w mod ht_nHash H)) of
        None \<Rightarrow> ht_UNDEFINED H | Some x \<Rightarrow> x)"
proof -
  note r = ht_repD [OF assms]
  note b = ht_hash_less [OF r(1), of w]
  show ?thesis
    by (rule ht_find_chain [OF ht_bucket(1) [OF r(2) b] ht_bucket_undef [OF r(1,2) b]])
qed

lemma ht_Key_rep:
  assumes "ht_rep H bk fr L" "w < ht_range H"
  shows "goblinHashTable_Key H w = Some (Inr (case L w of None \<Rightarrow> ht_defaultKey H | Some k \<Rightarrow> k))"
proof (cases "find (\<lambda>x. ht_index H ! x = w) (bk (w mod ht_nHash H))")
  case None
  then show ?thesis
    using assms ht_find_rep [OF assms(1), of w] ht_lookup_cell(1) [OF assms(1) refl, of w]
    by (simp add: goblinHashTable_Key_def)
next
  case (Some x)
  note r = ht_repD [OF assms(1)]
  note b = ht_hash_less [OF r(1), of w]
  have "x \<noteq> ht_UNDEFINED H"
    using ht_lookup_cell(2) [OF assms(1) refl Some] ht_bucket_undef [OF r(1,2) b] by auto
  with Some show ?thesis
    using assms ht_find_rep [OF assms(1), of w] ht_lookup_cell(2) [OF assms(1) refl Some]
    by (simp add: goblinHashTable_Key_def)
qed

section \<open>The branches of \<open>ChangeKey\<close>\<close>

lemma ht_finite_dom: "ht_stores H bk L \<Longrightarrow> finite (dom L)"
  by (auto simp: ht_stores_def intro: finite_subset)

lemma ht_add_rep:
  assumes rep: "ht_rep H bk fr L" and fr: "fr \<noteq> []" and w: "w < ht_range H" "L w = None"
    and a: "a \<noteq> ht_defaultKey H" and w0: "w0 = w mod ht_nHash H"
  shows "ht_rep (ht_add H w w0 a) (bk(w0 := hd fr # bk w0)) (tl fr) (L(w \<mapsto> a))"
proof -
  note r = ht_repD [OF rep]
  have b0: "w0 < ht_nHash H" using ht_hash_less [OF r(1)] w0 by simp
  define y where "y = hd fr"
  have fr': "fr = y # tl fr" using fr by (simp add: y_def)
  have "chain (\<lambda>i. ht_next H ! i) (ht_free H) (y # tl fr) (ht_UNDEFINED H)"
    using r(2) fr' by (metis ht_cells_def)
  then have free: "ht_free H = y" "chain (\<lambda>i. ht_next H ! i) (ht_next H ! y) (tl fr) (ht_UNDEFINED H)" by simp_all
  have y: "y < ht_nMax H" "distinct (tl fr)" "y \<notin> set (tl fr)" "\<forall>x \<in> set (tl fr). x < ht_nMax H \<and> x \<in> set fr"
    using r(2) fr' by (auto simp: ht_cells_def) (metis distinct.simps(2) list.set_intros)+
  have yb: "y \<notin> set (bk b)" if "b < ht_nHash H" for b
    using ht_bucket(3) [OF r(2) that] hd_in_set [OF fr] by (auto simp: y_def)
  define H' where "H' = ht_add H w w0 a"
  have H': "ht_next H' = (ht_next H)[y := ht_first H ! w0]" "ht_first H' = (ht_first H)[w0 := y]"
    "ht_index H' = (ht_index H)[y := w]" "ht_key H' = (ht_key H)[y := a]" "ht_free H' = ht_next H ! y"
    "ht_nz H' = ht_nz H + 1" "ht_nHash H' = ht_nHash H" "ht_nMax H' = ht_nMax H"
    "ht_UNDEFINED H' = ht_UNDEFINED H" "ht_range H' = ht_range H" "ht_defaultKey H' = ht_defaultKey H"
    by (simp_all add: H'_def ht_add_def Let_def free)
  have len: "length (ht_first H) = ht_nHash H" "length (ht_next H) = ht_nMax H"
    "length (ht_index H) = ht_nMax H" "length (ht_key H) = ht_nMax H"
    using r(1) by (simp_all add: ht_shape_def)
  have old: "ht_index H' ! x = ht_index H ! x" "ht_key H' ! x = ht_key H ! x" if "x \<noteq> y" for x
    using that by (simp_all add: H')
  have new: "ht_index H' ! y = w" "ht_key H' ! y = a" "ht_next H' ! y = ht_first H ! w0"
    using y(1) len by (simp_all add: H')
  have shape: "ht_shape H'" using r(1) by (simp add: ht_shape_def H')
  have cells: "ht_cells H' (bk(w0 := y # bk w0)) (tl fr)"
    unfolding ht_cells_def
  proof (intro conjI allI impI ballI)
    fix b
    assume "b < ht_nHash H'"
    then have b: "b < ht_nHash H" by (simp add: H')
    note bb = ht_bucket [OF r(2) b]
    have "chain (\<lambda>i. ht_next H' ! i) p (bk b) (ht_UNDEFINED H) \<longleftrightarrow> chain (\<lambda>i. ht_next H ! i) p (bk b) (ht_UNDEFINED H)" for p
      unfolding H' by (rule chain_list_update_notin [OF yb [OF b]])
    then show "chain (\<lambda>i. ht_next H' ! i) (ht_first H' ! b) ((bk(w0 := y # bk w0)) b) (ht_UNDEFINED H')"
      using bb(1) b0 b len new(3) by (cases "b = w0") (simp_all add: H'(2,9))
    show "distinct ((bk(w0 := y # bk w0)) b)" using bb(2) yb [OF b] by auto
    show "set ((bk(w0 := y # bk w0)) b) \<inter> set (tl fr) = {}"
      using bb(3) y by (auto dest: list.set_sel(2))
    fix x
    assume x: "x \<in> set ((bk(w0 := y # bk w0)) b)"
    show "x < ht_nMax H'" using x bb(4) y(1) by (auto simp: H' split: if_splits)
    show "ht_index H' ! x mod ht_nHash H' = b"
      using x bb(5) yb [OF b] new(1) w0 old(1) by (cases "x = y") (auto simp: H'(7) split: if_splits)
  next
    show "chain (\<lambda>i. ht_next H' ! i) (ht_free H') (tl fr) (ht_UNDEFINED H')"
      using free(2) unfolding H' by (subst chain_list_update_notin [OF y(3)])
  qed (use y in \<open>simp_all add: H'\<close>)
  have stores: "ht_stores H' (bk(w0 := y # bk w0)) (L(w \<mapsto> a))"
    unfolding ht_stores_def
  proof (intro conjI allI impI ballI)
    fix b
    assume "b < ht_nHash H'"
    then have b: "b < ht_nHash H" by (simp add: H')
    have st: "distinct (map (\<lambda>x. ht_index H ! x) (bk b))" "\<And>x. x \<in> set (bk b) \<Longrightarrow> L (ht_index H ! x) = Some (ht_key H ! x)"
      using r(3) b by (auto simp: ht_stores_def)
    have eq: "map (\<lambda>x. ht_index H' ! x) (bk b) = map (\<lambda>x. ht_index H ! x) (bk b)"
      using yb [OF b] by (intro map_cong) (auto intro: old)
    have nw: "w \<notin> set (map (\<lambda>x. ht_index H ! x) (bk b))" using st(2) w(2) by force
    have "distinct (map (\<lambda>x. ht_index H' ! x) (bk b))" "w \<notin> set (map (\<lambda>x. ht_index H' ! x) (bk b))"
      unfolding eq by (fact st(1), fact nw)
    with new(1) show "distinct (map (\<lambda>x. ht_index H' ! x) ((bk(w0 := y # bk w0)) b))"
      by (cases "b = w0") auto
    fix x
    assume x: "x \<in> set ((bk(w0 := y # bk w0)) b)"
    show "(L(w \<mapsto> a)) (ht_index H' ! x) = Some (ht_key H' ! x)"
    proof (cases "x = y")
      case True
      then show ?thesis by (simp add: new)
    next
      case False
      with x have xb: "x \<in> set (bk b)" by (auto split: if_splits)
      with nw have "ht_index H ! x \<noteq> w" by auto
      with st(2) [OF xb] False show ?thesis by (simp add: old)
    qed
  next
    fix v
    assume v: "v \<in> dom (L(w \<mapsto> a))"
    show "\<exists>x \<in> set ((bk(w0 := y # bk w0)) (v mod ht_nHash H')). ht_index H' ! x = v"
    proof (cases "v = w")
      case True
      then show ?thesis using new(1) w0 by (auto simp: H'(7))
    next
      case False
      with v have "v \<in> dom L" by auto
      with r(3) obtain x where x: "x \<in> set (bk (v mod ht_nHash H))" "ht_index H ! x = v"
        unfolding ht_stores_def by blast
      with yb [OF ht_hash_less [OF r(1)]] have "x \<noteq> y" by auto
      with x show ?thesis by (intro bexI [of _ x]) (auto simp: old H'(7))
    qed
  next
    show "dom (L(w \<mapsto> a)) \<subseteq> {..<ht_range H'}" using r(3) w(1) by (auto simp: ht_stores_def H')
    show "ht_defaultKey H' \<notin> ran (L(w \<mapsto> a))"
      using r(3) a w(2) by (simp add: ht_stores_def H')
  qed
  have "card (dom (L(w \<mapsto> a))) = Suc (card (dom L))"
    using w(2) ht_finite_dom [OF r(3)] by (simp add: card_insert_if domIff)
  moreover have "length fr = Suc (length (tl fr))" using fr by (cases fr) simp_all
  ultimately have "ht_nz H' = card (dom (L(w \<mapsto> a)))" "length (tl fr) + card (dom (L(w \<mapsto> a))) = ht_nMax H'"
    using r(4,5) by (simp_all only: H'(6,8))
  with shape cells stores show ?thesis unfolding ht_rep_def H'_def [symmetric] y_def [symmetric] by blast
qed

lemma ht_set_rep:
  assumes rep: "ht_rep H bk fr L" and x: "x \<in> set (bk (w mod ht_nHash H))" "ht_index H ! x = w"
    and a: "a \<noteq> ht_defaultKey H"
  shows "ht_rep (H\<lparr>ht_key := (ht_key H)[x := a]\<rparr>) bk fr (L(w \<mapsto> a))"
proof -
  note r = ht_repD [OF rep]
  note b0 = ht_hash_less [OF r(1), of w]
  define H' where "H' = H\<lparr>ht_key := (ht_key H)[x := a]\<rparr>"
  have Lw: "L w = Some (ht_key H ! x)" using r(3) b0 x by (auto simp: ht_stores_def)
  then have dom: "dom (L(w \<mapsto> a)) = dom L" by auto
  have xk: "(ht_key H)[x := a] ! x = a"
    using ht_bucket(4) [OF r(2) b0 x(1)] r(1) by (simp add: ht_shape_def)
  have "ht_stores H' bk (L(w \<mapsto> a))"
    unfolding ht_stores_def dom
  proof (intro conjI allI impI ballI)
    fix b z
    assume b: "b < ht_nHash H'" and z: "z \<in> set (bk b)"
    then have b': "b < ht_nHash H" by (simp add: H'_def)
    have st: "distinct (map (\<lambda>x. ht_index H ! x) (bk b))" "L (ht_index H ! z) = Some (ht_key H ! z)"
      using r(3) b' z by (auto simp: ht_stores_def)
    show "(L(w \<mapsto> a)) (ht_index H' ! z) = Some (ht_key H' ! z)"
    proof (cases "z = x")
      case True
      then show ?thesis using x(2) xk by (simp add: H'_def)
    next
      case False
      have "ht_index H ! z \<noteq> w"
      proof
        assume zw: "ht_index H ! z = w"
        then have "b = w mod ht_nHash H" using ht_bucket(5) [OF r(2) b' z] by simp
        with st(1) z x zw False show False by (auto simp: distinct_map inj_on_def)
      qed
      with st(2) False show ?thesis by (simp add: H'_def)
    qed
  qed (use r(3) a Lw in \<open>auto simp: ht_stores_def H'_def ran_def split: if_splits\<close>)
  moreover have "ht_shape H'" "ht_cells H' bk fr" using r(1,2) by (simp_all add: ht_shape_def ht_cells_def H'_def)
  ultimately have "ht_rep H' bk fr (L(w \<mapsto> a))"
    unfolding ht_rep_def dom using r(4,5) by (simp add: H'_def)
  then show ?thesis by (simp add: H'_def)
qed

lemma chain_bypass:
  assumes "chain (\<lambda>i. nx ! i) p (xs @ x # ys) U" "xs \<noteq> []" "distinct (xs @ x # ys)" "last xs < length nx"
  shows "chain (\<lambda>i. nx[last xs := nx ! x] ! i) p (xs @ ys) U"
proof -
  obtain as a where xs: "xs = as @ [a]" using assms(2) by (metis append_butlast_last_id)
  with assms show ?thesis
    by (auto simp: chain_append chain_list_update_notin)
qed

lemma chain_skip_first:
  "chain f p (x # ys) U \<Longrightarrow> chain f (f x) ys U"
  by simp

lemma ht_remove_rep:
  assumes rep: "ht_rep H bk fr L" and w: "w \<in> dom L" and w0: "w0 = w mod ht_nHash H"
  shows "\<exists>H' bk' fr'. ht_remove H w w0 = Some H' \<and> ht_rep H' bk' fr' (L(w := None))
    \<and> ht_range H' = ht_range H \<and> ht_defaultKey H' = ht_defaultKey H \<and> ht_dims H' = ht_dims H"
proof -
  note r = ht_repD [OF rep]
  have b0: "w0 < ht_nHash H" using ht_hash_less [OF r(1)] w0 by simp
  note bb = ht_bucket [OF r(2) b0]
  let ?U = "ht_UNDEFINED H"
  obtain x where x: "find (\<lambda>x. ht_index H ! x = w) (bk w0) = Some x"
    using ht_lookup_cell(1) [OF rep w0] w by fastforce
  then obtain i where i: "i < length (bk w0)" "ht_index H ! (bk w0 ! i) = w" "x = bk w0 ! i"
    "\<forall>j < i. ht_index H ! (bk w0 ! j) \<noteq> w"
    by (auto simp: find_Some_iff)
  define xs ys where "xs = take i (bk w0)" and "ys = drop (Suc i) (bk w0)"
  have split: "bk w0 = xs @ x # ys" using i by (simp add: xs_def ys_def id_take_nth_drop)
  have xw: "ht_index H ! x = w" using i(2,3) by simp
  have xsw: "\<forall>z \<in> set xs. ht_index H ! z \<noteq> w" using i by (auto simp: xs_def in_set_conv_nth)
  note bs = bb [unfolded split]
  have U: "?U \<notin> set (xs @ x # ys)" using ht_bucket_undef [OF r(1,2) b0] split by simp
  have len: "length (ht_first H) = ht_nHash H" "length (ht_next H) = ht_nMax H"
    using r(1) by (simp_all add: ht_shape_def)
  have xn: "x < ht_nMax H" "x \<notin> set xs" "x \<notin> set ys" "x \<notin> set fr" using bs(2,3) bs(4) [of x] by auto
  have pred: "ht_find_pred (ht_next H) (ht_index H) ?U w ?U (ht_first H ! w0)
      = Some (if xs = [] then ?U else last xs, x)"
    using ht_find_pred_chain [OF bs(1) U xw xsw] by simp
  define nx1 where "nx1 = (if xs = [] then ht_next H else (ht_next H)[last xs := ht_next H ! x])"
  define fs1 where "fs1 = (if xs = [] then (ht_first H)[w0 := ht_next H ! x] else ht_first H)"
  define H' where "H' = H\<lparr>ht_first := fs1, ht_next := nx1[x := ht_free H], ht_free := x, ht_nz := ht_nz H - 1\<rparr>"
  have "xs \<noteq> [] \<Longrightarrow> last xs \<noteq> ?U" using U by (metis Un_iff last_in_set set_append)
  then have run: "ht_remove H w w0 = Some H'"
    using U pred by (auto simp: ht_remove_def H'_def nx1_def fs1_def Let_def)
  have c0: "chain (\<lambda>i. nx1 ! i) (fs1 ! w0) (xs @ ys) ?U"
    using bs(1) b0 len chain_bypass [OF bs(1) _ bs(2)] bs(4) [of "last xs"] by (auto simp: nx1_def fs1_def)
  have other: "last xs \<notin> set (bk b)" if "b < ht_nHash H" "b \<noteq> w0" "xs \<noteq> []" for b
    using ht_bucket(5) [OF r(2) that(1), of "last xs"] bs(5) [of "last xs"] that by auto
  have xother: "x \<notin> set (bk b)" if "b < ht_nHash H" "b \<noteq> w0" for b
    using ht_bucket(5) [OF r(2) that(1), of x] bs(5) [of x] that by auto
  have nf: "chain (\<lambda>i. nx1 ! i) p zs q \<longleftrightarrow> chain (\<lambda>i. ht_next H ! i) p zs q"
    if "xs \<noteq> [] \<Longrightarrow> last xs \<notin> set zs" for p zs q
    using that chain_list_update_notin [of "last xs" zs] by (auto simp: nx1_def)
  have frch: "chain (\<lambda>i. ht_next H ! i) (ht_free H) fr ?U" "distinct fr" "\<forall>x \<in> set fr. x < ht_nMax H"
    using r(2) by (simp_all add: ht_cells_def)
  let ?bk = "bk(w0 := xs @ ys)"
  have bksub: "set (?bk b) \<subseteq> set (bk b)" for b using split by auto
  have lenx: "length nx1 = ht_nMax H" using len by (simp add: nx1_def)
  have cells: "ht_cells H' ?bk (x # fr)"
    unfolding ht_cells_def
  proof (intro conjI allI impI ballI)
    fix b
    assume "b < ht_nHash H'"
    then have b: "b < ht_nHash H" by (simp add: H'_def)
    note cb = ht_bucket [OF r(2) b]
    have nox: "x \<notin> set (?bk b)" using xn xother [OF b] by auto
    have "chain (\<lambda>i. nx1 ! i) (fs1 ! b) (?bk b) ?U"
    proof (cases "b = w0")
      case True
      with c0 show ?thesis by simp
    next
      case False
      then have "fs1 ! b = ht_first H ! b" by (simp add: fs1_def)
      with False cb(1) nf [of "bk b"] other [OF b] show ?thesis by simp
    qed
    then show "chain (\<lambda>i. ht_next H' ! i) (ht_first H' ! b) (?bk b) (ht_UNDEFINED H')"
      using chain_list_update_notin [OF nox] by (simp add: H'_def)
    show "distinct (?bk b)" using cb(2) bs(2) by auto
    show "set (?bk b) \<inter> set (x # fr) = {}" using nox cb(3) bksub [of b] by auto
    fix z
    assume "z \<in> set (?bk b)"
    then have "z \<in> set (bk b)" using bksub by blast
    with cb(4,5) show "z < ht_nMax H'" "ht_index H' ! z mod ht_nHash H' = b" by (simp_all add: H'_def)
  next
    have "xs \<noteq> [] \<Longrightarrow> last xs \<notin> set fr" using bs(3) by (metis Un_iff disjoint_iff last_in_set set_append)
    then have "chain (\<lambda>i. nx1 ! i) (ht_free H) fr ?U" using frch(1) nf by simp
    then show "chain (\<lambda>i. ht_next H' ! i) (ht_free H') (x # fr) (ht_UNDEFINED H')"
      using chain_list_update_notin [OF xn(4)] xn(1) lenx by (simp add: H'_def)
  qed (use frch xn in \<open>auto simp: H'_def\<close>)
  have stores: "ht_stores H' ?bk (L(w := None))"
    unfolding ht_stores_def
  proof (intro conjI allI impI ballI)
    fix b
    assume "b < ht_nHash H'"
    then have b: "b < ht_nHash H" by (simp add: H'_def)
    have st: "distinct (map (\<lambda>x. ht_index H ! x) (bk b))" "\<And>x. x \<in> set (bk b) \<Longrightarrow> L (ht_index H ! x) = Some (ht_key H ! x)"
      using r(3) b by (auto simp: ht_stores_def)
    show "distinct (map (\<lambda>x. ht_index H' ! x) (?bk b))"
      using st(1) split by (cases "b = w0") (auto simp: H'_def)
    fix z
    assume z: "z \<in> set (?bk b)"
    have "ht_index H ! z \<noteq> w"
    proof
      assume zw: "ht_index H ! z = w"
      have zb: "z \<in> set (bk b)" using z bksub by blast
      then have "b = w0" using ht_bucket(5) [OF r(2) b zb] zw w0 by simp
      then have "w \<notin> set (map (\<lambda>x. ht_index H ! x) (xs @ ys))" using st(1) split xw by simp
      with z zw \<open>b = w0\<close> show False by auto
    qed
    moreover have "z \<in> set (bk b)" using z bksub by blast
    ultimately show "(L(w := None)) (ht_index H' ! z) = Some (ht_key H' ! z)"
      using st(2) by (simp add: H'_def)
  next
    fix v
    assume "v \<in> dom (L(w := None))"
    then have v: "v \<noteq> w" "v \<in> dom L" by (auto split: if_splits)
    then obtain z where z: "z \<in> set (bk (v mod ht_nHash H))" "ht_index H ! z = v"
      using r(3) unfolding ht_stores_def by blast
    have "z \<noteq> x" using z v xw by auto
    then have "z \<in> set (?bk (v mod ht_nHash H))" using z(1) split by (cases "v mod ht_nHash H = w0") simp_all
    with z(2) show "\<exists>x \<in> set (?bk (v mod ht_nHash H')). ht_index H' ! x = v"
      by (intro bexI [of _ z]) (simp_all add: H'_def)
  next
    show "dom (L(w := None)) \<subseteq> {..<ht_range H'}" using r(3) by (auto simp: ht_stores_def H'_def)
    show "ht_defaultKey H' \<notin> ran (L(w := None))"
      using r(3) by (auto simp: ht_stores_def H'_def ran_def split: if_splits)
  qed
  have "card (dom L) = Suc (card (dom (L(w := None))))"
    using card_Suc_Diff1 [OF ht_finite_dom [OF r(3)] w] by simp
  then have "ht_nz H' = card (dom (L(w := None)))" "length (x # fr) + card (dom (L(w := None))) = ht_nMax H'"
    using r(4,5) by (simp_all add: H'_def del: dom_fun_upd)
  moreover have "ht_shape H'" using r(1) lenx by (simp add: ht_shape_def H'_def fs1_def)
  ultimately have "ht_rep H' ?bk (x # fr) (L(w := None))" using cells stores unfolding ht_rep_def by blast
  with run show ?thesis by (auto simp: H'_def ht_dims_def)
qed

section \<open>Empty tables\<close>

lemma chain_upt:
  "i < n \<Longrightarrow> (\<And>j. i \<le> j \<Longrightarrow> Suc j < n \<Longrightarrow> f j = Suc j) \<Longrightarrow> f (n - 1) = U \<Longrightarrow> chain f i [i..<n] U"
proof (induction "n - i" arbitrary: i)
  case (Suc k)
  show ?case
  proof (cases "Suc i = n")
    case True
    with Suc.prems show ?thesis by (auto simp: upt_rec)
  next
    case False
    with Suc.prems have "chain f (Suc i) [Suc i..<n] U" by (intro Suc.hyps(1)) (use Suc.hyps(2) in auto)
    with False Suc.prems show ?thesis by (simp add: upt_conv_Cons)
  qed
qed simp

lemma ht_Init_rep:
  assumes "0 < ht_nMax H" "0 < ht_nHash H" "ht_nMax H \<le> ht_UNDEFINED H"
    "length (ht_index H) = ht_nMax H" "length (ht_key H) = ht_nMax H"
  shows "\<exists>H'. goblinHashTable_Init H = Inr H' \<and> ht_rep H' (\<lambda>b. []) [0..<ht_nMax H] Map.empty
    \<and> ht_range H' = ht_range H \<and> ht_defaultKey H' = ht_defaultKey H \<and> ht_dims H' = ht_dims H"
proof -
  let ?nx = "(map Suc [0..<ht_nMax H])[ht_nMax H - 1 := ht_UNDEFINED H]"
  define H' where "H' = H\<lparr>ht_first := replicate (ht_nHash H) (ht_UNDEFINED H), ht_next := ?nx,
    ht_free := 0, ht_nz := 0\<rparr>"
  have "chain (\<lambda>i. ?nx ! i) 0 [0..<ht_nMax H] (ht_UNDEFINED H)"
    using assms(1) by (intro chain_upt) (auto simp: nth_list_update)
  then have "ht_cells H' (\<lambda>b. []) [0..<ht_nMax H]" by (simp add: ht_cells_def H'_def)
  moreover have "ht_shape H'" using assms by (simp add: ht_shape_def H'_def)
  moreover have "ht_stores H' (\<lambda>b. []) Map.empty" by (simp add: ht_stores_def)
  ultimately have "ht_rep H' (\<lambda>b. []) [0..<ht_nMax H] Map.empty" by (simp add: ht_rep_def H'_def)
  moreover have "goblinHashTable_Init H = Inr H'" using assms by (simp add: goblinHashTable_Init_def H'_def)
  ultimately show ?thesis by (auto simp: H'_def ht_dims_def)
qed

section \<open>\<open>ChangeKey\<close>\<close>

definition ht_upd :: "'k \<Rightarrow> nat \<Rightarrow> 'k \<Rightarrow> (nat \<rightharpoonup> 'k) \<Rightarrow> (nat \<rightharpoonup> 'k)" where
  "ht_upd dflt w a L = L(w := if a = dflt then None else Some a)"

definition ht_ok :: "nat \<Rightarrow> 'k \<Rightarrow> (nat \<rightharpoonup> 'k) \<Rightarrow> 'k hash_table \<Rightarrow> bool" where
  "ht_ok rr dflt L H \<longleftrightarrow> (\<exists>bk fr. ht_rep H bk fr L) \<and> ht_range H = rr \<and> ht_defaultKey H = dflt"

text \<open>One call that does not need a new cell, or finds a free one.\<close>

lemma ChangeKey_direct:
  assumes ok: "ht_ok rr dflt L H" and w: "w < rr"
    and room: "a = dflt \<or> w \<in> dom L \<or> card (dom L) < ht_nMax H"
  shows "\<exists>H'. goblinHashTable_ChangeKey (Suc d) H w a = Some (Inr H') \<and> ht_ok rr dflt (ht_upd dflt w a L) H'
    \<and> ht_dims H' = ht_dims H"
proof -
  obtain bk fr where rep: "ht_rep H bk fr L" and p: "ht_range H = rr" "ht_defaultKey H = dflt"
    using ok by (auto simp: ht_ok_def)
  note r = ht_repD [OF rep]
  have key: "goblinHashTable_Key H w = Some (Inr (case L w of None \<Rightarrow> dflt | Some k \<Rightarrow> k))"
    using ht_Key_rep [OF rep, of w] w p by (auto split: option.splits)
  have dflt: "L w \<noteq> Some dflt" using r(3) p by (auto simp: ht_stores_def ran_def)
  consider "(case L w of None \<Rightarrow> dflt | Some k \<Rightarrow> k) = a"
    | "(case L w of None \<Rightarrow> dflt | Some k \<Rightarrow> k) \<noteq> a" "a = dflt"
    | "(case L w of None \<Rightarrow> dflt | Some k \<Rightarrow> k) \<noteq> a" "a \<noteq> dflt" "w \<in> dom L"
    | "(case L w of None \<Rightarrow> dflt | Some k \<Rightarrow> k) \<noteq> a" "a \<noteq> dflt" "w \<notin> dom L" by blast
  then show ?thesis
  proof cases
    case 1
    then have "ht_upd dflt w a L = L" using dflt by (auto simp: ht_upd_def fun_eq_iff split: option.splits)
    with 1 key w p ok show ?thesis by simp
  next
    case 2
    then have "w \<in> dom L" by (auto split: option.splits)
    from ht_remove_rep [OF rep this refl] obtain H' bk' fr' where H':
      "ht_remove H w (w mod ht_nHash H) = Some H'" "ht_rep H' bk' fr' (L(w := None))"
      "ht_range H' = ht_range H" "ht_defaultKey H' = ht_defaultKey H" "ht_dims H' = ht_dims H" by blast
    then have "\<exists>bk fr. ht_rep H' bk fr (ht_upd dflt w a L)" using 2 unfolding ht_upd_def by auto
    then have "ht_ok rr dflt (ht_upd dflt w a L) H'" using H' p by (simp add: ht_ok_def)
    with 2 key w p H' show ?thesis by simp
  next
    case 3
    then obtain x where x: "find (\<lambda>x. ht_index H ! x = w) (bk (w mod ht_nHash H)) = Some x"
      using ht_lookup_cell(1) [OF rep refl, of w] by fastforce
    note xb = ht_lookup_cell(2) [OF rep refl x]
    then have "x \<noteq> ht_UNDEFINED H" using ht_bucket_undef [OF r(1,2) ht_hash_less [OF r(1)]] by metis
    moreover have "ht_rep (H\<lparr>ht_key := (ht_key H)[x := a]\<rparr>) bk fr (L(w \<mapsto> a))"
      using ht_set_rep [OF rep] xb 3 p by simp
    then have "ht_ok rr dflt (ht_upd dflt w a L) (H\<lparr>ht_key := (ht_key H)[x := a]\<rparr>)"
      using p 3 by (auto simp: ht_ok_def ht_upd_def)
    ultimately show ?thesis using 3 key w p ht_find_rep [OF rep, of w] x by (simp add: Let_def ht_dims_def)
  next
    case 4
    then have nw: "L w = None" and "card (dom L) < ht_nMax H" using room by auto
    with r(5) have fr: "fr \<noteq> []" by auto
    have none: "find (\<lambda>x. ht_index H ! x = w) (bk (w mod ht_nHash H)) = None"
      using ht_lookup_cell(1) [OF rep refl, of w] nw by simp
    have "ht_free H = hd fr" "hd fr < ht_nMax H" using r(2) fr by (cases fr, auto simp: ht_cells_def)+
    then have free: "ht_free H \<noteq> ht_UNDEFINED H" using r(1) by (simp add: ht_shape_def)
    have "ht_rep (ht_add H w (w mod ht_nHash H) a) (bk(w mod ht_nHash H := hd fr # bk (w mod ht_nHash H))) (tl fr) (L(w \<mapsto> a))"
      using ht_add_rep [OF rep fr _ nw _ refl] w p 4 by simp
    then have "ht_ok rr dflt (ht_upd dflt w a L) (ht_add H w (w mod ht_nHash H) a)"
      using p 4 by (auto simp: ht_ok_def ht_upd_def) (auto simp: ht_add_def Let_def)
    moreover have "ht_dims (ht_add H w (w mod ht_nHash H) a) = ht_dims H" by (simp add: ht_add_def Let_def ht_dims_def)
    ultimately show ?thesis using 4 key w p ht_find_rep [OF rep, of w] none free by (simp add: Let_def)
  qed
qed

subsection \<open>Rescaling\<close>

lemma ht_upd_restrict:
  "L w = Some a \<Longrightarrow> a \<noteq> dflt \<Longrightarrow> ht_upd dflt w a (L |` W) = L |` insert w W"
  by (auto simp: ht_upd_def restrict_map_def fun_eq_iff)

lemma card_dom_restrict: "finite (dom L) \<Longrightarrow> card (dom (L |` W)) \<le> card (dom L)"
  by (auto intro: card_mono)

lemma rehash_bucket:
  assumes "chain (\<lambda>i. ht_next S ! i) y ys (ht_UNDEFINED S)" "ht_UNDEFINED S \<notin> set ys"
    and "\<And>x. x \<in> set ys \<Longrightarrow> L (ht_index S ! x) = Some (ht_key S ! x)"
    and "finite (dom L)" "dom L \<subseteq> {..<rr}" "dflt \<notin> ran L"
    and "ht_ok rr dflt (L |` W) H" "card (dom L) < ht_nMax H"
  shows "\<exists>H'. ht_rehash_bucket (goblinHashTable_ChangeKey (Suc d)) S y H = Some (Inr H')
    \<and> ht_ok rr dflt (L |` (W \<union> (\<lambda>x. ht_index S ! x) ` set ys)) H' \<and> ht_dims H' = ht_dims H"
  using assms
proof (induction ys arbitrary: y W H)
  case Nil
  then show ?case by (subst ht_rehash_bucket.simps) simp
next
  case (Cons x ys)
  let ?w = "ht_index S ! x" and ?a = "ht_key S ! x"
  have x: "y = x" "y \<noteq> ht_UNDEFINED S" "L ?w = Some ?a" using Cons.prems by auto
  then have w: "?w < rr" "?a \<noteq> dflt" using Cons.prems(5,6) by (auto simp: ran_def)
  have "card (dom (L |` W)) < ht_nMax H"
    using card_dom_restrict [OF Cons.prems(4), of W] Cons.prems(8) by simp
  then obtain H1 where H1: "goblinHashTable_ChangeKey (Suc d) H ?w ?a = Some (Inr H1)"
    "ht_ok rr dflt (L |` insert ?w W) H1" "ht_dims H1 = ht_dims H"
    using ChangeKey_direct [OF Cons.prems(7) w(1), of ?a d] ht_upd_restrict [of L ?w ?a dflt W] x w by auto
  have "\<exists>H'. ht_rehash_bucket (goblinHashTable_ChangeKey (Suc d)) S (ht_next S ! x) H1 = Some (Inr H')
    \<and> ht_ok rr dflt (L |` (insert ?w W \<union> (\<lambda>x. ht_index S ! x) ` set ys)) H' \<and> ht_dims H' = ht_dims H1"
    using Cons.prems H1 ht_dims_eq [OF H1(3)] by (intro Cons.IH) auto
  then obtain H' where "ht_rehash_bucket (goblinHashTable_ChangeKey (Suc d)) S (ht_next S ! x) H1 = Some (Inr H')"
    "ht_ok rr dflt (L |` (insert ?w W \<union> (\<lambda>x. ht_index S ! x) ` set ys)) H'" "ht_dims H' = ht_dims H1" by blast
  with x H1 show ?case by (subst ht_rehash_bucket.simps) (auto simp del: goblinHashTable_ChangeKey.simps)
qed

lemma rehash_all:
  assumes rep: "ht_rep S bk fr L" "ht_range S = rr" "ht_defaultKey S = dflt"
  shows "set bs \<subseteq> {..<ht_nHash S} \<Longrightarrow> ht_ok rr dflt (L |` W) H \<Longrightarrow> card (dom L) < ht_nMax H \<Longrightarrow>
    \<exists>H'. ht_rehash (goblinHashTable_ChangeKey (Suc d)) S bs H = Some (Inr H')
      \<and> ht_ok rr dflt (L |` (W \<union> (\<Union>b \<in> set bs. (\<lambda>x. ht_index S ! x) ` set (bk b)))) H' \<and> ht_dims H' = ht_dims H"
proof (induction bs arbitrary: W H)
  case Nil
  then show ?case by simp
next
  case (Cons b bs)
  note r = ht_repD [OF rep(1)]
  have b: "b < ht_nHash S" using Cons.prems by simp
  have "\<exists>H1. ht_rehash_bucket (goblinHashTable_ChangeKey (Suc d)) S (ht_first S ! b) H = Some (Inr H1)
    \<and> ht_ok rr dflt (L |` (W \<union> (\<lambda>x. ht_index S ! x) ` set (bk b))) H1 \<and> ht_dims H1 = ht_dims H"
  proof (rule rehash_bucket [OF ht_bucket(1) [OF r(2) b] ht_bucket_undef [OF r(1,2) b]])
    show "L (ht_index S ! x) = Some (ht_key S ! x)" if "x \<in> set (bk b)" for x
      using r(3) b that by (auto simp: ht_stores_def)
    show "finite (dom L)" by (rule ht_finite_dom [OF r(3)])
    show "dom L \<subseteq> {..<rr}" "dflt \<notin> ran L" using r(3) rep(2,3) by (auto simp: ht_stores_def)
  qed (use Cons.prems in auto)
  then obtain H1 where H1: "ht_rehash_bucket (goblinHashTable_ChangeKey (Suc d)) S (ht_first S ! b) H = Some (Inr H1)"
    "ht_ok rr dflt (L |` (W \<union> (\<lambda>x. ht_index S ! x) ` set (bk b))) H1" "ht_dims H1 = ht_dims H" by blast
  have "\<exists>H'. ht_rehash (goblinHashTable_ChangeKey (Suc d)) S bs H1 = Some (Inr H')
      \<and> ht_ok rr dflt (L |` (W \<union> (\<lambda>x. ht_index S ! x) ` set (bk b) \<union> (\<Union>b \<in> set bs. (\<lambda>x. ht_index S ! x) ` set (bk b)))) H'
      \<and> ht_dims H' = ht_dims H1"
    using Cons.prems H1 ht_dims_eq [OF H1(3)] by (intro Cons.IH) auto
  with H1 show ?case by (auto simp: Un_assoc simp del: goblinHashTable_ChangeKey.simps)
qed

lemma rescale_ok:
  assumes ok: "ht_ok rr dflt L H" and std: "ht_std H" and full: "card (dom L) = ht_nMax H"
  shows "\<exists>H'. ht_rescale (goblinHashTable_ChangeKey (Suc d)) H = Some (Inr H') \<and> ht_ok rr dflt L H'
    \<and> ht_std H' \<and> ht_nMax H' = 2 * ht_nMax H"
proof -
  obtain bk fr where rep: "ht_rep H bk fr L" "ht_range H = rr" "ht_defaultKey H = dflt"
    using ok by (auto simp: ht_ok_def)
  note r = ht_repD [OF rep(1)]
  let ?E = "ht_enlarge H"
  obtain H1 where H1: "goblinHashTable_Init ?E = Inr H1" "ht_rep H1 (\<lambda>b. []) [0..<ht_nMax ?E] Map.empty"
    "ht_range H1 = ht_range ?E" "ht_defaultKey H1 = ht_defaultKey ?E" "ht_dims H1 = ht_dims ?E"
    using ht_Init_rep [of ?E] r(1) std by (auto simp: ht_shape_def ht_enlarge_def ht_std_def)
  have n: "ht_nMax H1 = 2 * ht_nMax H" "0 < ht_nMax H" "ht_nHash H = 2 * ht_nMax H" "ht_std H1"
    using ht_dims_eq [OF H1(5)] r(1) std by (simp_all add: ht_enlarge_def ht_shape_def ht_std_def)
  have "ht_ok rr dflt Map.empty H1"
    unfolding ht_ok_def using H1(2-4) rep(2,3) by (auto simp: ht_enlarge_def)
  then have "ht_ok rr dflt (L |` {}) H1" by simp
  moreover have "set [0..<ht_nMax H1] \<subseteq> {..<ht_nHash H}" "card (dom L) < ht_nMax H1" using n full by auto
  ultimately obtain H' where H': "ht_rehash (goblinHashTable_ChangeKey (Suc d)) H [0..<ht_nMax H1] H1 = Some (Inr H')"
    "ht_ok rr dflt (L |` ({} \<union> (\<Union>b \<in> set [0..<ht_nMax H1]. (\<lambda>x. ht_index H ! x) ` set (bk b)))) H'"
    "ht_dims H' = ht_dims H1" using rehash_all [OF rep] by blast
  have "dom L \<subseteq> (\<Union>b \<in> set [0..<ht_nMax H1]. (\<lambda>x. ht_index H ! x) ` set (bk b))"
  proof
    fix w
    assume "w \<in> dom L"
    then obtain x where "x \<in> set (bk (w mod ht_nHash H))" "ht_index H ! x = w"
      using r(3) unfolding ht_stores_def by blast
    moreover have "w mod ht_nHash H < ht_nMax H1" using ht_hash_less [OF r(1)] n by simp
    ultimately show "w \<in> (\<Union>b \<in> set [0..<ht_nMax H1]. (\<lambda>x. ht_index H ! x) ` set (bk b))" by auto
  qed
  then have "L |` ({} \<union> (\<Union>b \<in> set [0..<ht_nMax H1]. (\<lambda>x. ht_index H ! x) ` set (bk b))) = L"
    by (auto simp: restrict_map_def fun_eq_iff domIff subset_iff) (metis option.exhaust)
  with H' H1 n ht_dims_eq [OF H'(3)] ht_std_dims [OF H'(3)] show ?thesis
    by (auto simp: ht_rescale_def simp del: goblinHashTable_ChangeKey.simps)
qed

text \<open>Two levels of recursion are enough for every call.\<close>

lemma ChangeKey_ok:
  assumes ok: "ht_ok rr dflt L H" and std: "ht_std H" and w: "w < rr"
  shows "\<exists>H'. goblinHashTable_ChangeKey (Suc (Suc d)) H w a = Some (Inr H')
    \<and> ht_ok rr dflt (ht_upd dflt w a L) H' \<and> ht_std H'"
proof (cases "a = dflt \<or> w \<in> dom L \<or> card (dom L) < ht_nMax H")
  case True
  from ChangeKey_direct [OF ok w this] std ht_std_dims show ?thesis by metis
next
  case False
  obtain bk fr where rep: "ht_rep H bk fr L" and p: "ht_range H = rr" "ht_defaultKey H = dflt"
    using ok by (auto simp: ht_ok_def)
  note r = ht_repD [OF rep]
  from False have nw: "L w = None" and a: "a \<noteq> dflt" by auto
  from False have "\<not> card (dom L) < ht_nMax H" by blast
  with r(5) have full: "card (dom L) = ht_nMax H" and fr: "length fr = 0" by linarith+
  have free: "ht_free H = ht_UNDEFINED H" using r(2) fr by (auto simp: ht_cells_def)
  have none: "find (\<lambda>x. ht_index H ! x = w) (bk (w mod ht_nHash H)) = None"
    using ht_lookup_cell(1) [OF rep refl, of w] nw by simp
  obtain H1 where H1: "ht_rescale (goblinHashTable_ChangeKey (Suc d)) H = Some (Inr H1)" "ht_ok rr dflt L H1"
    "ht_nMax H1 = 2 * ht_nMax H" "ht_std H1" using rescale_ok [OF ok std full] by blast
  then obtain bk1 fr1 where rep1: "ht_rep H1 bk1 fr1 L" and p1: "ht_range H1 = rr" "ht_defaultKey H1 = dflt"
    by (auto simp: ht_ok_def)
  have "fr1 \<noteq> []" using ht_repD(5) [OF rep1] full H1(3) r(1) by (auto simp: ht_shape_def)
  then have "\<exists>bk fr. ht_rep (ht_add H1 w (w mod ht_nHash H1) a) bk fr (L(w \<mapsto> a))"
    using ht_add_rep [OF rep1 _ _ nw _ refl] w p1 a by blast
  then have "ht_ok rr dflt (ht_upd dflt w a L) (ht_add H1 w (w mod ht_nHash H1) a)"
    using p1 a by (simp add: ht_ok_def ht_upd_def) (simp add: ht_add_def Let_def)
  moreover have "goblinHashTable_Key H w = Some (Inr dflt)" using ht_Key_rep [OF rep, of w] w p nw by simp
  moreover have "ht_std (ht_add H1 w (w mod ht_nHash H1) a)" using H1(4) by (simp add: ht_std_def ht_add_def Let_def)
  ultimately show ?thesis using H1(1) a w p ht_find_rep [OF rep, of w] none free
    by (subst goblinHashTable_ChangeKey.simps(2)) (simp del: goblinHashTable_ChangeKey.simps)
qed

section \<open>The table as an interface\<close>

text \<open>A sequence of \<open>ChangeKey\<close> calls; the first error ends it.\<close>

fun write_all :: "('q \<Rightarrow> nat \<Rightarrow> 'k \<Rightarrow> 'q result option) \<Rightarrow> (nat \<times> 'k) list \<Rightarrow> 'q \<Rightarrow> 'q result option" where
  "write_all chg [] q = Some (Inr q)"
| "write_all chg (p # ps) q = Option.bind (chg q (fst p) (snd p))
     (\<lambda>r. case r of Inl e \<Rightarrow> Some (Inl e) | Inr q' \<Rightarrow> write_all chg ps q')"

locale key_table =
  fixes inv :: "'q \<Rightarrow> bool"
    and rng :: "'q \<Rightarrow> nat"
    and key :: "'q \<Rightarrow> nat \<Rightarrow> 'k result option"
    and chg :: "'q \<Rightarrow> nat \<Rightarrow> 'k \<Rightarrow> 'q result option"
  assumes key_returns: "inv q \<Longrightarrow> w < rng q \<Longrightarrow> \<exists>k. key q w = Some (Inr k)"
    and key_range: "inv q \<Longrightarrow> rng q \<le> w \<Longrightarrow> key q w = Some (Inl ERRange)"
    and chg_range: "inv q \<Longrightarrow> rng q \<le> w \<Longrightarrow> chg q w a = Some (Inl ERRange)"
    and chg_key: "inv q \<Longrightarrow> w < rng q \<Longrightarrow> \<exists>q'. chg q w a = Some (Inr q') \<and> inv q' \<and> rng q' = rng q
      \<and> (\<forall>v < rng q. key q' v = (if v = w then Some (Inr a) else key q v))"
begin

lemma write_all_key:
  "inv q \<Longrightarrow> \<forall>p \<in> set ps. fst p < rng q \<Longrightarrow> \<exists>q'. write_all chg ps q = Some (Inr q') \<and> inv q' \<and> rng q' = rng q
    \<and> (\<forall>v < rng q. key q' v = (case map_of (rev ps) v of None \<Rightarrow> key q v | Some a \<Rightarrow> Some (Inr a)))"
proof (induction ps arbitrary: q)
  case Nil
  then show ?case by simp
next
  case (Cons p ps)
  then obtain q1 where q1: "chg q (fst p) (snd p) = Some (Inr q1)" "inv q1" "rng q1 = rng q"
    "\<forall>v < rng q. key q1 v = (if v = fst p then Some (Inr (snd p)) else key q v)"
    using chg_key [of q "fst p" "snd p"] by auto
  from Cons.prems(2) q1(3) have "\<forall>p \<in> set ps. fst p < rng q1" by simp
  from Cons.IH [OF q1(2) this] obtain q' where q': "write_all chg ps q1 = Some (Inr q')" "inv q'" "rng q' = rng q1"
    "\<forall>v < rng q1. key q' v = (case map_of (rev ps) v of None \<Rightarrow> key q1 v | Some a \<Rightarrow> Some (Inr a))"
    by blast
  have "key q' v = (case map_of (rev (p # ps)) v of None \<Rightarrow> key q v | Some a \<Rightarrow> Some (Inr a))" if "v < rng q" for v
    using q'(4) q1(3,4) that by (cases p) (auto simp: map_add_def split: option.splits)
  with q1 q' show ?case by auto
qed

end

definition ht_lookup :: "'k hash_table \<Rightarrow> nat \<rightharpoonup> 'k" where
  "ht_lookup H w = (case goblinHashTable_Key H w of Some (Inr k) \<Rightarrow> if k = ht_defaultKey H then None else Some k | _ \<Rightarrow> None)"

lemma ht_inv_ok: "ht_inv H \<longleftrightarrow> (\<exists>L. ht_ok (ht_range H) (ht_defaultKey H) L H) \<and> ht_std H"
  by (auto simp: ht_inv_def ht_ok_def)

lemma ht_ok_Key:
  assumes "ht_ok rr dflt L H" "w < rr"
  shows "goblinHashTable_Key H w = Some (Inr (case L w of None \<Rightarrow> dflt | Some k \<Rightarrow> k))"
  using assms ht_Key_rep [of H _ _ L w] by (auto simp: ht_ok_def split: option.splits)

interpretation htable: key_table ht_inv ht_range goblinHashTable_Key "goblinHashTable_ChangeKey 2"
proof unfold_locales
  fix H :: "'k hash_table" and w a
  assume inv: "ht_inv H" and w: "w < ht_range H"
  then obtain L where L: "ht_ok (ht_range H) (ht_defaultKey H) L H" and std: "ht_std H" by (auto simp: ht_inv_ok)
  from ht_ok_Key [OF L w] show "\<exists>k. goblinHashTable_Key H w = Some (Inr k)" by simp
  obtain H' where H': "goblinHashTable_ChangeKey 2 H w a = Some (Inr H')"
    "ht_ok (ht_range H) (ht_defaultKey H) (ht_upd (ht_defaultKey H) w a L) H'" "ht_std H'"
    using ChangeKey_ok [OF L std w, of 0 a] by (auto simp: numeral_2_eq_2 simp del: goblinHashTable_ChangeKey.simps)
  then have p: "ht_range H' = ht_range H" "ht_defaultKey H' = ht_defaultKey H" by (auto simp: ht_ok_def)
  have "goblinHashTable_Key H' v = (if v = w then Some (Inr a) else goblinHashTable_Key H v)" if "v < ht_range H" for v
    using ht_ok_Key [OF H'(2) that] ht_ok_Key [OF L that] by (auto simp: ht_upd_def)
  moreover have "ht_inv H'" using H'(2,3) p by (auto simp: ht_inv_ok)
  ultimately show "\<exists>q'. goblinHashTable_ChangeKey 2 H w a = Some (Inr q') \<and> ht_inv q' \<and> ht_range q' = ht_range H
      \<and> (\<forall>v < ht_range H. goblinHashTable_Key q' v = (if v = w then Some (Inr a) else goblinHashTable_Key H v))"
    using H'(1) p(1) by blast
qed (simp_all add: goblinHashTable_Key_def numeral_2_eq_2)

lemma goblinHashTable_new:
  assumes "goblinHashTable rr nn alpha index0 key0 = Inr H" "length index0 = nn" "length key0 = nn"
  shows "ht_ok rr alpha Map.empty H" and "ht_std H"
proof -
  let ?H = "\<lparr>ht_first = [], ht_next = [], ht_index = index0, ht_key = key0,
       ht_range = rr, ht_nHash = 2 * nn, ht_nMax = nn, ht_UNDEFINED = 2 * nn,
       ht_defaultKey = alpha, ht_free = 0, ht_nz = 0\<rparr>"
  have "0 < nn" using assms(1) by (auto simp: goblinHashTable_def goblinHashTable_Init_def split: if_splits)
  then obtain H' where "goblinHashTable_Init ?H = Inr H'" "ht_rep H' (\<lambda>b. []) [0..<nn] Map.empty"
    "ht_range H' = rr" "ht_defaultKey H' = alpha" "ht_dims H' = ht_dims ?H"
    using ht_Init_rep [of ?H] assms(2,3) by auto
  with assms(1) show "ht_ok rr alpha Map.empty H" "ht_std H"
    by (auto simp: goblinHashTable_def ht_ok_def ht_std_def ht_dims_def)
qed

lemma ht_ok_nz:
  assumes "ht_ok rr dflt L H"
  shows "ht_nz H = card {v. v < rr \<and> goblinHashTable_Key H v \<noteq> Some (Inr dflt)}"
proof -
  obtain bk fr where rep: "ht_rep H bk fr L" and p: "ht_range H = rr" "ht_defaultKey H = dflt"
    using assms by (auto simp: ht_ok_def)
  have "dom L \<subseteq> {..<rr}" "dflt \<notin> ran L" using ht_repD(3) [OF rep] p by (auto simp: ht_stores_def)
  then have "{v. v < rr \<and> goblinHashTable_Key H v \<noteq> Some (Inr dflt)} = dom L"
    using ht_ok_Key [OF assms] by (auto simp: ran_def split: option.splits)
  with ht_repD(4) [OF rep] show ?thesis by simp
qed

section \<open>Properties\<close>

text \<open>
  C11: A new hash table returns, after any sequence of \<open>ChangeKey\<close> calls with indices in range, for
  every index in range the key written last, or the default key if there is none; the calls
  return, whether or not they rescale the table, and two levels of recursion are enough.
\<close>

theorem goblinHashTable_reads_last_write:
  assumes "goblinHashTable rr nn alpha index0 key0 = Inr H" "length index0 = nn" "length key0 = nn"
    and "\<forall>p \<in> set ps. fst p < rr" "v < rr"
  shows "\<exists>H'. write_all (goblinHashTable_ChangeKey 2) ps H = Some (Inr H')
    \<and> goblinHashTable_Key H' v = Some (Inr (case map_of (rev ps) v of None \<Rightarrow> alpha | Some a \<Rightarrow> a))"
proof -
  note new = goblinHashTable_new(1) [OF assms(1-3)]
  have "ht_inv H" "ht_range H = rr" using new goblinHashTable_new(2) [OF assms(1-3)] by (auto simp: ht_inv_ok ht_ok_def)
  moreover have "goblinHashTable_Key H v = Some (Inr alpha)" using ht_ok_Key [OF new assms(5)] by simp
  ultimately show ?thesis using htable.write_all_key [of H ps] assms(4,5)
    by (auto split: option.splits)
qed

theorem goblinHashTable_reads_last_write_witness:
  "\<exists>H H'. goblinHashTable 100 1 (0 :: nat) [0] [0] = Inr H
    \<and> write_all (goblinHashTable_ChangeKey 2) [(7, 3), (9, 4), (7, 5)] H = Some (Inr H')
    \<and> goblinHashTable_Key H' 7 = Some (Inr 5)"
proof -
  obtain H where H: "goblinHashTable 100 1 (0 :: nat) [0] [0] = Inr H"
    by (simp add: goblinHashTable_def goblinHashTable_Init_def)
  from goblinHashTable_reads_last_write [OF H, of "[(7, 3), (9, 4), (7, 5)]" 7] H
  show ?thesis by auto
qed

text \<open>
  The counter \<open>nz\<close> is the number of indices whose key is not the default key, after any
  sequence of \<open>ChangeKey\<close> calls.
\<close>

theorem goblinHashTable_nz_counts:
  assumes "goblinHashTable rr nn alpha index0 key0 = Inr H" "length index0 = nn" "length key0 = nn"
    and "\<forall>p \<in> set ps. fst p < rr" "write_all (goblinHashTable_ChangeKey 2) ps H = Some (Inr H')"
  shows "ht_nz H' = card {v. v < rr \<and> goblinHashTable_Key H' v \<noteq> Some (Inr alpha)}"
proof -
  have "ht_ok rr alpha L H \<Longrightarrow> ht_std H \<Longrightarrow> \<forall>p \<in> set ps. fst p < rr \<Longrightarrow>
    write_all (goblinHashTable_ChangeKey 2) ps H = Some (Inr H') \<Longrightarrow> \<exists>L. ht_ok rr alpha L H'" for L H
  proof (induction ps arbitrary: L H)
    case (Cons p ps)
    obtain H1 where H1: "goblinHashTable_ChangeKey 2 H (fst p) (snd p) = Some (Inr H1)"
      "ht_ok rr alpha (ht_upd alpha (fst p) (snd p) L) H1" "ht_std H1"
      using ChangeKey_ok [OF Cons.prems(1,2), of "fst p" 0 "snd p"] Cons.prems(3)
      by (auto simp: numeral_2_eq_2 simp del: goblinHashTable_ChangeKey.simps)
    with Cons.IH [OF H1(2,3)] Cons.prems(3,4) show ?case by auto
  qed auto
  from this [OF goblinHashTable_new [OF assms(1-3)] assms(4,5)] obtain L where "ht_ok rr alpha L H'" ..
  then show ?thesis by (rule ht_ok_nz)
qed

theorem goblinHashTable_nz_counts_witness:
  "\<exists>H H'. goblinHashTable 10 1 (0 :: nat) [0] [0] = Inr H
    \<and> write_all (goblinHashTable_ChangeKey 2) [(7, 3)] H = Some (Inr H')
    \<and> ht_nz H' = card {v. v < 10 \<and> goblinHashTable_Key H' v \<noteq> Some (Inr 0)}"
proof -
  obtain H where H: "goblinHashTable 10 1 (0 :: nat) [0] [0] = Inr H"
    by (simp add: goblinHashTable_def goblinHashTable_Init_def)
  have "ht_inv H" "ht_range H = 10" using goblinHashTable_new [OF H] by (auto simp: ht_inv_ok ht_ok_def)
  then obtain H' where H': "write_all (goblinHashTable_ChangeKey 2) [(7, 3)] H = Some (Inr H')"
    using htable.write_all_key [of H "[(7, 3)]"] by auto
  from goblinHashTable_nz_counts [OF H _ _ _ H'] H H' show ?thesis by auto
qed

end
