(* ===== verification/Dictionary.thy ===== *)
theory Dictionary
  imports Hash_Table "HOL-Library.Word" "HOL-Library.Countable"
begin

text \<open>
  The dictionary from labels to indices (\<^verbatim>\<open>include/dictionary.h\<close>, \<^verbatim>\<open>lib_src/dictionary.cpp\<close>), a hash
  table like the one of \<^verbatim>\<open>hashTable.cpp\<close> whose cells carry a string and, once one was given, an
  additional index. The class is instantiated with \<open>TKey = TIndex\<close>. Labels are C strings, so the
  model has no use for the ownership argument of \<open>ChangeKey\<close>; \<open>char\<close> is signed.

  The hash table of encoded labels simulates the dictionary as long as it does not rescale,
  which carries the results of \<^verbatim>\<open>Hash_Table\<close> over.
\<close>

section \<open>The class\<close>

record dictionary =
  dc_first :: "nat list"
  dc_next :: "nat list"
  dc_token :: "string list"
  dc_index :: "nat list option"
  dc_key :: "nat list"
  dc_nHash :: nat
  dc_nMax :: nat
  dc_defaultKey :: nat
  dc_free :: nat
  dc_nz :: nat

definition goblinDictionary_Init :: "dictionary \<Rightarrow> dictionary result" where
  "goblinDictionary_Init D =
     (if dc_nMax D = 0 then Inl OutOfBounds
      else Inr (D\<lparr>dc_first := replicate (dc_nHash D) NoIndex,
                  dc_next := (map Suc [0..<dc_nMax D])[dc_nMax D - 1 := NoIndex],
                  dc_free := 0, dc_nz := 0\<rparr>))"

text \<open>The first contents of \<open>token\<close> and \<open>key\<close> are arguments.\<close>

definition goblinDictionary :: "nat \<Rightarrow> nat \<Rightarrow> string list \<Rightarrow> nat list \<Rightarrow> dictionary result" where
  "goblinDictionary nn alpha token0 key0 =
     goblinDictionary_Init \<lparr>dc_first = [], dc_next = [], dc_token = token0, dc_index = None,
       dc_key = key0, dc_nHash = 2 * nn + 1, dc_nMax = nn, dc_defaultKey = alpha, dc_free = 0, dc_nz = 0\<rparr>"

text \<open>\<open>HashVal\<close> works modulo \<open>2 ^ 64\<close>; the product \<open>txt[i]*101\<close> is a signed int.\<close>

definition signed_char :: "char \<Rightarrow> int" where
  "signed_char ch = (let k = int (of_char ch) in if k \<ge> 128 then k - 256 else k)"

fun HashVal_loop :: "string \<Rightarrow> 64 word \<Rightarrow> 64 word" where
  "HashVal_loop [] val = val"
| "HashVal_loop (ch # lab) val = HashVal_loop lab (val * (val + 131 + word_of_int (signed_char ch * 101)))"

definition HashVal :: "string \<Rightarrow> nat \<Rightarrow> 64 word" where
  "HashVal lab ident = HashVal_loop lab (if ident \<noteq> NoIndex then 73 * of_nat ident else 119)"

definition dc_match :: "dictionary \<Rightarrow> string \<Rightarrow> nat \<Rightarrow> nat \<Rightarrow> bool" where
  "dc_match D lab ident x \<longleftrightarrow>
     (case dc_index D of None \<Rightarrow> dc_token D ! x = lab
      | Some index \<Rightarrow> dc_token D ! x = lab \<and> index ! x = ident)"

partial_function (option) dc_find :: "dictionary \<Rightarrow> string \<Rightarrow> nat \<Rightarrow> nat \<Rightarrow> nat option" where
  "dc_find D lab ident x =
     (if x \<noteq> NoIndex \<and> \<not> dc_match D lab ident x then dc_find D lab ident (dc_next D ! x) else Some x)"

partial_function (option) dc_find_pred ::
  "dictionary \<Rightarrow> string \<Rightarrow> nat \<Rightarrow> nat \<Rightarrow> nat \<Rightarrow> (nat \<times> nat) option" where
  "dc_find_pred D lab ident y x =
     (if x \<noteq> NoIndex \<and> \<not> dc_match D lab ident x then dc_find_pred D lab ident x (dc_next D ! x) else Some (y, x))"

declare dc_find.simps [code] dc_find_pred.simps [code]

definition goblinDictionary_Key :: "dictionary \<Rightarrow> string \<Rightarrow> nat \<Rightarrow> nat option" where
  "goblinDictionary_Key D lab ident =
     Option.bind (dc_find D lab ident (dc_first D ! (unat (HashVal lab ident) mod dc_nHash D)))
       (\<lambda>x. Some (if x = NoIndex then dc_defaultKey D else dc_key D ! x))"

text \<open>The branch that takes a label out; \<open>nz--\<close> wraps around.\<close>

definition dc_remove :: "dictionary \<Rightarrow> string \<Rightarrow> nat \<Rightarrow> nat \<Rightarrow> dictionary option" where
  "dc_remove D lab ident w0 =
     Option.bind (dc_find_pred D lab ident NoIndex (dc_first D ! w0))
       (\<lambda>(y, x).
          let D1 = (if x \<noteq> NoIndex then
                let D2 = (if y = NoIndex then D\<lparr>dc_first := (dc_first D)[w0 := dc_next D ! x]\<rparr>
                          else D\<lparr>dc_next := (dc_next D)[y := dc_next D ! x]\<rparr>)
                in D2\<lparr>dc_next := (dc_next D2)[x := dc_free D2], dc_free := x\<rparr>
              else D)
          in Some (D1\<lparr>dc_nz := (dc_nz D1 + 2 ^ 64 - 1) mod 2 ^ 64\<rparr>))"

definition dc_add :: "dictionary \<Rightarrow> string \<Rightarrow> nat \<Rightarrow> nat \<Rightarrow> nat \<Rightarrow> dictionary" where
  "dc_add D lab ident w0 alpha =
     (let y = dc_free D; x = dc_first D ! w0;
          index' = (case dc_index D of
              Some index \<Rightarrow> Some (index[y := ident])
            | None \<Rightarrow> if ident \<noteq> NoIndex then Some ((replicate (dc_nMax D) NoIndex)[y := ident]) else None)
      in D\<lparr>dc_free := dc_next D ! y, dc_token := (dc_token D)[y := lab], dc_index := index',
           dc_key := (dc_key D)[y := alpha], dc_first := (dc_first D)[w0 := y],
           dc_next := (dc_next D)[y := x], dc_nz := dc_nz D + 1\<rparr>)"

text \<open>
  The recursive calls of the rescaling hand over the saved additional index, or \<open>NoIndex\<close>, in
  the place of the key, and the saved key in the place of the additional index.
\<close>

partial_function (option) dc_rehash_bucket ::
  "(dictionary \<Rightarrow> string \<Rightarrow> nat \<Rightarrow> nat \<Rightarrow> dictionary result option) \<Rightarrow> dictionary \<Rightarrow> nat
    \<Rightarrow> dictionary \<Rightarrow> dictionary result option" where
  "dc_rehash_bucket chg saved y D =
     (if y \<noteq> NoIndex then
        Option.bind (chg D (dc_token saved ! y)
            (case dc_index saved of Some savedIndex \<Rightarrow> savedIndex ! y | None \<Rightarrow> NoIndex) (dc_key saved ! y))
          (\<lambda>r. case r of Inl e \<Rightarrow> Some (Inl e)
             | Inr D' \<Rightarrow> dc_rehash_bucket chg saved (dc_next saved ! y) D')
      else Some (Inr D))"

declare dc_rehash_bucket.simps [code]

fun dc_rehash :: "(dictionary \<Rightarrow> string \<Rightarrow> nat \<Rightarrow> nat \<Rightarrow> dictionary result option) \<Rightarrow> dictionary
    \<Rightarrow> nat list \<Rightarrow> dictionary \<Rightarrow> dictionary result option" where
  "dc_rehash chg saved [] D = Some (Inr D)"
| "dc_rehash chg saved (x # xs) D =
     Option.bind (dc_rehash_bucket chg saved (dc_first saved ! x) D)
       (\<lambda>r. case r of Inl e \<Rightarrow> Some (Inl e) | Inr D' \<Rightarrow> dc_rehash chg saved xs D')"

text \<open>The contents of the new arrays do not matter; they are the old ones twice.\<close>

definition dc_enlarge :: "dictionary \<Rightarrow> dictionary" where
  "dc_enlarge D = D\<lparr>dc_token := dc_token D @ dc_token D, dc_index := map_option (\<lambda>ix. ix @ ix) (dc_index D),
     dc_key := dc_key D @ dc_key D, dc_nMax := 2 * dc_nMax D, dc_nHash := 2 * (2 * dc_nMax D) + 1\<rparr>"

definition dc_rescale :: "(dictionary \<Rightarrow> string \<Rightarrow> nat \<Rightarrow> nat \<Rightarrow> dictionary result option) \<Rightarrow> dictionary
    \<Rightarrow> dictionary result option" where
  "dc_rescale chg D =
     (case goblinDictionary_Init (dc_enlarge D) of Inl e \<Rightarrow> Some (Inl e)
      | Inr D1 \<Rightarrow> dc_rehash chg D [0..<dc_nMax D1 + 1] D1)"

text \<open>
  \<open>ChangeKey(txt,alpha,id)\<close>. The first test reads the key of the label without the additional
  index. The first argument bounds the depth of the recursion.
\<close>

fun goblinDictionary_ChangeKey ::
  "nat \<Rightarrow> dictionary \<Rightarrow> string \<Rightarrow> nat \<Rightarrow> nat \<Rightarrow> dictionary result option" where
  "goblinDictionary_ChangeKey 0 D lab alpha ident = None"
| "goblinDictionary_ChangeKey (Suc d) D lab alpha ident =
     Option.bind (goblinDictionary_Key D lab NoIndex) (\<lambda>k.
       if k = alpha then Some (Inr D)
       else let w = unat (HashVal lab ident); w0 = w mod dc_nHash D in
         if alpha = dc_defaultKey D
         then Option.bind (dc_remove D lab ident w0) (\<lambda>D'. Some (Inr D'))
         else Option.bind (dc_find D lab ident (dc_first D ! w0)) (\<lambda>x.
           if x \<noteq> NoIndex then Some (Inr (D\<lparr>dc_key := (dc_key D)[x := alpha]\<rparr>))
           else if dc_free D = NoIndex
           then Option.bind (dc_rescale (goblinDictionary_ChangeKey d) D)
             (\<lambda>r. Some (rbind r (\<lambda>D'. Inr (dc_add D' lab ident (w mod dc_nHash D') alpha))))
           else Some (Inr (dc_add D lab ident w0 alpha))))"

section \<open>Simulation by a hash table\<close>

text \<open>Labels as indices: injective, and in the bucket that \<open>HashVal\<close> gives the label.\<close>

definition label_code :: "nat \<Rightarrow> string \<Rightarrow> nat" where
  "label_code m lab = unat (HashVal lab NoIndex) mod m + m * to_nat lab"

lemma label_code_mod: "0 < m \<Longrightarrow> label_code m lab mod m = unat (HashVal lab NoIndex) mod m"
  by (simp add: label_code_def)

lemma label_code_inj: "0 < m \<Longrightarrow> label_code m s = label_code m t \<longleftrightarrow> s = t"
proof
  assume m: "0 < m" and eq: "label_code m s = label_code m t"
  have "label_code m s div m = label_code m t div m" using eq by simp
  with m have "to_nat s = to_nat t" by (simp add: label_code_def)
  then show "s = t" by simp
qed simp

definition dc_abs :: "nat \<Rightarrow> dictionary \<Rightarrow> nat hash_table" where
  "dc_abs R D = \<lparr>ht_first = dc_first D, ht_next = dc_next D,
     ht_index = map (label_code (dc_nHash D)) (dc_token D), ht_key = dc_key D, ht_range = R,
     ht_nHash = dc_nHash D, ht_nMax = dc_nMax D, ht_UNDEFINED = NoIndex,
     ht_defaultKey = dc_defaultKey D, ht_free = dc_free D, ht_nz = dc_nz D\<rparr>"

lemma dc_find_chain:
  "chain (\<lambda>i. dc_next D ! i) x xs NoIndex \<Longrightarrow> NoIndex \<notin> set xs \<Longrightarrow>
   dc_find D lab ident x = Some (case find (dc_match D lab ident) xs of None \<Rightarrow> NoIndex | Some x \<Rightarrow> x)"
proof (induction xs arbitrary: x)
  case Nil
  then show ?case by (subst dc_find.simps) simp
next
  case (Cons a xs)
  then show ?case by (subst dc_find.simps) auto
qed

lemma dc_find_pred_abs:
  "chain (\<lambda>i. dc_next D ! i) x xs NoIndex \<Longrightarrow> NoIndex \<notin> set xs \<Longrightarrow>
   (\<And>x. x \<in> set xs \<Longrightarrow> dc_match D lab ident x \<longleftrightarrow> index ! x = w) \<Longrightarrow>
   dc_find_pred D lab ident y x = ht_find_pred (dc_next D) index NoIndex w y x"
proof (induction xs arbitrary: x y)
  case Nil
  then show ?case by (subst dc_find_pred.simps, subst ht_find_pred.simps) simp
next
  case (Cons a xs)
  then show ?case by (subst dc_find_pred.simps, subst ht_find_pred.simps) auto
qed

text \<open>A dictionary that stores the map \<open>L\<close> from encoded labels and no additional indices.\<close>

definition dc_ok :: "nat \<Rightarrow> nat \<Rightarrow> (nat \<rightharpoonup> nat) \<Rightarrow> dictionary \<Rightarrow> bool" where
  "dc_ok R dflt L D \<longleftrightarrow> ht_ok R dflt L (dc_abs R D) \<and> dc_index D = None \<and> dc_nMax D < NoIndex"

abbreviation dc_code :: "dictionary \<Rightarrow> string \<Rightarrow> nat" where
  "dc_code D \<equiv> label_code (dc_nHash D)"

lemma dc_abs_simps [simp]:
  "ht_first (dc_abs R D) = dc_first D" "ht_next (dc_abs R D) = dc_next D" "ht_key (dc_abs R D) = dc_key D"
  "ht_index (dc_abs R D) = map (dc_code D) (dc_token D)" "ht_range (dc_abs R D) = R"
  "ht_nHash (dc_abs R D) = dc_nHash D" "ht_nMax (dc_abs R D) = dc_nMax D"
  "ht_UNDEFINED (dc_abs R D) = NoIndex" "ht_defaultKey (dc_abs R D) = dc_defaultKey D"
  "ht_free (dc_abs R D) = dc_free D" "ht_nz (dc_abs R D) = dc_nz D"
  by (simp_all add: dc_abs_def)

lemma dc_bucket:
  assumes "ht_rep (dc_abs R D) bk fr L" "dc_index D = None" "b = unat (HashVal lab NoIndex) mod dc_nHash D"
  shows "b = dc_code D lab mod dc_nHash D" "b < dc_nHash D"
    and "chain (\<lambda>i. dc_next D ! i) (dc_first D ! b) (bk b) NoIndex" "NoIndex \<notin> set (bk b)"
    and "x \<in> set (bk b) \<Longrightarrow> dc_match D lab ident x \<longleftrightarrow> map (dc_code D) (dc_token D) ! x = dc_code D lab"
proof -
  note r = ht_repD [OF assms(1)]
  have pos: "0 < dc_nHash D" using r(1) by (simp add: ht_shape_def)
  then show b: "b = dc_code D lab mod dc_nHash D" and bl: "b < dc_nHash D"
    by (simp_all add: assms(3) label_code_mod)
  have b': "b < ht_nHash (dc_abs R D)" using bl by simp
  show "chain (\<lambda>i. dc_next D ! i) (dc_first D ! b) (bk b) NoIndex" "NoIndex \<notin> set (bk b)"
    using ht_bucket(1) [OF r(2) b'] ht_bucket_undef [OF r(1,2) b'] by simp_all
  show "dc_match D lab ident x \<longleftrightarrow> map (dc_code D) (dc_token D) ! x = dc_code D lab" if "x \<in> set (bk b)"
  proof -
    have "x < length (dc_token D)" using ht_bucket(4) [OF r(2) b' that] r(1) by (simp add: ht_shape_def)
    then show ?thesis using assms(2) label_code_inj [OF pos] by (simp add: dc_match_def)
  qed
qed

lemma dc_find_abs:
  assumes "ht_rep (dc_abs R D) bk fr L" "dc_index D = None"
  shows "dc_find D lab NoIndex (dc_first D ! (unat (HashVal lab NoIndex) mod dc_nHash D)) =
    ht_find (dc_next D) (map (dc_code D) (dc_token D)) NoIndex (dc_code D lab)
      (dc_first D ! (dc_code D lab mod dc_nHash D))"
proof -
  note b = dc_bucket [OF assms refl, where lab = lab]
  have "find (dc_match D lab NoIndex) (bk (unat (HashVal lab NoIndex) mod dc_nHash D))
    = find (\<lambda>x. map (dc_code D) (dc_token D) ! x = dc_code D lab) (bk (unat (HashVal lab NoIndex) mod dc_nHash D))"
    by (rule find_cong [OF refl]) (rule b(5))
  with dc_find_chain [OF b(3,4), of "lab" NoIndex] ht_find_chain [OF b(3,4)] b(1) show ?thesis by simp
qed

lemma dc_Key_abs:
  assumes "ht_rep (dc_abs R D) bk fr L" "dc_index D = None" "dc_code D lab < R"
  shows "goblinHashTable_Key (dc_abs R D) (dc_code D lab) = map_option Inr (goblinDictionary_Key D lab NoIndex)"
  using dc_find_abs [OF assms(1,2), where lab = lab] assms(3)
  by (simp add: goblinHashTable_Key_def goblinDictionary_Key_def option.map_comp comp_def
      split: bind_splits)

lemma dc_remove_abs:
  assumes rep: "ht_rep (dc_abs R D) bk fr L" "dc_index D = None" and nz: "0 < dc_nz D" "dc_nz D < 2 ^ 64"
  shows "ht_remove (dc_abs R D) (dc_code D lab) (dc_code D lab mod dc_nHash D)
    = map_option (dc_abs R) (dc_remove D lab NoIndex (unat (HashVal lab NoIndex) mod dc_nHash D))"
proof -
  note b = dc_bucket [OF rep refl, where lab = lab]
  have "dc_find_pred D lab NoIndex NoIndex (dc_first D ! (unat (HashVal lab NoIndex) mod dc_nHash D))
    = ht_find_pred (dc_next D) (map (dc_code D) (dc_token D)) NoIndex (dc_code D lab) NoIndex
        (dc_first D ! (unat (HashVal lab NoIndex) mod dc_nHash D))"
    by (rule dc_find_pred_abs [OF b(3,4)]) (rule b(5))
  moreover have "(dc_nz D + 2 ^ 64 - 1) mod 2 ^ 64 = dc_nz D - 1"
  proof -
    have "dc_nz D + 2 ^ 64 - 1 = (dc_nz D - 1) + 2 ^ 64" using nz(1) by simp
    then show ?thesis using nz(2) by (simp only: mod_add_self2) simp
  qed
  ultimately show ?thesis
    by (cases "ht_find_pred (dc_next D) (map (dc_code D) (dc_token D)) NoIndex (dc_code D lab) NoIndex
        (dc_first D ! (unat (HashVal lab NoIndex) mod dc_nHash D))")
      (simp_all add: ht_remove_def dc_remove_def b(1) [symmetric] dc_abs_def Let_def split: prod.splits)
qed

lemma dc_add_abs:
  assumes "dc_index D = None"
  shows "dc_abs R (dc_add D lab NoIndex w0 a) = ht_add (dc_abs R D) (dc_code D lab) w0 a"
  using assms by (simp add: dc_abs_def dc_add_def ht_add_def Let_def map_update)

lemma dc_remove_keeps:
  "dc_remove D lab ident w0 = Some D' \<Longrightarrow> dc_index D' = dc_index D"
  by (auto simp: dc_remove_def Let_def bind_eq_Some_conv split: if_splits)

text \<open>A call that does not rescale is the same call on the simulating hash table.\<close>

lemma ChangeKey_simulated:
  assumes rep: "ht_rep (dc_abs R D) bk fr L" and ix: "dc_index D = None" and w: "dc_code D lab < R"
    and nz: "dc_nz D < 2 ^ 64" and room: "a = dc_defaultKey D \<or> dc_code D lab \<in> dom L \<or> fr \<noteq> []"
  shows "\<exists>D'. goblinDictionary_ChangeKey (Suc d) D lab a NoIndex = Some (Inr D')
    \<and> goblinHashTable_ChangeKey (Suc d) (dc_abs R D) (dc_code D lab) a = Some (Inr (dc_abs R D'))
    \<and> dc_index D' = None"
proof -
  note r = ht_repD [OF rep]
  let ?w = "dc_code D lab" and ?b = "unat (HashVal lab NoIndex) mod dc_nHash D"
  define k where "k = (case L ?w of None \<Rightarrow> dc_defaultKey D | Some k \<Rightarrow> k)"
  have kh: "goblinHashTable_Key (dc_abs R D) ?w = Some (Inr k)"
    using ht_Key_rep [OF rep, of ?w] w by (cases "L ?w") (simp_all add: k_def)
  then have kd: "goblinDictionary_Key D lab NoIndex = Some k" using dc_Key_abs [OF rep ix w] by auto
  note w0 = dc_bucket(1) [OF rep ix refl, where lab = lab]
  note find = dc_find_abs [OF rep ix, where lab = lab]
  let ?f = "ht_find (dc_next D) (map (dc_code D) (dc_token D)) NoIndex ?w (dc_first D ! (?w mod dc_nHash D))"
  have dflt: "dc_defaultKey D \<notin> ran L" using r(3) by (simp add: ht_stores_def)
  consider "k = a" | "k \<noteq> a" "a = dc_defaultKey D" | "k \<noteq> a" "a \<noteq> dc_defaultKey D" by blast
  then show ?thesis
  proof cases
    case 1
    then show ?thesis using kh kd w ix by simp
  next
    case 2
    then have "?w \<in> dom L" by (auto simp: k_def split: option.splits)
    then have "0 < card (dom L)" using ht_finite_dom [OF r(3)] card_gt_0_iff by blast
    then have pos: "0 < dc_nz D" using r(4) by simp
    from ht_remove_rep [OF rep \<open>?w \<in> dom L\<close> refl]
    obtain D' where "dc_remove D lab NoIndex ?b = Some D'"
      "ht_remove (dc_abs R D) ?w (?w mod dc_nHash D) = Some (dc_abs R D')"
      using dc_remove_abs [OF rep ix pos nz, where lab = lab] by auto
    with 2 kh kd w ix show ?thesis using dc_remove_keeps by (auto simp: Let_def)
  next
    case 3
    have "\<exists>x. ?f = Some x" using ht_find_rep [OF rep, of ?w] by simp
    then obtain x where x: "?f = Some x" ..
    show ?thesis
    proof (cases "x = NoIndex")
      case True
      have "?w \<notin> dom L"
      proof
        assume "?w \<in> dom L"
        then obtain y where "find (\<lambda>x. ht_index (dc_abs R D) ! x = ?w) (bk (?w mod dc_nHash D)) = Some y"
          using ht_lookup_cell(1) [OF rep, of "?w mod dc_nHash D" ?w] by fastforce
        with x ht_find_rep [OF rep, of ?w] ht_lookup_cell(2) [OF rep, of _ ?w y]
        have "x \<in> set (bk (?w mod dc_nHash D))" by simp
        with True dc_bucket(4) [OF rep ix refl, where lab = lab] w0 show False by simp
      qed
      with room 3 have fr: "fr \<noteq> []" by blast
      have "dc_free D = hd fr" "hd fr < dc_nMax D" using r(2) fr by (cases fr, auto simp: ht_cells_def)+
      then have "dc_free D \<noteq> NoIndex" using r(1) by (simp add: ht_shape_def)
      moreover have "dc_index (dc_add D lab NoIndex ?b a) = None" using ix by (simp add: dc_add_def Let_def)
      ultimately show ?thesis using 3 True kh kd w find x dc_add_abs [OF ix] w0 by (simp add: Let_def)
    next
      case False
      with 3 kh kd w find x ix show ?thesis by (simp add: Let_def dc_abs_def)
    qed
  qed
qed

lemma ChangeKey_dc_ok:
  assumes ok: "dc_ok R dflt L D" and w: "dc_code D lab < R"
    and room: "a = dflt \<or> dc_code D lab \<in> dom L \<or> card (dom L) < dc_nMax D"
  shows "\<exists>D'. goblinDictionary_ChangeKey (Suc d) D lab a NoIndex = Some (Inr D')
    \<and> dc_ok R dflt (ht_upd dflt (dc_code D lab) a L) D' \<and> dc_nMax D' = dc_nMax D \<and> dc_nHash D' = dc_nHash D"
proof -
  have hok: "ht_ok R dflt L (dc_abs R D)" and ix: "dc_index D = None" and n: "dc_nMax D < NoIndex"
    using ok by (simp_all add: dc_ok_def)
  then obtain bk fr where rep: "ht_rep (dc_abs R D) bk fr L" and dflt: "dc_defaultKey D = dflt"
    by (auto simp: ht_ok_def)
  have "dc_nz D \<le> dc_nMax D" using ht_repD(4,5) [OF rep] by simp
  then have nz: "dc_nz D < 2 ^ 64" using n by (simp add: NoIndex_def)
  have "a = dc_defaultKey D \<or> dc_code D lab \<in> dom L \<or> fr \<noteq> []"
    using room dflt ht_repD(5) [OF rep] by auto
  from ChangeKey_simulated [OF rep ix w nz this, of d]
  obtain D' where D': "goblinDictionary_ChangeKey (Suc d) D lab a NoIndex = Some (Inr D')"
    "goblinHashTable_ChangeKey (Suc d) (dc_abs R D) (dc_code D lab) a = Some (Inr (dc_abs R D'))"
    "dc_index D' = None" by blast
  have "a = dflt \<or> dc_code D lab \<in> dom L \<or> card (dom L) < ht_nMax (dc_abs R D)" using room by simp
  from ChangeKey_direct [OF hok w this, of d] D'(2)
  have "ht_ok R dflt (ht_upd dflt (dc_code D lab) a L) (dc_abs R D')" "ht_dims (dc_abs R D') = ht_dims (dc_abs R D)"
    by (auto simp del: goblinHashTable_ChangeKey.simps)
  with D' n ht_dims_eq [of "dc_abs R D'" "dc_abs R D"] show ?thesis by (auto simp: dc_ok_def)
qed

lemma dc_ok_Key:
  assumes "dc_ok R dflt L D" "dc_code D lab < R"
  shows "goblinDictionary_Key D lab NoIndex = Some (case L (dc_code D lab) of None \<Rightarrow> dflt | Some k \<Rightarrow> k)"
proof -
  obtain bk fr where rep: "ht_rep (dc_abs R D) bk fr L" using assms(1) by (auto simp: dc_ok_def ht_ok_def)
  have "goblinHashTable_Key (dc_abs R D) (dc_code D lab) = Some (Inr (case L (dc_code D lab) of None \<Rightarrow> dflt | Some k \<Rightarrow> k))"
    using ht_ok_Key [of R dflt L "dc_abs R D"] assms by (simp add: dc_ok_def)
  with dc_Key_abs [OF rep _ assms(2)] assms(1) show ?thesis
    by (cases "goblinDictionary_Key D lab NoIndex") (simp_all add: dc_ok_def)
qed

section \<open>Properties\<close>

text \<open>A sequence of \<open>ChangeKey\<close> calls with plain labels.\<close>

fun label_all :: "(string \<times> nat) list \<Rightarrow> dictionary \<Rightarrow> dictionary result option" where
  "label_all [] D = Some (Inr D)"
| "label_all (p # ps) D = Option.bind (goblinDictionary_ChangeKey 2 D (fst p) (snd p) NoIndex)
     (\<lambda>r. case r of Inl e \<Rightarrow> Some (Inl e) | Inr D' \<Rightarrow> label_all ps D')"

lemma map_of_rev_Cons:
  "map_of (rev (p # ps)) s = (case map_of (rev ps) s of None \<Rightarrow> if s = fst p then Some (snd p) else None | Some a \<Rightarrow> Some a)"
  by (cases p) (auto simp: map_add_def split: option.splits)

lemma label_all_ok:
  assumes "finite S" "card S \<le> dc_nMax D" "0 < dc_nHash D"
  shows "dc_ok R dflt L D \<Longrightarrow> dom L \<subseteq> dc_code D ` S \<Longrightarrow> fst ` set ps \<subseteq> S \<Longrightarrow> \<forall>s \<in> S. dc_code D s < R \<Longrightarrow>
    \<exists>D' L'. label_all ps D = Some (Inr D') \<and> dc_ok R dflt L' D' \<and> dc_nHash D' = dc_nHash D
      \<and> (\<forall>s. (case L' (dc_code D s) of None \<Rightarrow> dflt | Some k \<Rightarrow> k)
          = (case map_of (rev ps) s of None \<Rightarrow> (case L (dc_code D s) of None \<Rightarrow> dflt | Some k \<Rightarrow> k) | Some a \<Rightarrow> a))"
  using assms(2,3)
proof (induction ps arbitrary: D L)
  case Nil
  then show ?case by auto
next
  case (Cons p ps)
  let ?w = "dc_code D (fst p)"
  have pS: "fst p \<in> S" "?w < R" using Cons.prems(3,4) by auto
  have "card (dom L) < dc_nMax D" if "?w \<notin> dom L"
  proof -
    have "dom L \<subseteq> dc_code D ` (S - {fst p})" using Cons.prems(2) that by fastforce
    then have "card (dom L) \<le> card (S - {fst p})"
      using card_mono [of "dc_code D ` (S - {fst p})" "dom L"] card_image_le [of "S - {fst p}" "dc_code D"] assms(1)
      by simp
    also have "\<dots> < card S" using assms(1) pS(1) by (rule card_Diff1_less)
    finally show ?thesis using Cons.prems(5) by simp
  qed
  then have "snd p = dflt \<or> ?w \<in> dom L \<or> card (dom L) < dc_nMax D" by blast
  from ChangeKey_dc_ok [OF Cons.prems(1) pS(2) this, of 1]
  obtain D1 where D1: "goblinDictionary_ChangeKey 2 D (fst p) (snd p) NoIndex = Some (Inr D1)"
    "dc_ok R dflt (ht_upd dflt ?w (snd p) L) D1" "dc_nMax D1 = dc_nMax D" "dc_nHash D1 = dc_nHash D"
    by (auto simp: numeral_2_eq_2 simp del: goblinDictionary_ChangeKey.simps)
  have "dom (ht_upd dflt ?w (snd p) L) \<subseteq> dc_code D ` S" "fst ` set ps \<subseteq> S"
    using Cons.prems(2,3) pS(1) by (auto simp: ht_upd_def split: if_splits)
  from Cons.IH [OF D1(2), unfolded D1(3,4), OF this Cons.prems(4-6)]
  obtain D' L' where D': "label_all ps D1 = Some (Inr D')" "dc_ok R dflt L' D'" "dc_nHash D' = dc_nHash D"
    "\<forall>s. (case L' (dc_code D s) of None \<Rightarrow> dflt | Some k \<Rightarrow> k) = (case map_of (rev ps) s of
        None \<Rightarrow> (case ht_upd dflt ?w (snd p) L (dc_code D s) of None \<Rightarrow> dflt | Some k \<Rightarrow> k) | Some a \<Rightarrow> a)"
    by blast
  have "(case ht_upd dflt ?w (snd p) L (dc_code D s) of None \<Rightarrow> dflt | Some k \<Rightarrow> k)
    = (if s = fst p then snd p else case L (dc_code D s) of None \<Rightarrow> dflt | Some k \<Rightarrow> k)" for s
    using label_code_inj [OF Cons.prems(6)] by (auto simp: ht_upd_def)
  with D' D1(1) show ?case
    by (intro exI [of _ D'] exI [of _ L'])
      (auto simp: map_of_rev_Cons simp del: rev.simps goblinDictionary_ChangeKey.simps split: option.splits)
qed

lemma goblinDictionary_new:
  assumes "goblinDictionary nn alpha token0 key0 = Inr D" "length token0 = nn" "length key0 = nn" "nn < NoIndex"
  shows "dc_ok R alpha Map.empty D" "dc_nMax D = nn" "0 < dc_nHash D"
proof -
  let ?D = "\<lparr>dc_first = [], dc_next = [], dc_token = token0, dc_index = None, dc_key = key0,
    dc_nHash = 2 * nn + 1, dc_nMax = nn, dc_defaultKey = alpha, dc_free = 0, dc_nz = 0\<rparr>"
  have nn: "0 < nn" and D: "D = ?D\<lparr>dc_first := replicate (2 * nn + 1) NoIndex,
      dc_next := (map Suc [0..<nn])[nn - 1 := NoIndex], dc_free := 0, dc_nz := 0\<rparr>"
    using assms(1) by (auto simp: goblinDictionary_def goblinDictionary_Init_def split: if_splits)
  obtain H where H: "goblinHashTable_Init (dc_abs R ?D) = Inr H" "ht_rep H (\<lambda>b. []) [0..<nn] Map.empty"
    "ht_range H = R" "ht_defaultKey H = alpha"
    using ht_Init_rep [of "dc_abs R ?D"] nn assms(2-4) by auto
  moreover have "H = dc_abs R D"
    using H(1) nn by (simp add: goblinHashTable_Init_def D dc_abs_def)
  ultimately show "dc_ok R alpha Map.empty D" "dc_nMax D = nn" "0 < dc_nHash D"
    using assms(4) by (auto simp: dc_ok_def ht_ok_def D)
qed

text \<open>
  C28: A new dictionary for \<open>nn\<close> labels returns, after any sequence of \<open>ChangeKey\<close> calls for at most
  \<open>nn\<close> different labels, for every label the key given last, or the default key if there is none.
\<close>

theorem goblinDictionary_reads_last_write:
  assumes "goblinDictionary nn alpha token0 key0 = Inr D" "length token0 = nn" "length key0 = nn" "nn < NoIndex"
    and "card (fst ` set ps) \<le> nn"
  shows "\<exists>D'. label_all ps D = Some (Inr D')
    \<and> goblinDictionary_Key D' lab NoIndex = Some (case map_of (rev ps) lab of None \<Rightarrow> alpha | Some a \<Rightarrow> a)"
proof -
  let ?S = "fst ` set ps"
  define R where "R = Suc (Max (dc_code D ` insert lab ?S))"
  have R: "dc_code D s < R" if "s \<in> insert lab ?S" for s
    using that by (simp add: R_def less_Suc_eq_le del: image_insert)
  note new = goblinDictionary_new [OF assms(1-4)]
  have "finite ?S" "card ?S \<le> dc_nMax D" "0 < dc_nHash D" "dom Map.empty \<subseteq> dc_code D ` ?S"
    "?S \<subseteq> ?S" "\<forall>s \<in> ?S. dc_code D s < R"
    using new assms(5) R by auto
  from label_all_ok [OF this(1-3) new(1) this(4-6)]
  obtain D' L' where D': "label_all ps D = Some (Inr D')" "dc_ok R alpha L' D'" "dc_nHash D' = dc_nHash D"
    "\<forall>s. (case L' (dc_code D s) of None \<Rightarrow> alpha | Some k \<Rightarrow> k) = (case map_of (rev ps) s of
        None \<Rightarrow> (case Map.empty (dc_code D s) of None \<Rightarrow> alpha | Some k \<Rightarrow> k) | Some a \<Rightarrow> a)" by blast
  have "dc_code D' lab < R" using R [of lab] D'(3) by simp
  from dc_ok_Key [OF D'(2) this] D' show ?thesis by (cases "map_of (rev ps) lab") simp_all
qed

theorem goblinDictionary_reads_last_write_witness:
  "\<exists>D D'. goblinDictionary 2 9 [[], []] [0, 0] = Inr D
    \<and> label_all [(''a'', 1), (''b'', 2), (''a'', 3)] D = Some (Inr D')
    \<and> goblinDictionary_Key D' ''a'' NoIndex = Some 3"
proof -
  obtain D where D: "goblinDictionary 2 9 [[], []] [0, 0] = Inr D"
    by (simp add: goblinDictionary_def goblinDictionary_Init_def)
  have "card (fst ` set [(''a'', 1), (''b'', 2), (''a'', 3)]) \<le> 2" by (simp add: card_insert_if)
  from goblinDictionary_reads_last_write [OF D _ _ _ this, of "''a''"]
  have "\<exists>D'. label_all [(''a'', 1), (''b'', 2), (''a'', 3)] D = Some (Inr D')
    \<and> goblinDictionary_Key D' ''a'' NoIndex = Some 3" by (simp add: NoIndex_def del: label_all.simps)
  with D show ?thesis by blast
qed

lemma HashVal_examples:
  "unat (HashVal ''a'' NoIndex) = 1195593" "unat (HashVal ''b'' NoIndex) = 1207612" "unat (HashVal ''a'' (Suc 0)) = 730073"
  by (simp_all add: HashVal_def signed_char_def NoIndex_def)

text \<open>
  Beyond that the dictionary loses labels. The rescaling re-enters every label with its key
  and its additional index exchanged: after giving two labels to a dictionary of initial size
  one, the first label has the default key again.
\<close>

theorem goblinDictionary_rescale_loses_label:
  "\<exists>D D'. goblinDictionary 1 0 [[]] [0] = Inr D
    \<and> label_all [(''a'', 1), (''b'', 2)] D = Some (Inr D')
    \<and> goblinDictionary_Key D' ''a'' NoIndex = Some 0 \<and> goblinDictionary_Key D' ''b'' NoIndex = Some 2"
proof -
  define D0 where "D0 = \<lparr>dc_first = [NoIndex, NoIndex, NoIndex], dc_next = [NoIndex], dc_token = [[]],
    dc_index = None, dc_key = [0], dc_nHash = 3, dc_nMax = 1, dc_defaultKey = 0, dc_free = 0, dc_nz = 0\<rparr>"
  define D1 where "D1 = \<lparr>dc_first = [0, NoIndex, NoIndex], dc_next = [NoIndex], dc_token = [''a''],
    dc_index = None, dc_key = [1], dc_nHash = 3, dc_nMax = 1, dc_defaultKey = 0, dc_free = NoIndex, dc_nz = 1\<rparr>"
  define D2 where "D2 = \<lparr>dc_first = [NoIndex, NoIndex, NoIndex, 0, NoIndex], dc_next = [NoIndex, NoIndex],
    dc_token = [''a'', ''a''], dc_index = Some [1, NoIndex], dc_key = [NoIndex, 1], dc_nHash = 5, dc_nMax = 2,
    dc_defaultKey = 0, dc_free = 1, dc_nz = 1\<rparr>"
  define D3 where "D3 = \<lparr>dc_first = [NoIndex, NoIndex, 1, 0, NoIndex], dc_next = [NoIndex, NoIndex],
    dc_token = [''a'', ''b''], dc_index = Some [1, NoIndex], dc_key = [NoIndex, 2], dc_nHash = 5, dc_nMax = 2,
    dc_defaultKey = 0, dc_free = NoIndex, dc_nz = 2\<rparr>"
  have N: "NoIndex = 2000000000" by (rule NoIndex_def)
  note ev = HashVal_examples [unfolded N] goblinDictionary_Key_def dc_find.simps dc_match_def dc_add_def Let_def N
  have 1: "goblinDictionary 1 0 [[]] [0] = Inr D0"
    by (simp add: goblinDictionary_def goblinDictionary_Init_def D0_def numeral_3_eq_3)
  have 2: "goblinDictionary_ChangeKey 2 D0 ''a'' 1 NoIndex = Some (Inr D1)"
    by (simp add: numeral_2_eq_2 D0_def D1_def) (simp add: ev)
  have rep: "replicate 5 x = [x, x, x, x, x]" "replicate 2 x = [x, x]" for x :: nat
    by (simp_all add: numeral_eq_Suc)
  define E where "E = D2\<lparr>dc_first := replicate 5 NoIndex, dc_next := [1, NoIndex],
      dc_index := None, dc_key := [1, 1], dc_free := 0, dc_nz := 0\<rparr>"
  have E: "goblinDictionary_Init (dc_enlarge D1) = Inr E" "dc_nMax E = 2"
    by (simp_all add: goblinDictionary_Init_def dc_enlarge_def D1_def D2_def E_def upt_rec)
  have "goblinDictionary_ChangeKey 1 E ''a'' NoIndex 1 = Some (Inr D2)"
    by (simp add: D2_def E_def rep) (simp add: ev rep)
  then have "dc_rehash_bucket (goblinDictionary_ChangeKey 1) D1 0 E = Some (Inr D2)"
    by (simp add: dc_rehash_bucket.simps D1_def N del: goblinDictionary_ChangeKey.simps)
  moreover have "dc_rehash_bucket (goblinDictionary_ChangeKey 1) D1 NoIndex D2 = Some (Inr D2)"
    by (simp add: dc_rehash_bucket.simps)
  ultimately have "dc_rescale (goblinDictionary_ChangeKey 1) D1 = Some (Inr D2)"
    using E by (simp add: dc_rescale_def upt_rec del: goblinDictionary_ChangeKey.simps) (simp add: D1_def)
  moreover have "goblinDictionary_Key D1 ''b'' NoIndex = Some 0" "dc_find D1 ''b'' NoIndex (dc_first D1 ! 1) = Some NoIndex"
    "dc_nHash D1 = 3" "dc_defaultKey D1 = 0" "dc_free D1 = NoIndex" "unat (HashVal ''b'' NoIndex) mod 3 = 1"
    "unat (HashVal ''b'' NoIndex) mod dc_nHash D2 = 2" "dc_add D2 ''b'' NoIndex 2 2 = D3"
    by (simp_all add: D1_def D2_def D3_def) (simp_all add: ev)
  ultimately have 3: "goblinDictionary_ChangeKey 2 D1 ''b'' 2 NoIndex = Some (Inr D3)"
    by (simp add: numeral_2_eq_2 Let_def)
  have "goblinDictionary_Key D3 ''a'' NoIndex = Some 0 \<and> goblinDictionary_Key D3 ''b'' NoIndex = Some 2"
    by (simp add: D3_def) (simp add: ev)
  with 1 2 3 show ?thesis by auto
qed

end
