(* ===== verification/Attribute.thy ===== *)
theory Attribute
  imports Goblin_Prelude
begin

text \<open>
  The attribute template (\<^verbatim>\<open>include/attribute.h\<close>): a vector of values with a default value for the
  indices beyond its end, and lazily computed positions of a minimal and a maximal value.
  \<open>infimum\<close> and \<open>supremum\<close> are \<open>NoIndex\<close> while they are not known. The methods that compute them
  on demand return the changed object as well. The capacity of the vector is not modelled: it
  only decides whether memory is reallocated.
\<close>

section \<open>The class\<close>

record 'a attr =
  at_data :: "'a list"
  at_defaultValue :: 'a
  at_infimum :: nat
  at_supremum :: nat

definition attribute :: "nat \<Rightarrow> 'a \<Rightarrow> 'a attr" where
  "attribute sz d = \<lparr>at_data = replicate sz d, at_defaultValue = d, at_infimum = NoIndex, at_supremum = NoIndex\<rparr>"

definition attribute_Size :: "'a attr \<Rightarrow> nat" where
  "attribute_Size A = length (at_data A)"

definition attribute_GetValue :: "'a attr \<Rightarrow> nat \<Rightarrow> 'a" where
  "attribute_GetValue A index =
     (if index \<ge> attribute_Size A then at_defaultValue A else at_data A ! index)"

definition attribute_ReleaseBounds :: "'a attr \<Rightarrow> 'a attr" where
  "attribute_ReleaseBounds A = A\<lparr>at_supremum := NoIndex, at_infimum := NoIndex\<rparr>"

text \<open>
  \<open>SetValue\<close>. The insertion makes the vector end just before \<open>index\<close>, so that the following
  assignment to \<open>data[index]\<close> is outside the vector.
\<close>

definition attribute_SetValue :: "'a::linorder attr \<Rightarrow> nat \<Rightarrow> 'a \<Rightarrow> 'a attr result" where
  "attribute_SetValue A index newValue =
     (let A1 = (if index \<ge> attribute_Size A \<and> newValue \<noteq> at_defaultValue A
                then A\<lparr>at_data := at_data A @ replicate (index - attribute_Size A) (at_defaultValue A)\<rparr>
                else A)
      in if index \<ge> attribute_Size A1 then Inl OutOfBounds
         else
           let A2 = (if index = at_infimum A1 \<and> newValue > at_data A1 ! index
                       \<or> index = at_supremum A1 \<and> newValue < at_data A1 ! index
                     then attribute_ReleaseBounds A1 else A1);
               A3 = A2\<lparr>at_data := (at_data A2)[index := newValue]\<rparr>;
               A4 = (if at_infimum A3 \<noteq> NoIndex
                       \<and> (newValue < at_data A3 ! at_infimum A3
                          \<or> newValue = at_data A3 ! at_infimum A3 \<and> index < at_infimum A3)
                     then A3\<lparr>at_infimum := index\<rparr> else A3);
               A5 = (if at_supremum A4 \<noteq> NoIndex
                       \<and> (newValue > at_data A4 ! at_supremum A4
                          \<or> newValue = at_data A4 ! at_supremum A4 \<and> index > at_supremum A4)
                     then A4\<lparr>at_supremum := index\<rparr> else A4)
           in Inr A5)"

definition attribute_SetDefaultValue :: "'a attr \<Rightarrow> 'a \<Rightarrow> 'a attr" where
  "attribute_SetDefaultValue A d = A\<lparr>at_defaultValue := d\<rparr>"

definition attribute_SetConstant :: "'a attr \<Rightarrow> 'a \<Rightarrow> 'a attr" where
  "attribute_SetConstant A d = attribute_ReleaseBounds (A\<lparr>at_data := [], at_defaultValue := d\<rparr>)"

definition attribute_Assign :: "'a attr \<Rightarrow> 'a \<Rightarrow> 'a attr" where
  "attribute_Assign A newvalue =
     (let A1 = A\<lparr>at_defaultValue := newvalue\<rparr>
      in if attribute_Size A1 > 0
         then A1\<lparr>at_data := replicate (attribute_Size A1) newvalue, at_infimum := 0,
                 at_supremum := attribute_Size A1 - 1\<rparr>
         else A1)"

definition attribute_SetCapacity :: "'a attr \<Rightarrow> nat \<Rightarrow> 'a attr result" where
  "attribute_SetCapacity A capacity = (if capacity \<ge> attribute_Size A then Inr A else Inl ERRange)"

definition attribute_ReserveItems :: "'a attr \<Rightarrow> nat \<Rightarrow> 'a attr result" where
  "attribute_ReserveItems A capacity =
     (if attribute_Size A > 0 then attribute_SetCapacity A capacity else Inr A)"

definition attribute_IncreaseSize :: "'a attr \<Rightarrow> nat \<Rightarrow> 'a attr result" where
  "attribute_IncreaseSize A sz =
     (if sz > length (at_data A)
      then Inr (A\<lparr>at_data := at_data A @ replicate (sz - length (at_data A)) (at_defaultValue A)\<rparr>)
      else if sz < length (at_data A) then Inl ERRange
      else Inr A)"

definition attribute_AppendItems :: "'a::linorder attr \<Rightarrow> nat \<Rightarrow> 'a attr" where
  "attribute_AppendItems A numItems =
     (if numItems = 0 \<or> length (at_data A) = 0 then A
      else
        let A1 = (if at_infimum A \<noteq> NoIndex \<and> at_defaultValue A < at_data A ! at_infimum A
                  then A\<lparr>at_infimum := length (at_data A)\<rparr> else A);
            A2 = A1\<lparr>at_data := at_data A1 @ replicate numItems (at_defaultValue A1)\<rparr>
        in if at_supremum A2 \<noteq> NoIndex \<and> at_defaultValue A2 \<ge> at_data A2 ! at_supremum A2
           then A2\<lparr>at_supremum := length (at_data A2) - 1\<rparr> else A2)"

definition attribute_EraseItems :: "'a attr \<Rightarrow> nat \<Rightarrow> 'a attr result" where
  "attribute_EraseItems A numItems =
     (if numItems = 0 \<or> length (at_data A) = 0 then Inr A
      else if numItems \<le> length (at_data A) then
        let A1 = (if numItems = length (at_data A) then A\<lparr>at_defaultValue := at_data A ! 0\<rparr> else A);
            A2 = (if at_infimum A1 \<noteq> NoIndex \<and> at_infimum A1 \<ge> length (at_data A1) - numItems
                     \<or> at_supremum A1 \<noteq> NoIndex \<and> at_supremum A1 \<ge> length (at_data A1) - numItems
                  then attribute_ReleaseBounds A1 else A1)
        in Inr (A2\<lparr>at_data := take (length (at_data A2) - numItems) (at_data A2)\<rparr>)
      else Inl ERRange)"

definition attribute_SwapItems :: "'a attr \<Rightarrow> nat \<Rightarrow> nat \<Rightarrow> 'a attr result" where
  "attribute_SwapItems A index1 index2 =
     (if length (at_data A) = 0 then Inr A
      else if index1 = index2 then Inr A
      else if index1 < length (at_data A) \<and> index2 < length (at_data A) then
        let A1 = (if index1 = at_infimum A then A\<lparr>at_infimum := index2\<rparr>
                  else if index2 = at_infimum A then A\<lparr>at_infimum := index1\<rparr> else A);
            A2 = (if index1 = at_supremum A1 then A1\<lparr>at_supremum := index2\<rparr>
                  else if index2 = at_supremum A1 then A1\<lparr>at_supremum := index1\<rparr> else A1)
        in Inr (A2\<lparr>at_data := (at_data A2)[index1 := at_data A2 ! index2, index2 := at_data A2 ! index1]\<rparr>)
      else Inl ERRange)"

text \<open>The loop of \<open>ComputeBounds\<close> over the remaining items \<open>c # cs\<close>, from position \<open>i\<close> on.\<close>

fun at_scan :: "nat \<Rightarrow> 'a::linorder list \<Rightarrow> 'a \<Rightarrow> 'a \<Rightarrow> nat \<Rightarrow> nat \<Rightarrow> nat \<times> nat" where
  "at_scan i [] mn mx lo hi = (lo, hi)"
| "at_scan i (c # cs) mn mx lo hi =
     (if c < mn then at_scan (Suc i) cs c mx i hi
      else if c \<ge> mx then at_scan (Suc i) cs mn c lo i
      else at_scan (Suc i) cs mn mx lo hi)"

definition attribute_ComputeBounds :: "'a::linorder attr \<Rightarrow> 'a attr" where
  "attribute_ComputeBounds A =
     (case at_data A of
        [] \<Rightarrow> A\<lparr>at_supremum := NoIndex, at_infimum := NoIndex\<rparr>
      | c # cs \<Rightarrow> (case at_scan 1 cs c c 0 0 of
            (lo, hi) \<Rightarrow> A\<lparr>at_supremum := hi, at_infimum := lo\<rparr>))"

definition attribute_DefaultValue :: "'a attr \<Rightarrow> 'a" where
  "attribute_DefaultValue A = at_defaultValue A"

definition attribute_MinIndex :: "'a::linorder attr \<Rightarrow> nat \<times> 'a attr" where
  "attribute_MinIndex A =
     (if length (at_data A) = 0 then (NoIndex, A)
      else let A1 = (if at_infimum A = NoIndex then attribute_ComputeBounds A else A)
           in (at_infimum A1, A1))"

definition attribute_MaxIndex :: "'a::linorder attr \<Rightarrow> nat \<times> 'a attr" where
  "attribute_MaxIndex A =
     (if length (at_data A) = 0 then (NoIndex, A)
      else let A1 = (if at_supremum A = NoIndex then attribute_ComputeBounds A else A)
           in (at_supremum A1, A1))"

definition attribute_MinValue :: "'a::linorder attr \<Rightarrow> 'a \<times> 'a attr" where
  "attribute_MinValue A =
     (if length (at_data A) = 0 then (at_defaultValue A, A)
      else let A1 = (if at_infimum A = NoIndex then attribute_ComputeBounds A else A)
           in (at_data A1 ! at_infimum A1, A1))"

definition attribute_MaxValue :: "'a::linorder attr \<Rightarrow> 'a \<times> 'a attr" where
  "attribute_MaxValue A =
     (if length (at_data A) = 0 then (at_defaultValue A, A)
      else let A1 = (if at_supremum A = NoIndex then attribute_ComputeBounds A else A)
           in (at_data A1 ! at_supremum A1, A1))"

definition attribute_IsConstant :: "'a::linorder attr \<Rightarrow> bool \<times> 'a attr" where
  "attribute_IsConstant A =
     (if length (at_data A) = 0 then (True, A)
      else let (mn, A1) = attribute_MinValue A; (mx, A2) = attribute_MaxValue A1
           in (\<not> (mn < mx \<or> mn \<noteq> at_defaultValue A2), A2))"

section \<open>Invariant\<close>

text \<open>A known position is the position of a minimal or maximal value.\<close>

definition least_at :: "'a::linorder list \<Rightarrow> nat \<Rightarrow> bool" where
  "least_at xs i \<longleftrightarrow> i < length xs \<and> (\<forall>j < length xs. xs ! i \<le> xs ! j)"

definition greatest_at :: "'a::linorder list \<Rightarrow> nat \<Rightarrow> bool" where
  "greatest_at xs i \<longleftrightarrow> i < length xs \<and> (\<forall>j < length xs. xs ! j \<le> xs ! i)"

definition at_inv :: "'a::linorder attr \<Rightarrow> bool" where
  "at_inv A \<longleftrightarrow> length (at_data A) \<le> NoIndex
     \<and> (at_infimum A \<noteq> NoIndex \<longrightarrow> least_at (at_data A) (at_infimum A))
     \<and> (at_supremum A \<noteq> NoIndex \<longrightarrow> greatest_at (at_data A) (at_supremum A))"

lemma least_at_Min: "least_at xs i \<Longrightarrow> xs ! i = Min (set xs)"
  by (rule Min_eqI [symmetric]) (auto simp: least_at_def in_set_conv_nth)

lemma greatest_at_Max: "greatest_at xs i \<Longrightarrow> xs ! i = Max (set xs)"
  by (rule Max_eqI [symmetric]) (auto simp: greatest_at_def in_set_conv_nth)

text \<open>The scan finds the first minimal and the last maximal position.\<close>

lemma at_scan_bounds:
  assumes "i = length xs" "xs \<noteq> []"
    "least_at xs lo" "mn = xs ! lo" "\<forall>j < lo. xs ! lo < xs ! j"
    "greatest_at xs hi" "mx = xs ! hi" "\<forall>j. hi < j \<and> j < length xs \<longrightarrow> xs ! j < xs ! hi"
    "at_scan i cs mn mx lo hi = (lo', hi')"
  shows "least_at (xs @ cs) lo' \<and> (\<forall>j < lo'. (xs @ cs) ! lo' < (xs @ cs) ! j)
    \<and> greatest_at (xs @ cs) hi' \<and> (\<forall>j. hi' < j \<and> j < length (xs @ cs) \<longrightarrow> (xs @ cs) ! j < (xs @ cs) ! hi')"
  using assms
proof (induction cs arbitrary: xs i mn mx lo hi)
  case Nil
  then show ?case by simp
next
  case (Cons c cs)
  have nth: "(xs @ [c]) ! j = (if j < length xs then xs ! j else c)" if "j < Suc (length xs)" for j
    using that by (auto simp: nth_append)
  have bd: "lo < length xs" "hi < length xs" using Cons.prems by (auto simp: least_at_def greatest_at_def)
  have mnmx: "mn \<le> mx" using Cons.prems bd by (simp add: least_at_def)
  consider "c < mn" | "\<not> c < mn" "mx \<le> c" | "\<not> c < mn" "\<not> mx \<le> c" by blast
  then show ?case
  proof cases
    case 1
    have "least_at ((xs @ [c]) @ cs) lo' \<and> (\<forall>j < lo'. ((xs @ [c]) @ cs) ! lo' < ((xs @ [c]) @ cs) ! j)
      \<and> greatest_at ((xs @ [c]) @ cs) hi' \<and> (\<forall>j. hi' < j \<and> j < length ((xs @ [c]) @ cs)
        \<longrightarrow> ((xs @ [c]) @ cs) ! j < ((xs @ [c]) @ cs) ! hi')"
    proof (rule Cons.IH [where i = "Suc i" and mn = c and mx = mx and lo = i and hi = hi])
      show "least_at (xs @ [c]) i" "\<forall>j < i. (xs @ [c]) ! i < (xs @ [c]) ! j"
        using 1 Cons.prems by (fastforce simp: least_at_def nth_append less_Suc_eq)+
      show "greatest_at (xs @ [c]) hi" "mx = (xs @ [c]) ! hi"
        "\<forall>j. hi < j \<and> j < length (xs @ [c]) \<longrightarrow> (xs @ [c]) ! j < (xs @ [c]) ! hi"
        using 1 Cons.prems bd mnmx by (auto simp: greatest_at_def nth_append less_Suc_eq)
    qed (use 1 Cons.prems in \<open>auto simp: nth_append\<close>)
    then show ?thesis by simp
  next
    case 2
    have "least_at ((xs @ [c]) @ cs) lo' \<and> (\<forall>j < lo'. ((xs @ [c]) @ cs) ! lo' < ((xs @ [c]) @ cs) ! j)
      \<and> greatest_at ((xs @ [c]) @ cs) hi' \<and> (\<forall>j. hi' < j \<and> j < length ((xs @ [c]) @ cs)
        \<longrightarrow> ((xs @ [c]) @ cs) ! j < ((xs @ [c]) @ cs) ! hi')"
    proof (rule Cons.IH [where i = "Suc i" and mn = mn and mx = c and lo = lo and hi = i])
      show "least_at (xs @ [c]) lo" "mn = (xs @ [c]) ! lo" "\<forall>j < lo. (xs @ [c]) ! lo < (xs @ [c]) ! j"
        using 2 Cons.prems bd by (auto simp: least_at_def nth_append less_Suc_eq)
      show "greatest_at (xs @ [c]) i"
        using 2 Cons.prems bd by (fastforce simp: greatest_at_def nth_append less_Suc_eq)
    qed (use 2 Cons.prems in \<open>auto simp: nth_append\<close>)
    then show ?thesis by simp
  next
    case 3
    have "least_at ((xs @ [c]) @ cs) lo' \<and> (\<forall>j < lo'. ((xs @ [c]) @ cs) ! lo' < ((xs @ [c]) @ cs) ! j)
      \<and> greatest_at ((xs @ [c]) @ cs) hi' \<and> (\<forall>j. hi' < j \<and> j < length ((xs @ [c]) @ cs)
        \<longrightarrow> ((xs @ [c]) @ cs) ! j < ((xs @ [c]) @ cs) ! hi')"
    proof (rule Cons.IH [where i = "Suc i" and mn = mn and mx = mx and lo = lo and hi = hi])
      show "least_at (xs @ [c]) lo" "mn = (xs @ [c]) ! lo" "\<forall>j < lo. (xs @ [c]) ! lo < (xs @ [c]) ! j"
        using 3 Cons.prems bd by (auto simp: least_at_def nth_append less_Suc_eq)
      show "greatest_at (xs @ [c]) hi" "mx = (xs @ [c]) ! hi"
        "\<forall>j. hi < j \<and> j < length (xs @ [c]) \<longrightarrow> (xs @ [c]) ! j < (xs @ [c]) ! hi"
        using 3 Cons.prems bd by (auto simp: greatest_at_def nth_append less_Suc_eq)
    qed (use 3 Cons.prems in auto)
    then show ?thesis by simp
  qed
qed


lemma attribute_ComputeBounds_exact:
  assumes "at_data A \<noteq> []"
  shows "least_at (at_data A) (at_infimum (attribute_ComputeBounds A))"
    and "j < at_infimum (attribute_ComputeBounds A) \<Longrightarrow>
         at_data A ! at_infimum (attribute_ComputeBounds A) < at_data A ! j"
    and "greatest_at (at_data A) (at_supremum (attribute_ComputeBounds A))"
    and "at_supremum (attribute_ComputeBounds A) < j \<Longrightarrow> j < length (at_data A) \<Longrightarrow>
         at_data A ! j < at_data A ! at_supremum (attribute_ComputeBounds A)"
proof -
  obtain c cs where d: "at_data A = c # cs" using assms by (cases "at_data A") auto
  obtain lo hi where s: "at_scan 1 cs c c 0 0 = (lo, hi)" by fastforce
  have e: "at_infimum (attribute_ComputeBounds A) = lo" "at_supremum (attribute_ComputeBounds A) = hi"
    using d s by (simp_all add: attribute_ComputeBounds_def)
  have "least_at ([c] @ cs) lo \<and> (\<forall>j < lo. ([c] @ cs) ! lo < ([c] @ cs) ! j)
    \<and> greatest_at ([c] @ cs) hi \<and> (\<forall>j. hi < j \<and> j < length ([c] @ cs) \<longrightarrow> ([c] @ cs) ! j < ([c] @ cs) ! hi)"
    by (rule at_scan_bounds [where i = 1 and mn = c and mx = c and lo = 0 and hi = 0])
       (use s in \<open>auto simp: least_at_def greatest_at_def\<close>)
  then show "least_at (at_data A) (at_infimum (attribute_ComputeBounds A))"
    "j < at_infimum (attribute_ComputeBounds A) \<Longrightarrow>
         at_data A ! at_infimum (attribute_ComputeBounds A) < at_data A ! j"
    "greatest_at (at_data A) (at_supremum (attribute_ComputeBounds A))"
    "at_supremum (attribute_ComputeBounds A) < j \<Longrightarrow> j < length (at_data A) \<Longrightarrow>
         at_data A ! j < at_data A ! at_supremum (attribute_ComputeBounds A)"
    unfolding e by (auto simp: d)
qed

lemma attribute_ComputeBounds_keeps [simp]:
  "at_data (attribute_ComputeBounds A) = at_data A"
  "at_defaultValue (attribute_ComputeBounds A) = at_defaultValue A"
  by (simp_all add: attribute_ComputeBounds_def split: list.split prod.split)

lemma attribute_ReleaseBounds_keeps [simp]:
  "at_data (attribute_ReleaseBounds A) = at_data A"
  "at_defaultValue (attribute_ReleaseBounds A) = at_defaultValue A"
  "at_infimum (attribute_ReleaseBounds A) = NoIndex"
  "at_supremum (attribute_ReleaseBounds A) = NoIndex"
  by (simp_all add: attribute_ReleaseBounds_def)

lemma at_inv_ComputeBounds: "length (at_data A) \<le> NoIndex \<Longrightarrow> at_inv (attribute_ComputeBounds A)"
proof (cases "at_data A = []")
  case False
  assume "length (at_data A) \<le> NoIndex"
  then show ?thesis using attribute_ComputeBounds_exact(1,3) [OF False] by (simp add: at_inv_def)
qed (simp add: at_inv_def attribute_ComputeBounds_def)

section \<open>Operations as steps\<close>

text \<open>
  The calls that client code and \<open>attributePool\<close> make on an attribute. \<open>AppendItems\<close> is
  guarded by the size of the index type; \<open>IncreaseSize\<close> is only part of the histories while
  no bounds are known (see \<open>attribute_IncreaseSize_stale_bounds\<close>).
\<close>

datatype 'a at_op = At_SetValue nat 'a | At_SetDefaultValue 'a | At_SetConstant 'a | At_Assign 'a
  | At_ReserveItems nat | At_IncreaseSize nat | At_AppendItems nat | At_EraseItems nat
  | At_SwapItems nat nat | At_ReleaseBounds | At_MinIndex | At_MaxIndex | At_MinValue | At_MaxValue
  | At_IsConstant

fun at_exec :: "'a::linorder at_op \<Rightarrow> 'a attr \<Rightarrow> 'a attr result" where
  "at_exec (At_SetValue i v) A = attribute_SetValue A i v"
| "at_exec (At_SetDefaultValue v) A = Inr (attribute_SetDefaultValue A v)"
| "at_exec (At_SetConstant v) A = Inr (attribute_SetConstant A v)"
| "at_exec (At_Assign v) A = Inr (attribute_Assign A v)"
| "at_exec (At_ReserveItems k) A = attribute_ReserveItems A k"
| "at_exec (At_IncreaseSize k) A = attribute_IncreaseSize A k"
| "at_exec (At_AppendItems k) A = Inr (attribute_AppendItems A k)"
| "at_exec (At_EraseItems k) A = attribute_EraseItems A k"
| "at_exec (At_SwapItems i j) A = attribute_SwapItems A i j"
| "at_exec At_ReleaseBounds A = Inr (attribute_ReleaseBounds A)"
| "at_exec At_MinIndex A = Inr (snd (attribute_MinIndex A))"
| "at_exec At_MaxIndex A = Inr (snd (attribute_MaxIndex A))"
| "at_exec At_MinValue A = Inr (snd (attribute_MinValue A))"
| "at_exec At_MaxValue A = Inr (snd (attribute_MaxValue A))"
| "at_exec At_IsConstant A = Inr (snd (attribute_IsConstant A))"

fun at_guard :: "'a at_op \<Rightarrow> 'a attr \<Rightarrow> bool" where
  "at_guard (At_AppendItems k) A \<longleftrightarrow> attribute_Size A + k \<le> NoIndex"
| "at_guard (At_IncreaseSize k) A \<longleftrightarrow> k \<le> NoIndex \<and> at_infimum A = NoIndex \<and> at_supremum A = NoIndex"
| "at_guard _ A \<longleftrightarrow> True"

inductive at_history :: "'a::linorder attr \<Rightarrow> bool" where
  at_new: "sz \<le> NoIndex \<Longrightarrow> at_history (attribute sz d)"
| at_call: "at_history A \<Longrightarrow> at_guard c A \<Longrightarrow> at_exec c A = Inr A' \<Longrightarrow> at_history A'"

lemma at_inv_new: "sz \<le> NoIndex \<Longrightarrow> at_inv (attribute sz d)"
  by (simp add: at_inv_def attribute_def)

lemma least_at_update:
  assumes "least_at xs i" "k < length xs" "k \<noteq> i \<or> v \<le> xs ! i"
  shows "least_at (xs[k := v]) (if v < xs[k := v] ! i \<or> v = xs[k := v] ! i \<and> k < i then k else i)"
  using assms by (auto simp: least_at_def nth_list_update)

lemma greatest_at_update:
  assumes "greatest_at xs i" "k < length xs" "k \<noteq> i \<or> xs ! i \<le> v"
  shows "greatest_at (xs[k := v]) (if v > xs[k := v] ! i \<or> v = xs[k := v] ! i \<and> k > i then k else i)"
  using assms by (auto simp: greatest_at_def nth_list_update)

lemma attribute_SetValue_in_range:
  assumes "index < attribute_Size A"
  obtains A' where "attribute_SetValue A index v = Inr A'" "at_data A' = (at_data A)[index := v]"
    "at_defaultValue A' = at_defaultValue A"
  using assms that by (simp add: attribute_SetValue_def Let_def split: if_splits)

lemma attribute_SetValue_out_of_range:
  "index \<ge> attribute_Size A \<Longrightarrow> attribute_SetValue A index v = Inl OutOfBounds"
  by (simp add: attribute_SetValue_def attribute_Size_def Let_def)

lemma at_inv_SetValue:
  assumes inv: "at_inv A" and r: "attribute_SetValue A index v = Inr A'"
  shows "at_inv A'"
proof -
  have lt: "index < length (at_data A)"
    using r attribute_SetValue_out_of_range [of A index v] by (force simp: attribute_Size_def not_less)
  define B where "B = (if index = at_infimum A \<and> v > at_data A ! index
    \<or> index = at_supremum A \<and> v < at_data A ! index then attribute_ReleaseBounds A else A)"
  have B: "at_data B = at_data A" by (simp add: B_def)
  have lo: "least_at (at_data A) (at_infimum B) \<and> (index \<noteq> at_infimum B \<or> v \<le> at_data A ! at_infimum B)"
    if "at_infimum B \<noteq> NoIndex"
    using that inv by (auto simp: B_def at_inv_def split: if_splits)
  have hi: "greatest_at (at_data A) (at_supremum B) \<and> (index \<noteq> at_supremum B \<or> at_data A ! at_supremum B \<le> v)"
    if "at_supremum B \<noteq> NoIndex"
    using that inv by (auto simp: B_def at_inv_def split: if_splits)
  let ?d = "(at_data A)[index := v]"
  have A': "A' = B\<lparr>at_data := ?d,
      at_infimum := if at_infimum B = NoIndex then NoIndex
        else if v < ?d ! at_infimum B \<or> v = ?d ! at_infimum B \<and> index < at_infimum B then index else at_infimum B,
      at_supremum := if at_supremum B = NoIndex then NoIndex
        else if v > ?d ! at_supremum B \<or> v = ?d ! at_supremum B \<and> index > at_supremum B then index else at_supremum B\<rparr>" (is "A' = ?R")
  proof -
    have A1: "(if index \<ge> attribute_Size A \<and> v \<noteq> at_defaultValue A
        then A\<lparr>at_data := at_data A @ replicate (index - attribute_Size A) (at_defaultValue A)\<rparr> else A) = A"
      using lt by (simp add: attribute_Size_def)
    have "Inr A' = (let A3 = B\<lparr>at_data := ?d\<rparr>;
        A4 = (if at_infimum A3 \<noteq> NoIndex
                \<and> (v < at_data A3 ! at_infimum A3 \<or> v = at_data A3 ! at_infimum A3 \<and> index < at_infimum A3)
              then A3\<lparr>at_infimum := index\<rparr> else A3);
        A5 = (if at_supremum A4 \<noteq> NoIndex
                \<and> (v > at_data A4 ! at_supremum A4 \<or> v = at_data A4 ! at_supremum A4 \<and> index > at_supremum A4)
              then A4\<lparr>at_supremum := index\<rparr> else A4) in (Inr A5 :: 'a attr result))"
      unfolding r [symmetric] attribute_SetValue_def A1 Let_def [where s = A] B_def [symmetric]
        Let_def [where s = B] B
      using lt by (simp add: attribute_Size_def)
    also have "\<dots> = Inr (?R)" by (simp add: Let_def)
    finally show ?thesis by simp
  qed
  show ?thesis
    using inv least_at_update [OF conjunct1 [OF lo] lt conjunct2 [OF lo]]
      greatest_at_update [OF conjunct1 [OF hi] lt conjunct2 [OF hi]]
    unfolding A' at_inv_def by simp
qed

lemma at_inv_same_bounds:
  "at_inv A \<Longrightarrow> at_data A' = at_data A \<Longrightarrow> at_infimum A' \<in> {at_infimum A, NoIndex} \<Longrightarrow>
   at_supremum A' \<in> {at_supremum A, NoIndex} \<Longrightarrow> at_inv A'"
  by (auto simp: at_inv_def)

lemma at_inv_unknown:
  "length (at_data A) \<le> NoIndex \<Longrightarrow> at_infimum A = NoIndex \<Longrightarrow> at_supremum A = NoIndex \<Longrightarrow> at_inv A"
  by (simp add: at_inv_def)

lemma at_inv_Assign: "at_inv A \<Longrightarrow> at_inv (attribute_Assign A v)"
  by (auto simp: at_inv_def attribute_Assign_def attribute_Size_def least_at_def greatest_at_def Let_def)

lemma least_at_append:
  "least_at xs i \<Longrightarrow> \<not> d < xs ! i \<Longrightarrow> least_at (xs @ replicate k d) i"
  by (auto simp: least_at_def nth_append)

lemma least_at_append_new:
  "least_at xs i \<Longrightarrow> d < xs ! i \<Longrightarrow> 0 < k \<Longrightarrow> least_at (xs @ replicate k d) (length xs)"
  by (fastforce simp: least_at_def nth_append)

lemma greatest_at_append:
  "greatest_at xs i \<Longrightarrow> \<not> xs ! i \<le> d \<Longrightarrow> greatest_at (xs @ replicate k d) i"
  by (auto simp: greatest_at_def nth_append)

lemma greatest_at_append_new:
  "greatest_at xs i \<Longrightarrow> xs ! i \<le> d \<Longrightarrow> 0 < k \<Longrightarrow> greatest_at (xs @ replicate k d) (length xs + k - 1)"
  by (fastforce simp: greatest_at_def nth_append)

lemma at_inv_AppendItems:
  assumes inv: "at_inv A" and sz: "attribute_Size A + k \<le> NoIndex"
  shows "at_inv (attribute_AppendItems A k)"
proof (cases "k = 0 \<or> length (at_data A) = 0")
  case True
  then show ?thesis using inv by (simp add: attribute_AppendItems_def)
next
  case False
  let ?d = "at_data A @ replicate k (at_defaultValue A)"
  have sup: "?d ! at_supremum A = at_data A ! at_supremum A" if "at_supremum A \<noteq> NoIndex"
    using that inv by (simp add: at_inv_def greatest_at_def nth_append)
  have e: "attribute_AppendItems A k = A\<lparr>at_data := ?d,
      at_infimum := if at_infimum A \<noteq> NoIndex \<and> at_defaultValue A < at_data A ! at_infimum A
        then length (at_data A) else at_infimum A,
      at_supremum := if at_supremum A \<noteq> NoIndex \<and> at_defaultValue A \<ge> ?d ! at_supremum A
        then length (at_data A) + k - 1 else at_supremum A\<rparr>"
    using False by (simp add: attribute_AppendItems_def Let_def)
  have "least_at ?d (at_infimum (attribute_AppendItems A k))"
    if "at_infimum A \<noteq> NoIndex"
    using that inv False least_at_append least_at_append_new
    unfolding e by (auto simp: at_inv_def)
  moreover have "greatest_at ?d (at_supremum (attribute_AppendItems A k))"
    if "at_supremum A \<noteq> NoIndex"
    using that inv False greatest_at_append [of "at_data A" "at_supremum A"]
      greatest_at_append_new [of "at_data A" "at_supremum A"] sup
    unfolding e by (auto simp: at_inv_def)
  moreover have "at_data (attribute_AppendItems A k) = ?d" by (simp add: e)
  moreover have "at_infimum A = NoIndex \<Longrightarrow> at_infimum (attribute_AppendItems A k) = NoIndex"
    "at_supremum A = NoIndex \<Longrightarrow> at_supremum (attribute_AppendItems A k) = NoIndex" by (simp_all add: e)
  ultimately show ?thesis using sz unfolding at_inv_def attribute_Size_def by auto
qed

lemma at_inv_EraseItems:
  assumes inv: "at_inv A" and r: "attribute_EraseItems A k = Inr A'"
  shows "at_inv A'"
proof (cases "k = 0 \<or> length (at_data A) = 0")
  case True
  then show ?thesis using inv r by (simp add: attribute_EraseItems_def)
next
  case False
  then have k: "k \<le> length (at_data A)"
    using r by (auto simp: attribute_EraseItems_def split: if_splits)
  have lt: "at_infimum A' < length (at_data A) - k \<and> at_infimum A' = at_infimum A" if "at_infimum A' \<noteq> NoIndex"
    using that r False k by (auto simp: attribute_EraseItems_def Let_def split: if_splits)
  have gt: "at_supremum A' < length (at_data A) - k \<and> at_supremum A' = at_supremum A" if "at_supremum A' \<noteq> NoIndex"
    using that r False k by (auto simp: attribute_EraseItems_def Let_def split: if_splits)
  have d: "at_data A' = take (length (at_data A) - k) (at_data A)"
    using r False k by (auto simp: attribute_EraseItems_def Let_def split: if_splits)
  show ?thesis using inv lt gt unfolding at_inv_def d by (auto simp: least_at_def greatest_at_def)
qed

lemma least_at_swap:
  assumes "least_at xs k" "i < length xs" "j < length xs" "i \<noteq> j"
  shows "least_at (xs[i := xs ! j, j := xs ! i]) (if i = k then j else if j = k then i else k)"
  using assms by (auto simp: least_at_def nth_list_update)

lemma greatest_at_swap:
  assumes "greatest_at xs k" "i < length xs" "j < length xs" "i \<noteq> j"
  shows "greatest_at (xs[i := xs ! j, j := xs ! i]) (if i = k then j else if j = k then i else k)"
  using assms by (auto simp: greatest_at_def nth_list_update)

lemma at_inv_SwapItems:
  assumes inv: "at_inv A" and r: "attribute_SwapItems A i j = Inr A'"
  shows "at_inv A'"
proof (cases "length (at_data A) = 0 \<or> i = j")
  case True
  then show ?thesis using inv r by (auto simp: attribute_SwapItems_def split: if_splits)
next
  case False
  then have ij: "i < length (at_data A)" "j < length (at_data A)" "i \<noteq> j"
    using r by (auto simp: attribute_SwapItems_def split: if_splits)
  have e: "A' = A\<lparr>at_data := (at_data A)[i := at_data A ! j, j := at_data A ! i],
    at_infimum := if i = at_infimum A then j else if j = at_infimum A then i else at_infimum A,
    at_supremum := if i = at_supremum A then j else if j = at_supremum A then i else at_supremum A\<rparr>"
    using r False ij by (auto simp: attribute_SwapItems_def Let_def)
  have sz: "length (at_data A) \<le> NoIndex" using inv by (simp add: at_inv_def)
  have "at_infimum A' \<noteq> NoIndex \<Longrightarrow> at_infimum A \<noteq> NoIndex" "at_supremum A' \<noteq> NoIndex \<Longrightarrow> at_supremum A \<noteq> NoIndex"
    using sz ij by (auto simp: e split: if_splits)
  then have "at_infimum A' \<noteq> NoIndex \<Longrightarrow> least_at (at_data A') (at_infimum A')"
    "at_supremum A' \<noteq> NoIndex \<Longrightarrow> greatest_at (at_data A') (at_supremum A')"
    using inv least_at_swap [OF _ ij, of "at_infimum A"] greatest_at_swap [OF _ ij, of "at_supremum A"]
    by (simp_all add: e at_inv_def)
  then show ?thesis using sz by (simp add: at_inv_def e)
qed

lemma at_inv_queries:
  assumes "at_inv A"
  shows "at_inv (snd (attribute_MinIndex A))" "at_inv (snd (attribute_MaxIndex A))"
    "at_inv (snd (attribute_MinValue A))" "at_inv (snd (attribute_MaxValue A))"
proof -
  have "at_inv (attribute_ComputeBounds A)"
    using assms at_inv_ComputeBounds [of A] by (simp add: at_inv_def)
  then show "at_inv (snd (attribute_MinIndex A))" "at_inv (snd (attribute_MaxIndex A))"
    "at_inv (snd (attribute_MinValue A))" "at_inv (snd (attribute_MaxValue A))"
    using assms by (simp_all add: attribute_MinIndex_def attribute_MaxIndex_def attribute_MinValue_def
        attribute_MaxValue_def Let_def)
qed

lemma at_inv_IsConstant: "at_inv A \<Longrightarrow> at_inv (snd (attribute_IsConstant A))"
  by (simp add: attribute_IsConstant_def case_prod_unfold Let_def at_inv_queries)

lemma at_inv_exec:
  assumes inv: "at_inv A" and g: "at_guard c A" and r: "at_exec c A = Inr A'"
  shows "at_inv A'"
proof (cases c)
  case (At_SetConstant v)
  then show ?thesis using r by (auto simp: attribute_SetConstant_def NoIndex_def intro!: at_inv_unknown)
next
  case (At_ReserveItems k)
  then show ?thesis using r inv by (auto simp: attribute_ReserveItems_def attribute_SetCapacity_def split: if_splits)
next
  case (At_IncreaseSize k)
  then show ?thesis using r g inv
    by (auto simp: attribute_IncreaseSize_def at_inv_def split: if_splits)
next
  case (At_SetDefaultValue v)
  then show ?thesis using r inv by (auto simp: attribute_SetDefaultValue_def at_inv_def)
next
  case At_ReleaseBounds
  then show ?thesis using r inv by (auto simp: at_inv_def)
qed (use inv g r at_inv_SetValue [OF inv] at_inv_Assign at_inv_AppendItems at_inv_EraseItems at_inv_SwapItems
       at_inv_queries at_inv_IsConstant in auto)

lemma at_inv_history: "at_history A \<Longrightarrow> at_inv A"
  by (induction rule: at_history.induct) (auto intro: at_inv_new at_inv_exec)

section \<open>Properties\<close>

lemma attribute_MinIndex_least:
  assumes "at_inv A" "at_data A \<noteq> []"
  shows "least_at (at_data A) (fst (attribute_MinIndex A))"
    "fst (attribute_MinValue A) = at_data A ! fst (attribute_MinIndex A)"
  using assms attribute_ComputeBounds_exact(1) [OF assms(2)]
  by (auto simp: attribute_MinIndex_def attribute_MinValue_def at_inv_def Let_def)

lemma attribute_MaxIndex_greatest:
  assumes "at_inv A" "at_data A \<noteq> []"
  shows "greatest_at (at_data A) (fst (attribute_MaxIndex A))"
    "fst (attribute_MaxValue A) = at_data A ! fst (attribute_MaxIndex A)"
  using assms attribute_ComputeBounds_exact(3) [OF assms(2)]
  by (auto simp: attribute_MaxIndex_def attribute_MaxValue_def at_inv_def Let_def)

lemma attribute_MinValue_keeps:
  "at_data (snd (attribute_MinValue A)) = at_data A"
  "at_defaultValue (snd (attribute_MinValue A)) = at_defaultValue A"
  "at_data (snd (attribute_MaxValue A)) = at_data A"
  "at_defaultValue (snd (attribute_MaxValue A)) = at_defaultValue A"
  by (simp_all add: attribute_MinValue_def attribute_MaxValue_def Let_def)

lemma attribute_IsConstant_iff:
  assumes inv: "at_inv A"
  shows "fst (attribute_IsConstant A) \<longleftrightarrow> (\<forall>i. attribute_GetValue A i = attribute_DefaultValue A)"
proof (cases "at_data A = []")
  case True
  then show ?thesis by (simp add: attribute_IsConstant_def attribute_GetValue_def attribute_Size_def attribute_DefaultValue_def)
next
  case False
  let ?B = "snd (attribute_MinValue A)" and ?S = "set (at_data A)"
  have mn: "fst (attribute_MinValue A) = Min ?S"
    using attribute_MinIndex_least [OF inv False] least_at_Min by metis
  have mx: "fst (attribute_MaxValue ?B) = Max ?S"
    using attribute_MaxIndex_greatest [OF at_inv_queries(3) [OF inv]] greatest_at_Max [of "at_data ?B"] False
    by (simp add: attribute_MinValue_keeps)
  have "fst (attribute_IsConstant A) \<longleftrightarrow> \<not> Min ?S < Max ?S \<and> Min ?S = at_defaultValue A"
    using False mn mx by (simp add: attribute_IsConstant_def case_prod_unfold Let_def attribute_MinValue_keeps)
  also have "\<dots> \<longleftrightarrow> (\<forall>x \<in> ?S. x = at_defaultValue A)"
  proof
    assume "\<not> Min ?S < Max ?S \<and> Min ?S = at_defaultValue A"
    then have e: "Max ?S \<le> at_defaultValue A" "Min ?S = at_defaultValue A"
      by (metis linorder_not_less, simp)
    show "\<forall>x \<in> ?S. x = at_defaultValue A"
    proof
      fix x assume "x \<in> ?S"
      then have "Min ?S \<le> x" "x \<le> Max ?S" by simp_all
      then show "x = at_defaultValue A" using e by simp
    qed
  next
    assume "\<forall>x \<in> ?S. x = at_defaultValue A"
    then have "?S = {at_defaultValue A}" using False by (metis is_singletonI' is_singleton_the_elem set_empty singletonD singletonI)
    then show "\<not> Min ?S < Max ?S \<and> Min ?S = at_defaultValue A" by simp
  qed
  also have "\<dots> \<longleftrightarrow> (\<forall>i. attribute_GetValue A i = attribute_DefaultValue A)"
    by (auto simp: attribute_GetValue_def attribute_Size_def attribute_DefaultValue_def in_set_conv_nth not_le
        intro: nth_mem)
  finally show ?thesis .
qed

lemma attribute_bounds_facts:
  assumes "at_history A" and "attribute_Size A > 0"
  shows "fst (attribute_MinValue A) = Min (set (at_data A))"
    and "fst (attribute_MaxValue A) = Max (set (at_data A))"
    and "fst (attribute_MinIndex A) < attribute_Size A
         \<and> attribute_GetValue A (fst (attribute_MinIndex A)) = Min (set (at_data A))"
    and "fst (attribute_MaxIndex A) < attribute_Size A
         \<and> attribute_GetValue A (fst (attribute_MaxIndex A)) = Max (set (at_data A))"
    and "fst (attribute_IsConstant A) \<longleftrightarrow> (\<forall>i. attribute_GetValue A i = attribute_DefaultValue A)"
proof -
  have inv: "at_inv A" and ne: "at_data A \<noteq> []"
    using assms at_inv_history by (auto simp: attribute_Size_def)
  note mn = attribute_MinIndex_least [OF inv ne] and mx = attribute_MaxIndex_greatest [OF inv ne]
  show "fst (attribute_MinValue A) = Min (set (at_data A))" "fst (attribute_MaxValue A) = Max (set (at_data A))"
    using mn mx least_at_Min greatest_at_Max by metis+
  show "fst (attribute_MinIndex A) < attribute_Size A
      \<and> attribute_GetValue A (fst (attribute_MinIndex A)) = Min (set (at_data A))"
    using mn(1) least_at_Min [OF mn(1)] by (simp add: least_at_def attribute_GetValue_def attribute_Size_def)
  show "fst (attribute_MaxIndex A) < attribute_Size A
      \<and> attribute_GetValue A (fst (attribute_MaxIndex A)) = Max (set (at_data A))"
    using mx(1) greatest_at_Max [OF mx(1)] by (simp add: greatest_at_def attribute_GetValue_def attribute_Size_def)
  show "fst (attribute_IsConstant A) \<longleftrightarrow> (\<forall>i. attribute_GetValue A i = attribute_DefaultValue A)"
    by (rule attribute_IsConstant_iff [OF inv])
qed


definition at_example :: "nat attr" where
  "at_example = \<lparr>at_data = [5, 2, 5], at_defaultValue = 5, at_infimum = NoIndex, at_supremum = NoIndex\<rparr>"

lemma at_example_history: "at_history at_example"
proof -
  have "at_history (attribute 3 (5::nat))" by (rule at_new) (simp add: NoIndex_def)
  then show ?thesis
    by (rule at_call [where c = "At_SetValue 1 2"])
       (simp_all add: attribute_SetValue_def attribute_def attribute_Size_def at_example_def Let_def NoIndex_def
          numeral_3_eq_3)
qed


lemma attribute_values_facts:
  assumes "0 < attribute_Size A"
  shows "i < attribute_Size A \<Longrightarrow> \<exists>A'. attribute_SetValue A i v = Inr A'
           \<and> (\<forall>k. attribute_GetValue A' k = (if k = i then v else attribute_GetValue A k))"
    and "attribute_Size A \<le> i \<Longrightarrow> attribute_SetValue A i v = Inl OutOfBounds"
    and "i < attribute_Size A \<Longrightarrow> j < attribute_Size A \<Longrightarrow> \<exists>A'. attribute_SwapItems A i j = Inr A'
           \<and> (\<forall>k. attribute_GetValue A' k = attribute_GetValue A (if k = i then j else if k = j then i else k))"
    and "attribute_GetValue (attribute_AppendItems A n) k = attribute_GetValue A k"
    and "\<exists>A'. attribute_EraseItems (attribute_AppendItems A n) n = Inr A' \<and> at_data A' = at_data A
           \<and> at_defaultValue A' = at_defaultValue A"
    and "attribute_Size A < n \<Longrightarrow> attribute_EraseItems A n = Inl ERRange"
proof -
  show "\<exists>A'. attribute_SetValue A i v = Inr A'
      \<and> (\<forall>k. attribute_GetValue A' k = (if k = i then v else attribute_GetValue A k))" if il: "i < attribute_Size A"
  proof -
    obtain A' where "attribute_SetValue A i v = Inr A'" "at_data A' = (at_data A)[i := v]"
      "at_defaultValue A' = at_defaultValue A" using attribute_SetValue_in_range [OF il] .
    then show ?thesis using il by (auto simp: attribute_GetValue_def attribute_Size_def nth_list_update)
  qed
  show "attribute_Size A \<le> i \<Longrightarrow> attribute_SetValue A i v = Inl OutOfBounds"
    by (rule attribute_SetValue_out_of_range)
  show "\<exists>A'. attribute_SwapItems A i j = Inr A'
      \<and> (\<forall>k. attribute_GetValue A' k = attribute_GetValue A (if k = i then j else if k = j then i else k))"
    if "i < attribute_Size A" "j < attribute_Size A"
    using that by (auto simp: attribute_SwapItems_def attribute_GetValue_def attribute_Size_def nth_list_update Let_def)
  have ap: "at_data (attribute_AppendItems A n) = at_data A @ replicate n (at_defaultValue A)"
    "at_defaultValue (attribute_AppendItems A n) = at_defaultValue A"
    using assms by (auto simp: attribute_AppendItems_def attribute_Size_def Let_def)
  then show "attribute_GetValue (attribute_AppendItems A n) k = attribute_GetValue A k"
    by (auto simp: attribute_GetValue_def attribute_Size_def nth_append)
  show "\<exists>A'. attribute_EraseItems (attribute_AppendItems A n) n = Inr A' \<and> at_data A' = at_data A
      \<and> at_defaultValue A' = at_defaultValue A"
    using ap assms by (auto simp: attribute_EraseItems_def Let_def attribute_Size_def)
  show "attribute_Size A < n \<Longrightarrow> attribute_EraseItems A n = Inl ERRange"
    using assms by (auto simp: attribute_EraseItems_def attribute_Size_def)
qed



text \<open>
  \<open>IncreaseSize\<close> appends default values without looking at the cached bounds: the minimal value
  of an attribute whose bounds are known is wrong afterwards.
\<close>

lemma attribute_IncreaseSize_stale_bounds:
  defines "A \<equiv> snd (attribute_MinValue (attribute_SetDefaultValue at_example 0))"
  shows "\<exists>A'. attribute_IncreaseSize A 4 = Inr A' \<and> fst (attribute_MinValue A') = 2 \<and> 0 \<in> set (at_data A')"
proof -
  have "A = \<lparr>at_data = [5, 2, 5], at_defaultValue = 0, at_infimum = 1, at_supremum = 2\<rparr>"
    by (simp add: A_def at_example_def attribute_SetDefaultValue_def attribute_MinValue_def
        attribute_ComputeBounds_def Let_def)
  then show ?thesis
    by (simp add: attribute_IncreaseSize_def attribute_MinValue_def NoIndex_def)
qed

end
