(* ===== verification/Attribute_Pool.thy ===== *)
theory Attribute_Pool
  imports Attribute
begin

text \<open>
  Attribute pools (\<^verbatim>\<open>include/attributePool.h\<close>, \<^verbatim>\<open>lib_src/attributePool.cpp\<close>) and the
  tables that describe them (\<^verbatim>\<open>lib_src/poolTables.cpp\<close>). A pool keeps the attributes that
  are present, each under its primary token, and grows, shrinks and permutes all attributes of
  one dimension when the graph is manipulated.

  All base types that occur in the tables (indices, numbers, orientations, truth values) embed
  into the reals with their order, so the values of a pool are reals; \<open>TYPE_STRING\<close> occurs in no
  table. The parallel lists \<open>attributes\<close> and \<open>tokens\<close> are one list of pairs. The graph object that
  is asked for its dimensions is the function \<open>X\<close> from dimensions to actual and reserved sizes.
  Reading and writing files is not modelled.
\<close>

section \<open>Pool tables\<close>

datatype TBaseType = TYPE_NODE_INDEX | TYPE_ARC_INDEX | TYPE_FLOAT_VALUE | TYPE_CAP_VALUE | TYPE_INDEX
  | TYPE_ORIENTATION | TYPE_INT | TYPE_BOOL | TYPE_STRING | TYPE_VAR_INDEX | TYPE_RESTR_INDEX | TYPE_SPECIAL

datatype TArrayDim = DIM_GRAPH_NODES | DIM_GRAPH_ARCS | DIM_ARCS_TWICE | DIM_LAYOUT_NODES | DIM_SINGLETON

datatype TSizeInfo = SIZE_ACTUAL | SIZE_RESERVED

record TPoolTable =
  tokenLabel :: string
  arrayType :: TBaseType
  arrayDim :: TArrayDim
  primaryIndex :: nat

definition entry :: "string \<Rightarrow> TBaseType \<Rightarrow> TArrayDim \<Rightarrow> nat \<Rightarrow> TPoolTable" where
  "entry l t d p = \<lparr>tokenLabel = l, arrayType = t, arrayDim = d, primaryIndex = p\<rparr>"

definition TokReprUCap :: nat where "TokReprUCap = 0"
definition TokReprLCap :: nat where "TokReprLCap = 1"
definition TokReprLength :: nat where "TokReprLength = 2"
definition TokReprDemand :: nat where "TokReprDemand = 3"
definition TokReprOrientation :: nat where "TokReprOrientation = 4"
definition TokGeoAxis0 :: nat where "TokGeoAxis0 = 3"
definition TokRegPredecessor :: nat where "TokRegPredecessor = 1"

definition listOfGraphPars :: "TPoolTable list" where
  "listOfGraphPars =
     [entry ''definition'' TYPE_SPECIAL DIM_SINGLETON 0, entry ''objectives'' TYPE_SPECIAL DIM_SINGLETON 1,
      entry ''geometry'' TYPE_SPECIAL DIM_SINGLETON 2, entry ''layout'' TYPE_SPECIAL DIM_SINGLETON 3,
      entry ''solutions'' TYPE_SPECIAL DIM_SINGLETON 4, entry ''configure'' TYPE_SPECIAL DIM_SINGLETON 5,
      entry ''commodities'' TYPE_INT DIM_SINGLETON 6, entry ''bound'' TYPE_FLOAT_VALUE DIM_SINGLETON 7,
      entry ''length'' TYPE_SPECIAL DIM_SINGLETON 8]"

definition listOfReprPars :: "TPoolTable list" where
  "listOfReprPars =
     [entry ''ucap'' TYPE_CAP_VALUE DIM_GRAPH_ARCS TokReprUCap, entry ''lcap'' TYPE_CAP_VALUE DIM_GRAPH_ARCS TokReprLCap,
      entry ''length'' TYPE_FLOAT_VALUE DIM_GRAPH_ARCS TokReprLength,
      entry ''demand'' TYPE_CAP_VALUE DIM_GRAPH_NODES TokReprDemand,
      entry ''directed'' TYPE_ORIENTATION DIM_GRAPH_ARCS TokReprOrientation,
      entry ''first'' TYPE_SPECIAL DIM_GRAPH_NODES 5, entry ''right'' TYPE_SPECIAL DIM_ARCS_TWICE 6,
      entry ''startNode'' TYPE_SPECIAL DIM_ARCS_TWICE 7, entry ''incidences'' TYPE_SPECIAL DIM_SINGLETON 8,
      entry ''nodes'' TYPE_SPECIAL DIM_SINGLETON 9, entry ''arcs'' TYPE_SPECIAL DIM_SINGLETON 10,
      entry ''comm0'' TYPE_FLOAT_VALUE DIM_GRAPH_ARCS TokReprLength]"

definition listOfGeometryPars :: "TPoolTable list" where
  "listOfGeometryPars =
     [entry ''dim'' TYPE_INT DIM_SINGLETON 0, entry ''metrics'' TYPE_INT DIM_SINGLETON 1,
      entry ''coordinates'' TYPE_SPECIAL DIM_SINGLETON 2, entry ''axis0'' TYPE_FLOAT_VALUE DIM_LAYOUT_NODES TokGeoAxis0,
      entry ''axis1'' TYPE_FLOAT_VALUE DIM_LAYOUT_NODES 4, entry ''axis2'' TYPE_FLOAT_VALUE DIM_LAYOUT_NODES 5]"

definition listOfLayoutPars :: "TPoolTable list" where
  "listOfLayoutPars =
     [entry ''model'' TYPE_INT DIM_SINGLETON 0, entry ''style'' TYPE_INT DIM_SINGLETON 0,
      entry ''align'' TYPE_NODE_INDEX DIM_GRAPH_ARCS 2, entry ''thread'' TYPE_NODE_INDEX DIM_LAYOUT_NODES 3,
      entry ''interpolate'' TYPE_NODE_INDEX DIM_LAYOUT_NODES 3, entry ''hiddenNode'' TYPE_BOOL DIM_GRAPH_NODES 5,
      entry ''hiddenArc'' TYPE_BOOL DIM_GRAPH_ARCS 6, entry ''exteriorArc'' TYPE_ARC_INDEX DIM_SINGLETON 7]"

definition listOfRegisters :: "TPoolTable list" where
  "listOfRegisters =
     [entry ''label'' TYPE_FLOAT_VALUE DIM_GRAPH_NODES 0,
      entry ''predecessor'' TYPE_ARC_INDEX DIM_GRAPH_NODES TokRegPredecessor,
      entry ''subgraph'' TYPE_SPECIAL DIM_GRAPH_ARCS 2, entry ''potential'' TYPE_FLOAT_VALUE DIM_GRAPH_NODES 3,
      entry ''nodeColour'' TYPE_NODE_INDEX DIM_GRAPH_NODES 4, entry ''edgeColour'' TYPE_ARC_INDEX DIM_GRAPH_ARCS 5,
      entry ''colour'' TYPE_NODE_INDEX DIM_GRAPH_NODES 4, entry ''originalNode'' TYPE_INDEX DIM_GRAPH_NODES 7,
      entry ''originalArc'' TYPE_INDEX DIM_GRAPH_ARCS 8, entry ''V_T'' TYPE_BOOL DIM_GRAPH_NODES 9,
      entry ''EdgeType'' TYPE_INT DIM_ARCS_TWICE 10, entry ''PreO'' TYPE_NODE_INDEX DIM_GRAPH_NODES 11,
      entry ''PostO'' TYPE_NODE_INDEX DIM_GRAPH_NODES 12, entry ''Low1'' TYPE_NODE_INDEX DIM_GRAPH_ARCS 13,
      entry ''Low2'' TYPE_NODE_INDEX DIM_GRAPH_ARCS 14]"

text \<open>The default default values; \<open>NoVar\<close> and \<open>NoRestr\<close> are \<open>2000000000\<close> as well.\<close>

definition UndefinedVoidPtr :: "TBaseType \<Rightarrow> real option" where
  "UndefinedVoidPtr t = (case t of
       TYPE_NODE_INDEX \<Rightarrow> Some (real NoNode)
     | TYPE_ARC_INDEX \<Rightarrow> Some (real NoArc)
     | TYPE_FLOAT_VALUE \<Rightarrow> Some InfFloat
     | TYPE_CAP_VALUE \<Rightarrow> Some InfCap
     | TYPE_INDEX \<Rightarrow> Some (real NoIndex)
     | TYPE_ORIENTATION \<Rightarrow> Some 0
     | TYPE_INT \<Rightarrow> Some 0
     | TYPE_BOOL \<Rightarrow> Some 0
     | TYPE_STRING \<Rightarrow> Some 0
     | TYPE_VAR_INDEX \<Rightarrow> Some 2000000000
     | TYPE_RESTR_INDEX \<Rightarrow> Some 2000000000
     | TYPE_SPECIAL \<Rightarrow> None)"

section \<open>Pools\<close>

datatype TAttributeType = ATTR_FULL_RANK | ATTR_ALLOW_NULL | ATTR_REQ_SINGLETON

record attributePool =
  ap_table :: "TPoolTable list"
  ap_attributes :: "(nat \<times> real attr) list"
  ap_poolType :: TAttributeType

type_synonym dims = "TArrayDim \<Rightarrow> TSizeInfo \<Rightarrow> nat"

definition attributePool_new :: "TPoolTable list \<Rightarrow> TAttributeType \<Rightarrow> attributePool" where
  "attributePool_new tbl ty = \<lparr>ap_table = tbl, ap_attributes = [], ap_poolType = ty\<rparr>"

definition attributePool_Flush :: "attributePool \<Rightarrow> attributePool" where
  "attributePool_Flush P = P\<lparr>ap_attributes := []\<rparr>"

definition primary :: "attributePool \<Rightarrow> nat \<Rightarrow> nat" where
  "primary P token = primaryIndex (ap_table P ! token)"

text \<open>The search loop that runs over both lists.\<close>

fun ap_search :: "nat \<Rightarrow> (nat \<times> real attr) list \<Rightarrow> real attr option" where
  "ap_search token [] = None"
| "ap_search token ((t, A) # as) = (if token = t then Some A else ap_search token as)"

definition attributePool_FindAttribute :: "attributePool \<Rightarrow> nat \<Rightarrow> real attr option" where
  "attributePool_FindAttribute P token = ap_search (primary P token) (ap_attributes P)"

fun ap_remove :: "nat \<Rightarrow> (nat \<times> real attr) list \<Rightarrow> (nat \<times> real attr) list" where
  "ap_remove token [] = []"
| "ap_remove token ((t, A) # as) = (if token = t then as else (t, A) # ap_remove token as)"

definition attributePool_ReleaseAttribute :: "attributePool \<Rightarrow> nat \<Rightarrow> attributePool" where
  "attributePool_ReleaseAttribute P token =
     P\<lparr>ap_attributes := ap_remove (primary P token) (ap_attributes P)\<rparr>"

text \<open>The effect of a call through the pointer to the attribute found under a token.\<close>

fun ap_put :: "nat \<Rightarrow> real attr \<Rightarrow> (nat \<times> real attr) list \<Rightarrow> (nat \<times> real attr) list" where
  "ap_put token B [] = []"
| "ap_put token B ((t, A) # as) = (if token = t then (t, B) # as else (t, A) # ap_put token B as)"

definition attributePool_put :: "attributePool \<Rightarrow> nat \<Rightarrow> real attr \<Rightarrow> attributePool" where
  "attributePool_put P token B = P\<lparr>ap_attributes := ap_put (primary P token) B (ap_attributes P)\<rparr>"

text \<open>The loops over all attributes of one dimension.\<close>

fun ap_each :: "(real attr \<Rightarrow> real attr result) \<Rightarrow> TPoolTable list \<Rightarrow> TArrayDim
    \<Rightarrow> (nat \<times> real attr) list \<Rightarrow> (nat \<times> real attr) list result" where
  "ap_each f tbl d [] = Inr []"
| "ap_each f tbl d ((t, A) # as) =
     (if arrayDim (tbl ! t) = d
      then rbind (f A) (\<lambda>A'. rbind (ap_each f tbl d as) (\<lambda>as'. Inr ((t, A') # as')))
      else rbind (ap_each f tbl d as) (\<lambda>as'. Inr ((t, A) # as')))"

definition ap_forall :: "attributePool \<Rightarrow> TArrayDim \<Rightarrow> (real attr \<Rightarrow> real attr result) \<Rightarrow> attributePool result" where
  "ap_forall P d f =
     rbind (ap_each f (ap_table P) d (ap_attributes P)) (\<lambda>as. Inr (P\<lparr>ap_attributes := as\<rparr>))"

definition attributePool_ReserveItems :: "attributePool \<Rightarrow> TArrayDim \<Rightarrow> nat \<Rightarrow> attributePool result" where
  "attributePool_ReserveItems P d capacity = ap_forall P d (\<lambda>A. attribute_ReserveItems A capacity)"

definition attributePool_AppendItems :: "attributePool \<Rightarrow> TArrayDim \<Rightarrow> nat \<Rightarrow> attributePool result" where
  "attributePool_AppendItems P d numItems = ap_forall P d (\<lambda>A. Inr (attribute_AppendItems A numItems))"

definition attributePool_EraseItems :: "attributePool \<Rightarrow> TArrayDim \<Rightarrow> nat \<Rightarrow> attributePool result" where
  "attributePool_EraseItems P d numItems = ap_forall P d (\<lambda>A. attribute_EraseItems A numItems)"

definition attributePool_SwapItems :: "attributePool \<Rightarrow> TArrayDim \<Rightarrow> nat \<Rightarrow> nat \<Rightarrow> attributePool result" where
  "attributePool_SwapItems P d i1 i2 = ap_forall P d (\<lambda>A. attribute_SwapItems A i1 i2)"

text \<open>
  \<open>MakeAttribute\<close> on an attribute that exists already resizes it. The result is whether the
  returned pointer is not \<open>NULL\<close>, and the pool.
\<close>

definition ap_resize :: "nat \<Rightarrow> nat \<Rightarrow> TAttributeType \<Rightarrow> real attr \<Rightarrow> real attr result" where
  "ap_resize sz capacity ty A =
     (if ty = ATTR_ALLOW_NULL then
        if attribute_Size A > 0
        then rbind (attribute_EraseItems A (attribute_Size A)) (\<lambda>A1. attribute_SetCapacity A1 0)
        else Inr A
      else if ty = ATTR_REQ_SINGLETON \<and> sz = 0 then
        if attribute_Size A > 1
        then rbind (attribute_EraseItems A (attribute_Size A - 1)) (\<lambda>A1. attribute_SetCapacity A1 1)
        else if attribute_Size A = 0 then attribute_IncreaseSize A 1
        else Inr A
      else if attribute_Size A < sz
        then rbind (attribute_SetCapacity A capacity) (\<lambda>A1. attribute_IncreaseSize A1 sz)
      else if attribute_Size A > sz
        then rbind (attribute_EraseItems A (attribute_Size A - sz)) (\<lambda>A1. attribute_SetCapacity A1 capacity)
      else Inr A)"

definition attributePool_MakeAttribute ::
  "dims \<Rightarrow> attributePool \<Rightarrow> nat \<Rightarrow> TAttributeType \<Rightarrow> real option \<Rightarrow> (bool \<times> attributePool) result" where
  "attributePool_MakeAttribute X P token0 ty value_ptr =
     (let token = primary P token0;
          sz = X (arrayDim (ap_table P ! token)) SIZE_ACTUAL;
          capacity = X (arrayDim (ap_table P ! token)) SIZE_RESERVED
      in case (case value_ptr of None \<Rightarrow> UndefinedVoidPtr (arrayType (ap_table P ! token)) | Some v \<Rightarrow> Some v) of
           None \<Rightarrow> Inl OutOfBounds
         | Some v \<Rightarrow>
             (case attributePool_FindAttribute P token of
                Some A \<Rightarrow> rbind (ap_resize sz capacity ty A)
                  (\<lambda>A1. Inr (True, attributePool_put P token (attribute_SetDefaultValue A1 v)))
              | None \<Rightarrow>
                  if ty = ATTR_ALLOW_NULL
                  then Inr (True, P\<lparr>ap_attributes := (token, attribute 0 v) # ap_attributes P\<rparr>)
                  else if capacity = 0 \<and> ty = ATTR_FULL_RANK then Inr (False, P)
                  else let sz1 = (if capacity = 0 then 1 else sz);
                           capacity1 = (if capacity = 0 then 1 else capacity)
                       in rbind (attribute_SetCapacity (attribute sz1 v) capacity1)
                            (\<lambda>A. Inr (True, P\<lparr>ap_attributes := (token, A) # ap_attributes P\<rparr>))))"

definition attributePool_InitAttribute ::
  "dims \<Rightarrow> attributePool \<Rightarrow> nat \<Rightarrow> real \<Rightarrow> (bool \<times> attributePool) result" where
  "attributePool_InitAttribute X P token v =
     (case attributePool_FindAttribute P token of
        None \<Rightarrow> attributePool_MakeAttribute X P token ATTR_FULL_RANK (Some v)
      | Some A \<Rightarrow> Inr (True, attributePool_put P token (attribute_Assign A v)))"

definition attributePool_RawAttribute ::
  "dims \<Rightarrow> attributePool \<Rightarrow> nat \<Rightarrow> (bool \<times> attributePool) result" where
  "attributePool_RawAttribute X P token =
     (if ap_poolType P = ATTR_FULL_RANK \<and> attributePool_FindAttribute P token \<noteq> None then Inr (True, P)
      else attributePool_MakeAttribute X P token ATTR_FULL_RANK None)"

definition attributePool_GetArray :: "attributePool \<Rightarrow> nat \<Rightarrow> real list option" where
  "attributePool_GetArray P token =
     (if ap_poolType P = ATTR_ALLOW_NULL then None
      else case attributePool_FindAttribute P token of
          None \<Rightarrow> None
        | Some A \<Rightarrow> if attribute_Size A = 0 then None else Some (at_data A))"

definition attributePool_GetValue :: "attributePool \<Rightarrow> nat \<Rightarrow> nat \<Rightarrow> real \<Rightarrow> real" where
  "attributePool_GetValue P token i d =
     (case attributePool_FindAttribute P token of Some A \<Rightarrow> attribute_GetValue A i | None \<Rightarrow> d)"

definition attributePool_DefaultValue :: "attributePool \<Rightarrow> nat \<Rightarrow> real \<Rightarrow> real" where
  "attributePool_DefaultValue P token d =
     (case attributePool_FindAttribute P token of Some A \<Rightarrow> attribute_DefaultValue A | None \<Rightarrow> d)"

text \<open>The queries for bounds may compute them, which changes the attribute.\<close>

definition ap_query :: "(real attr \<Rightarrow> 'b \<times> real attr) \<Rightarrow> attributePool \<Rightarrow> nat \<Rightarrow> 'b \<Rightarrow> 'b \<times> attributePool" where
  "ap_query f P token d =
     (case attributePool_FindAttribute P token of
        Some A \<Rightarrow> (let (r, A') = f A in (r, attributePool_put P token A'))
      | None \<Rightarrow> (d, P))"

definition attributePool_MinValue :: "attributePool \<Rightarrow> nat \<Rightarrow> real \<Rightarrow> real \<times> attributePool" where
  "attributePool_MinValue = ap_query attribute_MinValue"

definition attributePool_MaxValue :: "attributePool \<Rightarrow> nat \<Rightarrow> real \<Rightarrow> real \<times> attributePool" where
  "attributePool_MaxValue = ap_query attribute_MaxValue"

definition attributePool_MinIndex :: "attributePool \<Rightarrow> nat \<Rightarrow> nat \<times> attributePool" where
  "attributePool_MinIndex P token = ap_query attribute_MinIndex P token NoIndex"

definition attributePool_MaxIndex :: "attributePool \<Rightarrow> nat \<Rightarrow> nat \<times> attributePool" where
  "attributePool_MaxIndex P token = ap_query attribute_MaxIndex P token NoIndex"

definition attributePool_IsConstant :: "attributePool \<Rightarrow> nat \<Rightarrow> bool \<times> attributePool" where
  "attributePool_IsConstant P token = ap_query attribute_IsConstant P token True"

section \<open>Tables\<close>

text \<open>
  What the pool relies on: primary tokens are in the table, are their own primary token, and a
  synonym has the type and the dimension of its primary token.
\<close>

locale pool_table =
  fixes tbl :: "TPoolTable list"
  assumes primary_lt: "t < length tbl \<Longrightarrow> primaryIndex (tbl ! t) < length tbl"
    and primary_primary: "t < length tbl \<Longrightarrow> primaryIndex (tbl ! primaryIndex (tbl ! t)) = primaryIndex (tbl ! t)"
    and primary_type: "t < length tbl \<Longrightarrow> arrayType (tbl ! primaryIndex (tbl ! t)) = arrayType (tbl ! t)"
    and primary_dim: "t < length tbl \<Longrightarrow> arrayDim (tbl ! primaryIndex (tbl ! t)) = arrayDim (tbl ! t)"

lemmas token_defs = TokReprUCap_def TokReprLCap_def TokReprLength_def TokReprDemand_def TokReprOrientation_def
  TokGeoAxis0_def TokRegPredecessor_def

lemma pool_tableI:
  "list_all (\<lambda>e. primaryIndex e < length tbl \<and> primaryIndex (tbl ! primaryIndex e) = primaryIndex e
     \<and> arrayType (tbl ! primaryIndex e) = arrayType e \<and> arrayDim (tbl ! primaryIndex e) = arrayDim e) tbl
   \<Longrightarrow> pool_table tbl"
  by unfold_locales (auto simp: list_all_length)

interpretation graph_pars: pool_table listOfGraphPars
  by (rule pool_tableI) (simp add: listOfGraphPars_def entry_def token_defs)

interpretation repr_pars: pool_table listOfReprPars
  by (rule pool_tableI) (simp add: listOfReprPars_def entry_def token_defs)

interpretation geometry_pars: pool_table listOfGeometryPars
  by (rule pool_tableI) (simp add: listOfGeometryPars_def entry_def token_defs)

interpretation layout_pars: pool_table listOfLayoutPars
  by (rule pool_tableI) (simp add: listOfLayoutPars_def entry_def token_defs)

interpretation register_pars: pool_table listOfRegisters
  by (rule pool_tableI) (simp add: listOfRegisters_def entry_def token_defs)

section \<open>Invariant\<close>

text \<open>
  Every attribute stands under a primary token, at most one under each, and has either no
  items or as many as the graph object has objects of its dimension.
\<close>

definition dims_ok :: "dims \<Rightarrow> bool" where
  "dims_ok X \<longleftrightarrow> (\<forall>d. X d SIZE_ACTUAL \<le> X d SIZE_RESERVED \<and> X d SIZE_ACTUAL \<le> NoIndex)"

definition ap_entry_ok :: "dims \<Rightarrow> TPoolTable list \<Rightarrow> nat \<times> real attr \<Rightarrow> bool" where
  "ap_entry_ok X tbl = (\<lambda>(t, A). t < length tbl \<and> primaryIndex (tbl ! t) = t \<and> at_inv A
     \<and> (attribute_Size A = 0 \<or> attribute_Size A = X (arrayDim (tbl ! t)) SIZE_ACTUAL))"

definition ap_inv :: "dims \<Rightarrow> attributePool \<Rightarrow> bool" where
  "ap_inv X P \<longleftrightarrow> pool_table (ap_table P) \<and> dims_ok X \<and> distinct (map fst (ap_attributes P))
     \<and> (\<forall>e \<in> set (ap_attributes P). ap_entry_ok X (ap_table P) e)"

lemma ap_search_map_of: "ap_search t as = map_of as t"
  by (induction as rule: ap_search.induct [of _ t]) auto

lemma map_fst_put [simp]: "map fst (ap_put t B as) = map fst as"
  by (induction as) auto

lemma set_put: "set (ap_put t B as) \<subseteq> insert (t, B) (set as)"
  by (induction as) (auto split: if_splits)

lemma search_put: "ap_search s (ap_put t B as) = (if s = t \<and> ap_search t as \<noteq> None then Some B else ap_search s as)"
  by (induction as) (auto split: if_splits)

lemma set_remove: "set (ap_remove t as) \<subseteq> set as"
  by (induction as) (auto split: if_splits)

lemma distinct_remove: "distinct (map fst as) \<Longrightarrow> distinct (map fst (ap_remove t as))"
  using set_remove by (induction as) force+

lemma search_remove:
  "distinct (map fst as) \<Longrightarrow> ap_search s (ap_remove t as) = (if s = t then None else ap_search s as)"
proof (induction as)
  case (Cons e as)
  obtain a A where e: "e = (a, A)" by (cases e)
  have "ap_search t as = None" if "t = a" using Cons.prems that by (simp add: e ap_search_map_of map_of_eq_None_iff)
  then show ?case using Cons by (auto simp: e)
qed simp

text \<open>A loop over one dimension changes exactly the attributes of that dimension.\<close>

definition ap_at :: "(real attr \<Rightarrow> real attr result) \<Rightarrow> TPoolTable list \<Rightarrow> TArrayDim \<Rightarrow> nat \<times> real attr
    \<Rightarrow> nat \<times> real attr \<Rightarrow> bool" where
  "ap_at f tbl d = (\<lambda>(t, A) (t', A'). t' = t \<and> (if arrayDim (tbl ! t) = d then f A = Inr A' else A' = A))"

lemma ap_each_Inr_iff: "ap_each f tbl d as = Inr as' \<longleftrightarrow> list_all2 (ap_at f tbl d) as as'"
proof (induction as arbitrary: as')
  case (Cons e as)
  obtain t A where e: "e = (t, A)" by (cases e)
  show ?case
    by (auto simp: e rbind_Inr_iff Cons.IH list_all2_Cons1 ap_at_def)
qed auto

lemma list_all2_ap_at_fst: "list_all2 (ap_at f tbl d) as as' \<Longrightarrow> map fst as' = map fst as"
  by (induction rule: list_all2_induct) (auto simp: ap_at_def)

lemma list_all2_ap_at_set:
  "list_all2 (ap_at f tbl d) as as' \<Longrightarrow> e' \<in> set as' \<Longrightarrow> \<exists>e \<in> set as. ap_at f tbl d e e'"
  by (induction rule: list_all2_induct) auto

lemma list_all2_ap_at_search:
  "list_all2 (ap_at f tbl d) as as' \<Longrightarrow> ap_search t as = Some A \<Longrightarrow>
   \<exists>A'. ap_search t as' = Some A' \<and> (if arrayDim (tbl ! t) = d then f A = Inr A' else A' = A)"
  by (induction rule: list_all2_induct) (auto simp: ap_at_def split: if_splits)

lemma ap_each_returns:
  "(\<And>t A. (t, A) \<in> set as \<Longrightarrow> arrayDim (tbl ! t) = d \<Longrightarrow> \<exists>A'. f A = Inr A') \<Longrightarrow> \<exists>as'. ap_each f tbl d as = Inr as'"
proof (induction as)
  case (Cons e as)
  obtain t A where e: "e = (t, A)" by (cases e)
  obtain as' where as': "ap_each f tbl d as = Inr as'" using Cons by (metis list.set_intros(2))
  show ?case
  proof (cases "arrayDim (tbl ! t) = d")
    case True
    then obtain A' where "f A = Inr A'" using Cons.prems e by fastforce
    then show ?thesis using True as' by (simp add: e)
  qed (simp add: e as')
qed simp

lemma ap_forall_inv:
  assumes inv: "ap_inv X P" and r: "ap_forall P d f = Inr P'" and X': "dims_ok X'"
    and same: "\<And>d'. d' \<noteq> d \<Longrightarrow> X' d' SIZE_ACTUAL = X d' SIZE_ACTUAL"
    and f: "\<And>A A'. at_inv A \<Longrightarrow> attribute_Size A = 0 \<or> attribute_Size A = X d SIZE_ACTUAL \<Longrightarrow> f A = Inr A' \<Longrightarrow>
      at_inv A' \<and> (attribute_Size A' = 0 \<or> attribute_Size A' = X' d SIZE_ACTUAL)"
  shows "ap_inv X' P'"
proof -
  obtain as' where as': "list_all2 (ap_at f (ap_table P) d) (ap_attributes P) as'"
    and P': "P' = P\<lparr>ap_attributes := as'\<rparr>"
    using r by (auto simp: ap_forall_def rbind_Inr_iff ap_each_Inr_iff)
  have "ap_entry_ok X' (ap_table P) e'" if mem: "e' \<in> set as'" for e'
  proof -
    obtain t A' where e': "e' = (t, A')" by (cases e')
    obtain A where A: "(t, A) \<in> set (ap_attributes P)" "if arrayDim (ap_table P ! t) = d then f A = Inr A' else A' = A"
      using list_all2_ap_at_set [OF as' mem] by (auto simp: e' ap_at_def)
    then have ok: "ap_entry_ok X (ap_table P) (t, A)" using inv by (auto simp: ap_inv_def)
    show ?thesis
    proof (cases "arrayDim (ap_table P ! t) = d")
      case True
      then show ?thesis using ok A(2) f [of A A'] by (simp add: ap_entry_ok_def e')
    next
      case False
      then show ?thesis using ok A(2) same [OF False] by (simp add: ap_entry_ok_def e')
    qed
  qed
  then show ?thesis using inv X' list_all2_ap_at_fst [OF as'] by (simp add: ap_inv_def P')
qed

lemma ap_put_inv:
  assumes inv: "ap_inv X P" and t: "t < length (ap_table P)"
    and A: "at_inv A" "attribute_Size A = 0 \<or> attribute_Size A = X (arrayDim (ap_table P ! t)) SIZE_ACTUAL"
  shows "ap_inv X (attributePool_put P t A)"
proof -
  have tbl: "pool_table (ap_table P)" using inv by (simp add: ap_inv_def)
  then have "ap_entry_ok X (ap_table P) (primary P t, A)"
    using A pool_table.primary_lt [OF tbl t] pool_table.primary_primary [OF tbl t] pool_table.primary_dim [OF tbl t]
    by (simp add: ap_entry_ok_def primary_def)
  then show ?thesis
    using inv set_put [of "primary P t" A "ap_attributes P"] by (auto simp: ap_inv_def attributePool_put_def)
qed

section \<open>Operations keep the invariant\<close>

lemma ap_inv_dims: "ap_inv X P \<Longrightarrow> dims_ok X" and ap_inv_table: "ap_inv X P \<Longrightarrow> pool_table (ap_table P)"
  by (simp_all add: ap_inv_def)

lemma FindAttribute_ok:
  assumes inv: "ap_inv X P" and t: "t < length (ap_table P)" and A: "attributePool_FindAttribute P t = Some A"
  shows "at_inv A" "attribute_Size A = 0 \<or> attribute_Size A = X (arrayDim (ap_table P ! t)) SIZE_ACTUAL"
proof -
  note tbl = ap_inv_table [OF inv]
  have "(primary P t, A) \<in> set (ap_attributes P)"
    using A by (auto simp: attributePool_FindAttribute_def ap_search_map_of dest: map_of_SomeD)
  then have "ap_entry_ok X (ap_table P) (primary P t, A)" using inv by (auto simp: ap_inv_def)
  then show "at_inv A" "attribute_Size A = 0 \<or> attribute_Size A = X (arrayDim (ap_table P ! t)) SIZE_ACTUAL"
    using pool_table.primary_dim [OF tbl t] by (simp_all add: ap_entry_ok_def primary_def)
qed

lemma FindAttribute_primary:
  assumes "ap_inv X P" "t < length (ap_table P)"
  shows "attributePool_FindAttribute P (primary P t) = attributePool_FindAttribute P t"
    "primary P (primary P t) = primary P t" "primary P t < length (ap_table P)"
    "arrayDim (ap_table P ! primary P t) = arrayDim (ap_table P ! t)"
  using pool_table.primary_primary [OF ap_inv_table [OF assms(1)] assms(2)]
    pool_table.primary_lt [OF ap_inv_table [OF assms(1)] assms(2)]
    pool_table.primary_dim [OF ap_inv_table [OF assms(1)] assms(2)]
  by (simp_all add: attributePool_FindAttribute_def primary_def)

lemma attribute_sizes:
  "attribute_SetCapacity A c = Inr A' \<Longrightarrow> A' = A"
  "attribute_EraseItems A k = Inr A' \<Longrightarrow> attribute_Size A' = attribute_Size A - k"
  "attribute_IncreaseSize A k = Inr A' \<Longrightarrow> attribute_Size A' = k"
  "attribute_Size (attribute_AppendItems A k) = (if attribute_Size A = 0 then 0 else attribute_Size A + k)"
  "attribute_SwapItems A i j = Inr A' \<Longrightarrow> attribute_Size A' = attribute_Size A"
  "attribute_SetValue A i v = Inr A' \<Longrightarrow> attribute_Size A' = attribute_Size A"
  "attribute_Size (attribute n v) = n"
  "attribute_Size (attribute_SetDefaultValue A v) = attribute_Size A"
  "attribute_Size (attribute_Assign A v) = attribute_Size A"
  subgoal by (auto simp: attribute_SetCapacity_def split: if_splits)
  subgoal by (auto simp: attribute_EraseItems_def attribute_Size_def Let_def split: if_splits)
  subgoal by (auto simp: attribute_IncreaseSize_def attribute_Size_def split: if_splits)
  subgoal by (auto simp: attribute_AppendItems_def attribute_Size_def Let_def)
  subgoal by (auto simp: attribute_SwapItems_def attribute_Size_def Let_def split: if_splits)
  subgoal
    using attribute_SetValue_in_range [of i A v] attribute_SetValue_out_of_range [of A i v]
    by (metis Inl_Inr_False Inr_inject attribute_Size_def length_list_update not_le)
  subgoal by (simp add: attribute_Size_def attribute_def)
  subgoal by (simp add: attribute_Size_def attribute_SetDefaultValue_def)
  subgoal by (simp add: attribute_Size_def attribute_Assign_def Let_def)
  done

lemma at_inv_SetDefaultValue: "at_inv A \<Longrightarrow> at_inv (attribute_SetDefaultValue A v)"
  by (simp add: at_inv_def attribute_SetDefaultValue_def)

lemma at_inv_IncreaseSize_empty:
  assumes "at_inv A" "attribute_Size A = 0" "k \<le> NoIndex" "attribute_IncreaseSize A k = Inr A'"
  shows "at_inv A'"
proof -
  have "at_infimum A = NoIndex" "at_supremum A = NoIndex"
    using assms(1,2) by (auto simp: at_inv_def attribute_Size_def least_at_def greatest_at_def)
  then show ?thesis using assms at_inv_exec [of A "At_IncreaseSize k"] by simp
qed

text \<open>Resizing to the rank a type asks for; singletons are only asked for if there is an object.\<close>

lemma ap_resize_ok:
  assumes A: "at_inv A" "attribute_Size A = 0 \<or> attribute_Size A = sz" and sz: "sz \<le> cap" "sz \<le> NoIndex"
    and ty: "ty = ATTR_REQ_SINGLETON \<Longrightarrow> 0 < sz"
  shows "\<exists>A'. ap_resize sz cap ty A = Inr A' \<and> at_inv A' \<and> attribute_Size A' = (if ty = ATTR_ALLOW_NULL then 0 else sz)"
proof -
  consider (null) "ty = ATTR_ALLOW_NULL" "attribute_Size A > 0" | (grow) "ty \<noteq> ATTR_ALLOW_NULL" "attribute_Size A < sz"
    | (same) "attribute_Size A = (if ty = ATTR_ALLOW_NULL then 0 else sz)"
    using A(2) by (cases "attribute_Size A = 0"; cases "sz = 0"; cases "ty = ATTR_ALLOW_NULL") auto
  then show ?thesis
  proof cases
    case null
    then obtain A1 where A1: "attribute_EraseItems A (attribute_Size A) = Inr A1"
      by (auto simp: attribute_EraseItems_def attribute_Size_def Let_def)
    then have "attribute_Size A1 = 0" using attribute_sizes(2) [OF A1] by simp
    then show ?thesis using null A1 at_inv_EraseItems [OF A(1) A1]
      by (simp add: ap_resize_def attribute_SetCapacity_def)
  next
    case grow
    then have s: "attribute_Size A = 0" using A(2) by auto
    obtain A1 where A1: "attribute_IncreaseSize A sz = Inr A1"
      using s grow by (auto simp: attribute_IncreaseSize_def attribute_Size_def)
    show ?thesis using grow s ty sz A1 at_inv_IncreaseSize_empty [OF A(1) s sz(2) A1] attribute_sizes(3) [OF A1]
      by (auto simp: ap_resize_def attribute_SetCapacity_def)
  next
    case same
    then show ?thesis using A(1) ty by (auto simp: ap_resize_def)
  qed
qed

definition make_ok :: "dims \<Rightarrow> attributePool \<Rightarrow> nat \<Rightarrow> TAttributeType \<Rightarrow> bool" where
  "make_ok X P t ty \<longleftrightarrow> t < length (ap_table P)
     \<and> (ty = ATTR_REQ_SINGLETON \<longrightarrow> 0 < X (arrayDim (ap_table P ! t)) SIZE_ACTUAL)"

lemma MakeAttribute_cases:
  assumes inv: "ap_inv X P" and ok: "make_ok X P t ty" and r: "attributePool_MakeAttribute X P t ty v = Inr (b, P')"
  obtains (old) A A' w where "attributePool_FindAttribute P t = Some A" "at_inv A'"
      "attribute_Size A' = (if ty = ATTR_ALLOW_NULL then 0 else X (arrayDim (ap_table P ! t)) SIZE_ACTUAL)"
      "P' = attributePool_put P (primary P t) (attribute_SetDefaultValue A' w)" "v \<noteq> None \<longrightarrow> v = Some w" "b"
  | (new) w k where "attributePool_FindAttribute P t = None"
      "k = (if ty = ATTR_ALLOW_NULL then 0 else X (arrayDim (ap_table P ! t)) SIZE_ACTUAL)"
      "P' = P\<lparr>ap_attributes := (primary P t, attribute k w) # ap_attributes P\<rparr>" "v \<noteq> None \<longrightarrow> v = Some w" "b"
  | (none) "attributePool_FindAttribute P t = None" "P' = P" "\<not> b"
proof -
  have t: "t < length (ap_table P)" using ok by (simp add: make_ok_def)
  note prim = FindAttribute_primary [OF inv t]
  let ?d = "arrayDim (ap_table P ! t)"
  have X: "X ?d SIZE_ACTUAL \<le> X ?d SIZE_RESERVED" "X ?d SIZE_ACTUAL \<le> NoIndex"
    using ap_inv_dims [OF inv] by (simp_all add: dims_ok_def)
  have sing: "ty = ATTR_REQ_SINGLETON \<Longrightarrow> 0 < X ?d SIZE_ACTUAL" using ok by (simp add: make_ok_def)
  obtain w where w: "(case v of None \<Rightarrow> UndefinedVoidPtr (arrayType (ap_table P ! primary P t)) | Some v \<Rightarrow> Some v) = Some w"
    using r by (auto simp: attributePool_MakeAttribute_def Let_def split: option.splits)
  then have v: "v \<noteq> None \<longrightarrow> v = Some w" by (auto split: option.splits)
  show thesis
  proof (cases "attributePool_FindAttribute P t")
    case (Some A)
    obtain A' where A': "ap_resize (X ?d SIZE_ACTUAL) (X ?d SIZE_RESERVED) ty A = Inr A'" "at_inv A'"
      "attribute_Size A' = (if ty = ATTR_ALLOW_NULL then 0 else X ?d SIZE_ACTUAL)"
      using ap_resize_ok [OF FindAttribute_ok [OF inv t Some] X sing] by auto
    have "P' = attributePool_put P (primary P t) (attribute_SetDefaultValue A' w)" "b"
      using r w A'(1) by (simp_all add: attributePool_MakeAttribute_def Let_def prim Some)
    then show thesis using old [OF Some A'(2,3)] v by blast
  next
    case None
    show thesis
    proof (cases "ty \<noteq> ATTR_ALLOW_NULL \<and> X ?d SIZE_RESERVED = 0 \<and> ty = ATTR_FULL_RANK")
      case True
      then have "P' = P" "\<not> b" using r w by (simp_all add: attributePool_MakeAttribute_def Let_def prim None)
      then show thesis using none None by blast
    next
      case False
      have res: "ty \<noteq> ATTR_ALLOW_NULL \<Longrightarrow> X ?d SIZE_RESERVED \<noteq> 0"
        using False sing X by (cases ty) auto
      have "P' = P\<lparr>ap_attributes := (primary P t, attribute (if ty = ATTR_ALLOW_NULL then 0 else X ?d SIZE_ACTUAL) w)
          # ap_attributes P\<rparr>" "b"
        using r w False res X
        by (auto simp: attributePool_MakeAttribute_def Let_def prim None attribute_SetCapacity_def attribute_sizes
            split: if_splits)
      then show thesis using new [OF None refl] v by blast
    qed
  qed
qed

lemma ap_inv_MakeAttribute:
  assumes inv: "ap_inv X P" and ok: "make_ok X P t ty" and r: "attributePool_MakeAttribute X P t ty v = Inr (b, P')"
  shows "ap_inv X P'"
proof -
  have t: "t < length (ap_table P)" using ok by (simp add: make_ok_def)
  note prim = FindAttribute_primary [OF inv t]
  have lt: "X (arrayDim (ap_table P ! t)) SIZE_ACTUAL \<le> NoIndex" "0 \<le> NoIndex"
    using ap_inv_dims [OF inv] by (simp_all add: dims_ok_def NoIndex_def)
  from inv ok r show ?thesis
  proof (cases rule: MakeAttribute_cases)
    case (old A A' w)
    then show ?thesis
      using ap_put_inv [OF inv prim(3) at_inv_SetDefaultValue [OF old(2)]] by (simp add: attribute_sizes prim)
  next
    case (new w k)
    have "ap_entry_ok X (ap_table P) (primary P t, attribute k w)"
      using prim new(2) lt by (simp add: ap_entry_ok_def attribute_sizes at_inv_new primary_def)
    moreover have "primary P t \<notin> fst ` set (ap_attributes P)"
      using new(1) by (simp add: attributePool_FindAttribute_def ap_search_map_of map_of_eq_None_iff)
    ultimately show ?thesis using inv new(3) by (auto simp: ap_inv_def)
  next
    case none
    then show ?thesis using inv by simp
  qed
qed

section \<open>Histories\<close>

text \<open>
  The calls on one attribute that keep its rank. With the calls on the pool they make up the
  histories of a pool beside a graph object whose dimensions \<open>X\<close> change together with it.
\<close>

fun keeps_rank :: "real at_op \<Rightarrow> bool" where
  "keeps_rank (At_SetConstant v) = False"
| "keeps_rank (At_IncreaseSize k) = False"
| "keeps_rank (At_AppendItems k) = False"
| "keeps_rank (At_EraseItems k) = False"
| "keeps_rank _ = True"

definition resized :: "dims \<Rightarrow> TArrayDim \<Rightarrow> nat \<Rightarrow> dims \<Rightarrow> bool" where
  "resized X d k X' \<longleftrightarrow> dims_ok X' \<and> X' d SIZE_ACTUAL = k \<and> (\<forall>d'. d' \<noteq> d \<longrightarrow> X' d' SIZE_ACTUAL = X d' SIZE_ACTUAL)"

inductive pool_history :: "dims \<Rightarrow> attributePool \<Rightarrow> bool" where
  new: "pool_table tbl \<Longrightarrow> dims_ok X \<Longrightarrow> pool_history X (attributePool_new tbl ty)"
| make: "pool_history X P \<Longrightarrow> make_ok X P t ty \<Longrightarrow> attributePool_MakeAttribute X P t ty v = Inr (b, P') \<Longrightarrow>
     pool_history X P'"
| init: "pool_history X P \<Longrightarrow> t < length (ap_table P) \<Longrightarrow> attributePool_InitAttribute X P t w = Inr (b, P') \<Longrightarrow>
     pool_history X P'"
| raw: "pool_history X P \<Longrightarrow> t < length (ap_table P) \<Longrightarrow> attributePool_RawAttribute X P t = Inr (b, P') \<Longrightarrow>
     pool_history X P'"
| call: "pool_history X P \<Longrightarrow> t < length (ap_table P) \<Longrightarrow> attributePool_FindAttribute P t = Some A \<Longrightarrow>
     keeps_rank c \<Longrightarrow> at_exec c A = Inr A' \<Longrightarrow> pool_history X (attributePool_put P t A')"
| release: "pool_history X P \<Longrightarrow> pool_history X (attributePool_ReleaseAttribute P t)"
| flush: "pool_history X P \<Longrightarrow> pool_history X (attributePool_Flush P)"
| reserve: "pool_history X P \<Longrightarrow> attributePool_ReserveItems P d k = Inr P' \<Longrightarrow> resized X d (X d SIZE_ACTUAL) X' \<Longrightarrow>
     pool_history X' P'"
| append: "pool_history X P \<Longrightarrow> attributePool_AppendItems P d k = Inr P' \<Longrightarrow> resized X d (X d SIZE_ACTUAL + k) X' \<Longrightarrow>
     pool_history X' P'"
| erase: "pool_history X P \<Longrightarrow> attributePool_EraseItems P d k = Inr P' \<Longrightarrow> resized X d (X d SIZE_ACTUAL - k) X' \<Longrightarrow>
     pool_history X' P'"
| swap: "pool_history X P \<Longrightarrow> attributePool_SwapItems P d i j = Inr P' \<Longrightarrow> pool_history X P'"

lemma keeps_rank_size:
  assumes "keeps_rank c" "at_exec c A = Inr A'"
  shows "attribute_Size A' = attribute_Size A" "at_guard c A"
proof -
  show "at_guard c A" using assms(1) by (cases c) auto
  show "attribute_Size A' = attribute_Size A"
    using assms
    by (cases c)
       (auto simp: attribute_sizes attribute_ReserveItems_def attribute_Size_def attribute_MinIndex_def
          attribute_SetDefaultValue_def attribute_Assign_def
          attribute_MaxIndex_def attribute_MinValue_keeps attribute_IsConstant_def case_prod_unfold Let_def
          dest: attribute_sizes(1) attribute_sizes(5) [unfolded attribute_Size_def]
            attribute_sizes(6) [unfolded attribute_Size_def] split: if_splits)
qed

lemma ap_inv_forall_resized:
  assumes "ap_inv X P" "ap_forall P d f = Inr P'" "resized X d k X'"
    and "\<And>A A'. at_inv A \<Longrightarrow> attribute_Size A = 0 \<or> attribute_Size A = X d SIZE_ACTUAL \<Longrightarrow> f A = Inr A' \<Longrightarrow>
      at_inv A' \<and> (attribute_Size A' = 0 \<or> attribute_Size A' = k)"
  shows "ap_inv X' P'"
  using ap_forall_inv [OF assms(1,2), of X'] assms(3,4) by (auto simp: resized_def)

lemma at_inv_ReserveItems: "at_inv A \<Longrightarrow> attribute_ReserveItems A k = Inr A' \<Longrightarrow> at_inv A' \<and> attribute_Size A' = attribute_Size A"
  using attribute_sizes(1) by (auto simp: attribute_ReserveItems_def split: if_splits)

lemma at_inv_Append_resized:
  assumes "at_inv A" "attribute_Size A = 0 \<or> attribute_Size A = n" "n + k \<le> NoIndex"
  shows "at_inv (attribute_AppendItems A k)
    \<and> (attribute_Size (attribute_AppendItems A k) = 0 \<or> attribute_Size (attribute_AppendItems A k) = n + k)"
proof (cases "attribute_Size A = 0")
  case True
  then have "attribute_AppendItems A k = A" by (simp add: attribute_AppendItems_def attribute_Size_def)
  then show ?thesis using assms True by simp
next
  case False
  then show ?thesis using assms at_inv_AppendItems [of A k] by (simp add: attribute_sizes)
qed

lemma ap_forall_table: "ap_forall P d f = Inr P' \<Longrightarrow> ap_table P' = ap_table P \<and> ap_poolType P' = ap_poolType P"
  by (auto simp: ap_forall_def rbind_Inr_iff)

lemma ap_inv_AppendItems:
  assumes inv: "ap_inv X P" and r: "attributePool_AppendItems P d k = Inr P'" and X': "resized X d (X d SIZE_ACTUAL + k) X'"
  shows "ap_inv X' P'"
proof -
  have "X d SIZE_ACTUAL + k \<le> NoIndex" using X' unfolding resized_def dims_ok_def by metis
  then show ?thesis
    using at_inv_Append_resized
    by (intro ap_inv_forall_resized [OF inv r [unfolded attributePool_AppendItems_def] X']) auto
qed

lemma ap_inv_history: "pool_history X P \<Longrightarrow> ap_inv X P"
proof (induction rule: pool_history.induct)
  case (new tbl X ty)
  then show ?case by (simp add: ap_inv_def attributePool_new_def)
next
  case (make X P t ty v b P')
  then show ?case using ap_inv_MakeAttribute by blast
next
  case (init X P t w b P')
  show ?case
  proof (cases "attributePool_FindAttribute P t")
    case None
    then show ?thesis using init ap_inv_MakeAttribute [OF init.IH, of t ATTR_FULL_RANK "Some w" b P']
      by (simp add: attributePool_InitAttribute_def make_ok_def)
  next
    case (Some A)
    note A = FindAttribute_ok [OF init.IH init.hyps(2) Some]
    show ?thesis using init Some ap_put_inv [OF init.IH init.hyps(2) at_inv_Assign [OF A(1)], of w] A(2)
      by (simp add: attributePool_InitAttribute_def attribute_sizes)
  qed
next
  case (raw X P t b P')
  then show ?case using ap_inv_MakeAttribute [OF raw.IH, of t ATTR_FULL_RANK None b P']
    by (auto simp: attributePool_RawAttribute_def make_ok_def split: if_splits)
next
  case (call X P t A c A')
  note A = FindAttribute_ok [OF call.IH call.hyps(2,3)] and c = keeps_rank_size [OF call.hyps(4,5)]
  show ?case using ap_put_inv [OF call.IH call.hyps(2) at_inv_exec [OF A(1) c(2) call.hyps(5)]] A(2) c(1) by simp
next
  case (release X P t)
  then show ?case using set_remove [of "primary P t" "ap_attributes P"]
    by (auto simp: ap_inv_def attributePool_ReleaseAttribute_def distinct_remove)
next
  case (flush X P)
  then show ?case by (simp add: ap_inv_def attributePool_Flush_def)
next
  case (reserve X P d k P' X')
  show ?case
  proof (rule ap_inv_forall_resized [OF reserve.IH reserve.hyps(2) [unfolded attributePool_ReserveItems_def] reserve.hyps(3)])
    fix A A' assume "at_inv A" "attribute_Size A = 0 \<or> attribute_Size A = X d SIZE_ACTUAL" "attribute_ReserveItems A k = Inr A'"
    then show "at_inv A' \<and> (attribute_Size A' = 0 \<or> attribute_Size A' = X d SIZE_ACTUAL)"
      using at_inv_ReserveItems [of A k A'] by auto
  qed
next
  case (append X P d k P' X')
  then show ?case using ap_inv_AppendItems by blast
next
  case (erase X P d k P' X')
  show ?case
  proof (rule ap_inv_forall_resized [OF erase.IH erase.hyps(2) [unfolded attributePool_EraseItems_def] erase.hyps(3)])
    fix A A' assume "at_inv A" "attribute_Size A = 0 \<or> attribute_Size A = X d SIZE_ACTUAL" "attribute_EraseItems A k = Inr A'"
    then show "at_inv A' \<and> (attribute_Size A' = 0 \<or> attribute_Size A' = X d SIZE_ACTUAL - k)"
      using at_inv_EraseItems attribute_sizes(2) [of A k A'] by auto
  qed
next
  case (swap X P d i j P')
  have "resized X d (X d SIZE_ACTUAL) X" using ap_inv_dims [OF swap.IH] by (simp add: resized_def)
  then show ?case
  proof (rule ap_inv_forall_resized [OF swap.IH swap.hyps(2) [unfolded attributePool_SwapItems_def]])
    fix A A' assume "at_inv A" "attribute_Size A = 0 \<or> attribute_Size A = X d SIZE_ACTUAL" "attribute_SwapItems A i j = Inr A'"
    then show "at_inv A' \<and> (attribute_Size A' = 0 \<or> attribute_Size A' = X d SIZE_ACTUAL)"
      using at_inv_SwapItems attribute_sizes(5) [of A i j A'] by auto
  qed
qed

section \<open>Properties\<close>

lemma attributePool_rank_facts:
  assumes inv: "ap_inv X P" and "t < length (ap_table P)"
  shows "attributePool_FindAttribute P t = Some A \<Longrightarrow> at_inv A
      \<and> (attribute_Size A = 0 \<or> attribute_Size A = X (arrayDim (ap_table P ! t)) SIZE_ACTUAL)"
    and "attributePool_GetArray P t = Some xs \<Longrightarrow> length xs = X (arrayDim (ap_table P ! t)) SIZE_ACTUAL"
    and "\<exists>P'. attributePool_AppendItems P d k = Inr P'"
    and "i < X d SIZE_ACTUAL \<Longrightarrow> j < X d SIZE_ACTUAL \<Longrightarrow> \<exists>P'. attributePool_SwapItems P d i j = Inr P'"
    and "k \<le> X d SIZE_ACTUAL \<Longrightarrow> \<exists>P'. attributePool_EraseItems P d k = Inr P'"
proof -
  show 1: "at_inv A \<and> (attribute_Size A = 0 \<or> attribute_Size A = X (arrayDim (ap_table P ! t)) SIZE_ACTUAL)"
    if "attributePool_FindAttribute P t = Some A" for A
    using FindAttribute_ok [OF inv assms(2) that] by simp
  show "attributePool_GetArray P t = Some xs \<Longrightarrow> length xs = X (arrayDim (ap_table P ! t)) SIZE_ACTUAL"
    using 1 by (auto simp: attributePool_GetArray_def attribute_Size_def split: if_splits option.splits)
  have entry: "attribute_Size A = 0 \<or> attribute_Size A = X d SIZE_ACTUAL"
    if "(s, A) \<in> set (ap_attributes P)" "arrayDim (ap_table P ! s) = d" for s A
    using inv that by (fastforce simp: ap_inv_def ap_entry_ok_def)
  have ret: "\<exists>P'. ap_forall P d f = Inr P'"
    if "\<And>A. attribute_Size A = 0 \<or> attribute_Size A = X d SIZE_ACTUAL \<Longrightarrow> \<exists>A'. f A = Inr A'" for f
    using ap_each_returns [of "ap_attributes P" "ap_table P" d f] that entry
    by (auto simp: ap_forall_def)
  show "\<exists>P'. attributePool_AppendItems P d k = Inr P'"
    unfolding attributePool_AppendItems_def by (rule ret) simp
  show "\<exists>P'. attributePool_SwapItems P d i j = Inr P'" if "i < X d SIZE_ACTUAL" "j < X d SIZE_ACTUAL"
    unfolding attributePool_SwapItems_def using that
    by (intro ret) (auto simp: attribute_SwapItems_def attribute_Size_def Let_def)
  show "\<exists>P'. attributePool_EraseItems P d k = Inr P'" if "k \<le> X d SIZE_ACTUAL"
    unfolding attributePool_EraseItems_def using that
    by (intro ret) (auto simp: attribute_EraseItems_def attribute_Size_def Let_def)
qed

definition ap_example :: attributePool where
  "ap_example = \<lparr>ap_table = listOfReprPars, ap_attributes = [(TokReprUCap, attribute 2 1)],
     ap_poolType = ATTR_ALLOW_NULL\<rparr>"

lemma ap_example_history: "pool_history (\<lambda>d s. 2) ap_example"
proof -
  have "pool_history (\<lambda>d s. 2) (attributePool_new listOfReprPars ATTR_ALLOW_NULL)"
    by (rule new) (auto simp: dims_ok_def NoIndex_def intro: repr_pars.pool_table_axioms)
  then show ?thesis
    by (rule init [where t = TokReprUCap and w = 1 and b = True])
       (simp_all add: attributePool_new_def attributePool_InitAttribute_def attributePool_FindAttribute_def
          attributePool_MakeAttribute_def attribute_SetCapacity_def attribute_sizes ap_example_def primary_def
          listOfReprPars_def entry_def token_defs)
qed



lemma attributePool_values_facts:
  assumes inv: "ap_inv X P" and t: "t < length (ap_table P)"
  shows "attributePool_AppendItems P d k = Inr P' \<Longrightarrow> attributePool_GetValue P' t i w = attributePool_GetValue P t i w"
    and "attributePool_SwapItems P d i j = Inr P' \<Longrightarrow> i < X d SIZE_ACTUAL \<Longrightarrow> j < X d SIZE_ACTUAL \<Longrightarrow>
      attributePool_GetValue P' t l w = attributePool_GetValue P t
        (if arrayDim (ap_table P ! t) \<noteq> d then l else if l = i then j else if l = j then i else l) w"
    and "s < length (ap_table P) \<Longrightarrow> \<exists>P'. attributePool_MakeAttribute X P s ATTR_ALLOW_NULL (Some v) = Inr (True, P')
      \<and> attributePool_GetValue P' t l w = (if primary P t = primary P s then v else attributePool_GetValue P t l w)"
proof -
  note prim = FindAttribute_primary [OF inv t]
  have find: "(attributePool_FindAttribute P t = None \<longrightarrow> attributePool_FindAttribute P' t = None)
      \<and> (\<forall>A. attributePool_FindAttribute P t = Some A \<longrightarrow> (\<exists>A'. attributePool_FindAttribute P' t = Some A'
          \<and> (if arrayDim (ap_table P ! t) = d then f A = Inr A' else A' = A)))"
    if r: "ap_forall P d f = Inr P'" for f P'
  proof -
    obtain as' where as': "list_all2 (ap_at f (ap_table P) d) (ap_attributes P) as'" "P' = P\<lparr>ap_attributes := as'\<rparr>"
      using r by (auto simp: ap_forall_def rbind_Inr_iff ap_each_Inr_iff)
    have n: "ap_search u (ap_attributes P) = None \<Longrightarrow> ap_search u as' = None" for u
      using list_all2_ap_at_fst [OF as'(1)] by (metis ap_search_map_of map_of_eq_None_iff set_map)
    show ?thesis
      using n [of "primary P t"] list_all2_ap_at_search [OF as'(1), of "primary P t"] prim(4)
      by (auto simp: as'(2) attributePool_FindAttribute_def primary_def)
  qed
  show "attributePool_GetValue P' t i w = attributePool_GetValue P t i w" if r: "attributePool_AppendItems P d k = Inr P'"
  proof (cases "attributePool_FindAttribute P t")
    case None
    then show ?thesis using find [OF r [unfolded attributePool_AppendItems_def]] by (simp add: attributePool_GetValue_def)
  next
    case (Some A)
    have "attribute_GetValue (attribute_AppendItems A k) i = attribute_GetValue A i"
      by (auto simp: attribute_AppendItems_def attribute_GetValue_def attribute_Size_def nth_append Let_def)
    then show ?thesis using find [OF r [unfolded attributePool_AppendItems_def]] Some
      by (auto simp: attributePool_GetValue_def split: if_splits)
  qed
  show "attributePool_GetValue P' t l w = attributePool_GetValue P t
      (if arrayDim (ap_table P ! t) \<noteq> d then l else if l = i then j else if l = j then i else l) w"
    if r: "attributePool_SwapItems P d i j = Inr P'" and ij: "i < X d SIZE_ACTUAL" "j < X d SIZE_ACTUAL"
  proof (cases "attributePool_FindAttribute P t")
    case None
    then show ?thesis using find [OF r [unfolded attributePool_SwapItems_def]] by (simp add: attributePool_GetValue_def)
  next
    case (Some A)
    obtain A' where A': "attributePool_FindAttribute P' t = Some A'"
      "if arrayDim (ap_table P ! t) = d then attribute_SwapItems A i j = Inr A' else A' = A"
      using find [OF r [unfolded attributePool_SwapItems_def]] Some by auto
    show ?thesis
    proof (cases "arrayDim (ap_table P ! t) = d \<and> attribute_Size A \<noteq> 0")
      case True
      then have "i < length (at_data A)" "j < length (at_data A)"
        using FindAttribute_ok(2) [OF inv t Some] ij by (auto simp: attribute_Size_def)
      then show ?thesis using A' True Some
        by (auto simp: attributePool_GetValue_def attribute_SwapItems_def attribute_GetValue_def attribute_Size_def
            nth_list_update Let_def split: if_splits)
    next
      case False
      then show ?thesis using A' Some
        by (auto simp: attributePool_GetValue_def attribute_SwapItems_def attribute_GetValue_def attribute_Size_def
            split: if_splits)
    qed
  qed
  show "\<exists>P'. attributePool_MakeAttribute X P s ATTR_ALLOW_NULL (Some v) = Inr (True, P')
      \<and> attributePool_GetValue P' t l w = (if primary P t = primary P s then v else attributePool_GetValue P t l w)"
    if s: "s < length (ap_table P)"
  proof -
    note prim_s = FindAttribute_primary [OF inv s]
    have "\<exists>P'. attributePool_MakeAttribute X P s ATTR_ALLOW_NULL (Some v) = Inr (True, P')"
      using ap_resize_ok [OF FindAttribute_ok [OF inv s]] ap_inv_dims [OF inv]
      by (cases "attributePool_FindAttribute P s")
         (force simp: attributePool_MakeAttribute_def Let_def prim_s dims_ok_def)+
    then obtain P' where P': "attributePool_MakeAttribute X P s ATTR_ALLOW_NULL (Some v) = Inr (True, P')" by blast
    have ok: "make_ok X P s ATTR_ALLOW_NULL" using s by (simp add: make_ok_def)
    from inv ok P' have "attributePool_GetValue P' t l w
        = (if primary P t = primary P s then v else attributePool_GetValue P t l w)"
    proof (cases rule: MakeAttribute_cases)
      case (old A A' u)
      have "attribute_GetValue (attribute_SetDefaultValue A' u) l = u"
        using old(3) by (simp add: attribute_GetValue_def attribute_SetDefaultValue_def attribute_Size_def)
      then show ?thesis
        using prim_s old by (simp add: attributePool_GetValue_def attributePool_put_def attributePool_FindAttribute_def
            search_put primary_def split: option.split)
    next
      case (new u k)
      then show ?thesis
        by (simp add: attributePool_GetValue_def attributePool_FindAttribute_def primary_def attribute_GetValue_def
            attribute_Size_def attribute_def)
    next
      case none
      then show ?thesis by simp
    qed
    then show ?thesis using P' by blast
  qed
qed

text \<open>
  C32: The values behind the tokens. Growing the pool changes no value. Swapping two items of a
  dimension swaps the two values of every attribute of that dimension with items, and of no
  other attribute. Giving a constant to a token, as \<open>SetCUCap\<close>, \<open>SetCLength\<close> and the like do,
  makes it the value at every index and leaves the other tokens alone.
\<close>

theorem attributePool_values_history:
  assumes "pool_history X P" and "t < length (ap_table P)"
  shows "(\<forall>d k P' i w. attributePool_AppendItems P d k = Inr P' \<longrightarrow>
        attributePool_GetValue P' t i w = attributePool_GetValue P t i w)
    \<and> (\<forall>d i j P' l w. attributePool_SwapItems P d i j = Inr P' \<and> i < X d SIZE_ACTUAL \<and> j < X d SIZE_ACTUAL \<longrightarrow>
        attributePool_GetValue P' t l w = attributePool_GetValue P t
          (if arrayDim (ap_table P ! t) \<noteq> d then l else if l = i then j else if l = j then i else l) w)
    \<and> (\<forall>s v l w. s < length (ap_table P) \<longrightarrow>
        (\<exists>P'. attributePool_MakeAttribute X P s ATTR_ALLOW_NULL (Some v) = Inr (True, P')
          \<and> attributePool_GetValue P' t l w = (if primary P t = primary P s then v else attributePool_GetValue P t l w)))"
  using attributePool_values_facts [OF ap_inv_history [OF assms(1)] assms(2)] by simp

theorem attributePool_values_history_witness:
  "pool_history (\<lambda>d s. 2) ap_example
   \<and> (\<exists>P'. attributePool_MakeAttribute (\<lambda>d s. 2) ap_example TokReprUCap ATTR_ALLOW_NULL (Some 7) = Inr (True, P')
      \<and> attributePool_GetValue P' TokReprUCap 5 1 = 7)"
proof -
  have t: "TokReprUCap < length (ap_table ap_example)"
    by (simp add: ap_example_def listOfReprPars_def token_defs)
  show ?thesis
    using attributePool_values_history [OF ap_example_history t] t ap_example_history by metis
qed

text \<open>
  \<open>InitAttribute\<close> promises an attribute of full rank. On an attribute that is present without
  items it returns one without items.
\<close>

lemma attributePool_InitAttribute_no_rank:
  "\<exists>P P'. pool_history (\<lambda>d s. 2) P \<and> attributePool_InitAttribute (\<lambda>d s. 2) P TokReprUCap 1 = Inr (True, P')
    \<and> (\<exists>A. attributePool_FindAttribute P' TokReprUCap = Some A \<and> attribute_Size A = 0)"
proof -
  let ?P = "ap_example\<lparr>ap_attributes := [(TokReprUCap, attribute 0 3)]\<rparr>"
  have "pool_history (\<lambda>d s. 2) (attributePool_new listOfReprPars ATTR_ALLOW_NULL)"
    by (rule new) (auto simp: dims_ok_def NoIndex_def intro: repr_pars.pool_table_axioms)
  then have "pool_history (\<lambda>d s. 2) ?P"
    by (rule make [where t = TokReprUCap and v = "Some 3" and b = True and ty = ATTR_ALLOW_NULL])
       (simp_all add: attributePool_new_def attributePool_FindAttribute_def make_ok_def
          attributePool_MakeAttribute_def ap_example_def primary_def listOfReprPars_def entry_def token_defs)
  moreover have "attributePool_InitAttribute (\<lambda>d s. 2) ?P TokReprUCap 1
      = Inr (True, ap_example\<lparr>ap_attributes := [(TokReprUCap, attribute 0 1)]\<rparr>)"
    by (simp add: attributePool_InitAttribute_def attributePool_FindAttribute_def primary_def ap_example_def
        listOfReprPars_def entry_def token_defs attributePool_put_def attribute_Assign_def attribute_Size_def attribute_def)
  moreover have "attributePool_FindAttribute (ap_example\<lparr>ap_attributes := [(TokReprUCap, attribute 0 1)]\<rparr>) TokReprUCap
      = Some (attribute 0 1)"
    by (simp add: attributePool_FindAttribute_def primary_def ap_example_def listOfReprPars_def entry_def token_defs)
  ultimately show ?thesis using attribute_sizes(7) by blast
qed

end
