(* ===== verification/Incidence_Ring.thy ===== *)
theory Incidence_Ring
  imports Goblin_Prelude
begin

text \<open>
  Cyclic lists in index arrays. The sparse graph representation keeps the arcs with a common
  start node in a ring: following the array \<open>right\<close> from any member visits every member once and
  returns. \<open>ring f as\<close> says that \<open>f\<close> runs through \<open>as\<close> and back to its head; the lemmas give
  the effect of the array updates of the representation on rings.
\<close>

section \<open>Arc indices\<close>

text \<open>The two orientations of edge \<open>e\<close> have the indices \<open>2 * e\<close> and \<open>2 * e + 1\<close>: \<open>a^1\<close> in the code.\<close>

definition flip :: "nat \<Rightarrow> nat" where
  "flip a = (if even a then Suc a else a - 1)"

lemma flip_flip [simp]: "flip (flip a) = a"
  by (auto simp: flip_def elim: oddE)

lemma flip_neq [simp]: "flip a \<noteq> a" "a \<noteq> flip a"
  by (auto simp: flip_def elim: oddE)

lemma flip_inject [simp]: "flip a = flip b \<longleftrightarrow> a = b"
  by (metis flip_flip)

lemma flip_lt [simp]: "flip a < 2 * m \<longleftrightarrow> a < 2 * m"
  by (auto simp: flip_def elim!: evenE oddE)

lemma flip_div [simp]: "flip a div 2 = a div 2"
  by (auto simp: flip_def elim!: evenE oddE)

lemma flip_even [simp]: "flip (2 * e) = Suc (2 * e)"
  by (simp add: flip_def)

section \<open>Arrays as functions\<close>

lemma nth_upd_fun: "i < length xs \<Longrightarrow> (!) (xs[i := v]) = ((!) xs)(i := v)"
  by (auto simp: fun_eq_iff nth_list_update)

section \<open>Rings\<close>

definition ring :: "(nat \<Rightarrow> nat) \<Rightarrow> nat list \<Rightarrow> bool" where
  "ring f as \<longleftrightarrow> as \<noteq> [] \<and> distinct as \<and> chain f (hd as) as (hd as)"

lemma ring_Cons: "ring f (x # as) \<longleftrightarrow> x \<notin> set as \<and> distinct as \<and> chain f (f x) as x"
  by (simp add: ring_def)

lemma ring_single [simp]: "ring f [x] \<longleftrightarrow> f x = x"
  by (simp add: ring_def)

lemma ring_cong: "(\<And>a. a \<in> set as \<Longrightarrow> f a = g a) \<Longrightarrow> ring f as = ring g as"
  using chain_cong [of as f g] by (simp add: ring_def)

lemma ring_upd_notin [simp]: "a \<notin> set as \<Longrightarrow> ring (f(a := b)) as = ring f as"
  by (rule ring_cong) auto

lemma ring_rotate: "ring f (xs @ ys) \<Longrightarrow> ring f (ys @ xs)"
proof (cases "xs = [] \<or> ys = []")
  case False
  assume r: "ring f (xs @ ys)"
  then obtain z where z: "chain f (hd xs) xs z" "chain f z ys (hd xs)"
    using False by (auto simp: ring_def chain_append)
  then have "z = hd ys" using False by (cases ys) auto
  then show ?thesis using r z False by (auto simp: ring_def chain_append)
qed auto

lemma ring_at:
  assumes "ring f as" "x \<in> set as"
  obtains bs where "ring f (x # bs)" "set (x # bs) = set as" "length (x # bs) = length as"
proof -
  obtain xs ys where as: "as = xs @ x # ys" using assms(2) by (metis split_list)
  have "ring f (x # ys @ xs)" using ring_rotate [of f xs "x # ys"] assms(1) as by simp
  then show ?thesis by (rule that) (auto simp: as)
qed

lemma chain_last: "chain f x (as @ [y]) z \<Longrightarrow> f y = z"
  by (simp add: chain_append)

lemma chain_image: "chain f x as y \<Longrightarrow> set as \<subseteq> insert x (f ` set as) \<and> f ` set as \<subseteq> insert y (set as)"
proof (induction as arbitrary: x)
  case (Cons a as)
  then have IH: "set as \<subseteq> insert (f a) (f ` set as)" "f ` set as \<subseteq> insert y (set as)" "x = a" by auto
  have "f a \<in> insert y (set as)" using Cons.prems by (cases as) auto
  then show ?case using IH by auto
qed simp

lemma ring_image: "ring f as \<Longrightarrow> f ` set as = set as"
proof -
  assume r: "ring f as"
  then obtain x bs where as: "as = x # bs" by (cases as) (auto simp: ring_def)
  have "f ` set as \<subseteq> set as" using r chain_image [of f x as x] by (auto simp: as ring_def)
  moreover have "x \<in> f ` set as"
  proof (cases bs rule: rev_cases)
    case Nil
    then show ?thesis using r by (simp add: as)
  next
    case (snoc cs y)
    then have "f y = x" using r chain_last [of f x "x # cs" y x] by (simp add: as ring_def)
    then show ?thesis by (auto simp: as snoc)
  qed
  moreover have "set as \<subseteq> insert x (f ` set as)" using r chain_image [of f x as x] by (simp add: as ring_def)
  ultimately show ?thesis by auto
qed

lemma ring_inj: "ring f as \<Longrightarrow> inj_on f (set as)"
  using ring_image by (metis List.finite_set eq_card_imp_inj_on)

lemma ring_closed: "ring f as \<Longrightarrow> a \<in> set as \<Longrightarrow> f a \<in> set as"
  using ring_image by blast

lemma ring_fixpoint: "ring f as \<Longrightarrow> a \<in> set as \<Longrightarrow> f a = a \<Longrightarrow> set as = {a}"
proof -
  assume "ring f as" "a \<in> set as" and fx: "f a = a"
  then obtain bs where bs: "ring f (a # bs)" "set (a # bs) = set as" by (auto elim: ring_at)
  then have "bs = []" using fx by (cases bs) (auto simp: ring_Cons)
  then show ?thesis using bs by simp
qed

text \<open>The predecessor of the head is the last member.\<close>

lemma ring_last: "ring f (x # bs) \<Longrightarrow> bs \<noteq> [] \<Longrightarrow> f (last bs) = x"
  by (metis append_butlast_last_id chain_last ring_Cons)

lemma ring_last_unique:
  assumes "ring f (x # bs)" "l \<in> set (x # bs)" "f l = x" "bs \<noteq> []"
  shows "l = last bs"
  using assms ring_inj [OF assms(1)] ring_last [OF assms(1,4)]
  by (metis inj_onD last_in_set list.set_intros(2))

section \<open>Updates\<close>

text \<open>Insertion of a new member behind \<open>x\<close>.\<close>

lemma ring_insert:
  assumes "ring f (x # bs)" "b \<notin> set (x # bs)"
  shows "ring (f(b := f x, x := b)) (x # b # bs)" "ring (f(b := f x, x := b)) (b # bs @ [x])"
proof -
  show 1: "ring (f(b := f x, x := b)) (x # b # bs)"
    using assms by (simp add: ring_Cons chain_simps)
  show "ring (f(b := f x, x := b)) (b # bs @ [x])"
    using ring_rotate [of _ "[x]" "b # bs"] 1 by simp
qed

text \<open>Removal of the head, with its predecessor \<open>l\<close>.\<close>

lemma ring_remove:
  assumes "ring f (x # bs)" "bs \<noteq> []" "f l = x" "l \<in> set (x # bs)"
  shows "ring (f(l := f x)) bs" "l \<in> set bs"
proof -
  have l: "l = last bs" using ring_last_unique assms by metis
  then obtain cs where bs: "bs = cs @ [l]" using assms(2) by (metis append_butlast_last_id)
  have c: "chain f (f x) (cs @ [l]) x" "distinct (cs @ [l])" using assms(1) by (simp_all add: ring_Cons bs)
  then have "chain f (f x) cs l" by (simp add: chain_append)
  moreover have "hd bs = f x" using c(1) by (cases cs) (auto simp: bs)
  ultimately show "ring (f(l := f x)) bs" using c(2) by (simp add: ring_def bs chain_append chain_upd_notin)
  show "l \<in> set bs" by (simp add: bs)
qed

text \<open>Two rings are joined by exchanging the successors of one member each.\<close>

lemma ring_join:
  assumes "ring f (x # as)" "ring f (y # bs)" "set (x # as) \<inter> set (y # bs) = {}"
  shows "ring (f(x := f y, y := f x)) (x # bs @ y # as)"
proof -
  have "chain f (f x) as x" "chain f (f y) bs y" "distinct (x # as)" "distinct (y # bs)"
    using assms(1,2) by (simp_all add: ring_Cons)
  moreover have "x \<notin> set bs" "y \<notin> set as" "x \<noteq> y" using assms(3) by auto
  ultimately show ?thesis
    using assms(3) by (auto simp: ring_Cons chain_append chain_upd_notin)
qed

section \<open>Traversal\<close>

text \<open>
  The loop \<open>while (right[a]!=a0) a = right[a]\<close>, as the list of the arcs it visits. It need not
  end on arrays that are no rings.
\<close>

partial_function (option) arc_ring :: "(nat \<Rightarrow> nat) \<Rightarrow> nat \<Rightarrow> nat \<Rightarrow> nat list option" where
  "arc_ring f a0 a = (if f a = a0 then Some [a] else Option.bind (arc_ring f a0 (f a)) (\<lambda>as. Some (a # as)))"

lemma arc_ring_chain:
  "chain f (f a) as a0 \<Longrightarrow> a0 \<notin> set as \<Longrightarrow> arc_ring f a0 a = Some (a # as)"
proof (induction as arbitrary: a)
  case Nil
  then show ?case by (subst arc_ring.simps) simp
next
  case (Cons b as)
  then have "f a = b" "f a \<noteq> a0" by auto
  then show ?case using Cons by (subst arc_ring.simps) simp
qed

lemma arc_ring_ring: "ring f (x # as) \<Longrightarrow> arc_ring f x x = Some (x # as)"
  by (rule arc_ring_chain) (auto simp: ring_Cons)

end
