(* ===== verification/Graph_Repr.thy ===== *)
theory Graph_Repr
  imports Attribute_Pool Incidence_Ring
begin

text \<open>
  The state of a sparse graph representation and the part of it that
  \<^verbatim>\<open>lib_src/graphRepresentation.cpp\<close> manages: dimensions, capacities, lengths, demands,
  orientations and coordinates in attribute pools, and the subgraph multiplicities of
  \<^verbatim>\<open>lib_src/sparseRepresentation.cpp\<close>.

  Arrays that are allocated are lists of the reserved length, \<open>NULL\<close> is \<open>None\<close>. Memory that the
  code leaves uninitialised has the undefined index as value; it is written before it is read.
  The graph object that owns the representation takes part with its register pool, the pointer
  arithmetic of its predecessor labels included, and with its reference count. Its caches
  (adjacency table, embedding, degrees, investigators) are not part of the state: the calls that
  maintain them are recorded in \<open>sp_calls\<close>, latest call first.
\<close>

section \<open>State\<close>

datatype gcall = C_ReleaseInvestigators | C_ReleaseEmbedding | C_ReleaseDegrees
  | C_MarkAdjacency nat nat nat | C_AdjustDegrees nat real

record sparse =
  sp_nAct :: nat
  sp_nMax :: nat
  sp_mAct :: nat
  sp_mMax :: nat
  sp_lAct :: nat
  sp_lMax :: nat
  sp_SN :: "nat list"
  sp_right :: "nat list"
  sp_first :: "nat list"
  sp_left :: "nat list option"
  sp_sub :: "real list option"
  sp_representation :: attributePool
  sp_geometry :: attributePool
  sp_layoutData :: attributePool
  sp_registers :: attributePool
  sp_referenced :: bool
  sp_maxNode :: nat
  sp_maxArc :: nat
  sp_calls :: "gcall list"

definition call :: "gcall \<Rightarrow> sparse \<Rightarrow> sparse" where
  "call c S = S\<lparr>sp_calls := c # sp_calls S\<rparr>"

definition sp_SizeInfo :: "sparse \<Rightarrow> dims" where
  "sp_SizeInfo S d sz = (case d of
       DIM_GRAPH_NODES \<Rightarrow> (if sz = SIZE_RESERVED then sp_nMax S else sp_nAct S)
     | DIM_GRAPH_ARCS \<Rightarrow> (if sz = SIZE_RESERVED then sp_mMax S else sp_mAct S)
     | DIM_ARCS_TWICE \<Rightarrow> (if sz = SIZE_RESERVED then 2 * sp_mMax S else 2 * sp_mAct S)
     | DIM_LAYOUT_NODES \<Rightarrow> (if sz = SIZE_RESERVED then sp_lMax S else sp_lAct S)
     | DIM_SINGLETON \<Rightarrow> 1)"

text \<open>
  Construction for a graph object with \<open>n\<close> nodes and no arcs, without random attributes.
\<close>

definition sparseRepresentation :: "nat \<Rightarrow> nat \<Rightarrow> nat \<Rightarrow> sparse" where
  "sparseRepresentation mxNode mxArc n =
     \<lparr>sp_nAct = n, sp_nMax = n, sp_mAct = 0, sp_mMax = 0, sp_lAct = n, sp_lMax = n,
      sp_SN = [], sp_right = [], sp_first = replicate n NoArc, sp_left = None, sp_sub = None,
      sp_representation = attributePool_new listOfReprPars ATTR_ALLOW_NULL,
      sp_geometry = attributePool_new listOfGeometryPars ATTR_FULL_RANK,
      sp_layoutData = attributePool_new listOfLayoutPars ATTR_FULL_RANK,
      sp_registers = attributePool_new listOfRegisters ATTR_FULL_RANK,
      sp_referenced = False, sp_maxNode = mxNode, sp_maxArc = mxArc, sp_calls = []\<rparr>"

section \<open>Capacities, lengths, demands and orientations\<close>

text \<open>
  The pattern of the setters: an attribute that is missing or constant gets items only when the
  value differs from the default value. The result of \<open>InitAttribute\<close> is used without a check.
\<close>

definition repr_set :: "dims \<Rightarrow> attributePool \<Rightarrow> nat \<Rightarrow> real \<Rightarrow> nat \<Rightarrow> nat \<Rightarrow> nat \<Rightarrow> real \<Rightarrow> attributePool result" where
  "repr_set X P token dflt capacity act i v =
     (case attributePool_FindAttribute P token of
        None \<Rightarrow>
          if v = dflt then Inr P
          else rbind (attributePool_InitAttribute X P token dflt) (\<lambda>(b, P1).
                 case attributePool_FindAttribute P1 token of
                   None \<Rightarrow> Inl OutOfBounds
                 | Some A \<Rightarrow> rbind (attribute_SetValue A i v) (\<lambda>A1. Inr (attributePool_put P1 token A1)))
      | Some A \<Rightarrow>
          if attribute_Size A = 0 then
            if v = attribute_DefaultValue A then Inr P
            else rbind (attribute_SetCapacity A capacity) (\<lambda>A1.
                 rbind (attribute_IncreaseSize A1 act) (\<lambda>A2.
                 rbind (attribute_SetValue A2 i v) (\<lambda>A3. Inr (attributePool_put P token A3))))
          else rbind (attribute_SetValue A i v) (\<lambda>A1. Inr (attributePool_put P token A1)))"

definition set_arc_attribute :: "sparse \<Rightarrow> nat \<Rightarrow> real \<Rightarrow> nat \<Rightarrow> real \<Rightarrow> sparse result" where
  "set_arc_attribute S token dflt a v =
     rbind (repr_set (sp_SizeInfo S) (sp_representation S) token dflt (sp_mMax S) (sp_mAct S) (a div 2) v)
       (\<lambda>P. Inr (S\<lparr>sp_representation := P\<rparr>))"

definition set_constant :: "sparse \<Rightarrow> nat \<Rightarrow> real \<Rightarrow> real \<Rightarrow> sparse result" where
  "set_constant S token dflt v =
     (if v \<noteq> dflt
      then rbind (attributePool_MakeAttribute (sp_SizeInfo S) (sp_representation S) token ATTR_ALLOW_NULL (Some v))
             (\<lambda>(b, P). Inr (S\<lparr>sp_representation := P\<rparr>))
      else Inr (S\<lparr>sp_representation := attributePool_ReleaseAttribute (sp_representation S) token\<rparr>))"

definition sp_UCap :: "sparse \<Rightarrow> nat \<Rightarrow> real" where
  "sp_UCap S a = attributePool_GetValue (sp_representation S) TokReprUCap (a div 2) 1"

definition sp_LCap :: "sparse \<Rightarrow> nat \<Rightarrow> real" where
  "sp_LCap S a = attributePool_GetValue (sp_representation S) TokReprLCap (a div 2) 0"

definition sp_Orientation :: "sparse \<Rightarrow> nat \<Rightarrow> real" where
  "sp_Orientation S a = attributePool_GetValue (sp_representation S) TokReprOrientation (a div 2) 0"

definition sp_SetDemand :: "sparse \<Rightarrow> nat \<Rightarrow> real \<Rightarrow> sparse result" where
  "sp_SetDemand S v d =
     (if v \<ge> sp_nAct S then Inl ERRange
      else rbind (repr_set (sp_SizeInfo S) (sp_representation S) TokReprDemand 0 (sp_nMax S) (sp_nAct S) v d)
             (\<lambda>P. Inr (S\<lparr>sp_representation := P\<rparr>)))"

definition sp_SetCDemand :: "sparse \<Rightarrow> real \<Rightarrow> sparse result" where
  "sp_SetCDemand S d = set_constant S TokReprDemand 0 d"

definition sp_SetLength :: "sparse \<Rightarrow> nat \<Rightarrow> real \<Rightarrow> sparse result" where
  "sp_SetLength S a l = (if a \<ge> 2 * sp_mAct S then Inl ERRange else set_arc_attribute S TokReprLength 1 a l)"

definition sp_SetCLength :: "sparse \<Rightarrow> real \<Rightarrow> sparse result" where
  "sp_SetCLength S l = set_constant S TokReprLength 1 l"

definition sp_SetOrientation :: "sparse \<Rightarrow> nat \<Rightarrow> real \<Rightarrow> sparse result" where
  "sp_SetOrientation S a d =
     (if a \<ge> 2 * sp_mAct S then Inl ERRange
      else if d \<ge> 4 then Inl ERRange
      else set_arc_attribute S TokReprOrientation 0 a d)"

definition sp_SetCOrientation :: "sparse \<Rightarrow> real \<Rightarrow> sparse result" where
  "sp_SetCOrientation S d = (if d \<ge> 4 then Inl ERRange else set_constant S TokReprOrientation 0 d)"

section \<open>Subgraphs\<close>

definition sp_ReleaseSubgraph :: "sparse \<Rightarrow> sparse" where
  "sp_ReleaseSubgraph S = S\<lparr>sp_sub := None\<rparr>"

text \<open>The loop of \<open>NewSubgraph\<close> runs over all edges in increasing order.\<close>

definition sp_NewSubgraph :: "sparse \<Rightarrow> sparse result" where
  "sp_NewSubgraph S =
     (if sp_sub S = None then
        Inr (S\<lparr>sp_sub := Some (map (\<lambda>e. sp_LCap S (2 * e)) [0..<sp_mAct S] @ replicate (sp_mMax S - sp_mAct S) 0),
               sp_calls := rev (map (\<lambda>e. C_AdjustDegrees (2 * e) (sp_LCap S (2 * e)))
                                  (filter (\<lambda>e. sp_LCap S (2 * e) > 0) [0..<sp_mAct S])) @ sp_calls S\<rparr>)
      else Inl ERRejected)"

definition sp_Sub :: "sparse \<Rightarrow> nat \<Rightarrow> real result" where
  "sp_Sub S a =
     (if a \<ge> 2 * sp_mAct S then Inl ERRange
      else case sp_sub S of None \<Rightarrow> Inr (sp_LCap S a) | Some xs \<Rightarrow> Inr (xs ! (a div 2)))"

definition sp_with_sub :: "sparse \<Rightarrow> sparse result" where
  "sp_with_sub S = (if sp_sub S = None then sp_NewSubgraph S else Inr S)"

definition sp_SetSub :: "sparse \<Rightarrow> nat \<Rightarrow> real \<Rightarrow> sparse result" where
  "sp_SetSub S a multiplicity =
     (if a \<ge> 2 * sp_mAct S then Inl ERRange
      else rbind (sp_Sub S a) (\<lambda>thisSub.
        if thisSub > 0 \<and> \<bar>multiplicity\<bar> < sp_LCap S a
           \<or> sp_UCap S a < InfCap \<and> \<bar>multiplicity\<bar> > sp_UCap S a
        then Inl ERRejected
        else rbind (sp_with_sub S) (\<lambda>S1.
          let xs = the (sp_sub S1);
              S2 = call (C_AdjustDegrees a (multiplicity - xs ! (a div 2))) S1
          in Inr (S2\<lparr>sp_sub := Some (xs[a div 2 := multiplicity])\<rparr>))))"

definition sp_SetSubRelative :: "sparse \<Rightarrow> nat \<Rightarrow> real \<Rightarrow> sparse result" where
  "sp_SetSubRelative S a lambda =
     (if a \<ge> 2 * sp_mAct S then Inl ERRange
      else rbind (sp_Sub S a) (\<lambda>thisSub.
        if thisSub > 0 \<and> \<bar>thisSub + lambda\<bar> < sp_LCap S a
           \<or> sp_UCap S a < InfCap \<and> \<bar>thisSub + lambda\<bar> > sp_UCap S a
        then Inl ERRejected
        else rbind (sp_with_sub S) (\<lambda>S1.
          let xs = the (sp_sub S1)
          in Inr (call (C_AdjustDegrees a lambda) (S1\<lparr>sp_sub := Some (xs[a div 2 := xs ! (a div 2) + lambda])\<rparr>)))))"

definition sp_SetUCap :: "sparse \<Rightarrow> nat \<Rightarrow> real \<Rightarrow> sparse result" where
  "sp_SetUCap S a ucap =
     (if a \<ge> 2 * sp_mAct S then Inl ERRange
      else if ucap < 0 then Inl ERRange
      else rbind (sp_Sub S a) (\<lambda>thisSub.
        rbind (if thisSub > ucap then sp_SetSub S a ucap else Inr S) (\<lambda>S1.
          set_arc_attribute S1 TokReprUCap 1 a ucap)))"

definition sp_SetCUCap :: "sparse \<Rightarrow> real \<Rightarrow> sparse result" where
  "sp_SetCUCap S ucap =
     (if ucap < 0 then Inl ERRange else set_constant (sp_ReleaseSubgraph S) TokReprUCap 1 ucap)"

definition sp_SetLCap :: "sparse \<Rightarrow> nat \<Rightarrow> real \<Rightarrow> sparse result" where
  "sp_SetLCap S a lcap =
     (if a \<ge> 2 * sp_mAct S then Inl ERRange
      else if lcap < 0 then Inl ERRange
      else rbind (sp_Sub S a) (\<lambda>thisSub.
        rbind (if \<bar>thisSub\<bar> < lcap then sp_SetSub S a (if thisSub \<ge> 0 then lcap else - lcap) else Inr S) (\<lambda>S1.
          set_arc_attribute S1 TokReprLCap 0 a lcap)))"

definition sp_SetCLCap :: "sparse \<Rightarrow> real \<Rightarrow> sparse result" where
  "sp_SetCLCap S lcap =
     (if lcap < 0 then Inl ERRange else set_constant (sp_ReleaseSubgraph S) TokReprLCap 0 lcap)"

section \<open>Coordinates\<close>

definition sp_C :: "sparse \<Rightarrow> nat \<Rightarrow> nat \<Rightarrow> real" where
  "sp_C S v i = attributePool_GetValue (sp_geometry S) (TokGeoAxis0 + i) v 0"

definition sp_SetC :: "sparse \<Rightarrow> nat \<Rightarrow> nat \<Rightarrow> real \<Rightarrow> sparse result" where
  "sp_SetC S v i pos =
     (if v \<ge> sp_lAct S then Inl ERRange
      else if i > 2 then Inr S
      else rbind (if attributePool_FindAttribute (sp_geometry S) (TokGeoAxis0 + i) = None \<and> pos \<noteq> 0
                  then attributePool_InitAttribute (sp_SizeInfo S) (sp_geometry S) (TokGeoAxis0 + i) 0
                  else Inr (True, sp_geometry S)) (\<lambda>(b, P).
        case attributePool_FindAttribute P (TokGeoAxis0 + i) of
          None \<Rightarrow> Inr (S\<lparr>sp_geometry := P\<rparr>)
        | Some A \<Rightarrow> rbind (attribute_SetValue A v pos)
            (\<lambda>A1. Inr (S\<lparr>sp_geometry := attributePool_put P (TokGeoAxis0 + i) A1\<rparr>))))"

definition sp_ReleaseCoordinate :: "sparse \<Rightarrow> nat \<Rightarrow> sparse result" where
  "sp_ReleaseCoordinate S i =
     (if i > 2 then Inl ERRange
      else Inr (S\<lparr>sp_geometry := attributePool_ReleaseAttribute (sp_geometry S) (TokGeoAxis0 + i)\<rparr>))"

section \<open>Invariant of the pools\<close>

text \<open>
  Algorithms write into the arrays of the registers directly, which leaves the cached bounds of
  the attribute as they are. The registers therefore keep the ranks of the pool invariant only.
\<close>

definition raw_inv :: "dims \<Rightarrow> attributePool \<Rightarrow> bool" where
  "raw_inv X P \<longleftrightarrow> pool_table (ap_table P) \<and> dims_ok X \<and> distinct (map fst (ap_attributes P))
     \<and> (\<forall>(t, A) \<in> set (ap_attributes P). t < length (ap_table P) \<and> primaryIndex (ap_table P ! t) = t
          \<and> (attribute_Size A = 0 \<or> attribute_Size A = X (arrayDim (ap_table P ! t)) SIZE_ACTUAL))"

lemma raw_invI: "ap_inv X P \<Longrightarrow> raw_inv X P"
  by (auto simp: raw_inv_def ap_inv_def ap_entry_ok_def)

lemma raw_AppendItems:
  assumes inv: "raw_inv X P" and X': "resized X d (X d SIZE_ACTUAL + k) X'"
  obtains P' where "attributePool_AppendItems P d k = Inr P'" "raw_inv X' P'" "ap_table P' = ap_table P"
proof -
  let ?f = "\<lambda>A :: real attr. Inr (attribute_AppendItems A k) :: real attr result"
  obtain as' where as': "ap_each ?f (ap_table P) d (ap_attributes P) = Inr as'"
    using ap_each_returns [of "ap_attributes P" "ap_table P" d ?f] by auto
  then have all2: "list_all2 (ap_at ?f (ap_table P) d) (ap_attributes P) as'" by (simp add: ap_each_Inr_iff)
  let ?P' = "P\<lparr>ap_attributes := as'\<rparr>"
  have "t < length (ap_table P) \<and> primaryIndex (ap_table P ! t) = t
    \<and> (attribute_Size A' = 0 \<or> attribute_Size A' = X' (arrayDim (ap_table P ! t)) SIZE_ACTUAL)" if mem: "(t, A') \<in> set as'" for t A'
  proof -
    obtain A where A: "(t, A) \<in> set (ap_attributes P)"
      "if arrayDim (ap_table P ! t) = d then A' = attribute_AppendItems A k else A' = A"
      using list_all2_ap_at_set [OF all2 mem] by (fastforce simp: ap_at_def split: if_splits)
    then have ok: "t < length (ap_table P)" "primaryIndex (ap_table P ! t) = t"
      "attribute_Size A = 0 \<or> attribute_Size A = X (arrayDim (ap_table P ! t)) SIZE_ACTUAL" using inv by (auto simp: raw_inv_def)
    show ?thesis
    proof (cases "arrayDim (ap_table P ! t) = d")
      case True
      have "attribute_Size (attribute_AppendItems A k) = (if attribute_Size A = 0 then 0 else attribute_Size A + k)"
        by (simp add: attribute_AppendItems_def attribute_Size_def Let_def)
      then show ?thesis using True A(2) ok X' by (auto simp: resized_def)
    next
      case False
      then show ?thesis using A(2) ok X' by (simp add: resized_def)
    qed
  qed
  then have "raw_inv X' ?P'"
    using inv X' list_all2_ap_at_fst [OF all2] by (auto simp: raw_inv_def resized_def)
  then show thesis
    by (rule that [rotated]) (simp_all add: attributePool_AppendItems_def ap_forall_def as')
qed

lemma raw_put:
  assumes inv: "raw_inv X P" and A: "attributePool_FindAttribute P t = Some A" "attribute_Size B = attribute_Size A"
  shows "raw_inv X (attributePool_put P t B)"
proof -
  have "(primary P t, A) \<in> set (ap_attributes P)"
    using A(1) by (auto simp: attributePool_FindAttribute_def ap_search_map_of dest: map_of_SomeD)
  then show ?thesis
    using inv A(2) set_put [of "primary P t" B "ap_attributes P"] by (fastforce simp: raw_inv_def attributePool_put_def)
qed

definition pools_ok :: "sparse \<Rightarrow> bool" where
  "pools_ok S \<longleftrightarrow> ap_inv (sp_SizeInfo S) (sp_representation S) \<and> ap_table (sp_representation S) = listOfReprPars
     \<and> ap_inv (sp_SizeInfo S) (sp_geometry S) \<and> ap_table (sp_geometry S) = listOfGeometryPars
     \<and> ap_inv (sp_SizeInfo S) (sp_layoutData S) \<and> ap_table (sp_layoutData S) = listOfLayoutPars
     \<and> raw_inv (sp_SizeInfo S) (sp_registers S) \<and> ap_table (sp_registers S) = listOfRegisters"

definition sub_ok :: "sparse \<Rightarrow> bool" where
  "sub_ok S \<longleftrightarrow> (\<forall>xs. sp_sub S = Some xs \<longrightarrow> length xs = sp_mMax S)"

lemma put_Find:
  assumes "ap_inv X P" "t < length (ap_table P)" "s < length (ap_table P)" "attributePool_FindAttribute P s \<noteq> None"
  shows "attributePool_FindAttribute (attributePool_put P s B) t
    = (if primary P t = primary P s then Some B else attributePool_FindAttribute P t)"
  using assms by (simp add: attributePool_FindAttribute_def attributePool_put_def primary_def search_put)

lemma put_table [simp]: "ap_table (attributePool_put P t A) = ap_table P"
  by (simp add: attributePool_put_def)

lemma put_GetValue:
  assumes "ap_inv X P" "t < length (ap_table P)" "s < length (ap_table P)" "attributePool_FindAttribute P s \<noteq> None"
  shows "attributePool_GetValue (attributePool_put P s B) t k w
    = (if primary P t = primary P s then attribute_GetValue B k else attributePool_GetValue P t k w)"
  using put_Find [OF assms] by (simp add: attributePool_GetValue_def)

lemma SetValue_GetValue:
  assumes "i < attribute_Size A"
  obtains A' where "attribute_SetValue A i v = Inr A'" "attribute_Size A' = attribute_Size A"
    "\<And>k. attribute_GetValue A' k = (if k = i then v else attribute_GetValue A k)"
proof -
  obtain A' where A': "attribute_SetValue A i v = Inr A'" "at_data A' = (at_data A)[i := v]"
    "at_defaultValue A' = at_defaultValue A" using attribute_SetValue_in_range [OF assms] .
  show ?thesis
    by (rule that [OF A'(1)]) (use A' assms in \<open>auto simp: attribute_GetValue_def attribute_Size_def nth_list_update\<close>)
qed

text \<open>Writing through the pointer to an attribute of full rank.\<close>

lemma put_SetValue_ok:
  assumes inv: "ap_inv X P" and t: "t < length (ap_table P)" and A: "at_inv A" "attribute_Size A = X (arrayDim (ap_table P ! t)) SIZE_ACTUAL"
    and i: "i < attribute_Size A" and some: "attributePool_FindAttribute P t \<noteq> None"
  obtains A' where "attribute_SetValue A i v = Inr A'" "ap_inv X (attributePool_put P t A')"
    "\<And>s k w. s < length (ap_table P) \<Longrightarrow> attributePool_GetValue (attributePool_put P t A') s k w =
       (if primary P s = primary P t then (if k = i then v else attribute_GetValue A k) else attributePool_GetValue P s k w)"
proof -
  obtain A' where A': "attribute_SetValue A i v = Inr A'" "attribute_Size A' = attribute_Size A"
    "\<And>k. attribute_GetValue A' k = (if k = i then v else attribute_GetValue A k)"
    using SetValue_GetValue [OF i] by blast
  show ?thesis
  proof (rule that [OF A'(1)])
    show "ap_inv X (attributePool_put P t A')"
      using ap_put_inv [OF inv t at_inv_SetValue [OF A(1) A'(1)]] A'(2) A(2) by simp
  qed (use put_GetValue [OF inv _ t some] A'(3) in simp)
qed

lemma InitAttribute_new:
  assumes inv: "ap_inv X P" and t: "t < length (ap_table P)" and none: "attributePool_FindAttribute P t = None"
    and i: "0 < X (arrayDim (ap_table P ! t)) SIZE_ACTUAL"
  obtains P' where "attributePool_InitAttribute X P t v = Inr (True, P')" "ap_inv X P'" "ap_table P' = ap_table P"
    "attributePool_FindAttribute P' t = Some (attribute (X (arrayDim (ap_table P ! t)) SIZE_ACTUAL) v)"
    "\<And>s k w. s < length (ap_table P) \<Longrightarrow> primary P s \<noteq> primary P t \<Longrightarrow>
       attributePool_GetValue P' s k w = attributePool_GetValue P s k w"
proof -
  let ?n = "X (arrayDim (ap_table P ! t)) SIZE_ACTUAL"
  let ?P' = "P\<lparr>ap_attributes := (primary P t, attribute ?n v) # ap_attributes P\<rparr>"
  note prim = FindAttribute_primary [OF inv t]
  have X: "?n \<le> X (arrayDim (ap_table P ! t)) SIZE_RESERVED" "?n \<le> NoIndex"
    using ap_inv_dims [OF inv] by (simp_all add: dims_ok_def)
  have r: "attributePool_MakeAttribute X P t ATTR_FULL_RANK (Some v) = Inr (True, ?P')"
    using none i X by (simp add: attributePool_MakeAttribute_def prim Let_def attribute_SetCapacity_def attribute_sizes)
  have "attributePool_InitAttribute X P t v = Inr (True, ?P')" using r none by (simp add: attributePool_InitAttribute_def)
  moreover have "ap_inv X ?P'" using ap_inv_MakeAttribute [OF inv _ r] t by (simp add: make_ok_def)
  moreover have "attributePool_FindAttribute ?P' t = Some (attribute ?n v)"
    by (simp add: attributePool_FindAttribute_def primary_def)
  moreover have "attributePool_GetValue ?P' s k w = attributePool_GetValue P s k w" if "primary P s \<noteq> primary P t" for s k w
    using that by (simp add: attributePool_GetValue_def attributePool_FindAttribute_def primary_def)
  ultimately show ?thesis using that by simp
qed

lemma repr_set_ok:
  assumes inv: "ap_inv X P" and t: "t < length (ap_table P)" and d: "d = arrayDim (ap_table P ! t)"
    and cap: "capacity = X d SIZE_RESERVED" "act = X d SIZE_ACTUAL" and i: "i < act"
  obtains P' where "repr_set X P t dflt capacity act i v = Inr P'" "ap_inv X P'" "ap_table P' = ap_table P"
    "\<And>s k. s < length (ap_table P) \<Longrightarrow> primary P s = primary P t \<Longrightarrow>
       attributePool_GetValue P' s k dflt = (if k = i then v else attributePool_GetValue P s k dflt)"
    "\<And>s k w. s < length (ap_table P) \<Longrightarrow> primary P s \<noteq> primary P t \<Longrightarrow>
       attributePool_GetValue P' s k w = attributePool_GetValue P s k w"
proof (cases "attributePool_FindAttribute P t")
  case None
  have same: "attributePool_GetValue P s k dflt = dflt" if "primary P s = primary P t" for s k
    using None that by (simp add: attributePool_GetValue_def attributePool_FindAttribute_def)
  show thesis
  proof (cases "v = dflt")
    case True
    then show thesis using None inv same by (intro that) (auto simp: repr_set_def)
  next
    case False
    obtain P1 where P1: "attributePool_InitAttribute X P t dflt = Inr (True, P1)" "ap_inv X P1" "ap_table P1 = ap_table P"
      "attributePool_FindAttribute P1 t = Some (attribute act dflt)"
      "\<And>s k w. s < length (ap_table P) \<Longrightarrow> primary P s \<noteq> primary P t \<Longrightarrow>
         attributePool_GetValue P1 s k w = attributePool_GetValue P s k w"
      using InitAttribute_new [OF inv t None, of dflt] i cap d by auto
    have prim: "primary P1 = primary P" using P1(3) by (simp add: primary_def fun_eq_iff)
    have lt: "act \<le> NoIndex" using ap_inv_dims [OF inv] cap by (simp add: dims_ok_def)
    obtain A' where A': "attribute_SetValue (attribute act dflt) i v = Inr A'" "ap_inv X (attributePool_put P1 t A')"
      "\<And>s k w. s < length (ap_table P1) \<Longrightarrow> attributePool_GetValue (attributePool_put P1 t A') s k w =
       (if primary P1 s = primary P1 t then (if k = i then v else attribute_GetValue (attribute act dflt) k)
        else attributePool_GetValue P1 s k w)"
      using put_SetValue_ok [OF P1(2), of t "attribute act dflt" i v] t P1(3,4) i cap d lt
      by (auto simp: attribute_sizes at_inv_new)
    have g: "attribute_GetValue (attribute act dflt) k = dflt" for k
      by (simp add: attribute_GetValue_def attribute_Size_def attribute_def)
    show thesis
    proof (rule that [of "attributePool_put P1 t A'"])
      show "repr_set X P t dflt capacity act i v = Inr (attributePool_put P1 t A')"
        using None False P1 A' by (simp add: repr_set_def)
    qed (use A' P1 same g in \<open>simp_all add: prim\<close>)
  qed
next
  case (Some A)
  note A = FindAttribute_ok [OF inv t Some]
  have gv: "attributePool_GetValue P s k w = attribute_GetValue A k" if "primary P s = primary P t" for s k w
    using Some that by (simp add: attributePool_GetValue_def attributePool_FindAttribute_def)
  show thesis
  proof (cases "attribute_Size A = 0")
    case True
    have gA: "attribute_GetValue A k = attribute_DefaultValue A" for k
      using True by (simp add: attribute_GetValue_def attribute_DefaultValue_def)
    show thesis
    proof (cases "v = attribute_DefaultValue A")
      case eq: True
      then show thesis using Some True inv gv gA by (intro that [of P]) (auto simp: repr_set_def)
    next
      case False
      have lt: "act \<le> NoIndex" "act \<le> capacity" using ap_inv_dims [OF inv] cap by (simp_all add: dims_ok_def)
      obtain A1 where A1: "attribute_IncreaseSize A act = Inr A1" "at_data A1 = replicate act (at_defaultValue A)"
        "at_defaultValue A1 = at_defaultValue A"
        using True i by (auto simp: attribute_IncreaseSize_def attribute_Size_def)
      have gA1: "attribute_GetValue A1 k = attribute_GetValue A k" for k
        using A1(2,3) True by (simp add: attribute_GetValue_def attribute_Size_def)
      have "at_inv A1" using at_inv_IncreaseSize_empty [OF A(1) True lt(1) A1(1)] .
      then obtain A' where A': "attribute_SetValue A1 i v = Inr A'" "ap_inv X (attributePool_put P t A')"
        "\<And>s k w. s < length (ap_table P) \<Longrightarrow> attributePool_GetValue (attributePool_put P t A') s k w =
         (if primary P s = primary P t then (if k = i then v else attribute_GetValue A1 k) else attributePool_GetValue P s k w)"
        using put_SetValue_ok [OF inv t, of A1 i v] A1(2) i cap d Some by (auto simp: attribute_Size_def)
      show thesis
      proof (rule that [of "attributePool_put P t A'"])
        show "repr_set X P t dflt capacity act i v = Inr (attributePool_put P t A')"
          using Some True False A1(1) A'(1) lt by (simp add: repr_set_def attribute_SetCapacity_def)
      qed (use A' gv gA1 in simp_all)
    qed
  next
    case False
    then have sz: "attribute_Size A = act" using A(2) cap d by simp
    obtain A' where A': "attribute_SetValue A i v = Inr A'" "ap_inv X (attributePool_put P t A')"
      "\<And>s k w. s < length (ap_table P) \<Longrightarrow> attributePool_GetValue (attributePool_put P t A') s k w =
       (if primary P s = primary P t then (if k = i then v else attribute_GetValue A k) else attributePool_GetValue P s k w)"
      using put_SetValue_ok [OF inv t A(1), of i v] sz i cap d Some by auto
    show thesis
    proof (rule that [of "attributePool_put P t A'"])
      show "repr_set X P t dflt capacity act i v = Inr (attributePool_put P t A')"
        using Some False A'(1) by (simp add: repr_set_def)
    qed (use A' gv in simp_all)
  qed
qed

end
