(* ===== verification/Sparse_Repr.thy ===== *)
theory Sparse_Repr
  imports Graph_Repr
begin

text \<open>
  The incidence lists of \<^verbatim>\<open>lib_src/sparseRepresentation.cpp\<close>: every edge has two arcs, and the
  arcs with a common start node form a ring over the array \<open>right\<close>, entered at \<open>first\<close>. The array
  \<open>left\<close> of predecessors is generated on demand. Cancelled arcs have the start node \<open>NoNode\<close>.
  Loops that follow the arrays are partial: their result is \<open>None\<close> where they do not return.
\<close>

section \<open>Queries\<close>

definition sp_StartNode :: "sparse \<Rightarrow> nat \<Rightarrow> nat result" where
  "sp_StartNode S a = (if a \<ge> 2 * sp_mAct S then Inl ERRange else Inr (sp_SN S ! a))"

definition sp_EndNode :: "sparse \<Rightarrow> nat \<Rightarrow> nat result" where
  "sp_EndNode S a = (if a \<ge> 2 * sp_mAct S then Inl ERRange else Inr (sp_SN S ! flip a))"

definition sp_First :: "sparse \<Rightarrow> nat \<Rightarrow> nat result" where
  "sp_First S v = (if v \<ge> sp_nAct S then Inl ERRange else Inr (sp_first S ! v))"

definition sp_Right :: "sparse \<Rightarrow> nat \<Rightarrow> nat result" where
  "sp_Right S a = (if a \<ge> 2 * sp_mAct S then Inl ERRange else Inr (sp_right S ! a))"

text \<open>The generation of the array \<open>left\<close>: the loop over all arcs, from \<open>a\<close> on.\<close>

fun left_loop :: "nat list \<Rightarrow> nat list \<Rightarrow> nat list \<Rightarrow> nat list result" where
  "left_loop right [] l = Inr l"
| "left_loop right (a # as) l =
     (if right ! a \<noteq> NoArc
      then if l ! (right ! a) = NoArc then left_loop right as (l[right ! a := a]) else Inl ERInternal
      else left_loop right as l)"

definition sp_gen_left :: "sparse \<Rightarrow> sparse result" where
  "sp_gen_left S =
     (case sp_left S of
        Some l \<Rightarrow> Inr S
      | None \<Rightarrow> rbind (left_loop (sp_right S) [0..<2 * sp_mAct S] (replicate (2 * sp_mMax S) NoArc))
                  (\<lambda>l. Inr (S\<lparr>sp_left := Some l\<rparr>)))"

definition sp_Left :: "sparse \<Rightarrow> nat \<Rightarrow> (nat \<times> sparse) result" where
  "sp_Left S ac =
     (if ac \<ge> 2 * sp_mAct S then Inl ERRange
      else rbind (sp_gen_left S) (\<lambda>S1. Inr (the (sp_left S1) ! ac, S1)))"

definition sp_ReleaseReverseIncidences :: "sparse \<Rightarrow> sparse" where
  "sp_ReleaseReverseIncidences S = S\<lparr>sp_left := None\<rparr>"

section \<open>Routing\<close>

text \<open>The block of \<open>SetRouting\<close> that puts the arc \<open>a\<close> into the ring of node \<open>u\<close>.\<close>

definition sp_enlist :: "nat \<Rightarrow> nat \<Rightarrow> sparse \<Rightarrow> sparse" where
  "sp_enlist u a S =
     (let f = sp_first S ! u
      in if f = NoArc
         then S\<lparr>sp_first := (sp_first S)[u := a], sp_right := (sp_right S)[a := a],
                sp_left := map_option (\<lambda>l. l[a := a]) (sp_left S)\<rparr>
         else S\<lparr>sp_left := map_option (\<lambda>l. l[sp_right S ! f := a, a := f]) (sp_left S),
                sp_right := (sp_right S)[a := sp_right S ! f, f := a],
                sp_first := (sp_first S)[u := a]\<rparr>)"

definition sp_SetRouting :: "sparse \<Rightarrow> nat \<Rightarrow> nat \<Rightarrow> nat \<Rightarrow> sparse" where
  "sp_SetRouting S af u v =
     sp_enlist v (flip af) (sp_enlist u af (S\<lparr>sp_SN := (sp_SN S)[af := u, flip af := v]\<rparr>))"

definition sp_SetFirst :: "sparse \<Rightarrow> nat \<Rightarrow> nat \<Rightarrow> sparse result" where
  "sp_SetFirst S v a =
     (if v \<ge> sp_nAct S then Inl ERRange
      else if a \<ge> length (sp_SN S) then Inl OutOfBounds
      else if sp_SN S ! a \<noteq> v then Inl ERRejected
      else Inr (S\<lparr>sp_first := (sp_first S)[v := a]\<rparr>))"

definition sp_SetRight :: "sparse \<Rightarrow> nat \<Rightarrow> nat \<Rightarrow> nat \<Rightarrow> sparse result" where
  "sp_SetRight S a1 a2 a3x =
     (if a1 = a2 then Inr S
      else let a3 = (if a3x = NoArc then a2 else a3x)
      in if a1 \<ge> 2 * sp_mAct S \<or> a2 \<ge> 2 * sp_mAct S \<or> a3 \<ge> 2 * sp_mAct S then Inl ERRange
      else if sp_SN S ! a1 \<noteq> sp_SN S ! a2 \<or> sp_SN S ! a1 \<noteq> sp_SN S ! a3 then Inl ERRejected
      else rbind (sp_Left S a2) (\<lambda>(a2l, S1).
        let a1r = sp_right S1 ! a1; a3r = sp_right S1 ! a3
        in if a1r = a2 then Inr S1
           else Inr (S1\<lparr>sp_right := (sp_right S1)[a1 := a2, a3 := a1r, a2l := a3r],
                        sp_left := map_option (\<lambda>l. l[a2 := a1, a1r := a3, a3r := a2l]) (sp_left S1)\<rparr>)))"

definition sp_ReorderIncidences :: "sparse \<Rightarrow> nat list \<Rightarrow> bool \<Rightarrow> sparse" where
  "sp_ReorderIncidences S predArc nodeOriented =
     foldl (\<lambda>S a. let a2 = (if nodeOriented then predArc ! a else flip (predArc ! a))
                  in S\<lparr>sp_right := (sp_right S)[a := a2], sp_left := map_option (\<lambda>l. l[a2 := a]) (sp_left S)\<rparr>)
       S [0..<2 * sp_mAct S]"

section \<open>Insertion\<close>

text \<open>The non-buffered enlargement of the arrays by one edge.\<close>

definition sp_grow_arcs :: "sparse \<Rightarrow> sparse" where
  "sp_grow_arcs S =
     (if sp_mMax S + 1 = sp_mAct S
      then S\<lparr>sp_SN := sp_SN S @ [NoNode, NoNode], sp_right := sp_right S @ [NoArc, NoArc],
             sp_left := map_option (\<lambda>l. l @ [NoArc, NoArc]) (sp_left S),
             sp_sub := map_option (\<lambda>xs. xs @ [0]) (sp_sub S), sp_mMax := sp_mMax S + 1\<rparr>
      else S)"

definition sp_append :: "sparse \<Rightarrow> TArrayDim \<Rightarrow> nat \<Rightarrow> sparse result" where
  "sp_append S d k =
     rbind (attributePool_AppendItems (sp_representation S) d k) (\<lambda>P.
     rbind (attributePool_AppendItems (sp_registers S) d k) (\<lambda>R.
     rbind (attributePool_AppendItems (sp_layoutData S) d k) (\<lambda>L.
       Inr (S\<lparr>sp_representation := P, sp_registers := R, sp_layoutData := L\<rparr>))))"

definition sp_InsertArc :: "sparse \<Rightarrow> nat \<Rightarrow> nat \<Rightarrow> real \<Rightarrow> real \<Rightarrow> real \<Rightarrow> (nat \<times> sparse) result" where
  "sp_InsertArc S u v ucap len lcap =
     (let S = call C_ReleaseInvestigators S
      in if sp_referenced S then Inl ERRejected
      else if u \<ge> sp_nAct S then Inl ERRange
      else if v \<ge> sp_nAct S then Inl ERRange
      else if 2 * sp_mMax S > sp_maxArc S - 2 then Inl ERRejected
      else
        let S = call C_ReleaseEmbedding S;
            S = sp_grow_arcs (S\<lparr>sp_mAct := sp_mAct S + 1\<rparr>);
            a = sp_mAct S - 1;
            S = sp_SetRouting S (2 * a) u v;
            S = (case sp_sub S of
                   None \<Rightarrow> S
                 | Some xs \<Rightarrow> let S = S\<lparr>sp_sub := Some (xs[a := lcap])\<rparr>
                              in if lcap > 0 then call C_ReleaseDegrees S else S)
        in rbind (sp_append S DIM_GRAPH_ARCS 1) (\<lambda>S.
           rbind (sp_append S DIM_ARCS_TWICE 2) (\<lambda>S.
           rbind (sp_SetLength S (2 * a) len) (\<lambda>S.
           rbind (sp_SetUCap S (2 * a) ucap) (\<lambda>S.
           rbind (sp_SetLCap S (2 * a) lcap) (\<lambda>S.
             Inr (a, call (C_MarkAdjacency u v (2 * a)) S)))))))"

section \<open>Cancellation\<close>

definition TokLayoutExteriorArc :: nat where "TokLayoutExteriorArc = 7"

definition sp_SetExteriorArc :: "sparse \<Rightarrow> nat \<Rightarrow> sparse result" where
  "sp_SetExteriorArc S a =
     (if a \<ge> 2 * sp_mAct S \<and> a \<noteq> NoArc then Inl ERRange
      else if a = NoArc
      then Inr (S\<lparr>sp_layoutData := attributePool_ReleaseAttribute (sp_layoutData S) TokLayoutExteriorArc\<rparr>)
      else rbind (attributePool_InitAttribute (sp_SizeInfo S) (sp_layoutData S) TokLayoutExteriorArc (real a))
             (\<lambda>(b, P). Inr (S\<lparr>sp_layoutData := P\<rparr>)))"

fun sp_set_firsts :: "nat list \<Rightarrow> sparse \<Rightarrow> sparse result" where
  "sp_set_firsts [] S = Inr S"
| "sp_set_firsts (a # as) S = rbind (sp_SetFirst S (sp_SN S ! flip a) (flip a)) (sp_set_firsts as)"

text \<open>
  \<open>MarkExteriorFace\<close> travels around the face on the left of an arc. The walk depends on \<open>right\<close>
  only, which \<open>SetFirst\<close> does not change.
\<close>

definition sp_MarkExteriorFace :: "sparse \<Rightarrow> nat \<Rightarrow> sparse result option" where
  "sp_MarkExteriorFace S a =
     (if a \<ge> 2 * sp_mAct S \<and> a \<noteq> NoArc then Some (Inl ERRange)
      else case sp_SetExteriorArc S a of
          Inl e \<Rightarrow> Some (Inl e)
        | Inr S1 \<Rightarrow>
            if a = NoArc then Some (Inr S1)
            else map_option (\<lambda>as. sp_set_firsts as S1) (arc_ring (\<lambda>b. sp_right S1 ! flip b) a a))"

definition sp_Pred :: "sparse \<Rightarrow> nat \<Rightarrow> real" where
  "sp_Pred S v =
     (case attributePool_GetArray (sp_registers S) TokRegPredecessor of None \<Rightarrow> real NoArc | Some xs \<Rightarrow> xs ! v)"

text \<open>\<open>SetPred(v,NoArc)\<close> writes into the exported array, the bounds of the attribute stay as they are.\<close>

definition sp_clear_pred :: "sparse \<Rightarrow> nat \<Rightarrow> sparse" where
  "sp_clear_pred S v =
     (case attributePool_FindAttribute (sp_registers S) TokRegPredecessor of
        Some A \<Rightarrow> if attribute_Size A = 0 then S
          else S\<lparr>sp_registers := attributePool_put (sp_registers S) TokRegPredecessor
                  (A\<lparr>at_data := (at_data A)[v := real NoArc]\<rparr>)\<rparr>
      | None \<Rightarrow> S)"

text \<open>
  One half of \<open>CancelArc\<close>: the arc \<open>ad\<close> leaves its ring, \<open>al\<close> being its predecessor.
\<close>

definition sp_unlist :: "nat \<Rightarrow> nat \<Rightarrow> sparse \<Rightarrow> sparse" where
  "sp_unlist ad al S =
     (let ar = sp_right S ! ad; u = sp_SN S ! ad;
          S = (if ad \<noteq> ar
               then S\<lparr>sp_right := (sp_right S)[al := ar], sp_left := map_option (\<lambda>l. l[ar := al]) (sp_left S),
                      sp_first := (if sp_first S ! u = ad then (sp_first S)[u := al] else sp_first S)\<rparr>
               else S\<lparr>sp_first := (sp_first S)[u := NoArc]\<rparr>)
      in S\<lparr>sp_SN := (sp_SN S)[ad := NoNode], sp_right := (sp_right S)[ad := NoArc],
            sp_left := map_option (\<lambda>l. l[ad := NoArc]) (sp_left S)\<rparr>)"

text \<open>
  The test \<open>aExtNew!=ad^1\<close> of \<open>CancelArc\<close> is \<open>(aExtNew!=ad)^1\<close> in C++, that is
  \<open>aExtNew==ad\<close>. The degrees are adjusted by \<open>sub[ad]\<close>, with the arc index \<open>ad\<close> in an array
  over edges.
\<close>

definition sp_CancelArc :: "sparse \<Rightarrow> nat \<Rightarrow> sparse result option" where
  "sp_CancelArc S a =
     (if a \<ge> 2 * sp_mAct S then Some (Inl ERRange)
      else if sp_SN S ! a = NoNode then Some (Inl ERRange)
      else
        let u = sp_SN S ! a; v = sp_SN S ! flip a;
            S = call C_ReleaseEmbedding (call (C_MarkAdjacency u v NoArc) S);
            aExtNew = sp_right S ! flip a
        in case (if aExtNew = a then sp_MarkExteriorFace S aExtNew else Some (sp_SetExteriorArc S NoArc)) of
             None \<Rightarrow> None
           | Some r \<Rightarrow> Some (rbind r (\<lambda>S.
               let S = (if sp_Pred S v = real a then sp_clear_pred S v else S);
                   S = (if sp_Pred S u = real (flip a) then sp_clear_pred S u else S)
               in rbind (case sp_sub S of
                           None \<Rightarrow> Inr S
                         | Some xs \<Rightarrow> if a \<ge> length xs then Inl OutOfBounds
                                      else Inr (call (C_AdjustDegrees (2 * (a div 2) + 1) (xs ! a)) S))
                    (\<lambda>S. rbind (sp_Left S a) (\<lambda>(al, S).
                       let S = sp_unlist a al S
                       in Inr (sp_unlist (flip a) (the (sp_left S) ! flip a) S))))))"

partial_function (option) sp_cancel_all :: "sparse \<Rightarrow> nat \<Rightarrow> sparse result option" where
  "sp_cancel_all S v =
     (if sp_first S ! v = NoArc then Some (Inr S)
      else Option.bind (sp_CancelArc S (sp_first S ! v))
             (\<lambda>r. case r of Inl e \<Rightarrow> Some (Inl e) | Inr S1 \<Rightarrow> sp_cancel_all S1 v))"

definition sp_CancelNode :: "sparse \<Rightarrow> nat \<Rightarrow> sparse result option" where
  "sp_CancelNode S v =
     (if v \<ge> sp_nAct S then Some (Inl ERRange)
      else map_option (\<lambda>r. rbind r (\<lambda>S1. sp_SetC S1 v 0 (- InfFloat))) (sp_cancel_all S v))"

definition sp_RouteArc :: "sparse \<Rightarrow> nat \<Rightarrow> nat \<Rightarrow> nat \<Rightarrow> sparse result option" where
  "sp_RouteArc S a u v =
     (if a \<ge> 2 * sp_mAct S then Some (Inl ERRange)
      else if u \<ge> sp_nAct S then Some (Inl ERRange)
      else if v \<ge> sp_nAct S then Some (Inl ERRange)
      else if sp_SN S ! a = u \<and> sp_SN S ! flip a = v then Some (Inr S)
      else map_option (\<lambda>r. rbind r (\<lambda>S. Inr (call (C_MarkAdjacency u v a) (sp_SetRouting S a u v))))
             (if sp_SN S ! a \<noteq> NoNode \<or> sp_SN S ! flip a \<noteq> NoNode
              then sp_CancelArc (call C_ReleaseInvestigators (call C_ReleaseEmbedding S)) a
              else Some (Inr S)))"

section \<open>Identification of nodes\<close>

definition sp_IdentifyNodes :: "sparse \<Rightarrow> nat \<Rightarrow> nat \<Rightarrow> sparse result option" where
  "sp_IdentifyNodes S u v =
     (if u \<ge> sp_nAct S then Some (Inl ERRange)
      else if v \<ge> sp_nAct S then Some (Inl ERRange)
      else
        let a1 = sp_first S ! u; a2 = sp_first S ! v
        in if a2 \<ge> length (sp_right S) then Some (Inl OutOfBounds)
        else map_option (\<lambda>as.
          if a1 \<ge> length (sp_right S) then Inl OutOfBounds
          else
            let a = last as;
                S = S\<lparr>sp_SN := foldl (\<lambda>xs b. xs[b := u]) (sp_SN S) as\<rparr>;
                r1 = sp_right S ! a1;
                S = S\<lparr>sp_right := (sp_right S)[a := r1], sp_left := map_option (\<lambda>l. l[r1 := a]) (sp_left S)\<rparr>;
                S = S\<lparr>sp_right := (sp_right S)[a1 := a2], sp_left := map_option (\<lambda>l. l[a2 := a1]) (sp_left S)\<rparr>;
                S = S\<lparr>sp_first := (sp_first S)[v := NoArc]\<rparr>
            in sp_SetC S v 0 (- InfFloat))
          (arc_ring ((!) (sp_right S)) a2 a2))"

section \<open>Invariant of the incidence lists\<close>

text \<open>
  Inside an operation some arcs (the set \<open>D\<close>) may have a start node already without being
  members of its ring.
\<close>

definition sp_shape :: "sparse \<Rightarrow> bool" where
  "sp_shape S \<longleftrightarrow> length (sp_SN S) = 2 * sp_mMax S \<and> length (sp_right S) = 2 * sp_mMax S
     \<and> length (sp_first S) = sp_nMax S \<and> sp_mAct S \<le> sp_mMax S \<and> sp_nAct S \<le> sp_nMax S
     \<and> sp_nAct S \<le> sp_lAct S \<and> sp_lAct S \<le> sp_lMax S \<and> 2 * sp_mMax S \<le> NoArc
     \<and> sp_nMax S \<le> NoNode \<and> sp_lMax S \<le> NoNode"

definition arcs_at :: "sparse \<Rightarrow> nat set \<Rightarrow> nat \<Rightarrow> nat set" where
  "arcs_at S D v = {a. a < 2 * sp_mAct S \<and> sp_SN S ! a = v \<and> a \<notin> D}"

definition node_ok :: "sparse \<Rightarrow> nat set \<Rightarrow> nat \<Rightarrow> bool" where
  "node_ok S D v \<longleftrightarrow> (if sp_first S ! v = NoArc then arcs_at S D v = {}
     else \<exists>bs. ring ((!) (sp_right S)) (sp_first S ! v # bs) \<and> set (sp_first S ! v # bs) = arcs_at S D v)"

definition live :: "sparse \<Rightarrow> nat set \<Rightarrow> nat \<Rightarrow> bool" where
  "live S D a \<longleftrightarrow> a < 2 * sp_mAct S \<and> sp_SN S ! a \<noteq> NoNode \<and> a \<notin> D"

definition left_ok :: "sparse \<Rightarrow> nat set \<Rightarrow> bool" where
  "left_ok S D \<longleftrightarrow> (\<forall>l. sp_left S = Some l \<longrightarrow> length l = 2 * sp_mMax S
     \<and> (\<forall>a. live S D a \<longrightarrow> l ! (sp_right S ! a) = a)
     \<and> (\<forall>a < 2 * sp_mAct S. sp_SN S ! a = NoNode \<and> a \<notin> D \<longrightarrow> l ! a = NoArc))"

definition rings_ok :: "sparse \<Rightarrow> nat set \<Rightarrow> bool" where
  "rings_ok S D \<longleftrightarrow> sp_shape S \<and> (\<forall>a < 2 * sp_mAct S. sp_SN S ! a < sp_nAct S \<or> sp_SN S ! a = NoNode)
     \<and> (\<forall>v < sp_nAct S. node_ok S D v)
     \<and> (\<forall>a < 2 * sp_mAct S. sp_SN S ! a = NoNode \<and> a \<notin> D \<longrightarrow> sp_right S ! a = NoArc)
     \<and> left_ok S D"

lemma rings_shape: "rings_ok S D \<Longrightarrow> sp_shape S"
  by (simp add: rings_ok_def)

lemma shape_lt:
  assumes "sp_shape S"
  shows "a < 2 * sp_mAct S \<Longrightarrow> a < length (sp_SN S) \<and> a < length (sp_right S) \<and> a < NoArc \<and> a \<noteq> NoArc"
    and "v < sp_nAct S \<Longrightarrow> v < length (sp_first S) \<and> v < NoNode \<and> v \<noteq> NoNode"
  using assms by (auto simp: sp_shape_def)

lemma rings_node:
  assumes "rings_ok S D" "v < sp_nAct S"
  obtains (none) "sp_first S ! v = NoArc" "arcs_at S D v = {}"
  | (ring) bs where "sp_first S ! v \<noteq> NoArc" "ring ((!) (sp_right S)) (sp_first S ! v # bs)"
      "set (sp_first S ! v # bs) = arcs_at S D v"
proof -
  have "node_ok S D v" using assms by (simp add: rings_ok_def)
  then show thesis using none ring by (auto simp: node_ok_def split: if_splits)
qed

lemma node_okI:
  "sp_first S ! v = x \<Longrightarrow> x \<noteq> NoArc \<Longrightarrow> ring ((!) (sp_right S)) (x # bs) \<Longrightarrow> set (x # bs) = arcs_at S D v \<Longrightarrow> node_ok S D v"
  by (auto simp: node_ok_def)

lemma node_ok_cong:
  assumes "node_ok S D v" "sp_first S' ! v = sp_first S ! v" "arcs_at S' D' v = arcs_at S D v"
    "\<And>a. a \<in> arcs_at S D v \<Longrightarrow> sp_right S' ! a = sp_right S ! a"
  shows "node_ok S' D' v"
proof (cases "sp_first S ! v = NoArc")
  case True
  then show ?thesis using assms by (simp add: node_ok_def)
next
  case False
  then obtain bs where bs: "ring ((!) (sp_right S)) (sp_first S ! v # bs)" "set (sp_first S ! v # bs) = arcs_at S D v"
    using assms(1) by (auto simp: node_ok_def)
  have "ring ((!) (sp_right S')) (sp_first S ! v # bs)"
    using bs assms(4) ring_cong [of "sp_first S ! v # bs" "(!) (sp_right S')" "(!) (sp_right S)"] by metis
  then show ?thesis using node_okI [of S' v "sp_first S ! v" bs D'] False assms(2,3) bs(2) by simp
qed

lemma rings_at:
  assumes "rings_ok S D" "live S D a"
  obtains bs where "ring ((!) (sp_right S)) (a # bs)" "set (a # bs) = arcs_at S D (sp_SN S ! a)"
proof -
  have lt: "sp_SN S ! a < sp_nAct S" and mem: "a \<in> arcs_at S D (sp_SN S ! a)"
    using assms by (auto simp: rings_ok_def live_def arcs_at_def)
  from assms(1) lt show thesis
  proof (cases rule: rings_node)
    case none
    then show thesis using mem by simp
  next
    case (ring bs)
    then show thesis using that mem ring_at [OF ring(2), of a] by metis
  qed
qed

lemma rings_right:
  assumes "rings_ok S D" "live S D a"
  shows "live S D (sp_right S ! a)" "sp_SN S ! (sp_right S ! a) = sp_SN S ! a"
proof -
  obtain bs where bs: "ring ((!) (sp_right S)) (a # bs)" "set (a # bs) = arcs_at S D (sp_SN S ! a)"
    using rings_at [OF assms] .
  then have "sp_right S ! a \<in> arcs_at S D (sp_SN S ! a)" using ring_closed [OF bs(1), of a] by (metis list.set_intros(1))
  then show "live S D (sp_right S ! a)" "sp_SN S ! (sp_right S ! a) = sp_SN S ! a"
    using assms(2) by (auto simp: arcs_at_def live_def)
qed

lemma rings_right_inj:
  assumes "rings_ok S D" "live S D a" "live S D b" "sp_right S ! a = sp_right S ! b"
  shows "a = b"
proof -
  obtain bs where bs: "ring ((!) (sp_right S)) (a # bs)" "set (a # bs) = arcs_at S D (sp_SN S ! a)"
    using rings_at [OF assms(1,2)] .
  have "sp_SN S ! a = sp_SN S ! b" using rings_right(2) assms by metis
  then have "b \<in> set (a # bs)" using bs(2) assms(3) by (auto simp: arcs_at_def live_def)
  then show ?thesis using ring_inj [OF bs(1)] assms(4) by (metis inj_onD list.set_intros(1))
qed

lemma live_arcs_at: "sp_shape S \<Longrightarrow> v < sp_nAct S \<Longrightarrow> a \<in> arcs_at S D v \<Longrightarrow> live S D a"
  using shape_lt(2) [of S v] by (auto simp: arcs_at_def live_def)

lemma first_live:
  assumes "rings_ok S D" "v < sp_nAct S" "sp_first S ! v \<noteq> NoArc"
  shows "live S D (sp_first S ! v)" "sp_SN S ! (sp_first S ! v) = v"
proof -
  have "sp_first S ! v \<in> arcs_at S D v"
    using assms(1,2) by (cases rule: rings_node) (use assms(3) in auto)
  then show "live S D (sp_first S ! v)" "sp_SN S ! (sp_first S ! v) = v"
    using live_arcs_at [OF rings_shape [OF assms(1)] assms(2)] by (auto simp: arcs_at_def)
qed

section \<open>Arcs join and leave rings\<close>

lemma enlist_shape:
  "sp_shape S \<Longrightarrow> sp_shape (sp_enlist u a S)"
  by (simp add: sp_shape_def sp_enlist_def Let_def)

lemma enlist_keeps [simp]:
  "sp_SN (sp_enlist u a S) = sp_SN S" "sp_mAct (sp_enlist u a S) = sp_mAct S" "sp_nAct (sp_enlist u a S) = sp_nAct S"
  "sp_mMax (sp_enlist u a S) = sp_mMax S" "sp_nMax (sp_enlist u a S) = sp_nMax S"
  by (simp_all add: sp_enlist_def Let_def)

lemma enlist_arrays:
  assumes "sp_shape S" "a < 2 * sp_mAct S" "u < sp_nAct S" "sp_first S ! u = NoArc \<or> sp_first S ! u < 2 * sp_mAct S"
  shows "(!) (sp_first (sp_enlist u a S)) = ((!) (sp_first S))(u := a)"
    and "(!) (sp_right (sp_enlist u a S)) = (if sp_first S ! u = NoArc then ((!) (sp_right S))(a := a)
      else ((!) (sp_right S))(a := sp_right S ! (sp_first S ! u), sp_first S ! u := a))"
  using assms shape_lt [OF assms(1)]
  by (auto simp: sp_enlist_def Let_def nth_upd_fun)

lemma rings_enlist:
  assumes ok: "rings_ok S D" and a: "a \<in> D" "a < 2 * sp_mAct S" "sp_SN S ! a = u" "u < sp_nAct S"
  shows "rings_ok (sp_enlist u a S) (D - {a})"
proof -
  let ?S = "sp_enlist u a S" and ?D = "D - {a}" and ?f = "sp_first S ! u"
  note shape = rings_shape [OF ok]
  note lt = shape_lt [OF shape]
  have fst_lt: "?f = NoArc \<or> ?f < 2 * sp_mAct S"
    using first_live [OF ok a(4)] by (auto simp: live_def)
  note arr = enlist_arrays [OF shape a(2,4) fst_lt]
  have at: "arcs_at ?S ?D v = (if v = u then insert a (arcs_at S D v) else arcs_at S D v)" for v
    using a by (auto simp: arcs_at_def)
  have lv: "live ?S ?D b \<longleftrightarrow> b = a \<or> live S D b" for b
    using a lt(2) [OF a(4)] by (auto simp: live_def)
  have notin: "a \<notin> arcs_at S D v" for v using a(1) by (simp add: arcs_at_def)
  have node: "node_ok ?S ?D v" if v: "v < sp_nAct S" for v
  proof (cases "v = u")
    case True
    from ok a(4) show ?thesis
    proof (cases rule: rings_node)
      case none
      then show ?thesis using True lt(1) [OF a(2)] by (auto simp: node_ok_def arr at intro: exI [of _ "[]"])
    next
      case (ring bs)
      have "ring ((!) (sp_right ?S)) (a # bs @ [?f])"
        using ring_insert(2) [OF ring(2), of a] notin [of u] ring(1) unfolding ring(3) by (simp add: arr)
      moreover have "set (a # bs @ [?f]) = arcs_at ?S ?D u" using ring(3) by (auto simp: at)
      ultimately show ?thesis using True lt(1) [OF a(2)] by (intro node_okI [of ?S v a "bs @ [?f]"]) (simp_all add: arr)
    qed
  next
    case False
    show ?thesis
    proof (rule node_ok_cong [of S D v])
      fix b assume "b \<in> arcs_at S D v"
      then have "b \<noteq> a" "?f \<noteq> NoArc \<Longrightarrow> b \<noteq> ?f"
        using notin first_live(2) [OF ok a(4)] False by (auto simp: arcs_at_def)
      then show "sp_right ?S ! b = sp_right S ! b" by (simp add: arr)
    qed (use ok v False in \<open>simp_all add: rings_ok_def arr at\<close>)
  qed
  have left: "left_ok ?S ?D"
    unfolding left_ok_def
  proof (intro allI impI)
    fix l' assume l': "sp_left ?S = Some l'"
    then obtain l where l: "sp_left S = Some l" by (auto simp: sp_enlist_def Let_def split: if_splits)
    have lok: "length l = 2 * sp_mMax S" "\<And>b. live S D b \<Longrightarrow> l ! (sp_right S ! b) = b"
      "\<And>b. b < 2 * sp_mAct S \<Longrightarrow> sp_SN S ! b = NoNode \<Longrightarrow> b \<notin> D \<Longrightarrow> l ! b = NoArc"
      using ok l by (auto simp: rings_ok_def left_ok_def)
    have len: "a < length l" using lok(1) lt(1) [OF a(2)] shape by (simp add: sp_shape_def)
    have dead: "b \<noteq> a \<and> b \<notin> arcs_at S D u" if "b < 2 * sp_mAct S" "sp_SN S ! b = NoNode" for b
      using that a lt(2) [OF a(4)] by (auto simp: arcs_at_def)
    have Rneq: "sp_right S ! b \<noteq> a" if "live S D b" for b
      using rings_right(1) [OF ok that] a(1) by (auto simp: live_def)
    show "length l' = 2 * sp_mMax ?S \<and> (\<forall>b. live ?S ?D b \<longrightarrow> l' ! (sp_right ?S ! b) = b)
      \<and> (\<forall>b < 2 * sp_mAct ?S. sp_SN ?S ! b = NoNode \<and> b \<notin> ?D \<longrightarrow> l' ! b = NoArc)"
    proof (cases "?f = NoArc")
      case True
      then have e: "l' = l[a := a]" using l l' by (simp add: sp_enlist_def)
      have "l' ! (sp_right ?S ! b) = b" if "live ?S ?D b" for b
      proof (cases "b = a")
        case False
        then have "live S D b" using that lv by blast
        then show ?thesis using False Rneq [of b] lok(2) [of b] True by (auto simp: e arr)
      qed (simp add: e arr True len)
      moreover have "l' ! b = NoArc" if "b < 2 * sp_mAct S" "sp_SN S ! b = NoNode" "b \<notin> ?D" for b
        using that dead [OF that(1,2)] lok(3) by (auto simp: e)
      ultimately show ?thesis using lok(1) by (simp add: e)
    next
      case False
      note fl = first_live [OF ok a(4) False]
      let ?r = "sp_right S ! ?f"
      have e: "l' = l[?r := a, a := ?f]" using l l' False by (simp add: sp_enlist_def Let_def)
      have rl: "live S D ?r" "sp_SN S ! ?r = u" using rings_right [OF ok fl(1)] fl(2) by simp_all
      have len2: "?r < length l" using rl(1) lok(1) shape by (auto simp: live_def sp_shape_def)
      have fa: "?f \<noteq> a" using fl(1) a(1) by (auto simp: live_def)
      have Rinj: "sp_right S ! b = ?r \<Longrightarrow> live S D b \<Longrightarrow> b = ?f" for b
        using rings_right_inj [OF ok, of b ?f] fl(1) by simp
      have "l' ! (sp_right ?S ! b) = b" if lb: "live ?S ?D b" for b
      proof -
        consider "b = a" | "b = ?f" | "b \<noteq> a" "b \<noteq> ?f" "live S D b" using lb lv [of b] by blast
        then show ?thesis
        proof cases
          case 1
          then show ?thesis using False fa Rneq [OF fl(1)] len2 by (simp add: arr e nth_list_update)
        next
          case 2
          then show ?thesis using False fa len by (simp add: arr e nth_list_update)
        next
          case 3
          then have "?r \<noteq> sp_right S ! b" "a \<noteq> sp_right S ! b" using Rinj [of b] Rneq [of b] by auto
          then show ?thesis using 3 False lok(2) by (simp add: arr e)
        qed
      qed
      moreover have "l' ! b = NoArc" if "b < 2 * sp_mAct S" "sp_SN S ! b = NoNode" "b \<notin> ?D" for b
      proof -
        have "?r \<noteq> b" "a \<noteq> b" using that(2) rl(2) lt(2) [OF a(4)] a(3) by auto
        then show ?thesis using that lok(3) [of b] by (simp add: e)
      qed
      ultimately show ?thesis using lok(1) by (auto simp: e)
    qed
  qed
  have "sp_right ?S ! b = NoArc" if "b < 2 * sp_mAct S" "sp_SN S ! b = NoNode" "b \<notin> ?D" for b
  proof -
    have "b \<noteq> a" "b \<notin> D" using that a lt(2) [OF a(4)] by auto
    moreover have "?f \<noteq> NoArc \<Longrightarrow> b \<noteq> ?f" using first_live(2) [OF ok a(4)] that(2) lt(2) [OF a(4)] by auto
    ultimately show ?thesis using ok that by (auto simp: arr rings_ok_def)
  qed
  then show ?thesis
    using ok node left enlist_shape [OF shape] by (auto simp: rings_ok_def)
qed

lemma unlist_keeps [simp]:
  "sp_mAct (sp_unlist a al S) = sp_mAct S" "sp_nAct (sp_unlist a al S) = sp_nAct S"
  "sp_mMax (sp_unlist a al S) = sp_mMax S" "sp_nMax (sp_unlist a al S) = sp_nMax S"
  "sp_SN (sp_unlist a al S) = (sp_SN S)[a := NoNode]"
  by (simp_all add: sp_unlist_def Let_def)

lemma unlist_shape: "sp_shape S \<Longrightarrow> sp_shape (sp_unlist a al S)"
  by (simp add: sp_shape_def sp_unlist_def Let_def)

lemma unlist_arrays:
  assumes "sp_shape S" "a < 2 * sp_mAct S" "al < 2 * sp_mAct S" "sp_SN S ! a < sp_nAct S"
  shows "(!) (sp_right (sp_unlist a al S)) = (if a \<noteq> sp_right S ! a
      then ((!) (sp_right S))(al := sp_right S ! a, a := NoArc) else ((!) (sp_right S))(a := NoArc))"
    and "(!) (sp_first (sp_unlist a al S)) = (if a \<noteq> sp_right S ! a
      then (if sp_first S ! (sp_SN S ! a) = a then ((!) (sp_first S))(sp_SN S ! a := al) else (!) (sp_first S))
      else ((!) (sp_first S))(sp_SN S ! a := NoArc))"
    and "(!) (sp_SN (sp_unlist a al S)) = ((!) (sp_SN S))(a := NoNode)"
  using assms shape_lt [OF assms(1)] by (simp_all add: sp_unlist_def Let_def nth_upd_fun)

lemma rings_unlist:
  assumes ok: "rings_ok S D" and a: "live S D a" and al: "live S D al" "sp_right S ! al = a"
  shows "rings_ok (sp_unlist a al S) D"
proof -
  let ?S = "sp_unlist a al S" and ?u = "sp_SN S ! a" and ?ar = "sp_right S ! a"
  note shape = rings_shape [OF ok]
  note lt = shape_lt [OF shape]
  have u: "?u < sp_nAct S" "a < 2 * sp_mAct S" "al < 2 * sp_mAct S" "a \<notin> D"
    using ok a al by (auto simp: rings_ok_def live_def)
  note arr = unlist_arrays [OF shape u(2,3,1)]
  have SNal: "sp_SN S ! al = ?u" using rings_right(2) [OF ok al(1)] al(2) by simp
  have at: "arcs_at ?S D v = arcs_at S D v - {a}" if "v < sp_nAct S" for v
    using that lt(2) [OF that] by (auto simp: arcs_at_def arr(3) simp del: unlist_keeps(5))
  have lv: "live ?S D b \<longleftrightarrow> b \<noteq> a \<and> live S D b" for b
    by (auto simp: live_def arr(3) simp del: unlist_keeps(5))
  obtain bs where bs: "ring ((!) (sp_right S)) (a # bs)" "set (a # bs) = arcs_at S D ?u"
    using rings_at [OF ok a] .
  have single: "bs = [] \<longleftrightarrow> ?ar = a" using ring_fixpoint [OF bs(1), of a] bs(1) by (cases bs) (auto simp: ring_Cons)
  have node: "node_ok ?S D v" if v: "v < sp_nAct S" for v
  proof (cases "v = ?u")
    case True
    show ?thesis
    proof (cases "bs = []")
      case True
      then have "arcs_at S D ?u = {a}" using bs(2) by simp
      then show ?thesis using \<open>v = ?u\<close> single True by (simp add: node_ok_def arr at u(1))
    next
      case False
      have rem: "ring (((!) (sp_right S))(al := ?ar)) bs" "al \<in> set bs"
        using ring_remove [OF bs(1) False al(2)] al(1) SNal bs(2) by (auto simp: arcs_at_def live_def)
      have r: "ring ((!) (sp_right ?S)) bs"
        using rem(1) bs(1) False single by (simp add: arr ring_Cons)
      have sb: "set bs = arcs_at ?S D ?u" using bs by (auto simp: at u(1) ring_Cons)
      have f: "sp_first ?S ! ?u \<in> set bs"
      proof (cases "sp_first S ! ?u = a")
        case True
        then show ?thesis using False single rem(2) by (simp add: arr)
      next
        case neq: False
        have "a \<in> arcs_at S D ?u" using bs(2) by auto
        then have "sp_first S ! ?u \<noteq> NoArc" using ok u(1) by (auto simp: rings_ok_def node_ok_def)
        then have "sp_first S ! ?u \<in> arcs_at S D ?u" using first_live [OF ok u(1)] by (auto simp: arcs_at_def live_def)
        then show ?thesis using neq False single bs(2) by (auto simp: arr)
      qed
      obtain cs where "ring ((!) (sp_right ?S)) (sp_first ?S ! ?u # cs)" "set (sp_first ?S ! ?u # cs) = set bs"
        using ring_at [OF r f] by blast
      moreover have "sp_first ?S ! ?u \<noteq> NoArc" using f sb lt(1) by (auto simp: arcs_at_def)
      ultimately show ?thesis using True sb by (intro node_okI) auto
    qed
  next
    case False
    show ?thesis
    proof (rule node_ok_cong [of S D v])
      fix b assume "b \<in> arcs_at S D v"
      then have "b \<noteq> a" "b \<noteq> al" using False SNal by (auto simp: arcs_at_def)
      then show "sp_right ?S ! b = sp_right S ! b" by (simp add: arr)
    next
      show "arcs_at ?S D v = arcs_at S D v" using False at [OF v] by (auto simp: arcs_at_def)
    qed (use ok v False in \<open>simp_all add: rings_ok_def arr\<close>)
  qed
  have left: "left_ok ?S D"
    unfolding left_ok_def
  proof (intro allI impI)
    fix l' assume l': "sp_left ?S = Some l'"
    then obtain l where l: "sp_left S = Some l" by (auto simp: sp_unlist_def Let_def split: if_splits)
    have lok: "length l = 2 * sp_mMax S" "\<And>b. live S D b \<Longrightarrow> l ! (sp_right S ! b) = b"
      "\<And>b. b < 2 * sp_mAct S \<Longrightarrow> sp_SN S ! b = NoNode \<Longrightarrow> b \<notin> D \<Longrightarrow> l ! b = NoArc"
      using ok l by (auto simp: rings_ok_def left_ok_def)
    have arl: "live S D ?ar" "sp_SN S ! ?ar = ?u" using rings_right [OF ok a] .
    have len: "a < length l" "?ar < length l" using lok(1) u(2) arl(1) shape by (auto simp: live_def sp_shape_def)
    have e: "l' = (if a \<noteq> ?ar then l[?ar := al, a := NoArc] else l[a := NoArc])"
      using l l' by (auto simp: sp_unlist_def Let_def split: if_splits)
    have "l' ! (sp_right ?S ! b) = b" if "live ?S D b" for b
    proof -
      have b: "b \<noteq> a" "live S D b" using that lv [of b] by auto
      show ?thesis
      proof (cases "b = al")
        case True
        then have "?ar \<noteq> a" using b(1) rings_right_inj [OF ok a al(1)] al(2) by auto
        then show ?thesis using True b(1) len by (simp add: arr e nth_list_update)
      next
        case False
        have "sp_right S ! b \<noteq> a" using False rings_right_inj [OF ok b(2) al(1)] al(2) by auto
        moreover have "sp_right S ! b \<noteq> ?ar" using b rings_right_inj [OF ok b(2) a] by auto
        ultimately have n: "a \<noteq> sp_right S ! b" "?ar \<noteq> sp_right S ! b" by auto
        have "sp_right ?S ! b = sp_right S ! b" using False b(1) by (simp add: arr)
        then show ?thesis using n lok(2) [OF b(2)] by (simp add: e)
      qed
    qed
    moreover have "l' ! b = NoArc" if "b < 2 * sp_mAct S" "sp_SN ?S ! b = NoNode" "b \<notin> D" for b
    proof (cases "b = a")
      case False
      then have "sp_SN S ! b = NoNode" using that(2) by (simp add: arr(3) del: unlist_keeps(5))
      moreover have "?ar \<noteq> b" using arl lt(2) [OF u(1)] calculation by auto
      ultimately show ?thesis using False that lok(3) [of b] by (simp add: e)
    qed (use len in \<open>auto simp: e\<close>)
    ultimately show "length l' = 2 * sp_mMax ?S \<and> (\<forall>b. live ?S D b \<longrightarrow> l' ! (sp_right ?S ! b) = b)
      \<and> (\<forall>b < 2 * sp_mAct ?S. sp_SN ?S ! b = NoNode \<and> b \<notin> D \<longrightarrow> l' ! b = NoArc)"
      using lok(1) by (auto simp: e)
  qed
  have "sp_right ?S ! b = NoArc" if "b < 2 * sp_mAct S" "sp_SN ?S ! b = NoNode" "b \<notin> D" for b
  proof (cases "b = a")
    case False
    then have "sp_SN S ! b = NoNode" using that(2) by (simp add: arr(3) del: unlist_keeps(5))
    moreover have "b \<noteq> al" using SNal lt(2) [OF u(1)] calculation by auto
    ultimately show ?thesis using False that ok by (simp add: arr rings_ok_def)
  qed (simp add: arr)
  moreover have "sp_SN ?S ! b < sp_nAct S \<or> sp_SN ?S ! b = NoNode" if "b < 2 * sp_mAct S" for b
    using that ok by (auto simp: arr(3) rings_ok_def simp del: unlist_keeps(5))
  ultimately show ?thesis
    using node left unlist_shape [OF shape] by (auto simp: rings_ok_def simp del: unlist_keeps(5))
qed

section \<open>Generation of predecessors\<close>

lemma left_loop_fills:
  assumes "distinct as" "inj_on ((!) right) {a \<in> set as. right ! a \<noteq> NoArc}"
    "\<And>a. a \<in> set as \<Longrightarrow> right ! a \<noteq> NoArc \<Longrightarrow> right ! a < length l \<and> l ! (right ! a) = NoArc"
  shows "\<exists>l'. left_loop right as l = Inr l' \<and> length l' = length l
    \<and> (\<forall>a \<in> set as. right ! a \<noteq> NoArc \<longrightarrow> l' ! (right ! a) = a)
    \<and> (\<forall>b. b \<notin> (!) right ` {a \<in> set as. right ! a \<noteq> NoArc} \<longrightarrow> l' ! b = l ! b)"
  using assms
proof (induction as arbitrary: l)
  case (Cons a as)
  show ?case
  proof (cases "right ! a = NoArc")
    case True
    have "\<exists>l'. left_loop right as l = Inr l' \<and> length l' = length l
      \<and> (\<forall>a \<in> set as. right ! a \<noteq> NoArc \<longrightarrow> l' ! (right ! a) = a)
      \<and> (\<forall>b. b \<notin> (!) right ` {a \<in> set as. right ! a \<noteq> NoArc} \<longrightarrow> l' ! b = l ! b)"
    proof (rule Cons.IH)
      show "inj_on ((!) right) {a \<in> set as. right ! a \<noteq> NoArc}" using Cons.prems(2) by (rule inj_on_subset) auto
    qed (use Cons.prems in simp_all)
    moreover have "{b \<in> set (a # as). right ! b \<noteq> NoArc} = {b \<in> set as. right ! b \<noteq> NoArc}" using True by auto
    ultimately show ?thesis using True by simp
  next
    case False
    let ?l = "l[right ! a := a]"
    have free: "right ! a < length l" "l ! (right ! a) = NoArc" using Cons.prems(3) False by auto
    have neq: "right ! b \<noteq> right ! a" if "b \<in> set as" "right ! b \<noteq> NoArc" for b
    proof
      assume "right ! b = right ! a"
      then have "b = a" by (rule inj_onD [OF Cons.prems(2)]) (use that False in simp_all)
      then show False using Cons.prems(1) that(1) by simp
    qed
    have "\<exists>l'. left_loop right as ?l = Inr l' \<and> length l' = length ?l
      \<and> (\<forall>a \<in> set as. right ! a \<noteq> NoArc \<longrightarrow> l' ! (right ! a) = a)
      \<and> (\<forall>b. b \<notin> (!) right ` {a \<in> set as. right ! a \<noteq> NoArc} \<longrightarrow> l' ! b = ?l ! b)"
    proof (rule Cons.IH)
      show "right ! b < length ?l \<and> ?l ! (right ! b) = NoArc" if "b \<in> set as" "right ! b \<noteq> NoArc" for b
        using Cons.prems(3) that neq [OF that] by (simp add: nth_list_update)
      show "inj_on ((!) right) {a \<in> set as. right ! a \<noteq> NoArc}" using Cons.prems(2) by (rule inj_on_subset) auto
    qed (use Cons.prems in simp)
    then obtain l' where l': "left_loop right as ?l = Inr l'" "length l' = length ?l"
      "\<forall>a \<in> set as. right ! a \<noteq> NoArc \<longrightarrow> l' ! (right ! a) = a"
      "\<forall>b. b \<notin> (!) right ` {a \<in> set as. right ! a \<noteq> NoArc} \<longrightarrow> l' ! b = ?l ! b" by blast
    have "right ! a \<notin> (!) right ` {a \<in> set as. right ! a \<noteq> NoArc}" 
    proof
      assume "right ! a \<in> (!) right ` {a \<in> set as. right ! a \<noteq> NoArc}"
      then obtain b where b: "right ! a = right ! b" "b \<in> set as" "right ! b \<noteq> NoArc" by auto
      then show False using neq [OF b(2,3)] by simp
    qed
    then have "l' ! (right ! a) = a" using l'(4) free(1) by simp
    moreover have "l' ! b = l ! b" if "b \<notin> (!) right ` {c \<in> set (a # as). right ! c \<noteq> NoArc}" for b
    proof -
      have "b \<noteq> right ! a" using that False by auto
      moreover have "b \<notin> (!) right ` {c \<in> set as. right ! c \<noteq> NoArc}" using that by auto
      ultimately show ?thesis using l'(4) by auto
    qed
    ultimately show ?thesis using False free l' by simp
  qed
qed simp

lemma rings_right_NoArc:
  assumes "rings_ok S {}" "a < 2 * sp_mAct S"
  shows "sp_right S ! a = NoArc \<longleftrightarrow> sp_SN S ! a = NoNode"
proof
  assume r: "sp_right S ! a = NoArc"
  show "sp_SN S ! a = NoNode"
  proof (rule ccontr)
    assume "sp_SN S ! a \<noteq> NoNode"
    then have "live S {} a" using assms(2) by (simp add: live_def)
    from rings_right(1) [OF assms(1) this] show False
      using r shape_lt(1) [OF rings_shape [OF assms(1)]] by (auto simp: live_def)
  qed
qed (use assms in \<open>simp add: rings_ok_def\<close>)

lemma set_left_views [simp]:
  "arcs_at (S\<lparr>sp_left := x\<rparr>) D v = arcs_at S D v" "live (S\<lparr>sp_left := x\<rparr>) D = live S D"
  "node_ok (S\<lparr>sp_left := x\<rparr>) D v = node_ok S D v" "sp_shape (S\<lparr>sp_left := x\<rparr>) = sp_shape S"
  by (simp_all add: arcs_at_def live_def node_ok_def sp_shape_def fun_eq_iff)

lemma rings_set_left: "rings_ok S D \<Longrightarrow> left_ok (S\<lparr>sp_left := x\<rparr>) D \<Longrightarrow> rings_ok (S\<lparr>sp_left := x\<rparr>) D"
  by (simp add: rings_ok_def)

lemma gen_left_ok:
  assumes ok: "rings_ok S {}"
  obtains l where "sp_gen_left S = Inr (S\<lparr>sp_left := Some l\<rparr>)" "rings_ok (S\<lparr>sp_left := Some l\<rparr>) {}"
proof (cases "sp_left S")
  case (Some l)
  then have e: "S\<lparr>sp_left := Some l\<rparr> = S" by simp
  have "sp_gen_left S = Inr S" using Some by (simp add: sp_gen_left_def)
  then show thesis using that [of l] ok unfolding e by blast
next
  case None
  let ?L = "{a \<in> set [0..<2 * sp_mAct S]. sp_right S ! a \<noteq> NoArc}"
  have L: "a \<in> ?L \<longleftrightarrow> live S {} a" for a using rings_right_NoArc [OF ok] by (auto simp: live_def)
  have shape: "sp_shape S" using ok by (rule rings_shape)
  have "\<exists>l'. left_loop (sp_right S) [0..<2 * sp_mAct S] (replicate (2 * sp_mMax S) NoArc) = Inr l'
    \<and> length l' = length (replicate (2 * sp_mMax S) NoArc)
    \<and> (\<forall>a \<in> set [0..<2 * sp_mAct S]. sp_right S ! a \<noteq> NoArc \<longrightarrow> l' ! (sp_right S ! a) = a)
    \<and> (\<forall>b. b \<notin> (!) (sp_right S) ` ?L \<longrightarrow> l' ! b = replicate (2 * sp_mMax S) NoArc ! b)"
  proof (rule left_loop_fills)
    show "inj_on ((!) (sp_right S)) ?L"
      using rings_right_inj [OF ok] L by (meson inj_onI)
    fix a assume "a \<in> set [0..<2 * sp_mAct S]" "sp_right S ! a \<noteq> NoArc"
    then have "live S {} a" using L by blast
    then have "sp_right S ! a < 2 * sp_mMax S"
      using rings_right(1) [OF ok] shape by (fastforce simp: live_def sp_shape_def)
    then show "sp_right S ! a < length (replicate (2 * sp_mMax S) NoArc)
      \<and> replicate (2 * sp_mMax S) NoArc ! (sp_right S ! a) = NoArc" by simp
  qed simp
  then obtain l where l: "left_loop (sp_right S) [0..<2 * sp_mAct S] (replicate (2 * sp_mMax S) NoArc) = Inr l"
    "length l = 2 * sp_mMax S" "\<And>a. live S {} a \<Longrightarrow> l ! (sp_right S ! a) = a"
    "\<And>b. b \<notin> (!) (sp_right S) ` ?L \<Longrightarrow> b < 2 * sp_mMax S \<Longrightarrow> l ! b = NoArc"
    using L by fastforce
  have "l ! b = NoArc" if "b < 2 * sp_mAct S" "sp_SN S ! b = NoNode" for b
  proof (rule l(4))
    show "b \<notin> (!) (sp_right S) ` ?L" using rings_right(1) [OF ok] L that(2) by (auto simp: live_def)
    show "b < 2 * sp_mMax S" using that(1) shape by (simp add: sp_shape_def)
  qed
  then have "left_ok (S\<lparr>sp_left := Some l\<rparr>) {}" using l(2,3) by (simp add: left_ok_def)
  then have "rings_ok (S\<lparr>sp_left := Some l\<rparr>) {}" by (rule rings_set_left [OF ok])
  then show thesis using that [of l] None l(1) by (simp add: sp_gen_left_def)
qed

text \<open>\<open>left\<close> is inverse to \<open>right\<close> on the arcs that are not cancelled.\<close>

lemma left_inverse:
  assumes ok: "rings_ok S {}" and l: "sp_left S = Some l" and a: "live S {} a"
  shows "live S {} (l ! a)" "sp_right S ! (l ! a) = a" "sp_SN S ! (l ! a) = sp_SN S ! a"
proof -
  obtain bs where bs: "ring ((!) (sp_right S)) (a # bs)" "set (a # bs) = arcs_at S {} (sp_SN S ! a)"
    using rings_at [OF ok a] .
  then have "a \<in> (!) (sp_right S) ` set (a # bs)" using ring_image [OF bs(1)] by (metis list.set_intros(1))
  then obtain b where b: "b \<in> arcs_at S {} (sp_SN S ! a)" "sp_right S ! b = a" using bs(2) by (metis imageE)
  then have lb: "live S {} b" using a by (auto simp: arcs_at_def live_def)
  then have "l ! a = b" using ok l b(2) by (auto simp: rings_ok_def left_ok_def)
  then show "live S {} (l ! a)" "sp_right S ! (l ! a) = a" "sp_SN S ! (l ! a) = sp_SN S ! a"
    using lb b by (auto simp: arcs_at_def)
qed

lemma sp_Left_ok:
  assumes ok: "rings_ok S {}" and a: "live S {} a"
  obtains l where "sp_Left S a = Inr (l ! a, S\<lparr>sp_left := Some l\<rparr>)" "rings_ok (S\<lparr>sp_left := Some l\<rparr>) {}"
    "live S {} (l ! a)" "sp_right S ! (l ! a) = a" "sp_SN S ! (l ! a) = sp_SN S ! a"
proof -
  obtain l where l: "sp_gen_left S = Inr (S\<lparr>sp_left := Some l\<rparr>)" "rings_ok (S\<lparr>sp_left := Some l\<rparr>) {}"
    using gen_left_ok [OF ok] .
  have "live (S\<lparr>sp_left := Some l\<rparr>) {} a" using a by (simp add: live_def)
  from left_inverse [OF l(2) _ this] show thesis
    using that l a by (simp add: sp_Left_def live_def)
qed

section \<open>Detached arcs\<close>

text \<open>Operations that leave the incidence lists alone.\<close>

definition same_inc :: "sparse \<Rightarrow> sparse \<Rightarrow> bool" where
  "same_inc S S' \<longleftrightarrow> sp_nAct S' = sp_nAct S \<and> sp_nMax S' = sp_nMax S \<and> sp_mAct S' = sp_mAct S \<and> sp_mMax S' = sp_mMax S
     \<and> sp_lAct S' = sp_lAct S \<and> sp_lMax S' = sp_lMax S \<and> sp_SN S' = sp_SN S \<and> sp_right S' = sp_right S
     \<and> sp_first S' = sp_first S \<and> sp_left S' = sp_left S"

lemma same_inc_refl [simp]: "same_inc S S"
  and same_inc_trans [trans]: "same_inc S S' \<Longrightarrow> same_inc S' S'' \<Longrightarrow> same_inc S S''"
  by (simp_all add: same_inc_def)

lemma same_inc_rings: "same_inc S S' \<Longrightarrow> rings_ok S' D = rings_ok S D"
  by (simp add: same_inc_def rings_ok_def sp_shape_def node_ok_def arcs_at_def left_ok_def live_def)

text \<open>Cancelled or new arcs get start nodes before they enter the rings.\<close>

lemma rings_detach:
  assumes ok: "rings_ok S {}" and shape: "sp_shape S'" and n: "sp_nAct S' = sp_nAct S" and m: "sp_mAct S \<le> sp_mAct S'"
    and first: "\<And>v. v < sp_nAct S \<Longrightarrow> sp_first S' ! v = sp_first S ! v"
    and old: "\<And>b. b < 2 * sp_mAct S' \<Longrightarrow> b \<notin> D \<Longrightarrow>
      b < 2 * sp_mAct S \<and> sp_SN S' ! b = sp_SN S ! b \<and> sp_right S' ! b = sp_right S ! b"
    and new: "\<And>b. b \<in> D \<Longrightarrow> sp_SN S' ! b < sp_nAct S" "\<And>b. b \<in> D \<Longrightarrow> b < 2 * sp_mAct S \<Longrightarrow> sp_SN S ! b = NoNode"
    and left: "\<And>l'. sp_left S' = Some l' \<Longrightarrow>
      length l' = 2 * sp_mMax S' \<and> (\<exists>l. sp_left S = Some l \<and> (\<forall>b < 2 * sp_mAct S. l' ! b = l ! b))"
  shows "rings_ok S' D"
proof -
  have at: "arcs_at S' D v = arcs_at S {} v" if v: "v < sp_nAct S" for v
  proof (rule set_eqI)
    show "b \<in> arcs_at S' D v \<longleftrightarrow> b \<in> arcs_at S {} v" for b
      using old [of b] new(2) [of b] m shape_lt(2) [OF rings_shape [OF ok] v]
      by (cases "b \<in> D") (auto simp: arcs_at_def)
  qed
  have lv: "live S' D b \<longleftrightarrow> live S {} b" for b
    using old [of b] new(2) [of b] m by (cases "b \<in> D") (auto simp: live_def)
  have "node_ok S' D v" if v: "v < sp_nAct S" for v
  proof (rule node_ok_cong [of S "{}" v])
    fix b assume "b \<in> arcs_at S {} v"
    then show "sp_right S' ! b = sp_right S ! b" using old at [OF v] by (auto simp: arcs_at_def)
  qed (use ok v first at in \<open>simp_all add: rings_ok_def\<close>)
  moreover have "left_ok S' D"
    unfolding left_ok_def
  proof (intro allI impI conjI)
    fix l' assume l': "sp_left S' = Some l'"
    obtain l where l: "sp_left S = Some l" "\<forall>b < 2 * sp_mAct S. l' ! b = l ! b" using left [OF l'] by blast
    show "length l' = 2 * sp_mMax S'" using left [OF l'] by blast
    show "l' ! (sp_right S' ! b) = b" if "live S' D b" for b
    proof -
      have b: "live S {} b" "sp_right S' ! b = sp_right S ! b" using that lv [of b] old [of b] by (auto simp: live_def)
      then show ?thesis using rings_right(1) [OF ok b(1)] l ok by (auto simp: live_def rings_ok_def left_ok_def)
    qed
    show "l' ! b = NoArc" if "b < 2 * sp_mAct S'" "sp_SN S' ! b = NoNode \<and> b \<notin> D" for b
      using that old [of b] l ok by (auto simp: rings_ok_def left_ok_def)
  qed
  moreover have "sp_SN S' ! b < sp_nAct S \<or> sp_SN S' ! b = NoNode" if "b < 2 * sp_mAct S'" for b
    using that old [of b] new(1) [of b] ok by (cases "b \<in> D") (auto simp: rings_ok_def)
  moreover have "sp_right S' ! b = NoArc" if "b < 2 * sp_mAct S'" "sp_SN S' ! b = NoNode \<and> b \<notin> D" for b
    using that old [of b] ok by (auto simp: rings_ok_def)
  ultimately show ?thesis using shape n by (simp add: rings_ok_def)
qed

end
