(* ===== verification/Sparse_Ops.thy ===== *)
theory Sparse_Ops
  imports Sparse_Repr
begin

text \<open>
  The operations of the sparse representation keep its invariant: every node has a ring of
  exactly the arcs that start there, both arcs of an edge are cancelled together, and the
  attribute pools, the subgraph and the dimensions agree.
\<close>

section \<open>Invariant\<close>

definition paired :: "sparse \<Rightarrow> bool" where
  "paired S \<longleftrightarrow> (\<forall>a < 2 * sp_mAct S. sp_SN S ! a = NoNode \<longleftrightarrow> sp_SN S ! flip a = NoNode)"

definition sp_inv :: "sparse \<Rightarrow> bool" where
  "sp_inv S \<longleftrightarrow> rings_ok S {} \<and> paired S \<and> pools_ok S \<and> sub_ok S
     \<and> 2 \<le> sp_maxArc S \<and> sp_maxArc S \<le> NoArc \<and> sp_maxNode S \<le> NoNode"

lemma sp_inv_rings: "sp_inv S \<Longrightarrow> rings_ok S {}" and sp_inv_shape: "sp_inv S \<Longrightarrow> sp_shape S"
  using rings_shape by (auto simp: sp_inv_def)

lemma sp_inv_new:
  assumes "n \<le> NoNode" "2 \<le> mxArc" "mxArc \<le> NoArc" "mxNode \<le> NoNode"
  shows "sp_inv (sparseRepresentation mxNode mxArc n)"
proof -
  let ?S = "sparseRepresentation mxNode mxArc n"
  have "dims_ok (sp_SizeInfo ?S)"
    using assms(1) by (auto simp: dims_ok_def sp_SizeInfo_def sparseRepresentation_def NoIndex_def NoNode_def split: TArrayDim.splits)
  then have "pools_ok ?S"
    using repr_pars.pool_table_axioms geometry_pars.pool_table_axioms layout_pars.pool_table_axioms
      register_pars.pool_table_axioms
    by (simp add: pools_ok_def ap_inv_def raw_inv_def sparseRepresentation_def attributePool_new_def)
  moreover have "rings_ok ?S {}"
    using assms(1)
    by (simp add: rings_ok_def sp_shape_def node_ok_def arcs_at_def left_ok_def sparseRepresentation_def)
  ultimately show ?thesis
    using assms by (simp add: sp_inv_def paired_def sub_ok_def sparseRepresentation_def)
qed

section \<open>Routing\<close>

lemma SetRouting_keeps [simp]:
  "sp_SN (sp_SetRouting S a u v) = (sp_SN S)[a := u, flip a := v]"
  "sp_mAct (sp_SetRouting S a u v) = sp_mAct S" "sp_nAct (sp_SetRouting S a u v) = sp_nAct S"
  "sp_mMax (sp_SetRouting S a u v) = sp_mMax S" "sp_nMax (sp_SetRouting S a u v) = sp_nMax S"
  by (simp_all add: sp_SetRouting_def)

lemma enlist_frame [simp]:
  "sp_lAct (sp_enlist u a S) = sp_lAct S" "sp_lMax (sp_enlist u a S) = sp_lMax S"
  "sp_sub (sp_enlist u a S) = sp_sub S" "sp_representation (sp_enlist u a S) = sp_representation S"
  "sp_geometry (sp_enlist u a S) = sp_geometry S" "sp_layoutData (sp_enlist u a S) = sp_layoutData S"
  "sp_registers (sp_enlist u a S) = sp_registers S" "sp_referenced (sp_enlist u a S) = sp_referenced S"
  "sp_maxNode (sp_enlist u a S) = sp_maxNode S" "sp_maxArc (sp_enlist u a S) = sp_maxArc S"
  by (simp_all add: sp_enlist_def Let_def)

lemma SetRouting_frame [simp]:
  "sp_lAct (sp_SetRouting S a u v) = sp_lAct S" "sp_lMax (sp_SetRouting S a u v) = sp_lMax S"
  "sp_sub (sp_SetRouting S a u v) = sp_sub S" "sp_representation (sp_SetRouting S a u v) = sp_representation S"
  "sp_geometry (sp_SetRouting S a u v) = sp_geometry S" "sp_layoutData (sp_SetRouting S a u v) = sp_layoutData S"
  "sp_registers (sp_SetRouting S a u v) = sp_registers S" "sp_referenced (sp_SetRouting S a u v) = sp_referenced S"
  "sp_maxNode (sp_SetRouting S a u v) = sp_maxNode S" "sp_maxArc (sp_SetRouting S a u v) = sp_maxArc S"
  by (simp_all add: sp_SetRouting_def)

lemma rings_SetRouting:
  assumes ok: "rings_ok (S\<lparr>sp_SN := (sp_SN S)[a := u, flip a := v]\<rparr>) {a, flip a}"
    and a: "a < 2 * sp_mAct S" and uv: "u < sp_nAct S" "v < sp_nAct S"
  shows "rings_ok (sp_SetRouting S a u v) {}"
proof -
  let ?T = "S\<lparr>sp_SN := (sp_SN S)[a := u, flip a := v]\<rparr>"
  have len: "a < length (sp_SN S)" "flip a < length (sp_SN S)"
    using shape_lt(1) [OF rings_shape [OF ok], of a] shape_lt(1) [OF rings_shape [OF ok], of "flip a"] a by simp_all
  have "rings_ok (sp_enlist u a ?T) ({a, flip a} - {a})"
    using len a uv by (intro rings_enlist [OF ok]) (simp_all add: nth_list_update)
  moreover have "{a, flip a} - {a} = {flip a}" by auto
  ultimately have 1: "rings_ok (sp_enlist u a ?T) {flip a}" by simp
  have "rings_ok (sp_enlist v (flip a) (sp_enlist u a ?T)) ({flip a} - {flip a})"
    using len a uv by (intro rings_enlist [OF 1]) simp_all
  then show ?thesis by (simp add: sp_SetRouting_def)
qed

text \<open>Routing of an arc that is cancelled.\<close>

lemma rings_reroute:
  assumes ok: "rings_ok S {}" and a: "a < 2 * sp_mAct S" "sp_SN S ! a = NoNode" "sp_SN S ! flip a = NoNode"
    and uv: "u < sp_nAct S" "v < sp_nAct S"
  shows "rings_ok (sp_SetRouting S a u v) {}"
proof (rule rings_SetRouting [OF rings_detach [OF ok] a(1) uv])
  note shape = rings_shape [OF ok]
  have len: "a < length (sp_SN S)" "flip a < length (sp_SN S)"
    using shape_lt(1) [OF shape, of a] shape_lt(1) [OF shape, of "flip a"] a by simp_all
  let ?T = "S\<lparr>sp_SN := (sp_SN S)[a := u, flip a := v]\<rparr>"
  show "sp_shape ?T" using shape by (simp add: sp_shape_def)
  show "sp_SN ?T ! b < sp_nAct S" if "b \<in> {a, flip a}" for b using that len uv by (auto simp: nth_list_update)
  show "sp_SN S ! b = NoNode" if "b \<in> {a, flip a}" for b using that a by auto
  show "b < 2 * sp_mAct S \<and> sp_SN ?T ! b = sp_SN S ! b \<and> sp_right ?T ! b = sp_right S ! b"
    if "b < 2 * sp_mAct ?T" "b \<notin> {a, flip a}" for b using that by auto
  show "length l' = 2 * sp_mMax ?T \<and> (\<exists>l. sp_left S = Some l \<and> (\<forall>b < 2 * sp_mAct S. l' ! b = l ! b))"
    if "sp_left ?T = Some l'" for l' using that ok by (auto simp: rings_ok_def left_ok_def)
qed simp_all

text \<open>Routing of a new arc.\<close>

lemma rings_new_arc:
  assumes ok: "rings_ok S {}" and uv: "u < sp_nAct S" "v < sp_nAct S" and sz: "2 * sp_mMax S + 2 \<le> NoArc"
  shows "rings_ok (sp_SetRouting (sp_grow_arcs (S\<lparr>sp_mAct := sp_mAct S + 1\<rparr>)) (2 * sp_mAct S) u v) {}"
proof -
  define G where "G = sp_grow_arcs (S\<lparr>sp_mAct := sp_mAct S + 1\<rparr>)"
  let ?a = "2 * sp_mAct S"
  let ?T = "G\<lparr>sp_SN := (sp_SN G)[?a := u, flip ?a := v]\<rparr>"
  note shape = rings_shape [OF ok]
  have G: "sp_mAct G = sp_mAct S + 1" "sp_nAct G = sp_nAct S" "sp_first G = sp_first S"
    by (simp_all add: sp_grow_arcs_def G_def)
  have shapeG: "sp_shape G" using shape sz by (auto simp: sp_shape_def sp_grow_arcs_def G_def)
  have len: "?a < length (sp_SN G)" "flip ?a < length (sp_SN G)"
    using shape_lt(1) [OF shapeG, of ?a] shape_lt(1) [OF shapeG, of "flip ?a"] by (simp_all add: G)
  have old: "b < length (sp_SN S) \<and> b < length (sp_right S)" if "b < ?a" for b
    using shape_lt(1) [OF shape] that by auto
  show ?thesis
    unfolding G_def [symmetric]
  proof (rule rings_SetRouting [OF rings_detach [OF ok]])
    show "sp_shape ?T" using shapeG by (simp add: sp_shape_def)
    show "sp_SN ?T ! b < sp_nAct S" if "b \<in> {?a, flip ?a}" for b
      using that len uv by (auto simp: nth_list_update)
    show "sp_SN S ! b = NoNode" if "b \<in> {?a, flip ?a}" "b < 2 * sp_mAct S" for b using that by auto
    show "b < 2 * sp_mAct S \<and> sp_SN ?T ! b = sp_SN S ! b \<and> sp_right ?T ! b = sp_right S ! b"
      if "b < 2 * sp_mAct ?T" "b \<notin> {?a, flip ?a}" for b
    proof -
      have "b < ?a" using that by (auto simp: G)
      then show ?thesis using old [of b] by (simp add: sp_grow_arcs_def nth_append G_def)
    qed
    show "length l' = 2 * sp_mMax ?T \<and> (\<exists>l. sp_left S = Some l \<and> (\<forall>b < 2 * sp_mAct S. l' ! b = l ! b))"
      if l': "sp_left ?T = Some l'" for l'
    proof -
      obtain l where l: "sp_left S = Some l" using l' by (auto simp: sp_grow_arcs_def G_def split: if_splits)
      then have "length l = 2 * sp_mMax S" using ok by (auto simp: rings_ok_def left_ok_def)
      then show ?thesis using l l' shape
        by (auto simp: sp_grow_arcs_def G_def sp_shape_def nth_append split: if_splits)
    qed
  qed (use uv G in simp_all)
qed

section \<open>Pools under insertion\<close>

definition pools_at :: "dims \<Rightarrow> sparse \<Rightarrow> bool" where
  "pools_at X S \<longleftrightarrow> ap_inv X (sp_representation S) \<and> ap_table (sp_representation S) = listOfReprPars
     \<and> ap_inv X (sp_geometry S) \<and> ap_table (sp_geometry S) = listOfGeometryPars
     \<and> ap_inv X (sp_layoutData S) \<and> ap_table (sp_layoutData S) = listOfLayoutPars
     \<and> raw_inv X (sp_registers S) \<and> ap_table (sp_registers S) = listOfRegisters"

lemma pools_ok_at: "pools_ok S \<longleftrightarrow> pools_at (sp_SizeInfo S) S"
  by (simp add: pools_ok_def pools_at_def)

text \<open>The tokens of the representation that have values.\<close>

definition repr_tokens :: "nat set" where
  "repr_tokens = {TokReprUCap, TokReprLCap, TokReprLength, TokReprDemand, TokReprOrientation}"

lemma repr_tokens_table:
  assumes "t \<in> repr_tokens"
  shows "t < length listOfReprPars" "primaryIndex (listOfReprPars ! t) = t"
    "arrayDim (listOfReprPars ! t) = (if t = TokReprDemand then DIM_GRAPH_NODES else DIM_GRAPH_ARCS)"
  using assms by (auto simp: repr_tokens_def token_defs listOfReprPars_def entry_def)

lemma geometry_dims:
  "t < length listOfGeometryPars \<Longrightarrow> arrayDim (listOfGeometryPars ! t) \<in> {DIM_SINGLETON, DIM_LAYOUT_NODES}"
  by (auto simp: listOfGeometryPars_def entry_def less_Suc_eq numeral_nat)

lemma ap_inv_other_dim:
  assumes "ap_inv X P" "resized X d n X'" "\<And>t. t < length (ap_table P) \<Longrightarrow> arrayDim (ap_table P ! t) \<noteq> d"
  shows "ap_inv X' P"
  using assms unfolding ap_inv_def ap_entry_ok_def resized_def by fastforce

lemma AppendItems_ok:
  assumes inv: "ap_inv X P" and X': "resized X d (X d SIZE_ACTUAL + k) X'" and ne: "0 < length (ap_table P)"
  obtains P' where "attributePool_AppendItems P d k = Inr P'" "ap_inv X' P'" "ap_table P' = ap_table P"
    "\<And>t i w. t < length (ap_table P) \<Longrightarrow> attributePool_GetValue P' t i w = attributePool_GetValue P t i w"
proof -
  obtain P' where P': "attributePool_AppendItems P d k = Inr P'"
    using attributePool_rank_facts(3) [OF inv ne] by blast
  show ?thesis
    by (rule that [OF P' ap_inv_AppendItems [OF inv P' X']])
       (use ap_forall_table P' attributePool_values_facts(1) [OF inv _ P'] in \<open>auto simp: attributePool_AppendItems_def\<close>)
qed

lemma tables_nonempty [simp]:
  "0 < length listOfReprPars" "0 < length listOfLayoutPars" "0 < length listOfRegisters" "0 < length listOfGeometryPars"
  by (simp_all add: listOfReprPars_def listOfLayoutPars_def listOfRegisters_def listOfGeometryPars_def)

lemma sp_append_ok:
  assumes pools: "pools_at X S" and X': "resized X d (X d SIZE_ACTUAL + k) X'" and d: "d \<noteq> DIM_SINGLETON" "d \<noteq> DIM_LAYOUT_NODES"
  obtains P R L where "sp_append S d k = Inr (S\<lparr>sp_representation := P, sp_registers := R, sp_layoutData := L\<rparr>)"
    "pools_at X' (S\<lparr>sp_representation := P, sp_registers := R, sp_layoutData := L\<rparr>)"
    "\<And>t i w. t \<in> repr_tokens \<Longrightarrow> attributePool_GetValue P t i w = attributePool_GetValue (sp_representation S) t i w"
proof -
  have inv: "ap_inv X (sp_representation S)" "ap_inv X (sp_geometry S)" "ap_inv X (sp_layoutData S)" "raw_inv X (sp_registers S)"
    and tb: "ap_table (sp_representation S) = listOfReprPars" "ap_table (sp_geometry S) = listOfGeometryPars"
      "ap_table (sp_layoutData S) = listOfLayoutPars" "ap_table (sp_registers S) = listOfRegisters"
    using pools by (simp_all add: pools_at_def)
  have ne: "0 < length (ap_table (sp_representation S))" "0 < length (ap_table (sp_registers S))"
    "0 < length (ap_table (sp_layoutData S))" by (simp_all only: tb tables_nonempty)
  obtain P where P: "attributePool_AppendItems (sp_representation S) d k = Inr P" "ap_inv X' P" "ap_table P = listOfReprPars"
    "\<And>t i w. t < length listOfReprPars \<Longrightarrow> attributePool_GetValue P t i w = attributePool_GetValue (sp_representation S) t i w"
    using AppendItems_ok [OF inv(1) X' ne(1)] unfolding tb by metis
  obtain R where R: "attributePool_AppendItems (sp_registers S) d k = Inr R" "raw_inv X' R" "ap_table R = listOfRegisters"
    using raw_AppendItems [OF inv(4) X'] unfolding tb by metis
  obtain L where L: "attributePool_AppendItems (sp_layoutData S) d k = Inr L" "ap_inv X' L" "ap_table L = listOfLayoutPars"
    using AppendItems_ok [OF inv(3) X' ne(3)] unfolding tb by metis
  have "ap_inv X' (sp_geometry S)"
    by (rule ap_inv_other_dim [OF inv(2) X']) (use geometry_dims d tb in auto)
  then show ?thesis
    by (intro that [where P = P and R = R and L = L]) (use P R L tb repr_tokens_table(1) in \<open>simp_all add: sp_append_def pools_at_def\<close>)
qed

section \<open>Attribute values\<close>

definition only_repr :: "sparse \<Rightarrow> sparse \<Rightarrow> bool" where
  "only_repr S S' \<longleftrightarrow> S' = S\<lparr>sp_representation := sp_representation S'\<rparr>"

lemma set_arc_attribute_ok:
  assumes pools: "pools_ok S" and t: "t \<in> repr_tokens" "t \<noteq> TokReprDemand" and a: "a < 2 * sp_mAct S"
  obtains S' where "set_arc_attribute S t dflt a v = Inr S'" "only_repr S S'" "pools_ok S'"
    "\<And>k. attributePool_GetValue (sp_representation S') t k dflt
       = (if k = a div 2 then v else attributePool_GetValue (sp_representation S) t k dflt)"
    "\<And>s k w. s \<in> repr_tokens \<Longrightarrow> s \<noteq> t \<Longrightarrow>
       attributePool_GetValue (sp_representation S') s k w = attributePool_GetValue (sp_representation S) s k w"
proof -
  let ?P = "sp_representation S" and ?X = "sp_SizeInfo S"
  have inv: "ap_inv ?X ?P" and tb: "ap_table ?P = listOfReprPars" using pools by (simp_all add: pools_ok_def)
  have prim: "s \<in> repr_tokens \<Longrightarrow> primary ?P s = s" for s using repr_tokens_table(2) [of s] by (simp add: primary_def tb)
  have d: "arrayDim (ap_table ?P ! t) = DIM_GRAPH_ARCS" using repr_tokens_table(3) [OF t(1)] t(2) by (simp add: tb)
  obtain P' where P': "repr_set ?X ?P t dflt (sp_mMax S) (sp_mAct S) (a div 2) v = Inr P'" "ap_inv ?X P'"
    "ap_table P' = ap_table ?P"
    "\<And>s k. s < length (ap_table ?P) \<Longrightarrow> primary ?P s = primary ?P t \<Longrightarrow>
       attributePool_GetValue P' s k dflt = (if k = a div 2 then v else attributePool_GetValue ?P s k dflt)"
    "\<And>s k w. s < length (ap_table ?P) \<Longrightarrow> primary ?P s \<noteq> primary ?P t \<Longrightarrow>
       attributePool_GetValue P' s k w = attributePool_GetValue ?P s k w"
  proof (rule repr_set_ok [OF inv, of t DIM_GRAPH_ARCS "sp_mMax S" "sp_mAct S" "a div 2" dflt v])
    show "t < length (ap_table ?P)" using repr_tokens_table(1) [OF t(1)] by (simp add: tb)
  qed (use d a that in \<open>simp_all add: sp_SizeInfo_def\<close>)
  let ?S = "S\<lparr>sp_representation := P'\<rparr>"
  have X: "sp_SizeInfo ?S = ?X" by (simp add: sp_SizeInfo_def fun_eq_iff split: TArrayDim.split)
  show ?thesis
  proof (rule that [of ?S])
    show "set_arc_attribute S t dflt a v = Inr ?S" using P'(1) by (simp add: set_arc_attribute_def)
    show "pools_ok ?S" using pools P'(2,3) unfolding pools_ok_def X by simp
  qed (use P'(4,5) prim t repr_tokens_table(1) in \<open>simp_all add: only_repr_def tb\<close>)
qed

lemma only_repr_simps:
  assumes "only_repr S S'"
  shows "same_inc S S'" "sp_sub S' = sp_sub S" "sp_calls S' = sp_calls S" "sp_SizeInfo S' = sp_SizeInfo S"
    "sp_referenced S' = sp_referenced S" "sp_maxArc S' = sp_maxArc S" "sp_maxNode S' = sp_maxNode S"
    "sp_mAct S' = sp_mAct S" "sp_nAct S' = sp_nAct S"
proof -
  obtain P where S': "S' = S\<lparr>sp_representation := P\<rparr>" using assms by (auto simp: only_repr_def)
  show "same_inc S S'" "sp_sub S' = sp_sub S" "sp_calls S' = sp_calls S" "sp_SizeInfo S' = sp_SizeInfo S"
    "sp_referenced S' = sp_referenced S" "sp_maxArc S' = sp_maxArc S" "sp_maxNode S' = sp_maxNode S"
    "sp_mAct S' = sp_mAct S" "sp_nAct S' = sp_nAct S"
    by (simp_all add: S' same_inc_def sp_SizeInfo_def fun_eq_iff split: TArrayDim.split)
qed

text \<open>Subgraph operations change the multiplicities and the call record only.\<close>

definition only_sub :: "sparse \<Rightarrow> sparse \<Rightarrow> bool" where
  "only_sub S S' \<longleftrightarrow> S' = S\<lparr>sp_sub := sp_sub S', sp_calls := sp_calls S'\<rparr>"

lemma only_sub_simps:
  assumes "only_sub S S'"
  shows "same_inc S S'" "sp_representation S' = sp_representation S" "sp_SizeInfo S' = sp_SizeInfo S"
    "sp_referenced S' = sp_referenced S" "sp_maxArc S' = sp_maxArc S" "sp_maxNode S' = sp_maxNode S"
    "sp_mAct S' = sp_mAct S" "sp_nAct S' = sp_nAct S" "sp_mMax S' = sp_mMax S" "pools_ok S' = pools_ok S"
    "sp_UCap S' = sp_UCap S" "sp_LCap S' = sp_LCap S"
proof -
  obtain x y where S': "S' = S\<lparr>sp_sub := x, sp_calls := y\<rparr>" using assms by (auto simp: only_sub_def)
  have X: "sp_SizeInfo S' = sp_SizeInfo S" by (simp add: S' sp_SizeInfo_def fun_eq_iff split: TArrayDim.split)
  then show "pools_ok S' = pools_ok S" by (simp add: pools_ok_def S')
  show "same_inc S S'" "sp_representation S' = sp_representation S" "sp_SizeInfo S' = sp_SizeInfo S"
    "sp_referenced S' = sp_referenced S" "sp_maxArc S' = sp_maxArc S" "sp_maxNode S' = sp_maxNode S"
    "sp_mAct S' = sp_mAct S" "sp_nAct S' = sp_nAct S" "sp_mMax S' = sp_mMax S"
    "sp_UCap S' = sp_UCap S" "sp_LCap S' = sp_LCap S"
    using X by (simp_all add: S' same_inc_def sp_UCap_def sp_LCap_def fun_eq_iff)
qed

lemma with_sub_ok:
  assumes "sub_ok S" "sp_mAct S \<le> sp_mMax S"
  obtains S' xs where "sp_with_sub S = Inr S'" "only_sub S S'" "sp_sub S' = Some xs" "length xs = sp_mMax S"
    "\<And>a. a < 2 * sp_mAct S \<Longrightarrow> sp_Sub S a = Inr (xs ! (a div 2))"
proof (cases "sp_sub S")
  case None
  let ?xs = "map (\<lambda>e. sp_LCap S (2 * e)) [0..<sp_mAct S] @ replicate (sp_mMax S - sp_mAct S) 0"
  obtain S' where S': "sp_with_sub S = Inr S'" "only_sub S S'" "sp_sub S' = Some ?xs"
    using None by (simp add: sp_with_sub_def sp_NewSubgraph_def only_sub_def)
  show thesis
  proof (rule that [OF S'])
    show "sp_Sub S a = Inr (?xs ! (a div 2))" if "a < 2 * sp_mAct S" for a
      using that None by (simp add: sp_Sub_def nth_append sp_LCap_def less_mult_imp_div_less mult.commute)
  qed (use assms(2) in simp)
next
  case (Some xs)
  then show thesis
    using assms that [of S xs] by (simp add: sp_with_sub_def sub_ok_def only_sub_def sp_Sub_def)
qed

lemma sp_SetSub_ok:
  assumes "sub_ok S" "sp_mAct S \<le> sp_mMax S" and a: "a < 2 * sp_mAct S" and s: "sp_Sub S a = Inr x"
    and range: "\<not> (x > 0 \<and> \<bar>r\<bar> < sp_LCap S a)" "\<not> (sp_UCap S a < InfCap \<and> \<bar>r\<bar> > sp_UCap S a)"
  obtains S' where "sp_SetSub S a r = Inr S'" "only_sub S S'" "sub_ok S'"
    "\<And>b. b < 2 * sp_mAct S \<Longrightarrow> sp_Sub S' b = (if b div 2 = a div 2 then Inr r else sp_Sub S b)"
proof -
  obtain S1 xs where S1: "sp_with_sub S = Inr S1" "only_sub S S1" "sp_sub S1 = Some xs" "length xs = sp_mMax S"
    "\<And>b. b < 2 * sp_mAct S \<Longrightarrow> sp_Sub S b = Inr (xs ! (b div 2))"
    using with_sub_ok [OF assms(1,2)] by metis
  let ?S = "(call (C_AdjustDegrees a (r - xs ! (a div 2))) S1)\<lparr>sp_sub := Some (xs[a div 2 := r])\<rparr>"
  have lt: "b div 2 < length xs" if "b < 2 * sp_mAct S" for b using that S1(4) assms(2) by simp
  obtain x1 y1 where e: "S1 = S\<lparr>sp_sub := x1, sp_calls := y1\<rparr>" using S1(2) by (auto simp: only_sub_def)
  show ?thesis
  proof (rule that [of ?S])
    show "sp_SetSub S a r = Inr ?S" using S1 s range a by (simp add: sp_SetSub_def Let_def)
    show "only_sub S ?S" by (simp add: e only_sub_def call_def)
    show "sub_ok ?S" using S1(4) by (simp add: sub_ok_def call_def e)
    show "sp_Sub ?S b = (if b div 2 = a div 2 then Inr r else sp_Sub S b)" if "b < 2 * sp_mAct S" for b
      using that S1(5) [OF that] lt [OF that] by (auto simp: sp_Sub_def call_def e nth_list_update)
  qed
qed

section \<open>Insertion of an arc\<close>

text \<open>The state in which \<open>InsertArc\<close> has routed the new arc, before it enlarges the pools.\<close>

definition sp_routed :: "sparse \<Rightarrow> nat \<Rightarrow> nat \<Rightarrow> real \<Rightarrow> sparse" where
  "sp_routed S u v lcap =
     (let S = call C_ReleaseEmbedding (call C_ReleaseInvestigators S);
          S = sp_grow_arcs (S\<lparr>sp_mAct := sp_mAct S + 1\<rparr>);
          a = sp_mAct S - 1;
          S = sp_SetRouting S (2 * a) u v
      in case sp_sub S of
           None \<Rightarrow> S
         | Some xs \<Rightarrow> let S = S\<lparr>sp_sub := Some (xs[a := lcap])\<rparr> in if lcap > 0 then call C_ReleaseDegrees S else S)"

lemma call_frame [simp]:
  "sp_nAct (call c S) = sp_nAct S" "sp_nMax (call c S) = sp_nMax S" "sp_mAct (call c S) = sp_mAct S"
  "sp_mMax (call c S) = sp_mMax S" "sp_lAct (call c S) = sp_lAct S" "sp_lMax (call c S) = sp_lMax S"
  "sp_SN (call c S) = sp_SN S" "sp_right (call c S) = sp_right S" "sp_first (call c S) = sp_first S"
  "sp_left (call c S) = sp_left S" "sp_sub (call c S) = sp_sub S" "sp_representation (call c S) = sp_representation S"
  "sp_geometry (call c S) = sp_geometry S" "sp_layoutData (call c S) = sp_layoutData S"
  "sp_registers (call c S) = sp_registers S" "sp_referenced (call c S) = sp_referenced S"
  "sp_maxNode (call c S) = sp_maxNode S" "sp_maxArc (call c S) = sp_maxArc S"
  by (simp_all add: call_def)

lemma grow_frame [simp]:
  "sp_nAct (sp_grow_arcs S) = sp_nAct S" "sp_nMax (sp_grow_arcs S) = sp_nMax S" "sp_mAct (sp_grow_arcs S) = sp_mAct S"
  "sp_lAct (sp_grow_arcs S) = sp_lAct S" "sp_lMax (sp_grow_arcs S) = sp_lMax S" "sp_first (sp_grow_arcs S) = sp_first S"
  "sp_representation (sp_grow_arcs S) = sp_representation S" "sp_geometry (sp_grow_arcs S) = sp_geometry S"
  "sp_layoutData (sp_grow_arcs S) = sp_layoutData S" "sp_registers (sp_grow_arcs S) = sp_registers S"
  "sp_referenced (sp_grow_arcs S) = sp_referenced S" "sp_maxNode (sp_grow_arcs S) = sp_maxNode S"
  "sp_maxArc (sp_grow_arcs S) = sp_maxArc S"
  by (simp_all add: sp_grow_arcs_def)

lemma routed_frame:
  "sp_nAct (sp_routed S u v l) = sp_nAct S" "sp_nMax (sp_routed S u v l) = sp_nMax S"
  "sp_mAct (sp_routed S u v l) = sp_mAct S + 1" "sp_lAct (sp_routed S u v l) = sp_lAct S"
  "sp_lMax (sp_routed S u v l) = sp_lMax S" "sp_representation (sp_routed S u v l) = sp_representation S"
  "sp_geometry (sp_routed S u v l) = sp_geometry S" "sp_layoutData (sp_routed S u v l) = sp_layoutData S"
  "sp_registers (sp_routed S u v l) = sp_registers S" "sp_referenced (sp_routed S u v l) = sp_referenced S"
  "sp_maxNode (sp_routed S u v l) = sp_maxNode S" "sp_maxArc (sp_routed S u v l) = sp_maxArc S"
  by (simp_all add: sp_routed_def Let_def split: option.split)

lemma routed_sub:
  "sp_sub (sp_routed S u v l) = map_option (\<lambda>xs. (if sp_mMax S = sp_mAct S then xs @ [0] else xs)[sp_mAct S := l]) (sp_sub S)"
  by (auto simp: sp_routed_def Let_def sp_grow_arcs_def split: option.split)

lemma routed_rings:
  assumes inv: "sp_inv S" and uv: "u < sp_nAct S" "v < sp_nAct S" and sz: "2 * sp_mMax S + 2 \<le> NoArc"
  shows "rings_ok (sp_routed S u v l) {}" "paired (sp_routed S u v l)" "sub_ok (sp_routed S u v l)"
    "sp_SN (sp_routed S u v l) ! (2 * sp_mAct S) = u" "sp_SN (sp_routed S u v l) ! Suc (2 * sp_mAct S) = v"
    "\<And>b. b < 2 * sp_mAct S \<Longrightarrow> sp_SN (sp_routed S u v l) ! b = sp_SN S ! b"
proof -
  define S0 where "S0 = call C_ReleaseEmbedding (call C_ReleaseInvestigators S)"
  define G where "G = sp_grow_arcs (S0\<lparr>sp_mAct := sp_mAct S0 + 1\<rparr>)"
  define T where "T = sp_SetRouting G (2 * sp_mAct S0) u v"
  let ?U = "sp_routed S u v l" and ?m = "sp_mAct S"
  have ok0: "rings_ok S0 {}" using inv same_inc_rings [of S S0] by (simp add: sp_inv_def same_inc_def S0_def)
  have m0: "sp_mAct S0 = ?m" "sp_mMax S0 = sp_mMax S" "sp_nAct S0 = sp_nAct S" "sp_SN S0 = sp_SN S" by (simp_all add: S0_def)
  have T: "rings_ok T {}" unfolding T_def G_def by (rule rings_new_arc [OF ok0]) (use uv sz m0 in simp_all)
  have U: "same_inc T ?U"
    by (simp add: sp_routed_def Let_def T_def G_def S0_def same_inc_def split: option.split)
  then show ok: "rings_ok ?U {}" using T same_inc_rings by blast
  have shape: "sp_shape S" using inv by (rule sp_inv_shape)
  have mU: "sp_mAct ?U = Suc ?m" by (simp add: routed_frame)
  have lenG: "2 * ?m < length (sp_SN G)" "Suc (2 * ?m) < length (sp_SN G)"
    using shape_lt(1) [OF rings_shape [OF ok], of "2 * ?m"] shape_lt(1) [OF rings_shape [OF ok], of "Suc (2 * ?m)"] U mU
    by (simp_all add: same_inc_def T_def m0)
  have SN: "sp_SN ?U = (sp_SN G)[2 * ?m := u, Suc (2 * ?m) := v]" using U by (simp add: same_inc_def T_def m0)
  then show 1: "sp_SN ?U ! (2 * ?m) = u" "sp_SN ?U ! Suc (2 * ?m) = v" using lenG by simp_all
  show 2: "sp_SN ?U ! b = sp_SN S ! b" if "b < 2 * ?m" for b
  proof -
    have "sp_SN G = (if sp_mMax S = ?m then sp_SN S @ [NoNode, NoNode] else sp_SN S)"
      by (simp add: G_def sp_grow_arcs_def m0)
    then have "sp_SN G ! b = sp_SN S ! b" using shape_lt(1) [OF shape that] by (simp add: nth_append)
    then show ?thesis using that SN by simp
  qed
  have "sp_SN ?U ! b = NoNode \<longleftrightarrow> sp_SN ?U ! flip b = NoNode" if lt: "b < 2 * sp_mAct ?U" for b
  proof (cases "b < 2 * ?m")
    case True
    then have "sp_SN S ! b = NoNode \<longleftrightarrow> sp_SN S ! flip b = NoNode" using inv unfolding sp_inv_def paired_def by blast
    then show ?thesis using 2 [OF True] 2 [of "flip b"] True by (metis flip_lt)
  next
    case False
    have "b < 2 * Suc ?m" using lt unfolding mU .
    with False have "b = 2 * ?m \<or> b = Suc (2 * ?m)" by presburger
    moreover have "sp_SN ?U ! (2 * ?m) \<noteq> NoNode" "sp_SN ?U ! Suc (2 * ?m) \<noteq> NoNode"
      unfolding 1 using shape_lt(2) [OF shape uv(1)] shape_lt(2) [OF shape uv(2)] by blast+
    moreover have f: "flip (Suc (2 * ?m)) = 2 * ?m" "flip (2 * ?m) = Suc (2 * ?m)" by (simp_all add: flip_def)
    ultimately show ?thesis by (elim disjE) (simp_all only: f)
  qed
  then show "paired ?U" unfolding paired_def by blast
  have "sp_mMax ?U = (if sp_mMax S = ?m then ?m + 1 else sp_mMax S)"
    using U by (simp add: same_inc_def T_def G_def sp_grow_arcs_def m0)
  then show "sub_ok ?U" using inv by (auto simp: sub_ok_def sp_inv_def routed_sub)
qed

lemma SizeInfo_dims:
  assumes "sp_shape S"
  shows "dims_ok (sp_SizeInfo S)"
  using assms by (auto simp: dims_ok_def sp_SizeInfo_def sp_shape_def NoIndex_def NoArc_def NoNode_def split: TArrayDim.splits)

lemma routed_append:
  assumes inv: "sp_inv S" and uv: "u < sp_nAct S" "v < sp_nAct S" and sz: "2 * sp_mMax S + 2 \<le> NoArc"
  obtains W P R L where "rbind (sp_append (sp_routed S u v l) DIM_GRAPH_ARCS 1) (\<lambda>S. sp_append S DIM_ARCS_TWICE 2) = Inr W"
    "W = (sp_routed S u v l)\<lparr>sp_representation := P, sp_registers := R, sp_layoutData := L\<rparr>" "pools_ok W"
    "\<And>t i w. t \<in> repr_tokens \<Longrightarrow> attributePool_GetValue P t i w = attributePool_GetValue (sp_representation S) t i w"
proof -
  let ?U = "sp_routed S u v l"
  let ?X = "sp_SizeInfo S" and ?Y = "sp_SizeInfo ?U"
  define M where "M = (\<lambda>d. if d = DIM_GRAPH_ARCS then ?Y d else ?X d)"
  have dX: "dims_ok ?X" using SizeInfo_dims [OF sp_inv_shape [OF inv]] .
  have dY: "dims_ok ?Y" using SizeInfo_dims [OF rings_shape [OF routed_rings(1) [OF assms]]] .
  have dM: "dims_ok M" using dX dY by (simp add: dims_ok_def M_def)
  have pX: "pools_at ?X ?U" using inv by (simp add: sp_inv_def pools_ok_at pools_at_def routed_frame)
  have 1: "resized ?X DIM_GRAPH_ARCS (?X DIM_GRAPH_ARCS SIZE_ACTUAL + 1) M"
    using dM by (simp add: resized_def M_def sp_SizeInfo_def routed_frame)
  have 2: "resized M DIM_ARCS_TWICE (M DIM_ARCS_TWICE SIZE_ACTUAL + 2) ?Y"
    using dY by (simp add: resized_def M_def sp_SizeInfo_def routed_frame split: TArrayDim.split)
  obtain P R L where V: "sp_append ?U DIM_GRAPH_ARCS 1 = Inr (?U\<lparr>sp_representation := P, sp_registers := R, sp_layoutData := L\<rparr>)"
    "pools_at M (?U\<lparr>sp_representation := P, sp_registers := R, sp_layoutData := L\<rparr>)"
    "\<And>t i w. t \<in> repr_tokens \<Longrightarrow> attributePool_GetValue P t i w = attributePool_GetValue (sp_representation ?U) t i w"
    using sp_append_ok [OF pX 1] by (metis TArrayDim.distinct)
  let ?V = "?U\<lparr>sp_representation := P, sp_registers := R, sp_layoutData := L\<rparr>"
  obtain P' R' L' where W: "sp_append ?V DIM_ARCS_TWICE 2 = Inr (?V\<lparr>sp_representation := P', sp_registers := R', sp_layoutData := L'\<rparr>)"
    "pools_at ?Y (?V\<lparr>sp_representation := P', sp_registers := R', sp_layoutData := L'\<rparr>)"
    "\<And>t i w. t \<in> repr_tokens \<Longrightarrow> attributePool_GetValue P' t i w = attributePool_GetValue (sp_representation ?V) t i w"
    using sp_append_ok [OF V(2) 2] by (metis TArrayDim.distinct)
  let ?W = "?U\<lparr>sp_representation := P', sp_registers := R', sp_layoutData := L'\<rparr>"
  have e: "?V\<lparr>sp_representation := P', sp_registers := R', sp_layoutData := L'\<rparr> = ?W" by simp
  have "sp_SizeInfo ?W = ?Y" by (simp add: sp_SizeInfo_def fun_eq_iff split: TArrayDim.split)
  then have "pools_ok ?W" using W(2) unfolding e by (simp add: pools_ok_at)
  then show ?thesis
    using that [where W = ?W and P = P' and R = R' and L = L'] V W unfolding e by (simp add: routed_frame)
qed

lemma repr_tokens_mem:
  "TokReprUCap \<in> repr_tokens" "TokReprLCap \<in> repr_tokens" "TokReprLength \<in> repr_tokens" "TokReprOrientation \<in> repr_tokens"
  "TokReprUCap \<noteq> TokReprDemand" "TokReprLCap \<noteq> TokReprDemand" "TokReprLength \<noteq> TokReprDemand" "TokReprOrientation \<noteq> TokReprDemand"
  "TokReprUCap \<noteq> TokReprLCap" "TokReprUCap \<noteq> TokReprLength" "TokReprLCap \<noteq> TokReprLength" "TokReprLCap \<noteq> TokReprUCap"
  "TokReprLength \<noteq> TokReprUCap" "TokReprLength \<noteq> TokReprLCap"
  "TokReprOrientation \<noteq> TokReprUCap" "TokReprOrientation \<noteq> TokReprLCap" "TokReprOrientation \<noteq> TokReprLength"
  by (simp_all add: repr_tokens_def token_defs)

definition sp_length :: "sparse \<Rightarrow> nat \<Rightarrow> real" where
  "sp_length S a = attributePool_GetValue (sp_representation S) TokReprLength (a div 2) 1"

lemma only_repr_Sub:
  "only_repr S S' \<Longrightarrow> sp_LCap S' a = sp_LCap S a \<Longrightarrow> sp_Sub S' a = sp_Sub S a"
  using only_repr_simps [of S S'] by (simp add: sp_Sub_def split: option.split)

text \<open>The setters on the new arc, in the order of \<open>InsertArc\<close>.\<close>

lemma InsertArc_setters:
  assumes pools: "pools_ok W" and sub: "sub_ok W" and m: "sp_mAct W \<le> sp_mMax W" and a: "a < 2 * sp_mAct W"
    and caps: "0 \<le> lcap" "lcap \<le> ucap" "0 \<le> sp_LCap W a" "sp_LCap W a \<le> ucap" and new: "\<And>xs. sp_sub W = Some xs \<Longrightarrow> xs ! (a div 2) = lcap"
  obtains Z where "rbind (sp_SetLength W a len) (\<lambda>S. rbind (sp_SetUCap S a ucap) (\<lambda>S. sp_SetLCap S a lcap)) = Inr Z"
    "same_inc W Z" "pools_ok Z" "sub_ok Z" "sp_referenced Z = sp_referenced W" "sp_maxNode Z = sp_maxNode W" "sp_maxArc Z = sp_maxArc W"
    "\<And>b. sp_UCap Z b = (if b div 2 = a div 2 then ucap else sp_UCap W b)"
    "\<And>b. sp_LCap Z b = (if b div 2 = a div 2 then lcap else sp_LCap W b)"
    "\<And>b. sp_length Z b = (if b div 2 = a div 2 then len else sp_length W b)"
    "\<And>b. b < 2 * sp_mAct W \<Longrightarrow> sp_Sub Z b = (if b div 2 = a div 2 then Inr lcap else sp_Sub W b)"
    "\<And>b. sp_Orientation Z b = sp_Orientation W b"
proof -
  note tok = repr_tokens_mem
  obtain W1 where W1: "set_arc_attribute W TokReprLength 1 a len = Inr W1" "only_repr W W1" "pools_ok W1"
    "\<And>k. attributePool_GetValue (sp_representation W1) TokReprLength k 1
       = (if k = a div 2 then len else attributePool_GetValue (sp_representation W) TokReprLength k 1)"
    "\<And>s k w. s \<in> repr_tokens \<Longrightarrow> s \<noteq> TokReprLength \<Longrightarrow>
       attributePool_GetValue (sp_representation W1) s k w = attributePool_GetValue (sp_representation W) s k w"
    using set_arc_attribute_ok [OF pools tok(3,7) a] by metis
  note f1 = only_repr_simps [OF W1(2)]
  have L1: "sp_LCap W1 b = sp_LCap W b" for b using W1(5) tok by (simp add: sp_LCap_def)
  have S1: "sp_Sub W1 b = sp_Sub W b" for b using only_repr_Sub [OF W1(2)] L1 by simp
  have a1: "a < 2 * sp_mAct W1" using a f1 by simp
  obtain W2 where W2: "set_arc_attribute W1 TokReprUCap 1 a ucap = Inr W2" "only_repr W1 W2" "pools_ok W2"
    "\<And>k. attributePool_GetValue (sp_representation W2) TokReprUCap k 1
       = (if k = a div 2 then ucap else attributePool_GetValue (sp_representation W1) TokReprUCap k 1)"
    "\<And>s k w. s \<in> repr_tokens \<Longrightarrow> s \<noteq> TokReprUCap \<Longrightarrow>
       attributePool_GetValue (sp_representation W2) s k w = attributePool_GetValue (sp_representation W1) s k w"
    using set_arc_attribute_ok [OF W1(3) tok(1,5) a1] by metis
  note f2 = only_repr_simps [OF W2(2)]
  have L2: "sp_LCap W2 b = sp_LCap W b" for b using W2(5) L1 tok by (simp add: sp_LCap_def)
  have S2: "sp_Sub W2 b = sp_Sub W b" for b using only_repr_Sub [OF W2(2)] L1 L2 S1 by simp
  have U2: "sp_UCap W2 a = ucap" using W2(4) by (simp add: sp_UCap_def)
  define x where "x = (case sp_sub W of None \<Rightarrow> sp_LCap W a | Some xs \<Rightarrow> lcap)"
  have Sa: "sp_Sub W a = Inr x" using a new by (auto simp: sp_Sub_def x_def split: option.split)
  have xu: "x \<le> ucap" using caps by (auto simp: x_def split: option.split)
  have r1: "sp_SetLength W a len = Inr W1" using W1(1) a by (simp add: sp_SetLength_def)
  have r2: "sp_SetUCap W1 a ucap = Inr W2" using W2(1) a1 S1 Sa xu caps by (simp add: sp_SetUCap_def)
  have a2: "a < 2 * sp_mAct W2" and sub2: "sub_ok W2" and m2: "sp_mAct W2 \<le> sp_mMax W2"
    using a1 f1 f2 sub m by (simp_all add: sub_ok_def same_inc_def)
  have x0: "0 \<le> x" using caps by (auto simp: x_def split: option.split)
  have u2: "\<not> (sp_UCap W2 a < InfCap \<and> \<bar>lcap\<bar> > sp_UCap W2 a)" using U2 caps by simp
  obtain W3 where W3: "(if \<bar>x\<bar> < lcap then sp_SetSub W2 a (if x \<ge> 0 then lcap else - lcap) else Inr W2) = Inr W3"
    "only_sub W2 W3" "sub_ok W3"
    "\<And>b. b < 2 * sp_mAct W \<Longrightarrow> b div 2 \<noteq> a div 2 \<Longrightarrow> sp_Sub W3 b = sp_Sub W b"
    "sp_sub W3 \<noteq> None \<Longrightarrow> sp_Sub W3 a = Inr lcap"
  proof (cases "\<bar>x\<bar> < lcap")
    case True
    have none: "sp_sub W = None" using True caps x0 by (auto simp: x_def split: option.splits)
    have l2: "\<not> (x > 0 \<and> \<bar>lcap\<bar> < sp_LCap W2 a)" using True none by (auto simp: x_def L2)
    obtain W3 where W3: "sp_SetSub W2 a lcap = Inr W3" "only_sub W2 W3" "sub_ok W3"
      "\<And>b. b < 2 * sp_mAct W2 \<Longrightarrow> sp_Sub W3 b = (if b div 2 = a div 2 then Inr lcap else sp_Sub W2 b)"
      using sp_SetSub_ok [OF sub2 m2 a2, of x lcap] S2 [of a] Sa l2 u2 by metis
    show thesis
    proof (rule that [of W3])
      show "(if \<bar>x\<bar> < lcap then sp_SetSub W2 a (if x \<ge> 0 then lcap else - lcap) else Inr W2) = Inr W3"
        using True x0 W3(1) by simp
    qed (use W3 a2 f1 f2 S2 in simp_all)
  next
    case False
    show thesis
    proof (rule that [of W2])
      show "sp_Sub W2 a = Inr lcap" if "sp_sub W2 \<noteq> None"
        using that S2 [of a] Sa f1 f2 by (auto simp: x_def)
    qed (use False sub2 S2 in \<open>simp_all add: only_sub_def\<close>)
  qed
  note f3 = only_sub_simps [OF W3(2)]
  have a3: "a < 2 * sp_mAct W3" and p3: "pools_ok W3" using a2 f3 W2(3) by simp_all
  obtain Z where Z: "set_arc_attribute W3 TokReprLCap 0 a lcap = Inr Z" "only_repr W3 Z" "pools_ok Z"
    "\<And>k. attributePool_GetValue (sp_representation Z) TokReprLCap k 0
       = (if k = a div 2 then lcap else attributePool_GetValue (sp_representation W3) TokReprLCap k 0)"
    "\<And>s k w. s \<in> repr_tokens \<Longrightarrow> s \<noteq> TokReprLCap \<Longrightarrow>
       attributePool_GetValue (sp_representation Z) s k w = attributePool_GetValue (sp_representation W3) s k w"
    using set_arc_attribute_ok [OF p3 tok(2,6) a3] by metis
  note fZ = only_repr_simps [OF Z(2)]
  have LZ: "sp_LCap Z b = (if b div 2 = a div 2 then lcap else sp_LCap W b)" for b
    using Z(4) f3 L2 by (simp add: sp_LCap_def)
  have r3: "sp_SetLCap W2 a lcap = Inr Z" using W3(1) Z(1) a2 S2 Sa caps by (simp add: sp_SetLCap_def)
  have SZ: "sp_Sub Z b = (if b div 2 = a div 2 then Inr lcap else sp_Sub W b)" if b: "b < 2 * sp_mAct W" for b
  proof (cases "sp_sub W3")
    case None
    then have "sp_sub Z = None" "sp_sub W2 = None"
      using fZ W3(1) by (auto simp: sp_SetSub_def Let_def rbind_Inr_iff split: if_splits)
    then show ?thesis using LZ [of b] b f1 f2 f3 fZ by (simp add: sp_Sub_def)
  next
    case (Some xs)
    then have "sp_Sub Z b = sp_Sub W3 b" using fZ by (simp add: sp_Sub_def)
    moreover have "sp_Sub W3 b = Inr lcap" if "b div 2 = a div 2"
      using W3(5) Some that b a3 f1 f2 f3 by (simp add: sp_Sub_def)
    ultimately show ?thesis using W3(4) [OF b] by auto
  qed
  show thesis
  proof (rule that [of Z])
    show "rbind (sp_SetLength W a len) (\<lambda>S. rbind (sp_SetUCap S a ucap) (\<lambda>S. sp_SetLCap S a lcap)) = Inr Z"
      by (simp add: r1 r2 r3)
    show "same_inc W Z" using f1(1) f2(1) f3(1) fZ(1) same_inc_trans by metis
    show "sub_ok Z" using W3(3) fZ by (simp add: sub_ok_def same_inc_def)
    show "sp_UCap Z b = (if b div 2 = a div 2 then ucap else sp_UCap W b)" for b
      using Z(5) W2(4) W1(5) f3(2) tok by (simp add: sp_UCap_def)
    show "sp_length Z b = (if b div 2 = a div 2 then len else sp_length W b)" for b
      using Z(5) W2(5) W1(4) f3(2) tok by (simp add: sp_length_def)
    show "sp_Orientation Z b = sp_Orientation W b" for b
      using Z(5) W2(5) W1(5) f3(2) tok by (simp add: sp_Orientation_def)
  qed (use Z(3) LZ SZ f1 f2 f3 fZ in simp_all)
qed

lemma call_values [simp]:
  "sp_UCap (call c S) b = sp_UCap S b" "sp_LCap (call c S) b = sp_LCap S b" "sp_length (call c S) b = sp_length S b"
  "sp_Sub (call c S) b = sp_Sub S b" "sp_Orientation (call c S) b = sp_Orientation S b"
  by (simp_all add: sp_UCap_def sp_LCap_def sp_length_def sp_Sub_def sp_Orientation_def cong: option.case_cong)

lemma InsertArc_eq:
  assumes "\<not> sp_referenced S" "u < sp_nAct S" "v < sp_nAct S" "2 * sp_mMax S \<le> sp_maxArc S - 2"
  shows "sp_InsertArc S u v ucap len lcap =
    rbind (rbind (sp_append (sp_routed S u v lcap) DIM_GRAPH_ARCS 1) (\<lambda>S. sp_append S DIM_ARCS_TWICE 2)) (\<lambda>W.
    rbind (rbind (sp_SetLength W (2 * sp_mAct S) len)
             (\<lambda>S'. rbind (sp_SetUCap S' (2 * sp_mAct S) ucap) (\<lambda>S''. sp_SetLCap S'' (2 * sp_mAct S) lcap)))
      (\<lambda>Z. Inr (sp_mAct S, call (C_MarkAdjacency u v (2 * sp_mAct S)) Z)))"
proof -
  have assoc: "rbind (rbind r f) g = rbind r (\<lambda>x. rbind (f x) g)" for r :: "'x result" and f :: "'x \<Rightarrow> 'y result" and g :: "'y \<Rightarrow> 'z result"
    by (cases r) simp_all
  show ?thesis
    using assms by (simp add: sp_InsertArc_def sp_routed_def Let_def assoc)
qed

lemma InsertArc_ok:
  assumes inv: "sp_inv S" and guards: "\<not> sp_referenced S" "u < sp_nAct S" "v < sp_nAct S" "2 * sp_mMax S \<le> sp_maxArc S - 2"
    and caps: "0 \<le> lcap" "lcap \<le> ucap" "0 \<le> sp_LCap S (2 * sp_mAct S)" "sp_LCap S (2 * sp_mAct S) \<le> ucap"
  obtains S' where "sp_InsertArc S u v ucap len lcap = Inr (sp_mAct S, S')" "sp_inv S'"
    "sp_mAct S' = sp_mAct S + 1" "sp_nAct S' = sp_nAct S"
    "sp_SN S' ! (2 * sp_mAct S) = u" "sp_SN S' ! Suc (2 * sp_mAct S) = v"
    "\<And>b. b < 2 * sp_mAct S \<Longrightarrow> sp_SN S' ! b = sp_SN S ! b"
    "\<And>b. sp_UCap S' b = (if b div 2 = sp_mAct S then ucap else sp_UCap S b)"
    "\<And>b. sp_LCap S' b = (if b div 2 = sp_mAct S then lcap else sp_LCap S b)"
    "\<And>b. sp_length S' b = (if b div 2 = sp_mAct S then len else sp_length S b)"
    "\<And>b. b < 2 * sp_mAct S' \<Longrightarrow> sp_Sub S' b = (if b div 2 = sp_mAct S then Inr lcap else sp_Sub S b)"
    "\<And>b. sp_Orientation S' b = sp_Orientation S b"
proof -
  let ?m = "sp_mAct S" and ?U = "sp_routed S u v lcap"
  have sz: "2 * sp_mMax S + 2 \<le> NoArc" using inv guards(4) unfolding sp_inv_def by linarith
  note R = routed_rings [OF inv guards(2,3) sz, where l = lcap]
  obtain W P R' L where W: "rbind (sp_append ?U DIM_GRAPH_ARCS 1) (\<lambda>S. sp_append S DIM_ARCS_TWICE 2) = Inr W"
    "W = ?U\<lparr>sp_representation := P, sp_registers := R', sp_layoutData := L\<rparr>" "pools_ok W"
    "\<And>t i w. t \<in> repr_tokens \<Longrightarrow> attributePool_GetValue P t i w = attributePool_GetValue (sp_representation S) t i w"
    using routed_append [OF inv guards(2,3) sz] by metis
  have UW: "same_inc ?U W" by (simp add: W(2) same_inc_def)
  have mW: "sp_mAct W = Suc ?m" "sp_nAct W = sp_nAct S" by (simp_all add: W(2) routed_frame)
  have vals: "sp_UCap W b = sp_UCap S b" "sp_LCap W b = sp_LCap S b" "sp_length W b = sp_length S b" "sp_Orientation W b = sp_Orientation S b" for b
    using W(2,4) repr_tokens_mem by (simp_all add: sp_UCap_def sp_LCap_def sp_length_def sp_Orientation_def)
  have subW: "sub_ok W" using R(3) W(2) by (simp add: sub_ok_def)
  have shapeS: "sp_shape S" using inv by (rule sp_inv_shape)
  have mm: "sp_mAct W \<le> sp_mMax W" using rings_shape [OF R(1)] W(2) by (simp add: sp_shape_def)
  have new: "xs ! (2 * ?m div 2) = lcap" if xs: "sp_sub W = Some xs" for xs
  proof -
    obtain ys where "sp_sub S = Some ys" "length ys = sp_mMax S"
      using xs W(2) inv by (auto simp: routed_sub sub_ok_def sp_inv_def)
    then show ?thesis using xs W(2) shapeS by (auto simp: routed_sub sp_shape_def nth_append)
  qed
  have capsW: "0 \<le> sp_LCap W (2 * ?m)" "sp_LCap W (2 * ?m) \<le> ucap" using caps vals by simp_all
  have aW: "2 * ?m < 2 * sp_mAct W" by (simp add: mW)
  obtain Z where Z: "rbind (sp_SetLength W (2 * ?m) len) (\<lambda>S'. rbind (sp_SetUCap S' (2 * ?m) ucap) (\<lambda>S''. sp_SetLCap S'' (2 * ?m) lcap)) = Inr Z"
    "same_inc W Z" "pools_ok Z" "sub_ok Z" "sp_referenced Z = sp_referenced W" "sp_maxNode Z = sp_maxNode W" "sp_maxArc Z = sp_maxArc W"
    "\<And>b. sp_UCap Z b = (if b div 2 = 2 * ?m div 2 then ucap else sp_UCap W b)"
    "\<And>b. sp_LCap Z b = (if b div 2 = 2 * ?m div 2 then lcap else sp_LCap W b)"
    "\<And>b. sp_length Z b = (if b div 2 = 2 * ?m div 2 then len else sp_length W b)"
    "\<And>b. b < 2 * sp_mAct W \<Longrightarrow> sp_Sub Z b = (if b div 2 = 2 * ?m div 2 then Inr lcap else sp_Sub W b)"
    "\<And>b. sp_Orientation Z b = sp_Orientation W b"
    by (rule InsertArc_setters [OF W(3) subW mm aW caps(1,2) capsW, where len = len], erule new, rule that)
  let ?Z = "call (C_MarkAdjacency u v (2 * ?m)) Z"
  have UZ: "same_inc ?U ?Z" using same_inc_trans [OF UW Z(2)] by (simp add: same_inc_def)
  have X: "sp_SizeInfo ?Z = sp_SizeInfo Z" by (simp add: sp_SizeInfo_def fun_eq_iff split: TArrayDim.split)
  have subS: "sp_Sub W b = sp_Sub S b" if "b < 2 * ?m" for b
  proof -
    have "b div 2 < ?m" using that by simp
    moreover have "length ys = sp_mMax S" if "sp_sub S = Some ys" for ys
      using inv that by (auto simp: sp_inv_def sub_ok_def)
    ultimately show ?thesis
      using that vals(2) [of b] shapeS W(2) by (auto simp: sp_Sub_def routed_frame routed_sub sp_shape_def nth_append split: option.split)
  qed
  show ?thesis
  proof (rule that [of ?Z])
    show "sp_InsertArc S u v ucap len lcap = Inr (?m, ?Z)"
      unfolding InsertArc_eq [OF guards] W(1) by (simp add: Z(1))
    show "sp_inv ?Z"
      using R(1,2) UZ same_inc_rings [OF UZ] inv Z W(2) X
      by (simp add: sp_inv_def paired_def same_inc_def pools_ok_def sub_ok_def routed_frame)
    show "sp_Sub ?Z b = (if b div 2 = ?m then Inr lcap else sp_Sub S b)" if "b < 2 * sp_mAct ?Z" for b
    proof -
      have b: "b < 2 * sp_mAct W" using that Z(2) by (simp add: same_inc_def)
      have "b div 2 \<noteq> ?m \<Longrightarrow> b < 2 * ?m" using b by (simp add: mW)
      then show ?thesis using Z(11) [OF b] subS [of b] by simp
    qed
  qed (use R UZ mW Z vals in \<open>simp_all add: same_inc_def routed_frame\<close>)
qed

end
