(* ===== verification/Sparse_Cancel.thy ===== *)
theory Sparse_Cancel
  imports Sparse_Ops
begin

text \<open>
  Cancellation: \<open>CancelArc\<close> takes both arcs of an edge out of their rings and marks them with
  the start node \<open>NoNode\<close>; \<open>CancelNode\<close> repeats it until the node has no arcs, and \<open>RouteArc\<close>
  cancels an arc before it gets new end nodes.
\<close>

section \<open>States that differ in registers and entries of the rings only\<close>

definition keeps :: "sparse \<Rightarrow> sparse \<Rightarrow> bool" where
  "keeps S S' \<longleftrightarrow> sp_nAct S' = sp_nAct S \<and> sp_nMax S' = sp_nMax S \<and> sp_mAct S' = sp_mAct S \<and> sp_mMax S' = sp_mMax S
     \<and> sp_lAct S' = sp_lAct S \<and> sp_lMax S' = sp_lMax S \<and> sp_sub S' = sp_sub S
     \<and> sp_representation S' = sp_representation S \<and> sp_geometry S' = sp_geometry S \<and> sp_referenced S' = sp_referenced S
     \<and> sp_maxNode S' = sp_maxNode S \<and> sp_maxArc S' = sp_maxArc S"

definition keeps_arcs :: "sparse \<Rightarrow> sparse \<Rightarrow> bool" where
  "keeps_arcs S S' \<longleftrightarrow> keeps S S' \<and> sp_SN S' = sp_SN S \<and> sp_right S' = sp_right S"

lemma keeps_refl [simp]: "keeps S S" "keeps_arcs S S"
  by (simp_all add: keeps_def keeps_arcs_def)

lemma keeps_trans: "keeps S S' \<Longrightarrow> keeps S' S'' \<Longrightarrow> keeps S S''"
  "keeps_arcs S S' \<Longrightarrow> keeps_arcs S' S'' \<Longrightarrow> keeps_arcs S S''"
  by (simp_all add: keeps_def keeps_arcs_def)

lemma keeps_call [simp]: "keeps S (call c S)" "keeps_arcs S (call c S)"
  by (simp_all add: keeps_def keeps_arcs_def)

lemma keeps_SizeInfo: "keeps S S' \<Longrightarrow> sp_SizeInfo S' = sp_SizeInfo S"
  by (simp add: keeps_def sp_SizeInfo_def fun_eq_iff split: TArrayDim.split)

lemma keeps_live: "keeps_arcs S S' \<Longrightarrow> live S' D a = live S D a"
  by (simp add: keeps_arcs_def keeps_def live_def)

lemma keeps_sub_ok: "keeps S S' \<Longrightarrow> sub_ok S' = sub_ok S"
  by (simp add: keeps_def sub_ok_def)

lemma keeps_pools:
  assumes "keeps S S'" "pools_ok S" "sp_layoutData S' = sp_layoutData S" "sp_registers S' = sp_registers S"
  shows "pools_ok S'"
  using assms keeps_SizeInfo [OF assms(1)] by (simp add: pools_ok_def keeps_def)

lemma same_inc_call [simp]: "same_inc S (call c S)"
  by (simp add: same_inc_def)

lemma pools_ok_call [simp]: "pools_ok (call c S) = pools_ok S"
  using keeps_SizeInfo [OF keeps_call(1) [of S c]] by (simp add: pools_ok_def)

section \<open>Entries of the rings\<close>

lemma rings_set_first:
  assumes ok: "rings_ok S D" and v: "v < sp_nAct S" and a: "a \<in> arcs_at S D v"
  shows "rings_ok (S\<lparr>sp_first := (sp_first S)[v := a]\<rparr>) D"
proof -
  let ?S = "S\<lparr>sp_first := (sp_first S)[v := a]\<rparr>"
  have shape: "sp_shape S" using ok by (rule rings_shape)
  have same: "arcs_at ?S D w = arcs_at S D w" "live ?S D = live S D" for w by (simp_all add: arcs_at_def live_def fun_eq_iff)
  have "node_ok ?S D w" if w: "w < sp_nAct S" for w
  proof (cases "w = v")
    case True
    have "live S D a" using live_arcs_at [OF shape v a] .
    moreover have "sp_SN S ! a = v" using a by (simp add: arcs_at_def)
    ultimately obtain bs where "ring ((!) (sp_right S)) (a # bs)" "set (a # bs) = arcs_at S D v"
      using rings_at [OF ok] by metis
    moreover have "a \<noteq> NoArc" using shape_lt(1) [OF shape] a by (auto simp: arcs_at_def)
    ultimately show ?thesis using True shape_lt(2) [OF shape v] same(1) by (intro node_okI [of ?S w a bs]) simp_all
  next
    case False
    show ?thesis by (rule node_ok_cong [of S D w]) (use ok w False same(1) in \<open>simp_all add: rings_ok_def\<close>)
  qed
  then show ?thesis using ok same(2) by (simp add: rings_ok_def sp_shape_def left_ok_def)
qed

lemma SetFirst_ok:
  assumes ok: "rings_ok S {}" and a: "live S {} a"
  shows "sp_SetFirst S (sp_SN S ! a) a = Inr (S\<lparr>sp_first := (sp_first S)[sp_SN S ! a := a]\<rparr>)"
    "rings_ok (S\<lparr>sp_first := (sp_first S)[sp_SN S ! a := a]\<rparr>) {}"
proof -
  have v: "sp_SN S ! a < sp_nAct S" "a \<in> arcs_at S {} (sp_SN S ! a)" using ok a by (auto simp: rings_ok_def live_def arcs_at_def)
  show "rings_ok (S\<lparr>sp_first := (sp_first S)[sp_SN S ! a := a]\<rparr>) {}" by (rule rings_set_first [OF ok v])
  show "sp_SetFirst S (sp_SN S ! a) a = Inr (S\<lparr>sp_first := (sp_first S)[sp_SN S ! a := a]\<rparr>)"
    using v shape_lt(1) [OF rings_shape [OF ok], of a] a by (simp add: sp_SetFirst_def live_def)
qed

section \<open>The exterior face\<close>

lemma InitAttribute_singleton:
  assumes inv: "ap_inv X P" and t: "t < length (ap_table P)" and pos: "0 < X (arrayDim (ap_table P ! t)) SIZE_ACTUAL"
  obtains P' b where "attributePool_InitAttribute X P t v = Inr (b, P')" "ap_inv X P'" "ap_table P' = ap_table P"
proof (cases "attributePool_FindAttribute P t")
  case None
  then show thesis using InitAttribute_new [OF inv t None pos, of v] that by metis
next
  case (Some A)
  note A = FindAttribute_ok [OF inv t Some]
  show thesis
    using that ap_put_inv [OF inv t at_inv_Assign [OF A(1)], of v] A(2) Some
    by (simp add: attributePool_InitAttribute_def attribute_sizes)
qed

lemma ReleaseAttribute_inv: "ap_inv X P \<Longrightarrow> ap_inv X (attributePool_ReleaseAttribute P t)"
  using set_remove [of "primary P t" "ap_attributes P"]
  by (auto simp: ap_inv_def attributePool_ReleaseAttribute_def distinct_remove)

lemma SetExteriorArc_ok:
  assumes pools: "pools_ok S" and a: "a < 2 * sp_mAct S \<or> a = NoArc"
  obtains L where "sp_SetExteriorArc S a = Inr (S\<lparr>sp_layoutData := L\<rparr>)" "pools_ok (S\<lparr>sp_layoutData := L\<rparr>)"
proof -
  let ?X = "sp_SizeInfo S" and ?P = "sp_layoutData S"
  have X: "sp_SizeInfo (S\<lparr>sp_layoutData := L\<rparr>) = ?X" for L by (rule keeps_SizeInfo) (simp add: keeps_def)
  have inv: "ap_inv ?X ?P" and tb: "ap_table ?P = listOfLayoutPars" using pools by (simp_all add: pools_ok_def)
  have tok: "TokLayoutExteriorArc < length listOfLayoutPars" "arrayDim (listOfLayoutPars ! TokLayoutExteriorArc) = DIM_SINGLETON"
    by (simp_all add: TokLayoutExteriorArc_def listOfLayoutPars_def entry_def)
  show thesis
  proof (cases "a = NoArc")
    case True
    let ?L = "attributePool_ReleaseAttribute ?P TokLayoutExteriorArc"
    show thesis
      by (rule that [of ?L]) (use True ReleaseAttribute_inv [OF inv] pools X in
        \<open>simp_all add: sp_SetExteriorArc_def pools_ok_def, simp add: attributePool_ReleaseAttribute_def\<close>)
  next
    case False
    have "0 < ?X DIM_SINGLETON SIZE_ACTUAL" by (simp add: sp_SizeInfo_def)
    then obtain L b where L: "attributePool_InitAttribute ?X ?P TokLayoutExteriorArc (real a) = Inr (b, L)" "ap_inv ?X L"
      "ap_table L = ap_table ?P"
      using InitAttribute_singleton [OF inv, of TokLayoutExteriorArc "real a"] tok unfolding tb by metis
    show thesis
      by (rule that [of L]) (use False a L pools X in \<open>simp_all add: sp_SetExteriorArc_def pools_ok_def\<close>)
  qed
qed

text \<open>The first step of \<open>CancelArc\<close>; the face of an arc that follows its reverse is that arc alone.\<close>

lemma cancel_exterior_ok:
  assumes ok: "rings_ok S {}" and pools: "pools_ok S" and a: "live S {} a" "live S {} (flip a)"
  obtains S' where
    "(if sp_right S ! flip a = a then sp_MarkExteriorFace S (sp_right S ! flip a) else Some (sp_SetExteriorArc S NoArc))
       = Some (Inr S')"
    "keeps_arcs S S'" "rings_ok S' {}" "pools_ok S'"
proof (cases "sp_right S ! flip a = a")
  case False
  obtain L where L: "sp_SetExteriorArc S NoArc = Inr (S\<lparr>sp_layoutData := L\<rparr>)" "pools_ok (S\<lparr>sp_layoutData := L\<rparr>)"
    using SetExteriorArc_ok [OF pools, of NoArc] by metis
  show thesis
    by (rule that [of "S\<lparr>sp_layoutData := L\<rparr>"])
       (use False L ok same_inc_rings [of S "S\<lparr>sp_layoutData := L\<rparr>" "{}"] in \<open>simp_all add: keeps_arcs_def keeps_def same_inc_def\<close>)
next
  case True
  have lt: "a < 2 * sp_mAct S" "a \<noteq> NoArc"
    using a(1) shape_lt(1) [OF rings_shape [OF ok], of a] by (auto simp: live_def)
  obtain L where L: "sp_SetExteriorArc S a = Inr (S\<lparr>sp_layoutData := L\<rparr>)" "pools_ok (S\<lparr>sp_layoutData := L\<rparr>)"
    using SetExteriorArc_ok [OF pools, of a] lt(1) by metis
  let ?T = "S\<lparr>sp_layoutData := L\<rparr>"
  have T: "rings_ok ?T {}" "live ?T {} (flip a)"
    using ok same_inc_rings [of S ?T "{}"] a by (simp_all add: same_inc_def live_def)
  have walk: "arc_ring (\<lambda>b. sp_right ?T ! flip b) a a = Some [a]" using True by (subst arc_ring.simps) simp
  let ?U = "?T\<lparr>sp_first := (sp_first ?T)[sp_SN ?T ! flip a := flip a]\<rparr>"
  show thesis
  proof (rule that [of ?U])
    show "(if sp_right S ! flip a = a then sp_MarkExteriorFace S (sp_right S ! flip a) else Some (sp_SetExteriorArc S NoArc))
       = Some (Inr ?U)"
      using True lt L(1) walk SetFirst_ok(1) [OF T] by (simp add: sp_MarkExteriorFace_def)
    show "rings_ok ?U {}" by (rule SetFirst_ok(2) [OF T])
    show "pools_ok ?U" by (rule keeps_pools [OF _ L(2)]) (simp_all add: keeps_def)
  qed (simp add: keeps_arcs_def keeps_def)
qed

section \<open>Cancellation of an arc\<close>

lemma clear_pred_ok: "keeps_arcs S (sp_clear_pred S v)" "same_inc S (sp_clear_pred S v)" "pools_ok S \<Longrightarrow> pools_ok (sp_clear_pred S v)"
proof -
  show k: "keeps_arcs S (sp_clear_pred S v)" "same_inc S (sp_clear_pred S v)"
    by (simp_all add: sp_clear_pred_def keeps_arcs_def keeps_def same_inc_def split: option.split)
  assume pools: "pools_ok S"
  show "pools_ok (sp_clear_pred S v)"
  proof (cases "attributePool_FindAttribute (sp_registers S) TokRegPredecessor")
    case None
    then show ?thesis using pools by (simp add: sp_clear_pred_def)
  next
    case (Some A)
    let ?A = "A\<lparr>at_data := (at_data A)[v := real NoArc]\<rparr>"
    have "raw_inv (sp_SizeInfo S) (attributePool_put (sp_registers S) TokRegPredecessor ?A)"
      by (rule raw_put [OF _ Some]) (use pools in \<open>simp_all add: pools_ok_def attribute_Size_def\<close>)
    moreover have "sp_SizeInfo (sp_clear_pred S v) = sp_SizeInfo S"
      using k(1) keeps_SizeInfo by (simp add: keeps_arcs_def)
    ultimately show ?thesis using pools Some by (auto simp: pools_ok_def sp_clear_pred_def)
  qed
qed

lemma unlist_frame: "keeps S (sp_unlist a al S)" "sp_layoutData (sp_unlist a al S) = sp_layoutData S"
  "sp_registers (sp_unlist a al S) = sp_registers S"
  by (simp_all add: sp_unlist_def Let_def keeps_def)

lemma unlist_left: "sp_left S = Some l \<Longrightarrow> \<exists>l'. sp_left (sp_unlist a al S) = Some l'"
  by (simp add: sp_unlist_def Let_def)

text \<open>The second half: both arcs leave their rings.\<close>

lemma cancel_unlist_ok:
  assumes ok: "rings_ok S {}" and a: "live S {} a" "live S {} (flip a)"
  obtains al S1 S2 where "sp_Left S a = Inr (al, S1)"
    "S2 = sp_unlist (flip a) (the (sp_left (sp_unlist a al S1)) ! flip a) (sp_unlist a al S1)"
    "rings_ok S2 {}" "keeps S S2" "sp_SN S2 = (sp_SN S)[a := NoNode, flip a := NoNode]"
    "sp_layoutData S2 = sp_layoutData S" "sp_registers S2 = sp_registers S"
proof -
  obtain l where l: "sp_Left S a = Inr (l ! a, S\<lparr>sp_left := Some l\<rparr>)" "rings_ok (S\<lparr>sp_left := Some l\<rparr>) {}"
    "live S {} (l ! a)" "sp_right S ! (l ! a) = a"
    using sp_Left_ok [OF ok a(1)] by metis
  let ?S1 = "S\<lparr>sp_left := Some l\<rparr>"
  let ?T = "sp_unlist a (l ! a) ?S1"
  have lv: "live ?S1 {} b = live S {} b" for b by (simp add: live_def)
  have T: "rings_ok ?T {}" by (rule rings_unlist [OF l(2)]) (use l a lv in simp_all)
  obtain l' where l': "sp_left ?T = Some l'" using unlist_left [of ?S1 l] by auto
  have "live ?T {} (flip a)" using a(2) by (simp add: live_def)
  note inv = left_inverse [OF T l' this]
  let ?S2 = "sp_unlist (flip a) (l' ! flip a) ?T"
  have k1: "keeps S ?S1" by (simp add: keeps_def)
  show thesis
  proof (rule that [of "l ! a" ?S1 ?S2])
    show "rings_ok ?S2 {}" by (rule rings_unlist [OF T \<open>live ?T {} (flip a)\<close> inv(1,2)])
    show "keeps S ?S2"
      using keeps_trans(1) [OF k1 keeps_trans(1) [OF unlist_frame(1) unlist_frame(1)]] .
  qed (use l(1) l' in \<open>simp_all add: unlist_frame\<close>)
qed

lemma paired_flip: "paired S \<Longrightarrow> a < 2 * sp_mAct S \<Longrightarrow> (sp_SN S ! flip a = NoNode) = (sp_SN S ! a = NoNode)"
  unfolding paired_def by blast

lemma paired_cancel:
  assumes "paired S" "sp_mAct S' = sp_mAct S" "sp_SN S' = (sp_SN S)[a := NoNode, flip a := NoNode]" "sp_shape S" "a < 2 * sp_mAct S"
  shows "paired S'"
  unfolding paired_def
proof (intro allI impI)
  fix b assume b: "b < 2 * sp_mAct S'"
  have len: "a < length (sp_SN S)" "flip a < length (sp_SN S)"
    using shape_lt(1) [OF assms(4), of a] shape_lt(1) [OF assms(4), of "flip a"] assms(5) by simp_all
  show "sp_SN S' ! b = NoNode \<longleftrightarrow> sp_SN S' ! flip b = NoNode"
  proof (cases "b = a \<or> b = flip a")
    case True
    then show ?thesis using len by (auto simp: assms(3) nth_list_update)
  next
    case False
    then have "flip b \<noteq> a" "flip b \<noteq> flip a" by auto
    then have "sp_SN S' ! b = sp_SN S ! b" "sp_SN S' ! flip b = sp_SN S ! flip b" using False by (simp_all add: assms(3))
    then show ?thesis using assms(1,2) b unfolding paired_def by metis
  qed
qed

text \<open>
  A subgraph array has an entry per edge. \<open>CancelArc\<close> reads it at the index of the arc, which
  is in its bounds for the arcs of the lower half only.
\<close>

lemma CancelArc_ok:
  assumes inv: "sp_inv S" and a: "a < 2 * sp_mAct S" "sp_SN S ! a \<noteq> NoNode" and sub: "sp_sub S \<noteq> None \<Longrightarrow> a < sp_mMax S"
  obtains S' where "sp_CancelArc S a = Some (Inr S')" "sp_inv S'" "keeps S S'"
    "sp_SN S' = (sp_SN S)[a := NoNode, flip a := NoNode]"
proof -
  define S0 where "S0 = call C_ReleaseEmbedding (call (C_MarkAdjacency (sp_SN S ! a) (sp_SN S ! flip a) NoArc) S)"
  have k0: "keeps_arcs S S0" and i0: "same_inc S S0" by (simp_all add: S0_def keeps_arcs_def keeps_def same_inc_def)
  have ok0: "rings_ok S0 {}" using inv same_inc_rings [OF i0] by (simp add: sp_inv_def)
  have pools0: "pools_ok S0" using inv by (simp add: S0_def sp_inv_def)
  have "paired S" using inv by (simp add: sp_inv_def)
  then have fa: "flip a < 2 * sp_mAct S" "sp_SN S ! flip a \<noteq> NoNode"
    using a(1) paired_flip [OF _ a(1)] a(2) by simp_all
  have live0: "live S0 {} a" "live S0 {} (flip a)" using a fa unfolding keeps_live [OF k0] by (simp_all add: live_def)
  obtain S1 where S1: "(if sp_right S0 ! flip a = a then sp_MarkExteriorFace S0 (sp_right S0 ! flip a)
      else Some (sp_SetExteriorArc S0 NoArc)) = Some (Inr S1)"
    "keeps_arcs S0 S1" "rings_ok S1 {}" "pools_ok S1"
    using cancel_exterior_ok [OF ok0 pools0 live0] by metis
  define S2 where "S2 = (if sp_Pred S1 (sp_SN S ! flip a) = real a then sp_clear_pred S1 (sp_SN S ! flip a) else S1)"
  define S3 where "S3 = (if sp_Pred S2 (sp_SN S ! a) = real (flip a) then sp_clear_pred S2 (sp_SN S ! a) else S2)"
  define S4 where "S4 = (case sp_sub S3 of None \<Rightarrow> S3 | Some xs \<Rightarrow> call (C_AdjustDegrees (2 * (a div 2) + 1) (xs ! a)) S3)"
  have 2: "keeps_arcs S1 S2" "same_inc S1 S2" "pools_ok S2" using clear_pred_ok S1(4) by (simp_all add: S2_def)
  have 3: "keeps_arcs S2 S3" "same_inc S2 S3" "pools_ok S3" using clear_pred_ok 2(3) by (simp_all add: S3_def)
  have 4: "keeps_arcs S3 S4" "same_inc S3 S4" "pools_ok S4" using 3(3) by (simp_all add: S4_def split: option.split)
  have k: "keeps_arcs S S4"
    using keeps_trans(2) [OF k0 keeps_trans(2) [OF S1(2) keeps_trans(2) [OF 2(1) keeps_trans(2) [OF 3(1) 4(1)]]]] .
  have ok4: "rings_ok S4 {}"
    using S1(3) same_inc_rings [OF same_inc_trans [OF 2(2) same_inc_trans [OF 3(2) 4(2)]]] by simp
  have live4: "live S4 {} a" "live S4 {} (flip a)" using a fa unfolding keeps_live [OF k] by (simp_all add: live_def)
  obtain al S5 S6 where S6: "sp_Left S4 a = Inr (al, S5)"
    "S6 = sp_unlist (flip a) (the (sp_left (sp_unlist a al S5)) ! flip a) (sp_unlist a al S5)"
    "rings_ok S6 {}" "keeps S4 S6" "sp_SN S6 = (sp_SN S4)[a := NoNode, flip a := NoNode]"
    "sp_layoutData S6 = sp_layoutData S4" "sp_registers S6 = sp_registers S4"
    using cancel_unlist_ok [OF ok4 live4] by metis
  have SN: "sp_SN S6 = (sp_SN S)[a := NoNode, flip a := NoNode]" using S6(5) k by (simp add: keeps_arcs_def)
  have k6: "keeps S S6" using keeps_trans(1) [of S S4 S6] k S6(4) by (simp add: keeps_arcs_def)
  have sub3: "sp_sub S3 = sp_sub S" using k 4(1) by (simp add: keeps_arcs_def keeps_def)
  have r4: "(case sp_sub S3 of None \<Rightarrow> Inr S3
      | Some xs \<Rightarrow> if a \<ge> length xs then Inl OutOfBounds else Inr (call (C_AdjustDegrees (2 * (a div 2) + 1) (xs ! a)) S3)) = Inr S4"
    using sub inv unfolding sub3 S4_def by (cases "sp_sub S") (simp_all add: sp_inv_def sub_ok_def)
  show thesis
  proof (rule that [of S6])
    show "sp_CancelArc S a = Some (Inr S6)"
      unfolding sp_CancelArc_def Let_def S0_def [symmetric] S1(1) option.case rbind_simps S2_def [symmetric] S3_def [symmetric]
        r4 S6(1) prod.case S6(2) [symmetric] using a by simp
    have "pools_ok S6" by (rule keeps_pools [OF S6(4) 4(3) S6(6,7)])
    moreover have "paired S6"
      by (rule paired_cancel [OF _ _ SN]) (use inv k6 a rings_shape [of S "{}"] in \<open>simp_all add: sp_inv_def keeps_def\<close>)
    ultimately show "sp_inv S6" using inv S6(3) k6 keeps_sub_ok [OF k6] by (simp add: sp_inv_def keeps_def)
  qed (use k6 SN in simp_all)
qed

section \<open>Cancellation of a node\<close>

lemma arcs_at_finite [simp]: "finite (arcs_at S D v)"
  by (rule finite_subset [of _ "{..<2 * sp_mAct S}"]) (auto simp: arcs_at_def)

lemma arcs_at_cancel:
  assumes "sp_shape S" "a < 2 * sp_mAct S" "keeps S S'" "sp_SN S' = (sp_SN S)[a := NoNode, flip a := NoNode]" "v < sp_nAct S"
  shows "arcs_at S' {} v = arcs_at S {} v - {a, flip a}"
proof -
  have "a < length (sp_SN S)" "flip a < length (sp_SN S)"
    using shape_lt(1) [OF assms(1), of a] shape_lt(1) [OF assms(1), of "flip a"] assms(2) by simp_all
  moreover have "v \<noteq> NoNode" using shape_lt(2) [OF assms(1,5)] by simp
  ultimately show ?thesis using assms(3,4) by (auto simp: arcs_at_def keeps_def nth_list_update)
qed

text \<open>
  The loop ends, since every call removes an arc of the node. The edges of the node are gone and
  the others are as before.
\<close>

lemma cancel_all_ok:
  assumes "sp_inv S" "v < sp_nAct S" "\<And>a. a \<in> arcs_at S {} v \<Longrightarrow> sp_sub S \<noteq> None \<Longrightarrow> a < sp_mMax S"
  shows "\<exists>S'. sp_cancel_all S v = Some (Inr S') \<and> sp_inv S' \<and> keeps S S' \<and> sp_first S' ! v = NoArc
    \<and> (\<forall>b < 2 * sp_mAct S. sp_SN S' ! b = (if sp_SN S ! b = v \<or> sp_SN S ! flip b = v then NoNode else sp_SN S ! b))"
  using assms
proof (induction "card (arcs_at S {} v)" arbitrary: S rule: less_induct)
  case less
  note ok = sp_inv_rings [OF less.prems(1)] and shape = sp_inv_shape [OF less.prems(1)]
  let ?a = "sp_first S ! v"
  show ?case
  proof (cases "?a = NoArc")
    case True
    have none: "arcs_at S {} v = {}"
      using ok less.prems(2) by (cases rule: rings_node) (use True in simp_all)
    have "sp_SN S ! b \<noteq> v \<and> sp_SN S ! flip b \<noteq> v" if "b < 2 * sp_mAct S" for b
    proof -
      have "b \<notin> arcs_at S {} v" "flip b \<notin> arcs_at S {} v" by (simp_all add: none)
      then show ?thesis using that by (simp add: arcs_at_def)
    qed
    then show ?thesis using True less.prems(1) by (subst sp_cancel_all.simps) simp
  next
    case False
    note fl = first_live [OF ok less.prems(2) False]
    have a: "?a < 2 * sp_mAct S" "sp_SN S ! ?a \<noteq> NoNode" "?a \<in> arcs_at S {} v" using fl by (auto simp: live_def arcs_at_def)
    obtain T where T: "sp_CancelArc S ?a = Some (Inr T)" "sp_inv T" "keeps S T" "sp_SN T = (sp_SN S)[?a := NoNode, flip ?a := NoNode]"
      using CancelArc_ok [OF less.prems(1) a(1,2)] less.prems(3) [OF a(3)] by metis
    have kT: "sp_nAct T = sp_nAct S" "sp_mAct T = sp_mAct S" "sp_sub T = sp_sub S" "sp_mMax T = sp_mMax S"
      using T(3) by (simp_all add: keeps_def)
    have at: "arcs_at T {} v = arcs_at S {} v - {?a, flip ?a}"
      by (rule arcs_at_cancel [OF shape a(1) T(3,4) less.prems(2)])
    then have "card (arcs_at T {} v) < card (arcs_at S {} v)" using a(3) by (intro psubset_card_mono) auto
    then obtain S' where S': "sp_cancel_all T v = Some (Inr S')" "sp_inv S'" "keeps T S'" "sp_first S' ! v = NoArc"
      "\<forall>b < 2 * sp_mAct T. sp_SN S' ! b = (if sp_SN T ! b = v \<or> sp_SN T ! flip b = v then NoNode else sp_SN T ! b)"
      using less.hyps [of T] T(2) less.prems(2,3) at kT by auto
    have "sp_SN S' ! b = (if sp_SN S ! b = v \<or> sp_SN S ! flip b = v then NoNode else sp_SN S ! b)" if b: "b < 2 * sp_mAct S" for b
    proof -
      have len: "?a < length (sp_SN S)" "flip ?a < length (sp_SN S)"
        using shape_lt(1) [OF shape, of ?a] shape_lt(1) [OF shape, of "flip ?a"] a(1) by simp_all
      have Tb: "sp_SN T ! c = (if c = ?a \<or> c = flip ?a then NoNode else sp_SN S ! c)" for c
        using len by (auto simp: T(4) nth_list_update)
      have e: "flip b = flip ?a \<longleftrightarrow> b = ?a" "flip b = ?a \<longleftrightarrow> b = flip ?a" by (simp, metis flip_flip)
      have "sp_SN S ! ?a = v" "v \<noteq> NoNode" using fl(2) shape_lt(2) [OF shape less.prems(2)] by auto
      then show ?thesis using S'(5) [rule_format, of b] b kT(2) unfolding Tb e by (cases "b = ?a \<or> b = flip ?a") auto
    qed
    moreover have "sp_cancel_all S v = Some (Inr S')" using False T(1) S'(1) by (subst sp_cancel_all.simps) simp
    ultimately show ?thesis using S' keeps_trans(1) [OF T(3) S'(3)] by blast
  qed
qed

section \<open>Routing of an arc\<close>

lemma inv_call [simp]: "sp_inv (call c S) = sp_inv S"
  by (simp add: sp_inv_def same_inc_rings [OF same_inc_call] paired_def sub_ok_def)

lemma SetRouting_keeps_all: "keeps S (sp_SetRouting S a u v)" "sp_layoutData (sp_SetRouting S a u v) = sp_layoutData S"
  "sp_registers (sp_SetRouting S a u v) = sp_registers S"
  by (simp_all add: keeps_def)

lemma SetRouting_inv:
  assumes inv: "sp_inv S" and a: "a < 2 * sp_mAct S" "sp_SN S ! a = NoNode" and uv: "u < sp_nAct S" "v < sp_nAct S"
  shows "sp_inv (sp_SetRouting S a u v)"
proof -
  let ?S = "sp_SetRouting S a u v"
  have p: "paired S" and shape: "sp_shape S" using inv sp_inv_shape by (simp_all add: sp_inv_def)
  have len: "a < length (sp_SN S)" "flip a < length (sp_SN S)"
    using shape_lt(1) [OF shape, of a] shape_lt(1) [OF shape, of "flip a"] a(1) by simp_all
  have rings: "rings_ok ?S {}" by (rule rings_reroute [OF sp_inv_rings [OF inv] a _ uv]) (simp add: paired_flip [OF p a(1)] a(2))
  have "(sp_SN ?S ! flip b = NoNode) = (sp_SN ?S ! b = NoNode)" if b: "b < 2 * sp_mAct S" for b
  proof (cases "b = a \<or> b = flip a")
    case True
    have "u \<noteq> NoNode" "v \<noteq> NoNode" using shape_lt(2) [OF shape] uv by auto
    then have "sp_SN ?S ! a \<noteq> NoNode" "sp_SN ?S ! flip a \<noteq> NoNode" using len by (simp_all add: nth_list_update)
    then show ?thesis using True flip_flip by metis
  next
    case False
    then have "flip b \<noteq> a" "flip b \<noteq> flip a" by auto
    then show ?thesis using paired_flip [OF p b] False by simp
  qed
  then have "paired ?S" by (simp only: paired_def SetRouting_keeps) blast
  then show ?thesis
    using inv rings keeps_pools [OF SetRouting_keeps_all(1) _ SetRouting_keeps_all(2,3)] keeps_sub_ok [OF SetRouting_keeps_all(1)]
    by (simp add: sp_inv_def)
qed

lemma RouteArc_ok:
  assumes inv: "sp_inv S" and a: "a < 2 * sp_mAct S" and uv: "u < sp_nAct S" "v < sp_nAct S"
    and sub: "sp_sub S \<noteq> None \<Longrightarrow> a < sp_mMax S"
  obtains S' where "sp_RouteArc S a u v = Some (Inr S')" "sp_inv S'" "keeps S S'" "sp_SN S' = (sp_SN S)[a := u, flip a := v]"
proof (cases "sp_SN S ! a = u \<and> sp_SN S ! flip a = v")
  case True
  have "(sp_SN S)[a := u, flip a := v] = sp_SN S" using True by (metis list_update_id)
  then show thesis using that [of S] True inv a uv by (simp add: sp_RouteArc_def)
next
  case False
  have "\<exists>T. (if sp_SN S ! a \<noteq> NoNode \<or> sp_SN S ! flip a \<noteq> NoNode
      then sp_CancelArc (call C_ReleaseInvestigators (call C_ReleaseEmbedding S)) a else Some (Inr S)) = Some (Inr T)
    \<and> sp_inv T \<and> keeps S T \<and> sp_SN T = (sp_SN S)[a := NoNode, flip a := NoNode] \<and> sp_SN T ! a = NoNode"
  proof (cases "sp_SN S ! a = NoNode")
    case True
    then have "sp_SN S ! flip a = NoNode" using inv paired_flip [of S a] a by (simp add: sp_inv_def)
    moreover from this True have "(sp_SN S)[a := NoNode, flip a := NoNode] = sp_SN S" by (metis list_update_id)
    ultimately show ?thesis using True inv by simp
  next
    case ne: False
    let ?S = "call C_ReleaseInvestigators (call C_ReleaseEmbedding S)"
    obtain T where T: "sp_CancelArc ?S a = Some (Inr T)" "sp_inv T" "keeps ?S T" "sp_SN T = (sp_SN S)[a := NoNode, flip a := NoNode]"
      by (rule CancelArc_ok [of ?S a]) (use inv a ne sub in simp_all)
    have "keeps S T" using T(3) keeps_trans(1) keeps_call(1) by blast
    moreover have "sp_SN T ! a = NoNode" using shape_lt(1) [OF sp_inv_shape [OF inv] a] by (simp add: T(4))
    ultimately show ?thesis using T ne by simp
  qed
  then obtain T where T: "(if sp_SN S ! a \<noteq> NoNode \<or> sp_SN S ! flip a \<noteq> NoNode
      then sp_CancelArc (call C_ReleaseInvestigators (call C_ReleaseEmbedding S)) a else Some (Inr S)) = Some (Inr T)"
    "sp_inv T" "keeps S T" "sp_SN T = (sp_SN S)[a := NoNode, flip a := NoNode]" "sp_SN T ! a = NoNode" by blast
  let ?U = "call (C_MarkAdjacency u v a) (sp_SetRouting T a u v)"
  have U: "sp_RouteArc S a u v = Some (Inr ?U)"
    unfolding sp_RouteArc_def T(1) using False a uv by auto
  have "keeps S ?U" using keeps_trans(1) [OF T(3) keeps_trans(1) [OF SetRouting_keeps_all(1) keeps_call(1)]] .
  moreover have "sp_inv ?U" using SetRouting_inv [OF T(2) _ T(5)] a uv T(3) by (simp add: keeps_def)
  moreover have "sp_SN ?U = (sp_SN S)[a := u, flip a := v]" by (simp add: T(4) list_update_swap)
  ultimately show thesis using that U by blast
qed

end
