(* ===== verification/Sparse_Edit.thy ===== *)
theory Sparse_Edit
  imports Sparse_Cancel
begin

text \<open>
  Operations that reorder or join the rings: \<open>SetRight\<close> moves an arc next to another one of the
  same node, \<open>IdentifyNodes\<close> merges the ring of one node into that of another. \<open>CancelNode\<close> and
  \<open>IdentifyNodes\<close> finally hide the node by its first coordinate.
\<close>

section \<open>Moving an arc\<close>

lemma ring_move:
  assumes r: "ring f (x # bs)" and ab: "a \<in> set (x # bs)" "b \<in> set (x # bs)" "a \<noteq> b" "f a \<noteq> b"
    and bl: "bl \<in> set (x # bs)" "f bl = b"
  obtains cs where "ring (f(a := b, b := f a, bl := f b)) (x # cs)" "set (x # cs) = set (x # bs)"
proof -
  obtain ds where ds: "ring f (b # ds)" "set (b # ds) = set (x # bs)" using ring_at [OF r ab(2)] by metis
  have ne: "ds \<noteq> []" using ab ds(2) by auto
  let ?g = "f(bl := f b)"
  have g: "ring ?g ds" "bl \<in> set ds" using ring_remove [OF ds(1) ne bl(2)] bl(1) ds(2) by auto
  have a: "a \<in> set ds" using ab ds(2) by auto
  obtain es where es: "ring ?g (a # es)" "set (a # es) = set ds" using ring_at [OF g(1) a] by metis
  have "b \<notin> set ds" using ds(1) by (simp add: ring_Cons)
  then have "b \<notin> set (a # es)" using es(2) by blast
  then have i: "ring (?g(b := ?g a, a := b)) (a # b # es)" by (rule ring_insert(1) [OF es(1)])
  have "bl \<noteq> a" "bl \<noteq> b" using ab bl g(2) \<open>b \<notin> set ds\<close> by auto
  then have e: "?g(b := ?g a, a := b) = f(a := b, b := f a, bl := f b)" using ab(3) by (auto simp: fun_eq_iff)
  have s: "set (a # b # es) = set (x # bs)" using es(2) ds(2) by auto
  obtain cs where "ring (f(a := b, b := f a, bl := f b)) (x # cs)" "set (x # cs) = set (a # b # es)"
    using ring_at [OF i [unfolded e], of x] s by (metis list.set_intros(1))
  then show thesis using that s by metis
qed

lemma rings_move:
  assumes ok: "rings_ok S {}" and l: "sp_left S = Some l" and a: "live S {} a" and b: "live S {} b"
    and same: "sp_SN S ! a = sp_SN S ! b" "a \<noteq> b" "sp_right S ! a \<noteq> b"
  defines "R \<equiv> sp_right S ! a" and "Q \<equiv> sp_right S ! b"
  shows "rings_ok (S\<lparr>sp_right := (sp_right S)[a := b, b := R, l ! b := Q], sp_left := Some (l[b := a, R := b, Q := l ! b])\<rparr>) {}"
proof -
  let ?L = "l[b := a, R := b, Q := l ! b]"
  let ?S = "S\<lparr>sp_right := (sp_right S)[a := b, b := R, l ! b := Q], sp_left := Some ?L\<rparr>"
  note bl = left_inverse [OF ok l b]
  note shape = rings_shape [OF ok]
  have lt: "a < length (sp_right S)" "b < length (sp_right S)" "l ! b < length (sp_right S)"
    using a b bl(1) shape_lt(1) [OF shape] by (auto simp: live_def)
  have fn: "(!) (sp_right ?S) = ((!) (sp_right S))(a := b, b := R, l ! b := Q)" using lt by (simp add: nth_upd_fun)
  have views: "arcs_at ?S {} v = arcs_at S {} v" "live ?S {} = live S {}" for v by (simp_all add: arcs_at_def live_def fun_eq_iff)
  have mem: "a \<in> arcs_at S {} (sp_SN S ! b)" "b \<in> arcs_at S {} (sp_SN S ! b)" "l ! b \<in> arcs_at S {} (sp_SN S ! b)"
    using a b bl same by (auto simp: arcs_at_def live_def)
  have node: "node_ok ?S {} v" if v: "v < sp_nAct S" for v
  proof (cases "v = sp_SN S ! b")
    case True
    from ok v show ?thesis
    proof (cases rule: rings_node)
      case none
      then show ?thesis using mem True by simp
    next
      case (ring bs)
      have m: "a \<in> set (sp_first S ! v # bs)" "b \<in> set (sp_first S ! v # bs)" "l ! b \<in> set (sp_first S ! v # bs)"
        unfolding ring(3) using mem True by simp_all
      obtain cs where "ring (((!) (sp_right S))(a := b, b := sp_right S ! a, l ! b := sp_right S ! b)) (sp_first S ! v # cs)"
        "set (sp_first S ! v # cs) = set (sp_first S ! v # bs)"
        using ring_move [OF ring(2) m(1,2) same(2,3) m(3) bl(2)] .
      then show ?thesis using ring(1,3) fn views by (intro node_okI [of ?S v "sp_first S ! v" cs]) (simp_all add: R_def Q_def)
    qed
  next
    case False
    show ?thesis
    proof (rule node_ok_cong [of S "{}" v])
      fix c assume "c \<in> arcs_at S {} v"
      then have "c \<noteq> a" "c \<noteq> b" "c \<noteq> l ! b" using False mem by (auto simp: arcs_at_def)
      then show "sp_right ?S ! c = sp_right S ! c" by (simp add: fn)
    qed (use ok v views in \<open>simp_all add: rings_ok_def\<close>)
  qed
  have lok: "length l = 2 * sp_mMax S" "\<And>c. live S {} c \<Longrightarrow> l ! (sp_right S ! c) = c"
    "\<And>c. c < 2 * sp_mAct S \<Longrightarrow> sp_SN S ! c = NoNode \<Longrightarrow> l ! c = NoArc"
    using ok l by (auto simp: rings_ok_def left_ok_def)
  have "sp_right S ! b \<noteq> b"
  proof
    assume f: "sp_right S ! b = b"
    obtain bs where bs: "ring ((!) (sp_right S)) (b # bs)" "set (b # bs) = arcs_at S {} (sp_SN S ! b)" using rings_at [OF ok b] .
    have "set (b # bs) = {b}" by (rule ring_fixpoint [OF bs(1) _ f]) simp
    then show False using mem(1) bs(2) same(2) by auto
  qed
  then have RQ: "live S {} R" "live S {} Q" "b \<noteq> R" "b \<noteq> Q" "R \<noteq> Q"
    using rings_right(1) [OF ok a] rings_right(1) [OF ok b] rings_right_inj [OF ok a b] rings_right_inj [OF ok b bl(1)]
      same bl(2) by (auto simp: R_def Q_def)
  have len: "b < length l" "R < length l" "Q < length l"
    using b RQ lok(1) shape by (auto simp: live_def sp_shape_def)
  have ne: "l ! b \<noteq> a" "l ! b \<noteq> b" using same bl(2) RQ(4) by (auto simp: Q_def)
  have "?L ! (sp_right ?S ! c) = c" if c: "live S {} c" for c
  proof -
    consider "c = a" | "c = b" | "c = l ! b" | "c \<noteq> a" "c \<noteq> b" "c \<noteq> l ! b" by blast
    then show ?thesis
    proof cases
      case 4
      have "sp_right S ! c \<noteq> R" "sp_right S ! c \<noteq> Q" "sp_right S ! c \<noteq> b"
        using rings_right_inj [OF ok c] a b bl 4 by (auto simp: R_def Q_def)
      then show ?thesis using 4 lok(2) [OF c] by (simp add: fn)
    qed (use ne same RQ len lt in \<open>auto simp: fn nth_list_update\<close>)
  qed
  moreover have "?L ! c = NoArc" if c: "c < 2 * sp_mAct S" "sp_SN S ! c = NoNode" for c
  proof -
    have "c \<noteq> b" "c \<noteq> R" "c \<noteq> Q" using c(2) b RQ by (auto simp: live_def)
    then show ?thesis using lok(3) [OF c] by simp
  qed
  ultimately have "left_ok ?S {}" using lok(1) views by (simp add: left_ok_def)
  moreover have "sp_right ?S ! c = NoArc" if c: "c < 2 * sp_mAct S" "sp_SN S ! c = NoNode" for c
  proof -
    have "c \<noteq> a" "c \<noteq> b" "c \<noteq> l ! b" using c(2) a b bl(1) by (auto simp: live_def)
    then show ?thesis using ok c by (simp add: rings_ok_def)
  qed
  ultimately show ?thesis using ok node shape by (simp add: rings_ok_def sp_shape_def)
qed

lemma paired_cong: "sp_SN S' = sp_SN S \<Longrightarrow> sp_mAct S' = sp_mAct S \<Longrightarrow> paired S' = paired S"
  by (simp only: paired_def)

text \<open>\<open>SetRight(a1,a2)\<close> makes \<open>a2\<close> the successor of \<open>a1\<close>.\<close>

lemma SetRight_ok:
  assumes inv: "sp_inv S" and a: "live S {} a1" "live S {} a2" and same: "sp_SN S ! a1 = sp_SN S ! a2" "a1 \<noteq> a2"
  obtains S' where "sp_SetRight S a1 a2 NoArc = Inr S'" "sp_inv S'" "keeps S S'" "sp_SN S' = sp_SN S" "sp_right S' ! a1 = a2"
proof -
  note ok = sp_inv_rings [OF inv] and shape = sp_inv_shape [OF inv]
  have lt: "a1 < 2 * sp_mAct S" "a2 < 2 * sp_mAct S" using a by (simp_all add: live_def)
  obtain l where l: "sp_Left S a2 = Inr (l ! a2, S\<lparr>sp_left := Some l\<rparr>)" "rings_ok (S\<lparr>sp_left := Some l\<rparr>) {}"
    using sp_Left_ok [OF ok a(2)] by metis
  let ?T = "S\<lparr>sp_left := Some l\<rparr>"
  have kT: "keeps S ?T" by (simp add: keeps_def)
  have inv': "sp_inv U" if "rings_ok U {}" "keeps S U" "sp_SN U = sp_SN S" "sp_layoutData U = sp_layoutData S" "sp_registers U = sp_registers S" for U
    using inv that keeps_pools [OF that(2) _ that(4,5)] keeps_sub_ok [OF that(2)] paired_cong [of U S]
    by (simp add: sp_inv_def keeps_def)
  have e: "sp_SetRight S a1 a2 NoArc = (if sp_right S ! a1 = a2 then Inr ?T else
      Inr (?T\<lparr>sp_right := (sp_right ?T)[a1 := a2, a2 := sp_right ?T ! a1, l ! a2 := sp_right ?T ! a2],
        sp_left := Some (l[a2 := a1, sp_right ?T ! a1 := a2, sp_right ?T ! a2 := l ! a2])\<rparr>))"
    using same lt l(1) by (simp add: sp_SetRight_def Let_def)
  show thesis
  proof (cases "sp_right S ! a1 = a2")
    case True
    show thesis by (rule that [of ?T]) (use True e l(2) kT inv' [of ?T] in simp_all)
  next
    case False
    let ?U = "?T\<lparr>sp_right := (sp_right ?T)[a1 := a2, a2 := sp_right ?T ! a1, l ! a2 := sp_right ?T ! a2],
        sp_left := Some (l[a2 := a1, sp_right ?T ! a1 := a2, sp_right ?T ! a2 := l ! a2])\<rparr>"
    have live: "live ?T {} a1" "live ?T {} a2" using a by (simp_all add: live_def)
    have U: "rings_ok ?U {}" by (rule rings_move [OF l(2) _ live]) (use same False in simp_all)
    have "sp_right S ! (l ! a2) = a2" using left_inverse(2) [OF l(2) _ live(2)] by simp
    then have "l ! a2 \<noteq> a1" using False by auto
    then have "sp_right ?U ! a1 = a2" using same(2) shape_lt(1) [OF shape lt(1)] by simp
    moreover have "keeps S ?U" by (simp add: keeps_def)
    moreover have "sp_inv ?U" by (rule inv' [OF U \<open>keeps S ?U\<close>]) simp_all
    ultimately show thesis using that [of ?U] False e by simp
  qed
qed

section \<open>Hiding a node\<close>

lemma geometry_axis:
  "i \<le> 2 \<Longrightarrow> TokGeoAxis0 + i < length listOfGeometryPars \<and> arrayDim (listOfGeometryPars ! (TokGeoAxis0 + i)) = DIM_LAYOUT_NODES"
  by (auto simp: token_defs listOfGeometryPars_def entry_def le_Suc_eq numeral_2_eq_2)

definition full_axis :: "sparse \<Rightarrow> nat \<Rightarrow> bool" where
  "full_axis S i \<longleftrightarrow> (case attributePool_FindAttribute (sp_geometry S) (TokGeoAxis0 + i) of
      None \<Rightarrow> True | Some A \<Rightarrow> attribute_Size A \<noteq> 0)"

lemma SetC_ok:
  assumes pools: "pools_ok S" and v: "v < sp_lAct S" and i: "i \<le> 2" and full: "full_axis S i"
  obtains P where "sp_SetC S v i pos = Inr (S\<lparr>sp_geometry := P\<rparr>)" "pools_ok (S\<lparr>sp_geometry := P\<rparr>)"
    "attributePool_GetValue P (TokGeoAxis0 + i) v 0 = pos"
proof -
  let ?X = "sp_SizeInfo S" and ?t = "TokGeoAxis0 + i" and ?G = "sp_geometry S"
  have X: "sp_SizeInfo (S\<lparr>sp_geometry := P\<rparr>) = ?X" for P
    by (simp add: sp_SizeInfo_def fun_eq_iff split: TArrayDim.split)
  have inv: "ap_inv ?X ?G" and tb: "ap_table ?G = listOfGeometryPars" using pools by (simp_all add: pools_ok_def)
  have t: "?t < length (ap_table ?G)" and n: "?X (arrayDim (ap_table ?G ! ?t)) SIZE_ACTUAL = sp_lAct S"
    using geometry_axis [OF i] by (simp_all add: tb sp_SizeInfo_def)
  have put: "\<exists>P. rbind (attribute_SetValue A v pos) (\<lambda>A1. Inr (S\<lparr>sp_geometry := attributePool_put Q ?t A1\<rparr>)) = Inr (S\<lparr>sp_geometry := P\<rparr>)
      \<and> pools_ok (S\<lparr>sp_geometry := P\<rparr>) \<and> attributePool_GetValue P ?t v 0 = pos"
    if Q: "ap_inv ?X Q" "ap_table Q = ap_table ?G" "attributePool_FindAttribute Q ?t = Some A" "attribute_Size A \<noteq> 0" for Q A
  proof -
    have tQ: "?t < length (ap_table Q)" using t Q(2) by simp
    have A: "at_inv A" "attribute_Size A = ?X (arrayDim (ap_table Q ! ?t)) SIZE_ACTUAL"
      using FindAttribute_ok [OF Q(1) tQ Q(3)] Q(4) by auto
    have vA: "v < attribute_Size A" using A(2) Q(2) n v by simp
    obtain A' where A': "attribute_SetValue A v pos = Inr A'" "ap_inv ?X (attributePool_put Q ?t A')"
      "\<And>s k w. s < length (ap_table Q) \<Longrightarrow> attributePool_GetValue (attributePool_put Q ?t A') s k w =
        (if primary Q s = primary Q ?t then (if k = v then pos else attribute_GetValue A k) else attributePool_GetValue Q s k w)"
      using put_SetValue_ok [OF Q(1) tQ A vA, of pos] Q(3) by auto
    show ?thesis
      by (rule exI [of _ "attributePool_put Q ?t A'"])
         (use A' tQ pools X Q(2) in \<open>simp add: pools_ok_def\<close>)
  qed
  show thesis
  proof (cases "attributePool_FindAttribute ?G ?t")
    case (Some A)
    then have "attribute_Size A \<noteq> 0" using full by (simp add: full_axis_def)
    then show thesis using put [OF inv refl Some] that Some v i by (auto simp: sp_SetC_def)
  next
    case None
    show thesis
    proof (cases "pos = 0")
      case True
      have "S\<lparr>sp_geometry := ?G\<rparr> = S" by simp
      then show thesis using that [of ?G] True None v i pools by (simp add: sp_SetC_def attributePool_GetValue_def)
    next
      case False
      obtain Q where Q: "attributePool_InitAttribute ?X ?G ?t 0 = Inr (True, Q)" "ap_inv ?X Q" "ap_table Q = ap_table ?G"
        "attributePool_FindAttribute Q ?t = Some (attribute (sp_lAct S) 0)"
        by (rule InitAttribute_new [OF inv t None, of 0]) (use n v that in simp_all)
      have "attribute_Size (attribute (sp_lAct S) (0::real)) \<noteq> 0" using v by (simp add: attribute_sizes)
      then show thesis using put [OF Q(2-4)] that False None v i Q(1,4) by (auto simp: sp_SetC_def)
    qed
  qed
qed

lemma geometry_inv: "sp_inv S \<Longrightarrow> pools_ok (S\<lparr>sp_geometry := P\<rparr>) \<Longrightarrow> sp_inv (S\<lparr>sp_geometry := P\<rparr>)"
  using same_inc_rings [of S "S\<lparr>sp_geometry := P\<rparr>" "{}"] paired_cong [of "S\<lparr>sp_geometry := P\<rparr>" S]
  by (simp add: sp_inv_def same_inc_def sub_ok_def)

lemma CancelNode_ok:
  assumes inv: "sp_inv S" and v: "v < sp_nAct S" and full: "full_axis S 0"
    and sub: "\<And>a. a \<in> arcs_at S {} v \<Longrightarrow> sp_sub S \<noteq> None \<Longrightarrow> a < sp_mMax S"
  obtains S' T P where "sp_CancelNode S v = Some (Inr S')" "sp_inv S'" "S' = T\<lparr>sp_geometry := P\<rparr>" "keeps S T"
    "sp_first S' ! v = NoArc" "sp_C S' v 0 = - InfFloat"
    "\<And>b. b < 2 * sp_mAct S \<Longrightarrow>
       sp_SN S' ! b = (if sp_SN S ! b = v \<or> sp_SN S ! flip b = v then NoNode else sp_SN S ! b)"
proof -
  obtain T where T: "sp_cancel_all S v = Some (Inr T)" "sp_inv T" "keeps S T" "sp_first T ! v = NoArc"
    "\<forall>b < 2 * sp_mAct S. sp_SN T ! b = (if sp_SN S ! b = v \<or> sp_SN S ! flip b = v then NoNode else sp_SN S ! b)"
    using cancel_all_ok [OF inv v sub] by metis
  have "v < sp_lAct T" "full_axis T 0" "pools_ok T"
    using sp_inv_shape [OF inv] v full T(2,3) by (simp_all add: sp_shape_def keeps_def full_axis_def sp_inv_def)
  then obtain P where P: "sp_SetC T v 0 (- InfFloat) = Inr (T\<lparr>sp_geometry := P\<rparr>)" "pools_ok (T\<lparr>sp_geometry := P\<rparr>)"
    "attributePool_GetValue P (TokGeoAxis0 + 0) v 0 = - InfFloat"
    using SetC_ok [of T v 0 "- InfFloat"] by auto
  let ?S = "T\<lparr>sp_geometry := P\<rparr>"
  show thesis
  proof (rule that [where S' = ?S and T = T and P = P])
    show "sp_CancelNode S v = Some (Inr ?S)" using v T(1) P(1) by (simp add: sp_CancelNode_def)
    show "sp_inv ?S" by (rule geometry_inv [OF T(2) P(2)])
    show "sp_C ?S v 0 = - InfFloat" using P(3) by (simp add: sp_C_def)
  qed (use T in simp_all)
qed

section \<open>Joining two rings\<close>

lemma nth_set_all: "i < length xs \<Longrightarrow> foldl (\<lambda>xs b. xs[b := u]) xs bs ! i = (if i \<in> set bs then u else xs ! i)"
  by (induction bs arbitrary: xs) (auto simp: nth_list_update)

lemma length_set_all [simp]: "length (foldl (\<lambda>xs b. xs[b := u]) xs bs) = length xs"
  by (induction bs arbitrary: xs) simp_all

lemma rings_join:
  assumes ok: "rings_ok S {}" and uv: "u < sp_nAct S" "v < sp_nAct S" "u \<noteq> v"
    and a1: "sp_first S ! u = a1" "a1 \<noteq> NoArc" and a2: "sp_first S ! v \<noteq> NoArc"
    and bs: "ring ((!) (sp_right S)) (sp_first S ! v # bs)" "set (sp_first S ! v # bs) = arcs_at S {} v"
    and N: "length N = length (sp_SN S)" "\<And>b. b < 2 * sp_mAct S \<Longrightarrow> N ! b = (if sp_SN S ! b = v then u else sp_SN S ! b)"
  defines "e \<equiv> last (sp_first S ! v # bs)" and "r \<equiv> sp_right S ! a1"
  shows "rings_ok (S\<lparr>sp_SN := N, sp_right := (sp_right S)[e := r, a1 := sp_first S ! v],
      sp_left := map_option (\<lambda>l. l[r := e, sp_first S ! v := a1]) (sp_left S), sp_first := (sp_first S)[v := NoArc]\<rparr>) {}"
proof -
  let ?a2 = "sp_first S ! v"
  let ?S = "S\<lparr>sp_SN := N, sp_right := (sp_right S)[e := r, a1 := ?a2],
      sp_left := map_option (\<lambda>l. l[r := e, ?a2 := a1]) (sp_left S), sp_first := (sp_first S)[v := NoArc]\<rparr>"
  note shape = rings_shape [OF ok]
  have l1: "live S {} a1" "sp_SN S ! a1 = u" using first_live [OF ok uv(1)] a1 by simp_all
  have l2: "live S {} ?a2" "sp_SN S ! ?a2 = v" using first_live [OF ok uv(2) a2] by simp_all
  have em: "e \<in> arcs_at S {} v" using bs(2) last_in_set [of "?a2 # bs"] unfolding e_def by blast
  then have le: "live S {} e" "sp_SN S ! e = v" using live_arcs_at [OF shape uv(2)] by (auto simp: arcs_at_def)
  have fe: "sp_right S ! e = ?a2"
  proof (cases "bs = []")
    case True
    then show ?thesis using bs(1) by (simp add: e_def)
  next
    case False
    then show ?thesis using ring_last [OF bs(1) False] by (simp add: e_def)
  qed
  have ne: "e \<noteq> a1" "u \<noteq> NoNode" "v \<noteq> NoNode" using l1(2) le(2) uv(3) shape_lt(2) [OF shape] uv by auto
  have lt: "a1 < length (sp_right S)" "e < length (sp_right S)" "v < length (sp_first S)" "u < length (sp_first S)"
    using l1(1) le(1) shape_lt [OF shape] uv by (auto simp: live_def)
  have fn: "(!) (sp_right ?S) = ((!) (sp_right S))(e := r, a1 := ?a2)" using lt by (simp add: nth_upd_fun)
  have at: "arcs_at ?S {} w = (if w = u then arcs_at S {} u \<union> arcs_at S {} v else if w = v then {} else arcs_at S {} w)" for w
    using uv(3) by (auto simp: arcs_at_def N(2) split: if_splits)
  have lv: "live ?S {} b = live S {} b" for b using ne by (auto simp: live_def N(2) split: if_splits)
  have node: "node_ok ?S {} w" if w: "w < sp_nAct S" for w
  proof -
    consider "w = u" | "w = v" | "w \<noteq> u" "w \<noteq> v" by blast
    then show ?thesis
    proof cases
      case 1
      obtain as where as: "ring ((!) (sp_right S)) (a1 # as)" "set (a1 # as) = arcs_at S {} u"
        using rings_at [OF ok l1(1)] l1(2) by metis
      have "e \<in> set (?a2 # bs)" using em bs(2) by blast
      then obtain cs where cs: "ring ((!) (sp_right S)) (e # cs)" "set (e # cs) = set (?a2 # bs)" using ring_at [OF bs(1)] by metis
      have "set (a1 # as) \<inter> set (e # cs) = {}" using as(2) cs(2) bs(2) uv(3) by (auto simp: arcs_at_def)
      from ring_join [OF as(1) cs(1) this]
      have "ring (((!) (sp_right S))(a1 := ?a2, e := r)) (a1 # cs @ e # as)" by (simp add: fe r_def)
      moreover have "((!) (sp_right S))(a1 := ?a2, e := r) = (!) (sp_right ?S)" using ne(1) unfolding fn by (auto simp: fun_eq_iff)
      ultimately have "ring ((!) (sp_right ?S)) (a1 # cs @ e # as)" by metis
      moreover have "set (a1 # cs @ e # as) = arcs_at ?S {} w" using as(2) cs(2) bs(2) 1 at by auto
      ultimately show ?thesis using 1 a1 uv(3) by (intro node_okI [of ?S w a1 "cs @ e # as"]) simp_all
    next
      case 2
      then show ?thesis using lt(3) uv(3) by (simp add: node_ok_def at)
    next
      case 3
      show ?thesis
      proof (rule node_ok_cong [of S "{}" w])
        fix b assume "b \<in> arcs_at S {} w"
        then have "b \<noteq> e" "b \<noteq> a1" using 3 le(2) l1(2) by (auto simp: arcs_at_def)
        then show "sp_right ?S ! b = sp_right S ! b" by (simp add: fn)
      qed (use 3 ok w at in \<open>simp_all add: rings_ok_def\<close>)
    qed
  qed
  have rl: "live S {} r" "sp_SN S ! r = u" using rings_right [OF ok l1(1)] l1(2) by (simp_all add: r_def)
  have "left_ok ?S {}"
    unfolding left_ok_def
  proof (intro allI impI conjI)
    fix l' assume l': "sp_left ?S = Some l'"
    then obtain l where l: "sp_left S = Some l" "l' = l[r := e, ?a2 := a1]" by auto
    have lok: "length l = 2 * sp_mMax S" "\<And>c. live S {} c \<Longrightarrow> l ! (sp_right S ! c) = c"
      "\<And>c. c < 2 * sp_mAct S \<Longrightarrow> sp_SN S ! c = NoNode \<Longrightarrow> l ! c = NoArc"
      using ok l by (auto simp: rings_ok_def left_ok_def)
    show "length l' = 2 * sp_mMax ?S" using l lok(1) by simp
    have len: "r < length l" "?a2 < length l" using rl(1) l2(1) lok(1) shape by (auto simp: live_def sp_shape_def)
    have ra: "?a2 \<noteq> r" using rl(2) l2(2) uv(3) by auto
    show "l' ! (sp_right ?S ! b) = b" if "live ?S {} b" for b
    proof -
      have b: "live S {} b" using that lv by simp
      consider "b = a1" | "b = e" | "b \<noteq> a1" "b \<noteq> e" by blast
      then show ?thesis
      proof cases
        case 3
        have "r \<noteq> sp_right S ! b" "?a2 \<noteq> sp_right S ! b"
          using rings_right_inj [OF ok b] l1(1) le(1) 3 fe by (auto simp: r_def)
        then show ?thesis using 3 lok(2) [OF b] by (simp add: fn l(2))
      qed (use ne len ra lt in \<open>simp_all add: l(2)\<close>)
    qed
    show "l' ! b = NoArc" if "b < 2 * sp_mAct ?S" "sp_SN ?S ! b = NoNode \<and> b \<notin> {}" for b
    proof -
      have b: "b < 2 * sp_mAct S" "sp_SN S ! b = NoNode" using that N(2) [of b] ne by (auto split: if_splits)
      then have "b \<noteq> r" "b \<noteq> ?a2" using rl l2 ne by auto
      then show ?thesis using lok(3) [OF b] by (simp add: l(2))
    qed
  qed
  moreover have "sp_right ?S ! b = NoArc" if "b < 2 * sp_mAct S" "sp_SN ?S ! b = NoNode" for b
  proof -
    have b: "sp_SN S ! b = NoNode" using that N(2) [of b] ne by (auto split: if_splits)
    then have "b \<noteq> e" "b \<noteq> a1" using le(2) l1(2) ne by auto
    then show ?thesis using b that(1) ok by (simp add: fn rings_ok_def)
  qed
  moreover have "sp_SN ?S ! b < sp_nAct S \<or> sp_SN ?S ! b = NoNode" if "b < 2 * sp_mAct S" for b
    using that N(2) [OF that] ok uv(1) by (auto simp: rings_ok_def)
  ultimately show ?thesis using node shape N(1) by (simp add: rings_ok_def sp_shape_def)
qed

lemma IdentifyNodes_ok:
  assumes inv: "sp_inv S" and uv: "u < sp_nAct S" "v < sp_nAct S" "u \<noteq> v" and full: "full_axis S 0"
    and first: "sp_first S ! u \<noteq> NoArc" "sp_first S ! v \<noteq> NoArc"
  obtains S' where "sp_IdentifyNodes S u v = Some (Inr S')" "sp_inv S'" "sp_nAct S' = sp_nAct S" "sp_mAct S' = sp_mAct S"
    "sp_first S' ! v = NoArc" "sp_first S' ! u = sp_first S ! u"
    "\<And>b. b < 2 * sp_mAct S \<Longrightarrow> sp_SN S' ! b = (if sp_SN S ! b = v then u else sp_SN S ! b)"
proof -
  note ok = sp_inv_rings [OF inv] and shape = sp_inv_shape [OF inv]
  obtain bs where bs: "ring ((!) (sp_right S)) (sp_first S ! v # bs)" "set (sp_first S ! v # bs) = arcs_at S {} v"
    using ok uv(2) by (cases rule: rings_node) (use first in auto)
  let ?as = "sp_first S ! v # bs" and ?a1 = "sp_first S ! u" and ?a2 = "sp_first S ! v"
  define N where "N = foldl (\<lambda>xs b. xs[b := u]) (sp_SN S) ?as"
  have N: "length N = length (sp_SN S)" "N ! b = (if sp_SN S ! b = v then u else sp_SN S ! b)" if "b < 2 * sp_mAct S" for b
  proof -
    show "length N = length (sp_SN S)" unfolding N_def by (rule length_set_all)
    have "b \<in> set ?as \<longleftrightarrow> sp_SN S ! b = v" unfolding bs(2) using that by (simp add: arcs_at_def)
    then show "N ! b = (if sp_SN S ! b = v then u else sp_SN S ! b)"
      using shape_lt(1) [OF shape that] nth_set_all [of b "sp_SN S" u ?as] unfolding N_def by metis
  qed
  have Nl: "length N = length (sp_SN S)" unfolding N_def by (rule length_set_all)
  define T where "T = S\<lparr>sp_SN := N, sp_right := (sp_right S)[last ?as := sp_right S ! ?a1, ?a1 := ?a2],
      sp_left := map_option (\<lambda>l. l[sp_right S ! ?a1 := last ?as, ?a2 := ?a1]) (sp_left S), sp_first := (sp_first S)[v := NoArc]\<rparr>"
  have rings: "rings_ok T {}" unfolding T_def by (rule rings_join [OF ok uv refl first bs Nl N(2)])
  have l12: "live S {} ?a1" "live S {} ?a2" using first_live [OF ok] uv first by simp_all
  have p: "paired S" using inv by (simp add: sp_inv_def)
  have kT: "keeps S T" by (simp add: T_def keeps_def)
  have "(sp_SN T ! flip b = NoNode) = (sp_SN T ! b = NoNode)" if b: "b < 2 * sp_mAct S" for b
  proof -
    have "u \<noteq> NoNode" "v \<noteq> NoNode" using shape_lt(2) [OF shape] uv by auto
    then have "(sp_SN T ! c = NoNode) = (sp_SN S ! c = NoNode)" if "c < 2 * sp_mAct S" for c using N(2) [OF that] by (simp add: T_def)
    then show ?thesis using paired_flip [OF p b] b by simp
  qed
  then have "paired T" unfolding paired_def using kT by (simp only: keeps_def) blast
  then have invT: "sp_inv T"
    using inv rings keeps_pools [OF kT] keeps_sub_ok [OF kT] by (simp add: sp_inv_def T_def)
  then have "pools_ok T" by (simp add: sp_inv_def)
  moreover have "v < sp_lAct T" "full_axis T 0" using uv full shape by (simp_all add: T_def sp_shape_def full_axis_def)
  ultimately obtain P where P: "sp_SetC T v 0 (- InfFloat) = Inr (T\<lparr>sp_geometry := P\<rparr>)" "pools_ok (T\<lparr>sp_geometry := P\<rparr>)"
    using SetC_ok [of T v 0 "- InfFloat"] by auto
  have lt: "?a1 < length (sp_right S)" "?a2 < length (sp_right S)" using l12 shape_lt(1) [OF shape] by (auto simp: live_def)
  show thesis
  proof (rule that [of "T\<lparr>sp_geometry := P\<rparr>"])
    have "sp_IdentifyNodes S u v = Some (sp_SetC T v 0 (- InfFloat))"
      using uv lt arc_ring_ring [OF bs(1)] by (simp add: sp_IdentifyNodes_def Let_def T_def N_def option.map_comp comp_def)
    then show "sp_IdentifyNodes S u v = Some (Inr (T\<lparr>sp_geometry := P\<rparr>))" using P(1) by simp
    show "sp_inv (T\<lparr>sp_geometry := P\<rparr>)" by (rule geometry_inv [OF invT P(2)])
  qed (use uv N(2) shape_lt(2) [OF shape uv(2)] in \<open>simp_all add: T_def\<close>)
qed

end
