(* ===== verification/Sparse_Attributes.thy ===== *)
theory Sparse_Attributes
  imports Sparse_Edit
begin

text \<open>
  The setters of \<^verbatim>\<open>lib_src/graphRepresentation.cpp\<close> on a sparse representation: single values and
  constants of the capacities, lengths, demands and orientations, and the multiplicities. Within their
  guards they return, keep the invariant, and change the value they are meant to change only.
\<close>

lemma only_sub_inv: "sp_inv S \<Longrightarrow> only_sub S S' \<Longrightarrow> sub_ok S' \<Longrightarrow> sp_inv S'"
  using only_sub_simps [of S S'] same_inc_rings [of S S' "{}"] paired_cong [of S' S]
  by (simp add: sp_inv_def same_inc_def)

lemma only_repr_inv: "sp_inv S \<Longrightarrow> only_repr S S' \<Longrightarrow> pools_ok S' \<Longrightarrow> sp_inv S'"
  using only_repr_simps [of S S'] same_inc_rings [of S S' "{}"] paired_cong [of S' S]
  by (simp add: sp_inv_def same_inc_def sub_ok_def)

lemma inv_pools: "sp_inv S \<Longrightarrow> pools_ok S"
  by (simp add: sp_inv_def)

lemma inv_sub: "sp_inv S \<Longrightarrow> sub_ok S \<and> sp_mAct S \<le> sp_mMax S"
  using sp_inv_shape [of S] by (simp add: sp_inv_def sp_shape_def)

lemma only_sub_trans:
  assumes "only_sub S S1" "only_sub S1 S2" shows "only_sub S S2"
proof -
  obtain x y z w where "S1 = S\<lparr>sp_sub := x, sp_calls := y\<rparr>" "S2 = S1\<lparr>sp_sub := z, sp_calls := w\<rparr>"
    using assms unfolding only_sub_def by blast
  then show ?thesis by (simp add: only_sub_def)
qed

lemma Sub_returns: "a < 2 * sp_mAct S \<Longrightarrow> \<exists>x. sp_Sub S a = Inr x"
  by (cases "sp_sub S") (simp_all add: sp_Sub_def)

section \<open>Constants\<close>

lemma ap_inv_Release: "ap_inv X P \<Longrightarrow> ap_inv X (attributePool_ReleaseAttribute P t)"
  using set_remove [of "primary P t" "ap_attributes P"]
  by (auto simp: ap_inv_def attributePool_ReleaseAttribute_def distinct_remove)

lemma Release_values:
  assumes "ap_inv X P"
  shows "attributePool_GetValue (attributePool_ReleaseAttribute P t) s k w
    = (if primary P s = primary P t then w else attributePool_GetValue P s k w)"
  using assms
  by (auto simp: ap_inv_def attributePool_ReleaseAttribute_def attributePool_GetValue_def attributePool_FindAttribute_def
      search_remove primary_def)

lemma set_constant_ok:
  assumes pools: "pools_ok S" and t: "t \<in> repr_tokens"
  obtains S' where "set_constant S t dflt v = Inr S'" "only_repr S S'" "pools_ok S'"
    "\<And>k. attributePool_GetValue (sp_representation S') t k dflt = v"
    "\<And>s k w. s \<in> repr_tokens \<Longrightarrow> s \<noteq> t \<Longrightarrow>
       attributePool_GetValue (sp_representation S') s k w = attributePool_GetValue (sp_representation S) s k w"
proof -
  let ?P = "sp_representation S" and ?X = "sp_SizeInfo S"
  have inv: "ap_inv ?X ?P" and tb: "ap_table ?P = listOfReprPars" using pools by (simp_all add: pools_ok_def)
  have prim: "s \<in> repr_tokens \<Longrightarrow> primary ?P s = s" for s using repr_tokens_table(2) [of s] by (simp add: primary_def tb)
  have lt: "s \<in> repr_tokens \<Longrightarrow> s < length (ap_table ?P)" for s using repr_tokens_table(1) [of s] by (simp add: tb)
  have X: "sp_SizeInfo (S\<lparr>sp_representation := P'\<rparr>) = ?X" for P' by (simp add: sp_SizeInfo_def fun_eq_iff split: TArrayDim.split)
  have P': "\<exists>P'. set_constant S t dflt v = Inr (S\<lparr>sp_representation := P'\<rparr>) \<and> ap_inv ?X P' \<and> ap_table P' = ap_table ?P
      \<and> (\<forall>k. attributePool_GetValue P' t k dflt = v)
      \<and> (\<forall>s k w. s \<in> repr_tokens \<longrightarrow> s \<noteq> t \<longrightarrow> attributePool_GetValue P' s k w = attributePool_GetValue ?P s k w)"
  proof (cases "v = dflt")
    case True
    have "ap_table (attributePool_ReleaseAttribute ?P t) = ap_table ?P" by (simp add: attributePool_ReleaseAttribute_def)
    then show ?thesis
      using True ap_inv_Release [OF inv, of t] prim t
      by (intro exI [of _ "attributePool_ReleaseAttribute ?P t"]) (auto simp: set_constant_def Release_values [OF inv])
  next
    case False
    obtain P' where P': "attributePool_MakeAttribute ?X ?P t ATTR_ALLOW_NULL (Some v) = Inr (True, P')"
      using attributePool_values_facts(3) [OF inv lt [OF t] lt [OF t], of v] by blast
    have val: "attributePool_GetValue P' s k w = (if s = t then v else attributePool_GetValue ?P s k w)" if "s \<in> repr_tokens" for s k w
      using attributePool_values_facts(3) [OF inv lt [OF that] lt [OF t], of v k w] P' prim [OF that] prim [OF t] by auto
    have mk: "make_ok ?X ?P t ATTR_ALLOW_NULL" using lt [OF t] by (simp add: make_ok_def)
    have "ap_table P' = ap_table ?P"
      using inv mk P' by (cases rule: MakeAttribute_cases) (auto simp: attributePool_put_def)
    then show ?thesis using False P' ap_inv_MakeAttribute [OF inv mk P'] val t by (auto simp: set_constant_def)
  qed
  then obtain P' where P': "set_constant S t dflt v = Inr (S\<lparr>sp_representation := P'\<rparr>)" "ap_inv ?X P'" "ap_table P' = ap_table ?P"
    "\<And>k. attributePool_GetValue P' t k dflt = v"
    "\<And>s k w. s \<in> repr_tokens \<Longrightarrow> s \<noteq> t \<Longrightarrow> attributePool_GetValue P' s k w = attributePool_GetValue ?P s k w" by blast
  show thesis
    by (rule that [OF P'(1)]) (use P'(2-5) pools X in \<open>auto simp: only_repr_def pools_ok_def\<close>)
qed

section \<open>Setters\<close>

lemma only_repr_caps:
  assumes "only_repr S S'" "\<And>s k w. s \<in> repr_tokens \<Longrightarrow> s \<noteq> t \<Longrightarrow>
      attributePool_GetValue (sp_representation S') s k w = attributePool_GetValue (sp_representation S) s k w"
  shows "t \<noteq> TokReprUCap \<Longrightarrow> sp_UCap S' = sp_UCap S" "t \<noteq> TokReprLCap \<Longrightarrow> sp_LCap S' = sp_LCap S"
    "t \<noteq> TokReprOrientation \<Longrightarrow> sp_Orientation S' = sp_Orientation S" "t \<noteq> TokReprLength \<Longrightarrow> sp_length S' = sp_length S"
  using assms(2) repr_tokens_mem
  by (simp_all add: sp_UCap_def sp_LCap_def sp_Orientation_def sp_length_def fun_eq_iff)

lemma set_constant_inv:
  assumes inv: "sp_inv S" and t: "t \<in> repr_tokens"
  obtains S' where "set_constant S t dflt v = Inr S'" "sp_inv S'"
  by (rule set_constant_ok [OF inv_pools [OF inv] t]) (use that only_repr_inv [OF inv] in blast)

lemma release_sub_inv: "sp_inv S \<Longrightarrow> sp_inv (sp_ReleaseSubgraph S)"
  using only_sub_inv [of S "sp_ReleaseSubgraph S"] by (simp add: only_sub_def sub_ok_def sp_ReleaseSubgraph_def)

lemma SetOrientation_ok:
  assumes inv: "sp_inv S" and a: "a < 2 * sp_mAct S" "d < 4"
  obtains S' where "sp_SetOrientation S a d = Inr S'" "sp_inv S'" "only_repr S S'"
    "\<And>b. sp_Orientation S' b = (if b div 2 = a div 2 then d else sp_Orientation S b)"
    "sp_UCap S' = sp_UCap S" "sp_LCap S' = sp_LCap S" "sp_length S' = sp_length S"
proof (rule set_arc_attribute_ok [OF inv_pools [OF inv] repr_tokens_mem(4,8) a(1), of 0 d])
  fix S' assume S': "set_arc_attribute S TokReprOrientation 0 a d = Inr S'" "only_repr S S'" "pools_ok S'"
    "\<And>k. attributePool_GetValue (sp_representation S') TokReprOrientation k 0
       = (if k = a div 2 then d else attributePool_GetValue (sp_representation S) TokReprOrientation k 0)"
    "\<And>s k w. s \<in> repr_tokens \<Longrightarrow> s \<noteq> TokReprOrientation \<Longrightarrow>
       attributePool_GetValue (sp_representation S') s k w = attributePool_GetValue (sp_representation S) s k w"
  show thesis
    by (rule that [of S']) (use S' a only_repr_inv [OF inv] only_repr_caps [OF S'(2,5)] in \<open>auto simp: sp_SetOrientation_def sp_Orientation_def token_defs\<close>)
qed

lemma SetDemand_inv:
  assumes inv: "sp_inv S" and v: "v < sp_nAct S"
  obtains S' where "sp_SetDemand S v d = Inr S'" "sp_inv S'"
proof -
  have pools: "pools_ok S" by (rule inv_pools [OF inv])
  let ?P = "sp_representation S" and ?X = "sp_SizeInfo S"
  have P: "ap_inv ?X ?P" and tb: "ap_table ?P = listOfReprPars" using pools by (simp_all add: pools_ok_def)
  have t: "TokReprDemand \<in> repr_tokens" by (simp add: repr_tokens_def)
  obtain P' where P': "repr_set ?X ?P TokReprDemand 0 (sp_nMax S) (sp_nAct S) v d = Inr P'" "ap_inv ?X P'" "ap_table P' = ap_table ?P"
  proof (rule repr_set_ok [OF P, of TokReprDemand DIM_GRAPH_NODES "sp_nMax S" "sp_nAct S" v 0 d])
    show "TokReprDemand < length (ap_table ?P)" using repr_tokens_table(1) [OF t] by (simp add: tb)
    show "DIM_GRAPH_NODES = arrayDim (ap_table ?P ! TokReprDemand)" using repr_tokens_table(3) [OF t] by (simp add: tb)
  qed (use v that in \<open>simp_all add: sp_SizeInfo_def\<close>)
  let ?S = "S\<lparr>sp_representation := P'\<rparr>"
  have "sp_SizeInfo ?S = ?X" by (simp add: sp_SizeInfo_def fun_eq_iff split: TArrayDim.split)
  then have "pools_ok ?S" using pools P'(2,3) unfolding pools_ok_def by simp
  then show thesis using that [of ?S] only_repr_inv [OF inv, of ?S] P'(1) v by (simp add: sp_SetDemand_def only_repr_def)
qed

text \<open>\<open>SetUCap\<close> and \<open>SetLCap\<close> first move the multiplicity into the new bounds.\<close>

lemma SetUCap_inv:
  assumes inv: "sp_inv S" and a: "a < 2 * sp_mAct S" "0 \<le> u" and x: "sp_Sub S a = Inr x"
    and range: "x > u \<Longrightarrow> \<not> (x > 0 \<and> u < sp_LCap S a) \<and> \<not> (sp_UCap S a < InfCap \<and> u > sp_UCap S a)"
  obtains S' where "sp_SetUCap S a u = Inr S'" "sp_inv S'"
proof -
  obtain S1 where S1: "(if x > u then sp_SetSub S a u else Inr S) = Inr S1" "sp_inv S1" "sp_mAct S1 = sp_mAct S"
  proof (cases "x > u")
    case True
    have "sub_ok S" "sp_mAct S \<le> sp_mMax S" using inv_sub [OF inv] by simp_all
    then obtain S1 where "sp_SetSub S a u = Inr S1" "only_sub S S1" "sub_ok S1"
      using sp_SetSub_ok [of S a x u] a x range [OF True] by auto
    then show thesis using that [of S1] True only_sub_inv [OF inv] only_sub_simps(7) by auto
  qed (use that inv in auto)
  have "a < 2 * sp_mAct S1" using a S1(3) by simp
  then obtain S2 where "set_arc_attribute S1 TokReprUCap 1 a u = Inr S2" "sp_inv S2"
    using set_arc_attribute_ok [OF inv_pools [OF S1(2)] repr_tokens_mem(1,5)] only_repr_inv [OF S1(2)] by metis
  then show thesis using that [of S2] S1(1) a x by (simp add: sp_SetUCap_def)
qed

lemma SetLCap_inv:
  assumes inv: "sp_inv S" and a: "a < 2 * sp_mAct S" "0 \<le> l" and x: "sp_Sub S a = Inr x"
    and range: "\<bar>x\<bar> < l \<Longrightarrow> \<not> (x > 0 \<and> l < sp_LCap S a) \<and> \<not> (sp_UCap S a < InfCap \<and> l > sp_UCap S a)"
  obtains S' where "sp_SetLCap S a l = Inr S'" "sp_inv S'"
proof -
  let ?r = "if x \<ge> 0 then l else - l"
  obtain S1 where S1: "(if \<bar>x\<bar> < l then sp_SetSub S a ?r else Inr S) = Inr S1" "sp_inv S1" "sp_mAct S1 = sp_mAct S"
  proof (cases "\<bar>x\<bar> < l")
    case True
    have "sub_ok S" "sp_mAct S \<le> sp_mMax S" using inv_sub [OF inv] by simp_all
    moreover have "\<bar>?r\<bar> = l" using a(2) by simp
    ultimately obtain S1 where "sp_SetSub S a ?r = Inr S1" "only_sub S S1" "sub_ok S1"
      using sp_SetSub_ok [of S a x ?r] a(1) x range [OF True] by (metis (no_types))
    then show thesis using that [of S1] True only_sub_inv [OF inv] only_sub_simps(7) by auto
  qed (use that inv in auto)
  have "a < 2 * sp_mAct S1" using a S1(3) by simp
  then obtain S2 where "set_arc_attribute S1 TokReprLCap 0 a l = Inr S2" "sp_inv S2"
    using set_arc_attribute_ok [OF inv_pools [OF S1(2)] repr_tokens_mem(2,6)] only_repr_inv [OF S1(2)] by metis
  then show thesis using that [of S2] S1(1) a x by (simp add: sp_SetLCap_def)
qed

lemma SetSubRelative_inv:
  assumes inv: "sp_inv S" and a: "a < 2 * sp_mAct S" and x: "sp_Sub S a = Inr x"
    and range: "\<not> (x > 0 \<and> \<bar>x + r\<bar> < sp_LCap S a)" "\<not> (sp_UCap S a < InfCap \<and> \<bar>x + r\<bar> > sp_UCap S a)"
  obtains S' where "sp_SetSubRelative S a r = Inr S'" "only_sub S S'" "sp_inv S'" "sub_ok S'"
    "\<And>b. b < 2 * sp_mAct S \<Longrightarrow> sp_Sub S' b = (if b div 2 = a div 2 then Inr (x + r) else sp_Sub S b)"
proof -
  have sub: "sub_ok S" "sp_mAct S \<le> sp_mMax S" using inv_sub [OF inv] by simp_all
  obtain S1 xs where S1: "sp_with_sub S = Inr S1" "only_sub S S1" "sp_sub S1 = Some xs" "length xs = sp_mMax S"
    "\<And>b. b < 2 * sp_mAct S \<Longrightarrow> sp_Sub S b = Inr (xs ! (b div 2))"
    using with_sub_ok [OF sub] by metis
  let ?S = "call (C_AdjustDegrees a r) (S1\<lparr>sp_sub := Some (xs[a div 2 := xs ! (a div 2) + r])\<rparr>)"
  obtain x1 y1 where e: "S1 = S\<lparr>sp_sub := x1, sp_calls := y1\<rparr>" using S1(2) by (auto simp: only_sub_def)
  have xa: "xs ! (a div 2) = x" using S1(5) [OF a] x by simp
  have lt: "b div 2 < length xs" if "b < 2 * sp_mAct S" for b using that S1(4) sub(2) by simp
  have o: "only_sub S ?S" "sub_ok ?S" using S1(4) by (simp_all add: e only_sub_def call_def sub_ok_def)
  show ?thesis
  proof (rule that [of ?S])
    show "sp_SetSubRelative S a r = Inr ?S" using S1 x range a by (simp add: sp_SetSubRelative_def Let_def)
    show "sp_Sub ?S b = (if b div 2 = a div 2 then Inr (x + r) else sp_Sub S b)" if "b < 2 * sp_mAct S" for b
      using that S1(5) [OF that] lt [OF that] xa by (auto simp: sp_Sub_def call_def e nth_list_update)
  qed (rule o only_sub_inv [OF inv o])+
qed

end
