(* ===== verification/Sparse_History.thy ===== *)
theory Sparse_History
  imports Sparse_Attributes
begin

text \<open>
  Histories of a sparse representation: a new object with nodes only, and any sequence of the
  calls below. The guard of a call states what the caller has to respect, beyond which the code
  raises an exception or reads outside its arrays.
\<close>

section \<open>Calls\<close>

datatype sp_op = Op_InsertArc nat nat real real real | Op_CancelArc nat | Op_CancelNode nat | Op_RouteArc nat nat nat
  | Op_SetFirst nat nat | Op_SetRight nat nat | Op_IdentifyNodes nat nat | Op_Left nat | Op_ReleaseReverseIncidences
  | Op_SetSub nat real | Op_SetLength nat real | Op_SetSubRelative nat real | Op_SetUCap nat real | Op_SetLCap nat real
  | Op_SetDemand nat real | Op_SetOrientation nat real | Op_SetCUCap real | Op_SetCLCap real | Op_SetCLength real
  | Op_SetCDemand real | Op_SetCOrientation real

fun sp_exec :: "sp_op \<Rightarrow> sparse \<Rightarrow> sparse result option" where
  "sp_exec (Op_InsertArc u v ucap len lcap) S = Some (rbind (sp_InsertArc S u v ucap len lcap) (\<lambda>(a, S'). Inr S'))"
| "sp_exec (Op_CancelArc a) S = sp_CancelArc S a"
| "sp_exec (Op_CancelNode v) S = sp_CancelNode S v"
| "sp_exec (Op_RouteArc a u v) S = sp_RouteArc S a u v"
| "sp_exec (Op_SetFirst v a) S = Some (sp_SetFirst S v a)"
| "sp_exec (Op_SetRight a1 a2) S = Some (sp_SetRight S a1 a2 NoArc)"
| "sp_exec (Op_IdentifyNodes u v) S = sp_IdentifyNodes S u v"
| "sp_exec (Op_Left a) S = Some (rbind (sp_Left S a) (\<lambda>(b, S'). Inr S'))"
| "sp_exec Op_ReleaseReverseIncidences S = Some (Inr (sp_ReleaseReverseIncidences S))"
| "sp_exec (Op_SetSub a r) S = Some (sp_SetSub S a r)"
| "sp_exec (Op_SetLength a len) S = Some (sp_SetLength S a len)"
| "sp_exec (Op_SetSubRelative a r) S = Some (sp_SetSubRelative S a r)"
| "sp_exec (Op_SetUCap a x) S = Some (sp_SetUCap S a x)"
| "sp_exec (Op_SetLCap a x) S = Some (sp_SetLCap S a x)"
| "sp_exec (Op_SetDemand v x) S = Some (sp_SetDemand S v x)"
| "sp_exec (Op_SetOrientation a x) S = Some (sp_SetOrientation S a x)"
| "sp_exec (Op_SetCUCap x) S = Some (sp_SetCUCap S x)"
| "sp_exec (Op_SetCLCap x) S = Some (sp_SetCLCap S x)"
| "sp_exec (Op_SetCLength x) S = Some (sp_SetCLength S x)"
| "sp_exec (Op_SetCDemand x) S = Some (sp_SetCDemand S x)"
| "sp_exec (Op_SetCOrientation x) S = Some (sp_SetCOrientation S x)"

definition sub_index_ok :: "sparse \<Rightarrow> nat \<Rightarrow> bool" where
  "sub_index_ok S a \<longleftrightarrow> sp_sub S = None \<or> a < sp_mMax S"

definition arc_ok :: "sparse \<Rightarrow> nat \<Rightarrow> bool" where
  "arc_ok S a \<longleftrightarrow> a < 2 * sp_mAct S \<and> sp_SN S ! a \<noteq> NoNode"

text \<open>The multiplicities \<open>r\<close> that an edge with multiplicity \<open>x\<close> accepts.\<close>

definition in_range :: "sparse \<Rightarrow> nat \<Rightarrow> real \<Rightarrow> real \<Rightarrow> bool" where
  "in_range S a x r \<longleftrightarrow> \<not> (x > 0 \<and> \<bar>r\<bar> < sp_LCap S a) \<and> \<not> (sp_UCap S a < InfCap \<and> \<bar>r\<bar> > sp_UCap S a)"

fun sp_guard :: "sp_op \<Rightarrow> sparse \<Rightarrow> bool" where
  "sp_guard (Op_InsertArc u v ucap len lcap) S \<longleftrightarrow> \<not> sp_referenced S \<and> u < sp_nAct S \<and> v < sp_nAct S
     \<and> 2 * sp_mMax S \<le> sp_maxArc S - 2 \<and> 0 \<le> lcap \<and> lcap \<le> ucap
     \<and> 0 \<le> sp_LCap S (2 * sp_mAct S) \<and> sp_LCap S (2 * sp_mAct S) \<le> ucap"
| "sp_guard (Op_CancelArc a) S \<longleftrightarrow> arc_ok S a \<and> sub_index_ok S a"
| "sp_guard (Op_CancelNode v) S \<longleftrightarrow> v < sp_nAct S \<and> full_axis S 0
     \<and> (\<forall>a < 2 * sp_mAct S. sp_SN S ! a = v \<longrightarrow> sub_index_ok S a)"
| "sp_guard (Op_RouteArc a u v) S \<longleftrightarrow> a < 2 * sp_mAct S \<and> u < sp_nAct S \<and> v < sp_nAct S \<and> sub_index_ok S a"
| "sp_guard (Op_SetFirst v a) S \<longleftrightarrow> arc_ok S a \<and> sp_SN S ! a = v"
| "sp_guard (Op_SetRight a1 a2) S \<longleftrightarrow> arc_ok S a1 \<and> arc_ok S a2 \<and> sp_SN S ! a1 = sp_SN S ! a2 \<and> a1 \<noteq> a2"
| "sp_guard (Op_IdentifyNodes u v) S \<longleftrightarrow> u < sp_nAct S \<and> v < sp_nAct S \<and> u \<noteq> v \<and> full_axis S 0
     \<and> sp_first S ! u \<noteq> NoArc \<and> sp_first S ! v \<noteq> NoArc"
| "sp_guard (Op_Left a) S \<longleftrightarrow> arc_ok S a"
| "sp_guard Op_ReleaseReverseIncidences S \<longleftrightarrow> True"
| "sp_guard (Op_SetSub a r) S \<longleftrightarrow> a < 2 * sp_mAct S
     \<and> (case sp_Sub S a of Inl e \<Rightarrow> False | Inr x \<Rightarrow> in_range S a x r)"
| "sp_guard (Op_SetLength a len) S \<longleftrightarrow> a < 2 * sp_mAct S"
| "sp_guard (Op_SetSubRelative a r) S \<longleftrightarrow> a < 2 * sp_mAct S
     \<and> (case sp_Sub S a of Inl e \<Rightarrow> False | Inr x \<Rightarrow> in_range S a x (x + r))"
| "sp_guard (Op_SetUCap a u) S \<longleftrightarrow> a < 2 * sp_mAct S \<and> 0 \<le> u
     \<and> (case sp_Sub S a of Inl e \<Rightarrow> False | Inr x \<Rightarrow> x > u \<longrightarrow> in_range S a x u)"
| "sp_guard (Op_SetLCap a l) S \<longleftrightarrow> a < 2 * sp_mAct S \<and> 0 \<le> l
     \<and> (case sp_Sub S a of Inl e \<Rightarrow> False | Inr x \<Rightarrow> \<bar>x\<bar> < l \<longrightarrow> in_range S a x l)"
| "sp_guard (Op_SetDemand v x) S \<longleftrightarrow> v < sp_nAct S"
| "sp_guard (Op_SetOrientation a x) S \<longleftrightarrow> a < 2 * sp_mAct S \<and> x < 4"
| "sp_guard (Op_SetCUCap x) S \<longleftrightarrow> 0 \<le> x"
| "sp_guard (Op_SetCLCap x) S \<longleftrightarrow> 0 \<le> x"
| "sp_guard (Op_SetCLength x) S \<longleftrightarrow> True"
| "sp_guard (Op_SetCDemand x) S \<longleftrightarrow> True"
| "sp_guard (Op_SetCOrientation x) S \<longleftrightarrow> x < 4"

inductive sp_history :: "sparse \<Rightarrow> bool" where
  new: "n \<le> NoNode \<Longrightarrow> 2 \<le> mxArc \<Longrightarrow> mxArc \<le> NoArc \<Longrightarrow> mxNode \<le> NoNode \<Longrightarrow> sp_history (sparseRepresentation mxNode mxArc n)"
| step: "sp_history S \<Longrightarrow> sp_guard c S \<Longrightarrow> sp_exec c S = Some (Inr S') \<Longrightarrow> sp_history S'"

lemma arc_ok_live: "arc_ok S a = live S {} a"
  by (simp add: arc_ok_def live_def)

section \<open>Every call returns and keeps the invariant\<close>

lemma InsertArc_exec:
  assumes inv: "sp_inv S" and guard: "sp_guard (Op_InsertArc u v ucap len lcap) S"
  obtains S' where "sp_InsertArc S u v ucap len lcap = Inr (sp_mAct S, S')" "sp_inv S'"
    "sp_mAct S' = sp_mAct S + 1" "sp_nAct S' = sp_nAct S"
    "sp_SN S' ! (2 * sp_mAct S) = u" "sp_SN S' ! Suc (2 * sp_mAct S) = v"
    "\<And>b. b < 2 * sp_mAct S \<Longrightarrow> sp_SN S' ! b = sp_SN S ! b"
    "\<And>b. sp_UCap S' b = (if b div 2 = sp_mAct S then ucap else sp_UCap S b)"
    "\<And>b. sp_LCap S' b = (if b div 2 = sp_mAct S then lcap else sp_LCap S b)"
    "\<And>b. sp_length S' b = (if b div 2 = sp_mAct S then len else sp_length S b)"
    "\<And>b. b < 2 * sp_mAct S' \<Longrightarrow> sp_Sub S' b = (if b div 2 = sp_mAct S then Inr lcap else sp_Sub S b)"
    "\<And>b. sp_Orientation S' b = sp_Orientation S b"
  by (rule InsertArc_ok [OF inv, of u v lcap ucap len]) (use guard that in simp_all)

lemma set_left_inv: "sp_inv S \<Longrightarrow> rings_ok (S\<lparr>sp_left := x\<rparr>) {} \<Longrightarrow> sp_inv (S\<lparr>sp_left := x\<rparr>)"
  using keeps_pools [of S "S\<lparr>sp_left := x\<rparr>"] paired_cong [of "S\<lparr>sp_left := x\<rparr>" S]
  by (simp add: sp_inv_def sub_ok_def keeps_def)

lemma set_first_inv: "sp_inv S \<Longrightarrow> rings_ok (S\<lparr>sp_first := x\<rparr>) {} \<Longrightarrow> sp_inv (S\<lparr>sp_first := x\<rparr>)"
  using keeps_pools [of S "S\<lparr>sp_first := x\<rparr>"] paired_cong [of "S\<lparr>sp_first := x\<rparr>" S]
  by (simp add: sp_inv_def sub_ok_def keeps_def)

lemma sp_exec_ok:
  assumes inv: "sp_inv S" and guard: "sp_guard c S"
  shows "\<exists>S'. sp_exec c S = Some (Inr S') \<and> sp_inv S'"
proof (cases c)
  case (Op_InsertArc u v ucap len lcap)
  then obtain S' where "sp_InsertArc S u v ucap len lcap = Inr (sp_mAct S, S')" "sp_inv S'"
    using InsertArc_exec [OF inv, of u v ucap len lcap] guard by metis
  then show ?thesis by (simp add: Op_InsertArc)
next
  case (Op_CancelArc a)
  then have g: "a < 2 * sp_mAct S" "sp_SN S ! a \<noteq> NoNode" "sp_sub S \<noteq> None \<Longrightarrow> a < sp_mMax S"
    using guard by (auto simp: arc_ok_def sub_index_ok_def)
  show ?thesis using CancelArc_ok [OF inv g] by (metis Op_CancelArc sp_exec.simps(2))
next
  case (Op_CancelNode v)
  then have g: "v < sp_nAct S" "full_axis S 0" "\<And>a. a \<in> arcs_at S {} v \<Longrightarrow> sp_sub S \<noteq> None \<Longrightarrow> a < sp_mMax S"
    using guard by (auto simp: arcs_at_def sub_index_ok_def)
  show ?thesis using CancelNode_ok [OF inv g] Op_CancelNode by (metis sp_exec.simps(3))
next
  case (Op_RouteArc a u v)
  then have g: "a < 2 * sp_mAct S" "u < sp_nAct S" "v < sp_nAct S" "sp_sub S \<noteq> None \<Longrightarrow> a < sp_mMax S"
    using guard by (auto simp: sub_index_ok_def)
  show ?thesis using RouteArc_ok [OF inv g] by (metis Op_RouteArc sp_exec.simps(4))
next
  case (Op_SetFirst v a)
  then show ?thesis using guard SetFirst_ok [OF sp_inv_rings [OF inv], of a] set_first_inv [OF inv] by (auto simp: arc_ok_live)
next
  case (Op_SetRight a1 a2)
  then have g: "live S {} a1" "live S {} a2" "sp_SN S ! a1 = sp_SN S ! a2" "a1 \<noteq> a2" using guard by (simp_all add: arc_ok_live)
  show ?thesis using SetRight_ok [OF inv g] by (metis Op_SetRight sp_exec.simps(6))
next
  case (Op_IdentifyNodes u v)
  then have g: "u < sp_nAct S" "v < sp_nAct S" "u \<noteq> v" "full_axis S 0" "sp_first S ! u \<noteq> NoArc" "sp_first S ! v \<noteq> NoArc"
    using guard by simp_all
  show ?thesis using IdentifyNodes_ok [OF inv g] by (metis Op_IdentifyNodes sp_exec.simps(7))
next
  case (Op_Left a)
  then obtain l where l: "sp_Left S a = Inr (l ! a, S\<lparr>sp_left := Some l\<rparr>)" "rings_ok (S\<lparr>sp_left := Some l\<rparr>) {}"
    using guard sp_Left_ok [OF sp_inv_rings [OF inv], of a] by (auto simp: arc_ok_live)
  then show ?thesis using set_left_inv [OF inv] by (simp add: Op_Left)
next
  case Op_ReleaseReverseIncidences
  have "rings_ok (S\<lparr>sp_left := None\<rparr>) {}" using rings_set_left [OF sp_inv_rings [OF inv]] by (simp add: left_ok_def)
  then show ?thesis using set_left_inv [OF inv] by (simp add: Op_ReleaseReverseIncidences sp_ReleaseReverseIncidences_def)
next
  case (Op_SetSub a r)
  then obtain x where x: "sp_Sub S a = Inr x" "\<not> (x > 0 \<and> \<bar>r\<bar> < sp_LCap S a)" "\<not> (sp_UCap S a < InfCap \<and> \<bar>r\<bar> > sp_UCap S a)"
    "a < 2 * sp_mAct S" using guard by (auto simp: in_range_def split: sum.splits)
  have "sub_ok S" "sp_mAct S \<le> sp_mMax S" using inv_sub [OF inv] by simp_all
  then obtain S' where "sp_SetSub S a r = Inr S'" "only_sub S S'" "sub_ok S'" using sp_SetSub_ok [OF _ _ x(4,1-3)] by metis
  then show ?thesis using only_sub_inv [OF inv] by (simp add: Op_SetSub)
next
  case (Op_SetLength a len)
  then have a: "a < 2 * sp_mAct S" using guard by simp
  then obtain S' where "set_arc_attribute S TokReprLength 1 a len = Inr S'" "only_repr S S'" "pools_ok S'"
    using set_arc_attribute_ok [OF inv_pools [OF inv] repr_tokens_mem(3,7)] by metis
  then show ?thesis using a only_repr_inv [OF inv] by (auto simp: Op_SetLength sp_SetLength_def)
next
  case (Op_SetSubRelative a r)
  then obtain x where "sp_Sub S a = Inr x" "in_range S a x (x + r)" "a < 2 * sp_mAct S" using guard by (auto split: sum.splits)
  then show ?thesis using SetSubRelative_inv [OF inv, of a x r] by (auto simp: Op_SetSubRelative in_range_def)
next
  case (Op_SetUCap a u)
  then obtain x where "sp_Sub S a = Inr x" "x > u \<Longrightarrow> in_range S a x u" "a < 2 * sp_mAct S" "0 \<le> u" using guard by (auto split: sum.splits)
  then show ?thesis using SetUCap_inv [OF inv, of a u x] by (auto simp: Op_SetUCap in_range_def)
next
  case (Op_SetLCap a l)
  then obtain x where "sp_Sub S a = Inr x" "\<bar>x\<bar> < l \<Longrightarrow> in_range S a x l" "a < 2 * sp_mAct S" "0 \<le> l" using guard by (auto split: sum.splits)
  then show ?thesis using SetLCap_inv [OF inv, of a l x] by (auto simp: Op_SetLCap in_range_def)
next
  case (Op_SetDemand v x)
  then have "v < sp_nAct S" using guard by simp
  then obtain S' where "sp_SetDemand S v x = Inr S'" "sp_inv S'" by (rule SetDemand_inv [OF inv])
  then show ?thesis by (simp add: Op_SetDemand)
next
  case (Op_SetOrientation a x)
  then have "a < 2 * sp_mAct S" "x < 4" using guard by simp_all
  then obtain S' where "sp_SetOrientation S a x = Inr S'" "sp_inv S'" by (rule SetOrientation_ok [OF inv])
  then show ?thesis by (simp add: Op_SetOrientation)
next
  case (Op_SetCUCap x)
  obtain S' where "set_constant (sp_ReleaseSubgraph S) TokReprUCap 1 x = Inr S'" "sp_inv S'"
    by (rule set_constant_inv [OF release_sub_inv [OF inv] repr_tokens_mem(1)])
  then show ?thesis using guard by (simp add: Op_SetCUCap sp_SetCUCap_def)
next
  case (Op_SetCLCap x)
  obtain S' where "set_constant (sp_ReleaseSubgraph S) TokReprLCap 0 x = Inr S'" "sp_inv S'"
    by (rule set_constant_inv [OF release_sub_inv [OF inv] repr_tokens_mem(2)])
  then show ?thesis using guard by (simp add: Op_SetCLCap sp_SetCLCap_def)
next
  case (Op_SetCLength x)
  obtain S' where "set_constant S TokReprLength 1 x = Inr S'" "sp_inv S'" by (rule set_constant_inv [OF inv repr_tokens_mem(3)])
  then show ?thesis by (simp add: Op_SetCLength sp_SetCLength_def)
next
  case (Op_SetCDemand x)
  have "TokReprDemand \<in> repr_tokens" by (simp add: repr_tokens_def)
  then obtain S' where "set_constant S TokReprDemand 0 x = Inr S'" "sp_inv S'" by (rule set_constant_inv [OF inv])
  then show ?thesis by (simp add: Op_SetCDemand sp_SetCDemand_def)
next
  case (Op_SetCOrientation x)
  obtain S' where "set_constant S TokReprOrientation 0 x = Inr S'" "sp_inv S'" by (rule set_constant_inv [OF inv repr_tokens_mem(4)])
  then show ?thesis using guard by (simp add: Op_SetCOrientation sp_SetCOrientation_def)
qed

lemma sp_history_inv: "sp_history S \<Longrightarrow> sp_inv S"
proof (induction rule: sp_history.induct)
  case (new n mxArc mxNode)
  then show ?case by (rule sp_inv_new)
next
  case (step S c S')
  then show ?case using sp_exec_ok by fastforce
qed

lemma same_edge: "b div 2 = a div 2 \<longleftrightarrow> b = a \<or> b = flip a"
proof
  assume "b div 2 = a div 2"
  then show "b = a \<or> b = flip a"
    by (cases "even a"; cases "even b") (auto simp: flip_def elim!: evenE oddE)
qed auto

text \<open>The insertion of an arc does not move nodes.\<close>

lemma geometry_setters:
  "set_arc_attribute S t d a x = Inr S' \<Longrightarrow> sp_geometry S' = sp_geometry S"
  "sp_SetSub S a x = Inr S' \<Longrightarrow> sp_geometry S' = sp_geometry S"
  "sp_append S td k = Inr S' \<Longrightarrow> sp_geometry S' = sp_geometry S"
  by (auto simp: set_arc_attribute_def sp_SetSub_def sp_with_sub_def sp_NewSubgraph_def sp_append_def Let_def rbind_Inr_iff split: if_splits)

lemma geometry_caps:
  "sp_SetLength S a x = Inr S' \<Longrightarrow> sp_geometry S' = sp_geometry S"
  "sp_SetUCap S a x = Inr S' \<Longrightarrow> sp_geometry S' = sp_geometry S"
  "sp_SetLCap S a x = Inr S' \<Longrightarrow> sp_geometry S' = sp_geometry S"
  by (auto simp: sp_SetLength_def sp_SetUCap_def sp_SetLCap_def rbind_Inr_iff dest!: geometry_setters(1,2) split: if_splits)

lemma InsertArc_geometry:
  assumes "sp_guard (Op_InsertArc u v ucap len lcap) S" "sp_InsertArc S u v ucap len lcap = Inr (e, S')"
  shows "sp_geometry S' = sp_geometry S"
proof -
  have "\<not> sp_referenced S" "u < sp_nAct S" "v < sp_nAct S" "2 * sp_mMax S \<le> sp_maxArc S - 2" using assms(1) by simp_all
  from assms(2) [unfolded InsertArc_eq [OF this]] show ?thesis
    by (auto simp: rbind_Inr_iff routed_frame dest!: geometry_setters(3) geometry_caps)
qed

section \<open>An example\<close>

text \<open>Two nodes, one edge from node 0 to node 1 of capacity 2 and length 5.\<close>

definition sp_example :: sparse where
  "sp_example = (case sp_InsertArc (sparseRepresentation 10 10 2) 0 1 2 5 0 of
      Inr (a, S) \<Rightarrow> S | Inl e \<Rightarrow> sparseRepresentation 10 10 2)"

lemma sp_new_history: "sp_history (sparseRepresentation 10 10 2)"
  by (rule sp_history.new) (simp_all add: NoNode_def NoArc_def)

lemma sp_new_guard: "sp_guard (Op_InsertArc 0 1 2 5 0) (sparseRepresentation 10 10 2)"
  by (simp add: sparseRepresentation_def sp_LCap_def attributePool_GetValue_def attributePool_FindAttribute_def attributePool_new_def)

lemma sp_example_insert:
  obtains S' where "sp_InsertArc (sparseRepresentation 10 10 2) 0 1 2 5 0 = Inr (0, S')" "sp_example = S'"
    "sp_mAct S' = 1" "sp_nAct S' = 2" "sp_SN S' ! 0 = 0" "sp_SN S' ! 1 = 1"
proof -
  have z: "sp_mAct (sparseRepresentation 10 10 2) = 0" "sp_nAct (sparseRepresentation 10 10 2) = 2"
    by (simp_all add: sparseRepresentation_def)
  show thesis
    by (rule InsertArc_exec [OF sp_history_inv [OF sp_new_history] sp_new_guard])
       (use z that in \<open>simp add: sp_example_def\<close>)
qed

lemma sp_example_facts:
  "sp_history sp_example" "sp_mAct sp_example = 1" "sp_nAct sp_example = 2" "sp_SN sp_example ! 0 = 0" "sp_SN sp_example ! 1 = 1"
proof -
  obtain S' where S': "sp_InsertArc (sparseRepresentation 10 10 2) 0 1 2 5 0 = Inr (0, S')" "sp_example = S'"
    "sp_mAct S' = 1" "sp_nAct S' = 2" "sp_SN S' ! 0 = 0" "sp_SN S' ! 1 = 1"
    using sp_example_insert .
  show "sp_mAct sp_example = 1" "sp_nAct sp_example = 2" "sp_SN sp_example ! 0 = 0" "sp_SN sp_example ! 1 = 1"
    using S' by simp_all
  show "sp_history sp_example"
    by (rule sp_history.step [OF sp_new_history sp_new_guard]) (simp only: sp_exec.simps S'(1,2) rbind_simps prod.case)
qed

lemma sp_example_UCap: "sp_UCap sp_example 0 = 2"
proof -
  have z: "sp_mAct (sparseRepresentation 10 10 2) = 0" by (simp add: sparseRepresentation_def)
  show ?thesis
    by (rule InsertArc_exec [OF sp_history_inv [OF sp_new_history] sp_new_guard]) (use z in \<open>simp add: sp_example_def\<close>)
qed

lemma sp_example_arcs:
  "arc_ok sp_example 0" "arc_ok sp_example 1" "sub_index_ok sp_example 0" "sp_first sp_example ! 0 = 0" "sp_first sp_example ! 1 = 1"
proof -
  note f = sp_example_facts
  note ok = sp_inv_rings [OF sp_history_inv [OF f(1)]] and shape = sp_inv_shape [OF sp_history_inv [OF f(1)]]
  show "arc_ok sp_example 0" "arc_ok sp_example 1" using f by (simp_all add: arc_ok_def NoNode_def)
  show "sub_index_ok sp_example 0" using shape f(2) by (auto simp: sub_index_ok_def sp_shape_def)
  have at: "arcs_at sp_example {} 0 = {0}" "arcs_at sp_example {} 1 = {1}"
    using f by (auto simp: arcs_at_def numeral_2_eq_2 less_Suc_eq)
  have n: "0 < sp_nAct sp_example" "1 < sp_nAct sp_example" using f(3) by simp_all
  show "sp_first sp_example ! 0 = 0" using ok n(1) by (cases rule: rings_node) (use at in auto)
  show "sp_first sp_example ! 1 = 1" using ok n(2) by (cases rule: rings_node) (use at in auto)
qed

lemma sp_example_axis: "full_axis sp_example 0"
proof -
  obtain S' where "sp_InsertArc (sparseRepresentation 10 10 2) 0 1 2 5 0 = Inr (0, S')" "sp_example = S'"
    using sp_example_insert by metis
  then have "sp_geometry sp_example = sp_geometry (sparseRepresentation 10 10 2)"
    using InsertArc_geometry [OF sp_new_guard] by metis
  then show ?thesis
    by (simp add: full_axis_def sparseRepresentation_def attributePool_FindAttribute_def attributePool_new_def)
qed

section \<open>Properties\<close>

text \<open>
  C1: After any history of a sparse representation, the loop that follows \<open>right\<close> from the first
  arc of a node ends and visits every arc that starts at the node exactly once; a node without
  first arc has no arcs.
\<close>

theorem sparse_rings_after_history:
  assumes "sp_history S" and "v < sp_nAct S"
  shows "if sp_first S ! v = NoArc then \<forall>a < 2 * sp_mAct S. sp_SN S ! a \<noteq> v
    else \<exists>as. arc_ring ((!) (sp_right S)) (sp_first S ! v) (sp_first S ! v) = Some as \<and> distinct as
      \<and> set as = {a. a < 2 * sp_mAct S \<and> sp_SN S ! a = v}"
  using sp_inv_rings [OF sp_history_inv [OF assms(1)]] assms(2)
proof (cases rule: rings_node)
  case none
  then show ?thesis by (auto simp: arcs_at_def)
next
  case (ring bs)
  then have "distinct (sp_first S ! v # bs)" by (simp add: ring_Cons)
  then show ?thesis using ring arc_ring_ring [OF ring(2)] by (auto simp: arcs_at_def)
qed

theorem sparse_rings_after_history_witness:
  "\<exists>as. arc_ring ((!) (sp_right sp_example)) 1 1 = Some as \<and> distinct as
      \<and> set as = {a. a < 2 * sp_mAct sp_example \<and> sp_SN sp_example ! a = 1}"
  using sparse_rings_after_history [OF sp_example_facts(1), of 1] sp_example_facts(3) sp_example_arcs(5) by (simp add: NoArc_def)

text \<open>
  C13: Every call within its guard returns without an exception and without leaving the bounds of
  the arrays, on every representation that a history has produced; the loops of \<open>CancelNode\<close>,
  \<open>IdentifyNodes\<close> and \<open>MarkExteriorFace\<close> end.
\<close>

theorem sparse_calls_return:
  assumes "sp_history S" and "sp_guard c S"
  shows "\<exists>S'. sp_exec c S = Some (Inr S') \<and> sp_history S'"
  using sp_exec_ok [OF sp_history_inv [OF assms(1)] assms(2)] sp_history.step [OF assms] by blast

theorem sparse_calls_return_witness:
  "\<exists>S'. sp_exec (Op_CancelArc 0) sp_example = Some (Inr S') \<and> sp_history S'"
  by (rule sparse_calls_return) (use sp_example_facts(1) sp_example_arcs in simp_all)

text \<open>
  C12: \<open>InsertArc\<close> returns the new edge: its end nodes, capacity bounds, length and multiplicity
  read back as they were given, and those of every other edge as before.
\<close>

theorem sparse_InsertArc_reads_back:
  assumes "sp_history S" and "sp_guard (Op_InsertArc u v ucap len lcap) S"
  shows "\<exists>S'. sp_InsertArc S u v ucap len lcap = Inr (sp_mAct S, S') \<and> sp_history S'
    \<and> sp_StartNode S' (2 * sp_mAct S) = Inr u \<and> sp_EndNode S' (2 * sp_mAct S) = Inr v
    \<and> (\<forall>b < 2 * sp_mAct S. sp_StartNode S' b = sp_StartNode S b)
    \<and> (\<forall>b < 2 * sp_mAct S'. sp_UCap S' b = (if b div 2 = sp_mAct S then ucap else sp_UCap S b)
        \<and> sp_LCap S' b = (if b div 2 = sp_mAct S then lcap else sp_LCap S b)
        \<and> sp_length S' b = (if b div 2 = sp_mAct S then len else sp_length S b)
        \<and> sp_Sub S' b = (if b div 2 = sp_mAct S then Inr lcap else sp_Sub S b))"
proof (rule InsertArc_exec [OF sp_history_inv [OF assms(1)] assms(2)], rule exI, intro conjI)
  fix S' assume r: "sp_InsertArc S u v ucap len lcap = Inr (sp_mAct S, S')"
  then show "sp_InsertArc S u v ucap len lcap = Inr (sp_mAct S, S')" .
  show "sp_history S'" using sp_history.step [OF assms, of S'] r by simp
qed (simp_all add: sp_StartNode_def sp_EndNode_def)

theorem sparse_InsertArc_reads_back_witness:
  "\<exists>S'. sp_InsertArc (sparseRepresentation 10 10 2) 0 1 2 5 0 = Inr (0, S') \<and> sp_StartNode S' 0 = Inr 0 \<and> sp_UCap S' 0 = 2"
proof -
  have "sp_mAct (sparseRepresentation 10 10 2) = 0" by (simp add: sparseRepresentation_def)
  moreover have "0 < 2 * sp_mAct S'" if "sp_StartNode S' 0 = Inr 0" for S' using that by (auto simp: sp_StartNode_def split: if_splits)
  ultimately show ?thesis using sparse_InsertArc_reads_back [OF sp_new_history sp_new_guard] by fastforce
qed

text \<open>
  C10: \<open>CancelArc\<close> cancels both arcs of the edge and leaves the end nodes, the capacities and the
  multiplicities of the other edges as they are.
\<close>

theorem sparse_CancelArc_removes_edge:
  assumes "sp_history S" and "arc_ok S a" and "sub_index_ok S a"
  shows "\<exists>S'. sp_CancelArc S a = Some (Inr S') \<and> sp_history S'
    \<and> (\<forall>b < 2 * sp_mAct S. sp_StartNode S' b = Inr (if b div 2 = a div 2 then NoNode else sp_SN S ! b))
    \<and> sp_sub S' = sp_sub S \<and> sp_representation S' = sp_representation S"
proof -
  have inv: "sp_inv S" using assms(1) by (rule sp_history_inv)
  have g: "a < 2 * sp_mAct S" "sp_SN S ! a \<noteq> NoNode" "sp_sub S \<noteq> None \<Longrightarrow> a < sp_mMax S"
    using assms(2,3) by (auto simp: arc_ok_def sub_index_ok_def)
  obtain S' where S': "sp_CancelArc S a = Some (Inr S')" "keeps S S'" "sp_SN S' = (sp_SN S)[a := NoNode, flip a := NoNode]"
    using CancelArc_ok [OF inv g] by metis
  have "sp_history S'" using sp_history.step [OF assms(1), of "Op_CancelArc a" S'] assms(2,3) S'(1) by simp
  moreover have "sp_StartNode S' b = Inr (if b div 2 = a div 2 then NoNode else sp_SN S ! b)" if b: "b < 2 * sp_mAct S" for b
  proof -
    have "b div 2 = a div 2 \<longleftrightarrow> b = a \<or> b = flip a" by (rule same_edge)
    moreover have "b < length (sp_SN S)" using shape_lt(1) [OF sp_inv_shape [OF inv] b] by simp
    ultimately show ?thesis using S'(2,3) b by (auto simp: sp_StartNode_def keeps_def nth_list_update)
  qed
  ultimately show ?thesis using S' by (auto simp: keeps_def)
qed

theorem sparse_CancelArc_removes_edge_witness:
  "\<exists>S'. sp_CancelArc sp_example 0 = Some (Inr S') \<and> sp_StartNode S' 1 = Inr NoNode"
  using sparse_CancelArc_removes_edge [OF sp_example_facts(1) sp_example_arcs(1,3)] sp_example_facts(2) by fastforce

text \<open>
  C33: \<open>CancelNode\<close> ends; afterwards the node has no incidences, exactly the edges at the node are
  cancelled, and the node is hidden by its first coordinate.
\<close>

theorem sparse_CancelNode_isolates:
  assumes "sp_history S" and "v < sp_nAct S" and "full_axis S 0"
    and "\<forall>a < 2 * sp_mAct S. sp_SN S ! a = v \<longrightarrow> sub_index_ok S a"
  shows "\<exists>S'. sp_CancelNode S v = Some (Inr S') \<and> sp_history S' \<and> sp_First S' v = Inr NoArc \<and> sp_C S' v 0 = - InfFloat
    \<and> (\<forall>b < 2 * sp_mAct S. sp_SN S' ! b = (if sp_SN S ! b = v \<or> sp_SN S ! flip b = v then NoNode else sp_SN S ! b))"
proof -
  have sub: "\<And>a. a \<in> arcs_at S {} v \<Longrightarrow> sp_sub S \<noteq> None \<Longrightarrow> a < sp_mMax S"
    using assms(4) by (auto simp: arcs_at_def sub_index_ok_def)
  show ?thesis
  proof (rule CancelNode_ok [OF sp_history_inv [OF assms(1)] assms(2,3) sub], assumption, assumption)
    fix S' T P assume S': "sp_CancelNode S v = Some (Inr S')" "S' = T\<lparr>sp_geometry := P\<rparr>" "keeps S T"
      "sp_first S' ! v = NoArc" "sp_C S' v 0 = - InfFloat"
      "\<And>b. b < 2 * sp_mAct S \<Longrightarrow> sp_SN S' ! b = (if sp_SN S ! b = v \<or> sp_SN S ! flip b = v then NoNode else sp_SN S ! b)"
    have "sp_history S'" using sp_history.step [OF assms(1), of "Op_CancelNode v" S'] assms(2-4) S'(1) by simp
    moreover have "sp_First S' v = Inr NoArc" using S'(2-4) assms(2) by (simp add: sp_First_def keeps_def)
    ultimately show ?thesis using S'(1,5,6) by blast
  qed
qed

theorem sparse_CancelNode_isolates_witness:
  "\<exists>S'. sp_CancelNode (sparseRepresentation 10 10 2) 1 = Some (Inr S') \<and> sp_First S' 1 = Inr NoArc \<and> sp_C S' 1 0 = - InfFloat"
proof -
  have "\<exists>S'. sp_CancelNode (sparseRepresentation 10 10 2) 1 = Some (Inr S') \<and> sp_history S' \<and> sp_First S' 1 = Inr NoArc
    \<and> sp_C S' 1 0 = - InfFloat \<and> (\<forall>b < 2 * sp_mAct (sparseRepresentation 10 10 2). sp_SN S' ! b =
      (if sp_SN (sparseRepresentation 10 10 2) ! b = 1 \<or> sp_SN (sparseRepresentation 10 10 2) ! flip b = 1 then NoNode
       else sp_SN (sparseRepresentation 10 10 2) ! b))"
    by (rule sparse_CancelNode_isolates [OF sp_new_history])
       (simp_all add: sparseRepresentation_def full_axis_def attributePool_FindAttribute_def attributePool_new_def)
  then show ?thesis by blast
qed

text \<open>
  C34: An edge that is cancelled and then routed between its former end nodes is back: every arc
  starts where it started before, and every node has the arcs it had.
\<close>

theorem sparse_cancel_route_roundtrip:
  assumes "sp_history S" and "arc_ok S a" and "sub_index_ok S a"
  shows "\<exists>S1 S2. sp_CancelArc S a = Some (Inr S1) \<and> sp_RouteArc S1 a (sp_SN S ! a) (sp_SN S ! flip a) = Some (Inr S2)
    \<and> sp_history S2 \<and> sp_SN S2 = sp_SN S \<and> sp_mAct S2 = sp_mAct S \<and> sp_nAct S2 = sp_nAct S"
proof -
  have inv: "sp_inv S" using assms(1) by (rule sp_history_inv)
  have g: "a < 2 * sp_mAct S" "sp_SN S ! a \<noteq> NoNode" "sp_sub S \<noteq> None \<Longrightarrow> a < sp_mMax S"
    using assms(2,3) by (auto simp: arc_ok_def sub_index_ok_def)
  have "sp_SN S ! flip a \<noteq> NoNode" using paired_flip [of S a] g inv by (simp add: sp_inv_def)
  then have uv: "sp_SN S ! a < sp_nAct S" "sp_SN S ! flip a < sp_nAct S"
    using sp_inv_rings [OF inv] g(1,2) unfolding rings_ok_def by (metis flip_lt)+
  obtain S1 where S1: "sp_CancelArc S a = Some (Inr S1)" "sp_inv S1" "keeps S S1" "sp_SN S1 = (sp_SN S)[a := NoNode, flip a := NoNode]"
    using CancelArc_ok [OF inv g] by metis
  have g1: "a < 2 * sp_mAct S1" "sp_SN S ! a < sp_nAct S1" "sp_SN S ! flip a < sp_nAct S1" "sp_sub S1 \<noteq> None \<Longrightarrow> a < sp_mMax S1"
    using g uv S1(3) by (simp_all add: keeps_def)
  obtain S2 where S2: "sp_RouteArc S1 a (sp_SN S ! a) (sp_SN S ! flip a) = Some (Inr S2)" "keeps S1 S2"
    "sp_SN S2 = (sp_SN S1)[a := sp_SN S ! a, flip a := sp_SN S ! flip a]"
    using RouteArc_ok [OF S1(2) g1] by metis
  have h1: "sp_history S1" using sp_history.step [OF assms(1), of "Op_CancelArc a" S1] assms(2,3) S1(1) by simp
  have "sp_guard (Op_RouteArc a (sp_SN S ! a) (sp_SN S ! flip a)) S1" using g1 unfolding sub_index_ok_def sp_guard.simps by blast
  then have "sp_history S2" using sp_history.step [OF h1, of "Op_RouteArc a (sp_SN S ! a) (sp_SN S ! flip a)" S2] S2(1) by simp
  moreover have "a < length (sp_SN S)" "flip a < length (sp_SN S)"
    using shape_lt(1) [OF sp_inv_shape [OF inv], of a] shape_lt(1) [OF sp_inv_shape [OF inv], of "flip a"] g(1) by simp_all
  then have "sp_SN S2 = sp_SN S" unfolding S2(3) S1(4) by (intro nth_equalityI) (auto simp: nth_list_update)
  moreover have "sp_mAct S2 = sp_mAct S" "sp_nAct S2 = sp_nAct S" using S1(3) S2(2) by (simp_all add: keeps_def)
  ultimately show ?thesis using S1(1) S2(1) by blast
qed

theorem sparse_cancel_route_roundtrip_witness:
  "\<exists>S1 S2. sp_CancelArc sp_example 0 = Some (Inr S1) \<and> sp_RouteArc S1 0 0 1 = Some (Inr S2) \<and> sp_SN S2 = sp_SN sp_example"
proof -
  have "flip 0 = (1::nat)" by (simp add: flip_def)
  then show ?thesis
    using sparse_cancel_route_roundtrip [OF sp_example_facts(1) sp_example_arcs(1,3)] unfolding sp_example_facts(4)
    using sp_example_facts(5) by metis
qed

text \<open>
  C35: \<open>Left\<close> and \<open>Right\<close> are inverse on the arcs that are not cancelled, whether \<open>left\<close> has been
  generated before or is generated by the call; the call does not change the incidence lists.
\<close>

theorem sparse_Left_Right_inverse:
  assumes "sp_history S" and "arc_ok S a"
  shows "\<exists>al S1 S2. sp_Left S a = Inr (al, S1) \<and> sp_Right S1 al = Inr a \<and> sp_StartNode S1 al = Inr (sp_SN S ! a)
    \<and> sp_Left S1 (sp_right S1 ! a) = Inr (a, S2) \<and> S2 = S1 \<and> S1 = S\<lparr>sp_left := sp_left S1\<rparr>"
proof -
  note ok = sp_inv_rings [OF sp_history_inv [OF assms(1)]]
  have live: "live S {} a" using assms(2) by (simp add: arc_ok_live)
  obtain l where l: "sp_Left S a = Inr (l ! a, S\<lparr>sp_left := Some l\<rparr>)" "rings_ok (S\<lparr>sp_left := Some l\<rparr>) {}"
    "live S {} (l ! a)" "sp_right S ! (l ! a) = a" "sp_SN S ! (l ! a) = sp_SN S ! a"
    using sp_Left_ok [OF ok live] .
  have r: "live S {} (sp_right S ! a)" by (rule rings_right(1) [OF ok live])
  have "l ! (sp_right S ! a) = a" using l(2) live by (simp add: rings_ok_def left_ok_def)
  then have "sp_Left (S\<lparr>sp_left := Some l\<rparr>) (sp_right S ! a) = Inr (a, S\<lparr>sp_left := Some l\<rparr>)"
    using r by (simp add: sp_Left_def sp_gen_left_def live_def)
  then show ?thesis using l by (auto simp: sp_Right_def sp_StartNode_def live_def)
qed

theorem sparse_Left_Right_inverse_witness:
  "\<exists>al S1. sp_Left sp_example 1 = Inr (al, S1) \<and> sp_Right S1 al = Inr 1"
  using sparse_Left_Right_inverse [OF sp_example_facts(1) sp_example_arcs(2)] by blast

text \<open>
  \<open>IdentifyNodes\<close> on two nodes that both have arcs moves every arc of the second node to the
  first one, leaves the second one without incidences, and ends.
\<close>

theorem sparse_IdentifyNodes_merges:
  assumes "sp_history S" and "sp_guard (Op_IdentifyNodes u v) S"
  shows "\<exists>S'. sp_IdentifyNodes S u v = Some (Inr S') \<and> sp_history S' \<and> sp_First S' v = Inr NoArc
    \<and> sp_First S' u = sp_First S u
    \<and> (\<forall>b < 2 * sp_mAct S. sp_StartNode S' b = Inr (if sp_SN S ! b = v then u else sp_SN S ! b))"
proof -
  have g: "u < sp_nAct S" "v < sp_nAct S" "u \<noteq> v" "full_axis S 0" "sp_first S ! u \<noteq> NoArc" "sp_first S ! v \<noteq> NoArc"
    using assms(2) by simp_all
  obtain S' where S': "sp_IdentifyNodes S u v = Some (Inr S')" "sp_nAct S' = sp_nAct S" "sp_mAct S' = sp_mAct S"
    "sp_first S' ! v = NoArc" "sp_first S' ! u = sp_first S ! u"
    "\<And>b. b < 2 * sp_mAct S \<Longrightarrow> sp_SN S' ! b = (if sp_SN S ! b = v then u else sp_SN S ! b)"
    using IdentifyNodes_ok [OF sp_history_inv [OF assms(1)] g] by metis
  have "sp_history S'" using sp_history.step [OF assms, of S'] S'(1) by simp
  then show ?thesis using S' g by (auto simp: sp_First_def sp_StartNode_def)
qed

theorem sparse_IdentifyNodes_merges_witness:
  "\<exists>S'. sp_IdentifyNodes sp_example 0 1 = Some (Inr S') \<and> sp_First S' 1 = Inr NoArc \<and> sp_StartNode S' 1 = Inr 0"
proof -
  have "sp_guard (Op_IdentifyNodes 0 1) sp_example"
    using sp_example_facts sp_example_arcs sp_example_axis by (simp add: NoArc_def)
  from sparse_IdentifyNodes_merges [OF sp_example_facts(1) this] show ?thesis
    using sp_example_facts(2,5) by fastforce
qed

end
