(* ===== verification/Graph_Iterator.thy ===== *)
theory Graph_Iterator
  imports Sparse_History
begin

text \<open>
  The default investigator \<open>iGraph\<close> (\<^verbatim>\<open>lib_src/itGraph.cpp\<close>) on a sparse representation: one
  position per node in its incidence list. The loops of the graph algorithms
  \<open>while (I.Active(u)) { a = I.Read(u); ... }\<close> are an operator on their bodies.
\<close>

section \<open>The investigator\<close>

record iGraph =
  it_n :: nat
  it_current :: "nat list"

definition iGraph_new :: "sparse \<Rightarrow> iGraph" where
  "iGraph_new S = \<lparr>it_n = sp_nAct S, it_current = replicate (sp_nAct S) NoArc\<rparr>"

definition iGraph_Reset :: "iGraph \<Rightarrow> iGraph" where
  "iGraph_Reset I = I\<lparr>it_current := map (\<lambda>i. NoArc) [0..<it_n I]\<rparr>"

definition iGraph_Reset1 :: "iGraph \<Rightarrow> nat \<Rightarrow> iGraph result" where
  "iGraph_Reset1 I v = (if v \<ge> it_n I then Inl ERRange else Inr (I\<lparr>it_current := (it_current I)[v := NoArc]\<rparr>))"

definition iGraph_Read :: "sparse \<Rightarrow> iGraph \<Rightarrow> nat \<Rightarrow> (nat \<times> iGraph) result" where
  "iGraph_Read S I v =
     (if v \<ge> it_n I then Inl ERRange
      else rbind (sp_First S v) (\<lambda>f.
        if it_current I ! v = f \<or> f = NoArc then Inl ERRejected
        else if it_current I ! v = NoArc
        then rbind (sp_Right S f) (\<lambda>r. Inr (f, I\<lparr>it_current := (it_current I)[v := r]\<rparr>))
        else rbind (sp_Right S (it_current I ! v)) (\<lambda>r.
          Inr (it_current I ! v, I\<lparr>it_current := (it_current I)[v := r]\<rparr>))))"

definition iGraph_Peek :: "sparse \<Rightarrow> iGraph \<Rightarrow> nat \<Rightarrow> nat result" where
  "iGraph_Peek S I v =
     (if v \<ge> it_n I then Inl ERRange
      else rbind (sp_First S v) (\<lambda>f.
        if it_current I ! v = f \<or> f = NoArc then Inl ERRejected
        else if it_current I ! v = NoArc then Inr f else Inr (it_current I ! v)))"

definition iGraph_Active :: "sparse \<Rightarrow> iGraph \<Rightarrow> nat \<Rightarrow> bool result" where
  "iGraph_Active S I v =
     (if v \<ge> it_n I then Inl ERRange
      else rbind (sp_First S v) (\<lambda>f. Inr (it_current I ! v \<noteq> f \<and> f \<noteq> NoArc)))"

text \<open>The loop over the incidences of a node, with the state \<open>st\<close> of its body.\<close>

partial_function (option) read_loop ::
  "sparse \<Rightarrow> nat \<Rightarrow> (nat \<Rightarrow> 's \<Rightarrow> 's result) \<Rightarrow> iGraph \<Rightarrow> 's \<Rightarrow> (iGraph \<times> 's) result option" where
  "read_loop S u body I st =
     (case iGraph_Active S I u of
        Inl e \<Rightarrow> Some (Inl e)
      | Inr act \<Rightarrow>
          if \<not> act then Some (Inr (I, st))
          else case iGraph_Read S I u of
              Inl e \<Rightarrow> Some (Inl e)
            | Inr p \<Rightarrow>
                (case body (fst p) st of
                   Inl e \<Rightarrow> Some (Inl e)
                 | Inr st' \<Rightarrow> read_loop S u body (snd p) st'))"

section \<open>Enumeration of the incidences\<close>

text \<open>The incidences of a node in the order in which an investigator returns them.\<close>

definition node_arcs :: "sparse \<Rightarrow> nat \<Rightarrow> nat list" where
  "node_arcs S v = (if sp_first S ! v = NoArc then [] else
     (case arc_ring ((!) (sp_right S)) (sp_first S ! v) (sp_first S ! v) of None \<Rightarrow> [] | Some as \<Rightarrow> as))"

fun rfold :: "('a \<Rightarrow> 's \<Rightarrow> 's result) \<Rightarrow> 'a list \<Rightarrow> 's \<Rightarrow> 's result" where
  "rfold f [] st = Inr st"
| "rfold f (a # as) st = rbind (f a st) (rfold f as)"

lemma node_arcs_ok:
  assumes "rings_ok S {}" "v < sp_nAct S"
  shows "distinct (node_arcs S v)" "set (node_arcs S v) = arcs_at S {} v"
    and "node_arcs S v \<noteq> [] \<Longrightarrow> ring ((!) (sp_right S)) (node_arcs S v) \<and> hd (node_arcs S v) = sp_first S ! v"
    and "node_arcs S v = [] \<longleftrightarrow> sp_first S ! v = NoArc"
proof -
  have "distinct (node_arcs S v) \<and> set (node_arcs S v) = arcs_at S {} v
    \<and> (node_arcs S v \<noteq> [] \<longrightarrow> ring ((!) (sp_right S)) (node_arcs S v) \<and> hd (node_arcs S v) = sp_first S ! v)
    \<and> (node_arcs S v = [] \<longleftrightarrow> sp_first S ! v = NoArc)"
    using assms
  proof (cases rule: rings_node)
    case none
    then show ?thesis by (simp add: node_arcs_def)
  next
    case (ring bs)
    then have "node_arcs S v = sp_first S ! v # bs" using arc_ring_ring [OF ring(2)] by (simp add: node_arcs_def)
    then show ?thesis using ring by (simp add: ring_Cons)
  qed
  then show "distinct (node_arcs S v)" "set (node_arcs S v) = arcs_at S {} v"
    "node_arcs S v \<noteq> [] \<Longrightarrow> ring ((!) (sp_right S)) (node_arcs S v) \<and> hd (node_arcs S v) = sp_first S ! v"
    "node_arcs S v = [] \<longleftrightarrow> sp_first S ! v = NoArc" by simp_all
qed

definition it_ok :: "sparse \<Rightarrow> iGraph \<Rightarrow> bool" where
  "it_ok S I \<longleftrightarrow> it_n I = sp_nAct S \<and> length (it_current I) = sp_nAct S"

lemma it_ok_new [simp]: "it_ok S (iGraph_new S)"
  by (simp add: it_ok_def iGraph_new_def)

text \<open>The rest of a round: the position is inside the ring, behind its first arc.\<close>

lemma read_loop_rest:
  assumes rng: "\<And>b. b \<in> set as \<Longrightarrow> b < 2 * sp_mAct S \<and> b \<noteq> f \<and> b \<noteq> NoArc" and f: "sp_first S ! u = f" "f \<noteq> NoArc"
    and u: "u < sp_nAct S"
    and ch: "chain ((!) (sp_right S)) c as f" and I: "it_ok S I" "it_current I ! u = c"
  shows "read_loop S u body I st = Some (rbind (rfold body as st) (\<lambda>st'. Inr (I\<lparr>it_current := (it_current I)[u := f]\<rparr>, st')))"
  using rng ch I
proof (induction as arbitrary: c I st)
  case Nil
  then have c: "it_current I ! u = f" by simp
  then have "(it_current I)[u := f] = it_current I" by (metis list_update_id)
  then show ?case using u f c Nil.prems(3)
    by (subst read_loop.simps) (simp add: iGraph_Active_def sp_First_def it_ok_def)
next
  case (Cons a as)
  then have c: "c = a" and ch: "chain ((!) (sp_right S)) (sp_right S ! a) as f" by simp_all
  have a: "a < 2 * sp_mAct S" "a \<noteq> f" "a \<noteq> NoArc" using Cons.prems(1) by auto
  let ?I = "I\<lparr>it_current := (it_current I)[u := sp_right S ! a]\<rparr>"
  have rd: "iGraph_Active S I u = Inr True" "iGraph_Read S I u = Inr (a, ?I)"
    using u f a c Cons.prems(3,4) by (auto simp: iGraph_Active_def iGraph_Read_def sp_First_def sp_Right_def it_ok_def)
  have IH: "read_loop S u body ?I st' = Some (rbind (rfold body as st') (\<lambda>st'. Inr (I\<lparr>it_current := (it_current I)[u := f]\<rparr>, st')))" for st'
  proof -
    have "it_ok S ?I" "it_current ?I ! u = sp_right S ! a" using Cons.prems(3) u by (simp_all add: it_ok_def)
    from Cons.IH [OF _ ch this, of st'] Cons.prems(1) show ?thesis by simp
  qed
  show ?case by (subst read_loop.simps) (cases "body a st"; simp add: rd IH)
qed

lemma read_loop_fold:
  assumes ok: "rings_ok S {}" and u: "u < sp_nAct S" and I: "it_ok S I" "it_current I ! u = NoArc"
  shows "read_loop S u body I st = Some (rbind (rfold body (node_arcs S u) st)
    (\<lambda>st'. Inr (I\<lparr>it_current := (it_current I)[u := sp_first S ! u]\<rparr>, st')))"
proof (cases "node_arcs S u")
  case Nil
  then have f: "sp_first S ! u = NoArc" using node_arcs_ok(4) [OF ok u] by simp
  have "(it_current I)[u := NoArc] = it_current I" using I(2) by (metis list_update_id)
  then show ?thesis using Nil u f I by (subst read_loop.simps) (simp add: iGraph_Active_def sp_First_def it_ok_def)
next
  case (Cons f as)
  have r: "ring ((!) (sp_right S)) (f # as)" "sp_first S ! u = f" using node_arcs_ok(3) [OF ok u] Cons by auto
  have mem: "b < 2 * sp_mAct S \<and> b \<noteq> NoArc" if "b \<in> set (f # as)" for b
    using that node_arcs_ok(2) [OF ok u] Cons shape_lt(1) [OF rings_shape [OF ok]] by (auto simp: arcs_at_def)
  let ?I = "I\<lparr>it_current := (it_current I)[u := sp_right S ! f]\<rparr>"
  have rd: "iGraph_Active S I u = Inr True" "iGraph_Read S I u = Inr (f, ?I)"
    using u r(2) mem [of f] I by (auto simp: iGraph_Active_def iGraph_Read_def sp_First_def sp_Right_def it_ok_def)
  have rest: "read_loop S u body ?I st' = Some (rbind (rfold body as st') (\<lambda>st'. Inr (I\<lparr>it_current := (it_current I)[u := f]\<rparr>, st')))" for st'
  proof -
    have "it_ok S ?I" "it_current ?I ! u = sp_right S ! f" using I u by (simp_all add: it_ok_def)
    then show ?thesis
      using read_loop_rest [of as S f u "sp_right S ! f" ?I body st'] r mem u by (auto simp: ring_Cons)
  qed
  show ?thesis unfolding Cons by (subst read_loop.simps) (cases "body f st"; simp add: rd rest r(2))
qed

section \<open>Properties\<close>

text \<open>
  C36: On a representation that a history has produced, the loop over \<open>Active\<close> and \<open>Read\<close> of a new
  investigator ends without an exception and returns every arc with this start node exactly once.
\<close>

theorem iGraph_reads_all_arcs:
  assumes "sp_history S" and "u < sp_nAct S"
  shows "\<exists>I as. read_loop S u (\<lambda>a as. Inr (as @ [a])) (iGraph_new S) [] = Some (Inr (I, as)) \<and> distinct as
    \<and> set as = {a. a < 2 * sp_mAct S \<and> sp_SN S ! a = u} \<and> iGraph_Active S I u = Inr False"
proof -
  note ok = sp_inv_rings [OF sp_history_inv [OF assms(1)]]
  have "rfold (\<lambda>a as. Inr (as @ [a])) xs ys = Inr (ys @ xs)" for xs ys :: "nat list" by (induction xs arbitrary: ys) simp_all
  then have "read_loop S u (\<lambda>a as. Inr (as @ [a])) (iGraph_new S) []
    = Some (Inr ((iGraph_new S)\<lparr>it_current := (it_current (iGraph_new S))[u := sp_first S ! u]\<rparr>, node_arcs S u))"
    using read_loop_fold [OF ok assms(2) it_ok_new, where body = "\<lambda>a as. Inr (as @ [a])" and st = "[]"] assms(2) by (simp add: iGraph_new_def)
  then show ?thesis
    using node_arcs_ok(1,2) [OF ok assms(2)] assms(2)
    by (auto simp: arcs_at_def iGraph_Active_def sp_First_def iGraph_new_def)
qed

theorem iGraph_reads_all_arcs_witness:
  "\<exists>I as. read_loop sp_example 1 (\<lambda>a as. Inr (as @ [a])) (iGraph_new sp_example) [] = Some (Inr (I, as)) \<and> distinct as
    \<and> set as = {a. a < 2 * sp_mAct sp_example \<and> sp_SN sp_example ! a = 1} \<and> iGraph_Active sp_example I 1 = Inr False"
  using iGraph_reads_all_arcs [OF sp_example_facts(1), of 1] sp_example_facts(3) by simp

end
