(* ===== verification/Breadth_First.thy ===== *)
theory Breadth_First
  imports Graph_Iterator Static_Queue
begin

text \<open>
  Breadth first search on sparse graph objects (\<open>abstractMixedGraph::BFS\<close> in
  \<^verbatim>\<open>lib_src/solveSPTree.cpp\<close>) over the investigator and the contiguous queue, with the test
  whether an arc may be traversed. The arrays \<open>dist\<close> and \<open>pred\<close> are the distance and the
  predecessor labels that the graph object exports from its registers.
\<close>

section \<open>Eligible arcs\<close>

definition SPX_SUBGRAPH :: nat where "SPX_SUBGRAPH = 1"
definition SPX_RESIDUAL :: nat where "SPX_RESIDUAL = 2"

definition spx_has :: "nat \<Rightarrow> nat \<Rightarrow> bool" where
  "spx_has characteristic flag = odd (characteristic div flag)"

definition sp_Blocking :: "sparse \<Rightarrow> nat \<Rightarrow> bool" where
  "sp_Blocking S a = (if sp_Orientation S a = 0 then False else if odd a then True else False)"

definition sp_ResCap :: "sparse \<Rightarrow> nat \<Rightarrow> real result" where
  "sp_ResCap S a =
     (if a \<ge> 2 * sp_mAct S then Inl ERRange
      else rbind (sp_Sub S a) (\<lambda>x.
        if odd a then Inr (x - sp_LCap S a)
        else if sp_UCap S a < InfCap then Inr (sp_UCap S a - x)
        else if x < InfCap then Inr (InfCap - x)
        else Inr 0))"

definition sp_Eligible :: "sparse \<Rightarrow> real \<Rightarrow> nat \<Rightarrow> nat \<Rightarrow> bool result" where
  "sp_Eligible S delta characteristic a =
     (if a \<ge> 2 * sp_mAct S then Inl ERRange
      else if spx_has characteristic SPX_SUBGRAPH
      then rbind (sp_Sub S a) (\<lambda>x. Inr (x > 0 \<and> \<not> sp_Blocking S a))
      else if spx_has characteristic SPX_RESIDUAL \<and> sp_Blocking S (2 * (a div 2) + 1)
      then rbind (sp_ResCap S a) (\<lambda>r. Inr (r > delta))
      else Inr (sp_UCap S a > 0 \<and> \<not> sp_Blocking S a))"

section \<open>The search\<close>

record bfs_state =
  bf_dist :: "real list"
  bf_pred :: "nat list"
  bf_Q :: static_queue
  bf_searching :: bool

definition bfs_body :: "sparse \<Rightarrow> real \<Rightarrow> nat \<Rightarrow> nat \<Rightarrow> nat \<Rightarrow> nat \<Rightarrow> bfs_state \<Rightarrow> bfs_state result" where
  "bfs_body S delta characteristic t u a st =
     rbind (sp_EndNode S a) (\<lambda>v.
       if v \<ge> length (bf_dist st) then Inl OutOfBounds
       else if bf_dist st ! v \<noteq> InfFloat then Inr st
       else rbind (sp_Eligible S delta characteristic a) (\<lambda>e.
         if \<not> e then Inr st
         else
           let st1 = st\<lparr>bf_dist := (bf_dist st)[v := bf_dist st ! u + 1]\<rparr>
           in rbind (staticQueue_Insert1 (bf_Q st1) v) (\<lambda>Q.
                Inr (st1\<lparr>bf_Q := Q, bf_pred := (bf_pred st1)[v := a],
                         bf_searching := (if v = t then False else bf_searching st1)\<rparr>))))"

partial_function (option) bfs_loop ::
  "sparse \<Rightarrow> real \<Rightarrow> nat \<Rightarrow> nat \<Rightarrow> iGraph \<Rightarrow> bfs_state \<Rightarrow> bfs_state result option" where
  "bfs_loop S delta characteristic t I st =
     (if staticQueue_Empty (bf_Q st) \<or> \<not> bf_searching st then Some (Inr st)
      else case staticQueue_Delete (bf_Q st) of
          Inl e \<Rightarrow> Some (Inl e)
        | Inr p \<Rightarrow>
            Option.bind (read_loop S (fst p) (bfs_body S delta characteristic t (fst p)) I (st\<lparr>bf_Q := snd p\<rparr>))
              (\<lambda>r. case r of Inl e \<Rightarrow> Some (Inl e) | Inr q \<Rightarrow> bfs_loop S delta characteristic t (fst q) (snd q)))"

text \<open>The result of \<open>BFS\<close>: the returned value, and the labels it leaves in the registers.\<close>

definition sp_BFS :: "sparse \<Rightarrow> real \<Rightarrow> nat \<Rightarrow> nat \<Rightarrow> nat \<Rightarrow> THandle \<Rightarrow> nat \<Rightarrow> (bool \<times> real list \<times> nat list) result option" where
  "sp_BFS S delta characteristic s t h junk =
     (if s \<ge> sp_nAct S then Some (Inl ERRange)
      else if t \<ge> sp_nAct S \<and> t \<noteq> NoNode then Some (Inl ERRange)
      else
        let dist = (replicate (sp_nAct S) InfFloat)[s := 0];
            pred = replicate (sp_nAct S) NoArc
        in case staticQueue_Insert1 (staticQueue (sp_nAct S) h junk) s of
             Inl e \<Rightarrow> Some (Inl e)
           | Inr Q \<Rightarrow>
               map_option (\<lambda>r. rbind r (\<lambda>st.
                   Inr (if t = NoNode then False else bf_dist st ! t \<noteq> InfFloat, bf_dist st, bf_pred st)))
                 (bfs_loop S delta characteristic t (iGraph_new S)
                   \<lparr>bf_dist = dist, bf_pred = pred, bf_Q = Q, bf_searching = True\<rparr>))"

section \<open>Walks\<close>

text \<open>The nodes that a walk of \<open>k\<close> eligible arcs from \<open>s\<close> reaches.\<close>

inductive hop :: "sparse \<Rightarrow> (nat \<Rightarrow> bool) \<Rightarrow> nat \<Rightarrow> nat \<Rightarrow> nat \<Rightarrow> bool" for S el s where
  hop_0: "hop S el s 0 s"
| hop_Suc: "hop S el s k u \<Longrightarrow> a < 2 * sp_mAct S \<Longrightarrow> sp_SN S ! a = u \<Longrightarrow> el a \<Longrightarrow> hop S el s (Suc k) (sp_SN S ! flip a)"

definition eligible :: "sparse \<Rightarrow> real \<Rightarrow> nat \<Rightarrow> nat \<Rightarrow> bool" where
  "eligible S delta characteristic a \<longleftrightarrow> sp_Eligible S delta characteristic a = Inr True"

lemma Eligible_Inr: "a < 2 * sp_mAct S \<Longrightarrow> sp_Eligible S delta ch a = Inr (eligible S delta ch a)"
  by (auto simp: eligible_def sp_Eligible_def sp_ResCap_def sp_Sub_def split: option.splits)

section \<open>Invariant\<close>

definition labelled :: "sparse \<Rightarrow> bfs_state \<Rightarrow> nat set" where
  "labelled S st = {v. v < sp_nAct S \<and> bf_dist st ! v \<noteq> InfFloat}"

definition tree_arc :: "sparse \<Rightarrow> (nat \<Rightarrow> bool) \<Rightarrow> bfs_state \<Rightarrow> nat \<Rightarrow> bool" where
  "tree_arc S el st v \<longleftrightarrow> (let a = bf_pred st ! v in a < 2 * sp_mAct S \<and> el a \<and> sp_SN S ! flip a = v
     \<and> sp_SN S ! a \<in> labelled S st \<and> bf_dist st ! v = bf_dist st ! (sp_SN S ! a) + 1)"

definition bfs_frame :: "sparse \<Rightarrow> (nat \<Rightarrow> bool) \<Rightarrow> nat \<Rightarrow> bfs_state \<Rightarrow> bool" where
  "bfs_frame S el s st \<longleftrightarrow> length (bf_dist st) = sp_nAct S \<and> length (bf_pred st) = sp_nAct S
     \<and> sq_inv (bf_Q st) \<and> sq_n (bf_Q st) = sp_nAct S \<and> set (sq_items (bf_Q st)) \<subseteq> labelled S st
     \<and> s \<in> labelled S st \<and> bf_dist st ! s = 0
     \<and> (\<forall>v \<in> labelled S st. \<exists>k < card (labelled S st). bf_dist st ! v = real k \<and> hop S el s k v)
     \<and> (\<forall>v \<in> labelled S st. v \<noteq> s \<longrightarrow> tree_arc S el st v)"

text \<open>The arcs \<open>A\<close> of the node \<open>u\<close> have been scanned; the other nodes that have left the queue completely.\<close>

definition bfs_scanned :: "sparse \<Rightarrow> (nat \<Rightarrow> bool) \<Rightarrow> nat \<Rightarrow> nat set \<Rightarrow> bfs_state \<Rightarrow> bool" where
  "bfs_scanned S el u A st \<longleftrightarrow> (\<forall>x \<in> labelled S st - set (sq_items (bf_Q st)). \<forall>a < 2 * sp_mAct S.
     sp_SN S ! a = x \<and> el a \<and> (x = u \<longrightarrow> a \<in> A) \<longrightarrow>
       sp_SN S ! flip a \<in> labelled S st \<and> bf_dist st ! (sp_SN S ! flip a) \<le> bf_dist st ! x + 1)"

definition bfs_order :: "sparse \<Rightarrow> bfs_state \<Rightarrow> bool" where
  "bfs_order S st \<longleftrightarrow> sorted_wrt (\<lambda>x y. bf_dist st ! x \<le> bf_dist st ! y) (sq_items (bf_Q st))
     \<and> (\<forall>x \<in> labelled S st - set (sq_items (bf_Q st)). \<forall>y \<in> set (sq_items (bf_Q st)). bf_dist st ! x \<le> bf_dist st ! y)
     \<and> (\<forall>x \<in> labelled S st. \<forall>y \<in> set (sq_items (bf_Q st)). bf_dist st ! x \<le> bf_dist st ! y + 1)"

text \<open>Labels are distances: a walk leaves the scanned nodes through the queue.\<close>

lemma bfs_walk_bound:
  assumes "bfs_frame S el s st" "bfs_scanned S el u A st" "u \<notin> labelled S st" "hop S el s j v"
  shows "(v \<in> labelled S st \<and> bf_dist st ! v \<le> real j) \<or> (\<exists>y \<in> set (sq_items (bf_Q st)). bf_dist st ! y + 1 \<le> real j)"
  using assms(4)
proof (induction rule: hop.induct)
  case hop_0
  then show ?case using assms(1) by (simp add: bfs_frame_def)
next
  case (hop_Suc k x a)
  consider (scanned) "x \<in> labelled S st" "bf_dist st ! x \<le> real k" "x \<notin> set (sq_items (bf_Q st))"
    | (queued) "x \<in> set (sq_items (bf_Q st))" "bf_dist st ! x \<le> real k"
    | (later) y where "y \<in> set (sq_items (bf_Q st))" "bf_dist st ! y + 1 \<le> real k" using hop_Suc.IH by blast
  then show ?case
  proof cases
    case scanned
    then have "sp_SN S ! flip a \<in> labelled S st \<and> bf_dist st ! (sp_SN S ! flip a) \<le> bf_dist st ! x + 1"
      using assms(2,3) hop_Suc.hyps unfolding bfs_scanned_def by blast
    then show ?thesis using scanned(2) by auto
  next
    case queued
    then show ?thesis by auto
  next
    case later
    then show ?thesis by (intro disjI2 bexI [of _ y]) auto
  qed
qed

lemma bfs_exact:
  assumes frame: "bfs_frame S el s st" and sc: "bfs_scanned S el u A st" "u \<notin> labelled S st" and ord: "bfs_order S st"
    and v: "v \<in> labelled S st"
  obtains k where "bf_dist st ! v = real k" "hop S el s k v" "\<And>j. hop S el s j v \<Longrightarrow> k \<le> j"
proof -
  obtain k where k: "bf_dist st ! v = real k" "hop S el s k v" using frame v by (auto simp: bfs_frame_def)
  have "k \<le> j" if "hop S el s j v" for j
    using bfs_walk_bound [OF frame sc that] v ord k(1) by (fastforce simp: bfs_order_def)
  then show thesis using that k by blast
qed

section \<open>Scanning an arc\<close>

lemma labelled_card: "sp_shape S \<Longrightarrow> real (card (labelled S st)) < InfFloat"
proof -
  assume "sp_shape S"
  moreover have "card (labelled S st) \<le> sp_nAct S"
    using card_mono [of "{..<sp_nAct S}" "labelled S st"] by (auto simp: labelled_def)
  ultimately have "card (labelled S st) \<le> NoNode" by (simp add: sp_shape_def)
  then have "real (card (labelled S st)) \<le> real NoNode" by simp
  then show ?thesis by (simp add: NoNode_def InfFloat_def)
qed

definition bfs_inner :: "sparse \<Rightarrow> (nat \<Rightarrow> bool) \<Rightarrow> nat \<Rightarrow> nat \<Rightarrow> nat set \<Rightarrow> bfs_state \<Rightarrow> bool" where
  "bfs_inner S el s u A st \<longleftrightarrow> bfs_frame S el s st \<and> bfs_scanned S el u A st \<and> bfs_order S st
     \<and> u \<in> labelled S st \<and> u \<notin> set (sq_items (bf_Q st)) \<and> (\<forall>x \<in> labelled S st. bf_dist st ! x \<le> bf_dist st ! u + 1)"

text \<open>What a step keeps: labels that are set, and the nodes that wait or have been scanned.\<close>

definition bfs_ext :: "sparse \<Rightarrow> nat \<Rightarrow> bfs_state \<Rightarrow> bfs_state \<Rightarrow> bool" where
  "bfs_ext S t st st' \<longleftrightarrow> labelled S st \<subseteq> labelled S st'
     \<and> labelled S st' - set (sq_items (bf_Q st')) = labelled S st - set (sq_items (bf_Q st))
     \<and> (bf_searching st' = (bf_searching st \<and> \<not> (t \<in> labelled S st' - labelled S st)))"

lemma bfs_ext_refl: "bfs_ext S t st st"
  by (simp add: bfs_ext_def)

lemma bfs_ext_trans: "bfs_ext S t st st' \<Longrightarrow> bfs_ext S t st' st'' \<Longrightarrow> bfs_ext S t st st''"
  by (auto simp: bfs_ext_def)

lemma bfs_set_label:
  fixes t :: nat
  assumes shape: "sp_shape S" and inner: "bfs_inner S el s u A st" and v: "v < sp_nAct S" "v \<notin> labelled S st"
    and a: "a < 2 * sp_mAct S" "sp_SN S ! a = u" "sp_SN S ! flip a = v" "el a"
    and Q: "sq_inv Q" "sq_n Q = sp_nAct S" "sq_items Q = sq_items (bf_Q st) @ [v]"
  defines "st' \<equiv> st\<lparr>bf_dist := (bf_dist st)[v := bf_dist st ! u + 1], bf_Q := Q, bf_pred := (bf_pred st)[v := a],
      bf_searching := (if v = t then False else bf_searching st)\<rparr>"
  shows "bfs_inner S el s u (insert a A) st'" "bfs_ext S t st st'"
proof -
  let ?D = "bf_dist st" and ?L = "labelled S st" and ?q = "sq_items (bf_Q st)"
  note f = inner [unfolded bfs_inner_def bfs_frame_def]
  have D': "bf_dist st' ! x = (if x = v then ?D ! u + 1 else ?D ! x)" if "x < sp_nAct S" for x
    using that f v by (simp add: st'_def nth_list_update)
  obtain k where k: "k < card ?L" "?D ! u = real k" "hop S el s k u" using f by blast
  have "real k + 1 \<le> real (card ?L)" using k(1) by simp
  then have ne: "?D ! u + 1 \<noteq> InfFloat" using labelled_card [OF shape, of st] k(2) by simp
  have fin: "finite ?L" by (simp add: labelled_def)
  have L': "labelled S st' = insert v ?L" using D' ne v by (auto simp: labelled_def split: if_splits)
  have card: "card (labelled S st') = Suc (card ?L)" using fin v(2) by (simp add: L')
  have q': "sq_items (bf_Q st') = ?q @ [v]" by (simp add: st'_def Q)
  have qL: "set ?q \<subseteq> ?L" "u \<in> ?L" "u \<noteq> v" "s \<in> ?L" "s \<noteq> v" using f v(2) by auto
  have lt: "x < sp_nAct S" if "x \<in> ?L" for x using that by (simp add: labelled_def)
  have old: "bf_dist st' ! x = ?D ! x" if "x \<in> ?L" for x using D' lt [OF that] that v(2) by auto
  have new: "bf_dist st' ! v = ?D ! u + 1" using D' v(1) by simp
  have uy: "?D ! u \<le> ?D ! y" if "y \<in> set ?q" for y
    using inner that by (auto simp: bfs_inner_def bfs_order_def)
  have xu: "?D ! x \<le> ?D ! u + 1" if "x \<in> ?L" for x using inner that by (simp add: bfs_inner_def)
  have "tree_arc S el st' w" if w: "w \<in> labelled S st'" "w \<noteq> s" for w
  proof (cases "w = v")
    case True
    have "bf_pred st' ! v = a" using f v(1) by (simp add: st'_def)
    then show ?thesis using True a L' qL new old [OF qL(2)] by (simp add: tree_arc_def Let_def)
  next
    case False
    then have wL: "w \<in> ?L" using w L' by simp
    then have "tree_arc S el st w" using f w by blast
    then show ?thesis using False wL old L' by (simp add: tree_arc_def Let_def st'_def)
  qed
  moreover have "\<exists>j < card (labelled S st'). bf_dist st' ! w = real j \<and> hop S el s j w" if w: "w \<in> labelled S st'" for w
  proof (cases "w = v")
    case True
    have "hop S el s (Suc k) v" using hop_Suc [of S el s k u a] k(3) a by simp
    then show ?thesis using True k new card by (intro exI [of _ "Suc k"]) simp
  next
    case False
    then have wL: "w \<in> ?L" using w L' by simp
    then obtain j where "j < card ?L" "?D ! w = real j" "hop S el s j w" using f by blast
    then show ?thesis using old [OF wL] card by (intro exI [of _ j]) simp
  qed
  ultimately have frame: "bfs_frame S el s st'"
    using f Q(1,2) q' L' qL old [OF qL(4)] by (auto simp: bfs_frame_def st'_def)
  have "bfs_scanned S el u (insert a A) st'"
    unfolding bfs_scanned_def
  proof (intro ballI allI impI)
    fix x b assume x: "x \<in> labelled S st' - set (sq_items (bf_Q st'))" and b: "b < 2 * sp_mAct S"
      "sp_SN S ! b = x \<and> el b \<and> (x = u \<longrightarrow> b \<in> insert a A)"
    have xL: "x \<in> ?L" "x \<notin> set ?q" using x by (auto simp: L' q')
    show "sp_SN S ! flip b \<in> labelled S st' \<and> bf_dist st' ! (sp_SN S ! flip b) \<le> bf_dist st' ! x + 1"
    proof (cases "x = u \<and> b = a")
      case True
      then show ?thesis using a L' new old [OF qL(2)] by simp
    next
      case False
      then have "sp_SN S ! flip b \<in> ?L \<and> ?D ! (sp_SN S ! flip b) \<le> ?D ! x + 1"
        using inner xL b unfolding bfs_inner_def bfs_scanned_def by blast
      then show ?thesis using old xL L' by simp
    qed
  qed
  moreover have "bfs_order S st'"
  proof -
    have "sorted_wrt (\<lambda>x y. bf_dist st' ! x \<le> bf_dist st' ! y) (?q @ [v])"
    proof -
      have "sorted_wrt (\<lambda>x y. bf_dist st' ! x \<le> bf_dist st' ! y) ?q"
      proof (rule sorted_wrt_mono_rel)
        show "sorted_wrt (\<lambda>x y. ?D ! x \<le> ?D ! y) ?q" using inner by (simp add: bfs_inner_def bfs_order_def)
        show "bf_dist st' ! x \<le> bf_dist st' ! y" if "x \<in> set ?q" "y \<in> set ?q" "?D ! x \<le> ?D ! y" for x y
          using that old [of x] old [of y] subsetD [OF qL(1)] by simp
      qed
      then show ?thesis using inner xu old new qL(1) by (auto simp: sorted_wrt_append bfs_inner_def bfs_order_def)
    qed
    moreover have "bf_dist st' ! x \<le> bf_dist st' ! y" if "x \<in> ?L" "x \<notin> set ?q" "y \<in> set (?q @ [v])" for x y
      using that inner xu old new qL(1) by (auto simp: bfs_inner_def bfs_order_def)
    moreover have "bf_dist st' ! x \<le> bf_dist st' ! y + 1" if "x \<in> insert v ?L" "y \<in> set (?q @ [v])" for x y
    proof -
      have "bf_dist st' ! x \<le> ?D ! u + 1" using that(1) xu old new by auto
      moreover have "?D ! u \<le> bf_dist st' ! y" using that(2) uy old new qL(1) by (cases "y = v") auto
      ultimately show ?thesis by simp
    qed
    ultimately show ?thesis unfolding bfs_order_def q' L' by auto
  qed
  ultimately show "bfs_inner S el s u (insert a A) st'"
    using frame inner L' q' qL xu old new unfolding bfs_inner_def by (auto simp: old [OF qL(2)])
  show "bfs_ext S t st st'" using L' q' v(2) qL(1) by (auto simp: bfs_ext_def st'_def)
qed

lemma bfs_body_ok:
  assumes inv: "sp_inv S" and inner: "bfs_inner S (eligible S delta ch) s u A st" and a: "a < 2 * sp_mAct S" "sp_SN S ! a = u"
  shows "\<exists>st'. bfs_body S delta ch t u a st = Inr st' \<and> bfs_inner S (eligible S delta ch) s u (insert a A) st' \<and> bfs_ext S t st st'"
proof -
  let ?v = "sp_SN S ! flip a" and ?el = "eligible S delta ch"
  note shape = sp_inv_shape [OF inv]
  have u: "u \<in> labelled S st" using inner by (simp add: bfs_inner_def)
  then have "sp_SN S ! a \<noteq> NoNode" using a shape_lt(2) [OF shape] by (auto simp: labelled_def)
  then have "?v \<noteq> NoNode" using paired_flip [of S a] inv a(1) by (simp add: sp_inv_def)
  then have v: "?v < sp_nAct S" using sp_inv_rings [OF inv] a(1) unfolding rings_ok_def by (metis flip_lt)
  have len: "length (bf_dist st) = sp_nAct S" using inner by (simp add: bfs_inner_def bfs_frame_def)
  have mono: "bfs_inner S ?el s u (insert a A) st" if c: "\<not> ?el a \<or> ?v \<in> labelled S st"
  proof -
    have "bf_dist st ! ?v \<le> bf_dist st ! u + 1" if "?v \<in> labelled S st" using that inner by (simp add: bfs_inner_def)
    then have "bfs_scanned S ?el u (insert a A) st"
      using inner c a unfolding bfs_inner_def bfs_scanned_def by (metis insert_iff)
    then show ?thesis using inner by (simp add: bfs_inner_def)
  qed
  show ?thesis
  proof (cases "?v \<in> labelled S st \<or> \<not> ?el a")
    case True
    then have "bfs_body S delta ch t u a st = Inr st"
      using a(1) v len Eligible_Inr [OF a(1), of delta ch] by (auto simp: bfs_body_def sp_EndNode_def labelled_def)
    then show ?thesis using mono True bfs_ext_refl by blast
  next
    case False
    have Q: "sq_inv (bf_Q st)" "sq_n (bf_Q st) = sp_nAct S" "set (sq_items (bf_Q st)) \<subseteq> labelled S st"
      using inner by (simp_all add: bfs_inner_def bfs_frame_def)
    obtain Q' where Q': "staticQueue_Insert1 (bf_Q st) ?v = Inr Q'" "sq_items Q' = sq_items (bf_Q st) @ [?v]"
      "sq_n Q' = sp_nAct S" "sq_inv Q'"
      using squeue.seq_ins [OF Q(1), of ?v] Q v False by (auto simp: enqueue_place_def)
    let ?st = "st\<lparr>bf_dist := (bf_dist st)[?v := bf_dist st ! u + 1], bf_Q := Q', bf_pred := (bf_pred st)[?v := a],
      bf_searching := (if ?v = t then False else bf_searching st)\<rparr>"
    have "bfs_body S delta ch t u a st = Inr ?st"
      using a(1) v len Eligible_Inr [OF a(1), of delta ch] False Q'(1)
      by (simp add: bfs_body_def sp_EndNode_def labelled_def Let_def)
    moreover have "bfs_inner S ?el s u (insert a A) ?st" "bfs_ext S t st ?st"
      using bfs_set_label [OF shape inner v _ a refl _ Q'(4,3,2), of t] False by simp_all
    ultimately show ?thesis by blast
  qed
qed

lemma bfs_scan_ok:
  assumes inv: "sp_inv S" and "bfs_inner S (eligible S delta ch) s u A st" and "\<forall>a \<in> set as. a < 2 * sp_mAct S \<and> sp_SN S ! a = u"
  shows "\<exists>st'. rfold (bfs_body S delta ch t u) as st = Inr st' \<and> bfs_inner S (eligible S delta ch) s u (A \<union> set as) st' \<and> bfs_ext S t st st'"
  using assms(2,3)
proof (induction as arbitrary: A st)
  case Nil
  then show ?case by (simp add: bfs_ext_refl)
next
  case (Cons a as)
  obtain st1 where st1: "bfs_body S delta ch t u a st = Inr st1" "bfs_inner S (eligible S delta ch) s u (insert a A) st1" "bfs_ext S t st st1"
    using bfs_body_ok [OF inv Cons.prems(1), of a t] Cons.prems(2) by auto
  obtain st' where "rfold (bfs_body S delta ch t u) as st1 = Inr st'" "bfs_inner S (eligible S delta ch) s u (insert a A \<union> set as) st'"
    "bfs_ext S t st1 st'" using Cons.IH [OF st1(2)] Cons.prems(2) by auto
  then show ?case using st1 bfs_ext_trans by fastforce
qed

section \<open>The main loop\<close>

definition bfs_outer :: "sparse \<Rightarrow> (nat \<Rightarrow> bool) \<Rightarrow> nat \<Rightarrow> nat \<Rightarrow> bfs_state \<Rightarrow> bool" where
  "bfs_outer S el s t st \<longleftrightarrow> bfs_frame S el s st \<and> bfs_scanned S el NoNode {} st \<and> bfs_order S st
     \<and> (bf_searching st \<or> t \<in> labelled S st)"

lemma bfs_delete_ok:
  assumes shape: "sp_shape S" and outer: "bfs_outer S el s t st" and items: "sq_items (bf_Q st) = u # xs"
    and Q: "sq_items Q = xs" "sq_n Q = sq_n (bf_Q st)" "sq_inv Q"
  shows "bfs_inner S el s u {} (st\<lparr>bf_Q := Q\<rparr>)"
proof -
  let ?st = "st\<lparr>bf_Q := Q\<rparr>"
  note o = outer [unfolded bfs_outer_def]
  have L: "labelled S ?st = labelled S st" by (simp add: labelled_def)
  have u: "u \<in> labelled S st" "set xs \<subseteq> labelled S st" using o items by (auto simp: bfs_frame_def)
  have "distinct (u # xs)" using o items by (auto simp: bfs_frame_def sq_inv_def sq_rep_def)
  then have uxs: "u \<notin> set xs" by simp
  have "tree_arc S el ?st = tree_arc S el st" by (simp add: tree_arc_def fun_eq_iff L)
  then have frame: "bfs_frame S el s ?st" using o L Q items u by (simp add: bfs_frame_def)
  have sc: "bfs_scanned S el u {} ?st"
    unfolding bfs_scanned_def
  proof (intro ballI allI impI)
    fix x a assume x: "x \<in> labelled S ?st - set (sq_items (bf_Q ?st))" and a: "a < 2 * sp_mAct S"
      "sp_SN S ! a = x \<and> el a \<and> (x = u \<longrightarrow> a \<in> {})"
    have "x \<in> labelled S st - set (sq_items (bf_Q st))" using x a Q(1) items L by auto
    moreover have "bfs_scanned S el NoNode {} st" using o by simp
    moreover have "x \<noteq> NoNode" using x shape_lt(2) [OF shape] by (auto simp: labelled_def)
    ultimately show "sp_SN S ! flip a \<in> labelled S ?st \<and> bf_dist ?st ! (sp_SN S ! flip a) \<le> bf_dist ?st ! x + 1"
      using a unfolding bfs_scanned_def L by simp
  qed
  have "bfs_order S ?st"
    using o items Q(1) u unfolding bfs_order_def L by auto
  moreover have "\<forall>x \<in> labelled S st. bf_dist st ! x \<le> bf_dist st ! u + 1" using o items by (auto simp: bfs_order_def)
  ultimately show ?thesis using frame sc u uxs Q(1) L by (simp add: bfs_inner_def)
qed

lemma bfs_round_ok:
  assumes inv: "sp_inv S" and outer: "bfs_outer S (eligible S delta ch) s t st" and items: "sq_items (bf_Q st) = u # xs"
    and I: "it_ok S I" "\<And>v. v < sp_nAct S \<Longrightarrow> v \<notin> labelled S st - set (sq_items (bf_Q st)) \<Longrightarrow> it_current I ! v = NoArc"
  obtains Q st' I' where "staticQueue_Delete (bf_Q st) = Inr (u, Q)"
    "read_loop S u (bfs_body S delta ch t u) I (st\<lparr>bf_Q := Q\<rparr>) = Some (Inr (I', st'))"
    "bfs_outer S (eligible S delta ch) s t st'" "it_ok S I'"
    "labelled S st' - set (sq_items (bf_Q st')) = insert u (labelled S st - set (sq_items (bf_Q st)))"
    "u \<notin> labelled S st - set (sq_items (bf_Q st))" "u < sp_nAct S"
    "\<And>v. v < sp_nAct S \<Longrightarrow> v \<notin> labelled S st' - set (sq_items (bf_Q st')) \<Longrightarrow> it_current I' ! v = NoArc"
proof -
  let ?el = "eligible S delta ch"
  note shape = sp_inv_shape [OF inv] and ok = sp_inv_rings [OF inv]
  have Q0: "sq_inv (bf_Q st)" "set (sq_items (bf_Q st)) \<subseteq> labelled S st" using outer by (simp_all add: bfs_outer_def bfs_frame_def)
  obtain Q where Q: "staticQueue_Delete (bf_Q st) = Inr (u, Q)" "sq_items Q = xs" "sq_n Q = sq_n (bf_Q st)" "sq_inv Q"
    using squeue.seq_del_Cons [OF Q0(1) items] by auto
  let ?st = "st\<lparr>bf_Q := Q\<rparr>"
  have inner: "bfs_inner S ?el s u {} ?st" by (rule bfs_delete_ok [OF shape outer items Q(2-4)])
  have L: "labelled S ?st = labelled S st" by (simp add: labelled_def)
  have u: "u \<in> labelled S st" "u < sp_nAct S" using Q0(2) items by (auto simp: labelled_def)
  obtain st' where st': "rfold (bfs_body S delta ch t u) (node_arcs S u) ?st = Inr st'"
    "bfs_inner S ?el s u (set (node_arcs S u)) st'" "bfs_ext S t ?st st'"
    using bfs_scan_ok [OF inv inner, of "node_arcs S u" t] node_arcs_ok(2) [OF ok u(2)] by (auto simp: arcs_at_def)
  let ?I = "I\<lparr>it_current := (it_current I)[u := sp_first S ! u]\<rparr>"
  have "it_current I ! u = NoArc" using I(2) [OF u(2)] items by simp
  then have r: "read_loop S u (bfs_body S delta ch t u) I ?st = Some (Inr (?I, st'))"
    using read_loop_fold [OF ok u(2) I(1), of "bfs_body S delta ch t u" ?st] st'(1) by simp
  have uN: "u \<noteq> NoNode" using shape_lt(2) [OF shape u(2)] by simp
  have sc: "bfs_scanned S ?el NoNode {} st'"
    unfolding bfs_scanned_def
  proof (intro ballI allI impI)
    fix x a assume x: "x \<in> labelled S st' - set (sq_items (bf_Q st'))" "a < 2 * sp_mAct S"
      "sp_SN S ! a = x \<and> ?el a \<and> (x = NoNode \<longrightarrow> a \<in> {})"
    then have "x = u \<longrightarrow> a \<in> set (node_arcs S u)" using node_arcs_ok(2) [OF ok u(2)] by (auto simp: arcs_at_def)
    then show "sp_SN S ! flip a \<in> labelled S st' \<and> bf_dist st' ! (sp_SN S ! flip a) \<le> bf_dist st' ! x + 1"
      using st'(2) x unfolding bfs_inner_def bfs_scanned_def by blast
  qed
  have "bf_searching st' \<or> t \<in> labelled S st'" using st'(3) outer L by (auto simp: bfs_ext_def bfs_outer_def)
  then have out: "bfs_outer S ?el s t st'" using st'(2) sc by (simp add: bfs_outer_def bfs_inner_def)
  have "distinct (u # xs)" using Q0(1) items by (metis sq_inv_def sq_rep_def)
  then have fin: "labelled S st' - set (sq_items (bf_Q st')) = insert u (labelled S st - set (sq_items (bf_Q st)))"
    using st'(3) L Q(2) items u(1) by (auto simp: bfs_ext_def)
  have cur: "it_current ?I ! v = NoArc" if "v < sp_nAct S" "v \<notin> labelled S st' - set (sq_items (bf_Q st'))" for v
    using that I(2) [OF that(1)] fin by auto
  show thesis
    by (rule that [OF Q(1) r out _ fin _ u(2) cur]) (use I(1) items in \<open>auto simp: it_ok_def\<close>)
qed

lemma bfs_loop_ok:
  assumes inv: "sp_inv S" and "bfs_outer S (eligible S delta ch) s t st" and "it_ok S I"
    and "\<And>v. v < sp_nAct S \<Longrightarrow> v \<notin> labelled S st - set (sq_items (bf_Q st)) \<Longrightarrow> it_current I ! v = NoArc"
  shows "\<exists>st'. bfs_loop S delta ch t I st = Some (Inr st') \<and> bfs_outer S (eligible S delta ch) s t st'
    \<and> (sq_items (bf_Q st') = [] \<or> \<not> bf_searching st')"
  using assms(2-4)
proof (induction "sp_nAct S - card (labelled S st - set (sq_items (bf_Q st)))" arbitrary: st I rule: less_induct)
  case less
  have Q0: "sq_inv (bf_Q st)" using less.prems(1) by (simp add: bfs_outer_def bfs_frame_def)
  show ?case
  proof (cases "sq_items (bf_Q st) = [] \<or> \<not> bf_searching st")
    case True
    then have "bfs_loop S delta ch t I st = Some (Inr st)"
      using squeue.seq_empty [OF Q0] by (subst bfs_loop.simps) auto
    then show ?thesis using less.prems(1) True by blast
  next
    case False
    then obtain u xs where items: "sq_items (bf_Q st) = u # xs" by (cases "sq_items (bf_Q st)") auto
    obtain Q st' I' where r: "staticQueue_Delete (bf_Q st) = Inr (u, Q)"
      "read_loop S u (bfs_body S delta ch t u) I (st\<lparr>bf_Q := Q\<rparr>) = Some (Inr (I', st'))"
      "bfs_outer S (eligible S delta ch) s t st'" "it_ok S I'"
      "labelled S st' - set (sq_items (bf_Q st')) = insert u (labelled S st - set (sq_items (bf_Q st)))"
      "u \<notin> labelled S st - set (sq_items (bf_Q st))" "u < sp_nAct S"
      "\<And>v. v < sp_nAct S \<Longrightarrow> v \<notin> labelled S st' - set (sq_items (bf_Q st')) \<Longrightarrow> it_current I' ! v = NoArc"
      by (rule bfs_round_ok [OF inv less.prems(1) items less.prems(2)], erule (1) less.prems(3), rule that)
    have fin: "finite (labelled S st - set (sq_items (bf_Q st)))" by (simp add: labelled_def)
    have "insert u (labelled S st - set (sq_items (bf_Q st))) \<subseteq> {..<sp_nAct S}" using r(7) by (auto simp: labelled_def)
    then have "card (insert u (labelled S st - set (sq_items (bf_Q st)))) \<le> sp_nAct S" using card_mono [of "{..<sp_nAct S}"] by fastforce
    then have "sp_nAct S - card (labelled S st' - set (sq_items (bf_Q st'))) < sp_nAct S - card (labelled S st - set (sq_items (bf_Q st)))"
      using fin r(6) unfolding r(5) by simp
    from less.hyps [OF this r(3,4,8)] obtain st'' where
      "bfs_loop S delta ch t I' st' = Some (Inr st'')" "bfs_outer S (eligible S delta ch) s t st''"
      "sq_items (bf_Q st'') = [] \<or> \<not> bf_searching st''" by blast
    moreover have "bfs_loop S delta ch t I st = bfs_loop S delta ch t I' st'"
      using False items squeue.seq_empty [OF Q0] by (subst bfs_loop.simps) (simp add: r(1,2))
    ultimately show ?thesis by simp
  qed
qed

lemma bfs_start:
  assumes inv: "sp_inv S" and s: "s < sp_nAct S"
    and Q: "sq_items Q = [s]" "sq_n Q = sp_nAct S" "sq_inv Q"
  shows "bfs_outer S el s t \<lparr>bf_dist = (replicate (sp_nAct S) InfFloat)[s := 0], bf_pred = replicate (sp_nAct S) NoArc,
    bf_Q = Q, bf_searching = True\<rparr>"
proof -
  let ?st = "\<lparr>bf_dist = (replicate (sp_nAct S) InfFloat)[s := 0], bf_pred = replicate (sp_nAct S) NoArc,
    bf_Q = Q, bf_searching = True\<rparr>"
  have L: "labelled S ?st = {s}" using s by (auto simp: labelled_def nth_list_update InfFloat_def split: if_splits)
  have "bfs_frame S el s ?st" using Q s L hop_0 [of S el s] by (simp add: bfs_frame_def)
  then show ?thesis using Q L by (simp add: bfs_outer_def bfs_scanned_def bfs_order_def)
qed

lemma sp_BFS_ok:
  assumes inv: "sp_inv S" and s: "s < sp_nAct S" and t: "t < sp_nAct S \<or> t = NoNode"
  obtains st where "sp_BFS S delta ch s t h junk = Some (Inr (if t = NoNode then False else bf_dist st ! t \<noteq> InfFloat, bf_dist st, bf_pred st))"
    "bfs_outer S (eligible S delta ch) s t st" "sq_items (bf_Q st) = [] \<or> \<not> bf_searching st"
proof -
  have new: "sq_n (staticQueue (sp_nAct S) h junk) = sp_nAct S" by (simp add: staticQueue_def)
  obtain Q where Q: "staticQueue_Insert1 (staticQueue (sp_nAct S) h junk) s = Inr Q" "sq_items Q = [s]" "sq_n Q = sp_nAct S" "sq_inv Q"
    using squeue.seq_ins [OF staticQueue_new_inv(1), of s "sp_nAct S" h junk] s new
    by (auto simp: staticQueue_new_inv(2) enqueue_place_def)
  have cur: "it_current (iGraph_new S) ! v = NoArc" if "v < sp_nAct S" for v using that by (simp add: iGraph_new_def)
  let ?st = "\<lparr>bf_dist = (replicate (sp_nAct S) InfFloat)[s := 0], bf_pred = replicate (sp_nAct S) NoArc,
    bf_Q = Q, bf_searching = True\<rparr>"
  obtain st where "bfs_loop S delta ch t (iGraph_new S) ?st = Some (Inr st)" "bfs_outer S (eligible S delta ch) s t st"
    "sq_items (bf_Q st) = [] \<or> \<not> bf_searching st"
    using bfs_loop_ok [OF inv bfs_start [OF inv s Q(2-4)] it_ok_new cur] by blast
  then show thesis using that s t Q(1) by (auto simp: sp_BFS_def Let_def)
qed

text \<open>At the end every reachable node has a label, or the search has stopped at its target.\<close>

lemma bfs_final:
  assumes inv: "sp_inv S" and outer: "bfs_outer S el s t st" and fin: "sq_items (bf_Q st) = [] \<or> \<not> bf_searching st"
  shows "v \<in> labelled S st \<Longrightarrow> \<exists>k. bf_dist st ! v = real k \<and> hop S el s k v \<and> (\<forall>j. hop S el s j v \<longrightarrow> k \<le> j)"
    and "t \<notin> labelled S st \<Longrightarrow> hop S el s j v \<Longrightarrow> v \<in> labelled S st"
proof -
  have N: "NoNode \<notin> labelled S st" using shape_lt(2) [OF sp_inv_shape [OF inv]] by (auto simp: labelled_def)
  note o = outer [unfolded bfs_outer_def]
  show "\<exists>k. bf_dist st ! v = real k \<and> hop S el s k v \<and> (\<forall>j. hop S el s j v \<longrightarrow> k \<le> j)" if "v \<in> labelled S st"
    using bfs_exact [of S el s st NoNode "{}" v] o N that by blast
  show "v \<in> labelled S st" if "t \<notin> labelled S st" "hop S el s j v"
    using bfs_walk_bound [of S el s st NoNode "{}" j v] o N that fin by auto
qed

lemma bfs_example_hops:
  "hop sp_example (eligible sp_example 0 0) 0 0 0" "hop sp_example (eligible sp_example 0 0) 0 1 1"
  "\<not> hop sp_example (eligible sp_example 0 0) 0 0 1"
proof -
  let ?el = "eligible sp_example 0 0"
  have el: "?el 0"
    using sp_example_UCap sp_example_facts(2)
    by (simp add: eligible_def sp_Eligible_def spx_has_def sp_Blocking_def SPX_RESIDUAL_def SPX_SUBGRAPH_def)
  have f: "flip 0 = (1::nat)" by (simp add: flip_def)
  show "hop sp_example ?el 0 0 0" by (rule hop_0)
  show "hop sp_example ?el 0 1 1"
    using hop_Suc [OF hop_0, of 0 sp_example 0 ?el] el sp_example_facts f by simp
  show "\<not> hop sp_example ?el 0 0 1" by (auto elim: hop.cases)
qed

section \<open>Properties\<close>

text \<open>
  C4: \<open>BFS\<close> from a node \<open>s\<close> without a target ends without an exception on every sparse representation
  that a history has produced. The distance labels are the least numbers of eligible arcs on walks
  from \<open>s\<close>, undefined exactly for the nodes that cannot be reached, and the predecessor labels form a
  tree of eligible arcs along which the distance grows by one.
\<close>

theorem BFS_computes_distances:
  assumes "sp_history S" and "s < sp_nAct S"
  shows "\<exists>dist pred. sp_BFS S delta ch s NoNode h junk = Some (Inr (False, dist, pred))
    \<and> (\<forall>v < sp_nAct S. if dist ! v = InfFloat then \<nexists>k. hop S (eligible S delta ch) s k v
        else (\<exists>k. dist ! v = real k \<and> hop S (eligible S delta ch) s k v \<and> (\<forall>j. hop S (eligible S delta ch) s j v \<longrightarrow> k \<le> j)))
    \<and> (\<forall>v < sp_nAct S. dist ! v \<noteq> InfFloat \<and> v \<noteq> s \<longrightarrow> eligible S delta ch (pred ! v) \<and> sp_EndNode S (pred ! v) = Inr v
        \<and> dist ! v = dist ! (sp_SN S ! (pred ! v)) + 1)"
proof -
  have inv: "sp_inv S" using assms(1) by (rule sp_history_inv)
  let ?el = "eligible S delta ch"
  obtain st where st: "sp_BFS S delta ch s NoNode h junk = Some (Inr (False, bf_dist st, bf_pred st))"
    "bfs_outer S ?el s NoNode st" "sq_items (bf_Q st) = [] \<or> \<not> bf_searching st"
    using sp_BFS_ok [OF inv assms(2), of NoNode delta ch h junk] by auto
  have N: "NoNode \<notin> labelled S st" using shape_lt(2) [OF sp_inv_shape [OF inv]] by (auto simp: labelled_def)
  have "if bf_dist st ! v = InfFloat then \<nexists>k. hop S ?el s k v
      else (\<exists>k. bf_dist st ! v = real k \<and> hop S ?el s k v \<and> (\<forall>j. hop S ?el s j v \<longrightarrow> k \<le> j))" if "v < sp_nAct S" for v
    using bfs_final(1) [OF inv st(2,3), of v] bfs_final(2) [OF inv st(2,3) N, of _ v] that by (auto simp: labelled_def)
  moreover have "?el (bf_pred st ! v) \<and> sp_EndNode S (bf_pred st ! v) = Inr v
      \<and> bf_dist st ! v = bf_dist st ! (sp_SN S ! (bf_pred st ! v)) + 1"
    if "v < sp_nAct S" "bf_dist st ! v \<noteq> InfFloat \<and> v \<noteq> s" for v
  proof -
    have "tree_arc S ?el st v" using st(2) that by (auto simp: bfs_outer_def bfs_frame_def labelled_def)
    then show ?thesis by (auto simp: tree_arc_def Let_def sp_EndNode_def)
  qed
  ultimately show ?thesis using st(1) by blast
qed

theorem BFS_computes_distances_witness:
  "\<exists>dist pred. sp_BFS sp_example 0 0 0 NoNode NoHandle 0 = Some (Inr (False, dist, pred)) \<and> dist ! 0 = 0 \<and> dist ! 1 = 1"
proof -
  let ?h = "hop sp_example (eligible sp_example 0 0) 0"
  have "0 < sp_nAct sp_example" by (simp add: sp_example_facts(3))
  from BFS_computes_distances [OF sp_example_facts(1) this, of 0 0 NoHandle 0] obtain dist pred where
    r: "sp_BFS sp_example 0 0 0 NoNode NoHandle 0 = Some (Inr (False, dist, pred))" and
    d: "\<forall>v < sp_nAct sp_example. if dist ! v = InfFloat then \<nexists>k. ?h k v else (\<exists>k. dist ! v = real k \<and> ?h k v \<and> (\<forall>j. ?h j v \<longrightarrow> k \<le> j))"
    by blast
  obtain k0 where k0: "dist ! 0 = real k0" "\<forall>j. ?h j 0 \<longrightarrow> k0 \<le> j"
    using d bfs_example_hops(1) sp_example_facts(3) by (metis zero_less_numeral)
  obtain k1 where k1: "dist ! 1 = real k1" "?h k1 1" "\<forall>j. ?h j 1 \<longrightarrow> k1 \<le> j"
    using d bfs_example_hops(2) sp_example_facts(3) by (metis one_less_numeral_iff semiring_norm(76))
  have "k0 = 0" "k1 \<le> 1" using k0 k1 bfs_example_hops by auto
  moreover have "k1 \<noteq> 0" using k1(2) bfs_example_hops(3) by metis
  ultimately have "k0 = 0" "k1 = 1" by auto
  then show ?thesis using r k0(1) k1(1) by auto
qed

text \<open>
  \<open>BFS\<close> with a target returns whether the target can be reached over eligible arcs, also when it
  stops before the whole graph has been searched, and the label of the target is its distance.
\<close>

theorem BFS_decides_reachability:
  assumes "sp_history S" and "s < sp_nAct S" and "t < sp_nAct S"
  shows "\<exists>dist pred. sp_BFS S delta ch s t h junk = Some (Inr (\<exists>k. hop S (eligible S delta ch) s k t, dist, pred))
    \<and> (\<forall>k. hop S (eligible S delta ch) s k t \<longrightarrow> (\<exists>d \<le> k. dist ! t = real d \<and> hop S (eligible S delta ch) s d t))"
proof -
  have inv: "sp_inv S" using assms(1) by (rule sp_history_inv)
  have tN: "t \<noteq> NoNode" using shape_lt(2) [OF sp_inv_shape [OF inv] assms(3)] by simp
  let ?el = "eligible S delta ch"
  obtain st where st: "sp_BFS S delta ch s t h junk = Some (Inr (bf_dist st ! t \<noteq> InfFloat, bf_dist st, bf_pred st))"
    "bfs_outer S ?el s t st" "sq_items (bf_Q st) = [] \<or> \<not> bf_searching st"
    using sp_BFS_ok [OF inv assms(2), of t delta ch h junk] assms(3) tN by auto
  have L: "t \<in> labelled S st \<longleftrightarrow> bf_dist st ! t \<noteq> InfFloat" using assms(3) by (simp add: labelled_def)
  have "bf_dist st ! t \<noteq> InfFloat \<longleftrightarrow> (\<exists>k. hop S ?el s k t)"
    using bfs_final(1) [OF inv st(2,3), of t] bfs_final(2) [OF inv st(2,3), of _ t] L by blast
  moreover have "\<exists>d \<le> k. bf_dist st ! t = real d \<and> hop S ?el s d t" if "hop S ?el s k t" for k
    using bfs_final(1) [OF inv st(2,3), of t] calculation L that by blast
  ultimately show ?thesis using st(1) by auto
qed

theorem BFS_decides_reachability_witness:
  "\<exists>dist pred. sp_BFS sp_example 0 0 0 1 NoHandle 0 = Some (Inr (True, dist, pred))"
proof -
  have "\<exists>k. hop sp_example (eligible sp_example 0 0) 0 k 1" using bfs_example_hops(2) by blast
  then show ?thesis
    using BFS_decides_reachability [OF sp_example_facts(1), of 0 1 0 0 NoHandle 0] sp_example_facts(3) by auto
qed

end
