(* ===== verification/Shortest_Paths.thy ===== *)
theory Shortest_Paths
  imports Breadth_First Basic_Heap Binary_Heap
begin

text \<open>
  Arc lengths with the metrics of \<^verbatim>\<open>lib_src/graphRepresentation.cpp\<close>, reduced lengths, and the
  label setting method \<open>abstractMixedGraph::SPX_Dijkstra\<close> of \<^verbatim>\<open>lib_src/solveSPTree.cpp\<close>. The
  method works on any object with the queue interface; its correctness is proved once for the
  contract of priority queues and holds for the naive queue and the binary heap that
  \<open>NewNodeHeap\<close> creates. Lengths are real numbers, rounding is not modelled.
\<close>

section \<open>Lengths\<close>

definition TokGeoMetric :: nat where "TokGeoMetric = 1"

definition PI :: real where "PI = 3.141592653589793238512808959406186204433"

text \<open>The conversion \<open>int(x)\<close> truncates towards zero.\<close>

definition trunc :: "real \<Rightarrow> real" where
  "trunc x = (if x \<ge> 0 then real_of_int \<lfloor>x\<rfloor> else real_of_int \<lceil>x\<rceil>)"

definition geo_angle :: "real \<Rightarrow> real" where
  "geo_angle x = PI * (trunc x + 5 * (x - trunc x) / 3) / 180"

definition sp_Length :: "sparse \<Rightarrow> nat \<Rightarrow> real result" where
  "sp_Length S a =
     (if a \<ge> 2 * sp_mAct S then Inl ERRange
      else
        let metricType = attributePool_GetValue (sp_geometry S) TokGeoMetric 0 0
        in if metricType = 0 then Inr (attributePool_GetValue (sp_representation S) TokReprLength (a div 2) 1)
        else
          let v1 = sp_SN S ! a; v2 = sp_SN S ! flip a
          in if v1 = v2 then Inr InfFloat
          else
            let x1 = sp_C S v1 0; y1 = sp_C S v1 1; x2 = sp_C S v2 0; y2 = sp_C S v2 1
            in if metricType = 4
            then
              let q1 = cos (geo_angle y1 - geo_angle y2);
                  q2 = cos (geo_angle x1 - geo_angle x2);
                  q3 = cos (geo_angle x1 + geo_angle x2)
              in Inr (trunc (6378.388 * arccos (0.5 * ((1 + q1) * q2 - (1 - q1) * q3)) + 1))
            else
              let dx = \<bar>x1 - x2\<bar>; dy = \<bar>y1 - y2\<bar>
              in if metricType = 1 then Inr \<lfloor>dx + dy + 0.5\<rfloor>
                 else if metricType = 2 then Inr \<lfloor>sqrt (dx * dx + dy * dy) + 0.5\<rfloor>
                 else Inr (if dx > dy then \<lfloor>dx + 0.5\<rfloor> else \<lfloor>dy + 0.5\<rfloor>))"

definition sp_RedLength :: "sparse \<Rightarrow> real list option \<Rightarrow> nat \<Rightarrow> real result" where
  "sp_RedLength S potential a =
     (if a \<ge> 2 * sp_mAct S then Inl ERRange
      else rbind (sp_Length S a) (\<lambda>l.
        case potential of
          None \<Rightarrow> Inr (if sp_Orientation S a = 0 then l else if odd a then - l else l)
        | Some p \<Rightarrow>
            if sp_SN S ! a \<ge> length p \<or> sp_SN S ! flip a \<ge> length p then Inl OutOfBounds
            else if sp_Orientation S a = 0 then Inr (l + p ! (sp_SN S ! a) + p ! (sp_SN S ! flip a))
            else Inr ((if odd a then - l else l) + p ! (sp_SN S ! a) - p ! (sp_SN S ! flip a))))"

section \<open>The label setting method\<close>

definition SPX_PLAIN :: nat where "SPX_PLAIN = 0"

record 'q dj_state =
  dj_dist :: "real list"
  dj_pred :: "nat list"
  dj_Q :: 'q

definition dj_cost :: "sparse \<Rightarrow> nat \<Rightarrow> real list option \<Rightarrow> nat \<Rightarrow> real result" where
  "dj_cost S characteristic potential a =
     rbind (sp_Length S a) (\<lambda>l. if characteristic \<noteq> SPX_PLAIN then sp_RedLength S potential a else Inr l)"

definition dj_body :: "('q \<Rightarrow> nat \<Rightarrow> TFloat \<Rightarrow> 'q result) \<Rightarrow> ('q \<Rightarrow> nat \<Rightarrow> TFloat \<Rightarrow> 'q result) \<Rightarrow> sparse \<Rightarrow> real \<Rightarrow> real \<Rightarrow> nat
    \<Rightarrow> real list option \<Rightarrow> nat \<Rightarrow> nat \<Rightarrow> 'q dj_state \<Rightarrow> 'q dj_state result" where
  "dj_body ins chg S epsilon delta characteristic potential u a st =
     rbind (dj_cost S characteristic potential a) (\<lambda>l.
     rbind (sp_EndNode S a) (\<lambda>v.
       let dd = dj_dist st ! u + l
       in if v \<ge> length (dj_dist st) then Inl OutOfBounds
       else if \<not> dj_dist st ! v > dd then Inr st
       else rbind (sp_Eligible S delta characteristic a) (\<lambda>e.
         if \<not> e then Inr st
         else if l < - epsilon then Inl ERRejected
         else rbind (if dj_dist st ! v = InfFloat then ins (dj_Q st) v dd else chg (dj_Q st) v dd) (\<lambda>Q.
           Inr (st\<lparr>dj_Q := Q, dj_dist := (dj_dist st)[v := dd], dj_pred := (dj_pred st)[v := a]\<rparr>)))))"

partial_function (option) dj_loop ::
  "('q \<Rightarrow> bool) \<Rightarrow> ('q \<Rightarrow> (nat \<times> 'q) result) \<Rightarrow> (nat \<Rightarrow> nat \<Rightarrow> 'q dj_state \<Rightarrow> 'q dj_state result) \<Rightarrow> sparse \<Rightarrow> indexSet
    \<Rightarrow> iGraph \<Rightarrow> 'q dj_state \<Rightarrow> (nat \<times> 'q dj_state) result option" where
  "dj_loop isEmpty del body S T I st =
     (if isEmpty (dj_Q st) then Some (Inr (NoNode, st))
      else case del (dj_Q st) of
          Inl e \<Rightarrow> Some (Inl e)
        | Inr p \<Rightarrow>
            if IsMember T (fst p) then Some (Inr (fst p, st\<lparr>dj_Q := snd p\<rparr>))
            else Option.bind (read_loop S (fst p) (body (fst p)) I (st\<lparr>dj_Q := snd p\<rparr>))
              (\<lambda>r. case r of Inl e \<Rightarrow> Some (Inl e) | Inr q \<Rightarrow> dj_loop isEmpty del body S T (fst q) (snd q)))"

definition dj_source :: "('q \<Rightarrow> nat \<Rightarrow> TFloat \<Rightarrow> 'q result) \<Rightarrow> nat \<Rightarrow> 'q dj_state \<Rightarrow> 'q dj_state result" where
  "dj_source ins s st = rbind (ins (dj_Q st) s 0) (\<lambda>Q. Inr (st\<lparr>dj_Q := Q, dj_dist := (dj_dist st)[s := 0]\<rparr>))"

definition sp_Dijkstra :: "('q \<Rightarrow> bool) \<Rightarrow> ('q \<Rightarrow> (nat \<times> 'q) result) \<Rightarrow> ('q \<Rightarrow> nat \<Rightarrow> TFloat \<Rightarrow> 'q result)
    \<Rightarrow> ('q \<Rightarrow> nat \<Rightarrow> TFloat \<Rightarrow> 'q result) \<Rightarrow> 'q \<Rightarrow> sparse \<Rightarrow> real \<Rightarrow> real \<Rightarrow> nat \<Rightarrow> real list option \<Rightarrow> indexSet \<Rightarrow> indexSet
    \<Rightarrow> (nat \<times> real list \<times> nat list) result option" where
  "sp_Dijkstra isEmpty del ins chg Q S epsilon delta characteristic potential Src T =
     Option.bind (index_loop (Successor Src) (sp_nAct S) (First Src)) (\<lambda>ss.
       case rfold (dj_source ins) ss
           \<lparr>dj_dist = replicate (sp_nAct S) InfFloat, dj_pred = replicate (sp_nAct S) NoArc, dj_Q = Q\<rparr> of
         Inl e \<Rightarrow> Some (Inl e)
       | Inr st \<Rightarrow>
           map_option (\<lambda>r. rbind r (\<lambda>(t, st). Inr (t, dj_dist st, dj_pred st)))
             (dj_loop isEmpty del (dj_body ins chg S epsilon delta characteristic potential) S T (iGraph_new S) st))"

text \<open>No arc of the graph has been cancelled.\<close>

definition no_cancelled :: "sparse \<Rightarrow> bool" where
  "no_cancelled S \<longleftrightarrow> (\<forall>a < 2 * sp_mAct S. sp_SN S ! a < sp_nAct S)"

section \<open>Walks\<close>

inductive wwalk :: "sparse \<Rightarrow> (nat \<Rightarrow> bool) \<Rightarrow> (nat \<Rightarrow> real) \<Rightarrow> nat set \<Rightarrow> real \<Rightarrow> nat \<Rightarrow> bool" for S el c X where
  wwalk_0: "s \<in> X \<Longrightarrow> wwalk S el c X 0 s"
| wwalk_Suc: "wwalk S el c X W u \<Longrightarrow> a < 2 * sp_mAct S \<Longrightarrow> sp_SN S ! a = u \<Longrightarrow> el a \<Longrightarrow>
    wwalk S el c X (W + c a) (sp_SN S ! flip a)"

definition cost :: "sparse \<Rightarrow> nat \<Rightarrow> real list option \<Rightarrow> nat \<Rightarrow> real" where
  "cost S characteristic potential a = (case dj_cost S characteristic potential a of Inl e \<Rightarrow> 0 | Inr l \<Rightarrow> l)"

lemma Length_Inr: "a < 2 * sp_mAct S \<Longrightarrow> \<exists>l. sp_Length S a = Inr l"
  by (simp add: sp_Length_def Let_def)

lemma cost_Inr:
  assumes "a < 2 * sp_mAct S" "sp_SN S ! a < sp_nAct S" "sp_SN S ! flip a < sp_nAct S" "\<And>p. pot = Some p \<Longrightarrow> length p = sp_nAct S"
  shows "dj_cost S ch pot a = Inr (cost S ch pot a)"
proof -
  obtain l where l: "sp_Length S a = Inr l" using Length_Inr [OF assms(1)] by blast
  have "\<exists>x. dj_cost S ch pot a = Inr x" using assms l by (auto simp: dj_cost_def sp_RedLength_def split: option.split)
  then show ?thesis by (auto simp: cost_def)
qed

section \<open>Invariant\<close>

definition reached :: "sparse \<Rightarrow> real list \<Rightarrow> nat set" where
  "reached S D = {v. v < sp_nAct S \<and> D ! v \<noteq> InfFloat}"

definition dj_frame :: "sparse \<Rightarrow> (nat \<Rightarrow> bool) \<Rightarrow> (nat \<Rightarrow> real) \<Rightarrow> nat set \<Rightarrow> real \<Rightarrow> nat set \<Rightarrow> real list \<Rightarrow> nat list \<Rightarrow> bool" where
  "dj_frame S el c X B M D P \<longleftrightarrow> length D = sp_nAct S \<and> length P = sp_nAct S \<and> M \<subseteq> reached S D \<and> X \<subseteq> reached S D
     \<and> (\<forall>s \<in> X. D ! s \<le> 0)
     \<and> (\<forall>v \<in> reached S D. wwalk S el c X (D ! v) v \<and> (\<exists>k < card (reached S D). D ! v \<le> real k * B))
     \<and> (\<forall>x \<in> reached S D - M. \<forall>y \<in> M. D ! x \<le> D ! y)
     \<and> (\<forall>v \<in> reached S D. (v \<in> X \<and> D ! v = 0) \<or> (let a = P ! v in a < 2 * sp_mAct S \<and> el a \<and> sp_SN S ! flip a = v
          \<and> sp_SN S ! a \<in> reached S D - M \<and> D ! v = D ! (sp_SN S ! a) + c a))"

definition dj_scanned :: "sparse \<Rightarrow> (nat \<Rightarrow> bool) \<Rightarrow> (nat \<Rightarrow> real) \<Rightarrow> nat \<Rightarrow> nat set \<Rightarrow> nat set \<Rightarrow> real list \<Rightarrow> bool" where
  "dj_scanned S el c u A M D \<longleftrightarrow> (\<forall>x \<in> reached S D - M. \<forall>a < 2 * sp_mAct S. sp_SN S ! a = x \<and> el a \<and> (x = u \<longrightarrow> a \<in> A) \<longrightarrow>
     sp_SN S ! flip a \<in> reached S D \<and> D ! (sp_SN S ! flip a) \<le> D ! x + c a)"

lemma dj_walk_bound:
  assumes frame: "dj_frame S el c X B M D P" and sc: "dj_scanned S el c u A M D" "u \<notin> reached S D"
    and pos: "\<And>a. a < 2 * sp_mAct S \<Longrightarrow> el a \<Longrightarrow> 0 \<le> c a" and w: "wwalk S el c X W v"
  shows "(v \<in> reached S D \<and> D ! v \<le> W) \<or> (\<exists>y \<in> M. D ! y \<le> W)"
  using w
proof (induction rule: wwalk.induct)
  case (wwalk_0 s)
  then show ?case using frame by (auto simp: dj_frame_def)
next
  case (wwalk_Suc W x a)
  have ca: "0 \<le> c a" using pos wwalk_Suc.hyps by blast
  consider (scanned) "x \<in> reached S D" "D ! x \<le> W" "x \<notin> M" | (later) y where "y \<in> M" "D ! y \<le> W" using wwalk_Suc.IH by blast
  then show ?case
  proof cases
    case scanned
    then have "sp_SN S ! flip a \<in> reached S D \<and> D ! (sp_SN S ! flip a) \<le> D ! x + c a"
      using sc wwalk_Suc.hyps unfolding dj_scanned_def by blast
    then show ?thesis using scanned(2) by auto
  next
    case later
    then show ?thesis using ca by (intro disjI2 bexI [of _ y]) auto
  qed
qed

section \<open>Scanning an arc\<close>

definition dj_inner :: "sparse \<Rightarrow> (nat \<Rightarrow> bool) \<Rightarrow> (nat \<Rightarrow> real) \<Rightarrow> nat set \<Rightarrow> real \<Rightarrow> nat \<Rightarrow> nat set \<Rightarrow> nat set \<Rightarrow> real list \<Rightarrow> nat list \<Rightarrow> bool" where
  "dj_inner S el c X B u A M D P \<longleftrightarrow> dj_frame S el c X B M D P \<and> dj_scanned S el c u A M D
     \<and> u \<in> reached S D - M \<and> (\<forall>x \<in> reached S D - M. D ! x \<le> D ! u)"

lemma dj_relax:
  assumes inner: "dj_inner S el c X B u A M D P" and a: "a < 2 * sp_mAct S" "sp_SN S ! a = u" "el a"
    and ca: "0 \<le> c a" "c a \<le> B" and v: "sp_SN S ! flip a < sp_nAct S" and lt: "D ! u + c a < D ! (sp_SN S ! flip a)"
    and inf: "\<And>w. w < sp_nAct S \<Longrightarrow> D ! w \<le> InfFloat"
  defines "w \<equiv> sp_SN S ! flip a" and "D' \<equiv> D[sp_SN S ! flip a := D ! u + c a]" and "P' \<equiv> P[sp_SN S ! flip a := a]"
  shows "dj_inner S el c X B u (insert a A) (insert w M) D' P'" "reached S D' = insert w (reached S D)"
    "w \<notin> reached S D - M" "D' ! w = D ! u + c a" "\<And>x. x < sp_nAct S \<Longrightarrow> D' ! x \<le> InfFloat"
proof -
  let ?L = "reached S D"
  note i = inner [unfolded dj_inner_def dj_frame_def]
  have len: "length D = sp_nAct S" "length P = sp_nAct S" using i by auto
  have D': "D' ! x = (if x = w then D ! u + c a else D ! x)" if "x < sp_nAct S" for x
    using that len by (simp add: D'_def w_def nth_list_update)
  have wn: "w < sp_nAct S" "D ! u + c a < D ! w" using v lt by (simp_all add: w_def)
  have ddinf: "D ! u + c a < InfFloat" using wn inf by fastforce
  show L': "reached S D' = insert w ?L" using D' ddinf wn by (auto simp: reached_def split: if_splits)
  show wM: "w \<notin> ?L - M"
  proof
    assume "w \<in> ?L - M"
    then have "D ! w \<le> D ! u" using i by auto
    then show False using wn ca by simp
  qed
  show new: "D' ! w = D ! u + c a" using D' wn by simp
  show "D' ! x \<le> InfFloat" if "x < sp_nAct S" for x using D' [OF that] inf [OF that] ddinf by auto
  have uL: "u \<in> ?L" "u \<notin> M" "u \<noteq> w" using i wM by auto
  have old: "D' ! x = D ! x" if "x \<in> ?L" "x \<noteq> w" for x using that D' by (simp add: reached_def)
  have diff: "insert w ?L - insert w M = ?L - M" using wM by auto
  have le: "D' ! x \<le> D ! x" if "x < sp_nAct S" for x using D' [OF that] wn by auto
  have fin: "finite ?L" by (simp add: reached_def)
  have cardle: "card ?L \<le> card (insert w ?L)" using fin by (simp add: card_insert_le)
  obtain k where k: "k < card ?L" "D ! u \<le> real k * B" using i uL(1) by blast
  have walks: "wwalk S el c X (D' ! x) x \<and> (\<exists>j < card (insert w ?L). D' ! x \<le> real j * B)" if x: "x \<in> insert w ?L" for x
  proof (cases "x = w")
    case True
    have "wwalk S el c X (D ! u) u" using i uL(1) by blast
    then have "wwalk S el c X (D' ! w) w" unfolding new using wwalk_Suc [of S el c X "D ! u" u a] a by (simp add: w_def)
    moreover have "\<exists>j < card (insert w ?L). D' ! w \<le> real j * B"
    proof (cases "w \<in> ?L")
      case True
      then obtain j where "j < card ?L" "D ! w \<le> real j * B" using i by blast
      then show ?thesis using True wn new by (intro exI [of _ j]) (auto simp: insert_absorb)
    next
      case False
      have "D' ! w \<le> real (Suc k) * B" using k(2) ca(2) new by (simp add: algebra_simps)
      then show ?thesis using False k(1) fin by (intro exI [of _ "Suc k"]) simp
    qed
    ultimately show ?thesis using True by simp
  next
    case False
    then have xL: "x \<in> ?L" using x by simp
    then obtain j where "j < card ?L" "D ! x \<le> real j * B" "wwalk S el c X (D ! x) x" using i by blast
    then show ?thesis using old [OF xL False] cardle by (auto intro: less_le_trans)
  qed
  have order: "D' ! x \<le> D' ! y" if "x \<in> ?L - M" "y \<in> insert w M" for x y
  proof -
    have "x \<noteq> w" using that wM by auto
    then have x: "D' ! x = D ! x" "D ! x \<le> D ! u" using that i old by auto
    show ?thesis
    proof (cases "y = w")
      case True
      then show ?thesis using x new ca by simp
    next
      case False
      then have y: "y \<in> M" "y \<in> ?L" using that i by auto
      then have "D ! x \<le> D ! y" using that i by blast
      then show ?thesis using x(1) old [OF y(2) False] by simp
    qed
  qed
  have tree: "(x \<in> X \<and> D' ! x = 0) \<or> (let b = P' ! x in b < 2 * sp_mAct S \<and> el b \<and> sp_SN S ! flip b = x
      \<and> sp_SN S ! b \<in> ?L - M \<and> D' ! x = D' ! (sp_SN S ! b) + c b)" if x: "x \<in> insert w ?L" for x
  proof (cases "x = w")
    case True
    have "P' ! w = a" using wn(1) len by (simp add: P'_def w_def)
    then show ?thesis unfolding True new using a uL old [OF uL(1,3)] by (simp add: Let_def w_def)
  next
    case False
    then have xL: "x \<in> ?L" using x by simp
    then have "(x \<in> X \<and> D ! x = 0) \<or> (let b = P ! x in b < 2 * sp_mAct S \<and> el b \<and> sp_SN S ! flip b = x
      \<and> sp_SN S ! b \<in> ?L - M \<and> D ! x = D ! (sp_SN S ! b) + c b)" using i by blast
    moreover have "P' ! x = P ! x" using False by (simp add: P'_def w_def)
    moreover have "D' ! (sp_SN S ! b) = D ! (sp_SN S ! b)" if "sp_SN S ! b \<in> ?L - M" for b using that old wM by auto
    ultimately show ?thesis using old [OF xL False] by (auto simp: Let_def)
  qed
  have frame: "dj_frame S el c X B (insert w M) D' P'"
    unfolding dj_frame_def L' diff
  proof (intro conjI ballI)
    show "D' ! s \<le> 0" if "s \<in> X" for s
    proof -
      have "s \<in> ?L" "D ! s \<le> 0" using i that by auto
      then show ?thesis using le [of s] by (simp add: reached_def)
    qed
  qed (use i len walks order tree in \<open>auto simp: D'_def P'_def\<close>)
  have scanned: "dj_scanned S el c u (insert a A) (insert w M) D'"
    unfolding dj_scanned_def L' diff
  proof (intro ballI allI impI)
    fix x b assume x: "x \<in> ?L - M" and b: "b < 2 * sp_mAct S" "sp_SN S ! b = x \<and> el b \<and> (x = u \<longrightarrow> b \<in> insert a A)"
    have xw: "D' ! x = D ! x" using x old wM by auto
    show "sp_SN S ! flip b \<in> insert w ?L \<and> D' ! (sp_SN S ! flip b) \<le> D' ! x + c b"
    proof (cases "x = u \<and> b = a")
      case True
      then show ?thesis using new xw unfolding w_def by simp
    next
      case False
      then have "sp_SN S ! flip b \<in> ?L \<and> D ! (sp_SN S ! flip b) \<le> D ! x + c b"
        using i x b unfolding dj_scanned_def by blast
      then show ?thesis using le [of "sp_SN S ! flip b"] xw by (auto simp: reached_def)
    qed
  qed
  have "D' ! x \<le> D' ! u" if x: "x \<in> ?L - M" for x
  proof -
    have "x \<noteq> w" using x wM by auto
    moreover have "D ! x \<le> D ! u" using i x by blast
    ultimately show ?thesis using old [of x] old [OF uL(1,3)] x by simp
  qed
  then show "dj_inner S el c X B u (insert a A) (insert w M) D' P'"
    using frame scanned uL unfolding dj_inner_def L' diff by blast
qed

lemma dj_skip:
  assumes inner: "dj_inner S el c X B u A M D P" and a: "a < 2 * sp_mAct S" "sp_SN S ! a = u"
    and v: "sp_SN S ! flip a < sp_nAct S" and c: "\<not> el a \<or> D ! (sp_SN S ! flip a) \<le> D ! u + c a"
    and ca: "el a \<Longrightarrow> c a \<le> B" and B: "0 \<le> B" "real (sp_nAct S) * B < InfFloat"
  shows "dj_inner S el c X B u (insert a A) M D P"
proof -
  note i = inner [unfolded dj_inner_def dj_frame_def]
  have "sp_SN S ! flip a \<in> reached S D \<and> D ! (sp_SN S ! flip a) \<le> D ! u + c a" if el: "el a"
  proof -
    obtain k where k: "k < card (reached S D)" "D ! u \<le> real k * B" using i by blast
    have "card (reached S D) \<le> sp_nAct S" using card_mono [of "{..<sp_nAct S}" "reached S D"] by (auto simp: reached_def)
    then have "real (Suc k) * B \<le> real (sp_nAct S) * B" using k(1) B(1) by (intro mult_right_mono) auto
    moreover have "D ! u + c a \<le> real (Suc k) * B" using k(2) ca [OF el] by (simp add: algebra_simps)
    ultimately have "D ! (sp_SN S ! flip a) < InfFloat" using c el B(2) by simp
    then show ?thesis using v c el by (simp add: reached_def)
  qed
  then have "dj_scanned S el c u (insert a A) M D"
    using i a unfolding dj_scanned_def by (metis insert_iff)
  then show ?thesis using inner by (simp add: dj_inner_def)
qed

section \<open>The method over the contract of priority queues\<close>

text \<open>
  What the method needs of the data: potentials for all nodes, and for the arcs that it may use
  lengths that are not negative and too small to add up to the value of undefined labels.
\<close>

definition dj_data :: "sparse \<Rightarrow> real \<Rightarrow> real \<Rightarrow> nat \<Rightarrow> real list option \<Rightarrow> real \<Rightarrow> bool" where
  "dj_data S epsilon delta ch pot B \<longleftrightarrow> 0 \<le> epsilon \<and> 0 \<le> B \<and> real (sp_nAct S) * B < InfFloat
     \<and> (case pot of None \<Rightarrow> True | Some p \<Rightarrow> length p = sp_nAct S)
     \<and> (\<forall>a < 2 * sp_mAct S. eligible S delta ch a \<longrightarrow> 0 \<le> cost S ch pot a \<and> cost S ch pot a \<le> B)"

definition dj_queue :: "('q \<Rightarrow> bool) \<Rightarrow> ('q \<Rightarrow> nat set) \<Rightarrow> ('q \<Rightarrow> nat \<Rightarrow> real) \<Rightarrow> ('q \<Rightarrow> nat) \<Rightarrow> sparse \<Rightarrow> 'q dj_state \<Rightarrow> bool" where
  "dj_queue iv mem key rng S st \<longleftrightarrow> iv (dj_Q st) \<and> rng (dj_Q st) = sp_nAct S
     \<and> (\<forall>y \<in> mem (dj_Q st). key (dj_Q st) y = dj_dist st ! y) \<and> (\<forall>x < sp_nAct S. dj_dist st ! x \<le> InfFloat)"

lemma live_ends:
  assumes inv: "sp_inv S" and a: "a < 2 * sp_mAct S" "sp_SN S ! a < sp_nAct S"
  shows "sp_SN S ! flip a < sp_nAct S"
proof -
  have "sp_SN S ! a \<noteq> NoNode" using a shape_lt(2) [OF sp_inv_shape [OF inv]] by auto
  then have "sp_SN S ! flip a \<noteq> NoNode" using paired_flip [of S a] inv a(1) by (simp add: sp_inv_def)
  then show ?thesis using sp_inv_rings [OF inv] a(1) unfolding rings_ok_def by (metis flip_lt)
qed

definition dj_outer :: "sparse \<Rightarrow> (nat \<Rightarrow> bool) \<Rightarrow> (nat \<Rightarrow> real) \<Rightarrow> nat set \<Rightarrow> real \<Rightarrow> indexSet \<Rightarrow> nat set \<Rightarrow> real list \<Rightarrow> nat list \<Rightarrow> bool" where
  "dj_outer S el c X B T M D P \<longleftrightarrow> dj_frame S el c X B M D P \<and> dj_scanned S el c NoNode {} M D
     \<and> (\<forall>x \<in> reached S D - M. \<not> IsMember T x)"

text \<open>
  The result: without a target all labels are lengths of shortest walks and the predecessor arcs
  lie on them, with a target its label is the least length of a walk to any target.
\<close>

definition shortest :: "sparse \<Rightarrow> (nat \<Rightarrow> bool) \<Rightarrow> (nat \<Rightarrow> real) \<Rightarrow> nat set \<Rightarrow> nat \<Rightarrow> real \<Rightarrow> bool" where
  "shortest S el c X v W \<longleftrightarrow> wwalk S el c X W v \<and> (\<forall>W'. wwalk S el c X W' v \<longrightarrow> W \<le> W')"

definition dj_post :: "sparse \<Rightarrow> (nat \<Rightarrow> bool) \<Rightarrow> (nat \<Rightarrow> real) \<Rightarrow> nat set \<Rightarrow> indexSet \<Rightarrow> nat \<Rightarrow> real list \<Rightarrow> nat list \<Rightarrow> bool" where
  "dj_post S el c X T t D P \<longleftrightarrow>
     (if t = NoNode
      then (\<forall>v < sp_nAct S. if D ! v = InfFloat then \<nexists>W. wwalk S el c X W v else shortest S el c X v (D ! v) \<and> \<not> IsMember T v)
        \<and> (\<forall>v < sp_nAct S. D ! v \<noteq> InfFloat \<and> \<not> (v \<in> X \<and> D ! v = 0) \<longrightarrow>
             el (P ! v) \<and> sp_EndNode S (P ! v) = Inr v \<and> D ! v = D ! (sp_SN S ! (P ! v)) + c (P ! v))
      else t < sp_nAct S \<and> IsMember T t \<and> shortest S el c X t (D ! t)
        \<and> (\<forall>v < sp_nAct S. \<forall>W. IsMember T v \<and> wwalk S el c X W v \<longrightarrow> D ! t \<le> W))"

lemma dj_delete:
  assumes shape: "sp_shape S" and outer: "dj_outer S el c X B T M D P" and u: "u \<in> M" "\<forall>y \<in> M. D ! u \<le> D ! y"
  shows "dj_inner S el c X B u {} (M - {u}) D P"
proof -
  note o = outer [unfolded dj_outer_def dj_frame_def]
  have uL: "u \<in> reached S D" using o u by auto
  have diff: "reached S D - (M - {u}) = insert u (reached S D - M)" using uL by auto
  have "D ! x \<le> D ! y" if "x \<in> insert u (reached S D - M)" "y \<in> M - {u}" for x y using that o u by auto
  moreover have "(v \<in> X \<and> D ! v = 0) \<or> (let a = P ! v in a < 2 * sp_mAct S \<and> el a \<and> sp_SN S ! flip a = v
      \<and> sp_SN S ! a \<in> insert u (reached S D - M) \<and> D ! v = D ! (sp_SN S ! a) + c a)" if "v \<in> reached S D" for v
    using o that unfolding Let_def by blast
  ultimately have "dj_frame S el c X B (M - {u}) D P" unfolding dj_frame_def diff using o by blast
  moreover have "dj_scanned S el c u {} (M - {u}) D"
    unfolding dj_scanned_def diff
  proof (intro ballI allI impI)
    fix x a assume x: "x \<in> insert u (reached S D - M)" and a: "a < 2 * sp_mAct S" "sp_SN S ! a = x \<and> el a \<and> (x = u \<longrightarrow> a \<in> {})"
    then have "x \<in> reached S D - M" by auto
    moreover have "x \<noteq> NoNode" using calculation shape_lt(2) [OF shape] by (auto simp: reached_def)
    ultimately show "sp_SN S ! flip a \<in> reached S D \<and> D ! (sp_SN S ! flip a) \<le> D ! x + c a"
      using o a unfolding dj_scanned_def by blast
  qed
  moreover have "D ! x \<le> D ! u" if "x \<in> insert u (reached S D - M)" for x using that o u by auto
  ultimately show ?thesis unfolding dj_inner_def diff using uL by blast
qed

lemma dj_finish_all:
  assumes shape: "sp_shape S" and outer: "dj_outer S el c X B T {} D P"
    and pos: "\<And>a. a < 2 * sp_mAct S \<Longrightarrow> el a \<Longrightarrow> 0 \<le> c a"
  shows "dj_post S el c X T NoNode D P"
proof -
  note o = outer [unfolded dj_outer_def]
  have N: "NoNode \<notin> reached S D" using shape_lt(2) [OF shape] by (auto simp: reached_def)
  have bound: "v \<in> reached S D \<and> D ! v \<le> W" if "wwalk S el c X W v" for v W
    using dj_walk_bound [of S el c X B "{}" D P NoNode "{}" W v] o N pos that by auto
  have "if D ! v = InfFloat then \<nexists>W. wwalk S el c X W v else shortest S el c X v (D ! v) \<and> \<not> IsMember T v" if v: "v < sp_nAct S" for v
  proof (cases "D ! v = InfFloat")
    case True
    then show ?thesis using bound by (auto simp: reached_def)
  next
    case False
    then have "v \<in> reached S D" using v by (simp add: reached_def)
    then have "wwalk S el c X (D ! v) v" "\<not> IsMember T v" using o by (auto simp: dj_frame_def)
    then show ?thesis using False bound by (auto simp: shortest_def)
  qed
  moreover have "el (P ! v) \<and> sp_EndNode S (P ! v) = Inr v \<and> D ! v = D ! (sp_SN S ! (P ! v)) + c (P ! v)"
    if "v < sp_nAct S" "D ! v \<noteq> InfFloat \<and> \<not> (v \<in> X \<and> D ! v = 0)" for v
  proof -
    have "v \<in> reached S D" using that by (simp add: reached_def)
    then have "P ! v < 2 * sp_mAct S \<and> el (P ! v) \<and> sp_SN S ! flip (P ! v) = v \<and> D ! v = D ! (sp_SN S ! (P ! v)) + c (P ! v)"
      using o that unfolding dj_frame_def Let_def by blast
    then show ?thesis by (simp add: sp_EndNode_def)
  qed
  ultimately show ?thesis by (simp add: dj_post_def)
qed

lemma dj_finish_target:
  assumes shape: "sp_shape S" and outer: "dj_outer S el c X B T M D P" and u: "u \<in> M" "\<forall>y \<in> M. D ! u \<le> D ! y" "IsMember T u"
    and pos: "\<And>a. a < 2 * sp_mAct S \<Longrightarrow> el a \<Longrightarrow> 0 \<le> c a"
  shows "dj_post S el c X T u D P"
proof -
  note o = outer [unfolded dj_outer_def]
  have uL: "u \<in> reached S D" "wwalk S el c X (D ! u) u" using o u by (auto simp: dj_frame_def)
  then have "u < sp_nAct S" "u \<noteq> NoNode" using shape_lt(2) [OF shape] by (auto simp: reached_def)
  have N: "NoNode \<notin> reached S D" using shape_lt(2) [OF shape] by (auto simp: reached_def)
  have "D ! u \<le> W" if w: "IsMember T v" "wwalk S el c X W v" for v W
  proof -
    consider "v \<in> reached S D" "D ! v \<le> W" | y where "y \<in> M" "D ! y \<le> W"
      using dj_walk_bound [of S el c X B M D P NoNode "{}" W v] o N pos w(2) by blast
    then show ?thesis
    proof cases
      case 1
      then have "v \<in> M" using o w(1) by blast
      then show ?thesis using u(2) 1 by force
    next
      case 2
      then show ?thesis using u(2) by force
    qed
  qed
  then show ?thesis using uL \<open>u < sp_nAct S\<close> \<open>u \<noteq> NoNode\<close> u(3) by (auto simp: dj_post_def shortest_def)
qed

context prio_container
begin

lemma dj_body_ok:
  assumes inv: "sp_inv S" and data: "dj_data S epsilon delta ch pot B" and okkey: "\<And>x. x < InfFloat \<Longrightarrow> okkey x"
    and q: "dj_queue inv mem key rng S st"
    and inner: "dj_inner S (eligible S delta ch) (cost S ch pot) X B u A (mem (dj_Q st)) (dj_dist st) (dj_pred st)"
    and a: "a < 2 * sp_mAct S" "sp_SN S ! a = u"
  shows "\<exists>st'. dj_body ins chg S epsilon delta ch pot u a st = Inr st' \<and> dj_queue inv mem key rng S st'
    \<and> dj_inner S (eligible S delta ch) (cost S ch pot) X B u (insert a A) (mem (dj_Q st')) (dj_dist st') (dj_pred st')
    \<and> reached S (dj_dist st') - mem (dj_Q st') = reached S (dj_dist st) - mem (dj_Q st)"
proof -
  let ?el = "eligible S delta ch" and ?c = "cost S ch pot" and ?D = "dj_dist st" and ?M = "mem (dj_Q st)"
  let ?v = "sp_SN S ! flip a" and ?dd = "dj_dist st ! u + cost S ch pot a"
  note d = data [unfolded dj_data_def] and qq = q [unfolded dj_queue_def]
  have u: "u \<in> reached S ?D" using inner by (simp add: dj_inner_def)
  then have un: "sp_SN S ! a < sp_nAct S" using a by (simp add: reached_def)
  have v: "?v < sp_nAct S" by (rule live_ends [OF inv a(1) un])
  have cost: "dj_cost S ch pot a = Inr (?c a)"
    by (rule cost_Inr [OF a(1) un v]) (use d in simp)
  have len: "length ?D = sp_nAct S" and MsubL: "?M \<subseteq> reached S ?D" using inner by (simp_all add: dj_inner_def dj_frame_def)
  have el: "sp_Eligible S delta ch a = Inr (?el a)" by (rule Eligible_Inr [OF a(1)])
  show ?thesis
  proof (cases "?el a \<and> ?D ! ?v > ?dd")
    case False
    have r: "dj_body ins chg S epsilon delta ch pot u a st = Inr st"
      using False cost v len a(1) el by (auto simp: dj_body_def sp_EndNode_def Let_def)
    have "dj_inner S ?el ?c X B u (insert a A) ?M ?D (dj_pred st)"
      by (rule dj_skip [OF inner a v]) (use False d a in auto)
    then show ?thesis using r q by blast
  next
    case True
    have ca: "0 \<le> ?c a" "?c a \<le> B" using d a True by auto
    have inf: "?D ! w \<le> InfFloat" if "w < sp_nAct S" for w using qq that by blast
    note R = dj_relax [OF inner a conjunct1 [OF True] ca v conjunct2 [OF True] inf]
    have lt: "?dd < InfFloat" using True inf [OF v] by simp
    have neg: "\<not> ?c a < - epsilon" using ca d by simp
    let ?D' = "?D[?v := ?dd]"
    have Q: "\<exists>Q. (if ?D ! ?v = InfFloat then ins (dj_Q st) ?v ?dd else chg (dj_Q st) ?v ?dd) = Inr Q
      \<and> mem Q = insert ?v ?M \<and> (\<forall>y \<in> mem Q. key Q y = ((key (dj_Q st))(?v := ?dd)) y) \<and> rng Q = sp_nAct S \<and> inv Q"
    proof (cases "?D ! ?v = InfFloat")
      case inf: True
      then have "?v \<notin> ?M" using MsubL by (auto simp: reached_def)
      then show ?thesis using inf prio_ins [of "dj_Q st" ?v ?dd] qq v okkey [OF lt] by auto
    next
      case False
      then have "?v \<in> ?M" using R(3) v by (auto simp: reached_def)
      then show ?thesis using False prio_chg [of "dj_Q st" ?v ?dd] qq okkey [OF lt] by (auto simp: insert_absorb)
    qed
    then obtain Q where Q: "(if ?D ! ?v = InfFloat then ins (dj_Q st) ?v ?dd else chg (dj_Q st) ?v ?dd) = Inr Q"
      "mem Q = insert ?v ?M" "\<forall>y \<in> mem Q. key Q y = ((key (dj_Q st))(?v := ?dd)) y" "rng Q = sp_nAct S" "inv Q" by blast
    let ?st = "st\<lparr>dj_Q := Q, dj_dist := ?D', dj_pred := (dj_pred st)[?v := a]\<rparr>"
    have r: "dj_body ins chg S epsilon delta ch pot u a st = Inr ?st"
      using True cost v len a(1) el neg Q(1) by (simp add: dj_body_def sp_EndNode_def Let_def del: if_split)
    have "key Q y = ?D' ! y" if "y \<in> mem Q" for y
      using that Q(2,3) qq R(4) MsubL by (cases "y = ?v") auto
    then have "dj_queue inv mem key rng S ?st" using Q(4,5) R(5) by (simp add: dj_queue_def)
    moreover have "reached S ?D' - insert ?v ?M = reached S ?D - ?M" using R(2,3) by auto
    ultimately show ?thesis using r R(1) Q(2) by (intro exI [of _ ?st]) simp
  qed
qed

lemma dj_scan_ok:
  assumes inv: "sp_inv S" and data: "dj_data S epsilon delta ch pot B" and okkey: "\<And>x. x < InfFloat \<Longrightarrow> okkey x"
    and "dj_queue inv mem key rng S st"
    and "dj_inner S (eligible S delta ch) (cost S ch pot) X B u A (mem (dj_Q st)) (dj_dist st) (dj_pred st)"
    and "\<forall>a \<in> set as. a < 2 * sp_mAct S \<and> sp_SN S ! a = u"
  shows "\<exists>st'. rfold (dj_body ins chg S epsilon delta ch pot u) as st = Inr st' \<and> dj_queue inv mem key rng S st'
    \<and> dj_inner S (eligible S delta ch) (cost S ch pot) X B u (A \<union> set as) (mem (dj_Q st')) (dj_dist st') (dj_pred st')
    \<and> reached S (dj_dist st') - mem (dj_Q st') = reached S (dj_dist st) - mem (dj_Q st)"
  using assms(4-6)
proof (induction as arbitrary: A st)
  case (Cons a as)
  obtain st1 where st1: "dj_body ins chg S epsilon delta ch pot u a st = Inr st1" "dj_queue inv mem key rng S st1"
    "dj_inner S (eligible S delta ch) (cost S ch pot) X B u (insert a A) (mem (dj_Q st1)) (dj_dist st1) (dj_pred st1)"
    "reached S (dj_dist st1) - mem (dj_Q st1) = reached S (dj_dist st) - mem (dj_Q st)"
    using dj_body_ok [OF inv data okkey Cons.prems(1,2), of a] Cons.prems(3) by auto
  obtain st' where "rfold (dj_body ins chg S epsilon delta ch pot u) as st1 = Inr st'" "dj_queue inv mem key rng S st'"
    "dj_inner S (eligible S delta ch) (cost S ch pot) X B u (insert a A \<union> set as) (mem (dj_Q st')) (dj_dist st') (dj_pred st')"
    "reached S (dj_dist st') - mem (dj_Q st') = reached S (dj_dist st1) - mem (dj_Q st1)"
    using Cons.IH [OF st1(2,3)] Cons.prems(3) by auto
  then show ?case using st1 by (intro exI [of _ st']) simp
qed simp

lemma dj_round_ok:
  assumes inv: "sp_inv S" and data: "dj_data S epsilon delta ch pot B" and okkey: "\<And>x. x < InfFloat \<Longrightarrow> okkey x"
    and q: "dj_queue inv mem key rng S st"
    and outer: "dj_outer S (eligible S delta ch) (cost S ch pot) X B T (mem (dj_Q st)) (dj_dist st) (dj_pred st)"
    and I: "it_ok S I" "\<And>v. v < sp_nAct S \<Longrightarrow> v \<notin> reached S (dj_dist st) - mem (dj_Q st) \<Longrightarrow> it_current I ! v = NoArc"
    and u: "u \<in> mem (dj_Q st)" "\<forall>y \<in> mem (dj_Q st). dj_dist st ! u \<le> dj_dist st ! y" "\<not> IsMember T u"
    and Q: "mem Q = mem (dj_Q st) - {u}" "\<forall>y \<in> mem Q. key Q y = key (dj_Q st) y" "rng Q = sp_nAct S" "inv Q"
  obtains st' I' where "read_loop S u (dj_body ins chg S epsilon delta ch pot u) I (st\<lparr>dj_Q := Q\<rparr>) = Some (Inr (I', st'))"
    "dj_queue inv mem key rng S st'"
    "dj_outer S (eligible S delta ch) (cost S ch pot) X B T (mem (dj_Q st')) (dj_dist st') (dj_pred st')" "it_ok S I'"
    "reached S (dj_dist st') - mem (dj_Q st') = insert u (reached S (dj_dist st) - mem (dj_Q st))"
    "\<And>v. v < sp_nAct S \<Longrightarrow> v \<notin> reached S (dj_dist st') - mem (dj_Q st') \<Longrightarrow> it_current I' ! v = NoArc"
proof -
  let ?el = "eligible S delta ch" and ?c = "cost S ch pot" and ?st = "st\<lparr>dj_Q := Q\<rparr>"
  note shape = sp_inv_shape [OF inv] and ok = sp_inv_rings [OF inv]
  have uL: "u \<in> reached S (dj_dist st)" using outer u(1) by (auto simp: dj_outer_def dj_frame_def)
  then have un: "u < sp_nAct S" by (simp add: reached_def)
  have q1: "dj_queue inv mem key rng S ?st" using q Q by (auto simp: dj_queue_def)
  have i1: "dj_inner S ?el ?c X B u {} (mem (dj_Q ?st)) (dj_dist ?st) (dj_pred ?st)"
    using dj_delete [OF shape outer u(1,2)] Q(1) by simp
  have arcs: "set (node_arcs S u) = arcs_at S {} u" by (rule node_arcs_ok(2) [OF ok un])
  obtain st' where st': "rfold (dj_body ins chg S epsilon delta ch pot u) (node_arcs S u) ?st = Inr st'" "dj_queue inv mem key rng S st'"
    "dj_inner S ?el ?c X B u (set (node_arcs S u)) (mem (dj_Q st')) (dj_dist st') (dj_pred st')"
    "reached S (dj_dist st') - mem (dj_Q st') = reached S (dj_dist ?st) - mem (dj_Q ?st)"
    using dj_scan_ok [OF inv data okkey q1 i1, of "node_arcs S u"] arcs by (auto simp: arcs_at_def)
  let ?I = "I\<lparr>it_current := (it_current I)[u := sp_first S ! u]\<rparr>"
  have "it_current I ! u = NoArc" using I(2) [OF un] u(1) by simp
  then have r: "read_loop S u (dj_body ins chg S epsilon delta ch pot u) I ?st = Some (Inr (?I, st'))"
    using read_loop_fold [OF ok un I(1), of "dj_body ins chg S epsilon delta ch pot u" ?st] st'(1) by simp
  have fin: "reached S (dj_dist st') - mem (dj_Q st') = insert u (reached S (dj_dist st) - mem (dj_Q st))"
    using st'(4) Q(1) uL by auto
  have sc: "dj_scanned S ?el ?c NoNode {} (mem (dj_Q st')) (dj_dist st')"
    unfolding dj_scanned_def
  proof (intro ballI allI impI)
    fix x a assume x: "x \<in> reached S (dj_dist st') - mem (dj_Q st')" "a < 2 * sp_mAct S"
      "sp_SN S ! a = x \<and> ?el a \<and> (x = NoNode \<longrightarrow> a \<in> {})"
    then have "x = u \<longrightarrow> a \<in> set (node_arcs S u)" using arcs by (auto simp: arcs_at_def)
    then show "sp_SN S ! flip a \<in> reached S (dj_dist st') \<and> dj_dist st' ! (sp_SN S ! flip a) \<le> dj_dist st' ! x + ?c a"
      using st'(3) x unfolding dj_inner_def dj_scanned_def by blast
  qed
  have out: "dj_outer S ?el ?c X B T (mem (dj_Q st')) (dj_dist st') (dj_pred st')"
    using st'(3) sc outer u(3) unfolding dj_outer_def fin dj_inner_def by blast
  have cur: "it_current ?I ! v = NoArc" if "v < sp_nAct S" "v \<notin> reached S (dj_dist st') - mem (dj_Q st')" for v
    using that I(2) [OF that(1)] fin by auto
  show thesis by (rule that [OF r st'(2) out _ fin cur]) (use I(1) in \<open>simp add: it_ok_def\<close>)
qed

lemma dj_loop_ok:
  assumes inv: "sp_inv S" and data: "dj_data S epsilon delta ch pot B" and okkey: "\<And>x. x < InfFloat \<Longrightarrow> okkey x"
    and "dj_queue inv mem key rng S st"
    and "dj_outer S (eligible S delta ch) (cost S ch pot) X B T (mem (dj_Q st)) (dj_dist st) (dj_pred st)"
    and "it_ok S I" "\<And>v. v < sp_nAct S \<Longrightarrow> v \<notin> reached S (dj_dist st) - mem (dj_Q st) \<Longrightarrow> it_current I ! v = NoArc"
  shows "\<exists>t st'. dj_loop isEmpty del (dj_body ins chg S epsilon delta ch pot) S T I st = Some (Inr (t, st'))
    \<and> dj_post S (eligible S delta ch) (cost S ch pot) X T t (dj_dist st') (dj_pred st')"
  using assms(4-7)
proof (induction "sp_nAct S - card (reached S (dj_dist st) - mem (dj_Q st))" arbitrary: st I rule: less_induct)
  case less
  let ?done = "reached S (dj_dist st) - mem (dj_Q st)"
  note shape = sp_inv_shape [OF inv]
  have pos: "0 \<le> cost S ch pot a" if "a < 2 * sp_mAct S" "eligible S delta ch a" for a using data that by (simp add: dj_data_def)
  have Q0: "inv (dj_Q st)" and keys: "\<forall>y \<in> mem (dj_Q st). key (dj_Q st) y = dj_dist st ! y"
    using less.prems(1) by (simp_all add: dj_queue_def)
  show ?case
  proof (cases "mem (dj_Q st) = {}")
    case True
    then have "dj_loop isEmpty del (dj_body ins chg S epsilon delta ch pot) S T I st = Some (Inr (NoNode, st))"
      using prio_empty [OF Q0] by (subst dj_loop.simps) simp
    moreover have "dj_post S (eligible S delta ch) (cost S ch pot) X T NoNode (dj_dist st) (dj_pred st)"
      by (rule dj_finish_all [OF shape _ pos, where B = B]) (use less.prems(2) True in simp_all)
    ultimately show ?thesis by blast
  next
    case False
    then obtain u Q where Q: "del (dj_Q st) = Inr (u, Q)" "u \<in> mem (dj_Q st)" "\<forall>y \<in> mem (dj_Q st). key (dj_Q st) u \<le> key (dj_Q st) y"
      "mem Q = mem (dj_Q st) - {u}" "\<forall>y \<in> mem Q. key Q y = key (dj_Q st) y" "rng Q = rng (dj_Q st)" "inv Q"
      using prio_del [OF Q0] by blast
    have min: "\<forall>y \<in> mem (dj_Q st). dj_dist st ! u \<le> dj_dist st ! y" using Q(2,3) keys by auto
    have step: "dj_loop isEmpty del (dj_body ins chg S epsilon delta ch pot) S T I st =
      (if IsMember T u then Some (Inr (u, st\<lparr>dj_Q := Q\<rparr>))
       else Option.bind (read_loop S u (dj_body ins chg S epsilon delta ch pot u) I (st\<lparr>dj_Q := Q\<rparr>))
         (\<lambda>r. case r of Inl e \<Rightarrow> Some (Inl e) | Inr q \<Rightarrow> dj_loop isEmpty del (dj_body ins chg S epsilon delta ch pot) S T (fst q) (snd q)))"
      using False prio_empty [OF Q0] Q(1) by (subst dj_loop.simps) simp
    show ?thesis
    proof (cases "IsMember T u")
      case True
      then show ?thesis using step dj_finish_target [OF shape less.prems(2) Q(2) min True pos] by auto
    next
      case nt: False
      have rg: "rng Q = sp_nAct S" using Q(6) less.prems(1) by (simp add: dj_queue_def)
      obtain st' I' where r: "read_loop S u (dj_body ins chg S epsilon delta ch pot u) I (st\<lparr>dj_Q := Q\<rparr>) = Some (Inr (I', st'))"
        "dj_queue inv mem key rng S st'"
        "dj_outer S (eligible S delta ch) (cost S ch pot) X B T (mem (dj_Q st')) (dj_dist st') (dj_pred st')" "it_ok S I'"
        "reached S (dj_dist st') - mem (dj_Q st') = insert u ?done"
        "\<And>v. v < sp_nAct S \<Longrightarrow> v \<notin> reached S (dj_dist st') - mem (dj_Q st') \<Longrightarrow> it_current I' ! v = NoArc"
        by (rule dj_round_ok [OF inv data _ less.prems(1-3) _ Q(2) min nt Q(4,5) rg Q(7)],
            erule okkey, erule (1) less.prems(4), rule that)
      have "insert u ?done \<subseteq> {..<sp_nAct S}" using less.prems(2) Q(2) by (auto simp: dj_outer_def dj_frame_def reached_def)
      then have "card (insert u ?done) \<le> sp_nAct S" using card_mono [of "{..<sp_nAct S}"] by fastforce
      moreover have "finite ?done" "u \<notin> ?done" using Q(2) by (simp_all add: reached_def)
      ultimately have "sp_nAct S - card (reached S (dj_dist st') - mem (dj_Q st')) < sp_nAct S - card ?done" unfolding r(5) by simp
      from less.hyps [OF this r(2-4,6)] show ?thesis using step nt r(1) by simp
    qed
  qed
qed

lemma dj_sources_ok:
  assumes "dj_queue inv mem key rng S st" "distinct ss" "\<forall>s \<in> set ss. s < sp_nAct S \<and> s \<notin> mem (dj_Q st)" "okkey 0"
    and "length (dj_dist st) = sp_nAct S"
  shows "\<exists>st'. rfold (dj_source ins) ss st = Inr st' \<and> dj_queue inv mem key rng S st' \<and> mem (dj_Q st') = mem (dj_Q st) \<union> set ss
    \<and> dj_pred st' = dj_pred st \<and> length (dj_dist st') = sp_nAct S
    \<and> (\<forall>v < sp_nAct S. dj_dist st' ! v = (if v \<in> set ss then 0 else dj_dist st ! v))"
  using assms(1-3,5)
proof (induction ss arbitrary: st)
  case Nil
  then show ?case by simp
next
  case (Cons s ss)
  note q = Cons.prems(1) [unfolded dj_queue_def]
  have s: "s < sp_nAct S" "s \<notin> mem (dj_Q st)" "s \<notin> set ss" using Cons.prems by auto
  obtain Q where Q: "ins (dj_Q st) s 0 = Inr Q" "mem Q = insert s (mem (dj_Q st))"
    "\<forall>y \<in> mem Q. key Q y = ((key (dj_Q st))(s := 0)) y" "rng Q = sp_nAct S" "inv Q"
    using prio_ins [of "dj_Q st" s 0] q s assms(4) by auto
  let ?st = "st\<lparr>dj_Q := Q, dj_dist := (dj_dist st)[s := 0]\<rparr>"
  have nth: "dj_dist ?st ! v = (if v = s then 0 else dj_dist st ! v)" if "v < sp_nAct S" for v
    using that Cons.prems(4) s(1) by (simp add: nth_list_update)
  have "dj_queue inv mem key rng S ?st"
    unfolding dj_queue_def
  proof (intro conjI ballI allI impI)
    fix y assume y: "y \<in> mem (dj_Q ?st)"
    then have "y < sp_nAct S" using prio_mem [OF Q(5)] Q(4) by simp
    moreover have "key (dj_Q st) y = dj_dist st ! y" if "y \<noteq> s" using q y Q(2) that by simp
    ultimately show "key (dj_Q ?st) y = dj_dist ?st ! y" using y Q(3) nth [of y] by (cases "y = s") simp_all
  next
    fix x assume "x < sp_nAct S"
    then show "dj_dist ?st ! x \<le> InfFloat" using nth q by (simp add: InfFloat_def)
  qed (use Q in simp_all)
  moreover have "\<forall>x \<in> set ss. x < sp_nAct S \<and> x \<notin> mem (dj_Q ?st)" using Cons.prems(2,3) Q(2) by auto
  ultimately obtain st' where st': "rfold (dj_source ins) ss ?st = Inr st'" "dj_queue inv mem key rng S st'"
    "mem (dj_Q st') = mem (dj_Q ?st) \<union> set ss" "dj_pred st' = dj_pred ?st" "length (dj_dist st') = sp_nAct S"
    "\<forall>v < sp_nAct S. dj_dist st' ! v = (if v \<in> set ss then 0 else dj_dist ?st ! v)"
    using Cons.IH [of ?st] Cons.prems(2,4) by auto
  moreover have "dj_source ins s st = Inr ?st" using Q(1) by (simp add: dj_source_def)
  ultimately show ?case using Q(2) nth by (intro exI [of _ st']) auto
qed

lemma Dijkstra_correct:
  assumes inv: "sp_inv S" and data: "dj_data S epsilon delta ch pot B" and okkey: "\<And>x. x < InfFloat \<Longrightarrow> okkey x"
    and Q: "inv Q" "mem Q = {}" "rng Q = sp_nAct S" and Src: "maxIndex Src = sp_nAct S"
  shows "\<exists>t D P. sp_Dijkstra isEmpty del ins chg Q S epsilon delta ch pot Src T = Some (Inr (t, D, P))
    \<and> dj_post S (eligible S delta ch) (cost S ch pot) {v. v < sp_nAct S \<and> IsMember Src v} T t D P"
proof -
  let ?ss = "filter (IsMember Src) [0..<sp_nAct S]" and ?X = "{v. v < sp_nAct S \<and> IsMember Src v}"
  have loop: "index_loop (Successor Src) (sp_nAct S) (First Src) = Some ?ss"
    using indexSet_loop_members [of Src] by (simp add: indexSet_loop_def Src)
  have X: "set ?ss = ?X" by auto
  let ?st0 = "\<lparr>dj_dist = replicate (sp_nAct S) InfFloat, dj_pred = replicate (sp_nAct S) NoArc, dj_Q = Q\<rparr>"
  have ok: "okkey 0" using okkey [of 0] by (simp add: InfFloat_def)
  have q0: "dj_queue inv mem key rng S ?st0" using Q by (simp add: dj_queue_def)
  have d0: "distinct ?ss" "\<forall>s \<in> set ?ss. s < sp_nAct S \<and> s \<notin> mem (dj_Q ?st0)" "length (dj_dist ?st0) = sp_nAct S"
    using Q(2) by simp_all
  obtain st where st: "rfold (dj_source ins) ?ss ?st0 = Inr st" "dj_queue inv mem key rng S st" "mem (dj_Q st) = mem Q \<union> set ?ss"
    "dj_pred st = dj_pred ?st0" "length (dj_dist st) = sp_nAct S"
    "\<forall>v < sp_nAct S. dj_dist st ! v = (if v \<in> set ?ss then 0 else dj_dist ?st0 ! v)"
    using dj_sources_ok [OF q0 d0(1,2) ok d0(3)] unfolding dj_state.simps by blast
  have M: "mem (dj_Q st) = ?X" unfolding st(3) X Q(2) by simp
  have D: "\<forall>v < sp_nAct S. dj_dist st ! v = (if v \<in> ?X then 0 else InfFloat)" using st(6) unfolding X by simp
  have P: "dj_pred st = replicate (sp_nAct S) NoArc" using st(4) by simp
  have R: "reached S (dj_dist st) = ?X" using D by (auto simp: reached_def InfFloat_def split: if_splits)
  have fin: "finite ?X" by simp
  have "\<exists>k < card ?X. dj_dist st ! v \<le> real k * B" if "v \<in> ?X" for v
    using that D fin by (intro exI [of _ 0]) (auto simp: card_gt_0_iff)
  then have "dj_frame S (eligible S delta ch) (cost S ch pot) ?X B ?X (dj_dist st) (dj_pred st)"
    using P D st(5) wwalk_0 [of _ ?X] by (auto simp: dj_frame_def R)
  then have "dj_outer S (eligible S delta ch) (cost S ch pot) ?X B T (mem (dj_Q st)) (dj_dist st) (dj_pred st)"
    by (simp add: dj_outer_def dj_scanned_def R M)
  moreover have "it_current (iGraph_new S) ! v = NoArc" if "v < sp_nAct S" for v using that by (simp add: iGraph_new_def)
  ultimately obtain t st' where "dj_loop isEmpty del (dj_body ins chg S epsilon delta ch pot) S T (iGraph_new S) st = Some (Inr (t, st'))"
    "dj_post S (eligible S delta ch) (cost S ch pot) ?X T t (dj_dist st') (dj_pred st')"
    using dj_loop_ok [OF inv data okkey st(2) _ it_ok_new, of ?X T] by auto
  then show ?thesis using st(1) loop by (auto simp: sp_Dijkstra_def)
qed

end

lemma wwalk_nonneg:
  assumes "wwalk S el c X W v" and "\<And>a. a < 2 * sp_mAct S \<Longrightarrow> el a \<Longrightarrow> 0 \<le> c a"
  shows "0 \<le> W"
  using assms(1) by (induction rule: wwalk.induct) (auto intro: add_nonneg_nonneg assms(2))

lemma sp_example_metric: "attributePool_GetValue (sp_geometry sp_example) TokGeoMetric 0 0 = 0"
proof -
  obtain S' where "sp_InsertArc (sparseRepresentation 10 10 2) 0 1 2 5 0 = Inr (0, S')" "sp_example = S'"
    using sp_example_insert by metis
  then have "sp_geometry sp_example = sp_geometry (sparseRepresentation 10 10 2)"
    using InsertArc_geometry [OF sp_new_guard] by metis
  then show ?thesis
    by (simp add: sparseRepresentation_def attributePool_GetValue_def attributePool_FindAttribute_def attributePool_new_def)
qed

lemma sp_example_cost:
  assumes "a < 2" shows "cost sp_example 0 None a = 5"
proof -
  note metric = sp_example_metric
  have z: "sp_mAct (sparseRepresentation 10 10 2) = 0" by (simp add: sparseRepresentation_def)
  have "sp_length sp_example a = 5"
    by (rule InsertArc_exec [OF sp_history_inv [OF sp_new_history] sp_new_guard]) (use z assms in \<open>simp add: sp_example_def\<close>)
  then show ?thesis
    using metric assms sp_example_facts(2) by (simp add: cost_def dj_cost_def sp_Length_def SPX_PLAIN_def sp_length_def)
qed

lemma sp_example_data: "dj_data sp_example 0 0 0 None 5"
  using sp_example_cost sp_example_facts(2,3) by (simp add: dj_data_def InfFloat_def)

lemma sp_example_walk: "wwalk sp_example (eligible sp_example 0 0) (cost sp_example 0 None) {v. v < 2 \<and> v = 0} 5 1"
proof -
  have el: "eligible sp_example 0 0 0"
    using sp_example_UCap sp_example_facts(2)
    by (simp add: eligible_def sp_Eligible_def spx_has_def sp_Blocking_def SPX_RESIDUAL_def SPX_SUBGRAPH_def)
  have f: "flip 0 = (1::nat)" by (simp add: flip_def)
  show ?thesis
    using wwalk_Suc [OF wwalk_0 [of 0], of "{v. v < 2 \<and> v = 0}" 0 sp_example "eligible sp_example 0 0" "cost sp_example 0 None"] el sp_example_facts f sp_example_cost [of 0] by simp
qed

lemma sp_example_shortest:
  assumes post: "dj_post sp_example (eligible sp_example 0 0) (cost sp_example 0 None) {v. v < sp_nAct sp_example \<and> IsMember (singletonIndex 0 2) v} (voidIndex 2) t D P"
  shows "t = NoNode" "D ! 1 = 5"
proof -
  let ?w = "wwalk sp_example (eligible sp_example 0 0) (cost sp_example 0 None) {v. v < 2 \<and> v = 0}"
  show t: "t = NoNode" using post by (simp add: dj_post_def split: if_splits)
  have "\<forall>v < 2. if D ! v = InfFloat then \<nexists>W. ?w W v else shortest sp_example (eligible sp_example 0 0) (cost sp_example 0 None) {v. v < 2 \<and> v = 0} v (D ! v)"
    using post sp_example_facts(3) by (simp add: dj_post_def t)
  from spec [OF this, of 1] have D: "?w (D ! 1) 1" "D ! 1 \<le> 5"
    using sp_example_walk by (auto simp: shortest_def split: if_splits)
  have "5 \<le> D ! 1"
    using D(1)
  proof cases
    case (wwalk_Suc W u a)
    have "0 \<le> W" by (rule wwalk_nonneg [OF wwalk_Suc(3)]) (use sp_example_cost sp_example_facts(2) in simp)
    then show ?thesis using wwalk_Suc sp_example_cost sp_example_facts(2) by simp
  qed simp
  then show "D ! 1 = 5" using D(2) by simp
qed

section \<open>Properties\<close>

text \<open>
  C3: \<open>SPX_Dijkstra\<close> on a binary heap ends without an exception on every sparse representation that a
  history has produced, when the lengths of the eligible arcs are not negative and \<open>n\<close> times the largest
  stays below \<open>InfFloat\<close>. Without a target in reach it returns \<open>NoNode\<close>, the distance labels are
  the lengths of shortest walks from the source set, undefined exactly for the nodes that cannot be
  reached, and the predecessor labels are tight eligible arcs. Otherwise it returns a nearest target
  with its distance.
\<close>

theorem Dijkstra_binaryHeap:
  assumes "sp_history S" and "dj_data S epsilon delta ch pot B" and "maxIndex Src = sp_nAct S"
    and "length v0 = Suc (sp_nAct S)" and "length key0 = sp_nAct S"
  shows "\<exists>t D P. sp_Dijkstra binaryHeap_Empty binaryHeap_Delete binaryHeap_Insert binaryHeap_ChangeKey
      (binaryHeap (sp_nAct S) v0 key0) S epsilon delta ch pot Src T = Some (Inr (t, D, P))
    \<and> dj_post S (eligible S delta ch) (cost S ch pot) {v. v < sp_nAct S \<and> IsMember Src v} T t D P"
proof -
  have inv: "sp_inv S" by (rule sp_history_inv [OF assms(1)])
  have "sp_nAct S \<le> NoNode" using sp_inv_shape [OF inv] by (auto simp: sp_shape_def)
  then have "sp_nAct S < UITEM_MAX" by (simp add: NoNode_def UITEM_MAX_def)
  note H = binaryHeap_new_inv [OF assms(4,5) this]
  show ?thesis
    by (rule binheap.Dijkstra_correct [OF inv assms(2) _ H _ assms(3)]) (simp_all add: binaryHeap_def)
qed

theorem Dijkstra_binaryHeap_witness:
  "\<exists>D P. sp_Dijkstra binaryHeap_Empty binaryHeap_Delete binaryHeap_Insert binaryHeap_ChangeKey
     (binaryHeap 2 [0, 0, 0] [0, 0]) sp_example 0 0 0 None (singletonIndex 0 2) (voidIndex 2) = Some (Inr (NoNode, D, P)) \<and> D ! 1 = 5"
  using Dijkstra_binaryHeap [OF sp_example_facts(1) sp_example_data, of "singletonIndex 0 2" "[0, 0, 0]" "[0, 0]" "voidIndex 2"]
    sp_example_facts(3) sp_example_shortest by fastforce

text \<open>
  The same holds of \<open>SPX_Dijkstra\<close> on the naive priority queue, which keeps its items sorted in an
  array.
\<close>

theorem Dijkstra_basicHeap:
  assumes "sp_history S" and "dj_data S epsilon delta ch pot B" and "maxIndex Src = sp_nAct S"
    and "length v0 = sp_nAct S" and "length key0 = sp_nAct S"
  shows "\<exists>t D P. sp_Dijkstra basicHeap_Empty basicHeap_Delete basicHeap_Insert basicHeap_ChangeKey
      (basicHeap (sp_nAct S) v0 key0) S epsilon delta ch pot Src T = Some (Inr (t, D, P))
    \<and> dj_post S (eligible S delta ch) (cost S ch pot) {v. v < sp_nAct S \<and> IsMember Src v} T t D P"
proof -
  let ?H = "basicHeap (sp_nAct S) v0 key0"
  have H: "bas_inv ?H" "set (bas_items ?H) = {}" using assms(4,5) by (simp_all add: bas_inv_def bas_items_def basicHeap_def)
  show ?thesis
    by (rule bheap.Dijkstra_correct [OF sp_history_inv [OF assms(1)] assms(2) _ H _ assms(3)]) (simp_all add: basicHeap_def)
qed

theorem Dijkstra_basicHeap_witness:
  "\<exists>D P. sp_Dijkstra basicHeap_Empty basicHeap_Delete basicHeap_Insert basicHeap_ChangeKey
     (basicHeap 2 [0, 0] [0, 0]) sp_example 0 0 0 None (singletonIndex 0 2) (voidIndex 2) = Some (Inr (NoNode, D, P)) \<and> D ! 1 = 5"
  using Dijkstra_basicHeap [OF sp_example_facts(1) sp_example_data, of "singletonIndex 0 2" "[0, 0]" "[0, 0]" "voidIndex 2"]
    sp_example_facts(3) sp_example_shortest by fastforce

end
