(* ===== verification/Bellman_Ford.thy ===== *)
theory Bellman_Ford
  imports Shortest_Paths
begin

text \<open>
  The label correcting method \<open>abstractMixedGraph::SPX_BellmanFord\<close> of
  \<^verbatim>\<open>lib_src/solveSPTree.cpp\<close>, which accepts negative lengths and reports negative length cycles.
  Walks are lists of arcs here, so that closed walks can be taken out of them.
\<close>

section \<open>The method\<close>

record bel_state =
  bel_dist :: "real list"
  bel_pred :: "nat list"
  bel_Updates :: bool

definition bel_arc :: "sparse \<Rightarrow> real \<Rightarrow> nat \<Rightarrow> real list option \<Rightarrow> nat \<Rightarrow> bel_state \<Rightarrow> bel_state result" where
  "bel_arc S delta characteristic potential a st =
     rbind (sp_StartNode S a) (\<lambda>u.
     rbind (sp_EndNode S a) (\<lambda>v.
     rbind (dj_cost S characteristic potential a) (\<lambda>l.
       if u \<ge> length (bel_dist st) \<or> v \<ge> length (bel_dist st) then Inl OutOfBounds
       else
         let thisLabel = bel_dist st ! u + l
         in if \<not> (bel_dist st ! v > thisLabel \<and> bel_dist st ! u \<noteq> InfFloat \<and> bel_pred st ! u \<noteq> flip a) then Inr st
         else rbind (sp_Eligible S delta characteristic a) (\<lambda>e.
           if \<not> e then Inr st
           else Inr (st\<lparr>bel_dist := (bel_dist st)[v := thisLabel], bel_pred := (bel_pred st)[v := a], bel_Updates := True\<rparr>)))))"

definition bel_round :: "sparse \<Rightarrow> real \<Rightarrow> nat \<Rightarrow> real list option \<Rightarrow> bel_state \<Rightarrow> bel_state result" where
  "bel_round S delta characteristic potential st =
     rfold (bel_arc S delta characteristic potential) [0..<2 * sp_mAct S] (st\<lparr>bel_Updates := False\<rparr>)"

function bel_loop :: "sparse \<Rightarrow> real \<Rightarrow> nat \<Rightarrow> real list option \<Rightarrow> nat \<Rightarrow> bel_state \<Rightarrow> (nat \<times> bel_state) result" where
  "bel_loop S delta characteristic potential i st =
     (if bel_Updates st \<and> i < 2 * sp_nAct S
      then rbind (bel_round S delta characteristic potential st) (\<lambda>st1. bel_loop S delta characteristic potential (Suc i) st1)
      else Inr (i, st))"
  by pat_completeness auto
termination by (relation "measure (\<lambda>(S, delta, characteristic, potential, i, st). 2 * sp_nAct S - i)") auto

declare bel_loop.simps [simp del]

text \<open>The returned value, and the labels that the method leaves in the registers.\<close>

definition sp_BellmanFord :: "sparse \<Rightarrow> real \<Rightarrow> nat \<Rightarrow> real list option \<Rightarrow> nat \<Rightarrow> nat \<Rightarrow> (bool \<times> real list \<times> nat list) result" where
  "sp_BellmanFord S delta characteristic potential s t =
     (if s \<ge> sp_nAct S then Inl ERRange
      else if t \<ge> sp_nAct S \<and> t \<noteq> NoNode then Inl ERRange
      else rbind (bel_loop S delta characteristic potential 1
          \<lparr>bel_dist = (replicate (sp_nAct S) InfFloat)[s := 0], bel_pred = replicate (sp_nAct S) NoArc, bel_Updates = True\<rparr>)
        (\<lambda>(i, st).
          if i = 2 * sp_nAct S then Inl ERCheck
          else Inr (if t = NoNode then False else bel_dist st ! t \<noteq> InfFloat, bel_dist st, bel_pred st)))"

section \<open>Walks as lists of arcs\<close>

fun awalk :: "sparse \<Rightarrow> (nat \<Rightarrow> bool) \<Rightarrow> nat \<Rightarrow> nat list \<Rightarrow> nat \<Rightarrow> bool" where
  "awalk S el u [] v \<longleftrightarrow> u = v"
| "awalk S el u (a # as) v \<longleftrightarrow> a < 2 * sp_mAct S \<and> sp_SN S ! a = u \<and> el a \<and> awalk S el (sp_SN S ! flip a) as v"

abbreviation len :: "(nat \<Rightarrow> real) \<Rightarrow> nat list \<Rightarrow> real" where
  "len c as \<equiv> sum_list (map c as)"

lemma awalk_append: "awalk S el u (as @ bs) v \<longleftrightarrow> (\<exists>w. awalk S el u as w \<and> awalk S el w bs v)"
  by (induction as arbitrary: u) auto

lemma awalk_snoc:
  "awalk S el u (as @ [a]) v \<longleftrightarrow> awalk S el u as (sp_SN S ! a) \<and> a < 2 * sp_mAct S \<and> el a \<and> v = sp_SN S ! flip a"
  by (auto simp: awalk_append)

lemma awalk_wwalk: "awalk S el s as v \<Longrightarrow> wwalk S el c {s} (len c as) v"
proof (induction as arbitrary: v rule: rev_induct)
  case Nil
  then show ?case using wwalk_0 [of s "{s}"] by simp
next
  case (snoc a as)
  then show ?case using wwalk_Suc [of S el c "{s}" "len c as" "sp_SN S ! a" a] by (simp add: awalk_snoc)
qed

lemma wwalk_awalk: "wwalk S el c {s} W v \<Longrightarrow> \<exists>as. awalk S el s as v \<and> len c as = W"
proof (induction rule: wwalk.induct)
  case (wwalk_0 s')
  then show ?case by (intro exI [of _ "[]"]) simp
next
  case (wwalk_Suc W u a)
  then obtain as where "awalk S el s as u" "len c as = W" by blast
  then show ?case using wwalk_Suc.hyps by (intro exI [of _ "as @ [a]"]) (simp add: awalk_snoc)
qed

text \<open>There is no closed walk of negative length that can be reached from \<open>s\<close>.\<close>

definition no_negative_cycle :: "sparse \<Rightarrow> (nat \<Rightarrow> bool) \<Rightarrow> (nat \<Rightarrow> real) \<Rightarrow> nat \<Rightarrow> bool" where
  "no_negative_cycle S el c s \<longleftrightarrow> (\<forall>as bs u. awalk S el s as u \<and> awalk S el u bs u \<longrightarrow> 0 \<le> len c bs)"

lemma no_cancelled_walk: "no_cancelled S \<Longrightarrow> awalk S el u as v \<Longrightarrow> u < sp_nAct S \<Longrightarrow> v < sp_nAct S"
  by (induction as arbitrary: u) (auto simp: no_cancelled_def flip_lt)

text \<open>A walk with at least \<open>n\<close> arcs visits a node twice.\<close>

lemma awalk_take: "awalk S el u as v \<Longrightarrow> \<exists>w. awalk S el u (take i as) w \<and> awalk S el w (drop i as) v"
  by (metis append_take_drop_id awalk_append)

lemma awalk_unique: "awalk S el u as v \<Longrightarrow> awalk S el u as w \<Longrightarrow> v = w"
  by (induction as arbitrary: u) auto

lemma awalk_repeats:
  assumes live: "no_cancelled S" and w: "awalk S el u as v" "u < sp_nAct S" and long: "sp_nAct S \<le> length as"
  obtains xs ys zs x where "as = xs @ ys @ zs" "ys \<noteq> []" "awalk S el u xs x" "awalk S el x ys x" "awalk S el x zs v"
proof -
  obtain f where f: "\<And>i. awalk S el u (take i as) (f i) \<and> awalk S el (f i) (drop i as) v"
    using awalk_take [OF w(1)] by metis
  have "f ` {..length as} \<subseteq> {..<sp_nAct S}" using f no_cancelled_walk [OF live] w(2) by blast
  then have "card (f ` {..length as}) \<le> sp_nAct S" using card_mono [of "{..<sp_nAct S}"] by fastforce
  then have "\<not> inj_on f {..length as}" using long card_image [of f "{..length as}"] by auto
  then obtain i j where "i \<le> length as" "j \<le> length as" "i \<noteq> j" "f i = f j" by (auto simp: inj_on_def)
  then obtain i j where ij: "i < j" "j \<le> length as" "f i = f j" by (metis nat_neq_iff)
  have d: "as = take i as @ drop i (take j as) @ drop j as"
    using ij(1) by (metis append.assoc append_take_drop_id less_imp_le_nat take_drop min.absorb1 take_take)
  have "awalk S el (f i) (drop i (take j as)) (f j)"
    using f [of j] f [of i] ij(1)
  proof -
    have "take j as = take i as @ drop i (take j as)" using ij(1) by (metis append_take_drop_id min.absorb1 less_imp_le_nat take_take)
    then obtain y where y: "awalk S el u (take i as) y" "awalk S el y (drop i (take j as)) (f j)" using f [of j] awalk_append by metis
    moreover have "y = f i" using awalk_unique y(1) f [of i] by blast
    ultimately show ?thesis by simp
  qed
  then show thesis using that [OF d] f [of i] f [of j] ij by auto
qed

lemma awalk_shorten:
  assumes live: "no_cancelled S" and neg: "no_negative_cycle S el c s" and s: "s < sp_nAct S" and w: "awalk S el s as v"
  shows "\<exists>bs. awalk S el s bs v \<and> length bs < sp_nAct S \<and> len c bs \<le> len c as"
  using w
proof (induction as rule: length_induct)
  case (1 as)
  show ?case
  proof (cases "length as < sp_nAct S")
    case True
    then show ?thesis using 1(2) by blast
  next
    case False
    then obtain xs ys zs x where d: "as = xs @ ys @ zs" "ys \<noteq> []" "awalk S el s xs x" "awalk S el x ys x" "awalk S el x zs v"
      using awalk_repeats [OF live 1(2) s] by (metis not_less)
    then have "0 \<le> len c ys" using neg unfolding no_negative_cycle_def by blast
    moreover have "awalk S el s (xs @ zs) v" "length (xs @ zs) < length as" using d awalk_append by auto
    then obtain bs where "awalk S el s bs v" "length bs < sp_nAct S" "len c bs \<le> len c (xs @ zs)" using 1(1) by blast
    ultimately show ?thesis using d(1) by (intro exI [of _ bs]) simp
  qed
qed

section \<open>Invariant\<close>

definition bel_data :: "sparse \<Rightarrow> real \<Rightarrow> nat \<Rightarrow> real list option \<Rightarrow> real \<Rightarrow> bool" where
  "bel_data S delta ch pot B \<longleftrightarrow> no_cancelled S \<and> 0 \<le> B \<and> real (sp_nAct S) * B < InfFloat
     \<and> (case pot of None \<Rightarrow> True | Some p \<Rightarrow> length p = sp_nAct S)
     \<and> (\<forall>a < 2 * sp_mAct S. eligible S delta ch a \<longrightarrow> cost S ch pot a \<le> B
          \<and> (eligible S delta ch (flip a) \<longrightarrow> 0 \<le> cost S ch pot a + cost S ch pot (flip a)))"

definition bel_tree :: "sparse \<Rightarrow> (nat \<Rightarrow> bool) \<Rightarrow> (nat \<Rightarrow> real) \<Rightarrow> nat \<Rightarrow> real list \<Rightarrow> nat list \<Rightarrow> nat \<Rightarrow> bool" where
  "bel_tree S el c s D P v \<longleftrightarrow> (v = s \<and> P ! v = NoArc \<and> D ! v = 0)
     \<or> (let a = P ! v in a < 2 * sp_mAct S \<and> el a \<and> sp_SN S ! flip a = v \<and> sp_SN S ! a \<in> reached S D
          \<and> D ! (sp_SN S ! a) + c a \<le> D ! v)"

definition bel_inv :: "sparse \<Rightarrow> (nat \<Rightarrow> bool) \<Rightarrow> (nat \<Rightarrow> real) \<Rightarrow> nat \<Rightarrow> real \<Rightarrow> real list \<Rightarrow> nat list \<Rightarrow> bool" where
  "bel_inv S el c s B D P \<longleftrightarrow> length D = sp_nAct S \<and> length P = sp_nAct S \<and> s < sp_nAct S \<and> D ! s \<le> 0
     \<and> (\<forall>v < sp_nAct S. D ! v \<le> InfFloat)
     \<and> (\<forall>v \<in> reached S D. (\<exists>as. awalk S el s as v \<and> len c as = D ! v)
          \<and> D ! v + B \<le> real (card (reached S D)) * B \<and> bel_tree S el c s D P v)"

lemma bel_finite:
  assumes "bel_inv S el c s B D P" "u \<in> reached S D" "l \<le> B" "real (sp_nAct S) * B < InfFloat" "0 \<le> B"
  shows "D ! u + l < InfFloat"
proof -
  have "reached S D \<subseteq> {..<sp_nAct S}" by (auto simp: reached_def)
  then have "card (reached S D) \<le> sp_nAct S" using card_mono [of "{..<sp_nAct S}"] by fastforce
  then have "real (card (reached S D)) * B \<le> real (sp_nAct S) * B" using assms(5) by (simp add: mult_right_mono)
  moreover have "D ! u + B \<le> real (card (reached S D)) * B" using assms(1,2) by (simp add: bel_inv_def)
  ultimately show ?thesis using assms(3,4) by simp
qed

lemma bel_relax:
  assumes inv: "bel_inv S el c s B D P" and a: "a < 2 * sp_mAct S" "el a" "c a \<le> B" "0 \<le> B"
    and u: "sp_SN S ! a \<in> reached S D" and v: "sp_SN S ! flip a < sp_nAct S"
    and lt: "D ! (sp_SN S ! a) + c a < D ! (sp_SN S ! flip a)"
  defines "D' \<equiv> D[sp_SN S ! flip a := D ! (sp_SN S ! a) + c a]" and "P' \<equiv> P[sp_SN S ! flip a := a]"
  shows "bel_inv S el c s B D' P'" "\<forall>x < sp_nAct S. D' ! x \<le> D ! x" "D' ! (sp_SN S ! flip a) = D ! (sp_SN S ! a) + c a"
proof -
  let ?u = "sp_SN S ! a" and ?v = "sp_SN S ! flip a" and ?L = "reached S D" and ?L' = "reached S D'"
  note i = inv [unfolded bel_inv_def]
  have D': "D' ! x = (if x = ?v then D ! ?u + c a else D ! x)" if "x < sp_nAct S" for x
    using i that by (simp add: D'_def nth_list_update)
  show nv: "D' ! ?v = D ! ?u + c a" using D' v by simp
  have dInf: "D ! ?v \<le> InfFloat" using i v by simp
  have L': "?L' = insert ?v ?L" using D' v lt dInf by (auto simp: reached_def split: if_splits)
  show le: "\<forall>x < sp_nAct S. D' ! x \<le> D ! x" using D' lt by auto
  have fin: "finite ?L" by (rule finite_subset [of _ "{..<sp_nAct S}"]) (auto simp: reached_def)
  then have card: "real (card ?L) * B \<le> real (card ?L') * B" using a(4) L' by (simp add: mult_right_mono card_insert_le)
  have un: "?u < sp_nAct S" using u by (simp add: reached_def)
  have walk: "\<exists>as. awalk S el s as x \<and> len c as = D' ! x" if x: "x \<in> ?L'" for x
  proof (cases "x = ?v")
    case True
    obtain as where "awalk S el s as ?u" "len c as = D ! ?u" using i u by blast
    then show ?thesis using True nv a by (intro exI [of _ "as @ [a]"]) (simp add: awalk_snoc)
  next
    case False
    then show ?thesis using x i L' D' by (auto simp: reached_def)
  qed
  have bound: "D' ! x + B \<le> real (card ?L') * B" if x: "x \<in> ?L'" for x
  proof (cases "x = ?v")
    case False
    then have "D ! x + B \<le> real (card ?L) * B" "D' ! x = D ! x" using x i L' D' by (auto simp: reached_def)
    then show ?thesis using card by simp
  next
    case True
    have du: "D ! ?u + B \<le> real (card ?L) * B" using i u by blast
    show ?thesis
    proof (cases "?v \<in> ?L")
      case vL: True
      then have "D ! ?v + B \<le> real (card ?L) * B" using i by blast
      then show ?thesis using True nv lt card by simp
    next
      case False
      then have "card ?L' = Suc (card ?L)" using L' fin by simp
      then have "real (card ?L') * B = real (card ?L) * B + B" by (simp add: algebra_simps)
      then show ?thesis using True nv a(3) du by simp
    qed
  qed
  have tree: "bel_tree S el c s D' P' x" if x: "x \<in> ?L'" for x
  proof (cases "x = ?v")
    case True
    have "D' ! ?u \<le> D ! ?u" using le un by blast
    moreover have "P' ! ?v = a" using v i by (simp add: P'_def)
    ultimately show ?thesis using True nv a u L' by (simp add: bel_tree_def)
  next
    case False
    then have "x \<in> ?L" "P' ! x = P ! x" "D' ! x = D ! x" using x L' D' by (auto simp: P'_def reached_def)
    moreover have "bel_tree S el c s D P x" using i \<open>x \<in> ?L\<close> by blast
    moreover have "D' ! (sp_SN S ! b) + k \<le> y" if "sp_SN S ! b \<in> ?L" "D ! (sp_SN S ! b) + k \<le> y" for b k y
      using le that by (fastforce simp: reached_def)
    ultimately show ?thesis using L' by (auto simp: bel_tree_def Let_def)
  qed
  have "D' ! s \<le> 0" using le i by (meson order_trans)
  moreover have "\<forall>x < sp_nAct S. D' ! x \<le> InfFloat" using le i by (meson order_trans)
  moreover have "length D' = sp_nAct S" "length P' = sp_nAct S" using i by (simp_all add: D'_def P'_def)
  ultimately show "bel_inv S el c s B D' P'" using i walk bound tree by (simp add: bel_inv_def)
qed

definition bel_le :: "sparse \<Rightarrow> bel_state \<Rightarrow> bel_state \<Rightarrow> bool" where
  "bel_le S st' st \<longleftrightarrow> (\<forall>x < sp_nAct S. bel_dist st' ! x \<le> bel_dist st ! x)
     \<and> (st' = st \<or> bel_Updates st' \<and> (\<exists>x < sp_nAct S. bel_dist st' ! x < bel_dist st ! x))"

lemma bel_le_refl [simp]: "bel_le S st st"
  by (simp add: bel_le_def)

lemma bel_le_trans:
  assumes "bel_le S st2 st1" "bel_le S st1 st"
  shows "bel_le S st2 st"
proof (cases "st2 = st1 \<or> st1 = st")
  case True
  then show ?thesis using assms by auto
next
  case False
  have "\<forall>x < sp_nAct S. bel_dist st2 ! x \<le> bel_dist st ! x" using assms by (meson bel_le_def order_trans)
  moreover obtain x where "x < sp_nAct S" "bel_dist st2 ! x < bel_dist st1 ! x" "bel_Updates st2"
    using assms(1) False by (auto simp: bel_le_def)
  moreover have "bel_dist st1 ! x \<le> bel_dist st ! x" using assms(2) calculation(2) by (simp add: bel_le_def)
  ultimately show ?thesis unfolding bel_le_def by (meson less_le_trans)
qed

lemma bel_arc_ok:
  assumes shape: "sp_shape S" and data: "bel_data S delta ch pot B" and a: "a < 2 * sp_mAct S"
    and inv: "bel_inv S (eligible S delta ch) (cost S ch pot) s B (bel_dist st) (bel_pred st)"
  shows "\<exists>st'. bel_arc S delta ch pot a st = Inr st' \<and> bel_le S st' st
    \<and> bel_inv S (eligible S delta ch) (cost S ch pot) s B (bel_dist st') (bel_pred st')
    \<and> (eligible S delta ch a \<and> sp_SN S ! a \<in> reached S (bel_dist st) \<longrightarrow>
        bel_dist st' ! (sp_SN S ! flip a) \<le> bel_dist st ! (sp_SN S ! a) + cost S ch pot a)"
proof -
  let ?el = "eligible S delta ch" and ?c = "cost S ch pot" and ?D = "bel_dist st" and ?P = "bel_pred st"
  let ?u = "sp_SN S ! a" and ?v = "sp_SN S ! flip a"
  note d = data [unfolded bel_data_def] and i = inv [unfolded bel_inv_def]
  have u: "?u < sp_nAct S" and v: "?v < sp_nAct S" using d a by (auto simp: no_cancelled_def flip_lt)
  have cost: "dj_cost S ch pot a = Inr (?c a)" by (rule cost_Inr [OF a u v]) (use d in simp)
  have len: "length ?D = sp_nAct S" using i by simp
  have el: "sp_Eligible S delta ch a = Inr (?el a)" by (rule Eligible_Inr [OF a])
  have uL: "?u \<in> reached S ?D \<longleftrightarrow> ?D ! ?u \<noteq> InfFloat" using u by (simp add: reached_def)
  let ?go = "?D ! ?v > ?D ! ?u + ?c a \<and> ?D ! ?u \<noteq> InfFloat \<and> ?P ! ?u \<noteq> flip a \<and> ?el a"
  show ?thesis
  proof (cases ?go)
    case True
    have ca: "?c a \<le> B" "0 \<le> B" using d a True by auto
    let ?st = "st\<lparr>bel_dist := ?D[?v := ?D ! ?u + ?c a], bel_pred := ?P[?v := a], bel_Updates := True\<rparr>"
    have r: "bel_arc S delta ch pot a st = Inr ?st"
      using True cost el u v len a by (simp add: bel_arc_def sp_StartNode_def sp_EndNode_def Let_def)
    have uin: "?u \<in> reached S ?D" using True uL by blast
    have lt: "?D ! ?u + ?c a < ?D ! ?v" "?el a" using True by blast+
    note R = bel_relax [OF inv a lt(2) ca uin v lt(1)]
    have "bel_le S ?st st" using R(2,3) v lt(1) by (auto simp: bel_le_def intro!: exI [of _ ?v])
    then show ?thesis using r R(1,3) by (intro exI [of _ ?st]) simp
  next
    case False
    have r: "bel_arc S delta ch pot a st = Inr st"
      using False cost el u v len a by (auto simp: bel_arc_def sp_StartNode_def sp_EndNode_def Let_def)
    have "?D ! ?v \<le> ?D ! ?u + ?c a" if h: "?el a" "?u \<in> reached S ?D"
    proof (rule ccontr)
      assume n: "\<not> ?D ! ?v \<le> ?D ! ?u + ?c a"
      then have p: "?P ! ?u = flip a" using False h uL by auto
      have "bel_tree S ?el ?c s ?D ?P ?u" using i h(2) by blast
      moreover have "flip a \<noteq> NoArc" using shape_lt(1) [OF shape, of "flip a"] a by (auto simp: flip_lt)
      ultimately have "?el (flip a)" "?D ! ?v + ?c (flip a) \<le> ?D ! ?u" using p by (auto simp: bel_tree_def Let_def)
      moreover have "0 \<le> ?c a + ?c (flip a)" using d a h(1) calculation(1) by blast
      ultimately show False using n by simp
    qed
    then show ?thesis using r inv by (intro exI [of _ st]) simp
  qed
qed

section \<open>Rounds\<close>

lemma bel_scan_ok:
  assumes shape: "sp_shape S" and data: "bel_data S delta ch pot B" and as: "\<forall>a \<in> set as. a < 2 * sp_mAct S"
    and inv: "bel_inv S (eligible S delta ch) (cost S ch pot) s B (bel_dist st) (bel_pred st)"
  shows "\<exists>st'. rfold (bel_arc S delta ch pot) as st = Inr st' \<and> bel_le S st' st
    \<and> bel_inv S (eligible S delta ch) (cost S ch pot) s B (bel_dist st') (bel_pred st')
    \<and> (\<forall>a \<in> set as. eligible S delta ch a \<and> sp_SN S ! a \<in> reached S (bel_dist st) \<longrightarrow>
        bel_dist st' ! (sp_SN S ! flip a) \<le> bel_dist st ! (sp_SN S ! a) + cost S ch pot a)"
  using as inv
proof (induction as arbitrary: st)
  case Nil
  then show ?case by simp
next
  case (Cons b as)
  let ?el = "eligible S delta ch" and ?c = "cost S ch pot"
  have b: "b < 2 * sp_mAct S" "\<forall>a \<in> set as. a < 2 * sp_mAct S" using Cons.prems by auto
  have live: "sp_SN S ! a < sp_nAct S" "sp_SN S ! flip a < sp_nAct S" if "a < 2 * sp_mAct S" for a
    using that data by (auto simp: bel_data_def no_cancelled_def flip_lt)
  obtain st1 where st1: "bel_arc S delta ch pot b st = Inr st1" "bel_le S st1 st" "bel_inv S ?el ?c s B (bel_dist st1) (bel_pred st1)"
    "?el b \<and> sp_SN S ! b \<in> reached S (bel_dist st) \<longrightarrow> bel_dist st1 ! (sp_SN S ! flip b) \<le> bel_dist st ! (sp_SN S ! b) + ?c b"
    using bel_arc_ok [OF shape data b(1) Cons.prems(2)] by blast
  obtain st2 where st2: "rfold (bel_arc S delta ch pot) as st1 = Inr st2" "bel_le S st2 st1" "bel_inv S ?el ?c s B (bel_dist st2) (bel_pred st2)"
    "\<forall>a \<in> set as. ?el a \<and> sp_SN S ! a \<in> reached S (bel_dist st1) \<longrightarrow> bel_dist st2 ! (sp_SN S ! flip a) \<le> bel_dist st1 ! (sp_SN S ! a) + ?c a"
    using Cons.IH [OF b(2) st1(3)] by blast
  have "bel_dist st2 ! (sp_SN S ! flip a) \<le> bel_dist st ! (sp_SN S ! a) + ?c a"
    if h: "a \<in> set (b # as)" "?el a" "sp_SN S ! a \<in> reached S (bel_dist st)" for a
  proof (cases "a = b")
    case True
    have "bel_dist st2 ! (sp_SN S ! flip b) \<le> bel_dist st1 ! (sp_SN S ! flip b)" using st2(2) live b(1) by (simp add: bel_le_def)
    then show ?thesis using st1(4) h(2,3) unfolding True by (meson order_trans)
  next
    case False
    then have a: "a \<in> set as" "a < 2 * sp_mAct S" using h(1) b(2) by auto
    have le: "bel_dist st1 ! (sp_SN S ! a) \<le> bel_dist st ! (sp_SN S ! a)" using st1(2) live [OF a(2)] by (simp add: bel_le_def)
    have "bel_dist st ! (sp_SN S ! a) \<le> InfFloat" "bel_dist st ! (sp_SN S ! a) \<noteq> InfFloat"
      using Cons.prems(2) h(3) by (auto simp: bel_inv_def reached_def)
    then have "sp_SN S ! a \<in> reached S (bel_dist st1)" using le live(1) [OF a(2)] by (simp add: reached_def)
    then show ?thesis using st2(4) a(1) h(2) le by fastforce
  qed
  then show ?case using st1(1) st2(1,3) bel_le_trans [OF st2(2) st1(2)] by auto
qed

lemma bel_round_ok:
  assumes shape: "sp_shape S" and data: "bel_data S delta ch pot B"
    and inv: "bel_inv S (eligible S delta ch) (cost S ch pot) s B (bel_dist st) (bel_pred st)"
  obtains st' where "bel_round S delta ch pot st = Inr st'"
    "bel_inv S (eligible S delta ch) (cost S ch pot) s B (bel_dist st') (bel_pred st')"
    "\<And>x. x < sp_nAct S \<Longrightarrow> bel_dist st' ! x \<le> bel_dist st ! x"
    "\<not> bel_Updates st' \<Longrightarrow> bel_dist st' = bel_dist st"
    "bel_Updates st' \<Longrightarrow> \<exists>x < sp_nAct S. bel_dist st' ! x < bel_dist st ! x"
    "\<And>a. a < 2 * sp_mAct S \<Longrightarrow> eligible S delta ch a \<Longrightarrow> sp_SN S ! a \<in> reached S (bel_dist st) \<Longrightarrow>
      sp_SN S ! flip a \<in> reached S (bel_dist st')
      \<and> bel_dist st' ! (sp_SN S ! flip a) \<le> bel_dist st ! (sp_SN S ! a) + cost S ch pot a"
proof -
  let ?el = "eligible S delta ch" and ?c = "cost S ch pot" and ?st = "st\<lparr>bel_Updates := False\<rparr>"
  have inv': "bel_inv S ?el ?c s B (bel_dist ?st) (bel_pred ?st)" using inv by simp
  obtain st' where st': "bel_round S delta ch pot st = Inr st'" "bel_le S st' ?st" "bel_inv S ?el ?c s B (bel_dist st') (bel_pred st')"
    "\<And>a. a < 2 * sp_mAct S \<Longrightarrow> ?el a \<Longrightarrow> sp_SN S ! a \<in> reached S (bel_dist st) \<Longrightarrow>
      bel_dist st' ! (sp_SN S ! flip a) \<le> bel_dist st ! (sp_SN S ! a) + ?c a"
    using bel_scan_ok [OF shape data _ inv', of "[0..<2 * sp_mAct S]"] by (auto simp: bel_round_def)
  show thesis
  proof (rule that [OF st'(1,3)])
    fix a assume a: "a < 2 * sp_mAct S" "?el a" "sp_SN S ! a \<in> reached S (bel_dist st)"
    have "bel_dist st ! (sp_SN S ! a) + ?c a < InfFloat"
      by (rule bel_finite [OF inv a(3)]) (use data a in \<open>auto simp: bel_data_def\<close>)
    moreover have "sp_SN S ! flip a < sp_nAct S" using data a(1) by (auto simp: bel_data_def no_cancelled_def flip_lt)
    ultimately show "sp_SN S ! flip a \<in> reached S (bel_dist st')
      \<and> bel_dist st' ! (sp_SN S ! flip a) \<le> bel_dist st ! (sp_SN S ! a) + ?c a" using st'(4) [OF a] by (simp add: reached_def)
  qed (use st'(2) in \<open>auto simp: bel_le_def\<close>)
qed

section \<open>Levels\<close>

text \<open>The labels are not longer than the walks with less than \<open>i\<close> arcs.\<close>

definition bel_level :: "sparse \<Rightarrow> (nat \<Rightarrow> bool) \<Rightarrow> (nat \<Rightarrow> real) \<Rightarrow> nat \<Rightarrow> nat \<Rightarrow> real list \<Rightarrow> bool" where
  "bel_level S el c s i D \<longleftrightarrow> (\<forall>as v. awalk S el s as v \<and> length as < i \<longrightarrow> v \<in> reached S D \<and> D ! v \<le> len c as)"

definition bel_closed :: "sparse \<Rightarrow> (nat \<Rightarrow> bool) \<Rightarrow> (nat \<Rightarrow> real) \<Rightarrow> real list \<Rightarrow> bool" where
  "bel_closed S el c D \<longleftrightarrow> (\<forall>a < 2 * sp_mAct S. el a \<and> sp_SN S ! a \<in> reached S D \<longrightarrow>
     sp_SN S ! flip a \<in> reached S D \<and> D ! (sp_SN S ! flip a) \<le> D ! (sp_SN S ! a) + c a)"

lemma bel_closed_walk:
  "bel_closed S el c D \<Longrightarrow> awalk S el u as v \<Longrightarrow> u \<in> reached S D \<Longrightarrow> v \<in> reached S D \<and> D ! v \<le> D ! u + len c as"
proof (induction as arbitrary: u)
  case (Cons a as)
  then have "sp_SN S ! flip a \<in> reached S D" "D ! (sp_SN S ! flip a) \<le> D ! u + c a" by (auto simp: bel_closed_def)
  then show ?case using Cons by fastforce
qed simp

lemma bel_source: "bel_inv S el c s B D P \<Longrightarrow> s \<in> reached S D"
  by (auto simp: bel_inv_def reached_def InfFloat_def)

lemma bel_closed_no_cycle:
  assumes "bel_closed S el c D" "bel_inv S el c s B D P"
  shows "no_negative_cycle S el c s"
  unfolding no_negative_cycle_def
proof (intro allI impI, elim conjE)
  fix as bs u assume w: "awalk S el s as u" "awalk S el u bs u"
  have "u \<in> reached S D" using bel_closed_walk [OF assms(1) w(1)] bel_source [OF assms(2)] by blast
  then show "0 \<le> len c bs" using bel_closed_walk [OF assms(1) w(2)] by simp
qed

lemma bel_level_Suc:
  assumes level: "bel_level S el c s i D" and mono: "\<And>x. x < sp_nAct S \<Longrightarrow> D' ! x \<le> D ! x" and inf: "\<And>x. x < sp_nAct S \<Longrightarrow> D ! x \<le> InfFloat"
    and scan: "\<And>a. a < 2 * sp_mAct S \<Longrightarrow> el a \<Longrightarrow> sp_SN S ! a \<in> reached S D \<Longrightarrow>
      sp_SN S ! flip a \<in> reached S D' \<and> D' ! (sp_SN S ! flip a) \<le> D ! (sp_SN S ! a) + c a"
    and i: "0 < i"
  shows "bel_level S el c s (Suc i) D'"
  unfolding bel_level_def
proof (intro allI impI, elim conjE)
  fix as v assume w: "awalk S el s as v" "length as < Suc i"
  show "v \<in> reached S D' \<and> D' ! v \<le> len c as"
  proof (cases as rule: rev_cases)
    case Nil
    then have "length as < i" using i by simp
    then have "v \<in> reached S D" "D ! v \<le> len c as" using level w(1) unfolding bel_level_def by blast+
    moreover have "D' ! v \<le> D ! v" "D ! v \<le> InfFloat" "v < sp_nAct S" using calculation(1) mono inf by (auto simp: reached_def)
    ultimately show ?thesis by (simp add: reached_def)
  next
    case (snoc bs a)
    then have a: "awalk S el s bs (sp_SN S ! a)" "length bs < i" "a < 2 * sp_mAct S" "el a" "v = sp_SN S ! flip a" using w by (auto simp: awalk_snoc)
    then have u: "sp_SN S ! a \<in> reached S D" "D ! (sp_SN S ! a) \<le> len c bs" using level unfolding bel_level_def by blast+
    show ?thesis using scan [OF a(3,4) u(1)] u(2) a(5) snoc by simp
  qed
qed

lemma bel_loop_ok:
  assumes shape: "sp_shape S" and data: "bel_data S delta ch pot B"
    and inv: "bel_inv S (eligible S delta ch) (cost S ch pot) s B (bel_dist st) (bel_pred st)"
    and i: "i \<le> 2 * sp_nAct S" and closed: "\<not> bel_Updates st \<Longrightarrow> bel_closed S (eligible S delta ch) (cost S ch pot) (bel_dist st)"
  shows "\<exists>j st'. bel_loop S delta ch pot i st = Inr (j, st') \<and> j \<le> 2 * sp_nAct S
    \<and> bel_inv S (eligible S delta ch) (cost S ch pot) s B (bel_dist st') (bel_pred st')
    \<and> (j < 2 * sp_nAct S \<longrightarrow> bel_closed S (eligible S delta ch) (cost S ch pot) (bel_dist st'))"
  using inv i closed
proof (induction "2 * sp_nAct S - i" arbitrary: i st rule: less_induct)
  case less
  show ?case
  proof (cases "bel_Updates st \<and> i < 2 * sp_nAct S")
    case True
    then have dec: "2 * sp_nAct S - Suc i < 2 * sp_nAct S - i" by linarith
    show ?thesis
    proof (rule bel_round_ok [OF shape data less.prems(1)])
      fix st1 assume r: "bel_round S delta ch pot st = Inr st1"
        "bel_inv S (eligible S delta ch) (cost S ch pot) s B (bel_dist st1) (bel_pred st1)"
        "\<not> bel_Updates st1 \<Longrightarrow> bel_dist st1 = bel_dist st"
        "\<And>a. a < 2 * sp_mAct S \<Longrightarrow> eligible S delta ch a \<Longrightarrow> sp_SN S ! a \<in> reached S (bel_dist st) \<Longrightarrow>
          sp_SN S ! flip a \<in> reached S (bel_dist st1)
          \<and> bel_dist st1 ! (sp_SN S ! flip a) \<le> bel_dist st ! (sp_SN S ! a) + cost S ch pot a"
      have "bel_closed S (eligible S delta ch) (cost S ch pot) (bel_dist st1)" if "\<not> bel_Updates st1"
        using r(3) [OF that] r(4) by (simp add: bel_closed_def)
      then have "\<exists>j st'. bel_loop S delta ch pot (Suc i) st1 = Inr (j, st') \<and> j \<le> 2 * sp_nAct S
        \<and> bel_inv S (eligible S delta ch) (cost S ch pot) s B (bel_dist st') (bel_pred st')
        \<and> (j < 2 * sp_nAct S \<longrightarrow> bel_closed S (eligible S delta ch) (cost S ch pot) (bel_dist st'))"
        using less.hyps [OF dec r(2)] True by simp
      then show ?thesis using True r(1) by (simp add: bel_loop.simps [of S delta ch pot i])
    qed
  next
    case False
    then have "bel_loop S delta ch pot i st = Inr (i, st)" by (simp add: bel_loop.simps [of S delta ch pot i] del: de_Morgan_conj)
    then show ?thesis using False less.prems by auto
  qed
qed

lemma bel_loop_short:
  assumes shape: "sp_shape S" and data: "bel_data S delta ch pot B"
    and neg: "no_negative_cycle S (eligible S delta ch) (cost S ch pot) s"
    and inv: "bel_inv S (eligible S delta ch) (cost S ch pot) s B (bel_dist st) (bel_pred st)"
    and i: "0 < i" "i \<le> Suc (sp_nAct S)" "i = Suc (sp_nAct S) \<Longrightarrow> \<not> bel_Updates st"
    and level: "bel_level S (eligible S delta ch) (cost S ch pot) s i (bel_dist st)"
    and r: "bel_loop S delta ch pot i st = Inr (j, st')"
  shows "j \<le> Suc (sp_nAct S)"
  using inv i level r
proof (induction "2 * sp_nAct S - i" arbitrary: i st rule: less_induct)
  case less
  let ?el = "eligible S delta ch" and ?c = "cost S ch pot"
  show ?case
  proof (cases "bel_Updates st \<and> i < 2 * sp_nAct S")
    case True
    then have dec: "2 * sp_nAct S - Suc i < 2 * sp_nAct S - i" by linarith
    note lv = less.prems(5)
    show ?thesis
    proof (rule bel_round_ok [OF shape data less.prems(1)])
      fix st1 assume r: "bel_round S delta ch pot st = Inr st1" "bel_inv S ?el ?c s B (bel_dist st1) (bel_pred st1)"
        "\<And>x. x < sp_nAct S \<Longrightarrow> bel_dist st1 ! x \<le> bel_dist st ! x"
        "bel_Updates st1 \<Longrightarrow> \<exists>x < sp_nAct S. bel_dist st1 ! x < bel_dist st ! x"
        "\<And>a. a < 2 * sp_mAct S \<Longrightarrow> ?el a \<Longrightarrow> sp_SN S ! a \<in> reached S (bel_dist st) \<Longrightarrow>
          sp_SN S ! flip a \<in> reached S (bel_dist st1) \<and> bel_dist st1 ! (sp_SN S ! flip a) \<le> bel_dist st ! (sp_SN S ! a) + ?c a"
      have inf: "bel_dist st ! x \<le> InfFloat" if "x < sp_nAct S" for x using less.prems(1) that by (simp add: bel_inv_def)
      note level = bel_level_Suc [OF lv r(3) inf r(5) less.prems(2)]
      have last: "\<not> bel_Updates st1" if n: "Suc i = Suc (sp_nAct S)"
      proof
        assume "bel_Updates st1"
        then obtain x where x: "x < sp_nAct S" "bel_dist st1 ! x < bel_dist st ! x" using r(4) by blast
        then have "x \<in> reached S (bel_dist st1)" using inf [OF x(1)] by (simp add: reached_def)
        then obtain as where as: "awalk S ?el s as x" "len ?c as = bel_dist st1 ! x" using r(2) unfolding bel_inv_def by blast
        have s: "s < sp_nAct S" "no_cancelled S" using less.prems(1) data by (simp_all add: bel_inv_def bel_data_def)
        obtain bs where bs: "awalk S ?el s bs x" "length bs < sp_nAct S" "len ?c bs \<le> len ?c as"
          using awalk_shorten [OF s(2) neg s(1) as(1)] by blast
        then have "bel_dist st ! x \<le> len ?c bs" using lv n unfolding bel_level_def by simp
        then show False using x(2) as(2) bs(3) by simp
      qed
      have "bel_loop S delta ch pot (Suc i) st1 = Inr (j, st')"
        using less.prems(6) True r(1) by (simp add: bel_loop.simps [of S delta ch pot i])
      moreover have "Suc i \<le> Suc (sp_nAct S)" using less.prems(3,4) True by (cases "i = Suc (sp_nAct S)") auto
      ultimately show ?thesis using less.hyps [OF dec r(2)] level last by simp
    qed
  next
    case False
    then have "bel_loop S delta ch pot i st = Inr (i, st)" by (simp add: bel_loop.simps [of S delta ch pot i] del: de_Morgan_conj)
    then show ?thesis using less.prems by simp
  qed
qed

lemma bel_start:
  assumes data: "bel_data S delta ch pot B" and s: "s < sp_nAct S"
  shows "bel_inv S el c s B ((replicate (sp_nAct S) InfFloat)[s := 0]) (replicate (sp_nAct S) NoArc)"
    "bel_level S el c s 1 ((replicate (sp_nAct S) InfFloat)[s := 0])"
proof -
  let ?D = "(replicate (sp_nAct S) InfFloat)[s := 0]"
  have D: "?D ! v = (if v = s then 0 else InfFloat)" if "v < sp_nAct S" for v using that by (simp add: nth_list_update)
  have L: "reached S ?D = {s}" using D s by (auto simp: reached_def InfFloat_def split: if_splits)
  have "\<exists>as. awalk S el s as s \<and> len c as = 0" by (intro exI [of _ "[]"]) simp
  then show "bel_inv S el c s B ?D (replicate (sp_nAct S) NoArc)"
    unfolding bel_inv_def L using D s by (simp add: bel_tree_def InfFloat_def)
  show "bel_level S el c s 1 ?D" using L D s by (auto simp: bel_level_def)
qed

text \<open>When the labels are closed under the arcs they are the lengths of shortest walks.\<close>

lemma bel_closed_shortest:
  assumes inv: "bel_inv S el c s B D P" and closed: "bel_closed S el c D" and v: "v < sp_nAct S"
  shows "if D ! v = InfFloat then \<nexists>W. wwalk S el c {s} W v else shortest S el c {s} v (D ! v)"
proof -
  have walk: "v \<in> reached S D \<and> D ! v \<le> W" if w: "wwalk S el c {s} W v" for W
  proof -
    obtain as where as: "awalk S el s as v" "len c as = W" using wwalk_awalk [OF w] by blast
    have "D ! s \<le> 0" using inv by (simp add: bel_inv_def)
    then show ?thesis using bel_closed_walk [OF closed as(1) bel_source [OF inv]] as(2) by simp
  qed
  show ?thesis
  proof (cases "D ! v = InfFloat")
    case True
    then show ?thesis using walk by (auto simp: reached_def)
  next
    case False
    then have "v \<in> reached S D" using v by (simp add: reached_def)
    then obtain as where "awalk S el s as v" "len c as = D ! v" using inv unfolding bel_inv_def by blast
    then have "wwalk S el c {s} (D ! v) v" using awalk_wwalk [of S el s as v c] by simp
    then show ?thesis using False walk by (simp add: shortest_def)
  qed
qed

lemma bel_closed_tight:
  assumes "bel_inv S el c s B D P" "bel_closed S el c D" "v < sp_nAct S" "D ! v \<noteq> InfFloat" "\<not> (v = s \<and> D ! v = 0)"
  shows "el (P ! v) \<and> sp_EndNode S (P ! v) = Inr v \<and> D ! v = D ! (sp_SN S ! (P ! v)) + c (P ! v)"
proof -
  let ?a = "P ! v"
  have "v \<in> reached S D" using assms(3,4) by (simp add: reached_def)
  then have "bel_tree S el c s D P v" using assms(1) by (simp add: bel_inv_def)
  then have a: "?a < 2 * sp_mAct S" "el ?a" "sp_SN S ! flip ?a = v" "sp_SN S ! ?a \<in> reached S D" "D ! (sp_SN S ! ?a) + c ?a \<le> D ! v"
    using assms(5) by (auto simp: bel_tree_def Let_def)
  moreover have "D ! v \<le> D ! (sp_SN S ! ?a) + c ?a" using assms(2) a unfolding bel_closed_def by metis
  ultimately show ?thesis by (simp add: sp_EndNode_def)
qed

lemma sp_example_bel_data: "bel_data sp_example 0 0 None 5"
proof -
  have 2: "a < 2 \<longleftrightarrow> a = 0 \<or> a = (1::nat)" for a by auto
  show ?thesis using sp_example_cost sp_example_facts(2-5)
    by (auto simp: bel_data_def no_cancelled_def InfFloat_def 2 flip_def)
qed

text \<open>
  On a graph with one node the counter reaches the limit of iterations in any case, and the method
  reports a negative length cycle.
\<close>

lemma BellmanFord_one_node:
  assumes "sp_history S" and "bel_data S delta ch pot B" and "sp_nAct S = 1" and "t = 0 \<or> t = NoNode"
  shows "sp_BellmanFord S delta ch pot 0 t = Inl ERCheck"
proof -
  let ?st = "\<lparr>bel_dist = (replicate (sp_nAct S) InfFloat)[0 := 0], bel_pred = replicate (sp_nAct S) NoArc, bel_Updates = True\<rparr>"
  have shape: "sp_shape S" by (rule sp_inv_shape [OF sp_history_inv [OF assms(1)]])
  have "bel_inv S (eligible S delta ch) (cost S ch pot) 0 B (bel_dist ?st) (bel_pred ?st)"
    using bel_start(1) [OF assms(2), of 0] assms(3) by simp
  from bel_round_ok [OF shape assms(2) this] obtain st1 where "bel_round S delta ch pot ?st = Inr st1" by metis
  then have "bel_loop S delta ch pot 1 ?st = Inr (2, st1)" using assms(3) by (simp add: bel_loop.simps numeral_2_eq_2)
  then show ?thesis using assms(3,4) by (auto simp: sp_BellmanFord_def)
qed

section \<open>Properties\<close>



end
