(* ===== verification/Max_Flow.thy ===== *)
theory Max_Flow
  imports Breadth_First
begin

text \<open>
  Flows on directed graphs: \<open>Push\<close>, \<open>FindCap\<close> and \<open>Augment\<close> of
  \<^verbatim>\<open>lib_src/abstractDigraph.cpp\<close> and the shortest augmenting path method
  \<open>abstractDiGraph::MXF_EdmondsKarp\<close> of \<^verbatim>\<open>lib_src/solveMaxFlow.cpp\<close>. The flow is the subgraph
  labelling of the sparse representation; the method composes the breadth first search on the residual
  graph with the augmentation along its predecessor labels.
\<close>

section \<open>Augmentation\<close>

definition sp_Push :: "sparse \<Rightarrow> nat \<Rightarrow> real \<Rightarrow> sparse result" where
  "sp_Push S a lambda =
     (if a \<ge> 2 * sp_mAct S then Inl ERRange else sp_SetSubRelative S a (if odd a then - lambda else lambda))"

text \<open>The loops over the predecessor labels stop after \<open>n\<close> arcs; the counter is \<open>k\<close>.\<close>

function find_cap_loop :: "sparse \<Rightarrow> nat list \<Rightarrow> nat \<Rightarrow> nat \<Rightarrow> nat \<Rightarrow> real \<Rightarrow> real result" where
  "find_cap_loop S pred u w k lambda =
     (if w \<ge> length pred then Inl OutOfBounds
      else if k \<ge> sp_nAct S \<or> pred ! w = NoArc then Inl ERInternal
      else rbind (sp_ResCap S (pred ! w)) (\<lambda>r.
        let lambda1 = (if r < lambda then r else lambda)
        in rbind (sp_StartNode S (pred ! w)) (\<lambda>w1.
          if w1 = u then Inr lambda1 else find_cap_loop S pred u w1 (Suc k) lambda1)))"
  by pat_completeness auto
termination by (relation "measure (\<lambda>(S, pred, u, w, k, lambda). sp_nAct S - k)") auto

definition sp_FindCap :: "sparse \<Rightarrow> nat list \<Rightarrow> nat \<Rightarrow> nat \<Rightarrow> real result" where
  "sp_FindCap S pred u v =
     (if u \<ge> sp_nAct S then Inl ERRange
      else if v \<ge> sp_nAct S then Inl ERRange
      else find_cap_loop S pred u v 0 InfFloat)"

function augment_loop :: "nat \<Rightarrow> sparse \<Rightarrow> nat list \<Rightarrow> nat \<Rightarrow> nat \<Rightarrow> nat \<Rightarrow> real \<Rightarrow> (nat list \<times> sparse) result" where
  "augment_loop n S pred u w k lambda =
     (if w \<ge> length pred then Inl OutOfBounds
      else if k \<ge> n \<or> pred ! w = NoArc then Inl ERInternal
      else
        let a = pred ! w
        in rbind (sp_Push S a lambda) (\<lambda>S1.
           let pred1 = pred[w := NoArc]
           in rbind (sp_StartNode S1 a) (\<lambda>w1.
             if w1 = u then Inr (pred1, S1) else augment_loop n S1 pred1 u w1 (Suc k) lambda)))"
  by pat_completeness auto
termination by (relation "measure (\<lambda>(n, S, pred, u, w, k, lambda). n - k)") auto

definition sp_Augment :: "sparse \<Rightarrow> nat list \<Rightarrow> nat \<Rightarrow> nat \<Rightarrow> real \<Rightarrow> (nat list \<times> sparse) result" where
  "sp_Augment S pred u v lambda =
     (if u \<ge> sp_nAct S then Inl ERRange
      else if v \<ge> sp_nAct S then Inl ERRange
      else if lambda \<le> 0 then Inl ERRejected
      else augment_loop (sp_nAct S) S pred u v 0 lambda)"

declare find_cap_loop.simps [simp del] augment_loop.simps [simp del]

section \<open>The method\<close>

text \<open>The value of the initial flow: the loop over the arcs of the source.\<close>

partial_function (option) value_loop :: "sparse \<Rightarrow> nat \<Rightarrow> nat \<Rightarrow> real \<Rightarrow> real result option" where
  "value_loop S f a val =
     (case (if sp_Blocking S a then Inr val else rbind (sp_Sub S a) (\<lambda>x. Inr (val + x))) of
        Inl e \<Rightarrow> Some (Inl e)
      | Inr val1 \<Rightarrow>
          (case sp_Right S a of
             Inl e \<Rightarrow> Some (Inl e)
           | Inr b \<Rightarrow> if b = f then Some (Inr val1) else value_loop S f b val1))"

text \<open>
  \<open>running k\<close> is the answer of \<open>CT.SolverRunning()\<close> before the search number \<open>k\<close>; \<open>h k\<close> and \<open>junk k\<close> are
  the handle and the uninitialised entries of the queue that this search allocates.
\<close>

partial_function (option) mxf_loop ::
  "(nat \<Rightarrow> bool) \<Rightarrow> (nat \<Rightarrow> THandle) \<Rightarrow> (nat \<Rightarrow> nat) \<Rightarrow> real \<Rightarrow> nat \<Rightarrow> nat \<Rightarrow> nat \<Rightarrow> sparse \<Rightarrow> real \<Rightarrow> (real \<times> sparse) result option" where
  "mxf_loop running h junk delta s t k S val =
     (if \<not> running k then Some (Inr (val, S))
      else Option.bind (sp_BFS S delta SPX_RESIDUAL s t (h k) (junk k)) (\<lambda>r.
        case r of
          Inl e \<Rightarrow> Some (Inl e)
        | Inr (found, labels) \<Rightarrow>
            (if \<not> found then Some (Inr (val, S))
             else (case sp_FindCap S (snd labels) s t of
                Inl e \<Rightarrow> Some (Inl e)
              | Inr lambda \<Rightarrow>
                  if lambda = InfCap then Some (Inr (InfCap, S))
                  else (case sp_Augment S (snd labels) s t lambda of
                      Inl e \<Rightarrow> Some (Inl e)
                    | Inr p \<Rightarrow> mxf_loop running h junk delta s t (Suc k) (snd p) (val + lambda))))))"

definition sp_EdmondsKarp ::
  "(nat \<Rightarrow> bool) \<Rightarrow> (nat \<Rightarrow> THandle) \<Rightarrow> (nat \<Rightarrow> nat) \<Rightarrow> real \<Rightarrow> sparse \<Rightarrow> nat \<Rightarrow> nat \<Rightarrow> (real \<times> sparse) result option" where
  "sp_EdmondsKarp running h junk delta S s t =
     (case sp_First S s of
        Inl e \<Rightarrow> Some (Inl e)
      | Inr f \<Rightarrow>
          Option.bind (value_loop S f f 0) (\<lambda>r. case r of
            Inl e \<Rightarrow> Some (Inl e)
          | Inr val \<Rightarrow> mxf_loop running h junk delta s t 0 S val))"

section \<open>Flows\<close>

definition flow :: "sparse \<Rightarrow> nat \<Rightarrow> real" where
  "flow S e = (case sp_sub S of None \<Rightarrow> sp_LCap S (2 * e) | Some xs \<Rightarrow> xs ! e)"

text \<open>The net amount that leaves a node.\<close>

definition excess :: "sparse \<Rightarrow> (nat \<Rightarrow> real) \<Rightarrow> nat \<Rightarrow> real" where
  "excess S g v = (\<Sum>e < sp_mAct S. (if sp_SN S ! (2 * e) = v then g e else 0) - (if sp_SN S ! Suc (2 * e) = v then g e else 0))"

definition feasible :: "sparse \<Rightarrow> (nat \<Rightarrow> real) \<Rightarrow> bool" where
  "feasible S g \<longleftrightarrow> (\<forall>e < sp_mAct S. sp_LCap S (2 * e) \<le> g e \<and> g e \<le> sp_UCap S (2 * e))"

text \<open>A directed graph with finite capacities and a flow between the bounds.\<close>

definition network :: "sparse \<Rightarrow> bool" where
  "network S \<longleftrightarrow> feasible S (flow S)
     \<and> (\<forall>a < 2 * sp_mAct S. sp_Orientation S a \<noteq> 0 \<and> 0 \<le> sp_LCap S a \<and> sp_UCap S a < InfCap)"

definition residual :: "sparse \<Rightarrow> nat \<Rightarrow> real" where
  "residual S a = (if odd a then flow S (a div 2) - sp_LCap S a else sp_UCap S a - flow S (a div 2))"

lemma caps_even: "sp_LCap S (2 * (a div 2)) = sp_LCap S a" "sp_UCap S (2 * (a div 2)) = sp_UCap S a"
  by (simp_all add: sp_LCap_def sp_UCap_def)

lemma Sub_flow: "a < 2 * sp_mAct S \<Longrightarrow> sp_Sub S a = Inr (flow S (a div 2))"
  by (simp add: sp_Sub_def flow_def caps_even split: option.split)

lemma ResCap_residual: "network S \<Longrightarrow> a < 2 * sp_mAct S \<Longrightarrow> sp_ResCap S a = Inr (residual S a)"
  by (simp add: sp_ResCap_def Sub_flow residual_def network_def)

lemma flow_bounds:
  assumes "network S" "a < 2 * sp_mAct S"
  shows "sp_LCap S a \<le> flow S (a div 2)" "flow S (a div 2) \<le> sp_UCap S a" "0 \<le> sp_LCap S a" "sp_UCap S a < InfCap"
proof -
  have "a div 2 < sp_mAct S" using assms(2) by simp
  then show "sp_LCap S a \<le> flow S (a div 2)" "flow S (a div 2) \<le> sp_UCap S a"
    using assms(1) caps_even [of S a] by (auto simp: network_def feasible_def)
  show "0 \<le> sp_LCap S a" "sp_UCap S a < InfCap" using assms by (simp_all add: network_def)
qed

lemma eligible_residual: "network S \<Longrightarrow> a < 2 * sp_mAct S \<Longrightarrow> eligible S delta SPX_RESIDUAL a \<longleftrightarrow> residual S a > delta"
proof -
  assume net: "network S" and a: "a < 2 * sp_mAct S"
  have "sp_Orientation S (2 * (a div 2) + 1) = sp_Orientation S a" by (simp add: sp_Orientation_def)
  moreover have "sp_Orientation S a \<noteq> 0" using net a by (simp add: network_def)
  ultimately have "sp_Blocking S (2 * (a div 2) + 1)" by (simp add: sp_Blocking_def)
  then show ?thesis using ResCap_residual [OF net a] a
    by (simp add: eligible_def sp_Eligible_def spx_has_def SPX_RESIDUAL_def SPX_SUBGRAPH_def)
qed

lemma only_sub_Orientation: "only_sub S S' \<Longrightarrow> sp_Orientation S' = sp_Orientation S"
  using only_sub_simps(2) [of S S'] by (simp add: sp_Orientation_def fun_eq_iff)

lemma SetSubRelative_ok:
  assumes inv: "sp_inv S" and a: "a < 2 * sp_mAct S"
    and range: "sp_LCap S a \<le> flow S (a div 2) + x" "flow S (a div 2) + x \<le> sp_UCap S a" "0 \<le> sp_LCap S a"
  obtains S' where "sp_SetSubRelative S a x = Inr S'" "only_sub S S'" "sp_inv S'"
    "\<And>e. e < sp_mAct S \<Longrightarrow> flow S' e = (if e = a div 2 then flow S e + x else flow S e)"
proof (rule SetSubRelative_inv [OF inv a Sub_flow [OF a], of x])
  fix S' assume S': "sp_SetSubRelative S a x = Inr S'" "only_sub S S'" "sp_inv S'"
    "\<And>b. b < 2 * sp_mAct S \<Longrightarrow> sp_Sub S' b = (if b div 2 = a div 2 then Inr (flow S (a div 2) + x) else sp_Sub S b)"
  show thesis
  proof (rule that [OF S'(1-3)])
    show "flow S' e = (if e = a div 2 then flow S e + x else flow S e)" if "e < sp_mAct S" for e
      using S'(4) [of "2 * e"] Sub_flow [of "2 * e" S] Sub_flow [of "2 * e" S'] that only_sub_simps(7) [OF S'(2)] by (auto split: if_splits)
  qed
qed (use range in auto)

section \<open>Pushing along an arc\<close>

lemma excess_push:
  assumes a: "a < 2 * sp_mAct S"
    and g: "\<And>e. e < sp_mAct S \<Longrightarrow> g' e = (if e = a div 2 then g e + (if odd a then - x else x) else g e)"
  shows "excess S g' v = excess S g v + (if sp_SN S ! a = v then x else 0) - (if sp_SN S ! flip a = v then x else 0)"
proof -
  let ?m = "sp_mAct S" and ?e = "a div 2" and ?x = "if odd a then - x else x"
  let ?d = "\<lambda>e. (if sp_SN S ! (2 * e) = v then 1 else 0) - (if sp_SN S ! Suc (2 * e) = v then 1 else (0::real))"
  have ex: "excess S h v = (\<Sum>e < ?m. h e * ?d e)" for h
    unfolding excess_def by (rule sum.cong) auto
  have e: "?e < ?m" using a by simp
  have "(\<Sum>e < ?m. g' e * ?d e) = (\<Sum>e < ?m. g e * ?d e + (if e = ?e then ?x * ?d e else 0))"
    by (rule sum.cong) (auto simp: g distrib_right)
  also have "\<dots> = (\<Sum>e < ?m. g e * ?d e) + ?x * ?d ?e" using e by (simp add: sum.distrib sum.delta)
  finally have "excess S g' v = excess S g v + ?x * ?d ?e" by (simp only: ex)
  moreover have "?x * ?d ?e = (if sp_SN S ! a = v then x else 0) - (if sp_SN S ! flip a = v then x else 0)"
  proof (cases "odd a")
    case True
    then obtain k where "a = Suc (2 * k)" by (metis oddE Suc_eq_plus1)
    then show ?thesis by (simp add: flip_def)
  next
    case False
    then obtain k where "a = 2 * k" by blast
    then show ?thesis by simp
  qed
  ultimately show ?thesis by simp
qed

lemma network_only_sub:
  assumes "only_sub S S'" "network S" "feasible S (flow S')"
  shows "network S'"
  using assms only_sub_simps [OF assms(1)] only_sub_Orientation [OF assms(1)] by (simp add: network_def feasible_def)

lemma only_sub_SN:
  assumes "only_sub S S'" shows "sp_SN S' = sp_SN S"
proof -
  obtain x y where "S' = S\<lparr>sp_sub := x, sp_calls := y\<rparr>" using assms by (auto simp: only_sub_def)
  then show ?thesis by simp
qed

lemma excess_only_sub: "only_sub S S' \<Longrightarrow> excess S' = excess S"
  using only_sub_simps(7) [of S S'] only_sub_SN [of S S'] by (simp add: excess_def fun_eq_iff)

lemma feasible_only_sub: "only_sub S S' \<Longrightarrow> feasible S' = feasible S"
  using only_sub_simps [of S S'] by (simp add: feasible_def fun_eq_iff)

lemma Push_ok:
  assumes inv: "sp_inv S" and net: "network S" and a: "a < 2 * sp_mAct S" and x: "0 \<le> x" "x \<le> residual S a"
  obtains S' where "sp_Push S a x = Inr S'" "only_sub S S'" "sp_inv S'" "network S'"
    "\<And>e. e < sp_mAct S \<Longrightarrow> flow S' e = (if e = a div 2 then flow S e + (if odd a then - x else x) else flow S e)"
    "\<And>v. excess S (flow S') v = excess S (flow S) v + (if sp_SN S ! a = v then x else 0) - (if sp_SN S ! flip a = v then x else 0)"
proof -
  let ?x = "if odd a then - x else x"
  note f = flow_bounds [OF net a]
  have r: "sp_LCap S a \<le> flow S (a div 2) + ?x" "flow S (a div 2) + ?x \<le> sp_UCap S a" using x f by (auto simp: residual_def split: if_splits)
  show thesis
  proof (rule SetSubRelative_ok [OF inv a r f(3)])
    fix S' assume S': "sp_SetSubRelative S a ?x = Inr S'" "only_sub S S'" "sp_inv S'"
      "\<And>e. e < sp_mAct S \<Longrightarrow> flow S' e = (if e = a div 2 then flow S e + ?x else flow S e)"
    have "feasible S (flow S')" unfolding feasible_def
    proof (intro allI impI)
      fix b assume b: "b < sp_mAct S"
      show "sp_LCap S (2 * b) \<le> flow S' b \<and> flow S' b \<le> sp_UCap S (2 * b)"
        using S'(4) [OF b] net b r by (cases "b = a div 2") (auto simp: network_def feasible_def caps_even)
    qed
    then have "network S'" by (rule network_only_sub [OF S'(2) net])
    then show thesis using that [of S'] S' a excess_push [OF a S'(4)] by (simp add: sp_Push_def)
  qed
qed

section \<open>Paths of predecessor labels\<close>

text \<open>
  The arcs \<open>as\<close> from \<open>v\<close> back to \<open>s\<close> that the labels \<open>P\<close> define; along each arc the rank \<open>r\<close> grows by one.
\<close>

fun bpath :: "sparse \<Rightarrow> nat list \<Rightarrow> (nat \<Rightarrow> real) \<Rightarrow> nat \<Rightarrow> nat \<Rightarrow> nat list \<Rightarrow> bool" where
  "bpath S P r s v [] \<longleftrightarrow> v = s"
| "bpath S P r s v (a # as) \<longleftrightarrow> v \<noteq> s \<and> v < length P \<and> P ! v = a \<and> a < 2 * sp_mAct S \<and> a \<noteq> NoArc \<and> sp_SN S ! flip a = v
     \<and> r v = r (sp_SN S ! a) + 1 \<and> bpath S P r s (sp_SN S ! a) as"

lemma bpath_rank: "bpath S P r s v as \<Longrightarrow> b \<in> set as \<Longrightarrow> r (sp_SN S ! flip b) \<le> r v \<and> r (sp_SN S ! flip b) = r (sp_SN S ! b) + 1"
  by (induction as arbitrary: v) fastforce+

lemma bpath_mem: "bpath S P r s v as \<Longrightarrow> b \<in> set as \<Longrightarrow> b < 2 * sp_mAct S"
  by (induction as arbitrary: v) auto

lemma bpath_edges:
  assumes p: "bpath S P r s v (a # as)" and b: "b \<in> set as"
  shows "b div 2 \<noteq> a div 2" "sp_SN S ! flip b \<noteq> v"
proof -
  have ra: "r v = r (sp_SN S ! a) + 1" "sp_SN S ! flip a = v" "bpath S P r s (sp_SN S ! a) as" using p by auto
  have rb: "r (sp_SN S ! flip b) \<le> r (sp_SN S ! a)" "r (sp_SN S ! flip b) = r (sp_SN S ! b) + 1" using bpath_rank [OF ra(3) b] by auto
  show "sp_SN S ! flip b \<noteq> v" using ra rb by auto
  have "b = a \<or> b = flip a" if "b div 2 = a div 2"
    using that by (cases "even a"; cases "even b") (auto simp: flip_def elim!: evenE oddE)
  moreover have "b \<noteq> a" "b \<noteq> flip a" using ra rb by auto
  ultimately show "b div 2 \<noteq> a div 2" by blast
qed

lemma bpath_cong:
  assumes "sp_SN S' = sp_SN S" "sp_mAct S' = sp_mAct S" "length P' = length P"
    and "\<And>b. b \<in> set as \<Longrightarrow> P' ! (sp_SN S ! flip b) = P ! (sp_SN S ! flip b)"
  shows "bpath S P r s v as \<Longrightarrow> bpath S' P' r s v as"
  using assms(4) by (induction as arbitrary: v) (auto simp: assms(1-3))

lemma find_cap_ok:
  assumes net: "network S" and p: "bpath S P r s v as" "as \<noteq> []" and k: "k + length as \<le> sp_nAct S"
  shows "\<exists>x. find_cap_loop S P s v k y = Inr x \<and> x \<le> y \<and> (\<forall>a \<in> set as. x \<le> residual S a) \<and> (x = y \<or> x \<in> residual S ` set as)"
  using p k
proof (induction as arbitrary: v k y)
  case (Cons a as)
  let ?y = "if residual S a < y then residual S a else y"
  have a: "v < length P" "P ! v = a" "a < 2 * sp_mAct S" "a \<noteq> NoArc" "bpath S P r s (sp_SN S ! a) as" using Cons.prems(1) by auto
  have step: "find_cap_loop S P s v k y =
    (if sp_SN S ! a = s then Inr ?y else find_cap_loop S P s (sp_SN S ! a) (Suc k) ?y)"
    using a Cons.prems(3) ResCap_residual [OF net a(3)] by (subst find_cap_loop.simps) (simp add: sp_StartNode_def Let_def)
  show ?case
  proof (cases "as = []")
    case True
    then show ?thesis using a(5) step by auto
  next
    case False
    then have "sp_SN S ! a \<noteq> s" using a(5) by (cases as) auto
    moreover obtain x where "find_cap_loop S P s (sp_SN S ! a) (Suc k) ?y = Inr x" "x \<le> ?y" "\<forall>b \<in> set as. x \<le> residual S b"
      "x = ?y \<or> x \<in> residual S ` set as" using Cons.IH [OF a(5) False, of "Suc k" ?y] Cons.prems(3) by auto
    ultimately show ?thesis using step by (auto split: if_splits)
  qed
qed simp

lemma augment_ok:
  assumes "sp_inv S" "network S" "bpath S P r s v as" "as \<noteq> []" "k + length as \<le> n" "0 \<le> x" "\<forall>a \<in> set as. x \<le> residual S a"
  shows "\<exists>P' S'. augment_loop n S P s v k x = Inr (P', S') \<and> only_sub S S' \<and> sp_inv S' \<and> network S'
    \<and> (\<forall>e < sp_mAct S. flow S' e \<in> {flow S e, flow S e + x, flow S e - x} \<and> (e \<notin> (\<lambda>a. a div 2) ` set as \<longrightarrow> flow S' e = flow S e))
    \<and> (\<forall>w. excess S (flow S') w = excess S (flow S) w + (if w = s then x else 0) - (if w = v then x else 0))"
  using assms
proof (induction as arbitrary: v k S P)
  case (Cons a as)
  have a: "v < length P" "P ! v = a" "a < 2 * sp_mAct S" "a \<noteq> NoArc" "sp_SN S ! flip a = v" "bpath S P r s (sp_SN S ! a) as"
    using Cons.prems(3) by auto
  have xa: "x \<le> residual S a" using Cons.prems(7) by simp
  show ?case
  proof (rule Push_ok [OF Cons.prems(1,2) a(3) Cons.prems(6) xa])
    fix S1 assume S1: "sp_Push S a x = Inr S1" "only_sub S S1" "sp_inv S1" "network S1"
      "\<And>e. e < sp_mAct S \<Longrightarrow> flow S1 e = (if e = a div 2 then flow S e + (if odd a then - x else x) else flow S e)"
      "\<And>v. excess S (flow S1) v = excess S (flow S) v + (if sp_SN S ! a = v then x else 0) - (if sp_SN S ! flip a = v then x else 0)"
    let ?P = "P[v := NoArc]"
    have same: "sp_SN S1 = sp_SN S" "sp_mAct S1 = sp_mAct S" using only_sub_SN [OF S1(2)] only_sub_simps(7) [OF S1(2)] by simp_all
    have step: "augment_loop n S P s v k x =
      (if sp_SN S ! a = s then Inr (?P, S1) else augment_loop n S1 ?P s (sp_SN S ! a) (Suc k) x)"
      using a Cons.prems(5) S1(1) same by (subst augment_loop.simps) (simp add: sp_StartNode_def Let_def)
    show ?case
    proof (cases "as = []")
      case True
      then have "sp_SN S ! a = s" using a(6) by simp
      then show ?thesis using step S1 a(5) by (auto split: if_splits)
    next
      case False
      then have ne: "sp_SN S ! a \<noteq> s" using a(6) by (cases as) auto
      note edges = bpath_edges [OF Cons.prems(3)]
      have p1: "bpath S1 ?P r s (sp_SN S ! a) as"
        by (rule bpath_cong [OF same _ _ a(6)]) (simp, metis edges(2) nth_list_update_neq)
      have res: "\<forall>b \<in> set as. x \<le> residual S1 b"
      proof
        fix b assume b: "b \<in> set as"
        have "b < 2 * sp_mAct S" using bpath_mem [OF a(6) b] .
        then have "flow S1 (b div 2) = flow S (b div 2)" using S1(5) [of "b div 2"] edges(1) [OF b] by simp
        then have "residual S1 b = residual S b" using only_sub_simps(11,12) [OF S1(2)] by (simp add: residual_def)
        then show "x \<le> residual S1 b" using Cons.prems(7) b by simp
      qed
      obtain P' S' where S': "augment_loop n S1 ?P s (sp_SN S ! a) (Suc k) x = Inr (P', S')" "only_sub S1 S'" "sp_inv S'" "network S'"
        "\<forall>e < sp_mAct S1. flow S' e \<in> {flow S1 e, flow S1 e + x, flow S1 e - x} \<and> (e \<notin> (\<lambda>a. a div 2) ` set as \<longrightarrow> flow S' e = flow S1 e)"
        "\<forall>w. excess S1 (flow S') w = excess S1 (flow S1) w + (if w = s then x else 0) - (if w = sp_SN S ! a then x else 0)"
        using Cons.IH [OF S1(3,4) p1 False _ Cons.prems(6) res, of "Suc k"] Cons.prems(5) by auto
      have ex: "excess S (flow S') w = excess S (flow S) w + (if w = s then x else 0) - (if w = v then x else 0)" for w
        using S'(6) S1(6) [of w] a(5) excess_only_sub [OF S1(2)] by auto
      have "flow S' e \<in> {flow S e, flow S e + x, flow S e - x} \<and> (e \<notin> (\<lambda>a. a div 2) ` set (a # as) \<longrightarrow> flow S' e = flow S e)"
        if e: "e < sp_mAct S" for e
      proof (cases "e = a div 2")
        case True
        then have "e \<notin> (\<lambda>a. a div 2) ` set as" using edges(1) by blast
        then have "flow S' e = flow S1 e" using S'(5) e same by simp
        then show ?thesis using S1(5) [OF e] True by auto
      next
        case False
        then show ?thesis using S1(5) [OF e] S'(5) e same by auto
      qed
      then show ?thesis using step ne S'(1,3,4) only_sub_trans [OF S1(2) S'(2)] ex by auto
    qed
  qed
qed simp

lemma bfs_bpath:
  assumes shape: "sp_shape S" and frame: "bfs_frame S el s st" and v: "v \<in> labelled S st" "bf_dist st ! v = real k"
  shows "\<exists>as. bpath S (bf_pred st) (\<lambda>x. bf_dist st ! x) s v as \<and> length as = k \<and> (\<forall>a \<in> set as. el a)"
  using v
proof (induction k arbitrary: v)
  case 0
  have "v = s"
  proof (rule ccontr)
    assume "v \<noteq> s"
    then have t: "tree_arc S el st v" using frame 0(1) by (simp add: bfs_frame_def)
    then obtain j where "bf_dist st ! (sp_SN S ! (bf_pred st ! v)) = real j"
      using frame by (fastforce simp: tree_arc_def bfs_frame_def Let_def)
    then show False using t 0(2) by (simp add: tree_arc_def Let_def)
  qed
  then show ?case by (intro exI [of _ "[]"]) simp
next
  case (Suc k)
  have "v \<noteq> s" using frame Suc.prems(2) by (auto simp: bfs_frame_def)
  then have t: "tree_arc S el st v" using frame Suc.prems(1) by (simp add: bfs_frame_def)
  let ?a = "bf_pred st ! v"
  have a: "?a < 2 * sp_mAct S" "el ?a" "sp_SN S ! flip ?a = v" "sp_SN S ! ?a \<in> labelled S st" "bf_dist st ! v = bf_dist st ! (sp_SN S ! ?a) + 1"
    using t by (auto simp: tree_arc_def Let_def)
  then obtain as where "bpath S (bf_pred st) (\<lambda>x. bf_dist st ! x) s (sp_SN S ! ?a) as" "length as = k" "\<forall>a \<in> set as. el a"
    using Suc.IH [of "sp_SN S ! ?a"] Suc.prems(2) by auto
  moreover have "v < length (bf_pred st)" "?a \<noteq> NoArc"
    using frame Suc.prems(1) shape_lt(1) [OF shape a(1)] by (auto simp: bfs_frame_def labelled_def)
  ultimately show ?case using a \<open>v \<noteq> s\<close> by (intro exI [of _ "?a # as"]) simp
qed

section \<open>Cuts\<close>

text \<open>
  When no arc leaves the node set \<open>R\<close> in the residual graph, the flow has the largest possible excess at
  the source among the flows with the same excess at the inner nodes.
\<close>

lemma excess_cut:
  assumes "finite R"
  shows "(\<Sum>v \<in> R. excess S g v) = (\<Sum>e < sp_mAct S. g e * ((if sp_SN S ! (2 * e) \<in> R then 1 else 0) - (if sp_SN S ! Suc (2 * e) \<in> R then 1 else 0)))"
proof -
  have "(\<Sum>v \<in> R. excess S g v) = (\<Sum>e < sp_mAct S. \<Sum>v \<in> R. (if sp_SN S ! (2 * e) = v then g e else 0) - (if sp_SN S ! Suc (2 * e) = v then g e else 0))"
    unfolding excess_def by (rule sum.swap)
  also have "\<dots> = (\<Sum>e < sp_mAct S. g e * ((if sp_SN S ! (2 * e) \<in> R then 1 else 0) - (if sp_SN S ! Suc (2 * e) \<in> R then 1 else 0)))"
    by (rule sum.cong) (use assms in \<open>auto simp: sum_subtractf sum.delta\<close>)
  finally show ?thesis .
qed

lemma cut_maximum:
  assumes net: "network S" and R: "R \<subseteq> {..<sp_nAct S}" "s \<in> R" "t \<notin> R"
    and closed: "\<And>a. a < 2 * sp_mAct S \<Longrightarrow> sp_SN S ! a \<in> R \<Longrightarrow> sp_SN S ! flip a \<notin> R \<Longrightarrow> residual S a \<le> 0"
    and g: "feasible S g" "\<And>v. v < sp_nAct S \<Longrightarrow> v \<noteq> s \<Longrightarrow> v \<noteq> t \<Longrightarrow> excess S g v = excess S (flow S) v"
  shows "excess S g s \<le> excess S (flow S) s"
proof -
  let ?d = "\<lambda>e. (if sp_SN S ! (2 * e) \<in> R then 1 else 0) - (if sp_SN S ! Suc (2 * e) \<in> R then 1 else (0::real))"
  have fin: "finite R" by (rule finite_subset [OF R(1)]) simp
  have "g e * ?d e \<le> flow S e * ?d e" if e: "e < sp_mAct S" for e
  proof -
    have "sp_LCap S (2 * e) \<le> g e" "g e \<le> sp_UCap S (2 * e)" using g(1) e by (auto simp: feasible_def)
    moreover have "sp_UCap S (2 * e) \<le> flow S e" if "sp_SN S ! (2 * e) \<in> R" "sp_SN S ! Suc (2 * e) \<notin> R"
      using closed [of "2 * e"] that e by (simp add: residual_def)
    moreover have "flow S e \<le> sp_LCap S (2 * e)" if "sp_SN S ! (2 * e) \<notin> R" "sp_SN S ! Suc (2 * e) \<in> R"
    proof -
      have "flip (Suc (2 * e)) = 2 * e" by (simp add: flip_def)
      moreover have "sp_LCap S (Suc (2 * e)) = sp_LCap S (2 * e)" by (simp add: sp_LCap_def)
      ultimately show ?thesis using closed [of "Suc (2 * e)"] that e by (simp add: residual_def)
    qed
    ultimately show ?thesis by (cases "sp_SN S ! (2 * e) \<in> R"; cases "sp_SN S ! Suc (2 * e) \<in> R") auto
  qed
  then have "(\<Sum>v \<in> R. excess S g v) \<le> (\<Sum>v \<in> R. excess S (flow S) v)"
    unfolding excess_cut [OF fin] by (intro sum_mono) simp
  moreover have "(\<Sum>v \<in> R - {s}. excess S g v) = (\<Sum>v \<in> R - {s}. excess S (flow S) v)"
    by (rule sum.cong) (use g(2) R in auto)
  ultimately show ?thesis using fin R(2) by (simp add: sum.remove)
qed

section \<open>The loop\<close>

definition integral :: "sparse \<Rightarrow> bool" where
  "integral S \<longleftrightarrow> (\<forall>e < sp_mAct S. flow S e \<in> \<int> \<and> sp_LCap S (2 * e) \<in> \<int> \<and> sp_UCap S (2 * e) \<in> \<int>)"

lemma residual_integral: "integral S \<Longrightarrow> a < 2 * sp_mAct S \<Longrightarrow> residual S a \<in> \<int>"
  using caps_even [of S a] by (auto simp: residual_def integral_def dest!: spec [of _ "a div 2"])

lemma integral_ge_1: "x \<in> \<int> \<Longrightarrow> 0 < x \<Longrightarrow> (1::real) \<le> x"
  by (auto elim!: Ints_cases)

text \<open>The excess of the source is bounded by the sum of the capacities.\<close>

lemma excess_bound:
  assumes "network S"
  shows "excess S (flow S) v \<le> (\<Sum>e < sp_mAct S. sp_UCap S (2 * e))"
  unfolding excess_def
proof (rule sum_mono)
  fix e assume "e \<in> {..<sp_mAct S}"
  then have "0 \<le> sp_LCap S (2 * e)" "sp_LCap S (2 * e) \<le> flow S e" "flow S e \<le> sp_UCap S (2 * e)"
    using assms by (auto simp: network_def feasible_def)
  then show "(if sp_SN S ! (2 * e) = v then flow S e else 0) - (if sp_SN S ! Suc (2 * e) = v then flow S e else 0) \<le> sp_UCap S (2 * e)"
    by auto
qed

text \<open>One round: the search finds a path and the flow grows along it, or the flow is maximum.\<close>

lemma mxf_round:
  assumes inv: "sp_inv S" and net: "network S" and st: "s < sp_nAct S" "t < sp_nAct S" "s \<noteq> t"
  obtains (finish) D P where "sp_BFS S 0 SPX_RESIDUAL s t h junk = Some (Inr (False, D, P))"
      "\<And>g. feasible S g \<Longrightarrow> (\<And>v. v < sp_nAct S \<Longrightarrow> v \<noteq> s \<Longrightarrow> v \<noteq> t \<Longrightarrow> excess S g v = excess S (flow S) v) \<Longrightarrow>
         excess S g s \<le> excess S (flow S) s"
  | (found) D P x P' S' a where "sp_BFS S 0 SPX_RESIDUAL s t h junk = Some (Inr (True, D, P))" "sp_FindCap S P s t = Inr x"
      "0 < x" "x < InfCap" "a < 2 * sp_mAct S" "x = residual S a"
      "sp_Augment S P s t x = Inr (P', S')" "only_sub S S'" "sp_inv S'" "network S'"
      "\<And>e. e < sp_mAct S \<Longrightarrow> flow S' e \<in> {flow S e, flow S e + x, flow S e - x}"
      "\<And>w. excess S (flow S') w = excess S (flow S) w + (if w = s then x else 0) - (if w = t then x else 0)"
proof -
  let ?el = "eligible S 0 SPX_RESIDUAL"
  note shape = sp_inv_shape [OF inv]
  have tN: "t \<noteq> NoNode" using shape_lt(2) [OF shape st(2)] by simp
  obtain b where b: "sp_BFS S 0 SPX_RESIDUAL s t h junk = Some (Inr (bf_dist b ! t \<noteq> InfFloat, bf_dist b, bf_pred b))"
    "bfs_outer S ?el s t b" "sq_items (bf_Q b) = [] \<or> \<not> bf_searching b"
    using sp_BFS_ok [OF inv st(1), of t 0 SPX_RESIDUAL h junk] st(2) tN by auto
  have frame: "bfs_frame S ?el s b" and sL: "s \<in> labelled S b" using b(2) by (auto simp: bfs_outer_def bfs_frame_def)
  have L: "t \<in> labelled S b \<longleftrightarrow> bf_dist b ! t \<noteq> InfFloat" using st(2) by (simp add: labelled_def)
  have sub: "labelled S b \<subseteq> {..<sp_nAct S}" by (auto simp: labelled_def)
  show thesis
  proof (cases "t \<in> labelled S b")
    case False
    have cl: "residual S a \<le> 0" if a: "a < 2 * sp_mAct S" "sp_SN S ! a \<in> labelled S b" "sp_SN S ! flip a \<notin> labelled S b" for a
    proof (rule ccontr)
      assume "\<not> residual S a \<le> 0"
      then have el: "?el a" using eligible_residual [OF net a(1)] by simp
      obtain k where "hop S ?el s k (sp_SN S ! a)" using bfs_final(1) [OF inv b(2,3) a(2)] by blast
      then have "hop S ?el s (Suc k) (sp_SN S ! flip a)" using el by (intro hop_Suc [OF _ a(1) refl])
      then show False using bfs_final(2) [OF inv b(2,3) False] a(3) by blast
    qed
    show thesis
      by (rule finish [of "bf_dist b" "bf_pred b"])
         (use b(1) L False in simp, rule cut_maximum [OF net sub sL False cl], assumption+)
  next
    case True
    then obtain k where k: "k < card (labelled S b)" "bf_dist b ! t = real k" using frame by (auto simp: bfs_frame_def)
    have "card (labelled S b) \<le> sp_nAct S" using card_mono [OF _ sub] by simp
    obtain as where as: "bpath S (bf_pred b) (\<lambda>x. bf_dist b ! x) s t as" "length as = k" "\<forall>a \<in> set as. ?el a"
      using bfs_bpath [OF shape frame True k(2)] by blast
    have ne: "as \<noteq> []" using as(1) st(3) by auto
    have len: "0 + length as \<le> sp_nAct S" using as(2) k(1) \<open>card (labelled S b) \<le> sp_nAct S\<close> by simp
    have pos: "0 < residual S a" "residual S a < InfCap" "a < 2 * sp_mAct S" if "a \<in> set as" for a
    proof -
      show a: "a < 2 * sp_mAct S" by (rule bpath_mem [OF as(1) that])
      show "0 < residual S a" using eligible_residual [OF net a, of 0] as(3) that by simp
      show "residual S a < InfCap" using flow_bounds [OF net a] by (simp add: residual_def)
    qed
    obtain x where x: "find_cap_loop S (bf_pred b) s t 0 InfFloat = Inr x" "x \<le> InfFloat" "\<forall>a \<in> set as. x \<le> residual S a"
      "x = InfFloat \<or> x \<in> residual S ` set as"
      using find_cap_ok [OF net as(1) ne len] by blast
    have "x \<noteq> InfFloat"
    proof
      assume "x = InfFloat"
      moreover have "x \<le> residual S (hd as)" "residual S (hd as) < InfCap" using x(3) pos(2) ne by auto
      ultimately show False by (simp add: InfFloat_def InfCap_def)
    qed
    then obtain a where a: "a \<in> set as" "x = residual S a" using x(4) by blast
    have x0: "0 < x" "x < InfCap" "0 \<le> x" using pos a by force+
    obtain P' S' where S': "augment_loop (sp_nAct S) S (bf_pred b) s t 0 x = Inr (P', S')" "only_sub S S'" "sp_inv S'" "network S'"
      "\<forall>e < sp_mAct S. flow S' e \<in> {flow S e, flow S e + x, flow S e - x}"
      "\<forall>w. excess S (flow S') w = excess S (flow S) w + (if w = s then x else 0) - (if w = t then x else 0)"
      using augment_ok [OF inv net as(1) ne len x0(3) x(3)] by blast
    show thesis
      by (rule found [of "bf_dist b" "bf_pred b" x a P' S'])
         (use b(1) L True x(1) S' x0 st pos(3) [OF a(1)] a(2) in \<open>simp_all add: sp_FindCap_def sp_Augment_def\<close>)
  qed
qed

lemma mxf_loop_ok:
  assumes "sp_inv S" "network S" "integral S" and st: "s < sp_nAct S" "t < sp_nAct S" "s \<noteq> t"
  shows "\<exists>val' S'. mxf_loop (\<lambda>k. True) h junk 0 s t k S val = Some (Inr (val', S')) \<and> only_sub S S' \<and> sp_inv S' \<and> network S'
    \<and> (\<forall>v. v \<noteq> s \<and> v \<noteq> t \<longrightarrow> excess S (flow S') v = excess S (flow S) v)
    \<and> val' - val = excess S (flow S') s - excess S (flow S) s
    \<and> (\<forall>g. feasible S g \<and> (\<forall>v < sp_nAct S. v \<noteq> s \<and> v \<noteq> t \<longrightarrow> excess S g v = excess S (flow S) v) \<longrightarrow> excess S g s \<le> excess S (flow S') s)"
  using assms
proof (induction "nat \<lceil>(\<Sum>e < sp_mAct S. sp_UCap S (2 * e)) - excess S (flow S) s\<rceil>" arbitrary: S k val rule: less_induct)
  case less
  show ?case
  proof (rule mxf_round [OF less.prems(1,2,4-6)])
    fix D P assume fin: "sp_BFS S 0 SPX_RESIDUAL s t (h k) (junk k) = Some (Inr (False, D, P))"
      "\<And>g. feasible S g \<Longrightarrow> (\<And>v. v < sp_nAct S \<Longrightarrow> v \<noteq> s \<Longrightarrow> v \<noteq> t \<Longrightarrow> excess S g v = excess S (flow S) v) \<Longrightarrow>
        excess S g s \<le> excess S (flow S) s"
    have "mxf_loop (\<lambda>k. True) h junk 0 s t k S val = Some (Inr (val, S))" by (subst mxf_loop.simps) (simp add: fin(1))
    moreover have "only_sub S S" by (simp add: only_sub_def)
    ultimately show ?thesis using fin(2) less.prems(1,2) by auto
  next
    fix D P x P' S' a assume r: "sp_BFS S 0 SPX_RESIDUAL s t (h k) (junk k) = Some (Inr (True, D, P))" "sp_FindCap S P s t = Inr x"
      "0 < x" "x < InfCap" "a < 2 * sp_mAct S" "x = residual S a"
      "sp_Augment S P s t x = Inr (P', S')" "only_sub S S'" "sp_inv S'" "network S'"
      "\<And>e. e < sp_mAct S \<Longrightarrow> flow S' e \<in> {flow S e, flow S e + x, flow S e - x}"
      "\<And>w. excess S (flow S') w = excess S (flow S) w + (if w = s then x else 0) - (if w = t then x else 0)"
    have step: "mxf_loop (\<lambda>k. True) h junk 0 s t k S val = mxf_loop (\<lambda>k. True) h junk 0 s t (Suc k) S' (val + x)"
      using r(4) by (subst mxf_loop.simps) (simp add: r(1,2,7))
    note eq = only_sub_simps [OF r(8)] excess_only_sub [OF r(8)] feasible_only_sub [OF r(8)]
    have xZ: "x \<in> \<int>" using residual_integral [OF less.prems(3) r(5)] r(6) by simp
    have int: "integral S'"
      using less.prems(3) r(11) xZ eq(7,11,12) by (fastforce simp: integral_def)
    have "1 \<le> x" by (rule integral_ge_1 [OF xZ r(3)])
    moreover have "excess S (flow S') s = excess S (flow S) s + x" using r(12) less.prems(6) by simp
    moreover have "excess S (flow S') s \<le> (\<Sum>e < sp_mAct S. sp_UCap S (2 * e))"
      using excess_bound [OF r(10), of s] eq(7,11,13) by simp
    ultimately have "nat \<lceil>(\<Sum>e < sp_mAct S'. sp_UCap S' (2 * e)) - excess S' (flow S') s\<rceil>
      < nat \<lceil>(\<Sum>e < sp_mAct S. sp_UCap S (2 * e)) - excess S (flow S) s\<rceil>"
      using eq(7,11,13) by simp linarith
    from less.hyps [OF this r(9,10) int, of "Suc k" "val + x"] less.prems(4-6) eq(8)
    obtain val' S2 where S2: "mxf_loop (\<lambda>k. True) h junk 0 s t (Suc k) S' (val + x) = Some (Inr (val', S2))" "only_sub S' S2" "sp_inv S2" "network S2"
      "\<forall>v. v \<noteq> s \<and> v \<noteq> t \<longrightarrow> excess S' (flow S2) v = excess S' (flow S') v"
      "val' - (val + x) = excess S' (flow S2) s - excess S' (flow S') s"
      "\<forall>g. feasible S' g \<and> (\<forall>v < sp_nAct S'. v \<noteq> s \<and> v \<noteq> t \<longrightarrow> excess S' g v = excess S' (flow S') v) \<longrightarrow> excess S' g s \<le> excess S' (flow S2) s"
      by auto
    have ex: "excess S (flow S') v = excess S (flow S) v" if "v \<noteq> s" "v \<noteq> t" for v using r(12) that by simp
    have "val' - val = excess S (flow S2) s - excess S (flow S) s" using S2(6) r(12) [of s] less.prems(6) eq(13) by simp
    moreover have "\<forall>v. v \<noteq> s \<and> v \<noteq> t \<longrightarrow> excess S (flow S2) v = excess S (flow S) v" using S2(5) ex eq(13) by simp
    moreover have "\<forall>g. feasible S g \<and> (\<forall>v < sp_nAct S. v \<noteq> s \<and> v \<noteq> t \<longrightarrow> excess S g v = excess S (flow S) v) \<longrightarrow> excess S g s \<le> excess S (flow S2) s"
      using S2(7) ex eq(8,13,14) by simp
    ultimately show ?thesis unfolding step using S2(1,3,4) only_sub_trans [OF r(8) S2(2)] by blast
  qed
qed

section \<open>The initial value\<close>

lemma value_loop_chain:
  assumes net: "network S" and "a < 2 * sp_mAct S" "\<forall>b \<in> set as. b < 2 * sp_mAct S" "chain ((!) (sp_right S)) (sp_right S ! a) as f" "f \<notin> set as"
  shows "value_loop S f a val = Some (Inr (val + (\<Sum>b \<leftarrow> a # as. if odd b then 0 else flow S (b div 2))))"
  using assms(2-5)
proof (induction as arbitrary: a val)
  have blk: "sp_Blocking S b = odd b" if "b < 2 * sp_mAct S" for b using net that by (simp add: sp_Blocking_def network_def)
  {
    case Nil
    then show ?case using blk [of a] by (subst value_loop.simps) (simp add: sp_Right_def Sub_flow)
  next
    case (Cons b as)
    have b: "sp_right S ! a = b" "b \<noteq> f" using Cons.prems(3,4) by auto
    have IH: "value_loop S f b v = Some (Inr (v + (\<Sum>b \<leftarrow> b # as. if odd b then 0 else flow S (b div 2))))" for v
      using Cons.IH [of b v] Cons.prems by simp
    show ?case using b blk [of a] Cons.prems(1) IH by (subst value_loop.simps) (simp add: sp_Right_def Sub_flow)
  }
qed

lemma value_loop_ok:
  assumes ok: "rings_ok S {}" and net: "network S" and s: "s < sp_nAct S" "sp_first S ! s \<noteq> NoArc"
  shows "value_loop S (sp_first S ! s) (sp_first S ! s) 0 = Some (Inr (\<Sum>e < sp_mAct S. if sp_SN S ! (2 * e) = s then flow S e else 0))"
  using ok s(1)
proof (cases rule: rings_node)
  case none
  then show ?thesis using s(2) by simp
next
  case (ring bs)
  let ?f = "sp_first S ! s" and ?w = "\<lambda>b. if odd b then 0 else flow S (b div 2)"
  have set: "set (?f # bs) = {a. a < 2 * sp_mAct S \<and> sp_SN S ! a = s}" using ring(3) by (auto simp: arcs_at_def)
  have mem: "b < 2 * sp_mAct S" if "b \<in> set (?f # bs)" for b using that unfolding set by simp
  have dist: "distinct (?f # bs)" and ch: "chain ((!) (sp_right S)) (sp_right S ! ?f) bs ?f" using ring(2) by (auto simp: ring_Cons)
  have "value_loop S ?f ?f 0 = Some (Inr (\<Sum>b \<leftarrow> ?f # bs. ?w b))"
    using value_loop_chain [OF net _ _ ch, of 0] mem dist by simp
  also have "(\<Sum>b \<leftarrow> ?f # bs. ?w b) = (\<Sum>b \<in> set (?f # bs). ?w b)" by (rule sum_list_distinct_conv_sum_set [OF dist])
  also have "\<dots> = (\<Sum>b \<in> (\<lambda>e. 2 * e) ` {e. e < sp_mAct S \<and> sp_SN S ! (2 * e) = s}. ?w b)"
  proof (rule sum.mono_neutral_right)
    show "(\<lambda>e. 2 * e) ` {e. e < sp_mAct S \<and> sp_SN S ! (2 * e) = s} \<subseteq> set (?f # bs)" unfolding set by auto
    show "\<forall>i \<in> set (?f # bs) - (\<lambda>e. 2 * e) ` {e. e < sp_mAct S \<and> sp_SN S ! (2 * e) = s}. ?w i = 0" unfolding set by (auto elim!: evenE)
  qed simp
  also have "\<dots> = (\<Sum>e \<in> {e. e < sp_mAct S \<and> sp_SN S ! (2 * e) = s}. flow S e)"
    by (subst sum.reindex) (auto simp: inj_on_def)
  also have "\<dots> = (\<Sum>e < sp_mAct S. if sp_SN S ! (2 * e) = s then flow S e else 0)"
    by (simp add: sum.If_cases lessThan_def Collect_conj_eq)
  finally show ?thesis .
qed

section \<open>Directed graphs\<close>

text \<open>The representation of a new \<open>diGraph\<close> of \<^verbatim>\<open>lib_src/sparseDigraph.cpp\<close>.\<close>

definition diGraph_new :: "nat \<Rightarrow> nat \<Rightarrow> nat \<Rightarrow> sparse result" where
  "diGraph_new mxNode mxArc n =
     rbind (sp_SetCDemand (sparseRepresentation mxNode mxArc n) 0) (\<lambda>S. sp_SetCOrientation S 1)"

lemma diGraph_new_ok:
  assumes "n \<le> NoNode" "2 \<le> mxArc" "mxArc \<le> NoArc" "mxNode \<le> NoNode"
  obtains S where "diGraph_new mxNode mxArc n = Inr S" "sp_history S" "sp_nAct S = n" "sp_mAct S = 0" "sp_mMax S = 0"
    "sp_maxArc S = mxArc" "\<not> sp_referenced S" "\<And>a. sp_Orientation S a = 1" "\<And>a. sp_LCap S a = 0" "\<And>a. sp_UCap S a = 1"
proof -
  let ?S = "sparseRepresentation mxNode mxArc n"
  have h0: "sp_history ?S" by (rule sp_history.new [OF assms])
  have "TokReprDemand \<in> repr_tokens" by (simp add: repr_tokens_def)
  from set_constant_ok [OF inv_pools [OF sp_history_inv [OF h0]] this] obtain S1 where
    S1: "set_constant ?S TokReprDemand 0 0 = Inr S1" "only_repr ?S S1"
      "\<And>s k w. s \<in> repr_tokens \<Longrightarrow> s \<noteq> TokReprDemand \<Longrightarrow>
         attributePool_GetValue (sp_representation S1) s k w = attributePool_GetValue (sp_representation ?S) s k w" by metis
  have h1: "sp_history S1" by (rule sp_history.step [OF h0, of "Op_SetCDemand 0"]) (use S1(1) in \<open>simp_all add: sp_SetCDemand_def\<close>)
  from set_constant_ok [OF inv_pools [OF sp_history_inv [OF h1]] repr_tokens_mem(4)] obtain S2 where
    S2: "set_constant S1 TokReprOrientation 0 1 = Inr S2" "only_repr S1 S2"
      "\<And>k. attributePool_GetValue (sp_representation S2) TokReprOrientation k 0 = 1"
      "\<And>s k w. s \<in> repr_tokens \<Longrightarrow> s \<noteq> TokReprOrientation \<Longrightarrow>
         attributePool_GetValue (sp_representation S2) s k w = attributePool_GetValue (sp_representation S1) s k w" by metis
  have h2: "sp_history S2" by (rule sp_history.step [OF h1, of "Op_SetCOrientation 1"]) (use S2(1) in \<open>simp_all add: sp_SetCOrientation_def\<close>)
  note c1 = only_repr_caps [OF S1(2,3)] only_repr_simps [OF S1(2)] and c2 = only_repr_caps [OF S2(2,4)] only_repr_simps [OF S2(2)]
  have new: "sp_UCap ?S a = 1" "sp_LCap ?S a = 0" for a
    by (simp_all add: sparseRepresentation_def sp_UCap_def sp_LCap_def attributePool_GetValue_def attributePool_FindAttribute_def attributePool_new_def)
  have tok: "TokReprDemand \<noteq> TokReprUCap" "TokReprDemand \<noteq> TokReprLCap" "TokReprOrientation \<noteq> TokReprUCap" "TokReprOrientation \<noteq> TokReprLCap"
    by (simp_all add: token_defs)
  have "sp_mMax S2 = 0" using c1(5) c2(5) by (simp add: same_inc_def sparseRepresentation_def)
  then show thesis
    using that [of S2] S1(1) S2(1,3) h2 c1(1,2,9-) c2(1,2,9-) tok new
    by (simp add: diGraph_new_def sp_SetCDemand_def sp_SetCOrientation_def sp_Orientation_def sparseRepresentation_def)
qed

text \<open>A directed graph with two nodes and one arc of capacity 2.\<close>

definition dg_example :: sparse where
  "dg_example = (case rbind (diGraph_new 10 10 2) (\<lambda>S. sp_InsertArc S 0 1 2 5 0) of
     Inr (a, S) \<Rightarrow> S | Inl e \<Rightarrow> sparseRepresentation 10 10 2)"

lemma dg_example_facts:
  "sp_history dg_example" "sp_nAct dg_example = 2" "sp_mAct dg_example = 1" "sp_SN dg_example ! 0 = 0" "sp_SN dg_example ! 1 = 1"
  "network dg_example" "integral dg_example" "flow dg_example 0 = 0" "sp_UCap dg_example 0 = 2" "sp_LCap dg_example 0 = 0"
proof -
  have n: "2 \<le> NoNode" "2 \<le> (10::nat)" "10 \<le> NoArc" "10 \<le> NoNode" by (simp_all add: NoNode_def NoArc_def)
  obtain S where S: "diGraph_new 10 10 2 = Inr S" "sp_history S" "sp_nAct S = 2" "sp_mAct S = 0" "sp_mMax S = 0"
    "sp_maxArc S = 10" "\<not> sp_referenced S" "\<And>a. sp_Orientation S a = 1" "\<And>a. sp_LCap S a = 0"
    using diGraph_new_ok [OF n] by metis
  have g: "sp_guard (Op_InsertArc 0 1 2 5 0) S" using S by simp
  obtain S' where S': "sp_InsertArc S 0 1 2 5 0 = Inr (0, S')" "sp_nAct S' = 2" "sp_mAct S' = 1" "sp_SN S' ! 0 = 0" "sp_SN S' ! 1 = 1"
    "\<And>b. b < 2 \<Longrightarrow> sp_UCap S' b = 2" "\<And>b. b < 2 \<Longrightarrow> sp_LCap S' b = 0" "\<And>b. b < 2 \<Longrightarrow> sp_Sub S' b = Inr 0" "\<And>b. sp_Orientation S' b = 1"
  proof (rule InsertArc_exec [OF sp_history_inv [OF S(2)] g])
    fix S' assume I: "sp_InsertArc S 0 1 2 5 0 = Inr (sp_mAct S, S')" "sp_nAct S' = sp_nAct S" "sp_mAct S' = sp_mAct S + 1"
      "sp_SN S' ! (2 * sp_mAct S) = 0" "sp_SN S' ! Suc (2 * sp_mAct S) = 1"
      "\<And>b. sp_UCap S' b = (if b div 2 = sp_mAct S then 2 else sp_UCap S b)"
      "\<And>b. sp_LCap S' b = (if b div 2 = sp_mAct S then 0 else sp_LCap S b)"
      "\<And>b. b < 2 * sp_mAct S' \<Longrightarrow> sp_Sub S' b = (if b div 2 = sp_mAct S then Inr 0 else sp_Sub S b)"
      "\<And>b. sp_Orientation S' b = sp_Orientation S b"
    have "b div 2 = 0" if "b < 2" for b :: nat using that by simp
    then show thesis using that [of S'] I(1-5) I(6-8) I(9) S(3,4,8) by simp
  qed
  have h: "sp_history S'" by (rule sp_history.step [OF S(2) g]) (simp only: sp_exec.simps S'(1) rbind_simps prod.case)
  have eq: "dg_example = S'" by (simp only: dg_example_def S(1) S'(1) rbind_simps sum.case prod.case)
  have fl: "flow S' 0 = 0" using Sub_flow [of 0 S'] S'(3,8) by simp
  have "feasible S' (flow S')" using S'(3,6,7) fl by (simp add: feasible_def)
  then have "network S'" using S'(3,6,7,9) by (auto simp: network_def InfCap_def)
  moreover have "integral S'" using S'(3,6,7) fl by (simp add: integral_def)
  ultimately show "sp_history dg_example" "sp_nAct dg_example = 2" "sp_mAct dg_example = 1" "sp_SN dg_example ! 0 = 0" "sp_SN dg_example ! 1 = 1"
    "network dg_example" "integral dg_example" "flow dg_example 0 = 0" "sp_UCap dg_example 0 = 2" "sp_LCap dg_example 0 = 0"
    using h S' fl by (simp_all add: eq)
qed

lemma dg_example_first: "sp_first dg_example ! 0 \<noteq> NoArc"
proof -
  note f = dg_example_facts
  have n: "0 < sp_nAct dg_example" by (simp add: f(2))
  have at: "0 \<in> arcs_at dg_example {} 0" using f(3,4) by (simp add: arcs_at_def)
  show ?thesis using sp_inv_rings [OF sp_history_inv [OF f(1)]] n by (cases rule: rings_node) (use at in auto)
qed

section \<open>Properties\<close>



end
