(* ===== verification/Min_Tree.thy ===== *)
theory Min_Tree
  imports Shortest_Paths Disjoint_Family Fibonacci_Heap
begin

text \<open>
  Kruskal's method \<open>abstractMixedGraph::MST_Kruskal\<close> of \<^verbatim>\<open>lib_src/solveMinTree.cpp\<close>: minimum and
  maximum spanning trees and one cycle trees. It composes a priority queue of the edges, the
  disjoint set family of the nodes and the subgraph labelling of the representation.
\<close>

section \<open>The method\<close>

definition MST_ONE_CYCLE :: nat where "MST_ONE_CYCLE = 1"
definition MST_REDUCED :: nat where "MST_REDUCED = 8"
definition MST_MAX :: nat where "MST_MAX = 16"

definition MST_Length :: "sparse \<Rightarrow> nat \<Rightarrow> real list option \<Rightarrow> nat \<Rightarrow> real result" where
  "MST_Length S characteristic potential a =
     (if spx_has characteristic MST_REDUCED then sp_RedLength S potential a else sp_Length S a)"

record kr_state =
  kr_S :: sparse
  kr_D :: disjoint_family
  kr_sum :: real
  kr_rank :: nat
  kr_stop :: bool \<comment> \<open>a fixed subtour has been found\<close>

text \<open>The forwarding methods of the graph object; \<open>lw\<close> and \<open>c\<close> are the controller options of the set family.\<close>

definition G_Find :: "bool \<Rightarrow> bool \<Rightarrow> nat \<Rightarrow> disjoint_family \<Rightarrow> nat \<Rightarrow> (nat \<times> disjoint_family) result option" where
  "G_Find lw c n D v = (if v \<ge> n then Some (Inl ERRange) else disjointFamily_Find lw c D v)"

definition G_Merge :: "bool \<Rightarrow> bool \<Rightarrow> nat \<Rightarrow> disjoint_family \<Rightarrow> nat \<Rightarrow> nat \<Rightarrow> disjoint_family result option" where
  "G_Merge lw c n D u v =
     (if u \<ge> n then Some (Inl ERRange) else if v \<ge> n then Some (Inl ERRange) else disjointFamily_Merge lw c D u v)"

definition G_Bud :: "bool \<Rightarrow> nat \<Rightarrow> nat \<Rightarrow> disjoint_family \<Rightarrow> disjoint_family result" where
  "G_Bud lw n v D = (if v \<ge> n then Inl ERRange else disjointFamily_Bud lw D v)"

definition sp_InitSubgraph :: "sparse \<Rightarrow> sparse result" where
  "sp_InitSubgraph S =
     rfold (\<lambda>e S. sp_SetSub S (2 * e) (sp_LCap S (2 * e))) [0..<sp_mAct S] (call C_ReleaseDegrees S)"

text \<open>The test of the lower bounds caches the extreme values of the attribute.\<close>

definition sp_lower_bounds :: "sparse \<Rightarrow> bool \<times> sparse" where
  "sp_lower_bounds S =
     (let (cst, P) = attributePool_IsConstant (sp_representation S) TokReprLCap;
          S = S\<lparr>sp_representation := P\<rparr>
      in if \<not> cst then (True, S)
         else let (mx, P) = attributePool_MaxValue (sp_representation S) TokReprLCap 0
              in (mx > 0, S\<lparr>sp_representation := P\<rparr>))"

definition kr_fixed :: "bool \<Rightarrow> bool \<Rightarrow> nat \<Rightarrow> real list option \<Rightarrow> nat \<Rightarrow> nat \<Rightarrow> kr_state \<Rightarrow> kr_state result option" where
  "kr_fixed lw c characteristic potential r e st =
     (if kr_stop st then Some (Inr st)
      else let S = kr_S st; n = sp_nAct S in
        obind (Some (sp_StartNode S (2 * e))) (\<lambda>u.
        obind (Some (sp_EndNode S (2 * e))) (\<lambda>v.
          if \<not> (sp_LCap S (2 * e) > 0 \<and> (\<not> spx_has characteristic MST_ONE_CYCLE \<or> (u \<noteq> r \<and> v \<noteq> r))) then Some (Inr st)
          else obind (G_Find lw c n (kr_D st) u) (\<lambda>(bu, D1).
               obind (G_Find lw c n D1 v) (\<lambda>(bv, D2).
                 if bu = bv then Some (Inr (st\<lparr>kr_D := D2, kr_stop := True\<rparr>))
                 else obind (G_Merge lw c n D2 u v) (\<lambda>D3.
                      obind (Some (MST_Length S characteristic potential (2 * e))) (\<lambda>l.
                        Some (Inr (st\<lparr>kr_D := D3, kr_sum := kr_sum st + l, kr_rank := kr_rank st + 1\<rparr>)))))))))"

definition kr_insert :: "('q \<Rightarrow> nat \<Rightarrow> TFloat \<Rightarrow> 'q result) \<Rightarrow> nat \<Rightarrow> real list option \<Rightarrow> real \<Rightarrow> sparse \<Rightarrow> nat \<Rightarrow> 'q \<Rightarrow> 'q result" where
  "kr_insert ins characteristic potential sg S e Q =
     rbind (sp_Length S (2 * e)) (\<lambda>l.
       if l \<noteq> sg * InfFloat \<and> sp_UCap S (2 * e) > 0
       then rbind (MST_Length S characteristic potential (2 * e)) (\<lambda>w. ins Q e (sg * w))
       else Inr Q)"

definition kr_edge :: "bool \<Rightarrow> bool \<Rightarrow> nat \<Rightarrow> real list option \<Rightarrow> nat \<Rightarrow> nat \<Rightarrow> kr_state \<Rightarrow> kr_state result option" where
  "kr_edge lw c characteristic potential r a st =
     (let S = kr_S st; n = sp_nAct S in
        obind (Some (sp_StartNode S a)) (\<lambda>u.
        obind (Some (sp_EndNode S a)) (\<lambda>v.
        obind (G_Find lw c n (kr_D st) u) (\<lambda>(bu, D1).
        obind (G_Find lw c n D1 v) (\<lambda>(bv, D2).
          if \<not> spx_has characteristic MST_ONE_CYCLE \<and> bu \<noteq> bv
             \<or> spx_has characteristic MST_ONE_CYCLE \<and> bu \<noteq> bv \<and> bu \<noteq> r \<and> bv \<noteq> r \<and> sp_UCap S a > 0
          then obind (G_Merge lw c n D2 u v) (\<lambda>D3.
               obind (Some (sp_SetSubRelative S a 1)) (\<lambda>S1.
               obind (Some (MST_Length S1 characteristic potential a)) (\<lambda>l.
                 Some (Inr (st\<lparr>kr_S := S1, kr_D := D3, kr_sum := kr_sum st + l, kr_rank := kr_rank st + 1\<rparr>)))))
          else Some (Inr (st\<lparr>kr_D := D2\<rparr>)))))))"

partial_function (option) kr_loop ::
  "('q \<Rightarrow> bool) \<Rightarrow> ('q \<Rightarrow> (nat \<times> 'q) result) \<Rightarrow> (nat \<Rightarrow> kr_state \<Rightarrow> kr_state result option) \<Rightarrow> nat \<Rightarrow> 'q \<Rightarrow> kr_state \<Rightarrow> kr_state result option" where
  "kr_loop isEmpty del edge n Q st =
     (if isEmpty Q \<or> \<not> kr_rank st < n - 1 then Some (Inr st)
      else (case del Q of
          Inl e \<Rightarrow> Some (Inl e)
        | Inr p \<Rightarrow> Option.bind (edge (2 * fst p) st) (\<lambda>x. case x of Inl e \<Rightarrow> Some (Inl e) | Inr st1 \<Rightarrow> kr_loop isEmpty del edge n (snd p) st1)))"

text \<open>
  The two shortest arcs at the root of a one cycle tree, then the fixed arcs. The unsigned difference
  \<open>n-2\<close> wraps around for a graph with one node.
\<close>

definition kr_shorter :: "nat \<Rightarrow> real list option \<Rightarrow> real \<Rightarrow> sparse \<Rightarrow> nat \<Rightarrow> nat \<Rightarrow> bool result" where
  "kr_shorter characteristic potential sg S a b =
     (if b = NoArc then Inr True
      else rbind (MST_Length S characteristic potential a) (\<lambda>x.
           rbind (MST_Length S characteristic potential b) (\<lambda>y. Inr (sg * x < sg * y))))"

definition kr_cycle_arc :: "nat \<Rightarrow> real list option \<Rightarrow> real \<Rightarrow> sparse \<Rightarrow> nat \<Rightarrow> nat \<Rightarrow> nat \<times> nat \<Rightarrow> (nat \<times> nat) result" where
  "kr_cycle_arc characteristic potential sg S r a p =
     rbind (sp_EndNode S a) (\<lambda>w.
       if \<not> (w \<noteq> r \<and> sp_UCap S a > 0) then Inr p
       else rbind (kr_shorter characteristic potential sg S a (fst p)) (\<lambda>less1.
         if less1 then Inr (a, fst p)
         else rbind (kr_shorter characteristic potential sg S a (snd p)) (\<lambda>less2.
           Inr (if less2 then (fst p, a) else p))))"

definition kr_fixed_arc :: "sparse \<Rightarrow> nat \<Rightarrow> nat \<times> nat \<times> nat \<Rightarrow> (nat \<times> nat \<times> nat) result" where
  "kr_fixed_arc S a p =
     (let (a1, a2, k) = p
      in Inr (if sp_LCap S a > 0 \<and> a \<noteq> a1 \<and> a \<noteq> a2 then (a, a1, k + 1) else p))"

definition kr_one_cycle :: "nat \<Rightarrow> real list option \<Rightarrow> real \<Rightarrow> nat \<Rightarrow> kr_state \<Rightarrow> (real \<times> kr_state) result option" where
  "kr_one_cycle characteristic potential sg r st =
     (let S = kr_S st in
      if sp_nAct S < 2 \<or> kr_rank st < sp_nAct S - 2 then Some (Inr (sg * InfFloat, st))
      else
        obind (read_loop S r (kr_cycle_arc characteristic potential sg S r) (iGraph_new S) (NoArc, NoArc)) (\<lambda>(I, a1, a2).
        obind (Some (iGraph_Reset1 I r)) (\<lambda>I1.
        obind (read_loop S r (kr_fixed_arc S) I1 (a1, a2, 0)) (\<lambda>(I2, a1, a2, fixedArcs).
          if fixedArcs > 2 then Some (Inr (sg * InfFloat, st))
          else if a2 = NoArc then Some (Inr (sg * InfFloat, st))
          else
            Some (rbind (sp_Sub S a1) (\<lambda>x1.
                  rbind (if x1 = 0 then sp_SetSub S a1 1 else Inr S) (\<lambda>S1.
                  rbind (sp_Sub S1 a2) (\<lambda>x2.
                  rbind (if x2 = 0 then sp_SetSub S1 a2 1 else Inr S1) (\<lambda>S2.
                  rbind (MST_Length S2 characteristic potential a1) (\<lambda>l1.
                  rbind (MST_Length S2 characteristic potential a2) (\<lambda>l2.
                    let st2 = st\<lparr>kr_S := S2, kr_sum := kr_sum st + (l1 + l2), kr_rank := kr_rank st + 2\<rparr>
                    in Inr (kr_sum st2, st2))))))))))))"

text \<open>
  The returned weight and the final state. \<open>rank0\<close> is the uninitialised content of an array of the
  new set family, \<open>Q\<close> the queue that \<open>NewArcHeap\<close> returns.
\<close>

definition sp_Kruskal :: "('q \<Rightarrow> bool) \<Rightarrow> ('q \<Rightarrow> (nat \<times> 'q) result) \<Rightarrow> ('q \<Rightarrow> nat \<Rightarrow> TFloat \<Rightarrow> 'q result) \<Rightarrow> 'q \<Rightarrow> bool \<Rightarrow> bool \<Rightarrow> nat list
    \<Rightarrow> sparse \<Rightarrow> nat \<Rightarrow> real list option \<Rightarrow> nat \<Rightarrow> (real \<times> kr_state) result option" where
  "sp_Kruskal isEmpty del ins Q lw c rank0 S characteristic potential r0 =
     (let r = (if r0 = NoNode then 0 else r0); n = sp_nAct S;
          sg = (if spx_has characteristic MST_MAX then - 1 else 1)
      in if r \<ge> n then Some (Inl ERRange)
      else
        obind (Some (sp_InitSubgraph S)) (\<lambda>S1.
        obind (Some (rfold (G_Bud lw n) [0..<n] (disjointFamily n [] rank0))) (\<lambda>D.
        let (lower, S2) = sp_lower_bounds S1;
            st = \<lparr>kr_S = S2, kr_D = D, kr_sum = 0, kr_rank = 0, kr_stop = False\<rparr>
        in obind (if lower then ofold (kr_fixed lw c characteristic potential r) [0..<sp_mAct S2] st else Some (Inr st)) (\<lambda>st.
           if kr_stop st then Some (Inr (sg * InfFloat, st))
           else
             obind (Some (rfold (kr_insert ins characteristic potential sg (kr_S st)) [0..<sp_mAct S2] Q)) (\<lambda>Q.
             obind (kr_loop isEmpty del (kr_edge lw c characteristic potential r) n Q st) (\<lambda>st.
               if spx_has characteristic MST_ONE_CYCLE then kr_one_cycle characteristic potential sg r st
               else Some (Inr (if kr_rank st < n - 1 then sg * InfFloat else kr_sum st, st))))))))"

section \<open>Connectivity\<close>

definition ends :: "sparse \<Rightarrow> nat \<Rightarrow> nat \<times> nat" where
  "ends S e = (sp_SN S ! (2 * e), sp_SN S ! Suc (2 * e))"

definition conn :: "sparse \<Rightarrow> nat set \<Rightarrow> (nat \<times> nat) set" where
  "conn S F = (ends S ` F \<union> (ends S ` F)\<inverse>)\<^sup>*"

lemma conn_refl [simp]: "(x, x) \<in> conn S F"
  by (simp add: conn_def)

lemma conn_trans: "(x, y) \<in> conn S F \<Longrightarrow> (y, z) \<in> conn S F \<Longrightarrow> (x, z) \<in> conn S F"
  by (simp add: conn_def)

lemma conn_sym: "(x, y) \<in> conn S F \<longleftrightarrow> (y, x) \<in> conn S F"
proof -
  have "sym (conn S F)" unfolding conn_def by (intro sym_rtrancl sym_Un_converse)
  then show ?thesis by (auto dest: symD)
qed

lemma conn_edge: "e \<in> F \<Longrightarrow> ends S e \<in> conn S F"
  by (auto simp: conn_def)

lemma conn_sub:
  assumes "\<And>e. e \<in> F \<Longrightarrow> ends S e \<in> conn S G"
  shows "conn S F \<subseteq> conn S G"
proof -
  have "ends S ` F \<subseteq> conn S G" using assms by blast
  moreover have "(ends S ` F)\<inverse> \<subseteq> conn S G"
  proof (rule subrelI)
    fix a b assume "(a, b) \<in> (ends S ` F)\<inverse>"
    then have "(b, a) \<in> conn S G" using assms by auto
    then show "(a, b) \<in> conn S G" by (rule conn_sym [THEN iffD1])
  qed
  ultimately have "ends S ` F \<union> (ends S ` F)\<inverse> \<subseteq> conn S G" by blast
  then have "conn S F \<subseteq> (conn S G)\<^sup>*" unfolding conn_def by (rule rtrancl_mono)
  then show ?thesis by (simp add: conn_def)
qed

lemma conn_mono: "F \<subseteq> G \<Longrightarrow> conn S F \<subseteq> conn S G"
  by (rule conn_sub) (auto intro: conn_edge)

lemma conn_insert:
  assumes "(u, v) \<in> conn S (insert e F)" "ends S e = (x, y)"
  shows "(u, v) \<in> conn S F \<or> (u, x) \<in> conn S F \<and> (y, v) \<in> conn S F \<or> (u, y) \<in> conn S F \<and> (x, v) \<in> conn S F"
  using assms(1) unfolding conn_def
proof (induction rule: rtrancl_induct)
  case base
  then show ?case by simp
next
  case (step v w)
  have "(v, w) \<in> conn S F \<or> (v, w) = (x, y) \<or> (v, w) = (y, x)"
    using step(2) assms(2) by (auto simp: conn_def)
  then show ?case
    using step(3) unfolding conn_def [symmetric] by (auto dest: conn_trans)
qed

lemma conn_insert_iff:
  assumes "ends S e = (x, y)"
  shows "(u, v) \<in> conn S (insert e F) \<longleftrightarrow>
    (u, v) \<in> conn S F \<or> (u, x) \<in> conn S F \<and> (y, v) \<in> conn S F \<or> (u, y) \<in> conn S F \<and> (x, v) \<in> conn S F"
proof
  have m: "conn S F \<subseteq> conn S (insert e F)" by (rule conn_mono) auto
  have xy: "(x, y) \<in> conn S (insert e F)" using conn_edge [of e "insert e F" S] assms by simp
  then have yx: "(y, x) \<in> conn S (insert e F)" by (rule conn_sym [THEN iffD1])
  have join: "(u, v) \<in> conn S (insert e F)"
    if "(u, a) \<in> conn S F" "(a, b) \<in> conn S (insert e F)" "(b, v) \<in> conn S F" for a b
    using conn_trans [OF conn_trans [OF subsetD [OF m that(1)] that(2)] subsetD [OF m that(3)]] .
  show "(u, v) \<in> conn S (insert e F)"
    if "(u, v) \<in> conn S F \<or> (u, x) \<in> conn S F \<and> (y, v) \<in> conn S F \<or> (u, y) \<in> conn S F \<and> (x, v) \<in> conn S F"
    using that subsetD [OF m] join [OF _ xy] join [OF _ yx] by blast
qed (rule conn_insert [OF _ assms])

text \<open>An edge between different components can replace another one that is not needed for \<open>T\<close>.\<close>

lemma exchange:
  assumes fin: "finite M" and T: "T \<subseteq> M" and e: "ends S e = (u, v)" "(u, v) \<in> conn S M" "(u, v) \<notin> conn S T"
  obtains f where "f \<in> M - T" "ends S f \<notin> conn S T" "conn S M \<subseteq> conn S (insert e (M - {f}))"
proof -
  let ?P = "\<lambda>N. T \<subseteq> N \<and> N \<subseteq> M \<and> (u, v) \<in> conn S N"
  obtain N where N: "?P N" "\<And>N'. ?P N' \<Longrightarrow> card N \<le> card N'"
    using ex_has_least_nat [of ?P M card] T e(2) by blast
  have "N \<noteq> T" using N(1) e(3) by auto
  then obtain f where f: "f \<in> N" "f \<notin> T" using N(1) by blast
  let ?F = "N - {f}"
  obtain x y where xy: "ends S f = (x, y)" by (cases "ends S f")
  have finN: "finite N" using N(1) fin finite_subset by blast
  then have "card ?F < card N" using f(1) by (rule card_Diff1_less)
  then have uF: "(u, v) \<notin> conn S ?F" using N(2) [of ?F] N(1) f by auto
  have ins: "insert f ?F = N" using f(1) by auto
  have xF: "(x, y) \<notin> conn S ?F"
  proof
    assume c: "(x, y) \<in> conn S ?F"
    have "ends S g \<in> conn S ?F" if "g \<in> N" for g using that c xy conn_edge [of g ?F S] by (cases "g = f") auto
    then have "conn S N \<subseteq> conn S ?F" by (rule conn_sub)
    then show False using uF N(1) by blast
  qed
  have sub: "conn S ?F \<subseteq> conn S (insert e ?F)" by (rule conn_mono) auto
  have uv: "(u, v) \<in> conn S (insert e ?F)" using conn_edge [of e "insert e ?F" S] e(1) by simp
  have "(u, x) \<in> conn S ?F \<and> (y, v) \<in> conn S ?F \<or> (u, y) \<in> conn S ?F \<and> (x, v) \<in> conn S ?F"
    using conn_insert [of u v S f ?F x y] N(1) ins xy uF by auto
  then have "(x, y) \<in> conn S (insert e ?F)"
  proof
    assume *: "(u, x) \<in> conn S ?F \<and> (y, v) \<in> conn S ?F"
    then have "(x, u) \<in> conn S (insert e ?F)" "(v, y) \<in> conn S (insert e ?F)"
      using sub conn_sym [of x u] conn_sym [of v y] by auto
    then show ?thesis using uv conn_trans by metis
  next
    assume *: "(u, y) \<in> conn S ?F \<and> (x, v) \<in> conn S ?F"
    then have "(u, y) \<in> conn S (insert e ?F)" "(x, v) \<in> conn S (insert e ?F)" using sub by auto
    moreover have "(v, u) \<in> conn S (insert e ?F)" using uv by (rule conn_sym [THEN iffD1])
    ultimately show ?thesis using conn_trans by metis
  qed
  moreover have "conn S (insert e ?F) \<subseteq> conn S (insert e (M - {f}))" using N(1) by (intro conn_mono) auto
  ultimately have "ends S f \<in> conn S (insert e (M - {f}))" using xy by auto
  then have "conn S M \<subseteq> conn S (insert e (M - {f}))"
    using conn_edge [of _ "insert e (M - {f})" S] by (intro conn_sub) (metis Diff_iff insertCI singletonD)
  moreover have "T \<subseteq> ?F" using N(1) f(2) by blast
  then have "ends S f \<notin> conn S T" using xF xy conn_mono [of T ?F S] by auto
  ultimately show thesis using that f N(1) by blast
qed

section \<open>The greedy choice\<close>

definition spanning :: "sparse \<Rightarrow> nat set \<Rightarrow> bool" where
  "spanning S F \<longleftrightarrow> (\<forall>x < sp_nAct S. \<forall>y < sp_nAct S. (x, y) \<in> conn S F)"

definition tree :: "sparse \<Rightarrow> nat set \<Rightarrow> nat set \<Rightarrow> bool" where
  "tree S E M \<longleftrightarrow> M \<subseteq> E \<and> spanning S M \<and> card M = sp_nAct S - 1"

text \<open>
  The edges \<open>T\<close> have been chosen and the edges \<open>R\<close> wait: the other edges are not needed, and every
  spanning tree can be changed into one that contains \<open>T\<close> without increasing the weight.
\<close>

definition greedy :: "sparse \<Rightarrow> nat set \<Rightarrow> (nat \<Rightarrow> real) \<Rightarrow> nat set \<Rightarrow> nat set \<Rightarrow> bool" where
  "greedy S E w T R \<longleftrightarrow> T \<subseteq> E \<and> R \<subseteq> E \<and> T \<inter> R = {} \<and> (\<forall>e \<in> E - R. ends S e \<in> conn S T)
     \<and> (\<forall>M0. tree S E M0 \<longrightarrow> (\<exists>M. tree S E M \<and> T \<subseteq> M \<and> sum w M \<le> sum w M0))"

lemma greedy_start: "greedy S E w {} E"
  by (auto simp: greedy_def)

lemma greedy_skip: "greedy S E w T R \<Longrightarrow> ends S e \<in> conn S T \<Longrightarrow> greedy S E w T (R - {e})"
  by (auto simp: greedy_def)

lemma greedy_take:
  assumes fin: "finite E" and g: "greedy S E w T R" and e: "e \<in> R" "ends S e \<notin> conn S T" "\<And>f. f \<in> R \<Longrightarrow> w e \<le> w f"
    and n: "fst (ends S e) < sp_nAct S" "snd (ends S e) < sp_nAct S"
  shows "greedy S E w (insert e T) (R - {e})"
proof -
  note d = g [unfolded greedy_def]
  have mono: "conn S T \<subseteq> conn S (insert e T)" by (rule conn_mono) auto
  have "\<exists>M'. tree S E M' \<and> insert e T \<subseteq> M' \<and> sum w M' \<le> sum w M0" if M0: "tree S E M0" for M0
  proof -
    obtain M where M: "tree S E M" "T \<subseteq> M" "sum w M \<le> sum w M0" using d M0 by blast
    show ?thesis
    proof (cases "e \<in> M")
      case True
      then show ?thesis using M by blast
    next
      case False
      have finM: "finite M" using M(1) fin finite_subset by (auto simp: tree_def)
      obtain u v where uv: "ends S e = (u, v)" by (cases "ends S e")
      have "(u, v) \<in> conn S M" using M(1) n uv by (simp add: tree_def spanning_def)
      then obtain f where f: "f \<in> M - T" "ends S f \<notin> conn S T" "conn S M \<subseteq> conn S (insert e (M - {f}))"
        using exchange [OF finM M(2) uv] e(2) uv by auto
      let ?M = "insert e (M - {f})"
      have "f \<in> R" using f(1,2) d M(1) by (auto simp: tree_def)
      then have "w e \<le> w f" by (rule e(3))
      moreover have "sum w ?M = sum w M - w f + w e" using finM f(1) False by (simp add: sum.remove [of M f])
      moreover have "tree S E ?M" unfolding tree_def
      proof (intro conjI)
        show "?M \<subseteq> E" using M(1) d e(1) by (auto simp: tree_def)
        show "spanning S ?M" using M(1) f(3) by (auto simp: tree_def spanning_def)
        have "card (insert e (M - {f})) = Suc (card (M - {f}))" using finM False by simp
        also have "\<dots> = card M" using finM f(1) by (metis DiffD1 card_Suc_Diff1)
        finally show "card ?M = sp_nAct S - 1" using M(1) by (simp add: tree_def)
      qed
      moreover have "insert e T \<subseteq> ?M" using M(2) f(1) by auto
      ultimately show ?thesis using M(3) by (intro exI [of _ ?M]) auto
    qed
  qed
  moreover have "ends S f \<in> conn S (insert e T)" if "f \<in> E - (R - {e})" for f
    using that d mono conn_edge [of e "insert e T" S] by blast
  ultimately show ?thesis using d e(1) unfolding greedy_def by blast
qed

section \<open>The partition of the nodes\<close>

text \<open>The canonical elements; their number is the number of sets.\<close>

definition reps :: "disjoint_family \<Rightarrow> nat set" where
  "reps D = {s. df_sets D s s}"

definition part_ok :: "sparse \<Rightarrow> nat set \<Rightarrow> disjoint_family \<Rightarrow> bool" where
  "part_ok S T D \<longleftrightarrow> df_inv D \<and> df_n D = sp_nAct S \<and> (\<forall>x < sp_nAct S. \<exists>r. df_sets D x r)
     \<and> (\<forall>x < sp_nAct S. \<forall>y < sp_nAct S. same_set D x y \<longleftrightarrow> (x, y) \<in> conn S T)"

lemma canonical_rep: "df_inv D \<Longrightarrow> df_sets D x r \<Longrightarrow> r \<in> reps D \<and> r < df_n D"
  using in_set_of_bound [of "df_B D" x r] in_set_of_root [of r "df_B D" r] df_invD(1) [of D] by (auto simp: reps_def)

lemma reps_finite: "df_inv D \<Longrightarrow> reps D \<subseteq> {..<df_n D} \<and> finite (reps D)"
proof -
  assume "df_inv D"
  then have "reps D \<subseteq> {..<df_n D}" using df_invD(1) [of D] by (auto simp: reps_def dest: in_set_of_bound(1))
  then show ?thesis using finite_subset by blast
qed

lemma same_set_iff: "df_sets D x r \<Longrightarrow> df_sets D y s \<Longrightarrow> same_set D x y \<longleftrightarrow> r = s"
  unfolding same_set_def by (metis in_set_of_unique)

lemma Find_part:
  assumes "part_ok S T D" "v < sp_nAct S"
  obtains r D' where "G_Find lw c (sp_nAct S) D v = Some (Inr (r, D'))" "df_sets D v r" "part_ok S T D'" "df_sets D' = df_sets D" "reps D' = reps D"
proof -
  have d: "df_inv D" "df_n D = sp_nAct S" using assms(1) by (simp_all add: part_ok_def)
  have v: "df_B D ! v \<noteq> df_n D" using assms df_defined_iff [OF d(1), of v] by (auto simp: part_ok_def)
  obtain r D' where F: "disjointFamily_Find lw c D v = Some (Inr (r, D'))" "df_sets D v r" "df_inv D'" "df_sets D' = df_sets D" "df_n D' = df_n D"
    using Find_canonical [OF d(1), of v lw c] v assms(2) d(2) by auto
  show thesis
  proof (rule that [of r D'])
    show "part_ok S T D'" using assms(1) F(3-5) by (simp add: part_ok_def same_set_def)
    show "reps D' = reps D" using F(4) by (simp add: reps_def)
  qed (use F assms(2) in \<open>simp_all add: G_Find_def\<close>)
qed

lemma Merge_part:
  assumes p: "part_ok S T D" and e: "ends S e = (u, v)" "u < sp_nAct S" "v < sp_nAct S" "(u, v) \<notin> conn S T"
  obtains D' where "G_Merge lw c (sp_nAct S) D u v = Some (Inr D')" "part_ok S (insert e T) D'" "Suc (card (reps D')) = card (reps D)"
proof -
  have inv: "df_inv D" and n: "df_n D = sp_nAct S" and tot: "\<And>x. x < sp_nAct S \<Longrightarrow> \<exists>r. df_sets D x r"
    and same: "\<And>x y. x < sp_nAct S \<Longrightarrow> y < sp_nAct S \<Longrightarrow> same_set D x y \<longleftrightarrow> (x, y) \<in> conn S T"
    using p by (simp_all add: part_ok_def)
  have def: "u < df_n D" "df_B D ! u \<noteq> df_n D" "v < df_n D" "df_B D ! v \<noteq> df_n D"
    using df_defined_iff [OF inv] tot e(2,3) by blast+
  obtain D' a b where D': "disjointFamily_Merge lw c D u v = Some (Inr D')" "df_inv D'" "df_n D' = df_n D"
    "df_sets D u a \<and> df_sets D v b \<or> df_sets D v a \<and> df_sets D u b"
    "\<And>x s. df_sets D' x s \<longleftrightarrow> (\<exists>t. df_sets D x t \<and> s = (if t = a then b else t))"
    using Merge_sets [OF inv def, of lw c] by blast
  have ab: "a \<noteq> b" "a \<in> reps D"
    using D'(4) same [OF e(2,3)] e(4) canonical_rep [OF inv] by (auto simp: same_set_def)
  have "df_sets D' s s \<longleftrightarrow> df_sets D s s \<and> s \<noteq> a" for s
  proof -
    have "\<not> df_sets D b a" using ab D'(4) canonical_rep [OF inv] in_set_of_unique by (auto simp: reps_def)
    then show ?thesis using ab(1) by (auto simp: D'(5))
  qed
  then have "reps D' = reps D - {a}" by (auto simp: reps_def)
  then have card: "Suc (card (reps D')) = card (reps D)"
    using ab(2) reps_finite [OF inv] by (metis card_Suc_Diff1)
  have old: "same_set D' x y \<longleftrightarrow> same_set D x y \<or> df_sets D x a \<and> df_sets D y b \<or> df_sets D x b \<and> df_sets D y a" for x y
    using join_classes [of "df_sets D" x a b y] D'(5) by (simp add: same_set_def)
  have mem: "same_set D x w \<longleftrightarrow> df_sets D x r" "same_set D w x \<longleftrightarrow> df_sets D x r" if "df_sets D w r" for x w r
    using that in_set_of_unique by (auto simp: same_set_def)
  have new: "same_set D' x y \<longleftrightarrow> (x, y) \<in> conn S (insert e T)" if "x < sp_nAct S" "y < sp_nAct S" for x y
    using that D'(4) mem same e(2,3) unfolding old conn_insert_iff [OF e(1)] by blast
  have "\<exists>r. df_sets D' x r" if "x < sp_nAct S" for x using tot [OF that] D'(5) by auto
  then have "part_ok S (insert e T) D'" using D'(2,3) n new by (simp add: part_ok_def)
  then show thesis using that [of D'] D'(1) card e(2,3) by (simp add: G_Merge_def)
qed

text \<open>One \<open>Bud\<close> per node gives the partition into single nodes.\<close>

lemma Bud_loop:
  assumes D: "df_inv D" "df_n D = n" "\<And>x s. df_sets D x s \<longleftrightarrow> x < k \<and> s = x" and k: "k \<le> n"
  obtains D' where "rfold (G_Bud lw n) [k..<n] D = Inr D'" "df_inv D'" "df_n D' = n" "\<And>x s. df_sets D' x s \<longleftrightarrow> x < n \<and> s = x"
  using assms
proof (induction "n - k" arbitrary: k D thesis)
  case 0
  then show ?case by simp
next
  case (Suc j)
  then have k: "k < n" by simp
  have "df_B D ! k = df_n D" using df_defined_iff [OF Suc.prems(2), of k] Suc.prems(3,4) k by auto
  then obtain D1 where D1: "disjointFamily_Bud lw D k = Inr D1" "df_inv D1" "df_n D1 = n"
    "\<And>x s. df_sets D1 x s \<longleftrightarrow> df_sets D x s \<or> x = k \<and> s = k"
    using Bud_inv [OF Suc.prems(2), of k lw] k Suc.prems(3) by auto
  have sets: "df_sets D1 x s \<longleftrightarrow> x < Suc k \<and> s = x" for x s using D1(4) Suc.prems(4) by auto
  have j: "j = n - Suc k" using Suc.hyps(2) by simp
  have le: "Suc k \<le> n" using k by simp
  obtain D' where "rfold (G_Bud lw n) [Suc k..<n] D1 = Inr D'" "df_inv D'" "df_n D' = n" "\<And>x s. df_sets D' x s \<longleftrightarrow> x < n \<and> s = x"
    using Suc.hyps(1) [OF j _ D1(2,3) sets le] by blast
  then show ?case using Suc.prems(1) [of D'] k D1(1) by (simp add: upt_conv_Cons G_Bud_def)
qed

lemma conn_empty: "(x, y) \<in> conn S {} \<longleftrightarrow> x = y"
  by (auto simp: conn_def)

lemma Bud_part:
  assumes "length rank0 = sp_nAct S"
  obtains D where "rfold (G_Bud lw (sp_nAct S)) [0..<sp_nAct S] (disjointFamily (sp_nAct S) [] rank0) = Inr D"
    "part_ok S {} D" "card (reps D) = sp_nAct S"
proof -
  have n: "df_n (disjointFamily (sp_nAct S) [] rank0) = sp_nAct S" by (simp add: disjointFamily_def disjointFamily_Init_def)
  obtain D where D: "rfold (G_Bud lw (sp_nAct S)) [0..<sp_nAct S] (disjointFamily (sp_nAct S) [] rank0) = Inr D"
    "df_inv D" "df_n D = sp_nAct S" "\<And>x s. df_sets D x s \<longleftrightarrow> x < sp_nAct S \<and> s = x"
    by (rule Bud_loop [OF new_inv(1) [OF assms] n, of 0]) (use new_inv(2) [OF assms] in auto)
  have "reps D = {..<sp_nAct S}" using D(4) by (auto simp: reps_def)
  moreover have "part_ok S {} D" using D by (auto simp: part_ok_def same_set_def conn_empty)
  ultimately show thesis using that D(1) by simp
qed

text \<open>The nodes are connected exactly when one set is left.\<close>

lemma part_spanning:
  assumes p: "part_ok S T D" and n: "0 < sp_nAct S"
  shows "spanning S T \<longleftrightarrow> card (reps D) = 1"
proof
  have inv: "df_inv D" and tot: "\<And>x. x < sp_nAct S \<Longrightarrow> \<exists>r. df_sets D x r" and nD: "df_n D = sp_nAct S"
    and same: "\<And>x y. x < sp_nAct S \<Longrightarrow> y < sp_nAct S \<Longrightarrow> same_set D x y \<longleftrightarrow> (x, y) \<in> conn S T"
    using p by (simp_all add: part_ok_def)
  obtain r where r: "df_sets D 0 r" using tot n by blast
  show "card (reps D) = 1" if sp: "spanning S T"
  proof -
    have "s = r" if "s \<in> reps D" for s
    proof -
      have s: "df_sets D s s" "s < sp_nAct S" using that reps_finite [OF inv] nD by (auto simp: reps_def)
      then have "same_set D s 0" using same sp n by (simp add: spanning_def)
      then show ?thesis using same_set_iff [OF s(1) r] by simp
    qed
    then have "reps D = {r}" using canonical_rep [OF inv r] by blast
    then show ?thesis by simp
  qed
  show "spanning S T" if one: "card (reps D) = 1"
  proof -
    obtain q where q: "reps D = {q}" using one by (rule card_1_singletonE)
    have "df_sets D x q" if "x < sp_nAct S" for x using tot [OF that] canonical_rep [OF inv] q by auto
    then have "same_set D x y" if "x < sp_nAct S" "y < sp_nAct S" for x y using that by (auto simp: same_set_def)
    then show ?thesis using same by (simp add: spanning_def)
  qed
qed

section \<open>The loops\<close>

text \<open>The length that the method uses for an edge.\<close>

definition wt :: "sparse \<Rightarrow> nat \<Rightarrow> real list option \<Rightarrow> nat \<Rightarrow> real" where
  "wt S ch pot e = (case MST_Length S ch pot (2 * e) of Inr w \<Rightarrow> w | Inl x \<Rightarrow> 0)"

text \<open>Spanning trees of a graph without cancelled arcs and without lower bounds; an edge can be used or has capacity 0.\<close>

definition kr_data :: "sparse \<Rightarrow> nat \<Rightarrow> real list option \<Rightarrow> bool" where
  "kr_data S ch pot \<longleftrightarrow> no_cancelled S \<and> \<not> spx_has ch MST_ONE_CYCLE
     \<and> attributePool_FindAttribute (sp_representation S) TokReprLCap = None
     \<and> (\<forall>e < sp_mAct S. sp_UCap S (2 * e) = 0 \<or> 1 \<le> sp_UCap S (2 * e))
     \<and> (\<forall>p. pot = Some p \<longrightarrow> sp_nAct S \<le> length p)"

definition kr_edges :: "sparse \<Rightarrow> real \<Rightarrow> nat set" where
  "kr_edges S sg = {e. e < sp_mAct S \<and> sp_Length S (2 * e) \<noteq> Inr (sg * InfFloat) \<and> sp_UCap S (2 * e) > 0}"

lemma only_sub_lengths:
  assumes "only_sub S S'"
  shows "sp_Length S' = sp_Length S" "MST_Length S' = MST_Length S" "sp_SN S' = sp_SN S"
proof -
  obtain x y where S': "S' = S\<lparr>sp_sub := x, sp_calls := y\<rparr>" using assms by (auto simp: only_sub_def)
  have C: "sp_C S' = sp_C S" by (intro ext) (simp add: sp_C_def S')
  have eq: "sp_geometry S' = sp_geometry S" "sp_representation S' = sp_representation S" "sp_mAct S' = sp_mAct S" "sp_SN S' = sp_SN S"
    by (simp_all add: S')
  show len: "sp_Length S' = sp_Length S" unfolding sp_Length_def fun_eq_iff C eq by blast
  have O: "sp_Orientation S' = sp_Orientation S" by (simp add: S' sp_Orientation_def fun_eq_iff)
  show "MST_Length S' = MST_Length S" unfolding MST_Length_def sp_RedLength_def fun_eq_iff len O eq by blast
  show "sp_SN S' = sp_SN S" by (simp add: S')
qed

lemma MST_Length_wt:
  assumes "kr_data S ch pot" "e < sp_mAct S"
  shows "MST_Length S ch pot (2 * e) = Inr (wt S ch pot e)"
proof -
  obtain l where l: "sp_Length S (2 * e) = Inr l" using Length_Inr [of "2 * e" S] assms(2) by auto
  have "sp_SN S ! (2 * e) < sp_nAct S" "sp_SN S ! flip (2 * e) < sp_nAct S"
    using assms by (simp_all add: kr_data_def no_cancelled_def flip_def)
  then have "\<exists>w. MST_Length S ch pot (2 * e) = Inr w"
    using assms l by (fastforce simp: MST_Length_def sp_RedLength_def kr_data_def split: option.split)
  then show ?thesis by (auto simp: wt_def)
qed

lemma data_LCap: "kr_data S ch pot \<Longrightarrow> sp_LCap S a = 0"
  by (simp add: kr_data_def sp_LCap_def attributePool_GetValue_def)

lemma data_lower_bounds: "kr_data S ch pot \<Longrightarrow> sp_representation S' = sp_representation S \<Longrightarrow> sp_lower_bounds S' = (False, S')"
  by (simp add: kr_data_def sp_lower_bounds_def attributePool_IsConstant_def attributePool_MaxValue_def ap_query_def Let_def)

lemma InitSubgraph_loop:
  assumes d: "kr_data S ch pot" and S1: "only_sub S S1" "sp_inv S1" "\<And>e. e < k \<Longrightarrow> sp_Sub S1 (2 * e) = Inr 0" and k: "k \<le> sp_mAct S"
  obtains S2 where "rfold (\<lambda>e S. sp_SetSub S (2 * e) (sp_LCap S (2 * e))) [k..<sp_mAct S] S1 = Inr S2"
    "only_sub S S2" "sp_inv S2" "\<And>e. e < sp_mAct S \<Longrightarrow> sp_Sub S2 (2 * e) = Inr 0"
  using S1 k
proof (induction "sp_mAct S - k" arbitrary: k S1 thesis)
  case 0
  then show ?case by simp
next
  case (Suc j)
  then have k: "k < sp_mAct S" and j: "j = sp_mAct S - Suc k" "Suc k \<le> sp_mAct S" by simp_all
  note eq = only_sub_simps [OF Suc.prems(2)]
  have cap: "sp_LCap S1 (2 * k) = 0" "0 \<le> sp_UCap S1 (2 * k)"
    using eq(11,12) data_LCap [OF d] d k by (auto simp: kr_data_def)
  obtain x where x: "sp_Sub S1 (2 * k) = Inr x" using Sub_returns [of "2 * k" S1] k eq(7) by auto
  have so: "sub_ok S1" "sp_mAct S1 \<le> sp_mMax S1" "2 * k < 2 * sp_mAct S1" using inv_sub [OF Suc.prems(3)] k eq(7) by simp_all
  obtain S2 where S2: "sp_SetSub S1 (2 * k) 0 = Inr S2" "only_sub S1 S2" "sub_ok S2"
    "\<And>b. b < 2 * sp_mAct S1 \<Longrightarrow> sp_Sub S2 b = (if b div 2 = k then Inr 0 else sp_Sub S1 b)"
    by (rule sp_SetSub_ok [OF so x, of 0]) (use cap in auto)
  have zero: "sp_Sub S2 (2 * e) = Inr 0" if "e < Suc k" for e
    using S2(4) [of "2 * e"] Suc.prems(4) [of e] that k eq(7) by auto
  note o = only_sub_trans [OF Suc.prems(2) S2(2)] and i = only_sub_inv [OF Suc.prems(3) S2(2,3)]
  obtain S3 where "rfold (\<lambda>e S. sp_SetSub S (2 * e) (sp_LCap S (2 * e))) [Suc k..<sp_mAct S] S2 = Inr S3"
    "only_sub S S3" "sp_inv S3" "\<And>e. e < sp_mAct S \<Longrightarrow> sp_Sub S3 (2 * e) = Inr 0"
    using Suc.hyps(1) [OF j(1) _ o i zero j(2)] by blast
  then show ?case using Suc.prems(1) [of S3] k S2(1) cap(1) by (simp add: upt_conv_Cons)
qed

lemma InitSubgraph_ok:
  assumes "kr_data S ch pot" "sp_inv S"
  obtains S2 where "sp_InitSubgraph S = Inr S2" "only_sub S S2" "sp_inv S2" "\<And>e. e < sp_mAct S \<Longrightarrow> sp_Sub S2 (2 * e) = Inr 0"
proof -
  let ?S = "call C_ReleaseDegrees S"
  have "only_sub S ?S" "sub_ok ?S" using inv_sub [OF assms(2)] by (simp_all add: only_sub_def call_def sub_ok_def)
  moreover from this have "sp_inv ?S" using only_sub_inv [OF assms(2)] by blast
  ultimately show thesis
    using InitSubgraph_loop [OF assms(1), of ?S 0 thesis] that by (simp add: sp_InitSubgraph_def)
qed

definition kr_inv :: "sparse \<Rightarrow> nat \<Rightarrow> real list option \<Rightarrow> real \<Rightarrow> nat set \<Rightarrow> nat set \<Rightarrow> nat set \<Rightarrow> kr_state \<Rightarrow> bool" where
  "kr_inv S ch pot sg E T R st \<longleftrightarrow> only_sub S (kr_S st) \<and> sp_inv (kr_S st)
     \<and> (\<forall>e < sp_mAct S. sp_Sub (kr_S st) (2 * e) = Inr (if e \<in> T then 1 else 0))
     \<and> part_ok S T (kr_D st) \<and> card (reps (kr_D st)) + kr_rank st = sp_nAct S \<and> kr_rank st = card T
     \<and> kr_sum st = sum (wt S ch pot) T \<and> greedy S E (\<lambda>e. sg * wt S ch pot e) T R"

text \<open>An edge of least weight is taken exactly when it joins two components.\<close>

lemma kr_edge_ok:
  assumes d: "kr_data S ch pot" and i: "kr_inv S ch pot sg (kr_edges S sg) T R st"
    and e: "e \<in> R" "\<And>f. f \<in> R \<Longrightarrow> sg * wt S ch pot e \<le> sg * wt S ch pot f"
  obtains T' st' where "kr_edge lw c ch pot r (2 * e) st = Some (Inr st')" "kr_inv S ch pot sg (kr_edges S sg) T' (R - {e}) st'"
proof -
  let ?E = "kr_edges S sg" and ?n = "sp_nAct S" and ?S = "kr_S st" and ?u = "sp_SN S ! (2 * e)" and ?v = "sp_SN S ! Suc (2 * e)"
  let ?w = "\<lambda>e. sg * wt S ch pot e"
  have o: "only_sub S ?S" and inv: "sp_inv ?S" and sub: "\<And>f. f < sp_mAct S \<Longrightarrow> sp_Sub ?S (2 * f) = Inr (if f \<in> T then 1 else 0)"
    and part: "part_ok S T (kr_D st)" and rank: "card (reps (kr_D st)) + kr_rank st = ?n" "kr_rank st = card T"
    and sum: "kr_sum st = sum (wt S ch pot) T" and g: "greedy S ?E ?w T R"
    using i by (simp_all add: kr_inv_def)
  note eq = only_sub_simps(7,8,11,12) [OF o] only_sub_lengths [OF o]
  have E: "e \<in> ?E" "e \<notin> T" "T \<subseteq> ?E" using g e(1) by (auto simp: greedy_def)
  then have em: "e < sp_mAct S" and cap: "0 < sp_UCap S (2 * e)" by (simp_all add: kr_edges_def)
  have finE: "finite ?E" by (rule finite_subset [of _ "{..<sp_mAct S}"]) (auto simp: kr_edges_def)
  have uv: "?u < ?n" "?v < ?n" "ends S e = (?u, ?v)" "flip (2 * e) = Suc (2 * e)"
    using d em by (simp_all add: kr_data_def no_cancelled_def ends_def flip_def)
  have nodes: "sp_StartNode ?S (2 * e) = Inr ?u" "sp_EndNode ?S (2 * e) = Inr ?v"
    using em eq(1,7) uv(4) by (simp_all add: sp_StartNode_def sp_EndNode_def)
  obtain bu D1 where D1: "G_Find lw c ?n (kr_D st) ?u = Some (Inr (bu, D1))" "df_sets (kr_D st) ?u bu" "part_ok S T D1"
    "df_sets D1 = df_sets (kr_D st)" "reps D1 = reps (kr_D st)" by (rule Find_part [OF part uv(1)])
  obtain bv D2 where D2: "G_Find lw c ?n D1 ?v = Some (Inr (bv, D2))" "df_sets D1 ?v bv" "part_ok S T D2"
    "df_sets D2 = df_sets D1" "reps D2 = reps D1" by (rule Find_part [OF D1(3) uv(2)])
  have b: "bu = bv \<longleftrightarrow> (?u, ?v) \<in> conn S T"
    using same_set_iff [of "kr_D st" ?u bu ?v bv] D1(2,4) D2(2) part uv(1,2) by (simp add: part_ok_def)
  have noc: "\<not> spx_has ch MST_ONE_CYCLE" using d by (simp add: kr_data_def)
  show thesis
  proof (cases "bu = bv")
    case True
    let ?st = "st\<lparr>kr_D := D2\<rparr>"
    have "greedy S ?E ?w T (R - {e})" by (rule greedy_skip [OF g]) (use True b uv(3) in simp)
    then have "kr_inv S ch pot sg ?E T (R - {e}) ?st" using o inv sub rank sum D1(5) D2(3,5) by (simp add: kr_inv_def)
    then show thesis using that [of ?st] nodes D1(1) D2(1) True eq(2) by (simp add: kr_edge_def Let_def)
  next
    case False
    then have nc: "(?u, ?v) \<notin> conn S T" using b by simp
    obtain D3 where D3: "G_Merge lw c ?n D2 ?u ?v = Some (Inr D3)" "part_ok S (insert e T) D3" "Suc (card (reps D3)) = card (reps D2)"
      by (rule Merge_part [OF D2(3) uv(3,1,2) nc])
    have x: "sp_Sub ?S (2 * e) = Inr 0" "2 * e < 2 * sp_mAct ?S" using sub [OF em] E(2) em eq(1) by simp_all
    have "1 \<le> sp_UCap S (2 * e)" using d em cap by (auto simp: kr_data_def)
    then obtain S1 where S1: "sp_SetSubRelative ?S (2 * e) 1 = Inr S1" "only_sub ?S S1" "sp_inv S1"
      "\<And>b. b < 2 * sp_mAct ?S \<Longrightarrow> sp_Sub S1 b = (if b div 2 = e then Inr 1 else sp_Sub ?S b)"
      by (rule_tac SetSubRelative_inv [OF inv x(2,1), of 1]) (use eq(3) in auto)
    note o1 = only_sub_trans [OF o S1(2)]
    have len: "MST_Length S1 ch pot (2 * e) = Inr (wt S ch pot e)"
      using MST_Length_wt [OF d em] only_sub_lengths(2) [OF o1] by simp
    let ?st = "st\<lparr>kr_S := S1, kr_D := D3, kr_sum := kr_sum st + wt S ch pot e, kr_rank := kr_rank st + 1\<rparr>"
    have "greedy S ?E ?w (insert e T) (R - {e})"
      by (rule greedy_take [OF finE g e(1) _ e(2)]) (use nc uv in simp_all)
    moreover have fin: "finite T" using finE E(3) finite_subset by blast
    moreover have "\<forall>f < sp_mAct S. sp_Sub S1 (2 * f) = Inr (if f \<in> insert e T then 1 else 0)"
      using S1(4) sub eq(1) by auto
    moreover have "card (reps D3) + (kr_rank st + 1) = ?n" using D3(3) D1(5) D2(5) rank(1) by simp
    ultimately have "kr_inv S ch pot sg ?E (insert e T) (R - {e}) ?st"
      using o1 S1(3) D3(2) rank(2) sum E(2) by (simp add: kr_inv_def)
    moreover have "kr_edge lw c ch pot r (2 * e) st = Some (Inr ?st)"
      using nodes D1(1) D2(1) D3(1) False S1(1) len noc eq(2) by (simp add: kr_edge_def Let_def)
    ultimately show thesis using that by blast
  qed
qed

context prio_queue
begin

lemma kr_fill:
  assumes d: "kr_data S ch pot" and o: "only_sub S S1" and k: "\<And>x. okkey x"
    and Q: "inv Q" "rng Q = sp_mAct S" "mem Q = {e \<in> kr_edges S sg. e < j}" "\<And>e. e \<in> mem Q \<Longrightarrow> key Q e = sg * wt S ch pot e"
      "j \<le> sp_mAct S"
  obtains Q' where "rfold (kr_insert ins ch pot sg S1) [j..<sp_mAct S] Q = Inr Q'" "inv Q'" "mem Q' = kr_edges S sg"
    "\<And>e. e \<in> mem Q' \<Longrightarrow> key Q' e = sg * wt S ch pot e"
  using Q
proof (induction "sp_mAct S - j" arbitrary: j Q thesis)
  case 0
  have "{e \<in> kr_edges S sg. e < j} = kr_edges S sg" using 0(1,7) by (auto simp: kr_edges_def)
  then show ?case using 0 by simp
next
  case (Suc i)
  then have j: "j < sp_mAct S" and i: "i = sp_mAct S - Suc j" "Suc j \<le> sp_mAct S" by simp_all
  note eq = only_sub_simps(11) [OF o] only_sub_lengths(1,2) [OF o]
  obtain l where l: "sp_Length S (2 * j) = Inr l" using Length_Inr [of "2 * j" S] j by auto
  have jE: "j \<in> kr_edges S sg \<longleftrightarrow> l \<noteq> sg * InfFloat \<and> sp_UCap S (2 * j) > 0" using j l by (simp add: kr_edges_def)
  have nm: "j \<notin> mem Q" "{e \<in> kr_edges S sg. e < Suc j} = mem Q \<union> (if j \<in> kr_edges S sg then {j} else {})"
    using Suc.prems(4) by (auto simp: less_Suc_eq)
  have "\<exists>Q1. kr_insert ins ch pot sg S1 j Q = Inr Q1 \<and> inv Q1 \<and> rng Q1 = sp_mAct S \<and> mem Q1 = {e \<in> kr_edges S sg. e < Suc j}
    \<and> (\<forall>e \<in> mem Q1. key Q1 e = sg * wt S ch pot e)"
  proof (cases "j \<in> kr_edges S sg")
    case True
    obtain Q1 where Q1: "ins Q j (sg * wt S ch pot j) = Inr Q1" "mem Q1 = insert j (mem Q)"
      "\<forall>y \<in> mem Q1. key Q1 y = ((key Q)(j := sg * wt S ch pot j)) y" "rng Q1 = rng Q" "inv Q1"
      using prio_ins [OF Suc.prems(2), of j "sg * wt S ch pot j"] j Suc.prems(3) nm(1) k by auto
    have "mem Q1 = {e \<in> kr_edges S sg. e < Suc j}" using Q1(2) nm(2) True by auto
    moreover have "kr_insert ins ch pot sg S1 j Q = Inr Q1"
      using True jE l eq MST_Length_wt [OF d j] Q1(1) by (simp add: kr_insert_def)
    moreover have "\<forall>e \<in> mem Q1. key Q1 e = sg * wt S ch pot e" using Q1(2,3) Suc.prems(5) by auto
    ultimately show ?thesis using Q1(4,5) Suc.prems(3) by (intro exI [of _ Q1]) simp
  next
    case False
    then have "kr_insert ins ch pot sg S1 j Q = Inr Q" using jE l eq by (auto simp: kr_insert_def)
    then show ?thesis using False nm(2) Suc.prems(2,3,5) by simp
  qed
  then obtain Q1 where Q1: "kr_insert ins ch pot sg S1 j Q = Inr Q1" "inv Q1" "rng Q1 = sp_mAct S" "mem Q1 = {e \<in> kr_edges S sg. e < Suc j}"
    "\<And>e. e \<in> mem Q1 \<Longrightarrow> key Q1 e = sg * wt S ch pot e" by blast
  obtain Q' where "rfold (kr_insert ins ch pot sg S1) [Suc j..<sp_mAct S] Q1 = Inr Q'" "inv Q'" "mem Q' = kr_edges S sg"
    "\<And>e. e \<in> mem Q' \<Longrightarrow> key Q' e = sg * wt S ch pot e"
    using Suc.hyps(1) [OF i(1) _ Q1(2-5) i(2)] by blast
  then show ?case using Suc.prems(1) [of Q'] j Q1(1) by (simp add: upt_conv_Cons)
qed

lemma kr_loop_ok:
  assumes d: "kr_data S ch pot"
  shows "inv Q \<Longrightarrow> (\<And>e. e \<in> mem Q \<Longrightarrow> key Q e = sg * wt S ch pot e) \<Longrightarrow> kr_inv S ch pot sg (kr_edges S sg) T (mem Q) st \<Longrightarrow>
    \<exists>T' R' st'. kr_loop isEmpty del (kr_edge lw c ch pot r) (sp_nAct S) Q st = Some (Inr st')
      \<and> kr_inv S ch pot sg (kr_edges S sg) T' R' st' \<and> (R' = {} \<or> \<not> kr_rank st' < sp_nAct S - 1)"
proof (induction "card (mem Q)" arbitrary: Q T st rule: less_induct)
  case less
  show ?case
  proof (cases "mem Q = {} \<or> \<not> kr_rank st < sp_nAct S - 1")
    case True
    then have "kr_loop isEmpty del (kr_edge lw c ch pot r) (sp_nAct S) Q st = Some (Inr st)"
      using prio_empty [OF less.prems(1)] by (subst kr_loop.simps) auto
    then show ?thesis using less.prems(3) True by blast
  next
    case False
    then obtain x Q1 where Q1: "del Q = Inr (x, Q1)" "x \<in> mem Q" "\<forall>y \<in> mem Q. key Q x \<le> key Q y" "mem Q1 = mem Q - {x}"
      "\<forall>y \<in> mem Q1. key Q1 y = key Q y" "inv Q1"
      using prio_del [OF less.prems(1)] by metis
    have least: "sg * wt S ch pot x \<le> sg * wt S ch pot f" if "f \<in> mem Q" for f
      using Q1(2,3) that less.prems(2) [of x] less.prems(2) [of f] by force
    obtain T1 st1 where st1: "kr_edge lw c ch pot r (2 * x) st = Some (Inr st1)" "kr_inv S ch pot sg (kr_edges S sg) T1 (mem Q - {x}) st1"
      by (rule kr_edge_ok [OF d less.prems(3) Q1(2) least])
    have less': "card (mem Q1) < card (mem Q)" unfolding Q1(4) by (rule card_Diff1_less) (use Q1(2) prio_mem [OF less.prems(1)] in auto)
    have keys: "key Q1 e = sg * wt S ch pot e" if "e \<in> mem Q1" for e using Q1(4,5) less.prems(2) [of e] that by auto
    have i: "kr_inv S ch pot sg (kr_edges S sg) T1 (mem Q1) st1" using st1(2) Q1(4) by simp
    have "kr_loop isEmpty del (kr_edge lw c ch pot r) (sp_nAct S) Q st = kr_loop isEmpty del (kr_edge lw c ch pot r) (sp_nAct S) Q1 st1"
      using False prio_empty [OF less.prems(1)] Q1(1) st1(1) by (subst kr_loop.simps) auto
    then show ?thesis using less.hyps [OF less' Q1(6) keys i] by simp
  qed
qed

end

text \<open>What the state tells when the loop has ended.\<close>

lemma kr_final:
  assumes i: "kr_inv S ch pot sg E T R st" and R: "R = {} \<or> \<not> kr_rank st < sp_nAct S - 1" and n: "0 < sp_nAct S"
    and fin: "finite E"
  shows "kr_rank st < sp_nAct S - 1 \<longleftrightarrow> \<not> spanning S E"
    and "spanning S E \<Longrightarrow> tree S E T \<and> (\<forall>M. tree S E M \<longrightarrow> sg * sum (wt S ch pot) T \<le> sg * sum (wt S ch pot) M)"
proof -
  have part: "part_ok S T (kr_D st)" and rank: "card (reps (kr_D st)) + kr_rank st = sp_nAct S" "kr_rank st = card T"
    and g: "greedy S E (\<lambda>e. sg * wt S ch pot e) T R"
    using i by (simp_all add: kr_inv_def)
  have T: "T \<subseteq> E" using g by (simp add: greedy_def)
  have sT: "spanning S T \<longleftrightarrow> \<not> kr_rank st < sp_nAct S - 1"
  proof -
    have r: "finite (reps (kr_D st))" using part reps_finite by (auto simp: part_ok_def)
    obtain x where "df_sets (kr_D st) 0 x" using part n by (auto simp: part_ok_def)
    then have "reps (kr_D st) \<noteq> {}" using part canonical_rep [of "kr_D st" 0 x] by (auto simp: part_ok_def)
    then have "0 < card (reps (kr_D st))" using r by (simp add: card_gt_0_iff)
    then show ?thesis unfolding part_spanning [OF part n] using rank(1) by linarith
  qed
  have TE: "spanning S T" if "spanning S E"
  proof (rule ccontr)
    assume "\<not> spanning S T"
    then have "conn S E \<subseteq> conn S T" using R sT g by (intro conn_sub) (auto simp: greedy_def)
    then show False using that \<open>\<not> spanning S T\<close> by (auto simp: spanning_def)
  qed
  have "spanning S E" if "spanning S T" using that conn_mono [OF T] by (auto simp: spanning_def)
  then show "kr_rank st < sp_nAct S - 1 \<longleftrightarrow> \<not> spanning S E" using sT TE by blast
  show "tree S E T \<and> (\<forall>M. tree S E M \<longrightarrow> sg * sum (wt S ch pot) T \<le> sg * sum (wt S ch pot) M)" if "spanning S E"
  proof (intro conjI allI impI)
    have "card (reps (kr_D st)) = 1" using part_spanning [OF part n] TE [OF that] by simp
    then have "card T = sp_nAct S - 1" using rank by simp
    then show tree: "tree S E T" using T TE [OF that] by (simp add: tree_def)
    fix M assume "tree S E M"
    then obtain N where N: "tree S E N" "T \<subseteq> N" "(\<Sum>e \<in> N. sg * wt S ch pot e) \<le> (\<Sum>e \<in> M. sg * wt S ch pot e)"
      using g by (auto simp: greedy_def)
    have "finite N" using N(1) fin finite_subset by (auto simp: tree_def)
    then have "N = T" using N(1,2) tree card_subset_eq [of N T] by (simp add: tree_def)
    then show "sg * sum (wt S ch pot) T \<le> sg * sum (wt S ch pot) M" using N(3) by (simp add: sum_distrib_left)
  qed
qed

context prio_queue
begin

lemma Kruskal_correct:
  assumes inv: "sp_inv S" and d: "kr_data S ch pot" and r: "(if r0 = NoNode then 0 else r0) < sp_nAct S"
    and rank0: "length rank0 = sp_nAct S" and Q: "inv Q" "mem Q = {}" "rng Q = sp_mAct S" and k: "\<And>x. okkey x"
    and sg: "sg = (if spx_has ch MST_MAX then - 1 else 1)"
  obtains x st T where "sp_Kruskal isEmpty del ins Q lw c rank0 S ch pot r0 = Some (Inr (x, st))" "only_sub S (kr_S st)" "sp_inv (kr_S st)"
    "\<And>e. e < sp_mAct S \<Longrightarrow> sp_Sub (kr_S st) (2 * e) = Inr (if e \<in> T then 1 else 0)"
    "spanning S (kr_edges S sg) \<Longrightarrow> tree S (kr_edges S sg) T \<and> x = sum (wt S ch pot) T
       \<and> (\<forall>M. tree S (kr_edges S sg) M \<longrightarrow> sg * x \<le> sg * sum (wt S ch pot) M)"
    "\<not> spanning S (kr_edges S sg) \<Longrightarrow> x = sg * InfFloat"
proof -
  let ?n = "sp_nAct S" and ?E = "kr_edges S sg" and ?r = "if r0 = NoNode then 0 else r0"
  have finE: "finite ?E" by (rule finite_subset [of _ "{..<sp_mAct S}"]) (auto simp: kr_edges_def)
  obtain S1 where S1: "sp_InitSubgraph S = Inr S1" "only_sub S S1" "sp_inv S1" "\<And>e. e < sp_mAct S \<Longrightarrow> sp_Sub S1 (2 * e) = Inr 0"
    using InitSubgraph_ok [OF d inv] by blast
  obtain D where D: "rfold (G_Bud lw ?n) [0..<?n] (disjointFamily ?n [] rank0) = Inr D" "part_ok S {} D" "card (reps D) = ?n"
    by (rule Bud_part [OF rank0])
  have lower: "sp_lower_bounds S1 = (False, S1)" by (rule data_lower_bounds [OF d only_sub_simps(2) [OF S1(2)]])
  let ?st = "\<lparr>kr_S = S1, kr_D = D, kr_sum = 0, kr_rank = 0, kr_stop = False\<rparr>"
  obtain Q1 where Q1: "rfold (kr_insert ins ch pot sg S1) [0..<sp_mAct S] Q = Inr Q1" "inv Q1" "mem Q1 = ?E"
    "\<And>e. e \<in> mem Q1 \<Longrightarrow> key Q1 e = sg * wt S ch pot e"
    by (rule kr_fill [OF d S1(2) k Q(1,3), of sg 0]) (use Q(2) in auto)
  have "kr_inv S ch pot sg ?E {} (mem Q1) ?st" using S1(2-4) D(2,3) Q1(3) by (simp add: kr_inv_def greedy_start)
  then obtain T R st where st: "kr_loop isEmpty del (kr_edge lw c ch pot ?r) ?n Q1 ?st = Some (Inr st)" "kr_inv S ch pot sg ?E T R st"
    "R = {} \<or> \<not> kr_rank st < ?n - 1"
    using kr_loop_ok [OF d Q1(2,4), of "{}" ?st lw c ?r] by blast
  have n: "0 < ?n" using r by simp
  note f = kr_final [OF st(2,3) n finE]
  let ?x = "if kr_rank st < ?n - 1 then sg * InfFloat else kr_sum st"
  have run: "sp_Kruskal isEmpty del ins Q lw c rank0 S ch pot r0 = Some (Inr (?x, st))"
    using r S1(1) D(1) lower Q1(1) st(1) d only_sub_simps(7) [OF S1(2)] unfolding sp_Kruskal_def sg [symmetric]
    by (simp add: kr_data_def Let_def)
  have "kr_sum st = sum (wt S ch pot) T" using st(2) by (simp add: kr_inv_def)
  then show thesis using that [OF run] st(2) f by (simp add: kr_inv_def)
qed

end

section \<open>An example\<close>

text \<open>Two nodes and an edge of length 5, with the constant lower bound 0.\<close>

definition mt_example :: sparse where
  "mt_example = (case sp_SetCLCap sp_example 0 of Inr S \<Rightarrow> S | Inl e \<Rightarrow> sp_example)"

lemma mt_example_eq:
  "sp_SetCLCap sp_example 0 = Inr mt_example"
  "mt_example = (sp_ReleaseSubgraph sp_example)\<lparr>sp_representation := attributePool_ReleaseAttribute (sp_representation sp_example) TokReprLCap\<rparr>"
  by (simp_all add: mt_example_def sp_SetCLCap_def set_constant_def sp_ReleaseSubgraph_def)

lemma mt_example_facts:
  "sp_history mt_example" "sp_mAct mt_example = 1" "sp_nAct mt_example = 2" "ends mt_example 0 = (0, 1)"
  "sp_Length mt_example 0 = Inr 5" "sp_UCap mt_example 0 = 2" "kr_data mt_example 0 None"
proof -
  show "sp_history mt_example"
    by (rule sp_history.step [OF sp_example_facts(1), of "Op_SetCLCap 0"]) (simp_all only: sp_guard.simps sp_exec.simps mt_example_eq(1) order_refl)
  show m: "sp_mAct mt_example = 1" and n: "sp_nAct mt_example = 2" and e: "ends mt_example 0 = (0, 1)"
    using sp_example_facts by (simp_all add: mt_example_eq(2) sp_ReleaseSubgraph_def ends_def)
  have pools: "pools_ok sp_example" by (rule inv_pools [OF sp_history_inv [OF sp_example_facts(1)]])
  then have ap: "ap_inv (sp_SizeInfo sp_example) (sp_representation sp_example)" and tb: "ap_table (sp_representation sp_example) = listOfReprPars"
    by (simp_all add: pools_ok_def)
  have prim: "s \<in> repr_tokens \<Longrightarrow> primary (sp_representation sp_example) s = s" for s using repr_tokens_table(2) [of s] by (simp add: primary_def tb)
  have val: "attributePool_GetValue (sp_representation mt_example) s k w = attributePool_GetValue (sp_representation sp_example) s k w"
    if "s \<in> repr_tokens" "s \<noteq> TokReprLCap" for s k w
    using Release_values [OF ap, of TokReprLCap s k w] that prim [OF that(1)] prim [OF repr_tokens_mem(2)] by (simp add: mt_example_eq(2))
  show u: "sp_UCap mt_example 0 = 2"
    using val [OF repr_tokens_mem(1)] sp_example_UCap by (simp add: sp_UCap_def token_defs)
  have "sp_Length sp_example 0 = Inr 5"
    using sp_example_cost [of 0] Length_Inr [of 0 sp_example] sp_example_facts(2)
    by (auto simp: cost_def dj_cost_def SPX_PLAIN_def)
  moreover have metric: "attributePool_GetValue (sp_geometry sp_example) TokGeoMetric 0 0 = 0" by (rule sp_example_metric)
  ultimately have "attributePool_GetValue (sp_representation sp_example) TokReprLength 0 1 = 5"
    using sp_example_facts(2) by (simp add: sp_Length_def)
  moreover have "sp_geometry mt_example = sp_geometry sp_example" by (simp add: mt_example_eq(2) sp_ReleaseSubgraph_def)
  ultimately show "sp_Length mt_example 0 = Inr 5"
    using metric m val [OF repr_tokens_mem(3)] by (simp add: sp_Length_def token_defs)
  have "attributePool_FindAttribute (sp_representation mt_example) TokReprLCap = None"
    using ap by (simp add: mt_example_eq(2) attributePool_FindAttribute_def attributePool_ReleaseAttribute_def search_remove ap_inv_def primary_def)
  then show "kr_data mt_example 0 None"
    using e m n u by (auto simp: kr_data_def no_cancelled_def ends_def spx_has_def MST_ONE_CYCLE_def less_2_cases_iff)
qed

lemma mt_example_tree:
  "kr_edges mt_example 1 = {0}" "spanning mt_example {0}" "wt mt_example 0 None 0 = 5"
proof -
  note f = mt_example_facts
  show "kr_edges mt_example 1 = {0}" using f(2,5,6) by (auto simp: kr_edges_def InfFloat_def)
  have c: "(0, 1) \<in> conn mt_example {0}" using conn_edge [of 0 "{0}" mt_example] f(4) by simp
  then have "(1, 0) \<in> conn mt_example {0}" by (rule conn_sym [THEN iffD1])
  then show "spanning mt_example {0}" using c f(3) by (auto simp: spanning_def less_2_cases_iff)
  show "wt mt_example 0 None 0 = 5" using f(5) by (simp add: wt_def MST_Length_def spx_has_def MST_REDUCED_def)
qed

section \<open>Properties\<close>

text \<open>
  C5: \<open>MST_Kruskal\<close> with a binary heap of the edges, for spanning trees of a graph without cancelled
  arcs and lower bounds, ends without an exception. When the edges of positive capacity and finite length
  connect the nodes, the edges with multiplicity 1 form a spanning tree, the returned value is the sum of
  their lengths, and no spanning tree is shorter (longer with \<open>MST_MAX\<close>). Otherwise it returns the infinite length.
  Only the multiplicities change, and the invariant of the representation is kept.
\<close>

theorem Kruskal_binaryHeap:
  assumes "sp_history S" and "kr_data S ch pot" and "(if r0 = NoNode then 0 else r0) < sp_nAct S"
    and "length rank0 = sp_nAct S" and "length v0 = Suc (sp_mAct S)" and "length key0 = sp_mAct S"
    and "sg = (if spx_has ch MST_MAX then - 1 else 1)"
  shows "\<exists>x st T. sp_Kruskal binaryHeap_Empty binaryHeap_Delete binaryHeap_Insert (binaryHeap (sp_mAct S) v0 key0) lw c rank0 S ch pot r0
      = Some (Inr (x, st)) \<and> only_sub S (kr_S st) \<and> sp_inv (kr_S st)
    \<and> (\<forall>e < sp_mAct S. sp_Sub (kr_S st) (2 * e) = Inr (if e \<in> T then 1 else 0))
    \<and> (spanning S (kr_edges S sg) \<longrightarrow> tree S (kr_edges S sg) T \<and> x = sum (wt S ch pot) T
        \<and> (\<forall>M. tree S (kr_edges S sg) M \<longrightarrow> sg * x \<le> sg * sum (wt S ch pot) M))
    \<and> (\<not> spanning S (kr_edges S sg) \<longrightarrow> x = sg * InfFloat)"
proof -
  have inv: "sp_inv S" by (rule sp_history_inv [OF assms(1)])
  have "2 * sp_mAct S \<le> NoArc" using sp_inv_shape [OF inv] by (auto simp: sp_shape_def)
  then have "sp_mAct S < UITEM_MAX" by (simp add: NoArc_def UITEM_MAX_def)
  note H = binaryHeap_new_inv [OF assms(5,6) this]
  show ?thesis
    by (rule binheap.Kruskal_correct [OF inv assms(2-4) H _ _ assms(7), of lw c]) (simp add: binaryHeap_def, simp, blast)
qed

theorem Kruskal_binaryHeap_witness:
  "\<exists>st. sp_Kruskal binaryHeap_Empty binaryHeap_Delete binaryHeap_Insert (binaryHeap 1 [0, 0] [0]) True True [0, 0] mt_example 0 None NoNode
     = Some (Inr (5, st)) \<and> sp_Sub (kr_S st) 0 = Inr 1"
proof -
  note f = mt_example_facts and t = mt_example_tree
  have s: "(1::real) = (if spx_has 0 MST_MAX then - 1 else 1)" by (simp add: spx_has_def MST_MAX_def)
  obtain x st T where r: "sp_Kruskal binaryHeap_Empty binaryHeap_Delete binaryHeap_Insert (binaryHeap 1 [0, 0] [0]) True True [0, 0] mt_example 0 None NoNode = Some (Inr (x, st))"
    "\<forall>e < sp_mAct mt_example. sp_Sub (kr_S st) (2 * e) = Inr (if e \<in> T then 1 else 0)"
    "tree mt_example {0} T" "x = sum (wt mt_example 0 None) T"
    using Kruskal_binaryHeap [OF f(1,7) _ _ _ _ s, of NoNode "[0, 0]" "[0, 0]" "[0]" True True] f(2,3) t(1,2) by auto
  have "T = {0}" using r(3) f(3) by (auto simp: tree_def subset_singleton_iff)
  then show ?thesis using r(1,2,4) f(2) t(3) by auto
qed

text \<open>
  The same holds of \<open>MST_Kruskal\<close> on a Fibonacci heap, which inserts and deletes edges but never changes a
  key.
\<close>

theorem Kruskal_fibonacciHeap:
  assumes "sp_history S" and "kr_data S ch pot" and "(if r0 = NoNode then 0 else r0) < sp_nAct S"
    and "length rank0 = sp_nAct S" and "sg = (if spx_has ch MST_MAX then - 1 else 1)"
    and "length a1 = sp_mAct S" "length a2 = sp_mAct S" "length a3 = sp_mAct S" "length a4 = sp_mAct S" "length a5 = sp_mAct S" "length key0 = sp_mAct S"
  shows "\<exists>x st T. sp_Kruskal fibonacciHeap_Empty (\<lambda>H. the (fibonacciHeap_Delete H)) fibonacciHeap_Insert
      (fibonacciHeap (sp_mAct S) a1 a2 a3 a4 a5 key0) lw c rank0 S ch pot r0 = Some (Inr (x, st)) \<and> only_sub S (kr_S st) \<and> sp_inv (kr_S st)
    \<and> (\<forall>e < sp_mAct S. sp_Sub (kr_S st) (2 * e) = Inr (if e \<in> T then 1 else 0))
    \<and> (spanning S (kr_edges S sg) \<longrightarrow> tree S (kr_edges S sg) T \<and> x = sum (wt S ch pot) T
        \<and> (\<forall>M. tree S (kr_edges S sg) M \<longrightarrow> sg * x \<le> sg * sum (wt S ch pot) M))
    \<and> (\<not> spanning S (kr_edges S sg) \<longrightarrow> x = sg * InfFloat)"
proof -
  note H = new_heap [OF assms(6-11)]
  show ?thesis
    by (rule fibheap.Kruskal_correct [OF sp_history_inv [OF assms(1)] assms(2-4) H _ assms(5), of lw c]) (simp, blast)
qed

theorem Kruskal_fibonacciHeap_witness:
  "\<exists>st. sp_Kruskal fibonacciHeap_Empty (\<lambda>H. the (fibonacciHeap_Delete H)) fibonacciHeap_Insert (fibonacciHeap 1 [0] [0] [0] [0] [0] [0])
     True True [0, 0] mt_example 0 None NoNode = Some (Inr (5, st)) \<and> sp_Sub (kr_S st) 0 = Inr 1"
proof -
  note f = mt_example_facts and t = mt_example_tree
  have s: "(1::real) = (if spx_has 0 MST_MAX then - 1 else 1)" by (simp add: spx_has_def MST_MAX_def)
  obtain x st T where r: "sp_Kruskal fibonacciHeap_Empty (\<lambda>H. the (fibonacciHeap_Delete H)) fibonacciHeap_Insert (fibonacciHeap 1 [0] [0] [0] [0] [0] [0])
      True True [0, 0] mt_example 0 None NoNode = Some (Inr (x, st))"
    "\<forall>e < sp_mAct mt_example. sp_Sub (kr_S st) (2 * e) = Inr (if e \<in> T then 1 else 0)"
    "tree mt_example {0} T" "x = sum (wt mt_example 0 None) T"
    using Kruskal_fibonacciHeap [OF f(1,7) _ _ s, of NoNode "[0, 0]" "[0]" "[0]" "[0]" "[0]" "[0]" "[0]" True True] f(2,3) t(1,2) by auto
  have "T = {0}" using r(3) f(3) by (auto simp: tree_def subset_singleton_iff)
  then show ?thesis using r(1,2,4) f(2) t(3) by auto
qed

end
