(* ===== verification/Result_Logic.thy ===== *)
theory Result_Logic
  imports Goblin_Prelude
begin

text \<open>
  A calculus for calls that return a value or an exception. \<open>oret E P r\<close> says that the call \<open>r\<close>
  returns, that an exception of it satisfies \<open>E\<close> and a value \<open>P\<close>. There are rules for
  sequences of calls and for counting loops with an invariant; with \<open>E\<close> false everywhere the call
  returns a value.
\<close>

definition oret :: "(goblin_error \<Rightarrow> bool) \<Rightarrow> ('a \<Rightarrow> bool) \<Rightarrow> 'a result option \<Rightarrow> bool" where
  "oret E P r = (case r of None \<Rightarrow> False | Some (Inl e) \<Rightarrow> E e | Some (Inr x) \<Rightarrow> P x)"

lemma oret_simps [simp]: "\<not> oret E P None" "oret E P (Some (Inl e)) = E e" "oret E P (Some (Inr x)) = P x"
  by (simp_all add: oret_def)

lemma oret_iff: "oret E P r \<longleftrightarrow> (\<exists>e. r = Some (Inl e) \<and> E e) \<or> (\<exists>x. r = Some (Inr x) \<and> P x)"
  by (auto simp: oret_def split: option.splits sum.splits)

lemma oretE:
  assumes "oret E P r"
  obtains (err) e where "r = Some (Inl e)" "E e" | (val) x where "r = Some (Inr x)" "P x"
  using assms by (auto simp: oret_iff)

lemma oret_value: "oret (\<lambda>e. False) P r \<longleftrightarrow> (\<exists>x. r = Some (Inr x) \<and> P x)"
  by (simp add: oret_iff)

lemma oret_mono: "oret E P r \<Longrightarrow> (\<And>e. E e \<Longrightarrow> E' e) \<Longrightarrow> (\<And>x. P x \<Longrightarrow> Q x) \<Longrightarrow> oret E' Q r"
  by (auto simp: oret_iff)

lemma oret_post: "oret E P r \<Longrightarrow> (\<And>x. P x \<Longrightarrow> Q x) \<Longrightarrow> oret E Q r"
  by (erule oret_mono)

lemma oret_obind: "oret E (\<lambda>x. oret E P (f x)) r \<Longrightarrow> oret E P (obind r f)"
  by (auto simp: oret_iff)

lemma obind_assoc: "obind (obind r f) g = obind r (\<lambda>x. obind (f x) g)"
  by (cases r) (auto simp: obind_def split: sum.split)

lemma oret_seq: "oret E Q r \<Longrightarrow> (\<And>x. Q x \<Longrightarrow> oret E P (f x)) \<Longrightarrow> oret E P (obind r f)"
  by (rule oret_obind) (rule oret_post)

text \<open>A call that returns a known value.\<close>

lemma oret_call: "r = Some (Inr x) \<Longrightarrow> oret E P (f x) \<Longrightarrow> oret E P (obind r f)"
  by simp

text \<open>The loop over a list; the invariant knows the part that has been done.\<close>

lemma oret_ofold:
  assumes "\<And>as a bs st. xs = as @ a # bs \<Longrightarrow> I as st \<Longrightarrow> oret E (I (as @ [a])) (f a st)" and "I [] st"
  shows "oret E (I xs) (ofold f xs st)"
proof -
  have "I as st \<Longrightarrow> xs = as @ bs \<Longrightarrow> oret E (I xs) (ofold f bs st)" for as bs st
  proof (induction bs arbitrary: as st)
    case Nil
    then show ?case by simp
  next
    case (Cons b bs)
    have "oret E (I (as @ [b])) (f b st)" using assms(1) Cons.prems by blast
    then show ?case unfolding ofold.simps
      by (rule oret_seq) (rule Cons.IH [of "as @ [b]"], simp_all add: Cons.prems)
  qed
  from this [of "[]" st xs] assms(2) show ?thesis by simp
qed

lemma upt_split: "[m..<n] = as @ a # bs \<Longrightarrow> as = [m..<a] \<and> m \<le> a \<and> a < n"
proof -
  assume eq: "[m..<n] = as @ a # bs"
  have a: "a = m + length as" "length as < n - m"
    using arg_cong [OF eq, of "\<lambda>xs. xs ! length as"] arg_cong [OF eq, of length] by simp_all
  have "as = take (length as) [m..<n]" using eq by simp
  also have "\<dots> = [m..<a]" using a by (simp add: take_upt)
  finally show ?thesis using a by simp
qed

lemma oret_upt:
  assumes "m \<le> n" "I m st" and "\<And>i st. m \<le> i \<Longrightarrow> i < n \<Longrightarrow> I i st \<Longrightarrow> oret E (I (Suc i)) (f i st)"
  shows "oret E (I n) (ofold f [m..<n] st)"
proof -
  have "oret E (\<lambda>s. I (m + length [m..<n]) s) (ofold f [m..<n] st)"
  proof (rule oret_ofold)
    fix as a bs st assume "[m..<n] = as @ a # bs" "I (m + length as) st"
    with assms(3) [of a st] upt_split [of m n as a bs] show "oret E (\<lambda>s. I (m + length (as @ [a])) s) (f a st)" by auto
  qed (simp add: assms(2))
  then show ?thesis using assms(1) by simp
qed

text \<open>A counting loop that runs down.\<close>

lemma oret_downt:
  assumes "m \<le> n" "I n st" and "\<And>i st. m \<le> i \<Longrightarrow> i < n \<Longrightarrow> I (Suc i) st \<Longrightarrow> oret E (I i) (f i st)"
  shows "oret E (I m) (ofold f (rev [m..<n]) st)"
  using assms
proof (induction n arbitrary: st rule: dec_induct)
  case base
  then show ?case by simp
next
  case (step n)
  have "oret E (I n) (f n st)" using step.prems step.hyps by simp
  then show ?case using step.hyps step.IH step.prems(2) by (simp add: oret_seq)
qed

text \<open>One entry of a matrix.\<close>

definition upd2 :: "nat \<Rightarrow> nat \<Rightarrow> 'a \<Rightarrow> (nat \<Rightarrow> nat \<Rightarrow> 'a) \<Rightarrow> nat \<Rightarrow> nat \<Rightarrow> 'a" where
  "upd2 i j a f = f(i := (f i)(j := a))"

end
