(* ===== verification/Matrix.thy ===== *)
theory Matrix
  imports Hash_Table Result_Logic
begin

text \<open>
  The matrix objects (\<^verbatim>\<open>include/matrix.h\<close>, \<^verbatim>\<open>lib_src/matrix.cpp\<close>): the dense class with
  an array of coefficients, the sparse class on a hash table, and the methods of the base class that
  reach the coefficients through the virtual functions \<open>Coeff\<close> and \<open>SetCoeff\<close>: sums, products
  and the elimination method. Different arguments are different objects. The contract of the two virtual
  functions is the locale \<open>coeff_matrix\<close>; both classes and the dispatcher interpret it.
\<close>

section \<open>The classes\<close>

record dense_matrix =
  dm_k :: nat
  dm_l :: nat
  dm_transp :: bool
  dm_coeff :: "TFloat list"

record sparse_matrix =
  sm_k :: nat
  sm_l :: nat
  sm_transp :: bool
  sm_coeff :: "TFloat hash_table"

text \<open>An object of the abstract class is an object of one of the two derived classes.\<close>

datatype goblinMatrix = Dense dense_matrix | Sparse sparse_matrix

fun mx_k :: "goblinMatrix \<Rightarrow> nat" where
  "mx_k (Dense D) = dm_k D" | "mx_k (Sparse M) = sm_k M"

fun mx_l :: "goblinMatrix \<Rightarrow> nat" where
  "mx_l (Dense D) = dm_l D" | "mx_l (Sparse M) = sm_l M"

fun mx_transp :: "goblinMatrix \<Rightarrow> bool" where
  "mx_transp (Dense D) = dm_transp D" | "mx_transp (Sparse M) = sm_transp M"

definition mx_K :: "goblinMatrix \<Rightarrow> nat" where "mx_K M = (if mx_transp M then mx_l M else mx_k M)"
definition mx_L :: "goblinMatrix \<Rightarrow> nat" where "mx_L M = (if mx_transp M then mx_k M else mx_l M)"

fun mx_Transpose :: "goblinMatrix \<Rightarrow> goblinMatrix" where
  "mx_Transpose (Dense D) = Dense (D\<lparr>dm_transp := (dm_transp D = False)\<rparr>)"
| "mx_Transpose (Sparse M) = Sparse (M\<lparr>sm_transp := (sm_transp M = False)\<rparr>)"

text \<open>The dense class: the coefficients row by row.\<close>

definition denseMatrix :: "nat \<Rightarrow> nat \<Rightarrow> dense_matrix" where
  "denseMatrix kk ll = \<lparr>dm_k = kk, dm_l = ll, dm_transp = False, dm_coeff = replicate (kk * ll) 0\<rparr>"

definition denseMatrix_Coeff :: "dense_matrix \<Rightarrow> nat \<Rightarrow> nat \<Rightarrow> TFloat result option" where
  "denseMatrix_Coeff D i j =
     (if \<not> dm_transp D \<and> i \<ge> dm_k D then Some (Inl ERRange)
      else if \<not> dm_transp D \<and> j \<ge> dm_l D then Some (Inl ERRange)
      else if dm_transp D \<and> i \<ge> dm_l D then Some (Inl ERRange)
      else if dm_transp D \<and> j \<ge> dm_k D then Some (Inl ERRange)
      else let p = (if dm_transp D then dm_l D * j + i else dm_l D * i + j)
        in if p \<ge> length (dm_coeff D) then Some (Inl OutOfBounds) else Some (Inr (dm_coeff D ! p)))"

definition denseMatrix_SetCoeff :: "dense_matrix \<Rightarrow> nat \<Rightarrow> nat \<Rightarrow> TFloat \<Rightarrow> dense_matrix result option" where
  "denseMatrix_SetCoeff D i j a =
     (if \<not> dm_transp D \<and> i \<ge> dm_k D then Some (Inl ERRange)
      else if \<not> dm_transp D \<and> j \<ge> dm_l D then Some (Inl ERRange)
      else if dm_transp D \<and> i \<ge> dm_l D then Some (Inl ERRange)
      else if dm_transp D \<and> j \<ge> dm_k D then Some (Inl ERRange)
      else if a \<ge> InfFloat \<or> a \<le> - InfFloat then Some (Inl ERRange)
      else let p = (if dm_transp D then dm_l D * j + i else dm_l D * i + j)
        in if p \<ge> length (dm_coeff D) then Some (Inl OutOfBounds)
           else Some (Inr (D\<lparr>dm_coeff := (dm_coeff D)[p := a]\<rparr>)))"

text \<open>The sparse class; \<open>index0\<close> and \<open>key0\<close> are the first contents of the arrays of the table.\<close>

definition sparseMatrix :: "nat \<Rightarrow> nat \<Rightarrow> nat \<Rightarrow> nat list \<Rightarrow> TFloat list \<Rightarrow> sparse_matrix result" where
  "sparseMatrix kk ll siz index0 key0 =
     rbind (goblinHashTable (kk * ll) siz 0 index0 key0) (\<lambda>H.
       Inr \<lparr>sm_k = kk, sm_l = ll, sm_transp = False, sm_coeff = H\<rparr>)"

definition sparseMatrix_Coeff :: "sparse_matrix \<Rightarrow> nat \<Rightarrow> nat \<Rightarrow> TFloat result option" where
  "sparseMatrix_Coeff M i j =
     (if \<not> sm_transp M \<and> i \<ge> sm_k M then Some (Inl ERRange)
      else if \<not> sm_transp M \<and> j \<ge> sm_l M then Some (Inl ERRange)
      else if sm_transp M \<and> i \<ge> sm_l M then Some (Inl ERRange)
      else if sm_transp M \<and> j \<ge> sm_k M then Some (Inl ERRange)
      else goblinHashTable_Key (sm_coeff M) (if sm_transp M then sm_l M * j + i else sm_l M * i + j))"

definition sparseMatrix_SetCoeff :: "sparse_matrix \<Rightarrow> nat \<Rightarrow> nat \<Rightarrow> TFloat \<Rightarrow> sparse_matrix result option" where
  "sparseMatrix_SetCoeff M i j a =
     (if \<not> sm_transp M \<and> i \<ge> sm_k M then Some (Inl ERRange)
      else if \<not> sm_transp M \<and> j \<ge> sm_l M then Some (Inl ERRange)
      else if sm_transp M \<and> i \<ge> sm_l M then Some (Inl ERRange)
      else if sm_transp M \<and> j \<ge> sm_k M then Some (Inl ERRange)
      else if a \<ge> InfFloat \<or> a \<le> - InfFloat then Some (Inl ERRange)
      else obind (goblinHashTable_ChangeKey 2 (sm_coeff M)
             (if sm_transp M then sm_l M * j + i else sm_l M * i + j) a)
           (\<lambda>H. Some (Inr (M\<lparr>sm_coeff := H\<rparr>))))"

text \<open>The virtual functions.\<close>

fun mx_Coeff :: "goblinMatrix \<Rightarrow> nat \<Rightarrow> nat \<Rightarrow> TFloat result option" where
  "mx_Coeff (Dense D) i j = denseMatrix_Coeff D i j"
| "mx_Coeff (Sparse M) i j = sparseMatrix_Coeff M i j"

fun mx_SetCoeff :: "goblinMatrix \<Rightarrow> nat \<Rightarrow> nat \<Rightarrow> TFloat \<Rightarrow> goblinMatrix result option" where
  "mx_SetCoeff (Dense D) i j a = obind (denseMatrix_SetCoeff D i j a) (\<lambda>D'. Some (Inr (Dense D')))"
| "mx_SetCoeff (Sparse M) i j a = obind (sparseMatrix_SetCoeff M i j a) (\<lambda>M'. Some (Inr (Sparse M')))"

text \<open>The copy constructors. Two nested loops over rows and columns are one loop over the pairs.\<close>

definition cells :: "nat \<Rightarrow> nat \<Rightarrow> (nat \<times> nat) list" where
  "cells k l = List.product [0..<k] [0..<l]"

definition denseMatrix_copy :: "goblinMatrix \<Rightarrow> TFloat list \<Rightarrow> dense_matrix result option" where
  "denseMatrix_copy A coeff0 =
     obind (ofold (\<lambda>p c. obind (mx_Coeff A (fst p) (snd p)) (\<lambda>x.
         let q = mx_L A * fst p + snd p
         in if q \<ge> length c then Some (Inl OutOfBounds) else Some (Inr (c[q := x]))))
       (cells (mx_K A) (mx_L A)) coeff0)
     (\<lambda>c. Some (Inr \<lparr>dm_k = mx_K A, dm_l = mx_L A, dm_transp = False, dm_coeff = c\<rparr>))"

definition sparseMatrix_copy :: "goblinMatrix \<Rightarrow> nat list \<Rightarrow> TFloat list \<Rightarrow> sparse_matrix result option" where
  "sparseMatrix_copy A index0 key0 =
     obind (ofold (\<lambda>p n. obind (mx_Coeff A (fst p) (snd p)) (\<lambda>x.
         Some (Inr (if x \<noteq> 0 then Suc n else n)))) (cells (mx_K A) (mx_L A)) 0)
     (\<lambda>n. case goblinHashTable (mx_K A * mx_L A) n 0 (take n index0) (take n key0) of
        Inl e \<Rightarrow> Some (Inl e)
      | Inr H \<Rightarrow>
          obind (ofold (\<lambda>p H. obind (mx_Coeff A (fst p) (snd p)) (\<lambda>x.
              goblinHashTable_ChangeKey 2 H (mx_L A * fst p + snd p) x)) (cells (mx_K A) (mx_L A)) H)
          (\<lambda>H. Some (Inr \<lparr>sm_k = mx_K A, sm_l = mx_L A, sm_transp = False, sm_coeff = H\<rparr>)))"

section \<open>Sums and products\<close>

definition mx_Add :: "goblinMatrix \<Rightarrow> goblinMatrix \<Rightarrow> goblinMatrix result option" where
  "mx_Add M A =
     (if mx_L A \<noteq> mx_l M \<or> mx_K A \<noteq> mx_k M then Some (Inl ERRange)
      else ofold (\<lambda>p M. obind (mx_Coeff A (fst p) (snd p)) (\<lambda>x. obind (mx_Coeff M (fst p) (snd p)) (\<lambda>y.
             mx_SetCoeff M (fst p) (snd p) (x + y)))) (cells (mx_k M) (mx_l M)) M)"

definition mx_Sum :: "goblinMatrix \<Rightarrow> goblinMatrix \<Rightarrow> goblinMatrix \<Rightarrow> goblinMatrix result option" where
  "mx_Sum M A B =
     (if mx_L A \<noteq> mx_l M \<or> mx_L B \<noteq> mx_l M \<or> mx_K A \<noteq> mx_k M \<or> mx_K B \<noteq> mx_k M then Some (Inl ERRange)
      else ofold (\<lambda>p M. obind (mx_Coeff A (fst p) (snd p)) (\<lambda>x. obind (mx_Coeff B (fst p) (snd p)) (\<lambda>y.
             mx_SetCoeff M (fst p) (snd p) (x + y)))) (cells (mx_k M) (mx_l M)) M)"

definition mx_Product :: "goblinMatrix \<Rightarrow> goblinMatrix \<Rightarrow> goblinMatrix \<Rightarrow> goblinMatrix result option" where
  "mx_Product M A B =
     (if mx_L A \<noteq> mx_K B \<or> mx_K A \<noteq> mx_k M \<or> mx_L B \<noteq> mx_l M then Some (Inl ERRange)
      else ofold (\<lambda>p M. obind (ofold (\<lambda>m x. obind (mx_Coeff A (fst p) m) (\<lambda>a. obind (mx_Coeff B m (snd p)) (\<lambda>b.
               Some (Inr (x + a * b))))) [0..<mx_L A] 0)
             (\<lambda>x. mx_SetCoeff M (fst p) (snd p) x)) (cells (mx_k M) (mx_l M)) M)"

section \<open>The contract of the virtual functions\<close>

lemma ofold_map: "ofold f (map h xs) st = ofold (\<lambda>x. f (h x)) xs st"
proof (induction xs arbitrary: st)
  case (Cons x xs)
  then have "ofold f (map h xs) = ofold (\<lambda>x. f (h x)) xs" by (simp add: fun_eq_iff)
  then show ?case by simp
qed simp

text \<open>
  \<open>val q\<close> is the matrix that \<open>q\<close> stores, continued by zero. A write that the code accepts changes one
  coefficient; a write out of range or of an infinite coefficient is refused.
\<close>

locale coeff_matrix =
  fixes inv :: "'q \<Rightarrow> bool"
    and rows :: "'q \<Rightarrow> nat"
    and cols :: "'q \<Rightarrow> nat"
    and val :: "'q \<Rightarrow> nat \<Rightarrow> nat \<Rightarrow> TFloat"
    and coeff :: "'q \<Rightarrow> nat \<Rightarrow> nat \<Rightarrow> TFloat result option"
    and setc :: "'q \<Rightarrow> nat \<Rightarrow> nat \<Rightarrow> TFloat \<Rightarrow> 'q result option"
  assumes coeff_val: "inv q \<Longrightarrow> i < rows q \<Longrightarrow> j < cols q \<Longrightarrow> coeff q i j = Some (Inr (val q i j))"
    and coeff_range: "inv q \<Longrightarrow> \<not> (i < rows q \<and> j < cols q) \<Longrightarrow> coeff q i j = Some (Inl ERRange) \<and> val q i j = 0"
    and setc_range: "inv q \<Longrightarrow> \<not> (i < rows q \<and> j < cols q \<and> \<bar>a\<bar> < InfFloat) \<Longrightarrow> setc q i j a = Some (Inl ERRange)"
    and setc_val: "inv q \<Longrightarrow> i < rows q \<Longrightarrow> j < cols q \<Longrightarrow> \<bar>a\<bar> < InfFloat \<Longrightarrow>
      \<exists>q'. setc q i j a = Some (Inr q') \<and> inv q' \<and> rows q' = rows q \<and> cols q' = cols q \<and> val q' = upd2 i j a (val q)"
begin

definition like :: "'q \<Rightarrow> 'q \<Rightarrow> bool" where
  "like q q' \<longleftrightarrow> inv q' \<and> rows q' = rows q \<and> cols q' = cols q"

lemma like_refl: "inv q \<Longrightarrow> like q q"
  by (simp add: like_def)

lemma like_trans: "like q q' \<Longrightarrow> like q' q'' \<Longrightarrow> like q q''"
  by (simp add: like_def)

lemma like_inv: "like q q' \<Longrightarrow> inv q'"
  by (simp add: like_def)

lemma coeff_like: "like q q' \<Longrightarrow> i < rows q \<Longrightarrow> j < cols q \<Longrightarrow> coeff q' i j = Some (Inr (val q' i j))"
  by (simp add: like_def coeff_val)

lemma setc_oret:
  assumes "like q q'" "i < rows q" "j < cols q"
  shows "oret (\<lambda>e. e = ERRange \<and> InfFloat \<le> \<bar>a\<bar>) (\<lambda>q''. like q q'' \<and> val q'' = upd2 i j a (val q')) (setc q' i j a)"
  using setc_val [of q' i j a] setc_range [of q' i j a] assms
  by (cases "\<bar>a\<bar> < InfFloat") (auto simp: like_def)

text \<open>
  A loop that writes different cells. \<open>F\<close> gives the value for a cell as long as only the cells before it
  have been written.
\<close>

lemma fill_loop:
  assumes q: "inv q" and dist: "distinct ps" and rng: "\<And>p. p \<in> set ps \<Longrightarrow> fst p < rows q \<and> snd p < cols q"
    and F: "\<And>as p bs q'. ps = as @ p # bs \<Longrightarrow> like q q' \<Longrightarrow> (\<And>i j. (i, j) \<notin> set as \<Longrightarrow> val q' i j = val q i j)
      \<Longrightarrow> g p q' = Some (Inr (F p))"
  shows "oret (\<lambda>e. e = ERRange \<and> (\<exists>p \<in> set ps. InfFloat \<le> \<bar>F p\<bar>))
    (\<lambda>q'. like q q' \<and> val q' = (\<lambda>i j. if (i, j) \<in> set ps then F (i, j) else val q i j))
    (ofold (\<lambda>p q. obind (g p q) (setc q (fst p) (snd p))) ps q)"
proof (rule oret_ofold)
  fix as p bs q'
  assume ps: "ps = as @ p # bs" and I: "like q q' \<and> val q' = (\<lambda>i j. if (i, j) \<in> set as then F (i, j) else val q i j)"
  have p: "fst p < rows q" "snd p < cols q" "p \<in> set ps" using rng ps by auto
  have "g p q' = Some (Inr (F p))" using F [OF ps, of q'] I by simp
  moreover have "oret (\<lambda>e. e = ERRange \<and> (\<exists>p \<in> set ps. InfFloat \<le> \<bar>F p\<bar>))
    (\<lambda>q''. like q q'' \<and> val q'' = (\<lambda>i j. if (i, j) \<in> set (as @ [p]) then F (i, j) else val q i j)) (setc q' (fst p) (snd p) (F p))"
  proof (rule oret_mono [OF setc_oret [OF _ p(1,2)]])
    show "like q q'" using I by simp
    fix q'' assume "like q q'' \<and> val q'' = upd2 (fst p) (snd p) (F p) (val q')"
    then show "like q q'' \<and> val q'' = (\<lambda>i j. if (i, j) \<in> set (as @ [p]) then F (i, j) else val q i j)"
      using I by (cases p) (auto simp: upd2_def fun_eq_iff)
  qed (use p(3) in auto)
  ultimately show "oret (\<lambda>e. e = ERRange \<and> (\<exists>p \<in> set ps. InfFloat \<le> \<bar>F p\<bar>))
    (\<lambda>q'. like q q' \<and> val q' = (\<lambda>i j. if (i, j) \<in> set (as @ [p]) then F (i, j) else val q i j))
    (obind (g p q') (setc q' (fst p) (snd p)))" by simp
qed (simp add: q like_refl)

text \<open>The loops over one row.\<close>

lemma row_loop:
  assumes q: "inv q" and i: "i < rows q"
    and F: "\<And>j q'. j < cols q \<Longrightarrow> like q q' \<Longrightarrow> (\<And>i' j'. i' \<noteq> i \<or> j \<le> j' \<Longrightarrow> val q' i' j' = val q i' j')
      \<Longrightarrow> g j q' = Some (Inr (F j))" and zero: "\<And>j. cols q \<le> j \<Longrightarrow> F j = 0"
  shows "oret (\<lambda>e. e = ERRange) (\<lambda>q'. like q q' \<and> val q' = (val q)(i := F))
    (ofold (\<lambda>j q. obind (g j q) (setc q i j)) [0..<cols q] q)"
proof -
  let ?ps = "map (Pair i) [0..<cols q]"
  have "oret (\<lambda>e. e = ERRange \<and> (\<exists>p \<in> set ?ps. InfFloat \<le> \<bar>F (snd p)\<bar>))
    (\<lambda>q'. like q q' \<and> val q' = (\<lambda>i' j. if (i', j) \<in> set ?ps then F (snd (i', j)) else val q i' j))
    (ofold (\<lambda>p q. obind (g (snd p) q) (setc q (fst p) (snd p))) ?ps q)"
  proof (rule fill_loop [OF q])
    show "distinct ?ps" by (simp add: distinct_map inj_on_def)
    show "\<And>p. p \<in> set ?ps \<Longrightarrow> fst p < rows q \<and> snd p < cols q" using i by auto
    fix as p bs q' assume ps: "?ps = as @ p # bs" and l: "like q q'" and same: "\<And>i j. (i, j) \<notin> set as \<Longrightarrow> val q' i j = val q i j"
    have "p \<in> set ?ps" unfolding ps by simp
    then obtain j where p: "p = (i, j)" "j < cols q" by auto
    have "map snd ?ps = map snd as @ j # map snd bs" unfolding ps p by simp
    then have "[0..<cols q] = map snd as @ j # map snd bs" by (simp add: comp_def)
    then have as: "map snd as = [0..<j]" using upt_split by blast
    have "(i', j') \<notin> set as" if "i' \<noteq> i \<or> j \<le> j'" for i' j'
    proof
      assume mem: "(i', j') \<in> set as"
      then have "j' \<in> set (map snd as)" by force
      then have "j' < j" using as by simp
      moreover have "(i', j') \<in> set ?ps" unfolding ps using mem by simp
      ultimately show False using that by auto
    qed
    with F [OF p(2) l] same show "g (snd p) q' = Some (Inr (F (snd p)))" by (simp add: p)
  qed
  then show ?thesis unfolding ofold_map fst_conv snd_conv
  proof (rule oret_mono)
    fix q' assume q': "like q q' \<and> val q' = (\<lambda>i' j. if (i', j) \<in> set ?ps then F j else val q i' j)"
    moreover have "(if (i', j) \<in> set ?ps then F j else val q i' j) = ((val q)(i := F)) i' j" for i' j
      using zero [of j] coeff_range [OF q, of i j] by (cases "j < cols q") auto
    ultimately show "like q q' \<and> val q' = (val q)(i := F)" by (simp add: fun_eq_iff)
  qed simp
qed

end

section \<open>Both classes satisfy the contract\<close>

lemma cell_less: "i < k \<Longrightarrow> j < l \<Longrightarrow> l * i + j < k * (l :: nat)"
proof -
  assume "i < k" "j < l"
  then have "l * i + j < l * Suc i" by simp
  also have "\<dots> \<le> l * k" using \<open>i < k\<close> by (intro mult_le_mono2) simp
  finally show ?thesis by (simp add: mult.commute)
qed

lemma cell_eq: "j < l \<Longrightarrow> j' < l \<Longrightarrow> l * i + j = l * i' + j' \<longleftrightarrow> i = i' \<and> j = (j' :: nat)"
proof
  assume l: "j < l" "j' < l" and eq: "l * i + j = l * i' + j'"
  from arg_cong [OF eq, of "\<lambda>x. x div l"] arg_cong [OF eq, of "\<lambda>x. x mod l"] l show "i = i' \<and> j = j'" by simp
qed simp

text \<open>The position of a coefficient in the array or in the range of the table.\<close>

definition cell :: "bool \<Rightarrow> nat \<Rightarrow> nat \<Rightarrow> nat \<Rightarrow> nat" where
  "cell tr l i j = (if tr then l * j + i else l * i + j)"

definition dims :: "bool \<Rightarrow> nat \<Rightarrow> nat \<Rightarrow> nat \<Rightarrow> nat \<Rightarrow> bool" where
  "dims tr k l i j \<longleftrightarrow> (if tr then i < l \<and> j < k else i < k \<and> j < l)"

lemma cell_dims: "dims tr k l i j \<Longrightarrow> cell tr l i j < k * l"
  by (auto simp: dims_def cell_def cell_less split: if_splits)

lemma cell_inj: "dims tr k l i j \<Longrightarrow> dims tr k l i' j' \<Longrightarrow> cell tr l i j = cell tr l i' j' \<longleftrightarrow> i = i' \<and> j = j'"
  by (auto simp: dims_def cell_def cell_eq split: if_splits)

lemma infinite_iff: "a \<ge> InfFloat \<or> a \<le> - InfFloat \<longleftrightarrow> \<not> \<bar>a\<bar> < InfFloat"
  by auto

lemma mx_dims [simp]:
  "mx_K (Dense D) = (if dm_transp D then dm_l D else dm_k D)" "mx_L (Dense D) = (if dm_transp D then dm_k D else dm_l D)"
  "mx_K (Sparse M) = (if sm_transp M then sm_l M else sm_k M)" "mx_L (Sparse M) = (if sm_transp M then sm_k M else sm_l M)"
  by (simp_all add: mx_K_def mx_L_def)

definition dm_inv :: "dense_matrix \<Rightarrow> bool" where
  "dm_inv D \<longleftrightarrow> length (dm_coeff D) = dm_k D * dm_l D"

definition dm_val :: "dense_matrix \<Rightarrow> nat \<Rightarrow> nat \<Rightarrow> TFloat" where
  "dm_val D i j = (if dims (dm_transp D) (dm_k D) (dm_l D) i j then dm_coeff D ! cell (dm_transp D) (dm_l D) i j else 0)"

lemma dense_Coeff_cell:
  "dm_inv D \<Longrightarrow> denseMatrix_Coeff D i j =
    (if dims (dm_transp D) (dm_k D) (dm_l D) i j then Some (Inr (dm_coeff D ! cell (dm_transp D) (dm_l D) i j)) else Some (Inl ERRange))"
  using cell_dims [of "dm_transp D" "dm_k D" "dm_l D" i j]
  by (auto simp: denseMatrix_Coeff_def dims_def cell_def dm_inv_def Let_def split: if_splits)

lemma dense_SetCoeff_cell:
  "dm_inv D \<Longrightarrow> denseMatrix_SetCoeff D i j a =
    (if dims (dm_transp D) (dm_k D) (dm_l D) i j \<and> \<bar>a\<bar> < InfFloat
     then Some (Inr (D\<lparr>dm_coeff := (dm_coeff D)[cell (dm_transp D) (dm_l D) i j := a]\<rparr>)) else Some (Inl ERRange))"
  using cell_dims [of "dm_transp D" "dm_k D" "dm_l D" i j]
  unfolding denseMatrix_SetCoeff_def infinite_iff
  by (simp add: dims_def cell_def dm_inv_def Let_def del: abs_less_iff split: if_splits) auto

interpretation dense: coeff_matrix dm_inv "\<lambda>D. if dm_transp D then dm_l D else dm_k D"
  "\<lambda>D. if dm_transp D then dm_k D else dm_l D" dm_val denseMatrix_Coeff denseMatrix_SetCoeff
proof unfold_locales
  fix D i j and a :: TFloat
  assume D: "dm_inv D" and ij: "i < (if dm_transp D then dm_l D else dm_k D)" "j < (if dm_transp D then dm_k D else dm_l D)"
    and a: "\<bar>a\<bar> < InfFloat"
  let ?d = "dims (dm_transp D) (dm_k D) (dm_l D)" and ?c = "cell (dm_transp D) (dm_l D)"
  let ?D = "D\<lparr>dm_coeff := (dm_coeff D)[?c i j := a]\<rparr>"
  have d: "?d i j" using ij by (simp add: dims_def split: if_splits)
  then have "?c i j < length (dm_coeff D)" using cell_dims D by (simp add: dm_inv_def)
  then have "dm_val ?D i' j' = upd2 i j a (dm_val D) i' j'" for i' j'
    using d cell_inj [OF d, of i' j'] by (auto simp: dm_val_def upd2_def nth_list_update)
  then show "\<exists>q'. denseMatrix_SetCoeff D i j a = Some (Inr q') \<and> dm_inv q'
      \<and> (if dm_transp q' then dm_l q' else dm_k q') = (if dm_transp D then dm_l D else dm_k D)
      \<and> (if dm_transp q' then dm_k q' else dm_l q') = (if dm_transp D then dm_k D else dm_l D) \<and> dm_val q' = upd2 i j a (dm_val D)"
    using D d a by (intro exI [of _ ?D]) (simp add: dense_SetCoeff_cell dm_inv_def fun_eq_iff)
qed (auto simp: dense_Coeff_cell dense_SetCoeff_cell dm_val_def dims_def split: if_splits)

definition sm_inv :: "sparse_matrix \<Rightarrow> bool" where
  "sm_inv M \<longleftrightarrow> ht_inv (sm_coeff M) \<and> ht_range (sm_coeff M) = sm_k M * sm_l M"

definition table_val :: "TFloat hash_table \<Rightarrow> nat \<Rightarrow> TFloat" where
  "table_val H w = (case goblinHashTable_Key H w of Some (Inr x) \<Rightarrow> x | _ \<Rightarrow> 0)"

definition sm_val :: "sparse_matrix \<Rightarrow> nat \<Rightarrow> nat \<Rightarrow> TFloat" where
  "sm_val M i j = (if dims (sm_transp M) (sm_k M) (sm_l M) i j then table_val (sm_coeff M) (cell (sm_transp M) (sm_l M) i j) else 0)"

lemma table_key: "ht_inv H \<Longrightarrow> w < ht_range H \<Longrightarrow> goblinHashTable_Key H w = Some (Inr (table_val H w))"
  using htable.key_returns [of H w] by (auto simp: table_val_def)

lemma sparse_Coeff_cell:
  "sm_inv M \<Longrightarrow> sparseMatrix_Coeff M i j =
    (if dims (sm_transp M) (sm_k M) (sm_l M) i j then Some (Inr (table_val (sm_coeff M) (cell (sm_transp M) (sm_l M) i j))) else Some (Inl ERRange))"
  using cell_dims [of "sm_transp M" "sm_k M" "sm_l M" i j] table_key [of "sm_coeff M" "cell (sm_transp M) (sm_l M) i j"]
  by (auto simp: sparseMatrix_Coeff_def dims_def cell_def sm_inv_def split: if_splits)

lemma table_write:
  assumes "ht_inv H" "w < ht_range H"
  obtains H' where "goblinHashTable_ChangeKey 2 H w a = Some (Inr H')" "ht_inv H'" "ht_range H' = ht_range H"
    "\<And>v. v < ht_range H \<Longrightarrow> table_val H' v = (if v = w then a else table_val H v)"
  using htable.chg_key [OF assms, of a] by (auto simp: table_val_def)

interpretation sparse: coeff_matrix sm_inv "\<lambda>M. if sm_transp M then sm_l M else sm_k M"
  "\<lambda>M. if sm_transp M then sm_k M else sm_l M" sm_val sparseMatrix_Coeff sparseMatrix_SetCoeff
proof unfold_locales
  fix M i j and a :: TFloat
  assume M: "sm_inv M" and ij: "i < (if sm_transp M then sm_l M else sm_k M)" "j < (if sm_transp M then sm_k M else sm_l M)"
    and a: "\<bar>a\<bar> < InfFloat"
  let ?d = "dims (sm_transp M) (sm_k M) (sm_l M)" and ?c = "cell (sm_transp M) (sm_l M)"
  have d: "?d i j" using ij by (simp add: dims_def split: if_splits)
  have c: "?c i' j' < ht_range (sm_coeff M)" if "?d i' j'" for i' j' using cell_dims [OF that] M by (simp add: sm_inv_def)
  obtain H where H: "goblinHashTable_ChangeKey 2 (sm_coeff M) (?c i j) a = Some (Inr H)" "ht_inv H" "ht_range H = ht_range (sm_coeff M)"
    "\<And>v. v < ht_range (sm_coeff M) \<Longrightarrow> table_val H v = (if v = ?c i j then a else table_val (sm_coeff M) v)"
    using table_write [OF _ c [OF d]] M by (auto simp: sm_inv_def)
  let ?M = "M\<lparr>sm_coeff := H\<rparr>"
  have "sm_val ?M i' j' = upd2 i j a (sm_val M) i' j'" for i' j'
  proof (cases "?d i' j'")
    case True
    then show ?thesis using H(4) [OF c [OF True]] cell_inj [OF d True] by (auto simp: sm_val_def upd2_def)
  next
    case False
    then show ?thesis using d by (auto simp: sm_val_def upd2_def)
  qed
  moreover have "sparseMatrix_SetCoeff M i j a = Some (Inr ?M)"
    using H(1) ij a by (auto simp: sparseMatrix_SetCoeff_def cell_def split: if_splits)
  ultimately show "\<exists>q'. sparseMatrix_SetCoeff M i j a = Some (Inr q') \<and> sm_inv q'
      \<and> (if sm_transp q' then sm_l q' else sm_k q') = (if sm_transp M then sm_l M else sm_k M)
      \<and> (if sm_transp q' then sm_k q' else sm_l q') = (if sm_transp M then sm_k M else sm_l M) \<and> sm_val q' = upd2 i j a (sm_val M)"
    using M H(2,3) by (intro exI [of _ ?M]) (simp add: sm_inv_def fun_eq_iff)
qed (auto simp: sparse_Coeff_cell sparseMatrix_SetCoeff_def sm_val_def dims_def split: if_splits)

fun mx_inv :: "goblinMatrix \<Rightarrow> bool" where
  "mx_inv (Dense D) = dm_inv D" | "mx_inv (Sparse M) = sm_inv M"

fun mx_val :: "goblinMatrix \<Rightarrow> nat \<Rightarrow> nat \<Rightarrow> TFloat" where
  "mx_val (Dense D) = dm_val D" | "mx_val (Sparse M) = sm_val M"

interpretation mx: coeff_matrix mx_inv mx_K mx_L mx_val mx_Coeff mx_SetCoeff
proof unfold_locales
  fix M :: goblinMatrix and i j and a :: TFloat
  assume M: "mx_inv M"
  show "i < mx_K M \<Longrightarrow> j < mx_L M \<Longrightarrow> mx_Coeff M i j = Some (Inr (mx_val M i j))"
    using M dense.coeff_val [of _ i j] sparse.coeff_val [of _ i j] by (cases M) (simp_all only: mx_inv.simps mx_val.simps mx_Coeff.simps mx_dims)
  show "\<not> (i < mx_K M \<and> j < mx_L M) \<Longrightarrow> mx_Coeff M i j = Some (Inl ERRange) \<and> mx_val M i j = 0"
    using M dense.coeff_range [of _ i j] sparse.coeff_range [of _ i j] by (cases M) (simp_all only: mx_inv.simps mx_val.simps mx_Coeff.simps mx_dims)
  show "\<not> (i < mx_K M \<and> j < mx_L M \<and> \<bar>a\<bar> < InfFloat) \<Longrightarrow> mx_SetCoeff M i j a = Some (Inl ERRange)"
  proof (cases M)
    case (Dense D)
    show "mx_SetCoeff M i j a = Some (Inl ERRange)" if "\<not> (i < mx_K M \<and> j < mx_L M \<and> \<bar>a\<bar> < InfFloat)"
      using dense.setc_range [of D i j a] M that unfolding Dense by (simp only: mx_dims mx_inv.simps mx_SetCoeff.simps) simp
  next
    case (Sparse P)
    show "mx_SetCoeff M i j a = Some (Inl ERRange)" if "\<not> (i < mx_K M \<and> j < mx_L M \<and> \<bar>a\<bar> < InfFloat)"
      using sparse.setc_range [of P i j a] M that unfolding Sparse by (simp only: mx_dims mx_inv.simps mx_SetCoeff.simps) simp
  qed
  assume ij: "i < mx_K M" "j < mx_L M" and a: "\<bar>a\<bar> < InfFloat"
  show "\<exists>q'. mx_SetCoeff M i j a = Some (Inr q') \<and> mx_inv q' \<and> mx_K q' = mx_K M \<and> mx_L q' = mx_L M \<and> mx_val q' = upd2 i j a (mx_val M)"
  proof (cases M)
    case (Dense D)
    then obtain D' where "denseMatrix_SetCoeff D i j a = Some (Inr D')" "dm_inv D'" "mx_K (Dense D') = mx_K (Dense D)"
      "mx_L (Dense D') = mx_L (Dense D)" "dm_val D' = upd2 i j a (dm_val D)"
      using dense.setc_val [of D i j a] M ij a by (simp only: mx_dims mx_inv.simps) blast
    then show ?thesis using Dense by (intro exI [of _ "Dense D'"]) (simp del: mx_dims)
  next
    case (Sparse P)
    then obtain P' where "sparseMatrix_SetCoeff P i j a = Some (Inr P')" "sm_inv P'" "mx_K (Sparse P') = mx_K (Sparse P)"
      "mx_L (Sparse P') = mx_L (Sparse P)" "sm_val P' = upd2 i j a (sm_val P)"
      using sparse.setc_val [of P i j a] M ij a by (simp only: mx_dims mx_inv.simps) blast
    then show ?thesis using Sparse by (intro exI [of _ "Sparse P'"]) (simp del: mx_dims)
  qed
qed

section \<open>Sums, products and copies\<close>

lemma set_cells [simp]: "set (cells k l) = {..<k} \<times> {..<l}"
  by (auto simp: cells_def)

lemma distinct_cells [simp]: "distinct (cells k l)"
  by (simp add: cells_def distinct_product)

lemma untransposed: "\<not> mx_transp M \<Longrightarrow> mx_K M = mx_k M \<and> mx_L M = mx_l M"
  by (simp add: mx_K_def mx_L_def)

text \<open>The loop over all cells of an object that is not transposed.\<close>

lemma cells_loop:
  assumes M: "mx_inv M" "\<not> mx_transp M"
    and F: "\<And>as p bs M'. cells (mx_k M) (mx_l M) = as @ p # bs \<Longrightarrow> mx.like M M' \<Longrightarrow>
      (\<And>i j. (i, j) \<notin> set as \<Longrightarrow> mx_val M' i j = mx_val M i j) \<Longrightarrow> g p M' = Some (Inr (F p))"
  shows "oret (\<lambda>e. e = ERRange \<and> (\<exists>i < mx_k M. \<exists>j < mx_l M. InfFloat \<le> \<bar>F (i, j)\<bar>))
    (\<lambda>M'. mx.like M M' \<and> (\<forall>i < mx_k M. \<forall>j < mx_l M. mx_Coeff M' i j = Some (Inr (F (i, j)))))
    (ofold (\<lambda>p M. obind (g p M) (mx_SetCoeff M (fst p) (snd p))) (cells (mx_k M) (mx_l M)) M)"
proof (rule oret_mono [OF mx.fill_loop [OF M(1)]])
  fix M' assume "mx.like M M' \<and> mx_val M' = (\<lambda>i j. if (i, j) \<in> set (cells (mx_k M) (mx_l M)) then F (i, j) else mx_val M i j)"
  then show "mx.like M M' \<and> (\<forall>i < mx_k M. \<forall>j < mx_l M. mx_Coeff M' i j = Some (Inr (F (i, j))))"
    using untransposed [OF M(2)] by (auto simp: mx.coeff_like)
qed (use F untransposed [OF M(2)] in auto)

lemma Add_loop:
  assumes M: "mx_inv M" "\<not> mx_transp M" and A: "mx_inv A" "mx_K A = mx_k M" "mx_L A = mx_l M"
  shows "oret (\<lambda>e. e = ERRange \<and> (\<exists>i < mx_k M. \<exists>j < mx_l M. InfFloat \<le> \<bar>mx_val A i j + mx_val M i j\<bar>))
    (\<lambda>M'. mx.like M M' \<and> (\<forall>i < mx_k M. \<forall>j < mx_l M. mx_Coeff M' i j = Some (Inr (mx_val A i j + mx_val M i j)))) (mx_Add M A)"
proof -
  let ?g = "\<lambda>p M. obind (mx_Coeff A (fst p) (snd p)) (\<lambda>x. obind (mx_Coeff M (fst p) (snd p)) (\<lambda>y. Some (Inr (x + y))))"
  have eq: "mx_Add M A = ofold (\<lambda>p M. obind (?g p M) (mx_SetCoeff M (fst p) (snd p))) (cells (mx_k M) (mx_l M)) M"
    using A(2,3) by (simp add: mx_Add_def obind_assoc)
  let ?F = "\<lambda>p. mx_val A (fst p) (snd p) + mx_val M (fst p) (snd p)"
  have F: "?g p M' = Some (Inr (?F p))" if ps: "cells (mx_k M) (mx_l M) = as @ p # bs" and l: "mx.like M M'"
    and same: "\<And>i j. (i, j) \<notin> set as \<Longrightarrow> mx_val M' i j = mx_val M i j" for as p bs M'
  proof -
    have "p \<in> set (cells (mx_k M) (mx_l M))" unfolding ps by simp
    then have p: "fst p < mx_k M" "snd p < mx_l M" by auto
    have "p \<notin> set as" using distinct_cells [of "mx_k M" "mx_l M"] unfolding ps by simp
    then show ?thesis using p A M l untransposed [OF M(2)] same [of "fst p" "snd p"] by (simp add: mx.coeff_val mx.coeff_like)
  qed
  show ?thesis unfolding eq using cells_loop [OF M, of ?g ?F] F by simp
qed

lemma Sum_loop:
  assumes M: "mx_inv M" "\<not> mx_transp M" and A: "mx_inv A" "mx_K A = mx_k M" "mx_L A = mx_l M"
    and B: "mx_inv B" "mx_K B = mx_k M" "mx_L B = mx_l M"
  shows "oret (\<lambda>e. e = ERRange \<and> (\<exists>i < mx_k M. \<exists>j < mx_l M. InfFloat \<le> \<bar>mx_val A i j + mx_val B i j\<bar>))
    (\<lambda>M'. mx.like M M' \<and> (\<forall>i < mx_k M. \<forall>j < mx_l M. mx_Coeff M' i j = Some (Inr (mx_val A i j + mx_val B i j)))) (mx_Sum M A B)"
proof -
  let ?g = "\<lambda>p M. obind (mx_Coeff A (fst p) (snd p)) (\<lambda>x. obind (mx_Coeff B (fst p) (snd p)) (\<lambda>y. Some (Inr (x + y))))"
  have eq: "mx_Sum M A B = ofold (\<lambda>p M. obind (?g p M) (mx_SetCoeff M (fst p) (snd p))) (cells (mx_k M) (mx_l M)) M"
    using A(2,3) B(2,3) by (simp add: mx_Sum_def obind_assoc)
  have F: "?g p M' = Some (Inr (mx_val A (fst p) (snd p) + mx_val B (fst p) (snd p)))" if "cells (mx_k M) (mx_l M) = as @ p # bs" for as p bs and M' :: goblinMatrix
  proof -
    have "p \<in> set (cells (mx_k M) (mx_l M))" unfolding that by simp
    then show ?thesis using A B by (auto simp: mx.coeff_val)
  qed
  show ?thesis unfolding eq using cells_loop [OF M, of ?g "\<lambda>p. mx_val A (fst p) (snd p) + mx_val B (fst p) (snd p)"] F by simp
qed

lemma inner_product:
  assumes "mx_inv A" "mx_inv B" "mx_L A = mx_K B" "i < mx_K A" "j < mx_L B"
  shows "ofold (\<lambda>m x. obind (mx_Coeff A i m) (\<lambda>a. obind (mx_Coeff B m j) (\<lambda>b. Some (Inr (x + a * b))))) [0..<mx_L A] 0
    = Some (Inr (\<Sum>m < mx_L A. mx_val A i m * mx_val B m j))"
proof -
  have "oret (\<lambda>e. False) (\<lambda>x. x = (\<Sum>m < mx_L A. mx_val A i m * mx_val B m j))
    (ofold (\<lambda>m x. obind (mx_Coeff A i m) (\<lambda>a. obind (mx_Coeff B m j) (\<lambda>b. Some (Inr (x + a * b))))) [0..<mx_L A] 0)"
    by (rule oret_upt) (use assms in \<open>auto simp: mx.coeff_val\<close>)
  then show ?thesis by (auto simp: oret_value)
qed

lemma Product_loop:
  assumes M: "mx_inv M" "\<not> mx_transp M" and A: "mx_inv A" "mx_K A = mx_k M" and B: "mx_inv B" "mx_L B = mx_l M" "mx_L A = mx_K B"
  shows "oret (\<lambda>e. e = ERRange \<and> (\<exists>i < mx_k M. \<exists>j < mx_l M. InfFloat \<le> \<bar>\<Sum>m < mx_L A. mx_val A i m * mx_val B m j\<bar>))
    (\<lambda>M'. mx.like M M' \<and> (\<forall>i < mx_k M. \<forall>j < mx_l M. mx_Coeff M' i j = Some (Inr (\<Sum>m < mx_L A. mx_val A i m * mx_val B m j))))
    (mx_Product M A B)"
proof -
  let ?g = "\<lambda>p M :: goblinMatrix. ofold (\<lambda>m x. obind (mx_Coeff A (fst p) m) (\<lambda>a. obind (mx_Coeff B m (snd p)) (\<lambda>b. Some (Inr (x + a * b))))) [0..<mx_L A] 0"
  let ?F = "\<lambda>p. \<Sum>m < mx_L A. mx_val A (fst p) m * mx_val B m (snd p)"
  have F: "?g p M' = Some (Inr (?F p))" if "cells (mx_k M) (mx_l M) = as @ p # bs" for as p bs M'
  proof -
    have "p \<in> set (cells (mx_k M) (mx_l M))" unfolding that by simp
    then show ?thesis using inner_product [OF A(1) B(1,3), of "fst p" "snd p"] A B by auto
  qed
  show ?thesis unfolding mx_Product_def using cells_loop [OF M, of ?g ?F] F A B by simp
qed

lemma dense_copy_ok:
  assumes A: "mx_inv A" and c: "length coeff0 = mx_K A * mx_L A"
  obtains D where "denseMatrix_copy A coeff0 = Some (Inr D)" "dm_inv D" "\<And>i j. denseMatrix_Coeff D i j = mx_Coeff A i j"
proof -
  let ?f = "\<lambda>p c. obind (mx_Coeff A (fst p) (snd p)) (\<lambda>x. let q = mx_L A * fst p + snd p
    in if q \<ge> length c then Some (Inl OutOfBounds) else Some (Inr (c[q := x])))"
  let ?I = "\<lambda>as c. length c = mx_K A * mx_L A \<and> (\<forall>p \<in> set as. c ! (mx_L A * fst p + snd p) = mx_val A (fst p) (snd p))"
  have "oret (\<lambda>e. False) (?I (cells (mx_K A) (mx_L A))) (ofold ?f (cells (mx_K A) (mx_L A)) coeff0)"
  proof (rule oret_ofold)
    fix as p bs c assume ps: "cells (mx_K A) (mx_L A) = as @ p # bs" and I: "?I as c"
    have in_dims: "fst p' < mx_K A \<and> snd p' < mx_L A" if "p' \<in> set (as @ [p])" for p'
    proof -
      have "p' \<in> set (cells (mx_K A) (mx_L A))" using that unfolding ps by auto
      then show ?thesis by auto
    qed
    have p: "fst p < mx_K A" "snd p < mx_L A" using in_dims [of p] by auto
    have "c[mx_L A * fst p + snd p := mx_val A (fst p) (snd p)] ! (mx_L A * fst p' + snd p') = mx_val A (fst p') (snd p')"
      if "p' \<in> set (as @ [p])" for p'
      using in_dims [OF that] that p I cell_less [OF p] cell_eq [of "snd p" "mx_L A" "snd p'" "fst p" "fst p'"]
      by (auto simp: nth_list_update)
    then show "oret (\<lambda>e. False) (?I (as @ [p])) (?f p c)"
      using p I cell_less [OF p] A by (simp add: mx.coeff_val Let_def)
  qed (simp add: c)
  then obtain c where c: "ofold ?f (cells (mx_K A) (mx_L A)) coeff0 = Some (Inr c)" "?I (cells (mx_K A) (mx_L A)) c" by (auto simp: oret_value)
  let ?D = "\<lparr>dm_k = mx_K A, dm_l = mx_L A, dm_transp = False, dm_coeff = c\<rparr>"
  have D: "dm_inv ?D" using c(2) by (simp add: dm_inv_def)
  moreover have "denseMatrix_Coeff ?D i j = mx_Coeff A i j" for i j
    using dense_Coeff_cell [OF D, of i j] c(2) mx.coeff_val [OF A, of i j] mx.coeff_range [OF A, of i j]
    by (auto simp: dims_def cell_def)
  moreover have "denseMatrix_copy A coeff0 = Some (Inr ?D)" unfolding denseMatrix_copy_def c(1) by simp
  ultimately show thesis using that by blast
qed

definition nonzeros :: "goblinMatrix \<Rightarrow> nat" where
  "nonzeros A = length (filter (\<lambda>p. mx_val A (fst p) (snd p) \<noteq> 0) (cells (mx_K A) (mx_L A)))"

lemma cells_member:
  assumes "cells k l = as @ p # bs" shows "fst p < k" "snd p < l"
proof -
  have "p \<in> set (cells k l)" unfolding assms by simp
  then show "fst p < k" "snd p < l" by auto
qed

lemma count_loop:
  assumes A: "mx_inv A"
  shows "ofold (\<lambda>p n. obind (mx_Coeff A (fst p) (snd p)) (\<lambda>x. Some (Inr (if x \<noteq> 0 then Suc n else n)))) (cells (mx_K A) (mx_L A)) 0
    = Some (Inr (nonzeros A))"
proof -
  have "oret (\<lambda>e. False) (\<lambda>n. n = length (filter (\<lambda>p. mx_val A (fst p) (snd p) \<noteq> 0) (cells (mx_K A) (mx_L A))))
    (ofold (\<lambda>p n. obind (mx_Coeff A (fst p) (snd p)) (\<lambda>x. Some (Inr (if x \<noteq> 0 then Suc n else n)))) (cells (mx_K A) (mx_L A)) 0)"
    by (rule oret_ofold) (auto simp: mx.coeff_val [OF A] cells_member)
  then show ?thesis by (simp add: oret_value nonzeros_def)
qed

lemma table_loop:
  assumes A: "mx_inv A" and H: "ht_inv H" "ht_range H = mx_K A * mx_L A"
  obtains H' where "ofold (\<lambda>p H. obind (mx_Coeff A (fst p) (snd p)) (\<lambda>x.
      goblinHashTable_ChangeKey 2 H (mx_L A * fst p + snd p) x)) (cells (mx_K A) (mx_L A)) H = Some (Inr H')"
    "ht_inv H'" "ht_range H' = mx_K A * mx_L A"
    "\<And>i j. i < mx_K A \<Longrightarrow> j < mx_L A \<Longrightarrow> table_val H' (mx_L A * i + j) = mx_val A i j"
proof -
  let ?f = "\<lambda>p H. obind (mx_Coeff A (fst p) (snd p)) (\<lambda>x. goblinHashTable_ChangeKey 2 H (mx_L A * fst p + snd p) x)"
  let ?I = "\<lambda>as H. ht_inv H \<and> ht_range H = mx_K A * mx_L A
    \<and> (\<forall>p \<in> set as. fst p < mx_K A \<and> snd p < mx_L A \<and> table_val H (mx_L A * fst p + snd p) = mx_val A (fst p) (snd p))"
  have "oret (\<lambda>e. False) (?I (cells (mx_K A) (mx_L A))) (ofold ?f (cells (mx_K A) (mx_L A)) H)"
  proof (rule oret_ofold)
    fix as p bs H assume ps: "cells (mx_K A) (mx_L A) = as @ p # bs" and I: "?I as H"
    note p = cells_member [OF ps]
    have w: "mx_L A * fst p + snd p < ht_range H" using cell_less [OF p] I by simp
    obtain H' where H': "goblinHashTable_ChangeKey 2 H (mx_L A * fst p + snd p) (mx_val A (fst p) (snd p)) = Some (Inr H')" "ht_inv H'"
      "ht_range H' = ht_range H" "\<And>v. v < ht_range H \<Longrightarrow> table_val H' v = (if v = mx_L A * fst p + snd p then mx_val A (fst p) (snd p) else table_val H v)"
      using table_write [OF _ w, of "mx_val A (fst p) (snd p)"] I by blast
    have "table_val H' (mx_L A * fst p' + snd p') = mx_val A (fst p') (snd p')" if "p' \<in> set (as @ [p])" for p'
    proof -
      have p': "fst p' < mx_K A" "snd p' < mx_L A" using that p I by auto
      then have "mx_L A * fst p' + snd p' < ht_range H" using cell_less [OF p'] I by simp
      then show ?thesis using H'(4) that p p' I cell_eq [of "snd p'" "mx_L A" "snd p" "fst p'" "fst p"] by auto
    qed
    then show "oret (\<lambda>e. False) (?I (as @ [p])) (?f p H)"
      using p I H'(1-3) by (auto simp: mx.coeff_val [OF A])
  qed (simp add: H)
  then obtain H' where "ofold ?f (cells (mx_K A) (mx_L A)) H = Some (Inr H')" "?I (cells (mx_K A) (mx_L A)) H'" by (auto simp: oret_value)
  then show thesis by (intro that [of H']) auto
qed

lemma sparse_copy_ok:
  assumes A: "mx_inv A" and nz: "0 < nonzeros A" and "nonzeros A \<le> length index0" "nonzeros A \<le> length key0"
  obtains P where "sparseMatrix_copy A index0 key0 = Some (Inr P)" "sm_inv P" "\<And>i j. sparseMatrix_Coeff P i j = mx_Coeff A i j"
proof -
  let ?n = "nonzeros A"
  obtain H where new: "goblinHashTable (mx_K A * mx_L A) ?n 0 (take ?n index0) (take ?n key0) = Inr H"
    using nz by (simp add: goblinHashTable_def goblinHashTable_Init_def)
  note ok = goblinHashTable_new [OF new]
  have H: "ht_inv H" "ht_range H = mx_K A * mx_L A" using ok assms(3,4) by (auto simp: ht_inv_ok ht_ok_def)
  obtain H' where H': "ofold (\<lambda>p H. obind (mx_Coeff A (fst p) (snd p)) (\<lambda>x.
      goblinHashTable_ChangeKey 2 H (mx_L A * fst p + snd p) x)) (cells (mx_K A) (mx_L A)) H = Some (Inr H')"
    "ht_inv H'" "ht_range H' = mx_K A * mx_L A"
    "\<And>i j. i < mx_K A \<Longrightarrow> j < mx_L A \<Longrightarrow> table_val H' (mx_L A * i + j) = mx_val A i j" using table_loop [OF A H] by blast
  let ?P = "\<lparr>sm_k = mx_K A, sm_l = mx_L A, sm_transp = False, sm_coeff = H'\<rparr>"
  have P: "sm_inv ?P" using H' by (simp add: sm_inv_def)
  moreover have "sparseMatrix_Coeff ?P i j = mx_Coeff A i j" for i j
    using sparse_Coeff_cell [OF P, of i j] H'(4) mx.coeff_val [OF A, of i j] mx.coeff_range [OF A, of i j]
    by (auto simp: dims_def cell_def)
  moreover have "sparseMatrix_copy A index0 key0 = Some (Inr ?P)"
    unfolding sparseMatrix_copy_def count_loop [OF A] obind_simps new sum.case H'(1) ..
  ultimately show thesis using that by blast
qed

lemma nonzeros_pos:
  assumes A: "mx_inv A"
  shows "0 < nonzeros A \<longleftrightarrow> (\<exists>i < mx_K A. \<exists>j < mx_L A. mx_Coeff A i j \<noteq> Some (Inr 0))"
proof -
  have "0 < nonzeros A \<longleftrightarrow> (\<exists>p \<in> set (cells (mx_K A) (mx_L A)). mx_val A (fst p) (snd p) \<noteq> 0)"
    by (auto simp: nonzeros_def filter_empty_conv)
  also have "\<dots> \<longleftrightarrow> (\<exists>i < mx_K A. \<exists>j < mx_L A. mx_Coeff A i j \<noteq> Some (Inr 0))"
    using mx.coeff_val [OF A] by fastforce
  finally show ?thesis .
qed

section \<open>Properties\<close>

definition mx_example :: "TFloat list \<Rightarrow> goblinMatrix" where
  "mx_example c = Dense \<lparr>dm_k = 2, dm_l = 2, dm_transp = False, dm_coeff = c\<rparr>"

lemma mx_example_facts [simp]:
  "mx_inv (mx_example [a, b, c, d])" "mx_K (mx_example x) = 2" "mx_L (mx_example x) = 2"
  "mx_k (mx_example x) = 2" "mx_l (mx_example x) = 2" "\<not> mx_transp (mx_example x)"
  "mx_val (mx_example x) i j = (if i < 2 \<and> j < 2 then x ! (2 * i + j) else 0)"
  by (simp_all add: mx_example_def dm_inv_def dm_val_def dims_def cell_def)

text \<open>
  C20: \<open>Product\<close> stores the matrix product: for factors of fitting dimensions and a target that is not
  transposed, the call returns, and every coefficient of the target is the inner product of a row and a
  column, whatever mixture of dense and sparse objects is used, unless one of the inner products is infinite in the
  sense of the code, which is refused with \<open>ERRange\<close>.
\<close>

theorem matrix_Product:
  assumes "mx_inv M" "\<not> mx_transp M" "mx_inv A" "mx_inv B"
    and "mx_K A = mx_k M" "mx_L B = mx_l M" "mx_L A = mx_K B"
  shows "(\<exists>M'. mx_Product M A B = Some (Inr M') \<and> (\<forall>i < mx_K A. \<forall>j < mx_L B.
      mx_Coeff M' i j = Some (Inr (\<Sum>m < mx_L A. mx_val A i m * mx_val B m j))))
    \<or> mx_Product M A B = Some (Inl ERRange) \<and> (\<exists>i < mx_K A. \<exists>j < mx_L B. InfFloat \<le> \<bar>\<Sum>m < mx_L A. mx_val A i m * mx_val B m j\<bar>)"
  using Product_loop [OF assms(1,2,3,5,4,6,7)] assms(5,6) by (auto simp: oret_iff)

theorem matrix_Product_witness:
  "(\<exists>M'. mx_Product (mx_example [0, 0, 0, 0]) (mx_example [1, 2, 3, 4]) (mx_example [0, 1, 1, 0]) = Some (Inr M')
     \<and> mx_Coeff M' 1 0 = Some (Inr 4))"
proof -
  let ?M = "mx_example [0, 0, 0, 0]" and ?A = "mx_example [1, 2, 3, 4]" and ?B = "mx_example [0, 1, 1, 0]"
  have sum: "(\<Sum>m < 2. mx_val ?A i m * mx_val ?B m j) = mx_val ?A i 0 * mx_val ?B 0 j + mx_val ?A i 1 * mx_val ?B 1 j" for i j
    by (simp add: numeral_2_eq_2)
  have "\<not> (\<exists>i < mx_K ?A. \<exists>j < mx_L ?B. InfFloat \<le> \<bar>\<Sum>m < mx_L ?A. mx_val ?A i m * mx_val ?B m j\<bar>)"
    unfolding mx_example_facts(3) sum by (auto simp: InfFloat_def less_2_cases_iff)
  with matrix_Product [of ?M ?A ?B] obtain M' where M': "mx_Product ?M ?A ?B = Some (Inr M')"
    "\<forall>i < mx_K ?A. \<forall>j < mx_L ?B. mx_Coeff M' i j = Some (Inr (\<Sum>m < mx_L ?A. mx_val ?A i m * mx_val ?B m j))"
    by (fastforce simp del: mx_example_facts(7))
  have "mx_Coeff M' 1 0 = Some (Inr (\<Sum>m < 2. mx_val ?A 1 m * mx_val ?B m 0))" using M'(2) by (simp del: mx_example_facts(7))
  then have "mx_Coeff M' 1 0 = Some (Inr 4)" unfolding sum by (simp add: numeral_3_eq_3)
  with M'(1) show ?thesis by blast
qed



text \<open>
  The sparse copy of a matrix without a coefficient that differs from zero writes outside an array: the
  constructor asks for a hash table without cells.
\<close>

theorem sparse_copy_of_zero:
  assumes "mx_inv A" "\<forall>i < mx_K A. \<forall>j < mx_L A. mx_Coeff A i j = Some (Inr 0)"
  shows "sparseMatrix_copy A index0 key0 = Some (Inl OutOfBounds)"
proof -
  have "nonzeros A = 0" using nonzeros_pos [OF assms(1)] assms(2) by auto
  then show ?thesis
    by (simp add: sparseMatrix_copy_def count_loop [OF assms(1)] goblinHashTable_def goblinHashTable_Init_def)
qed

theorem sparse_copy_of_zero_witness: "sparseMatrix_copy (mx_example [0, 0, 0, 0]) [] [] = Some (Inl OutOfBounds)"
  by (rule sparse_copy_of_zero) (auto simp: mx.coeff_val less_2_cases_iff)

text \<open>
  \<open>Add\<close> walks over the indices of the matrix that is not transposed: adding to a transposed matrix that is not
  square ends with \<open>ERRange\<close> although the dimensions fit.
\<close>

theorem matrix_Add_transposed:
  assumes "mx_inv M" "mx_transp M" "mx_k M \<noteq> mx_l M" "0 < mx_k M" "0 < mx_l M" "mx_inv A"
  shows "mx_Add M A = Some (Inl ERRange)"
proof (cases "mx_L A \<noteq> mx_l M \<or> mx_K A \<noteq> mx_k M")
  case True
  then show ?thesis by (simp add: mx_Add_def)
next
  case False
  let ?f = "\<lambda>p M. obind (mx_Coeff A (fst p) (snd p)) (\<lambda>x. obind (mx_Coeff M (fst p) (snd p)) (\<lambda>y. mx_SetCoeff M (fst p) (snd p) (x + y)))"
  let ?ps = "cells (mx_k M) (mx_l M)"
  have "oret (\<lambda>e. e = ERRange) (\<lambda>M'. mx.like M M' \<and> (\<forall>p \<in> set ?ps. fst p < mx_K M \<and> snd p < mx_L M)) (ofold ?f ?ps M)"
  proof (rule oret_ofold)
    fix as p bs M' assume ps: "?ps = as @ p # bs" and I: "mx.like M M' \<and> (\<forall>p \<in> set as. fst p < mx_K M \<and> snd p < mx_L M)"
    have A: "mx_Coeff A (fst p) (snd p) = Some (Inr (mx_val A (fst p) (snd p)))"
      using mx.coeff_val [OF assms(6)] cells_member [OF ps] False by simp
    show "oret (\<lambda>e. e = ERRange) (\<lambda>M'. mx.like M M' \<and> (\<forall>p \<in> set (as @ [p]). fst p < mx_K M \<and> snd p < mx_L M)) (?f p M')"
    proof (cases "fst p < mx_K M \<and> snd p < mx_L M")
      case True
      have "oret (\<lambda>e. e = ERRange) (\<lambda>M''. mx.like M M'') (mx_SetCoeff M' (fst p) (snd p) (mx_val A (fst p) (snd p) + mx_val M' (fst p) (snd p)))"
        by (rule oret_mono [OF mx.setc_oret]) (use I True in auto)
      then show ?thesis using A I True by (auto simp: mx.coeff_like elim: oret_mono)
    next
      case out: False
      then show ?thesis using A I mx.coeff_range [of M' "fst p" "snd p"] by (auto simp: mx.like_def)
    qed
  qed (simp add: assms(1) mx.like_refl)
  moreover have "\<exists>p \<in> set ?ps. \<not> (fst p < mx_K M \<and> snd p < mx_L M)"
    using assms(2-5) by (cases "mx_k M < mx_l M") (auto simp: mx_K_def mx_L_def intro!: bexI [of _ "(0, mx_k M)"] bexI [of _ "(mx_l M, 0)"])
  ultimately show ?thesis using False by (auto simp: mx_Add_def oret_iff)
qed

theorem matrix_Add_transposed_witness:
  "mx_Add (mx_Transpose (Dense (denseMatrix 1 2))) (Dense (denseMatrix 1 2)) = Some (Inl ERRange)"
  by (rule matrix_Add_transposed) (simp_all add: denseMatrix_def dm_inv_def)

end
