(* ===== verification/Gauss_Elim.thy ===== *)
theory Gauss_Elim
  imports Matrix
begin

text \<open>
  The elimination method \<open>goblinMatrix::GaussElim\<close> (\<^verbatim>\<open>lib_src/matrix.cpp\<close>): row pivots of largest
  absolute value, reduction to triangular and to diagonal form, and the permutation of the rows, over the
  virtual functions of the matrix classes. The rows of the right hand side become the solution.
\<close>

section \<open>Elimination\<close>

record gauss =
  ga_A :: goblinMatrix
  ga_B :: goblinMatrix
  ga_pivotIndex :: "nat list"
  ga_revPivotIndex :: "nat list"

text \<open>The loops over the columns of one row.\<close>

definition row_div :: "nat \<Rightarrow> nat \<Rightarrow> TFloat \<Rightarrow> goblinMatrix \<Rightarrow> goblinMatrix result option" where
  "row_div n i maxAbs =
     ofold (\<lambda>j M. obind (mx_Coeff M i j) (\<lambda>x. mx_SetCoeff M i j (x / maxAbs))) [0..<n]"

definition row_sub :: "nat \<Rightarrow> nat \<Rightarrow> nat \<Rightarrow> TFloat \<Rightarrow> goblinMatrix \<Rightarrow> goblinMatrix result option" where
  "row_sub n i2 i thisFac =
     ofold (\<lambda>j M. obind (mx_Coeff M i2 j) (\<lambda>x. obind (mx_Coeff M i j) (\<lambda>y.
       mx_SetCoeff M i2 j (x - thisFac * y)))) [0..<n]"

definition row_swap :: "nat \<Rightarrow> nat \<Rightarrow> nat \<Rightarrow> goblinMatrix \<Rightarrow> goblinMatrix result option" where
  "row_swap n i c =
     ofold (\<lambda>j M. obind (mx_Coeff M i j) (\<lambda>swap. obind (mx_Coeff M c j) (\<lambda>y.
       obind (mx_SetCoeff M i j y) (\<lambda>M. mx_SetCoeff M c j swap)))) [0..<n]"

definition pivot_search :: "nat \<Rightarrow> nat \<Rightarrow> goblinMatrix \<Rightarrow> (TFloat \<times> nat) result option" where
  "pivot_search n i A =
     ofold (\<lambda>j s. obind (mx_Coeff A i j) (\<lambda>x. Some (Inr (if \<bar>x\<bar> > \<bar>fst s\<bar> then (x, j) else s)))) [0..<n] (0, 0)"

text \<open>Row \<open>i2\<close> minus a multiple of row \<open>i\<close>, in both matrices.\<close>

definition gauss_clear :: "nat \<Rightarrow> nat \<Rightarrow> nat \<Rightarrow> nat \<Rightarrow> gauss \<Rightarrow> gauss result option" where
  "gauss_clear n i column i2 st =
     obind (mx_Coeff (ga_A st) i2 column) (\<lambda>thisFac.
     obind (row_sub n i2 i thisFac (ga_A st)) (\<lambda>A.
     obind (row_sub (mx_L (ga_B st)) i2 i thisFac (ga_B st)) (\<lambda>B.
       Some (Inr (st\<lparr>ga_A := A, ga_B := B\<rparr>)))))"

definition gauss_triangular :: "TFloat \<Rightarrow> nat \<Rightarrow> nat \<Rightarrow> gauss \<Rightarrow> gauss result option" where
  "gauss_triangular eps n i st =
     obind (pivot_search n i (ga_A st)) (\<lambda>(maxAbs, maxIndex).
       let st1 = st\<lparr>ga_revPivotIndex := (ga_revPivotIndex st)[maxIndex := i],
                    ga_pivotIndex := (ga_pivotIndex st)[i := maxIndex]\<rparr>
       in if \<bar>maxAbs\<bar> < eps then Some (Inl ERRejected)
          else obind (row_div n i maxAbs (ga_A st1)) (\<lambda>A.
               obind (row_div (mx_L (ga_B st1)) i maxAbs (ga_B st1)) (\<lambda>B.
                 ofold (gauss_clear n i maxIndex) [Suc i..<n] (st1\<lparr>ga_A := A, ga_B := B\<rparr>))))"

fun first_column :: "TFloat \<Rightarrow> nat \<Rightarrow> goblinMatrix \<Rightarrow> nat list \<Rightarrow> nat result option" where
  "first_column epsilon i A [] = Some (Inr NoIndex)"
| "first_column epsilon i A (j # js) =
     obind (mx_Coeff A i j) (\<lambda>x. if \<bar>x\<bar> \<ge> epsilon then Some (Inr j) else first_column epsilon i A js)"

definition gauss_diagonal :: "TFloat \<Rightarrow> nat \<Rightarrow> nat \<Rightarrow> gauss \<Rightarrow> gauss result option" where
  "gauss_diagonal epsilon n i st =
     obind (first_column epsilon i (ga_A st) [0..<n]) (\<lambda>column.
       ofold (gauss_clear n i column) [0..<i] st)"

definition gauss_reorder :: "nat \<Rightarrow> nat \<Rightarrow> gauss \<Rightarrow> gauss result option" where
  "gauss_reorder n i st =
     (let column = ga_revPivotIndex st ! i
      in obind (if i \<noteq> column
           then obind (row_swap n i column (ga_A st)) (\<lambda>A.
                obind (row_swap (mx_L (ga_B st)) i column (ga_B st)) (\<lambda>B.
                  Some (Inr (st\<lparr>ga_A := A, ga_B := B\<rparr>))))
           else Some (Inr st))
         (\<lambda>st.
           let rv = (ga_revPivotIndex st)[ga_pivotIndex st ! i := column];
               pv = (ga_pivotIndex st)[rv ! i := ga_pivotIndex st ! i]
           in Some (Inr (st\<lparr>ga_revPivotIndex := rv, ga_pivotIndex := pv\<rparr>))))"

text \<open>
  \<open>eps\<close> is the tolerance of the context, \<open>epsilon\<close> the argument. The index arrays start with the contents \<open>piv0\<close> and
  \<open>rev0\<close>. The second loop starts at \<open>dim - 1\<close> in 64 bit unsigned arithmetic and runs down to 1.
\<close>

definition mx_GaussElim :: "TFloat \<Rightarrow> nat list \<Rightarrow> nat list \<Rightarrow> goblinMatrix \<Rightarrow> goblinMatrix \<Rightarrow> TFloat
    \<Rightarrow> (goblinMatrix \<times> goblinMatrix) result option" where
  "mx_GaussElim eps piv0 rev0 M B epsilon0 =
     (if mx_k M \<noteq> mx_l M then Some (Inl ERRange)
      else if mx_K B \<noteq> mx_l M then Some (Inl ERRange)
      else
        let epsilon = (if epsilon0 \<le> 0 then eps else epsilon0);
            n = mx_k M;
            start = (n + 2 ^ 64 - 1) mod 2 ^ 64
        in obind (ofold (gauss_triangular eps n) [0..<n]
                   \<lparr>ga_A = M, ga_B = B, ga_pivotIndex = piv0, ga_revPivotIndex = rev0\<rparr>) (\<lambda>st.
           obind (ofold (gauss_diagonal epsilon n) (rev [1..<Suc start]) st) (\<lambda>st.
           obind (ofold (gauss_reorder n) [0..<n] st) (\<lambda>st.
             Some (Inr (ga_A st, ga_B st))))))"

section \<open>Row operations\<close>

lemma row_div_val:
  assumes M: "mx_inv M" "i < mx_K M"
  shows "oret (\<lambda>e. e = ERRange) (\<lambda>M'. mx.like M M' \<and> mx_val M' = (mx_val M)(i := \<lambda>j. mx_val M i j / m)) (row_div (mx_L M) i m M)"
proof -
  let ?g = "\<lambda>j M. obind (mx_Coeff M i j) (\<lambda>x. Some (Inr (x / m)))"
  have "row_div (mx_L M) i m M = ofold (\<lambda>j M. obind (?g j M) (mx_SetCoeff M i j)) [0..<mx_L M] M"
    by (simp add: row_div_def obind_assoc)
  also have "oret (\<lambda>e. e = ERRange) (\<lambda>M'. mx.like M M' \<and> mx_val M' = (mx_val M)(i := \<lambda>j. mx_val M i j / m)) \<dots>"
    by (rule mx.row_loop [OF M]) (use M mx.coeff_range [OF M(1)] in \<open>auto simp: mx.coeff_like\<close>)
  finally show ?thesis .
qed

lemma row_sub_val:
  assumes M: "mx_inv M" "i < mx_K M" "i2 < mx_K M" "i \<noteq> i2"
  shows "oret (\<lambda>e. e = ERRange) (\<lambda>M'. mx.like M M' \<and> mx_val M' = (mx_val M)(i2 := \<lambda>j. mx_val M i2 j - fac * mx_val M i j))
    (row_sub (mx_L M) i2 i fac M)"
proof -
  let ?g = "\<lambda>j M. obind (mx_Coeff M i2 j) (\<lambda>x. obind (mx_Coeff M i j) (\<lambda>y. Some (Inr (x - fac * y))))"
  have "row_sub (mx_L M) i2 i fac M = ofold (\<lambda>j M. obind (?g j M) (mx_SetCoeff M i2 j)) [0..<mx_L M] M"
    by (simp add: row_sub_def obind_assoc)
  also have "oret (\<lambda>e. e = ERRange) (\<lambda>M'. mx.like M M' \<and> mx_val M' = (mx_val M)(i2 := \<lambda>j. mx_val M i2 j - fac * mx_val M i j)) \<dots>"
    by (rule mx.row_loop [OF M(1,3)]) (use M mx.coeff_range [OF M(1)] in \<open>auto simp: mx.coeff_like\<close>)
  finally show ?thesis .
qed

lemma row_swap_val:
  assumes M: "mx_inv M" "i < mx_K M" "c < mx_K M" "i \<noteq> c"
  shows "oret (\<lambda>e. e = ERRange) (\<lambda>M'. mx.like M M' \<and> mx_val M' = (mx_val M)(i := mx_val M c, c := mx_val M i)) (row_swap (mx_L M) i c M)"
proof -
  let ?v = "\<lambda>n x y. if x = i \<and> y < n then mx_val M c y else if x = c \<and> y < n then mx_val M i y else mx_val M x y"
  let ?I = "\<lambda>n M'. mx.like M M' \<and> mx_val M' = ?v n"
  have "oret (\<lambda>e. e = ERRange) (?I (mx_L M)) (row_swap (mx_L M) i c M)"
    unfolding row_swap_def
  proof (rule oret_upt)
    fix j M' assume j: "j < mx_L M" and I: "?I j M'"
    have rd: "mx_Coeff M' i j = Some (Inr (mx_val M i j))" "mx_Coeff M' c j = Some (Inr (mx_val M c j))"
      using I j M by (auto simp: mx.coeff_like)
    have "oret (\<lambda>e. e = ERRange) (?I (Suc j)) (obind (mx_SetCoeff M' i j (mx_val M c j)) (\<lambda>M. mx_SetCoeff M c j x))"
      if x: "x = mx_val M i j" for x
    proof (rule oret_seq)
      show "oret (\<lambda>e. e = ERRange) (\<lambda>N. mx.like M N \<and> mx_val N = upd2 i j (mx_val M c j) (mx_val M')) (mx_SetCoeff M' i j (mx_val M c j))"
        by (rule oret_mono [OF mx.setc_oret]) (use I j M in auto)
      fix N assume N: "mx.like M N \<and> mx_val N = upd2 i j (mx_val M c j) (mx_val M')"
      have "upd2 c j x (mx_val N) a b = ?v (Suc j) a b" for a b
        using N I M(4) x by (auto simp: upd2_def less_Suc_eq)
      then show "oret (\<lambda>e. e = ERRange) (?I (Suc j)) (mx_SetCoeff N c j x)"
        by (intro oret_mono [OF mx.setc_oret]) (use N j M in \<open>auto simp: fun_eq_iff\<close>)
    qed
    then show "oret (\<lambda>e. e = ERRange) (?I (Suc j)) (obind (mx_Coeff M' i j) (\<lambda>swap. obind (mx_Coeff M' c j) (\<lambda>y.
       obind (mx_SetCoeff M' i j y) (\<lambda>M. mx_SetCoeff M c j swap))))" by (simp add: rd)
  qed (simp_all add: mx.like_refl M(1) fun_eq_iff)
  then show ?thesis
  proof (rule oret_post)
    fix M' assume I: "?I (mx_L M) M'"
    have "?v (mx_L M) a b = ((mx_val M)(i := mx_val M c, c := mx_val M i)) a b" for a b
      using mx.coeff_range [OF M(1), of _ b] M(4) by (cases "b < mx_L M") auto
    then show "mx.like M M' \<and> mx_val M' = (mx_val M)(i := mx_val M c, c := mx_val M i)" using I by (simp add: fun_eq_iff)
  qed
qed

section \<open>Systems of equations\<close>

definition solves :: "nat \<Rightarrow> (nat \<Rightarrow> nat \<Rightarrow> TFloat) \<Rightarrow> (nat \<Rightarrow> TFloat) \<Rightarrow> (nat \<Rightarrow> TFloat) \<Rightarrow> bool" where
  "solves n a b x \<longleftrightarrow> (\<forall>i < n. (\<Sum>m < n. a i m * x m) = b i)"

text \<open>The systems with the columns of \<open>b\<close> and of \<open>b'\<close> as right hand sides have the same solutions.\<close>

definition equivalent :: "nat \<Rightarrow> (nat \<Rightarrow> nat \<Rightarrow> TFloat) \<Rightarrow> (nat \<Rightarrow> nat \<Rightarrow> TFloat) \<Rightarrow> (nat \<Rightarrow> nat \<Rightarrow> TFloat) \<Rightarrow> (nat \<Rightarrow> nat \<Rightarrow> TFloat) \<Rightarrow> bool" where
  "equivalent n a b a' b' \<longleftrightarrow> (\<forall>j x. solves n a' (\<lambda>i. b' i j) x = solves n a (\<lambda>i. b i j) x)"

lemma equivalent_refl: "equivalent n a b a b"
  by (simp add: equivalent_def)

lemma equivalent_trans: "equivalent n a b a' b' \<Longrightarrow> equivalent n a' b' a'' b'' \<Longrightarrow> equivalent n a b a'' b''"
  by (simp add: equivalent_def)

lemma equivalent_div:
  assumes "m \<noteq> 0" shows "equivalent n a b (a(i := \<lambda>j. a i j / m)) (b(i := \<lambda>j. b i j / m))"
proof -
  have "(\<Sum>k < n. a i k / m * x k) = (\<Sum>k < n. a i k * x k) / m" for x by (simp add: sum_divide_distrib)
  then show ?thesis using assms by (auto simp: equivalent_def solves_def)
qed

lemma equivalent_sub:
  assumes "i < n" "i \<noteq> i2" shows "equivalent n a b (a(i2 := \<lambda>j. a i2 j - f * a i j)) (b(i2 := \<lambda>j. b i2 j - f * b i j))"
proof -
  have "(\<Sum>k < n. (a i2 k - f * a i k) * x k) = (\<Sum>k < n. a i2 k * x k) - f * (\<Sum>k < n. a i k * x k)" for x
    by (simp add: sum_distrib_left left_diff_distrib sum_subtractf mult.assoc)
  then have row: "((\<Sum>k < n. (a(i2 := \<lambda>j. a i2 j - f * a i j)) r k * x k) = (b(i2 := \<lambda>j. b i2 j - f * b i j)) r j)
    = ((\<Sum>k < n. a r k * x k) = b r j)" if "(\<Sum>k < n. a i k * x k) = b i j \<or> r \<noteq> i2" for r j x
    using that by (cases "r = i2") simp_all
  show ?thesis unfolding equivalent_def solves_def
  proof (intro allI iffI impI)
    fix j x r assume L: "\<forall>r < n. (\<Sum>k < n. (a(i2 := \<lambda>j. a i2 j - f * a i j)) r k * x k) = (b(i2 := \<lambda>j. b i2 j - f * b i j)) r j" and r: "r < n"
    then have "(\<Sum>k < n. a i k * x k) = b i j" using row [of x j i] assms by blast
    then show "(\<Sum>k < n. a r k * x k) = b r j" using row [of x j r] L r by blast
  next
    fix j x r assume "\<forall>r < n. (\<Sum>k < n. a r k * x k) = b r j" and "r < n"
    then show "(\<Sum>k < n. (a(i2 := \<lambda>j. a i2 j - f * a i j)) r k * x k) = (b(i2 := \<lambda>j. b i2 j - f * b i j)) r j"
      using row [of x j r] assms by blast
  qed
qed

lemma equivalent_swap:
  assumes "i < n" "c < n" shows "equivalent n a b (a(i := a c, c := a i)) (b(i := b c, c := b i))"
  using assms unfolding equivalent_def solves_def by (auto split: if_splits)

section \<open>The shapes of the matrix\<close>

definition unit_row :: "nat \<Rightarrow> (nat \<Rightarrow> nat \<Rightarrow> TFloat) \<Rightarrow> nat \<Rightarrow> nat \<Rightarrow> bool" where
  "unit_row n a r p \<longleftrightarrow> (\<forall>j < n. a r j = (if j = p then 1 else 0))"

text \<open>The pivots of the first \<open>i\<close> rows are one, and zero below.\<close>

definition tri :: "nat \<Rightarrow> nat \<Rightarrow> (nat \<Rightarrow> nat \<Rightarrow> TFloat) \<Rightarrow> nat list \<Rightarrow> nat list \<Rightarrow> bool" where
  "tri n i a pv rv \<longleftrightarrow> (\<forall>r < i. pv ! r < n \<and> a r (pv ! r) = 1 \<and> rv ! (pv ! r) = r \<and> (\<forall>r' < n. r < r' \<longrightarrow> a r' (pv ! r) = 0))"

text \<open>The same, with the pivot of row \<open>i\<close> eliminated below up to row \<open>k\<close>.\<close>

definition tri_part :: "nat \<Rightarrow> nat \<Rightarrow> nat \<Rightarrow> (nat \<Rightarrow> nat \<Rightarrow> TFloat) \<Rightarrow> nat list \<Rightarrow> nat list \<Rightarrow> bool" where
  "tri_part n i k a pv rv \<longleftrightarrow> tri n i a pv rv \<and> pv ! i < n \<and> a i (pv ! i) = 1 \<and> rv ! (pv ! i) = i
     \<and> (\<forall>r' < k. i < r' \<longrightarrow> a r' (pv ! i) = 0)"

lemma tri_part_done: "tri_part n i n a pv rv \<Longrightarrow> tri n (Suc i) a pv rv"
  by (auto simp: tri_part_def tri_def less_Suc_eq)

lemma tri_part_clear:
  assumes t: "tri_part n i k a pv rv" and k: "i < k" "k < n"
  shows "tri_part n i (Suc k) (a(k := \<lambda>j. a k j - a k (pv ! i) * a i j)) pv rv"
proof -
  have "a k (pv ! r) = 0 \<and> a i (pv ! r) = 0" if "r < i" for r using t k that by (auto simp: tri_part_def tri_def)
  then show ?thesis using t k by (auto simp: tri_part_def tri_def less_Suc_eq)
qed

lemma tri_div:
  assumes "tri n i a pv rv"
  shows "tri n i (a(i := \<lambda>j. a i j / m)) pv rv"
  using assms by (auto simp: tri_def)

lemma tri_part_start:
  assumes t: "tri n i a pv rv" and i: "i < n" "length pv = n" "length rv = n" and p: "p < n" "a i p \<noteq> 0"
  shows "tri_part n i (Suc i) (a(i := \<lambda>j. a i j / a i p)) (pv[i := p]) (rv[p := i])"
proof -
  have "pv ! r \<noteq> p \<and> p \<noteq> pv ! r" if "r < i" for r using t i p that by (auto simp: tri_def)
  then show ?thesis using t i p by (auto simp: tri_part_def tri_def)
qed

lemma tri_inj:
  assumes t: "tri n n a pv rv" and "r < n" "r' < n" "pv ! r = pv ! r'" shows "r = r'"
  using assms by (metis tri_def)

lemma tri_surj:
  assumes t: "tri n n a pv rv" and j: "j < n" obtains r where "r < n" "pv ! r = j"
proof -
  have "inj_on ((!) pv) {..<n}" using tri_inj [OF t] by (auto simp: inj_on_def)
  moreover have "(!) pv ` {..<n} \<subseteq> {..<n}" using t by (auto simp: tri_def)
  ultimately have "(!) pv ` {..<n} = {..<n}" by (simp add: endo_inj_surj)
  with j that show thesis by (metis imageE lessThan_iff)
qed

text \<open>The pivots of the rows from \<open>i\<close> on are eliminated above, too.\<close>

definition dia :: "nat \<Rightarrow> nat \<Rightarrow> (nat \<Rightarrow> nat \<Rightarrow> TFloat) \<Rightarrow> nat list \<Rightarrow> bool" where
  "dia n i a pv \<longleftrightarrow> (\<forall>r < n. i \<le> r \<longrightarrow> (\<forall>r' < r. a r' (pv ! r) = 0))"

lemma dia_unit:
  assumes t: "tri n n a pv rv" and d: "dia n (Suc i) a pv" and i: "i < n"
  shows "unit_row n a i (pv ! i)"
  unfolding unit_row_def
proof (intro allI impI)
  fix j assume "j < n"
  then obtain r where r: "r < n" "pv ! r = j" by (rule tri_surj [OF t])
  consider "r = i" | "r < i" | "i < r" by linarith
  then show "a i j = (if j = pv ! i then 1 else 0)"
  proof cases
    case 1
    then show ?thesis using t i r by (auto simp: tri_def)
  next
    case 2
    then have "a i j = 0" using t i r by (auto simp: tri_def)
    then show ?thesis using 2 tri_inj [OF t r(1) i] r(2) by auto
  next
    case 3
    then have "a i j = 0" using d r by (auto simp: dia_def)
    then show ?thesis using 3 tri_inj [OF t r(1) i] r(2) by auto
  qed
qed

lemma dia_clear:
  assumes t: "tri n n a pv rv" and d: "dia n (Suc i) a pv" and z: "\<forall>r' < k. a r' (pv ! i) = 0" and k: "k < i" "i < n"
  defines "a' \<equiv> a(k := \<lambda>j. a k j - a k (pv ! i) * a i j)"
  shows "tri n n a' pv rv" "dia n (Suc i) a' pv" "\<forall>r' < Suc k. a' r' (pv ! i) = 0"
proof -
  have p: "pv ! r < n" if "r < n" for r using t that by (simp add: tri_def)
  have u: "a i j = (if j = pv ! i then 1 else 0)" if "j < n" for j using dia_unit [OF t d k(2)] that by (simp add: unit_row_def)
  have a': "a' r j = (if r = k \<and> j = pv ! i then 0 else a r j)" if "j < n" for r j using u [OF that] by (cases "j = pv ! i") (simp_all add: a'_def)
  have ne: "pv ! r \<noteq> pv ! i" if "r < n" "r \<noteq> i" for r using tri_inj [OF t that(1) k(2)] that(2) by blast
  show "tri n n a' pv rv" using t p a' ne k by (auto simp: tri_def)
  show "dia n (Suc i) a' pv" using d p a' by (auto simp: dia_def)
  show "\<forall>r' < Suc k. a' r' (pv ! i) = 0" using z a' [OF p [OF k(2)]] by (auto simp: less_Suc_eq)
qed

text \<open>The first \<open>i\<close> rows are in their place; \<open>pv\<close> and \<open>rv\<close> describe the others.\<close>

definition ordered :: "nat \<Rightarrow> nat \<Rightarrow> (nat \<Rightarrow> nat \<Rightarrow> TFloat) \<Rightarrow> nat list \<Rightarrow> nat list \<Rightarrow> bool" where
  "ordered n i a pv rv \<longleftrightarrow> (\<forall>r < i. unit_row n a r r)
     \<and> (\<forall>r < n. i \<le> r \<longrightarrow> pv ! r < n \<and> i \<le> pv ! r \<and> rv ! (pv ! r) = r \<and> unit_row n a r (pv ! r))
     \<and> (\<forall>c < n. i \<le> c \<longrightarrow> rv ! c < n \<and> i \<le> rv ! c \<and> pv ! (rv ! c) = c)"

lemma ordered_start:
  assumes t: "tri n n a pv rv" and d: "dia n (Suc 0) a pv"
  shows "ordered n 0 a pv rv"
proof -
  have "unit_row n a r (pv ! r)" if "r < n" for r
    using dia_unit [OF t _ that] d by (auto simp: dia_def)
  moreover have "rv ! c < n \<and> pv ! (rv ! c) = c" if "c < n" for c
    using tri_surj [OF t that] t by (metis tri_def)
  ultimately show ?thesis using t by (auto simp: ordered_def tri_def)
qed

lemma ordered_same:
  assumes o: "ordered n i a pv rv" and i: "i < n" and c: "rv ! i = i"
  shows "ordered n (Suc i) a (pv[i := pv ! i]) (rv[pv ! i := i])"
proof -
  have p: "pv ! i = i" using o i c by (metis ordered_def order_refl)
  have R: "pv ! r < n" "i \<le> pv ! r" "rv ! (pv ! r) = r" "unit_row n a r (pv ! r)" if "r < n" "i \<le> r" for r
    using o that by (auto simp: ordered_def)
  have C: "rv ! r < n" "i \<le> rv ! r" "pv ! (rv ! r) = r" if "r < n" "i \<le> r" for r using o that by (auto simp: ordered_def)
  have "pv ! r \<noteq> i" if "r < n" "i < r" for r using R(3) [of r] that c by auto
  then have pv: "Suc i \<le> pv ! r" if "r < n" "Suc i \<le> r" for r
    using R(2) [of r] that by (metis Suc_leD Suc_le_lessD le_neq_implies_less Suc_leI)
  have "rv ! r \<noteq> i" if "r < n" "i < r" for r using C(3) [of r] that p by auto
  then have rv: "Suc i \<le> rv ! r" if "r < n" "Suc i \<le> r" for r
    using C(2) [of r] that by (metis Suc_leD Suc_le_lessD le_neq_implies_less Suc_leI)
  have "unit_row n a r r" if "r < Suc i" for r using o R(4) [OF i] p that by (auto simp: ordered_def less_Suc_eq)
  then have "ordered n (Suc i) a pv rv" using R C pv rv by (simp add: ordered_def)
  moreover have "rv[i := i] = rv" "pv[i := i] = pv" using c p by (metis list_update_id)+
  ultimately show ?thesis unfolding p by simp
qed

lemma ordered_swap:
  assumes o: "ordered n i a pv rv" and i: "i < n" "length pv = n" "length rv = n" and c: "rv ! i = c" "c \<noteq> i"
  shows "(rv[pv ! i := c]) ! i = c" "ordered n (Suc i) (a(i := a c, c := a i)) (pv[c := pv ! i]) (rv[pv ! i := c])"
proof -
  let ?p = "pv ! i" and ?a = "a(i := a c, c := a i)"
  have cn: "c < n" "i < c" "pv ! c = i" using o i c by (auto simp: ordered_def)
  have p: "?p < n" "i \<le> ?p" "rv ! ?p = i" using o i by (auto simp: ordered_def)
  have pi: "?p \<noteq> i" using p(3) c by auto
  show "(rv[?p := c]) ! i = c" using pi c by simp
  have R: "pv ! r < n" "i \<le> pv ! r" "rv ! (pv ! r) = r" "unit_row n a r (pv ! r)" if "r < n" "i \<le> r" for r
    using o that by (auto simp: ordered_def)
  have C: "rv ! r < n" "i \<le> rv ! r" "pv ! (rv ! r) = r" if "r < n" "i \<le> r" for r using o that by (auto simp: ordered_def)
  have u: "unit_row n ?a r r" if "r < Suc i" for r
  proof (cases "r = i")
    case True
    then show ?thesis using R(4) [of c] cn by (simp add: unit_row_def)
  next
    case False
    then show ?thesis using o that cn by (auto simp: ordered_def unit_row_def)
  qed
  have r: "pv[c := ?p] ! r < n \<and> Suc i \<le> pv[c := ?p] ! r \<and> rv[?p := c] ! (pv[c := ?p] ! r) = r \<and> unit_row n ?a r (pv[c := ?p] ! r)"
    if r: "r < n" "Suc i \<le> r" for r
  proof (cases "r = c")
    case True
    then show ?thesis using R(4) [of i] p pi i cn by (auto simp: unit_row_def)
  next
    case False
    have "pv ! r \<noteq> i" "pv ! r \<noteq> ?p" using R(3) [of r] r c False p(3) by auto
    then show ?thesis using R [of r] r False by (auto simp: unit_row_def)
  qed
  have "rv[?p := c] ! r < n \<and> Suc i \<le> rv[?p := c] ! r \<and> pv[c := ?p] ! (rv[?p := c] ! r) = r" if r: "r < n" "Suc i \<le> r" for r
  proof (cases "r = ?p")
    case True
    then show ?thesis using cn p i by auto
  next
    case False
    have "rv ! r \<noteq> i" "rv ! r \<noteq> c" using C(3) [of r] r cn(3) False by auto
    then show ?thesis using C [of r] r False by auto
  qed
  with u r show "ordered n (Suc i) ?a (pv[c := ?p]) (rv[?p := c])" by (auto simp: ordered_def)
qed

section \<open>The steps of the method\<close>

definition ga_ok :: "nat \<Rightarrow> goblinMatrix \<Rightarrow> goblinMatrix \<Rightarrow> gauss \<Rightarrow> bool" where
  "ga_ok n A B st \<longleftrightarrow> mx_inv (ga_A st) \<and> mx_K (ga_A st) = n \<and> mx_L (ga_A st) = n
     \<and> mx_inv (ga_B st) \<and> mx_K (ga_B st) = n \<and> mx_L (ga_B st) = mx_L B
     \<and> length (ga_pivotIndex st) = n \<and> length (ga_revPivotIndex st) = n
     \<and> equivalent n (mx_val A) (mx_val B) (mx_val (ga_A st)) (mx_val (ga_B st))"

text \<open>An exception is \<open>ERRange\<close> for a coefficient that becomes too large, or \<open>ERRejected\<close>.\<close>

abbreviation gauss_error :: "goblin_error \<Rightarrow> bool" where
  "gauss_error e \<equiv> e = ERRange \<or> e = ERRejected"

lemma clear_ok:
  assumes ok: "ga_ok n A B st" and i: "i < n" "i2 < n" "i \<noteq> i2"
  shows "oret gauss_error (\<lambda>st'. ga_ok n A B st' \<and> ga_pivotIndex st' = ga_pivotIndex st \<and> ga_revPivotIndex st' = ga_revPivotIndex st
      \<and> column < n \<and> mx_val (ga_A st') = (mx_val (ga_A st))(i2 := \<lambda>j. mx_val (ga_A st) i2 j - mx_val (ga_A st) i2 column * mx_val (ga_A st) i j))
    (gauss_clear n i column i2 st)"
proof (cases "column < n")
  case False
  then have "mx_Coeff (ga_A st) i2 column = Some (Inl ERRange)" using mx.coeff_range [of "ga_A st" i2 column] ok by (simp add: ga_ok_def)
  then show ?thesis by (simp add: gauss_clear_def)
next
  case True
  let ?a = "mx_val (ga_A st)" and ?b = "mx_val (ga_B st)"
  let ?f = "?a i2 column"
  have A: "mx_inv (ga_A st)" "mx_K (ga_A st) = n" "mx_L (ga_A st) = n" and B: "mx_inv (ga_B st)" "mx_K (ga_B st) = n"
    using ok by (simp_all add: ga_ok_def)
  have c: "mx_Coeff (ga_A st) i2 column = Some (Inr ?f)" using A i True by (simp add: mx.coeff_val)
  have a: "oret gauss_error (\<lambda>M'. mx.like (ga_A st) M' \<and> mx_val M' = ?a(i2 := \<lambda>j. ?a i2 j - ?f * ?a i j)) (row_sub n i2 i ?f (ga_A st))"
    using row_sub_val [OF A(1), of i i2 ?f] A i by (auto elim: oret_mono)
  have b: "oret gauss_error (\<lambda>M'. mx.like (ga_B st) M' \<and> mx_val M' = ?b(i2 := \<lambda>j. ?b i2 j - ?f * ?b i j)) (row_sub (mx_L (ga_B st)) i2 i ?f (ga_B st))"
    using row_sub_val [OF B(1), of i i2 ?f] B i by (auto elim: oret_mono)
  have e: "equivalent n (mx_val A) (mx_val B) (?a(i2 := \<lambda>j. ?a i2 j - ?f * ?a i j)) (?b(i2 := \<lambda>j. ?b i2 j - ?f * ?b i j))"
    using ok equivalent_sub [OF i(1,3)] equivalent_trans by (auto simp: ga_ok_def)
  show ?thesis unfolding gauss_clear_def c obind_simps
    by (rule oret_seq [OF a], rule oret_seq [OF b]) (use ok e True in \<open>auto simp: ga_ok_def mx.like_def\<close>)
qed

lemma pivot_search_ok:
  assumes "mx_inv A" "mx_K A = n" "mx_L A = n" "i < n"
  obtains m p where "pivot_search n i A = Some (Inr (m, p))" "p < n" "m = 0 \<or> m = mx_val A i p"
proof -
  have "oret (\<lambda>e. False) (\<lambda>s. snd s < n \<and> (fst s = 0 \<or> fst s = mx_val A i (snd s))) (pivot_search n i A)"
    unfolding pivot_search_def
    by (rule oret_upt) (use assms in \<open>auto simp: mx.coeff_val\<close>)
  then show thesis using that by (auto simp: oret_value)
qed

lemma triangular_ok:
  assumes ok: "ga_ok n A B st" and t: "tri n i (mx_val (ga_A st)) (ga_pivotIndex st) (ga_revPivotIndex st)" and i: "i < n" and eps: "0 < eps"
  shows "oret gauss_error (\<lambda>st'. ga_ok n A B st' \<and> tri n (Suc i) (mx_val (ga_A st')) (ga_pivotIndex st') (ga_revPivotIndex st'))
    (gauss_triangular eps n i st)"
proof -
  let ?a = "mx_val (ga_A st)" and ?b = "mx_val (ga_B st)"
  have A: "mx_inv (ga_A st)" "mx_K (ga_A st) = n" "mx_L (ga_A st) = n" and B: "mx_inv (ga_B st)" "mx_K (ga_B st) = n"
    and len: "length (ga_pivotIndex st) = n" "length (ga_revPivotIndex st) = n"
    using ok by (simp_all add: ga_ok_def)
  obtain m p where s: "pivot_search n i (ga_A st) = Some (Inr (m, p))" "p < n" "m = 0 \<or> m = ?a i p" by (rule pivot_search_ok [OF A i])
  let ?pv = "(ga_pivotIndex st)[i := p]" and ?rv = "(ga_revPivotIndex st)[p := i]"
  let ?st = "st\<lparr>ga_revPivotIndex := ?rv, ga_pivotIndex := ?pv\<rparr>"
  show ?thesis
  proof (cases "\<bar>m\<bar> < eps")
    case True
    then show ?thesis by (simp add: gauss_triangular_def s(1))
  next
    case False
    then have m: "m \<noteq> 0" "m = ?a i p" using eps s(3) by auto
    let ?a1 = "?a(i := \<lambda>j. ?a i j / m)" and ?b1 = "?b(i := \<lambda>j. ?b i j / m)"
    have a: "oret gauss_error (\<lambda>M. mx.like (ga_A st) M \<and> mx_val M = ?a1) (row_div n i m (ga_A st))"
      using row_div_val [OF A(1), of i m] A i by (auto elim: oret_mono)
    have b: "oret gauss_error (\<lambda>M. mx.like (ga_B st) M \<and> mx_val M = ?b1) (row_div (mx_L (ga_B st)) i m (ga_B st))"
      using row_div_val [OF B(1), of i m] B i by (auto elim: oret_mono)
    have e: "equivalent n (mx_val A) (mx_val B) ?a1 ?b1"
      using ok equivalent_div [OF m(1)] equivalent_trans by (auto simp: ga_ok_def)
    have t1: "tri_part n i (Suc i) ?a1 ?pv ?rv" using tri_part_start [OF t i len s(2)] m by simp
    let ?I = "\<lambda>k st'. ga_ok n A B st' \<and> ga_pivotIndex st' = ?pv \<and> ga_revPivotIndex st' = ?rv \<and> tri_part n i k (mx_val (ga_A st')) ?pv ?rv"
    have step: "oret gauss_error (?I (Suc k)) (gauss_clear n i p k st')" if k: "Suc i \<le> k" "k < n" and I: "?I k st'" for k st'
    proof (rule oret_post [OF clear_ok [of n A B st' i k p]])
      have pv: "?pv ! i = p" using i len by simp
      fix st'' assume "ga_ok n A B st'' \<and> ga_pivotIndex st'' = ga_pivotIndex st' \<and> ga_revPivotIndex st'' = ga_revPivotIndex st'
        \<and> p < n \<and> mx_val (ga_A st'') = (mx_val (ga_A st'))(k := \<lambda>j. mx_val (ga_A st') k j - mx_val (ga_A st') k p * mx_val (ga_A st') i j)"
      then show "?I (Suc k) st''" using tri_part_clear [of n i k "mx_val (ga_A st')" ?pv ?rv] I k pv by auto
    qed (use k I i in auto)
    have loop: "oret gauss_error (\<lambda>st'. ga_ok n A B st' \<and> tri n (Suc i) (mx_val (ga_A st')) (ga_pivotIndex st') (ga_revPivotIndex st'))
        (ofold (gauss_clear n i p) [Suc i..<n] (?st\<lparr>ga_A := A', ga_B := B'\<rparr>))"
      if "mx.like (ga_A st) A' \<and> mx_val A' = ?a1" "mx.like (ga_B st) B' \<and> mx_val B' = ?b1" for A' B'
    proof (rule oret_post [OF oret_upt [where I = ?I, OF _ _ step]])
      show "?I (Suc i) (?st\<lparr>ga_A := A', ga_B := B'\<rparr>)" using that ok e t1 by (auto simp: ga_ok_def mx.like_def)
    qed (use i tri_part_done in auto)
    show ?thesis unfolding gauss_triangular_def s(1) obind_simps Let_def prod.case using False
      by simp (rule oret_seq [OF a], rule oret_seq [OF b], rule loop)
  qed
qed

lemma first_column_find:
  assumes "mx_inv A" "i < mx_K A" "\<forall>j \<in> set js. j < mx_L A"
  shows "first_column epsilon i A js = Some (Inr (case find (\<lambda>j. \<bar>mx_val A i j\<bar> \<ge> epsilon) js of None \<Rightarrow> NoIndex | Some j \<Rightarrow> j))"
  using assms(3) by (induction js) (auto simp: mx.coeff_val assms(1,2))

lemma find_only:
  assumes "\<And>j. j \<in> set js \<Longrightarrow> P j \<longleftrightarrow> j = p \<and> c"
  shows "find P js = (if p \<in> set js \<and> c then Some p else None)"
  using assms by (induction js) auto

lemma first_column_unit:
  assumes "mx_inv A" "mx_K A = n" "mx_L A = n" "i < n" "unit_row n (mx_val A) i p" "p < n" "0 < epsilon"
  shows "first_column epsilon i A [0..<n] = Some (Inr (if epsilon \<le> 1 then p else NoIndex))"
proof -
  have "find (\<lambda>j. \<bar>mx_val A i j\<bar> \<ge> epsilon) [0..<n] = (if p \<in> set [0..<n] \<and> epsilon \<le> 1 then Some p else None)"
    by (rule find_only) (use assms in \<open>auto simp: unit_row_def\<close>)
  then show ?thesis using first_column_find [of A i "[0..<n]" epsilon] assms by auto
qed

abbreviation diagonal_inv :: "nat \<Rightarrow> goblinMatrix \<Rightarrow> goblinMatrix \<Rightarrow> nat \<Rightarrow> gauss \<Rightarrow> bool" where
  "diagonal_inv n A B i st \<equiv> ga_ok n A B st \<and> tri n n (mx_val (ga_A st)) (ga_pivotIndex st) (ga_revPivotIndex st)
     \<and> dia n i (mx_val (ga_A st)) (ga_pivotIndex st)"

lemma diagonal_ok:
  assumes I: "diagonal_inv n A B (Suc i) st" and i: "1 \<le> i" "i < n" and n: "n \<le> NoIndex" and eps: "0 < epsilon"
  shows "oret gauss_error (diagonal_inv n A B i) (gauss_diagonal epsilon n i st)"
proof -
  let ?pv = "ga_pivotIndex st" and ?rv = "ga_revPivotIndex st"
  define column where "column = (if epsilon \<le> 1 then ?pv ! i else NoIndex)"
  have A: "mx_inv (ga_A st)" "mx_K (ga_A st) = n" "mx_L (ga_A st) = n" using I by (simp_all add: ga_ok_def)
  have p: "?pv ! i < n" using I i by (auto simp: tri_def)
  have u: "unit_row n (mx_val (ga_A st)) i (?pv ! i)" using dia_unit I i by blast
  have c: "first_column epsilon i (ga_A st) [0..<n] = Some (Inr column)" unfolding column_def by (rule first_column_unit [OF A i(2) u p eps])
  let ?I = "\<lambda>k st'. diagonal_inv n A B (Suc i) st' \<and> ga_pivotIndex st' = ?pv \<and> ga_revPivotIndex st' = ?rv
    \<and> (\<forall>r' < k. mx_val (ga_A st') r' (?pv ! i) = 0)"
  have step: "oret gauss_error (?I (Suc k)) (gauss_clear n i column k st')" if k: "0 \<le> k" "k < i" and J: "?I k st'" for k st'
  proof (rule oret_post [OF clear_ok [of n A B st' i k column]])
    fix st'' assume st'': "ga_ok n A B st'' \<and> ga_pivotIndex st'' = ga_pivotIndex st' \<and> ga_revPivotIndex st'' = ga_revPivotIndex st'
      \<and> column < n \<and> mx_val (ga_A st'') = (mx_val (ga_A st'))(k := \<lambda>j. mx_val (ga_A st') k j - mx_val (ga_A st') k column * mx_val (ga_A st') i j)"
    then have "column = ?pv ! i" using n by (auto simp: column_def split: if_splits)
    then have v: "mx_val (ga_A st'') = (mx_val (ga_A st'))(k := \<lambda>j. mx_val (ga_A st') k j - mx_val (ga_A st') k (?pv ! i) * mx_val (ga_A st') i j)"
      using st'' by simp
    have J': "tri n n (mx_val (ga_A st')) ?pv ?rv" "dia n (Suc i) (mx_val (ga_A st')) ?pv" "\<forall>r' < k. mx_val (ga_A st') r' (?pv ! i) = 0"
      using J by auto
    note d = dia_clear [OF J' k(2) i(2), folded v]
    show "?I (Suc k) st''" using st'' J d by simp
  qed (use k J i in auto)
  have "oret gauss_error (diagonal_inv n A B i) (ofold (gauss_clear n i column) [0..<i] st)"
  proof (rule oret_post [OF oret_upt [where I = ?I, OF _ _ step]])
    fix st' assume J: "?I i st'"
    then have "dia n i (mx_val (ga_A st')) (ga_pivotIndex st')"
      unfolding dia_def by (metis Suc_leI le_eq_less_or_eq)
    then show "diagonal_inv n A B i st'" using J by blast
  qed (use I in auto)
  then show ?thesis by (simp add: gauss_diagonal_def c)
qed

abbreviation reorder_inv :: "nat \<Rightarrow> goblinMatrix \<Rightarrow> goblinMatrix \<Rightarrow> nat \<Rightarrow> gauss \<Rightarrow> bool" where
  "reorder_inv n A B i st \<equiv> ga_ok n A B st \<and> ordered n i (mx_val (ga_A st)) (ga_pivotIndex st) (ga_revPivotIndex st)"

lemma reorder_ok:
  assumes I: "reorder_inv n A B i st" and i: "i < n"
  shows "oret gauss_error (reorder_inv n A B (Suc i)) (gauss_reorder n i st)"
proof (cases "i = ga_revPivotIndex st ! i")
  case True
  then have c: "ga_revPivotIndex st ! i = i" by simp
  have o: "ordered n (Suc i) (mx_val (ga_A st)) ((ga_pivotIndex st)[i := ga_pivotIndex st ! i]) ((ga_revPivotIndex st)[ga_pivotIndex st ! i := i])"
    using ordered_same [OF _ i c] I by blast
  have "ga_pivotIndex st ! i = i" using I i c unfolding ordered_def by (metis order_refl)
  then have "((ga_revPivotIndex st)[ga_pivotIndex st ! i := i]) ! i = i" using c I i by (simp add: ga_ok_def)
  then show ?thesis using I o c by (simp add: gauss_reorder_def Let_def ga_ok_def)
next
  case False
  let ?a = "mx_val (ga_A st)" and ?b = "mx_val (ga_B st)" and ?c = "ga_revPivotIndex st ! i"
  have A: "mx_inv (ga_A st)" "mx_K (ga_A st) = n" "mx_L (ga_A st) = n" and B: "mx_inv (ga_B st)" "mx_K (ga_B st) = n"
    and len: "length (ga_pivotIndex st) = n" "length (ga_revPivotIndex st) = n"
    using I by (simp_all add: ga_ok_def)
  have c: "?c < n" using I i by (auto simp: ordered_def)
  let ?a1 = "?a(i := ?a ?c, ?c := ?a i)" and ?b1 = "?b(i := ?b ?c, ?c := ?b i)"
  have a: "oret gauss_error (\<lambda>M. mx.like (ga_A st) M \<and> mx_val M = ?a1) (row_swap n i ?c (ga_A st))"
    using row_swap_val [OF A(1), of i ?c] A i c False by (auto elim: oret_mono)
  have b: "oret gauss_error (\<lambda>M. mx.like (ga_B st) M \<and> mx_val M = ?b1) (row_swap (mx_L (ga_B st)) i ?c (ga_B st))"
    using row_swap_val [OF B(1), of i ?c] B i c False by (auto elim: oret_mono)
  have e: "equivalent n (mx_val A) (mx_val B) ?a1 ?b1"
    using I equivalent_swap [OF i c] equivalent_trans by (auto simp: ga_ok_def)
  have "ordered n i ?a (ga_pivotIndex st) (ga_revPivotIndex st)" "?c \<noteq> i" using I False by auto
  note o = ordered_swap [OF this(1) i len refl this(2)]
  show ?thesis unfolding gauss_reorder_def Let_def if_P [OF False] obind_assoc obind_simps
    by (rule oret_seq [OF a], rule oret_seq [OF b]) (use I o e in \<open>auto simp: ga_ok_def mx.like_def\<close>)
qed

section \<open>Properties\<close>

lemma ordered_solution:
  assumes "ordered n n a pv rv"
  shows "solves n a b x \<longleftrightarrow> (\<forall>i < n. x i = b i)"
proof -
  have "(\<Sum>m < n. a i m * x m) = x i" if "i < n" for i
  proof -
    have "(\<Sum>m < n. a i m * x m) = (\<Sum>m < n. if m = i then x m else 0)"
      by (rule sum.cong) (use assms that in \<open>auto simp: ordered_def unit_row_def\<close>)
    then show ?thesis using that by simp
  qed
  then show ?thesis by (simp add: solves_def)
qed

lemma gauss_start: "0 < n \<Longrightarrow> n \<le> NoIndex \<Longrightarrow> (n + 2 ^ 64 - 1) mod 2 ^ 64 = n - 1"
proof -
  assume "0 < n" "n \<le> NoIndex"
  then have "n + 2 ^ 64 - 1 = (n - 1) + 2 ^ 64" "n - 1 < 2 ^ 64" by (simp_all add: NoIndex_def)
  then show ?thesis by (metis mod_add_self2 mod_less)
qed

lemma gauss_phases:
  assumes A: "mx_inv A" "mx_K A = n" "mx_L A = n" "mx_k A = n" "mx_l A = n" and B: "mx_inv B" "mx_K B = n" and n: "0 < n" "n \<le> NoIndex"
    and eps: "0 < eps" and len: "length piv0 = n" "length rev0 = n"
  shows "oret gauss_error (\<lambda>r. mx_inv (fst r) \<and> mx_inv (snd r) \<and> mx_K (fst r) = n \<and> mx_L (fst r) = n \<and> mx_K (snd r) = n \<and> mx_L (snd r) = mx_L B
      \<and> (\<forall>i < n. unit_row n (mx_val (fst r)) i i) \<and> (\<forall>j x. solves n (mx_val A) (\<lambda>i. mx_val B i j) x \<longleftrightarrow> (\<forall>i < n. x i = mx_val (snd r) i j)))
    (mx_GaussElim eps piv0 rev0 A B epsilon0)"
proof -
  let ?epsilon = "if epsilon0 \<le> 0 then eps else epsilon0"
  have pos: "0 < ?epsilon" using eps by simp
  let ?st = "\<lparr>ga_A = A, ga_B = B, ga_pivotIndex = piv0, ga_revPivotIndex = rev0\<rparr>"
  let ?T = "\<lambda>i st. ga_ok n A B st \<and> tri n i (mx_val (ga_A st)) (ga_pivotIndex st) (ga_revPivotIndex st)"
  have 1: "oret gauss_error (?T n) (ofold (gauss_triangular eps n) [0..<n] ?st)"
  proof (rule oret_upt [where I = ?T])
    show "?T 0 ?st" using A B len by (simp add: ga_ok_def equivalent_refl tri_def)
    show "oret gauss_error (?T (Suc i)) (gauss_triangular eps n i st)" if "i < n" "?T i st" for i st
      using triangular_ok [of n A B st i eps] that eps by blast
  qed simp
  have 2: "oret gauss_error (diagonal_inv n A B 1) (ofold (gauss_diagonal ?epsilon n) (rev [1..<n]) st)" if "?T n st" for st
  proof (rule oret_downt [where I = "diagonal_inv n A B"])
    show "oret gauss_error (diagonal_inv n A B i) (gauss_diagonal ?epsilon n i st)" if "1 \<le> i" "i < n" "diagonal_inv n A B (Suc i) st" for i st
      by (rule diagonal_ok [OF that(3,1,2) n(2) pos])
  qed (use that n in \<open>auto simp: dia_def\<close>)
  have 3: "oret gauss_error (reorder_inv n A B n) (ofold (gauss_reorder n) [0..<n] st)" if "diagonal_inv n A B 1 st" for st
    by (rule oret_upt [where I = "reorder_inv n A B"]) (use that in \<open>auto simp: ordered_start intro: reorder_ok\<close>)
  have 4: "oret gauss_error P (Some (Inr (ga_A st, ga_B st)))" if "reorder_inv n A B n st" "\<And>st. reorder_inv n A B n st \<Longrightarrow> P (ga_A st, ga_B st)" for st P
    using that by simp
  have eq: "mx_GaussElim eps piv0 rev0 A B epsilon0 =
    obind (ofold (gauss_triangular eps n) [0..<n] ?st) (\<lambda>st. obind (ofold (gauss_diagonal ?epsilon n) (rev [1..<n]) st) (\<lambda>st.
      obind (ofold (gauss_reorder n) [0..<n] st) (\<lambda>st. Some (Inr (ga_A st, ga_B st)))))"
    unfolding mx_GaussElim_def Let_def A(4,5) B(2) gauss_start [OF n] using n(1) by simp
  show ?thesis unfolding eq
  proof (rule oret_seq [OF 1], rule oret_seq [OF 2], assumption, rule oret_seq [OF 3], assumption, erule 4)
    fix st assume st: "reorder_inv n A B n st"
    then have "equivalent n (mx_val A) (mx_val B) (mx_val (ga_A st)) (mx_val (ga_B st))" by (simp add: ga_ok_def)
    then have "solves n (mx_val A) (\<lambda>i. mx_val B i j) x \<longleftrightarrow> (\<forall>i < n. x i = mx_val (ga_B st) i j)" for j x
      using ordered_solution [of n "mx_val (ga_A st)" "ga_pivotIndex st" "ga_revPivotIndex st" "\<lambda>i. mx_val (ga_B st) i j" x] st
      by (simp add: equivalent_def)
    then show "mx_inv (fst (ga_A st, ga_B st)) \<and> mx_inv (snd (ga_A st, ga_B st)) \<and> mx_K (fst (ga_A st, ga_B st)) = n \<and> mx_L (fst (ga_A st, ga_B st)) = n
      \<and> mx_K (snd (ga_A st, ga_B st)) = n \<and> mx_L (snd (ga_A st, ga_B st)) = mx_L B
      \<and> (\<forall>i < n. unit_row n (mx_val (fst (ga_A st, ga_B st))) i i)
      \<and> (\<forall>j x. solves n (mx_val A) (\<lambda>i. mx_val B i j) x \<longleftrightarrow> (\<forall>i < n. x i = mx_val (snd (ga_A st, ga_B st)) i j))"
      using st by (auto simp: ga_ok_def ordered_def)
  qed
qed

text \<open>
  C18: \<open>GaussElim\<close> solves systems of linear equations. For a square matrix of positive dimension, transposed or not, and a positive
  tolerance, the call returns. Without an exception, the matrix has become the identity, and for every column of the
  right hand side the new column is the one and only solution of the system with the original matrix. Otherwise the
  exception is \<open>ERRejected\<close> (no pivot reaches the tolerance) or \<open>ERRange\<close> (a coefficient is too large, or the
  tolerance that the caller passes exceeds one).
\<close>

theorem GaussElim_solves:
  assumes "mx_inv A" "mx_k A = n" "mx_l A = n" "0 < n" "n \<le> NoIndex" "mx_inv B" "mx_K B = n" "0 < eps"
    and "length piv0 = n" "length rev0 = n"
  shows "(\<exists>A' B'. mx_GaussElim eps piv0 rev0 A B epsilon0 = Some (Inr (A', B'))
      \<and> (\<forall>i < n. \<forall>j < n. mx_Coeff A' i j = Some (Inr (if i = j then 1 else 0)))
      \<and> mx_K B' = n \<and> mx_L B' = mx_L B
      \<and> (\<forall>j < mx_L B. \<forall>x. (\<forall>i < n. (\<Sum>m < n. mx_val A i m * x m) = mx_val B i j) \<longleftrightarrow> (\<forall>i < n. mx_Coeff B' i j = Some (Inr (x i)))))
    \<or> mx_GaussElim eps piv0 rev0 A B epsilon0 = Some (Inl ERRejected)
    \<or> mx_GaussElim eps piv0 rev0 A B epsilon0 = Some (Inl ERRange)"
proof -
  have A: "mx_K A = n" "mx_L A = n" using assms(2,3) by (simp_all add: mx_K_def mx_L_def)
  from gauss_phases [OF assms(1) A assms(2,3,6,7,4,5,8,9,10), of epsilon0] show ?thesis
  proof (cases rule: oretE)
    case (val r)
    obtain A' B' where r: "r = (A', B')" by (cases r)
    have c: "mx_Coeff A' i j = Some (Inr (if i = j then 1 else 0))" if "i < n" "j < n" for i j
      using val(2) that by (auto simp: r mx.coeff_val unit_row_def)
    have sol: "(\<forall>i < n. (\<Sum>m < n. mx_val A i m * x m) = mx_val B i j) \<longleftrightarrow> (\<forall>i < n. mx_Coeff B' i j = Some (Inr (x i)))" if "j < mx_L B" for j x
    proof -
      have "(\<forall>i < n. (\<Sum>m < n. mx_val A i m * x m) = mx_val B i j) \<longleftrightarrow> (\<forall>i < n. x i = mx_val B' i j)"
        using val(2) unfolding r solves_def by simp
      also have "\<dots> \<longleftrightarrow> (\<forall>i < n. mx_Coeff B' i j = Some (Inr (x i)))" using val(2) that by (auto simp: r mx.coeff_val)
      finally show ?thesis .
    qed
    have "mx_K B' = n" "mx_L B' = mx_L B" using val(2) by (simp_all add: r)
    with c sol val(1) show ?thesis unfolding r by blast
  qed auto
qed

lemma GaussElim_example:
  "mx_GaussElim (1 / 10000) [0, 0] [0, 0] (mx_example [0, 2, 4, 4]) (mx_example [2, 6, 8, 4]) 0
    = Some (Inr (mx_example [1, 0, 0, 1], mx_example [1, - 2, 1, 3]))"
proof -
  have c: "mx_Coeff (mx_example [a, b, c, d]) 0 0 = Some (Inr a)" "mx_Coeff (mx_example [a, b, c, d]) 0 (Suc 0) = Some (Inr b)"
    "mx_Coeff (mx_example [a, b, c, d]) (Suc 0) 0 = Some (Inr c)" "mx_Coeff (mx_example [a, b, c, d]) (Suc 0) (Suc 0) = Some (Inr d)" for a b c d
    by (simp_all add: mx_example_def denseMatrix_Coeff_def numeral_3_eq_3)
  have s: "mx_SetCoeff (mx_example [a, b, c, d]) 0 0 x = Some (Inr (mx_example [x, b, c, d]))"
    "mx_SetCoeff (mx_example [a, b, c, d]) 0 (Suc 0) x = Some (Inr (mx_example [a, x, c, d]))"
    "mx_SetCoeff (mx_example [a, b, c, d]) (Suc 0) 0 x = Some (Inr (mx_example [a, b, x, d]))"
    "mx_SetCoeff (mx_example [a, b, c, d]) (Suc 0) (Suc 0) x = Some (Inr (mx_example [a, b, c, x]))" if "\<bar>x\<bar> < 100" for a b c d x
    using that by (auto simp: mx_example_def denseMatrix_SetCoeff_def numeral_3_eq_3 InfFloat_def)
  have u: "[0..<2] = [0, Suc 0]" "[Suc 0..<2] = [Suc 0]" "[2..<2] = []" "[0..<Suc 0] = [0]" by (simp_all add: numeral_2_eq_2)
  note defs = gauss_triangular_def gauss_clear_def row_div_def row_sub_def row_swap_def pivot_search_def gauss_diagonal_def gauss_reorder_def
  show ?thesis by (simp add: mx_GaussElim_def Let_def defs c s u)
qed

theorem GaussElim_solves_witness:
  "\<exists>A' B'. mx_GaussElim (1 / 10000) [0, 0] [0, 0] (mx_example [0, 2, 4, 4]) (mx_example [2, 6, 8, 4]) 0 = Some (Inr (A', B'))
    \<and> (\<forall>i < 2. \<forall>j < 2. mx_Coeff A' i j = Some (Inr (if i = j then 1 else 0)))
    \<and> (\<forall>j < 2. \<forall>x. (\<forall>i < 2. (\<Sum>m < 2. mx_val (mx_example [0, 2, 4, 4]) i m * x m) = mx_val (mx_example [2, 6, 8, 4]) i j)
        \<longleftrightarrow> (\<forall>i < 2. mx_Coeff B' i j = Some (Inr (x i))))"
  using GaussElim_solves [of "mx_example [0, 2, 4, 4]" 2 "mx_example [2, 6, 8, 4]" "1 / 10000" "[0, 0]" "[0, 0]" 0]
  by (simp add: GaussElim_example NoIndex_def del: mx_example_facts(7))

text \<open>
  The elimination method does not accept the matrix without rows: its second loop counts down from an unsigned
  number below zero, and the call ends with \<open>ERRange\<close>.
\<close>

theorem GaussElim_no_rows:
  assumes "mx_inv A" "mx_k A = 0" "mx_l A = 0" "mx_K B = 0"
  shows "mx_GaussElim eps piv0 rev0 A B epsilon0 = Some (Inl ERRange)"
proof -
  let ?st = "\<lparr>ga_A = A, ga_B = B, ga_pivotIndex = piv0, ga_revPivotIndex = rev0\<rparr>"
  have "mx_Coeff A 0 NoIndex = Some (Inl ERRange)" using mx.coeff_range [OF assms(1), of 0 NoIndex] assms(2,3) by (simp add: mx_K_def)
  then have d: "gauss_diagonal e 0 k ?st = Some (Inl ERRange)" if "0 < k" for e k
    using that unfolding gauss_diagonal_def by (simp add: upt_conv_Cons gauss_clear_def)
  show ?thesis using assms by (simp add: mx_GaussElim_def Let_def d)
qed

theorem GaussElim_no_rows_witness:
  "mx_GaussElim (1 / 10000) [] [] (Dense (denseMatrix 0 0)) (Dense (denseMatrix 0 1)) 0 = Some (Inl ERRange)"
  by (rule GaussElim_no_rows) (simp_all add: denseMatrix_def dm_inv_def)

end
