(* ===== verification/Dense_Graph.thy ===== *)
theory Dense_Graph
  imports Shortest_Paths Hash_Table Result_Logic
begin

text \<open>
  Dense graph objects: \<^verbatim>\<open>lib_src/denseRepresentation.cpp\<close> and the incidence functions of
  \<^verbatim>\<open>lib_src/denseDigraph.cpp\<close>, \<^verbatim>\<open>lib_src/denseGraph.cpp\<close> and \<^verbatim>\<open>lib_src/denseBigraph.cpp\<close>. The end nodes
  and the incidence lists of a dense graph are computed from the arc index; the labels
  are kept in the attribute pools of the base class and the subgraph in a hash table.
\<close>

section \<open>The representation\<close>

text \<open>
  The base class part has the state of \<open>Graph_Repr\<close>; its incidence arrays and its subgraph are not used. The
  first contents of the arrays of a new hash table do not matter.
\<close>

record dense =
  de_base :: sparse
  de_sub :: "TFloat hash_table option"

definition denseRepresentation :: "nat \<Rightarrow> nat \<Rightarrow> nat \<Rightarrow> nat \<Rightarrow> bool \<Rightarrow> dense result" where
  "denseRepresentation mxNode mxArc n m compl =
     (let S = (sparseRepresentation mxNode mxArc n)\<lparr>sp_mAct := m, sp_mMax := m\<rparr>
      in if \<not> compl
         then rbind (attributePool_MakeAttribute (sp_SizeInfo S) (sp_representation S) TokReprUCap ATTR_ALLOW_NULL (Some 0))
                (\<lambda>(b, P). Inr \<lparr>de_base = S\<lparr>sp_representation := P\<rparr>, de_sub = None\<rparr>)
         else Inr \<lparr>de_base = S, de_sub = None\<rparr>)"

definition de_UCap :: "dense \<Rightarrow> nat \<Rightarrow> real" where "de_UCap D a = sp_UCap (de_base D) a"
definition de_LCap :: "dense \<Rightarrow> nat \<Rightarrow> real" where "de_LCap D a = sp_LCap (de_base D) a"

definition de_NewSubgraph :: "dense \<Rightarrow> nat \<Rightarrow> dense result" where
  "de_NewSubgraph D siz =
     (if de_sub D = None
      then rbind (goblinHashTable (sp_mMax (de_base D)) siz 0 (replicate siz 0) (replicate siz 0))
             (\<lambda>H. Inr (D\<lparr>de_sub := Some H\<rparr>))
      else Inl ERRejected)"

definition de_ReleaseSubgraph :: "dense \<Rightarrow> dense" where
  "de_ReleaseSubgraph D = D\<lparr>de_sub := None\<rparr>"

definition de_Sub :: "dense \<Rightarrow> nat \<Rightarrow> real result option" where
  "de_Sub D a =
     (if a \<ge> 2 * sp_mAct (de_base D) then Some (Inl ERRange)
      else case de_sub D of
          None \<Rightarrow> Some (Inr (de_LCap D a))
        | Some H \<Rightarrow> obind (goblinHashTable_Key H (a div 2)) (\<lambda>k. Some (Inr (de_LCap D a + k))))"

definition de_with_sub :: "dense \<Rightarrow> dense result" where
  "de_with_sub D = (if de_sub D = None then de_NewSubgraph D (2 * sp_nMax (de_base D)) else Inr D)"

definition de_SetSub :: "dense \<Rightarrow> nat \<Rightarrow> real \<Rightarrow> dense result option" where
  "de_SetSub D a multiplicity =
     (if a \<ge> 2 * sp_mAct (de_base D) then Some (Inl ERRange)
      else obind (de_Sub D a) (\<lambda>thisSub.
        if thisSub > 0 \<and> \<bar>multiplicity\<bar> < de_LCap D a
           \<or> de_UCap D a < InfCap \<and> \<bar>multiplicity\<bar> > de_UCap D a
        then Some (Inl ERRejected)
        else obind (Some (de_with_sub D)) (\<lambda>D1.
          let H = the (de_sub D1)
          in obind (goblinHashTable_Key H (a div 2)) (\<lambda>k.
             obind (goblinHashTable_ChangeKey 2 H (a div 2) multiplicity) (\<lambda>H1.
               Some (Inr (D1\<lparr>de_base := call (C_AdjustDegrees a (multiplicity - k)) (de_base D1), de_sub := Some H1\<rparr>)))))))"

definition de_SetSubRelative :: "dense \<Rightarrow> nat \<Rightarrow> real \<Rightarrow> dense result option" where
  "de_SetSubRelative D a lambda =
     (if a \<ge> 2 * sp_mAct (de_base D) then Some (Inl ERRange)
      else obind (de_Sub D a) (\<lambda>thisSub.
        if thisSub > 0 \<and> \<bar>thisSub + lambda\<bar> < de_LCap D a
           \<or> de_UCap D a < InfCap \<and> \<bar>thisSub + lambda\<bar> > de_UCap D a
        then Some (Inl ERRejected)
        else obind (Some (de_with_sub D)) (\<lambda>D1.
          let H = the (de_sub D1)
          in obind (goblinHashTable_Key H (a div 2)) (\<lambda>k.
             obind (goblinHashTable_ChangeKey 2 H (a div 2) (k + lambda)) (\<lambda>H1.
               Some (Inr (D1\<lparr>de_base := call (C_AdjustDegrees a lambda) (de_base D1), de_sub := Some H1\<rparr>)))))))"

text \<open>The setters of the base class, with the virtual functions of this class.\<close>

definition on_base :: "sparse result \<Rightarrow> dense \<Rightarrow> dense result" where
  "on_base r D = rbind r (\<lambda>S. Inr (D\<lparr>de_base := S\<rparr>))"

definition de_SetLength :: "dense \<Rightarrow> nat \<Rightarrow> real \<Rightarrow> dense result" where
  "de_SetLength D a l = on_base (sp_SetLength (de_base D) a l) D"

definition de_SetUCap :: "dense \<Rightarrow> nat \<Rightarrow> real \<Rightarrow> dense result option" where
  "de_SetUCap D a ucap =
     (if a \<ge> 2 * sp_mAct (de_base D) then Some (Inl ERRange)
      else if ucap < 0 then Some (Inl ERRange)
      else obind (de_Sub D a) (\<lambda>thisSub.
        obind (if thisSub > ucap then de_SetSub D a ucap else Some (Inr D)) (\<lambda>D1.
          Some (on_base (set_arc_attribute (de_base D1) TokReprUCap 1 a ucap) D1))))"

definition de_SetLCap :: "dense \<Rightarrow> nat \<Rightarrow> real \<Rightarrow> dense result option" where
  "de_SetLCap D a lcap =
     (if a \<ge> 2 * sp_mAct (de_base D) then Some (Inl ERRange)
      else if lcap < 0 then Some (Inl ERRange)
      else obind (de_Sub D a) (\<lambda>thisSub.
        obind (if \<bar>thisSub\<bar> < lcap then de_SetSub D a (if thisSub \<ge> 0 then lcap else - lcap) else Some (Inr D)) (\<lambda>D1.
          Some (on_base (set_arc_attribute (de_base D1) TokReprLCap 0 a lcap) D1))))"

definition de_SetCUCap :: "dense \<Rightarrow> real \<Rightarrow> dense result" where
  "de_SetCUCap D ucap =
     (if ucap < 0 then Inl ERRange
      else on_base (set_constant (de_base D) TokReprUCap 1 ucap) (de_ReleaseSubgraph D))"

text \<open>The warning about conflicting lengths does not change the state.\<close>

definition de_InsertArc :: "dense \<Rightarrow> nat \<Rightarrow> real \<Rightarrow> real \<Rightarrow> real \<Rightarrow> (nat \<times> dense) result option" where
  "de_InsertArc D aa u c l =
     (if sp_referenced (de_base D) then Some (Inl ERRejected)
      else if aa \<ge> sp_mMax (de_base D) then Some (Inl ERRange)
      else obind (Some (de_SetLength D (2 * aa) c)) (\<lambda>D1.
        obind (de_SetUCap D1 (2 * aa) (de_UCap D1 (2 * aa) + u)) (\<lambda>D2.
          if l > 0
          then obind (de_SetLCap D2 (2 * aa) (de_LCap D2 (2 * aa) + l)) (\<lambda>D3.
            case de_sub D3 of
              None \<Rightarrow> Some (Inl OutOfBounds)
            | Some H \<Rightarrow> obind (goblinHashTable_Key H aa) (\<lambda>k.
                if de_LCap D3 (2 * aa) > k
                then obind (goblinHashTable_ChangeKey 2 H aa (de_LCap D3 (2 * aa))) (\<lambda>H1.
                  Some (Inr (aa, D3\<lparr>de_sub := Some H1\<rparr>)))
                else Some (Inr (aa, D3))))
          else Some (Inr (aa, D2)))))"

section \<open>Dense digraphs\<close>

definition denseDiGraph_Adjacency :: "nat \<Rightarrow> nat \<Rightarrow> nat \<Rightarrow> nat result" where
  "denseDiGraph_Adjacency n u v =
     (if u \<ge> n then Inl ERRange else if v \<ge> n then Inl ERRange else Inr (2 * (u * n + v)))"

definition denseDiGraph_StartNode :: "nat \<Rightarrow> nat \<Rightarrow> nat result" where
  "denseDiGraph_StartNode n a =
     (if a \<ge> 2 * (n * n) then Inl ERRange else Inr (if odd a then a div 2 mod n else a div 2 div n))"

definition denseDiGraph_EndNode :: "nat \<Rightarrow> nat \<Rightarrow> nat result" where
  "denseDiGraph_EndNode n a =
     (if a \<ge> 2 * (n * n) then Inl ERRange else Inr (if odd a then a div 2 div n else a div 2 mod n))"

definition denseDiGraph_First :: "nat \<Rightarrow> nat \<Rightarrow> nat result" where
  "denseDiGraph_First n v = (if v \<ge> 2 * n then Inl ERRange else denseDiGraph_Adjacency n v 0)"

definition denseDiGraph_Right :: "nat \<Rightarrow> nat \<Rightarrow> nat \<Rightarrow> nat result" where
  "denseDiGraph_Right n a u0 =
     rbind (if u0 = NoNode then denseDiGraph_StartNode n a else Inr u0) (\<lambda>u.
       if a \<ge> 2 * (n * n) then Inl ERRange
       else if u \<ge> n then Inl ERRange
       else rbind (denseDiGraph_EndNode n a) (\<lambda>v.
         if odd a
         then if v < n - 1 then denseDiGraph_Adjacency n u (v + 1) else denseDiGraph_Adjacency n u 0
         else rbind (denseDiGraph_Adjacency n v u) (\<lambda>b. Inr (flip b))))"

section \<open>Dense undirected graphs\<close>

text \<open>The square roots are those of real numbers: for indices of arcs the rounding of the type does not reach the integral part.\<close>

definition tri_root :: "real \<Rightarrow> nat" where
  "tri_root x = nat \<lfloor>sqrt x - 0.5\<rfloor>"

definition denseGraph_Adjacency :: "nat \<Rightarrow> nat \<Rightarrow> nat \<Rightarrow> nat result" where
  "denseGraph_Adjacency n u v =
     (if u \<ge> n then Inl ERRange else if v \<ge> n then Inl ERRange
      else Inr (if v > u then v * (v + 1) + 2 * u + 1 else u * (u + 1) + 2 * v))"

definition denseGraph_StartNode :: "nat \<Rightarrow> nat \<Rightarrow> nat result" where
  "denseGraph_StartNode n a =
     (if a \<ge> 2 * (n * (n + 1) div 2) then Inl ERRange
      else if odd a then let u = tri_root (real a - 0.75) in Inr ((a - u * u - u - 1) div 2)
      else Inr (tri_root (real a + 0.25)))"

definition denseGraph_EndNode :: "nat \<Rightarrow> nat \<Rightarrow> nat result" where
  "denseGraph_EndNode n a =
     (if a \<ge> 2 * (n * (n + 1) div 2) then Inl ERRange
      else if odd a then Inr (tri_root (real a - 0.75))
      else let u = tri_root (real a + 0.25) in Inr ((a - u * u - u) div 2))"

definition denseGraph_First :: "nat \<Rightarrow> nat \<Rightarrow> nat result" where
  "denseGraph_First n v = (if v \<ge> 2 * n then Inl ERRange else denseGraph_Adjacency n v 0)"

definition denseGraph_Right :: "nat \<Rightarrow> nat \<Rightarrow> nat \<Rightarrow> nat result" where
  "denseGraph_Right n a u0 =
     rbind (if u0 = NoNode then denseGraph_StartNode n a else Inr u0) (\<lambda>u.
       if a \<ge> 2 * (n * (n + 1) div 2) then Inl ERRange
       else if u \<ge> n then Inl ERRange
       else rbind (denseGraph_EndNode n a) (\<lambda>v.
         if u = v \<and> even a then Inr (flip a)
         else if v < n - 1 then denseGraph_Adjacency n u (v + 1) else denseGraph_Adjacency n u 0))"

section \<open>Dense bigraphs\<close>

text \<open>\<open>cap\<close> is the function \<open>UCap\<close> of the representation.\<close>

definition denseBiGraph_Adjacency :: "nat \<Rightarrow> nat \<Rightarrow> (nat \<Rightarrow> real) \<Rightarrow> nat \<Rightarrow> nat \<Rightarrow> nat result" where
  "denseBiGraph_Adjacency n1 n2 cap u v =
     (if u \<ge> n1 + n2 then Inl ERRange else if v \<ge> n1 + n2 then Inl ERRange
      else let a = (if u < v then if v \<ge> n1 \<and> u < n1 then 2 * (u * n2 + (v - n1)) else NoArc
                    else if u \<ge> n1 \<and> v < n1 then 2 * (v * n2 + (u - n1)) + 1 else NoArc)
        in Inr (if a \<noteq> NoArc \<and> cap a = 0 then NoArc else a))"

definition denseBiGraph_StartNode :: "nat \<Rightarrow> nat \<Rightarrow> nat \<Rightarrow> nat result" where
  "denseBiGraph_StartNode n1 n2 a =
     (if a \<ge> 2 * (n1 * n2) then Inl ERRange else Inr (if odd a then n1 + a div 2 mod n2 else a div 2 div n2))"

definition denseBiGraph_EndNode :: "nat \<Rightarrow> nat \<Rightarrow> nat \<Rightarrow> nat result" where
  "denseBiGraph_EndNode n1 n2 a =
     (if a \<ge> 2 * (n1 * n2) then Inl ERRange else Inr (if odd a then a div 2 div n2 else n1 + a div 2 mod n2))"

definition denseBiGraph_First :: "nat \<Rightarrow> nat \<Rightarrow> (nat \<Rightarrow> real) \<Rightarrow> nat \<Rightarrow> nat result" where
  "denseBiGraph_First n1 n2 cap v =
     (if v \<ge> 2 * (n1 + n2) then Inl ERRange
      else if v < n1 then denseBiGraph_Adjacency n1 n2 cap v n1 else denseBiGraph_Adjacency n1 n2 cap v 0)"

definition denseBiGraph_Right :: "nat \<Rightarrow> nat \<Rightarrow> (nat \<Rightarrow> real) \<Rightarrow> nat \<Rightarrow> nat \<Rightarrow> nat result" where
  "denseBiGraph_Right n1 n2 cap a u0 =
     rbind (if u0 = NoNode then denseBiGraph_StartNode n1 n2 a else Inr u0) (\<lambda>u.
       if a \<ge> 2 * (n1 * n2) then Inl ERRange
       else if u \<ge> n1 + n2 then Inl ERRange
       else rbind (denseBiGraph_EndNode n1 n2 a) (\<lambda>v.
         if v = n1 - 1 then denseBiGraph_Adjacency n1 n2 cap u 0
         else if v = n1 + n2 - 1 then denseBiGraph_Adjacency n1 n2 cap u n1
         else denseBiGraph_Adjacency n1 n2 cap u (v + 1)))"

section \<open>Incidence lists\<close>

text \<open>
  The contract of \<open>First\<close> and \<open>Right\<close>: the arcs with start node \<open>u\<close> are the list \<open>inc u\<close>, the first one is
  \<open>First(u)\<close>, and \<open>Right\<close> leads from each to the next and from the last to the first.
\<close>

locale incidence_lists =
  fixes n :: nat and m :: nat
    and start :: "nat \<Rightarrow> nat result"
    and first :: "nat \<Rightarrow> nat result"
    and right :: "nat \<Rightarrow> nat result"
    and inc :: "nat \<Rightarrow> nat list"
  assumes inc_distinct: "u < n \<Longrightarrow> distinct (inc u)"
    and inc_set: "u < n \<Longrightarrow> set (inc u) = {a. a < 2 * m \<and> start a = Inr u}"
    and inc_first: "u < n \<Longrightarrow> inc u \<noteq> [] \<Longrightarrow> first u = Inr (inc u ! 0)"
    and inc_right: "u < n \<Longrightarrow> i < length (inc u) \<Longrightarrow> right (inc u ! i) = Inr (inc u ! (Suc i mod length (inc u)))"
begin

lemma right_start:
  assumes "a < 2 * m" "start a = Inr u" "u < n"
  obtains b where "right a = Inr b" "b < 2 * m" "start b = Inr u"
proof -
  have "a \<in> set (inc u)" using assms inc_set by simp
  then obtain i where i: "i < length (inc u)" "inc u ! i = a" by (auto simp: in_set_conv_nth)
  have "Suc i mod length (inc u) < length (inc u)" using i(1) by (intro mod_less_divisor) auto
  then have "inc u ! (Suc i mod length (inc u)) \<in> set (inc u)" by (rule nth_mem)
  then show thesis using that [of "inc u ! (Suc i mod length (inc u))"] inc_right [OF assms(3) i(1)] i(2) inc_set [OF assms(3)] by auto
qed

text \<open>The loop over the incidences of a node: \<open>k\<close> steps from the first arc.\<close>

lemma right_steps:
  assumes u: "u < n" "inc u \<noteq> []"
  shows "((\<lambda>r. rbind r right) ^^ k) (first u) = Inr (inc u ! (k mod length (inc u)))"
proof (induction k)
  case 0
  then show ?case using inc_first [OF u] u(2) by simp
next
  case (Suc k)
  have "k mod length (inc u) < length (inc u)" using u(2) by simp
  from inc_right [OF u(1) this] show ?case by (simp add: Suc mod_Suc_eq)
qed

lemma all_incidences:
  assumes "u < n"
  shows "\<exists>as. distinct as \<and> set as = {a. a < 2 * m \<and> start a = Inr u}
    \<and> (as \<noteq> [] \<longrightarrow> first u = Inr (hd as)) \<and> (\<forall>i < length as. right (as ! i) = Inr (as ! (Suc i mod length as)))"
  using inc_distinct [OF assms] inc_set [OF assms] inc_first [OF assms] inc_right [OF assms]
  by (intro exI [of _ "inc u"]) (auto simp: hd_conv_nth)

end

subsection \<open>Dense digraphs\<close>

lemma pair_lt: "u < n \<Longrightarrow> v < n' \<Longrightarrow> u * n' + v < n * (n' :: nat)"
proof -
  assume "u < n" "v < n'"
  then have "u * n' + v < Suc u * n'" by simp
  also have "\<dots> \<le> n * n'" using \<open>u < n\<close> by (intro mult_le_mono1) simp
  finally show ?thesis .
qed

lemma arc_lt: "e < m \<Longrightarrow> 2 * e < 2 * (m :: nat)" "e < m \<Longrightarrow> Suc (2 * e) < 2 * (m :: nat)"
  by simp_all

lemma pair_div [simp]: "v < n \<Longrightarrow> (u * n + v) div n = (u :: nat)" "v < n \<Longrightarrow> (u * n + v) mod n = (v :: nat)"
  by simp_all

lemma pair_split: "e < n * (n' :: nat) \<Longrightarrow> e div n' < n \<and> e mod n' < n' \<and> e = e div n' * n' + e mod n'"
  by (auto simp: less_mult_imp_div_less intro: mod_less_divisor) (metis gr_zeroI mod_less_divisor mult_0_right not_less0)

definition dd_inc :: "nat \<Rightarrow> nat \<Rightarrow> nat list" where
  "dd_inc n u = map (\<lambda>k. if even k then 2 * (u * n + k div 2) else Suc (2 * (k div 2 * n + u))) [0..<2 * n]"

lemma dd_Start: "u < n \<Longrightarrow> v < n \<Longrightarrow> denseDiGraph_StartNode n (2 * (u * n + v)) = Inr u"
  "u < n \<Longrightarrow> v < n \<Longrightarrow> denseDiGraph_StartNode n (Suc (2 * (u * n + v))) = Inr v"
  "u < n \<Longrightarrow> v < n \<Longrightarrow> denseDiGraph_EndNode n (2 * (u * n + v)) = Inr v"
  "u < n \<Longrightarrow> v < n \<Longrightarrow> denseDiGraph_EndNode n (Suc (2 * (u * n + v))) = Inr u"
  using pair_lt [of u n v n] by (auto simp: denseDiGraph_StartNode_def denseDiGraph_EndNode_def)

lemma dd_Right:
  assumes "u < n" "v < n"
  shows "denseDiGraph_Right n (2 * (u * n + v)) NoNode = Inr (Suc (2 * (v * n + u)))"
    "denseDiGraph_Right n (Suc (2 * (v * n + u))) NoNode = Inr (if v < n - 1 then 2 * (u * n + Suc v) else 2 * (u * n))"
  using assms pair_lt [OF assms] pair_lt [OF assms(2,1)]
  by (simp_all only: denseDiGraph_Right_def dd_Start [OF assms] dd_Start [OF assms(2,1)])
     (auto simp: denseDiGraph_Adjacency_def flip_def)

interpretation dd: incidence_lists n "n * n" "denseDiGraph_StartNode n" "denseDiGraph_First n" "\<lambda>a. denseDiGraph_Right n a NoNode" "dd_inc n"
  for n
proof unfold_locales
  fix u assume u: "u < n"
  have half: "k div 2 < n" if "k < 2 * n" for k using that by simp
  show "distinct (dd_inc n u)"
    unfolding dd_inc_def distinct_map
  proof (intro conjI inj_onI)
    fix k k' assume "k \<in> set [0..<2 * n]" "k' \<in> set [0..<2 * n]"
      and eq: "(if even k then 2 * (u * n + k div 2) else Suc (2 * (k div 2 * n + u))) = (if even k' then 2 * (u * n + k' div 2) else Suc (2 * (k' div 2 * n + u)))"
    then have par: "even k = even k'" by (metis even_Suc even_mult_iff even_numeral)
    moreover have "k div 2 = k' div 2" using eq par u by (auto split: if_splits)
    ultimately show "k = k'" by (metis even_two_times_div_two odd_two_times_div_two_succ)
  qed simp
  show "set (dd_inc n u) = {a. a < 2 * (n * n) \<and> denseDiGraph_StartNode n a = Inr u}"
  proof (intro equalityI subsetI)
    fix a assume "a \<in> set (dd_inc n u)"
    then obtain k where k: "k < 2 * n" "a = (if even k then 2 * (u * n + k div 2) else Suc (2 * (k div 2 * n + u)))" by (auto simp: dd_inc_def)
    then show "a \<in> {a. a < 2 * (n * n) \<and> denseDiGraph_StartNode n a = Inr u}"
      using dd_Start u half [OF k(1)] pair_lt [OF u half [OF k(1)]] pair_lt [OF half [OF k(1)] u] by (auto split: if_splits)
  next
    fix a assume a: "a \<in> {a. a < 2 * (n * n) \<and> denseDiGraph_StartNode n a = Inr u}"
    then have e: "a div 2 < n * n" by auto
    note sp = pair_split [OF e]
    show "a \<in> set (dd_inc n u)"
    proof (cases "even a")
      case True
      then have d: "a div 2 div n = u" using a by (auto simp: denseDiGraph_StartNode_def split: if_splits)
      then have eq: "a = 2 * (u * n + a div 2 mod n)" using sp True by (metis even_two_times_div_two)
      have "2 * (a div 2 mod n) < 2 * n" using sp by simp
      then show ?thesis unfolding dd_inc_def set_map using eq by (intro image_eqI [of _ _ "2 * (a div 2 mod n)"]) auto
    next
      case False
      then have d: "a div 2 mod n = u" using a by (auto simp: denseDiGraph_StartNode_def split: if_splits)
      then have eq: "a = Suc (2 * (a div 2 div n * n + u))" using sp False by (metis odd_two_times_div_two_succ Suc_eq_plus1)
      have "Suc (2 * (a div 2 div n)) < 2 * n" using sp by simp
      then show ?thesis unfolding dd_inc_def set_map using eq by (intro image_eqI [of _ _ "Suc (2 * (a div 2 div n))"]) auto
    qed
  qed
  show "dd_inc n u \<noteq> [] \<Longrightarrow> denseDiGraph_First n u = Inr (dd_inc n u ! 0)"
    using u by (simp add: denseDiGraph_First_def denseDiGraph_Adjacency_def dd_inc_def)
  fix k assume "k < length (dd_inc n u)"
  then have k: "k < 2 * n" by (simp add: dd_inc_def)
  let ?v = "k div 2"
  note v = half [OF k]
  have nth: "dd_inc n u ! j = (if even j then 2 * (u * n + j div 2) else Suc (2 * (j div 2 * n + u)))" if "j < 2 * n" for j
    using that by (simp add: dd_inc_def)
  have len: "length (dd_inc n u) = 2 * n" by (simp add: dd_inc_def)
  show "denseDiGraph_Right n (dd_inc n u ! k) NoNode = Inr (dd_inc n u ! (Suc k mod length (dd_inc n u)))"
  proof (cases "even k")
    case True
    then have "Suc k < 2 * n" using k by (metis even_mult_iff even_numeral Suc_lessI even_Suc)
    then show ?thesis using True k dd_Right(1) [OF u v] by (simp add: nth len del: mult_Suc_right)
  next
    case False
    have s: "Suc k mod (2 * n) = (if ?v < n - 1 then 2 * Suc ?v else 0)"
    proof (cases "?v < n - 1")
      case True
      then have "Suc k < 2 * n" by linarith
      moreover have "Suc k = 2 * Suc ?v" using False by (metis odd_two_times_div_two_succ Suc_eq_plus1 mult_Suc_right add_2_eq_Suc)
      ultimately show ?thesis using True by simp
    next
      case f: False
      then have "?v = n - 1" using v by simp
      then have "Suc k = 2 * n" using False v by (metis odd_two_times_div_two_succ Suc_eq_plus1 mult_Suc_right add_2_eq_Suc Suc_diff_1 gr_implies_not0 not_gr_zero)
      then show ?thesis using f by simp
    qed
    have "nth (dd_inc n u) (Suc k mod (2 * n)) = (if ?v < n - 1 then 2 * (u * n + Suc ?v) else 2 * (u * n))"
      unfolding s using nth [of "2 * Suc ?v"] nth [of 0] v by auto
    then show ?thesis unfolding len nth [OF k] using False dd_Right(2) [OF u v] by simp
  qed
qed

subsection \<open>Dense undirected graphs\<close>

lemma tri_root_eq: "w \<le> v \<Longrightarrow> tri_root (real (v * (v + 1) + 2 * w) + 0.25) = v"
proof -
  assume w: "w \<le> v"
  have x: "real (v * (v + 1) + 2 * w) + 0.25 = (real v + 0.5)\<^sup>2 + 2 * real w" by (simp add: power2_eq_square algebra_simps)
  have "real v + 0.5 \<le> sqrt (real (v * (v + 1) + 2 * w) + 0.25)" unfolding x by (rule real_le_rsqrt) simp
  moreover have "sqrt (real (v * (v + 1) + 2 * w) + 0.25) < real v + 1.5"
  proof (rule real_less_lsqrt)
    have "(real v + 0.5)\<^sup>2 + 2 * real w < (real v + 0.5)\<^sup>2 + 2 * real v + 2" using w by simp
    also have "\<dots> = (real v + 1.5)\<^sup>2" by (simp add: power2_eq_square algebra_simps)
    finally show "real (v * (v + 1) + 2 * w) + 0.25 < (real v + 1.5)\<^sup>2" unfolding x .
  qed simp_all
  ultimately have "\<lfloor>sqrt (real (v * (v + 1) + 2 * w) + 0.25) - 0.5\<rfloor> = int v" by (intro floor_unique) simp_all
  then show ?thesis by (simp add: tri_root_def)
qed

lemma tri_root_odd: "w \<le> v \<Longrightarrow> tri_root (real (v * (v + 1) + 2 * w + 1) - 0.75) = v"
proof -
  assume "w \<le> v"
  moreover have "real (v * (v + 1) + 2 * w + 1) - 0.75 = real (v * (v + 1) + 2 * w) + 0.25" by simp
  ultimately show ?thesis by (simp only: tri_root_eq)
qed

lemma tri_even: "2 * (n * (n + 1) div 2) = n * (n + (1 :: nat))"
  by (simp add: dvd_mult_div_cancel)

lemma tri_lt: "v < n \<Longrightarrow> w \<le> v \<Longrightarrow> v * (v + 1) + 2 * w + 1 < n * (n + (1 :: nat))"
proof -
  assume "v < n" "w \<le> v"
  then have "v * (v + 1) + 2 * w + 1 < Suc v * (Suc v + 1)" by simp
  also have "\<dots> \<le> n * (n + 1)" using \<open>v < n\<close> by (intro mult_le_mono) simp_all
  finally show ?thesis .
qed

lemma tri_cases:
  assumes "e < n * (n + 1) div (2 :: nat)"
  obtains v w where "v < n" "w \<le> v" "2 * e = v * (v + 1) + 2 * w"
  using assms
proof (induction n arbitrary: thesis)
  case 0
  then show ?case by simp
next
  case (Suc n)
  show ?case
  proof (cases "e < n * (n + 1) div 2")
    case True
    then show ?thesis using Suc.IH Suc.prems(1) by (metis less_Suc_eq)
  next
    case False
    have ev: "2 * (n * (n + 1) div 2) = n * (n + 1)" "2 * (Suc n * (Suc n + 1) div 2) = Suc n * (Suc n + 1)" by (rule tri_even)+
    have "2 * e < 2 * (Suc n * (Suc n + 1) div 2)" using Suc.prems(2) by linarith
    then have "2 * e < n * (n + 1) + 2 * n + 2" unfolding ev by simp
    moreover have "n * (n + 1) \<le> 2 * e" using False ev(1) by linarith
    moreover define w where "w = e - n * (n + 1) div 2"
    ultimately have "w \<le> n" "2 * e = n * (n + 1) + 2 * w" using ev(1) by linarith+
    then show ?thesis using Suc.prems(1) [of n w] by simp
  qed
qed

lemma dg_Start:
  assumes "v < n" "w \<le> v"
  shows "denseGraph_StartNode n (v * (v + 1) + 2 * w) = Inr v" "denseGraph_EndNode n (v * (v + 1) + 2 * w) = Inr w"
    "denseGraph_StartNode n (v * (v + 1) + 2 * w + 1) = Inr w" "denseGraph_EndNode n (v * (v + 1) + 2 * w + 1) = Inr v"
proof -
  have ev: "even (v * (v + 1) + 2 * w)" and od: "odd (v * (v + 1) + 2 * w + 1)" by simp_all
  have e: "(v * (v + 1) + 2 * w - v * v - v) div 2 = w" "(v * (v + 1) + 2 * w + 1 - v * v - v - 1) div 2 = w" by simp_all
  have lt: "\<not> n * (n + 1) \<le> v * (v + 1) + 2 * w" "\<not> n * (n + 1) \<le> v * (v + 1) + 2 * w + 1" using tri_lt [OF assms] by linarith+
  note r = tri_root_eq [OF assms(2)] tri_root_odd [OF assms(2)]
  show "denseGraph_StartNode n (v * (v + 1) + 2 * w) = Inr v" "denseGraph_EndNode n (v * (v + 1) + 2 * w) = Inr w"
    "denseGraph_StartNode n (v * (v + 1) + 2 * w + 1) = Inr w" "denseGraph_EndNode n (v * (v + 1) + 2 * w + 1) = Inr v"
    unfolding denseGraph_StartNode_def denseGraph_EndNode_def tri_even Let_def r e using ev od lt by (simp_all only: if_False if_True simp_thms)
qed

definition dg_inc :: "nat \<Rightarrow> nat \<Rightarrow> nat list" where
  "dg_inc n u = map (\<lambda>v. u * (u + 1) + 2 * v) [0..<Suc u] @ map (\<lambda>v. v * (v + 1) + 2 * u + 1) [u..<n]"

lemma dg_Right:
  assumes "u < n"
  shows "v < u \<Longrightarrow> denseGraph_Right n (u * (u + 1) + 2 * v) NoNode = Inr (u * (u + 1) + 2 * Suc v)"
    "denseGraph_Right n (u * (u + 1) + 2 * u) NoNode = Inr (u * (u + 1) + 2 * u + 1)"
    "u \<le> v \<Longrightarrow> v < n \<Longrightarrow> denseGraph_Right n (v * (v + 1) + 2 * u + 1) NoNode
       = Inr (if v < n - 1 then Suc v * (Suc v + 1) + 2 * u + 1 else u * (u + 1))"
proof -
  show "denseGraph_Right n (u * (u + 1) + 2 * v) NoNode = Inr (u * (u + 1) + 2 * Suc v)" if v: "v < u"
  proof -
    have "\<not> n * (n + 1) \<le> u * (u + 1) + 2 * v" using tri_lt [OF assms, of v] v by linarith
    then show ?thesis unfolding denseGraph_Right_def tri_even using dg_Start [OF assms, of v] assms v
      by (simp add: denseGraph_Adjacency_def)
  qed
  show "denseGraph_Right n (u * (u + 1) + 2 * u) NoNode = Inr (u * (u + 1) + 2 * u + 1)"
  proof -
    have "\<not> n * (n + 1) \<le> u * (u + 1) + 2 * u" using tri_lt [OF assms, of u] by linarith
    moreover have "even (u * (u + 1) + 2 * u)" by simp
    ultimately show ?thesis unfolding denseGraph_Right_def tri_even using dg_Start [OF assms, of u] assms by (simp add: flip_def)
  qed
  show "denseGraph_Right n (v * (v + 1) + 2 * u + 1) NoNode
       = Inr (if v < n - 1 then Suc v * (Suc v + 1) + 2 * u + 1 else u * (u + 1))" if v: "u \<le> v" "v < n"
  proof -
    have "\<not> n * (n + 1) \<le> v * (v + 1) + 2 * u + 1" using tri_lt [OF v(2,1)] by linarith
    moreover have "odd (v * (v + 1) + 2 * u + 1)" by simp
    ultimately show ?thesis unfolding denseGraph_Right_def tri_even using dg_Start [OF v(2,1)] assms v
      by (simp only: if_True if_False rbind_simps simp_thms) (auto simp: denseGraph_Adjacency_def)
  qed
qed

lemma dg_inc_nth:
  assumes "u < n" "i \<le> n"
  shows "dg_inc n u ! i = (if i \<le> u then u * (u + 1) + 2 * i else (i - 1) * (i - 1 + 1) + 2 * u + 1)"
proof (cases "i \<le> u")
  case True
  then show ?thesis unfolding dg_inc_def by (simp add: nth_append del: upt_Suc)
next
  case False
  then have "[u..<n] ! (i - Suc u) = i - 1" "i - Suc u < length [u..<n]" using assms by simp_all
  then show ?thesis using False unfolding dg_inc_def by (simp only: nth_append nth_map length_map length_upt if_False) simp
qed

lemma dg_inc_length: "u < n \<Longrightarrow> length (dg_inc n u) = Suc n"
  by (simp add: dg_inc_def)

interpretation dg: incidence_lists n "n * (n + 1) div 2" "denseGraph_StartNode n" "denseGraph_First n" "\<lambda>a. denseGraph_Right n a NoNode" "dg_inc n"
  for n
proof unfold_locales
  fix u assume u: "u < n"
  have "inj_on (\<lambda>v. v * (v + 1) + 2 * u + 1) {u..<n}"
  proof (rule inj_onI)
    fix v w :: nat assume v: "v \<in> {u..<n}" "w \<in> {u..<n}" and eq: "v * (v + 1) + 2 * u + 1 = w * (w + 1) + 2 * u + 1"
    have "denseGraph_EndNode n (v * (v + 1) + 2 * u + 1) = Inr v" "denseGraph_EndNode n (w * (w + 1) + 2 * u + 1) = Inr w"
      by (rule dg_Start(4); use v in simp)+
    then show "v = w" unfolding eq by simp
  qed
  moreover have "u * (u + 1) + 2 * v \<noteq> w * (w + 1) + 2 * u + 1" for v w
  proof -
    have "even (u * (u + 1) + 2 * v)" "odd (w * (w + 1) + 2 * u + 1)" by simp_all
    then show ?thesis by metis
  qed
  ultimately show "distinct (dg_inc n u)"
    by (auto simp: dg_inc_def distinct_map inj_on_def simp del: upt_Suc)
  show "set (dg_inc n u) = {a. a < 2 * (n * (n + 1) div 2) \<and> denseGraph_StartNode n a = Inr u}"
  proof (intro equalityI subsetI)
    fix a assume "a \<in> set (dg_inc n u)"
    then consider v where "v \<le> u" "a = u * (u + 1) + 2 * v" | v where "u \<le> v" "v < n" "a = v * (v + 1) + 2 * u + 1"
      by (auto simp: dg_inc_def less_Suc_eq_le simp del: upt_Suc)
    then show "a \<in> {a. a < 2 * (n * (n + 1) div 2) \<and> denseGraph_StartNode n a = Inr u}"
    proof cases
      case 1
      then show ?thesis using dg_Start(1) [OF u 1(1)] tri_lt [OF u 1(1)] by (simp only: tri_even mem_Collect_eq) simp
    next
      case 2
      then show ?thesis using dg_Start(3) [OF 2(2,1)] tri_lt [OF 2(2,1)] by (simp only: tri_even mem_Collect_eq)
    qed
  next
    fix a assume a: "a \<in> {a. a < 2 * (n * (n + 1) div 2) \<and> denseGraph_StartNode n a = Inr u}"
    then have "a div 2 < n * (n + 1) div 2" by (intro less_mult_imp_div_less) (simp only: mem_Collect_eq mult.commute)
    then obtain v w where vw: "v < n" "w \<le> v" "2 * (a div 2) = v * (v + 1) + 2 * w" by (rule tri_cases)
    show "a \<in> set (dg_inc n u)"
    proof (cases "even a")
      case True
      then have eq: "a = v * (v + 1) + 2 * w" using vw(3) by simp
      then have "v = u" using a dg_Start(1) [OF vw(1,2)] by simp
      then show ?thesis unfolding dg_inc_def using eq vw(2) by (auto simp del: upt_Suc)
    next
      case False
      then have eq: "a = v * (v + 1) + 2 * w + 1" using vw(3) by (metis odd_two_times_div_two_succ)
      then have "w = u" using a dg_Start(3) [OF vw(1,2)] by simp
      then show ?thesis unfolding dg_inc_def using eq vw(1,2) by (auto simp del: upt_Suc)
    qed
  qed
  show "dg_inc n u \<noteq> [] \<Longrightarrow> denseGraph_First n u = Inr (dg_inc n u ! 0)"
    using u by (simp add: denseGraph_First_def denseGraph_Adjacency_def dg_inc_nth)
  fix i assume i: "i < length (dg_inc n u)"
  then have i: "i \<le> n" by (simp add: dg_inc_length [OF u])
  consider "i < u" | "i = u" | "u < i" "i < n" | "u < i" "i = n" using i by linarith
  then show "denseGraph_Right n (dg_inc n u ! i) NoNode = Inr (dg_inc n u ! (Suc i mod length (dg_inc n u)))"
  proof cases
    case 1
    then show ?thesis using dg_Right(1) [OF u 1] u by (simp add: dg_inc_length [OF u] dg_inc_nth)
  next
    case 2
    then show ?thesis using dg_Right(2) [OF u] u by (simp add: dg_inc_length [OF u] dg_inc_nth)
  next
    case 3
    then obtain v where v: "i = Suc v" by (cases i) auto
    then have "v < n - 1" using 3 by simp
    then show ?thesis using dg_Right(3) [OF u, of v] u 3 v by (simp add: dg_inc_length [OF u] dg_inc_nth)
  next
    case 4
    then have "Suc i mod length (dg_inc n u) = 0" "u \<le> n - 1" "n - 1 < n" by (simp_all add: dg_inc_length [OF u])
    then show ?thesis using dg_Right(3) [OF u, of "n - 1"] dg_inc_nth [OF u, of n] dg_inc_nth [OF u, of 0] 4 by simp
  qed
qed

subsection \<open>Dense bigraphs\<close>

definition db_inc :: "nat \<Rightarrow> nat \<Rightarrow> nat \<Rightarrow> nat list" where
  "db_inc n1 n2 u = (if u < n1 then map (\<lambda>v. 2 * (u * n2 + v)) [0..<n2] else map (\<lambda>v. Suc (2 * (v * n2 + (u - n1)))) [0..<n1])"

lemma db_Start:
  assumes "u < n1" "v < n2"
  shows "denseBiGraph_StartNode n1 n2 (2 * (u * n2 + v)) = Inr u" "denseBiGraph_EndNode n1 n2 (2 * (u * n2 + v)) = Inr (n1 + v)"
    "denseBiGraph_StartNode n1 n2 (Suc (2 * (u * n2 + v))) = Inr (n1 + v)" "denseBiGraph_EndNode n1 n2 (Suc (2 * (u * n2 + v))) = Inr u"
  using pair_lt [OF assms] assms by (auto simp: denseBiGraph_StartNode_def denseBiGraph_EndNode_def)

lemma db_Adjacency:
  assumes "u < n1" "v < n2"
  shows "cap (2 * (u * n2 + v)) \<noteq> 0 \<Longrightarrow> denseBiGraph_Adjacency n1 n2 cap u (n1 + v) = Inr (2 * (u * n2 + v))"
    "cap (Suc (2 * (u * n2 + v))) \<noteq> 0 \<Longrightarrow> denseBiGraph_Adjacency n1 n2 cap (n1 + v) u = Inr (Suc (2 * (u * n2 + v)))"
    "cap (2 * (u * n2 + v)) = 0 \<Longrightarrow> denseBiGraph_Adjacency n1 n2 cap u (n1 + v) = Inr NoArc"
  using pair_lt [OF assms(1,2)] assms by (auto simp: denseBiGraph_Adjacency_def Let_def)

lemma db_Right:
  assumes "u < n1" "v < n2"
  shows "denseBiGraph_Right n1 n2 cap (2 * (u * n2 + v)) NoNode = denseBiGraph_Adjacency n1 n2 cap u (n1 + Suc v mod n2)"
    "denseBiGraph_Right n1 n2 cap (Suc (2 * (u * n2 + v))) NoNode = denseBiGraph_Adjacency n1 n2 cap (n1 + v) (Suc u mod n1)"
proof -
  have "Suc v mod n2 = (if v = n2 - 1 then 0 else Suc v)" "Suc u mod n1 = (if u = n1 - 1 then 0 else Suc u)" using assms by (auto simp: mod_Suc)
  then show "denseBiGraph_Right n1 n2 cap (2 * (u * n2 + v)) NoNode = denseBiGraph_Adjacency n1 n2 cap u (n1 + Suc v mod n2)"
    "denseBiGraph_Right n1 n2 cap (Suc (2 * (u * n2 + v))) NoNode = denseBiGraph_Adjacency n1 n2 cap (n1 + v) (Suc u mod n1)"
    using assms pair_lt [OF assms] db_Start [OF assms] by (auto simp: denseBiGraph_Right_def)
qed

interpretation db: incidence_lists "n1 + n2" "n1 * n2" "denseBiGraph_StartNode n1 n2" "denseBiGraph_First n1 n2 (\<lambda>a. 1)"
  "\<lambda>a. denseBiGraph_Right n1 n2 (\<lambda>a. 1) a NoNode" "db_inc n1 n2"
  for n1 n2
proof unfold_locales
  fix u assume u: "u < n1 + n2"
  have inj: "x = y" if "n1 \<le> u" "x * n2 + (u - n1) = y * n2 + (u - n1)" for x y
  proof -
    have "0 < n2" "x * n2 = y * n2" using that u by linarith+
    then show ?thesis by simp
  qed
  show "distinct (db_inc n1 n2 u)"
  proof (cases "u < n1")
    case True
    then show ?thesis by (simp add: db_inc_def distinct_map inj_on_def)
  next
    case False
    then have "inj_on (\<lambda>v. Suc (2 * (v * n2 + (u - n1)))) {0..<n1}" using inj by (intro inj_onI) (metis Suc_inject mult_left_cancel not_less zero_neq_numeral)
    then show ?thesis using False by (simp add: db_inc_def distinct_map)
  qed
  have mem: "(a \<in> set (db_inc n1 n2 u)) = (denseBiGraph_StartNode n1 n2 a = Inr u)" if a: "a < 2 * (n1 * n2)" for a
  proof -
    have "a div 2 < n1 * n2" using a by auto
    note sp = pair_split [OF this]
    have ra: "a = (if even a then 2 * (a div 2 div n2 * n2 + a div 2 mod n2) else Suc (2 * (a div 2 div n2 * n2 + a div 2 mod n2)))"
      using sp by (metis even_two_times_div_two odd_two_times_div_two_succ Suc_eq_plus1)
    show ?thesis
    proof
      assume mem: "a \<in> set (db_inc n1 n2 u)"
      show "denseBiGraph_StartNode n1 n2 a = Inr u"
      proof (cases "u < n1")
        case True
        then show ?thesis using mem db_Start(1) [OF True] by (auto simp: db_inc_def)
      next
        case False
        then obtain c where c: "u = n1 + c" "c < n2" using u by (metis le_Suc_ex not_less nat_add_left_cancel_less)
        then obtain x where "x < n1" "a = Suc (2 * (x * n2 + c))" using mem by (auto simp: db_inc_def)
        then show ?thesis using db_Start(3) c by simp
      qed
    next
      assume st: "denseBiGraph_StartNode n1 n2 a = Inr u"
      show "a \<in> set (db_inc n1 n2 u)"
      proof (cases "even a")
        case True
        then have "a div 2 div n2 = u" using st a by (auto simp: denseBiGraph_StartNode_def split: if_splits)
        then show ?thesis using ra True sp by (auto simp: db_inc_def)
      next
        case False
        then have "n1 + a div 2 mod n2 = u" using st a by (auto simp: denseBiGraph_StartNode_def split: if_splits)
        moreover have "a = Suc (2 * (a div 2 div n2 * n2 + a div 2 mod n2))" using ra False by argo
        ultimately have "\<not> u < n1" "a = Suc (2 * (a div 2 div n2 * n2 + (u - n1)))" by auto
        then show ?thesis using sp unfolding db_inc_def if_not_P [OF \<open>\<not> u < n1\<close>] set_map
          by (intro image_eqI [of _ _ "a div 2 div n2"]) simp_all
      qed
    qed
  qed
  moreover have "a < 2 * (n1 * n2)" if a: "a \<in> set (db_inc n1 n2 u)" for a
  proof (cases "u < n1")
    case True
    then obtain v where "v < n2" "a = 2 * (u * n2 + v)" using a by (auto simp: db_inc_def)
    with pair_lt [OF True this(1)] show ?thesis by (metis arc_lt(1))
  next
    case False
    then obtain v where "v < n1" "a = Suc (2 * (v * n2 + (u - n1)))" "u - n1 < n2" using a u by (auto simp: db_inc_def)
    with pair_lt [OF this(1,3)] show ?thesis by (metis arc_lt(2))
  qed
  ultimately show "set (db_inc n1 n2 u) = {a. a < 2 * (n1 * n2) \<and> denseBiGraph_StartNode n1 n2 a = Inr u}" by blast
  show "denseBiGraph_First n1 n2 (\<lambda>a. 1) u = Inr (db_inc n1 n2 u ! 0)" if "db_inc n1 n2 u \<noteq> []"
    using that u db_Adjacency(1) [of u n1 0 n2 "\<lambda>a. 1"] db_Adjacency(2) [of 0 n1 "u - n1" n2 "\<lambda>a. 1"]
    by (auto simp: denseBiGraph_First_def db_inc_def split: if_splits)
  fix i assume i: "i < length (db_inc n1 n2 u)"
  show "denseBiGraph_Right n1 n2 (\<lambda>a. 1) (db_inc n1 n2 u ! i) NoNode = Inr (db_inc n1 n2 u ! (Suc i mod length (db_inc n1 n2 u)))"
  proof (cases "u < n1")
    case True
    then have v: "i < n2" "Suc i mod n2 < n2" using i by (auto simp: db_inc_def)
    then show ?thesis using True db_Right(1) [OF True v(1)] db_Adjacency(1) [OF True v(2)] by (simp add: db_inc_def)
  next
    case False
    then have v: "i < n1" "Suc i mod n1 < n1" "u - n1 < n2" using i u by (auto simp: db_inc_def)
    then show ?thesis using False db_Right(2) [OF v(1,3)] db_Adjacency(2) [OF v(2,3)] by (simp add: db_inc_def)
  qed
qed

section \<open>Subgraph\<close>

definition de_inv :: "dense \<Rightarrow> bool" where
  "de_inv D \<longleftrightarrow> sp_mAct (de_base D) = sp_mMax (de_base D) \<and> 0 < sp_nMax (de_base D)
     \<and> (\<forall>H. de_sub D = Some H \<longrightarrow> ht_inv H \<and> ht_range H = sp_mMax (de_base D))"

text \<open>The keys of the table; a missing table has the default key everywhere.\<close>

definition de_key :: "dense \<Rightarrow> nat \<Rightarrow> real" where
  "de_key D e = (case de_sub D of None \<Rightarrow> 0 | Some H \<Rightarrow> (case goblinHashTable_Key H e of Some (Inr k) \<Rightarrow> k | _ \<Rightarrow> 0))"

lemma de_Sub_key:
  assumes "de_inv D" "a < 2 * sp_mAct (de_base D)"
  shows "de_Sub D a = Some (Inr (de_LCap D a + de_key D (a div 2)))"
proof (cases "de_sub D")
  case (Some H)
  then have "\<exists>k. goblinHashTable_Key H (a div 2) = Some (Inr k)" using htable.key_returns [of H "a div 2"] assms by (auto simp: de_inv_def)
  then show ?thesis using Some assms(2) by (auto simp: de_Sub_def de_key_def)
qed (use assms in \<open>simp add: de_Sub_def de_key_def\<close>)

lemma de_with_sub_ok:
  assumes D: "de_inv D"
  obtains D1 H where "de_with_sub D = Inr D1" "de_base D1 = de_base D" "de_sub D1 = Some H" "ht_inv H" "ht_range H = sp_mMax (de_base D)"
    "\<And>e. e < sp_mMax (de_base D) \<Longrightarrow> goblinHashTable_Key H e = Some (Inr (de_key D e))"
proof (cases "de_sub D")
  case None
  let ?n = "2 * sp_nMax (de_base D)" and ?r = "sp_mMax (de_base D)"
  obtain H where new: "goblinHashTable ?r ?n 0 (replicate ?n 0) (replicate ?n (0 :: real)) = Inr H"
    using D by (auto simp: goblinHashTable_def goblinHashTable_Init_def de_inv_def)
  have ok: "ht_ok ?r 0 Map.empty H" "ht_std H" by (rule goblinHashTable_new [OF new]; simp)+
  have "ht_inv H" "ht_range H = ?r" using ok by (auto simp: ht_inv_ok ht_ok_def)
  moreover have "goblinHashTable_Key H e = Some (Inr (de_key D e))" if "e < ?r" for e
    using ht_ok_Key [OF ok(1) that] None by (simp add: de_key_def)
  moreover have "de_with_sub D = Inr (D\<lparr>de_sub := Some H\<rparr>)" using None new by (simp add: de_with_sub_def de_NewSubgraph_def)
  ultimately show thesis using that [of "D\<lparr>de_sub := Some H\<rparr>" H] by simp
next
  case (Some H)
  then have H: "ht_inv H" "ht_range H = sp_mMax (de_base D)" using D by (auto simp: de_inv_def)
  have "goblinHashTable_Key H e = Some (Inr (de_key D e))" if "e < sp_mMax (de_base D)" for e
    using htable.key_returns [OF H(1), of e] H(2) that Some by (auto simp: de_key_def)
  then show thesis using that [of D H] Some H by (simp add: de_with_sub_def)
qed

lemma call_keeps [simp]: "sp_mAct (call c S) = sp_mAct S" "sp_mMax (call c S) = sp_mMax S" "sp_nMax (call c S) = sp_nMax S"
  "sp_LCap (call c S) = sp_LCap S" "sp_UCap (call c S) = sp_UCap S"
  by (simp_all add: call_def sp_LCap_def sp_UCap_def fun_eq_iff)

lemma de_SetSub_ok:
  assumes D: "de_inv D" and a: "a < 2 * sp_mAct (de_base D)"
    and ok: "\<not> (de_LCap D a + de_key D (a div 2) > 0 \<and> \<bar>x\<bar> < de_LCap D a \<or> de_UCap D a < InfCap \<and> \<bar>x\<bar> > de_UCap D a)"
  obtains D' where "de_SetSub D a x = Some (Inr D')" "de_inv D'" "sp_mAct (de_base D') = sp_mAct (de_base D)" "de_LCap D' = de_LCap D"
    "\<And>e. e < sp_mAct (de_base D) \<Longrightarrow> de_key D' e = (if e = a div 2 then x else de_key D e)"
    "hd (sp_calls (de_base D')) = C_AdjustDegrees a (x - de_key D (a div 2))"
proof -
  have m: "sp_mAct (de_base D) = sp_mMax (de_base D)" using D by (simp add: de_inv_def)
  have e: "a div 2 < sp_mMax (de_base D)" using a m by auto
  obtain D1 H where D1: "de_with_sub D = Inr D1" "de_base D1 = de_base D" "de_sub D1 = Some H" "ht_inv H" "ht_range H = sp_mMax (de_base D)"
    "\<And>e. e < sp_mMax (de_base D) \<Longrightarrow> goblinHashTable_Key H e = Some (Inr (de_key D e))" using de_with_sub_ok [OF D] by metis
  obtain H1 where H1: "goblinHashTable_ChangeKey 2 H (a div 2) x = Some (Inr H1)" "ht_inv H1" "ht_range H1 = ht_range H"
    "\<forall>v < ht_range H. goblinHashTable_Key H1 v = (if v = a div 2 then Some (Inr x) else goblinHashTable_Key H v)"
    using htable.chg_key [OF D1(4), of "a div 2" x] D1(5) e by auto
  let ?D = "D1\<lparr>de_base := call (C_AdjustDegrees a (x - de_key D (a div 2))) (de_base D1), de_sub := Some H1\<rparr>"
  have "de_SetSub D a x = Some (Inr ?D)"
    unfolding de_SetSub_def de_Sub_key [OF D a] using a ok D1(1,3) D1(6) [OF e] H1(1) by (simp add: Let_def not_le)
  moreover have "de_inv ?D" using D D1(2,5) H1(2,3) by (simp add: de_inv_def)
  moreover have "de_key ?D k = (if k = a div 2 then x else de_key D k)" if "k < sp_mAct (de_base D)" for k
    using H1(4) D1(5) D1(6) [of k] that m by (simp add: de_key_def)
  ultimately show thesis using that [of ?D] D1(2) by (simp add: de_LCap_def fun_eq_iff) (simp add: call_def)
qed

section \<open>Properties\<close>

text \<open>
  C19: The incidence lists of a dense digraph: starting at \<open>First(u)\<close>, the function \<open>Right\<close> runs through all arcs with start
  node \<open>u\<close>, the backward arcs of the incoming ones included, visits each exactly once and
  returns to the first.
\<close>

theorem denseDiGraph_incidences:
  assumes "u < n"
  shows "\<exists>as. distinct as \<and> set as = {a. a < 2 * (n * n) \<and> denseDiGraph_StartNode n a = Inr u}
    \<and> (as \<noteq> [] \<longrightarrow> denseDiGraph_First n u = Inr (hd as))
    \<and> (\<forall>i < length as. denseDiGraph_Right n (as ! i) NoNode = Inr (as ! (Suc i mod length as)))"
  by (rule dd.all_incidences [OF assms])

theorem denseDiGraph_incidences_witness:
  "\<exists>as. distinct as \<and> set as = {a. a < 2 * (3 * 3) \<and> denseDiGraph_StartNode 3 a = Inr 1}
    \<and> (as \<noteq> [] \<longrightarrow> denseDiGraph_First 3 1 = Inr (hd as))
    \<and> (\<forall>i < length as. denseDiGraph_Right 3 (as ! i) NoNode = Inr (as ! (Suc i mod length as)))"
  by (rule denseDiGraph_incidences) simp

text \<open>
  The same for dense undirected graphs, where the end nodes are computed by square roots.
\<close>

theorem denseGraph_incidences:
  assumes "u < n"
  shows "\<exists>as. distinct as \<and> set as = {a. a < 2 * (n * (n + 1) div 2) \<and> denseGraph_StartNode n a = Inr u}
    \<and> (as \<noteq> [] \<longrightarrow> denseGraph_First n u = Inr (hd as))
    \<and> (\<forall>i < length as. denseGraph_Right n (as ! i) NoNode = Inr (as ! (Suc i mod length as)))"
  by (rule dg.all_incidences [OF assms])

theorem denseGraph_incidences_witness:
  "\<exists>as. distinct as \<and> set as = {a. a < 2 * (3 * (3 + 1) div 2) \<and> denseGraph_StartNode 3 a = Inr 1}
    \<and> (as \<noteq> [] \<longrightarrow> denseGraph_First 3 1 = Inr (hd as))
    \<and> (\<forall>i < length as. denseGraph_Right 3 (as ! i) NoNode = Inr (as ! (Suc i mod length as)))"
  by (rule denseGraph_incidences) simp

text \<open>
  C38: Index and end nodes of a dense undirected graph: the arc that \<open>Adjacency\<close> returns for two nodes has them as
  start and end node, and every arc of the graph but the second orientation of a loop is obtained in this way.
\<close>

theorem denseGraph_index_roundtrip:
  "(\<forall>u < n. \<forall>v < n. \<exists>a < n * (n + 1). denseGraph_Adjacency n u v = Inr a \<and> denseGraph_StartNode n a = Inr u \<and> denseGraph_EndNode n a = Inr v)
   \<and> (\<forall>a < n * (n + 1). \<exists>u < n. \<exists>v < n. denseGraph_StartNode n a = Inr u \<and> denseGraph_EndNode n a = Inr v
        \<and> (denseGraph_Adjacency n u v = Inr a \<or> u = v \<and> odd a \<and> denseGraph_Adjacency n u u = Inr (flip a)))"
proof (intro conjI allI impI)
  fix u v assume uv: "u < n" "v < n"
  show "\<exists>a < n * (n + 1). denseGraph_Adjacency n u v = Inr a \<and> denseGraph_StartNode n a = Inr u \<and> denseGraph_EndNode n a = Inr v"
  proof (cases "u < v")
    case True
    then show ?thesis using uv dg_Start(3,4) [of v n u] tri_lt [of v n u]
      by (intro exI [of _ "v * (v + 1) + 2 * u + 1"]) (simp add: denseGraph_Adjacency_def)
  next
    case False
    then show ?thesis using uv dg_Start(1,2) [of u n v] tri_lt [of u n v]
      by (intro exI [of _ "u * (u + 1) + 2 * v"]) (simp add: denseGraph_Adjacency_def)
  qed
next
  fix a assume a: "a < n * (n + 1)"
  then have "a div 2 < n * (n + 1) div 2" using tri_even [of n] by linarith
  then obtain v w where vw: "v < n" "w \<le> v" "2 * (a div 2) = v * (v + 1) + 2 * w" by (rule tri_cases)
  show "\<exists>u < n. \<exists>v < n. denseGraph_StartNode n a = Inr u \<and> denseGraph_EndNode n a = Inr v
        \<and> (denseGraph_Adjacency n u v = Inr a \<or> u = v \<and> odd a \<and> denseGraph_Adjacency n u u = Inr (flip a))"
  proof (cases "even a")
    case True
    then have eq: "a = v * (v + 1) + 2 * w" using vw(3) by simp
    show ?thesis unfolding eq using vw(1,2) dg_Start(1,2) [OF vw(1,2)]
      by (intro exI [of _ v] exI [of _ w] conjI) (simp_all add: denseGraph_Adjacency_def)
  next
    case False
    then have eq: "a = v * (v + 1) + 2 * w + 1" using vw(3) by (metis odd_two_times_div_two_succ)
    then have fl: "flip a = v * (v + 1) + 2 * w" using False by (simp add: flip_def)
    show ?thesis using vw(1,2) dg_Start(3,4) [OF vw(1,2), folded eq] False eq fl
      by (intro exI [of _ w] exI [of _ v]) (auto simp: denseGraph_Adjacency_def)
  qed
qed

theorem denseGraph_index_roundtrip_witness:
  "(\<exists>a < 12. denseGraph_Adjacency 3 1 2 = Inr a \<and> denseGraph_StartNode 3 a = Inr 1 \<and> denseGraph_EndNode 3 a = Inr 2)
   \<and> (\<exists>u < 3. \<exists>v < 3. denseGraph_StartNode 3 11 = Inr u \<and> denseGraph_EndNode 3 11 = Inr v
        \<and> (denseGraph_Adjacency 3 u v = Inr 11 \<or> u = v \<and> odd (11::nat) \<and> denseGraph_Adjacency 3 u u = Inr (flip 11)))"
proof -
  note r = denseGraph_index_roundtrip [of 3]
  from r [THEN conjunct1, rule_format, of 1 2] r [THEN conjunct2, rule_format, of 11] show ?thesis by simp
qed

text \<open>
  In a dense bigraph, \<open>Right\<close> does not lead to the next arc of the node when this has no capacity, but returns
  \<open>NoArc\<close>, and the arcs behind it are not reached.
\<close>

theorem denseBiGraph_Right_stops:
  assumes "u < n1" "v < n2" "Suc v < n2" "cap (2 * (u * n2 + Suc v)) = 0"
  shows "denseBiGraph_StartNode n1 n2 (2 * (u * n2 + Suc v)) = Inr u \<and> denseBiGraph_Right n1 n2 cap (2 * (u * n2 + v)) NoNode = Inr NoArc"
  using db_Right(1) [OF assms(1,2), of cap] db_Adjacency(3) [OF assms(1,3), of cap] db_Start(1) [OF assms(1,3)] assms(3,4) by simp

theorem denseBiGraph_Right_stops_witness:
  "denseBiGraph_StartNode 1 3 2 = Inr 0 \<and> denseBiGraph_Right 1 3 (\<lambda>a. if a = 2 then 0 else 1) 0 NoNode = Inr NoArc"
  using denseBiGraph_Right_stops [of 0 1 0 3 "\<lambda>a. if a = 2 then 0 else 1"] by simp

text \<open>
  \<open>SetSub\<close> on a dense graph stores the multiplicity itself while \<open>Sub\<close> adds the lower capacity bound to the stored
  value: after an accepted call the arc has the requested multiplicity plus its lower bound, the other edges keep theirs, and the
  degrees are adjusted by the difference of the stored values. Only without a lower bound is the requested multiplicity read back.
\<close>

theorem dense_Sub_after_SetSub:
  assumes "de_inv D" "a < 2 * sp_mAct (de_base D)" "de_Sub D a = Some (Inr y)"
    and "\<not> (y > 0 \<and> \<bar>x\<bar> < de_LCap D a)" "de_UCap D a < InfCap \<longrightarrow> \<bar>x\<bar> \<le> de_UCap D a"
  shows "\<exists>D'. de_SetSub D a x = Some (Inr D') \<and> de_inv D' \<and> de_Sub D' a = Some (Inr (de_LCap D a + x))
    \<and> (\<forall>b < 2 * sp_mAct (de_base D). b div 2 \<noteq> a div 2 \<longrightarrow> de_Sub D' b = de_Sub D b)
    \<and> hd (sp_calls (de_base D')) = C_AdjustDegrees a (de_LCap D a + x - y)"
proof -
  have y: "y = de_LCap D a + de_key D (a div 2)" using de_Sub_key [OF assms(1,2)] assms(3) by simp
  obtain D' where D': "de_SetSub D a x = Some (Inr D')" "de_inv D'" "sp_mAct (de_base D') = sp_mAct (de_base D)" "de_LCap D' = de_LCap D"
    "\<And>e. e < sp_mAct (de_base D) \<Longrightarrow> de_key D' e = (if e = a div 2 then x else de_key D e)"
    "hd (sp_calls (de_base D')) = C_AdjustDegrees a (x - de_key D (a div 2))"
    using de_SetSub_ok [OF assms(1,2), of x] assms(4,5) y by (metis not_le)
  have "de_Sub D' b = Some (Inr (de_LCap D b + (if b div 2 = a div 2 then x else de_key D (b div 2))))" if "b < 2 * sp_mAct (de_base D)" for b
    using de_Sub_key [OF D'(2), of b] D'(3-5) that by auto
  moreover have "de_Sub D b = Some (Inr (de_LCap D b + de_key D (b div 2)))" if "b < 2 * sp_mAct (de_base D)" for b
    using de_Sub_key [OF assms(1) that] .
  ultimately show ?thesis using D'(1,2,6) y assms(2) by auto
qed

definition de_example :: dense where
  "de_example = \<lparr>de_base = (sparseRepresentation 100 100 2)\<lparr>sp_mAct := 4, sp_mMax := 4\<rparr>, de_sub = None\<rparr>"

theorem dense_Sub_after_SetSub_witness:
  "\<exists>D'. de_SetSub de_example 2 1 = Some (Inr D') \<and> de_Sub D' 2 = Some (Inr 1)"
proof -
  have ex: "de_inv de_example" "sp_mAct (de_base de_example) = 4" "de_LCap de_example 2 = 0" "de_UCap de_example 2 = 1" "de_sub de_example = None"
    by (simp_all add: de_example_def de_inv_def sparseRepresentation_def de_LCap_def de_UCap_def sp_LCap_def sp_UCap_def
        attributePool_GetValue_def attributePool_FindAttribute_def attributePool_new_def)
  then have "de_Sub de_example 2 = Some (Inr 0)" by (simp add: de_Sub_def)
  from dense_Sub_after_SetSub [OF ex(1) _ this, of 1] ex show ?thesis by auto
qed

end
