(* ===== verification/Floyd_Warshall.thy ===== *)
theory Floyd_Warshall
  imports Dense_Graph Bellman_Ford
begin

text \<open>
  Distance graphs (\<open>distanceGraph\<close> in \<^verbatim>\<open>lib_src/denseDigraph.cpp\<close>): the complete digraph whose arc lengths are the
  lengths of shortest paths of a given sparse mixed graph, computed with the method of Floyd and Warshall
  over the labels of a dense representation. Arcs that do not exist have the length \<open>InfFloat\<close>,
  which takes part in the sums.
\<close>

section \<open>Construction\<close>

definition de_StartNode :: "dense \<Rightarrow> nat \<Rightarrow> nat" where
  "de_StartNode D a = (case denseDiGraph_StartNode (sp_nAct (de_base D)) a of Inl e \<Rightarrow> NoNode | Inr u \<Rightarrow> u)"

text \<open>\<open>Length\<close> of the base class asks the graph object for the end nodes of the arc.\<close>

definition de_Length :: "dense \<Rightarrow> nat \<Rightarrow> real result" where
  "de_Length D a = sp_Length ((de_base D)\<lparr>sp_SN := map (de_StartNode D) [0..<2 * sp_mAct (de_base D)]\<rparr>) a"

definition denseDiGraph :: "nat \<Rightarrow> nat \<Rightarrow> bool \<Rightarrow> nat \<Rightarrow> bool \<Rightarrow> dense result" where
  "denseDiGraph mxNode mxArc randUCap n compl =
     (if n \<ge> mxNode then Inl ERRejected
      else if 2 * (n * n) > mxArc - 2 then Inl ERRejected
      else rbind (denseRepresentation mxNode mxArc n (n * n) compl) (\<lambda>D.
        rbind (on_base (sp_SetCDemand (de_base D) 0) D) (\<lambda>D.
        rbind (on_base (sp_SetCOrientation (de_base D) 1) D) (\<lambda>D.
          if \<not> randUCap then de_SetCUCap D 1 else Inr D))))"

definition sp_Dim :: "sparse \<Rightarrow> nat" where
  "sp_Dim S =
     (case find (\<lambda>i. case attributePool_FindAttribute (sp_geometry S) (TokGeoAxis0 + i) of
           None \<Rightarrow> False
         | Some coord \<Rightarrow> attribute_Size coord > 0 \<and> fst (attribute_MaxValue coord) > fst (attribute_MinValue coord)) [2, 1, 0] of
        None \<Rightarrow> 0
      | Some i \<Rightarrow> i + 1)"

definition copy_coordinates :: "sparse \<Rightarrow> dense \<Rightarrow> dense result option" where
  "copy_coordinates S D =
     (if sp_Dim S > 0
      then ofold (\<lambda>(v, i) D. Some (on_base (sp_SetC (de_base D) v i (sp_C S v i)) D))
             (List.product [0..<sp_nAct S] [0..<sp_Dim S]) D
      else Some (Inr D))"

definition init_lengths :: "nat \<Rightarrow> dense \<Rightarrow> dense result option" where
  "init_lengths n =
     ofold (\<lambda>(u, v) D. obind (Some (denseDiGraph_Adjacency n u v)) (\<lambda>a.
         Some (de_SetLength D a (if u = v then 0 else InfFloat))))
       (List.product [0..<n] [0..<n])"

definition copy_lengths :: "sparse \<Rightarrow> dense \<Rightarrow> dense result option" where
  "copy_lengths S =
     ofold (\<lambda>a D.
         obind (Some (sp_StartNode S a)) (\<lambda>u. obind (Some (sp_EndNode S a)) (\<lambda>v.
         obind (Some (denseDiGraph_Adjacency (sp_nAct S) u v)) (\<lambda>a2.
         obind (Some (sp_Length S a)) (\<lambda>l. obind (Some (de_Length D a2)) (\<lambda>l2.
           if l < l2 \<and> \<not> sp_Blocking S a then Some (de_SetLength D a2 l) else Some (Inr D)))))))
       [0..<2 * sp_mAct S]"

definition relax :: "nat \<Rightarrow> nat \<Rightarrow> nat \<Rightarrow> nat \<Rightarrow> dense \<Rightarrow> dense result option" where
  "relax n u v w D =
     obind (Some (denseDiGraph_Adjacency n v w)) (\<lambda>a1. obind (Some (denseDiGraph_Adjacency n v u)) (\<lambda>a2.
     obind (Some (denseDiGraph_Adjacency n u w)) (\<lambda>a3.
     obind (Some (de_Length D a2)) (\<lambda>l2. obind (Some (de_Length D a3)) (\<lambda>l3. obind (Some (de_Length D a1)) (\<lambda>l1.
       if l2 + l3 < l1 then Some (de_SetLength D a1 (l2 + l3)) else Some (Inr D)))))))"

definition relax_all :: "nat \<Rightarrow> dense \<Rightarrow> dense result option" where
  "relax_all n = ofold (\<lambda>u. ofold (\<lambda>(v, w). relax n u v w) (List.product [0..<n] [0..<n])) [0..<n]"

definition distanceGraph :: "nat \<Rightarrow> nat \<Rightarrow> bool \<Rightarrow> sparse \<Rightarrow> dense result option" where
  "distanceGraph mxNode mxArc randUCap S =
     obind (Some (denseDiGraph mxNode mxArc randUCap (sp_nAct S) False)) (\<lambda>D.
     obind (copy_coordinates S D) (\<lambda>D.
     obind (init_lengths (sp_nAct S) D) (\<lambda>D.
     obind (copy_lengths S D) (\<lambda>D.
       relax_all (sp_nAct S) D))))"

section \<open>The length labels as a matrix\<close>

text \<open>The geometry of the new graph has coordinates only, of full rank.\<close>

definition axes_only :: "nat \<Rightarrow> attributePool \<Rightarrow> bool" where
  "axes_only n P \<longleftrightarrow> ap_table P = listOfGeometryPars \<and> (\<forall>(t, A) \<in> set (ap_attributes P). t \<in> {3, 4, 5} \<and> attribute_Size A = n)"

lemma axis_token:
  "i \<le> 2 \<Longrightarrow> ap_table P = listOfGeometryPars \<Longrightarrow> primary P (TokGeoAxis0 + i) = TokGeoAxis0 + i \<and> TokGeoAxis0 + i \<in> {3, 4, 5}"
  "ap_table P = listOfGeometryPars \<Longrightarrow> primary P TokGeoMetric \<notin> {3, 4, 5}"
  by (auto simp: primary_def token_defs TokGeoMetric_def listOfGeometryPars_def entry_def le_Suc_eq numeral_2_eq_2)

lemma search_mem: "ap_search t as = Some A \<Longrightarrow> (t, A) \<in> set as"
  by (simp add: ap_search_map_of map_of_SomeD)

lemma axes_only_metric:
  assumes "axes_only n P"
  shows "attributePool_GetValue P TokGeoMetric 0 0 = 0"
proof -
  have "ap_search (primary P TokGeoMetric) (ap_attributes P) = None"
    using search_mem [of "primary P TokGeoMetric" "ap_attributes P"] axis_token(2) [of P] assms
    by (cases "ap_search (primary P TokGeoMetric) (ap_attributes P)") (auto simp: axes_only_def)
  then show ?thesis by (simp add: attributePool_GetValue_def attributePool_FindAttribute_def primary_def)
qed

lemma axes_only_find: "axes_only n P \<Longrightarrow> attributePool_FindAttribute P t = Some A \<Longrightarrow> attribute_Size A = n"
  using search_mem [of "primary P t" "ap_attributes P" A] by (auto simp: axes_only_def attributePool_FindAttribute_def)

definition shaped :: "nat \<Rightarrow> dense \<Rightarrow> bool" where
  "shaped n D \<longleftrightarrow> pools_ok (de_base D) \<and> sp_nAct (de_base D) = n \<and> sp_lAct (de_base D) = n \<and> sp_mAct (de_base D) = n * n
     \<and> axes_only n (sp_geometry (de_base D))"

definition labels :: "nat \<Rightarrow> (nat \<Rightarrow> nat \<Rightarrow> real) \<Rightarrow> dense \<Rightarrow> bool" where
  "labels n f D \<longleftrightarrow> shaped n D \<and> (\<forall>u < n. \<forall>v < n.
     attributePool_GetValue (sp_representation (de_base D)) TokReprLength (u * n + v) 1 = f u v)"

lemma labels_Length:
  assumes "labels n f D" "u < n" "v < n"
  shows "de_Length D (2 * (u * n + v)) = Inr (f u v)"
  using assms pair_lt [OF assms(2,3)] axes_only_metric [of n "sp_geometry (de_base D)"]
  by (simp add: labels_def shaped_def de_Length_def sp_Length_def Let_def)

lemma labels_SetLength:
  assumes L: "labels n f D" and uv: "u < n" "v < n"
  obtains D' where "de_SetLength D (2 * (u * n + v)) x = Inr D'" "labels n (upd2 u v x f) D'"
proof -
  let ?S = "de_base D" and ?a = "2 * (u * n + v)"
  have a: "?a < 2 * sp_mAct ?S" using L pair_lt [OF uv] by (simp add: labels_def shaped_def)
  have t: "TokReprLength \<in> repr_tokens" "TokReprLength \<noteq> TokReprDemand" by (simp_all add: repr_tokens_def token_defs)
  obtain S' where S': "set_arc_attribute ?S TokReprLength 1 ?a x = Inr S'" "only_repr ?S S'" "pools_ok S'"
    "\<And>k. attributePool_GetValue (sp_representation S') TokReprLength k 1
       = (if k = ?a div 2 then x else attributePool_GetValue (sp_representation ?S) TokReprLength k 1)"
    using set_arc_attribute_ok [OF _ t a, of 1 x] L unfolding labels_def shaped_def by metis
  obtain P where P: "S' = ?S\<lparr>sp_representation := P\<rparr>" using S'(2) by (auto simp: only_repr_def)
  let ?D = "D\<lparr>de_base := S'\<rparr>"
  have "shaped n ?D" using L S'(3) by (simp add: labels_def shaped_def P)
  moreover have "attributePool_GetValue (sp_representation S') TokReprLength (u' * n + v') 1 = upd2 u v x f u' v'" if "u' < n" "v' < n" for u' v'
  proof -
    have "u' * n + v' = u * n + v \<longleftrightarrow> u' = u \<and> v' = v" using pair_div [OF that(2), of u'] pair_div [OF uv(2), of u] by metis
    then show ?thesis using S'(4) L that by (auto simp: labels_def upd2_def)
  qed
  ultimately have "labels n (upd2 u v x f) ?D" by (simp add: labels_def)
  moreover have "de_SetLength D ?a x = Inr ?D" using S'(1) a by (simp add: de_SetLength_def sp_SetLength_def on_base_def)
  ultimately show thesis using that by blast
qed

section \<open>Walks with missing arcs\<close>

text \<open>
  \<open>jumps S el c n j u v x\<close>: \<open>x\<close> is the length of a walk from \<open>u\<close> to \<open>v\<close> over arcs of the graph and \<open>j\<close> arcs that do not exist.
\<close>

inductive jumps :: "sparse \<Rightarrow> (nat \<Rightarrow> bool) \<Rightarrow> (nat \<Rightarrow> real) \<Rightarrow> nat \<Rightarrow> nat \<Rightarrow> nat \<Rightarrow> real \<Rightarrow> bool" for S el c where
  jumps_0: "awalk S el u as v \<Longrightarrow> jumps S el c 0 u v (len c as)"
| jumps_Suc: "awalk S el u as x \<Longrightarrow> y < sp_nAct S \<Longrightarrow> jumps S el c j y v z \<Longrightarrow> jumps S el c (Suc j) u v (len c as + InfFloat + z)"

inductive_simps jumps_zero: "jumps S el c 0 u v x"

lemma jumps_prepend: "jumps S el c j v w z \<Longrightarrow> awalk S el u as v \<Longrightarrow> jumps S el c j u w (len c as + z)"
proof (induction rule: jumps.cases)
  case (jumps_0 v' bs w')
  then show ?thesis using jumps.jumps_0 [of S el u "as @ bs" w c] by (auto simp: awalk_append)
next
  case (jumps_Suc v' bs x y j' w' z')
  then show ?thesis using jumps.jumps_Suc [of S el u "as @ bs" x y c j' w z'] by (auto simp: awalk_append algebra_simps)
qed

lemma jumps_append: "jumps S el c i u v x \<Longrightarrow> jumps S el c j v w y \<Longrightarrow> jumps S el c (i + j) u w (x + y)"
proof (induction rule: jumps.induct)
  case (jumps_0 u as v)
  then show ?case by (simp add: jumps_prepend)
next
  case (jumps_Suc u as x' y' j' v z)
  then show ?case using jumps.jumps_Suc [of S el u as x' y' c "j' + j" w "z + y"] by (simp add: algebra_simps)
qed

lemma jumps_bound:
  assumes low: "\<And>u as v. u < sp_nAct S \<Longrightarrow> awalk S el u as v \<Longrightarrow> - C \<le> len c as"
  shows "jumps S el c j u v x \<Longrightarrow> u < sp_nAct S \<Longrightarrow> real j * InfFloat - (real j + 1) * C \<le> x"
proof (induction rule: jumps.induct)
  case (jumps_0 u as v)
  then show ?case using low by simp
next
  case (jumps_Suc u as x y j v z)
  then show ?case using low [of u as x] by (simp add: algebra_simps)
qed

text \<open>The graph has lengths for which the method is meant: bounded, far from \<open>InfFloat\<close>, and without negative cycles.\<close>

definition conservative :: "sparse \<Rightarrow> (nat \<Rightarrow> bool) \<Rightarrow> (nat \<Rightarrow> real) \<Rightarrow> real \<Rightarrow> bool" where
  "conservative S el c B \<longleftrightarrow> no_cancelled S \<and> 0 \<le> B \<and> 4 * real (sp_nAct S) * B \<le> InfFloat
     \<and> (\<forall>a < 2 * sp_mAct S. el a \<longrightarrow> \<bar>c a\<bar> \<le> B) \<and> (\<forall>u as. awalk S el u as u \<longrightarrow> 0 \<le> len c as)"

lemma walk_bound: "\<forall>a < 2 * sp_mAct S. el a \<longrightarrow> \<bar>c a\<bar> \<le> B \<Longrightarrow> awalk S el u as v \<Longrightarrow> \<bar>len c as\<bar> \<le> real (length as) * B"
  by (induction as arbitrary: u) (auto simp: algebra_simps intro: order_trans [OF abs_triangle_ineq add_mono])

lemma conservative_short:
  assumes "conservative S el c B" "u < sp_nAct S" "awalk S el u as v"
  obtains bs where "awalk S el u bs v" "len c bs \<le> len c as" "\<bar>len c bs\<bar> \<le> real (sp_nAct S) * B"
proof -
  have "no_negative_cycle S el c u" using assms(1) by (auto simp: conservative_def no_negative_cycle_def)
  then obtain bs where bs: "awalk S el u bs v" "length bs < sp_nAct S" "len c bs \<le> len c as"
    using awalk_shorten [of S el c u as v] assms by (auto simp: conservative_def)
  have "\<bar>len c bs\<bar> \<le> real (length bs) * B" using walk_bound [of S el c B u bs v] assms(1) bs(1) by (simp add: conservative_def)
  also have "\<dots> \<le> real (sp_nAct S) * B" using bs(2) assms(1) by (intro mult_right_mono) (auto simp: conservative_def)
  finally show thesis using that bs by blast
qed

lemma conservative_low: "conservative S el c B \<Longrightarrow> u < sp_nAct S \<Longrightarrow> awalk S el u as v \<Longrightarrow> - (real (sp_nAct S) * B) \<le> len c as"
  by (rule conservative_short [of S el c B u as v]) (simp_all add: abs_le_iff)

lemma jumps_closed:
  assumes "conservative S el c B" "jumps S el c j u u x" "u < sp_nAct S"
  shows "0 \<le> x"
proof (cases j)
  case 0
  then show ?thesis using assms by (auto simp: jumps_zero conservative_def)
next
  case (Suc i)
  let ?C = "real (sp_nAct S) * B"
  have "real j * InfFloat - (real j + 1) * ?C \<le> x" by (rule jumps_bound [OF conservative_low [OF assms(1)] assms(2,3)])
  moreover have "(real j + 1) * ?C \<le> (2 * real j) * ?C" using assms(1) Suc by (intro mult_right_mono) (auto simp: conservative_def)
  moreover have "(2 * real j) * ?C \<le> real j * InfFloat"
  proof -
    have "4 * ?C \<le> InfFloat" "0 \<le> ?C" using assms(1) by (simp_all add: conservative_def algebra_simps)
    then have "2 * ?C \<le> InfFloat" by linarith
    then have "real j * (2 * ?C) \<le> real j * InfFloat" by (rule mult_left_mono) simp
    then show ?thesis by (simp add: algebra_simps)
  qed
  ultimately show ?thesis by linarith
qed

lemma jumps_far:
  assumes "conservative S el c B" "jumps S el c (Suc j) u v x" "u < sp_nAct S"
  shows "InfFloat / 2 \<le> x"
proof -
  let ?C = "real (sp_nAct S) * B"
  have C: "4 * ?C \<le> InfFloat" "0 \<le> ?C" using assms(1) by (simp_all add: conservative_def algebra_simps)
  then have "0 \<le> real j * (InfFloat - ?C)" by simp
  moreover have "real (Suc j) * InfFloat - (real (Suc j) + 1) * ?C \<le> x" by (rule jumps_bound [OF conservative_low [OF assms(1)] assms(2,3)])
  ultimately show ?thesis using C by (simp add: algebra_simps)
qed

section \<open>The method on matrices\<close>

definition fw :: "nat \<Rightarrow> (nat \<Rightarrow> nat \<Rightarrow> real) \<Rightarrow> nat \<Rightarrow> nat \<Rightarrow> real" where
  "fw k f v w = min (f v w) (f v k + f k w)"

text \<open>The entries are lengths of walks; the diagonal and the first \<open>m\<close> arcs bound them.\<close>

definition entries :: "sparse \<Rightarrow> (nat \<Rightarrow> bool) \<Rightarrow> (nat \<Rightarrow> real) \<Rightarrow> nat \<Rightarrow> (nat \<Rightarrow> nat \<Rightarrow> real) \<Rightarrow> bool" where
  "entries S el c m f \<longleftrightarrow> (\<forall>u < sp_nAct S. \<forall>v < sp_nAct S. \<exists>j. jumps S el c j u v (f u v)) \<and> (\<forall>u < sp_nAct S. f u u \<le> 0)
     \<and> (\<forall>a < m. el a \<longrightarrow> f (sp_SN S ! a) (sp_SN S ! flip a) \<le> c a)"

definition triangle :: "nat \<Rightarrow> nat \<Rightarrow> (nat \<Rightarrow> nat \<Rightarrow> real) \<Rightarrow> bool" where
  "triangle n k f \<longleftrightarrow> (\<forall>x < k. \<forall>u < n. \<forall>w < n. f u w \<le> f u x + f x w)"

lemma entries_diag: "conservative S el c B \<Longrightarrow> entries S el c m f \<Longrightarrow> u < sp_nAct S \<Longrightarrow> f u u = 0"
  using jumps_closed [of S el c B _ u "f u u"] by (fastforce simp: entries_def)

lemma fw_entries:
  assumes "entries S el c m f" "k < sp_nAct S"
  shows "entries S el c m (fw k f)"
proof -
  have "\<exists>j. jumps S el c j u v (fw k f u v)" if "u < sp_nAct S" "v < sp_nAct S" for u v
  proof (cases "f u v \<le> f u k + f k v")
    case True
    then have "fw k f u v = f u v" by (simp add: fw_def)
    then show ?thesis using assms that by (simp add: entries_def)
  next
    case False
    then have "fw k f u v = f u k + f k v" by (simp add: fw_def)
    then show ?thesis using assms that jumps_append [of S el c _ u k "f u k" _ v "f k v"] unfolding entries_def by metis
  qed
  then show ?thesis using assms by (auto simp: entries_def fw_def min_le_iff_disj)
qed

lemma fw_triangle:
  assumes t: "triangle n k f" and k: "k < n" "f k k = 0"
  shows "triangle n (Suc k) (fw k f)"
  unfolding triangle_def
proof (intro allI impI)
  fix x u w assume x: "x < Suc k" and uw: "u < n" "w < n"
  have T: "f u' w' \<le> f u' y + f y w'" if "y < k" "u' < n" "w' < n" for u' w' y using t that by (auto simp: triangle_def)
  show "fw k f u w \<le> fw k f u x + fw k f x w"
  proof (cases "x = k")
    case True
    then show ?thesis using k(2) by (auto simp: fw_def min_def)
  next
    case False
    then have "x < k" using x by simp
    then show ?thesis using T [of x u w] T [of x k w] T [of x u k] T [of x k k] uw k by (simp add: fw_def min_def)
  qed
qed

lemma triangle_walk:
  assumes t: "triangle n n f" and n: "n = sp_nAct S" and e: "entries S el c (2 * sp_mAct S) f" and live: "no_cancelled S"
  shows "awalk S el u as v \<Longrightarrow> u < n \<Longrightarrow> f u v \<le> len c as"
proof (induction as arbitrary: u)
  case Nil
  then show ?case using e n by (simp add: entries_def)
next
  case (Cons a as)
  let ?x = "sp_SN S ! flip a"
  have x: "?x < n" "v < n"
    using no_cancelled_walk [OF live, of el u "[a]" ?x] no_cancelled_walk [OF live Cons.prems(1)] Cons.prems n by auto
  have "f ?x v \<le> len c as" using Cons.IH Cons.prems x by simp
  moreover have "f u ?x \<le> c a" using e Cons.prems by (auto simp: entries_def)
  moreover have "f u v \<le> f u ?x + f ?x v" using t x Cons.prems(2) by (simp add: triangle_def)
  ultimately show ?case by simp
qed

section \<open>The loops\<close>

lemma labels_cong: "(\<And>u v. u < n \<Longrightarrow> v < n \<Longrightarrow> f u v = g u v) \<Longrightarrow> labels n f D = labels n g D"
  by (auto simp: labels_def)

lemma Adjacency_in: "u < n \<Longrightarrow> v < n \<Longrightarrow> denseDiGraph_Adjacency n u v = Inr (2 * (u * n + v))"
  by (simp add: denseDiGraph_Adjacency_def)

lemma SetLength_oret:
  assumes "labels n f D" "u < n" "v < n"
  shows "oret (\<lambda>e. False) (labels n (upd2 u v x f)) (Some (de_SetLength D (2 * (u * n + v)) x))"
  by (rule labels_SetLength [OF assms, of x]) simp

lemma relax_ok:
  assumes L: "labels n f D" and uvw: "u < n" "v < n" "w < n"
  shows "oret (\<lambda>e. False) (labels n (upd2 v w (min (f v w) (f v u + f u w)) f)) (relax n u v w D)"
proof -
  have same: "upd2 v w (f v w) f = f" by (auto simp: upd2_def)
  show ?thesis
    unfolding relax_def Adjacency_in [OF uvw(2,3)] Adjacency_in [OF uvw(2,1)] Adjacency_in [OF uvw(1,3)] obind_simps
      labels_Length [OF L uvw(2,3)] labels_Length [OF L uvw(2,1)] labels_Length [OF L uvw(1,3)]
    using L SetLength_oret [OF L uvw(2,3), of "f v u + f u w"] same by (simp add: min_def del: distrib_left_numeral)
qed

lemma member_product: "List.product [0..<n] [0..<n] = as @ (u, v) # bs \<Longrightarrow> u < n \<and> v < n"
  by (metis in_set_conv_decomp atLeastLessThan_iff mem_Sigma_iff set_product set_upt)

lemma phase_ok:
  assumes L: "labels n g D" and k: "k < n" "0 \<le> g k k"
  shows "oret (\<lambda>e. False) (labels n (fw k g)) (ofold (\<lambda>(v, w). relax n k v w) (List.product [0..<n] [0..<n]) D)"
proof -
  let ?ps = "List.product [0..<n] [0..<n]" and ?h = "\<lambda>as v w. if (v, w) \<in> set as then fw k g v w else g v w"
  have "oret (\<lambda>e. False) (labels n (?h ?ps)) (ofold (\<lambda>(v, w). relax n k v w) ?ps D)"
  proof (rule oret_ofold [where I = "\<lambda>as. labels n (?h as)"])
    fix as p bs D assume ps: "?ps = as @ p # bs" and I: "labels n (?h as) D"
    obtain v w where p: "p = (v, w)" by (cases p)
    have vw: "v < n" "w < n" using member_product ps p by blast+
    have "distinct ?ps" by (simp add: distinct_product)
    then have new: "(v, w) \<notin> set as" unfolding ps p by simp
    have "?h as v k = g v k" "?h as k w = g k w" using k by (auto simp: fw_def)
    then have eq: "upd2 v w (min (?h as v w) (?h as v k + ?h as k w)) (?h as) = ?h (as @ [p])"
      using new by (auto simp: upd2_def fun_eq_iff p fw_def)
    show "oret (\<lambda>e. False) (labels n (?h (as @ [p]))) ((case p of (v, w) \<Rightarrow> relax n k v w) D)"
      using relax_ok [OF I k(1) vw] unfolding eq by (simp add: p)
  qed (simp add: L)
  then show ?thesis by (rule oret_post) (erule labels_cong [THEN iffD1, rotated], simp)
qed

lemma init_ok:
  assumes L: "labels n f D"
  shows "oret (\<lambda>e. False) (labels n (\<lambda>u v. if u = v then 0 else InfFloat)) (init_lengths n D)"
proof -
  let ?ps = "List.product [0..<n] [0..<n]"
  let ?h = "\<lambda>as u v. if (u, v) \<in> set as then if u = v then 0 else InfFloat else f u v"
  have "oret (\<lambda>e. False) (labels n (?h ?ps)) (init_lengths n D)"
    unfolding init_lengths_def
  proof (rule oret_ofold [where I = "\<lambda>as. labels n (?h as)"])
    fix as p bs D assume ps: "?ps = as @ p # bs" and I: "labels n (?h as) D"
    obtain u v where p: "p = (u, v)" by (cases p)
    have uv: "u < n" "v < n" using member_product ps p by blast+
    have eq: "upd2 u v (if u = v then 0 else InfFloat) (?h as) = ?h (as @ [p])" by (auto simp: upd2_def fun_eq_iff p)
    show "oret (\<lambda>e. False) (labels n (?h (as @ [p]))) ((case p of (u, v) \<Rightarrow> \<lambda>D. obind (Some (denseDiGraph_Adjacency n u v)) (\<lambda>a.
         Some (de_SetLength D a (if u = v then 0 else InfFloat)))) D)"
      using SetLength_oret [OF I uv, of "if u = v then 0 else InfFloat"] unfolding eq p prod.case Adjacency_in [OF uv] obind_simps .
  qed (simp add: L)
  then show ?thesis by (rule oret_post) (erule labels_cong [THEN iffD1, rotated], simp)
qed

abbreviation plain :: "sparse \<Rightarrow> nat \<Rightarrow> bool" where "plain S a \<equiv> \<not> sp_Blocking S a"

definition arc_length :: "sparse \<Rightarrow> nat \<Rightarrow> real" where
  "arc_length S a = (case sp_Length S a of Inl e \<Rightarrow> 0 | Inr l \<Rightarrow> l)"

lemma Length_arc: "a < 2 * sp_mAct S \<Longrightarrow> sp_Length S a = Inr (arc_length S a)"
  using Length_Inr [of a S] by (auto simp: arc_length_def)

lemma copy_ok:
  assumes live: "no_cancelled S" and L: "labels (sp_nAct S) (\<lambda>u v. if u = v then 0 else InfFloat) D"
  shows "oret (\<lambda>e. False) (\<lambda>D'. \<exists>f. labels (sp_nAct S) f D' \<and> entries S (plain S) (arc_length S) (2 * sp_mAct S) f) (copy_lengths S D)"
  unfolding copy_lengths_def
proof (rule oret_upt [where I = "\<lambda>m D'. \<exists>f. labels (sp_nAct S) f D' \<and> entries S (plain S) (arc_length S) m f"])
  let ?n = "sp_nAct S"
  have "\<exists>j. jumps S (plain S) (arc_length S) j u v (if u = v then 0 else InfFloat)" if "v < ?n" for u v
    using jumps_0 [of S "plain S" u "[]" u "arc_length S"] jumps_Suc [of S "plain S" u "[]" u v "arc_length S" 0 v 0]
      jumps_0 [of S "plain S" v "[]" v "arc_length S"] that by (cases "u = v") auto
  then show "\<exists>f. labels ?n f D \<and> entries S (plain S) (arc_length S) 0 f" using L by (intro exI) (auto simp: entries_def)
  fix a D assume a: "a < 2 * sp_mAct S" and "\<exists>f. labels ?n f D \<and> entries S (plain S) (arc_length S) a f"
  then obtain f where f: "labels ?n f D" "entries S (plain S) (arc_length S) a f" by blast
  let ?u = "sp_SN S ! a" and ?v = "sp_SN S ! flip a" and ?l = "arc_length S a"
  have uv: "?u < ?n" "?v < ?n" using live a by (auto simp: no_cancelled_def)
  let ?post = "\<lambda>D'. \<exists>f. labels ?n f D' \<and> entries S (plain S) (arc_length S) (Suc a) f"
  have body: "oret (\<lambda>e. False) ?post (if ?l < f ?u ?v \<and> plain S a then Some (de_SetLength D (2 * (?u * ?n + ?v)) ?l) else Some (Inr D))"
  proof (cases "?l < f ?u ?v \<and> plain S a")
    case True
    have "awalk S (plain S) ?u [a] ?v" using a True by simp
    then have "jumps S (plain S) (arc_length S) 0 ?u ?v ?l" using jumps_0 [of S "plain S" ?u "[a]" ?v "arc_length S"] by simp
    moreover have "upd2 ?u ?v ?l f x y = (if x = ?u \<and> y = ?v then ?l else f x y)" for x y by (simp add: upd2_def)
    moreover have "?u = ?v \<Longrightarrow> ?l \<le> 0" using True f(2) uv by (fastforce simp: entries_def)
    ultimately have "entries S (plain S) (arc_length S) (Suc a) (upd2 ?u ?v ?l f)"
      using f(2) True by (auto simp: entries_def less_Suc_eq)
    then show ?thesis using SetLength_oret [OF f(1) uv, of ?l] True by (auto elim!: oret_post)
  next
    case False
    then have "entries S (plain S) (arc_length S) (Suc a) f" using f(2) by (auto simp: entries_def less_Suc_eq)
    then show ?thesis unfolding if_not_P [OF False] oret_simps using f(1) by blast
  qed
  have st: "sp_StartNode S a = Inr ?u" "sp_EndNode S a = Inr ?v" using a by (simp_all add: sp_StartNode_def sp_EndNode_def)
  show "oret (\<lambda>e. False) ?post (obind (Some (sp_StartNode S a)) (\<lambda>u. obind (Some (sp_EndNode S a)) (\<lambda>v.
         obind (Some (denseDiGraph_Adjacency ?n u v)) (\<lambda>a2. obind (Some (sp_Length S a)) (\<lambda>l. obind (Some (de_Length D a2)) (\<lambda>l2.
           if l < l2 \<and> \<not> sp_Blocking S a then Some (de_SetLength D a2 l) else Some (Inr D)))))))"
    unfolding st obind_simps Adjacency_in [OF uv] Length_arc [OF a] labels_Length [OF f(1) uv] by (rule body)
qed simp

lemma relax_all_ok:
  assumes cons: "conservative S el c B" and n: "n = sp_nAct S" and L: "labels n f D" and e: "entries S el c m f"
  shows "oret (\<lambda>e. False) (\<lambda>D'. \<exists>f. labels n f D' \<and> entries S el c m f \<and> triangle n n f) (relax_all n D)"
  unfolding relax_all_def
proof (rule oret_upt [where I = "\<lambda>k D'. \<exists>f. labels n f D' \<and> entries S el c m f \<and> triangle n k f"])
  show "\<exists>f. labels n f D \<and> entries S el c m f \<and> triangle n 0 f" using L e by (auto simp: triangle_def)
  fix k D assume k: "k < n" and "\<exists>f. labels n f D \<and> entries S el c m f \<and> triangle n k f"
  then obtain g where g: "labels n g D" "entries S el c m g" "triangle n k g" by blast
  have z: "g k k = 0" using entries_diag [OF cons g(2)] k n by simp
  have "entries S el c m (fw k g)" "triangle n (Suc k) (fw k g)" using fw_entries [OF g(2)] fw_triangle [OF g(3) k z] k n by simp_all
  then show "oret (\<lambda>e. False) (\<lambda>D'. \<exists>f. labels n f D' \<and> entries S el c m f \<and> triangle n (Suc k) f)
      (ofold (\<lambda>(v, w). relax n k v w) (List.product [0..<n] [0..<n]) D)"
    using phase_ok [OF g(1) k] z by (auto elim!: oret_post)
qed simp

section \<open>The new graph\<close>

lemma axes_only_put:
  assumes P: "axes_only n P" and i: "i \<le> 2" and A: "attribute_Size A = n"
  shows "axes_only n (attributePool_put P (TokGeoAxis0 + i) A)"
proof -
  have tok: "primary P (TokGeoAxis0 + i) \<in> {3, 4, 5}" using axis_token(1) [OF i, of P] P by (simp add: axes_only_def)
  have "set (ap_put (primary P (TokGeoAxis0 + i)) A (ap_attributes P)) \<subseteq> insert (primary P (TokGeoAxis0 + i), A) (set (ap_attributes P))"
    by (rule set_put)
  then show ?thesis using P A tok unfolding axes_only_def attributePool_put_def by fastforce
qed

lemma InitAttribute_axis:
  assumes inv: "ap_inv X P" and P: "axes_only n P" and i: "i \<le> 2" and none: "attributePool_FindAttribute P (TokGeoAxis0 + i) = None"
    and n: "0 < n" "X DIM_LAYOUT_NODES SIZE_ACTUAL = n"
  shows "\<exists>Q. attributePool_InitAttribute X P (TokGeoAxis0 + i) 0 = Inr (True, Q) \<and> axes_only n Q
    \<and> attributePool_FindAttribute Q (TokGeoAxis0 + i) = Some (attribute n 0)"
proof -
  let ?t = "TokGeoAxis0 + i"
  have tb: "ap_table P = listOfGeometryPars" using P by (simp add: axes_only_def)
  have t: "?t < length (ap_table P)" and d: "arrayDim (ap_table P ! ?t) = DIM_LAYOUT_NODES" using geometry_axis [OF i] tb by simp_all
  let ?Q = "P\<lparr>ap_attributes := (primary P ?t, attribute n 0) # ap_attributes P\<rparr>"
  note prim = FindAttribute_primary [OF inv t]
  have X: "n \<le> X DIM_LAYOUT_NODES SIZE_RESERVED" using ap_inv_dims [OF inv] n(2) by (auto simp: dims_ok_def)
  have "attributePool_MakeAttribute X P ?t ATTR_FULL_RANK (Some 0) = Inr (True, ?Q)"
    using none n X d by (simp add: attributePool_MakeAttribute_def prim Let_def attribute_SetCapacity_def attribute_sizes)
  then have "attributePool_InitAttribute X P ?t 0 = Inr (True, ?Q)" using none by (simp add: attributePool_InitAttribute_def)
  moreover have "axes_only n ?Q" using P axis_token(1) [OF i tb] by (auto simp: axes_only_def attribute_sizes)
  moreover have "attributePool_FindAttribute ?Q ?t = Some (attribute n 0)" by (simp add: attributePool_FindAttribute_def primary_def)
  ultimately show ?thesis by blast
qed

lemma SetC_shaped:
  assumes D: "shaped n D" and v: "v < n" and i: "i \<le> 2"
  shows "\<exists>D'. on_base (sp_SetC (de_base D) v i pos) D = Inr D' \<and> shaped n D'"
proof -
  let ?S = "de_base D" and ?t = "TokGeoAxis0 + i"
  let ?G = "sp_geometry ?S"
  have G: "axes_only n ?G" and l: "sp_lAct ?S = n" and pools: "pools_ok ?S" using D by (simp_all add: shaped_def)
  have "full_axis ?S i" using axes_only_find [OF G] v by (auto simp: full_axis_def split: option.split)
  then obtain P where P: "sp_SetC ?S v i pos = Inr (?S\<lparr>sp_geometry := P\<rparr>)" "pools_ok (?S\<lparr>sp_geometry := P\<rparr>)"
    using SetC_ok [OF pools _ i, of v pos] v l by metis
  have put: "axes_only n (attributePool_put Q ?t A1)"
    if Q: "axes_only n Q" "attribute_Size A = n" "attribute_SetValue A v pos = Inr A1" for Q A A1
    using axes_only_put [OF Q(1) i, of A1] SetValue_GetValue [of v A pos] Q(2,3) v by auto
  have inv: "ap_inv (sp_SizeInfo ?S) ?G" using pools by (simp add: pools_ok_def)
  have X: "sp_SizeInfo ?S DIM_LAYOUT_NODES SIZE_ACTUAL = n" using l by (simp add: sp_SizeInfo_def)
  have PA: "P = Q" if "Inr (?S\<lparr>sp_geometry := Q\<rparr>) = (Inr (?S\<lparr>sp_geometry := P\<rparr>) :: sparse result)" for Q
    using arg_cong [OF that, of "\<lambda>r. sp_geometry (projr r)"] by simp
  have "axes_only n P"
  proof (cases "attributePool_FindAttribute ?G ?t")
    case (Some A)
    then have "rbind (attribute_SetValue A v pos) (\<lambda>A1. Inr (?S\<lparr>sp_geometry := attributePool_put ?G ?t A1\<rparr>)) = Inr (?S\<lparr>sp_geometry := P\<rparr>)"
      using P(1) v l i by (simp add: sp_SetC_def)
    then show ?thesis using put [OF G axes_only_find [OF G Some]] PA by (auto simp: rbind_Inr_iff)
  next
    case None
    show ?thesis
    proof (cases "pos = 0")
      case True
      then show ?thesis using P(1) None v l i G PA [of ?G] by (simp add: sp_SetC_def)
    next
      case False
      obtain Q where Q: "attributePool_InitAttribute (sp_SizeInfo ?S) ?G ?t 0 = Inr (True, Q)" "axes_only n Q"
        "attributePool_FindAttribute Q ?t = Some (attribute n 0)"
        using InitAttribute_axis [OF inv G i None _ X] v by auto
      have "rbind (attribute_SetValue (attribute n 0) v pos) (\<lambda>A1. Inr (?S\<lparr>sp_geometry := attributePool_put Q ?t A1\<rparr>)) = Inr (?S\<lparr>sp_geometry := P\<rparr>)"
        using P(1) v l i None False Q(1,3) by (simp add: sp_SetC_def)
      then show ?thesis using put [OF Q(2), of "attribute n 0"] PA by (auto simp: rbind_Inr_iff attribute_sizes)
    qed
  qed
  then have "shaped n (D\<lparr>de_base := ?S\<lparr>sp_geometry := P\<rparr>\<rparr>)" using D P(2) by (simp add: shaped_def)
  then show ?thesis using P(1) by (simp add: on_base_def)
qed

lemma set_constant_shaped:
  assumes D: "shaped n D" and t: "t \<in> repr_tokens"
  obtains D' where "on_base (set_constant (de_base D) t dflt v) D = Inr D'" "shaped n D'"
proof -
  obtain S' where S': "set_constant (de_base D) t dflt v = Inr S'" "only_repr (de_base D) S'" "pools_ok S'"
    using set_constant_ok [OF _ t, of "de_base D" dflt v] D unfolding shaped_def by metis
  then obtain P where "S' = (de_base D)\<lparr>sp_representation := P\<rparr>" by (auto simp: only_repr_def)
  then have "shaped n (D\<lparr>de_base := S'\<rparr>)" using D S'(3) by (simp add: shaped_def)
  then show thesis using that S'(1) by (simp add: on_base_def)
qed

lemma new_base_pools:
  assumes "n \<le> NoNode" "2 * m \<le> NoIndex"
  shows "pools_ok ((sparseRepresentation mxNode mxArc n)\<lparr>sp_mAct := m, sp_mMax := m\<rparr>)"
proof -
  let ?S = "(sparseRepresentation mxNode mxArc n)\<lparr>sp_mAct := m, sp_mMax := m\<rparr>"
  have "dims_ok (sp_SizeInfo ?S)"
    using assms by (auto simp: dims_ok_def sp_SizeInfo_def sparseRepresentation_def NoIndex_def NoNode_def split: TArrayDim.splits)
  then show ?thesis
    using repr_pars.pool_table_axioms geometry_pars.pool_table_axioms layout_pars.pool_table_axioms
      register_pars.pool_table_axioms
    by (simp add: pools_ok_def ap_inv_def raw_inv_def sparseRepresentation_def attributePool_new_def)
qed

lemma denseDiGraph_ok:
  assumes n: "n < mxNode" "mxNode \<le> NoNode" and m: "2 * (n * n) + 2 \<le> mxArc" "mxArc \<le> NoArc"
  obtains D where "denseDiGraph mxNode mxArc randUCap n False = Inr D" "shaped n D"
proof -
  let ?S = "(sparseRepresentation mxNode mxArc n)\<lparr>sp_mAct := n * n, sp_mMax := n * n\<rparr>"
  have "pools_ok ?S" using n m by (intro new_base_pools) (simp_all add: NoArc_def NoIndex_def)
  then have D0: "shaped n \<lparr>de_base = ?S, de_sub = None\<rparr>"
    by (simp add: shaped_def sparseRepresentation_def axes_only_def attributePool_new_def)
  have tok: "TokReprUCap \<in> repr_tokens" "TokReprDemand \<in> repr_tokens" "TokReprOrientation \<in> repr_tokens" by (simp_all add: repr_tokens_def)
  obtain D1 where D1: "on_base (set_constant ?S TokReprUCap 1 0) \<lparr>de_base = ?S, de_sub = None\<rparr> = Inr D1" "shaped n D1"
    using set_constant_shaped [OF D0 tok(1), of 1 0] by (metis dense.select_convs(1))
  have "denseRepresentation mxNode mxArc n (n * n) False = Inr D1"
    using D1(1) unfolding denseRepresentation_def on_base_def set_constant_def Let_def by (auto simp: rbind_Inr_iff split: prod.splits)
  moreover obtain D2 where D2: "on_base (sp_SetCDemand (de_base D1) 0) D1 = Inr D2" "shaped n D2"
    unfolding sp_SetCDemand_def using set_constant_shaped [OF D1(2) tok(2), of 0 0] by metis
  moreover obtain D3 where D3: "on_base (sp_SetCOrientation (de_base D2) 1) D2 = Inr D3" "shaped n D3"
    using set_constant_shaped [OF D2(2) tok(3), of 0 1] by (auto simp: sp_SetCOrientation_def)
  moreover have "shaped n (de_ReleaseSubgraph D3)" using D3(2) by (simp add: shaped_def de_ReleaseSubgraph_def)
  then obtain D4 where "on_base (set_constant (de_base (de_ReleaseSubgraph D3)) TokReprUCap 1 1) (de_ReleaseSubgraph D3) = Inr D4" "shaped n D4"
    using set_constant_shaped [OF _ tok(1), of n "de_ReleaseSubgraph D3" 1 1] by metis
  then have "de_SetCUCap D3 1 = Inr D4" "shaped n D4" by (simp_all add: de_SetCUCap_def de_ReleaseSubgraph_def)
  moreover have "\<not> mxNode \<le> n" "\<not> mxArc - 2 < 2 * (n * n)" using n m by linarith+
  ultimately have "denseDiGraph mxNode mxArc randUCap n False = Inr (if randUCap then D3 else D4)"
    by (simp add: denseDiGraph_def del: mult_Suc)
  then show thesis using that D3(2) \<open>shaped n D4\<close> by (metis (full_types))
qed

lemma Dim_le: "sp_Dim S \<le> 3"
  by (auto simp: sp_Dim_def split: option.splits)

lemma coordinates_ok:
  assumes "shaped (sp_nAct S) D"
  shows "oret (\<lambda>e. False) (shaped (sp_nAct S)) (copy_coordinates S D)"
proof -
  let ?n = "sp_nAct S" and ?ps = "List.product [0..<sp_nAct S] [0..<sp_Dim S]"
  have "oret (\<lambda>e. False) (shaped ?n) (ofold (\<lambda>(v, i) D. Some (on_base (sp_SetC (de_base D) v i (sp_C S v i)) D)) ?ps D)"
  proof (rule oret_ofold [where I = "\<lambda>as. shaped ?n"])
    fix as p bs D assume ps: "?ps = as @ p # bs" and D: "shaped ?n D"
    obtain v i where p: "p = (v, i)" by (cases p)
    have "p \<in> set ?ps" unfolding ps by simp
    then have "v < ?n" "i \<le> 2" using Dim_le [of S] p by auto
    then show "oret (\<lambda>e. False) (shaped ?n) ((case p of (v, i) \<Rightarrow> \<lambda>D. Some (on_base (sp_SetC (de_base D) v i (sp_C S v i)) D)) D)"
      using SetC_shaped [OF D, of v i "sp_C S v i"] by (auto simp: p)
  qed (rule assms)
  then show ?thesis using assms by (simp add: copy_coordinates_def)
qed

section \<open>Properties\<close>

lemma distanceGraph_labels:
  assumes cons: "conservative S (plain S) (arc_length S) B"
    and lim: "sp_nAct S < mxNode" "mxNode \<le> NoNode" "2 * (sp_nAct S * sp_nAct S) + 2 \<le> mxArc" "mxArc \<le> NoArc"
  shows "oret (\<lambda>e. False) (\<lambda>D. \<exists>f. labels (sp_nAct S) f D \<and> entries S (plain S) (arc_length S) (2 * sp_mAct S) f \<and> triangle (sp_nAct S) (sp_nAct S) f)
    (distanceGraph mxNode mxArc randUCap S)"
proof -
  let ?n = "sp_nAct S"
  have live: "no_cancelled S" using cons by (simp add: conservative_def)
  obtain D where D: "denseDiGraph mxNode mxArc randUCap ?n False = Inr D" "shaped ?n D" by (rule denseDiGraph_ok [OF lim])
  have lab: "shaped ?n D \<Longrightarrow> labels ?n (\<lambda>u v. attributePool_GetValue (sp_representation (de_base D)) TokReprLength (u * ?n + v) 1) D" for D
    by (simp add: labels_def)
  show ?thesis unfolding distanceGraph_def D(1) obind_simps
  proof (rule oret_seq [OF coordinates_ok [OF D(2)]], rule oret_seq [OF init_ok [OF lab]], assumption, rule oret_seq [OF copy_ok [OF live]], assumption)
    fix D assume "\<exists>f. labels ?n f D \<and> entries S (plain S) (arc_length S) (2 * sp_mAct S) f"
    then show "oret (\<lambda>e. False) (\<lambda>D. \<exists>f. labels ?n f D \<and> entries S (plain S) (arc_length S) (2 * sp_mAct S) f \<and> triangle ?n ?n f) (relax_all ?n D)"
      using relax_all_ok [OF cons refl] by blast
  qed
qed

text \<open>
  C17: The distance graph of a mixed graph without negative cycles and with lengths far below \<open>InfFloat\<close> has the distances as
  arc lengths: if there is a walk of traversable arcs from \<open>u\<close> to \<open>v\<close> in the graph, the length of the arc from \<open>u\<close> to \<open>v\<close> is the
  least length of such a walk; otherwise it is not less than half of \<open>InfFloat\<close>.
\<close>

theorem distanceGraph_distances:
  assumes "conservative S (plain S) (arc_length S) B"
    and "sp_nAct S < mxNode" "mxNode \<le> NoNode" "2 * (sp_nAct S * sp_nAct S) + 2 \<le> mxArc" "mxArc \<le> NoArc"
  shows "\<exists>D. distanceGraph mxNode mxArc randUCap S = Some (Inr D) \<and> (\<forall>u < sp_nAct S. \<forall>v < sp_nAct S. \<exists>a x.
    denseDiGraph_Adjacency (sp_nAct S) u v = Inr a \<and> de_Length D a = Inr x
    \<and> (if \<exists>as. awalk S (plain S) u as v
       then (\<exists>as. awalk S (plain S) u as v \<and> x = len (arc_length S) as) \<and> (\<forall>as. awalk S (plain S) u as v \<longrightarrow> x \<le> len (arc_length S) as)
       else InfFloat / 2 \<le> x))"
proof -
  let ?n = "sp_nAct S" and ?c = "arc_length S" and ?el = "plain S"
  obtain D f where D: "distanceGraph mxNode mxArc randUCap S = Some (Inr D)" and f: "labels ?n f D" "entries S ?el ?c (2 * sp_mAct S) f" "triangle ?n ?n f"
    using distanceGraph_labels [OF assms, of randUCap] by (auto simp: oret_value)
  have low: "f u v \<le> len ?c as" if "awalk S ?el u as v" "u < ?n" for u v as
    using triangle_walk [OF f(3) refl f(2)] that assms(1) by (simp add: conservative_def)
  have "\<exists>as. awalk S ?el u as v \<and> f u v = len ?c as" if u: "u < ?n" and v: "v < ?n" and w: "awalk S ?el u as v" for u v as
  proof -
    obtain bs where bs: "awalk S ?el u bs v" "\<bar>len ?c bs\<bar> \<le> real ?n * B" using conservative_short [OF assms(1) u w] by metis
    have C: "4 * (real ?n * B) \<le> InfFloat" "0 < InfFloat" using assms(1) by (simp_all add: conservative_def algebra_simps InfFloat_def)
    obtain j where j: "jumps S ?el ?c j u v (f u v)" using f(2) u v unfolding entries_def by blast
    have "f u v < InfFloat / 2" using low [OF bs(1) u] bs(2) C by linarith
    then have "j = 0" using jumps_far [OF assms(1), of "j - 1" u v "f u v"] j u by (cases j) auto
    then show ?thesis using j by (auto simp: jumps_zero)
  qed
  moreover have "InfFloat / 2 \<le> f u v" if u: "u < ?n" and v: "v < ?n" and no: "\<nexists>as. awalk S ?el u as v" for u v
  proof -
    obtain j where j: "jumps S ?el ?c j u v (f u v)" using f(2) u v unfolding entries_def by blast
    then show ?thesis using jumps_far [OF assms(1), of "j - 1" u v "f u v"] u no by (cases j) (auto simp: jumps_zero)
  qed
  ultimately have "if \<exists>as. awalk S ?el u as v
       then (\<exists>as. awalk S ?el u as v \<and> f u v = len ?c as) \<and> (\<forall>as. awalk S ?el u as v \<longrightarrow> f u v \<le> len ?c as)
       else InfFloat / 2 \<le> f u v" if "u < ?n" "v < ?n" for u v using low that by auto
  then show ?thesis using D labels_Length [OF f(1)] Adjacency_in [of _ ?n] by (intro exI [of _ D]) blast
qed

lemma sp_example_conservative: "conservative sp_example (plain sp_example) (arc_length sp_example) 5"
proof -
  have c: "arc_length sp_example a = 5" if "a < 2" for a
    using sp_example_cost [OF that] that sp_example_facts(2)
    by (simp add: cost_def dj_cost_def SPX_PLAIN_def arc_length_def sp_Length_def Let_def sp_example_metric)
  have "0 \<le> len (arc_length sp_example) as" if "awalk sp_example el u as v" for el u as v
    using that c sp_example_facts(2) by (induction as arbitrary: u) (auto intro!: add_nonneg_nonneg)
  then show ?thesis using c sp_example_bel_data sp_example_facts(2,3) by (simp add: conservative_def bel_data_def InfFloat_def)
qed

theorem distanceGraph_distances_witness:
  "\<exists>D. distanceGraph 10 12 False sp_example = Some (Inr D) \<and> (\<forall>u < 2. \<forall>v < 2. \<exists>a x.
    denseDiGraph_Adjacency 2 u v = Inr a \<and> de_Length D a = Inr x
    \<and> (if \<exists>as. awalk sp_example (plain sp_example) u as v
       then (\<exists>as. awalk sp_example (plain sp_example) u as v \<and> x = len (arc_length sp_example) as)
         \<and> (\<forall>as. awalk sp_example (plain sp_example) u as v \<longrightarrow> x \<le> len (arc_length sp_example) as)
       else InfFloat / 2 \<le> x))"
  using distanceGraph_distances [OF sp_example_conservative, of 10 12 False] sp_example_facts(3) by (simp add: NoNode_def NoArc_def)

end
