(* ===== verification/Depth_First.thy ===== *)
theory Depth_First
  imports Graph_Iterator Static_Stack Result_Logic
begin

text \<open>
  Depth first search on sparse graph objects, as the methods of \<^verbatim>\<open>lib_src/solveComponents.cpp\<close> run it: no recursion, the
  current node moves along the arcs that the investigator returns and back over the predecessor arcs.
  The loop is an operator on the test whether an arc is used, on the actions when a node is reached and when it is left.
  The locale \<open>dfs_search\<close> states what the methods' tests and actions have to satisfy, and proves that the
  loop ends, which nodes it visits and in which order it leaves them.
\<close>

section \<open>The loop\<close>

record dfs_state =
  df_nodeColour :: "nat list"
  df_pred :: "nat list"

text \<open>One round of the loop: the next node, or none when the search leaves its root \<open>r\<close>.\<close>

definition dfs_step ::
  "sparse \<Rightarrow> nat \<Rightarrow> (nat \<Rightarrow> nat \<Rightarrow> 'x dfs_state_scheme \<Rightarrow> bool result) \<Rightarrow> (nat \<Rightarrow> nat \<Rightarrow> 'x dfs_state_scheme \<Rightarrow> 'x dfs_state_scheme)
    \<Rightarrow> (nat \<Rightarrow> iGraph \<Rightarrow> 'x dfs_state_scheme \<Rightarrow> (iGraph \<times> 'x dfs_state_scheme) result)
    \<Rightarrow> nat \<Rightarrow> iGraph \<Rightarrow> 'x dfs_state_scheme \<Rightarrow> (nat option \<times> iGraph \<times> 'x dfs_state_scheme) result" where
  "dfs_step S r test enter leave u I st =
     rbind (iGraph_Active S I u) (\<lambda>act.
       if act
       then rbind (iGraph_Read S I u) (\<lambda>(a, I').
            rbind (sp_EndNode S a) (\<lambda>v.
            rbind (test a v st) (\<lambda>b.
              if b then Inr (Some v, I', enter a v st) else Inr (Some u, I', st))))
       else rbind (leave u I st) (\<lambda>(I', st').
              if u = r then Inr (None, I', st')
              else rbind (sp_StartNode S (df_pred st' ! u)) (\<lambda>w. Inr (Some w, I', st'))))"

partial_function (option) dfs_loop ::
  "sparse \<Rightarrow> nat \<Rightarrow> (nat \<Rightarrow> nat \<Rightarrow> 'x dfs_state_scheme \<Rightarrow> bool result) \<Rightarrow> (nat \<Rightarrow> nat \<Rightarrow> 'x dfs_state_scheme \<Rightarrow> 'x dfs_state_scheme)
    \<Rightarrow> (nat \<Rightarrow> iGraph \<Rightarrow> 'x dfs_state_scheme \<Rightarrow> (iGraph \<times> 'x dfs_state_scheme) result)
    \<Rightarrow> nat \<Rightarrow> iGraph \<Rightarrow> 'x dfs_state_scheme \<Rightarrow> (iGraph \<times> 'x dfs_state_scheme) result option" where
  "dfs_loop S r test enter leave u I st =
     (case dfs_step S r test enter leave u I st of
        Inl e \<Rightarrow> Some (Inl e)
      | Inr p \<Rightarrow>
          (case fst p of
             None \<Rightarrow> Some (Inr (snd p))
           | Some w \<Rightarrow> dfs_loop S r test enter leave w (fst (snd p)) (snd (snd p))))"

section \<open>The position of the investigator\<close>

text \<open>The arcs of a node that have not been read.\<close>

definition unread :: "sparse \<Rightarrow> iGraph \<Rightarrow> nat \<Rightarrow> nat list \<Rightarrow> bool" where
  "unread S I u as \<longleftrightarrow> it_current I ! u = NoArc \<and> as = node_arcs S u
     \<or> (\<exists>bs. bs \<noteq> [] \<and> node_arcs S u = bs @ as) \<and> chain ((!) (sp_right S)) (it_current I ! u) as (sp_first S ! u)"

lemma unread_other: "it_current I' ! u = it_current I ! u \<Longrightarrow> unread S I' u as = unread S I u as"
  by (simp add: unread_def)

lemma unread_fresh: "it_current I ! u = NoArc \<Longrightarrow> unread S I u (node_arcs S u)"
  by (simp add: unread_def)

lemma unread_suffix: "unread S I u as \<Longrightarrow> \<exists>bs. node_arcs S u = bs @ as"
  unfolding unread_def by (metis append_Nil)

lemma unread_Active:
  assumes ok: "rings_ok S {}" and u: "u < sp_nAct S" and I: "it_ok S I" "unread S I u as"
  shows "iGraph_Active S I u = Inr (as \<noteq> [])"
proof (cases as)
  case Nil
  then have "it_current I ! u = sp_first S ! u \<or> sp_first S ! u = NoArc" using I(2) node_arcs_ok(4) [OF ok u] by (auto simp: unread_def)
  then show ?thesis using u I(1) Nil by (auto simp: iGraph_Active_def sp_First_def it_ok_def)
next
  case (Cons a bs)
  obtain cs where cs: "node_arcs S u = cs @ as" using unread_suffix [OF I(2)] by blast
  note n = node_arcs_ok [OF ok u]
  have f: "sp_first S ! u \<noteq> NoArc" "hd (node_arcs S u) = sp_first S ! u" using n(3,4) cs Cons by auto
  have "it_current I ! u \<noteq> sp_first S ! u"
    using I(2) f n(1) Cons cs unfolding unread_def by (auto simp: hd_append neq_Nil_conv)
  then show ?thesis using u f I(1) Cons by (simp add: iGraph_Active_def sp_First_def it_ok_def)
qed

lemma unread_Read:
  assumes ok: "rings_ok S {}" and u: "u < sp_nAct S" and I: "it_ok S I" "unread S I u (a # as)"
  obtains I' where "iGraph_Read S I u = Inr (a, I')" "it_ok S I'" "unread S I' u as" "\<And>w. w \<noteq> u \<Longrightarrow> it_current I' ! w = it_current I ! w"
    and "a < 2 * sp_mAct S" "sp_SN S ! a = u"
proof -
  let ?I = "I\<lparr>it_current := (it_current I)[u := sp_right S ! a]\<rparr>" and ?f = "sp_first S ! u"
  note n = node_arcs_ok [OF ok u]
  obtain cs where cs: "node_arcs S u = cs @ a # as" using unread_suffix [OF I(2)] by blast
  have f: "?f \<noteq> NoArc" "hd (node_arcs S u) = ?f" and r: "ring ((!) (sp_right S)) (node_arcs S u)" using n(3,4) cs by auto
  have mem: "b < 2 * sp_mAct S \<and> b \<noteq> NoArc \<and> sp_SN S ! b = u" if "b \<in> set (node_arcs S u)" for b
    using that n(2) shape_lt(1) [OF rings_shape [OF ok]] by (auto simp: arcs_at_def)
  have a: "a < 2 * sp_mAct S" "a \<noteq> NoArc" "sp_SN S ! a = u" using mem [of a] cs by auto
  have fm: "?f < 2 * sp_mAct S" using mem [of ?f] f(2) cs by (metis append_is_Nil_conv hd_in_set list.distinct(1))
  have "iGraph_Read S I u = Inr (a, ?I) \<and> chain ((!) (sp_right S)) (sp_right S ! a) as ?f"
  proof (cases "it_current I ! u = NoArc")
    case True
    with I(2) have eq: "node_arcs S u = a # as" using cs mem [of a] a(2) by (auto simp: unread_def)
    then have "a = ?f" using f(2) by simp
    then show ?thesis using True u fm f(1) I(1) r eq by (auto simp: iGraph_Read_def sp_First_def sp_Right_def it_ok_def ring_Cons)
  next
    case False
    then obtain bs where bs: "bs \<noteq> []" "node_arcs S u = bs @ a # as" and ch: "chain ((!) (sp_right S)) (it_current I ! u) (a # as) ?f"
      using I(2) by (auto simp: unread_def)
    then have "a \<noteq> ?f" using n(1) f(2) by (cases bs) auto
    then show ?thesis using False u a f(1) I(1) ch by (auto simp: iGraph_Read_def sp_First_def sp_Right_def it_ok_def)
  qed
  moreover have "unread S ?I u as"
    using calculation cs I(1) u unfolding unread_def it_ok_def by (intro disjI2 conjI exI [of _ "cs @ [a]"]) simp_all
  ultimately show thesis using that [of ?I] a I(1) by (simp add: it_ok_def)
qed

section \<open>Order of the search\<close>

text \<open>
  \<open>stk\<close> is the path from the root to the current node, which comes first, \<open>L\<close> the list of the nodes that have been left, the last
  one first. A node \<open>s\<close> reaches the nodes that are left after it was reached; the nodes that were left
  before have no arcs to it.
\<close>

definition follows :: "(nat \<Rightarrow> nat \<Rightarrow> bool) \<Rightarrow> nat \<Rightarrow> nat list \<Rightarrow> nat set \<Rightarrow> bool" where
  "follows R s L W \<longleftrightarrow> (\<exists>bs cs. L = bs @ cs \<and> (\<forall>z \<in> set bs. R\<^sup>*\<^sup>* s z) \<and> (\<forall>z \<in> set cs. \<forall>w. R z w \<longrightarrow> w \<in> set cs \<union> W))"

lemma follows_mono: "follows R s L W \<Longrightarrow> W \<subseteq> W' \<Longrightarrow> follows R s L W'"
  unfolding follows_def by blast

lemma follows_Cons: "follows R s L W \<Longrightarrow> R\<^sup>*\<^sup>* s u \<Longrightarrow> follows R s (u # L) W"
  unfolding follows_def by (metis append_Cons set_ConsD)

fun stack_order :: "(nat \<Rightarrow> nat \<Rightarrow> bool) \<Rightarrow> nat list \<Rightarrow> nat list \<Rightarrow> bool" where
  "stack_order R [] L = True"
| "stack_order R (s # y) L = (follows R s L (set y) \<and> (y \<noteq> [] \<longrightarrow> R (hd y) s) \<and> stack_order R y L)"

fun left_order :: "(nat \<Rightarrow> nat \<Rightarrow> bool) \<Rightarrow> nat set \<Rightarrow> nat list \<Rightarrow> bool" where
  "left_order R W [] = True"
| "left_order R W (s # b) = (follows R s b W \<and> left_order R (insert s W) b)"

definition dfs_order :: "(nat \<Rightarrow> nat \<Rightarrow> bool) \<Rightarrow> nat \<Rightarrow> nat list \<Rightarrow> nat list \<Rightarrow> bool" where
  "dfs_order R r stk L \<longleftrightarrow> distinct (stk @ L) \<and> (\<forall>z \<in> set (stk @ L). R\<^sup>*\<^sup>* r z)
     \<and> (\<forall>z \<in> set L. \<forall>w. R z w \<longrightarrow> w \<in> set (stk @ L)) \<and> stack_order R stk L \<and> left_order R (set stk) L"

lemma dfs_order_start: "dfs_order R r [r] []"
  by (simp add: dfs_order_def follows_def)

lemma dfs_order_push:
  assumes "dfs_order R r (u # y) L" "R u v" "v \<notin> set (u # y @ L)"
  shows "dfs_order R r (v # u # y) L"
proof -
  have "follows R v L (set (u # y))" unfolding follows_def
    using assms(1) by (intro exI [of _ "[]"] exI [of _ L]) (auto simp: dfs_order_def)
  moreover have "left_order R W L \<Longrightarrow> left_order R (insert v W) L" for W
    by (induction L arbitrary: W) (auto simp: insert_commute [of _ v] intro: follows_mono)
  moreover have "R\<^sup>*\<^sup>* r v" using assms(1,2) by (auto simp: dfs_order_def intro: rtranclp.rtrancl_into_rtrancl)
  ultimately show ?thesis using assms by (auto simp: dfs_order_def)
qed

lemma stack_order_reaches: "stack_order R (u # y) L \<Longrightarrow> s \<in> set y \<Longrightarrow> R\<^sup>*\<^sup>* s u"
proof (induction y arbitrary: u)
  case (Cons w y)
  then have "R\<^sup>*\<^sup>* s w" by (cases "s = w") auto
  moreover have "R w u" using Cons.prems by simp
  ultimately show ?case by (rule rtranclp.rtrancl_into_rtrancl)
qed simp

lemma dfs_order_pop:
  assumes "dfs_order R r (u # y) L" "\<And>w. R u w \<Longrightarrow> w \<in> set (u # y @ L)"
  shows "dfs_order R r y (u # L)"
proof -
  have st: "stack_order R (u # y) L" using assms(1) by (simp add: dfs_order_def)
  have "stack_order R x L \<Longrightarrow> set x \<subseteq> set y \<Longrightarrow> stack_order R x (u # L)" for x
    by (induction x) (auto intro: follows_Cons stack_order_reaches [OF st])
  then have "stack_order R y (u # L)" using st by simp
  then show ?thesis using assms by (auto simp: dfs_order_def)
qed

text \<open>When the search has left its root.\<close>

lemma dfs_order_done:
  assumes "dfs_order R r [] L" "r \<in> set L"
  shows "distinct L" "set L = {z. R\<^sup>*\<^sup>* r z}" "left_order R {} L"
proof -
  show "distinct L" "left_order R {} L" using assms by (simp_all add: dfs_order_def)
  have "z \<in> set L" if "R\<^sup>*\<^sup>* r z" for z
    using that
  proof (induction rule: rtranclp_induct)
    case (step y z)
    then show ?case using assms(1) by (simp add: dfs_order_def)
  qed (simp add: assms(2))
  moreover have "\<forall>z \<in> set L. R\<^sup>*\<^sup>* r z" using assms(1) by (simp add: dfs_order_def)
  ultimately show "set L = {z. R\<^sup>*\<^sup>* r z}" by blast
qed

text \<open>
  What the order is used for: a node from which \<open>s\<close> can be reached over nodes that were left no later than \<open>s\<close> can be
  reached from \<open>s\<close>.
\<close>

lemma left_order_reaches:
  assumes L: "left_order R W L" "L = as @ s # bs" "distinct L" "W \<inter> set L = {}"
    and path: "(\<lambda>x y. R x y \<and> x \<in> set (s # bs) \<and> y \<in> set (s # bs))\<^sup>*\<^sup>* x s"
  shows "R\<^sup>*\<^sup>* s x"
  using L
proof (induction as arbitrary: L W)
  case Nil
  then obtain cs ds where cd: "bs = cs @ ds" "\<forall>z \<in> set cs. R\<^sup>*\<^sup>* s z" "\<forall>z \<in> set ds. \<forall>w. R z w \<longrightarrow> w \<in> set ds \<union> W"
    by (auto simp: follows_def)
  have "x \<notin> set ds"
    using path
  proof (induction rule: converse_rtranclp_induct)
    case base
    then show ?case using Nil.prems cd(1) by auto
  next
    case (step y z)
    then show ?case using Nil.prems cd(1,3) by auto
  qed
  moreover have "x \<in> set (s # bs)" using path by (cases rule: converse_rtranclpE) auto
  ultimately show ?case using cd by auto
next
  case (Cons a as)
  then show ?case by auto
qed

section \<open>The search\<close>

definition edge :: "sparse \<Rightarrow> (nat \<Rightarrow> bool) \<Rightarrow> nat set \<Rightarrow> nat \<Rightarrow> nat \<Rightarrow> bool" where
  "edge S el A u v \<longleftrightarrow> u \<in> A \<and> v \<in> A \<and> (\<exists>a < 2 * sp_mAct S. el a \<and> sp_SN S ! a = u \<and> sp_SN S ! flip a = v)"

lemma end_lt:
  assumes "sp_inv S" "a < 2 * sp_mAct S" "sp_SN S ! a < sp_nAct S"
  shows "sp_SN S ! flip a < sp_nAct S"
proof -
  have "sp_SN S ! a \<noteq> NoNode" using assms(3) shape_lt(2) [OF sp_inv_shape [OF assms(1)]] by auto
  then have "sp_SN S ! flip a \<noteq> NoNode" using paired_flip [of S a] assms(1,2) by (simp add: sp_inv_def)
  then show ?thesis using sp_inv_rings [OF assms(1)] assms(2) unfolding rings_ok_def by (metis flip_lt)
qed

lemma edge_reaches: "(edge S el A)\<^sup>*\<^sup>* u v \<Longrightarrow> u \<in> A \<Longrightarrow> v \<in> A"
  by (induction rule: rtranclp_induct) (auto simp: edge_def)

text \<open>
  The contract between the loop and the methods. The search uses the arcs with \<open>el\<close> between the nodes in \<open>A\<close>. \<open>inv V L st\<close> is the
  method's view of the state when the nodes in \<open>V\<close> have been reached and those in \<open>L\<close> have been left.
\<close>

locale dfs_search =
  fixes S :: sparse and r :: nat and A :: "nat set" and el :: "nat \<Rightarrow> bool"
    and test :: "nat \<Rightarrow> nat \<Rightarrow> 'x dfs_state_scheme \<Rightarrow> bool result"
    and enter :: "nat \<Rightarrow> nat \<Rightarrow> 'x dfs_state_scheme \<Rightarrow> 'x dfs_state_scheme"
    and leave :: "nat \<Rightarrow> iGraph \<Rightarrow> 'x dfs_state_scheme \<Rightarrow> (iGraph \<times> 'x dfs_state_scheme) result"
    and inv :: "nat set \<Rightarrow> nat list \<Rightarrow> 'x dfs_state_scheme \<Rightarrow> bool" and resets :: bool
  assumes frame_law: "inv V L st \<Longrightarrow> sp_inv S \<and> A \<subseteq> {..<sp_nAct S} \<and> r \<in> A"
    and test_law: "inv V L st \<Longrightarrow> V \<subseteq> A \<Longrightarrow> a < 2 * sp_mAct S \<Longrightarrow> sp_SN S ! a \<in> V \<Longrightarrow> sp_SN S ! flip a < sp_nAct S \<Longrightarrow>
        test a (sp_SN S ! flip a) st = Inr (el a \<and> sp_SN S ! flip a \<in> A - V)"
    and enter_law: "inv V L st \<Longrightarrow> a < 2 * sp_mAct S \<Longrightarrow> el a \<Longrightarrow> sp_SN S ! a \<in> V \<Longrightarrow> v = sp_SN S ! flip a \<Longrightarrow> v \<in> A - V \<Longrightarrow>
        inv (insert v V) L (enter a v st) \<and> df_pred (enter a v st) = (df_pred st)[v := a]"
    and leave_law: "inv V L st \<Longrightarrow> V \<subseteq> A \<Longrightarrow> set L \<subseteq> V \<Longrightarrow> distinct L \<Longrightarrow> u \<in> V \<Longrightarrow> u \<notin> set L \<Longrightarrow> it_ok S I \<Longrightarrow>
        \<exists>st'. leave u I st = Inr (if resets then I\<lparr>it_current := (it_current I)[u := NoArc]\<rparr> else I, st')
          \<and> inv V (u # L) st' \<and> df_pred st' = df_pred st"
    and pred_law: "inv V L st \<Longrightarrow> length (df_pred st) = sp_nAct S"
begin

text \<open>During the search: \<open>rest v\<close> are the arcs of \<open>v\<close> that have not been read, \<open>I0\<close> the investigator at the start.\<close>

definition running :: "iGraph \<Rightarrow> (nat \<Rightarrow> nat list) \<Rightarrow> nat list \<Rightarrow> nat list \<Rightarrow> iGraph \<Rightarrow> 'x dfs_state_scheme \<Rightarrow> bool" where
  "running I0 rest stk L I st \<longleftrightarrow> inv (set (stk @ L)) L st \<and> it_ok S I \<and> set (stk @ L) \<subseteq> A \<and> dfs_order (edge S el A) r stk L
     \<and> stk \<noteq> [] \<and> last stk = r
     \<and> (\<forall>v \<in> A - set L. unread S I v (rest v)) \<and> (\<forall>v \<in> A - set (stk @ L). rest v = node_arcs S v)
     \<and> (\<forall>v \<in> set stk. \<forall>a \<in> set (node_arcs S v) - set (rest v). el a \<longrightarrow> sp_SN S ! flip a \<in> A \<longrightarrow> sp_SN S ! flip a \<in> set (stk @ L))
     \<and> successively (\<lambda>v w. df_pred st ! v < 2 * sp_mAct S \<and> sp_SN S ! (df_pred st ! v) = w) stk
     \<and> (resets \<longrightarrow> (\<forall>v \<in> set L. it_current I ! v = NoArc)) \<and> (\<forall>v. v \<notin> set (stk @ L) \<longrightarrow> it_current I ! v = it_current I0 ! v)"

definition work :: "(nat \<Rightarrow> nat list) \<Rightarrow> nat list \<Rightarrow> nat" where
  "work rest L = (\<Sum>v \<in> A - set L. Suc (length (rest v)))"

lemma running_frame:
  assumes "running I0 rest stk L I st"
  shows "sp_inv S" "A \<subseteq> {..<sp_nAct S}" "r \<in> A" "finite A"
proof -
  show "sp_inv S" "A \<subseteq> {..<sp_nAct S}" "r \<in> A" using assms frame_law by (auto simp: running_def)
  then show "finite A" using finite_subset by blast
qed

lemma work_read: "finite A \<Longrightarrow> u \<in> A - set L \<Longrightarrow> rest u = a # as \<Longrightarrow> work (rest(u := as)) L < work rest L"
  unfolding work_def by (intro sum_strict_mono_ex1) auto

lemma work_leave: "finite A \<Longrightarrow> u \<in> A - set L \<Longrightarrow> work rest (u # L) < work rest L"
  unfolding work_def by (intro sum_strict_mono2 [of _ _ u]) auto

text \<open>The current node reads an arc.\<close>

lemma running_read:
  assumes run: "running I0 rest (u # y) L I st" and a: "rest u = a # as"
  obtains I' where "iGraph_Active S I u = Inr True" "iGraph_Read S I u = Inr (a, I')" "sp_EndNode S a = Inr (sp_SN S ! flip a)"
    and "a < 2 * sp_mAct S" "sp_SN S ! a = u" "sp_SN S ! flip a < sp_nAct S"
    and "test a (sp_SN S ! flip a) st = Inr (el a \<and> sp_SN S ! flip a \<in> A - set (u # y @ L))"
    and "sp_SN S ! flip a \<in> A \<longrightarrow> el a \<longrightarrow> sp_SN S ! flip a \<in> set (u # y @ L) \<Longrightarrow> running I0 (rest(u := as)) (u # y) L I' st"
    and "it_ok S I'" "\<And>v. v \<in> A - set L \<Longrightarrow> unread S I' v ((rest(u := as)) v)" "\<And>w. w \<noteq> u \<Longrightarrow> it_current I' ! w = it_current I ! w"
proof -
  note R = run [unfolded running_def] and S = running_frame(1) [OF run] and A = running_frame(2) [OF run]
  have uA: "u \<in> A - set L" using R by (auto simp: dfs_order_def)
  then have u: "u < sp_nAct S" using A by auto
  have un: "unread S I u (a # as)" using R uA a by metis
  note ok = sp_inv_rings [OF S]
  obtain I' where I': "iGraph_Read S I u = Inr (a, I')" "it_ok S I'" "unread S I' u as" "\<And>w. w \<noteq> u \<Longrightarrow> it_current I' ! w = it_current I ! w"
    and am: "a < 2 * sp_mAct S" "sp_SN S ! a = u"
    using unread_Read [OF ok u _ un] R by metis
  have v: "sp_SN S ! flip a < sp_nAct S" using end_lt [OF S am(1)] am(2) u by simp
  have act: "iGraph_Active S I u = Inr True" using unread_Active [OF ok u _ un] R by simp
  have un': "unread S I' v ((rest(u := as)) v)" if "v \<in> A - set L" for v
    using that R I'(3) unread_other [OF I'(4)] by auto
  have mem: "set (node_arcs S u) - set as \<subseteq> insert a (set (node_arcs S u) - set (rest u))" using a by auto
  have keep: "running I0 (rest(u := as)) (u # y) L I' st" if c: "sp_SN S ! flip a \<in> A \<longrightarrow> el a \<longrightarrow> sp_SN S ! flip a \<in> set (u # y @ L)"
  proof -
    have old: "el b \<longrightarrow> sp_SN S ! flip b \<in> A \<longrightarrow> sp_SN S ! flip b \<in> set ((u # y) @ L)"
      if "v \<in> set (u # y)" "b \<in> set (node_arcs S v) - set (rest v)" for v b
      using R that by blast
    have "el b \<longrightarrow> sp_SN S ! flip b \<in> A \<longrightarrow> sp_SN S ! flip b \<in> set ((u # y) @ L)"
      if "v \<in> set (u # y)" "b \<in> set (node_arcs S v) - set ((rest(u := as)) v)" for v b
    proof (cases "v = u")
      case True
      then have "b = a \<or> b \<in> set (node_arcs S u) - set (rest u)" using that(2) mem by auto
      then show ?thesis using c old [of u b] by auto
    next
      case False
      then show ?thesis using old [of v b] that by auto
    qed
    moreover have "resets \<longrightarrow> (\<forall>v \<in> set L. it_current I' ! v = NoArc)" using R I'(4) uA by (metis DiffD2)
    moreover have "\<forall>v. v \<notin> set ((u # y) @ L) \<longrightarrow> it_current I' ! v = it_current I0 ! v" using R I'(4) by auto
    ultimately show ?thesis using R I'(2) un' unfolding running_def by (intro conjI) auto
  qed
  have V: "set ((u # y) @ L) \<subseteq> A" "inv (set ((u # y) @ L)) L st" using R by auto
  have "test a (sp_SN S ! flip a) st = Inr (el a \<and> sp_SN S ! flip a \<in> A - set ((u # y) @ L))"
    using test_law [OF V(2,1) am(1) _ v] am(2) by auto
  moreover have "sp_EndNode S a = Inr (sp_SN S ! flip a)" using am(1) by (simp add: sp_EndNode_def)
  ultimately show thesis using that [of I'] act I' am v keep un' by auto
qed

lemma running_skip:
  assumes run: "running I0 rest (u # y) L I st" "rest u = a # as" and c: "\<not> (el a \<and> sp_SN S ! flip a \<in> A - set (u # y @ L))"
  obtains I' where "dfs_step S r test enter leave u I st = Inr (Some u, I', st)" "running I0 (rest(u := as)) (u # y) L I' st"
proof -
  from running_read [OF run] obtain I' where I': "iGraph_Active S I u = Inr True" "iGraph_Read S I u = Inr (a, I')"
    "sp_EndNode S a = Inr (sp_SN S ! flip a)" "test a (sp_SN S ! flip a) st = Inr (el a \<and> sp_SN S ! flip a \<in> A - set (u # y @ L))"
    "sp_SN S ! flip a \<in> A \<longrightarrow> el a \<longrightarrow> sp_SN S ! flip a \<in> set (u # y @ L) \<Longrightarrow> running I0 (rest(u := as)) (u # y) L I' st"
    by metis
  then show thesis using that [of I'] c by (simp add: dfs_step_def)
qed

lemma running_enter:
  assumes run: "running I0 rest (u # y) L I st" "rest u = a # as" and c: "el a" "sp_SN S ! flip a \<in> A - set (u # y @ L)"
  obtains I' where "dfs_step S r test enter leave u I st = Inr (Some (sp_SN S ! flip a), I', enter a (sp_SN S ! flip a) st)"
    "running I0 (rest(u := as)) (sp_SN S ! flip a # u # y) L I' (enter a (sp_SN S ! flip a) st)"
proof -
  let ?v = "sp_SN S ! flip a"
  note R = run(1) [unfolded running_def] and S = running_frame(1) [OF run(1)] and A = running_frame(2) [OF run(1)]
  from running_read [OF run] obtain I' where I': "iGraph_Active S I u = Inr True" "iGraph_Read S I u = Inr (a, I')"
    "sp_EndNode S a = Inr ?v" "test a ?v st = Inr (el a \<and> ?v \<in> A - set (u # y @ L))"
    and a: "a < 2 * sp_mAct S" "sp_SN S ! a = u" and it: "it_ok S I'" "\<And>w. w \<noteq> u \<Longrightarrow> it_current I' ! w = it_current I ! w"
    and un: "\<And>v. v \<in> A - set L \<Longrightarrow> unread S I' v ((rest(u := as)) v)" by metis
  have e: "inv (insert ?v (set ((u # y) @ L))) L (enter a ?v st)" "df_pred (enter a ?v st) = (df_pred st)[?v := a]"
    using enter_law [of "set ((u # y) @ L)" L st a ?v] R a c by auto
  have uA: "u \<in> A" "u \<noteq> ?v" using R c by auto
  have uL: "u \<notin> set L" using R by (auto simp: dfs_order_def)
  have ord: "dfs_order (edge S el A) r (?v # u # y) L"
    using R c a uA by (intro dfs_order_push) (auto simp: edge_def)
  have len: "length (df_pred st) = sp_nAct S" "?v < sp_nAct S" using R pred_law c A by auto
  let ?P = "\<lambda>st v w. df_pred st ! v < 2 * sp_mAct S \<and> sp_SN S ! (df_pred st ! v) = w"
  have "successively (?P st) (u # y)" using R by blast
  then have "successively (?P (enter a ?v st)) (u # y)"
    by (rule successively_mono) (use c(2) in \<open>auto simp: e(2)\<close>)
  then have suc: "successively (?P (enter a ?v st)) (?v # u # y)" using a len by (simp add: e(2))
  have old: "el b \<longrightarrow> sp_SN S ! flip b \<in> A \<longrightarrow> sp_SN S ! flip b \<in> set (?v # (u # y) @ L)"
    if w: "w \<in> set (u # y)" "b \<in> set (node_arcs S w) - set ((rest(u := as)) w)" for w b
  proof -
    have "b \<in> set (node_arcs S w) - set (rest w) \<or> b = a" using w run(2) by (auto split: if_splits)
    then show ?thesis using R w(1) by (metis append_Cons list.set_intros(1) list.set_intros(2))
  qed
  have new: "(rest(u := as)) ?v = node_arcs S ?v" using R c uA by auto
  have "running I0 (rest(u := as)) (?v # u # y) L I' (enter a ?v st)"
    unfolding running_def
  proof (intro conjI)
    show "\<forall>v \<in> set (?v # u # y). \<forall>a \<in> set (node_arcs S v) - set ((rest(u := as)) v).
      el a \<longrightarrow> sp_SN S ! flip a \<in> A \<longrightarrow> sp_SN S ! flip a \<in> set ((?v # u # y) @ L)"
      using old new by auto
    show "resets \<longrightarrow> (\<forall>v \<in> set L. it_current I' ! v = NoArc)" using R it(2) uL by metis
    show "\<forall>w. w \<notin> set ((?v # u # y) @ L) \<longrightarrow> it_current I' ! w = it_current I0 ! w" using R it(2) by auto
    show "\<forall>v \<in> A - set L. unread S I' v ((rest(u := as)) v)" using un by blast
  qed (use R e(1) it(1) ord suc c uA run(2) in auto)
  then show thesis using that [of I'] I' c by (simp add: dfs_step_def)
qed

lemma running_leave:
  assumes run: "running I0 rest (u # y) L I st" "rest u = []"
  obtains I' st' where "dfs_step S r test enter leave u I st = Inr (if y = [] then None else Some (hd y), I', st')"
    "inv (set (y @ u # L)) (u # L) st'" "it_ok S I'" "dfs_order (edge S el A) r y (u # L)" "y = [] \<longleftrightarrow> u = r"
    "y \<noteq> [] \<Longrightarrow> running I0 rest y (u # L) I' st'"
    "resets \<Longrightarrow> \<forall>v \<in> set (u # L). it_current I' ! v = NoArc" "\<forall>v. v \<notin> set (y @ u # L) \<longrightarrow> it_current I' ! v = it_current I0 ! v"
proof -
  note R = run(1) [unfolded running_def] and S = running_frame(1) [OF run(1)] and A = running_frame(2) [OF run(1)]
  have uA: "u \<in> A - set L" using R by (auto simp: dfs_order_def)
  then have u: "u < sp_nAct S" using A by auto
  note ok = sp_inv_rings [OF S]
  have un: "unread S I u []" using R uA run(2) by metis
  have act: "iGraph_Active S I u = Inr False" using unread_Active [OF ok u _ un] R by simp
  have "edge S el A u w \<Longrightarrow> w \<in> set (u # y @ L)" for w
    using R run(2) node_arcs_ok(2) [OF ok u] by (fastforce simp: edge_def arcs_at_def)
  then have ord: "dfs_order (edge S el A) r y (u # L)" using R by (intro dfs_order_pop) auto
  let ?I = "if resets then I\<lparr>it_current := (it_current I)[u := NoArc]\<rparr> else I"
  have I: "it_ok S ?I" "\<And>w. w \<noteq> u \<Longrightarrow> it_current ?I ! w = it_current I ! w" "resets \<Longrightarrow> it_current ?I ! u = NoArc"
    using R u by (auto simp: it_ok_def)
  have dis: "distinct (u # y @ L)" using R by (simp add: dfs_order_def)
  obtain st' where st': "leave u I st = Inr (?I, st')" "inv (set ((u # y) @ L)) (u # L) st'" "df_pred st' = df_pred st"
    using leave_law [of "set ((u # y) @ L)" L st u I] R uA dis by auto
  have root: "y = [] \<longleftrightarrow> u = r" 
  proof -
    have "last (u # y) = r" using R by blast
    then show ?thesis using dis last_in_set [of y] by auto
  qed
  have stp: "dfs_step S r test enter leave u I st = Inr (if y = [] then None else Some (hd y), ?I, st')"
  proof (cases y)
    case Nil
    then show ?thesis using act st' root by (simp add: dfs_step_def)
  next
    case (Cons w z)
    then have "df_pred st ! u < 2 * sp_mAct S" "sp_SN S ! (df_pred st ! u) = w" using R by auto
    then show ?thesis using Cons act st' root by (simp add: dfs_step_def sp_StartNode_def)
  qed
  have V: "set ((u # y) @ L) = set (y @ u # L)" by auto
  have cur: "resets \<longrightarrow> (\<forall>v \<in> set (u # L). it_current ?I ! v = NoArc)"
    "\<forall>v. v \<notin> set (y @ u # L) \<longrightarrow> it_current ?I ! v = it_current I0 ! v"
    using R I(3) uA I(2) by (metis set_ConsD, metis Un_iff V list.set_intros(1) set_append)
  have run2: "running I0 rest y (u # L) ?I st'" if "y \<noteq> []"
    unfolding running_def
  proof (intro conjI)
    show "successively (\<lambda>v w. df_pred st' ! v < 2 * sp_mAct S \<and> sp_SN S ! (df_pred st' ! v) = w) y"
      using R st'(3) that by (simp add: successively_Cons)
    show "\<forall>v \<in> A - set (u # L). unread S ?I v (rest v)" using R unread_other [OF I(2)] by auto
    show "inv (set (y @ u # L)) (u # L) st'" using st'(2) V by simp
    show "resets \<longrightarrow> (\<forall>v \<in> set (u # L). it_current ?I ! v = NoArc)" by (rule cur(1))
    show "\<forall>v. v \<notin> set (y @ u # L) \<longrightarrow> it_current ?I ! v = it_current I0 ! v" by (rule cur(2))
  qed (use R I(1) ord that in auto)
  show thesis
    by (rule that [of ?I st', OF stp _ I(1) ord root run2 cur(1) [THEN mp] cur(2)]) (use st'(2) V in auto)
qed

lemma running_returns:
  assumes "running I0 rest stk L I st"
  shows "\<exists>I' st' L'. dfs_loop S r test enter leave (hd stk) I st = Some (Inr (I', st')) \<and> dfs_order (edge S el A) r [] L' \<and> r \<in> set L'
    \<and> inv (set L') L' st' \<and> it_ok S I' \<and> (resets \<longrightarrow> (\<forall>v \<in> set L'. it_current I' ! v = NoArc))
    \<and> (\<forall>v. v \<notin> set L' \<longrightarrow> it_current I' ! v = it_current I0 ! v)"
  using assms
proof (induction "work rest L" arbitrary: rest stk L I st rule: less_induct)
  case less
  then obtain u y where stk: "stk = u # y" by (cases stk) (auto simp: running_def)
  have uA: "u \<in> A - set L" using less.prems by (auto simp: stk running_def dfs_order_def)
  note run = less.prems [unfolded stk] and fin = running_frame(4) [OF less.prems]
  show ?case
  proof (cases "rest u")
    case (Cons a as)
    note less = less.hyps [OF work_read [of u L rest a as, OF fin uA Cons]]
    show ?thesis
    proof (cases "el a \<and> sp_SN S ! flip a \<in> A - set (u # y @ L)")
      case True
      then obtain I' where "dfs_step S r test enter leave u I st = Inr (Some (sp_SN S ! flip a), I', enter a (sp_SN S ! flip a) st)"
        "running I0 (rest(u := as)) (sp_SN S ! flip a # u # y) L I' (enter a (sp_SN S ! flip a) st)"
        using running_enter [OF run Cons] by metis
      with less [OF this(2)] show ?thesis by (subst dfs_loop.simps) (simp add: stk)
    next
      case False
      then obtain I' where "dfs_step S r test enter leave u I st = Inr (Some u, I', st)" "running I0 (rest(u := as)) (u # y) L I' st"
        using running_skip [OF run Cons] by metis
      with less [OF this(2)] show ?thesis by (subst dfs_loop.simps) (simp add: stk)
    qed
  next
    case Nil
    from running_leave [OF run Nil] obtain I' st' where
      l: "dfs_step S r test enter leave u I st = Inr (if y = [] then None else Some (hd y), I', st')"
      "inv (set (y @ u # L)) (u # L) st'" "it_ok S I'" "dfs_order (edge S el A) r y (u # L)" "y = [] \<longleftrightarrow> u = r"
      "y \<noteq> [] \<Longrightarrow> running I0 rest y (u # L) I' st'"
      "resets \<Longrightarrow> \<forall>v \<in> set (u # L). it_current I' ! v = NoArc" "\<forall>v. v \<notin> set (y @ u # L) \<longrightarrow> it_current I' ! v = it_current I0 ! v"
      by metis
    show ?thesis
    proof (cases "y = []")
      case True
      then have "dfs_loop S r test enter leave (hd stk) I st = Some (Inr (I', st'))" using l(1) by (subst dfs_loop.simps) (simp add: stk)
      then show ?thesis using True l by (intro exI [of _ I'] exI [of _ st'] exI [of _ "u # L"]) auto
    next
      case False
      with less.hyps [OF work_leave [OF fin uA] l(6)] l(1) show ?thesis by (subst dfs_loop.simps) (simp add: stk)
    qed
  qed
qed

text \<open>The result of a search from its root, with an investigator that is at the start for the nodes in \<open>A\<close>.\<close>

lemma search_returns:
  assumes "inv {r} [] st" "it_ok S I" "\<And>v. v \<in> A \<Longrightarrow> it_current I ! v = NoArc"
  obtains I' st' L where "dfs_loop S r test enter leave r I st = Some (Inr (I', st'))" "inv (set L) L st'"
    "distinct L" "set L = {z. (edge S el A)\<^sup>*\<^sup>* r z}" "left_order (edge S el A) {} L" "set L \<subseteq> A"
    "it_ok S I'" "resets \<longrightarrow> (\<forall>v \<in> set L. it_current I' ! v = NoArc)" "\<forall>v. v \<notin> set L \<longrightarrow> it_current I' ! v = it_current I ! v"
proof -
  note r = frame_law [OF assms(1), THEN conjunct2, THEN conjunct2]
  have "running I (node_arcs S) [r] [] I st"
    using assms r dfs_order_start by (auto simp: running_def unread_fresh)
  from running_returns [OF this] obtain I' st' L where
    l: "dfs_loop S r test enter leave r I st = Some (Inr (I', st'))" "dfs_order (edge S el A) r [] L" "r \<in> set L"
    "inv (set L) L st'" "it_ok S I'" "resets \<longrightarrow> (\<forall>v \<in> set L. it_current I' ! v = NoArc)"
    "\<forall>v. v \<notin> set L \<longrightarrow> it_current I' ! v = it_current I ! v" by auto
  note d = dfs_order_done [OF l(2,3)]
  have "set L \<subseteq> A" using d(2) edge_reaches [of S el A r] r by auto
  then show thesis using that [of I' st' L] l d by blast
qed

end

end
