(* ===== verification/Components.thy ===== *)
theory Components
  imports Depth_First Breadth_First
begin

text \<open>
  Connected and strongly connected components (\<open>abstractMixedGraph::Connected\<close> and
  \<open>abstractMixedGraph::StronglyConnected\<close> in \<^verbatim>\<open>lib_src/solveComponents.cpp\<close>), with the configuration in which tracing is compiled
  in: the predecessor labels of a search are reset from the stack \<open>Recovery\<close>. The node colours are the components. Both methods
  interpret the contract of the depth first search.
\<close>

section \<open>Connected components\<close>

definition conn_test :: "sparse \<Rightarrow> nat \<Rightarrow> nat \<Rightarrow> nat \<Rightarrow> dfs_state \<Rightarrow> bool result" where
  "conn_test S r a v st =
     (if sp_UCap S a > 0
      then if v \<ge> length (df_pred st) then Inl OutOfBounds else Inr (df_pred st ! v = NoArc \<and> v \<noteq> r)
      else Inr False)"

definition conn_enter :: "nat \<Rightarrow> nat \<Rightarrow> dfs_state \<Rightarrow> dfs_state" where
  "conn_enter a v st = st\<lparr>df_pred := (df_pred st)[v := a]\<rparr>"

definition conn_leave :: "nat \<Rightarrow> nat \<Rightarrow> iGraph \<Rightarrow> dfs_state \<Rightarrow> (iGraph \<times> dfs_state) result" where
  "conn_leave i u I st =
     (if u \<ge> length (df_nodeColour st) then Inl OutOfBounds
      else Inr (I, st\<lparr>df_nodeColour := (df_nodeColour st)[u := i]\<rparr>))"

definition conn_root :: "sparse \<Rightarrow> nat \<Rightarrow> nat \<times> iGraph \<times> dfs_state \<Rightarrow> (nat \<times> iGraph \<times> dfs_state) result option" where
  "conn_root S r = (\<lambda>(i, I, st).
     if df_nodeColour st ! r \<noteq> NoNode then Some (Inr (i, I, st))
     else obind (dfs_loop S r (conn_test S r) conn_enter (conn_leave i) r I st) (\<lambda>(I, st). Some (Inr (Suc i, I, st))))"

text \<open>The result: the value returned, the colours and the predecessors.\<close>

definition sp_Connected :: "sparse \<Rightarrow> (bool \<times> nat list \<times> nat list) result option" where
  "sp_Connected S =
     obind (ofold (conn_root S) [0..<sp_nAct S]
             (0, iGraph_new S, \<lparr>df_nodeColour = replicate (sp_nAct S) NoNode, df_pred = replicate (sp_nAct S) NoArc\<rparr>))
       (\<lambda>(i, I, st). Some (Inr (i \<le> 1, df_nodeColour st, df_pred st)))"

section \<open>Strongly connected components\<close>

record scc_state = dfs_state +
  sc_marked :: "bool list"
  sc_S :: static_stack
  sc_Recovery :: static_stack

text \<open>The search against the direction of the arcs.\<close>

definition back_test :: "sparse \<Rightarrow> nat \<Rightarrow> nat \<Rightarrow> nat \<Rightarrow> scc_state \<Rightarrow> bool result" where
  "back_test S r a v st =
     (if sp_UCap S (flip a) > 0 \<and> \<not> sp_Blocking S (flip a)
      then if v \<ge> length (df_pred st) \<or> v \<ge> length (df_nodeColour st) then Inl OutOfBounds
           else Inr (df_pred st ! v = NoArc \<and> df_nodeColour st ! v = NoNode \<and> v \<noteq> r)
      else Inr False)"

definition back_enter :: "nat \<Rightarrow> nat \<Rightarrow> scc_state \<Rightarrow> scc_state" where
  "back_enter a v st = st\<lparr>df_pred := (df_pred st)[v := a]\<rparr>"

definition back_leave :: "nat \<Rightarrow> iGraph \<Rightarrow> scc_state \<Rightarrow> (iGraph \<times> scc_state) result" where
  "back_leave u I st =
     rbind (staticStack_Insert1 (sc_S st) u) (\<lambda>Q.
     rbind (staticStack_Insert1 (sc_Recovery st) u) (\<lambda>R.
     rbind (iGraph_Reset1 I u) (\<lambda>I'.
       Inr (I', st\<lparr>sc_S := Q, sc_Recovery := R, sc_marked := (sc_marked st)[u := True]\<rparr>))))"

partial_function (option) recover_loop :: "scc_state \<Rightarrow> scc_state result option" where
  "recover_loop st =
     (if staticStack_Empty (sc_Recovery st) then Some (Inr st)
      else case staticStack_Delete (sc_Recovery st) of
          Inl e \<Rightarrow> Some (Inl e)
        | Inr p \<Rightarrow> recover_loop (st\<lparr>sc_Recovery := snd p, df_pred := (df_pred st)[fst p := NoArc]\<rparr>))"

text \<open>The search in the direction of the arcs.\<close>

definition for_test :: "sparse \<Rightarrow> nat \<Rightarrow> nat \<Rightarrow> nat \<Rightarrow> scc_state \<Rightarrow> bool result" where
  "for_test S s a v st =
     (if sp_UCap S a > 0 \<and> \<not> sp_Blocking S a
      then if v \<ge> length (df_nodeColour st) \<or> v \<ge> length (sc_marked st) then Inl OutOfBounds
           else Inr (df_nodeColour st ! v = NoNode \<and> sc_marked st ! v \<and> v \<noteq> s)
      else Inr False)"

definition for_enter :: "nat \<Rightarrow> nat \<Rightarrow> scc_state \<Rightarrow> scc_state" where
  "for_enter a v st = st\<lparr>df_pred := (df_pred st)[v := a], sc_marked := (sc_marked st)[v := False]\<rparr>"

definition for_leave :: "nat \<Rightarrow> nat \<Rightarrow> iGraph \<Rightarrow> scc_state \<Rightarrow> (iGraph \<times> scc_state) result" where
  "for_leave i u I st =
     rbind (staticStack_Insert1 (sc_Recovery st) u) (\<lambda>R.
     rbind (iGraph_Reset1 I u) (\<lambda>I'.
       Inr (I', st\<lparr>sc_Recovery := R, df_nodeColour := (df_nodeColour st)[u := i]\<rparr>)))"

text \<open>One node from the stack \<open>S\<close>, and the loop until it is empty.\<close>

definition scc_pop :: "sparse \<Rightarrow> nat \<times> iGraph \<times> scc_state \<Rightarrow> (nat \<times> iGraph \<times> scc_state) result option" where
  "scc_pop S = (\<lambda>(i, I, st).
     obind (Some (staticStack_Delete (sc_S st))) (\<lambda>(s, Q).
       let st = st\<lparr>sc_S := Q\<rparr>
       in if df_nodeColour st ! s \<noteq> NoNode \<or> \<not> sc_marked st ! s then Some (Inr (i, I, st))
          else obind (dfs_loop S s (for_test S s) for_enter (for_leave i) s I st) (\<lambda>(I, st).
               obind (recover_loop st) (\<lambda>st. Some (Inr (Suc i, I, st))))))"

partial_function (option) scc_pops :: "sparse \<Rightarrow> nat \<times> iGraph \<times> scc_state \<Rightarrow> (nat \<times> iGraph \<times> scc_state) result option" where
  "scc_pops S p =
     (if staticStack_Empty (sc_S (snd (snd p))) then Some (Inr p)
      else obind (scc_pop S p) (scc_pops S))"

definition scc_root :: "sparse \<Rightarrow> nat \<Rightarrow> nat \<times> iGraph \<times> scc_state \<Rightarrow> (nat \<times> iGraph \<times> scc_state) result option" where
  "scc_root S r = (\<lambda>(i, I, st).
     if df_nodeColour st ! r \<noteq> NoNode then Some (Inr (i, I, st))
     else obind (dfs_loop S r (back_test S r) back_enter back_leave r I st) (\<lambda>(I, st).
          obind (recover_loop st) (\<lambda>st. scc_pops S (i, I, st))))"

definition sp_COrientation :: "sparse \<Rightarrow> bool" where
  "sp_COrientation S = fst (attributePool_IsConstant (sp_representation S) TokReprOrientation)"

definition sp_StronglyConnected :: "sparse \<Rightarrow> THandle \<Rightarrow> THandle \<Rightarrow> (bool \<times> nat list \<times> nat list) result option" where
  "sp_StronglyConnected S h h' =
     (if sp_mAct S = 0 \<or> sp_COrientation S \<and> sp_Orientation S 0 = 0 then sp_Connected S
      else
        obind (ofold (scc_root S) [0..<sp_nAct S]
                (0, iGraph_new S, \<lparr>df_nodeColour = replicate (sp_nAct S) NoNode, df_pred = replicate (sp_nAct S) NoArc,
                   sc_marked = replicate (sp_nAct S) False, sc_S = staticStack (sp_nAct S) h,
                   sc_Recovery = staticStack (sp_nAct S) h'\<rparr>))
          (\<lambda>(i, I, st). Some (Inr (i \<le> 1, df_nodeColour st, df_pred st))))"

section \<open>Colourings\<close>

text \<open>The coloured nodes are classes of the relation \<open>Q\<close>, numbered from 0.\<close>

definition colouring :: "nat \<Rightarrow> (nat \<Rightarrow> nat \<Rightarrow> bool) \<Rightarrow> nat list \<Rightarrow> nat \<Rightarrow> bool" where
  "colouring n Q c i \<longleftrightarrow> length c = n \<and> (\<forall>v < n. c ! v = NoNode \<or> c ! v < i) \<and> (\<forall>k < i. \<exists>v < n. c ! v = k)
     \<and> (\<forall>u < n. \<forall>v < n. c ! u \<noteq> NoNode \<longrightarrow> (Q u v \<longleftrightarrow> c ! v = c ! u)) \<and> i \<le> NoNode"

lemma colouring_new: "colouring n Q (replicate n NoNode) 0"
  by (simp add: colouring_def)

lemma colouring_free: "colouring n Q c i \<Longrightarrow> Q v u \<Longrightarrow> u < n \<Longrightarrow> v < n \<Longrightarrow> c ! u = NoNode \<Longrightarrow> c ! v = NoNode"
  unfolding colouring_def by metis

lemma colouring_few:
  assumes "colouring n Q c i" "s < n" "c ! s = NoNode" "n \<le> NoNode"
  shows "i < NoNode"
proof -
  have "{..<i} \<subseteq> (!) c ` ({..<n} - {s})"
  proof
    fix k assume "k \<in> {..<i}"
    then obtain v where "v < n" "c ! v = k" "k < NoNode" using assms(1) unfolding colouring_def by (metis lessThan_iff less_le_trans)
    then show "k \<in> (!) c ` ({..<n} - {s})" using assms(3) by auto
  qed
  from card_mono [OF _ this] have "i \<le> card ((!) c ` ({..<n} - {s}))" by simp
  also have "\<dots> \<le> card ({..<n} - {s})" by (rule card_image_le) simp
  also have "\<dots> < n" using assms(2) by simp
  finally show ?thesis using assms(4) by simp
qed

lemma colouring_extend:
  assumes c: "colouring n Q c i" and s: "s < n" "c ! s = NoNode" "n \<le> NoNode"
    and Q: "Q s s" "symp Q" "transp Q"
    and c': "length c' = n" "\<And>v. v < n \<Longrightarrow> c' ! v = (if Q s v then i else c ! v)"
  shows "colouring n Q c' (Suc i)"
proof -
  note i = colouring_few [OF c s]
  have un: "c ! v = NoNode" if "Q s v" "v < n" for v
    using c that s Q(2) unfolding colouring_def symp_def by metis
  have "Q u v \<longleftrightarrow> c' ! v = c' ! u" if uv: "u < n" "v < n" "c' ! u \<noteq> NoNode" for u v
  proof (cases "Q s u")
    case True
    then have "Q u v \<longleftrightarrow> Q s v" using Q(2,3) by (meson sympD transpD)
    moreover have "c ! v \<noteq> i" using c i uv(2) by (auto simp: colouring_def)
    ultimately show ?thesis using True uv c'(2) by auto
  next
    case False
    then have nq: "\<not> (Q u v \<and> Q s v)" using Q(2,3) by (meson sympD transpD)
    have cu: "c ! u \<noteq> NoNode" "c' ! u = c ! u" using False uv c'(2) by auto
    then have "Q u v \<longleftrightarrow> c ! v = c ! u" "c ! u \<noteq> i" using c uv i by (auto simp: colouring_def)
    then show ?thesis using nq cu uv(2) c'(2) by (metis un)
  qed
  moreover have "\<exists>v < n. c' ! v = k" if "k < Suc i" for k
  proof (cases "k = i")
    case True
    then show ?thesis using s(1) Q(1) c'(2) by auto
  next
    case False
    then obtain v where v: "v < n" "c ! v = k" using c \<open>k < Suc i\<close> by (auto simp: colouring_def less_Suc_eq)
    then have "\<not> Q s v" using un i that by auto
    then show ?thesis using v c'(2) by auto
  qed
  ultimately show ?thesis using c c' i unfolding colouring_def by (auto simp: less_Suc_eq)
qed

lemma edge_closed_reach:
  assumes "A \<subseteq> B" "\<And>u v. u \<in> A \<Longrightarrow> edge S el B u v \<Longrightarrow> v \<in> A" "r \<in> A"
  shows "(edge S el A)\<^sup>*\<^sup>* r z \<longleftrightarrow> (edge S el B)\<^sup>*\<^sup>* r z"
proof
  show "(edge S el A)\<^sup>*\<^sup>* r z" if "(edge S el B)\<^sup>*\<^sup>* r z"
    using that
  proof (induction rule: rtranclp_induct)
    case (step y z)
    then have "y \<in> A" using edge_reaches [OF step.IH assms(3)] by simp
    then have "edge S el A y z" using step.hyps(2) assms(2) [of y z] by (auto simp: edge_def)
    then show ?case using step.IH by (rule rtranclp.rtrancl_into_rtrancl [rotated])
  qed simp
  show "(edge S el B)\<^sup>*\<^sup>* r z" if "(edge S el A)\<^sup>*\<^sup>* r z"
    using that by (rule rtranclp_mono [THEN predicate2D, rotated]) (use assms(1) in \<open>auto simp: edge_def\<close>)
qed

section \<open>Connected components are found\<close>

definition open_arc :: "sparse \<Rightarrow> nat \<Rightarrow> bool" where
  "open_arc S a \<longleftrightarrow> sp_UCap S a > 0"

lemma open_arc_flip [simp]: "open_arc S (flip a) = open_arc S a"
  by (simp add: open_arc_def sp_UCap_def)

lemma edge_open_sym: "edge S (open_arc S) A u v \<Longrightarrow> edge S (open_arc S) A v u"
  unfolding edge_def by (metis flip_flip flip_lt open_arc_flip)

definition conn_inv :: "sparse \<Rightarrow> nat \<Rightarrow> nat set \<Rightarrow> nat \<Rightarrow> nat list \<Rightarrow> nat set \<Rightarrow> nat list \<Rightarrow> dfs_state \<Rightarrow> bool" where
  "conn_inv S r A i c V L st \<longleftrightarrow> sp_inv S \<and> A \<subseteq> {..<sp_nAct S} \<and> r \<in> V \<and> V \<subseteq> A
     \<and> (\<forall>u v. u \<in> A \<longrightarrow> edge S (open_arc S) {..<sp_nAct S} u v \<longrightarrow> v \<in> A)
     \<and> length (df_pred st) = sp_nAct S \<and> length (df_nodeColour st) = sp_nAct S
     \<and> (\<forall>v \<in> A. df_pred st ! v = NoArc \<longleftrightarrow> v \<notin> V \<or> v = r)
     \<and> (\<forall>v < sp_nAct S. df_nodeColour st ! v = (if v \<in> set L then i else c ! v))"

lemma conn_inv_facts:
  assumes "conn_inv S r A i c V L st"
  shows "length (df_nodeColour st) = sp_nAct S" "length (df_pred st) = sp_nAct S"
    and "\<And>v. v < sp_nAct S \<Longrightarrow> df_nodeColour st ! v = (if v \<in> set L then i else c ! v)"
    and "\<And>v. v \<in> A \<Longrightarrow> v \<notin> V \<Longrightarrow> df_pred st ! v = NoArc"
  using assms by (simp_all add: conn_inv_def)

interpretation conn: dfs_search S r A "open_arc S" "conn_test S r" conn_enter "conn_leave i" "conn_inv S r A i c" False
  for S r A i c
proof unfold_locales
  fix V L st
  assume inv: "conn_inv S r A i c V L st"
  then show "sp_inv S \<and> A \<subseteq> {..<sp_nAct S} \<and> r \<in> A" "length (df_pred st) = sp_nAct S" by (auto simp: conn_inv_def)
  fix a assume a: "a < 2 * sp_mAct S" "sp_SN S ! a \<in> V"
  let ?v = "sp_SN S ! flip a"
  have u: "sp_SN S ! a \<in> A" "sp_SN S ! a < sp_nAct S" using inv a(2) by (auto simp: conn_inv_def)
  have cl: "?v \<in> A" if "open_arc S a" "?v < sp_nAct S"
  proof -
    have "edge S (open_arc S) {..<sp_nAct S} (sp_SN S ! a) ?v" using that a(1) u by (auto simp: edge_def)
    then show ?thesis using inv u(1) unfolding conn_inv_def by blast
  qed
  show "conn_test S r a ?v st = Inr (open_arc S a \<and> ?v \<in> A - V)" if "?v < sp_nAct S"
    using that cl inv by (auto simp: conn_test_def conn_inv_def open_arc_def)
  fix v assume v: "v = ?v" "v \<in> A - V"
  have "v < sp_nAct S" using v(2) inv by (auto simp: conn_inv_def)
  moreover have "a \<noteq> NoArc" using a(1) shape_lt(1) [OF sp_inv_shape] inv by (auto simp: conn_inv_def)
  moreover have "v \<noteq> r" using v(2) inv by (auto simp: conn_inv_def)
  ultimately show "conn_inv S r A i c (insert v V) L (conn_enter a v st) \<and> df_pred (conn_enter a v st) = (df_pred st)[v := a]"
    using inv v(2) by (auto simp: conn_inv_def conn_enter_def nth_list_update)
next
  fix V L st u I
  assume inv: "conn_inv S r A i c V L st" and u: "u \<in> V"
  then have "u < sp_nAct S" by (auto simp: conn_inv_def)
  then show "\<exists>st'. conn_leave i u I st = Inr (if False then I\<lparr>it_current := (it_current I)[u := NoArc]\<rparr> else I, st')
      \<and> conn_inv S r A i c V (u # L) st' \<and> df_pred st' = df_pred st"
    using inv by (auto simp: conn_inv_def conn_leave_def nth_list_update)
qed

text \<open>After the first roots.\<close>

definition conn_done :: "sparse \<Rightarrow> nat \<Rightarrow> nat \<times> iGraph \<times> dfs_state \<Rightarrow> bool" where
  "conn_done S r = (\<lambda>(i, I, st). colouring (sp_nAct S) (edge S (open_arc S) {..<sp_nAct S})\<^sup>*\<^sup>* (df_nodeColour st) i
     \<and> (\<forall>v < r. df_nodeColour st ! v \<noteq> NoNode) \<and> it_ok S I \<and> length (df_pred st) = sp_nAct S
     \<and> (\<forall>v < sp_nAct S. df_nodeColour st ! v = NoNode \<longrightarrow> df_pred st ! v = NoArc \<and> it_current I ! v = NoArc))"

lemma symp_rtranclp_edge: "symp (edge S (open_arc S) A)\<^sup>*\<^sup>*"
  by (rule symp_rtranclp) (simp add: symp_def edge_open_sym)

lemma conn_root_ok:
  assumes S: "sp_inv S" and r: "r < sp_nAct S" and inv: "conn_done S r p"
  shows "oret (\<lambda>e. False) (conn_done S (Suc r)) (conn_root S r p)"
proof -
  obtain i I st where p: "p = (i, I, st)" by (cases p) auto
  let ?c = "df_nodeColour st" and ?n = "sp_nAct S" and ?E = "edge S (open_arc S) {..<sp_nAct S}"
  note d = inv [unfolded p conn_done_def split]
  show ?thesis
  proof (cases "?c ! r = NoNode")
    case False
    then show ?thesis using d by (auto simp: p conn_root_def conn_done_def less_Suc_eq)
  next
    case True
    let ?A = "{v. v < ?n \<and> ?c ! v = NoNode}"
    have col: "colouring ?n ?E\<^sup>*\<^sup>* ?c i" using d by blast
    have cl: "v \<in> ?A" if "u \<in> ?A" "?E u v" for u v
    proof -
      have v: "v < ?n" using that by (simp add: edge_def)
      have "?E\<^sup>*\<^sup>* v u" using edge_open_sym [OF that(2)] by blast
      from colouring_free [OF col this] show ?thesis using that(1) v by simp
    qed
    have f: "length ?c = ?n" "length (df_pred st) = ?n" "it_ok S I" "\<And>v. v \<in> ?A \<Longrightarrow> df_pred st ! v = NoArc" "\<And>v. v \<in> ?A \<Longrightarrow> it_current I ! v = NoArc"
      using d by (auto simp: colouring_def)
    have "conn_inv S r ?A i ?c {r} [] st"
      unfolding conn_inv_def
    proof (intro conjI)
      show "\<forall>u v. u \<in> ?A \<longrightarrow> ?E u v \<longrightarrow> v \<in> ?A" using cl by blast
      show "\<forall>v \<in> ?A. df_pred st ! v = NoArc \<longleftrightarrow> v \<notin> {r} \<or> v = r" using f(4) by blast
    qed (use S r True f(1,2) in auto)
    note s = conn.search_returns [OF this f(3,5)]
    obtain I' st' L where
      l: "dfs_loop S r (conn_test S r) conn_enter (conn_leave i) r I st = Some (Inr (I', st'))" "conn_inv S r ?A i ?c (set L) L st'"
      "set L = {z. (edge S (open_arc S) ?A)\<^sup>*\<^sup>* r z}" "it_ok S I'" "\<forall>v. v \<notin> set L \<longrightarrow> it_current I' ! v = it_current I ! v"
      by (rule s)
    have L: "v \<in> set L \<longleftrightarrow> ?E\<^sup>*\<^sup>* r v" for v
      unfolding l(3) mem_Collect_eq [of v]
    proof (rule edge_closed_reach)
      show "r \<in> ?A" using r True by simp
      show "w \<in> ?A" if "u \<in> ?A" "?E u w" for u w using that by (rule cl)
    qed auto
    have n: "?n \<le> NoNode" using sp_inv_shape [OF S] by (simp add: sp_shape_def)
    note st' = conn_inv_facts [OF l(2)]
    note i = colouring_few [OF col r True n]
    have "colouring ?n ?E\<^sup>*\<^sup>* (df_nodeColour st') (Suc i)"
    proof (rule colouring_extend [OF col r True n])
      show "df_nodeColour st' ! v = (if ?E\<^sup>*\<^sup>* r v then i else ?c ! v)" if "v < ?n" for v using st'(3) [OF that] L [of v] by simp
    qed (simp_all add: symp_rtranclp_edge st')
    moreover have "df_nodeColour st' ! v \<noteq> NoNode" if "v < Suc r" for v
    proof -
      have "v < ?n" using that r by simp
      moreover have "r \<in> set L" using L by simp
      moreover have "v < r \<Longrightarrow> ?c ! v \<noteq> NoNode" using d by blast
      ultimately show ?thesis using that st'(3) [of v] i by (auto simp: less_Suc_eq)
    qed
    moreover have "df_pred st' ! v = NoArc \<and> it_current I' ! v = NoArc" if v: "v < ?n" "df_nodeColour st' ! v = NoNode" for v
    proof -
      have "v \<notin> set L" "v \<in> ?A" using v st'(3) [of v] i by (auto split: if_splits)
      then show ?thesis using st'(4) l(5) f(5) by metis
    qed
    ultimately have "conn_done S (Suc r) (Suc i, I', st')" using st'(2) l(4) by (simp add: conn_done_def)
    then show ?thesis using l(1) True by (simp add: p conn_root_def)
  qed
qed

lemma Connected_ok:
  assumes S: "sp_inv S"
  shows "oret (\<lambda>e. False) (\<lambda>(b, c, p). \<exists>i. b = (i \<le> 1) \<and> colouring (sp_nAct S) (edge S (open_arc S) {..<sp_nAct S})\<^sup>*\<^sup>* c i
    \<and> (\<forall>v < sp_nAct S. c ! v \<noteq> NoNode)) (sp_Connected S)"
proof -
  let ?st = "(0, iGraph_new S, \<lparr>df_nodeColour = replicate (sp_nAct S) NoNode, df_pred = replicate (sp_nAct S) NoArc\<rparr>)"
  have "conn_done S 0 ?st" by (simp add: conn_done_def colouring_new iGraph_new_def it_ok_def)
  then have "oret (\<lambda>e. False) (conn_done S (sp_nAct S)) (ofold (conn_root S) [0..<sp_nAct S] ?st)"
    by (intro oret_upt [where I = "conn_done S"]) (auto intro: conn_root_ok [OF S])
  then show ?thesis unfolding sp_Connected_def by (rule oret_seq) (auto simp: conn_done_def)
qed

section \<open>The searches for strongly connected components\<close>

definition free_arc :: "sparse \<Rightarrow> nat \<Rightarrow> bool" where
  "free_arc S a \<longleftrightarrow> sp_UCap S a > 0 \<and> \<not> sp_Blocking S a"

definition back_arc :: "sparse \<Rightarrow> nat \<Rightarrow> bool" where
  "back_arc S a \<longleftrightarrow> free_arc S (flip a)"

lemma edge_back: "edge S (back_arc S) A u v \<longleftrightarrow> edge S (free_arc S) A v u"
  unfolding edge_def back_arc_def by (metis flip_flip flip_lt)

text \<open>A stack that nobody shares and its items.\<close>

definition holds :: "nat \<Rightarrow> static_stack \<Rightarrow> nat list \<Rightarrow> bool" where
  "holds n Q xs \<longleftrightarrow> ss_inv Q \<and> ss_items Q = xs \<and> ss_n Q = n"

lemma holds_Insert: "holds n Q xs \<Longrightarrow> u < n \<Longrightarrow> u \<notin> set xs \<Longrightarrow> \<exists>Q'. staticStack_Insert1 Q u = Inr Q' \<and> holds n Q' (u # xs)"
  using sstack.seq_ins [of Q u] by (auto simp: holds_def)

lemma holds_Delete: "holds n Q (u # xs) \<Longrightarrow> \<exists>Q'. staticStack_Delete Q = Inr (u, Q') \<and> holds n Q' xs"
  using sstack.seq_del_Cons [of Q u xs] by (auto simp: holds_def)

lemma holds_Empty: "holds n Q xs \<Longrightarrow> staticStack_Empty Q \<longleftrightarrow> xs = []"
  using sstack.seq_empty [of Q] by (auto simp: holds_def)

lemma holds_new: "holds n (staticStack n h) []"
proof -
  have "ss_rep (staticStack n h) []" by (simp add: ss_rep_def staticStack_def)
  then show ?thesis using ss_rep_items [of "staticStack n h" "[]"] ss_invI [of "staticStack n h" "[]"] by (auto simp: holds_def staticStack_def)
qed

definition back_inv :: "sparse \<Rightarrow> nat \<Rightarrow> nat set \<Rightarrow> nat list \<Rightarrow> nat set \<Rightarrow> nat list \<Rightarrow> scc_state \<Rightarrow> bool" where
  "back_inv S r A c V L st \<longleftrightarrow> sp_inv S \<and> r \<in> V \<and> V \<subseteq> A \<and> A = {v. v < sp_nAct S \<and> c ! v = NoNode} \<and> set L \<subseteq> V
     \<and> length (df_pred st) = sp_nAct S \<and> df_nodeColour st = c \<and> length c = sp_nAct S \<and> length (sc_marked st) = sp_nAct S
     \<and> (\<forall>v < sp_nAct S. df_pred st ! v = NoArc \<longleftrightarrow> v \<notin> V \<or> v = r) \<and> (\<forall>v \<in> A. sc_marked st ! v \<longleftrightarrow> v \<in> set L)
     \<and> holds (sp_nAct S) (sc_S st) L \<and> holds (sp_nAct S) (sc_Recovery st) L"

interpretation bwd: dfs_search S r A "back_arc S" "back_test S r" back_enter back_leave "back_inv S r A c" True
  for S r A c
proof unfold_locales
  fix V L st
  assume inv: "back_inv S r A c V L st"
  then show "sp_inv S \<and> A \<subseteq> {..<sp_nAct S} \<and> r \<in> A" "length (df_pred st) = sp_nAct S" by (auto simp: back_inv_def)
  fix a assume a: "a < 2 * sp_mAct S"
  let ?v = "sp_SN S ! flip a"
  show "back_test S r a ?v st = Inr (back_arc S a \<and> ?v \<in> A - V)" if "?v < sp_nAct S"
    using that inv by (auto simp: back_test_def back_inv_def back_arc_def free_arc_def)
  fix v assume v: "v = ?v" "v \<in> A - V"
  have "v < sp_nAct S" "v \<noteq> r" using v(2) inv by (auto simp: back_inv_def)
  moreover have "a \<noteq> NoArc" using a shape_lt(1) [OF sp_inv_shape] inv by (auto simp: back_inv_def)
  ultimately show "back_inv S r A c (insert v V) L (back_enter a v st) \<and> df_pred (back_enter a v st) = (df_pred st)[v := a]"
    using inv v(2) by (auto simp: back_inv_def back_enter_def nth_list_update)
next
  fix V L st u I
  assume inv: "back_inv S r A c V L st" and u: "u \<in> V" "u \<notin> set L" and I: "it_ok S I"
  then have un: "u < sp_nAct S" "u \<in> A" by (auto simp: back_inv_def)
  obtain Q R where "staticStack_Insert1 (sc_S st) u = Inr Q" "holds (sp_nAct S) Q (u # L)"
    "staticStack_Insert1 (sc_Recovery st) u = Inr R" "holds (sp_nAct S) R (u # L)"
    using holds_Insert [OF _ un(1) u(2)] inv unfolding back_inv_def by metis
  then show "\<exists>st'. back_leave u I st = Inr (if True then I\<lparr>it_current := (it_current I)[u := NoArc]\<rparr> else I, st')
      \<and> back_inv S r A c V (u # L) st' \<and> df_pred st' = df_pred st"
    using inv u un I by (auto simp: back_inv_def back_leave_def nth_list_update iGraph_Reset1_def it_ok_def)
qed

definition for_inv :: "sparse \<Rightarrow> nat \<Rightarrow> nat set \<Rightarrow> nat \<Rightarrow> nat list \<Rightarrow> bool list \<Rightarrow> static_stack \<Rightarrow> nat set \<Rightarrow> nat list \<Rightarrow> scc_state \<Rightarrow> bool" where
  "for_inv S s A i c mk Q V L st \<longleftrightarrow> sp_inv S \<and> s \<in> V \<and> V \<subseteq> A \<and> A = {v. v < sp_nAct S \<and> c ! v = NoNode \<and> mk ! v} \<and> set L \<subseteq> V
     \<and> i \<noteq> NoNode \<and> length (df_pred st) = sp_nAct S \<and> length (df_nodeColour st) = sp_nAct S \<and> length (sc_marked st) = sp_nAct S
     \<and> (\<forall>v < sp_nAct S. v \<notin> V \<longrightarrow> df_pred st ! v = NoArc)
     \<and> (\<forall>v < sp_nAct S. df_nodeColour st ! v = (if v \<in> set L then i else c ! v))
     \<and> (\<forall>v < sp_nAct S. sc_marked st ! v \<longleftrightarrow> mk ! v \<and> (v \<notin> V \<or> v = s))
     \<and> sc_S st = Q \<and> holds (sp_nAct S) (sc_Recovery st) L"

interpretation fwd: dfs_search S s A "free_arc S" "for_test S s" for_enter "for_leave i" "for_inv S s A i c mk Q" True
  for S s A i c mk Q
proof unfold_locales
  fix V L st
  assume inv: "for_inv S s A i c mk Q V L st"
  then show "sp_inv S \<and> A \<subseteq> {..<sp_nAct S} \<and> s \<in> A" "length (df_pred st) = sp_nAct S" by (auto simp: for_inv_def)
  fix a assume a: "a < 2 * sp_mAct S"
  let ?v = "sp_SN S ! flip a"
  show "for_test S s a ?v st = Inr (free_arc S a \<and> ?v \<in> A - V)" if "?v < sp_nAct S"
    using that inv by (auto simp: for_test_def for_inv_def free_arc_def)
  fix v assume v: "v = ?v" "v \<in> A - V"
  have "v < sp_nAct S" "v \<noteq> s" using v(2) inv by (auto simp: for_inv_def)
  then show "for_inv S s A i c mk Q (insert v V) L (for_enter a v st) \<and> df_pred (for_enter a v st) = (df_pred st)[v := a]"
    using inv v(2) by (auto simp: for_inv_def for_enter_def nth_list_update)
next
  fix V L st u I
  assume inv: "for_inv S s A i c mk Q V L st" and u: "u \<in> V" "u \<notin> set L" and I: "it_ok S I"
  then have un: "u < sp_nAct S" "u \<in> A" by (auto simp: for_inv_def)
  obtain R where "staticStack_Insert1 (sc_Recovery st) u = Inr R" "holds (sp_nAct S) R (u # L)"
    using holds_Insert [OF _ un(1) u(2)] inv unfolding for_inv_def by metis
  then show "\<exists>st'. for_leave i u I st = Inr (if True then I\<lparr>it_current := (it_current I)[u := NoArc]\<rparr> else I, st')
      \<and> for_inv S s A i c mk Q V (u # L) st' \<and> df_pred st' = df_pred st"
    using inv u un I by (auto simp: for_inv_def for_leave_def nth_list_update iGraph_Reset1_def it_ok_def)
qed

lemma recover_loop_ok:
  assumes "holds n (sc_Recovery st) xs" "length (df_pred st) = n"
  shows "\<exists>R p. recover_loop st = Some (Inr (st\<lparr>sc_Recovery := R, df_pred := p\<rparr>)) \<and> holds n R [] \<and> length p = n
    \<and> (\<forall>v < n. p ! v = (if v \<in> set xs then NoArc else df_pred st ! v))"
  using assms
proof (induction xs arbitrary: st)
  case Nil
  then have "recover_loop st = Some (Inr (st\<lparr>sc_Recovery := sc_Recovery st, df_pred := df_pred st\<rparr>))"
    using holds_Empty [OF Nil(1)] by (subst recover_loop.simps) simp
  then show ?case using Nil by (intro exI [of _ "sc_Recovery st"] exI [of _ "df_pred st"]) simp
next
  case (Cons u xs)
  obtain Q where Q: "staticStack_Delete (sc_Recovery st) = Inr (u, Q)" "holds n Q xs" using holds_Delete [OF Cons.prems(1)] by blast
  let ?st = "st\<lparr>sc_Recovery := Q, df_pred := (df_pred st)[u := NoArc]\<rparr>"
  have "recover_loop st = recover_loop ?st" using holds_Empty [OF Cons.prems(1)] Q by (subst recover_loop.simps) simp
  moreover obtain R p where "recover_loop ?st = Some (Inr (?st\<lparr>sc_Recovery := R, df_pred := p\<rparr>))" "holds n R []" "length p = n"
    "\<forall>v < n. p ! v = (if v \<in> set xs then NoArc else (df_pred st)[u := NoArc] ! v)"
    using Cons.IH [of ?st] Q Cons.prems(2) by auto
  ultimately show ?case using Cons.prems(2) by (intro exI [of _ R] exI [of _ p]) (auto simp: nth_list_update)
qed

section \<open>Strongly connected components are found\<close>

definition mutual :: "sparse \<Rightarrow> nat \<Rightarrow> nat \<Rightarrow> bool" where
  "mutual S u v \<longleftrightarrow> (edge S (free_arc S) {..<sp_nAct S})\<^sup>*\<^sup>* u v \<and> (edge S (free_arc S) {..<sp_nAct S})\<^sup>*\<^sup>* v u"

lemma mutual_equiv: "mutual S u u" "symp (mutual S)" "transp (mutual S)"
  by (auto simp: mutual_def symp_def transp_def intro: rtranclp_trans)

lemma edge_back_reach: "(edge S (back_arc S) A)\<^sup>*\<^sup>* u v \<longleftrightarrow> (edge S (free_arc S) A)\<^sup>*\<^sup>* v u"
proof -
  have "edge S (back_arc S) A = (edge S (free_arc S) A)\<inverse>\<inverse>" by (auto simp: fun_eq_iff edge_back)
  then show ?thesis by (simp add: rtranclp_conversep)
qed

lemma edge_mono: "(edge S el A)\<^sup>*\<^sup>* u v \<Longrightarrow> A \<subseteq> B \<Longrightarrow> (edge S el B)\<^sup>*\<^sup>* u v"
  by (erule rtranclp_mono [THEN predicate2D, rotated]) (auto simp: edge_def)

lemma edge_restrict: "edge S el A u v \<Longrightarrow> u \<in> B \<Longrightarrow> v \<in> B \<Longrightarrow> edge S el B u v"
  by (simp add: edge_def)

lemma edge_ends: "edge S el {..<n} u v \<Longrightarrow> u < n \<and> v < n"
  by (simp add: edge_def)

text \<open>Walks between nodes of a class do not leave it.\<close>

lemma mutual_walk:
  assumes "mutual S s z" "s < sp_nAct S"
  shows "(edge S (free_arc S) {v. v < sp_nAct S \<and> mutual S s v})\<^sup>*\<^sup>* s z" "(edge S (free_arc S) {v. v < sp_nAct S \<and> mutual S s v})\<^sup>*\<^sup>* z s"
proof -
  let ?F = "edge S (free_arc S) {..<sp_nAct S}" and ?C = "{v. v < sp_nAct S \<and> mutual S s v}"
  have out: "?F\<^sup>*\<^sup>* s z \<Longrightarrow> ?F\<^sup>*\<^sup>* z s \<Longrightarrow> (edge S (free_arc S) ?C)\<^sup>*\<^sup>* s z" for z
  proof (induction rule: rtranclp_induct)
    case (step y z)
    have y: "?F\<^sup>*\<^sup>* y s" using step.hyps(2) step.prems by (rule converse_rtranclp_into_rtranclp)
    have "?F\<^sup>*\<^sup>* s z" using step.hyps by (rule rtranclp.rtrancl_into_rtrancl)
    then have "mutual S s y" "mutual S s z" using step.hyps(1) step.prems y by (simp_all add: mutual_def)
    then have "edge S (free_arc S) ?C y z" using edge_restrict [OF step.hyps(2)] edge_ends [OF step.hyps(2)] by simp
    with step.IH [OF y] show ?case by (rule rtranclp.rtrancl_into_rtrancl)
  qed simp
  have into: "?F\<^sup>*\<^sup>* z s \<Longrightarrow> ?F\<^sup>*\<^sup>* s z \<Longrightarrow> (edge S (free_arc S) ?C)\<^sup>*\<^sup>* z s" for z
  proof (induction rule: converse_rtranclp_induct)
    case (step z y)
    have y: "?F\<^sup>*\<^sup>* s y" using step.prems step.hyps(1) by (rule rtranclp.rtrancl_into_rtrancl)
    have "?F\<^sup>*\<^sup>* z s" using step.hyps by (rule converse_rtranclp_into_rtranclp)
    then have "mutual S s y" "mutual S s z" using step.hyps(2) step.prems y by (simp_all add: mutual_def)
    then have "edge S (free_arc S) ?C z y" using edge_restrict [OF step.hyps(1)] edge_ends [OF step.hyps(1)] by simp
    then show ?case using step.IH [OF y] by (rule converse_rtranclp_into_rtranclp)
  qed simp
  show "(edge S (free_arc S) ?C)\<^sup>*\<^sup>* s z" "(edge S (free_arc S) ?C)\<^sup>*\<^sup>* z s"
    using out into assms(1) by (simp_all add: mutual_def)
qed

text \<open>The search from the last node left whose class is not known yet stays in this class and finds it all.\<close>

lemma class_found:
  assumes L: "left_order (edge S (back_arc S) A) {} L" "distinct L" "set L = {z. (edge S (back_arc S) A)\<^sup>*\<^sup>* r z}" "L = as @ s # ds"
    and A: "A \<subseteq> {..<sp_nAct S}" "r \<in> A"
    and c: "colouring (sp_nAct S) (mutual S) c i" "\<And>v. v < sp_nAct S \<Longrightarrow> c ! v = NoNode \<Longrightarrow> v \<in> A"
    and s: "c ! s = NoNode" "\<And>v. v \<in> set as \<Longrightarrow> c ! v \<noteq> NoNode"
    and M: "M = {v. v < sp_nAct S \<and> c ! v = NoNode \<and> v \<in> set L}"
  shows "(edge S (free_arc S) M)\<^sup>*\<^sup>* s z \<longleftrightarrow> mutual S s z"
proof
  let ?C = "{v. v < sp_nAct S \<and> mutual S s v}" and ?B = "edge S (back_arc S) A"
  have rs: "?B\<^sup>*\<^sup>* r s" using L(3,4) by auto
  have sA: "s < sp_nAct S" using edge_reaches [OF rs A(2)] A(1) by auto
  have C: "c ! v = NoNode" if "v \<in> ?C" for v
    using colouring_free [OF c(1), of v s] that sA s(1) mutual_equiv(2) by (auto dest: sympD)
  then have CA: "?C \<subseteq> A" using c(2) by auto
  have "v \<in> set L" if v: "v \<in> ?C" for v
  proof -
    have "(edge S (back_arc S) ?C)\<^sup>*\<^sup>* s v" using mutual_walk(2) [of S s v] v sA by (simp add: edge_back_reach)
    then have "?B\<^sup>*\<^sup>* s v" using CA by (rule edge_mono)
    with rs have "?B\<^sup>*\<^sup>* r v" by (rule rtranclp_trans)
    then show ?thesis by (simp add: L(3))
  qed
  then have "?C \<subseteq> M" using C by (auto simp: M)
  then show "(edge S (free_arc S) M)\<^sup>*\<^sup>* s z" if "mutual S s z" using mutual_walk(1) [OF that sA] by (rule edge_mono [rotated])
  assume z: "(edge S (free_arc S) M)\<^sup>*\<^sup>* s z"
  then have "(edge S (back_arc S) M)\<^sup>*\<^sup>* z s" by (simp add: edge_back_reach)
  then have "(\<lambda>x y. ?B x y \<and> x \<in> set (s # ds) \<and> y \<in> set (s # ds))\<^sup>*\<^sup>* z s"
  proof (rule rtranclp_mono [THEN predicate2D, rotated], intro predicate2I)
    fix x y assume e: "edge S (back_arc S) M x y"
    have "w \<in> A \<and> w \<in> set (s # ds)" if "w \<in> M" for w using that c(2) s(2) L(4) by (auto simp: M)
    then show "?B x y \<and> x \<in> set (s # ds) \<and> y \<in> set (s # ds)" using e by (auto simp: edge_def)
  qed
  from left_order_reaches [OF L(1,4,2) _ this] have "?B\<^sup>*\<^sup>* s z" by simp
  then have "(edge S (free_arc S) A)\<^sup>*\<^sup>* z s" by (simp add: edge_back_reach)
  then have "(edge S (free_arc S) {..<sp_nAct S})\<^sup>*\<^sup>* z s" using A(1) by (rule edge_mono)
  moreover have "(edge S (free_arc S) {..<sp_nAct S})\<^sup>*\<^sup>* s z" using z by (rule edge_mono) (auto simp: M)
  ultimately show "mutual S s z" by (simp add: mutual_def)
qed

text \<open>Between the searches: the labels and the investigator are reset, and of the nodes without colour those in \<open>L\<close> are marked.\<close>

definition scc_clean :: "sparse \<Rightarrow> nat set \<Rightarrow> nat \<times> iGraph \<times> scc_state \<Rightarrow> bool" where
  "scc_clean S L = (\<lambda>(i, I, st). colouring (sp_nAct S) (mutual S) (df_nodeColour st) i \<and> it_ok S I
     \<and> length (df_pred st) = sp_nAct S \<and> length (sc_marked st) = sp_nAct S
     \<and> (\<forall>v < sp_nAct S. it_current I ! v = NoArc \<and> df_pred st ! v = NoArc \<and> (df_nodeColour st ! v = NoNode \<longrightarrow> (sc_marked st ! v \<longleftrightarrow> v \<in> L)))
     \<and> holds (sp_nAct S) (sc_Recovery st) [])"

abbreviation scc_colour :: "nat \<times> iGraph \<times> scc_state \<Rightarrow> nat list" where
  "scc_colour p \<equiv> df_nodeColour (snd (snd p))"

text \<open>The search from a node of the stack colours its class.\<close>

lemma scc_class:
  assumes S: "sp_inv S" and clean: "scc_clean S L (i, I, st)" and s: "s < sp_nAct S" "df_nodeColour st ! s = NoNode" "s \<in> L"
    and found: "\<And>z. (edge S (free_arc S) {v. v < sp_nAct S \<and> df_nodeColour st ! v = NoNode \<and> v \<in> L})\<^sup>*\<^sup>* s z \<longleftrightarrow> mutual S s z"
  obtains I' st' where "obind (dfs_loop S s (for_test S s) for_enter (for_leave i) s I st) (\<lambda>(I, st).
      obind (recover_loop st) (\<lambda>st. Some (Inr (Suc i, I, st)))) = Some (Inr (Suc i, I', st'))"
    "scc_clean S L (Suc i, I', st')" "sc_S st' = sc_S st"
    "\<And>v. v < sp_nAct S \<Longrightarrow> df_nodeColour st' ! v = (if mutual S s v then i else df_nodeColour st ! v)"
proof -
  let ?n = "sp_nAct S" and ?c = "df_nodeColour st" and ?mk = "sc_marked st"
  let ?M = "{v. v < ?n \<and> ?c ! v = NoNode \<and> ?mk ! v}"
  note d = clean [unfolded scc_clean_def split]
  have n: "?n \<le> NoNode" using sp_inv_shape [OF S] by (simp add: sp_shape_def)
  have col: "colouring ?n (mutual S) ?c i" using d by blast
  note i = colouring_few [OF col s(1,2) n]
  have M: "?M = {v. v < ?n \<and> ?c ! v = NoNode \<and> v \<in> L}" using d by auto
  have len: "length ?c = ?n" using col by (simp add: colouring_def)
  have "for_inv S s ?M i ?c ?mk (sc_S st) {s} [] st" using S s d i len by (auto simp: for_inv_def)
  note search = fwd.search_returns [OF this]
  have "it_ok S I" "\<And>v. v \<in> ?M \<Longrightarrow> it_current I ! v = NoArc" using d by auto
  note search = search [OF this]
  obtain I' st' K where l: "dfs_loop S s (for_test S s) for_enter (for_leave i) s I st = Some (Inr (I', st'))"
    "for_inv S s ?M i ?c ?mk (sc_S st) (set K) K st'" "set K = {z. (edge S (free_arc S) ?M)\<^sup>*\<^sup>* s z}" "it_ok S I'"
    "True \<longrightarrow> (\<forall>v \<in> set K. it_current I' ! v = NoArc)" "\<forall>v. v \<notin> set K \<longrightarrow> it_current I' ! v = it_current I ! v"
    by (rule search)
  have K: "v \<in> set K \<longleftrightarrow> mutual S s v" for v using l(3) found M by simp
  note f = l(2) [unfolded for_inv_def]
  obtain R p where R: "recover_loop st' = Some (Inr (st'\<lparr>sc_Recovery := R, df_pred := p\<rparr>))" "holds ?n R []" "length p = ?n"
    "\<forall>v < ?n. p ! v = (if v \<in> set K then NoArc else df_pred st' ! v)" using recover_loop_ok [of ?n st' K] f by auto
  let ?st = "st'\<lparr>sc_Recovery := R, df_pred := p\<rparr>"
  have c': "df_nodeColour st' ! v = (if mutual S s v then i else ?c ! v)" if "v < ?n" for v using f K that by simp
  have "colouring ?n (mutual S) (df_nodeColour st') (Suc i)"
    using f by (intro colouring_extend [OF col s(1,2) n] mutual_equiv c') simp_all
  moreover have "it_current I' ! v = NoArc" if "v < ?n" for v using l(5) [THEN mp, OF TrueI] l(6) d that by metis
  moreover have "p ! v = NoArc" if "v < ?n" for v using R(4) f that by auto
  moreover have "sc_marked st' ! v \<longleftrightarrow> v \<in> L" if v: "v < ?n" "df_nodeColour st' ! v = NoNode" for v
  proof -
    have "v \<notin> set K" "?c ! v = NoNode" using v c' K i by (auto split: if_splits)
    then show ?thesis using f d v(1) by auto
  qed
  ultimately have "scc_clean S L (Suc i, I', ?st)" using l(4) f R by (simp add: scc_clean_def)
  then show thesis using that [of I' ?st] l(1) R c' f by simp
qed

text \<open>The loop over the stack, after a search from the root \<open>r\<close> that has left the nodes in the order \<open>L\<close>.\<close>

definition back_order :: "sparse \<Rightarrow> nat set \<Rightarrow> nat \<Rightarrow> nat list \<Rightarrow> bool" where
  "back_order S A r L \<longleftrightarrow> left_order (edge S (back_arc S) A) {} L \<and> distinct L \<and> set L = {z. (edge S (back_arc S) A)\<^sup>*\<^sup>* r z}
     \<and> A \<subseteq> {..<sp_nAct S} \<and> r \<in> A"

lemma scc_pop_ok:
  assumes S: "sp_inv S" and L: "back_order S A r L" "L = as @ s # ds" and clean: "scc_clean S (set L) p"
    and hold: "holds (sp_nAct S) (sc_S (snd (snd p))) (s # ds)"
    and A: "\<And>v. v < sp_nAct S \<Longrightarrow> scc_colour p ! v = NoNode \<Longrightarrow> v \<in> A" and as: "\<And>v. v \<in> set as \<Longrightarrow> scc_colour p ! v \<noteq> NoNode"
  obtains q where "scc_pop S p = Some (Inr q)" "scc_clean S (set L) q" "holds (sp_nAct S) (sc_S (snd (snd q))) ds"
    "scc_colour q ! s \<noteq> NoNode" "\<And>v. v < sp_nAct S \<Longrightarrow> scc_colour p ! v \<noteq> NoNode \<Longrightarrow> scc_colour q ! v \<noteq> NoNode"
proof -
  let ?n = "sp_nAct S"
  obtain i I st where p: "p = (i, I, st)" by (cases p) auto
  obtain Q where Q: "staticStack_Delete (sc_S st) = Inr (s, Q)" "holds ?n Q ds" using holds_Delete hold p by fastforce
  let ?st = "st\<lparr>sc_S := Q\<rparr>"
  have cl: "scc_clean S (set L) (i, I, ?st)" using clean p by (simp add: scc_clean_def)
  note o = L(1) [unfolded back_order_def]
  have sA: "s \<in> A" using o L(2) edge_reaches [of S "back_arc S" A r s] by auto
  then have s: "s < ?n" "s \<in> set L" using o L(2) by auto
  show thesis
  proof (cases "df_nodeColour st ! s = NoNode")
    case False
    then have "scc_pop S p = Some (Inr (i, I, ?st))" using Q by (simp add: scc_pop_def p)
    then show thesis using that [of "(i, I, ?st)"] cl Q False p by simp
  next
    case True
    then have mk: "sc_marked st ! s" using clean s p by (simp add: scc_clean_def)
    have col: "colouring ?n (mutual S) (df_nodeColour ?st) i" using cl by (simp add: scc_clean_def)
    have "(edge S (free_arc S) {v. v < ?n \<and> df_nodeColour ?st ! v = NoNode \<and> v \<in> set L})\<^sup>*\<^sup>* s z \<longleftrightarrow> mutual S s z" for z
      using o A as p True by (intro class_found [OF _ _ _ L(2) _ _ col]) auto
    note cls = scc_class [OF S cl s(1) _ s(2) this]
    obtain I' st' where r: "obind (dfs_loop S s (for_test S s) for_enter (for_leave i) s I ?st) (\<lambda>(I, st).
        obind (recover_loop st) (\<lambda>st. Some (Inr (Suc i, I, st)))) = Some (Inr (Suc i, I', st'))"
      "scc_clean S (set L) (Suc i, I', st')" "sc_S st' = sc_S ?st"
      "\<And>v. v < ?n \<Longrightarrow> df_nodeColour st' ! v = (if mutual S s v then i else df_nodeColour ?st ! v)"
      by (rule cls) (simp_all add: True)
    have n: "?n \<le> NoNode" using sp_inv_shape [OF S] by (simp add: sp_shape_def)
    have i: "i < NoNode" using colouring_few [OF col s(1) _ n] True by simp
    have "scc_pop S p = Some (Inr (Suc i, I', st'))" using Q r(1) True mk by (simp add: scc_pop_def p Let_def)
    then show thesis using that [of "(Suc i, I', st')"] r(2,3) Q(2) r(4) mutual_equiv(1) i s(1) p by auto
  qed
qed

lemma scc_pops_ok:
  assumes S: "sp_inv S" and L: "back_order S A r L" "L = as @ ds" and clean: "scc_clean S (set L) p"
    and hold: "holds (sp_nAct S) (sc_S (snd (snd p))) ds"
    and A: "\<And>v. v < sp_nAct S \<Longrightarrow> scc_colour p ! v = NoNode \<Longrightarrow> v \<in> A" and as: "\<And>v. v \<in> set as \<Longrightarrow> scc_colour p ! v \<noteq> NoNode"
  shows "\<exists>q. scc_pops S p = Some (Inr q) \<and> scc_clean S (set L) q \<and> holds (sp_nAct S) (sc_S (snd (snd q))) []
    \<and> (\<forall>v \<in> set L. scc_colour q ! v \<noteq> NoNode) \<and> (\<forall>v < sp_nAct S. scc_colour p ! v \<noteq> NoNode \<longrightarrow> scc_colour q ! v \<noteq> NoNode)"
  using L(2) clean hold A as
proof (induction ds arbitrary: as p)
  case Nil
  then have "scc_pops S p = Some (Inr p)" using holds_Empty [OF Nil.prems(3)] by (subst scc_pops.simps) simp
  then show ?case using Nil.prems by simp
next
  case (Cons s ds)
  have "s \<in> A" using L(1) Cons.prems(1) edge_reaches [of S "back_arc S" A r s] by (auto simp: back_order_def)
  have lt: "v < sp_nAct S" if "v \<in> set L" for v
    using L(1) that edge_reaches [of S "back_arc S" A r v] by (auto simp: back_order_def)
  obtain q where q: "scc_pop S p = Some (Inr q)" "scc_clean S (set L) q" "holds (sp_nAct S) (sc_S (snd (snd q))) ds"
    "scc_colour q ! s \<noteq> NoNode" "\<And>v. v < sp_nAct S \<Longrightarrow> scc_colour p ! v \<noteq> NoNode \<Longrightarrow> scc_colour q ! v \<noteq> NoNode"
    using scc_pop_ok [OF S L(1) Cons.prems] by metis
  have "scc_pops S p = scc_pops S q" using holds_Empty [OF Cons.prems(3)] q(1) by (subst scc_pops.simps) simp
  moreover have "L = (as @ [s]) @ ds" using Cons.prems(1) by simp
  moreover have "v \<in> A" if "v < sp_nAct S" "scc_colour q ! v = NoNode" for v using Cons.prems(4) q(5) that by metis
  moreover have "scc_colour q ! v \<noteq> NoNode" if "v \<in> set (as @ [s])" for v
    using that Cons.prems(1,5) q(4) q(5) [of v] lt [of v] by auto
  ultimately show ?case using Cons.IH [of "as @ [s]" q] q(2,3,5) by metis
qed

definition scc_done :: "sparse \<Rightarrow> nat \<Rightarrow> nat \<times> iGraph \<times> scc_state \<Rightarrow> bool" where
  "scc_done S r p \<longleftrightarrow> scc_clean S {} p \<and> holds (sp_nAct S) (sc_S (snd (snd p))) [] \<and> (\<forall>v < r. scc_colour p ! v \<noteq> NoNode)"

lemma scc_root_ok:
  assumes S: "sp_inv S" and r: "r < sp_nAct S" and inv: "scc_done S r p"
  shows "oret (\<lambda>e. False) (scc_done S (Suc r)) (scc_root S r p)"
proof -
  obtain i I st where p: "p = (i, I, st)" by (cases p) auto
  let ?c = "df_nodeColour st" and ?n = "sp_nAct S"
  note d = inv [unfolded scc_done_def p scc_clean_def split]
  show ?thesis
  proof (cases "?c ! r = NoNode")
    case False
    then have "scc_done S (Suc r) p" using inv p by (auto simp: scc_done_def less_Suc_eq)
    then show ?thesis using False p by (simp add: scc_root_def)
  next
    case True
    define A where "A = {v. v < ?n \<and> ?c ! v = NoNode}"
    have col: "colouring ?n (mutual S) ?c i" using d by blast
    then have len: "length ?c = ?n" by (simp add: colouring_def)
    have rA: "r \<in> A" using r True by (simp add: A_def)
    have "back_inv S r A ?c {r} [] st" using S d len rA r by (auto simp: back_inv_def A_def)
    note search = bwd.search_returns [OF this]
    have "it_ok S I" "\<And>v. v \<in> A \<Longrightarrow> it_current I ! v = NoArc" using d by (auto simp: A_def)
    note search = search [OF this]
    obtain I' st' L where l: "dfs_loop S r (back_test S r) back_enter back_leave r I st = Some (Inr (I', st'))"
      "back_inv S r A ?c (set L) L st'" "distinct L" "set L = {z. (edge S (back_arc S) A)\<^sup>*\<^sup>* r z}" "left_order (edge S (back_arc S) A) {} L"
      "it_ok S I'" "True \<longrightarrow> (\<forall>v \<in> set L. it_current I' ! v = NoArc)" "\<forall>v. v \<notin> set L \<longrightarrow> it_current I' ! v = it_current I ! v"
      by (rule search)
    note f = l(2) [unfolded back_inv_def]
    obtain R q where R: "recover_loop st' = Some (Inr (st'\<lparr>sc_Recovery := R, df_pred := q\<rparr>))" "holds ?n R []" "length q = ?n"
      "\<forall>v < ?n. q ! v = (if v \<in> set L then NoArc else df_pred st' ! v)" using recover_loop_ok [of ?n st' L] f by auto
    let ?p = "(i, I', st'\<lparr>sc_Recovery := R, df_pred := q\<rparr>)"
    have ord: "back_order S A r L" using l(3-5) rA by (auto simp: back_order_def A_def)
    have "it_current I' ! v = NoArc" if "v < ?n" for v using l(7,8) d that by metis
    moreover have "q ! v = NoArc" if "v < ?n" for v using R(4) f that by auto
    ultimately have "scc_clean S (set L) ?p" using l(6) f R col by (auto simp: scc_clean_def A_def)
    then obtain q where q: "scc_pops S ?p = Some (Inr q)" "scc_clean S (set L) q" "holds ?n (sc_S (snd (snd q))) []"
      "\<forall>v \<in> set L. scc_colour q ! v \<noteq> NoNode" "\<forall>v < ?n. scc_colour ?p ! v \<noteq> NoNode \<longrightarrow> scc_colour q ! v \<noteq> NoNode"
      using scc_pops_ok [OF S ord, of "[]" L ?p] f by (auto simp: A_def)
    have "scc_clean S {} q" using q(2,4) by (auto simp: scc_clean_def)
    moreover have "scc_colour q ! v \<noteq> NoNode" if "v < Suc r" for v
    proof -
      have "r \<in> set L" using l(4) by simp
      moreover have "v < r \<Longrightarrow> ?c ! v \<noteq> NoNode" using d by simp
      ultimately show ?thesis using q(4,5) that r f by (cases "v = r") (auto simp: less_Suc_eq)
    qed
    ultimately have "scc_done S (Suc r) q" using q(3) by (simp add: scc_done_def)
    then show ?thesis using l(1) R(1) q(1) True by (simp add: p scc_root_def)
  qed
qed

text \<open>An undirected graph has symmetric edges.\<close>

lemma undirected_free:
  assumes S: "sp_inv S" and u: "sp_mAct S = 0 \<or> sp_COrientation S \<and> sp_Orientation S 0 = 0" and a: "a < 2 * sp_mAct S"
  shows "free_arc S a = open_arc S a"
proof -
  let ?P = "sp_representation S"
  have P: "ap_inv (sp_SizeInfo S) ?P" "ap_table ?P = listOfReprPars" using S by (simp_all add: sp_inv_def pools_ok_def)
  have t: "TokReprOrientation < length (ap_table ?P)" using P(2) by (simp add: token_defs listOfReprPars_def)
  have c: "fst (attributePool_IsConstant ?P TokReprOrientation)" "attributePool_GetValue ?P TokReprOrientation 0 0 = 0"
    using u a by (auto simp: sp_COrientation_def sp_Orientation_def)
  have "sp_Orientation S a = 0"
  proof (cases "attributePool_FindAttribute ?P TokReprOrientation")
    case None
    then show ?thesis by (simp add: sp_Orientation_def attributePool_GetValue_def)
  next
    case (Some A)
    have "fst (attribute_IsConstant A)" using c(1) Some by (auto simp: attributePool_IsConstant_def ap_query_def split: prod.splits)
    then have "attribute_GetValue A i = attribute_DefaultValue A" for i
      using attribute_IsConstant_iff [OF FindAttribute_ok(1) [OF P(1) t Some]] by blast
    then show ?thesis using c(2) Some by (simp add: sp_Orientation_def attributePool_GetValue_def)
  qed
  then show ?thesis by (simp add: free_arc_def open_arc_def sp_Blocking_def)
qed

lemma undirected_mutual:
  assumes "\<And>a. a < 2 * sp_mAct S \<Longrightarrow> free_arc S a = open_arc S a"
  shows "mutual S = (edge S (open_arc S) {..<sp_nAct S})\<^sup>*\<^sup>*"
proof -
  have eq: "edge S (free_arc S) {..<sp_nAct S} = edge S (open_arc S) {..<sp_nAct S}" using assms by (auto simp: edge_def fun_eq_iff)
  show ?thesis by (intro ext) (auto simp: mutual_def eq dest: sympD [OF symp_rtranclp_edge])
qed

lemma StronglyConnected_ok:
  assumes S: "sp_inv S"
  shows "oret (\<lambda>e. False) (\<lambda>(b, c, p). \<exists>i. b = (i \<le> 1) \<and> colouring (sp_nAct S) (mutual S) c i
    \<and> (\<forall>v < sp_nAct S. c ! v \<noteq> NoNode)) (sp_StronglyConnected S h h')"
proof (cases "sp_mAct S = 0 \<or> sp_COrientation S \<and> sp_Orientation S 0 = 0")
  case True
  have m: "mutual S = (edge S (open_arc S) {..<sp_nAct S})\<^sup>*\<^sup>*" by (rule undirected_mutual) (rule undirected_free [OF S True])
  show ?thesis unfolding sp_StronglyConnected_def if_P [OF True] m by (rule Connected_ok [OF S])
next
  case False
  let ?n = "sp_nAct S"
  let ?st = "(0, iGraph_new S, \<lparr>df_nodeColour = replicate ?n NoNode, df_pred = replicate ?n NoArc,
     sc_marked = replicate ?n False, sc_S = staticStack ?n h, sc_Recovery = staticStack ?n h'\<rparr>)"
  have "scc_done S 0 ?st" by (simp add: scc_done_def scc_clean_def colouring_new iGraph_new_def it_ok_def holds_new)
  then have "oret (\<lambda>e. False) (scc_done S ?n) (ofold (scc_root S) [0..<?n] ?st)"
    by (intro oret_upt [where I = "scc_done S"]) (auto intro: scc_root_ok [OF S])
  then have "oret (\<lambda>e. False) (\<lambda>(b, c, p). \<exists>i. b = (i \<le> 1) \<and> colouring ?n (mutual S) c i \<and> (\<forall>v < ?n. c ! v \<noteq> NoNode))
    (obind (ofold (scc_root S) [0..<?n] ?st) (\<lambda>(i, I, st). Some (Inr (i \<le> 1, df_nodeColour st, df_pred st))))"
    by (rule oret_seq) (auto simp: scc_done_def scc_clean_def)
  then show ?thesis unfolding sp_StronglyConnected_def if_not_P [OF False] .
qed

text \<open>A complete colouring.\<close>

lemma colouring_complete:
  assumes "colouring n Q c i" "\<forall>v < n. c ! v \<noteq> NoNode"
  shows "length c = n" "\<forall>v < n. c ! v < i" "\<forall>k < i. \<exists>v < n. c ! v = k" "\<forall>u < n. \<forall>v < n. c ! u = c ! v \<longleftrightarrow> Q u v"
    and "i \<le> 1 \<longleftrightarrow> (\<forall>u < n. \<forall>v < n. Q u v)"
proof -
  show c: "length c = n" "\<forall>v < n. c ! v < i" "\<forall>k < i. \<exists>v < n. c ! v = k" "\<forall>u < n. \<forall>v < n. c ! u = c ! v \<longleftrightarrow> Q u v"
    using assms by (auto simp: colouring_def)
  show "i \<le> 1 \<longleftrightarrow> (\<forall>u < n. \<forall>v < n. Q u v)"
  proof
    show "\<forall>u < n. \<forall>v < n. Q u v" if "i \<le> 1" using that c(2,4) by (metis less_one less_le_trans)
    show "i \<le> 1" if all: "\<forall>u < n. \<forall>v < n. Q u v"
    proof (rule ccontr)
      assume "\<not> i \<le> 1"
      then obtain u v where "u < n" "c ! u = 0" "v < n" "c ! v = 1" using c(3) by (metis less_one linorder_not_le less_trans)
      then show False using all c(4) by (metis zero_neq_one)
    qed
  qed
qed

section \<open>Properties\<close>

text \<open>
  C14: \<open>StronglyConnected\<close> returns for every graph that a history can produce. The node colours are the numbers \<open>0, 1, \<dots>, i - 1\<close>,
  all of them are used, and two nodes have the same colour if and only if each can be reached from the other along
  arcs of positive capacity that are not blocked by their orientation. The method returns whether the graph
  is strongly connected. This includes the branch that treats graphs without orientation by \<open>Connected\<close>.
\<close>

theorem StronglyConnected_components:
  assumes "sp_history S"
  shows "\<exists>b c p i. sp_StronglyConnected S h h' = Some (Inr (b, c, p)) \<and> length c = sp_nAct S
    \<and> (\<forall>v < sp_nAct S. c ! v < i) \<and> (\<forall>k < i. \<exists>v < sp_nAct S. c ! v = k)
    \<and> (\<forall>u < sp_nAct S. \<forall>v < sp_nAct S. c ! u = c ! v \<longleftrightarrow> mutual S u v)
    \<and> (b \<longleftrightarrow> (\<forall>u < sp_nAct S. \<forall>v < sp_nAct S. mutual S u v))"
proof -
  obtain b c p i where r: "sp_StronglyConnected S h h' = Some (Inr (b, c, p))" "b = (i \<le> 1)"
    "colouring (sp_nAct S) (mutual S) c i" "\<forall>v < sp_nAct S. c ! v \<noteq> NoNode"
    using StronglyConnected_ok [OF sp_history_inv [OF assms], of h h'] by (auto simp: oret_value)
  note c = colouring_complete [OF r(3,4)]
  show ?thesis using r(1,2) c by (intro exI [of _ b] exI [of _ c] exI [of _ p] exI [of _ i] conjI) simp_all
qed

theorem StronglyConnected_components_witness:
  "\<exists>b c p i. sp_StronglyConnected sp_example 0 1 = Some (Inr (b, c, p)) \<and> length c = 2
    \<and> (\<forall>v < 2. c ! v < i) \<and> (\<forall>k < i. \<exists>v < 2. c ! v = k) \<and> (\<forall>u < 2. \<forall>v < 2. c ! u = c ! v \<longleftrightarrow> mutual sp_example u v)
    \<and> (b \<longleftrightarrow> (\<forall>u < 2. \<forall>v < 2. mutual sp_example u v))"
  using StronglyConnected_components [OF sp_example_facts(1), of 0 1] unfolding sp_example_facts(3) .

text \<open>
  C39: \<open>Connected\<close> returns for every graph that a history can produce. The node colours are the numbers of the connected components,
  where two nodes are joined by the edges of positive capacity, in whatever direction, and the
  method returns whether there is at most one component.
\<close>

theorem Connected_components:
  assumes "sp_history S"
  shows "\<exists>b c p i. sp_Connected S = Some (Inr (b, c, p)) \<and> length c = sp_nAct S
    \<and> (\<forall>v < sp_nAct S. c ! v < i) \<and> (\<forall>k < i. \<exists>v < sp_nAct S. c ! v = k)
    \<and> (\<forall>u < sp_nAct S. \<forall>v < sp_nAct S. c ! u = c ! v \<longleftrightarrow> (edge S (open_arc S) {..<sp_nAct S})\<^sup>*\<^sup>* u v) \<and> (b \<longleftrightarrow> i \<le> 1)"
proof -
  obtain b c p i where r: "sp_Connected S = Some (Inr (b, c, p))" "b = (i \<le> 1)"
    "colouring (sp_nAct S) (edge S (open_arc S) {..<sp_nAct S})\<^sup>*\<^sup>* c i" "\<forall>v < sp_nAct S. c ! v \<noteq> NoNode"
    using Connected_ok [OF sp_history_inv [OF assms]] by (auto simp: oret_value)
  note c = colouring_complete [OF r(3,4)]
  show ?thesis using r(1,2) c by (intro exI [of _ b] exI [of _ c] exI [of _ p] exI [of _ i] conjI) simp_all
qed

theorem Connected_components_witness:
  "\<exists>b c p i. sp_Connected sp_example = Some (Inr (b, c, p)) \<and> length c = 2
    \<and> (\<forall>v < 2. c ! v < i) \<and> (\<forall>k < i. \<exists>v < 2. c ! v = k)
    \<and> (\<forall>u < 2. \<forall>v < 2. c ! u = c ! v \<longleftrightarrow> (edge sp_example (open_arc sp_example) {..<2})\<^sup>*\<^sup>* u v) \<and> (b \<longleftrightarrow> i \<le> 1)"
  using Connected_components [OF sp_example_facts(1)] unfolding sp_example_facts(3) .

end
