(* ===== verification/DAG_Search.thy ===== *)
theory DAG_Search
  imports Bellman_Ford Max_Flow Result_Logic
begin

text \<open>
  The search of acyclic digraphs, \<open>abstractDiGraph::DAGSearch\<close> in \<^verbatim>\<open>lib_src/solveSPTree.cpp\<close>, with its uses \<open>TopSort\<close> and
  \<open>CriticalPath\<close>: a node is expanded when all its incoming arcs have been read. The order of expansion is a topological numbering;
  the labels are lengths of longest or of shortest paths.
\<close>

section \<open>The method\<close>

datatype TOptDAGSearch = DAG_TOPSORT | DAG_CRITICAL | DAG_SPTREE

record dag_state =
  dg_idg :: "nat list"
  dg_colour :: "nat list"
  dg_dist :: "real list"
  dg_pred :: "nat list"
  dg_Q :: static_queue

text \<open>The numbers of eligible arcs that enter the nodes.\<close>

definition dag_count :: "sparse \<Rightarrow> real \<Rightarrow> nat \<Rightarrow> nat list \<Rightarrow> nat list result" where
  "dag_count S delta a idg =
     rbind (sp_Eligible S delta SPX_PLAIN a) (\<lambda>e.
       if e then rbind (sp_EndNode S a) (\<lambda>w.
         if w \<ge> length idg then Inl OutOfBounds else Inr (idg[w := idg ! w + 1]))
       else Inr idg)"

text \<open>The registers that an option uses; the others are null pointers.\<close>

definition dag_labels :: "TOptDAGSearch \<Rightarrow> nat \<Rightarrow> nat \<Rightarrow> (nat list \<times> real list \<times> nat list) result" where
  "dag_labels opt n s =
     (case opt of
        DAG_TOPSORT \<Rightarrow> Inr (replicate n NoNode, [], [])
      | DAG_CRITICAL \<Rightarrow> Inr ([], replicate n (- InfFloat), replicate n NoArc)
      | DAG_SPTREE \<Rightarrow>
          if s \<noteq> NoNode \<and> s \<ge> n then Inl OutOfBounds
          else Inr (replicate n NoNode, if s \<noteq> NoNode then (replicate n InfFloat)[s := 0] else replicate n InfFloat, replicate n NoArc))"

definition dag_source :: "TOptDAGSearch \<Rightarrow> nat \<Rightarrow> nat \<Rightarrow> dag_state \<Rightarrow> dag_state result" where
  "dag_source opt s v st =
     (if dg_idg st ! v = 0
      then rbind (staticQueue_Insert1 (dg_Q st) v) (\<lambda>Q.
             Inr (st\<lparr>dg_Q := Q, dg_dist := (if opt = DAG_CRITICAL \<or> opt = DAG_SPTREE \<and> s = NoNode then (dg_dist st)[v := 0] else dg_dist st)\<rparr>))
      else Inr st)"

text \<open>One arc of the node \<open>v\<close> that is expanded. The in-degrees are unsigned numbers.\<close>

definition unsigned_pred :: "nat \<Rightarrow> nat" where
  "unsigned_pred x = (x + 2 ^ 64 - 1) mod 2 ^ 64"

definition dag_relax :: "sparse \<Rightarrow> TOptDAGSearch \<Rightarrow> nat \<Rightarrow> nat \<Rightarrow> nat \<Rightarrow> dag_state \<Rightarrow> dag_state result" where
  "dag_relax S opt v w a st =
     (if opt = DAG_TOPSORT \<or> opt = DAG_SPTREE \<and> \<not> dg_dist st ! v < InfFloat then Inr st
      else rbind (sp_Length S a) (\<lambda>l.
        let d = dg_dist st ! v + l
        in if opt = DAG_SPTREE \<and> dg_dist st ! w > d \<or> opt = DAG_CRITICAL \<and> dg_dist st ! w < d
           then Inr (st\<lparr>dg_dist := (dg_dist st)[w := d], dg_pred := (dg_pred st)[w := a]\<rparr>)
           else Inr st))"

definition dag_body :: "sparse \<Rightarrow> real \<Rightarrow> TOptDAGSearch \<Rightarrow> nat \<Rightarrow> nat \<Rightarrow> dag_state \<Rightarrow> dag_state result" where
  "dag_body S delta opt v a st =
     rbind (sp_Eligible S delta SPX_PLAIN a) (\<lambda>e.
       if \<not> e then Inr st
       else rbind (sp_EndNode S a) (\<lambda>w.
         if w \<ge> length (dg_idg st) then Inl OutOfBounds
         else rbind (dag_relax S opt v w a (st\<lparr>dg_idg := (dg_idg st)[w := unsigned_pred (dg_idg st ! w)]\<rparr>)) (\<lambda>st.
           if dg_idg st ! w = 0 then rbind (staticQueue_Insert1 (dg_Q st) w) (\<lambda>Q. Inr (st\<lparr>dg_Q := Q\<rparr>)) else Inr st)))"

definition dag_expand :: "TOptDAGSearch \<Rightarrow> nat \<Rightarrow> nat \<Rightarrow> static_queue \<Rightarrow> dag_state \<Rightarrow> dag_state" where
  "dag_expand opt nr v Q st =
     st\<lparr>dg_Q := Q, dg_colour := (if opt \<noteq> DAG_CRITICAL then (dg_colour st)[v := nr] else dg_colour st)\<rparr>"

partial_function (option) dag_loop :: "sparse \<Rightarrow> real \<Rightarrow> TOptDAGSearch \<Rightarrow> nat \<Rightarrow> iGraph \<Rightarrow> dag_state \<Rightarrow> (nat \<times> dag_state) result option" where
  "dag_loop S delta opt nr I st =
     (if staticQueue_Empty (dg_Q st) then Some (Inr (nr, st))
      else case staticQueue_Delete (dg_Q st) of
          Inl e \<Rightarrow> Some (Inl e)
        | Inr p \<Rightarrow>
            Option.bind (read_loop S (fst p) (dag_body S delta opt (fst p)) I (dag_expand opt nr (fst p) (snd p) st))
              (\<lambda>r. case r of Inl e \<Rightarrow> Some (Inl e) | Inr q \<Rightarrow> dag_loop S delta opt (Suc nr) (fst q) (snd q)))"

definition dag_max :: "nat \<Rightarrow> real list \<Rightarrow> nat" where
  "dag_max n dst =
     fold (\<lambda>v maxNode. if maxNode = NoNode \<and> dst ! v > - InfFloat \<or> maxNode \<noteq> NoNode \<and> dst ! v > dst ! maxNode then v else maxNode)
       [0..<n] NoNode"

text \<open>The node returned.\<close>

definition dag_result :: "nat \<Rightarrow> TOptDAGSearch \<Rightarrow> nat \<Rightarrow> nat \<Rightarrow> dag_state \<Rightarrow> nat result" where
  "dag_result n opt t nr st =
     (if opt = DAG_CRITICAL then Inr (if nr < n then NoNode else dag_max n (dg_dist st))
      else case if nr < n then find (\<lambda>v. dg_colour st ! v = NoNode) [0..<n] else None of
          Some v \<Rightarrow> Inr v
        | None \<Rightarrow> if opt = DAG_SPTREE \<and> t \<noteq> NoNode \<and> t \<ge> n then Inl OutOfBounds else Inr NoNode)"

definition sp_DAGSearch :: "sparse \<Rightarrow> real \<Rightarrow> TOptDAGSearch \<Rightarrow> nat \<Rightarrow> nat \<Rightarrow> THandle \<Rightarrow> nat \<Rightarrow> (nat \<times> dag_state) result option" where
  "sp_DAGSearch S delta opt s t h junk =
     obind (Some (rfold (dag_count S delta) [0..<2 * sp_mAct S] (replicate (sp_nAct S) 0))) (\<lambda>idg.
     obind (Some (dag_labels opt (sp_nAct S) s)) (\<lambda>(colour, dist, pred).
     obind (Some (rfold (dag_source opt s) [0..<sp_nAct S]
              \<lparr>dg_idg = idg, dg_colour = colour, dg_dist = dist, dg_pred = pred, dg_Q = staticQueue (sp_nAct S) h junk\<rparr>)) (\<lambda>st.
     obind (dag_loop S delta opt 0 (iGraph_new S) st) (\<lambda>(nr, st).
     obind (Some (dag_result (sp_nAct S) opt t nr st)) (\<lambda>v.
       Some (Inr (v, st)))))))"

definition sp_TopSort :: "sparse \<Rightarrow> real \<Rightarrow> THandle \<Rightarrow> nat \<Rightarrow> (nat \<times> dag_state) result option" where
  "sp_TopSort S delta h junk = sp_DAGSearch S delta DAG_TOPSORT NoNode NoNode h junk"

definition sp_CriticalPath :: "sparse \<Rightarrow> real \<Rightarrow> THandle \<Rightarrow> nat \<Rightarrow> (nat \<times> dag_state) result option" where
  "sp_CriticalPath S delta h junk = sp_DAGSearch S delta DAG_CRITICAL NoNode NoNode h junk"

section \<open>Counting the incoming arcs\<close>

abbreviation plain_arc :: "sparse \<Rightarrow> real \<Rightarrow> nat \<Rightarrow> bool" where
  "plain_arc S delta \<equiv> eligible S delta SPX_PLAIN"

definition in_arcs :: "sparse \<Rightarrow> (nat \<Rightarrow> bool) \<Rightarrow> nat \<Rightarrow> nat set" where
  "in_arcs S el w = {a. a < 2 * sp_mAct S \<and> el a \<and> sp_SN S ! flip a = w}"

lemma in_arcs_finite [simp]: "finite (in_arcs S el w)"
  by (simp add: in_arcs_def)

lemma dag_count_ok:
  assumes "no_cancelled S" "k \<le> 2 * sp_mAct S"
  shows "\<exists>idg. rfold (dag_count S delta) [0..<k] (replicate (sp_nAct S) 0) = Inr idg \<and> length idg = sp_nAct S
    \<and> (\<forall>w < sp_nAct S. idg ! w = card (in_arcs S (plain_arc S delta) w \<inter> {..<k}))"
  using assms(2)
proof (induction k)
  case (Suc k)
  let ?el = "plain_arc S delta" and ?w = "sp_SN S ! flip k"
  obtain idg where g: "rfold (dag_count S delta) [0..<k] (replicate (sp_nAct S) 0) = Inr idg" "length idg = sp_nAct S"
    "\<forall>w < sp_nAct S. idg ! w = card (in_arcs S ?el w \<inter> {..<k})" using Suc by auto
  have app: "rfold f (xs @ [x]) st = rbind (rfold f xs st) (f x)" for f :: "nat \<Rightarrow> nat list \<Rightarrow> nat list result" and xs x st
    by (induction xs arbitrary: st) (simp_all add: rbind_def split: sum.split)
  have w: "?w < sp_nAct S" using assms(1) Suc.prems by (simp add: no_cancelled_def)
  have step: "in_arcs S ?el w \<inter> {..<Suc k} = (if ?el k \<and> ?w = w then insert k (in_arcs S ?el w \<inter> {..<k}) else in_arcs S ?el w \<inter> {..<k})" for w
    using Suc.prems by (auto simp: in_arcs_def less_Suc_eq)
  have "dag_count S delta k idg = Inr (if ?el k then idg[?w := idg ! ?w + 1] else idg)"
    using Suc.prems w g(2) by (simp add: dag_count_def Eligible_Inr sp_EndNode_def)
  then have "rfold (dag_count S delta) [0..<Suc k] (replicate (sp_nAct S) 0) = Inr (if ?el k then idg[?w := idg ! ?w + 1] else idg)"
    using g(1) by (simp add: app)
  moreover have "(if ?el k then idg[?w := idg ! ?w + 1] else idg) ! w = card (in_arcs S ?el w \<inter> {..<Suc k})" if "w < sp_nAct S" for w
    using g(2,3) that w unfolding step by (auto simp: nth_list_update)
  ultimately show ?case using g(2) by auto
qed simp

section \<open>Order of expansion\<close>

text \<open>Every arc into a node starts at a node that comes before it.\<close>

definition topological :: "sparse \<Rightarrow> (nat \<Rightarrow> bool) \<Rightarrow> nat list \<Rightarrow> bool" where
  "topological S el X \<longleftrightarrow> (\<forall>i < length X. \<forall>a \<in> in_arcs S el (X ! i). sp_SN S ! a \<in> set (take i X))"

lemma topological_snoc:
  "topological S el (X @ [v]) \<longleftrightarrow> topological S el X \<and> (\<forall>a \<in> in_arcs S el v. sp_SN S ! a \<in> set X)"
  by (auto simp: topological_def nth_append less_Suc_eq all_conj_distrib)

definition acyclic_arcs :: "sparse \<Rightarrow> (nat \<Rightarrow> bool) \<Rightarrow> bool" where
  "acyclic_arcs S el \<longleftrightarrow> (\<nexists>u as. u < sp_nAct S \<and> as \<noteq> [] \<and> awalk S el u as u)"

lemma topological_walk:
  assumes X: "topological S el X" "distinct X" and w: "awalk S el u as v" "as \<noteq> []" "v \<in> set X"
  shows "\<exists>i j. i < j \<and> j < length X \<and> X ! i = u \<and> X ! j = v"
  using w
proof (induction as arbitrary: v rule: rev_induct)
  case (snoc a as)
  obtain j where j: "j < length X" "X ! j = v" using snoc.prems(3) by (auto simp: in_set_conv_nth)
  have "a \<in> in_arcs S el v" using snoc.prems(1) by (simp add: awalk_snoc in_arcs_def)
  then have "sp_SN S ! a \<in> set (take j X)" using X(1) j by (auto simp: topological_def)
  then obtain i where i: "i < j" "X ! i = sp_SN S ! a" using j(1) by (auto simp: in_set_conv_nth)
  show ?case
  proof (cases "as = []")
    case True
    then have "X ! i = u" using snoc.prems(1) i(2) by simp
    then show ?thesis using i j by blast
  next
    case False
    have "awalk S el u as (sp_SN S ! a)" using snoc.prems(1) by (simp add: awalk_snoc)
    moreover have "sp_SN S ! a \<in> set X" using i j(1) by (metis nth_mem less_trans)
    ultimately obtain k l where "k < l" "l < length X" "X ! k = u" "X ! l = sp_SN S ! a" using snoc.IH False by blast
    moreover from this have "l = i" using X(2) i j(1) by (metis nth_eq_iff_index_eq less_trans)
    ultimately show ?thesis using i j by (metis less_trans)
  qed
qed simp

lemma topological_acyclic:
  assumes "topological S el X" "distinct X" "set X = {..<sp_nAct S}"
  shows "acyclic_arcs S el"
proof -
  have "\<not> awalk S el u as u" if u: "u < sp_nAct S" "as \<noteq> []" for u as
  proof
    assume "awalk S el u as u"
    then obtain i j where "i < j" "j < length X" "X ! i = u" "X ! j = u" using topological_walk [OF assms(1,2)] u assms(3) by blast
    then show False using assms(2) by (metis nth_eq_iff_index_eq less_irrefl less_trans)
  qed
  then show ?thesis unfolding acyclic_arcs_def by blast
qed

text \<open>Nodes that always have another one of them before them end a walk that repeats a node.\<close>

lemma backward_cycle:
  assumes live: "no_cancelled S" and v: "v \<in> U" "U \<subseteq> {..<sp_nAct S}" and U: "\<And>w. w \<in> U \<Longrightarrow> \<exists>a \<in> in_arcs S el w. sp_SN S ! a \<in> U"
  obtains x ys zs where "x < sp_nAct S" "ys \<noteq> []" "awalk S el x ys x" "awalk S el x zs v"
proof -
  have "\<exists>u as. u \<in> U \<and> length as = k \<and> awalk S el u as v" for k
  proof (induction k)
    case 0
    then show ?case using v(1) by auto
  next
    case (Suc k)
    then obtain u as where u: "u \<in> U" "length as = k" "awalk S el u as v" by blast
    then obtain a where "a \<in> in_arcs S el u" "sp_SN S ! a \<in> U" using U by blast
    then show ?case using u by (intro exI [of _ "sp_SN S ! a"] exI [of _ "a # as"]) (simp add: in_arcs_def)
  qed
  then obtain u as where u: "u \<in> U" "length as = sp_nAct S" "awalk S el u as v" by blast
  have un: "u < sp_nAct S" using u(1) v(2) by auto
  obtain xs ys zs x where "ys \<noteq> []" "awalk S el u xs x" "awalk S el x ys x" "awalk S el x zs v"
    using awalk_repeats [OF live u(3) un] u(2) by (metis order_refl)
  then show thesis using that no_cancelled_walk [OF live _ un] by blast
qed

section \<open>Labels\<close>

text \<open>
  \<open>D\<close> are lengths of walks from a source, at most \<open>k\<close> times the greatest arc length, with the last arcs \<open>Pr\<close>; no arc in \<open>P\<close> can be used
  for a shorter walk. Critical paths are shortest paths for the negative lengths.
\<close>

definition labels_ok :: "sparse \<Rightarrow> (nat \<Rightarrow> bool) \<Rightarrow> (nat \<Rightarrow> real) \<Rightarrow> nat set \<Rightarrow> real \<Rightarrow> nat \<Rightarrow> nat set \<Rightarrow> (nat \<Rightarrow> real) \<Rightarrow> (nat \<Rightarrow> nat) \<Rightarrow> bool" where
  "labels_ok S el c Src B k P D Pr \<longleftrightarrow> (\<forall>v < sp_nAct S. D v \<le> InfFloat) \<and> (\<forall>s \<in> Src. D s \<le> 0)
     \<and> (\<forall>v < sp_nAct S. D v \<noteq> InfFloat \<longrightarrow> D v \<le> real k * B \<and> (\<exists>s \<in> Src. \<exists>as. awalk S el s as v \<and> len c as = D v)
          \<and> (v \<in> Src \<and> Pr v = NoArc \<or> Pr v \<in> P \<and> sp_SN S ! flip (Pr v) = v \<and> D v = D (sp_SN S ! Pr v) + c (Pr v)))
     \<and> (\<forall>a \<in> P. D (sp_SN S ! a) \<noteq> InfFloat \<longrightarrow> D (sp_SN S ! flip a) \<le> D (sp_SN S ! a) + c a)"

lemma labels_mono: "labels_ok S el c Src B k P D Pr \<Longrightarrow> 0 \<le> B \<Longrightarrow> k \<le> k' \<Longrightarrow> labels_ok S el c Src B k' P D Pr"
proof -
  assume "0 \<le> B" "k \<le> k'"
  then have "real k * B \<le> real k' * B" by (simp add: mult_right_mono)
  moreover assume "labels_ok S el c Src B k P D Pr"
  ultimately show ?thesis unfolding labels_ok_def by (meson order_trans)
qed

lemma labels_skip:
  assumes "labels_ok S el c Src B k P D Pr" "D (sp_SN S ! a) \<noteq> InfFloat \<longrightarrow> D (sp_SN S ! flip a) \<le> D (sp_SN S ! a) + c a"
  shows "labels_ok S el c Src B k (insert a P) D Pr"
  using assms unfolding labels_ok_def by (auto 4 4)

lemma labels_relax:
  assumes l: "labels_ok S el c Src B (Suc k) P D Pr" and P: "\<And>b. b \<in> P \<Longrightarrow> sp_SN S ! b \<in> X"
    and a: "a < 2 * sp_mAct S" "el a" "c a \<le> B" and u: "u = sp_SN S ! a" "u \<in> X" "u < sp_nAct S" "D u \<noteq> InfFloat" "D u \<le> real k * B"
    and w: "w = sp_SN S ! flip a" "w \<notin> X" "w < sp_nAct S" "D u + c a < D w" and B: "real (Suc k) * B < InfFloat"
  shows "labels_ok S el c Src B (Suc k) (insert a P) (D(w := D u + c a)) (Pr(w := a))"
proof -
  have neq: "u \<noteq> w" using u(2) w(2) by auto
  note L = l [unfolded labels_ok_def]
  have d: "D u + c a \<le> real (Suc k) * B" using u(5) a(3) by (simp add: algebra_simps)
  obtain s as where s: "s \<in> Src" "awalk S el s as u" "len c as = D u" using L u(3,4) by blast
  have walk: "awalk S el s (as @ [a]) w" "len c (as @ [a]) = D u + c a" using s a u(1) w(1) by (simp_all add: awalk_snoc)
  have "\<forall>v < sp_nAct S. (D(w := D u + c a)) v \<le> InfFloat" using L d B by auto
  moreover have "\<forall>s \<in> Src. (D(w := D u + c a)) s \<le> 0" using L w(4) by (auto intro: order_trans less_imp_le)
  moreover have "(D(w := D u + c a)) v \<le> real (Suc k) * B \<and> (\<exists>s \<in> Src. \<exists>as. awalk S el s as v \<and> len c as = (D(w := D u + c a)) v)
    \<and> (v \<in> Src \<and> (Pr(w := a)) v = NoArc \<or> (Pr(w := a)) v \<in> insert a P \<and> sp_SN S ! flip ((Pr(w := a)) v) = v
        \<and> (D(w := D u + c a)) v = (D(w := D u + c a)) (sp_SN S ! ((Pr(w := a)) v)) + c ((Pr(w := a)) v))"
    if v: "v < sp_nAct S" "(D(w := D u + c a)) v \<noteq> InfFloat" for v
  proof (cases "v = w")
    case True
    have "\<exists>s \<in> Src. \<exists>as. awalk S el s as w \<and> len c as = D u + c a" using s(1) walk by blast
    then show ?thesis using True d neq u(1) w(1) by simp
  next
    case False
    then have "D v \<noteq> InfFloat" using v(2) by simp
    then have *: "D v \<le> real (Suc k) * B" "\<exists>s \<in> Src. \<exists>as. awalk S el s as v \<and> len c as = D v"
      "v \<in> Src \<and> Pr v = NoArc \<or> Pr v \<in> P \<and> sp_SN S ! flip (Pr v) = v \<and> D v = D (sp_SN S ! Pr v) + c (Pr v)" using L v(1) by blast+
    have "Pr v \<in> P \<Longrightarrow> sp_SN S ! Pr v \<noteq> w" using P w(2) by auto
    then show ?thesis using * False by auto
  qed
  moreover have "(D(w := D u + c a)) (sp_SN S ! flip b) \<le> (D(w := D u + c a)) (sp_SN S ! b) + c b"
    if b: "b \<in> insert a P" "(D(w := D u + c a)) (sp_SN S ! b) \<noteq> InfFloat" for b
  proof (cases "b = a")
    case True
    then show ?thesis using u(1) w(1) neq by auto
  next
    case False
    then have "b \<in> P" "sp_SN S ! b \<noteq> w" using b(1) P w(2) by auto
    moreover from this have "D (sp_SN S ! flip b) \<le> D (sp_SN S ! b) + c b" using L b(2) by auto
    ultimately show ?thesis using w(4) by auto
  qed
  ultimately show ?thesis unfolding labels_ok_def by blast
qed

text \<open>When all arcs have been read.\<close>

lemma labels_final:
  assumes l: "labels_ok S el c Src B k P D Pr" and P: "\<And>a. a < 2 * sp_mAct S \<Longrightarrow> el a \<Longrightarrow> a \<in> P"
    and live: "no_cancelled S" and Src: "s \<in> Src" "s < sp_nAct S" and w: "awalk S el s as v" and B: "real (Suc k) * B < InfFloat"
    and c: "\<And>a. a < 2 * sp_mAct S \<Longrightarrow> el a \<Longrightarrow> c a \<le> B"
  shows "D v \<noteq> InfFloat \<and> D v \<le> len c as"
proof -
  note L = l [unfolded labels_ok_def]
  have fin: "D v \<le> real k * B" if "D v \<noteq> InfFloat" "v < sp_nAct S" for v using L that by blast
  show ?thesis
    using w
  proof (induction as arbitrary: v rule: rev_induct)
    case Nil
    then have "D v \<le> 0" using L Src(1) by auto
    then show ?case using Nil by (auto simp: InfFloat_def)
  next
    case (snoc a as)
    then have a: "awalk S el s as (sp_SN S ! a)" "a < 2 * sp_mAct S" "el a" "v = sp_SN S ! flip a" by (simp_all add: awalk_snoc)
    have IH: "D (sp_SN S ! a) \<noteq> InfFloat" "D (sp_SN S ! a) \<le> len c as" using snoc.IH [OF a(1)] by simp_all
    have le: "D v \<le> D (sp_SN S ! a) + c a" using L P [OF a(2,3)] IH(1) a(4) by blast
    have "sp_SN S ! a < sp_nAct S" using live a(2) by (simp add: no_cancelled_def)
    then have "D (sp_SN S ! a) + c a \<le> real (Suc k) * B" using fin [OF IH(1)] c [OF a(2,3)] by (simp add: algebra_simps)
    then show ?case using le IH(2) B by auto
  qed
qed

section \<open>Expanding a node\<close>

definition dag_sign :: "TOptDAGSearch \<Rightarrow> real" where
  "dag_sign opt = (if opt = DAG_CRITICAL then - 1 else 1)"

definition dag_cost :: "sparse \<Rightarrow> TOptDAGSearch \<Rightarrow> nat \<Rightarrow> real" where
  "dag_cost S opt a = dag_sign opt * cost S SPX_PLAIN None a"

definition dag_D :: "TOptDAGSearch \<Rightarrow> real list \<Rightarrow> nat \<Rightarrow> real" where
  "dag_D opt d v = dag_sign opt * d ! v"

definition dag_srcs :: "sparse \<Rightarrow> (nat \<Rightarrow> bool) \<Rightarrow> TOptDAGSearch \<Rightarrow> nat \<Rightarrow> nat set" where
  "dag_srcs S el opt s = (if opt = DAG_CRITICAL \<or> s = NoNode then {v. v < sp_nAct S \<and> in_arcs S el v = {}} else {s})"

definition dag_data :: "sparse \<Rightarrow> real \<Rightarrow> TOptDAGSearch \<Rightarrow> real \<Rightarrow> bool" where
  "dag_data S delta opt B \<longleftrightarrow> sp_inv S \<and> no_cancelled S \<and> 0 \<le> B
     \<and> (opt \<noteq> DAG_TOPSORT \<longrightarrow> real (sp_nAct S + 1) * B < InfFloat
          \<and> (\<forall>a < 2 * sp_mAct S. plain_arc S delta a \<longrightarrow> \<bar>cost S SPX_PLAIN None a\<bar> \<le> B))"

text \<open>The nodes \<open>X\<close> have been or are being expanded, the arcs \<open>P\<close> have been read.\<close>

definition dag_inv :: "sparse \<Rightarrow> (nat \<Rightarrow> bool) \<Rightarrow> TOptDAGSearch \<Rightarrow> nat list \<Rightarrow> nat set \<Rightarrow> dag_state \<Rightarrow> bool" where
  "dag_inv S el opt X P st \<longleftrightarrow> length (dg_idg st) = sp_nAct S \<and> (\<forall>w < sp_nAct S. dg_idg st ! w = card (in_arcs S el w - P))
     \<and> sq_inv (dg_Q st) \<and> sq_n (dg_Q st) = sp_nAct S \<and> distinct (X @ sq_items (dg_Q st)) \<and> set (X @ sq_items (dg_Q st)) \<subseteq> {..<sp_nAct S}
     \<and> (\<forall>w < sp_nAct S. w \<in> set (X @ sq_items (dg_Q st)) \<longleftrightarrow> in_arcs S el w \<subseteq> P)
     \<and> (\<forall>a \<in> P. a < 2 * sp_mAct S \<and> el a \<and> sp_SN S ! a \<in> set X) \<and> topological S el X
     \<and> (opt \<noteq> DAG_CRITICAL \<longrightarrow> length (dg_colour st) = sp_nAct S \<and> (\<forall>i < length X. dg_colour st ! (X ! i) = i)
          \<and> (\<forall>v < sp_nAct S. v \<notin> set X \<longrightarrow> dg_colour st ! v = NoNode))"

definition dag_lab :: "sparse \<Rightarrow> (nat \<Rightarrow> bool) \<Rightarrow> TOptDAGSearch \<Rightarrow> nat \<Rightarrow> real \<Rightarrow> nat \<Rightarrow> nat list \<Rightarrow> nat set \<Rightarrow> dag_state \<Rightarrow> bool" where
  "dag_lab S el opt s B k X P st \<longleftrightarrow> opt \<noteq> DAG_TOPSORT \<longrightarrow> length (dg_dist st) = sp_nAct S \<and> length (dg_pred st) = sp_nAct S
     \<and> labels_ok S el (dag_cost S opt) (dag_srcs S el opt s) B k P (dag_D opt (dg_dist st)) ((!) (dg_pred st))
     \<and> (opt = DAG_CRITICAL \<longrightarrow> (\<forall>v \<in> set (X @ sq_items (dg_Q st)). dag_D opt (dg_dist st) v \<noteq> InfFloat))"

lemma dag_D_upd: "w < length d \<Longrightarrow> dag_D opt (d[w := x]) = (dag_D opt d)(w := dag_sign opt * x)"
  by (auto simp: dag_D_def fun_eq_iff nth_list_update)

lemma dag_Length:
  assumes "dag_data S delta opt B" "a < 2 * sp_mAct S"
  shows "sp_Length S a = Inr (cost S SPX_PLAIN None a)"
  using Length_Inr [OF assms(2)] by (auto simp: dj_cost_def cost_def)

lemma dag_relax_ok:
  assumes data: "dag_data S delta opt B" and inv: "dag_inv S (plain_arc S delta) opt X P st"
    and lab: "dag_lab S (plain_arc S delta) opt s B (Suc k) X P st" and k: "Suc k \<le> sp_nAct S"
    and a: "a < 2 * sp_mAct S" "plain_arc S delta a" "sp_SN S ! a = v" "v \<in> set X" and w: "w = sp_SN S ! flip a" "w \<notin> set X"
    and v: "opt \<noteq> DAG_TOPSORT \<Longrightarrow> dag_D opt (dg_dist st) v \<noteq> InfFloat \<Longrightarrow> dag_D opt (dg_dist st) v \<le> real k * B"
  shows "\<exists>d p. dag_relax S opt v w a (st\<lparr>dg_idg := g\<rparr>) = Inr (st\<lparr>dg_idg := g, dg_dist := d, dg_pred := p\<rparr>)
    \<and> (opt \<noteq> DAG_TOPSORT \<longrightarrow> length d = sp_nAct S \<and> length p = sp_nAct S \<and> dag_D opt d v = dag_D opt (dg_dist st) v
      \<and> labels_ok S (plain_arc S delta) (dag_cost S opt) (dag_srcs S (plain_arc S delta) opt s) B (Suc k) (insert a P) (dag_D opt d) ((!) p)
      \<and> (opt = DAG_CRITICAL \<longrightarrow> (\<forall>x \<in> insert w (set (X @ sq_items (dg_Q st))). dag_D opt d x \<noteq> InfFloat)))"
proof (cases "opt = DAG_TOPSORT")
  case True
  then show ?thesis by (intro exI [of _ "dg_dist st"] exI [of _ "dg_pred st"]) (simp add: dag_relax_def)
next
  case opt: False
  let ?D = "dag_D opt (dg_dist st)" and ?c = "dag_cost S opt" and ?l = "cost S SPX_PLAIN None a" and ?el = "plain_arc S delta"
  let ?d = "dg_dist st ! v + ?l"
  note L = lab [unfolded dag_lab_def, THEN mp, OF opt]
  have d: "no_cancelled S" "0 \<le> B" "real (sp_nAct S + 1) * B < InfFloat" "\<bar>?l\<bar> \<le> B" using data a opt by (auto simp: dag_data_def)
  have lt: "v < sp_nAct S" "w < sp_nAct S" using d(1) a w by (auto simp: no_cancelled_def)
  have sg: "dag_sign opt * ?d = ?D v + ?c a" "?c a \<le> B" using d(4) by (auto simp: dag_D_def dag_cost_def algebra_simps dag_sign_def)
  have B: "real (Suc k) * B < InfFloat"
  proof -
    have "real (Suc k) * B \<le> real (sp_nAct S + 1) * B" using k d(2) by (intro mult_right_mono) auto
    then show ?thesis using d(3) by simp
  qed
  have le: "?D v \<le> InfFloat" "?D w \<le> InfFloat" using L lt by (auto simp: labels_ok_def)
  let ?go = "?D v \<noteq> InfFloat \<and> ?D v + ?c a < ?D w"
  have fin: "?D v \<noteq> InfFloat" if "opt = DAG_CRITICAL" using L that a(4) by auto
  have go: "opt = DAG_SPTREE \<and> dg_dist st ! w > ?d \<or> opt = DAG_CRITICAL \<and> dg_dist st ! w < ?d \<longleftrightarrow> ?D v + ?c a < ?D w"
    using opt by (cases opt) (auto simp: dag_D_def dag_cost_def dag_sign_def)
  have bar: "opt = DAG_TOPSORT \<or> opt = DAG_SPTREE \<and> \<not> dg_dist st ! v < InfFloat \<longleftrightarrow> ?D v = InfFloat"
    using opt fin le(1) by (cases opt) (auto simp: dag_D_def dag_sign_def)
  note len = dag_Length [OF data a(1)]
  show ?thesis
  proof (cases ?go)
    case True
    have r: "dag_relax S opt v w a (st\<lparr>dg_idg := g\<rparr>)
      = Inr (st\<lparr>dg_idg := g, dg_dist := (dg_dist st)[w := ?d], dg_pred := (dg_pred st)[w := a]\<rparr>)"
      using True bar go len by (auto simp: dag_relax_def Let_def)
    have lo: "labels_ok S ?el ?c (dag_srcs S ?el opt s) B (Suc k) (insert a P) (?D(w := ?D v + ?c a)) (((!) (dg_pred st))(w := a))"
    proof (rule labels_relax [where X = "set X" and D = ?D])
      show "labels_ok S ?el ?c (dag_srcs S ?el opt s) B (Suc k) P ?D ((!) (dg_pred st))" using L by blast
      show "sp_SN S ! b \<in> set X" if "b \<in> P" for b using inv that by (simp add: dag_inv_def)
    qed (use a sg(2) lt True v opt w B in auto)
    have D': "dag_D opt ((dg_dist st)[w := ?d]) = ?D(w := ?D v + ?c a)" "(!) ((dg_pred st)[w := a]) = ((!) (dg_pred st))(w := a)"
      using L lt by (simp_all add: dag_D_upd sg nth_upd_fun)
    have "?D v + ?c a \<noteq> InfFloat" using True le(2) by auto
    then have "opt = DAG_CRITICAL \<longrightarrow> (\<forall>x \<in> insert w (set (X @ sq_items (dg_Q st))). dag_D opt ((dg_dist st)[w := ?d]) x \<noteq> InfFloat)"
      using L unfolding D'(1) by (metis fun_upd_apply insert_iff)
    moreover have "dag_D opt ((dg_dist st)[w := ?d]) v = ?D v" unfolding D'(1) using a(4) w(2) by auto
    ultimately show ?thesis using r lo [folded D'] L
      by (intro exI [of _ "(dg_dist st)[w := ?d]"] exI [of _ "(dg_pred st)[w := a]"]) simp
  next
    case False
    have r: "dag_relax S opt v w a (st\<lparr>dg_idg := g\<rparr>) = Inr (st\<lparr>dg_idg := g, dg_dist := dg_dist st, dg_pred := dg_pred st\<rparr>)"
      using False bar go len by (auto simp: dag_relax_def Let_def)
    have lo: "labels_ok S ?el ?c (dag_srcs S ?el opt s) B (Suc k) (insert a P) ?D ((!) (dg_pred st))"
      using L False a(3) w(1) by (intro labels_skip) auto
    have "?D w \<noteq> InfFloat" if "opt = DAG_CRITICAL"
    proof -
      have "?D w \<le> ?D v + ?c a" "?D v \<le> real k * B" using False fin [OF that] v opt by auto
      then have "?D w \<le> real (Suc k) * B" using sg(2) by (simp add: algebra_simps)
      then show ?thesis using B by simp
    qed
    then show ?thesis using r lo L by (intro exI [of _ "dg_dist st"] exI [of _ "dg_pred st"]) auto
  qed
qed

lemma unsigned_dec: "0 < x \<Longrightarrow> x \<le> NoArc \<Longrightarrow> unsigned_pred x = x - 1"
proof -
  assume x: "0 < x" "x \<le> NoArc"
  then have "x + 2 ^ 64 - 1 = x - 1 + 2 ^ 64" "x - 1 < 2 ^ 64" by (auto simp: NoArc_def)
  then show ?thesis unfolding unsigned_pred_def by (metis mod_add_self2 mod_less)
qed

lemma in_arcs_card:
  assumes "dag_data S delta opt B"
  shows "card (in_arcs S el w - P) \<le> NoArc"
proof -
  have sh: "sp_shape S" using assms by (simp add: dag_data_def sp_inv_shape)
  have "2 * sp_mAct S \<le> NoArc" using shape_lt(1) [OF sh, of NoArc] by (meson leI)
  moreover have "card (in_arcs S el w - P) \<le> card {..<2 * sp_mAct S}" by (rule card_mono) (auto simp: in_arcs_def)
  ultimately show ?thesis by simp
qed

text \<open>Reading an arc: the number of arcs to come at its end node decreases, and the node may enter the queue.\<close>

lemma dag_read_inv:
  assumes inv: "dag_inv S el opt X P st" and a: "a < 2 * sp_mAct S" "el a" "sp_SN S ! a \<in> set X" "a \<notin> P" and w: "w = sp_SN S ! flip a" "w < sp_nAct S"
    and st': "dg_idg st' = (dg_idg st)[w := dg_idg st ! w - 1]" "dg_colour st' = dg_colour st"
      "if dg_idg st ! w - 1 = 0 then sq_inv (dg_Q st') \<and> sq_n (dg_Q st') = sp_nAct S \<and> sq_items (dg_Q st') = sq_items (dg_Q st) @ [w]
       else dg_Q st' = dg_Q st"
  shows "dag_inv S el opt X (insert a P) st'" "w \<notin> set (X @ sq_items (dg_Q st))" "0 < dg_idg st ! w"
proof -
  note i = inv [unfolded dag_inv_def]
  have aw: "a \<in> in_arcs S el w - P" using a w by (simp add: in_arcs_def)
  then have wX: "w \<notin> set (X @ sq_items (dg_Q st))" using i w(2) by blast
  have pos: "0 < dg_idg st ! w" using i w(2) aw by (metis card_gt_0_iff empty_iff finite_Diff in_arcs_finite)
  have eq: "in_arcs S el x - insert a P = (if x = w then (in_arcs S el w - P) - {a} else in_arcs S el x - P)" for x
    using aw w(1) by (auto simp: in_arcs_def)
  have idg: "dg_idg st' ! x = card (in_arcs S el x - insert a P)" if "x < sp_nAct S" for x
    using i that aw by (auto simp: eq st'(1) nth_list_update)
  let ?q = "sq_items (dg_Q st')"
  have q: "?q = (if dg_idg st ! w - 1 = 0 then sq_items (dg_Q st) @ [w] else sq_items (dg_Q st))" "sq_inv (dg_Q st')" "sq_n (dg_Q st') = sp_nAct S"
    using st'(3) i by (auto split: if_splits)
  have zero: "dg_idg st ! w - 1 = 0 \<longleftrightarrow> in_arcs S el w \<subseteq> insert a P"
  proof -
    have "dg_idg st ! w - 1 = card (in_arcs S el w - insert a P)" using idg [OF w(2)] w(2) i by (simp add: st'(1))
    then show ?thesis by auto
  qed
  have mem: "x \<in> set (X @ ?q) \<longleftrightarrow> in_arcs S el x \<subseteq> insert a P" if "x < sp_nAct S" for x
  proof (cases "x = w")
    case True
    then show ?thesis using zero wX q(1) by auto
  next
    case False
    then have "in_arcs S el x \<subseteq> insert a P \<longleftrightarrow> in_arcs S el x \<subseteq> P" using w(1) by (auto simp: in_arcs_def)
    then show ?thesis using False i that q(1) by auto
  qed
  have "distinct (X @ ?q)" "set (X @ ?q) \<subseteq> {..<sp_nAct S}" using i wX w(2) q(1) by auto
  moreover have "\<forall>b \<in> insert a P. b < 2 * sp_mAct S \<and> el b \<and> sp_SN S ! b \<in> set X" using i a by auto
  ultimately show "dag_inv S el opt X (insert a P) st'" using i idg mem q(2,3) by (simp add: dag_inv_def st'(1,2))
  show "w \<notin> set (X @ sq_items (dg_Q st))" "0 < dg_idg st ! w" using wX pos by blast+
qed

lemma dag_body_ok:
  assumes data: "dag_data S delta opt B" and inv: "dag_inv S (plain_arc S delta) opt X P st"
    and lab: "dag_lab S (plain_arc S delta) opt s B (Suc k) X P st" and k: "Suc k \<le> sp_nAct S"
    and a: "a < 2 * sp_mAct S" "sp_SN S ! a = v" "v \<in> set X" "a \<notin> P"
    and v: "opt \<noteq> DAG_TOPSORT \<Longrightarrow> dag_D opt (dg_dist st) v \<noteq> InfFloat \<Longrightarrow> dag_D opt (dg_dist st) v \<le> real k * B"
  defines "P' \<equiv> if plain_arc S delta a then insert a P else P"
  shows "\<exists>st'. dag_body S delta opt v a st = Inr st' \<and> dag_inv S (plain_arc S delta) opt X P' st'
    \<and> dag_lab S (plain_arc S delta) opt s B (Suc k) X P' st' \<and> (opt \<noteq> DAG_TOPSORT \<longrightarrow> dag_D opt (dg_dist st') v = dag_D opt (dg_dist st) v)"
proof (cases "plain_arc S delta a")
  case False
  then have "dag_body S delta opt v a st = Inr st" using a(1) by (simp add: dag_body_def Eligible_Inr)
  then show ?thesis using False inv lab by (simp add: P'_def)
next
  case el: True
  let ?el = "plain_arc S delta" and ?w = "sp_SN S ! flip a" and ?i = "dg_idg st"
  have w: "?w < sp_nAct S" using data a(1) by (simp add: dag_data_def no_cancelled_def)
  have len: "length ?i = sp_nAct S" and Q: "sq_inv (dg_Q st)" "sq_n (dg_Q st) = sp_nAct S" using inv by (simp_all add: dag_inv_def)
  have aX: "sp_SN S ! a \<in> set X" using a(2,3) by simp
  note rd = dag_read_inv [OF inv a(1) el aX a(4) refl w]
  have wX: "?w \<notin> set (X @ sq_items (dg_Q st))" "0 < ?i ! ?w"
  proof -
    have "?w \<in> set (X @ sq_items (dg_Q st)) \<longleftrightarrow> in_arcs S ?el ?w \<subseteq> P" using inv w by (simp add: dag_inv_def)
    moreover have m: "a \<in> in_arcs S ?el ?w - P" using a(1,4) el by (simp add: in_arcs_def)
    ultimately show "?w \<notin> set (X @ sq_items (dg_Q st))" by blast
    show "0 < ?i ! ?w" using inv w m unfolding dag_inv_def by (metis card_gt_0_iff empty_iff finite_Diff in_arcs_finite)
  qed
  have "?i ! ?w = card (in_arcs S ?el ?w - P)" using inv w by (simp add: dag_inv_def)
  then have dec: "unsigned_pred (?i ! ?w) = ?i ! ?w - 1"
    using unsigned_dec [OF wX(2)] in_arcs_card [OF data, of ?el ?w P] by simp
  let ?g = "?i[?w := ?i ! ?w - 1]"
  have wn: "?w \<notin> set X" using wX(1) by simp
  obtain d p where r: "dag_relax S opt v ?w a (st\<lparr>dg_idg := ?g\<rparr>) = Inr (st\<lparr>dg_idg := ?g, dg_dist := d, dg_pred := p\<rparr>)"
    and lb: "opt \<noteq> DAG_TOPSORT \<longrightarrow> length d = sp_nAct S \<and> length p = sp_nAct S \<and> dag_D opt d v = dag_D opt (dg_dist st) v
      \<and> labels_ok S ?el (dag_cost S opt) (dag_srcs S ?el opt s) B (Suc k) (insert a P) (dag_D opt d) ((!) p)
      \<and> (opt = DAG_CRITICAL \<longrightarrow> (\<forall>x \<in> insert ?w (set (X @ sq_items (dg_Q st))). dag_D opt d x \<noteq> InfFloat))"
    using dag_relax_ok [OF data inv lab k a(1) el a(2,3) refl wn v, of ?g] by blast
  obtain Q' where Q': "staticQueue_Insert1 (dg_Q st) ?w = Inr Q'" "sq_items Q' = sq_items (dg_Q st) @ [?w]" "sq_n Q' = sp_nAct S" "sq_inv Q'"
    using squeue.seq_ins [OF Q(1), of ?w] Q w wX(1) by (auto simp: enqueue_place_def)
  let ?st = "st\<lparr>dg_idg := ?g, dg_dist := d, dg_pred := p, dg_Q := if ?i ! ?w - 1 = 0 then Q' else dg_Q st\<rparr>"
  have "dag_body S delta opt v a st = Inr ?st"
    using a(1) el w len r Q'(1) by (auto simp: dag_body_def Eligible_Inr sp_EndNode_def dec)
  moreover have "dag_inv S ?el opt X (insert a P) ?st" using Q' by (intro rd(1)) simp_all
  moreover have "dag_lab S ?el opt s B (Suc k) X (insert a P) ?st" using lb Q'(2) unfolding dag_lab_def by auto
  ultimately show ?thesis using lb el by (auto simp: P'_def)
qed

lemma dag_scan_ok:
  assumes data: "dag_data S delta opt B" and inv: "dag_inv S (plain_arc S delta) opt X P st"
    and lab: "dag_lab S (plain_arc S delta) opt s B (Suc k) X P st" and k: "Suc k \<le> sp_nAct S" and vX: "v \<in> set X"
    and as: "distinct as" "\<forall>a \<in> set as. a < 2 * sp_mAct S \<and> sp_SN S ! a = v \<and> a \<notin> P"
    and v: "opt \<noteq> DAG_TOPSORT \<Longrightarrow> dag_D opt (dg_dist st) v \<noteq> InfFloat \<Longrightarrow> dag_D opt (dg_dist st) v \<le> real k * B"
  shows "\<exists>st'. rfold (dag_body S delta opt v) as st = Inr st' \<and> dag_inv S (plain_arc S delta) opt X (P \<union> {b \<in> set as. plain_arc S delta b}) st'
    \<and> dag_lab S (plain_arc S delta) opt s B (Suc k) X (P \<union> {b \<in> set as. plain_arc S delta b}) st'"
  using inv lab as v
proof (induction as arbitrary: P st)
  case Nil
  then show ?case by simp
next
  case (Cons a as)
  let ?P = "if plain_arc S delta a then insert a P else P"
  obtain st1 where st1: "dag_body S delta opt v a st = Inr st1" "dag_inv S (plain_arc S delta) opt X ?P st1"
    "dag_lab S (plain_arc S delta) opt s B (Suc k) X ?P st1" "opt \<noteq> DAG_TOPSORT \<longrightarrow> dag_D opt (dg_dist st1) v = dag_D opt (dg_dist st) v"
    using dag_body_ok [OF data Cons.prems(1,2) k _ _ vX _ Cons.prems(5), of a] Cons.prems(4) by auto
  have eq: "?P \<union> {b \<in> set as. plain_arc S delta b} = P \<union> {b \<in> set (a # as). plain_arc S delta b}" by auto
  have as: "distinct as" "\<forall>b \<in> set as. b < 2 * sp_mAct S \<and> sp_SN S ! b = v \<and> b \<notin> ?P" using Cons.prems(3,4) by auto
  have "dag_D opt (dg_dist st1) v \<le> real k * B" if "opt \<noteq> DAG_TOPSORT" "dag_D opt (dg_dist st1) v \<noteq> InfFloat"
    using that Cons.prems(5) st1(4) by metis
  from Cons.IH [OF st1(2,3) as this] show ?case unfolding eq using st1(1) by simp
qed

section \<open>The loop\<close>

text \<open>Between expansions all arcs of the expanded nodes have been read.\<close>

definition dag_ready :: "sparse \<Rightarrow> (nat \<Rightarrow> bool) \<Rightarrow> TOptDAGSearch \<Rightarrow> nat \<Rightarrow> real \<Rightarrow> nat list \<Rightarrow> dag_state \<Rightarrow> bool" where
  "dag_ready S el opt s B X st \<longleftrightarrow> (let P = {a. a < 2 * sp_mAct S \<and> el a \<and> sp_SN S ! a \<in> set X}
     in dag_inv S el opt X P st \<and> dag_lab S el opt s B (length X) X P st)"

lemma dag_expand_ok:
  assumes inv: "dag_inv S el opt X P st" and lab: "dag_lab S el opt s B (length X) X P st" and B: "0 \<le> B"
    and q: "sq_items (dg_Q st) = v # qs" and Q: "sq_inv Q" "sq_n Q = sp_nAct S" "sq_items Q = qs"
  defines "st1 \<equiv> dag_expand opt (length X) v Q st"
  shows "dag_inv S el opt (X @ [v]) P st1" "dag_lab S el opt s B (Suc (length X)) (X @ [v]) P st1"
    and "opt \<noteq> DAG_TOPSORT \<Longrightarrow> dag_D opt (dg_dist st1) v \<noteq> InfFloat \<Longrightarrow> dag_D opt (dg_dist st1) v \<le> real (length X) * B"
    and "v < sp_nAct S" "v \<notin> set X" "Suc (length X) \<le> sp_nAct S"
proof -
  note i = inv [unfolded dag_inv_def]
  have dis: "distinct (X @ v # qs)" "set (X @ v # qs) \<subseteq> {..<sp_nAct S}" using i by (simp_all add: q)
  then show v: "v < sp_nAct S" "v \<notin> set X" by auto
  have "card (set (X @ [v])) \<le> card {..<sp_nAct S}" using dis by (intro card_mono) auto
  moreover have "card (set (X @ [v])) = length (X @ [v])" using dis by (intro distinct_card) auto
  ultimately show "Suc (length X) \<le> sp_nAct S" by simp
  have "in_arcs S el v \<subseteq> P" using i v(1) q by (metis in_set_conv_decomp append_Cons list.set_intros(1) Un_iff set_append)
  then have "topological S el (X @ [v])" using i by (auto simp: topological_snoc)
  moreover have "opt \<noteq> DAG_CRITICAL \<longrightarrow> length (dg_colour st1) = sp_nAct S \<and> (\<forall>j < length (X @ [v]). dg_colour st1 ! ((X @ [v]) ! j) = j)
    \<and> (\<forall>w < sp_nAct S. w \<notin> set (X @ [v]) \<longrightarrow> dg_colour st1 ! w = NoNode)"
  proof (intro impI conjI allI)
    assume o: "opt \<noteq> DAG_CRITICAL"
    then have c: "dg_colour st1 = (dg_colour st)[v := length X]" "length (dg_colour st) = sp_nAct S" using i by (auto simp: st1_def dag_expand_def)
    show "length (dg_colour st1) = sp_nAct S" using c by simp
    show "dg_colour st1 ! ((X @ [v]) ! j) = j" if "j < length (X @ [v])" for j
    proof (cases "j = length X")
      case True
      then show ?thesis using c v(1) by simp
    next
      case False
      then have "j < length X" "X ! j \<noteq> v" using that v(2) by auto
      then show ?thesis using c i o by (simp add: nth_append)
    qed
    show "dg_colour st1 ! w = NoNode" if "w < sp_nAct S" "w \<notin> set (X @ [v])" for w using that c i o by auto
  qed
  moreover have keep: "dg_idg st1 = dg_idg st" "dg_Q st1 = Q" "dg_dist st1 = dg_dist st" "dg_pred st1 = dg_pred st"
    by (simp_all add: st1_def dag_expand_def)
  moreover have "set (X @ [v]) \<union> set qs = set (X @ sq_items (dg_Q st))" by (auto simp: q)
  ultimately show "dag_inv S el opt (X @ [v]) P st1" using i Q dis unfolding dag_inv_def by (auto simp: q)
  show "dag_lab S el opt s B (Suc (length X)) (X @ [v]) P st1"
    using lab labels_mono [OF _ B, of S el _ _ "length X"] unfolding dag_lab_def keep Q(3) by (auto simp: q)
  show "dag_D opt (dg_dist st1) v \<le> real (length X) * B" if "opt \<noteq> DAG_TOPSORT" "dag_D opt (dg_dist st1) v \<noteq> InfFloat"
    using lab that v(1) unfolding dag_lab_def labels_ok_def keep by blast
qed

lemma dag_loop_ok:
  assumes data: "dag_data S delta opt B" and ready: "dag_ready S (plain_arc S delta) opt s B X st"
    and I: "it_ok S I" "\<And>v. v < sp_nAct S \<Longrightarrow> v \<notin> set X \<Longrightarrow> it_current I ! v = NoArc"
  shows "\<exists>X' st'. dag_loop S delta opt (length X) I st = Some (Inr (length X', st')) \<and> dag_ready S (plain_arc S delta) opt s B X' st'
    \<and> sq_items (dg_Q st') = []"
  using ready I
proof (induction "sp_nAct S - length X" arbitrary: X I st rule: less_induct)
  case less
  let ?el = "plain_arc S delta" and ?n = "sp_nAct S"
  define P where "P = {a. a < 2 * sp_mAct S \<and> ?el a \<and> sp_SN S ! a \<in> set X}"
  have inv: "dag_inv S ?el opt X P st" and lab: "dag_lab S ?el opt s B (length X) X P st"
    using less.prems(1) by (simp_all add: dag_ready_def P_def Let_def)
  have Q: "sq_inv (dg_Q st)" "sq_n (dg_Q st) = ?n" using inv by (simp_all add: dag_inv_def)
  show ?case
  proof (cases "sq_items (dg_Q st)")
    case Nil
    then have "staticQueue_Empty (dg_Q st)" using squeue.seq_empty [OF Q(1)] by simp
    then show ?thesis using less.prems(1) Nil by (subst dag_loop.simps) auto
  next
    case (Cons v qs)
    then have ne: "\<not> staticQueue_Empty (dg_Q st)" using squeue.seq_empty [OF Q(1)] by simp
    obtain Q' where Q': "staticQueue_Delete (dg_Q st) = Inr (v, Q')" "sq_items Q' = qs" "sq_n Q' = ?n" "sq_inv Q'"
      using squeue.seq_del_Cons [OF Q(1) Cons] Q(2) by auto
    have B: "0 \<le> B" and ok: "rings_ok S {}" using data by (simp_all add: dag_data_def sp_inv_rings)
    let ?st1 = "dag_expand opt (length X) v Q' st" and ?X = "X @ [v]"
    note ex = dag_expand_ok [OF inv lab B Cons Q'(4,3,2)]
    note arcs = node_arcs_ok(1,2) [OF ok ex(4)]
    have as: "\<forall>a \<in> set (node_arcs S v). a < 2 * sp_mAct S \<and> sp_SN S ! a = v \<and> a \<notin> P" using arcs(2) ex(5) by (auto simp: arcs_at_def P_def)
    have vX: "v \<in> set ?X" by simp
    obtain st2 where st2: "rfold (dag_body S delta opt v) (node_arcs S v) ?st1 = Inr st2"
      "dag_inv S ?el opt ?X (P \<union> {b \<in> set (node_arcs S v). ?el b}) st2"
      "dag_lab S ?el opt s B (Suc (length X)) ?X (P \<union> {b \<in> set (node_arcs S v). ?el b}) st2"
      using dag_scan_ok [OF data ex(1,2) ex(6) vX arcs(1) as ex(3)] by blast
    have eq: "P \<union> {b \<in> set (node_arcs S v). ?el b} = {a. a < 2 * sp_mAct S \<and> ?el a \<and> sp_SN S ! a \<in> set ?X}"
      using arcs(2) by (auto simp: arcs_at_def P_def)
    let ?I = "I\<lparr>it_current := (it_current I)[v := sp_first S ! v]\<rparr>"
    have "read_loop S v (dag_body S delta opt v) I ?st1 = Some (Inr (?I, st2))"
      using read_loop_fold [OF ok ex(4) less.prems(2) less.prems(3) [OF ex(4,5)], of "dag_body S delta opt v" ?st1] st2(1) by simp
    then have loop: "dag_loop S delta opt (length X) I st = dag_loop S delta opt (length ?X) ?I st2"
      using ne Q'(1) by (subst dag_loop.simps) simp
    have "dag_ready S ?el opt s B ?X st2" using st2(2,3) by (simp add: dag_ready_def eq Let_def)
    moreover have "it_ok S ?I" using less.prems(2) by (simp add: it_ok_def)
    moreover have "it_current ?I ! w = NoArc" if "w < ?n" "w \<notin> set ?X" for w using that less.prems(3) [of w] by auto
    moreover have "?n - length ?X < ?n - length X" using ex(6) by simp
    ultimately show ?thesis unfolding loop using less.hyps [of ?X st2 ?I] by blast
  qed
qed

section \<open>The start and the end\<close>

lemma rfold_snoc: "rfold f (xs @ [x]) st = rbind (rfold f xs st) (f x)"
  by (induction xs arbitrary: st) (simp_all add: rbind_def split: sum.split)

lemma dag_sources_ok:
  assumes "sq_inv (dg_Q st)" "sq_n (dg_Q st) = n" "sq_items (dg_Q st) = []" "k \<le> n"
  shows "\<exists>Q d. rfold (dag_source opt s) [0..<k] st = Inr (st\<lparr>dg_Q := Q, dg_dist := d\<rparr>) \<and> sq_inv Q \<and> sq_n Q = n
    \<and> sq_items Q = filter (\<lambda>v. dg_idg st ! v = 0) [0..<k] \<and> length d = length (dg_dist st)
    \<and> (\<forall>v < length d. d ! v = (if (opt = DAG_CRITICAL \<or> opt = DAG_SPTREE \<and> s = NoNode) \<and> v < k \<and> dg_idg st ! v = 0 then 0 else dg_dist st ! v))"
  using assms(4)
proof (induction k)
  case 0
  then show ?case using assms(1-3) by (intro exI [of _ "dg_Q st"] exI [of _ "dg_dist st"]) simp
next
  case (Suc k)
  let ?z = "opt = DAG_CRITICAL \<or> opt = DAG_SPTREE \<and> s = NoNode"
  obtain Q d where Q: "rfold (dag_source opt s) [0..<k] st = Inr (st\<lparr>dg_Q := Q, dg_dist := d\<rparr>)" "sq_inv Q" "sq_n Q = n"
    "sq_items Q = filter (\<lambda>v. dg_idg st ! v = 0) [0..<k]" "length d = length (dg_dist st)"
    "\<forall>v < length d. d ! v = (if ?z \<and> v < k \<and> dg_idg st ! v = 0 then 0 else dg_dist st ! v)" using Suc by auto
  have step: "rfold (dag_source opt s) [0..<Suc k] st = dag_source opt s k (st\<lparr>dg_Q := Q, dg_dist := d\<rparr>)"
    using Q(1) by (simp add: rfold_snoc)
  show ?case
  proof (cases "dg_idg st ! k = 0")
    case False
    then have "rfold (dag_source opt s) [0..<Suc k] st = Inr (st\<lparr>dg_Q := Q, dg_dist := d\<rparr>)" using step by (simp add: dag_source_def)
    then show ?thesis using False Q(2-6) by (intro exI [of _ Q] exI [of _ d]) (auto simp: less_Suc_eq)
  next
    case True
    obtain Q' where Q': "staticQueue_Insert1 Q k = Inr Q'" "sq_items Q' = sq_items Q @ [k]" "sq_n Q' = n" "sq_inv Q'"
      using squeue.seq_ins [OF Q(2), of k] Q(3,4) Suc.prems by (auto simp: enqueue_place_def)
    let ?d = "if ?z then d[k := 0] else d"
    have "rfold (dag_source opt s) [0..<Suc k] st = Inr (st\<lparr>dg_Q := Q', dg_dist := ?d\<rparr>)" using step True Q'(1) by (simp add: dag_source_def)
    moreover have "?d ! v = (if ?z \<and> v < Suc k \<and> dg_idg st ! v = 0 then 0 else dg_dist st ! v)" if "v < length d" for v
    proof (cases "v = k")
      case True
      then show ?thesis using that \<open>dg_idg st ! k = 0\<close> Q(6) by simp
    next
      case False
      then have "?d ! v = d ! v" "v < Suc k \<longleftrightarrow> v < k" by auto
      then show ?thesis using that Q(6) by simp
    qed
    moreover have "length ?d = length d" by simp
    moreover have "sq_items Q' = filter (\<lambda>v. dg_idg st ! v = 0) [0..<Suc k]" using Q(4) Q'(2) True by simp
    ultimately show ?thesis using Q(5) Q'(3,4) by (intro exI [of _ Q'] exI [of _ ?d] conjI) (simp_all del: upt_Suc)
  qed
qed

lemma dag_start_ok:
  assumes data: "dag_data S delta opt B" and s: "opt = DAG_SPTREE \<Longrightarrow> s = NoNode \<or> s < sp_nAct S"
  shows "\<exists>idg c d p st. rfold (dag_count S delta) [0..<2 * sp_mAct S] (replicate (sp_nAct S) 0) = Inr idg
    \<and> dag_labels opt (sp_nAct S) s = Inr (c, d, p)
    \<and> rfold (dag_source opt s) [0..<sp_nAct S] \<lparr>dg_idg = idg, dg_colour = c, dg_dist = d, dg_pred = p, dg_Q = staticQueue (sp_nAct S) h junk\<rparr> = Inr st
    \<and> dag_ready S (plain_arc S delta) opt s B [] st"
proof -
  let ?n = "sp_nAct S" and ?el = "plain_arc S delta"
  obtain idg where g: "rfold (dag_count S delta) [0..<2 * sp_mAct S] (replicate ?n 0) = Inr idg" "length idg = ?n"
    "\<forall>w < ?n. idg ! w = card (in_arcs S ?el w)"
  proof -
    have "in_arcs S ?el w \<inter> {..<2 * sp_mAct S} = in_arcs S ?el w" for w by (auto simp: in_arcs_def)
    then show thesis using that dag_count_ok [of S "2 * sp_mAct S" delta] data by (auto simp: dag_data_def)
  qed
  obtain c d p where l: "dag_labels opt ?n s = Inr (c, d, p)" using s by (cases opt) (auto simp: dag_labels_def)
  let ?st = "\<lparr>dg_idg = idg, dg_colour = c, dg_dist = d, dg_pred = p, dg_Q = staticQueue ?n h junk\<rparr>"
  have new: "sq_inv (staticQueue ?n h junk)" "sq_n (staticQueue ?n h junk) = ?n" "sq_items (staticQueue ?n h junk) = []"
    by (simp_all add: staticQueue_new_inv) (simp add: staticQueue_def)
  obtain Q e where Q: "rfold (dag_source opt s) [0..<?n] ?st = Inr (?st\<lparr>dg_Q := Q, dg_dist := e\<rparr>)" "sq_inv Q" "sq_n Q = ?n"
    "sq_items Q = filter (\<lambda>v. dg_idg ?st ! v = 0) [0..<?n]" "length e = length (dg_dist ?st)"
    "\<forall>v < length e. e ! v = (if (opt = DAG_CRITICAL \<or> opt = DAG_SPTREE \<and> s = NoNode) \<and> v < ?n \<and> dg_idg ?st ! v = 0 then 0 else dg_dist ?st ! v)"
    using dag_sources_ok [of ?st ?n ?n opt s] new by auto
  note Q = Q(1-3) Q(4-6) [unfolded dag_state.select_convs]
  let ?s = "?st\<lparr>dg_Q := Q, dg_dist := e\<rparr>"
  have zero: "idg ! w = 0 \<longleftrightarrow> in_arcs S ?el w = {}" if "w < ?n" for w using g(3) that by simp
  have "dag_inv S ?el opt [] {} ?s"
    using g(2,3) Q(2-4) zero l by (cases opt) (auto simp: dag_inv_def topological_def dag_labels_def split: if_splits)
  moreover have "dag_lab S ?el opt s B 0 [] {} ?s"
  proof (cases opt)
    case DAG_TOPSORT
    then show ?thesis by (simp add: dag_lab_def)
  next
    case DAG_CRITICAL
    have len: "length e = ?n" "p = replicate ?n NoArc" using l Q(5) DAG_CRITICAL by (auto simp: dag_labels_def)
    have e: "dag_D opt e v = (if in_arcs S ?el v = {} then 0 else InfFloat)" if "v < ?n" for v
      using that Q(6) l DAG_CRITICAL zero len by (auto simp: dag_D_def dag_sign_def dag_labels_def)
    have "\<exists>as. awalk S ?el v as v \<and> len (dag_cost S opt) as = 0" for v by (intro exI [of _ "[]"]) simp
    then show ?thesis using e len Q(4) zero DAG_CRITICAL
      by (auto simp: dag_lab_def labels_ok_def dag_srcs_def InfFloat_def)
  next
    case DAG_SPTREE
    have len: "length e = ?n" "p = replicate ?n NoArc" using l Q(5) s DAG_SPTREE by (auto simp: dag_labels_def split: if_splits)
    have e: "dag_D opt e v = (if v \<in> dag_srcs S ?el opt s then 0 else InfFloat)" if "v < ?n" for v
      using that Q(6) l DAG_SPTREE zero len s by (auto simp: dag_D_def dag_sign_def dag_labels_def dag_srcs_def split: if_splits)
    have src: "dag_srcs S ?el opt s \<subseteq> {..<?n}" using s DAG_SPTREE by (auto simp: dag_srcs_def)
    have "\<exists>s \<in> dag_srcs S ?el opt s. \<exists>as. awalk S ?el s as v \<and> len (dag_cost S opt) as = 0" if "v \<in> dag_srcs S ?el opt s" for v
      using that by (intro bexI [of _ v] exI [of _ "[]"]) simp_all
    then show ?thesis using e len src DAG_SPTREE by (auto simp: dag_lab_def labels_ok_def InfFloat_def)
  qed
  ultimately have "dag_ready S ?el opt s B [] ?s" by (simp add: dag_ready_def)
  then show ?thesis using g(1) l Q(1) by blast
qed

lemma DAGSearch_ok:
  assumes data: "dag_data S delta opt B" and s: "opt = DAG_SPTREE \<Longrightarrow> s = NoNode \<or> s < sp_nAct S" and t: "opt = DAG_SPTREE \<Longrightarrow> t = NoNode \<or> t < sp_nAct S"
  obtains v X st where "sp_DAGSearch S delta opt s t h junk = Some (Inr (v, st))" "dag_ready S (plain_arc S delta) opt s B X st"
    "sq_items (dg_Q st) = []" "dag_result (sp_nAct S) opt t (length X) st = Inr v"
proof -
  obtain idg c d p st where i: "rfold (dag_count S delta) [0..<2 * sp_mAct S] (replicate (sp_nAct S) 0) = Inr idg" "dag_labels opt (sp_nAct S) s = Inr (c, d, p)"
    "rfold (dag_source opt s) [0..<sp_nAct S] \<lparr>dg_idg = idg, dg_colour = c, dg_dist = d, dg_pred = p, dg_Q = staticQueue (sp_nAct S) h junk\<rparr> = Inr st"
    "dag_ready S (plain_arc S delta) opt s B [] st" using dag_start_ok [OF data s, of h junk] by blast
  obtain X st' where l: "dag_loop S delta opt 0 (iGraph_new S) st = Some (Inr (length X, st'))" "dag_ready S (plain_arc S delta) opt s B X st'"
    "sq_items (dg_Q st') = []"
    using dag_loop_ok [OF data i(4), of "iGraph_new S"] by (auto simp: iGraph_new_def it_ok_def)
  have "\<not> (opt = DAG_SPTREE \<and> t \<noteq> NoNode \<and> t \<ge> sp_nAct S)" using t by auto
  then have "\<exists>v. dag_result (sp_nAct S) opt t (length X) st' = Inr v" unfolding dag_result_def by (auto split: option.split)
  then obtain v where v: "dag_result (sp_nAct S) opt t (length X) st' = Inr v" ..
  have "sp_DAGSearch S delta opt s t h junk = Some (Inr (v, st'))" using i l(1) v by (simp add: sp_DAGSearch_def)
  then show thesis using that l(2,3) v by blast
qed

text \<open>At the end all nodes have been expanded, or there is a cycle before each of the others.\<close>

lemma dag_end:
  assumes data: "dag_data S delta opt B" and ready: "dag_ready S (plain_arc S delta) opt s B X st" "sq_items (dg_Q st) = []"
  shows "distinct X" "set X \<subseteq> {..<sp_nAct S}" "topological S (plain_arc S delta) X" "length X < sp_nAct S \<longleftrightarrow> set X \<noteq> {..<sp_nAct S}"
    and "acyclic_arcs S (plain_arc S delta) \<longleftrightarrow> set X = {..<sp_nAct S}"
    and "v < sp_nAct S \<Longrightarrow> v \<notin> set X \<Longrightarrow> \<exists>x ys zs. x < sp_nAct S \<and> ys \<noteq> [] \<and> awalk S (plain_arc S delta) x ys x \<and> awalk S (plain_arc S delta) x zs v"
proof -
  let ?el = "plain_arc S delta" and ?n = "sp_nAct S"
  note i = ready(1) [unfolded dag_ready_def Let_def, THEN conjunct1, unfolded dag_inv_def ready(2)]
  show X: "distinct X" "set X \<subseteq> {..<?n}" "topological S ?el X" using i by simp_all
  have len: "length X = card (set X)" using X(1) by (simp add: distinct_card)
  show "length X < ?n \<longleftrightarrow> set X \<noteq> {..<?n}"
  proof
    show "set X \<noteq> {..<?n}" if "length X < ?n" using that len by (metis card_lessThan less_irrefl)
    show "length X < ?n" if "set X \<noteq> {..<?n}" using that len X(2) psubset_card_mono [of "{..<?n}" "set X"] by (simp add: psubset_eq)
  qed
  have pre: "\<exists>a \<in> in_arcs S ?el w. sp_SN S ! a \<in> {..<?n} - set X" if w: "w \<in> {..<?n} - set X" for w
  proof -
    have "\<not> in_arcs S ?el w \<subseteq> {a. a < 2 * sp_mAct S \<and> ?el a \<and> sp_SN S ! a \<in> set X}" using i w by auto
    then obtain a where "a \<in> in_arcs S ?el w" "sp_SN S ! a \<notin> set X" by (auto simp: in_arcs_def)
    then show ?thesis using data by (auto simp: in_arcs_def dag_data_def no_cancelled_def)
  qed
  show cyc: "\<exists>x ys zs. x < ?n \<and> ys \<noteq> [] \<and> awalk S ?el x ys x \<and> awalk S ?el x zs v" if "v < ?n" "v \<notin> set X" for v
  proof -
    have live: "no_cancelled S" and v: "v \<in> {..<?n} - set X" using data that by (simp_all add: dag_data_def)
    obtain x ys zs where "x < ?n" "ys \<noteq> []" "awalk S ?el x ys x" "awalk S ?el x zs v"
      by (rule backward_cycle [OF live v Diff_subset pre])
    then show ?thesis by blast
  qed
  show "acyclic_arcs S ?el \<longleftrightarrow> set X = {..<?n}"
  proof
    show "acyclic_arcs S ?el" if "set X = {..<?n}" using topological_acyclic [OF X(3,1) that] .
    show "set X = {..<?n}" if "acyclic_arcs S ?el"
    proof (rule ccontr)
      assume "set X \<noteq> {..<?n}"
      then obtain w where "w < ?n" "w \<notin> set X" using X(2) by auto
      then show False using cyc that unfolding acyclic_arcs_def by blast
    qed
  qed
qed

lemma dag_end_all:
  assumes "dag_data S delta opt B" "dag_ready S (plain_arc S delta) opt s B X st" "sq_items (dg_Q st) = []"
  shows "acyclic_arcs S (plain_arc S delta) \<longleftrightarrow> set X = {..<sp_nAct S}" "acyclic_arcs S (plain_arc S delta) \<longleftrightarrow> \<not> length X < sp_nAct S"
  using dag_end(4,5) [OF assms] by blast+

text \<open>The labels of an acyclic graph.\<close>

lemma dag_labels_end:
  assumes data: "dag_data S delta opt B" and ready: "dag_ready S (plain_arc S delta) opt s B X st" "sq_items (dg_Q st) = []" and opt: "opt \<noteq> DAG_TOPSORT"
    and X: "set X = {..<sp_nAct S}" and w: "w < sp_nAct S"
  defines "D \<equiv> dag_D opt (dg_dist st)" and "a \<equiv> dg_pred st ! w" and "Src \<equiv> dag_srcs S (plain_arc S delta) opt s"
  shows "opt = DAG_CRITICAL \<Longrightarrow> D w < InfFloat"
    and "D w \<noteq> InfFloat \<Longrightarrow> \<exists>u \<in> Src. \<exists>as. awalk S (plain_arc S delta) u as w \<and> len (dag_cost S opt) as = D w"
    and "D w \<noteq> InfFloat \<Longrightarrow> w \<in> Src \<and> a = NoArc \<or> a < 2 * sp_mAct S \<and> plain_arc S delta a \<and> sp_SN S ! flip a = w \<and> D w = D (sp_SN S ! a) + dag_cost S opt a"
    and "u \<in> Src \<Longrightarrow> u < sp_nAct S \<Longrightarrow> awalk S (plain_arc S delta) u as w \<Longrightarrow> D w \<noteq> InfFloat \<and> D w \<le> len (dag_cost S opt) as"
proof -
  let ?el = "plain_arc S delta" and ?n = "sp_nAct S"
  define P where "P = {a. a < 2 * sp_mAct S \<and> ?el a \<and> sp_SN S ! a \<in> set X}"
  have lab: "dag_lab S ?el opt s B (length X) X P st" using ready(1) by (simp add: dag_ready_def P_def Let_def)
  have L: "labels_ok S ?el (dag_cost S opt) Src B (length X) P D ((!) (dg_pred st))"
    using lab opt by (simp add: dag_lab_def D_def Src_def)
  note l = L [unfolded labels_ok_def, THEN conjunct2, THEN conjunct2, THEN conjunct1, rule_format, OF w]
  have "D w \<le> InfFloat" using L w by (simp add: labels_ok_def)
  then show "D w < InfFloat" if "opt = DAG_CRITICAL" using lab that X w by (simp add: dag_lab_def D_def less_le)
  show "\<exists>u \<in> Src. \<exists>as. awalk S ?el u as w \<and> len (dag_cost S opt) as = D w" if "D w \<noteq> InfFloat" using l [OF that] by (rule conjunct1 [OF conjunct2])
  show "w \<in> Src \<and> a = NoArc \<or> a < 2 * sp_mAct S \<and> ?el a \<and> sp_SN S ! flip a = w \<and> D w = D (sp_SN S ! a) + dag_cost S opt a" if "D w \<noteq> InfFloat"
    using conjunct2 [OF conjunct2 [OF l [OF that]]] by (auto simp: a_def P_def)
  have live: "no_cancelled S" and n: "length X = ?n" using data dag_end(1) [OF data ready] X by (simp_all add: dag_data_def flip: distinct_card)
  have all: "b \<in> P" if "b < 2 * sp_mAct S" "?el b" for b using that live X by (simp add: P_def no_cancelled_def)
  have B: "real (Suc (length X)) * B < InfFloat" using data opt n by (simp add: dag_data_def)
  have c: "dag_cost S opt b \<le> B" if "b < 2 * sp_mAct S" "?el b" for b
  proof -
    have "\<bar>cost S SPX_PLAIN None b\<bar> \<le> B" using data that opt by (simp add: dag_data_def)
    then show ?thesis by (auto simp: dag_cost_def dag_sign_def)
  qed
  show "D w \<noteq> InfFloat \<and> D w \<le> len (dag_cost S opt) as" if "u \<in> Src" "u < ?n" "awalk S ?el u as w"
    by (rule labels_final [OF L all live that B c])
qed

lemma dag_max_ok:
  assumes "0 < n" "\<And>v. v < n \<Longrightarrow> d ! v > - InfFloat" "n \<le> NoNode"
  shows "dag_max n d < n" "\<forall>v < n. d ! v \<le> d ! dag_max n d"
proof -
  have "dag_max k d < k \<and> (\<forall>v < k. d ! v \<le> d ! dag_max k d)" if "0 < k" "k \<le> n" for k
    using that
  proof (induction k)
    case (Suc k)
    let ?m = "dag_max k d"
    have step: "dag_max (Suc k) d = (if ?m = NoNode \<and> d ! k > - InfFloat \<or> ?m \<noteq> NoNode \<and> d ! k > d ! ?m then k else ?m)"
      by (simp add: dag_max_def)
    show ?case
    proof (cases "k = 0")
      case True
      then show ?thesis using step assms(1,2) by (simp add: dag_max_def)
    next
      case False
      then have IH: "?m < k" "\<forall>v < k. d ! v \<le> d ! ?m" using Suc by auto
      then have "?m \<noteq> NoNode" using Suc.prems(2) assms(3) by simp
      then show ?thesis using IH step by (auto simp: less_Suc_eq intro: order_trans less_imp_le)
    qed
  qed simp
  then show "dag_max n d < n" "\<forall>v < n. d ! v \<le> d ! dag_max n d" using assms(1) by auto
qed

section \<open>An example\<close>

lemma dg_example_plain: "a < 2 \<Longrightarrow> plain_arc dg_example 0 a \<longleftrightarrow> a = 0"
proof -
  assume a: "a < 2"
  have o: "sp_Orientation dg_example a \<noteq> 0" using dg_example_facts(3,6) a by (simp add: network_def)
  have "a = 0 \<or> a = 1" using a by auto
  then show "plain_arc dg_example 0 a \<longleftrightarrow> a = 0" using o dg_example_facts(3,9)
    by (auto simp: eligible_def sp_Eligible_def SPX_PLAIN_def spx_has_def sp_Blocking_def)
qed

lemma dg_example_dag:
  "no_cancelled dg_example" "in_arcs dg_example (plain_arc dg_example 0) 0 = {}" "in_arcs dg_example (plain_arc dg_example 0) 1 = {0}"
  "acyclic_arcs dg_example (plain_arc dg_example 0)"
proof -
  note f = dg_example_facts
  have 2: "a < 2 \<longleftrightarrow> a = 0 \<or> a = (1::nat)" for a by auto
  have fl: "flip 0 = (1::nat)" by (simp add: flip_def)
  show "no_cancelled dg_example" using f(2-5) by (simp add: no_cancelled_def 2)
  show in0: "in_arcs dg_example (plain_arc dg_example 0) 0 = {}" and in1: "in_arcs dg_example (plain_arc dg_example 0) 1 = {0}"
    using f(3-5) dg_example_plain fl by (auto simp: in_arcs_def)
  have "topological dg_example (plain_arc dg_example 0) ([0] @ [1])" using in0 in1 f(4) by (simp add: topological_def less_Suc_eq)
  then show "acyclic_arcs dg_example (plain_arc dg_example 0)" by (rule topological_acyclic) (auto simp: f(2))
qed

lemma dg_example_walk: "awalk dg_example (plain_arc dg_example 0) 0 [0] 1"
  using dg_example_facts(3-5) dg_example_plain [of 0] by (simp add: flip_def)

lemma dg_example_cost:
  assumes "a < 2" shows "cost dg_example SPX_PLAIN None a = 5"
proof -
  have n: "2 \<le> NoNode" "2 \<le> (10::nat)" "10 \<le> NoArc" "10 \<le> NoNode" by (simp_all add: NoNode_def NoArc_def)
  obtain S where S: "diGraph_new 10 10 2 = Inr S" "sp_history S" "sp_nAct S = 2" "sp_mAct S = 0" "sp_mMax S = 0"
    "sp_maxArc S = 10" "\<not> sp_referenced S" "\<And>a. sp_LCap S a = 0"
    using diGraph_new_ok [OF n] by metis
  have g: "sp_guard (Op_InsertArc 0 1 2 5 0) S" using S by simp
  have geo: "sp_geometry S = sp_geometry (sparseRepresentation 10 10 2)"
    using S(1) by (auto simp: diGraph_new_def sp_SetCDemand_def sp_SetCOrientation_def set_constant_def rbind_Inr_iff)
  have len: "sp_length dg_example a = 5"
    by (rule InsertArc_exec [OF sp_history_inv [OF S(2)] g]) (use S(1,4) assms in \<open>simp add: dg_example_def\<close>)
  obtain e where "sp_InsertArc S 0 1 2 5 0 = Inr (e, dg_example)"
    by (rule InsertArc_exec [OF sp_history_inv [OF S(2)] g]) (use S(1) in \<open>simp add: dg_example_def\<close>)
  from InsertArc_geometry [OF g this] geo have "attributePool_GetValue (sp_geometry dg_example) TokGeoMetric 0 0 = 0"
    by (simp add: sparseRepresentation_def attributePool_GetValue_def attributePool_FindAttribute_def attributePool_new_def)
  then show ?thesis using len assms dg_example_facts(3) by (simp add: cost_def dj_cost_def sp_Length_def SPX_PLAIN_def sp_length_def)
qed

lemma dg_example_bound:
  "real (sp_nAct dg_example + 1) * 5 < InfFloat" "\<forall>a < 2 * sp_mAct dg_example. plain_arc dg_example 0 a \<longrightarrow> \<bar>cost dg_example SPX_PLAIN None a\<bar> \<le> 5"
  using dg_example_facts(2,3) dg_example_cost by (simp_all add: InfFloat_def)

section \<open>Properties\<close>

text \<open>
  C15: \<open>TopSort\<close> returns on every graph without cancelled arcs. If the eligible arcs (positive capacity, not blocked) form no
  cycle, it returns \<open>NoNode\<close> and the node colours number the nodes from \<open>0\<close> to \<open>n - 1\<close> such that every arc leads to a
  node with a greater number. Otherwise it returns a node that can be reached from a cycle.
\<close>

theorem TopSort_numbering:
  assumes "sp_history S" "no_cancelled S"
  shows "\<exists>v st. sp_TopSort S delta h junk = Some (Inr (v, st))
    \<and> (if acyclic_arcs S (plain_arc S delta)
       then v = NoNode \<and> bij_betw ((!) (dg_colour st)) {..<sp_nAct S} {..<sp_nAct S}
         \<and> (\<forall>a < 2 * sp_mAct S. plain_arc S delta a \<longrightarrow> dg_colour st ! (sp_SN S ! a) < dg_colour st ! (sp_SN S ! flip a))
       else v < sp_nAct S \<and> (\<exists>x ys zs. ys \<noteq> [] \<and> awalk S (plain_arc S delta) x ys x \<and> awalk S (plain_arc S delta) x zs v))"
proof -
  let ?el = "plain_arc S delta" and ?n = "sp_nAct S"
  have data: "dag_data S delta DAG_TOPSORT 0" using assms sp_history_inv by (simp add: dag_data_def)
  obtain v X st where r: "sp_DAGSearch S delta DAG_TOPSORT NoNode NoNode h junk = Some (Inr (v, st))" "dag_ready S ?el DAG_TOPSORT NoNode 0 X st"
    "sq_items (dg_Q st) = []" "dag_result ?n DAG_TOPSORT NoNode (length X) st = Inr v"
    by (rule DAGSearch_ok [OF data, of NoNode NoNode h junk]) simp_all
  note e = dag_end [OF data r(2,3)]
  note i = r(2) [unfolded dag_ready_def Let_def, THEN conjunct1, unfolded dag_inv_def]
  have col: "\<And>j. j < length X \<Longrightarrow> dg_colour st ! (X ! j) = j" "\<And>v. v < ?n \<Longrightarrow> v \<notin> set X \<Longrightarrow> dg_colour st ! v = NoNode" using i by auto
  show ?thesis
  proof (cases "acyclic_arcs S ?el")
    case True
    then have X: "set X = {..<?n}" "length X = ?n" using e(1,5) distinct_card [OF e(1)] by auto
    have bij: "bij_betw ((!) (dg_colour st)) {..<?n} {..<?n}"
    proof (rule bij_betw_byWitness [where f' = "(!) X"])
      show "\<forall>a \<in> {..<?n}. X ! (dg_colour st ! a) = a" using X col(1) by (metis in_set_conv_nth)
      show "(!) (dg_colour st) ` {..<?n} \<subseteq> {..<?n}"
      proof
        fix c assume "c \<in> (!) (dg_colour st) ` {..<?n}"
        then obtain u where "u \<in> set X" "c = dg_colour st ! u" using X(1) by auto
        then show "c \<in> {..<?n}" using col(1) X(2) by (metis in_set_conv_nth lessThan_iff)
      qed
    qed (use X col(1) in \<open>auto dest: nth_mem\<close>)
    have "dg_colour st ! (sp_SN S ! a) < dg_colour st ! (sp_SN S ! flip a)" if a: "a < 2 * sp_mAct S" "?el a" for a
    proof -
      have "awalk S ?el (sp_SN S ! a) [a] (sp_SN S ! flip a)" using a by simp
      moreover have "sp_SN S ! flip a \<in> set X" using assms(2) a(1) X(1) by (simp add: no_cancelled_def)
      ultimately obtain j k where "j < k" "k < length X" "X ! j = sp_SN S ! a" "X ! k = sp_SN S ! flip a"
        using topological_walk [OF e(3,1)] by blast
      then show ?thesis using col(1) [of j] col(1) [of k] by simp
    qed
    then show ?thesis using True r(1,4) X bij by (auto simp: sp_TopSort_def dag_result_def)
  next
    case False
    then have lt: "length X < ?n" using e(4,5) by blast
    then obtain w where w: "w < ?n" "w \<notin> set X" using e(2,4) by auto
    then have "find (\<lambda>v. dg_colour st ! v = NoNode) [0..<?n] \<noteq> None" using col(2) by (auto simp: find_None_iff)
    then obtain u where u: "find (\<lambda>v. dg_colour st ! v = NoNode) [0..<?n] = Some u" by auto
    then have un: "u < ?n" "dg_colour st ! u = NoNode" by (auto simp: find_Some_iff)
    have "?n \<le> NoNode" using sp_inv_shape [OF sp_history_inv [OF assms(1)]] by (simp add: sp_shape_def)
    then have "u \<notin> set X" using un(2) col(1) lt by (metis in_set_conv_nth less_trans not_le)
    moreover have "v = u" using r(4) u lt by (simp add: dag_result_def)
    ultimately show ?thesis using False r(1) un(1) e(6) [of u] by (auto simp: sp_TopSort_def)
  qed
qed

theorem TopSort_numbering_witness:
  "\<exists>st. sp_TopSort dg_example 0 NoHandle 0 = Some (Inr (NoNode, st)) \<and> dg_colour st ! 0 < dg_colour st ! 1"
proof -
  note f = dg_example_facts
  have a: "0 < 2 * sp_mAct dg_example" "plain_arc dg_example 0 0" "flip 0 = (1::nat)" using f(3) dg_example_plain [of 0] by (simp_all add: flip_def)
  obtain st where "sp_TopSort dg_example 0 NoHandle 0 = Some (Inr (NoNode, st))"
    "\<forall>a < 2 * sp_mAct dg_example. plain_arc dg_example 0 a \<longrightarrow> dg_colour st ! (sp_SN dg_example ! a) < dg_colour st ! (sp_SN dg_example ! flip a)"
    using TopSort_numbering [OF f(1) dg_example_dag(1), of 0 NoHandle 0] dg_example_dag(4) by auto
  then show ?thesis using a f(4,5) by metis
qed

text \<open>
  C16: \<open>CriticalPath\<close> returns on every graph with a node and without cancelled arcs whose arc lengths stay below \<open>InfFloat\<close> when \<open>n + 1\<close> of them are
  added. If the eligible arcs form a cycle, it returns \<open>NoNode\<close>. Otherwise the label of every node is the length of a longest walk to it
  from the nodes without incoming arcs, the predecessor arcs other than \<open>NoArc\<close> are eligible arcs that attain it, and the node returned
  has the greatest label.
\<close>

theorem CriticalPath_longest:
  assumes "sp_history S" "no_cancelled S" "0 < sp_nAct S" "0 \<le> B" "real (sp_nAct S + 1) * B < InfFloat"
    and "\<forall>a < 2 * sp_mAct S. plain_arc S delta a \<longrightarrow> \<bar>cost S SPX_PLAIN None a\<bar> \<le> B"
  shows "\<exists>v st. sp_CriticalPath S delta h junk = Some (Inr (v, st))
    \<and> (if acyclic_arcs S (plain_arc S delta)
       then v < sp_nAct S \<and> (\<forall>w < sp_nAct S. dg_dist st ! w \<le> dg_dist st ! v
         \<and> (\<exists>u as. u < sp_nAct S \<and> in_arcs S (plain_arc S delta) u = {} \<and> awalk S (plain_arc S delta) u as w
              \<and> len (cost S SPX_PLAIN None) as = dg_dist st ! w)
         \<and> (\<forall>u as. u < sp_nAct S \<and> in_arcs S (plain_arc S delta) u = {} \<and> awalk S (plain_arc S delta) u as w
              \<longrightarrow> len (cost S SPX_PLAIN None) as \<le> dg_dist st ! w)
         \<and> (let a = dg_pred st ! w in in_arcs S (plain_arc S delta) w = {} \<and> a = NoArc
              \<or> a < 2 * sp_mAct S \<and> plain_arc S delta a \<and> sp_SN S ! flip a = w \<and> dg_dist st ! w = dg_dist st ! (sp_SN S ! a) + cost S SPX_PLAIN None a))
       else v = NoNode)"
proof -
  let ?el = "plain_arc S delta" and ?n = "sp_nAct S" and ?o = DAG_CRITICAL and ?c = "cost S SPX_PLAIN None"
  have data: "dag_data S delta ?o B" using assms sp_history_inv by (simp add: dag_data_def)
  obtain v X st where r: "sp_DAGSearch S delta ?o NoNode NoNode h junk = Some (Inr (v, st))" "dag_ready S ?el ?o NoNode B X st"
    "sq_items (dg_Q st) = []" "dag_result ?n ?o NoNode (length X) st = Inr v"
    by (rule DAGSearch_ok [OF data, of NoNode NoNode h junk]) simp_all
  note e = dag_end_all [OF data r(2,3)]
  show ?thesis
  proof (cases "acyclic_arcs S ?el")
    case False
    then show ?thesis using r(1,4) e(2) by (auto simp: sp_CriticalPath_def dag_result_def)
  next
    case True
    then have X: "set X = {..<?n}" and v: "v = dag_max ?n (dg_dist st)" using e r(4) by (auto simp: dag_result_def)
    note l = dag_labels_end [OF data r(2,3) _ X, simplified]
    have neg: "len (dag_cost S ?o) as = - len ?c as" for as by (induction as) (simp_all add: dag_cost_def dag_sign_def)
    have D: "dag_D ?o (dg_dist st) w = - (dg_dist st ! w)" for w by (simp add: dag_D_def dag_sign_def)
    have fin: "- dg_dist st ! w < InfFloat" if "w < ?n" for w using l(1) [OF that] D by simp
    have src: "u \<in> dag_srcs S ?el ?o NoNode \<longleftrightarrow> u < ?n \<and> in_arcs S ?el u = {}" for u by (simp add: dag_srcs_def)
    have "\<exists>u as. u < ?n \<and> in_arcs S ?el u = {} \<and> awalk S ?el u as w \<and> len ?c as = dg_dist st ! w" if w: "w < ?n" for w
    proof -
      have "dag_D ?o (dg_dist st) w \<noteq> InfFloat" using fin [OF w] D by simp
      then obtain u as where "u \<in> dag_srcs S ?el ?o NoNode" "awalk S ?el u as w" "len (dag_cost S ?o) as = dag_D ?o (dg_dist st) w"
        using l(2) [OF w] by blast
      then show ?thesis unfolding src neg D by (metis neg_equal_iff_equal)
    qed
    moreover have "len ?c as \<le> dg_dist st ! w" if "u < ?n" "in_arcs S ?el u = {}" "awalk S ?el u as w" "w < ?n" for u as w
      using l(4) [OF that(4) _ that(1,3)] that(1,2) unfolding src neg D by simp
    moreover have "let a = dg_pred st ! w in in_arcs S ?el w = {} \<and> a = NoArc
      \<or> a < 2 * sp_mAct S \<and> ?el a \<and> sp_SN S ! flip a = w \<and> dg_dist st ! w = dg_dist st ! (sp_SN S ! a) + ?c a" if w: "w < ?n" for w
      using l(3) [OF w] fin [OF w] unfolding src D by (auto simp: Let_def dag_cost_def dag_sign_def)
    moreover have "v < ?n" "\<forall>w < ?n. dg_dist st ! w \<le> dg_dist st ! v"
    proof -
      have "- InfFloat < dg_dist st ! w" if w: "w < ?n" for w using fin [OF w] by simp
      moreover have "?n \<le> NoNode" using sp_inv_shape [OF sp_history_inv [OF assms(1)]] by (simp add: sp_shape_def)
      ultimately show "v < ?n" "\<forall>w < ?n. dg_dist st ! w \<le> dg_dist st ! v" unfolding v using dag_max_ok [OF assms(3)] by blast+
    qed
    ultimately show ?thesis using True r(1) unfolding sp_CriticalPath_def by auto
  qed
qed

theorem CriticalPath_longest_witness:
  "\<exists>st. sp_CriticalPath dg_example 0 NoHandle 0 = Some (Inr (1, st)) \<and> dg_dist st ! 0 = 0 \<and> dg_dist st ! 1 = 5"
proof -
  let ?S = dg_example and ?el = "plain_arc dg_example 0" and ?c = "cost dg_example SPX_PLAIN None"
  note f = dg_example_facts and d = dg_example_dag
  have n: "0 < sp_nAct ?S" "(0::real) \<le> 5" using f(2) by simp_all
  obtain v st where r: "sp_CriticalPath ?S 0 NoHandle 0 = Some (Inr (v, st))" "v < 2"
    "\<forall>w < 2. dg_dist st ! w \<le> dg_dist st ! v
      \<and> (\<exists>u as. u < 2 \<and> in_arcs ?S ?el u = {} \<and> awalk ?S ?el u as w \<and> len ?c as = dg_dist st ! w)
      \<and> (let a = dg_pred st ! w in in_arcs ?S ?el w = {} \<and> a = NoArc
           \<or> a < 2 * sp_mAct ?S \<and> ?el a \<and> sp_SN ?S ! flip a = w \<and> dg_dist st ! w = dg_dist st ! (sp_SN ?S ! a) + ?c a)"
    using CriticalPath_longest [OF f(1) d(1) n dg_example_bound, of NoHandle 0] d(4) f(2) by auto
  obtain u as where u: "u < 2" "in_arcs ?S ?el u = {}" "awalk ?S ?el u as 0" "len ?c as = dg_dist st ! 0" using r(3) by (metis zero_less_numeral)
  then have "u = 0" using d(3) by (cases "u = 1") auto
  then have "as = []" using d(4) u(3) n(1) unfolding acyclic_arcs_def by blast
  then have 0: "dg_dist st ! 0 = 0" using u(4) by simp
  have "let a = dg_pred st ! 1 in a < 2 * sp_mAct ?S \<and> ?el a \<and> dg_dist st ! 1 = dg_dist st ! (sp_SN ?S ! a) + ?c a"
    using r(3) d(3) by (auto simp: Let_def dest: spec [of _ 1])
  then have 1: "dg_dist st ! 1 = 5" using dg_example_plain dg_example_cost f(3,4) 0 by (auto simp: Let_def)
  have "dg_dist st ! 1 \<le> dg_dist st ! v" using r(3) by simp
  then have "v = 1" using r(2) 0 1 by (cases "v = 0") auto
  then show ?thesis using r(1) 0 1 by blast
qed

text \<open>
  C40: \<open>DAGSearch\<close> with the option \<open>DAG_SPTREE\<close> and a source \<open>s\<close> returns \<open>NoNode\<close> on every graph without cancelled arcs whose eligible arcs
  form no cycle, whatever the signs of their lengths, as long as \<open>n + 1\<close> of them add up to less than \<open>InfFloat\<close>. The label of a node
  is \<open>InfFloat\<close> if and only if there is no walk to it, and otherwise the length of a shortest walk from \<open>s\<close>; the predecessor arcs attain it.
\<close>

theorem DAGSearch_shortest:
  assumes "sp_history S" "no_cancelled S" "s < sp_nAct S" "t = NoNode \<or> t < sp_nAct S" "0 \<le> B" "real (sp_nAct S + 1) * B < InfFloat"
    and "\<forall>a < 2 * sp_mAct S. plain_arc S delta a \<longrightarrow> \<bar>cost S SPX_PLAIN None a\<bar> \<le> B" "acyclic_arcs S (plain_arc S delta)"
  shows "\<exists>st. sp_DAGSearch S delta DAG_SPTREE s t h junk = Some (Inr (NoNode, st))
    \<and> (\<forall>w < sp_nAct S. if dg_dist st ! w = InfFloat then \<nexists>as. awalk S (plain_arc S delta) s as w
       else (\<exists>as. awalk S (plain_arc S delta) s as w \<and> len (cost S SPX_PLAIN None) as = dg_dist st ! w)
         \<and> (\<forall>as. awalk S (plain_arc S delta) s as w \<longrightarrow> dg_dist st ! w \<le> len (cost S SPX_PLAIN None) as)
         \<and> (let a = dg_pred st ! w in w = s \<and> a = NoArc
              \<or> a < 2 * sp_mAct S \<and> plain_arc S delta a \<and> sp_SN S ! flip a = w \<and> dg_dist st ! w = dg_dist st ! (sp_SN S ! a) + cost S SPX_PLAIN None a))"
proof -
  let ?el = "plain_arc S delta" and ?n = "sp_nAct S" and ?o = DAG_SPTREE and ?c = "cost S SPX_PLAIN None"
  have data: "dag_data S delta ?o B" using assms sp_history_inv by (simp add: dag_data_def)
  obtain v X st where r: "sp_DAGSearch S delta ?o s t h junk = Some (Inr (v, st))" "dag_ready S ?el ?o s B X st"
    "sq_items (dg_Q st) = []" "dag_result ?n ?o t (length X) st = Inr v"
    by (rule DAGSearch_ok [OF data, of s t h junk]) (use assms(3,4) in simp_all)
  note e = dag_end_all [OF data r(2,3)]
  have X: "set X = {..<?n}" using e(1) assms(8) by simp
  have v: "v = NoNode" using r(4) e(2) assms(4,8) by (auto simp: dag_result_def)
  note l = dag_labels_end [OF data r(2,3) _ X, simplified]
  have "?n \<le> NoNode" using sp_inv_shape [OF sp_history_inv [OF assms(1)]] by (simp add: sp_shape_def)
  then have src: "dag_srcs S ?el ?o s = {s}" using assms(3) by (simp add: dag_srcs_def)
  have D: "dag_D ?o (dg_dist st) = (!) (dg_dist st)" "dag_cost S ?o = ?c" by (simp_all add: dag_D_def dag_cost_def dag_sign_def fun_eq_iff)
  note l = l [unfolded D src]
  have "if dg_dist st ! w = InfFloat then \<nexists>as. awalk S ?el s as w
    else (\<exists>as. awalk S ?el s as w \<and> len ?c as = dg_dist st ! w) \<and> (\<forall>as. awalk S ?el s as w \<longrightarrow> dg_dist st ! w \<le> len ?c as)
      \<and> (let a = dg_pred st ! w in w = s \<and> a = NoArc
           \<or> a < 2 * sp_mAct S \<and> ?el a \<and> sp_SN S ! flip a = w \<and> dg_dist st ! w = dg_dist st ! (sp_SN S ! a) + ?c a)" if w: "w < ?n" for w
    using l(2,3) [OF w] l(4) [OF w _ assms(3)] by (simp add: Let_def) blast
  then show ?thesis using r(1) v by blast
qed

theorem DAGSearch_shortest_witness:
  "\<exists>st. sp_DAGSearch dg_example 0 DAG_SPTREE 0 1 NoHandle 0 = Some (Inr (NoNode, st)) \<and> dg_dist st ! 1 = 5"
proof -
  let ?S = dg_example and ?el = "plain_arc dg_example 0" and ?c = "cost dg_example SPX_PLAIN None"
  note f = dg_example_facts and d = dg_example_dag
  have n: "0 < sp_nAct ?S" "1 = NoNode \<or> 1 < sp_nAct ?S" "(0::real) \<le> 5" using f(2) by simp_all
  obtain st where r: "sp_DAGSearch ?S 0 DAG_SPTREE 0 1 NoHandle 0 = Some (Inr (NoNode, st))"
    "dg_dist st ! 1 \<noteq> InfFloat" "\<exists>as. awalk ?S ?el 0 as 1 \<and> len ?c as = dg_dist st ! 1"
    "\<forall>as. awalk ?S ?el 0 as 1 \<longrightarrow> dg_dist st ! 1 \<le> len ?c as"
  proof -
    obtain st where st: "sp_DAGSearch ?S 0 DAG_SPTREE 0 1 NoHandle 0 = Some (Inr (NoNode, st))"
      "\<forall>w < sp_nAct ?S. if dg_dist st ! w = InfFloat then \<nexists>as. awalk ?S ?el 0 as w
         else (\<exists>as. awalk ?S ?el 0 as w \<and> len ?c as = dg_dist st ! w) \<and> (\<forall>as. awalk ?S ?el 0 as w \<longrightarrow> dg_dist st ! w \<le> len ?c as)
           \<and> (let a = dg_pred st ! w in w = 0 \<and> a = NoArc
                \<or> a < 2 * sp_mAct ?S \<and> ?el a \<and> sp_SN ?S ! flip a = w \<and> dg_dist st ! w = dg_dist st ! (sp_SN ?S ! a) + ?c a)"
      using DAGSearch_shortest [OF f(1) d(1) n dg_example_bound d(4), of NoHandle 0] by blast
    have "1 < sp_nAct ?S" using f(2) by simp
    note w = st(2) [rule_format, OF this]
    have fin: "dg_dist st ! 1 \<noteq> InfFloat" using w dg_example_walk by metis
    show thesis by (rule that [OF st(1) fin]) (use w fin in simp_all)
  qed
  have le: "dg_dist st ! 1 \<le> 5" using r(4) [rule_format, OF dg_example_walk] dg_example_cost [of 0] by simp
  obtain as where as: "awalk ?S ?el 0 as 1" "len ?c as = dg_dist st ! 1" using r(3) by blast
  have "5 \<le> len ?c as"
  proof (cases as)
    case (Cons a bs)
    have "as \<noteq> [] \<Longrightarrow> a < 2" using as(1) Cons f(3) by simp
    moreover have "0 \<le> len ?c bs" if "awalk ?S ?el x bs y" for x y bs
      using that by (induction bs arbitrary: x) (use dg_example_cost f(3) in auto)
    ultimately show ?thesis using as(1) Cons dg_example_cost [of a] by force
  qed (use as(1) in simp)
  then show ?thesis using r(1) le as(2) by auto
qed

end
