(* ===== verification/Spec2Isabelle.thy ===== *)
theory Spec2Isabelle
  imports Index_Set Static_Stack Static_Queue Dynamic_Containers Basic_Heap Binary_Heap
    Fibonacci_Heap Disjoint_Family Hash_Table Dictionary Attribute_Pool Sparse_History Graph_Iterator Breadth_First Shortest_Paths Bellman_Ford Max_Flow Min_Tree
    Gauss_Elim Floyd_Warshall Components DAG_Search
begin

text \<open>
  A verification development for GOBLIN 2.8, a C++ library of graph objects and graph optimisation
  methods (\<^verbatim>\<open>lib_src/\<close>, \<^verbatim>\<open>include/\<close>).

  \<^bold>\<open>The program.\<close> A graph object owns a representation (the incidence structure in arrays and the node and
  arc labels in attribute pools), lends out investigators that read the arcs at a node, and has the
  optimisation methods. The methods use a common set of data structures: index sets, stacks, queues,
  priority queues, disjoint set families, hash tables and dictionaries. A controller turns error messages
  into exceptions. The development goes through these layers from below:

  \<^item> \<^bold>\<open>Base.\<close> \<open>Goblin_Prelude\<close>: the limits of \<^verbatim>\<open>lib_src/globals.cpp\<close>, the exception classes as the values
    \<open>goblin_error\<close>, the results \<open>'a result\<close> (\<open>Inl\<close> an exception, \<open>Inr\<close> a value), \<open>goblinController::Error\<close>.
    A read or write outside an array is the value \<open>OutOfBounds\<close>. Loops that need not end are partial
    functions with values in \<open>option\<close>: \<open>None\<close> is a call that does not return, and the theorems state that
    the calls return. No fuel is used. \<open>Result_Logic\<close> has the rules for loops over such results: \<open>oret E P r\<close> states that
    \<open>r\<close> is a call that returns, with a value that satisfies \<open>P\<close> or an exception that satisfies \<open>E\<close>.
  \<^item> \<^bold>\<open>Containers.\<close> \<open>Goblin_Queue\<close> has the base class and the contracts as locales: \<open>goblin_container\<close>, its
    extensions \<open>seq_container\<close>, \<open>prio_queue\<close> and \<open>prio_container\<close> (with \<open>ChangeKey\<close>, which the Fibonacci heap does not satisfy), each with the clients' lemmas. \<open>Index_Set\<close>, \<open>Static_Stack\<close>,
    \<open>Static_Queue\<close>, \<open>Dynamic_Containers\<close> (on an explicit store of nodes), \<open>Basic_Heap\<close>, \<open>Binary_Heap\<close> and
    \<open>Fibonacci_Heap\<close> model the classes of the files of the same names and interpret the contracts: every sequence of calls returns
    what the abstract list or finite map returns. \<open>Disjoint_Family\<close> (union by rank, path compression),
    \<open>Hash_Table\<close> and \<open>Dictionary\<close> (with rescaling) are proved against relations and maps that their
    histories of calls describe.
  \<^item> \<^bold>\<open>Matrices.\<close> \<open>Matrix\<close> (\<^verbatim>\<open>lib_src/matrix.cpp\<close>) has the dense class and the sparse class on top of the hash table; both,
    and the dispatch between them, interpret the locale \<open>coeff_matrix\<close>, in which the sums, products and conversions are
    proved. \<open>Gauss_Elim\<close> has the elimination method: when it returns, the right hand side holds the unique solutions.
  \<^item> \<^bold>\<open>Labels.\<close> \<open>Attribute\<close> and \<open>Attribute_Pool\<close>: attribute vectors with cached bounds and the pools with their
    tables of tokens; values and ranks after any history of calls.
  \<^item> \<^bold>\<open>Incidence structure.\<close> \<open>Incidence_Ring\<close> has the theory of circular lists in an array. \<open>Graph_Repr\<close> models
    \<^verbatim>\<open>lib_src/graphRepresentation.cpp\<close>, \<open>Sparse_Repr\<close> \<^verbatim>\<open>lib_src/sparseRepresentation.cpp\<close>; the record
    \<open>sparse\<close> is the state of the class. \<open>Sparse_Ops\<close>, \<open>Sparse_Cancel\<close>, \<open>Sparse_Edit\<close> and \<open>Sparse_Attributes\<close> prove the effect of
    the operations, \<open>Sparse_History\<close> that the invariant \<open>sp_inv\<close> (the arcs of every node form one ring that
    starts at \<open>first\<close>, the pools fit the numbers of nodes and arcs) holds after every history of calls
    within their guards, and that such calls return. Calls to the graph object (release of investigators,
    adjacency, degrees) are recorded in \<open>sp_calls\<close>. \<open>Dense_Graph\<close> models \<^verbatim>\<open>lib_src/denseRepresentation.cpp\<close> and the
    dense graph classes, whose incidence lists are computed from the arc indices; the three classes interpret the locale \<open>incidence_lists\<close>.
  \<^item> \<^bold>\<open>Methods.\<close> \<open>Graph_Iterator\<close> (\<^verbatim>\<open>lib_src/itGraph.cpp\<close>): the loop over \<open>Active\<close> and \<open>Read\<close> reads the arcs of a
    node once each. \<open>Breadth_First\<close>, \<open>Shortest_Paths\<close> and \<open>Bellman_Ford\<close> (\<^verbatim>\<open>lib_src/solveSPTree.cpp\<close>):
    the labels are distances and tight arcs; negative cycles are detected. \<open>DAG_Search\<close>
    (the same file) has the search of acyclic digraphs: topological numberings, critical paths, shortest paths. \<open>Floyd_Warshall\<close> (\<^verbatim>\<open>lib_src/denseDigraph.cpp\<close>):
    the arc lengths of the distance graph are the distances of all pairs of nodes. \<open>Max_Flow\<close>
    (\<^verbatim>\<open>lib_src/solveMaxFlow.cpp\<close>): shortest augmenting paths give a maximum flow. \<open>Min_Tree\<close>
    (\<^verbatim>\<open>lib_src/solveMinTree.cpp\<close>): Kruskal's method gives a spanning tree of least length. \<open>Depth_First\<close> has the loop of a depth first
    search over the investigator, with its contract as the locale \<open>dfs_search\<close> (which nodes are visited, in which order they are left);
    \<open>Components\<close> (\<^verbatim>\<open>lib_src/solveComponents.cpp\<close>) interprets it three times: the colours are the connected and the strongly connected components. The methods are stated for every
    graph that a history of the representation can produce; those that use a priority queue are proved
    once in the locales \<open>prio_queue\<close> and \<open>prio_container\<close> and hold for each heap class that satisfies them.

  \<^bold>\<open>Numbers.\<close> Labels of type \<open>double\<close> are reals: rounding is not modelled, and the infinite values are the
  constants of the code. Indices are natural numbers; where the code relies on the width of a type the bound is
  written out (\<open>UITEM_MAX\<close>, \<open>NoNode\<close>, \<open>NoArc\<close>, \<open>NoIndex\<close>), and unsigned differences that can wrap around are
  guarded. Character codes and hash values are computed with their wrap-around. Uninitialised arrays and labels are arguments.

  \<^bold>\<open>Not modelled.\<close> Tracing, timers, logging, display and memory accounting, which do not change the results;
  import and export; random generators; the classes that combine graph objects (auxiliary and shrinking networks,
  surface graphs, transformations) and the methods that need them (matching, balanced flows, cost flows
  by the network simplex method, travelling salesman, layout, planarity); the linear programming interface and
  the GLPK sources that it wraps; the shells and browsers. They are components of their own on top
  of the parts above, and are left out for their size.
\<close>

end
